(* ===== verification/Prelude.thy ===== *)
theory Prelude
  imports Main "HOL-Library.Word" "HOL-Library.Monad_Syntax"
begin

text \<open>
  Shared vocabulary of the development: the C integer and pointer types, the C operators that
  HOL has no constant for, a few facts about words read as natural numbers, and lemma
  collections used by the component theories.
\<close>

unbundle bit_operations_syntax

subsection \<open>C types and operators\<close>

type_synonym u8 = "8 word"
type_synonym u16 = "16 word"
type_synonym u32 = "32 word"
type_synonym u64 = "64 word"

text \<open>Kernel addresses on the LP64 target; \<open>NULL\<close> is address zero.\<close>

type_synonym ptr = "64 word"

abbreviation NULL :: ptr where
  "NULL \<equiv> 0"

text \<open>The C operator \<open>!\<close>: one on zero, zero on everything else.\<close>

definition c_lnot :: "'a::len word \<Rightarrow> nat" where
  "c_lnot x = (if x = 0 then 1 else 0)"

lemma c_lnot_simps [simp]:
  "c_lnot 0 = 1"
  "x \<noteq> 0 \<Longrightarrow> c_lnot x = 0"
  by (simp_all add: c_lnot_def)

text \<open>\<open>assert\<close> of kern/assert.h with assertions on: a failed one panics, which is \<open>None\<close>.\<close>

definition kassert :: "bool \<Rightarrow> unit option" where
  "kassert ex = (if ex then Some () else None)"

lemma kassert_simps [simp]: "kassert True = Some ()" "kassert False = None"
  by (simp_all add: kassert_def)

subsection \<open>Words read as natural numbers\<close>

lemma unat_less_pow: "unat (x :: 'a::len word) < 2 ^ LENGTH('a)"
  by (rule unsigned_less)

lemma unat_push_bit_eq:
  "unat (push_bit n (x :: 'a::len word)) = (unat x * 2 ^ n) mod 2 ^ LENGTH('a)"
  by (subst unsigned_push_bit_eq) (simp add: take_bit_eq_mod push_bit_eq_mult)

lemma unat_drop_bit: "unat (drop_bit n (x :: 'a::len word)) = unat x div 2 ^ n"
  by (subst unat_drop_bit_eq) (rule drop_bit_eq_div)

lemma unat_and_mask: "unat (x AND mask k :: 'a::len word) = unat x mod 2 ^ k"
  by (subst take_bit_eq_mask [symmetric], subst unsigned_take_bit_eq) (rule take_bit_eq_mod)

lemma and_mask_eq_0_iff: "(x :: 'a::len word) AND mask k = 0 \<longleftrightarrow> 2 ^ k dvd unat x"
proof -
  have "x AND mask k = 0 \<longleftrightarrow> unat (x AND mask k) = 0"
    by (simp only: unat_eq_zero)
  then show ?thesis
    by (simp only: unat_and_mask mod_eq_0_iff_dvd)
qed

lemma drop_bit_eq_0_iff: "drop_bit k (x :: 'a::len word) = 0 \<longleftrightarrow> unat x < 2 ^ k"
proof -
  have "drop_bit k x = 0 \<longleftrightarrow> unat (drop_bit k x) = 0"
    by (simp only: unat_eq_zero)
  then show ?thesis
    by (simp only: unat_drop_bit div_eq_0_iff) simp
qed

lemma and_not_mask_eq_0_iff:
  "(x :: 'a::len word) AND NOT (mask k) = 0 \<longleftrightarrow> unat x < 2 ^ k"
proof -
  have "x AND NOT (mask k) = 0 \<longleftrightarrow> x AND mask k = x"
    by (auto simp: bit_eq_iff bit_simps)
  also have "\<dots> \<longleftrightarrow> unat x mod 2 ^ k = unat x"
    by (metis unat_and_mask word_unat_eq_iff)
  also have "\<dots> \<longleftrightarrow> unat x < 2 ^ k"
    by (metis mod_less mod_less_divisor zero_less_numeral zero_less_power)
  finally show ?thesis .
qed

lemma bit_u32_iff: "bit (x :: u32) n \<longleftrightarrow> n < 32 \<and> bit x n"
  using bit_imp_le_length [of x n] by auto

lemma bit_u64_iff: "bit (x :: u64) n \<longleftrightarrow> n < 64 \<and> bit x n"
  using bit_imp_le_length [of x n] by auto

lemma bit_signed_drop_bit_word:
  "bit (signed_drop_bit m (x :: 'a::len word)) n \<longleftrightarrow>
     n < LENGTH('a) \<and> bit x (if n + m < LENGTH('a) then n + m else LENGTH('a) - 1)"
  using bit_imp_le_length [of x "m + n"]
  by (auto simp: bit_signed_drop_bit_iff ac_simps not_less)

lemma bit_63_iff: "bit (x :: u64) 63 \<longleftrightarrow> 2 ^ 63 \<le> unat x"
proof -
  have "bit (drop_bit 63 x) n \<longleftrightarrow> n = 0 \<and> bit x 63" for n
    using bit_u64_iff [of x "63 + n"] by (auto simp: bit_drop_bit_eq)
  then have "bit x 63 \<longleftrightarrow> drop_bit 63 x \<noteq> 0"
    by (metis bit_0_eq bit_word_eqI bot_apply bot_bool_def)
  then show ?thesis
    by (auto simp: drop_bit_eq_0_iff not_less)
qed

lemma signed_drop_bit_63: "signed_drop_bit 63 (x :: u64) = (if bit x 63 then -1 else 0)"
  by (rule bit_word_eqI) (auto simp: bit_signed_drop_bit_word)

lemma len64: "LENGTH(64) = 64" and len32: "LENGTH(32) = 32"
  by simp_all

lemma unat_sub_le: "unat y \<le> unat x \<Longrightarrow> unat (x - y) = unat x - unat y" for x y :: "'a::len word"
  by (simp add: unat_sub_if_size)

lemma unat_add_small: "unat x + unat y < 2 ^ LENGTH('a) \<Longrightarrow> unat (x + y) = unat x + unat y" for x y :: "'a::len word"
  by (simp add: unat_word_ariths)

lemma sint_neg_iff_bit: "sint (a :: u64) < 0 \<longleftrightarrow> bit a 63"
  using bit_last_iff [of a] by simp

lemma sint_xor_neg: "sint (a XOR b :: u64) < 0 \<longleftrightarrow> (sint a < 0) \<noteq> (sint b < 0)"
  by (simp add: sint_neg_iff_bit bit_xor_iff)

subsection \<open>Lists\<close>

lemma last_notin_butlast: "distinct L \<Longrightarrow> x \<in> set (butlast L) \<Longrightarrow> x \<noteq> last L"
  by (cases L rule: rev_cases) auto

lemma hd_notin_tl: "distinct L \<Longrightarrow> x \<in> set (tl L) \<Longrightarrow> x \<noteq> hd L"
  by (cases L) auto

end
