(* ===== verification/Arith64.thy ===== *)
theory Arith64
  imports Prelude "HOL-Library.Signed_Division"
begin

text \<open>
  Library/kmod/i386_builtins.c: the 64-bit integer routines that a 32-bit kernel extension
  links instead of libgcc. Both \<open>arith64_u64\<close> and \<open>arith64_s64\<close> are 64-bit words; a routine
  that reads one as signed uses \<open>sint\<close> or the arithmetic shift. The definitions follow the
  branch-free bodies step by step; the theorems say that each routine computes the mathematical
  operation it is named after: shifts, leading and trailing zero counts, population counts,
  quotient and remainder.
\<close>

subsection \<open>The union arith64_word\<close>

text \<open>
  The union views one 64-bit value as a pair of 32-bit halves. The target is little-endian
  (\<open>__i386__\<close>), so \<open>lo\<close> comes first; the signed view \<open>s32\<close> has the same bits.
\<close>

record arith64_word =
  w_lo :: u32
  w_hi :: u32

definition arith64_of_u64 :: "u64 \<Rightarrow> arith64_word" where
  "arith64_of_u64 n = \<lparr>w_lo = ucast n, w_hi = ucast (drop_bit 32 n)\<rparr>"

definition arith64_to_u64 :: "arith64_word \<Rightarrow> u64" where
  "arith64_to_u64 w = push_bit 32 (ucast (w_hi w)) OR ucast (w_lo w)"

definition arith64_hi :: "u64 \<Rightarrow> u32" where
  "arith64_hi n = w_hi (arith64_of_u64 n)"

definition arith64_lo :: "u64 \<Rightarrow> u32" where
  "arith64_lo n = w_lo (arith64_of_u64 n)"

text \<open>
  \<open>arith64_neg(a, b)\<close>: negate \<open>a\<close> if \<open>b\<close> is negative, via invert and increment. The C
  expression \<open>(b >= 0) - 1\<close> is \<open>0\<close> or \<open>-1\<close>, \<open>(b < 0)\<close> is \<open>0\<close> or \<open>1\<close>.
\<close>

definition arith64_neg :: "u64 \<Rightarrow> u64 \<Rightarrow> u64" where
  "arith64_neg a b =
     (a XOR ((if 0 \<le> sint b then 1 else 0) - 1)) + (if sint b < 0 then 1 else 0)"

definition arith64_abs :: "u64 \<Rightarrow> u64" where
  "arith64_abs a = arith64_neg a a"

definition absvdi2 :: "u64 \<Rightarrow> u64" where
  "absvdi2 a = arith64_abs a"

subsection \<open>Shifts\<close>

text \<open>The shift count is a C \<open>int\<close>; every routine first masks it with 63.\<close>

definition ashldi3 :: "u64 \<Rightarrow> u32 \<Rightarrow> u64" where
  "ashldi3 a b =
     (let w = arith64_of_u64 a; b = unat (b AND 63) in
      arith64_to_u64
        (if 32 \<le> b then w\<lparr>w_hi := push_bit (b - 32) (w_lo w), w_lo := 0\<rparr>
         else if b \<noteq> 0 then
           w\<lparr>w_hi := drop_bit (32 - b) (w_lo w) OR push_bit b (w_hi w), w_lo := push_bit b (w_lo w)\<rparr>
         else w))"

definition ashrdi3 :: "u64 \<Rightarrow> u32 \<Rightarrow> u64" where
  "ashrdi3 a b =
     (let w = arith64_of_u64 a; b = unat (b AND 63) in
      arith64_to_u64
        (if 32 \<le> b then
           w\<lparr>w_lo := signed_drop_bit (b - 32) (w_hi w), w_hi := signed_drop_bit 31 (w_hi w)\<rparr>
         else if b \<noteq> 0 then
           w\<lparr>w_lo := push_bit (32 - b) (w_hi w) OR drop_bit b (w_lo w),
             w_hi := signed_drop_bit b (w_hi w)\<rparr>
         else w))"

definition lshrdi3 :: "u64 \<Rightarrow> u32 \<Rightarrow> u64" where
  "lshrdi3 a b =
     (let w = arith64_of_u64 a; b = unat (b AND 63) in
      arith64_to_u64
        (if 32 \<le> b then w\<lparr>w_lo := drop_bit (b - 32) (w_hi w), w_hi := 0\<rparr>
         else if b \<noteq> 0 then
           w\<lparr>w_lo := push_bit (32 - b) (w_hi w) OR drop_bit b (w_lo w), w_hi := drop_bit b (w_hi w)\<rparr>
         else w))"

subsection \<open>Leading and trailing zeros\<close>

text \<open>
  Each statement \<open>b = !(a & mask) << k; n += b; a <<= b\<close> is one \<open>let\<close> group; \<open>b\<close> and \<open>n\<close>
  are at most 63, so natural numbers carry the C \<open>int\<close>s exactly.
\<close>

definition clzsi2 :: "u32 \<Rightarrow> nat" where
  "clzsi2 a =
     (let n = 0;
          b = push_bit 4 (c_lnot (a AND 0xffff0000)); n = n + b; a = push_bit b a;
          b = push_bit 3 (c_lnot (a AND 0xff000000)); n = n + b; a = push_bit b a;
          b = push_bit 2 (c_lnot (a AND 0xf0000000)); n = n + b; a = push_bit b a;
          b = push_bit 1 (c_lnot (a AND 0xc0000000)); n = n + b; a = push_bit b a
      in n + c_lnot (a AND 0x80000000))"

definition clzdi2 :: "u64 \<Rightarrow> nat" where
  "clzdi2 a =
     (let n = 0;
          b = push_bit 5 (c_lnot (a AND 0xffffffff00000000)); n = n + b; a = push_bit b a;
          b = push_bit 4 (c_lnot (a AND 0xffff000000000000)); n = n + b; a = push_bit b a;
          b = push_bit 3 (c_lnot (a AND 0xff00000000000000)); n = n + b; a = push_bit b a;
          b = push_bit 2 (c_lnot (a AND 0xf000000000000000)); n = n + b; a = push_bit b a;
          b = push_bit 1 (c_lnot (a AND 0xc000000000000000)); n = n + b; a = push_bit b a
      in n + c_lnot (a AND 0x8000000000000000))"

definition ctzsi2 :: "u32 \<Rightarrow> nat" where
  "ctzsi2 a =
     (let n = 0;
          b = push_bit 4 (c_lnot (a AND 0x0000ffff)); n = n + b; a = drop_bit b a;
          b = push_bit 3 (c_lnot (a AND 0x000000ff)); n = n + b; a = drop_bit b a;
          b = push_bit 2 (c_lnot (a AND 0x0000000f)); n = n + b; a = drop_bit b a;
          b = push_bit 1 (c_lnot (a AND 0x00000003)); n = n + b; a = drop_bit b a
      in n + c_lnot (a AND 0x00000001))"

definition ctzdi2 :: "u64 \<Rightarrow> nat" where
  "ctzdi2 a =
     (let n = 0;
          b = push_bit 5 (c_lnot (a AND 0x00000000ffffffff)); n = n + b; a = drop_bit b a;
          b = push_bit 4 (c_lnot (a AND 0x000000000000ffff)); n = n + b; a = drop_bit b a;
          b = push_bit 3 (c_lnot (a AND 0x00000000000000ff)); n = n + b; a = drop_bit b a;
          b = push_bit 2 (c_lnot (a AND 0x000000000000000f)); n = n + b; a = drop_bit b a;
          b = push_bit 1 (c_lnot (a AND 0x0000000000000003)); n = n + b; a = drop_bit b a
      in n + c_lnot (a AND 0x0000000000000001))"

definition ffsdi2 :: "u64 \<Rightarrow> nat" where
  "ffsdi2 a = (if a \<noteq> 0 then ctzdi2 a + 1 else 0)"

subsection \<open>Population counts\<close>

definition popcountsi2 :: "u32 \<Rightarrow> u32" where
  "popcountsi2 a =
     (let a = a - (drop_bit 1 a AND 0x55555555);
          a = (drop_bit 2 a AND 0x33333333) + (a AND 0x33333333);
          a = (a + drop_bit 4 a) AND 0x0F0F0F0F;
          a = a + drop_bit 16 a
      in (a + drop_bit 8 a) AND 63)"

definition popcountdi2 :: "u64 \<Rightarrow> u64" where
  "popcountdi2 a =
     (let a = a - (drop_bit 1 a AND 0x5555555555555555);
          a = (drop_bit 2 a AND 0x3333333333333333) + (a AND 0x3333333333333333);
          a = (a + drop_bit 4 a) AND 0x0F0F0F0F0F0F0F0F;
          a = a + drop_bit 32 a;
          a = a + drop_bit 16 a
      in (a + drop_bit 8 a) AND 127)"

subsection \<open>Division\<close>

text \<open>
  The body of \<open>while (bits-- > 0)\<close> on the registers \<open>rem\<close>, \<open>a\<close>, \<open>wrap\<close>, and the loop.
\<close>

fun divmod_step :: "u64 \<Rightarrow> u64 \<times> u64 \<times> u64 \<Rightarrow> u64 \<times> u64 \<times> u64" where
  "divmod_step b (rem, a, wrap) =
     (let rem = push_bit 1 rem OR drop_bit 63 a;
          a = push_bit 1 a OR (wrap AND 1);
          wrap = signed_drop_bit 63 (b - rem - 1);
          rem = rem - (b AND wrap)
      in (rem, a, wrap))"

fun divmod_loop :: "nat \<Rightarrow> u64 \<Rightarrow> u64 \<times> u64 \<times> u64 \<Rightarrow> u64 \<times> u64 \<times> u64" where
  "divmod_loop 0 b s = s"
| "divmod_loop (Suc bits) b s = divmod_loop bits b (divmod_step b s)"

text \<open>
  \<open>__divmoddi4(a, b, c)\<close>: the quotient and, when \<open>c\<close> is not \<open>NULL\<close>, the remainder stored
  through it. \<open>None\<close> is the division exception the code forces for a zero divisor. \<open>bits\<close> is
  a C \<open>char\<close>; \<open>b \<le> a\<close> at that point, so the count is between 1 and 64.
\<close>

definition divmoddi4 :: "u64 \<Rightarrow> u64 \<Rightarrow> bool \<Rightarrow> (u64 \<times> u64 option) option" where
  "divmoddi4 a b c =
     (let store = (\<lambda>r. if c then Some r else None) in
      if b > a then Some (0, store a)
      else if arith64_hi b = 0 \<and> b = 0 then None
      else if arith64_hi b = 0 \<and> b = 1 then Some (a, store 0)
      else if arith64_hi b = 0 \<and> arith64_hi a = 0 then
        Some (ucast (arith64_lo a div arith64_lo b), store (ucast (arith64_lo a mod arith64_lo b)))
      else
        (let bits = clzdi2 b - clzdi2 a + 1;
             rem = drop_bit bits a;
             (rem, a, wrap) = divmod_loop bits b (rem, push_bit (64 - bits) a, 0)
         in Some (push_bit 1 a OR (wrap AND 1), store rem)))"

definition udivdi3 :: "u64 \<Rightarrow> u64 \<Rightarrow> u64 option" where
  "udivdi3 a b = map_option fst (divmoddi4 a b False)"

definition umoddi3 :: "u64 \<Rightarrow> u64 \<Rightarrow> u64 option" where
  "umoddi3 a b = Option.bind (divmoddi4 a b True) snd"

definition divdi3 :: "u64 \<Rightarrow> u64 \<Rightarrow> u64 option" where
  "divdi3 a b =
     map_option (\<lambda>(q, _). arith64_neg q (a XOR b)) (divmoddi4 (arith64_abs a) (arith64_abs b) False)"

definition moddi3 :: "u64 \<Rightarrow> u64 \<Rightarrow> u64 option" where
  "moddi3 a b =
     map_option (\<lambda>r. arith64_neg r a)
       (Option.bind (divmoddi4 (arith64_abs a) (arith64_abs b) True) snd)"

subsection \<open>Leading and trailing zeros: one halving step\<close>

text \<open>
  A step that tests the upper (lower) \<open>w\<close> bits and shifts by \<open>w\<close> when they are zero. Before the
  step the highest (lowest) set bit is known to lie within \<open>2w\<close> bits of the end, after it within
  \<open>w\<close> bits; the value shifted so far is never lost.
\<close>

definition clz_shift :: "nat \<Rightarrow> 'a::len word \<Rightarrow> nat" where
  "clz_shift w a = (if unat a < 2 ^ (LENGTH('a) - w) then w else 0)"

definition ctz_shift :: "nat \<Rightarrow> 'a::len word \<Rightarrow> nat" where
  "ctz_shift w a = (if 2 ^ w dvd unat a then w else 0)"

lemma clz_step:
  fixes a :: "'a::len word"
  assumes "w + w \<le> LENGTH('a)" "2 ^ (LENGTH('a) - (w + w)) \<le> unat a" 
  shows "unat (push_bit (clz_shift w a) a) = unat a * 2 ^ clz_shift w a"
    and "2 ^ (LENGTH('a) - w) \<le> unat (push_bit (clz_shift w a) a)"
proof -
  have *: "unat a * 2 ^ w < 2 ^ LENGTH('a)" if "unat a < 2 ^ (LENGTH('a) - w)"
  proof -
    have "unat a * 2 ^ w < 2 ^ (LENGTH('a) - w) * 2 ^ w" using that by simp
    also have "\<dots> = 2 ^ LENGTH('a)" using assms(1) by (simp flip: power_add)
    finally show ?thesis .
  qed
  show 1: "unat (push_bit (clz_shift w a) a) = unat a * 2 ^ clz_shift w a"
    by (simp add: clz_shift_def unat_push_bit_eq *)
  have "(2 ^ (LENGTH('a) - w) :: nat) = 2 ^ (LENGTH('a) - (w + w)) * 2 ^ w"
    using assms(1) by (simp flip: power_add)
  also have "\<dots> \<le> unat a * 2 ^ w" using assms(2) by simp
  finally show "2 ^ (LENGTH('a) - w) \<le> unat (push_bit (clz_shift w a) a)"
    using 1 by (simp add: clz_shift_def)
qed

lemma c_lnot_not_mask: "c_lnot (a AND NOT (mask k)) = (if unat a < 2 ^ k then 1 else 0)"
  by (simp add: c_lnot_def and_not_mask_eq_0_iff)

lemma c_lnot_mask: "c_lnot (a AND mask k) = (if 2 ^ k dvd unat a then 1 else 0)"
  by (simp add: c_lnot_def and_mask_eq_0_iff)

lemma not_masks64:
  "(0xffffffff00000000 :: u64) = NOT (mask 32)" "(0xffff000000000000 :: u64) = NOT (mask 48)"
  "(0xff00000000000000 :: u64) = NOT (mask 56)" "(0xf000000000000000 :: u64) = NOT (mask 60)"
  "(0xc000000000000000 :: u64) = NOT (mask 62)" "(0x8000000000000000 :: u64) = NOT (mask 63)"
  by (simp_all add: mask_eq_exp_minus_1)

lemma not_masks32:
  "(0xffff0000 :: u32) = NOT (mask 16)" "(0xff000000 :: u32) = NOT (mask 24)"
  "(0xf0000000 :: u32) = NOT (mask 28)" "(0xc0000000 :: u32) = NOT (mask 30)"
  "(0x80000000 :: u32) = NOT (mask 31)"
  by (simp_all add: mask_eq_exp_minus_1)

lemma clz_masks64:
  "push_bit 5 (c_lnot ((a::u64) AND 0xffffffff00000000)) = clz_shift 32 a"
  "push_bit 4 (c_lnot (a AND 0xffff000000000000)) = clz_shift 16 a"
  "push_bit 3 (c_lnot (a AND 0xff00000000000000)) = clz_shift 8 a"
  "push_bit 2 (c_lnot (a AND 0xf000000000000000)) = clz_shift 4 a"
  "push_bit 1 (c_lnot (a AND 0xc000000000000000)) = clz_shift 2 a"
  "c_lnot (a AND 0x8000000000000000) = clz_shift 1 a"
  unfolding not_masks64 c_lnot_not_mask by (simp_all add: clz_shift_def)

lemma clz_masks32:
  "push_bit 4 (c_lnot ((a::u32) AND 0xffff0000)) = clz_shift 16 a"
  "push_bit 3 (c_lnot (a AND 0xff000000)) = clz_shift 8 a"
  "push_bit 2 (c_lnot (a AND 0xf0000000)) = clz_shift 4 a"
  "push_bit 1 (c_lnot (a AND 0xc0000000)) = clz_shift 2 a"
  "c_lnot (a AND 0x80000000) = clz_shift 1 a"
  unfolding not_masks32 c_lnot_not_mask by (simp_all add: clz_shift_def)

lemma ctz_masks64:
  "push_bit 5 (c_lnot ((a::u64) AND 0x00000000ffffffff)) = ctz_shift 32 a"
  "push_bit 4 (c_lnot (a AND 0x000000000000ffff)) = ctz_shift 16 a"
  "push_bit 3 (c_lnot (a AND 0x00000000000000ff)) = ctz_shift 8 a"
  "push_bit 2 (c_lnot (a AND 0x000000000000000f)) = ctz_shift 4 a"
  "push_bit 1 (c_lnot (a AND 0x0000000000000003)) = ctz_shift 2 a"
  "c_lnot (a AND 0x0000000000000001) = ctz_shift 1 a"
  using c_lnot_mask [of a 32] c_lnot_mask [of a 16] c_lnot_mask [of a 8]
    c_lnot_mask [of a 4] c_lnot_mask [of a 2] c_lnot_mask [of a 1]
  by (simp_all add: ctz_shift_def mask_eq_exp_minus_1)

lemma ctz_masks32:
  "push_bit 4 (c_lnot ((a::u32) AND 0x0000ffff)) = ctz_shift 16 a"
  "push_bit 3 (c_lnot (a AND 0x000000ff)) = ctz_shift 8 a"
  "push_bit 2 (c_lnot (a AND 0x0000000f)) = ctz_shift 4 a"
  "push_bit 1 (c_lnot (a AND 0x00000003)) = ctz_shift 2 a"
  "c_lnot (a AND 0x00000001) = ctz_shift 1 a"
  using c_lnot_mask [of a 16] c_lnot_mask [of a 8]
    c_lnot_mask [of a 4] c_lnot_mask [of a 2] c_lnot_mask [of a 1]
  by (simp_all add: ctz_shift_def mask_eq_exp_minus_1)

lemma ctz_step:
  fixes a :: "'a::len word"
  assumes "\<not> 2 ^ (w + w) dvd unat a"
  shows "unat a = unat (drop_bit (ctz_shift w a) a) * 2 ^ ctz_shift w a"
    and "\<not> 2 ^ w dvd unat (drop_bit (ctz_shift w a) a)"
proof -
  show 1: "unat a = unat (drop_bit (ctz_shift w a) a) * 2 ^ ctz_shift w a"
    by (auto simp: ctz_shift_def unat_drop_bit)
  show "\<not> 2 ^ w dvd unat (drop_bit (ctz_shift w a) a)"
  proof
    assume d: "2 ^ w dvd unat (drop_bit (ctz_shift w a) a)"
    show False
    proof (cases "2 ^ w dvd unat a")
      case True
      then have "ctz_shift w a = w" by (simp add: ctz_shift_def)
      with d 1 have "2 ^ w * 2 ^ w dvd unat a" by (metis mult_dvd_mono dvd_refl)
      with assms show False by (simp add: power_add)
    next
      case False
      with d show False by (simp add: ctz_shift_def)
    qed
  qed
qed

lemma clzdi2_bounds:
  assumes "a \<noteq> 0"
  shows "2 ^ 63 \<le> unat a * 2 ^ clzdi2 a" "unat a * 2 ^ clzdi2 a < 2 ^ 64"
proof -
  define a1 where "a1 = push_bit (clz_shift 32 a) a"
  define a2 where "a2 = push_bit (clz_shift 16 a1) a1"
  define a3 where "a3 = push_bit (clz_shift 8 a2) a2"
  define a4 where "a4 = push_bit (clz_shift 4 a3) a3"
  define a5 where "a5 = push_bit (clz_shift 2 a4) a4"
  define a6 where "a6 = push_bit (clz_shift 1 a5) a5"
  have "0 < unat a" using assms by (simp add: unat_gt_0)
  note s1 = clz_step [of 32 a, folded a1_def, simplified]
  note s2 = clz_step [of 16 a1, folded a2_def, simplified]
  note s3 = clz_step [of 8 a2, folded a3_def, simplified]
  note s4 = clz_step [of 4 a3, folded a4_def, simplified]
  note s5 = clz_step [of 2 a4, folded a5_def, simplified]
  note s6 = clz_step [of 1 a5, folded a6_def, simplified]
  have g: "2 ^ 32 \<le> unat a1" "2 ^ 48 \<le> unat a2" "2 ^ 56 \<le> unat a3" "2 ^ 60 \<le> unat a4"
      "2 ^ 62 \<le> unat a5" "2 ^ 63 \<le> unat a6"
    using s1(2) s2(2) s3(2) s4(2) s5(2) s6(2) \<open>0 < unat a\<close> by simp_all
  have "clzdi2 a = clz_shift 32 a + clz_shift 16 a1 + clz_shift 8 a2 + clz_shift 4 a3
      + clz_shift 2 a4 + clz_shift 1 a5"
    unfolding clzdi2_def Let_def clz_masks64 a5_def a4_def a3_def a2_def a1_def by simp
  then have "unat a6 = unat a * 2 ^ clzdi2 a"
    using s1(1) s2(1) s3(1) s4(1) s5(1) s6(1) g \<open>0 < unat a\<close> by (simp add: power_add ac_simps)
  then show "2 ^ 63 \<le> unat a * 2 ^ clzdi2 a" "unat a * 2 ^ clzdi2 a < 2 ^ 64"
    using g unat_less_pow [of a6] by simp_all
qed

lemma clzsi2_bounds:
  assumes "a \<noteq> 0"
  shows "2 ^ 31 \<le> unat a * 2 ^ clzsi2 a" "unat a * 2 ^ clzsi2 a < 2 ^ 32"
proof -
  define a1 where "a1 = push_bit (clz_shift 16 a) a"
  define a2 where "a2 = push_bit (clz_shift 8 a1) a1"
  define a3 where "a3 = push_bit (clz_shift 4 a2) a2"
  define a4 where "a4 = push_bit (clz_shift 2 a3) a3"
  define a5 where "a5 = push_bit (clz_shift 1 a4) a4"
  have "0 < unat a" using assms by (simp add: unat_gt_0)
  note s1 = clz_step [of 16 a, folded a1_def, simplified]
  note s2 = clz_step [of 8 a1, folded a2_def, simplified]
  note s3 = clz_step [of 4 a2, folded a3_def, simplified]
  note s4 = clz_step [of 2 a3, folded a4_def, simplified]
  note s5 = clz_step [of 1 a4, folded a5_def, simplified]
  have g: "2 ^ 16 \<le> unat a1" "2 ^ 24 \<le> unat a2" "2 ^ 28 \<le> unat a3" "2 ^ 30 \<le> unat a4"
      "2 ^ 31 \<le> unat a5"
    using s1(2) s2(2) s3(2) s4(2) s5(2) \<open>0 < unat a\<close> by simp_all
  have "clzsi2 a = clz_shift 16 a + clz_shift 8 a1 + clz_shift 4 a2 + clz_shift 2 a3
      + clz_shift 1 a4"
    unfolding clzsi2_def Let_def clz_masks32 a4_def a3_def a2_def a1_def by simp
  then have "unat a5 = unat a * 2 ^ clzsi2 a"
    using s1(1) s2(1) s3(1) s4(1) s5(1) g \<open>0 < unat a\<close> by (simp add: power_add ac_simps)
  then show "2 ^ 31 \<le> unat a * 2 ^ clzsi2 a" "unat a * 2 ^ clzsi2 a < 2 ^ 32"
    using g unat_less_pow [of a5] by simp_all
qed

lemma ctzdi2_odd_part:
  assumes "a \<noteq> 0"
  shows "\<exists>m. odd m \<and> unat a = m * 2 ^ ctzdi2 a"
proof -
  define a1 where "a1 = drop_bit (ctz_shift 32 a) a"
  define a2 where "a2 = drop_bit (ctz_shift 16 a1) a1"
  define a3 where "a3 = drop_bit (ctz_shift 8 a2) a2"
  define a4 where "a4 = drop_bit (ctz_shift 4 a3) a3"
  define a5 where "a5 = drop_bit (ctz_shift 2 a4) a4"
  define a6 where "a6 = drop_bit (ctz_shift 1 a5) a5"
  have "0 < unat a" using assms by (simp add: unat_gt_0)
  then have n0: "\<not> 2 ^ 64 dvd unat a"
    using unat_less_pow [of a] by (auto dest!: dvd_imp_le)
  note s1 = ctz_step [of 32 a, folded a1_def, simplified]
  note s2 = ctz_step [of 16 a1, folded a2_def, simplified]
  note s3 = ctz_step [of 8 a2, folded a3_def, simplified]
  note s4 = ctz_step [of 4 a3, folded a4_def, simplified]
  note s5 = ctz_step [of 2 a4, folded a5_def, simplified]
  note s6 = ctz_step [of 1 a5, folded a6_def, simplified]
  have g: "\<not> 2 ^ 32 dvd unat a1" "\<not> 2 ^ 16 dvd unat a2" "\<not> 2 ^ 8 dvd unat a3"
      "\<not> 2 ^ 4 dvd unat a4" "\<not> 2 ^ 2 dvd unat a5" "odd (unat a6)"
    using s1(2) s2(2) s3(2) s4(2) s5(2) s6(2) n0 by simp_all
  have "ctzdi2 a = ctz_shift 32 a + ctz_shift 16 a1 + ctz_shift 8 a2 + ctz_shift 4 a3
      + ctz_shift 2 a4 + ctz_shift 1 a5"
    unfolding ctzdi2_def Let_def ctz_masks64 a5_def a4_def a3_def a2_def a1_def by simp
  then have "unat a = unat a6 * 2 ^ ctzdi2 a"
    using s1(1) s2(1) s3(1) s4(1) s5(1) s6(1) g n0 by (simp add: power_add ac_simps)
  with g show ?thesis by blast
qed

lemma ctzsi2_odd_part:
  assumes "a \<noteq> 0"
  shows "\<exists>m. odd m \<and> unat a = m * 2 ^ ctzsi2 a"
proof -
  define a1 where "a1 = drop_bit (ctz_shift 16 a) a"
  define a2 where "a2 = drop_bit (ctz_shift 8 a1) a1"
  define a3 where "a3 = drop_bit (ctz_shift 4 a2) a2"
  define a4 where "a4 = drop_bit (ctz_shift 2 a3) a3"
  define a5 where "a5 = drop_bit (ctz_shift 1 a4) a4"
  have "0 < unat a" using assms by (simp add: unat_gt_0)
  then have n0: "\<not> 2 ^ 32 dvd unat a"
    using unat_less_pow [of a] by (auto dest!: dvd_imp_le)
  note s1 = ctz_step [of 16 a, folded a1_def, simplified]
  note s2 = ctz_step [of 8 a1, folded a2_def, simplified]
  note s3 = ctz_step [of 4 a2, folded a3_def, simplified]
  note s4 = ctz_step [of 2 a3, folded a4_def, simplified]
  note s5 = ctz_step [of 1 a4, folded a5_def, simplified]
  have g: "\<not> 2 ^ 16 dvd unat a1" "\<not> 2 ^ 8 dvd unat a2" "\<not> 2 ^ 4 dvd unat a3"
      "\<not> 2 ^ 2 dvd unat a4" "odd (unat a5)"
    using s1(2) s2(2) s3(2) s4(2) s5(2) n0 by simp_all
  have "ctzsi2 a = ctz_shift 16 a + ctz_shift 8 a1 + ctz_shift 4 a2 + ctz_shift 2 a3
      + ctz_shift 1 a4"
    unfolding ctzsi2_def Let_def ctz_masks32 a4_def a3_def a2_def a1_def by simp
  then have "unat a = unat a5 * 2 ^ ctzsi2 a"
    using s1(1) s2(1) s3(1) s4(1) s5(1) g n0 by (simp add: power_add ac_simps)
  with g show ?thesis by blast
qed

subsection \<open>Shifts on the two halves\<close>

lemma arith64_word_bits:
  "bit (arith64_to_u64 w) n \<longleftrightarrow> (if n < 32 then bit (w_lo w) n else bit (w_hi w) (n - 32))"
  using bit_u32_iff [of "w_lo w" n] bit_u32_iff [of "w_hi w" "n - 32"]
  by (auto simp: arith64_to_u64_def bit_simps)

lemma arith64_of_u64_bits:
  "bit (w_lo (arith64_of_u64 a)) n \<longleftrightarrow> n < 32 \<and> bit a n"
  "bit (w_hi (arith64_of_u64 a)) n \<longleftrightarrow> bit a (n + 32)"
  using bit_u64_iff [of a "n + 32"] by (auto simp: arith64_of_u64_def bit_simps add.commute)

lemma arith64_to_of_u64: "arith64_to_u64 (arith64_of_u64 a) = a"
  by (rule bit_word_eqI) (simp add: arith64_word_bits arith64_of_u64_bits)

lemma arith64_of_to_u64: "arith64_of_u64 (arith64_to_u64 w) = w"
  by (auto intro!: arith64_word.equality bit_word_eqI simp: arith64_word_bits arith64_of_u64_bits)

lemma shift_count: "unat (b AND 63 :: u32) = unat b mod 64"
  using unat_and_mask [of b 6] by (simp add: mask_eq_exp_minus_1)

lemmas arith64_bits = arith64_word_bits arith64_of_u64_bits arith64_to_of_u64
  bit_signed_drop_bit_word bit_push_bit_iff bit_drop_bit_eq bit_or_iff bit_and_iff

lemma ashldi3_push_bit: "ashldi3 a b = push_bit (unat b mod 64) a"
proof -
  define m where "m = unat b mod 64"
  have "m < 64" by (simp add: m_def)
  then show ?thesis
    unfolding ashldi3_def Let_def shift_count m_def [symmetric]
    by (intro bit_word_eqI) (auto simp: arith64_bits bit_simps)
qed

lemma lshrdi3_drop_bit: "lshrdi3 a b = drop_bit (unat b mod 64) a"
proof -
  define m where "m = unat b mod 64"
  have m: "m < 64" by (simp add: m_def)
  have *: "bit a k \<Longrightarrow> k < 64" for k using bit_u64_iff [of a k] by simp
  have "bit (lshrdi3 a b) n \<longleftrightarrow> bit a (m + n)" for n
    unfolding lshrdi3_def Let_def shift_count m_def [symmetric]
    by (cases "n + m < 32"; use m in \<open>auto simp: arith64_bits bit_simps ac_simps dest: *\<close>)
  then show ?thesis by (intro bit_word_eqI) (simp add: m_def bit_simps)
qed

lemma ashrdi3_signed_drop_bit: "ashrdi3 a b = signed_drop_bit (unat b mod 64) a"
proof -
  define m where "m = unat b mod 64"
  have m: "m < 64" by (simp add: m_def)
  have *: "bit a k \<Longrightarrow> k < 64" for k using bit_u64_iff [of a k] by simp
  have "bit (ashrdi3 a b) n \<longleftrightarrow> bit a (if n + m < 64 then n + m else 63)" if n: "n < 64" for n
    unfolding ashrdi3_def Let_def shift_count m_def [symmetric]
    by (cases "n + m < 32"; cases "n + m < 64"; use m n in \<open>auto simp: arith64_bits bit_simps ac_simps dest: *\<close>)
  then show ?thesis by (intro bit_word_eqI) (simp add: m_def bit_signed_drop_bit_word)
qed

subsection \<open>Long division\<close>

text \<open>
  With \<open>k\<close> bits still to process, \<open>rem\<close> is the remainder of the bits consumed so far, \<open>a\<close> holds the
  unconsumed bits on top and the quotient without its last bit below, and \<open>wrap\<close> is the last
  quotient bit, sign-extended.
\<close>

lemma wrap_flag:
  fixes b r :: u64
  assumes "unat r < 2 * unat b" and "unat b \<le> 2 ^ 63 \<or> unat b \<le> unat r"
  shows "signed_drop_bit 63 (b - r - 1) = (if unat b \<le> unat r then -1 else 0)"
proof -
  have "2 ^ 63 \<le> unat (b - r - 1) \<longleftrightarrow> unat b \<le> unat r"
  proof (cases "unat b \<le> unat r")
    case True
    then have "unat (b - r - 1) = 2 ^ 64 - (unat r - unat b + 1)"
      using unat_less_pow [of b] unat_less_pow [of r] 
      by (auto simp: unat_word_ariths unat_sub_if_size word_size) 
    then show ?thesis using True assms(1) unat_less_pow [of r] by simp
  next
    case False
    then have "unat (b - r - 1) = unat b - unat r - 1"
      using unat_less_pow [of b] by (auto simp: unat_sub_if_size word_size)
    then show ?thesis using False assms by simp
  qed
  then show ?thesis
    by (simp add: signed_drop_bit_63 bit_63_iff)
qed

lemma unat_shift_in:
  fixes x c :: u64
  assumes "c = 0 \<or> c = 1"
  shows "unat (push_bit 1 x OR c) = (2 * unat x) mod 2 ^ 64 + unat c"
proof -
  have "push_bit 1 x AND c = 0"
    using assms by (auto simp: bit_push_bit_iff bit_and_iff bit_1_iff bit_0 intro!: bit_word_eqI simp del: push_bit_of_1)
  then have "push_bit 1 x OR c = push_bit 1 x + c" by (simp add: disjunctive_add_eq_or)
  moreover have "unat (push_bit 1 x + c) = unat (push_bit 1 x) + unat c"
  proof -
    have e: "unat (push_bit 1 x) = (2 * unat x) mod 2 ^ 64" unfolding unat_push_bit_eq by (simp add: mult.commute)
    have "2 * unat x mod 2 ^ 64 = 2 * (unat x mod 2 ^ 63)"
      using mult_mod_right [of 2 "unat x" "2 ^ 63"] by simp
    moreover have "unat x mod 2 ^ 63 < 2 ^ 63" by simp
    ultimately have "2 * unat x mod 2 ^ 64 + 1 < 2 ^ 64" by simp
    then show ?thesis using e assms by (auto simp: unat_word_ariths)
  qed
  ultimately show ?thesis unfolding unat_push_bit_eq by (simp add: mult.commute)
qed

definition divmod_inv :: "nat \<Rightarrow> nat \<Rightarrow> nat \<Rightarrow> u64 \<times> u64 \<times> u64 \<Rightarrow> bool" where
  "divmod_inv A B k = (\<lambda>(rem, a, wrap).
     unat rem = (A div 2 ^ k) mod B \<and>
     unat a = (A mod 2 ^ k) * 2 ^ (64 - k) + (A div 2 ^ k div B) div 2 \<and>
     wrap = (if odd (A div 2 ^ k div B) then -1 else 0))"

lemma divmod_next:
  fixes A B j :: nat
  assumes "0 < B"
  defines "r \<equiv> 2 * ((A div 2 ^ Suc j) mod B) + (A div 2 ^ j) mod 2"
  shows "(A div 2 ^ j) mod B = (if B \<le> r then r - B else r)"
    and "A div 2 ^ j div B = 2 * (A div 2 ^ Suc j div B) + (if B \<le> r then 1 else 0)"
proof -
  have "A div 2 ^ j = 2 * (A div 2 ^ Suc j) + (A div 2 ^ j) mod 2"
    using mult_div_mod_eq [of 2 "A div 2 ^ j"] by (simp add: div_mult2_eq [symmetric] mult.commute)
  moreover have "2 * (A div 2 ^ Suc j) = 2 * ((A div 2 ^ Suc j) mod B) + 2 * (A div 2 ^ Suc j div B) * B"
    using arg_cong [OF mod_mult_div_eq [of "A div 2 ^ Suc j" B], of "\<lambda>x. 2 * x"]
    by (simp only: distrib_left mult.assoc mult.commute [of B])
  ultimately have e: "A div 2 ^ j = r + 2 * (A div 2 ^ Suc j div B) * B"
    unfolding r_def by linarith
  have "(A div 2 ^ Suc j) mod B < B" using assms by simp
  then have r: "r < 2 * B" unfolding r_def by linarith
  have m: "r mod B = (if B \<le> r then r - B else r)"
    using r by (simp add: mod_if le_mod_geq)
  have d: "r div B = (if B \<le> r then 1 else 0)"
    using r assms(1) by (auto simp: le_div_geq)
  show "(A div 2 ^ j) mod B = (if B \<le> r then r - B else r)" using e m by simp
  show "A div 2 ^ j div B = 2 * (A div 2 ^ Suc j div B) + (if B \<le> r then 1 else 0)"
    using e d assms(1) by simp
qed


lemma divmod_step_inv:
  assumes inv: "divmod_inv A (unat b) (Suc j) (rem, a, wrap)"
    and A: "A < 2 ^ 64" and b: "0 < unat b" and j: "j < 63"
    and Q: "A div 2 ^ Suc j div unat b < 2 ^ (63 - j)"
    and big: "unat b \<le> 2 ^ 63 \<or> unat b \<le> 2 * ((A div 2 ^ Suc j) mod unat b) + (A div 2 ^ j) mod 2"
  shows "divmod_inv A (unat b) j (divmod_step b (rem, a, wrap))"
proof -
  let ?B = "unat b" and ?be = "(A div 2 ^ j) mod 2"
  let ?R = "(A div 2 ^ Suc j) mod ?B" and ?Q = "A div 2 ^ Suc j div ?B"
  let ?r = "2 * ?R + ?be" and ?low = "(A mod 2 ^ j) * 2 ^ (63 - j) + ?Q div 2"
  have rem: "unat rem = ?R" and a: "unat a = (A mod 2 ^ Suc j) * 2 ^ (63 - j) + ?Q div 2"
    and wrap: "wrap = (if odd ?Q then -1 else 0)"
    using inv by (simp_all add: divmod_inv_def)
  have "A mod 2 ^ Suc j = ?be * 2 ^ j + A mod 2 ^ j"
    by (metis mod_mult2_eq mult.commute power_Suc2 add.commute)
  then have "(A mod 2 ^ Suc j) * 2 ^ (63 - j) = ?be * 2 ^ 63 + (A mod 2 ^ j) * 2 ^ (63 - j)"
    using j by (simp add: distrib_right mult.assoc flip: power_add)
  then have a': "unat a = ?be * 2 ^ 63 + ?low" using a by simp
  have low: "?low < 2 ^ 63"
  proof -
    have "A mod 2 ^ j + 1 \<le> 2 ^ j" by (simp add: Suc_leI)
    then have "(A mod 2 ^ j + 1) * 2 ^ (63 - j) \<le> 2 ^ j * 2 ^ (63 - j)"
      by (rule mult_right_mono) simp
    also have "\<dots> = 2 ^ 63" using j by (simp flip: power_add)
    finally show ?thesis using Q by (simp add: distrib_right)
  qed
  have top: "unat (drop_bit 63 a) = ?be"
    unfolding unat_drop_bit a' using low by simp
  then have top01: "drop_bit 63 a = 0 \<or> drop_bit 63 a = 1"
    by (auto simp: word_unat_eq_iff)
  have "A div 2 ^ Suc j \<le> A div 2 ^ 1"
    by (rule div_le_mono2) simp_all
  then have "A div 2 ^ Suc j < 2 ^ 63" using A by simp
  then have "?R < 2 ^ 63" by (rule le_less_trans [OF mod_less_eq_dividend])
  then have r1: "unat (push_bit 1 rem OR drop_bit 63 a) = ?r"
    using unat_shift_in [OF top01, of rem] rem top by simp
  have w01: "wrap AND 1 = 0 \<or> wrap AND 1 = 1" and w: "unat (wrap AND 1) = ?Q mod 2"
    using wrap by (auto simp: mod_2_eq_odd)
  have "2 * unat a mod 2 ^ 64 = 2 * ?low"
    unfolding a' using low by (simp add: distrib_left mult.left_commute)
  moreover have "2 * ?low + ?Q mod 2 = (A mod 2 ^ j) * 2 ^ (64 - j) + ?Q"
  proof -
    have "64 - j = Suc (63 - j)" using j by simp
    then have "(2::nat) ^ (64 - j) = 2 * 2 ^ (63 - j)" by (simp only: power_Suc)
    then show ?thesis by (simp add: distrib_left mult.left_commute)
  qed
  ultimately have a1: "unat (push_bit 1 a OR (wrap AND 1)) = (A mod 2 ^ j) * 2 ^ (64 - j) + ?Q"
    using unat_shift_in [OF w01, of a] w by simp
  have "?R < ?B" using b by simp
  then have "?r < 2 * ?B" by linarith
  then have w1: "signed_drop_bit 63 (b - (push_bit 1 rem OR drop_bit 63 a) - 1)
      = (if ?B \<le> ?r then -1 else 0)"
    using wrap_flag [of "push_bit 1 rem OR drop_bit 63 a" b] big by (simp only: r1)
  have r2: "unat ((push_bit 1 rem OR drop_bit 63 a) - (b AND (if ?B \<le> ?r then -1 else 0)))
      = (if ?B \<le> ?r then ?r - ?B else ?r)"
    using r1 by (simp add: unat_sub_if_size word_size)
  show ?thesis
    unfolding divmod_inv_def divmod_step.simps Let_def prod.case w1 r2 a1
    using divmod_next [OF b, of A j] by (cases "?B \<le> ?r") (simp_all del: power_Suc)
qed

lemma divmod_loop_inv:
  assumes "divmod_inv A (unat b) k s" and "A < 2 ^ 64" and "0 < unat b" and "k \<le> 63"
    and "A div 2 ^ k div unat b < 2 ^ (64 - k)"
    and "unat b \<le> 2 ^ 63 \<or> k = 0 \<or> (k = 1 \<and> unat b \<le> A \<and> A div 2 < unat b)"
  shows "divmod_inv A (unat b) 0 (divmod_loop k b s)"
  using assms
proof (induction k arbitrary: s)
  case 0
  then show ?case by simp
next
  case (Suc j)
  obtain rem a wrap where s: "s = (rem, a, wrap)" by (cases s)
  let ?r = "2 * ((A div 2 ^ Suc j) mod unat b) + (A div 2 ^ j) mod 2"
  have big: "unat b \<le> 2 ^ 63 \<or> unat b \<le> ?r"
    using Suc.prems(6) by auto
  have "divmod_inv A (unat b) j (divmod_step b s)"
    unfolding s by (rule divmod_step_inv) (use Suc.prems s big in auto)
  moreover have "A div 2 ^ j div unat b < 2 ^ (64 - j)"
  proof -
    have "A div 2 ^ j div unat b \<le> 2 * (A div 2 ^ Suc j div unat b) + 1"
      using divmod_next(2) [OF Suc.prems(3), of A j] by simp
    moreover have "64 - j = Suc (64 - Suc j)" using Suc.prems(4) by simp
    then have "(2::nat) ^ (64 - j) = 2 * 2 ^ (64 - Suc j)" by (simp only: power_Suc)
    ultimately show ?thesis using Suc.prems(5) by linarith
  qed
  moreover have "unat b \<le> 2 ^ 63 \<or> j = 0 \<or> (j = 1 \<and> unat b \<le> A \<and> A div 2 < unat b)"
    using Suc.prems(6) by auto
  ultimately show ?case using Suc.IH [of "divmod_step b s"] Suc.prems(2,3,4) by simp
qed

lemma clz_div_bits:
  fixes a b :: u64
  assumes "b \<le> a" and "1 < unat b"
  defines "bits \<equiv> clzdi2 b - clzdi2 a + 1"
  shows "0 < bits" "bits \<le> 63" "unat a div 2 ^ bits < unat b"
    and "unat b \<le> 2 ^ 63 \<or> bits = 1"
proof -
  have ab: "unat b \<le> unat a" using assms(1) by (simp add: word_le_nat_alt)
  have nz: "a \<noteq> 0" "b \<noteq> 0" using assms ab by auto
  note ca = clzdi2_bounds [OF nz(1)] and cb = clzdi2_bounds [OF nz(2)]
  have le: "clzdi2 a \<le> clzdi2 b"
  proof (rule ccontr)
    assume "\<not> clzdi2 a \<le> clzdi2 b"
    then have "(2::nat) ^ Suc (clzdi2 b) \<le> 2 ^ clzdi2 a" by (intro power_increasing) auto
    then have "unat b * 2 ^ Suc (clzdi2 b) \<le> unat a * 2 ^ clzdi2 a" using ab by (intro mult_mono) auto
    then show False using ca(2) cb(1) by simp
  qed
  show "0 < bits" by (simp add: bits_def)
  have cb62: "clzdi2 b \<le> 62"
  proof (rule ccontr)
    assume "\<not> clzdi2 b \<le> 62"
    then have "(2::nat) ^ 63 \<le> 2 ^ clzdi2 b" by (intro power_increasing) auto
    then have "2 * 2 ^ 63 \<le> unat b * 2 ^ clzdi2 b" using assms(2) by (intro mult_mono) auto
    then show False using cb(2) by simp
  qed
  then show "bits \<le> 63" by (simp add: bits_def)
  show "unat a div 2 ^ bits < unat b"
  proof -
    have "unat a * 2 ^ clzdi2 a < 2 * (unat b * 2 ^ clzdi2 b)" using ca(2) cb(1) by simp
    also have "\<dots> = unat b * 2 ^ bits * 2 ^ clzdi2 a"
      using le by (simp add: bits_def flip: power_add)
    finally have "unat a < unat b * 2 ^ bits" by simp
    then show ?thesis by (simp add: less_mult_imp_div_less)
  qed
  show "unat b \<le> 2 ^ 63 \<or> bits = 1"
  proof (cases "unat b \<le> 2 ^ 63")
    case False
    have "clzdi2 b = 0"
    proof (rule ccontr)
      assume "clzdi2 b \<noteq> 0"
      then have "(2::nat) ^ 1 \<le> 2 ^ clzdi2 b" by (intro power_increasing) auto
      then have "2 ^ 63 * 2 \<le> unat b * 2 ^ clzdi2 b" using False by (intro mult_mono) auto
      then show False using cb(2) by simp
    qed
    then show ?thesis by (simp add: bits_def)
  qed simp
qed

lemma arith64_hi_eq_0: "arith64_hi a = 0 \<longleftrightarrow> unat a < 2 ^ 32"
proof -
  have "unat (arith64_hi a) = unat (drop_bit 32 a)"
  proof -
    have "unat (drop_bit 32 a) < 2 ^ 32"
      unfolding unat_drop_bit using unat_less_pow [of a] by (simp add: less_mult_imp_div_less)
    then show ?thesis
      by (simp add: arith64_hi_def arith64_of_u64_def unsigned_ucast_eq take_bit_nat_eq_self)
  qed
  then have "arith64_hi a = 0 \<longleftrightarrow> drop_bit 32 a = 0" by (metis unat_eq_zero)
  then show ?thesis by (simp add: drop_bit_eq_0_iff)
qed

lemma unat_arith64_lo: "unat (arith64_lo a) = unat a mod 2 ^ 32"
  by (simp add: arith64_lo_def arith64_of_u64_def unsigned_ucast_eq take_bit_eq_mod)

lemma divmoddi4_correct:
  assumes "b \<noteq> 0"
  shows "divmoddi4 a b c = Some (a div b, if c then Some (a mod b) else None)"
proof -
  have B: "0 < unat b" using assms by (simp add: unat_gt_0)
  consider "a < b" | "b \<le> a" "b = 1" | "b \<le> a" "b \<noteq> 1" "unat b < 2 ^ 32" "unat a < 2 ^ 32"
    | "b \<le> a" "b \<noteq> 1" "\<not> (unat b < 2 ^ 32 \<and> unat a < 2 ^ 32)"
    by (metis not_less)
  then show ?thesis
  proof cases
    case 1
    then show ?thesis by (simp add: divmoddi4_def div_word_less mod_word_less)
  next
    case 2
    then show ?thesis by (simp add: divmoddi4_def arith64_hi_eq_0)
  next
    case 3
    then have lo: "unat (arith64_lo a) = unat a" "unat (arith64_lo b) = unat b"
      by (simp_all add: unat_arith64_lo)
    have "ucast (arith64_lo a div arith64_lo b) = a div b" "ucast (arith64_lo a mod arith64_lo b) = a mod b"
      using 3 lo unat_less_pow [of "a div b"] unat_less_pow [of "a mod b"]
      by (simp_all add: word_unat_eq_iff unat_div unat_mod unsigned_ucast_eq take_bit_nat_eq_self)
    then show ?thesis using 3 assms by (simp add: divmoddi4_def arith64_hi_eq_0 not_less [symmetric])
  next
    case 4
    define bits where "bits = clzdi2 b - clzdi2 a + 1"
    have B1: "1 < unat b" using B 4(2) by (auto simp: word_unat_eq_iff)
    note bnd = clz_div_bits [OF 4(1) B1, folded bits_def]
    have ab: "unat b \<le> unat a" using 4(1) by (simp add: word_le_nat_alt)
    let ?s = "(drop_bit bits a, push_bit (64 - bits) a, 0)"
    have "unat (push_bit (64 - bits) a) = unat a mod 2 ^ bits * 2 ^ (64 - bits)"
    proof -
      have e: "(2::nat) ^ LENGTH(64) = 2 ^ bits * 2 ^ (64 - bits)"
        using bnd(2) by (simp flip: power_add)
      show ?thesis unfolding unat_push_bit_eq e mult_mod_left ..
    qed
    then have "divmod_inv (unat a) (unat b) bits ?s"
      using bnd(3) unfolding divmod_inv_def prod.case unat_drop_bit by simp
    then have inv: "divmod_inv (unat a) (unat b) 0 (divmod_loop bits b ?s)"
      by (rule divmod_loop_inv) (use bnd B unat_less_pow [of a] ab in auto)
    obtain rem a' wrap where s: "divmod_loop bits b ?s = (rem, a', wrap)"
      by (cases "divmod_loop bits b ?s")
    have rem: "rem = a mod b" and a': "unat a' = unat (a div b) div 2"
      and wrap: "wrap = (if odd (unat (a div b)) then -1 else 0)"
      using inv unfolding s divmod_inv_def by (simp_all add: word_unat_eq_iff unat_div unat_mod)
    have "wrap AND 1 = 0 \<or> wrap AND 1 = 1" using wrap by simp
    from unat_shift_in [OF this, of a'] have "unat (push_bit 1 a' OR (wrap AND 1)) = unat (a div b)"
      using wrap a' unat_less_pow [of "a div b"] by (simp add: mod_2_eq_odd)
    then have q: "push_bit 1 a' OR (wrap AND 1) = a div b" by (simp only: word_unat_eq_iff)
    have n: "\<not> a < b" "\<not> (arith64_hi b = 0 \<and> b = 0)" "\<not> (arith64_hi b = 0 \<and> b = 1)"
        "\<not> (arith64_hi b = 0 \<and> arith64_hi a = 0)"
      using 4 assms by (auto simp: arith64_hi_eq_0)
    show ?thesis
      unfolding divmoddi4_def Let_def bits_def [symmetric] s prod.case q rem
      by (simp only: n if_False)
  qed
qed

subsection \<open>Signed division\<close>

lemma arith64_neg_eq: "arith64_neg a b = (if sint b < 0 then - a else a)"
  by (simp add: arith64_neg_def minus_eq_not_plus_1 [of a] not_less)

lemma uint_arith64_abs: "uint (arith64_abs a) = \<bar>sint a\<bar>"
proof -
  have u: "0 \<le> uint a" "uint a < 2 ^ 64"
    using uint_lt2p [of a] by simp_all
  have 1: "sint a = uint a - (if bit a 63 then 2 ^ 64 else 0)"
    using take_bit_int_eq_self [OF u]
    by (simp add: sint_uint signed_take_bit_eq_take_bit_minus bit_uint_iff)
  show ?thesis
    using u 1 sint_neg_iff_bit [of a]
    by (auto simp: arith64_abs_def arith64_neg_eq uint_word_ariths zmod_zminus1_eq_if uint_0_iff)
qed

lemma word_of_int_abs_div:
  "(word_of_int (\<bar>sint a\<bar> div \<bar>sint b\<bar>) :: u64) = arith64_abs a div arith64_abs b"
  "(word_of_int (\<bar>sint a\<bar> mod \<bar>sint b\<bar>) :: u64) = arith64_abs a mod arith64_abs b"
  by (simp_all add: word_div_def word_mod_def flip: uint_arith64_abs)

lemma arith64_abs_eq_0: "arith64_abs a = 0 \<longleftrightarrow> a = 0"
  by (simp add: arith64_abs_def arith64_neg_eq)

lemma divdi3_eq_sdiv:
  assumes "b \<noteq> 0"
  shows "divdi3 a b = Some (word_of_int (sint a sdiv sint b))"
proof -
  have "divdi3 a b = Some (arith64_neg (arith64_abs a div arith64_abs b) (a XOR b))"
    using assms by (simp add: divdi3_def divmoddi4_correct arith64_abs_eq_0)
  also have "arith64_neg (arith64_abs a div arith64_abs b) (a XOR b) = word_of_int (sint a sdiv sint b)"
    unfolding word_of_int_abs_div(1) [symmetric] arith64_neg_eq sint_xor_neg signed_divide_int_def
    by (auto simp: sgn_if)
  finally show ?thesis .
qed

lemma moddi3_eq_smod:
  assumes "b \<noteq> 0"
  shows "moddi3 a b = Some (word_of_int (sint a smod sint b))"
proof -
  have "moddi3 a b = Some (arith64_neg (arith64_abs a mod arith64_abs b) a)"
    using assms by (simp add: moddi3_def divmoddi4_correct arith64_abs_eq_0)
  also have "arith64_neg (arith64_abs a mod arith64_abs b) a = word_of_int (sint a smod sint b)"
    unfolding word_of_int_abs_div(2) [symmetric] arith64_neg_eq signed_modulo_int_def
    by (auto simp: sgn_if)
  finally show ?thesis .
qed

subsection \<open>Population count by lanes\<close>

text \<open>
  \<open>lanes_val w xs\<close> packs the numbers \<open>xs\<close> into lanes of \<open>w\<close> bits. Each step of the population
  count replaces neighbouring lanes by their sum in a lane of twice the width.
\<close>

fun lanes_val :: "nat \<Rightarrow> nat list \<Rightarrow> nat" where
  "lanes_val w [] = 0"
| "lanes_val w (x # xs) = x + 2 ^ w * lanes_val w xs"

fun lane_mask :: "nat \<Rightarrow> nat \<Rightarrow> nat" where
  "lane_mask w 0 = 0"
| "lane_mask w (Suc n) = mask w + 2 ^ (w + w) * lane_mask w n"

fun pair_sums :: "nat list \<Rightarrow> nat list" where
  "pair_sums (x # y # zs) = (x + y) # pair_sums zs"
| "pair_sums xs = xs"

lemma sum_list_pair_sums: "sum_list (pair_sums xs) = sum_list xs"
  by (induction xs rule: pair_sums.induct) auto

lemma length_pair_sums: "even (length xs) \<Longrightarrow> length (pair_sums xs) = length xs div 2"
  by (induction xs rule: pair_sums.induct) auto

lemma pair_sums_bound: "\<forall>x \<in> set xs. x \<le> k \<Longrightarrow> \<forall>x \<in> set (pair_sums xs). x \<le> 2 * k"
  by (induction xs rule: pair_sums.induct) auto

lemma lanes_val_less: "\<forall>x \<in> set xs. x < 2 ^ w \<Longrightarrow> lanes_val w xs < 2 ^ (w * length xs)"
proof (induction xs)
  case (Cons x xs)
  then have "lanes_val w xs + 1 \<le> 2 ^ (w * length xs)" by simp
  then have "2 ^ w * (lanes_val w xs + 1) \<le> 2 ^ w * 2 ^ (w * length xs)" by (rule mult_left_mono) simp
  then show ?case using Cons.prems by (simp add: power_add distrib_left)
qed simp

lemma lanes_val_less_half:
  "\<forall>x \<in> set xs. x < 2 ^ w \<Longrightarrow> 2 * lanes_val (Suc w) xs < 2 ^ (Suc w * length xs)"
proof (induction xs)
  case (Cons x xs)
  then have "2 * lanes_val (Suc w) xs + 1 \<le> 2 ^ (Suc w * length xs)" by simp
  then have "2 ^ Suc w * (2 * lanes_val (Suc w) xs + 1) \<le> 2 ^ Suc w * 2 ^ (Suc w * length xs)"
    by (rule mult_left_mono) simp
  then show ?case using Cons.prems by (simp add: power_add distrib_left)
qed simp

lemma and_lane_mask:
  fixes u :: nat
  shows "u AND (mask w + 2 ^ (w + w) * Y) = u mod 2 ^ w + 2 ^ (w + w) * ((u div 2 ^ (w + w)) AND Y)"
proof -
  let ?h = "drop_bit (w + w) u AND Y"
  have d: "mask w AND push_bit (w + w) Y = 0" "take_bit w u AND push_bit (w + w) ?h = 0"
    by (auto simp: bit_eq_iff bit_simps)
  have "u AND (mask w OR push_bit (w + w) Y) = take_bit w u OR push_bit (w + w) ?h"
    by (auto simp: bit_eq_iff bit_simps)
  then have "u AND (mask w + push_bit (w + w) Y) = take_bit w u + push_bit (w + w) ?h"
    by (simp only: disjunctive_add_eq_or [OF d(1)] disjunctive_add_eq_or [OF d(2)])
  then show ?thesis
    by (simp only: push_bit_eq_mult take_bit_eq_mod drop_bit_eq_div mult.commute)
qed

lemma lanes_val_mod: "x < 2 ^ w \<Longrightarrow> (x + 2 ^ w * Z) mod 2 ^ w = x" for x :: nat
  by simp

lemma lanes_two:
  fixes x y Z :: nat
  assumes "x < 2 ^ w" "y < 2 ^ w"
  shows "(x + 2 ^ w * (y + 2 ^ w * Z)) div 2 ^ (w + w) = Z"
    and "(y + 2 ^ w * Z) div 2 ^ (w + w) = Z div 2 ^ w"
  using assms by (simp_all add: power_add div_mult2_eq)

lemma popcount_step1:
  assumes "\<forall>x \<in> set xs. x \<le> 1" and "length xs = 2 * n"
  shows "lanes_val 1 xs - ((lanes_val 1 xs div 2) AND lane_mask 1 n) = lanes_val 2 (pair_sums xs)
     \<and> (lanes_val 1 xs div 2) AND lane_mask 1 n \<le> lanes_val 1 xs"
  using assms
proof (induction n arbitrary: xs)
  case (Suc n)
  then obtain x y zs where xs: "xs = x # y # zs" and len: "length zs = 2 * n"
    by (auto simp: length_Suc_conv)
  have xy: "x < 2 ^ 1" "y < 2 ^ 1" using Suc.prems xs by auto
  let ?Z = "lanes_val 1 zs"
  have u: "lanes_val 1 xs = x + 2 * y + 4 * ?Z" by (simp add: xs)
  have v: "lanes_val 1 xs div 2 = y + 2 ^ 1 * ?Z" using xy by (simp add: xs)
  have e: "(lanes_val 1 xs div 2) AND lane_mask 1 (Suc n) = y + 4 * ((?Z div 2) AND lane_mask 1 n)"
    unfolding v lane_mask.simps and_lane_mask lanes_val_mod [OF xy(2)] lanes_two(2) [OF xy]
    by simp
  have IH: "?Z - ((?Z div 2) AND lane_mask 1 n) = lanes_val 2 (pair_sums zs)"
      "(?Z div 2) AND lane_mask 1 n \<le> ?Z"
    using Suc.IH [of zs] Suc.prems(1) xs len by simp_all
  have "lanes_val 2 (pair_sums xs) = x + y + 4 * lanes_val 2 (pair_sums zs)" by (simp add: xs)
  then show ?case unfolding e using u IH by (intro conjI) linarith+
qed simp

lemma popcount_step2:
  assumes "\<forall>x \<in> set xs. x < 2 ^ w" and "length xs = 2 * n"
  shows "((lanes_val w xs div 2 ^ w) AND lane_mask w n) + (lanes_val w xs AND lane_mask w n)
    = lanes_val (w + w) (pair_sums xs)"
  using assms
proof (induction n arbitrary: xs)
  case (Suc n)
  then obtain x y zs where xs: "xs = x # y # zs" and len: "length zs = 2 * n"
    by (auto simp: length_Suc_conv)
  have xy: "x < 2 ^ w" "y < 2 ^ w" using Suc.prems xs by auto
  let ?Z = "lanes_val w zs"
  have u: "lanes_val w xs = x + 2 ^ w * (y + 2 ^ w * ?Z)" by (simp add: xs)
  have v: "lanes_val w xs div 2 ^ w = y + 2 ^ w * ?Z" using xy by (simp add: u)
  have "(lanes_val w xs div 2 ^ w) AND lane_mask w (Suc n)
      = y + 2 ^ (w + w) * ((?Z div 2 ^ w) AND lane_mask w n)"
    unfolding v lane_mask.simps and_lane_mask lanes_val_mod [OF xy(2)] lanes_two(2) [OF xy] ..
  moreover have "lanes_val w xs AND lane_mask w (Suc n) = x + 2 ^ (w + w) * (?Z AND lane_mask w n)"
    unfolding u lane_mask.simps and_lane_mask lanes_val_mod [OF xy(1)] lanes_two(1) [OF xy] ..
  moreover have "lanes_val (w + w) (pair_sums xs) = x + y + 2 ^ (w + w) * lanes_val (w + w) (pair_sums zs)"
    by (simp add: xs)
  ultimately show ?case using Suc.IH [of zs] Suc.prems(1) xs len by (simp flip: distrib_left)
qed simp

lemma popcount_step3:
  assumes "\<forall>x \<in> set xs. x < 2 ^ w" and "length xs = 2 * n"
  shows "(lanes_val (Suc w) xs + lanes_val (Suc w) xs div 2 ^ Suc w) AND lane_mask (Suc w) n
    = lanes_val (Suc w + Suc w) (pair_sums xs)"
  using assms
proof (induction n arbitrary: xs)
  case (Suc n)
  then obtain x y zs where xs: "xs = x # y # zs" and len: "length zs = 2 * n"
    by (auto simp: length_Suc_conv)
  let ?v = "Suc w" let ?Z = "lanes_val ?v zs"
  have xy: "x < 2 ^ ?v" "y < 2 ^ ?v" "x + y < 2 ^ ?v" using Suc.prems xs by auto
  have z: "?Z mod 2 ^ ?v < 2 ^ w"
    using Suc.prems(1) xs by (cases zs) auto
  then have yz: "y + ?Z mod 2 ^ ?v < 2 ^ ?v" using Suc.prems(1) xs by auto
  have u: "lanes_val ?v xs = x + 2 ^ ?v * (y + 2 ^ ?v * ?Z)" by (simp only: xs lanes_val.simps)
  have v: "lanes_val ?v xs div 2 ^ ?v = y + 2 ^ ?v * ?Z" unfolding u using xy by simp
  have "?Z = ?Z mod 2 ^ ?v + 2 ^ ?v * (?Z div 2 ^ ?v)" by simp
  then have k: "lanes_val ?v xs + lanes_val ?v xs div 2 ^ ?v
      = (x + y) + 2 ^ ?v * ((y + ?Z mod 2 ^ ?v) + 2 ^ ?v * (?Z + ?Z div 2 ^ ?v))"
    unfolding v by (simp only: u distrib_left add.assoc add.left_commute)
  have "(?Z + ?Z div 2 ^ ?v) AND lane_mask ?v n = lanes_val (?v + ?v) (pair_sums zs)"
    using Suc.IH [of zs] Suc.prems(1) xs len by simp
  then show ?case
    unfolding k lane_mask.simps and_lane_mask lanes_two(1) [OF xy(3) yz] lanes_val_mod [OF xy(3)]
    by (simp add: xs)
qed simp

lemma lane_mask_add: "lane_mask w (m + n) = lane_mask w m + 2 ^ ((w + w) * m) * lane_mask w n"
  by (induction m) (simp_all add: power_add distrib_left ac_simps)

lemma lane_mask_double:
  "lane_mask w (numeral (num.Bit0 n))
     = lane_mask w (numeral n) + 2 ^ ((w + w) * numeral n) * lane_mask w (numeral n)"
  by (simp only: numeral_Bit0 lane_mask_add)

lemma lane_masks:
  "unat (0x5555555555555555 :: u64) = lane_mask 1 32" "unat (0x3333333333333333 :: u64) = lane_mask 2 16"
  "unat (0x0F0F0F0F0F0F0F0F :: u64) = lane_mask 4 8"
  "unat (0x55555555 :: u32) = lane_mask 1 16" "unat (0x33333333 :: u32) = lane_mask 2 8"
  "unat (0x0F0F0F0F :: u32) = lane_mask 4 4"
  by (simp_all add: lane_mask_double mask_eq_exp_minus_1)

definition bit_list :: "'a::len word \<Rightarrow> nat list" where
  "bit_list a = map (\<lambda>i. of_bool (bit a i)) [0..<LENGTH('a)]"

lemma unat_bit_list: "unat (a :: 'a::len word) = lanes_val 1 (bit_list a)"
proof -
  have h: "lanes_val 1 (map of_bool bs) = horner_sum of_bool 2 bs" for bs :: "bool list"
    by (induction bs) simp_all
  have "horner_sum of_bool 2 (map (bit (unat a)) [0..<LENGTH('a)]) = take_bit LENGTH('a) (unat a)"
    by (rule horner_sum_bit_eq_take_bit)
  also have "\<dots> = unat a" by (simp add: take_bit_nat_eq_self)
  also have "map (bit (unat a)) [0..<LENGTH('a)] = map (bit a) [0..<LENGTH('a)]"
    by (auto simp: bit_unsigned_iff)
  finally show ?thesis using h [of "map (bit a) [0..<LENGTH('a)]"] by (simp add: bit_list_def comp_def)
qed

lemma bit_list_bounds: "\<forall>x \<in> set (bit_list a). x \<le> 1" "length (bit_list (a :: 'a::len word)) = LENGTH('a)"
  by (auto simp: bit_list_def)

lemma popcountdi2_lanes:
  fixes a :: u64
  defines "es \<equiv> pair_sums (pair_sums (pair_sums (bit_list a)))"
  defines "x \<equiv> a - (drop_bit 1 a AND 0x5555555555555555)"
  defines "y \<equiv> (drop_bit 2 x AND 0x3333333333333333) + (x AND 0x3333333333333333)"
  shows "unat ((y + drop_bit 4 y) AND 0x0F0F0F0F0F0F0F0F) = lanes_val 8 es"
    and "length es = 8" and "\<forall>e \<in> set es. e \<le> 8"
proof -
  let ?b = "bit_list a" let ?c = "pair_sums ?b" let ?d = "pair_sums ?c"
  have len: "length ?b = 64" "length ?c = 32" "length ?d = 16"
    by (simp_all add: length_pair_sums bit_list_bounds)
  have bd: "\<forall>e \<in> set ?b. e \<le> 1" "\<forall>e \<in> set ?c. e \<le> 2" "\<forall>e \<in> set ?d. e \<le> 4" 
    using bit_list_bounds(1) [of a] pair_sums_bound [of ?b 1] pair_sums_bound [of ?c 2] by simp_all
  show "\<forall>e \<in> set es. e \<le> 8" using pair_sums_bound [OF bd(3)] by (simp add: es_def)
  show "length es = 8" by (simp add: es_def length_pair_sums len)
  have s1: "lanes_val 1 ?b - ((lanes_val 1 ?b div 2) AND lane_mask 1 32) = lanes_val 2 ?c"
      "(lanes_val 1 ?b div 2) AND lane_mask 1 32 \<le> lanes_val 1 ?b"
    using popcount_step1 [OF bd(1), of 32] len(1) by simp_all
  have ux: "unat x = lanes_val 2 ?c"
    unfolding x_def using s1
    by (subst unat_sub_le) (simp_all only: unsigned_and_eq unat_drop_bit lane_masks unat_bit_list [of a] power_one_right)
  have "lanes_val 4 ?d < 2 ^ 64"
    using lanes_val_less [of ?d 4] bd(3) len by fastforce
  moreover have s2: "((lanes_val 2 ?c div 2 ^ 2) AND lane_mask 2 16) + (lanes_val 2 ?c AND lane_mask 2 16) = lanes_val 4 ?d"
    using popcount_step2 [of ?c 2 16] bd(2) len(2) by fastforce
  ultimately have uy: "unat y = lanes_val 4 ?d"
    unfolding y_def 
    by (subst unat_add_small) (simp_all only: unsigned_and_eq unat_drop_bit lane_masks ux len64)
  have half: "lanes_val 4 ?d < 2 ^ 63"
    using lanes_val_less_half [of ?d 3] bd(3) len by fastforce
  have "\<forall>e \<in> set ?d. e < 2 ^ 3" using bd(3) by fastforce
  from popcount_step3 [OF this, of 8]
  have s3: "(lanes_val 4 ?d + lanes_val 4 ?d div 2 ^ 4) AND lane_mask 4 8 = lanes_val 8 es"
    using len(3) by (simp add: es_def)
  have "unat (y + drop_bit 4 y) = lanes_val 4 ?d + lanes_val 4 ?d div 2 ^ 4"
    using half by (subst unat_add_small) (simp_all add: unat_drop_bit uy)
  then show "unat ((y + drop_bit 4 y) AND 0x0F0F0F0F0F0F0F0F) = lanes_val 8 es"
    using s3 by (simp only: unsigned_and_eq lane_masks)
qed

lemma length_8_conv: "length xs = 8 \<Longrightarrow> \<exists>a b c d e f g h. xs = [a, b, c, d, e, f, g, h]"
  by (auto simp: numeral_eq_Suc length_Suc_conv)

lemma length_4_conv: "length xs = 4 \<Longrightarrow> \<exists>a b c d. xs = [a, b, c, d]"
  by (auto simp: numeral_eq_Suc length_Suc_conv)

lemma popcountdi2_correct: "unat (popcountdi2 a) = sum_list (bit_list a)"
proof -
  define x where "x = a - (drop_bit 1 a AND 0x5555555555555555)"
  define y where "y = (drop_bit 2 x AND 0x3333333333333333) + (x AND 0x3333333333333333)"
  define z where "z = (y + drop_bit 4 y) AND 0x0F0F0F0F0F0F0F0F"
  define es where "es = pair_sums (pair_sums (pair_sums (bit_list a)))"
  note z = popcountdi2_lanes [of a, folded x_def, folded y_def, folded z_def es_def]
  obtain p q r s t u v w where es: "es = [p, q, r, s, t, u, v, w]"
    using length_8_conv [OF z(2)] by blast
  have bd: "p \<le> 8" "q \<le> 8" "r \<le> 8" "s \<le> 8" "t \<le> 8" "u \<le> 8" "v \<le> 8" "w \<le> 8"
    using z(3) by (simp_all add: es)
  have uz: "unat z = p + 256 * (q + 256 * (r + 256 * (s + 256 * (t + 256 * (u + 256 * (v + 256 * w))))))"
    using z(1) by (simp add: es)
  define z1 where "z1 = z + drop_bit 32 z"
  define z2 where "z2 = z1 + drop_bit 16 z1"
  have u1: "unat z1 = (p + t) + 256 * ((q + u) + 256 * ((r + v) + 256 * ((s + w) + 256 * (t + 256 * (u + 256 * (v + 256 * w))))))"
    unfolding z1_def using bd by (subst unat_add_small) (simp_all add: unat_drop_bit uz)
  have u2: "unat z2 = (p + t + r + v) + 256 * ((q + u + s + w) + 256 * ((r + v + t) + 256 * ((s + w + u) + 256 * (t + v + 256 * (u + w + 256 * (v + 256 * w))))))"
    unfolding z2_def using bd by (subst unat_add_small) (simp_all add: unat_drop_bit u1)
  have u3: "unat (z2 + drop_bit 8 z2) mod 128 = p + q + r + s + t + u + v + w"
  proof -
    define X Y K where "X = p + t + r + v" and "Y = q + u + s + w"
      and "K = r + v + t + 256 * (s + w + u + 256 * (t + v + 256 * (u + w + 256 * (v + 256 * w))))"
    have z2: "unat z2 = X + 256 * (Y + 256 * K)" and XY: "X \<le> 32" "Y \<le> 32" "K < 2 ^ 46"
      using u2 bd by (simp_all add: X_def Y_def K_def)
    then have "unat z2 div 2 ^ 8 = Y + 256 * K" by simp
    then have "unat (z2 + drop_bit 8 z2) = X + Y + 128 * (2 * Y + 514 * K)"
      using z2 XY by (subst unat_add_small) (simp_all add: unat_drop_bit)
    then have "unat (z2 + drop_bit 8 z2) mod 128 = (X + Y) mod 128" by (simp only: mod_mult_self2)
    then have "unat (z2 + drop_bit 8 z2) mod 128 = X + Y" using XY by simp
    then show ?thesis by (simp add: X_def Y_def)
  qed
  have "unat (popcountdi2 a) = unat ((z2 + drop_bit 8 z2) AND mask 7)"
    by (simp add: popcountdi2_def Let_def mask_eq_exp_minus_1 x_def y_def z_def z1_def z2_def)
  also have "\<dots> = sum_list es" unfolding unat_and_mask using u3 by (simp add: es)
  finally show ?thesis by (simp add: es_def sum_list_pair_sums)
qed

lemma popcountsi2_lanes:
  fixes a :: u32
  defines "es \<equiv> pair_sums (pair_sums (pair_sums (bit_list a)))"
  defines "x \<equiv> a - (drop_bit 1 a AND 0x55555555)"
  defines "y \<equiv> (drop_bit 2 x AND 0x33333333) + (x AND 0x33333333)"
  shows "unat ((y + drop_bit 4 y) AND 0x0F0F0F0F) = lanes_val 8 es"
    and "length es = 4" and "\<forall>e \<in> set es. e \<le> 8"
proof -
  let ?b = "bit_list a" let ?c = "pair_sums ?b" let ?d = "pair_sums ?c"
  have len: "length ?b = 32" "length ?c = 16" "length ?d = 8"
    by (simp_all add: length_pair_sums bit_list_bounds)
  have bd: "\<forall>e \<in> set ?b. e \<le> 1" "\<forall>e \<in> set ?c. e \<le> 2" "\<forall>e \<in> set ?d. e \<le> 4" 
    using bit_list_bounds(1) [of a] pair_sums_bound [of ?b 1] pair_sums_bound [of ?c 2] by simp_all
  show "\<forall>e \<in> set es. e \<le> 8" using pair_sums_bound [OF bd(3)] by (simp add: es_def)
  show "length es = 4" by (simp add: es_def length_pair_sums len)
  have s1: "lanes_val 1 ?b - ((lanes_val 1 ?b div 2) AND lane_mask 1 16) = lanes_val 2 ?c"
      "(lanes_val 1 ?b div 2) AND lane_mask 1 16 \<le> lanes_val 1 ?b"
    using popcount_step1 [OF bd(1), of 16] len(1) by simp_all
  have ux: "unat x = lanes_val 2 ?c"
    unfolding x_def using s1
    by (subst unat_sub_le) (simp_all only: unsigned_and_eq unat_drop_bit lane_masks unat_bit_list [of a] power_one_right)
  have "lanes_val 4 ?d < 2 ^ 32"
    using lanes_val_less [of ?d 4] bd(3) len by fastforce
  moreover have s2: "((lanes_val 2 ?c div 2 ^ 2) AND lane_mask 2 8) + (lanes_val 2 ?c AND lane_mask 2 8) = lanes_val 4 ?d"
    using popcount_step2 [of ?c 2 8] bd(2) len(2) by fastforce
  ultimately have uy: "unat y = lanes_val 4 ?d"
    unfolding y_def 
    by (subst unat_add_small) (simp_all only: unsigned_and_eq unat_drop_bit lane_masks ux len32)
  have half: "lanes_val 4 ?d < 2 ^ 31"
    using lanes_val_less_half [of ?d 3] bd(3) len by fastforce
  have "\<forall>e \<in> set ?d. e < 2 ^ 3" using bd(3) by fastforce
  from popcount_step3 [OF this, of 4]
  have s3: "(lanes_val 4 ?d + lanes_val 4 ?d div 2 ^ 4) AND lane_mask 4 4 = lanes_val 8 es"
    using len(3) by (simp add: es_def)
  have "unat (y + drop_bit 4 y) = lanes_val 4 ?d + lanes_val 4 ?d div 2 ^ 4"
    using half by (subst unat_add_small) (simp_all add: unat_drop_bit uy)
  then show "unat ((y + drop_bit 4 y) AND 0x0F0F0F0F) = lanes_val 8 es"
    using s3 by (simp only: unsigned_and_eq lane_masks)
qed

lemma popcountsi2_correct: "unat (popcountsi2 a) = sum_list (bit_list a)"
proof -
  define x where "x = a - (drop_bit 1 a AND 0x55555555)"
  define y where "y = (drop_bit 2 x AND 0x33333333) + (x AND 0x33333333)"
  define z where "z = (y + drop_bit 4 y) AND 0x0F0F0F0F"
  define es where "es = pair_sums (pair_sums (pair_sums (bit_list a)))"
  note z = popcountsi2_lanes [of a, folded x_def, folded y_def, folded z_def es_def]
  obtain p q r s where es: "es = [p, q, r, s]" using length_4_conv [OF z(2)] by blast
  have bd: "p \<le> 8" "q \<le> 8" "r \<le> 8" "s \<le> 8" using z(3) by (simp_all add: es)
  have uz: "unat z = p + 256 * (q + 256 * (r + 256 * s))" using z(1) by (simp add: es)
  define z1 where "z1 = z + drop_bit 16 z"
  have u1: "unat z1 = (p + r) + 256 * ((q + s) + 256 * (r + 256 * s))"
    unfolding z1_def using bd by (subst unat_add_small) (simp_all add: unat_drop_bit uz)
  then have "unat z1 div 2 ^ 8 = (q + s) + 256 * (r + 256 * s)" using bd by simp
  then have "unat (z1 + drop_bit 8 z1)
      = (p + q + r + s) + 64 * (4 * (q + s) + 1028 * (r + 256 * s))"
    using bd u1 by (subst unat_add_small) (simp_all add: unat_drop_bit)
  then have "unat (z1 + drop_bit 8 z1) mod 64 = (p + q + r + s) mod 64"
    by (simp only: mod_mult_self2)
  then have "unat (z1 + drop_bit 8 z1) mod 64 = p + q + r + s" using bd by simp
  moreover have "unat (popcountsi2 a) = unat ((z1 + drop_bit 8 z1) AND mask 6)"
    by (simp add: popcountsi2_def Let_def mask_eq_exp_minus_1 x_def y_def z_def z1_def)
  ultimately have "unat (popcountsi2 a) = sum_list es" unfolding unat_and_mask by (simp add: es)
  then show ?thesis by (simp add: es_def sum_list_pair_sums)
qed

subsection \<open>The routines compute what they are named after\<close>

lemma divmoddi4_zero: "divmoddi4 a 0 c = None"
  by (simp add: divmoddi4_def arith64_hi_eq_0)

text \<open>
  C5: \<open>__divmoddi4\<close> returns the unsigned quotient and stores the unsigned remainder through a
  non-null pointer for every divisor other than zero, and forces the division exception for a
  zero divisor. No branch of the code (small divisor, divisor one, 32-bit operands, long
  division) is excluded.
\<close>

theorem divmoddi4_quotient_remainder:
  "divmoddi4 a b c =
     (if b = 0 then None else Some (a div b, if c then Some (a mod b) else None))"
  by (simp add: divmoddi4_zero divmoddi4_correct)

text \<open>
  \<open>__divdi3\<close> and \<open>__moddi3\<close> are C's truncating signed division and remainder on 64-bit
  two's complement values (wrapping for the one overflowing case), and a zero divisor raises
  the division exception.
\<close>

theorem signed_division_truncates:
  "divdi3 a b = (if b = 0 then None else Some (word_of_int (sint a sdiv sint b)))
   \<and> moddi3 a b = (if b = 0 then None else Some (word_of_int (sint a smod sint b)))"
  by (simp add: divdi3_eq_sdiv moddi3_eq_smod)
    (simp add: divdi3_def moddi3_def arith64_abs_def arith64_neg_eq divmoddi4_zero)

lemma clz_from_bounds:
  fixes A :: nat
  assumes "2 ^ L \<le> A * 2 ^ n" and "A * 2 ^ n < 2 ^ Suc L" and "0 < A"
  shows "n \<le> L" and "2 ^ (L - n) \<le> A" and "A < 2 ^ (Suc L - n)"
proof -
  show n: "n \<le> L"
  proof (rule ccontr)
    assume "\<not> n \<le> L"
    then have "(2::nat) ^ Suc L \<le> 2 ^ n" by (intro power_increasing) auto
    also have "\<dots> \<le> A * 2 ^ n" using assms(3) by simp
    finally show False using assms(2) by simp
  qed
  then have e: "(2::nat) ^ L = 2 ^ (L - n) * 2 ^ n" "(2::nat) ^ Suc L = 2 ^ (Suc L - n) * 2 ^ n"
    by (simp_all flip: power_add power_Suc)
  show "2 ^ (L - n) \<le> A" "A < 2 ^ (Suc L - n)"
    using assms(1,2) unfolding e by simp_all
qed

lemma bit_iff_odd_unat: "bit (a :: 'a::len word) i \<longleftrightarrow> odd (unat a div 2 ^ i)"
  by (metis bit_iff_odd bit_unsigned_iff possible_bit_nat bit_imp_le_length possible_bit_word)

text \<open>
  \<open>__clzdi2\<close> and \<open>__clzsi2\<close> return the number of leading zero bits of every non-zero argument:
  the value lies between the powers of two that this count determines.
\<close>

theorem clz_counts_leading_zeros:
  assumes "a \<noteq> 0" and "b \<noteq> 0"
  shows "clzdi2 a \<le> 63 \<and> 2 ^ (63 - clzdi2 a) \<le> unat a \<and> unat a < 2 ^ (64 - clzdi2 a)
    \<and> clzsi2 b \<le> 31 \<and> 2 ^ (31 - clzsi2 b) \<le> unat b \<and> unat b < 2 ^ (32 - clzsi2 b)"
  using clz_from_bounds [of 63 "unat a" "clzdi2 a"] clzdi2_bounds [OF assms(1)]
    clz_from_bounds [of 31 "unat b" "clzsi2 b"] clzsi2_bounds [OF assms(2)] assms
  by (simp add: unat_gt_0)

theorem clz_counts_leading_zeros_witness:
  "clzdi2 0x1234 = 51 \<and> clzsi2 0x1234 = 19
   \<and> (clzdi2 0x1234 \<le> 63 \<and> 2 ^ (63 - clzdi2 0x1234) \<le> unat (0x1234 :: u64)
   \<and> unat (0x1234 :: u64) < 2 ^ (64 - clzdi2 0x1234)
   \<and> clzsi2 0x1234 \<le> 31 \<and> 2 ^ (31 - clzsi2 0x1234) \<le> unat (0x1234 :: u32)
   \<and> unat (0x1234 :: u32) < 2 ^ (32 - clzsi2 0x1234))"
proof -
  have "clzdi2 0x1234 = 51" "clzsi2 0x1234 = 19" by code_simp+
  with clz_counts_leading_zeros [of "0x1234" "0x1234"] show ?thesis by simp
qed

lemma lowest_bit_from_odd_part:
  fixes a :: "'a::len word"
  assumes "odd m" and "unat a = m * 2 ^ n"
  shows "bit a n" and "i < n \<Longrightarrow> \<not> bit a i"
proof -
  show "bit a n" using assms by (simp add: bit_iff_odd_unat)
  assume "i < n"
  then have "unat a = m * 2 ^ (n - i) * 2 ^ i" using assms(2) by (simp flip: power_add)
  then show "\<not> bit a i" using \<open>i < n\<close> by (simp add: bit_iff_odd_unat)
qed

text \<open>
  \<open>__ctzdi2\<close> and \<open>__ctzsi2\<close> return the index of the lowest set bit of every non-zero argument, and
  \<open>__ffsdi2\<close> that index counted from one, zero for a zero argument.
\<close>

theorem ctz_finds_lowest_bit:
  assumes "a \<noteq> 0" and "b \<noteq> 0"
  shows "bit a (ctzdi2 a) \<and> (\<forall>i<ctzdi2 a. \<not> bit a i)
    \<and> bit b (ctzsi2 b) \<and> (\<forall>i<ctzsi2 b. \<not> bit b i)
    \<and> ffsdi2 a = Suc (ctzdi2 a) \<and> ffsdi2 0 = 0"
proof -
  obtain m m' where "odd m" "unat a = m * 2 ^ ctzdi2 a" "odd m'" "unat b = m' * 2 ^ ctzsi2 b"
    using ctzdi2_odd_part [OF assms(1)] ctzsi2_odd_part [OF assms(2)] by blast
  then show ?thesis
    using lowest_bit_from_odd_part [of m a "ctzdi2 a"] lowest_bit_from_odd_part [of m' b "ctzsi2 b"]
      assms by (simp add: ffsdi2_def)
qed

theorem ctz_finds_lowest_bit_witness:
  "ctzdi2 0x1230 = 4 \<and> ctzsi2 0x1230 = 4 \<and> bit (0x1230 :: u64) (ctzdi2 0x1230)
   \<and> bit (0x1230 :: u32) (ctzsi2 0x1230) \<and> ffsdi2 0x1230 = 5"
proof -
  have "ctzdi2 0x1230 = 4" "ctzsi2 0x1230 = 4" by code_simp+
  with ctz_finds_lowest_bit [of "0x1230" "0x1230"] show ?thesis by simp
qed

lemma sum_list_bit_list: "sum_list (bit_list (a :: 'a::len word)) = card {i. bit a i}"
proof -
  have "sum_list (bit_list a) = (\<Sum>i\<leftarrow>[0..<LENGTH('a)]. of_bool (bit a i))"
    by (simp add: bit_list_def)
  also have "\<dots> = (\<Sum>i\<in>{0..<LENGTH('a)}. of_bool (bit a i))"
    by (simp add: sum_list_distinct_conv_sum_set)
  also have "\<dots> = card {i \<in> {0..<LENGTH('a)}. bit a i}"
    by (simp add: sum.If_cases of_bool_def Int_def)
  also have "{i \<in> {0..<LENGTH('a)}. bit a i} = {i. bit a i}"
    by (auto dest: bit_imp_le_length)
  finally show ?thesis .
qed

text \<open>
  \<open>__popcountdi2\<close> and \<open>__popcountsi2\<close> return the number of one bits of their argument.
\<close>

theorem popcount_counts_one_bits:
  "unat (popcountdi2 a) = card {i. bit a i} \<and> unat (popcountsi2 b) = card {i. bit b i}"
  by (simp add: popcountdi2_correct popcountsi2_correct sum_list_bit_list)

text \<open>
  \<open>__ashldi3\<close>, \<open>__lshrdi3\<close> and \<open>__ashrdi3\<close>, which work on the two 32-bit halves, shift the whole
  64-bit value left, logically right and arithmetically right by the count modulo 64.
\<close>

theorem shifts_of_halves:
  "ashldi3 a n = push_bit (unat n mod 64) a
   \<and> lshrdi3 a n = drop_bit (unat n mod 64) a
   \<and> ashrdi3 a n = signed_drop_bit (unat n mod 64) a"
  by (simp add: ashldi3_push_bit lshrdi3_drop_bit ashrdi3_signed_drop_bit)

end
