(* ===== verification/Arith128.thy ===== *)
theory Arith128
  imports Prelude
begin

text \<open>
  128-bit and overflow-checked arithmetic. kern/arithmetic_128.h has the high half of a 64 by 64 bit
  product, once through the 128-bit compiler type and once composed of 32-bit parts. IOKit's
  BigNum128.h has the class \<open>U128\<close>, a pair of 64-bit halves with carry and borrow. os/overflow.h builds
  compound operations on the overflow-checking compiler builtins, whose operands are exact
  integers and whose result type has a width and a sign.
\<close>

subsection \<open>kern/arithmetic_128.h\<close>

text \<open>The LP64 version.\<close>

definition multi_overflow_lp64 :: "u64 \<Rightarrow> u64 \<Rightarrow> u64" where
  "multi_overflow_lp64 a b = (let prod = (ucast a :: 128 word) * ucast b in ucast (drop_bit 64 prod))"

text \<open>The version without a 128-bit type.\<close>

record uint128_data_t =
  u_high :: u64
  u_low :: u64

definition add128_128 :: "uint128_data_t \<Rightarrow> uint128_data_t \<Rightarrow> uint128_data_t" where
  "add128_128 acc add =
     (let acc = acc\<lparr>u_high := u_high acc + u_high add\<rparr>;
          acc = acc\<lparr>u_low := u_low acc + u_low add\<rparr>
      in if u_low acc < u_low add then acc\<lparr>u_high := u_high acc + 1\<rparr> else acc)"

definition mul64x64 :: "u64 \<Rightarrow> u64 \<Rightarrow> uint128_data_t" where
  "mul64x64 x y =
     (let x1 = ucast (drop_bit 32 x) :: u32; x2 = ucast x :: u32;
          y1 = ucast (drop_bit 32 y) :: u32; y2 = ucast y :: u32;
          prod = \<lparr>u_high = ucast x1 * ucast y1, u_low = ucast x2 * ucast y2\<rparr>;
          low = ucast x1 * ucast y2 :: u64;
          add = \<lparr>u_high = drop_bit 32 low, u_low = push_bit 32 low\<rparr>;
          prod = add128_128 prod add;
          low = ucast x2 * ucast y1;
          add = \<lparr>u_high = drop_bit 32 low, u_low = push_bit 32 low\<rparr>
      in add128_128 prod add)"

definition multi_overflow :: "u64 \<Rightarrow> u64 \<Rightarrow> u64" where
  "multi_overflow a b = u_high (mul64x64 a b)"

subsection \<open>IOKit/audio/BigNum128.h\<close>

record U128 =
  lo :: u64
  hi :: u64

definition U128_of :: "u64 \<Rightarrow> U128" where "U128_of x = \<lparr>lo = x, hi = 0\<rparr>"

definition U128_pair :: "u64 \<Rightarrow> u64 \<Rightarrow> U128" where "U128_pair h l = \<lparr>lo = l, hi = h\<rparr>"

text \<open>The first argument is the object, the second the argument \<open>A\<close> of the operator.\<close>

definition U128_eq :: "U128 \<Rightarrow> U128 \<Rightarrow> bool" where
  "U128_eq this A \<longleftrightarrow> hi A = hi this \<and> lo A = lo this"

definition U128_gt :: "U128 \<Rightarrow> U128 \<Rightarrow> bool" where
  "U128_gt this A \<longleftrightarrow> hi A > hi this \<or> (hi A = hi this \<and> lo A > lo this)"

definition U128_lt :: "U128 \<Rightarrow> U128 \<Rightarrow> bool" where
  "U128_lt this A \<longleftrightarrow> \<not> (hi A > hi this \<or> (hi A = hi this \<and> lo A > lo this))"

text \<open>\<open>++\<close> and \<open>--\<close>, postfix: the returned value and the object afterwards.\<close>

definition U128_inc :: "U128 \<Rightarrow> U128 \<times> U128" where
  "U128_inc this =
     (let this = this\<lparr>lo := lo this + 1\<rparr>;
          this = (if lo this = 0 then this\<lparr>hi := hi this + 1\<rparr> else this)
      in (this, this))"

definition U128_dec :: "U128 \<Rightarrow> U128 \<times> U128" where
  "U128_dec this =
     (let old = lo this;
          this = this\<lparr>lo := lo this - 1\<rparr>;
          this = (if 0 = old then this\<lparr>hi := hi this - 1\<rparr> else this)
      in (this, this))"

definition U128_assign :: "U128 \<Rightarrow> U128 \<Rightarrow> U128" where
  "U128_assign this A = this\<lparr>hi := hi A, lo := lo A\<rparr>"

definition U128_add :: "U128 \<Rightarrow> U128 \<Rightarrow> U128" where
  "U128_add this A =
     (let result = U128_pair (hi A + hi this) (lo A + lo this)
      in if lo result < lo A \<or> lo result < lo this then result\<lparr>hi := hi result + 1\<rparr> else result)"

definition U128_add_assign :: "U128 \<Rightarrow> U128 \<Rightarrow> U128" where
  "U128_add_assign this A =
     (let result = U128_pair (hi A + hi this) (lo A + lo this);
          result = (if lo result < lo A \<or> lo result < lo this then result\<lparr>hi := hi result + 1\<rparr> else result)
      in U128_assign this result)"

definition U128_sub :: "U128 \<Rightarrow> U128 \<Rightarrow> U128" where
  "U128_sub A B =
     (let C = A\<lparr>hi := hi A - hi B\<rparr>;
          C = C\<lparr>lo := lo C - lo B\<rparr>
      in if lo C > lo A then C\<lparr>hi := hi C - 1\<rparr> else C)"

definition MSB64 :: u64 where "MSB64 = 0x8000000000000000"

text \<open>
  \<open>while (n--)\<close> runs \<open>n\<close> times; a negative \<open>n\<close> runs into the overflow of a signed integer, which C++
  leaves undefined (\<open>None\<close>).
\<close>

primrec shl_loop :: "nat \<Rightarrow> U128 \<Rightarrow> U128" where
  "shl_loop 0 res = res"
| "shl_loop (Suc n) res =
     (let res = res\<lparr>hi := push_bit 1 (hi res)\<rparr>;
          res = res\<lparr>hi := hi res OR (if lo res AND MSB64 \<noteq> 0 then 1 else 0)\<rparr>;
          res = res\<lparr>lo := push_bit 1 (lo res)\<rparr>
      in shl_loop n res)"

definition U128_shl :: "U128 \<Rightarrow> int \<Rightarrow> U128 option" where
  "U128_shl A n = (if n < 0 then None else Some (shl_loop (nat n) A))"

primrec shr_loop :: "nat \<Rightarrow> U128 \<Rightarrow> U128" where
  "shr_loop 0 res = res"
| "shr_loop (Suc n) res =
     (let res = res\<lparr>lo := drop_bit 1 (lo res)\<rparr>;
          res = res\<lparr>lo := lo res OR (if hi res AND 1 \<noteq> 0 then MSB64 else 0)\<rparr>;
          res = res\<lparr>hi := drop_bit 1 (hi res)\<rparr>
      in shr_loop n res)"

definition U128_shr :: "U128 \<Rightarrow> int \<Rightarrow> U128 option" where
  "U128_shr A n = (if n < 0 then None else Some (shr_loop (nat n) A))"

subsection \<open>os/overflow.h\<close>

text \<open>An integer type: its width and whether it is signed. \<open>c_wrap\<close> is the conversion to it.\<close>

record c_type =
  ct_width :: nat
  ct_signed :: bool

definition c_wrap :: "c_type \<Rightarrow> int \<Rightarrow> int" where
  "c_wrap t x = (if ct_signed t then signed_take_bit (ct_width t - 1) x else take_bit (ct_width t) x)"

text \<open>
  The builtins perform the operation on exact integers, store the result converted to the result
  type and return whether that changed it.
\<close>

definition os_add_overflow :: "c_type \<Rightarrow> int \<Rightarrow> int \<Rightarrow> bool \<times> int" where
  "os_add_overflow t a b = (c_wrap t (a + b) \<noteq> a + b, c_wrap t (a + b))"

definition os_sub_overflow :: "c_type \<Rightarrow> int \<Rightarrow> int \<Rightarrow> bool \<times> int" where
  "os_sub_overflow t a b = (c_wrap t (a - b) \<noteq> a - b, c_wrap t (a - b))"

definition os_mul_overflow :: "c_type \<Rightarrow> int \<Rightarrow> int \<Rightarrow> bool \<times> int" where
  "os_mul_overflow t a b = (c_wrap t (a * b) \<noteq> a * b, c_wrap t (a * b))"

definition os_add3_overflow :: "c_type \<Rightarrow> int \<Rightarrow> int \<Rightarrow> int \<Rightarrow> bool \<times> int" where
  "os_add3_overflow t a b c =
     (let (s, tmp) = os_add_overflow t a b; (r, res) = os_add_overflow t c tmp in (s \<or> r, res))"

definition os_mul3_overflow :: "c_type \<Rightarrow> int \<Rightarrow> int \<Rightarrow> int \<Rightarrow> bool \<times> int" where
  "os_mul3_overflow t a b c =
     (let (s, tmp) = os_mul_overflow t a b; (r, res) = os_mul_overflow t c tmp in (s \<or> r, res))"

definition os_add_and_mul_overflow :: "c_type \<Rightarrow> int \<Rightarrow> int \<Rightarrow> int \<Rightarrow> bool \<times> int" where
  "os_add_and_mul_overflow t a b x =
     (let (s, tmp) = os_add_overflow t a b; (r, res) = os_mul_overflow t x tmp in (s \<or> r, res))"

definition os_mul_and_add_overflow :: "c_type \<Rightarrow> int \<Rightarrow> int \<Rightarrow> int \<Rightarrow> bool \<times> int" where
  "os_mul_and_add_overflow t a x b =
     (let (s, tmp) = os_mul_overflow t a x; (r, res) = os_add_overflow t b tmp in (s \<or> r, res))"

definition os_convert_overflow :: "c_type \<Rightarrow> int \<Rightarrow> bool \<times> int" where
  "os_convert_overflow t a = os_add_overflow t a 0"

definition os_inc_overflow :: "c_type \<Rightarrow> int \<Rightarrow> bool \<times> int" where
  "os_inc_overflow t res = os_add_overflow t res 1"

definition os_dec_overflow :: "c_type \<Rightarrow> int \<Rightarrow> bool \<times> int" where
  "os_dec_overflow t res = os_sub_overflow t res 1"

subsection \<open>The 128-bit value of a pair of halves\<close>

definition pair_val :: "u64 \<Rightarrow> u64 \<Rightarrow> nat" where
  "pair_val h l = unat h * 2 ^ 64 + unat l"

abbreviation u128_val :: "uint128_data_t \<Rightarrow> nat" where "u128_val d \<equiv> pair_val (u_high d) (u_low d)"

abbreviation U128_val :: "U128 \<Rightarrow> nat" where "U128_val d \<equiv> pair_val (hi d) (lo d)"

lemma pair_val_less: "pair_val h l < 2 ^ 128"
  using unat_less_pow [of h] unat_less_pow [of l] by (simp add: pair_val_def)

lemma pair_val_hi: "pair_val h l div 2 ^ 64 = unat h"
  using unat_less_pow [of l] by (simp add: pair_val_def)

lemma pair_val_eq_iff: "pair_val h l = pair_val h' l' \<longleftrightarrow> h = h' \<and> l = l'"
proof
  assume e: "pair_val h l = pair_val h' l'"
  then have "unat h = unat h'" by (metis pair_val_hi)
  with e show "h = h' \<and> l = l'" by (simp add: pair_val_def word_unat_eq_iff)
qed simp

lemma pair_val_less_iff: "pair_val h l < pair_val h' l' \<longleftrightarrow> h < h' \<or> (h = h' \<and> l < l')"
proof -
  have "unat l < 2 ^ 64" "unat l' < 2 ^ 64" using unat_less_pow [of l] unat_less_pow [of l'] by simp_all
  then show ?thesis
    unfolding pair_val_def word_less_nat_alt word_unat_eq_iff
    by (cases "unat h" "unat h'" rule: linorder_cases) auto
qed

lemma pair_val_of:
  assumes "unat h = A mod 2 ^ 64" "unat l = r"
  shows "pair_val h l = (A * 2 ^ 64 + r) mod 2 ^ 128"
proof -
  have r: "r < 2 ^ 64" using unat_less_pow [of l] assms(2) by simp
  have "(A * 2 ^ 64 + r) mod (2 ^ 64 * 2 ^ 64) = 2 ^ 64 * (A mod 2 ^ 64) + r"
    using r by (subst mod_mult2_eq) simp
  then show ?thesis using assms by (simp add: pair_val_def)
qed

lemma carry_iff: "l + l' < (l' :: u64) \<longleftrightarrow> 2 ^ 64 \<le> unat l + unat l'"
  using unat_less_pow [of l] unat_less_pow [of l'] by (auto simp: word_less_nat_alt unat_word_ariths mod_if)

lemma pair_val_add:
  "pair_val (h + h' + (if l + l' < l' then 1 else 0)) (l + l') = (pair_val h l + pair_val h' l') mod 2 ^ 128"
proof -
  let ?c = "(if l + l' < l' then 1 else 0) :: nat"
  have 1: "unat (h + h' + (if l + l' < l' then 1 else 0)) = (unat h + unat h' + ?c) mod 2 ^ 64"
    by (simp add: unat_word_ariths mod_simps)
  have "unat l + unat l' = ?c * 2 ^ 64 + unat (l + l')"
    using unat_less_pow [of l] unat_less_pow [of l'] unfolding carry_iff
    by (auto simp: unat_word_ariths mod_if)
  then have "(unat h + unat h' + ?c) * 2 ^ 64 + unat (l + l') = pair_val h l + pair_val h' l'"
    by (simp add: pair_val_def distrib_right)
  with pair_val_of [OF 1 refl, of "l + l'"] show ?thesis by simp
qed

lemma borrow_iff: "l < l - (l' :: u64) \<longleftrightarrow> l < l'"
  using unat_less_pow [of l] unat_less_pow [of l'] by (auto simp: word_less_nat_alt unat_sub_if_size word_size)

lemma pair_val_sub:
  "(pair_val (h - h' - (if l < l - l' then 1 else 0)) (l - l') + pair_val h' l') mod 2 ^ 128 = pair_val h l"
  using pair_val_add [of "h - h' - (if l < l - l' then 1 else 0)" h' "l - l'" l', symmetric]
  by (simp add: borrow_iff)

lemma sub_mod_unique:
  assumes "(x + b) mod M = a" "x < M" "a < (M :: nat)" "b < M"
  shows "x = (a + (M - b)) mod M"
proof -
  have "(a + (M - b)) mod M = (x + b + (M - b)) mod M"
    using assms(1) by (simp add: mod_simps flip: assms(1))
  then show ?thesis using assms by simp
qed

lemma u128_add: "u128_val (add128_128 a b) = (u128_val a + u128_val b) mod 2 ^ 128"
  using pair_val_add [of "u_high a" "u_high b" "u_low a" "u_low b"] by (auto simp: add128_128_def Let_def)

lemma unat_ucast_up: "LENGTH('a::len) \<le> LENGTH('b::len) \<Longrightarrow> unat (ucast x :: 'b word) = unat x" for x :: "'a::len word"
proof -
  assume "LENGTH('a) \<le> LENGTH('b)"
  then have "unat x < 2 ^ LENGTH('b)"
    by (intro less_le_trans [OF unat_less_pow power_increasing]) simp_all
  then show ?thesis by (simp add: unsigned_ucast_eq take_bit_nat_eq_self)
qed

lemma unat_mul_32: "unat (ucast a * ucast b :: u64) = unat a * unat b" for a b :: u32
proof -
  have "unat a * unat b \<le> (2 ^ 32 - 1) * (2 ^ 32 - 1)"
    using unat_less_pow [of a] unat_less_pow [of b] by (intro mult_mono) simp_all
  then show ?thesis by (simp add: unat_word_ariths unat_ucast_up)
qed

lemma middle_term: "u128_val \<lparr>u_high = drop_bit 32 p, u_low = push_bit 32 p\<rparr> = unat p * 2 ^ 32"
proof -
  have "unat p * 2 ^ 32 = (unat p * 2 ^ 32) div 2 ^ 64 * 2 ^ 64 + (unat p * 2 ^ 32) mod 2 ^ 64"
    by (rule div_mult_mod_eq [symmetric])
  moreover have "(unat p * 2 ^ 32) div 2 ^ 64 = unat p div 2 ^ 32"
    using div_mult2_eq [of "unat p * 2 ^ 32" "2 ^ 32" "2 ^ 32"] by simp
  ultimately show ?thesis by (simp add: pair_val_def unat_drop_bit unat_push_bit_eq)
qed

lemma split_32: "unat (ucast (drop_bit 32 x) :: u32) * 2 ^ 32 + unat (ucast x :: u32) = unat x" for x :: u64
proof -
  have "unat x div 2 ^ 32 < 2 ^ 32" using unat_less_pow [of x] by (simp add: less_mult_imp_div_less)
  then show ?thesis by (simp add: unsigned_ucast_eq take_bit_eq_mod unat_drop_bit)
qed

lemma mul64x64_val: "u128_val (mul64x64 x y) = unat x * unat y"
proof -
  define x1 x2 y1 y2 where xy: "x1 = (ucast (drop_bit 32 x) :: u32)" "x2 = (ucast x :: u32)"
    "y1 = (ucast (drop_bit 32 y) :: u32)" "y2 = (ucast y :: u32)"
  have "u128_val (mul64x64 x y) = (unat x1 * unat y1 * 2 ^ 64 + unat x2 * unat y2 + unat x1 * unat y2 * 2 ^ 32 + unat x2 * unat y1 * 2 ^ 32) mod 2 ^ 128"
    unfolding mul64x64_def Let_def u128_add middle_term xy [symmetric]
    by (simp add: unat_mul_32 pair_val_def mod_simps)
  also have "unat x1 * unat y1 * 2 ^ 64 + unat x2 * unat y2 + unat x1 * unat y2 * 2 ^ 32 + unat x2 * unat y1 * 2 ^ 32
      = (unat x1 * 2 ^ 32 + unat x2) * (unat y1 * 2 ^ 32 + unat y2)"
    by (simp add: algebra_simps)
  also have "\<dots> = unat x * unat y"
    by (simp only: xy split_32)
  also have "unat x * unat y mod 2 ^ 128 = unat x * unat y"
  proof -
    have "unat x * unat y \<le> (2 ^ 64 - 1) * (2 ^ 64 - 1)"
      using unat_less_pow [of x] unat_less_pow [of y] by (intro mult_mono) simp_all
    then show ?thesis by simp
  qed
  finally show ?thesis .
qed

text \<open>
  C35: \<open>mul64x64\<close> computes the exact 128-bit product of any two 64-bit values from 32-bit parts, and
  both versions of \<open>multi_overflow\<close> return its high half.
\<close>
theorem mul64x64_exact:
  "u128_val (mul64x64 x y) = unat x * unat y \<and> unat (multi_overflow x y) = unat x * unat y div 2 ^ 64 \<and>
   multi_overflow_lp64 x y = multi_overflow x y"
proof -
  have h: "unat (multi_overflow x y) = unat x * unat y div 2 ^ 64"
    using pair_val_hi [of "u_high (mul64x64 x y)" "u_low (mul64x64 x y)"] by (simp add: multi_overflow_def mul64x64_val)
  have b: "unat x * unat y \<le> (2 ^ 64 - 1) * (2 ^ 64 - 1)"
    using unat_less_pow [of x] unat_less_pow [of y] by (intro mult_mono) simp_all
  then have "unat ((ucast x :: 128 word) * ucast y) = unat x * unat y"
    by (simp add: unat_word_ariths unat_ucast_up)
  then have "unat (multi_overflow_lp64 x y) = unat x * unat y div 2 ^ 64"
    using b by (simp add: multi_overflow_lp64_def unsigned_ucast_eq take_bit_eq_mod unat_drop_bit)
  then show ?thesis using h mul64x64_val by (simp add: word_unat_eq_iff)
qed

subsection \<open>U128\<close>

lemma U128_add_val: "U128_val (U128_add a b) = (U128_val a + U128_val b) mod 2 ^ 128"
proof -
  have "lo b + lo a < lo a \<longleftrightarrow> lo b + lo a < lo b"
    using carry_iff [of "lo a" "lo b"] carry_iff [of "lo b" "lo a"] by (simp add: add.commute)
  then show ?thesis
    using pair_val_add [of "hi b" "hi a" "lo b" "lo a"]
    by (auto simp: U128_add_def U128_pair_def Let_def add.commute)
qed

lemma U128_sub_val: "U128_val (U128_sub a b) = (U128_val a + (2 ^ 128 - U128_val b)) mod 2 ^ 128"
  using pair_val_sub [of "hi a" "hi b" "lo a" "lo b"]
  by (intro sub_mod_unique pair_val_less) (auto simp: U128_sub_def Let_def)

lemma U128_inc_val: "U128_val (snd (U128_inc a)) = (U128_val a + 1) mod 2 ^ 128"
  using pair_val_add [of "hi a" 0 "lo a" 1] by (auto simp: U128_inc_def Let_def pair_val_def [of 0 1] word_less_1)

lemma U128_dec_val: "U128_val (snd (U128_dec a)) = (U128_val a + (2 ^ 128 - 1)) mod 2 ^ 128"
proof -
  have "lo a < lo a - 1 \<longleftrightarrow> lo a = 0"
    using borrow_iff [of "lo a" 1] by (simp add: word_less_1)
  then have "U128_val (snd (U128_dec a)) = U128_val (U128_sub a \<lparr>lo = 1, hi = 0\<rparr>)"
    by (auto simp: U128_dec_def U128_sub_def Let_def)
  then show ?thesis by (simp add: U128_sub_val pair_val_def [of 0 1])
qed

lemma shl_step:
  "pair_val (push_bit 1 h OR (if l AND MSB64 \<noteq> 0 then 1 else 0)) (push_bit 1 l) = (2 * pair_val h l) mod 2 ^ 128"
proof -
  have "l AND MSB64 \<noteq> 0 \<longleftrightarrow> bit l 63"
    unfolding MSB64_def by (simp add: bit_iff_and_push_bit_not_eq_0 [of l 63])
  moreover have "l + l < l \<longleftrightarrow> bit l 63"
    unfolding carry_iff bit_63_iff by auto
  ultimately have c: "l AND MSB64 \<noteq> 0 \<longleftrightarrow> l + l < l" by blast
  have p: "push_bit 1 x = x + x" for x :: u64
    by (simp add: push_bit_eq_mult)
  have "push_bit 1 h + 1 = push_bit 1 h OR 1"
    by (rule disjunctive_add) (auto simp only: bit_push_bit_iff bit_1_iff)
  then have o: "push_bit 1 h OR (if P then 1 else 0) = h + h + (if P then 1 else 0)" for P
    unfolding p by (cases P) (simp_all only: if_True if_False or.right_neutral add_0_right)
  show ?thesis
    unfolding c o p [of l] using pair_val_add [of h h l l] by (simp only: mult_2)
qed

lemma shl_loop_val: "U128_val (shl_loop n a) = (U128_val a * 2 ^ n) mod 2 ^ 128"
proof (induction n arbitrary: a)
  case 0
  then show ?case using pair_val_less [of "hi a" "lo a"] by simp
next
  case (Suc n)
  have "U128_val (shl_loop (Suc n) a) = ((2 * U128_val a) mod 2 ^ 128 * 2 ^ n) mod 2 ^ 128"
    using shl_step [of "hi a" "lo a"] by (simp add: Suc Let_def)
  then show ?case by (simp add: mod_simps ac_simps)
qed

lemma shr_step:
  "pair_val (drop_bit 1 h) (drop_bit 1 l OR (if h AND 1 \<noteq> 0 then MSB64 else 0)) = pair_val h l div 2"
proof -
  have o: "h AND 1 \<noteq> 0 \<longleftrightarrow> odd (unat h)"
    by (simp add: and_one_eq word_unat_eq_iff unat_mod odd_iff_mod_2_eq_one)
  have "drop_bit 1 l OR MSB64 = drop_bit 1 l + MSB64"
  proof (rule disjunctive_add [symmetric])
    fix n show "\<not> bit (drop_bit 1 l) n \<or> \<not> bit MSB64 n"
    proof -
      have "MSB64 = 2 ^ 63" by (simp add: MSB64_def)
      then have "bit MSB64 n \<longleftrightarrow> n = 63" unfolding \<open>MSB64 = 2 ^ 63\<close> bit_exp_iff by auto
      then show ?thesis using bit_imp_le_length [of l "1 + n"] by (auto simp: bit_drop_bit_eq)
    qed
  qed
  moreover have "unat (drop_bit 1 l + MSB64) = unat l div 2 + 2 ^ 63"
    using unat_less_pow [of l] unat_add_small [of "drop_bit 1 l" MSB64] by (simp add: MSB64_def unat_drop_bit)
  moreover have "(unat h * 2 ^ 64 + unat l) div 2 = unat h * 2 ^ 63 + unat l div 2"
    by simp
  moreover have "unat h div 2 * 2 ^ 64 + (if odd (unat h) then 2 ^ 63 else 0) = unat h * 2 ^ 63"
    by (cases "odd (unat h)") (auto elim!: oddE evenE)
  ultimately show ?thesis
    by (cases "odd (unat h)") (simp_all add: pair_val_def o unat_drop_bit)
qed

lemma shr_loop_val: "U128_val (shr_loop n a) = U128_val a div 2 ^ n"
proof (induction n arbitrary: a)
  case (Suc n)
  have "U128_val (shr_loop (Suc n) a) = U128_val a div 2 div 2 ^ n"
    using shr_step [of "hi a" "lo a"] by (simp add: Suc Let_def)
  then show ?case by (simp add: div_mult2_eq)
qed simp

text \<open>
  The arithmetic of \<open>U128\<close> is arithmetic modulo 2^128 on the value of the pair: addition, assignment
  addition, subtraction, increment, decrement and the two shifts, carries and borrows between the
  halves included; equality compares values.
\<close>
theorem U128_arithmetic:
  "U128_val (U128_add a b) = (U128_val a + U128_val b) mod 2 ^ 128 \<and>
   U128_add_assign a b = U128_add a b \<and>
   U128_val (U128_sub a b) = (U128_val a + (2 ^ 128 - U128_val b)) mod 2 ^ 128 \<and>
   U128_val (snd (U128_inc a)) = (U128_val a + 1) mod 2 ^ 128 \<and>
   U128_val (snd (U128_dec a)) = (U128_val a + (2 ^ 128 - 1)) mod 2 ^ 128 \<and>
   (\<exists>r. U128_shl a (int n) = Some r \<and> U128_val r = (U128_val a * 2 ^ n) mod 2 ^ 128) \<and>
   (\<exists>r. U128_shr a (int n) = Some r \<and> U128_val r = U128_val a div 2 ^ n) \<and>
   (U128_eq a b \<longleftrightarrow> U128_val a = U128_val b)"
proof -
  have "U128_add_assign a b = U128_add a b"
    by (simp add: U128_add_assign_def U128_add_def U128_assign_def Let_def)
  then show ?thesis
    by (auto simp: U128_add_val U128_sub_val U128_inc_val U128_dec_val U128_shl_def U128_shr_def shl_loop_val shr_loop_val
        U128_eq_def pair_val_eq_iff)
qed

text \<open>
  C39: The comparison operators of \<open>U128\<close> are the wrong way round: \<open>a > b\<close> holds exactly if the value of
  \<open>a\<close> is less than that of \<open>b\<close>, \<open>a < b\<close> exactly if it is greater or equal. The postfix operators
  return the new value, not the old one.
\<close>
theorem U128_comparisons_reversed:
  "(U128_gt a b \<longleftrightarrow> U128_val a < U128_val b) \<and> (U128_lt a b \<longleftrightarrow> U128_val b \<le> U128_val a) \<and>
   fst (U128_inc a) = snd (U128_inc a) \<and> fst (U128_dec a) = snd (U128_dec a)"
proof -
  have "U128_gt a b \<longleftrightarrow> U128_val a < U128_val b"
    by (auto simp: U128_gt_def pair_val_less_iff)
  moreover have "U128_lt a b \<longleftrightarrow> \<not> U128_gt a b"
    by (simp add: U128_lt_def U128_gt_def)
  ultimately show ?thesis by (simp add: U128_inc_def U128_dec_def Let_def not_less)
qed

subsection \<open>Overflow checks\<close>

text \<open>The values of a type, and the two facts about conversion the checks rest on.\<close>

definition c_min :: "c_type \<Rightarrow> int" where
  "c_min t = (if ct_signed t then - (2 ^ (ct_width t - 1)) else 0)"

definition c_max :: "c_type \<Rightarrow> int" where
  "c_max t = (if ct_signed t then 2 ^ (ct_width t - 1) - 1 else 2 ^ ct_width t - 1)"

definition c_fits :: "c_type \<Rightarrow> int \<Rightarrow> bool" where
  "c_fits t x \<longleftrightarrow> c_min t \<le> x \<and> x \<le> c_max t"

lemma c_wrap_id_iff: "c_wrap t x = x \<longleftrightarrow> c_fits t x"
  by (auto simp: c_wrap_def c_fits_def c_min_def c_max_def signed_take_bit_int_eq_self_iff take_bit_int_eq_self_iff)

lemma c_wrap_mod:
  assumes "0 < ct_width t"
  shows "c_wrap t x mod 2 ^ ct_width t = x mod 2 ^ ct_width t"
proof -
  obtain w where w: "ct_width t = Suc w" using assms by (cases "ct_width t") auto
  have "take_bit (Suc w) (signed_take_bit w x) = take_bit (Suc w) x"
    by (simp add: take_bit_signed_take_bit)
  then show ?thesis
    by (simp add: c_wrap_def w take_bit_eq_mod)
qed

lemmas checked_defs = os_add_overflow_def os_sub_overflow_def os_mul_overflow_def os_add3_overflow_def os_mul3_overflow_def
  os_add_and_mul_overflow_def os_mul_and_add_overflow_def os_convert_overflow_def os_inc_overflow_def os_dec_overflow_def

text \<open>
  C36: The compound overflow checks are sound: if one reports no overflow, the stored value is the exact
  result, which fits the type. Whether they report it or not, the stored value is congruent to
  the exact result modulo the size of the type.
\<close>
theorem overflow_checks_sound:
  assumes "0 < ct_width t"
  shows "(\<not> fst (os_add3_overflow t a b c) \<longrightarrow> snd (os_add3_overflow t a b c) = a + b + c \<and> c_fits t (a + b + c)) \<and>
    (\<not> fst (os_mul3_overflow t a b c) \<longrightarrow> snd (os_mul3_overflow t a b c) = a * b * c \<and> c_fits t (a * b * c)) \<and>
    (\<not> fst (os_add_and_mul_overflow t a b c) \<longrightarrow>
       snd (os_add_and_mul_overflow t a b c) = (a + b) * c \<and> c_fits t ((a + b) * c)) \<and>
    (\<not> fst (os_mul_and_add_overflow t a b c) \<longrightarrow>
       snd (os_mul_and_add_overflow t a b c) = a * b + c \<and> c_fits t (a * b + c)) \<and>
    snd (os_add3_overflow t a b c) mod 2 ^ ct_width t = (a + b + c) mod 2 ^ ct_width t \<and>
    snd (os_mul3_overflow t a b c) mod 2 ^ ct_width t = a * b * c mod 2 ^ ct_width t \<and>
    snd (os_add_and_mul_overflow t a b c) mod 2 ^ ct_width t = (a + b) * c mod 2 ^ ct_width t \<and>
    snd (os_mul_and_add_overflow t a b c) mod 2 ^ ct_width t = (a * b + c) mod 2 ^ ct_width t"
proof -
  note [simp] = c_wrap_mod [OF assms]
  let ?M = "2 ^ ct_width t :: int"
  have m: "c_wrap t (c + c_wrap t x) mod ?M = (c + x) mod ?M" "c_wrap t (c * c_wrap t x) mod ?M = (c * x) mod ?M" for x
    using mod_add_right_eq [of c "c_wrap t x" ?M] mod_add_right_eq [of c x ?M]
      mod_mult_right_eq [of c "c_wrap t x" ?M] mod_mult_right_eq [of c x ?M] by simp_all
  have i: "c_wrap t x = x \<Longrightarrow> c_fits t x" for x by (simp add: c_wrap_id_iff)
  show ?thesis
    using m [of "a + b"] m [of "a * b"] i [of "c + (a + b)"] i [of "c * (a * b)"] i [of "c * (a + b)"] i [of "c + a * b"]
    by (auto simp: checked_defs Let_def ac_simps)
qed

theorem overflow_checks_sound_witness:
  "snd (os_add3_overflow \<lparr>ct_width = 8, ct_signed = True\<rparr> 100 (- 90) 7) = 17"
proof -
  have "\<not> fst (os_add3_overflow \<lparr>ct_width = 8, ct_signed = True\<rparr> 100 (- 90) 7)"
    by code_simp
  then show ?thesis
    using overflow_checks_sound [of "\<lparr>ct_width = 8, ct_signed = True\<rparr>" 100 "- 90" 7] by simp
qed

text \<open>
  On nonnegative operands and an unsigned type, adding three values and multiplying then adding report
  an overflow exactly if the result does not fit; multiplying three values and adding then
  multiplying do so when the last factor is not zero, and report one in vain for a last factor of
  zero behind an intermediate result that does not fit.
\<close>
theorem overflow_checks_exact_unsigned:
  assumes t: "\<not> ct_signed t" "0 < ct_width t" and n: "0 \<le> a" "0 \<le> b" "0 \<le> c"
  shows "(fst (os_add3_overflow t a b c) \<longleftrightarrow> \<not> c_fits t (a + b + c)) \<and>
    (fst (os_mul_and_add_overflow t a b c) \<longleftrightarrow> \<not> c_fits t (a * b + c)) \<and>
    (0 < c \<longrightarrow> (fst (os_mul3_overflow t a b c) \<longleftrightarrow> \<not> c_fits t (a * b * c))) \<and>
    (0 < c \<longrightarrow> (fst (os_add_and_mul_overflow t a b c) \<longleftrightarrow> \<not> c_fits t ((a + b) * c))) \<and>
    (fst (os_mul3_overflow t a b 0) \<longleftrightarrow> \<not> c_fits t (a * b)) \<and> c_fits t (a * b * 0)"
proof -
  have up: "c_fits t y" if "c_fits t x" "0 \<le> y" "y \<le> x" for x y
    using that t by (simp add: c_fits_def c_min_def)
  have 0: "c_fits t 0" using t by (simp add: c_fits_def c_min_def c_max_def)
  have ab: "0 \<le> a * b" "0 \<le> a + b" using n by simp_all
  have le: "x \<le> c * x" if "0 < c" "0 \<le> x" for x using that mult_right_mono [of 1 c x] by simp
  have add: "c_wrap t x \<noteq> x \<or> c_wrap t (c + c_wrap t x) \<noteq> c + c_wrap t x \<longleftrightarrow> \<not> c_fits t (c + x)" if "0 \<le> x" for x
  proof (cases "c_fits t x")
    case True
    then have "c_wrap t x = x" by (simp add: c_wrap_id_iff)
    then show ?thesis unfolding c_wrap_id_iff [symmetric] by simp
  next
    case False
    then show ?thesis using up [of "c + x" x] that n(3) by (auto simp: c_wrap_id_iff)
  qed
  have mul: "c_wrap t x \<noteq> x \<or> c_wrap t (c * c_wrap t x) \<noteq> c * c_wrap t x \<longleftrightarrow> \<not> c_fits t (c * x)" if "0 \<le> x" "0 < c" for x
  proof (cases "c_fits t x")
    case True
    then have "c_wrap t x = x" by (simp add: c_wrap_id_iff)
    then show ?thesis unfolding c_wrap_id_iff [symmetric] by simp
  next
    case False
    then show ?thesis using up [of "c * x" x] that le [of x] by (auto simp: c_wrap_id_iff)
  qed
  have z: "c_wrap t 0 = 0" using 0 by (simp add: c_wrap_id_iff)
  show ?thesis
    using add [OF ab(1)] add [OF ab(2)] mul [OF ab(1)] mul [OF ab(2)] 0 z
    by (auto simp: checked_defs Let_def ac_simps c_wrap_id_iff)
qed

theorem overflow_checks_exact_unsigned_witness:
  "fst (os_add3_overflow \<lparr>ct_width = 8, ct_signed = False\<rparr> 200 50 6) \<and>
   fst (os_mul3_overflow \<lparr>ct_width = 8, ct_signed = False\<rparr> 200 50 0)"
  using overflow_checks_exact_unsigned [of "\<lparr>ct_width = 8, ct_signed = False\<rparr>" 200 50 6]
    overflow_checks_exact_unsigned [of "\<lparr>ct_width = 8, ct_signed = False\<rparr>" 200 50 0]
  by (simp add: c_fits_def c_max_def c_min_def)

end
