(* ===== verification/Kmod.thy ===== *)
theory Kmod
  imports Prelude
begin

text \<open>
  Library/kmod: the entry points \<open>_start\<close> and \<open>_stop\<close> that libkmod links into every kernel extension,
  in the plain C flavour (c_start.c, c_stop.c) and in the C++ flavour that brackets the
  extension's own entry points with the C++ runtime (cplus_start.c, cplus_stop.c).

  The developer's entry points (\<open>_realmain\<close>, \<open>_antimain\<close>) and \<open>OSRuntimeInitializeCPP\<close> /
  \<open>OSRuntimeFinalizeCPP\<close> are not part of these sources: they are parameters, arbitrary functions on
  an environment that return a \<open>kern_return_t\<close>. The model records every call to them with its
  return code, so that the theorems can speak about the order of calls, of one entry point and of any
  sequence of them.
\<close>

subsection \<open>Module descriptor and external entry points\<close>

type_synonym kern_return_t = u32

abbreviation KERN_SUCCESS :: kern_return_t where
  "KERN_SUCCESS \<equiv> 0"

record kmod_info =
  ki_next :: ptr
  ki_info_version :: u32
  ki_id :: u32
  ki_name :: string
  ki_version :: string
  ki_reference_count :: u32
  ki_reference_list :: ptr
  ki_address :: u64
  ki_size :: u64
  ki_hdr_size :: u64
  ki_start :: ptr
  ki_stop :: ptr

type_synonym 'e entry_point = "kmod_info \<Rightarrow> ptr \<Rightarrow> 'e \<Rightarrow> kern_return_t \<times> 'e"

datatype kmod_call =
    CppInit kern_return_t
  | CppFini kern_return_t
  | RealMain kern_return_t
  | AntiMain kern_return_t

record 'e kmod_state =
  ks_env :: 'e
  ks_calls :: "kmod_call list"

record 'e kext =
  kx_realmain :: "'e entry_point option"
  kx_antimain :: "'e entry_point option"
  kx_cpp_init :: "'e entry_point"
  kx_cpp_fini :: "'e entry_point"

definition kmod_invoke ::
  "(kern_return_t \<Rightarrow> kmod_call) \<Rightarrow> 'e entry_point \<Rightarrow> kmod_info \<Rightarrow> ptr \<Rightarrow> 'e kmod_state
   \<Rightarrow> kern_return_t \<times> 'e kmod_state" where
  "kmod_invoke ev f ki data s =
     (let (r, e) = f ki data (ks_env s)
      in (r, s\<lparr>ks_env := e, ks_calls := ks_calls s @ [ev r]\<rparr>))"

subsection \<open>The C entry points\<close>

definition c_start ::
  "'e kext \<Rightarrow> kmod_info \<Rightarrow> ptr \<Rightarrow> 'e kmod_state \<Rightarrow> kern_return_t \<times> 'e kmod_state" where
  "c_start k ki data s =
     (case kx_realmain k of
        Some f \<Rightarrow> kmod_invoke RealMain f ki data s
      | None \<Rightarrow> (KERN_SUCCESS, s))"

definition c_stop ::
  "'e kext \<Rightarrow> kmod_info \<Rightarrow> ptr \<Rightarrow> 'e kmod_state \<Rightarrow> kern_return_t \<times> 'e kmod_state" where
  "c_stop k ki data s =
     (case kx_antimain k of
        Some f \<Rightarrow> kmod_invoke AntiMain f ki data s
      | None \<Rightarrow> (KERN_SUCCESS, s))"

definition OSKextGetCurrentIdentifier :: "kmod_info \<Rightarrow> string" where
  "OSKextGetCurrentIdentifier KMOD_INFO_NAME = ki_name KMOD_INFO_NAME"

definition OSKextGetCurrentVersionString :: "kmod_info \<Rightarrow> string" where
  "OSKextGetCurrentVersionString KMOD_INFO_NAME = ki_version KMOD_INFO_NAME"

definition OSKextGetCurrentLoadTag :: "kmod_info \<Rightarrow> u32" where
  "OSKextGetCurrentLoadTag KMOD_INFO_NAME = ki_id KMOD_INFO_NAME"

subsection \<open>The C++ entry points\<close>

definition cplus_start ::
  "'e kext \<Rightarrow> kmod_info \<Rightarrow> ptr \<Rightarrow> 'e kmod_state \<Rightarrow> kern_return_t \<times> 'e kmod_state" where
  "cplus_start k ki data s =
     (let (result, s) = kmod_invoke CppInit (kx_cpp_init k) ki data s in
      if result = KERN_SUCCESS then
        (case kx_realmain k of
           None \<Rightarrow> (result, s)
         | Some realmain \<Rightarrow>
             (let (result, s) = kmod_invoke RealMain realmain ki data s in
              if result \<noteq> KERN_SUCCESS then
                (let (_, s) = kmod_invoke CppFini (kx_cpp_fini k) ki data s in (result, s))
              else (result, s)))
      else (result, s))"

definition cplus_stop ::
  "'e kext \<Rightarrow> kmod_info \<Rightarrow> ptr \<Rightarrow> 'e kmod_state \<Rightarrow> kern_return_t \<times> 'e kmod_state" where
  "cplus_stop k ki data s =
     (let (result, s) =
        (case kx_antimain k of
           None \<Rightarrow> (KERN_SUCCESS, s)
         | Some antimain \<Rightarrow> kmod_invoke AntiMain antimain ki data s) in
      if result = KERN_SUCCESS then kmod_invoke CppFini (kx_cpp_fini k) ki data s
      else (result, s))"

subsection \<open>The calls of one entry point\<close>

lemma cplus_start_cases:
  assumes "cplus_start k ki data s = (r, s')"
  obtains (init_failed) "r \<noteq> KERN_SUCCESS" "ks_calls s' = ks_calls s @ [CppInit r]"
  | (no_main) "r = KERN_SUCCESS" "kx_realmain k = None" "ks_calls s' = ks_calls s @ [CppInit r]"
  | (started) "r = KERN_SUCCESS" "kx_realmain k \<noteq> None"
      "ks_calls s' = ks_calls s @ [CppInit KERN_SUCCESS, RealMain r]"
  | (main_failed) f where "r \<noteq> KERN_SUCCESS"
      "ks_calls s' = ks_calls s @ [CppInit KERN_SUCCESS, RealMain r, CppFini f]"
  using assms
  by (cases "r = KERN_SUCCESS")
    (auto simp: cplus_start_def kmod_invoke_def Let_def split: prod.splits option.splits if_splits)

lemma cplus_stop_cases:
  assumes "cplus_stop k ki data s = (r, s')"
  obtains (refused) "r \<noteq> KERN_SUCCESS" "ks_calls s' = ks_calls s @ [AntiMain r]"
  | (stopped) "kx_antimain k \<noteq> None" "ks_calls s' = ks_calls s @ [AntiMain KERN_SUCCESS, CppFini r]"
  | (no_antimain) "kx_antimain k = None" "ks_calls s' = ks_calls s @ [CppFini r]"
  using assms
  by (auto simp: cplus_stop_def kmod_invoke_def Let_def split: prod.splits option.splits if_splits)

text \<open>
  The C++ \<open>_start\<close> initialises the runtime first, calls the extension's entry point only if that
  succeeded, and finalises the runtime exactly when the entry point failed; it returns the code
  of the first call that failed, and \<open>KERN_SUCCESS\<close> otherwise.
\<close>

theorem cplus_start_call_order:
  assumes "cplus_start k ki data s = (r, s')"
  shows "\<exists>tr. ks_calls s' = ks_calls s @ tr \<and>
    (r \<noteq> KERN_SUCCESS \<and> (tr = [CppInit r] \<or> (\<exists>f. tr = [CppInit KERN_SUCCESS, RealMain r, CppFini f]))
     \<or> r = KERN_SUCCESS \<and>
       tr = CppInit r # (if kx_realmain k = None then [] else [RealMain r]))"
  using assms by (cases rule: cplus_start_cases) auto

definition ok_entry :: "nat entry_point" where
  "ok_entry ki data e = (KERN_SUCCESS, e)"

definition failing_entry :: "nat entry_point" where
  "failing_entry ki data e = (5, e)"

definition sample_kmod :: kmod_info where
  "sample_kmod = \<lparr>ki_next = 0, ki_info_version = 1, ki_id = 7, ki_name = ''org.sample'',
     ki_version = ''1.0'', ki_reference_count = 0, ki_reference_list = 0, ki_address = 0,
     ki_size = 0, ki_hdr_size = 0, ki_start = 0, ki_stop = 0\<rparr>"

definition sample_kext :: "nat entry_point \<Rightarrow> nat kext" where
  "sample_kext main = \<lparr>kx_realmain = Some main, kx_antimain = Some ok_entry,
     kx_cpp_init = ok_entry, kx_cpp_fini = ok_entry\<rparr>"

theorem cplus_start_call_order_witness:
  "\<exists>tr. ks_calls (snd (cplus_start (sample_kext failing_entry) sample_kmod NULL
        \<lparr>ks_env = 0, ks_calls = []\<rparr>)) = [] @ tr
     \<and> tr = [CppInit KERN_SUCCESS, RealMain 5, CppFini KERN_SUCCESS]"
proof -
  let ?s = "\<lparr>ks_env = 0::nat, ks_calls = []\<rparr>"
  have run: "cplus_start (sample_kext failing_entry) sample_kmod NULL ?s
      = (5, \<lparr>ks_env = 0, ks_calls = [CppInit 0, RealMain 5, CppFini 0]\<rparr>)"
    by (simp add: cplus_start_def kmod_invoke_def sample_kext_def ok_entry_def failing_entry_def)
  from cplus_start_call_order [OF run] show ?thesis by (simp add: run)
qed

subsection \<open>Sequences of entries\<close>

text \<open>
  Calls of the entry points in any order and with any outcome, as the kernel may make them. The result
  lists every call with the code it returned.
\<close>

datatype kmod_entry = Start kmod_info ptr | Stop kmod_info ptr

fun entries_run :: "'e kext \<Rightarrow> kmod_entry list \<Rightarrow> 'e kmod_state \<Rightarrow> (kmod_entry \<times> kern_return_t) list \<times> 'e kmod_state" where
  "entries_run k [] s = ([], s)"
| "entries_run k (e # es) s =
     (let (r, s) = (case e of Start ki data \<Rightarrow> cplus_start k ki data s | Stop ki data \<Rightarrow> cplus_stop k ki data s);
          (rs, s) = entries_run k es s
      in ((e, r) # rs, s))"

text \<open>
  What one entry point that returns \<open>r\<close> has to call: a start that succeeds initialises the runtime and then
  calls the extension, one that fails either could not initialise the runtime or finalises it again; a
  stop asks the extension and finalises the runtime last unless the extension refuses.
\<close>

fun entry_calls :: "'e kext \<Rightarrow> kmod_entry \<times> kern_return_t \<Rightarrow> kmod_call list \<Rightarrow> bool" where
  "entry_calls k (Start ki data, r) tr =
     (if r = KERN_SUCCESS then tr = CppInit KERN_SUCCESS # (if kx_realmain k = None then [] else [RealMain KERN_SUCCESS])
      else tr = [CppInit r] \<or> kx_realmain k \<noteq> None \<and> (\<exists>f. tr = [CppInit KERN_SUCCESS, RealMain r, CppFini f]))"
| "entry_calls k (Stop ki data, r) tr =
     (kx_antimain k \<noteq> None \<and> r \<noteq> KERN_SUCCESS \<and> tr = [AntiMain r] \<or>
      tr = (if kx_antimain k = None then [] else [AntiMain KERN_SUCCESS]) @ [CppFini r])"

text \<open>Successful initialisations, finalisations and refusals in a sequence of calls; successful starts and stops of a log.\<close>

definition inits :: "kmod_call list \<Rightarrow> nat" where
  "inits tr = length (filter (\<lambda>c. c = CppInit KERN_SUCCESS) tr)"

definition finis :: "kmod_call list \<Rightarrow> nat" where
  "finis tr = length (filter (\<lambda>c. \<exists>r. c = CppFini r) tr)"

definition refusals :: "kmod_call list \<Rightarrow> nat" where
  "refusals tr = length (filter (\<lambda>c. \<exists>r. c = AntiMain r \<and> r \<noteq> KERN_SUCCESS) tr)"

definition started :: "(kmod_entry \<times> kern_return_t) list \<Rightarrow> nat" where
  "started rs = length (filter (\<lambda>(e, r). (\<exists>ki data. e = Start ki data) \<and> r = KERN_SUCCESS) rs)"

definition stops :: "(kmod_entry \<times> kern_return_t) list \<Rightarrow> nat" where
  "stops rs = length (filter (\<lambda>(e, r). \<exists>ki data. e = Stop ki data) rs)"

lemmas entry_counts = inits_def finis_def refusals_def started_def stops_def

lemma cplus_start_calls: "cplus_start k ki data s = (r, s') \<Longrightarrow> \<exists>tr. ks_calls s' = ks_calls s @ tr \<and> entry_calls k (Start ki data, r) tr"
  by (cases "r = KERN_SUCCESS") (auto simp: cplus_start_def kmod_invoke_def Let_def split: prod.splits option.splits if_splits)

lemma cplus_stop_calls: "cplus_stop k ki data s = (r, s') \<Longrightarrow> \<exists>tr. ks_calls s' = ks_calls s @ tr \<and> entry_calls k (Stop ki data, r) tr"
  by (auto simp: cplus_stop_def kmod_invoke_def Let_def split: prod.splits option.splits if_splits)

lemma entries_run_calls:
  "entries_run k es s = (rs, s') \<Longrightarrow>
     map fst rs = es \<and> (\<exists>trs. ks_calls s' = ks_calls s @ concat trs \<and> list_all2 (entry_calls k) rs trs)"
proof (induction es arbitrary: s rs)
  case (Cons e es)
  obtain r s1 where e: "(case e of Start ki data \<Rightarrow> cplus_start k ki data s | Stop ki data \<Rightarrow> cplus_stop k ki data s) = (r, s1)"
    by fastforce
  obtain rs' where rs: "entries_run k es s1 = (rs', s')" "rs = (e, r) # rs'"
    using Cons.prems e by (auto simp: Let_def split: prod.splits)
  obtain tr where "ks_calls s1 = ks_calls s @ tr" "entry_calls k (e, r) tr"
  proof (cases e)
    case (Start ki data)
    then show thesis using that e cplus_start_calls [of k ki data s r s1] by auto
  next
    case (Stop ki data)
    then show thesis using that e cplus_stop_calls [of k ki data s r s1] by auto
  qed
  moreover obtain trs where "map fst rs' = es" "ks_calls s' = ks_calls s1 @ concat trs" "list_all2 (entry_calls k) rs' trs"
    using Cons.IH [OF rs(1)] by blast
  ultimately show ?case using rs(2) by (intro conjI exI [of _ "tr # trs"]) simp_all
qed simp

lemma entry_balance:
  "entry_calls k er tr \<Longrightarrow> inits tr + stops [er] = finis tr + started [er] + refusals tr"
  by (cases "(k, er, tr)" rule: entry_calls.cases) (auto simp: entry_counts split: if_splits)

lemma entries_balance:
  "list_all2 (entry_calls k) rs trs \<Longrightarrow> inits (concat trs) + stops rs = finis (concat trs) + started rs + refusals (concat trs)"
proof (induction rule: list_all2_induct)
  case (Cons er rs tr trs)
  have "stops (er # rs) = stops [er] + stops rs" "started (er # rs) = started [er] + started rs" by (simp_all add: entry_counts)
  then show ?case using entry_balance [OF Cons.hyps(1)] Cons.IH by (simp add: entry_counts)
qed (simp add: entry_counts)

text \<open>
  C17: Over any sequence of calls of the C++ entry points, in any order and whatever the extension and the
  runtime return, the calls made are those of one entry point after the other: a start that succeeds
  initialises the runtime before it calls the extension, a start that fails leaves no initialisation
  behind that was not followed by a finalisation, and a stop finalises the runtime last, unless the
  extension refuses, and returns its code. So the successful initialisations outnumber the finalisations
  by the number of successful starts less that of the stops that were not refused. Whether a
  finalisation succeeds is only seen in the code of a stop: a start drops it.
\<close>

theorem runtime_brackets_entries:
  assumes "entries_run k es s = (rs, s')"
  shows "map fst rs = es \<and> (\<exists>trs. ks_calls s' = ks_calls s @ concat trs \<and> list_all2 (entry_calls k) rs trs \<and>
    inits (concat trs) + stops rs = finis (concat trs) + started rs + refusals (concat trs))"
  using entries_run_calls [OF assms] entries_balance by blast

theorem runtime_brackets_entries_witness:
  "\<exists>trs. concat trs = [CppInit 0, RealMain 0, AntiMain 0, CppFini 0] \<and>
     inits (concat trs) + 1 = finis (concat trs) + 1 + refusals (concat trs)"
proof -
  have run: "entries_run (sample_kext ok_entry) [Start sample_kmod NULL, Stop sample_kmod NULL] \<lparr>ks_env = 0::nat, ks_calls = []\<rparr> =
      ([(Start sample_kmod NULL, 0), (Stop sample_kmod NULL, 0)],
       \<lparr>ks_env = 0, ks_calls = [CppInit 0, RealMain 0, AntiMain 0, CppFini 0]\<rparr>)"
    by (simp add: cplus_start_def cplus_stop_def kmod_invoke_def sample_kext_def ok_entry_def)
  have "started [(Start sample_kmod NULL, 0), (Stop sample_kmod NULL, 0)] = 1" "stops [(Start sample_kmod NULL, 0), (Stop sample_kmod NULL, 0)] = 1"
    by (simp_all add: started_def stops_def)
  then show ?thesis using runtime_brackets_entries [OF run] by auto
qed

end
