(* ===== verification/QueueHeap.thy ===== *)
theory QueueHeap
  imports Prelude
begin

text \<open>
  The store shared by kern/queue.h and kern/circle_queue.h: addresses mapped to
  \<open>struct queue_entry\<close> linkages. An access to an address that holds no linkage is a fault
  (\<open>None\<close>), so every theorem that an operation returns also says it touches allocated linkages
  only. \<open>ring f h q xs\<close> says that the linkages of \<open>q\<close> and of the nodes \<open>xs\<close> form a doubly linked
  circle in that order; \<open>f\<close> maps a node to the address of its linkage, the identity for linkage
  chains (method 1 of queue.h) and \<open>queue_field\<close> for element chains (method 2).
\<close>

subsection \<open>struct queue_entry and its accesses\<close>

record queue_entry =
  qe_next :: ptr
  qe_prev :: ptr

type_synonym qheap = "ptr \<rightharpoonup> queue_entry"

definition q_next :: "ptr \<Rightarrow> qheap \<Rightarrow> ptr option" where
  "q_next p h = map_option qe_next (h p)"

definition q_prev :: "ptr \<Rightarrow> qheap \<Rightarrow> ptr option" where
  "q_prev p h = map_option qe_prev (h p)"

definition q_set_next :: "ptr \<Rightarrow> ptr \<Rightarrow> qheap \<Rightarrow> qheap option" where
  "q_set_next p v h = map_option (\<lambda>e. h(p \<mapsto> e\<lparr>qe_next := v\<rparr>)) (h p)"

definition q_set_prev :: "ptr \<Rightarrow> ptr \<Rightarrow> qheap \<Rightarrow> qheap option" where
  "q_set_prev p v h = map_option (\<lambda>e. h(p \<mapsto> e\<lparr>qe_prev := v\<rparr>)) (h p)"

text \<open>The effect of a store on an allocated linkage, as a total function.\<close>

definition upd_next :: "ptr \<Rightarrow> ptr \<Rightarrow> qheap \<Rightarrow> qheap" where
  "upd_next p v h = h(p \<mapsto> (the (h p))\<lparr>qe_next := v\<rparr>)"

definition upd_prev :: "ptr \<Rightarrow> ptr \<Rightarrow> qheap \<Rightarrow> qheap" where
  "upd_prev p v h = h(p \<mapsto> (the (h p))\<lparr>qe_prev := v\<rparr>)"

named_theorems q_access

lemma q_set_next_upd [q_access]: "p \<in> dom h \<Longrightarrow> q_set_next p v h = Some (upd_next p v h)"
  by (auto simp: q_set_next_def upd_next_def)

lemma q_set_prev_upd [q_access]: "p \<in> dom h \<Longrightarrow> q_set_prev p v h = Some (upd_prev p v h)"
  by (auto simp: q_set_prev_def upd_prev_def)

lemma dom_upd [q_access]:
  "dom (upd_next p v h) = insert p (dom h)" "dom (upd_prev p v h) = insert p (dom h)"
  by (auto simp: upd_next_def upd_prev_def)

lemma q_next_upd [q_access]:
  "q_next r (upd_next p v h) = (if r = p then Some v else q_next r h)"
  "p \<in> dom h \<Longrightarrow> q_next r (upd_prev p v h) = q_next r h"
  by (auto simp: q_next_def upd_next_def upd_prev_def)

lemma q_prev_upd [q_access]:
  "q_prev r (upd_prev p v h) = (if r = p then Some v else q_prev r h)"
  "p \<in> dom h \<Longrightarrow> q_prev r (upd_next p v h) = q_prev r h"
  by (auto simp: q_prev_def upd_next_def upd_prev_def)

lemma upd_other [q_access]:
  "r \<noteq> p \<Longrightarrow> upd_next p v h r = h r" "r \<noteq> p \<Longrightarrow> upd_prev p v h r = h r"
  by (auto simp: upd_next_def upd_prev_def)

lemma q_next_dom: "q_next p h = Some v \<Longrightarrow> p \<in> dom h"
  by (auto simp: q_next_def)

lemma q_prev_dom: "q_prev p h = Some v \<Longrightarrow> p \<in> dom h"
  by (auto simp: q_prev_def)

lemma q_dom_next: "p \<in> dom h \<Longrightarrow> \<exists>v. q_next p h = Some v"
  by (auto simp: q_next_def)

lemma q_dom_prev: "p \<in> dom h \<Longrightarrow> \<exists>v. q_prev p h = Some v"
  by (auto simp: q_prev_def)

subsection \<open>Doubly linked circles\<close>

definition link :: "(ptr \<Rightarrow> ptr) \<Rightarrow> qheap \<Rightarrow> ptr \<Rightarrow> ptr \<Rightarrow> bool" where
  "link f h a b \<longleftrightarrow> q_next (f a) h = Some b \<and> q_prev (f b) h = Some a"

definition ring :: "(ptr \<Rightarrow> ptr) \<Rightarrow> qheap \<Rightarrow> ptr \<Rightarrow> ptr list \<Rightarrow> bool" where
  "ring f h q xs \<longleftrightarrow> successively (link f h) (q # xs @ [q]) \<and> distinct (map f (q # xs))"

lemma successively_link_frame:
  assumes "\<And>x. x \<in> set (butlast L) \<Longrightarrow> q_next (f x) h' = q_next (f x) h"
    and "\<And>x. x \<in> set (tl L) \<Longrightarrow> q_prev (f x) h' = q_prev (f x) h"
  shows "successively (link f h') L = successively (link f h) L"
  using assms
proof (induction L rule: induct_list012)
  case (3 x y zs)
  have "successively (link f h') (y # zs) = successively (link f h) (y # zs)"
    using 3 by (intro 3(2)) (auto split: if_splits)
  moreover have "link f h' x y = link f h x y"
    using 3(3) [of x] 3(4) [of y] by (simp add: link_def)
  ultimately show ?case by simp
qed simp_all

text \<open>A circle through \<open>q\<close>, cut anywhere between its nodes.\<close>

lemma ring_cut:
  "ring f h q (xs @ ys) \<longleftrightarrow>
     successively (link f h) (q # xs) \<and> successively (link f h) (ys @ [q]) \<and>
     link f h (last (q # xs)) (hd (ys @ [q])) \<and> distinct (map f (q # xs @ ys))"
  using successively_append_iff [of "link f h" "q # xs" "ys @ [q]"]
  by (auto simp: ring_def)

lemma ring_distinct: "ring f h q xs \<Longrightarrow> distinct (q # xs)" "ring f h q xs \<Longrightarrow> inj_on f (set (q # xs))"
  by (auto simp: ring_def distinct_map)

lemma ring_head_next: "ring f h q xs \<Longrightarrow> q_next (f q) h = Some (hd (xs @ [q]))"
  using ring_cut [of f h q "[]" xs] by (simp add: link_def)

lemma ring_head_prev: "ring f h q xs \<Longrightarrow> q_prev (f q) h = Some (last (q # xs))"
  using ring_cut [of f h q xs "[]"] by (simp add: link_def)

lemma ring_node_next: "ring f h q (xs @ x # ys) \<Longrightarrow> q_next (f x) h = Some (hd (ys @ [q]))"
  using ring_cut [of f h q "xs @ [x]" ys] by (simp add: link_def)

lemma ring_node_prev: "ring f h q (xs @ x # ys) \<Longrightarrow> q_prev (f x) h = Some (last (q # xs))"
  using ring_cut [of f h q xs "x # ys"] by (simp add: link_def)

lemma ring_dom: "ring f h q xs \<Longrightarrow> f ` set (q # xs) \<subseteq> dom h"
proof
  fix r assume r: "ring f h q xs" and "r \<in> f ` set (q # xs)"
  then obtain x where x: "r = f x" "x = q \<or> x \<in> set xs" by auto
  from x(2) show "r \<in> dom h"
  proof
    assume "x = q" with x ring_head_next [OF r] show ?thesis by (simp add: q_next_dom)
  next
    assume "x \<in> set xs"
    then obtain us vs where "xs = us @ x # vs" by (auto dest: split_list)
    with x r ring_node_next [of f h q us x vs] show ?thesis by (simp add: q_next_dom)
  qed
qed

lemma ring_hd_in: "hd (ys @ [q]) \<in> set (ys @ [q])"
  by (rule hd_in_set) simp

lemma ring_segments_frame:
  assumes d: "distinct (q # xs @ ys)"
    and n: "\<And>x. x \<in> set (q # xs @ ys) \<Longrightarrow> x \<noteq> last (q # xs) \<Longrightarrow> q_next (f x) h' = q_next (f x) h"
    and v: "\<And>x. x \<in> set (q # xs @ ys) \<Longrightarrow> x \<noteq> hd (ys @ [q]) \<Longrightarrow> q_prev (f x) h' = q_prev (f x) h"
  shows "successively (link f h') (q # xs) = successively (link f h) (q # xs)"
    and "successively (link f h') (ys @ [q]) = successively (link f h) (ys @ [q])"
proof -
  have l: "last (q # xs) \<in> set (q # xs)" by (rule last_in_set) simp
  have dx: "distinct (q # xs)" and dy: "distinct (ys @ [q])" using d by auto
  show "successively (link f h') (q # xs) = successively (link f h) (q # xs)"
  proof (rule successively_link_frame)
    fix x assume "x \<in> set (butlast (q # xs))"
    with last_notin_butlast [OF dx] show "q_next (f x) h' = q_next (f x) h"
      by (intro n) (auto dest: in_set_butlastD split: if_splits)
  next
    fix x assume "x \<in> set (tl (q # xs))"
    with d ring_hd_in [of ys q] show "q_prev (f x) h' = q_prev (f x) h" by (intro v) auto
  qed
  show "successively (link f h') (ys @ [q]) = successively (link f h) (ys @ [q])"
  proof (rule successively_link_frame)
    fix x assume "x \<in> set (butlast (ys @ [q]))"
    with d l show "q_next (f x) h' = q_next (f x) h" by (intro n) auto
  next
    fix x assume "x \<in> set (tl (ys @ [q]))"
    with hd_notin_tl [OF dy] show "q_prev (f x) h' = q_prev (f x) h"
      by (intro v) (auto dest: list.set_sel(2) [rotated] simp: tl_append split: list.splits)
  qed
qed

text \<open>
  Inserting a node between \<open>last (q # xs)\<close> and \<open>hd (ys @ [q])\<close>, and removing one: what the heap
  after the operation must look like for the circle to be the expected one.
\<close>

lemma ring_insertI:
  assumes r: "ring f h q (xs @ ys)" and e: "f e \<notin> f ` set (q # xs @ ys)"
    and p: "p = last (q # xs)" and s: "s = hd (ys @ [q])"
    and next': "\<And>r. q_next r h' = (if r = f p then Some e else if r = f e then Some s else q_next r h)"
    and prev': "\<And>r. q_prev r h' = (if r = f s then Some e else if r = f e then Some p else q_prev r h)"
  shows "ring f h' q (xs @ e # ys)"
proof -
  have d: "distinct (q # xs @ ys)" and inj: "inj_on f (set (q # xs @ ys))"
    using ring_distinct [OF r] by simp_all
  have ps: "p \<in> set (q # xs @ ys)" "s \<in> set (q # xs @ ys)"
    using last_in_set [of "q # xs"] ring_hd_in [of ys q] p s by auto
  have neq: "f x \<noteq> f e" if "x \<in> set (q # xs @ ys)" for x
    using e that by (metis imageI)
  have n: "q_next (f x) h' = q_next (f x) h" if "x \<in> set (q # xs @ ys)" "x \<noteq> last (q # xs)" for x
    using that neq [OF that(1)] inj_on_eq_iff [OF inj that(1) ps(1)] p by (simp add: next')
  have v: "q_prev (f x) h' = q_prev (f x) h" if "x \<in> set (q # xs @ ys)" "x \<noteq> hd (ys @ [q])" for x
    using that neq [OF that(1)] inj_on_eq_iff [OF inj that(1) ps(2)] s by (simp add: prev')
  have "link f h' p e" "link f h' e s"
    using neq [OF ps(1)] neq [OF ps(2)] by (simp_all add: link_def next' prev')
  moreover have "successively (link f h') (q # xs)" "successively (link f h') (ys @ [q])"
    using ring_segments_frame [OF d n v] r [unfolded ring_cut] by simp_all
  moreover have "distinct (map f (q # xs @ e # ys))"
    using r e by (auto simp: ring_def)
  ultimately show ?thesis
    unfolding ring_cut [of f h' q xs "e # ys"] using p s by (cases ys) auto
qed

lemma ring_removeI:
  assumes r: "ring f h q (xs @ e # ys)"
    and p: "p = last (q # xs)" and s: "s = hd (ys @ [q])"
    and next': "\<And>r. r \<noteq> f e \<Longrightarrow> q_next r h' = (if r = f p then Some s else q_next r h)"
    and prev': "\<And>r. r \<noteq> f e \<Longrightarrow> q_prev r h' = (if r = f s then Some p else q_prev r h)"
  shows "ring f h' q (xs @ ys)"
proof -
  have d: "distinct (q # xs @ ys)" and inj: "inj_on f (set (q # xs @ e # ys))"
    and de: "e \<notin> set (q # xs @ ys)"
    using ring_distinct [OF r] by auto
  have inj': "f x = f y \<longleftrightarrow> x = y" if "x \<in> set (q # xs @ ys)" "y \<in> set (q # xs @ e # ys)" for x y
    using inj_on_eq_iff [OF inj, of x y] that by auto
  have ps: "p \<in> set (q # xs @ ys)" "s \<in> set (q # xs @ ys)"
    using last_in_set [of "q # xs"] ring_hd_in [of ys q] p s by auto
  have neq: "f x \<noteq> f e" if "x \<in> set (q # xs @ ys)" for x
    using inj' [OF that, of e] de that by auto
  have n: "q_next (f x) h' = q_next (f x) h" if "x \<in> set (q # xs @ ys)" "x \<noteq> last (q # xs)" for x
    using that neq [OF that(1)] inj' [OF that(1), of p] ps p by (auto simp: next')
  have v: "q_prev (f x) h' = q_prev (f x) h" if "x \<in> set (q # xs @ ys)" "x \<noteq> hd (ys @ [q])" for x
    using that neq [OF that(1)] inj' [OF that(1), of s] ps s by (auto simp: prev')
  have "link f h' p s"
    using neq [OF ps(1)] neq [OF ps(2)] by (simp add: link_def next' prev')
  moreover have "successively (link f h) (q # xs)" "successively (link f h) (ys @ [q])"
    using r ring_cut [of f h q xs "e # ys"] ring_cut [of f h q "xs @ [e]" ys] by simp_all
  then have "successively (link f h') (q # xs)" "successively (link f h') (ys @ [q])"
    using ring_segments_frame [OF d n v] by simp_all
  moreover have "distinct (map f (q # xs @ ys))"
    using r by (auto simp: ring_def)
  ultimately show ?thesis
    unfolding ring_cut using p s by simp
qed

text \<open>A heap change that leaves the linkages of a circle alone leaves the circle alone.\<close>

lemma ring_frame:
  assumes "ring f h q xs"
    and "\<And>x. x \<in> set (q # xs) \<Longrightarrow> q_next (f x) h' = q_next (f x) h \<and> q_prev (f x) h' = q_prev (f x) h"
  shows "ring f h' q xs"
proof -
  have "successively (link f h') (q # xs @ [q]) = successively (link f h) (q # xs @ [q])"
    by (rule successively_link_frame) (use assms(2) in \<open>auto dest: in_set_butlastD split: if_splits\<close>)
  then show ?thesis using assms(1) by (simp add: ring_def)
qed

lemma successively_link_unique:
  assumes "successively (link f h) (a # xs @ [q])" "successively (link f h) (a # ys @ [q])"
    and "q \<notin> set xs" "q \<notin> set ys"
  shows "xs = ys"
  using assms
proof (induction xs arbitrary: a ys)
  case Nil
  then show ?case by (cases ys) (auto simp: link_def)
next
  case (Cons x xs)
  then obtain ys' where "ys = x # ys'" by (cases ys) (auto simp: link_def)
  with Cons show ?case by auto
qed

lemma ring_unique: "ring f h q xs \<Longrightarrow> ring f h q ys \<Longrightarrow> xs = ys"
  using successively_link_unique [of f h q xs q ys] ring_distinct(1) [of f h q]
  by (auto simp: ring_def)


subsection \<open>Frames\<close>

text \<open>\<open>same_outside A h h'\<close>: the heaps agree outside the linkages \<open>A\<close> and have the same linkages.\<close>

definition same_outside :: "ptr set \<Rightarrow> qheap \<Rightarrow> qheap \<Rightarrow> bool" where
  "same_outside A h h' \<longleftrightarrow> dom h' = dom h \<and> (\<forall>r. r \<notin> A \<longrightarrow> h' r = h r)"

lemma same_outside_trans: "same_outside A h h' \<Longrightarrow> same_outside A h' h'' \<Longrightarrow> same_outside A h h''"
  by (auto simp: same_outside_def)

lemma same_outside_mono: "same_outside A h h' \<Longrightarrow> A \<subseteq> B \<Longrightarrow> same_outside B h h'"
  by (auto simp: same_outside_def)

lemma dom_same_outside: "same_outside A h h' \<Longrightarrow> dom h' = dom h"
  by (simp add: same_outside_def)

lemma ring_same_outside:
  assumes "ring f h q xs" and "same_outside A h h'" and "f ` set (q # xs) \<inter> A = {}"
  shows "ring f h' q xs"
proof (rule ring_frame [OF assms(1)])
  fix x assume "x \<in> set (q # xs)"
  then have "f x \<notin> A" using assms(3) by blast
  then show "q_next (f x) h' = q_next (f x) h \<and> q_prev (f x) h' = q_prev (f x) h"
    using assms(2) by (simp add: same_outside_def q_next_def q_prev_def)
qed

lemma ring_ends:
  assumes "ring f h q (xs @ ys)" and "p = last (q # xs)" and "s = hd (ys @ [q])"
  shows "p \<in> set (q # xs @ ys)" "s \<in> set (q # xs @ ys)" "f p \<in> dom h" "f s \<in> dom h"
    "q_next (f p) h = Some s" "q_prev (f s) h = Some p"
proof -
  show ps: "p \<in> set (q # xs @ ys)" "s \<in> set (q # xs @ ys)"
    using assms(2,3) last_in_set [of "q # xs"] ring_hd_in [of ys q] by auto
  show "f p \<in> dom h" "f s \<in> dom h"
    using ring_dom [OF assms(1)] ps by blast+
  show "q_next (f p) h = Some s" "q_prev (f s) h = Some p"
    using assms(1) [unfolded ring_cut] assms(2,3) by (simp_all add: link_def)
qed

lemma ring_insert_heap:
  assumes r: "ring f h q (xs @ ys)" and e: "f e \<in> dom h" "f e \<notin> f ` set (q # xs @ ys)"
    and p: "p = last (q # xs)" and s: "s = hd (ys @ [q])"
    and next': "\<And>r. q_next r h' = (if r = f p then Some e else if r = f e then Some s else q_next r h)"
    and prev': "\<And>r. q_prev r h' = (if r = f s then Some e else if r = f e then Some p else q_prev r h)"
    and same: "same_outside {f p, f s, f e} h h'"
  shows "ring f h' q (xs @ e # ys) \<and> same_outside (f ` set (q # xs @ e # ys)) h h'"
proof
  show "ring f h' q (xs @ e # ys)" by (rule ring_insertI [OF r e(2) p s next' prev'])
  show "same_outside (f ` set (q # xs @ e # ys)) h h'"
    by (rule same_outside_mono [OF same]) (use ring_ends(1,2) [OF r p s] in auto)
qed

lemma ring_remove_heap:
  assumes r: "ring f h q (xs @ e # ys)"
    and p: "p = last (q # xs)" and s: "s = hd (ys @ [q])"
    and next': "\<And>r. r \<noteq> f e \<Longrightarrow> q_next r h' = (if r = f p then Some s else q_next r h)"
    and prev': "\<And>r. r \<noteq> f e \<Longrightarrow> q_prev r h' = (if r = f s then Some p else q_prev r h)"
    and same: "same_outside {f p, f s, f e} h h'"
  shows "ring f h' q (xs @ ys) \<and> same_outside (f ` set (q # xs @ e # ys)) h h'"
proof
  have "p \<in> set (q # xs @ e # ys)" "s \<in> set (q # xs @ e # ys)"
    using p s last_in_set [of "q # xs"] ring_hd_in [of ys q] by auto
  then show "same_outside (f ` set (q # xs @ e # ys)) h h'"
    by (intro same_outside_mono [OF same]) auto
  show "ring f h' q (xs @ ys)" by (rule ring_removeI [OF r p s next' prev'])
qed

text \<open>Putting the nodes of a circle under another head.\<close>

lemma ring_nonempty:
  assumes "xs \<noteq> []"
  shows "ring f h q xs \<longleftrightarrow> link f h q (hd xs) \<and> successively (link f h) xs \<and> link f h (last xs) q
    \<and> distinct (map f (q # xs))"
  using assms by (auto simp: ring_def successively_Cons successively_append_iff)

lemma ring_rebaseI:
  assumes r: "ring f h q xs" and ne: "xs \<noteq> []"
    and f': "\<And>x. x \<in> set xs \<Longrightarrow> f' x = f x" and new: "f' new \<notin> f ` set xs"
    and head: "q_next (f' new) h' = Some (hd xs)" "q_prev (f' new) h' = Some (last xs)"
    and ends: "q_prev (f (hd xs)) h' = Some new" "q_next (f (last xs)) h' = Some new"
    and n: "\<And>x. x \<in> set xs \<Longrightarrow> x \<noteq> last xs \<Longrightarrow> q_next (f x) h' = q_next (f x) h"
    and v: "\<And>x. x \<in> set xs \<Longrightarrow> x \<noteq> hd xs \<Longrightarrow> q_prev (f x) h' = q_prev (f x) h"
  shows "ring f' h' new xs"
proof -
  have d: "distinct xs" using ring_distinct(1) [OF r] by simp
  have "successively (link f h') xs"
  proof -
    have "successively (link f h') xs = successively (link f h) xs"
    proof (rule successively_link_frame)
      fix x assume x: "x \<in> set (butlast xs)"
      show "q_next (f x) h' = q_next (f x) h"
        by (rule n [OF in_set_butlastD [OF x] last_notin_butlast [OF d x]])
    next
      fix x assume x: "x \<in> set (tl xs)"
      show "q_prev (f x) h' = q_prev (f x) h"
        by (rule v [OF list.set_sel(2) [OF ne x] hd_notin_tl [OF d x]])
    qed
    then show ?thesis using r ne by (simp add: ring_nonempty)
  qed
  moreover have "successively (link f' h') xs = successively (link f h') xs"
    using f' by (intro successively_cong) (auto simp: link_def)
  moreover have "link f' h' new (hd xs)" "link f' h' (last xs) new"
    using head ends ne f' by (simp_all add: link_def)
  moreover have "distinct (map f' (new # xs))"
  proof -
    have m: "map f' xs = map f xs" using f' by simp
    have "distinct (map f xs)" "f' new \<notin> set (map f xs)" using r new by (simp_all add: ring_def)
    then show ?thesis by (simp add: m)
  qed
  ultimately show ?thesis using ne by (simp add: ring_nonempty)
qed

lemma ring_nil_iff: "f q = q \<Longrightarrow> ring f h q [] = ring id h q []"
  by (simp add: ring_def link_def)

text \<open>Stores to different fields or linkages commute.\<close>

lemma upd_next_prev_swap: "a \<noteq> b \<Longrightarrow> upd_next a v (upd_prev b w h) = upd_prev b w (upd_next a v h)"
  by (auto simp: upd_next_def upd_prev_def fun_upd_twist)

lemma upd_next_prev_same: "upd_next a v (upd_prev a w h) = upd_prev a w (upd_next a v h)"
  by (auto simp: upd_next_def upd_prev_def)

lemma upd_next_prev: "upd_next a v (upd_prev b w h) = upd_prev b w (upd_next a v h)"
  using upd_next_prev_swap upd_next_prev_same by (cases "a = b") auto

lemma upd_prev_prev: "a \<noteq> b \<Longrightarrow> upd_prev a v (upd_prev b w h) = upd_prev b w (upd_prev a v h)"
  by (auto simp: upd_prev_def fun_upd_twist)

lemma upd_map_upd:
  "p \<noteq> r \<Longrightarrow> upd_next p v (h(r \<mapsto> e)) = (upd_next p v h)(r \<mapsto> e)"
  "p \<noteq> r \<Longrightarrow> upd_prev p v (h(r \<mapsto> e)) = (upd_prev p v h)(r \<mapsto> e)"
  by (auto simp: upd_next_def upd_prev_def fun_upd_twist)

lemma q_entry: "q_next p h = Some n \<Longrightarrow> q_prev p h = Some v \<Longrightarrow> h p = Some \<lparr>qe_next = n, qe_prev = v\<rparr>"
  by (auto simp: q_next_def q_prev_def)

end
