(* ===== verification/DequeSpec.thy ===== *)
theory DequeSpec
  imports Prelude
begin

text \<open>
  The contracts of the linked queues of the SDK. A client sees up to five operations; the abstract
  queue is the list of the queued nodes. An implementation promises that each operation, on a
  heap that represents a list, returns and represents the list it should. From that, every
  sequence of operations that respects the preconditions of the abstract queue gives the client
  the same answers as the list does. There are three contracts, each extending the one before:
  \<open>stack\<close> (head only), \<open>tail_queue\<close> (also insertion at the tail) and \<open>deque\<close> (also removal there).
\<close>

subsection \<open>Operations and the abstract queue\<close>

datatype 'a dop = Push_head 'a | Push_tail 'a | Pop_head | Pop_tail | Test_empty

datatype 'a dres = Done | Popped 'a | Is_empty bool

text \<open>
  The abstract queue. A node may be queued only once, and nothing can be taken from an empty
  queue: \<open>None\<close> is a call outside the contract.
\<close>

fun spec_step :: "'a dop \<Rightarrow> 'a list \<Rightarrow> ('a dres \<times> 'a list) option" where
  "spec_step (Push_head x) xs = (if x \<in> set xs then None else Some (Done, x # xs))"
| "spec_step (Push_tail x) xs = (if x \<in> set xs then None else Some (Done, xs @ [x]))"
| "spec_step Pop_head xs = (if xs = [] then None else Some (Popped (hd xs), tl xs))"
| "spec_step Pop_tail xs = (if xs = [] then None else Some (Popped (last xs), butlast xs))"
| "spec_step Test_empty xs = Some (Is_empty (xs = []), xs)"

fun spec_run :: "'a dop list \<Rightarrow> 'a list \<Rightarrow> ('a dres list \<times> 'a list) option" where
  "spec_run [] xs = Some ([], xs)"
| "spec_run (c # cs) xs = do {
     (r, xs) \<leftarrow> spec_step c xs;
     (rs, xs) \<leftarrow> spec_run cs xs;
     Some (r # rs, xs) }"

fun pushed :: "'a dop \<Rightarrow> 'a set" where
  "pushed (Push_head x) = {x}"
| "pushed (Push_tail x) = {x}"
| "pushed _ = {}"

fun stack_op :: "'a dop \<Rightarrow> bool" where
  "stack_op (Push_tail x) = False"
| "stack_op Pop_tail = False"
| "stack_op _ = True"

fun tail_queue_op :: "'a dop \<Rightarrow> bool" where
  "tail_queue_op Pop_tail = False"
| "tail_queue_op _ = True"

subsection \<open>Implementations\<close>

record ('h, 'a) deque_ops =
  op_push_head :: "'a \<Rightarrow> 'h \<Rightarrow> 'h option"
  op_push_tail :: "'a \<Rightarrow> 'h \<Rightarrow> 'h option"
  op_pop_head :: "'h \<Rightarrow> ('a \<times> 'h) option"
  op_pop_tail :: "'h \<Rightarrow> ('a \<times> 'h) option"
  op_is_empty :: "'h \<Rightarrow> bool option"

fun impl_step :: "('h, 'a) deque_ops \<Rightarrow> 'a dop \<Rightarrow> 'h \<Rightarrow> ('a dres \<times> 'h) option" where
  "impl_step I (Push_head x) h = map_option (Pair Done) (op_push_head I x h)"
| "impl_step I (Push_tail x) h = map_option (Pair Done) (op_push_tail I x h)"
| "impl_step I Pop_head h = map_option (apfst Popped) (op_pop_head I h)"
| "impl_step I Pop_tail h = map_option (apfst Popped) (op_pop_tail I h)"
| "impl_step I Test_empty h = map_option (\<lambda>b. (Is_empty b, h)) (op_is_empty I h)"

fun impl_run :: "('h, 'a) deque_ops \<Rightarrow> 'a dop list \<Rightarrow> 'h \<Rightarrow> ('a dres list \<times> 'h) option" where
  "impl_run I [] h = Some ([], h)"
| "impl_run I (c # cs) h = do {
     (r, h) \<leftarrow> impl_step I c h;
     (rs, h) \<leftarrow> impl_run I cs h;
     Some (r # rs, h) }"

text \<open>
  One operation simulates the abstract one: \<open>repr h xs\<close> says that the heap holds a well-formed
  queue with the nodes \<open>xs\<close>, \<open>node h x\<close> that \<open>x\<close> is memory the queue may link, which no operation
  takes away.
\<close>

definition simulates ::
  "('h, 'a) deque_ops \<Rightarrow> ('h \<Rightarrow> 'a list \<Rightarrow> bool) \<Rightarrow> ('h \<Rightarrow> 'a \<Rightarrow> bool) \<Rightarrow> 'a dop \<Rightarrow> bool" where
  "simulates I repr node c \<longleftrightarrow> (\<forall>h xs r ys. repr h xs \<longrightarrow> (\<forall>x \<in> pushed c. node h x) \<longrightarrow>
     spec_step c xs = Some (r, ys) \<longrightarrow>
     (\<exists>h'. impl_step I c h = Some (r, h') \<and> repr h' ys \<and> (\<forall>y. node h y \<longrightarrow> node h' y)))"

lemma simulatesD:
  assumes "simulates I repr node c" and "repr h xs" and "\<forall>x \<in> pushed c. node h x"
    and "spec_step c xs = Some (r, ys)"
  shows "\<exists>h'. impl_step I c h = Some (r, h') \<and> repr h' ys \<and> (\<forall>y. node h y \<longrightarrow> node h' y)"
  using assms unfolding simulates_def by blast

lemma simulates_run:
  assumes "\<forall>c \<in> set cs. simulates I repr node c"
    and "repr h xs" and "\<forall>c \<in> set cs. \<forall>x \<in> pushed c. node h x" and "spec_run cs xs = Some (rs, ys)"
  shows "\<exists>h'. impl_run I cs h = Some (rs, h') \<and> repr h' ys"
  using assms
proof (induction cs arbitrary: h xs rs)
  case Nil
  then show ?case by auto
next
  case (Cons c cs)
  from Cons.prems(4) obtain r zs rs' where
    c: "spec_step c xs = Some (r, zs)" and cs: "spec_run cs zs = Some (rs', ys)" and rs: "rs = r # rs'"
    by (auto split: bind_split_asm)
  have sim: "simulates I repr node c" using Cons.prems(1) by simp
  obtain h1 where h1: "impl_step I c h = Some (r, h1)" "repr h1 zs" "\<forall>y. node h y \<longrightarrow> node h1 y"
    using simulatesD [OF sim Cons.prems(2) _ c] Cons.prems(3) by auto
  obtain h' where "impl_run I cs h1 = Some (rs', h')" "repr h' ys"
    using Cons.IH [OF _ h1(2) _ cs] Cons.prems(1,3) h1(3) by auto
  then show ?case using h1(1) rs by auto
qed

subsection \<open>The contracts\<close>

locale stack =
  fixes I :: "('h, 'a) deque_ops"
    and repr :: "'h \<Rightarrow> 'a list \<Rightarrow> bool"
    and node :: "'h \<Rightarrow> 'a \<Rightarrow> bool"
  assumes push_head: "repr h xs \<Longrightarrow> node h x \<Longrightarrow> x \<notin> set xs \<Longrightarrow>
      \<exists>h'. op_push_head I x h = Some h' \<and> repr h' (x # xs) \<and> (\<forall>y. node h y \<longrightarrow> node h' y)"
    and pop_head: "repr h (x # xs) \<Longrightarrow>
      \<exists>h'. op_pop_head I h = Some (x, h') \<and> repr h' xs \<and> (\<forall>y. node h y \<longrightarrow> node h' y)"
    and is_empty: "repr h xs \<Longrightarrow> op_is_empty I h = Some (xs = [])"
begin

lemma stack_simulates: "stack_op c \<Longrightarrow> simulates I repr node c"
  unfolding simulates_def
proof (intro allI impI)
  fix h xs r ys
  assume c: "stack_op c" and r: "repr h xs" and n: "\<forall>x \<in> pushed c. node h x"
    and s: "spec_step c xs = Some (r, ys)"
  show "\<exists>h'. impl_step I c h = Some (r, h') \<and> repr h' ys \<and> (\<forall>y. node h y \<longrightarrow> node h' y)"
  proof (cases c)
    case Pop_head
    then obtain x zs where "xs = x # zs" using s by (cases xs) auto
    then show ?thesis using Pop_head r s pop_head [of h x zs] by auto
  next
    case (Push_head x)
    then show ?thesis using r n s push_head [of h xs x] by (auto split: if_splits)
  next
    case Test_empty
    then show ?thesis using r s is_empty [of h xs] by auto
  qed (use c in auto)
qed

theorem stack_run_refines:
  assumes "\<forall>c \<in> set cs. stack_op c" and "repr h xs" and "\<forall>c \<in> set cs. \<forall>x \<in> pushed c. node h x"
    and "spec_run cs xs = Some (rs, ys)"
  shows "\<exists>h'. impl_run I cs h = Some (rs, h') \<and> repr h' ys"
  by (rule simulates_run [where repr = repr and node = node, OF _ assms(2-)]) (use assms(1) stack_simulates in blast)

end

locale tail_queue = stack +
  assumes push_tail: "repr h xs \<Longrightarrow> node h x \<Longrightarrow> x \<notin> set xs \<Longrightarrow>
      \<exists>h'. op_push_tail I x h = Some h' \<and> repr h' (xs @ [x]) \<and> (\<forall>y. node h y \<longrightarrow> node h' y)"
begin

lemma tail_queue_simulates: "tail_queue_op c \<Longrightarrow> simulates I repr node c"
proof (cases "stack_op c")
  case False
  assume "tail_queue_op c"
  then obtain x where "c = Push_tail x" using False by (cases c) auto
  then show ?thesis using push_tail by (auto simp: simulates_def split: if_splits)
qed (rule stack_simulates)

theorem tail_queue_run_refines:
  assumes "\<forall>c \<in> set cs. tail_queue_op c" and "repr h xs" and "\<forall>c \<in> set cs. \<forall>x \<in> pushed c. node h x"
    and "spec_run cs xs = Some (rs, ys)"
  shows "\<exists>h'. impl_run I cs h = Some (rs, h') \<and> repr h' ys"
  by (rule simulates_run [where repr = repr and node = node, OF _ assms(2-)]) (use assms(1) tail_queue_simulates in blast)

end

locale deque = tail_queue +
  assumes pop_tail: "repr h (xs @ [x]) \<Longrightarrow>
      \<exists>h'. op_pop_tail I h = Some (x, h') \<and> repr h' xs \<and> (\<forall>y. node h y \<longrightarrow> node h' y)"
begin

lemma deque_simulates: "simulates I repr node c"
proof (cases "tail_queue_op c")
  case False
  then have c: "c = Pop_tail" by (cases c) auto
  show ?thesis
    unfolding simulates_def
  proof (intro allI impI)
    fix h xs r ys
    assume "repr h xs" "spec_step c xs = Some (r, ys)"
    moreover then obtain x zs where "xs = zs @ [x]" using c by (cases xs rule: rev_cases) auto
    ultimately show "\<exists>h'. impl_step I c h = Some (r, h') \<and> repr h' ys \<and> (\<forall>y. node h y \<longrightarrow> node h' y)"
      using c pop_tail [of h zs x] by auto
  qed
qed (rule tail_queue_simulates)

theorem run_refines:
  assumes "repr h xs" and "\<forall>c \<in> set cs. \<forall>x \<in> pushed c. node h x" and "spec_run cs xs = Some (rs, ys)"
  shows "\<exists>h'. impl_run I cs h = Some (rs, h') \<and> repr h' ys"
  by (rule simulates_run [where repr = repr and node = node, OF _ assms]) (use deque_simulates in blast)

end

subsection \<open>First in, first out\<close>

lemma spec_fill:
  "distinct (xs @ zs) \<Longrightarrow> spec_run (map Push_tail zs @ cs) xs
     = map_option (apfst ((@) (replicate (length zs) Done))) (spec_run cs (xs @ zs))"
proof (induction zs arbitrary: xs)
  case Nil
  then show ?case by (cases "spec_run cs xs") auto
next
  case (Cons z zs)
  then show ?case using Cons.IH [of "xs @ [z]"] by (cases "spec_run cs (xs @ z # zs)") auto
qed

lemma spec_drain: "spec_run (replicate (length xs) Pop_head) xs = Some (map Popped xs, [])"
  by (induction xs) auto

lemma spec_fifo:
  "distinct xs \<Longrightarrow> spec_run (map Push_tail xs @ replicate (length xs) Pop_head) []
     = Some (replicate (length xs) Done @ map Popped xs, [])"
  using spec_fill [of "[]" xs] by (simp add: spec_drain)

context tail_queue
begin

theorem fifo:
  assumes "repr h []" and "distinct xs" and "\<forall>x \<in> set xs. node h x"
  shows "\<exists>h'. impl_run I (map Push_tail xs @ replicate (length xs) Pop_head) h
      = Some (replicate (length xs) Done @ map Popped xs, h') \<and> repr h' []"
  by (rule tail_queue_run_refines [OF _ assms(1) _ spec_fifo [OF assms(2)]]) (use assms(3) in auto)

end

end
