(* ===== verification/KQueue.thy ===== *)
theory KQueue
  imports QueueHeap DequeSpec
begin

text \<open>
  kern/queue.h, the queue heads and method 1 (linkage chains), in which the
  \<open>struct queue_entry\<close> fields point to each other. Every inline function and macro is a definition
  here, statement by statement, on the heap of \<open>QueueHeap\<close>; a dereference of an address without a
  linkage is \<open>None\<close>. The theorems say that each operation turns a well-formed queue holding a list
  of entries into a well-formed queue holding the list it should, without touching any other
  linkage. Method 2 (element chains) is in \<open>KQueueElements\<close>.
\<close>

subsection \<open>Heads\<close>

definition queue_init :: "ptr \<Rightarrow> qheap \<Rightarrow> qheap option" where
  "queue_init q h = do { h \<leftarrow> q_set_next q q h; q_set_prev q q h }"

definition queue_head_init :: "ptr \<Rightarrow> qheap \<Rightarrow> qheap option" where
  "queue_head_init q = queue_init q"

definition queue_chain_init :: "ptr \<Rightarrow> qheap \<Rightarrow> qheap option" where
  "queue_chain_init q = queue_init q"

definition queue_first :: "ptr \<Rightarrow> qheap \<Rightarrow> ptr option" where
  "queue_first q h = q_next q h"

definition queue_next :: "ptr \<Rightarrow> qheap \<Rightarrow> ptr option" where
  "queue_next qc h = q_next qc h"

definition queue_last :: "ptr \<Rightarrow> qheap \<Rightarrow> ptr option" where
  "queue_last q h = q_prev q h"

definition queue_prev :: "ptr \<Rightarrow> qheap \<Rightarrow> ptr option" where
  "queue_prev qc h = q_prev qc h"

definition queue_end :: "ptr \<Rightarrow> ptr \<Rightarrow> bool" where
  "queue_end q qe = (q = qe)"

definition queue_empty :: "ptr \<Rightarrow> qheap \<Rightarrow> bool option" where
  "queue_empty q h = do { n \<leftarrow> queue_first q h; Some (queue_end q n) }"

subsection \<open>Method 1: linkage chains\<close>

definition enqueue_head :: "ptr \<Rightarrow> ptr \<Rightarrow> qheap \<Rightarrow> qheap option" where
  "enqueue_head que elt h = do {
     old_head \<leftarrow> q_next que h;
     h \<leftarrow> q_set_next elt old_head h;
     h \<leftarrow> q_set_prev elt que h;
     h \<leftarrow> q_set_prev old_head elt h;
     q_set_next que elt h }"

definition enqueue_tail :: "ptr \<Rightarrow> ptr \<Rightarrow> qheap \<Rightarrow> qheap option" where
  "enqueue_tail que elt h = do {
     old_tail \<leftarrow> q_prev que h;
     h \<leftarrow> q_set_next elt que h;
     h \<leftarrow> q_set_prev elt old_tail h;
     h \<leftarrow> q_set_next old_tail elt h;
     q_set_prev que elt h }"

definition enqueue :: "ptr \<Rightarrow> ptr \<Rightarrow> qheap \<Rightarrow> qheap option" where
  "enqueue queue elt = enqueue_tail queue elt"

text \<open>The dequeue functions return \<open>NULL\<close> on an empty queue.\<close>

definition dequeue_head :: "ptr \<Rightarrow> qheap \<Rightarrow> (ptr \<times> qheap) option" where
  "dequeue_head que h = do {
     elt \<leftarrow> q_next que h;
     if elt \<noteq> que then do {
       new_head \<leftarrow> q_next elt h;
       h \<leftarrow> q_set_prev new_head que h;
       h \<leftarrow> q_set_next que new_head h;
       Some (elt, h) }
     else Some (NULL, h) }"

definition dequeue_tail :: "ptr \<Rightarrow> qheap \<Rightarrow> (ptr \<times> qheap) option" where
  "dequeue_tail que h = do {
     elt \<leftarrow> q_prev que h;
     if elt \<noteq> que then do {
       new_tail \<leftarrow> q_prev elt h;
       h \<leftarrow> q_set_next new_tail que h;
       h \<leftarrow> q_set_prev que new_tail h;
       Some (elt, h) }
     else Some (NULL, h) }"

definition dequeue :: "ptr \<Rightarrow> qheap \<Rightarrow> (ptr \<times> qheap) option" where
  "dequeue queue = dequeue_head queue"

definition remqueue :: "ptr \<Rightarrow> qheap \<Rightarrow> qheap option" where
  "remqueue elt h = do {
     next_elt \<leftarrow> q_next elt h;
     prev_elt \<leftarrow> q_prev elt h;
     h \<leftarrow> q_set_prev next_elt prev_elt h;
     q_set_next prev_elt next_elt h }"

definition insque :: "ptr \<Rightarrow> ptr \<Rightarrow> qheap \<Rightarrow> qheap option" where
  "insque entry pred h = do {
     successor \<leftarrow> q_next pred h;
     h \<leftarrow> q_set_next entry successor h;
     h \<leftarrow> q_set_prev entry pred h;
     h \<leftarrow> q_set_prev successor entry h;
     q_set_next pred entry h }"

definition remque :: "ptr \<Rightarrow> qheap \<Rightarrow> qheap option" where
  "remque elt h = do {
     next_elt \<leftarrow> q_next elt h;
     prev_elt \<leftarrow> q_prev elt h;
     h \<leftarrow> q_set_prev next_elt prev_elt h;
     q_set_next prev_elt next_elt h }"

definition re_queue_head :: "ptr \<Rightarrow> ptr \<Rightarrow> qheap \<Rightarrow> qheap option" where
  "re_queue_head que elt h = do {
     n_elt \<leftarrow> q_next elt h;
     p_elt \<leftarrow> q_prev elt h;
     h \<leftarrow> q_set_prev n_elt p_elt h;
     h \<leftarrow> q_set_next p_elt n_elt h;
     n_elt \<leftarrow> q_next que h;
     h \<leftarrow> q_set_next elt n_elt h;
     h \<leftarrow> q_set_prev elt que h;
     h \<leftarrow> q_set_prev n_elt elt h;
     q_set_next que elt h }"

definition re_queue_tail :: "ptr \<Rightarrow> ptr \<Rightarrow> qheap \<Rightarrow> qheap option" where
  "re_queue_tail que elt h = do {
     n_elt \<leftarrow> q_next elt h;
     p_elt \<leftarrow> q_prev elt h;
     h \<leftarrow> q_set_prev n_elt p_elt h;
     h \<leftarrow> q_set_next p_elt n_elt h;
     p_elt \<leftarrow> q_prev que h;
     h \<leftarrow> q_set_next elt que h;
     h \<leftarrow> q_set_prev elt p_elt h;
     h \<leftarrow> q_set_next p_elt elt h;
     q_set_prev que elt h }"

definition movqueue :: "ptr \<Rightarrow> ptr \<Rightarrow> qheap \<Rightarrow> qheap option" where
  "movqueue old new h = do {
     empty \<leftarrow> queue_empty old h;
     if empty then queue_init new h
     else do {
       next_elt \<leftarrow> q_next old h;
       prev_elt \<leftarrow> q_prev old h;
       h \<leftarrow> q_set_next new next_elt h;
       h \<leftarrow> q_set_prev new prev_elt h;
       h \<leftarrow> q_set_prev next_elt new h;
       h \<leftarrow> q_set_next prev_elt new h;
       queue_init old h } }"

subsection \<open>Method 1: iteration\<close>

text \<open>
  The iteration macros expand to \<open>for\<close> loops around a caller's body. The body here is any
  function on a state and the heap; a loop that does not end is \<open>None\<close>. \<open>__container_of\<close> subtracts
  the offset of the linkage in the element.
\<close>

type_synonym 's qbody = "ptr \<Rightarrow> 's \<times> qheap \<Rightarrow> ('s \<times> qheap) option"

definition qe_element :: "ptr \<Rightarrow> ptr \<Rightarrow> ptr" where
  "qe_element qe off = qe - off"

partial_function (option) qe_foreach_loop ::
  "'s qbody \<Rightarrow> ptr \<Rightarrow> ptr \<Rightarrow> 's \<times> qheap \<Rightarrow> ('s \<times> qheap) option" where
  "qe_foreach_loop body head qe st =
     (if qe = head then Some st
      else do { st \<leftarrow> body qe st; n \<leftarrow> q_next qe (snd st); qe_foreach_loop body head n st })"

definition qe_foreach :: "'s qbody \<Rightarrow> ptr \<Rightarrow> 's \<times> qheap \<Rightarrow> ('s \<times> qheap) option" where
  "qe_foreach body head st = do { n \<leftarrow> q_next head (snd st); qe_foreach_loop body head n st }"

partial_function (option) qe_foreach_safe_loop ::
  "'s qbody \<Rightarrow> ptr \<Rightarrow> ptr \<Rightarrow> ptr \<Rightarrow> 's \<times> qheap \<Rightarrow> ('s \<times> qheap) option" where
  "qe_foreach_safe_loop body head qe ne st =
     (if qe = head then Some st
      else do { st \<leftarrow> body qe st; n \<leftarrow> q_next ne (snd st); qe_foreach_safe_loop body head ne n st })"

definition qe_foreach_safe :: "'s qbody \<Rightarrow> ptr \<Rightarrow> 's \<times> qheap \<Rightarrow> ('s \<times> qheap) option" where
  "qe_foreach_safe body head st = do {
     qe \<leftarrow> q_next head (snd st);
     ne \<leftarrow> q_next qe (snd st);
     qe_foreach_safe_loop body head qe ne st }"

partial_function (option) qe_foreach_element_loop ::
  "'s qbody \<Rightarrow> ptr \<Rightarrow> ptr \<Rightarrow> ptr \<Rightarrow> 's \<times> qheap \<Rightarrow> ('s \<times> qheap) option" where
  "qe_foreach_element_loop body head off elt st =
     (if elt + off = head then Some st
      else do {
        st \<leftarrow> body elt st;
        n \<leftarrow> q_next (elt + off) (snd st);
        qe_foreach_element_loop body head off (qe_element n off) st })"

definition qe_foreach_element :: "'s qbody \<Rightarrow> ptr \<Rightarrow> ptr \<Rightarrow> 's \<times> qheap \<Rightarrow> ('s \<times> qheap) option" where
  "qe_foreach_element body head off st = do {
     n \<leftarrow> q_next head (snd st);
     qe_foreach_element_loop body head off (qe_element n off) st }"

partial_function (option) qe_foreach_element_safe_loop ::
  "'s qbody \<Rightarrow> ptr \<Rightarrow> ptr \<Rightarrow> ptr \<Rightarrow> ptr \<Rightarrow> 's \<times> qheap \<Rightarrow> ('s \<times> qheap) option" where
  "qe_foreach_element_safe_loop body head off elt nelt st =
     (if elt + off = head then Some st
      else do {
        st \<leftarrow> body elt st;
        n \<leftarrow> q_next (nelt + off) (snd st);
        qe_foreach_element_safe_loop body head off nelt (qe_element n off) st })"

definition qe_foreach_element_safe ::
  "'s qbody \<Rightarrow> ptr \<Rightarrow> ptr \<Rightarrow> 's \<times> qheap \<Rightarrow> ('s \<times> qheap) option" where
  "qe_foreach_element_safe body head off st = do {
     e \<leftarrow> q_next head (snd st);
     n \<leftarrow> q_next e (snd st);
     qe_foreach_element_safe_loop body head off (qe_element e off) (qe_element n off) st }"

subsection \<open>Each operation on a well-formed queue\<close>

lemma insque_ring:
  assumes r: "ring id h q (xs @ ys)" and e: "elt \<in> dom h" "elt \<notin> set (q # xs @ ys)"
    and p: "p = last (q # xs)"
  shows "\<exists>h'. insque elt p h = Some h' \<and> ring id h' q (xs @ elt # ys)
    \<and> same_outside (set (q # xs @ elt # ys)) h h'"
proof -
  define s where "s = hd (ys @ [q])"
  note ends = ring_ends [OF r p s_def]
  have ne: "elt \<noteq> p" "elt \<noteq> s" using ends(1,2) e by auto
  define h' where "h' = upd_next p elt (upd_prev s elt (upd_prev elt p (upd_next elt s h)))"
  have "insque elt p h = Some h'"
    using ends e by (simp add: insque_def q_access h'_def insert_absorb)
  moreover have "ring id h' q (xs @ elt # ys) \<and> same_outside (id ` set (q # xs @ elt # ys)) h h'"
    using ends ne e by (intro ring_insert_heap [OF r _ _ p s_def])
      (auto simp: h'_def q_access same_outside_def insert_absorb)
  ultimately show ?thesis by (simp add: image_id)
qed

lemma enqueue_head_ring:
  assumes "ring id h q xs" and "elt \<in> dom h" "elt \<notin> set (q # xs)"
  shows "\<exists>h'. enqueue_head q elt h = Some h' \<and> ring id h' q (elt # xs)
    \<and> same_outside (set (q # elt # xs)) h h'"
proof -
  have "enqueue_head q elt h = insque elt q h" by (simp add: enqueue_head_def insque_def)
  then show ?thesis using insque_ring [of h q "[]" xs elt q] assms by simp
qed

lemma enqueue_tail_ring:
  assumes r: "ring id h q xs" and e: "elt \<in> dom h" "elt \<notin> set (q # xs)"
  shows "\<exists>h'. enqueue_tail q elt h = Some h' \<and> ring id h' q (xs @ [elt])
    \<and> same_outside (set (q # xs @ [elt])) h h'"
proof -
  define p where "p = last (q # xs)"
  have r': "ring id h q (xs @ [])" using r by simp
  have s: "q = hd ([] @ [q])" by simp
  note ends = ring_ends [OF r' p_def s]
  have ne: "elt \<noteq> p" "elt \<noteq> q" using ends(1) e by auto
  define h' where "h' = upd_prev q elt (upd_next p elt (upd_prev elt p (upd_next elt q h)))"
  have "enqueue_tail q elt h = Some h'"
    using ends e by (simp add: enqueue_tail_def q_access h'_def insert_absorb)
  moreover have "ring id h' q (xs @ elt # []) \<and> same_outside (id ` set (q # xs @ elt # [])) h h'"
    using ends ne e by (intro ring_insert_heap [OF r' _ _ p_def s])
      (auto simp: h'_def q_access same_outside_def insert_absorb)
  ultimately show ?thesis by (simp add: image_id)
qed

lemma remqueue_ring:
  assumes r: "ring id h q (xs @ elt # ys)"
  shows "\<exists>h'. remqueue elt h = Some h' \<and> ring id h' q (xs @ ys)
    \<and> same_outside (set (q # xs @ elt # ys)) h h' \<and> q_next elt h' = q_next elt h"
proof -
  define p s where "p = last (q # xs)" and "s = hd (ys @ [q])"
  have nx: "q_next elt h = Some s" "q_prev elt h = Some p"
    using ring_node_next [OF r] ring_node_prev [OF r] by (simp_all add: p_def s_def)
  have ps: "p \<in> set (q # xs @ ys)" "s \<in> set (q # xs @ ys)"
    using last_in_set [of "q # xs"] ring_hd_in [of ys q] by (auto simp: p_def s_def)
  have d: "p \<in> dom h" "s \<in> dom h" "elt \<in> dom h" using ring_dom [OF r] ps by auto
  have ne: "elt \<noteq> p" "elt \<noteq> s" using ring_distinct(1) [OF r] ps by auto
  define h' where "h' = upd_next p s (upd_prev s p h)"
  have "remqueue elt h = Some h'"
    using nx d by (simp add: remqueue_def q_access h'_def)
  moreover have "ring id h' q (xs @ ys) \<and> same_outside (id ` set (q # xs @ elt # ys)) h h'"
    using d ne by (intro ring_remove_heap [OF r p_def s_def])
      (auto simp: h'_def q_access same_outside_def insert_absorb)
  moreover have "q_next elt h' = q_next elt h" using d ne by (simp add: h'_def q_access)
  ultimately show ?thesis by (simp add: image_id)
qed

lemma dequeue_head_ring:
  assumes "ring id h q (x # xs)"
  shows "\<exists>h'. dequeue_head q h = Some (x, h') \<and> ring id h' q xs \<and> same_outside (set (q # x # xs)) h h'"
proof -
  have nx: "q_next q h = Some x" using ring_head_next [OF assms] by simp
  have "q_prev x h = Some q" "x \<noteq> q"
    using ring_node_prev [of id h q "[]" x xs] assms ring_distinct(1) [OF assms] by auto
  then have "dequeue_head q h = map_option (Pair x) (remqueue x h)"
    using nx by (auto simp: dequeue_head_def remqueue_def map_option_bind split: Option.bind_splits)
  then show ?thesis using remqueue_ring [of h q "[]" x xs] assms by auto
qed

lemma dequeue_tail_ring:
  assumes r: "ring id h q (xs @ [x])"
  shows "\<exists>h'. dequeue_tail q h = Some (x, h') \<and> ring id h' q xs \<and> same_outside (set (q # xs @ [x])) h h'"
proof -
  define p where "p = last (q # xs)"
  have s: "q = hd ([] @ [q])" by simp
  have pv: "q_prev q h = Some x" "q_prev x h = Some p" "q_next x h = Some q"
    using ring_head_prev [OF r] ring_node_prev [of id h q xs x "[]"] ring_node_next [of id h q xs x "[]"] r
    by (simp_all add: p_def)
  have p: "p \<in> set (q # xs)" by (auto simp: p_def)
  have d: "p \<in> dom h" "q \<in> dom h" "x \<in> dom h" "x \<noteq> q" "x \<noteq> p"
    using ring_dom [OF r] ring_distinct(1) [OF r] p by auto
  define h' where "h' = upd_prev q p (upd_next p q h)"
  have "dequeue_tail q h = Some (x, h')"
    using pv d by (simp add: dequeue_tail_def q_access h'_def)
  moreover have "ring id h' q (xs @ []) \<and> same_outside (id ` set (q # xs @ x # [])) h h'"
    using d by (intro ring_remove_heap [OF r p_def s])
      (auto simp: h'_def q_access same_outside_def insert_absorb)
  ultimately show ?thesis by (simp add: image_id)
qed

lemma queue_empty_ring: "ring id h q xs \<Longrightarrow> queue_empty q h = Some (xs = [])"
  using ring_head_next [of id h q xs] ring_distinct(1) [of id h q xs]
  by (cases xs) (auto simp: queue_empty_def queue_first_def queue_end_def)

lemma queue_init_ring:
  assumes "q \<in> dom h"
  shows "\<exists>h'. queue_init q h = Some h' \<and> ring id h' q [] \<and> same_outside {q} h h'"
proof -
  define h' where "h' = upd_prev q q (upd_next q q h)"
  have "queue_init q h = Some h'" using assms by (simp add: queue_init_def h'_def q_access)
  moreover have "ring id h' q []" using assms by (simp add: ring_def link_def h'_def q_access)
  moreover have "same_outside {q} h h'" using assms by (auto simp: same_outside_def h'_def q_access)
  ultimately show ?thesis by blast
qed

lemma re_queue_tail_split: "re_queue_tail que elt h = Option.bind (remqueue elt h) (enqueue_tail que elt)"
  by (simp add: re_queue_tail_def remqueue_def enqueue_tail_def [abs_def])

lemma re_queue_head_split: "re_queue_head que elt h = Option.bind (remqueue elt h) (enqueue_head que elt)"
  by (simp add: re_queue_head_def remqueue_def enqueue_head_def [abs_def])

lemma re_queue_rings:
  assumes r1: "ring id h q1 (xs @ elt # ys)" and r2: "ring id h q2 zs"
    and disj: "set (q1 # xs @ elt # ys) \<inter> set (q2 # zs) = {}"
  shows "\<exists>h'. re_queue_tail q2 elt h = Some h' \<and> ring id h' q1 (xs @ ys) \<and> ring id h' q2 (zs @ [elt])"
    and "\<exists>h'. re_queue_head q2 elt h = Some h' \<and> ring id h' q1 (xs @ ys) \<and> ring id h' q2 (elt # zs)"
proof -
  obtain h1 where rem: "remqueue elt h = Some h1" and r1': "ring id h1 q1 (xs @ ys)"
    and s1: "same_outside (set (q1 # xs @ elt # ys)) h h1"
    using remqueue_ring [OF r1] by blast
  have r2': "ring id h1 q2 zs"
    by (rule ring_same_outside [OF r2 s1]) (use disj in auto)
  have e: "elt \<in> dom h1" "elt \<notin> set (q2 # zs)"
    using ring_dom [OF r1] dom_same_outside [OF s1] disj by auto
  have e1: "elt \<notin> set (q1 # xs @ ys)" using ring_distinct(1) [OF r1] by auto
  obtain h2 where h2: "enqueue_tail q2 elt h1 = Some h2" "ring id h2 q2 (zs @ [elt])"
      "same_outside (set (q2 # zs @ [elt])) h1 h2"
    using enqueue_tail_ring [OF r2' e] by blast
  have "ring id h2 q1 (xs @ ys)"
    by (rule ring_same_outside [OF r1' h2(3)]) (use disj e1 in auto)
  then show "\<exists>h'. re_queue_tail q2 elt h = Some h' \<and> ring id h' q1 (xs @ ys) \<and> ring id h' q2 (zs @ [elt])"
    using rem h2 by (simp add: re_queue_tail_split)
  obtain h3 where h3: "enqueue_head q2 elt h1 = Some h3" "ring id h3 q2 (elt # zs)"
      "same_outside (set (q2 # elt # zs)) h1 h3"
    using enqueue_head_ring [OF r2' e] by blast
  have "ring id h3 q1 (xs @ ys)"
    by (rule ring_same_outside [OF r1' h3(3)]) (use disj e1 in auto)
  then show "\<exists>h'. re_queue_head q2 elt h = Some h' \<and> ring id h' q1 (xs @ ys) \<and> ring id h' q2 (elt # zs)"
    using rem h3 by (simp add: re_queue_head_split)
qed

lemma re_queue_same_ring:
  assumes r: "ring id h q (xs @ elt # ys)"
  shows "\<exists>h'. re_queue_tail q elt h = Some h' \<and> ring id h' q (xs @ ys @ [elt])"
    and "\<exists>h'. re_queue_head q elt h = Some h' \<and> ring id h' q (elt # xs @ ys)"
proof -
  obtain h1 where rem: "remqueue elt h = Some h1" and r1: "ring id h1 q (xs @ ys)"
    and s1: "same_outside (set (q # xs @ elt # ys)) h h1"
    using remqueue_ring [OF r] by blast
  have e: "elt \<in> dom h1" "elt \<notin> set (q # xs @ ys)"
    using ring_dom [OF r] dom_same_outside [OF s1] ring_distinct(1) [OF r] by auto
  show "\<exists>h'. re_queue_tail q elt h = Some h' \<and> ring id h' q (xs @ ys @ [elt])"
    using enqueue_tail_ring [OF r1 e] rem by (auto simp: re_queue_tail_split)
  show "\<exists>h'. re_queue_head q elt h = Some h' \<and> ring id h' q (elt # xs @ ys)"
    using enqueue_head_ring [OF r1 e] rem by (auto simp: re_queue_head_split)
qed

lemma movqueue_ring:
  assumes r: "ring id h old xs" and new: "new \<in> dom h" "new \<notin> set (old # xs)"
  shows "\<exists>h'. movqueue old new h = Some h' \<and> ring id h' new xs \<and> ring id h' old []
    \<and> same_outside (set (new # old # xs)) h h'"
proof (cases "xs = []")
  case True
  obtain h' where i: "queue_init new h = Some h'" "ring id h' new []" "same_outside {new} h h'"
    using queue_init_ring [OF new(1)] by blast
  have "movqueue old new h = Some h'"
    using i(1) queue_empty_ring [OF r] True by (simp add: movqueue_def)
  moreover have "ring id h' old []"
    by (rule ring_same_outside [OF _ i(3)]) (use r new True in auto)
  moreover have "same_outside (set (new # old # xs)) h h'"
    by (rule same_outside_mono [OF i(3)]) auto
  ultimately show ?thesis using i(2) True by blast
next
  case False
  define n p where "n = hd xs" and "p = last xs"
  have np: "n \<in> set xs" "p \<in> set xs" using False by (simp_all add: n_def p_def)
  have nx: "q_next old h = Some n" "q_prev old h = Some p"
    using ring_head_next [OF r] ring_head_prev [OF r] False by (simp_all add: n_def p_def)
  have d: "n \<in> dom h" "p \<in> dom h" "old \<in> dom h" "n \<noteq> new" "p \<noteq> new" "n \<noteq> old" "p \<noteq> old" "old \<noteq> new"
    using ring_dom [OF r] ring_distinct(1) [OF r] new np by auto
  define h1 where "h1 = upd_next p new (upd_prev n new (upd_prev new p (upd_next new n h)))"
  define h' where "h' = upd_prev old old (upd_next old old h1)"
  have "movqueue old new h = Some h'"
    using nx d new queue_empty_ring [OF r] False
    by (simp add: movqueue_def queue_init_def q_access h'_def h1_def)
  moreover have "ring id h' new xs"
    by (rule ring_rebaseI [OF r False, where f' = id])
      (use d new ring_distinct(1) [OF r] in \<open>auto simp: h'_def h1_def q_access n_def [symmetric] p_def [symmetric]\<close>)
  moreover have "ring id h' old []"
    using d new by (simp add: ring_def link_def h'_def h1_def q_access)
  moreover have "same_outside (set (new # old # xs)) h h'"
    unfolding same_outside_def
  proof (intro conjI allI impI)
    show "dom h' = dom h" using d new by (auto simp: h'_def h1_def q_access)
    fix r assume "r \<notin> set (new # old # xs)"
    then have "r \<noteq> new" "r \<noteq> old" "r \<noteq> n" "r \<noteq> p" using np by auto
    then show "h' r = h r" by (simp add: h'_def h1_def q_access)
  qed
  ultimately show ?thesis by blast
qed

lemma qe_foreach_loop_pure:
  assumes "ring id h q (us @ vs)" and "\<And>x s. x \<in> set vs \<Longrightarrow> body x (s, h) = Some (g x s, h)"
  shows "qe_foreach_loop body q (hd (vs @ [q])) (s, h) = Some (fold g vs s, h)"
  using assms
proof (induction vs arbitrary: us s)
  case Nil
  then show ?case by (simp add: qe_foreach_loop.simps)
next
  case (Cons v vs)
  have "v \<noteq> q" using ring_distinct(1) [OF Cons.prems(1)] by auto
  moreover have "q_next v h = Some (hd (vs @ [q]))" using ring_node_next [OF Cons.prems(1)] by simp
  moreover have "qe_foreach_loop body q (hd (vs @ [q])) (g v s, h) = Some (fold g vs (g v s), h)"
    using Cons.IH [of "us @ [v]" "g v s"] Cons.prems by simp
  ultimately show ?case
    using Cons.prems(2) [of v s] by (subst qe_foreach_loop.simps) simp
qed

lemma qe_foreach_pure:
  assumes "ring id h q xs" and "\<And>x s. x \<in> set xs \<Longrightarrow> body x (s, h) = Some (g x s, h)"
  shows "qe_foreach body q (s, h) = Some (fold g xs s, h)"
  using qe_foreach_loop_pure [of h q "[]" xs body g s] assms ring_head_next [OF assms(1)]
  by (simp add: qe_foreach_def)

text \<open>A loop body that removes the entries satisfying \<open>P\<close> and records them.\<close>

definition purge :: "(ptr \<Rightarrow> bool) \<Rightarrow> ptr list qbody" where
  "purge P qe st =
     (if P qe then do { h \<leftarrow> remqueue qe (snd st); Some (fst st @ [qe], h) } else Some st)"

lemma qe_foreach_safe_loop_purge:
  assumes "ring id h q (us @ vs)"
  shows "\<exists>h'. qe_foreach_safe_loop (purge P) q (hd (vs @ [q])) (case vs of [] \<Rightarrow> ne | v # ws \<Rightarrow> hd (ws @ [q])) (s, h)
    = Some (s @ filter P vs, h') \<and> ring id h' q (us @ filter (Not \<circ> P) vs) 
    \<and> same_outside (set (q # us @ vs)) h h'"
  using assms
proof (induction vs arbitrary: us s h ne)
  case Nil
  then show ?case by (simp add: qe_foreach_safe_loop.simps same_outside_def)
next
  case (Cons v vs)
  let ?ne = "hd (vs @ [q])" let ?us = "us @ (if P v then [] else [v])"
  have v: "v \<noteq> q" using ring_distinct(1) [OF Cons.prems] by auto
  obtain h1 where b: "purge P v (s, h) = Some (s @ (if P v then [v] else []), h1)"
    and r1: "ring id h1 q (?us @ vs)"
    and s1: "same_outside (set (q # us @ v # vs)) h h1"
    using remqueue_ring [OF Cons.prems] Cons.prems
    by (cases "P v") (auto simp: purge_def same_outside_def)
  have n: "q_next ?ne h1 = Some (case vs of [] \<Rightarrow> hd (?us @ [q]) | w # ws \<Rightarrow> hd (ws @ [q]))"
    using ring_head_next [OF r1] ring_node_next [of id h1 q ?us] r1 by (cases vs) auto
  obtain h' where l: "qe_foreach_safe_loop (purge P) q ?ne (case vs of [] \<Rightarrow> hd (?us @ [q]) | w # ws \<Rightarrow> hd (ws @ [q]))
        (s @ (if P v then [v] else []), h1) = Some ((s @ (if P v then [v] else [])) @ filter P vs, h')"
      and r': "ring id h' q (?us @ filter (Not \<circ> P) vs)" and s': "same_outside (set (q # ?us @ vs)) h1 h'"
    using Cons.IH [OF r1] by blast
  have "same_outside (set (q # us @ v # vs)) h h'"
    by (rule same_outside_trans [OF s1 same_outside_mono [OF s']]) auto
  moreover have "ring id h' q (us @ filter (Not \<circ> P) (v # vs))" using r' by (cases "P v") simp_all
  ultimately show ?case
    using v b n l by (subst qe_foreach_safe_loop.simps) (cases "P v", simp_all)
qed

lemma qe_foreach_safe_purge:
  assumes r: "ring id h q xs"
  shows "\<exists>h'. qe_foreach_safe (purge P) q (s, h) = Some (s @ filter P xs, h')
    \<and> ring id h' q (filter (Not \<circ> P) xs) \<and> same_outside (set (q # xs)) h h'"
proof -
  define x where "x = hd (xs @ [q])"
  have x: "q_next q h = Some x" using ring_head_next [OF r] by (simp add: x_def)
  obtain n where n: "q_next x h = Some n"
    using ring_ends(4) [of id h q "[]" xs q x] r q_dom_next by (auto simp: x_def)
  have ne: "n = (case xs of [] \<Rightarrow> n | v # ws \<Rightarrow> hd (ws @ [q]))"
    using n r ring_node_next [of id h q "[]"] by (cases xs) (auto simp: x_def)
  show ?thesis
    using qe_foreach_safe_loop_purge [of h q "[]" xs P n s] r x n ne
    by (simp add: qe_foreach_safe_def x_def)
qed

lemma qe_foreach_element_loop_of:
  assumes "qe_foreach_loop (\<lambda>qe. body (qe_element qe off)) q x st = Some y"
  shows "qe_foreach_element_loop body q off (qe_element x off) st = Some y"
proof -
  have "b = (\<lambda>qe. body (qe_element qe off)) \<longrightarrow>
      qe_foreach_element_loop body q off (qe_element x off) st = Some y"
    if "qe_foreach_loop b q x st = Some y" for b
    using that
  proof (rule qe_foreach_loop.raw_induct [rotated])
    fix f b q x st y
    assume IH: "\<And>b q x st y. f b q x st = Some y \<Longrightarrow> b = (\<lambda>qe. body (qe_element qe off)) \<longrightarrow>
        qe_foreach_element_loop body q off (qe_element x off) st = Some y"
      and e: "(if x = q then Some st else Option.bind (b x st) (\<lambda>st. Option.bind (q_next x (snd st))
         (\<lambda>n. f b q n st))) = Some y"
    show "b = (\<lambda>qe. body (qe_element qe off)) \<longrightarrow>
        qe_foreach_element_loop body q off (qe_element x off) st = Some y"
      using e by (subst qe_foreach_element_loop.simps)
        (auto simp: qe_element_def IH [simplified qe_element_def] split: if_splits bind_split_asm)
  qed
  then show ?thesis using assms by simp
qed

lemma qe_foreach_element_of:
  assumes "qe_foreach (\<lambda>qe. body (qe_element qe off)) q st = Some y"
  shows "qe_foreach_element body q off st = Some y"
  using assms by (auto simp: qe_foreach_def qe_foreach_element_def qe_foreach_element_loop_of split: bind_split_asm)

lemma qe_foreach_element_safe_loop_of:
  assumes "qe_foreach_safe_loop (\<lambda>qe. body (qe_element qe off)) q x n st = Some y"
  shows "qe_foreach_element_safe_loop body q off (qe_element x off) (qe_element n off) st = Some y"
proof -
  have "b = (\<lambda>qe. body (qe_element qe off)) \<longrightarrow>
      qe_foreach_element_safe_loop body q off (qe_element x off) (qe_element n off) st = Some y"
    if "qe_foreach_safe_loop b q x n st = Some y" for b
    using that
  proof (rule qe_foreach_safe_loop.raw_induct [rotated])
    fix f b q x n st y
    assume IH: "\<And>b q x n st y. f b q x n st = Some y \<Longrightarrow> b = (\<lambda>qe. body (qe_element qe off)) \<longrightarrow>
        qe_foreach_element_safe_loop body q off (qe_element x off) (qe_element n off) st = Some y"
      and e: "(if x = q then Some st else Option.bind (b x st) (\<lambda>st. Option.bind (q_next n (snd st))
         (\<lambda>m. f b q n m st))) = Some y"
    show "b = (\<lambda>qe. body (qe_element qe off)) \<longrightarrow>
        qe_foreach_element_safe_loop body q off (qe_element x off) (qe_element n off) st = Some y"
      using e by (subst qe_foreach_element_safe_loop.simps)
        (auto simp: qe_element_def IH [simplified qe_element_def] split: if_splits bind_split_asm)
  qed
  then show ?thesis using assms by simp
qed

lemma qe_foreach_element_safe_of:
  assumes "qe_foreach_safe (\<lambda>qe. body (qe_element qe off)) q st = Some y"
  shows "qe_foreach_element_safe body q off st = Some y"
  using assms by (auto simp: qe_foreach_safe_def qe_foreach_element_safe_def
      qe_foreach_element_safe_loop_of split: bind_split_asm)

lemma dequeue_empty:
  assumes "ring id h q []"
  shows "dequeue_head q h = Some (NULL, h)" "dequeue_tail q h = Some (NULL, h)"
  using ring_head_next [OF assms] ring_head_prev [OF assms]
  by (simp_all add: dequeue_head_def dequeue_tail_def)

subsection \<open>The queue as a deque\<close>

definition linkage_deque :: "ptr \<Rightarrow> (qheap, ptr) deque_ops" where
  "linkage_deque q = \<lparr>op_push_head = enqueue_head q, op_push_tail = enqueue_tail q,
     op_pop_head = dequeue_head q, op_pop_tail = dequeue_tail q, op_is_empty = queue_empty q\<rparr>"

interpretation linkage: deque "linkage_deque q" "\<lambda>h xs. ring id h q xs" "\<lambda>h x. x \<in> dom h \<and> x \<noteq> q"
  for q
proof
  fix h xs x
  assume r: "ring id h q xs" and n: "x \<in> dom h \<and> x \<noteq> q" and x: "x \<notin> set xs"
  show "\<exists>h'. op_push_head (linkage_deque q) x h = Some h' \<and> ring id h' q (x # xs)
      \<and> (\<forall>y. y \<in> dom h \<and> y \<noteq> q \<longrightarrow> y \<in> dom h' \<and> y \<noteq> q)"
    using enqueue_head_ring [OF r, of x] n x by (auto simp: linkage_deque_def dest!: dom_same_outside)
  show "\<exists>h'. op_push_tail (linkage_deque q) x h = Some h' \<and> ring id h' q (xs @ [x])
      \<and> (\<forall>y. y \<in> dom h \<and> y \<noteq> q \<longrightarrow> y \<in> dom h' \<and> y \<noteq> q)"
    using enqueue_tail_ring [OF r, of x] n x by (auto simp: linkage_deque_def dest!: dom_same_outside)
next
  fix h x xs assume "ring id h q (x # xs)"
  then show "\<exists>h'. op_pop_head (linkage_deque q) h = Some (x, h') \<and> ring id h' q xs
      \<and> (\<forall>y. y \<in> dom h \<and> y \<noteq> q \<longrightarrow> y \<in> dom h' \<and> y \<noteq> q)"
    using dequeue_head_ring [of h q x xs] by (auto simp: linkage_deque_def dest!: dom_same_outside)
next
  fix h xs x assume "ring id h q (xs @ [x])"
  then show "\<exists>h'. op_pop_tail (linkage_deque q) h = Some (x, h') \<and> ring id h' q xs
      \<and> (\<forall>y. y \<in> dom h \<and> y \<noteq> q \<longrightarrow> y \<in> dom h' \<and> y \<noteq> q)"
    using dequeue_tail_ring [of h q xs x] by (auto simp: linkage_deque_def dest!: dom_same_outside)
next
  fix h xs assume "ring id h q xs"
  then show "op_is_empty (linkage_deque q) h = Some (xs = [])"
    by (simp add: linkage_deque_def queue_empty_ring)
qed

subsection \<open>Properties\<close>

text \<open>A heap with a queue of two entries at 16 and 24 under the head 8, and a free linkage at 32.\<close>

definition sample_heap :: qheap where
  "sample_heap = [8 \<mapsto> \<lparr>qe_next = 16, qe_prev = 24\<rparr>, 16 \<mapsto> \<lparr>qe_next = 24, qe_prev = 8\<rparr>,
     24 \<mapsto> \<lparr>qe_next = 8, qe_prev = 16\<rparr>, 32 \<mapsto> \<lparr>qe_next = 0, qe_prev = 0\<rparr>]"

lemma sample_ring: "ring id sample_heap 8 [16, 24]"
  by (simp add: ring_def link_def sample_heap_def q_next_def q_prev_def)

lemma sample_dom: "dom sample_heap = {8, 16, 24, 32}"
  by (auto simp: sample_heap_def)

text \<open>
  C4: Any sequence of enqueue_head, enqueue_tail, dequeue_head, dequeue_tail and queue_empty that
  the abstract deque allows runs without a fault on a well-formed queue, returns what the list of
  queued entries would return, and leaves a well-formed queue holding the final list.
\<close>

theorem linkage_queue_refines_deque:
  assumes "ring id h q xs" and "\<forall>c \<in> set cs. \<forall>x \<in> pushed c. x \<in> dom h \<and> x \<noteq> q"
    and "spec_run cs xs = Some (rs, ys)"
  shows "\<exists>h'. impl_run (linkage_deque q) cs h = Some (rs, h') \<and> ring id h' q ys"
  by (rule linkage.run_refines [OF assms])

theorem linkage_queue_refines_deque_witness:
  "\<exists>h'. impl_run (linkage_deque 8) [Push_tail 32, Pop_head, Push_head 16, Pop_tail, Test_empty] sample_heap
     = Some ([Done, Popped 16, Done, Popped 32, Is_empty False], h') \<and> ring id h' 8 [16, 24]"
  by (rule linkage_queue_refines_deque [OF sample_ring]) (simp_all add: sample_dom)

text \<open>
  Insque puts an entry behind any entry of a queue (or at its front, behind the head) and
  remqueue or remque takes it out again from wherever it is; neither touches a linkage outside
  the queue.
\<close>

theorem insque_remqueue_anywhere:
  assumes "ring id h q (xs @ ys)" and "elt \<in> dom h" and "elt \<notin> set (q # xs @ ys)"
  shows "\<exists>h' h''. insque elt (last (q # xs)) h = Some h' \<and> ring id h' q (xs @ elt # ys)
    \<and> same_outside (set (q # xs @ elt # ys)) h h'
    \<and> remqueue elt h' = Some h'' \<and> remque elt h' = Some h'' \<and> ring id h'' q (xs @ ys)
    \<and> same_outside (set (q # xs @ elt # ys)) h h''"
proof -
  obtain h' where h': "insque elt (last (q # xs)) h = Some h'" "ring id h' q (xs @ elt # ys)"
      "same_outside (set (q # xs @ elt # ys)) h h'"
    using insque_ring [OF assms refl] by blast
  obtain h'' where h'': "remqueue elt h' = Some h''" "ring id h'' q (xs @ ys)"
      "same_outside (set (q # xs @ elt # ys)) h' h''"
    using remqueue_ring [OF h'(2)] by blast
  have "remque elt h' = remqueue elt h'" by (simp add: remque_def remqueue_def)
  then show ?thesis using h' h'' same_outside_trans [OF h'(3) h''(3)] by (intro exI [of _ h'] exI [of _ h'']) simp
qed

theorem insque_remqueue_anywhere_witness:
  "\<exists>h' h''. insque 32 16 sample_heap = Some h' \<and> ring id h' 8 [16, 32, 24]
    \<and> remqueue 32 h' = Some h'' \<and> ring id h'' 8 [16, 24]"
  using insque_remqueue_anywhere [of sample_heap 8 "[16]" "[24]" 32] sample_ring sample_dom by auto

text \<open>
  Dequeue returns NULL exactly on an empty queue, which it leaves as it is; on any other queue
  it returns the entry that was enqueued first.
\<close>

theorem dequeue_null_iff_empty:
  assumes "ring id h q xs" and "NULL \<notin> set xs"
  shows "\<exists>h'. dequeue q h = Some (hd (xs @ [NULL]), h') \<and> ring id h' q (tl xs)
    \<and> (hd (xs @ [NULL]) = NULL \<longleftrightarrow> xs = []) \<and> (xs = [] \<longrightarrow> h' = h)"
proof (cases xs)
  case Nil
  then show ?thesis using dequeue_empty(1) [of h q] assms by (simp add: dequeue_def)
next
  case (Cons x zs)
  then show ?thesis using dequeue_head_ring [of h q x zs] assms by (auto simp: dequeue_def)
qed

theorem dequeue_null_iff_empty_witness:
  "\<exists>h'. dequeue 8 sample_heap = Some (16, h') \<and> ring id h' 8 [24]"
  using dequeue_null_iff_empty [OF sample_ring] by auto

text \<open>
  Re_queue_head and re_queue_tail move an entry from the queue it is on to the given end of
  another queue, and to that end of its own queue when the two are the same.
\<close>

theorem re_queue_moves_entry:
  assumes "ring id h q1 (xs @ elt # ys)" and "ring id h q2 zs"
    and "q1 = q2 \<or> set (q1 # xs @ elt # ys) \<inter> set (q2 # zs) = {}"
  shows "\<exists>ht hh. re_queue_tail q2 elt h = Some ht \<and> re_queue_head q2 elt h = Some hh \<and>
    (if q1 = q2 then ring id ht q1 (xs @ ys @ [elt]) \<and> ring id hh q1 (elt # xs @ ys)
     else ring id ht q1 (xs @ ys) \<and> ring id ht q2 (zs @ [elt])
       \<and> ring id hh q1 (xs @ ys) \<and> ring id hh q2 (elt # zs))"
proof (cases "q1 = q2")
  case True
  then show ?thesis using re_queue_same_ring [OF assms(1)] by auto
next
  case False
  then show ?thesis using re_queue_rings [OF assms(1,2)] assms(3) by auto
qed

theorem re_queue_moves_entry_witness:
  "\<exists>ht hh. re_queue_tail 8 16 sample_heap = Some ht \<and> re_queue_head 8 16 sample_heap = Some hh
    \<and> ring id ht 8 [24, 16] \<and> ring id hh 8 [16, 24]"
  using re_queue_moves_entry [of sample_heap 8 "[]" 16 "[24]" 8 "[16, 24]"] sample_ring by simp

text \<open>
  Movqueue puts the entries of a queue under the new head in the same order, leaves the old
  head an empty queue, and touches nothing but the two heads and the entries.
\<close>

theorem movqueue_rebases:
  assumes "ring id h old xs" and "new \<in> dom h" and "new \<notin> set (old # xs)"
  shows "\<exists>h'. movqueue old new h = Some h' \<and> ring id h' new xs \<and> ring id h' old []
    \<and> same_outside (set (new # old # xs)) h h'"
  by (rule movqueue_ring [OF assms])

theorem movqueue_rebases_witness:
  "\<exists>h'. movqueue 8 32 sample_heap = Some h' \<and> ring id h' 32 [16, 24] \<and> ring id h' 8 []"
  using movqueue_rebases [OF sample_ring, of 32] sample_dom by auto

text \<open>
  Qe_foreach and qe_foreach_element end, and hand every entry (every containing element) of
  the queue to a body that leaves the linkages alone exactly once, in queue order.
\<close>

theorem qe_foreach_visits_in_order:
  assumes "ring id h q xs"
    and "\<forall>x \<in> set xs. \<forall>s. body x (s, h) = Some (g x s, h)"
    and "\<forall>x \<in> set xs. \<forall>s. ebody (qe_element x off) (s, h) = Some (g x s, h)"
  shows "qe_foreach body q (s, h) = Some (fold g xs s, h)
    \<and> qe_foreach_element ebody q off (s, h) = Some (fold g xs s, h)"
proof
  show "qe_foreach body q (s, h) = Some (fold g xs s, h)"
    by (rule qe_foreach_pure [OF assms(1)]) (use assms(2) in auto)
  have "qe_foreach (\<lambda>qe. ebody (qe_element qe off)) q (s, h) = Some (fold g xs s, h)"
    by (rule qe_foreach_pure [OF assms(1)]) (use assms(3) in auto)
  then show "qe_foreach_element ebody q off (s, h) = Some (fold g xs s, h)"
    by (rule qe_foreach_element_of)
qed

theorem qe_foreach_visits_in_order_witness:
  "qe_foreach (\<lambda>x (s, h). Some (s @ [x], h)) 8 ([], sample_heap) = Some ([16, 24], sample_heap)
   \<and> qe_foreach_element (\<lambda>x (s, h). Some (s @ [x + 4], h)) 8 4 ([], sample_heap) = Some ([16, 24], sample_heap)"
  using qe_foreach_visits_in_order [OF sample_ring, of "\<lambda>x (s, h). Some (s @ [x], h)" "\<lambda>x s. s @ [x]"
      "\<lambda>x (s, h). Some (s @ [x + 4], h)" 4 "[]"]
  by (simp add: qe_element_def)

text \<open>
  A body that removes the current entry is safe under qe_foreach_safe and
  qe_foreach_element_safe: the loop ends, removes exactly the entries the body chose, in queue
  order, and keeps the others in order.
\<close>

theorem qe_foreach_safe_allows_removal:
  assumes "ring id h q xs"
  shows "\<exists>h'. qe_foreach_safe (purge P) q ([], h) = Some (filter P xs, h')
    \<and> qe_foreach_element_safe (\<lambda>elt. purge P (elt + off)) q off ([], h) = Some (filter P xs, h')
    \<and> ring id h' q (filter (Not \<circ> P) xs) \<and> same_outside (set (q # xs)) h h'"
proof -
  obtain h' where h': "qe_foreach_safe (purge P) q ([], h) = Some (filter P xs, h')"
      "ring id h' q (filter (Not \<circ> P) xs)" "same_outside (set (q # xs)) h h'"
    using qe_foreach_safe_purge [OF assms, of P "[]"] by auto
  have "(\<lambda>qe. purge P (qe_element qe off + off)) = purge P"
    by (simp add: qe_element_def)
  then have "qe_foreach_element_safe (\<lambda>elt. purge P (elt + off)) q off ([], h) = Some (filter P xs, h')"
    using h'(1) by (intro qe_foreach_element_safe_of) simp
  then show ?thesis using h' by blast
qed

theorem qe_foreach_safe_allows_removal_witness:
  "\<exists>h'. qe_foreach_safe (purge (\<lambda>x. x = 16)) 8 ([], sample_heap) = Some ([16], h') \<and> ring id h' 8 [24]"
  using qe_foreach_safe_allows_removal [OF sample_ring, of "\<lambda>x. x = 16" 0] by auto

end
