(* ===== verification/KQueueElements.thy ===== *)
theory KQueueElements
  imports KQueue
begin

text \<open>
  kern/queue.h, method 2 (element chains): the linkages hold the addresses of the elements, and
  the linkage of an element is its chain field, at a fixed offset. The head is told apart from an
  element by comparing addresses, in every macro. Every macro is a definition here, statement by
  statement; the theorems mirror those of \<open>KQueue\<close> on circles read through the chain field.
\<close>

subsection \<open>Method 2: element chains\<close>

text \<open>\<open>off\<close> is the offset of the macro's \<open>field\<close> in its \<open>type\<close>.\<close>

definition queue_field :: "ptr \<Rightarrow> ptr \<Rightarrow> ptr \<Rightarrow> ptr" where
  "queue_field head off thing = (if head = thing then head else thing + off)"

definition queue_enter :: "ptr \<Rightarrow> ptr \<Rightarrow> ptr \<Rightarrow> qheap \<Rightarrow> qheap option" where
  "queue_enter head elt off h = do {
     prev \<leftarrow> q_prev head h;
     h \<leftarrow> q_set_prev (elt + off) prev h;
     h \<leftarrow> q_set_next (elt + off) head h;
     h \<leftarrow> (if head = prev then q_set_next head elt h else q_set_next (prev + off) elt h);
     q_set_prev head elt h }"

definition queue_enter_first :: "ptr \<Rightarrow> ptr \<Rightarrow> ptr \<Rightarrow> qheap \<Rightarrow> qheap option" where
  "queue_enter_first head elt off h = do {
     next \<leftarrow> q_next head h;
     h \<leftarrow> (if head = next then q_set_prev head elt h else q_set_prev (next + off) elt h);
     h \<leftarrow> q_set_next (elt + off) next h;
     h \<leftarrow> q_set_prev (elt + off) head h;
     q_set_next head elt h }"

definition queue_insert_before :: "ptr \<Rightarrow> ptr \<Rightarrow> ptr \<Rightarrow> ptr \<Rightarrow> qheap \<Rightarrow> qheap option" where
  "queue_insert_before head elt cur off h =
     (if head = cur then do {
        h \<leftarrow> q_set_next (elt + off) head h;
        n \<leftarrow> q_next head h;
        h \<leftarrow> (if n = head then do {
               h \<leftarrow> q_set_prev (elt + off) head h;
               q_set_next head elt h }
             else do {
               prev \<leftarrow> q_prev head h;
               h \<leftarrow> q_set_prev (elt + off) prev h;
               q_set_next (prev + off) elt h });
        q_set_prev head elt h }
      else do {
        h \<leftarrow> q_set_next (elt + off) cur h;
        n \<leftarrow> q_next head h;
        h \<leftarrow> (if n = cur then do {
               h \<leftarrow> q_set_prev (elt + off) head h;
               q_set_next head elt h }
             else do {
               prev \<leftarrow> q_prev (cur + off) h;
               h \<leftarrow> q_set_prev (elt + off) prev h;
               q_set_next (prev + off) elt h });
        q_set_prev (cur + off) elt h })"

definition queue_insert_after :: "ptr \<Rightarrow> ptr \<Rightarrow> ptr \<Rightarrow> ptr \<Rightarrow> qheap \<Rightarrow> qheap option" where
  "queue_insert_after head elt cur off h =
     (if head = cur then do {
        h \<leftarrow> q_set_prev (elt + off) head h;
        n \<leftarrow> q_next head h;
        h \<leftarrow> (if n = head then do {
               h \<leftarrow> q_set_next (elt + off) head h;
               q_set_prev head elt h }
             else do {
               next \<leftarrow> q_next head h;
               h \<leftarrow> q_set_next (elt + off) next h;
               q_set_prev (next + off) elt h });
        q_set_next head elt h }
      else do {
        h \<leftarrow> q_set_prev (elt + off) cur h;
        p \<leftarrow> q_prev head h;
        h \<leftarrow> (if p = cur then do {
               h \<leftarrow> q_set_next (elt + off) head h;
               q_set_prev head elt h }
             else do {
               next \<leftarrow> q_next (cur + off) h;
               h \<leftarrow> q_set_next (elt + off) next h;
               q_set_prev (next + off) elt h });
        q_set_next (cur + off) elt h })"

definition queue_remove :: "ptr \<Rightarrow> ptr \<Rightarrow> ptr \<Rightarrow> qheap \<Rightarrow> qheap option" where
  "queue_remove head elt off h = do {
     next \<leftarrow> q_next (elt + off) h;
     prev \<leftarrow> q_prev (elt + off) h;
     h \<leftarrow> (if head = next then q_set_prev head prev h else q_set_prev (next + off) prev h);
     h \<leftarrow> (if head = prev then q_set_next head next h else q_set_next (prev + off) next h);
     h \<leftarrow> q_set_next (elt + off) NULL h;
     q_set_prev (elt + off) NULL h }"

definition queue_remove_first :: "ptr \<Rightarrow> ptr \<Rightarrow> qheap \<Rightarrow> (ptr \<times> qheap) option" where
  "queue_remove_first head off h = do {
     entry \<leftarrow> q_next head h;
     next \<leftarrow> q_next (entry + off) h;
     h \<leftarrow> (if head = next then q_set_prev head head h else q_set_prev (next + off) head h);
     h \<leftarrow> q_set_next head next h;
     h \<leftarrow> q_set_next (entry + off) NULL h;
     h \<leftarrow> q_set_prev (entry + off) NULL h;
     Some (entry, h) }"

definition queue_remove_last :: "ptr \<Rightarrow> ptr \<Rightarrow> qheap \<Rightarrow> (ptr \<times> qheap) option" where
  "queue_remove_last head off h = do {
     entry \<leftarrow> q_prev head h;
     prev \<leftarrow> q_prev (entry + off) h;
     h \<leftarrow> (if head = prev then q_set_next head head h else q_set_next (prev + off) head h);
     h \<leftarrow> q_set_prev head prev h;
     h \<leftarrow> q_set_next (entry + off) NULL h;
     h \<leftarrow> q_set_prev (entry + off) NULL h;
     Some (entry, h) }"

text \<open>\<open>*to = *from\<close> copies both fields of a linkage.\<close>

definition q_copy :: "ptr \<Rightarrow> ptr \<Rightarrow> qheap \<Rightarrow> qheap option" where
  "q_copy to from h = do { e \<leftarrow> h from; _ \<leftarrow> h to; Some (h(to \<mapsto> e)) }"

definition queue_assign :: "ptr \<Rightarrow> ptr \<Rightarrow> ptr \<Rightarrow> qheap \<Rightarrow> qheap option" where
  "queue_assign to from off h = do {
     p \<leftarrow> q_prev from h;
     h \<leftarrow> q_set_next (p + off) to h;
     n \<leftarrow> q_next from h;
     h \<leftarrow> q_set_prev (n + off) to h;
     q_copy to from h }"

definition queue_new_head :: "ptr \<Rightarrow> ptr \<Rightarrow> ptr \<Rightarrow> qheap \<Rightarrow> qheap option" where
  "queue_new_head old new off h = do {
     empty \<leftarrow> queue_empty old h;
     if \<not> empty then do {
       h \<leftarrow> q_copy new old h;
       n \<leftarrow> q_next new h;
       h \<leftarrow> q_set_prev (n + off) new h;
       p \<leftarrow> q_prev new h;
       q_set_next (p + off) new h }
     else queue_init new h }"

partial_function (option) queue_iterate_loop ::
  "'s qbody \<Rightarrow> ptr \<Rightarrow> ptr \<Rightarrow> ptr \<Rightarrow> 's \<times> qheap \<Rightarrow> ('s \<times> qheap) option" where
  "queue_iterate_loop body head off elt st =
     (if queue_end head elt then Some st
      else do {
        st \<leftarrow> body elt st;
        n \<leftarrow> queue_next (elt + off) (snd st);
        queue_iterate_loop body head off n st })"

definition queue_iterate :: "'s qbody \<Rightarrow> ptr \<Rightarrow> ptr \<Rightarrow> 's \<times> qheap \<Rightarrow> ('s \<times> qheap) option" where
  "queue_iterate body head off st = do {
     e \<leftarrow> queue_first head (snd st);
     queue_iterate_loop body head off e st }"

subsection \<open>Each macro on a well-formed element chain\<close>

abbreviation chain :: "ptr \<Rightarrow> qheap \<Rightarrow> ptr \<Rightarrow> ptr list \<Rightarrow> bool" where
  "chain off h q xs \<equiv> ring (queue_field q off) h q xs"

lemma queue_field_simps [simp]:
  "queue_field q off q = q" "x \<noteq> q \<Longrightarrow> queue_field q off x = x + off"
  by (simp_all add: queue_field_def)

lemma queue_field_fold:
  "(if q = p then F q else F (p + off)) = F (queue_field q off p)"
  by (simp add: queue_field_def)

lemma chain_insert:
  assumes r: "chain off h q (xs @ ys)" and e: "elt \<noteq> q" "elt + off \<in> dom h"
      "elt + off \<notin> queue_field q off ` set (q # xs @ ys)"
    and p: "p = last (q # xs)" and s: "s = hd (ys @ [q])"
    and h': "h' = upd_prev (queue_field q off s) elt (upd_next (queue_field q off p) elt
        (upd_prev (elt + off) p (upd_next (elt + off) s h)))"
  shows "chain off h' q (xs @ elt # ys)
    \<and> same_outside (queue_field q off ` set (q # xs @ elt # ys)) h h'"
proof -
  note ends = ring_ends [OF r p s]
  have ne: "elt + off \<noteq> queue_field q off p" "elt + off \<noteq> queue_field q off s"
    using e(3) ends(1,2) by blast+
  show ?thesis
    by (rule ring_insert_heap [OF r _ _ p s])
      (use ends ne e in \<open>auto simp: h' q_access same_outside_def insert_absorb\<close>)
qed

lemma queue_enter_chain:
  assumes r: "chain off h q xs" and e: "elt \<noteq> q" "elt + off \<in> dom h"
      "elt + off \<notin> queue_field q off ` set (q # xs)"
  shows "\<exists>h'. queue_enter q elt off h = Some h' \<and> chain off h' q (xs @ [elt])
    \<and> same_outside (queue_field q off ` set (q # xs @ [elt])) h h'"
proof -
  define p where "p = last (q # xs)"
  have r': "chain off h q (xs @ [])" using r by simp
  have s: "q = hd ([] @ [q])" by simp
  note ends = ring_ends [OF r' p_def s]
  define h' where "h' = upd_prev (queue_field q off q) elt (upd_next (queue_field q off p) elt
        (upd_prev (elt + off) p (upd_next (elt + off) q h)))"
  have "queue_enter q elt off h = Some h'"
    using ends e
    by (simp add: queue_enter_def queue_field_fold [where F = "\<lambda>a. q_set_next a v h" for v h]
      q_access h'_def insert_absorb upd_next_prev)
  then show ?thesis
    using chain_insert [OF r' e(1,2) _ p_def s h'_def] e(3) by simp
qed

lemma queue_enter_first_chain:
  assumes r: "chain off h q xs" and e: "elt \<noteq> q" "elt + off \<in> dom h"
      "elt + off \<notin> queue_field q off ` set (q # xs)"
  shows "\<exists>h'. queue_enter_first q elt off h = Some h' \<and> chain off h' q (elt # xs)
    \<and> same_outside (queue_field q off ` set (q # elt # xs)) h h'"
proof -
  define s where "s = hd (xs @ [q])"
  have r': "chain off h q ([] @ xs)" using r by simp
  have p: "q = last [q]" by simp
  note ends = ring_ends [OF r' p s_def]
  have ne: "elt + off \<noteq> queue_field q off s" "elt + off \<noteq> q"
    using e(3) ends(2) by (auto simp: image_iff)
  define h' where "h' = upd_prev (queue_field q off s) elt (upd_next (queue_field q off q) elt
        (upd_prev (elt + off) q (upd_next (elt + off) s h)))"
  have "queue_enter_first q elt off h = Some h'"
    using ends e ne
    by (simp add: queue_enter_first_def queue_field_fold [where F = "\<lambda>a. q_set_prev a v h" for v h]
      q_access h'_def insert_absorb upd_next_prev upd_prev_prev [of "queue_field q off s"])
  then show ?thesis
    using chain_insert [OF r' e(1,2) _ p s_def h'_def] e(3) by simp
qed

lemma queue_insert_before_chain:
  assumes r: "chain off h q (xs @ ys)" and e: "elt \<noteq> q" "elt + off \<in> dom h"
      "elt + off \<notin> queue_field q off ` set (q # xs @ ys)" and cur: "cur = hd (ys @ [q])"
  shows "\<exists>h'. queue_insert_before q elt cur off h = Some h' \<and> chain off h' q (xs @ elt # ys)
    \<and> same_outside (queue_field q off ` set (q # xs @ elt # ys)) h h'"
proof -
  define p where "p = last (q # xs)"
  note ends = ring_ends [OF r p_def cur]
  have ne: "elt + off \<noteq> queue_field q off cur" "elt + off \<noteq> q" "elt + off \<noteq> queue_field q off p"
    using e(3) ends(1,2) by (auto simp: image_iff)
  have first: "q_next q h = Some (hd (xs @ ys @ [q]))"
    using ring_head_next [OF r] by simp
  have d: "distinct (q # xs @ ys)" using ring_distinct(1) [OF r] .
  have pq: "p = q \<longleftrightarrow> xs = []" using d by (auto simp: p_def dest: last_in_set split: if_splits)
  have fc: "hd (xs @ ys @ [q]) = cur \<longleftrightarrow> p = q"
    using d cur ring_hd_in [of ys q] by (cases xs) (auto simp: pq)
  have qd: "q \<in> dom h" using first by (rule q_next_dom)
  define h' where "h' = upd_prev (queue_field q off cur) elt (upd_next (queue_field q off p) elt
        (upd_prev (elt + off) p (upd_next (elt + off) cur h)))"
  have "queue_insert_before q elt cur off h = Some h'"
    using ends e ne first qd fc
    by (cases "cur = q"; cases "p = q")
      (simp_all add: queue_insert_before_def q_access h'_def insert_absorb upd_next_prev)
  then show ?thesis
    using chain_insert [OF r e p_def cur h'_def] by simp
qed

lemma queue_insert_after_chain:
  assumes r: "chain off h q (xs @ ys)" and e: "elt \<noteq> q" "elt + off \<in> dom h"
      "elt + off \<notin> queue_field q off ` set (q # xs @ ys)" and cur: "cur = last (q # xs)"
  shows "\<exists>h'. queue_insert_after q elt cur off h = Some h' \<and> chain off h' q (xs @ elt # ys)
    \<and> same_outside (queue_field q off ` set (q # xs @ elt # ys)) h h'"
proof -
  define s where "s = hd (ys @ [q])"
  note ends = ring_ends [OF r cur s_def]
  have ne: "elt + off \<noteq> queue_field q off cur" "elt + off \<noteq> q" "elt + off \<noteq> queue_field q off s"
    using e(3) ends(1,2) by (auto simp: image_iff)
  have tl: "q_prev q h = Some (last (q # xs @ ys))"
    using ring_head_prev [OF r] by simp
  have d: "distinct (q # xs @ ys)" using ring_distinct(1) [OF r] .
  have sq: "s = q \<longleftrightarrow> ys = []" using d by (cases ys) (auto simp: s_def)
  have fc: "last (q # xs @ ys) = cur \<longleftrightarrow> s = q"
  proof (cases "ys = []")
    case False
    then have "last ys \<in> set ys" "cur \<in> set (q # xs)" using cur by (auto dest: last_in_set)
    then show ?thesis using d False by (auto simp: sq)
  qed (use cur sq in simp)
  have qd: "q \<in> dom h" using tl by (rule q_prev_dom)
  define h' where "h' = upd_prev (queue_field q off s) elt (upd_next (queue_field q off cur) elt
        (upd_prev (elt + off) cur (upd_next (elt + off) s h)))"
  have "queue_insert_after q elt cur off h = Some h'"
    using ends e ne tl qd fc
    by (cases "cur = q"; cases "s = q")
      (simp_all add: queue_insert_after_def q_access h'_def insert_absorb upd_next_prev)
  then show ?thesis
    using chain_insert [OF r e cur s_def h'_def] by simp
qed

lemma chain_remove:
  assumes r: "chain off h q (xs @ elt # ys)"
    and p: "p = last (q # xs)" and s: "s = hd (ys @ [q])"
    and h': "h' = upd_prev (elt + off) NULL (upd_next (elt + off) NULL
        (upd_next (queue_field q off p) s (upd_prev (queue_field q off s) p h)))"
  shows "chain off h' q (xs @ ys) \<and> same_outside (queue_field q off ` set (q # xs @ elt # ys)) h h'"
    and "elt \<noteq> q" "q_next (elt + off) h = Some s" "q_prev (elt + off) h = Some p" "elt + off \<in> dom h"
    "queue_field q off p \<in> dom h" "queue_field q off s \<in> dom h"
proof -
  show eq: "elt \<noteq> q" using ring_distinct(1) [OF r] by auto
  show "q_next (elt + off) h = Some s" "q_prev (elt + off) h = Some p"
    using ring_node_next [OF r] ring_node_prev [OF r] p s eq by simp_all
  have ps: "p \<in> set (q # xs @ ys)" "s \<in> set (q # xs @ ys)"
    using last_in_set [of "q # xs"] ring_hd_in [of ys q] p s by auto
  have de: "elt \<notin> set (q # xs @ ys)" using ring_distinct(1) [OF r] by auto
  have "queue_field q off elt \<noteq> queue_field q off x" if "x \<in> set (q # xs @ ys)" for x
    using inj_onD [OF ring_distinct(2) [OF r], of elt x] that de by auto
  then have ne: "elt + off \<noteq> queue_field q off p" "elt + off \<noteq> queue_field q off s"
    using ps eq by (metis queue_field_simps(2))+
  have "queue_field q off ` set (q # xs @ elt # ys) \<subseteq> dom h" by (rule ring_dom [OF r])
  then show d: "elt + off \<in> dom h" "queue_field q off p \<in> dom h" "queue_field q off s \<in> dom h"
    using ps eq by (auto simp: image_subset_iff)
  show "chain off h' q (xs @ ys) \<and> same_outside (queue_field q off ` set (q # xs @ elt # ys)) h h'"
    by (rule ring_remove_heap [OF r p s])
      (use ne d eq in \<open>auto simp: h' q_access same_outside_def insert_absorb\<close>)
qed

lemma queue_remove_chain:
  assumes r: "chain off h q (xs @ elt # ys)"
  shows "\<exists>h'. queue_remove q elt off h = Some h' \<and> chain off h' q (xs @ ys)
    \<and> same_outside (queue_field q off ` set (q # xs @ elt # ys)) h h'
    \<and> h' (elt + off) = Some \<lparr>qe_next = NULL, qe_prev = NULL\<rparr>"
proof -
  define p s where ps: "p = last (q # xs)" "s = hd (ys @ [q])"
  define h' where "h' = upd_prev (elt + off) NULL (upd_next (elt + off) NULL
        (upd_next (queue_field q off p) s (upd_prev (queue_field q off s) p h)))"
  note rm = chain_remove [OF r ps h'_def]
  have "queue_remove q elt off h = Some h'"
    using rm(2-)
    by (simp add: queue_remove_def queue_field_fold [where F = "\<lambda>a. q_set_next a v h" for v h]
      queue_field_fold [where F = "\<lambda>a. q_set_prev a v h" for v h] q_access h'_def insert_absorb)
  then show ?thesis using rm(1) by (simp add: h'_def upd_next_def upd_prev_def)
qed

lemma queue_remove_first_chain:
  assumes r: "chain off h q (x # xs)"
  shows "\<exists>h'. queue_remove_first q off h = Some (x, h') \<and> chain off h' q xs
    \<and> same_outside (queue_field q off ` set (q # x # xs)) h h'"
proof -
  have r': "chain off h q ([] @ x # xs)" using r by simp
  define s where s: "s = hd (xs @ [q])"
  have p: "q = last [q]" by simp
  define h' where "h' = upd_prev (x + off) NULL (upd_next (x + off) NULL
        (upd_next (queue_field q off q) s (upd_prev (queue_field q off s) q h)))"
  note rm = chain_remove [OF r' p s h'_def]
  have "q_next q h = Some x" using ring_head_next [OF r] by simp
  then have "queue_remove_first q off h = Some (x, h')"
    using rm(2-)
    by (simp add: queue_remove_first_def queue_field_fold [where F = "\<lambda>a. q_set_prev a v h" for v h]
      q_access h'_def insert_absorb)
  then show ?thesis using rm(1) by simp
qed

lemma queue_remove_last_chain:
  assumes r: "chain off h q (xs @ [x])"
  shows "\<exists>h'. queue_remove_last q off h = Some (x, h') \<and> chain off h' q xs
    \<and> same_outside (queue_field q off ` set (q # xs @ [x])) h h'"
proof -
  define p where p: "p = last (q # xs)"
  have s: "q = hd ([] @ [q])" by simp
  define h' where "h' = upd_prev (x + off) NULL (upd_next (x + off) NULL
        (upd_next (queue_field q off p) q (upd_prev (queue_field q off q) p h)))"
  note rm = chain_remove [OF r p s h'_def]
  have "q_prev q h = Some x" using ring_head_prev [OF r] by simp
  then have "queue_remove_last q off h = Some (x, h')"
    using rm(2-)
    by (simp add: queue_remove_last_def queue_field_fold [where F = "\<lambda>a. q_set_next a v h" for v h]
      q_access h'_def insert_absorb upd_next_prev)
  then show ?thesis using rm(1) by simp
qed

lemma chain_rebase:
  assumes r: "chain off h old xs" and ne: "xs \<noteq> []" and new: "new \<in> dom h" "new \<notin> set (old # xs)"
    and apart: "new \<notin> (\<lambda>x. x + off) ` set xs"
    and h': "h' = upd_next (last xs + off) new (upd_prev (hd xs + off) new
          (h(new \<mapsto> \<lparr>qe_next = hd xs, qe_prev = last xs\<rparr>)))"
  shows "chain off h' new xs" "q_next old h = Some (hd xs)" "q_prev old h = Some (last xs)"
    "hd xs + off \<in> dom h" "last xs + off \<in> dom h" "hd xs + off \<noteq> new" "last xs + off \<noteq> new"
    "hd xs + off \<noteq> old" "last xs + off \<noteq> old"
proof -
  have m: "hd xs \<in> set xs" "last xs \<in> set xs" using ne by simp_all
  have fs: "queue_field old off x = x + off" "queue_field new off x = x + off" if "x \<in> set xs" for x
    using that ring_distinct(1) [OF r] new by (auto simp: queue_field_def)
  show "q_next old h = Some (hd xs)" "q_prev old h = Some (last xs)"
    using ring_head_next [OF r] ring_head_prev [OF r] ne by simp_all
  have "queue_field old off ` set xs \<subseteq> dom h" using ring_dom [OF r] by auto
  then show d: "hd xs + off \<in> dom h" "last xs + off \<in> dom h"
    using fs(1) m by (auto simp: image_subset_iff)
  show nn: "hd xs + off \<noteq> new" "last xs + off \<noteq> new" using apart m by blast+
  have "queue_field old off x \<noteq> old" if "x \<in> set xs" for x
    using r imageI [OF that, of "queue_field old off"] by (auto simp: ring_def)
  then show "hd xs + off \<noteq> old" "last xs + off \<noteq> old" using fs(1) m by auto
  have inj: "x = y" if "x \<in> set xs" "y \<in> set xs" "x + off = y + off" for x y
    using that by simp
  show "chain off h' new xs"
    by (rule ring_rebaseI [OF r ne])
      (use d nn m fs apart new inj in \<open>auto simp: h' q_access fs q_next_def [of new] q_prev_def [of new] 
         q_next_def q_prev_def upd_next_def upd_prev_def\<close>)
qed

lemma queue_empty_chain: "chain off h q xs \<Longrightarrow> queue_empty q h = Some (xs = [])"
  using ring_head_next [of "queue_field q off" h q xs] ring_distinct(1) [of "queue_field q off" h q xs]
  by (cases xs) (auto simp: queue_empty_def queue_first_def queue_end_def)

lemma q_copy_upd: "from \<in> dom h \<Longrightarrow> to \<in> dom h \<Longrightarrow> q_copy to from h = Some (h(to \<mapsto> the (h from)))"
  by (auto simp: q_copy_def)

lemma queue_new_head_chain:
  assumes r: "chain off h old xs" and new: "new \<in> dom h" "new \<notin> set (old # xs)"
    and apart: "new \<notin> (\<lambda>x. x + off) ` set xs"
  shows "\<exists>h'. queue_new_head old new off h = Some h' \<and> chain off h' new xs \<and> h' old = h old"
proof (cases "xs = []")
  case True
  obtain h' where i: "queue_init new h = Some h'" "ring id h' new []" "same_outside {new} h h'"
    using queue_init_ring [OF new(1)] by blast
  have "queue_new_head old new off h = Some h'"
    using i(1) queue_empty_chain [OF r] True by (simp add: queue_new_head_def)
  moreover have "chain off h' new xs" using i(2) ring_nil_iff [of "queue_field new off" new h'] True by simp
  moreover have "h' old = h old" using i(3) new by (auto simp: same_outside_def)
  ultimately show ?thesis by blast
next
  case False
  define h' where "h' = upd_next (last xs + off) new (upd_prev (hd xs + off) new
          (h(new \<mapsto> \<lparr>qe_next = hd xs, qe_prev = last xs\<rparr>)))"
  note rb = chain_rebase [OF r False new apart h'_def]
  have "queue_new_head old new off h = Some h'"
    using rb(2-) new queue_empty_chain [OF r] False q_entry [OF rb(2,3)]
      q_next_dom [OF rb(2)]
    by (simp add: queue_new_head_def q_copy_upd h'_def q_access q_next_def [of new] q_prev_def [of new])
  moreover have "h' old = h old" using rb(8,9) new by (auto simp: h'_def q_access)
  ultimately show ?thesis using rb(1) by blast
qed

lemma queue_assign_chain:
  assumes r: "chain off h old xs" and ne: "xs \<noteq> []" and new: "new \<in> dom h" "new \<notin> set (old # xs)"
    and apart: "new \<notin> (\<lambda>x. x + off) ` set xs"
  shows "\<exists>h'. queue_assign new old off h = Some h' \<and> chain off h' new xs \<and> h' old = h old"
proof -
  define h' where "h' = upd_next (last xs + off) new (upd_prev (hd xs + off) new
          (h(new \<mapsto> \<lparr>qe_next = hd xs, qe_prev = last xs\<rparr>)))"
  note rb = chain_rebase [OF r ne new apart h'_def]
  have "queue_assign new old off h = Some h'"
    using rb(2-) new q_entry [OF rb(2,3)]
      q_next_dom [OF rb(2)]
    by (simp add: queue_assign_def q_copy_upd h'_def q_access upd_map_upd upd_next_prev)
  moreover have "h' old = h old" using rb(8,9) new by (auto simp: h'_def q_access)
  ultimately show ?thesis using rb(1) by blast
qed

lemma queue_iterate_loop_pure:
  assumes "chain off h q (us @ vs)" and "\<And>x s. x \<in> set vs \<Longrightarrow> body x (s, h) = Some (g x s, h)"
  shows "queue_iterate_loop body q off (hd (vs @ [q])) (s, h) = Some (fold g vs s, h)"
  using assms
proof (induction vs arbitrary: us s)
  case Nil
  then show ?case by (simp add: queue_iterate_loop.simps queue_end_def)
next
  case (Cons v vs)
  have vq: "v \<noteq> q" using ring_distinct(1) [OF Cons.prems(1)] by auto
  then have "q_next (v + off) h = Some (hd (vs @ [q]))" using ring_node_next [OF Cons.prems(1)] by simp
  moreover have "queue_iterate_loop body q off (hd (vs @ [q])) (g v s, h) = Some (fold g vs (g v s), h)"
    using Cons.IH [of "us @ [v]" "g v s"] Cons.prems by simp
  ultimately show ?case
    using Cons.prems(2) [of v s] vq
    by (subst queue_iterate_loop.simps) (simp add: queue_end_def queue_next_def)
qed

lemma queue_iterate_pure:
  assumes "chain off h q xs" and "\<And>x s. x \<in> set xs \<Longrightarrow> body x (s, h) = Some (g x s, h)"
  shows "queue_iterate body q off (s, h) = Some (fold g xs s, h)"
  using queue_iterate_loop_pure [where us = "[]" and vs = xs and s = s] assms ring_head_next [OF assms(1)]
  by (simp add: queue_iterate_def queue_first_def)

subsection \<open>The element queue as a deque\<close>

definition element_deque :: "ptr \<Rightarrow> ptr \<Rightarrow> (qheap, ptr) deque_ops" where
  "element_deque q off = \<lparr>op_push_head = \<lambda>x. queue_enter_first q x off,
     op_push_tail = \<lambda>x. queue_enter q x off, op_pop_head = queue_remove_first q off,
     op_pop_tail = queue_remove_last q off, op_is_empty = queue_empty q\<rparr>"

text \<open>An element the queue may link: its chain field is allocated and is not the head's.\<close>

definition chainable :: "ptr \<Rightarrow> ptr \<Rightarrow> qheap \<Rightarrow> ptr \<Rightarrow> bool" where
  "chainable q off h x \<longleftrightarrow> x \<noteq> q \<and> x + off \<noteq> q \<and> x + off \<in> dom h"

lemma chain_fresh:
  assumes "chain off h q xs" and "chainable q off h x" and "x \<notin> set xs"
  shows "x \<noteq> q" "x + off \<in> dom h" "x + off \<notin> queue_field q off ` set (q # xs)"
  using assms ring_distinct(1) [OF assms(1)] by (auto simp: chainable_def queue_field_def)

lemma chainable_same_outside: "same_outside A h h' \<Longrightarrow> \<forall>y. chainable q off h y \<longrightarrow> chainable q off h' y"
  using dom_same_outside [of A h h'] by (auto simp: chainable_def)

interpretation element: deque "element_deque q off" "\<lambda>h xs. chain off h q xs" "chainable q off" for q off
proof
  fix h xs x
  assume r: "chain off h q xs" and n: "chainable q off h x" and x: "x \<notin> set xs"
  note fresh = chain_fresh [OF r n x]
  show "\<exists>h'. op_push_head (element_deque q off) x h = Some h' \<and> chain off h' q (x # xs)
      \<and> (\<forall>y. chainable q off h y \<longrightarrow> chainable q off h' y)"
    using queue_enter_first_chain [OF r fresh] chainable_same_outside by (fastforce simp: element_deque_def)
  show "\<exists>h'. op_push_tail (element_deque q off) x h = Some h' \<and> chain off h' q (xs @ [x])
      \<and> (\<forall>y. chainable q off h y \<longrightarrow> chainable q off h' y)"
    using queue_enter_chain [OF r fresh] chainable_same_outside by (fastforce simp: element_deque_def)
next
  fix h x xs assume "chain off h q (x # xs)"
  then show "\<exists>h'. op_pop_head (element_deque q off) h = Some (x, h') \<and> chain off h' q xs
      \<and> (\<forall>y. chainable q off h y \<longrightarrow> chainable q off h' y)"
    using queue_remove_first_chain [of q off h x xs] chainable_same_outside by (fastforce simp: element_deque_def)
next
  fix h xs x assume "chain off h q (xs @ [x])"
  then show "\<exists>h'. op_pop_tail (element_deque q off) h = Some (x, h') \<and> chain off h' q xs
      \<and> (\<forall>y. chainable q off h y \<longrightarrow> chainable q off h' y)"
    using queue_remove_last_chain [of q off h xs x] chainable_same_outside by (fastforce simp: element_deque_def)
next
  fix h xs assume "chain off h q xs"
  then show "op_is_empty (element_deque q off) h = Some (xs = [])"
    by (simp add: element_deque_def queue_empty_chain)
qed

subsection \<open>Properties\<close>

text \<open>
  A queue at 8 of the elements 16 and 32, whose chain fields are at offset 4, a free element 48
  and a free head 64.
\<close>

definition sample_chain :: qheap where
  "sample_chain = [8 \<mapsto> \<lparr>qe_next = 16, qe_prev = 32\<rparr>, 20 \<mapsto> \<lparr>qe_next = 32, qe_prev = 8\<rparr>,
     36 \<mapsto> \<lparr>qe_next = 8, qe_prev = 16\<rparr>, 52 \<mapsto> \<lparr>qe_next = 0, qe_prev = 0\<rparr>,
     64 \<mapsto> \<lparr>qe_next = 0, qe_prev = 0\<rparr>]"

lemma sample_chain_ring: "chain 4 sample_chain 8 [16, 32]"
  by (simp add: ring_def link_def sample_chain_def q_next_def q_prev_def queue_field_def)

lemma sample_chain_dom: "dom sample_chain = {8, 20, 36, 52, 64}"
  by (auto simp: sample_chain_def)

text \<open>
  C27: Any sequence of queue_enter, queue_enter_first, queue_remove_first, queue_remove_last and
  queue_empty that the abstract deque allows runs without a fault on a well-formed element chain
  and answers as the list of queued elements would.
\<close>

theorem element_queue_refines_deque:
  assumes "chain off h q xs" and "\<forall>c \<in> set cs. \<forall>x \<in> pushed c. chainable q off h x"
    and "spec_run cs xs = Some (rs, ys)"
  shows "\<exists>h'. impl_run (element_deque q off) cs h = Some (rs, h') \<and> chain off h' q ys"
  by (rule element.run_refines [OF assms])

theorem element_queue_refines_deque_witness:
  "\<exists>h'. impl_run (element_deque 8 4) [Pop_tail, Push_head 48, Pop_tail, Test_empty] sample_chain
     = Some ([Popped 32, Done, Popped 16, Is_empty False], h') \<and> chain 4 h' 8 [48]"
  by (rule element_queue_refines_deque [OF sample_chain_ring])
    (simp_all add: chainable_def sample_chain_dom)

text \<open>
  Queue_insert_before and queue_insert_after put an element at the given place of an element
  chain, also when the place is the head (the tail or the front of the queue) and when the queue
  is empty, and touch the chain fields of that queue only.
\<close>

theorem queue_insert_at:
  assumes "chain off h q (xs @ ys)" and "chainable q off h elt" and "elt \<notin> set (xs @ ys)"
  shows "\<exists>h1 h2. queue_insert_before q elt (hd (ys @ [q])) off h = Some h1
    \<and> queue_insert_after q elt (last (q # xs)) off h = Some h2
    \<and> chain off h1 q (xs @ elt # ys) \<and> chain off h2 q (xs @ elt # ys)
    \<and> same_outside (queue_field q off ` set (q # xs @ elt # ys)) h h1
    \<and> same_outside (queue_field q off ` set (q # xs @ elt # ys)) h h2"
  using queue_insert_before_chain [OF assms(1) chain_fresh [OF assms] refl]
    queue_insert_after_chain [OF assms(1) chain_fresh [OF assms] refl] by blast

theorem queue_insert_at_witness:
  "\<exists>h1 h2. queue_insert_before 8 48 32 4 sample_chain = Some h1
    \<and> queue_insert_after 8 48 16 4 sample_chain = Some h2
    \<and> chain 4 h1 8 [16, 48, 32] \<and> chain 4 h2 8 [16, 48, 32]"
  using queue_insert_at [of 8 4 sample_chain "[16]" "[32]" 48] sample_chain_ring
  by (auto simp: chainable_def sample_chain_dom)

text \<open>
  Queue_remove takes an element out of an element chain wherever it is, clears both pointers
  of its chain field, and touches the chain fields of that queue only.
\<close>

theorem queue_remove_unlinks:
  assumes "chain off h q (xs @ elt # ys)"
  shows "\<exists>h'. queue_remove q elt off h = Some h' \<and> chain off h' q (xs @ ys)
    \<and> same_outside (queue_field q off ` set (q # xs @ elt # ys)) h h'
    \<and> h' (elt + off) = Some \<lparr>qe_next = NULL, qe_prev = NULL\<rparr>"
  by (rule queue_remove_chain [OF assms])

theorem queue_remove_unlinks_witness:
  "\<exists>h'. queue_remove 8 32 4 sample_chain = Some h' \<and> chain 4 h' 8 [16]
    \<and> h' 36 = Some \<lparr>qe_next = NULL, qe_prev = NULL\<rparr>"
  using queue_remove_unlinks [of 8 4 sample_chain "[16]" 32 "[]"] sample_chain_ring by auto

text \<open>
  Queue_new_head puts the elements of any queue under a new head, and queue_assign those of a
  non-empty one, in the same order. Unlike movqueue, neither changes the old head, which keeps
  pointing at the elements it no longer owns.
\<close>

theorem queue_new_head_rebases:
  assumes "chain off h old xs" and "new \<in> dom h" and "new \<notin> set (old # xs)"
    and "new \<notin> (\<lambda>x. x + off) ` set xs"
  shows "\<exists>h'. queue_new_head old new off h = Some h' \<and> chain off h' new xs \<and> h' old = h old
    \<and> (xs \<noteq> [] \<longrightarrow> (\<exists>h''. queue_assign new old off h = Some h'' \<and> chain off h'' new xs \<and> h'' old = h old))"
  using queue_new_head_chain [OF assms] queue_assign_chain [OF assms(1) _ assms(2-)] by blast

theorem queue_new_head_rebases_witness:
  "\<exists>h'. queue_new_head 8 64 4 sample_chain = Some h' \<and> chain 4 h' 64 [16, 32] \<and> h' 8 = sample_chain 8"
  using queue_new_head_rebases [OF sample_chain_ring, of 64] sample_chain_dom by auto

text \<open>
  Queue_iterate ends, and hands every element of the chain to a body that leaves the chain
  fields alone exactly once, in queue order.
\<close>

theorem queue_iterate_visits_in_order:
  assumes "chain off h q xs" and "\<forall>x \<in> set xs. \<forall>s. body x (s, h) = Some (g x s, h)"
  shows "queue_iterate body q off (s, h) = Some (fold g xs s, h)"
  by (rule queue_iterate_pure [OF assms(1)]) (use assms(2) in auto)

theorem queue_iterate_visits_in_order_witness:
  "queue_iterate (\<lambda>x (s, h). Some (s + x, h)) 8 4 (0, sample_chain) = Some (48, sample_chain)"
  using queue_iterate_visits_in_order [OF sample_chain_ring, of "\<lambda>x (s, h). Some (s + x, h)" "\<lambda>x s. s + x" 0]
  by simp

end
