(* ===== verification/CircleQueue.thy ===== *)
theory CircleQueue
  imports KQueue
begin

text \<open>
  kern/circle_queue.h: circular queues whose head is a single pointer to the first entry, \<open>NULL\<close>
  for the empty queue. The entries are linkages of the heap of \<open>QueueHeap\<close>; the head is a value
  beside it. Every inline function and macro is a definition here. The circle of the entries is a
  \<open>ring\<close> through its first entry, so the lemmas of \<open>KQueue\<close> carry over.
\<close>

subsection \<open>Operations\<close>

record circle_queue_head =
  cq_head :: ptr

definition circle_queue_init :: "circle_queue_head \<Rightarrow> circle_queue_head" where
  "circle_queue_init q = q\<lparr>cq_head := NULL\<rparr>"

definition circle_queue_empty :: "circle_queue_head \<Rightarrow> bool" where
  "circle_queue_empty cq = (cq_head cq = NULL)"

definition circle_queue_first :: "circle_queue_head \<Rightarrow> ptr" where
  "circle_queue_first cq = cq_head cq"

text \<open>What \<open>__builtin_assume\<close> is told must hold: it is checked as an \<open>assert\<close> is.\<close>

definition circle_queue_last :: "circle_queue_head \<Rightarrow> qheap \<Rightarrow> ptr option" where
  "circle_queue_last cq h =
     (let elt = circle_queue_first cq in
      if elt \<noteq> NULL then do {
        p \<leftarrow> q_prev elt h;
        kassert (p \<noteq> NULL);
        Some p }
      else Some NULL)"

definition circle_queue_next :: "circle_queue_head \<Rightarrow> ptr \<Rightarrow> qheap \<Rightarrow> ptr option" where
  "circle_queue_next cq elt h = do { n \<leftarrow> q_next elt h; Some (if n = cq_head cq then NULL else n) }"

text \<open>The counter is a \<open>size_t\<close>; a circle that is not closed is walked forever (\<open>None\<close>).\<close>

partial_function (option) circle_queue_length_loop ::
  "circle_queue_head \<Rightarrow> qheap \<Rightarrow> ptr \<Rightarrow> u64 \<Rightarrow> u64 option" where
  "circle_queue_length_loop cq h elt n =
     (if elt = NULL then Some n
      else do { m \<leftarrow> circle_queue_next cq elt h; circle_queue_length_loop cq h m (n + 1) })"

definition circle_queue_length :: "circle_queue_head \<Rightarrow> qheap \<Rightarrow> u64 option" where
  "circle_queue_length cq h = circle_queue_length_loop cq h (circle_queue_first cq) 0"

definition circle_enqueue_tail ::
  "ptr \<Rightarrow> circle_queue_head \<times> qheap \<Rightarrow> (circle_queue_head \<times> qheap) option" where
  "circle_enqueue_tail elt st = (case st of (cq, h) \<Rightarrow> do {
     let head = circle_queue_first cq;
     tail \<leftarrow> circle_queue_last cq h;
     if head = NULL then do {
       h \<leftarrow> q_set_prev elt elt h;
       h \<leftarrow> q_set_next elt elt h;
       Some (cq\<lparr>cq_head := elt\<rparr>, h) }
     else do {
       h \<leftarrow> q_set_next elt head h;
       h \<leftarrow> q_set_prev elt tail h;
       h \<leftarrow> q_set_next tail elt h;
       h \<leftarrow> q_set_prev head elt h;
       Some (cq, h) } })"

definition circle_enqueue_head ::
  "ptr \<Rightarrow> circle_queue_head \<times> qheap \<Rightarrow> (circle_queue_head \<times> qheap) option" where
  "circle_enqueue_head elt st = do {
     (cq, h) \<leftarrow> circle_enqueue_tail elt st;
     Some (cq\<lparr>cq_head := elt\<rparr>, h) }"

text \<open>\<open>__DEQUEUE_ELT_CLEANUP\<close> is empty in this SDK.\<close>

definition circle_dequeue ::
  "ptr \<Rightarrow> circle_queue_head \<times> qheap \<Rightarrow> (circle_queue_head \<times> qheap) option" where
  "circle_dequeue elt st = (case st of (cq, h) \<Rightarrow> do {
     elt_prev \<leftarrow> q_prev elt h;
     elt_next \<leftarrow> q_next elt h;
     if elt = elt_next then do {
       kassert (cq_head cq = elt);
       Some (cq\<lparr>cq_head := NULL\<rparr>, h) }
     else do {
       h \<leftarrow> q_set_next elt_prev elt_next h;
       h \<leftarrow> q_set_prev elt_next elt_prev h;
       Some (if cq_head cq = elt then cq\<lparr>cq_head := elt_next\<rparr> else cq, h) } })"

definition circle_dequeue_head ::
  "circle_queue_head \<times> qheap \<Rightarrow> (ptr \<times> circle_queue_head \<times> qheap) option" where
  "circle_dequeue_head st = (let elt = circle_queue_first (fst st) in
     if elt \<noteq> NULL then do { st \<leftarrow> circle_dequeue elt st; Some (elt, st) } else Some (elt, st))"

definition circle_dequeue_tail ::
  "circle_queue_head \<times> qheap \<Rightarrow> (ptr \<times> circle_queue_head \<times> qheap) option" where
  "circle_dequeue_tail st = do {
     elt \<leftarrow> circle_queue_last (fst st) (snd st);
     if elt \<noteq> NULL then do { st \<leftarrow> circle_dequeue elt st; Some (elt, st) } else Some (elt, st) }"

definition circle_queue_rotate_head_forward :: "circle_queue_head \<Rightarrow> qheap \<Rightarrow> circle_queue_head option" where
  "circle_queue_rotate_head_forward cq h = (let first = circle_queue_first cq in
     if first \<noteq> NULL then do { n \<leftarrow> q_next first h; Some (cq\<lparr>cq_head := n\<rparr>) } else Some cq)"

definition circle_queue_rotate_head_backward :: "circle_queue_head \<Rightarrow> qheap \<Rightarrow> circle_queue_head option" where
  "circle_queue_rotate_head_backward cq h = do {
     last \<leftarrow> circle_queue_last cq h;
     Some (if last \<noteq> NULL then cq\<lparr>cq_head := last\<rparr> else cq) }"

subsection \<open>Elements and iteration\<close>

definition cqe_element :: "ptr \<Rightarrow> ptr \<Rightarrow> ptr" where
  "cqe_element qe off = qe - off"

type_synonym 's cqbody =
  "ptr \<Rightarrow> 's \<times> circle_queue_head \<times> qheap \<Rightarrow> ('s \<times> circle_queue_head \<times> qheap) option"

partial_function (option) cqe_foreach_loop ::
  "'s cqbody \<Rightarrow> ptr \<Rightarrow> 's \<times> circle_queue_head \<times> qheap \<Rightarrow> ('s \<times> circle_queue_head \<times> qheap) option" where
  "cqe_foreach_loop body qe st =
     (if qe = NULL then Some st
      else do {
        st \<leftarrow> body qe st;
        n \<leftarrow> circle_queue_next (fst (snd st)) qe (snd (snd st));
        cqe_foreach_loop body n st })"

definition cqe_foreach ::
  "'s cqbody \<Rightarrow> 's \<times> circle_queue_head \<times> qheap \<Rightarrow> ('s \<times> circle_queue_head \<times> qheap) option" where
  "cqe_foreach body st = cqe_foreach_loop body (circle_queue_first (fst (snd st))) st"

partial_function (option) cqe_foreach_safe_loop ::
  "'s cqbody \<Rightarrow> ptr \<Rightarrow> 's \<times> circle_queue_head \<times> qheap \<Rightarrow> ('s \<times> circle_queue_head \<times> qheap) option" where
  "cqe_foreach_safe_loop body qe st =
     (if qe = NULL then Some st
      else do {
        ne \<leftarrow> circle_queue_next (fst (snd st)) qe (snd (snd st));
        st \<leftarrow> body qe st;
        cqe_foreach_safe_loop body ne st })"

definition cqe_foreach_safe ::
  "'s cqbody \<Rightarrow> 's \<times> circle_queue_head \<times> qheap \<Rightarrow> ('s \<times> circle_queue_head \<times> qheap) option" where
  "cqe_foreach_safe body st = cqe_foreach_safe_loop body (circle_queue_first (fst (snd st))) st"

text \<open>The element loops run the same walk and hand the containing element to the body.\<close>

definition cqe_foreach_element ::
  "'s cqbody \<Rightarrow> ptr \<Rightarrow> 's \<times> circle_queue_head \<times> qheap \<Rightarrow> ('s \<times> circle_queue_head \<times> qheap) option" where
  "cqe_foreach_element body off = cqe_foreach (\<lambda>qe. body (cqe_element qe off))"

definition cqe_foreach_element_safe ::
  "'s cqbody \<Rightarrow> ptr \<Rightarrow> 's \<times> circle_queue_head \<times> qheap \<Rightarrow> ('s \<times> circle_queue_head \<times> qheap) option" where
  "cqe_foreach_element_safe body off = cqe_foreach_safe (\<lambda>qe. body (cqe_element qe off))"

definition entry_element :: "ptr \<Rightarrow> ptr \<Rightarrow> ptr" where
  "entry_element off entry = (if entry \<noteq> NULL then cqe_element entry off else NULL)"

definition cqe_dequeue_head ::
  "ptr \<Rightarrow> circle_queue_head \<times> qheap \<Rightarrow> (ptr \<times> circle_queue_head \<times> qheap) option" where
  "cqe_dequeue_head off st = map_option (apfst (entry_element off)) (circle_dequeue_head st)"

definition cqe_dequeue_tail ::
  "ptr \<Rightarrow> circle_queue_head \<times> qheap \<Rightarrow> (ptr \<times> circle_queue_head \<times> qheap) option" where
  "cqe_dequeue_tail off st = map_option (apfst (entry_element off)) (circle_dequeue_tail st)"

definition cqe_queue_first :: "ptr \<Rightarrow> circle_queue_head \<Rightarrow> ptr" where
  "cqe_queue_first off cq = entry_element off (circle_queue_first cq)"

definition cqe_queue_next :: "ptr \<Rightarrow> ptr \<Rightarrow> circle_queue_head \<Rightarrow> qheap \<Rightarrow> ptr option" where
  "cqe_queue_next off elt cq h = map_option (entry_element off) (circle_queue_next cq elt h)"

definition cqe_queue_last :: "ptr \<Rightarrow> circle_queue_head \<Rightarrow> qheap \<Rightarrow> ptr option" where
  "cqe_queue_last off cq h = map_option (entry_element off) (circle_queue_last cq h)"

subsection \<open>Circles without a head entry\<close>

lemma ring_rotate: "ring id h x (ys @ z # zs) \<longleftrightarrow> ring id h z (zs @ x # ys)"
  by (auto simp: ring_def successively_append_iff successively_Cons hd_append)

definition circle :: "circle_queue_head \<times> qheap \<Rightarrow> ptr list \<Rightarrow> bool" where
  "circle st xs \<longleftrightarrow> cq_head (fst st) = hd (xs @ [NULL]) \<and> NULL \<notin> set xs \<and>
     (case xs of [] \<Rightarrow> True | x # ys \<Rightarrow> ring id (snd st) x ys)"

lemma circle_Nil: "circle st [] \<longleftrightarrow> cq_head (fst st) = NULL"
  by (simp add: circle_def)

lemma circle_Cons: "circle st (x # ys) \<longleftrightarrow>
    cq_head (fst st) = x \<and> x \<noteq> NULL \<and> NULL \<notin> set ys \<and> ring id (snd st) x ys"
  by (auto simp: circle_def)

lemma circle_last: "circle (cq, h) xs \<Longrightarrow> circle_queue_last cq h = Some (last (NULL # xs))"
proof (cases xs)
  case (Cons x ys)
  assume "circle (cq, h) xs"
  moreover from this have "last (x # ys) \<noteq> NULL" using Cons last_in_set [of "x # ys"] by (auto simp: circle_Cons)
  ultimately show ?thesis
    using Cons ring_head_prev [of id h x ys] by (auto simp: circle_Cons circle_queue_last_def circle_queue_first_def)
qed (simp add: circle_Nil circle_queue_last_def circle_queue_first_def)

lemma circle_next: "circle (cq, h) (us @ x # vs) \<Longrightarrow> circle_queue_next cq x h = Some (hd (vs @ [NULL]))"
proof (cases us)
  case Nil
  assume "circle (cq, h) (us @ x # vs)"
  then have r: "ring id h x vs" "cq_head cq = x" using Nil by (auto simp: circle_Cons)
  then show ?thesis using ring_head_next [OF r(1)] ring_distinct(1) [OF r(1)]
    by (cases vs) (auto simp: circle_queue_next_def)
next
  case (Cons u ws)
  assume "circle (cq, h) (us @ x # vs)"
  then have r: "ring id h u (ws @ x # vs)" "cq_head cq = u" using Cons by (auto simp: circle_Cons)
  then show ?thesis using ring_node_next [OF r(1)] ring_distinct(1) [OF r(1)]
    by (cases vs) (auto simp: circle_queue_next_def)
qed

lemma circle_enqueue_tail_ok:
  assumes c: "circle (cq, h) xs" and e: "elt \<in> dom h" "elt \<noteq> NULL" "elt \<notin> set xs"
  shows "\<exists>cq' h'. circle_enqueue_tail elt (cq, h) = Some (cq', h') \<and> circle (cq', h') (xs @ [elt])
    \<and> same_outside (set (elt # xs)) h h'"
proof (cases xs)
  case Nil
  define h' where "h' = upd_next elt elt (upd_prev elt elt h)"
  have "circle_enqueue_tail elt (cq, h) = Some (cq\<lparr>cq_head := elt\<rparr>, h')"
    using c e Nil by (simp add: circle_enqueue_tail_def circle_queue_first_def circle_queue_last_def
      circle_Nil q_access h'_def)
  moreover have "ring id h' elt []" "same_outside {elt} h h'"
    using e by (auto simp: ring_def link_def h'_def q_access same_outside_def)
  ultimately show ?thesis using e Nil by (auto simp: circle_Cons)
next
  case (Cons x ys)
  then have r: "ring id h x ys" and x: "cq_head cq = x" "x \<noteq> NULL" "NULL \<notin> set ys"
    using c by (simp_all add: circle_Cons)
  obtain h' where h': "enqueue_tail x elt h = Some h'" "ring id h' x (ys @ [elt])"
      "same_outside (set (x # ys @ [elt])) h h'"
    using enqueue_tail_ring [OF r, of elt] e Cons by auto
  have "circle_enqueue_tail elt (cq, h) = map_option (Pair cq) (enqueue_tail x elt h)"
    using x circle_last [OF c] ring_head_prev [OF r] Cons
    by (simp add: circle_enqueue_tail_def enqueue_tail_def
      circle_queue_first_def Let_def map_option_bind comp_def map_conv_bind_option)
  moreover have "same_outside (set (elt # xs)) h h'"
    by (rule same_outside_mono [OF h'(3)]) (use Cons in auto)
  ultimately show ?thesis using h' x e Cons by (auto simp: circle_Cons)
qed

lemma circle_enqueue_head_ok:
  assumes c: "circle (cq, h) xs" and e: "elt \<in> dom h" "elt \<noteq> NULL" "elt \<notin> set xs"
  shows "\<exists>cq' h'. circle_enqueue_head elt (cq, h) = Some (cq', h') \<and> circle (cq', h') (elt # xs)
    \<and> same_outside (set (elt # xs)) h h'"
proof -
  obtain cq' h' where h': "circle_enqueue_tail elt (cq, h) = Some (cq', h')" "circle (cq', h') (xs @ [elt])"
      "same_outside (set (elt # xs)) h h'"
    using circle_enqueue_tail_ok [OF assms] by blast
  have "circle (cq'\<lparr>cq_head := elt\<rparr>, h') (elt # xs)"
    using h'(2) e ring_rotate [of h' "hd xs" "tl xs" elt "[]"] by (cases xs) (auto simp: circle_Cons)
  then show ?thesis using h'(1,3) by (simp add: circle_enqueue_head_def)
qed

text \<open>Removing an entry of a circle of at least two relinks its neighbours.\<close>

lemma unlink_ring:
  assumes r: "ring id h q (us @ x # vs)"
  shows "\<exists>p n h1 h2. q_prev x h = Some p \<and> q_next x h = Some n \<and> n = hd (vs @ [q]) \<and>
    q_set_next p n h = Some h1 \<and> q_set_prev n p h1 = Some h2 \<and> ring id h2 q (us @ vs)
    \<and> same_outside (set (q # us @ x # vs)) h h2"
proof -
  obtain h2 where h2: "remqueue x h = Some h2" "ring id h2 q (us @ vs)" "same_outside (set (q # us @ x # vs)) h h2"
    using remqueue_ring [OF r] by blast
  define p n where pn: "p = last (q # us)" "n = hd (vs @ [q])"
  have e: "q_prev x h = Some p" "q_next x h = Some n"
    using ring_node_next [OF r] ring_node_prev [OF r] by (simp_all add: pn)
  have d: "p \<in> dom h" "n \<in> dom h"
    using ring_dom [OF r] last_in_set [of us] ring_hd_in [of vs q] by (auto simp: pn subset_iff)
  have "h2 = upd_prev n p (upd_next p n h)"
    using h2(1) e d by (simp add: remqueue_def q_access upd_next_prev)
  then show ?thesis using h2 e d pn(2)
    by (intro exI [of _ p] exI [of _ n] exI [of _ "upd_next p n h"] exI [of _ h2]) (simp add: q_access)
qed

lemma circle_dequeue_ok:
  assumes c: "circle (cq, h) (us @ x # vs)"
  shows "\<exists>cq' h'. circle_dequeue x (cq, h) = Some (cq', h') \<and> circle (cq', h') (us @ vs)
    \<and> same_outside (set (us @ x # vs)) h h'"
proof (cases us)
  case (Cons u ws)
  then have r: "ring id h u (ws @ x # vs)" and u: "cq_head cq = u" "NULL \<notin> set (us @ x # vs)"
    using c by (auto simp: circle_Cons)
  have ux: "u \<noteq> x" "x \<noteq> hd (vs @ [u])"
    using ring_distinct(1) [OF r] ring_hd_in [of vs u] by auto
  show ?thesis
    using unlink_ring [OF r] u ux Cons
    by (auto simp: circle_dequeue_def circle_Cons intro: same_outside_mono)
next
  case Nil
  then have r: "ring id h x vs" and x: "cq_head cq = x" "NULL \<notin> set (x # vs)"
    using c by (auto simp: circle_Cons)
  show ?thesis
  proof (cases vs)
    case [simp]: Nil
    show ?thesis using r x \<open>us = []\<close> ring_head_next [OF r] ring_head_prev [OF r]
      by (simp add: circle_dequeue_def circle_Nil same_outside_def)
  next
    case [simp]: (Cons v ws)
    have rv: "ring id h v (ws @ x # [])" using r ring_rotate [of h x "[]" v ws] by simp
    have xv: "x \<noteq> v" using ring_distinct(1) [OF r] by auto
    show ?thesis
      using unlink_ring [OF rv] x xv \<open>us = []\<close>
      by (auto simp: circle_dequeue_def circle_Cons intro: same_outside_mono)
  qed
qed

lemma circle_dequeue_head_ok:
  assumes "circle (cq, h) (x # xs)"
  shows "\<exists>cq' h'. circle_dequeue_head (cq, h) = Some (x, cq', h') \<and> circle (cq', h') xs
    \<and> same_outside (set (x # xs)) h h'"
  using circle_dequeue_ok [of cq h "[]" x xs] assms
  by (auto simp: circle_dequeue_head_def circle_queue_first_def circle_Cons Let_def)

lemma circle_dequeue_tail_ok:
  assumes "circle (cq, h) (xs @ [x])"
  shows "\<exists>cq' h'. circle_dequeue_tail (cq, h) = Some (x, cq', h') \<and> circle (cq', h') xs
    \<and> same_outside (set (xs @ [x])) h h'"
proof -
  have "x \<noteq> NULL" using assms by (auto simp: circle_def)
  then show ?thesis
    using circle_dequeue_ok [of cq h xs x "[]"] assms circle_last [OF assms]
    by (auto simp: circle_dequeue_tail_def)
qed

lemma circle_empty_ops:
  assumes "circle (cq, h) []"
  shows "circle_dequeue_head (cq, h) = Some (NULL, cq, h)" "circle_dequeue_tail (cq, h) = Some (NULL, cq, h)"
  using assms by (simp_all add: circle_Nil circle_dequeue_head_def circle_dequeue_tail_def
    circle_queue_first_def circle_queue_last_def)

lemma circle_queue_length_loop_ok:
  "circle (cq, h) (us @ vs) \<Longrightarrow>
    circle_queue_length_loop cq h (hd (vs @ [NULL])) n = Some (n + of_nat (length vs))"
proof (induction vs arbitrary: us n)
  case Nil
  then show ?case by (simp add: circle_queue_length_loop.simps)
next
  case (Cons v vs)
  have "v \<noteq> NULL" using Cons.prems by (auto simp: circle_def)
  then show ?case
    using Cons.IH [of "us @ [v]" "n + 1"] Cons.prems circle_next [OF Cons.prems]
    by (subst circle_queue_length_loop.simps) (simp add: algebra_simps)
qed

lemma circle_distinct: "circle st xs \<Longrightarrow> distinct xs"
  by (cases xs) (auto simp: circle_Cons dest: ring_distinct(1))

lemma circle_length_bound:
  assumes "circle st xs"
  shows "length xs < 2 ^ 64"
proof -
  have "length xs = card (set xs)" using circle_distinct [OF assms] by (simp add: distinct_card)
  also have "\<dots> < card (UNIV :: ptr set)"
    by (rule psubset_card_mono) (use assms in \<open>auto simp: circle_def\<close>)
  also have "\<dots> = 2 ^ 64" by (simp add: card_word)
  finally show ?thesis .
qed

lemma cqe_foreach_loop_pure:
  assumes "circle (cq, h) (us @ vs)" and "\<And>x s. x \<in> set vs \<Longrightarrow> body x (s, cq, h) = Some (g x s, cq, h)"
  shows "cqe_foreach_loop body (hd (vs @ [NULL])) (s, cq, h) = Some (fold g vs s, cq, h)"
  using assms
proof (induction vs arbitrary: us s)
  case Nil
  then show ?case by (simp add: cqe_foreach_loop.simps)
next
  case (Cons v vs)
  have "v \<noteq> NULL" using Cons.prems by (auto simp: circle_def)
  then show ?case
    using Cons.IH [of "us @ [v]" "g v s"] Cons.prems circle_next [OF Cons.prems(1)]
    by (subst cqe_foreach_loop.simps) simp
qed

text \<open>A loop body that removes the entries satisfying \<open>P\<close> and records them.\<close>

definition cq_purge :: "(ptr \<Rightarrow> bool) \<Rightarrow> ptr list cqbody" where
  "cq_purge P qe st =
     (if P qe then do { c \<leftarrow> circle_dequeue qe (snd st); Some (fst st @ [qe], c) } else Some st)"

lemma cqe_foreach_safe_loop_purge:
  assumes "circle (cq, h) (us @ vs)"
  shows "\<exists>cq' h'. cqe_foreach_safe_loop (cq_purge P) (hd (vs @ [NULL])) (s, cq, h)
    = Some (s @ filter P vs, cq', h') \<and> circle (cq', h') (us @ filter (Not \<circ> P) vs)
    \<and> same_outside (set (us @ vs)) h h'"
  using assms
proof (induction vs arbitrary: us s cq h)
  case Nil
  then show ?case by (simp add: cqe_foreach_safe_loop.simps same_outside_def)
next
  case (Cons v vs)
  let ?us = "us @ (if P v then [] else [v])"
  have v: "v \<noteq> NULL" using Cons.prems by (auto simp: circle_def)
  note n = circle_next [OF Cons.prems]
  obtain cq1 h1 where b: "cq_purge P v (s, cq, h) = Some (s @ (if P v then [v] else []), cq1, h1)"
    and r1: "circle (cq1, h1) (?us @ vs)"
    and s1: "same_outside (set (us @ v # vs)) h h1"
    using circle_dequeue_ok [OF Cons.prems] Cons.prems
    by (cases "P v") (auto simp: cq_purge_def same_outside_def)
  obtain cq' h' where l: "cqe_foreach_safe_loop (cq_purge P) (hd (vs @ [NULL]))
        (s @ (if P v then [v] else []), cq1, h1) = Some ((s @ (if P v then [v] else [])) @ filter P vs, cq', h')"
      and r': "circle (cq', h') (?us @ filter (Not \<circ> P) vs)" and s': "same_outside (set (?us @ vs)) h1 h'"
    using Cons.IH [OF r1] by blast
  have "same_outside (set (us @ v # vs)) h h'"
    by (rule same_outside_trans [OF s1 same_outside_mono [OF s']]) auto
  moreover have "circle (cq', h') (us @ filter (Not \<circ> P) (v # vs))" using r' by (cases "P v") simp_all
  ultimately show ?case
    using v b n l by (subst cqe_foreach_safe_loop.simps) (cases "P v", simp_all)
qed

subsection \<open>The circle queue as a deque\<close>

definition circle_deque :: "(circle_queue_head \<times> qheap, ptr) deque_ops" where
  "circle_deque = \<lparr>op_push_head = circle_enqueue_head, op_push_tail = circle_enqueue_tail,
     op_pop_head = circle_dequeue_head, op_pop_tail = circle_dequeue_tail,
     op_is_empty = \<lambda>st. Some (circle_queue_empty (fst st))\<rparr>"

definition circle_node :: "circle_queue_head \<times> qheap \<Rightarrow> ptr \<Rightarrow> bool" where
  "circle_node st x \<longleftrightarrow> x \<noteq> NULL \<and> x \<in> dom (snd st)"

lemma circle_node_same_outside:
  "same_outside A h h' \<Longrightarrow> \<forall>y. circle_node (cq, h) y \<longrightarrow> circle_node (cq', h') y"
  using dom_same_outside [of A h h'] by (auto simp: circle_node_def)

interpretation circle: deque circle_deque circle circle_node
proof
  fix st xs x
  assume c: "circle st xs" and n: "circle_node st x" and x: "x \<notin> set xs"
  obtain cq h where st: "st = (cq, h)" by (cases st)
  have e: "x \<in> dom h" "x \<noteq> NULL" using n by (auto simp: circle_node_def st)
  show "\<exists>st'. op_push_head circle_deque x st = Some st' \<and> circle st' (x # xs)
      \<and> (\<forall>y. circle_node st y \<longrightarrow> circle_node st' y)"
    using circle_enqueue_head_ok [OF c [unfolded st] e x] circle_node_same_outside
    by (fastforce simp: circle_deque_def st)
  show "\<exists>st'. op_push_tail circle_deque x st = Some st' \<and> circle st' (xs @ [x])
      \<and> (\<forall>y. circle_node st y \<longrightarrow> circle_node st' y)"
    using circle_enqueue_tail_ok [OF c [unfolded st] e x] circle_node_same_outside
    by (fastforce simp: circle_deque_def st)
next
  fix st x xs assume c: "circle st (x # xs)"
  obtain cq h where st: "st = (cq, h)" by (cases st)
  show "\<exists>st'. op_pop_head circle_deque st = Some (x, st') \<and> circle st' xs
      \<and> (\<forall>y. circle_node st y \<longrightarrow> circle_node st' y)"
    using circle_dequeue_head_ok [OF c [unfolded st]] circle_node_same_outside
    by (fastforce simp: circle_deque_def st)
next
  fix st xs x assume c: "circle st (xs @ [x])"
  obtain cq h where st: "st = (cq, h)" by (cases st)
  show "\<exists>st'. op_pop_tail circle_deque st = Some (x, st') \<and> circle st' xs
      \<and> (\<forall>y. circle_node st y \<longrightarrow> circle_node st' y)"
    using circle_dequeue_tail_ok [OF c [unfolded st]] circle_node_same_outside
    by (fastforce simp: circle_deque_def st)
next
  fix st xs assume "circle st xs"
  then show "op_is_empty circle_deque st = Some (xs = [])"
    by (cases xs) (auto simp: circle_deque_def circle_queue_empty_def circle_Nil circle_Cons)
qed

subsection \<open>Properties\<close>

definition sample_circle :: "circle_queue_head \<times> qheap" where
  "sample_circle = (\<lparr>cq_head = 8\<rparr>, sample_heap)"

lemma sample_circle_ok: "circle sample_circle [8, 16, 24]"
  using sample_ring by (simp add: sample_circle_def circle_Cons)

text \<open>
  C16: Any sequence of circle_enqueue_head, circle_enqueue_tail, circle_dequeue_head,
  circle_dequeue_tail and circle_queue_empty that the abstract deque allows runs without a fault
  and answers as the list of queued entries would, although the head is a single pointer.
\<close>

theorem circle_queue_refines_deque:
  assumes "circle st xs" and "\<forall>c \<in> set cs. \<forall>x \<in> pushed c. circle_node st x"
    and "spec_run cs xs = Some (rs, ys)"
  shows "\<exists>st'. impl_run circle_deque cs st = Some (rs, st') \<and> circle st' ys"
  by (rule circle.run_refines [OF assms])

theorem circle_queue_refines_deque_witness:
  "\<exists>st'. impl_run circle_deque [Pop_tail, Push_head 32, Pop_tail, Pop_tail, Test_empty] sample_circle
     = Some ([Popped 24, Done, Popped 16, Popped 8, Is_empty False], st') \<and> circle st' [32]"
  by (rule circle_queue_refines_deque [OF sample_circle_ok])
    (simp_all add: circle_node_def sample_circle_def sample_dom)

text \<open>
  Circle_queue_length ends and returns the number of queued entries; the size_t counter cannot
  wrap.
\<close>

theorem circle_queue_length_counts:
  assumes "circle (cq, h) xs"
  shows "\<exists>n. circle_queue_length cq h = Some n \<and> unat n = length xs"
proof -
  have "cq_head cq = hd (xs @ [NULL])" using assms by (simp add: circle_def)
  then have "circle_queue_length cq h = Some (of_nat (length xs))"
    using circle_queue_length_loop_ok [of cq h "[]" xs 0] assms
    by (simp add: circle_queue_length_def circle_queue_first_def)
  moreover have "unat (of_nat (length xs) :: u64) = length xs"
    using circle_length_bound [OF assms] by (simp add: unsigned_of_nat take_bit_nat_eq_self)
  ultimately show ?thesis by blast
qed

theorem circle_queue_length_counts_witness:
  "\<exists>n. circle_queue_length \<lparr>cq_head = 8\<rparr> sample_heap = Some n \<and> unat n = 3"
  using circle_queue_length_counts [OF sample_circle_ok [unfolded sample_circle_def]] by (simp add: numeral_3_eq_3)

text \<open>
  Circle_dequeue takes any queued entry out, also the one the head points to, and touches the
  linkages of that queue only; rotating the head forward or backward rotates the queue and is
  undone by the opposite rotation.
\<close>

theorem circle_dequeue_and_rotate:
  assumes "circle (cq, h) (us @ x # vs)"
  shows "(\<exists>cq' h'. circle_dequeue x (cq, h) = Some (cq', h') \<and> circle (cq', h') (us @ vs)
      \<and> same_outside (set (us @ x # vs)) h h')
    \<and> (\<exists>cq'. circle_queue_rotate_head_forward cq h = Some cq'
      \<and> circle (cq', h) (tl (us @ x # vs) @ [hd (us @ x # vs)])
      \<and> circle_queue_rotate_head_backward cq' h = Some cq)"
proof -
  define y ys where y: "y = hd (us @ x # vs)" and ys: "ys = tl (us @ x # vs)"
  have eq: "us @ x # vs = y # ys" by (cases us) (simp_all add: y ys)
  then have r: "ring id h y ys" "cq_head cq = y" "y \<noteq> NULL" "NULL \<notin> set ys"
    using assms by (simp_all add: circle_Cons)
  define cq' where "cq' = cq\<lparr>cq_head := hd (ys @ [y])\<rparr>"
  have f: "circle_queue_rotate_head_forward cq h = Some cq'"
    using r ring_head_next [OF r(1)]
    by (simp add: circle_queue_rotate_head_forward_def circle_queue_first_def cq'_def)
  have c: "circle (cq', h) (ys @ [y])"
    using r ring_rotate [of h y "[]" "hd ys" "tl ys"]
    by (cases ys) (auto simp: circle_Cons cq'_def)
  have "circle_queue_rotate_head_backward cq' h = Some cq"
    using circle_last [OF c] r by (simp add: circle_queue_rotate_head_backward_def cq'_def)
  then show ?thesis
    using circle_dequeue_ok [OF assms] f c by (simp add: eq)
qed

theorem circle_dequeue_and_rotate_witness:
  "(\<exists>cq' h'. circle_dequeue 8 sample_circle = Some (cq', h') \<and> circle (cq', h') [16, 24])
   \<and> (\<exists>cq'. circle_queue_rotate_head_forward \<lparr>cq_head = 8\<rparr> sample_heap = Some cq'
      \<and> circle (cq', sample_heap) [16, 24, 8])"
  using circle_dequeue_and_rotate [of "\<lparr>cq_head = 8\<rparr>" sample_heap "[]" 8 "[16, 24]"]
    sample_circle_ok by (auto simp: sample_circle_def)

text \<open>
  Cqe_foreach hands every entry to a body that leaves the queue alone exactly once, in order,
  and cqe_foreach_safe allows the body to dequeue the current entry, the head's included: exactly
  the chosen entries are removed and the rest keep their order. Both loops end.
\<close>

theorem cqe_foreach_order_and_removal:
  assumes "circle (cq, h) xs" and "\<forall>x \<in> set xs. \<forall>s. body x (s, cq, h) = Some (g x s, cq, h)"
  shows "cqe_foreach body (s, cq, h) = Some (fold g xs s, cq, h)
    \<and> (\<exists>cq' h'. cqe_foreach_safe (cq_purge P) ([], cq, h) = Some (filter P xs, cq', h')
      \<and> circle (cq', h') (filter (Not \<circ> P) xs) \<and> same_outside (set xs) h h')"
proof -
  have hd: "circle_queue_first cq = hd (xs @ [NULL])"
    using assms(1) by (simp add: circle_def circle_queue_first_def)
  show ?thesis
    using cqe_foreach_loop_pure [of cq h "[]" xs body g s] assms
      cqe_foreach_safe_loop_purge [of cq h "[]" xs P "[]"]
    by (simp add: cqe_foreach_def cqe_foreach_safe_def hd)
qed

theorem cqe_foreach_order_and_removal_witness:
  "cqe_foreach (\<lambda>x (s, c). Some (s @ [x], c)) ([], \<lparr>cq_head = 8\<rparr>, sample_heap)
     = Some ([8, 16, 24], \<lparr>cq_head = 8\<rparr>, sample_heap)
   \<and> (\<exists>cq' h'. cqe_foreach_safe (cq_purge (\<lambda>x. x \<noteq> 24)) ([], \<lparr>cq_head = 8\<rparr>, sample_heap)
     = Some ([8, 16], cq', h') \<and> circle (cq', h') [24])"
  using cqe_foreach_order_and_removal [OF sample_circle_ok [unfolded sample_circle_def],
      of "\<lambda>x (s, c). Some (s @ [x], c)" "\<lambda>x s. s @ [x]" "[]" "\<lambda>x. x \<noteq> 24"]
  by auto

end
