(* ===== verification/Bits.thy ===== *)
theory Bits
  imports Prelude
begin

text \<open>
  kern/bits.h: bit operations on 64-bit words and bitmaps stored as arrays of 64-bit words.
  Shift counts, bit numbers and array indices are kept at their C types; a shift by a count
  outside 0..63 and an access outside the array, both undefined in C, are \<open>None\<close>. Signed results
  are integers, \<open>c_int\<close> being the conversion to \<open>int\<close>. The theorems say which bit each search
  returns: the greatest or least one in a range, or -1 if there is none.
\<close>

subsection \<open>Compiler builtins\<close>

definition builtin_clzll :: "u64 \<Rightarrow> int" where
  "builtin_clzll x = int (length (takeWhile (\<lambda>i. \<not> bit x i) (rev [0..<64])))"

definition builtin_ffsll :: "u64 \<Rightarrow> int" where
  "builtin_ffsll x = (if x = 0 then 0 else 1 + int (length (takeWhile (\<lambda>i. \<not> bit x i) [0..<64])))"

definition builtin_popcountll :: "u64 \<Rightarrow> int" where
  "builtin_popcountll x = int (length (filter (bit x) [0..<64]))"

definition c_int :: "int \<Rightarrow> int" where
  "c_int x = signed_take_bit 31 x"

definition c_shl64 :: "u64 \<Rightarrow> u32 \<Rightarrow> u64 option" where
  "c_shl64 x n = (if unat n < 64 then Some (push_bit (unat n) x) else None)"

definition c_shr64 :: "u64 \<Rightarrow> u32 \<Rightarrow> u64 option" where
  "c_shr64 x n = (if unat n < 64 then Some (drop_bit (unat n) x) else None)"

subsection \<open>Bits of a word\<close>

definition BIT :: "int \<Rightarrow> u64 option" where
  "BIT b = (if 0 \<le> b \<and> b < 64 then Some (push_bit (nat b) 1) else None)"

definition mask_macro :: "int \<Rightarrow> u64 option" where
  "mask_macro width = (if width \<ge> 64 then Some (- 1) else map_option (\<lambda>m. m - 1) (BIT width))"

definition extract_macro :: "u64 \<Rightarrow> int \<Rightarrow> int \<Rightarrow> u64 option" where
  "extract_macro x shift width =
     (if 0 \<le> shift \<and> shift < 64
      then map_option (\<lambda>m. drop_bit (nat shift) x AND m) (mask_macro width) else None)"

definition bits :: "u64 \<Rightarrow> int \<Rightarrow> int \<Rightarrow> u64 option" where
  "bits x hi lo = extract_macro x lo (hi - lo + 1)"

definition bit_set :: "u64 \<Rightarrow> int \<Rightarrow> u64 option" where
  "bit_set x b = map_option (\<lambda>m. x OR m) (BIT b)"

definition bit_clear :: "u64 \<Rightarrow> int \<Rightarrow> u64 option" where
  "bit_clear x b = map_option (\<lambda>m. x AND NOT m) (BIT b)"

definition bit_test :: "u64 \<Rightarrow> int \<Rightarrow> bool option" where
  "bit_test x b = map_option (\<lambda>m. x AND m \<noteq> 0) (BIT b)"

definition bit_ror64 :: "u64 \<Rightarrow> u32 \<Rightarrow> u64 option" where
  "bit_ror64 bitmap n = (let n = n AND 63 in do {
     r \<leftarrow> c_shr64 bitmap n;
     l \<leftarrow> c_shl64 bitmap (64 - n);
     Some (r OR l) })"

definition bit_rol64 :: "u64 \<Rightarrow> u32 \<Rightarrow> u64 option" where
  "bit_rol64 bitmap n = (let n = n AND 63 in do {
     l \<leftarrow> c_shl64 bitmap n;
     r \<leftarrow> c_shr64 bitmap (64 - n);
     Some (l OR r) })"

text \<open>
  The two functions below take the bitmap by value: the result is the returned flag, and the
  changed copy, the second component, is a local that is lost at the return.
\<close>

definition bit_clear_if_set :: "u64 \<Rightarrow> int \<Rightarrow> (bool \<times> u64) option" where
  "bit_clear_if_set bitmap b = do {
     bit_is_set \<leftarrow> bit_test bitmap b;
     bitmap \<leftarrow> bit_clear bitmap b;
     Some (bit_is_set, bitmap) }"

definition bit_set_if_clear :: "u64 \<Rightarrow> int \<Rightarrow> (bool \<times> u64) option" where
  "bit_set_if_clear bitmap b = do {
     bit_is_set \<leftarrow> bit_test bitmap b;
     bitmap \<leftarrow> bit_set bitmap b;
     Some (\<not> bit_is_set, bitmap) }"

definition bit_first :: "u64 \<Rightarrow> int" where
  "bit_first bitmap = (if bitmap = 0 then - 1 else 63 - builtin_clzll bitmap)"

definition uu_bit_next :: "u64 \<Rightarrow> int \<Rightarrow> int option" where
  "uu_bit_next bitmap previous_bit = do {
     m \<leftarrow> (if previous_bit \<noteq> 0 then mask_macro previous_bit else Some (NOT 0));
     Some (bit_first (bitmap AND m)) }"

definition bit_next :: "u64 \<Rightarrow> int \<Rightarrow> int option" where
  "bit_next bitmap previous_bit =
     (if previous_bit = 0 then Some (- 1) else uu_bit_next bitmap previous_bit)"

definition lsb_first :: "u64 \<Rightarrow> int" where
  "lsb_first bitmap = builtin_ffsll bitmap - 1"

definition lsb_next :: "u64 \<Rightarrow> int \<Rightarrow> int option" where
  "lsb_next bitmap previous_bit = do {
     m \<leftarrow> mask_macro (previous_bit + 1);
     Some (lsb_first (bitmap AND NOT m)) }"

definition bit_count :: "u64 \<Rightarrow> int" where
  "bit_count x = builtin_popcountll x"

definition bit_floor :: "u64 \<Rightarrow> int" where
  "bit_floor n = bit_first n"

definition bit_ceiling :: "u64 \<Rightarrow> int" where
  "bit_ceiling n = (if n = 0 then - 1 else bit_first (n - 1) + 1)"

definition bit_log2 :: "u64 \<Rightarrow> int" where
  "bit_log2 n = bit_floor n"

text \<open>The atomic variants, as the read-modify-write they perform on the word.\<close>

definition atomic_bit_set :: "u64 \<Rightarrow> int \<Rightarrow> (bool \<times> u64) option" where
  "atomic_bit_set bm n = do {
     m \<leftarrow> BIT n;
     let prev = bm;
     b \<leftarrow> bit_test prev n;
     Some (b, bm OR m) }"

definition atomic_bit_clear :: "u64 \<Rightarrow> int \<Rightarrow> (bool \<times> u64) option" where
  "atomic_bit_clear bm n = do {
     m \<leftarrow> BIT n;
     let prev = bm;
     b \<leftarrow> bit_test prev n;
     Some (b, bm AND NOT m) }"

subsection \<open>Bitmaps\<close>

text \<open>Array reads and writes; outside the array they are faults.\<close>

definition at :: "u64 list \<Rightarrow> u64 \<Rightarrow> u64 option" where
  "at bm i = (if unat i < length bm then Some (bm ! unat i) else None)"

definition store :: "u64 list \<Rightarrow> u64 \<Rightarrow> u64 \<Rightarrow> u64 list option" where
  "store bm i v = (if unat i < length bm then Some (bm[unat i := v]) else None)"

definition BITMAP_LEN :: "u32 \<Rightarrow> u32" where
  "BITMAP_LEN n = drop_bit 6 (n + 63)"

definition BITMAP_SIZE :: "u32 \<Rightarrow> u64" where
  "BITMAP_SIZE n = ucast (push_bit 3 (BITMAP_LEN n))"

definition bitmap_bit :: "u32 \<Rightarrow> u64 option" where
  "bitmap_bit n = bits (ucast n) 5 0"

definition bitmap_index :: "u32 \<Rightarrow> u64 option" where
  "bitmap_index n = bits (ucast n) 63 6"

text \<open>\<open>memset\<close> of a whole number of words, with all bytes 0 or all bytes 0xff.\<close>

definition memset_words :: "u64 list \<Rightarrow> u64 \<Rightarrow> u64 \<Rightarrow> u64 list option" where
  "memset_words bm w sz =
     (let n = unat sz div 8 in
      if n \<le> length bm then Some (replicate n w @ drop n bm) else None)"

definition bitmap_zero :: "u64 list \<Rightarrow> u32 \<Rightarrow> u64 list option" where
  "bitmap_zero bm nbits = memset_words bm 0 (BITMAP_SIZE nbits)"

definition bitmap_full :: "u64 list \<Rightarrow> u32 \<Rightarrow> u64 list option" where
  "bitmap_full bm nbits = memset_words bm (NOT 0) (BITMAP_SIZE nbits)"

text \<open>
  \<open>kalloc\<close> is the kernel's: a parameter that returns \<open>None\<close> (\<open>NULL\<close>) or the words of a new
  allocation. \<open>None\<close> of the outer option is a fault.
\<close>

definition bitmap_alloc :: "(u64 \<Rightarrow> u64 list option) \<Rightarrow> u32 \<Rightarrow> u64 list option option" where
  "bitmap_alloc kalloc nbits = do {
     kassert (nbits > 0);
     case kalloc (BITMAP_SIZE nbits) of
       None \<Rightarrow> Some None
     | Some bm \<Rightarrow> do { bm \<leftarrow> bitmap_zero bm nbits; Some (Some bm) } }"

definition bitmap_free :: "('m \<Rightarrow> u64 \<Rightarrow> 'w) \<Rightarrow> 'm \<Rightarrow> u32 \<Rightarrow> 'w option" where
  "bitmap_free kfree bm nbits = do {
     kassert (nbits > 0);
     Some (kfree bm (BITMAP_SIZE nbits)) }"

definition bitmap_set :: "u64 list \<Rightarrow> u32 \<Rightarrow> u64 list option" where
  "bitmap_set bm n = do {
     i \<leftarrow> bitmap_index n; b \<leftarrow> bitmap_bit n;
     w \<leftarrow> at bm i; w \<leftarrow> bit_set w (uint b); store bm i w }"

definition bitmap_clear :: "u64 list \<Rightarrow> u32 \<Rightarrow> u64 list option" where
  "bitmap_clear bm n = do {
     i \<leftarrow> bitmap_index n; b \<leftarrow> bitmap_bit n;
     w \<leftarrow> at bm i; w \<leftarrow> bit_clear w (uint b); store bm i w }"

definition atomic_bitmap_set :: "u64 list \<Rightarrow> u32 \<Rightarrow> (bool \<times> u64 list) option" where
  "atomic_bitmap_set bm n = do {
     i \<leftarrow> bitmap_index n; b \<leftarrow> bitmap_bit n;
     w \<leftarrow> at bm i; (r, w) \<leftarrow> atomic_bit_set w (uint b);
     bm \<leftarrow> store bm i w; Some (r, bm) }"

definition atomic_bitmap_clear :: "u64 list \<Rightarrow> u32 \<Rightarrow> (bool \<times> u64 list) option" where
  "atomic_bitmap_clear bm n = do {
     i \<leftarrow> bitmap_index n; b \<leftarrow> bitmap_bit n;
     w \<leftarrow> at bm i; (r, w) \<leftarrow> atomic_bit_clear w (uint b);
     bm \<leftarrow> store bm i w; Some (r, bm) }"

definition bitmap_test :: "u64 list \<Rightarrow> u32 \<Rightarrow> bool option" where
  "bitmap_test bm n = do {
     i \<leftarrow> bitmap_index n; b \<leftarrow> bitmap_bit n;
     w \<leftarrow> at bm i; bit_test w (uint b) }"

text \<open>The downward loops: \<open>scan (Suc i)\<close> is the iteration at index \<open>i\<close>.\<close>

fun bitmap_first_loop :: "u64 list \<Rightarrow> nat \<Rightarrow> int option" where
  "bitmap_first_loop bm 0 = Some (- 1)"
| "bitmap_first_loop bm (Suc i) = do {
     w \<leftarrow> at bm (of_nat i);
     if w = 0 then bitmap_first_loop bm i
     else Some (c_int (int i * 64 + bit_first w)) }"

definition bitmap_first :: "u64 list \<Rightarrow> u32 \<Rightarrow> int option" where
  "bitmap_first bm nbits = do {
     i \<leftarrow> bitmap_index (nbits - 1);
     bitmap_first_loop bm (Suc (unat i)) }"

fun bitmap_and_not_mask_first_loop :: "u64 list \<Rightarrow> u64 list \<Rightarrow> nat \<Rightarrow> int option" where
  "bitmap_and_not_mask_first_loop bm msk 0 = Some (- 1)"
| "bitmap_and_not_mask_first_loop bm msk (Suc i) = do {
     w \<leftarrow> at bm (of_nat i);
     m \<leftarrow> at msk (of_nat i);
     if w AND NOT m = 0 then bitmap_and_not_mask_first_loop bm msk i
     else Some (c_int (int i * 64 + bit_first (w AND NOT m))) }"

definition bitmap_and_not_mask_first :: "u64 list \<Rightarrow> u64 list \<Rightarrow> u32 \<Rightarrow> int option" where
  "bitmap_and_not_mask_first bm msk nbits = do {
     i \<leftarrow> bitmap_index (nbits - 1);
     bitmap_and_not_mask_first_loop bm msk (Suc (unat i)) }"

function bitmap_lsb_loop :: "u64 list \<Rightarrow> nat \<Rightarrow> nat \<Rightarrow> int option" where
  "bitmap_lsb_loop bm lim i =
     (if i \<le> lim then do {
        w \<leftarrow> at bm (of_nat i);
        if w = 0 then bitmap_lsb_loop bm lim (Suc i)
        else Some (c_int (int i * 64 + lsb_first w)) }
      else Some (- 1))"
  by auto
termination by (relation "measure (\<lambda>(bm, lim, i). Suc lim - i)") auto

declare bitmap_lsb_loop.simps [simp del]

definition bitmap_lsb_first :: "u64 list \<Rightarrow> u32 \<Rightarrow> int option" where
  "bitmap_lsb_first bm nbits = do {
     lim \<leftarrow> bitmap_index (nbits - 1);
     bitmap_lsb_loop bm (unat lim) 0 }"

definition bitmap_next :: "u64 list \<Rightarrow> u32 \<Rightarrow> int option" where
  "bitmap_next bm prev =
     (if prev = 0 then Some (- 1)
      else do {
        i \<leftarrow> bitmap_index (prev - 1);
        w \<leftarrow> at bm i;
        b \<leftarrow> bits (ucast prev) 5 0;
        res \<leftarrow> uu_bit_next w (uint b);
        if res \<ge> 0 then Some (c_int (res + uint i * 64))
        else bitmap_first_loop bm (unat i) })"

definition bitmap_lsb_next :: "u64 list \<Rightarrow> u32 \<Rightarrow> u32 \<Rightarrow> int option" where
  "bitmap_lsb_next bm nbits prev =
     (if prev + 1 \<ge> nbits then Some (- 1)
      else do {
        i \<leftarrow> bitmap_index (prev + 1);
        x \<leftarrow> bits (ucast (prev + 1)) 5 0;
        let b = (ucast (x - 1) :: u32);
        w \<leftarrow> at bm i;
        res \<leftarrow> lsb_next w (sint b);
        if res \<ge> 0 then Some (c_int (res + uint i * 64))
        else do {
          lim \<leftarrow> bitmap_index (nbits - 1);
          bitmap_lsb_loop bm (unat lim) (Suc (unat i)) } })"

subsection \<open>Searching\<close>

text \<open>
  \<open>last_bit P b r\<close>: \<open>r\<close> is the greatest \<open>k < b\<close> with \<open>P k\<close>, or -1. \<open>first_bit P a b r\<close>: \<open>r\<close> is the least
  \<open>k\<close> with \<open>a \<le> k < b\<close> and \<open>P k\<close>, or -1.
\<close>

definition last_bit :: "(nat \<Rightarrow> bool) \<Rightarrow> nat \<Rightarrow> int \<Rightarrow> bool" where
  "last_bit P b r \<longleftrightarrow> (r = - 1 \<and> (\<forall>k < b. \<not> P k)) \<or>
     (\<exists>k < b. r = int k \<and> P k \<and> (\<forall>j. k < j \<and> j < b \<longrightarrow> \<not> P j))"

definition first_bit :: "(nat \<Rightarrow> bool) \<Rightarrow> nat \<Rightarrow> nat \<Rightarrow> int \<Rightarrow> bool" where
  "first_bit P a b r \<longleftrightarrow> (r = - 1 \<and> (\<forall>k. a \<le> k \<and> k < b \<longrightarrow> \<not> P k)) \<or>
     (\<exists>k. a \<le> k \<and> k < b \<and> r = int k \<and> P k \<and> (\<forall>j. a \<le> j \<and> j < k \<longrightarrow> \<not> P j))"

lemma last_bit_unique: "last_bit P b r \<Longrightarrow> last_bit P b s \<Longrightarrow> r = s"
  by (auto simp: last_bit_def) (metis nat_neq_iff)

lemma takeWhile_down:
  "last_bit P n (int n - 1 - int (length (takeWhile (\<lambda>i. \<not> P i) (rev [0..<n]))))"
proof (induction n)
  case (Suc n)
  show ?case
  proof (cases "P n")
    case False
    then show ?thesis using Suc by (auto simp: last_bit_def less_Suc_eq)
  qed (auto simp: last_bit_def)
qed (simp add: last_bit_def)

lemma takeWhile_up:
  assumes "\<exists>i < n. P i"
  shows "first_bit P 0 n (int (length (takeWhile (\<lambda>i. \<not> P i) [0..<n])))"
proof -
  define k where "k = (LEAST i. P i)"
  have k: "P k" "k < n" "\<And>j. j < k \<Longrightarrow> \<not> P j"
    using assms by (auto simp: k_def intro: LeastI dest: not_less_Least) (meson LeastI Least_le le_less_trans)
  have "[0..<n] = [0..<k] @ k # [Suc k..<n]" using k(2) by (metis upt_add_eq_append upt_conv_Cons less_imp_le_nat le_add_diff_inverse le0)
  then have "takeWhile (\<lambda>i. \<not> P i) [0..<n] = [0..<k]" using k by (simp add: takeWhile_append)
  then show ?thesis using k by (auto simp: first_bit_def)
qed

lemma u64_nonzero_bit: "(x :: u64) \<noteq> 0 \<longleftrightarrow> (\<exists>i < 64. bit x i)"
  using bit_u64_iff by (metis bit_0_eq bit_word_eqI bot_apply bot_bool_def)

lemma bit_first_last_bit: "last_bit (bit x) 64 (bit_first x)"
proof (cases "x = 0")
  case True
  then show ?thesis by (simp add: bit_first_def last_bit_def)
next
  case False
  then show ?thesis using takeWhile_down [of "bit x" 64] by (simp add: bit_first_def builtin_clzll_def)
qed

lemma lsb_first_first_bit: "first_bit (bit x) 0 64 (lsb_first x)"
proof (cases "x = 0")
  case True
  then show ?thesis by (simp add: lsb_first_def builtin_ffsll_def first_bit_def)
next
  case False
  then show ?thesis using takeWhile_up [of 64 "bit x"] u64_nonzero_bit [of x]
    by (simp add: lsb_first_def builtin_ffsll_def)
qed

lemma mask_macro_eq: "0 \<le> w \<Longrightarrow> mask_macro w = Some (mask (min 64 (nat w)))"
proof (cases "w < 64")
  case True
  assume "0 \<le> w"
  then show ?thesis using True
    by (simp add: mask_macro_def BIT_def mask_eq_decr_exp push_bit_eq_mult min_def)
next
  case False
  moreover have "(- 1 :: u64) = mask 64" by (rule bit_word_eqI) (simp add: bit_simps)
  ultimately show ?thesis by (simp add: mask_macro_def min_def)
qed

lemma uu_bit_next_last_bit:
  assumes "0 \<le> p"
  shows "\<exists>r. uu_bit_next x p = Some r \<and> last_bit (bit x) (if p = 0 then 64 else min 64 (nat p)) r"
proof (cases "p = 0")
  case True
  then show ?thesis using bit_first_last_bit [of x] by (simp add: uu_bit_next_def)
next
  case False
  define m where "m = min 64 (nat p)"
  have "last_bit (bit (x AND mask m)) 64 (bit_first (x AND mask m))" by (rule bit_first_last_bit)
  then have "last_bit (bit x) m (bit_first (x AND mask m))"
    by (auto simp: last_bit_def bit_simps m_def)
  then show ?thesis using False assms by (simp add: uu_bit_next_def mask_macro_eq m_def)
qed

lemma lsb_next_first_bit:
  assumes "- 1 \<le> p"
  shows "\<exists>r. lsb_next x p = Some r \<and> first_bit (bit x) (nat (p + 1)) 64 r"
proof -
  define q where "q = nat (p + 1)"
  define m where "m = min 64 q"
  have "first_bit (bit (x AND NOT (mask m))) 0 64 (lsb_first (x AND NOT (mask m)))"
    by (rule lsb_first_first_bit)
  then have "first_bit (bit x) q 64 (lsb_first (x AND NOT (mask m)))"
    by (auto simp: first_bit_def bit_simps m_def) (meson leD)+
  then show ?thesis using assms by (simp add: lsb_next_def mask_macro_eq m_def q_def)
qed

subsection \<open>Bitmaps as sets of bit numbers\<close>

definition bmbit :: "u64 list \<Rightarrow> nat \<Rightarrow> bool" where
  "bmbit bm k \<longleftrightarrow> k < 64 * length bm \<and> bit (bm ! (k div 64)) (k mod 64)"

lemma bmbit_block: "i < length bm \<Longrightarrow> k < 64 \<Longrightarrow> bmbit bm (64 * i + k) = bit (bm ! i) k"
  by (auto simp: bmbit_def)

lemma last_bit_block:
  assumes i: "i < length bm" and m: "m \<le> 64"
    and r: "last_bit (bit (bm ! i)) m r" and s: "last_bit (bmbit bm) (64 * i) s"
  shows "last_bit (bmbit bm) (64 * i + m) (if r \<ge> 0 then int i * 64 + r else s)"
proof -
  have blk: "bmbit bm j = bit (bm ! i) (j - 64 * i)" if "64 * i \<le> j" "j < 64 * i + m" for j
    using bmbit_block [OF i, of "j - 64 * i"] that m by simp
  from r consider "r = - 1" "\<And>k. k < m \<Longrightarrow> \<not> bit (bm ! i) k"
    | k where "k < m" "r = int k" "bit (bm ! i) k" "\<And>j. k < j \<Longrightarrow> j < m \<Longrightarrow> \<not> bit (bm ! i) j"
    unfolding last_bit_def by blast
  then show ?thesis
  proof cases
    case 1
    have "\<not> bmbit bm j" if "64 * i \<le> j" "j < 64 * i + m" for j using blk [OF that] 1(2) that by auto
    then show ?thesis using 1(1) s unfolding last_bit_def
      by (smt (verit) le_add1 le_trans less_le_trans linorder_not_le)
  next
    case 2
    have "bmbit bm (64 * i + k)" using blk [of "64 * i + k"] 2 by simp
    moreover have "\<not> bmbit bm j" if "64 * i + k < j" "j < 64 * i + m" for j
      using blk [of j] 2(4) [of "j - 64 * i"] that by auto
    ultimately show ?thesis using 2(1,2) unfolding last_bit_def
      by (intro disjI2 exI [of _ "64 * i + k"]) auto
  qed
qed

lemma first_bit_block:
  assumes i: "i < length bm" and a: "a \<le> 64" and b: "64 * Suc i \<le> b"
    and r: "first_bit (bit (bm ! i)) a 64 r" and s: "first_bit (bmbit bm) (64 * Suc i) b s"
  shows "first_bit (bmbit bm) (64 * i + a) b (if r \<ge> 0 then int i * 64 + r else s)"
proof -
  have blk: "bmbit bm j = bit (bm ! i) (j - 64 * i)" if "64 * i \<le> j" "j < 64 * Suc i" for j
    using bmbit_block [OF i, of "j - 64 * i"] that by simp
  from r consider "r = - 1" "\<And>k. a \<le> k \<Longrightarrow> k < 64 \<Longrightarrow> \<not> bit (bm ! i) k"
    | k where "a \<le> k" "k < 64" "r = int k" "bit (bm ! i) k" "\<And>j. a \<le> j \<Longrightarrow> j < k \<Longrightarrow> \<not> bit (bm ! i) j"
    unfolding first_bit_def by blast
  then show ?thesis
  proof cases
    case 1
    have n: "\<not> bmbit bm j" if "64 * i + a \<le> j" "j < 64 * Suc i" for j
      using blk [of j] 1(2) [of "j - 64 * i"] that by auto
    from s consider "s = - 1" "\<And>k. 64 * Suc i \<le> k \<Longrightarrow> k < b \<Longrightarrow> \<not> bmbit bm k"
      | k where "64 * Suc i \<le> k" "k < b" "s = int k" "bmbit bm k"
          "\<And>j. 64 * Suc i \<le> j \<Longrightarrow> j < k \<Longrightarrow> \<not> bmbit bm j"
      unfolding first_bit_def by blast
    then show ?thesis
    proof cases
      case 1
      then show ?thesis using n \<open>r = - 1\<close> unfolding first_bit_def
        by (metis add.inverse_neutral linorder_not_less neg_0_le_iff_le not_one_le_zero)
    next
      case (2 k)
      then show ?thesis using n a \<open>r = - 1\<close> unfolding first_bit_def
        by (intro disjI2 exI [of _ k]) (auto, metis leI)
    qed
  next
    case (2 k)
    have "bmbit bm (64 * i + k)" using blk [of "64 * i + k"] 2 by simp
    moreover have "\<not> bmbit bm j" if "64 * i + a \<le> j" "j < 64 * i + k" for j
      using blk [of j] 2(5) [of "j - 64 * i"] 2(2) that by auto
    ultimately show ?thesis using 2 b unfolding first_bit_def
      by (intro disjI2 exI [of _ "64 * i + k"]) auto
  qed
qed

lemma c_int_id: "- (2 ^ 31) \<le> x \<Longrightarrow> x < 2 ^ 31 \<Longrightarrow> c_int x = x"
  by (simp add: c_int_def signed_take_bit_int_eq_self)

lemma unat_ucast_32_64: "unat (ucast (n :: u32) :: u64) = unat n"
  using unat_less_pow [of n] by (simp add: unsigned_ucast_eq take_bit_nat_eq_self)

lemma unat_of_nat_64: "k < 2 ^ 64 \<Longrightarrow> unat (of_nat k :: u64) = k"
  by (simp add: unsigned_of_nat take_bit_nat_eq_self)

lemma uint_of_nat_64: "k < 2 ^ 64 \<Longrightarrow> uint (of_nat k :: u64) = int k"
  by (simp only: uint_nat unat_of_nat_64)

lemma bits_5_0: "bits (ucast (n :: u32)) 5 0 = Some (of_nat (unat n mod 64))"
proof -
  have "unat n mod 64 < 2 ^ 64" by (rule less_trans [of _ 64]) simp_all
  then have "ucast n AND (mask 6 :: u64) = of_nat (unat n mod 64)"
    by (intro word_unat_eq_iff [THEN iffD2]) (simp only: unat_and_mask unat_ucast_32_64 unat_of_nat_64, simp)
  then show ?thesis by (simp add: bits_def extract_macro_def mask_macro_eq)
qed

lemma bitmap_bit_eq: "bitmap_bit n = Some (of_nat (unat n mod 64))"
  by (simp add: bitmap_bit_def bits_5_0)

lemma bitmap_index_eq: "bitmap_index n = Some (of_nat (unat n div 64))"
proof -
  have n: "unat n div 64 < 2 ^ 58" using unat_less_pow [of n] by simp
  have "drop_bit 6 (ucast n) AND (mask 58 :: u64) = of_nat (unat n div 64)"
    using n by (intro word_unat_eq_iff [THEN iffD2])
      (simp only: unat_and_mask unat_drop_bit unat_ucast_32_64 unat_of_nat_64, simp add: unsigned_of_nat take_bit_nat_eq_self)
  then show ?thesis by (simp add: bitmap_index_def bits_def extract_macro_def mask_macro_eq)
qed

lemma uint_bit_number: "uint (of_nat (k mod 64) :: u64) = int (k mod 64)"
  by (simp add: uint_nat unat_of_nat_64 less_trans [of _ 64])

lemma at_of_nat: "i < length bm \<Longrightarrow> i < 2 ^ 64 \<Longrightarrow> at bm (of_nat i) = Some (bm ! i)"
  by (simp add: at_def unat_of_nat_64)

lemma store_of_nat: "i < length bm \<Longrightarrow> i < 2 ^ 64 \<Longrightarrow> store bm (of_nat i) w = Some (bm[i := w])"
  by (simp add: store_def unat_of_nat_64)

lemma bit_test_eq: "k < 64 \<Longrightarrow> bit_test x (int k) = Some (bit x k)"
  by (simp add: bit_test_def BIT_def bit_iff_and_push_bit_not_eq_0)

lemma bit_set_eq: "k < 64 \<Longrightarrow> bit_set x (int k) = Some (x OR push_bit k 1)"
  by (simp add: bit_set_def BIT_def)

lemma bit_clear_eq: "k < 64 \<Longrightarrow> bit_clear x (int k) = Some (x AND NOT (push_bit k 1))"
  by (simp add: bit_clear_def BIT_def)

lemma bmbit_update:
  assumes "n < 64 * length bm" and "\<And>j. j < 64 \<Longrightarrow> bit w j = (if j = n mod 64 then v else bit (bm ! (n div 64)) j)"
  shows "bmbit (bm[n div 64 := w]) k = (if k = n then v else bmbit bm k)"
proof -
  have "n div 64 < length bm" using assms(1) by (simp add: less_mult_imp_div_less mult.commute)
  moreover have "k = n \<longleftrightarrow> k div 64 = n div 64 \<and> k mod 64 = n mod 64" by (metis div_mult_mod_eq)
  ultimately show ?thesis using assms by (cases "k div 64 = n div 64") (auto simp: bmbit_def)
qed

lemma u32_index: "unat (n :: u32) div 64 < 2 ^ 64"
  using unat_less_pow [of n] by simp

lemma bitmap_ops_eq:
  assumes "unat n < 64 * length bm"
  defines "i \<equiv> unat n div 64" and "k \<equiv> unat n mod 64"
  shows "bitmap_test bm n = Some (bit (bm ! i) k)"
    and "bitmap_set bm n = Some (bm[i := bm ! i OR push_bit k 1])"
    and "bitmap_clear bm n = Some (bm[i := bm ! i AND NOT (push_bit k 1)])"
    and "atomic_bitmap_set bm n = Some (bit (bm ! i) k, bm[i := bm ! i OR push_bit k 1])"
    and "atomic_bitmap_clear bm n = Some (bit (bm ! i) k, bm[i := bm ! i AND NOT (push_bit k 1)])"
proof -
  have i: "unat n div 64 < length bm" using assms(1) by (simp add: less_mult_imp_div_less mult.commute)
  note eqs = bitmap_bit_eq bitmap_index_eq uint_bit_number at_of_nat [OF i u32_index]
    store_of_nat [OF i u32_index] bit_test_eq bit_set_eq bit_clear_eq i_def k_def
  show "bitmap_test bm n = Some (bit (bm ! i) k)" by (simp add: bitmap_test_def eqs)
  show "bitmap_set bm n = Some (bm[i := bm ! i OR push_bit k 1])" by (simp add: bitmap_set_def eqs)
  show "bitmap_clear bm n = Some (bm[i := bm ! i AND NOT (push_bit k 1)])" by (simp add: bitmap_clear_def eqs)
  show "atomic_bitmap_set bm n = Some (bit (bm ! i) k, bm[i := bm ! i OR push_bit k 1])"
    by (simp add: atomic_bitmap_set_def atomic_bit_set_def BIT_def eqs)
  show "atomic_bitmap_clear bm n = Some (bit (bm ! i) k, bm[i := bm ! i AND NOT (push_bit k 1)])"
    by (simp add: atomic_bitmap_clear_def atomic_bit_clear_def BIT_def eqs)
qed

lemma bmbit_set_clear:
  assumes "n < 64 * length bm"
  shows "bmbit (bm[n div 64 := bm ! (n div 64) OR push_bit (n mod 64) 1]) k \<longleftrightarrow> k = n \<or> bmbit bm k"
    and "bmbit (bm[n div 64 := bm ! (n div 64) AND NOT (push_bit (n mod 64) 1)]) k \<longleftrightarrow> k \<noteq> n \<and> bmbit bm k"
  using bmbit_update [OF assms, of "bm ! (n div 64) OR push_bit (n mod 64) 1" True k]
    bmbit_update [OF assms, of "bm ! (n div 64) AND NOT (push_bit (n mod 64) 1)" False k]
  by (auto simp: bit_simps)

subsection \<open>The bitmap searches\<close>

lemma last_bit_cases: "last_bit P b r \<Longrightarrow> r = - 1 \<or> 0 \<le> r \<and> r < int b"
  by (auto simp: last_bit_def)

lemma first_bit_cases: "first_bit P a b r \<Longrightarrow> r = - 1 \<or> 0 \<le> r \<and> r < int b"
  by (auto simp: first_bit_def)

lemma last_bit_word: "last_bit (bit w) 64 (bit_first w)" "w \<noteq> 0 \<Longrightarrow> 0 \<le> bit_first w" "bit_first 0 = - 1"
  "bit_first w < 64"
  using bit_first_last_bit [of w] last_bit_cases [OF bit_first_last_bit [of w]] u64_nonzero_bit [of w]
  by (auto simp: last_bit_def bit_first_def split: if_splits)

lemma first_bit_word: "w \<noteq> 0 \<Longrightarrow> 0 \<le> lsb_first w" "lsb_first 0 = - 1" "lsb_first w < 64"
  using lsb_first_first_bit [of w] first_bit_cases [OF lsb_first_first_bit [of w]] u64_nonzero_bit [of w]
  by (auto simp: lsb_first_def builtin_ffsll_def first_bit_def split: if_splits)

lemma bitmap_first_loop_last_bit:
  assumes "i \<le> length bm" and "64 * i \<le> 2 ^ 31"
  shows "\<exists>r. bitmap_first_loop bm i = Some r \<and> last_bit (bmbit bm) (64 * i) r"
  using assms
proof (induction i)
  case 0
  then show ?case by (simp add: last_bit_def)
next
  case (Suc i)
  then obtain r where r: "bitmap_first_loop bm i = Some r" "last_bit (bmbit bm) (64 * i) r" by auto
  have i: "i < length bm" "i < 2 ^ 64" using Suc.prems by simp_all
  have "last_bit (bmbit bm) (64 * i + 64) (if bit_first (bm ! i) \<ge> 0 then int i * 64 + bit_first (bm ! i) else r)"
    by (rule last_bit_block [OF i(1) order.refl last_bit_word(1) r(2)])
  moreover have "c_int (int i * 64 + bit_first w) = int i * 64 + bit_first w" if "w \<noteq> 0" for w
    using last_bit_word(2) [OF that] last_bit_word(4) [of w] Suc.prems by (intro c_int_id) auto
  ultimately show ?case
    using r(1) last_bit_word(2,3) by (auto simp: at_of_nat [OF i] algebra_simps)
qed

lemma bitmap_and_not_mask_first_loop_eq:
  assumes "i \<le> length bm" "i \<le> length msk" "i < 2 ^ 64"
  shows "bitmap_and_not_mask_first_loop bm msk i
    = bitmap_first_loop (map2 (\<lambda>w m. w AND NOT m) bm msk) i"
  using assms
  by (induction i) (simp_all add: at_of_nat)

lemma bitmap_lsb_loop_first_bit:
  assumes "lim < length bm" and "64 * Suc lim \<le> 2 ^ 31" and "i \<le> Suc lim"
  shows "\<exists>r. bitmap_lsb_loop bm lim i = Some r \<and> first_bit (bmbit bm) (64 * i) (64 * Suc lim) r"
  using assms
proof (induction "Suc lim - i" arbitrary: i)
  case 0
  then show ?case by (auto simp: bitmap_lsb_loop.simps first_bit_def)
next
  case (Suc d)
  then have i: "i \<le> lim" "i < length bm" "i < 2 ^ 64" by simp_all
  obtain s where s: "bitmap_lsb_loop bm lim (Suc i) = Some s" "first_bit (bmbit bm) (64 * Suc i) (64 * Suc lim) s"
  proof -
    have "d = Suc lim - Suc i" using Suc.hyps(2) by simp
    then show ?thesis using Suc.hyps(1) [of "Suc i"] Suc.prems i that by auto
  qed
  have "first_bit (bmbit bm) (64 * i + 0) (64 * Suc lim)
      (if lsb_first (bm ! i) \<ge> 0 then int i * 64 + lsb_first (bm ! i) else s)"
    by (rule first_bit_block [OF i(2) _ _ lsb_first_first_bit s(2)]) (use i in auto)
  moreover have "c_int (int i * 64 + lsb_first w) = int i * 64 + lsb_first w" if "w \<noteq> 0" for w
    using first_bit_word(1) [OF that] first_bit_word(3) [of w] Suc.prems i by (intro c_int_id) auto
  ultimately show ?case
    using s(1) first_bit_word(1,2) i by (subst bitmap_lsb_loop.simps) (auto simp: at_of_nat)
qed

lemma bitmap_first_eq:
  "nbits \<noteq> 0 \<Longrightarrow> bitmap_first bm nbits = bitmap_first_loop bm (Suc ((unat nbits - 1) div 64))"
  using unat_of_nat_64 [OF u32_index [of "nbits - 1"]] unat_minus_one [of nbits]
  by (simp add: bitmap_first_def bitmap_index_eq del: bitmap_first_loop.simps)

lemma words_bound: "n \<noteq> 0 \<Longrightarrow> n \<le> 2 ^ 31 \<Longrightarrow> 64 * Suc ((n - 1) div 64) \<le> (2 ^ 31 :: nat)"
  using div_le_mono [of "n - 1" "2 ^ 31 - 1" 64] by simp

lemma split_prev: "P \<noteq> 0 \<Longrightarrow> 64 * ((P - 1) div 64) + (if P mod 64 = 0 then 64 else P mod 64) = (P :: nat)"
proof -
  assume "P \<noteq> 0"
  then obtain p where p: "P = Suc p" using not0_implies_Suc by blast
  have d: "64 * (p div 64) + p mod 64 = p" by simp
  show ?thesis
  proof (cases "p mod 64 = 63")
    case True
    then have "Suc p mod 64 = 0" by (simp add: mod_Suc)
    then show ?thesis using d True unfolding p by simp
  next
    case False
    then have "Suc p mod 64 = Suc (p mod 64)" by (simp add: mod_Suc)
    then show ?thesis using d unfolding p by simp
  qed
qed

lemma bitmap_next_last_bit:
  assumes p: "prev \<noteq> 0" "unat prev \<le> 2 ^ 31" and l: "unat prev \<le> 64 * length bm"
  shows "\<exists>r. bitmap_next bm prev = Some r \<and> last_bit (bmbit bm) (unat prev) r"
proof -
  define P i m where "P = unat prev" and "i = (unat prev - 1) div 64"
    and "m = (if unat prev mod 64 = 0 then 64 else unat prev mod 64)"
  have P0: "P \<noteq> 0" using p(1) by (simp add: P_def unat_eq_zero)
  have i: "i < length bm" "i < 2 ^ 64" "64 * i \<le> 2 ^ 31" "m \<le> 64" "64 * i + m = P"
  proof -
    show "i < length bm" unfolding i_def using l P0 by (intro less_mult_imp_div_less) (simp add: P_def)
    have "64 * i \<le> P - 1" by (simp add: i_def P_def)
    then show "64 * i \<le> 2 ^ 31" "i < 2 ^ 64" using p(2) by (simp_all add: P_def)
    show "m \<le> 64" by (auto simp: m_def)
    show "64 * i + m = P" using split_prev [OF P0] unfolding i_def m_def P_def .
  qed
  have idx: "bitmap_index (prev - 1) = Some (of_nat i)"
    using unat_minus_one [OF p(1)] by (simp add: bitmap_index_eq i_def)
  obtain r where r: "uu_bit_next (bm ! i) (int (P mod 64)) = Some r" "last_bit (bit (bm ! i)) m r"
    using uu_bit_next_last_bit [of "int (P mod 64)" "bm ! i"] by (auto simp: m_def P_def min_def split: if_splits)
  obtain s where s: "bitmap_first_loop bm i = Some s" "last_bit (bmbit bm) (64 * i) s"
    using bitmap_first_loop_last_bit [of i bm] i by auto
  have blk: "last_bit (bmbit bm) P (if r \<ge> 0 then int i * 64 + r else s)"
    using last_bit_block [OF i(1,4) r(2) s(2)] i(5) by simp
  have "c_int (r + int i * 64) = int i * 64 + r" if "r \<ge> 0"
    using last_bit_cases [OF r(2)] that i p(2) by (subst c_int_id) (auto simp: P_def)
  moreover have "bitmap_next bm prev = (if r \<ge> 0 then Some (c_int (r + int i * 64)) else bitmap_first_loop bm i)"
    using p(1) r(1)
    by (simp add: bitmap_next_def idx bits_5_0 uint_bit_number P_def at_of_nat [OF i(1,2)]
      unat_of_nat_64 [OF i(2)] uint_of_nat_64 [OF i(2)])
  ultimately show ?thesis using s(1) blk by (auto simp: P_def [symmetric])
qed

lemma ucast_of_int: "ucast (of_int k :: u64) = (of_int k :: u32)"
  by (simp add: unsigned_of_int word_of_int_eq_iff)

lemma sint_pred_bit_number: "x < 64 \<Longrightarrow> sint (ucast (of_nat x - 1 :: u64) :: u32) = int x - 1"
proof -
  assume x: "x < 64"
  have "ucast (of_nat x - 1 :: u64) = (of_int (int x - 1) :: u32)"
    using ucast_of_int [of "int x - 1"] by simp
  moreover have "sint (of_int (int x - 1) :: u32) = int x - 1"
    by (subst signed_of_int) (use x in \<open>simp add: signed_take_bit_int_eq_self\<close>)
  ultimately show ?thesis by simp
qed

lemma bitmap_lsb_next_first_bit:
  assumes n: "prev + 1 < nbits" "unat nbits \<le> 2 ^ 31" and l: "unat nbits \<le> 64 * length bm"
  shows "\<exists>r. bitmap_lsb_next bm nbits prev = Some r \<and>
    first_bit (bmbit bm) (unat (prev + 1)) (64 * Suc ((unat nbits - 1) div 64)) r"
proof -
  define P i lim where "P = unat (prev + 1)" and "i = P div 64" and "lim = (unat nbits - 1) div 64"
  have nb: "nbits \<noteq> 0" "P < unat nbits" using n(1) by (auto simp: word_less_nat_alt P_def)
  have i: "i \<le> lim" "i < length bm" "i < 2 ^ 64" "lim < length bm" "64 * i + P mod 64 = P"
      "64 * Suc lim \<le> 2 ^ 31" "lim < 2 ^ 64"
  proof -
    have "i \<le> lim" "64 * lim \<le> unat nbits - 1" using nb by (simp_all add: i_def lim_def div_le_mono)
    moreover have "lim < length bm" unfolding lim_def using l nb by (intro less_mult_imp_div_less) simp
    moreover have "64 * Suc lim \<le> 2 ^ 31" unfolding lim_def using words_bound [OF _ n(2)] nb by simp
    ultimately show "i \<le> lim" "i < length bm" "i < 2 ^ 64" "lim < length bm" "64 * Suc lim \<le> 2 ^ 31" "lim < 2 ^ 64"
      by simp_all
    show "64 * i + P mod 64 = P" by (simp add: i_def)
  qed
  have idx: "bitmap_index (nbits - 1) = Some (of_nat lim)"
    using unat_minus_one [OF nb(1)] by (simp add: bitmap_index_eq lim_def)
  obtain r where r: "lsb_next (bm ! i) (int (P mod 64) - 1) = Some r" "first_bit (bit (bm ! i)) (P mod 64) 64 r"
    using lsb_next_first_bit [of "int (P mod 64) - 1" "bm ! i"] by auto
  obtain s where s: "bitmap_lsb_loop bm lim (Suc i) = Some s"
      "first_bit (bmbit bm) (64 * Suc i) (64 * Suc lim) s"
    using bitmap_lsb_loop_first_bit [of lim bm "Suc i"] i by auto
  have blk: "first_bit (bmbit bm) P (64 * Suc lim) (if r \<ge> 0 then int i * 64 + r else s)"
    using first_bit_block [OF i(2) _ _ r(2) s(2)] i by simp
  have "c_int (r + int i * 64) = int i * 64 + r" if "r \<ge> 0"
    using first_bit_cases [OF r(2)] that i by (subst c_int_id) auto
  then show ?thesis
    unfolding lim_def [symmetric] P_def [symmetric]
    using n(1) idx i r(1) s(1) blk
    by (auto simp: bitmap_lsb_next_def bitmap_index_eq [of "prev + 1"] at_of_nat bits_5_0 P_def [symmetric] i_def [symmetric]
      sint_pred_bit_number uint_nat unat_of_nat_64 Let_def not_le)
qed

subsection \<open>Powers of two\<close>

lemma bit_imp_le_unat: "bit (x :: u64) k \<Longrightarrow> 2 ^ k \<le> unat x"
proof -
  assume "bit x k"
  then have "bit (drop_bit k x) 0" by (simp add: bit_drop_bit_eq)
  then have "drop_bit k x \<noteq> 0" by auto
  then show ?thesis by (simp add: drop_bit_eq_0_iff not_less)
qed

lemma bit_first_bounds:
  assumes "x \<noteq> 0"
  shows "0 \<le> bit_first x" "bit_first x < 64" "2 ^ nat (bit_first x) \<le> unat x" "unat x < 2 ^ Suc (nat (bit_first x))"
proof -
  obtain k where k: "bit_first x = int k" "k < 64" "bit x k" "\<And>j. k < j \<Longrightarrow> j < 64 \<Longrightarrow> \<not> bit x j"
    using bit_first_last_bit [of x] last_bit_word(2) [OF assms] by (auto simp: last_bit_def)
  show "0 \<le> bit_first x" "bit_first x < 64" "2 ^ nat (bit_first x) \<le> unat x"
    using k bit_imp_le_unat by auto
  have "drop_bit (Suc k) x = 0"
  proof (rule bit_word_eqI)
    fix n
    have "\<not> bit x (Suc k + n)" using k(4) [of "Suc k + n"] bit_imp_le_length [of x "Suc k + n"] by auto
    then show "bit (drop_bit (Suc k) x) n = bit 0 n" by (simp add: bit_drop_bit_eq)
  qed
  then show "unat x < 2 ^ Suc (nat (bit_first x))" using k(1) by (simp add: drop_bit_eq_0_iff)
qed

lemma bit_ceiling_bounds:
  assumes "n \<noteq> 0"
  shows "0 \<le> bit_ceiling n" "unat n \<le> 2 ^ nat (bit_ceiling n)" "n \<noteq> 1 \<Longrightarrow> 2 ^ (nat (bit_ceiling n) - 1) < unat n"
proof -
  have u: "unat (n - 1) = unat n - 1" "unat n \<noteq> 0"
    using unat_minus_one [OF assms] assms by (simp_all add: unat_eq_zero)
  have "0 \<le> bit_ceiling n \<and> unat n \<le> 2 ^ nat (bit_ceiling n)
    \<and> (n \<noteq> 1 \<longrightarrow> 2 ^ (nat (bit_ceiling n) - 1) < unat n)"
  proof (cases "n = 1")
    case True
    then show ?thesis by (simp add: bit_ceiling_def bit_first_def)
  next
    case False
    then have "n - 1 \<noteq> 0" by simp
    note b = bit_first_bounds [OF this]
    have "nat (bit_ceiling n) = Suc (nat (bit_first (n - 1)))" "0 \<le> bit_ceiling n"
      using b(1) assms by (simp_all add: bit_ceiling_def nat_add_distrib)
    then show ?thesis using b(3,4) u by auto
  qed
  then show "0 \<le> bit_ceiling n" "unat n \<le> 2 ^ nat (bit_ceiling n)"
    "n \<noteq> 1 \<Longrightarrow> 2 ^ (nat (bit_ceiling n) - 1) < unat n" by auto
qed

lemma u32_and_63: "unat (n AND 63 :: u32) = unat n mod 64"
proof -
  have "(63 :: u32) = mask 6" by (simp add: mask_eq_decr_exp)
  then show ?thesis using unat_and_mask [of n 6] by simp
qed

lemma bit_rotate_eq:
  assumes "unat n mod 64 = m" "m \<noteq> 0"
  shows "bit_ror64 x n = Some (drop_bit m x OR push_bit (64 - m) x)"
    and "bit_rol64 x n = Some (push_bit m x OR drop_bit (64 - m) x)"
proof -
  have m: "m < 64" using assms(1) by auto
  have "unat (64 - (n AND 63)) = 64 - m"
    using m u32_and_63 [of n] assms(1) by (subst unat_sub_le) simp_all
  then show "bit_ror64 x n = Some (drop_bit m x OR push_bit (64 - m) x)"
    and "bit_rol64 x n = Some (push_bit m x OR drop_bit (64 - m) x)"
    using m assms u32_and_63 [of n]
    by (simp_all add: bit_ror64_def bit_rol64_def c_shl64_def c_shr64_def Let_def)
qed

lemma bit_rotated:
  assumes "m < 64" and "j < 64"
  shows "bit (drop_bit m (x :: u64) OR push_bit (64 - m) x) j = bit x (if j + m < 64 then j + m else j + m - 64)"
    and "bit (push_bit m (x :: u64) OR drop_bit (64 - m) x) j = bit x (if j < m then j + (64 - m) else j - m)"
  using assms bit_imp_le_length [of x "m + j"] bit_imp_le_length [of x "64 - m + j"]
  by (auto simp: bit_or_iff bit_drop_bit_eq bit_push_bit_iff add.commute)

lemma rotate_inverse:
  assumes m: "m < 64"
  shows "push_bit m (drop_bit m x OR push_bit (64 - m) x) OR drop_bit (64 - m) (drop_bit m x OR push_bit (64 - m) x) = (x :: u64)"
    and "drop_bit m (push_bit m x OR drop_bit (64 - m) x) OR push_bit (64 - m) (push_bit m x OR drop_bit (64 - m) x) = (x :: u64)"
proof -
  let ?r = "drop_bit m x OR push_bit (64 - m) x" and ?l = "push_bit m x OR drop_bit (64 - m) x"
  show "push_bit m ?r OR drop_bit (64 - m) ?r = x"
  proof (rule bit_word_eqI)
    fix j assume "j < LENGTH(64)"
    then have j: "j < 64" by simp
    show "bit (push_bit m ?r OR drop_bit (64 - m) ?r) j = bit x j"
      unfolding bit_rotated(2) [OF m j]
      using m j bit_rotated(1) [OF m, of "j + (64 - m)" x] bit_rotated(1) [OF m, of "j - m" x]
      by (cases "j < m") simp_all
  qed
  show "drop_bit m ?l OR push_bit (64 - m) ?l = x"
  proof (rule bit_word_eqI)
    fix j assume "j < LENGTH(64)"
    then have j: "j < 64" by simp
    show "bit (drop_bit m ?l OR push_bit (64 - m) ?l) j = bit x j"
      unfolding bit_rotated(1) [OF m j]
      using m j bit_rotated(2) [OF m, of "j + m" x] bit_rotated(2) [OF m, of "j + m - 64" x]
        less_diff_conv2 [of 64 "j + m" m]
      by (cases "j + m < 64") simp_all
  qed
qed

subsection \<open>Properties\<close>

text \<open>
  Bit_first, bit_next, lsb_first and lsb_next return the greatest bit, the greatest bit below
  the previous one, the least bit, and the least bit above the previous one, and -1 when there is
  no such bit.
\<close>

theorem word_searches:
  assumes "0 \<le> p" and "- 1 \<le> q"
  shows "last_bit (bit x) 64 (bit_first x) \<and> first_bit (bit x) 0 64 (lsb_first x)
    \<and> (\<exists>r. bit_next x p = Some r \<and> last_bit (bit x) (min 64 (nat p)) r)
    \<and> (\<exists>r. lsb_next x q = Some r \<and> first_bit (bit x) (nat (q + 1)) 64 r)"
  using bit_first_last_bit [of x] lsb_first_first_bit [of x] uu_bit_next_last_bit [OF assms(1), of x]
    lsb_next_first_bit [OF assms(2), of x]
  by (cases "p = 0") (auto simp: bit_next_def last_bit_def)

theorem word_searches_witness:
  "(\<exists>r. bit_next 0x92 4 = Some r \<and> last_bit (bit (0x92 :: u64)) 4 r)
   \<and> (\<exists>r. lsb_next 0x92 4 = Some r \<and> first_bit (bit (0x92 :: u64)) 5 64 r)"
  using word_searches [of 4 4 "0x92"] by simp

text \<open>
  Bitmap_test, bitmap_set, bitmap_clear and their atomic forms read, add and remove exactly the
  given bit number of the bitmap, at the right word and position; the atomic forms also return
  whether the bit was set before.
\<close>

theorem bitmap_set_clear_test:
  assumes "unat n < 64 * length bm"
  shows "bitmap_test bm n = Some (bmbit bm (unat n))
    \<and> (\<exists>bm'. bitmap_set bm n = Some bm' \<and> length bm' = length bm
        \<and> (\<forall>k. bmbit bm' k \<longleftrightarrow> k = unat n \<or> bmbit bm k)
        \<and> atomic_bitmap_set bm n = Some (bmbit bm (unat n), bm'))
    \<and> (\<exists>bm'. bitmap_clear bm n = Some bm' \<and> length bm' = length bm
        \<and> (\<forall>k. bmbit bm' k \<longleftrightarrow> k \<noteq> unat n \<and> bmbit bm k)
        \<and> atomic_bitmap_clear bm n = Some (bmbit bm (unat n), bm'))"
proof -
  have "bmbit bm (unat n) = bit (bm ! (unat n div 64)) (unat n mod 64)"
    using assms by (simp add: bmbit_def)
  then show ?thesis
    using bitmap_ops_eq [OF assms] bmbit_set_clear [OF assms] by simp
qed

theorem bitmap_set_clear_test_witness:
  "\<exists>bm'. bitmap_set [0, 5] 70 = Some bm' \<and> bmbit bm' 70 \<and> bmbit bm' 64 \<and> \<not> bmbit bm' 3"
proof -
  have "bmbit [0, 5] 64" "\<not> bmbit [0, 5] 3" by (simp_all add: bmbit_def)
  then show ?thesis using bitmap_set_clear_test [of 70 "[0, 5]"] by auto
qed

text \<open>
  C32: bitmap_first returns the greatest bit of the words that hold the first nbits bits, and
  bitmap_next the greatest bit below prev, or -1; so does bitmap_and_not_mask_first for the bits
  that are in the bitmap and not in the mask.
\<close>

theorem bitmap_searches_down:
  assumes "nbits \<noteq> 0" and "unat nbits \<le> 2 ^ 31" and "unat nbits \<le> 64 * length bm"
    and "length msk = length bm"
  shows "(\<exists>r. bitmap_first bm nbits = Some r
      \<and> last_bit (bmbit bm) (64 * Suc ((unat nbits - 1) div 64)) r)
    \<and> (\<exists>r. bitmap_and_not_mask_first bm msk nbits = Some r
      \<and> last_bit (\<lambda>k. bmbit bm k \<and> \<not> bmbit msk k) (64 * Suc ((unat nbits - 1) div 64)) r)
    \<and> (\<exists>r. bitmap_next bm nbits = Some r \<and> last_bit (bmbit bm) (unat nbits) r)"
proof -
  define i where "i = Suc ((unat nbits - 1) div 64)"
  have n0: "unat nbits \<noteq> 0" using assms(1) by (simp add: unat_eq_zero)
  have "(unat nbits - 1) div 64 < length bm" by (rule less_mult_imp_div_less) (use n0 assms in simp)
  then have i: "i \<le> length bm" "64 * i \<le> 2 ^ 31" "i < 2 ^ 64"
    using words_bound [OF n0 assms(2)] by (simp_all add: i_def)
  let ?d = "map2 (\<lambda>w m. w AND NOT m) bm msk"
  have b: "bmbit ?d = (\<lambda>k. bmbit bm k \<and> \<not> bmbit msk k)"
    using assms(4) by (auto simp: fun_eq_iff bmbit_def bit_simps less_mult_imp_div_less mult.commute)
  have f: "bitmap_and_not_mask_first bm msk nbits = bitmap_first_loop ?d i"
    using bitmap_and_not_mask_first_loop_eq [of i bm msk] i assms(4) unat_minus_one [OF assms(1)]
      unat_of_nat_64 [OF u32_index [of "nbits - 1"]]
    by (simp add: bitmap_and_not_mask_first_def bitmap_index_eq i_def
      del: bitmap_and_not_mask_first_loop.simps bitmap_first_loop.simps)
  show ?thesis
    unfolding i_def [symmetric] f bitmap_first_eq [OF assms(1)]
    using bitmap_first_loop_last_bit [of i bm] bitmap_first_loop_last_bit [of i ?d] i assms(4)
      bitmap_next_last_bit [OF assms(1-3)]
    by (simp add: b)
qed

theorem bitmap_searches_down_witness:
  "(\<exists>r. bitmap_first [6, 1] 100 = Some r \<and> last_bit (bmbit [6, 1]) 128 r)
   \<and> (\<exists>r. bitmap_next [6, 1] 100 = Some r \<and> last_bit (bmbit [6, 1]) 100 r)"
  using bitmap_searches_down [of 100 "[6, 1]" "[0, 0]"] by simp

text \<open>
  C33: bitmap_lsb_first returns the least bit of the words that hold the first nbits bits, and
  bitmap_lsb_next the least one of them from prev + 1 on (computed in 32 bits), or -1.
\<close>

theorem bitmap_searches_up:
  assumes "nbits \<noteq> 0" and "unat nbits \<le> 2 ^ 31" and "unat nbits \<le> 64 * length bm"
  shows "(\<exists>r. bitmap_lsb_first bm nbits = Some r
      \<and> first_bit (bmbit bm) 0 (64 * Suc ((unat nbits - 1) div 64)) r)
    \<and> (\<exists>r. bitmap_lsb_next bm nbits prev = Some r
      \<and> (if prev + 1 < nbits
         then first_bit (bmbit bm) (unat (prev + 1)) (64 * Suc ((unat nbits - 1) div 64)) r
         else r = - 1))"
proof
  define lim where "lim = (unat nbits - 1) div 64"
  have n0: "unat nbits \<noteq> 0" using assms(1) by (simp add: unat_eq_zero)
  have l: "lim < length bm" unfolding lim_def by (rule less_mult_imp_div_less) (use n0 assms in simp)
  have "bitmap_lsb_first bm nbits = bitmap_lsb_loop bm lim 0"
    using unat_minus_one [OF assms(1)] unat_of_nat_64 [OF u32_index [of "nbits - 1"]]
    by (simp add: bitmap_lsb_first_def bitmap_index_eq lim_def)
  then show "\<exists>r. bitmap_lsb_first bm nbits = Some r
      \<and> first_bit (bmbit bm) 0 (64 * Suc ((unat nbits - 1) div 64)) r"
    using bitmap_lsb_loop_first_bit [OF l, of 0] words_bound [OF n0 assms(2)] by (simp add: lim_def)
  show "\<exists>r. bitmap_lsb_next bm nbits prev = Some r
      \<and> (if prev + 1 < nbits
         then first_bit (bmbit bm) (unat (prev + 1)) (64 * Suc ((unat nbits - 1) div 64)) r
         else r = - 1)"
  proof (cases "prev + 1 < nbits")
    case True
    then show ?thesis using bitmap_lsb_next_first_bit [OF True assms(2,3)] by simp
  next
    case False
    then show ?thesis using linorder_not_less [of "prev + 1" nbits] by (simp add: bitmap_lsb_next_def)
  qed
qed

theorem bitmap_searches_up_witness:
  "\<exists>r. bitmap_lsb_next [6, 1] 100 2 = Some r \<and> first_bit (bmbit [6, 1]) 3 128 r"
  using bitmap_searches_up [of 100 "[6, 1]" 2] by simp

text \<open>
  For n other than 0, bit_floor is the exponent of the greatest power of two that is at most n
  and bit_ceiling the exponent of the least power of two that is at least n; bit_log2 of a power
  of two is its exponent.
\<close>

theorem floor_and_ceiling_exponents:
  assumes "n \<noteq> 0" and "k < 64"
  shows "0 \<le> bit_floor n \<and> 2 ^ nat (bit_floor n) \<le> unat n \<and> unat n < 2 ^ Suc (nat (bit_floor n))
    \<and> 0 \<le> bit_ceiling n \<and> unat n \<le> 2 ^ nat (bit_ceiling n)
    \<and> (n \<noteq> 1 \<longrightarrow> 2 ^ (nat (bit_ceiling n) - 1) < unat n)
    \<and> bit_log2 (push_bit k 1) = int k"
proof -
  have "last_bit (bit (push_bit k 1 :: u64)) 64 (int k)"
    using assms(2) by (auto simp: last_bit_def bit_simps)
  then have "bit_log2 (push_bit k 1) = int k"
    using last_bit_unique [OF bit_first_last_bit] by (simp add: bit_log2_def bit_floor_def)
  then show ?thesis
    using bit_first_bounds [OF assms(1)] bit_ceiling_bounds [OF assms(1)] by (simp add: bit_floor_def)
qed

theorem floor_and_ceiling_exponents_witness:
  "2 ^ nat (bit_floor 100) \<le> (100 :: nat) \<and> 100 \<le> (2 :: nat) ^ nat (bit_ceiling 100) \<and> bit_log2 64 = 6"
  using floor_and_ceiling_exponents [of 100 6] by (simp add: push_bit_eq_mult)

text \<open>
  For a count that is not a multiple of 64, bit_ror64 and bit_rol64 rotate the word and undo
  each other; for a multiple of 64 they shift by 64, which C leaves undefined.
\<close>

theorem rotations_rotate:
  "if unat n mod 64 = 0 then bit_ror64 x n = None \<and> bit_rol64 x n = None
   else \<exists>r l. bit_ror64 x n = Some r \<and> bit_rol64 x n = Some l
     \<and> (\<forall>j < 64. bit r j = bit x ((j + unat n) mod 64))
     \<and> bit_rol64 r n = Some x \<and> bit_ror64 l n = Some x"
proof (cases "unat n mod 64 = 0")
  case True
  then have "n AND 63 = 0" using u32_and_63 [of n] by (simp add: unat_eq_zero)
  then show ?thesis using True by (simp add: bit_ror64_def bit_rol64_def c_shl64_def c_shr64_def)
next
  case False
  define m where "m = unat n mod 64"
  have m: "unat n mod 64 = m" "m \<noteq> 0" "m < 64" using False by (auto simp: m_def)
  note eq = bit_rotate_eq [OF m(1,2)]
  have wrap: "(j + unat n) mod 64 = (if j + m < 64 then j + m else j + m - 64)" if "j < 64" for j
  proof -
    have "(j + unat n) mod 64 = (j + m) mod 64" unfolding m_def by (rule mod_add_right_eq [symmetric])
    then show ?thesis using that m(3) le_mod_geq [of 64 "j + m"] by (cases "j + m < 64") simp_all
  qed
  have rot: "bit (drop_bit m x OR push_bit (64 - m) x) j = bit x ((j + unat n) mod 64)" if "j < 64" for j
    using that wrap [OF that] bit_rotated(1) [OF m(3) that] by simp
  show ?thesis
    unfolding if_not_P [OF False]
  proof (intro exI conjI allI impI)
    show "bit_ror64 x n = Some (drop_bit m x OR push_bit (64 - m) x)"
      "bit_rol64 x n = Some (push_bit m x OR drop_bit (64 - m) x)" by (rule eq)+
    show "bit_rol64 (drop_bit m x OR push_bit (64 - m) x) n = Some x"
      unfolding eq rotate_inverse [OF m(3)] ..
    show "bit_ror64 (push_bit m x OR drop_bit (64 - m) x) n = Some x"
      unfolding eq rotate_inverse [OF m(3)] ..
  qed (rule rot)
qed

end
