(* ===== verification/CellMem.thy ===== *)
theory CellMem
  imports Prelude
begin

text \<open>
  The store for sys/queue.h, whose macros keep pointers to pointers: a map from the addresses of
  pointer-sized cells to their contents. The field of an element at \<open>elm\<close> is the cell \<open>elm + off\<close>,
  with its second pointer at \<open>elm + off + 8\<close>; a head has its first pointer at its own address and
  its second 8 bytes on. An access to a cell that is not allocated is a fault, \<open>None\<close>.

  \<open>nlist m off s xs\<close> says that the cell \<open>s\<close> starts a \<open>NULL\<close>-terminated list of the elements \<open>xs\<close>, and
  \<open>pseg m off s xs\<close> that the second pointer of each element is the address of the cell that points
  to the element, the first being \<open>s\<close>.
\<close>

type_synonym mem = "ptr \<rightharpoonup> ptr"

definition ld :: "ptr \<Rightarrow> mem \<Rightarrow> ptr option" where
  "ld a m = m a"

definition st :: "ptr \<Rightarrow> ptr \<Rightarrow> mem \<Rightarrow> mem option" where
  "st a v m = (if m a = None then None else Some (m(a \<mapsto> v)))"

named_theorems mem_access

lemma st_upd [mem_access]: "a \<in> dom m \<Longrightarrow> st a v m = Some (m(a \<mapsto> v))"
  by (auto simp: st_def)

lemma ld_upd [mem_access]: "ld a (m(b \<mapsto> v)) = (if a = b then Some v else ld a m)"
  by (simp add: ld_def)

lemma dom_upd_in [mem_access]: "a \<in> dom m \<Longrightarrow> dom (m(a \<mapsto> v)) = dom m"
  by auto

subsection \<open>Loops over the elements\<close>

text \<open>
  The FOREACH macros: \<open>nxt\<close> is the macro that steps from an element to the following one. The
  safe form reads the following element before the body runs.
\<close>

type_synonym 's mbody = "ptr \<Rightarrow> 's \<times> mem \<Rightarrow> ('s \<times> mem) option"

partial_function (option) foreach_loop ::
  "(ptr \<Rightarrow> mem \<Rightarrow> ptr option) \<Rightarrow> 's mbody \<Rightarrow> ptr \<Rightarrow> 's \<times> mem \<Rightarrow> ('s \<times> mem) option" where
  "foreach_loop nxt body var s =
     (if var = NULL then Some s
      else do { s \<leftarrow> body var s; n \<leftarrow> nxt var (snd s); foreach_loop nxt body n s })"

partial_function (option) foreach_safe_loop ::
  "(ptr \<Rightarrow> mem \<Rightarrow> ptr option) \<Rightarrow> 's mbody \<Rightarrow> ptr \<Rightarrow> 's \<times> mem \<Rightarrow> ('s \<times> mem) option" where
  "foreach_safe_loop nxt body var s =
     (if var = NULL then Some s
      else do { tvar \<leftarrow> nxt var (snd s); s \<leftarrow> body var s; foreach_safe_loop nxt body tvar s })"

lemma foreach_loop_pure:
  assumes "NULL \<notin> set vs" and "\<And>us x ws. vs = us @ x # ws \<Longrightarrow> nxt x m = Some (hd (ws @ [NULL]))"
    and "\<And>x s. x \<in> set vs \<Longrightarrow> body x (s, m) = Some (g x s, m)"
  shows "foreach_loop nxt body (hd (vs @ [NULL])) (s, m) = Some (fold g vs s, m)"
  using assms
proof (induction vs arbitrary: s)
  case Nil
  then show ?case by (simp add: foreach_loop.simps)
next
  case (Cons v vs)
  have "nxt v m = Some (hd (vs @ [NULL]))" using Cons.prems(2) [of "[]"] by simp
  moreover have "foreach_loop nxt body (hd (vs @ [NULL])) (g v s, m) = Some (fold g vs (g v s), m)"
    by (rule Cons.IH) (use Cons.prems in \<open>auto intro: Cons.prems(2) [of "v # _"]\<close>)
  ultimately show ?case using Cons.prems(1,3) by (subst foreach_loop.simps) simp
qed

subsection \<open>Linked cells\<close>

definition lslot :: "ptr \<Rightarrow> ptr \<Rightarrow> ptr list \<Rightarrow> ptr" where
  "lslot off s xs = last (s # map (\<lambda>x. x + off) xs)"

lemma lslot_simps [simp]:
  "lslot off s [] = s" "lslot off s (x # xs) = lslot off (x + off) xs"
  "lslot off s (xs @ [x]) = x + off"
  by (simp_all add: lslot_def)

lemma lslot_append: "lslot off s (xs @ ys) = lslot off (lslot off s xs) ys"
  by (induction xs arbitrary: s) simp_all

lemma lslot_nonempty: "xs \<noteq> [] \<Longrightarrow> lslot off s xs = last xs + off"
  by (simp add: lslot_def last_map)

lemma lslot_in: "lslot off s xs \<in> set (s # map (\<lambda>x. x + off) xs)"
  unfolding lslot_def by (rule last_in_set) simp

fun nseg :: "mem \<Rightarrow> ptr \<Rightarrow> ptr \<Rightarrow> ptr list \<Rightarrow> bool" where
  "nseg m off s [] = True"
| "nseg m off s (x # xs) = (m s = Some x \<and> x \<noteq> NULL \<and> nseg m off (x + off) xs)"

fun nlist :: "mem \<Rightarrow> ptr \<Rightarrow> ptr \<Rightarrow> ptr list \<Rightarrow> bool" where
  "nlist m off s [] = (m s = Some NULL)"
| "nlist m off s (x # xs) = (m s = Some x \<and> x \<noteq> NULL \<and> nlist m off (x + off) xs)"

fun pseg :: "mem \<Rightarrow> ptr \<Rightarrow> ptr \<Rightarrow> ptr list \<Rightarrow> bool" where
  "pseg m off s [] = True"
| "pseg m off s (x # xs) = (m (x + off + 8) = Some s \<and> pseg m off (x + off) xs)"

lemma nlist_append: "nlist m off s (xs @ ys) \<longleftrightarrow> nseg m off s xs \<and> nlist m off (lslot off s xs) ys"
  by (induction xs arbitrary: s) auto

lemma pseg_append: "pseg m off s (xs @ ys) \<longleftrightarrow> pseg m off s xs \<and> pseg m off (lslot off s xs) ys"
  by (induction xs arbitrary: s) auto

lemma nlist_first: "nlist m off s xs \<Longrightarrow> m s = Some (hd (xs @ [NULL]))"
  by (cases xs) auto

lemma nlist_nonnull: "nlist m off s xs \<Longrightarrow> NULL \<notin> set xs"
  by (induction xs arbitrary: s) auto

lemma nlist_cells: "nlist m off s xs \<Longrightarrow> set (s # map (\<lambda>x. x + off) xs) \<subseteq> dom m"
  by (induction xs arbitrary: s) auto

lemma pseg_cells: "pseg m off s xs \<Longrightarrow> (\<lambda>x. x + off + 8) ` set xs \<subseteq> dom m"
  by (induction xs arbitrary: s) auto

lemma nlist_next: "nlist m off s (us @ x # ws) \<Longrightarrow> m (x + off) = Some (hd (ws @ [NULL]))"
  by (auto simp: nlist_append dest: nlist_first)

lemma pseg_prev: "pseg m off s (us @ x # ws) \<Longrightarrow> m (x + off + 8) = Some (lslot off s us)"
  by (simp add: pseg_append)

lemma nlist_frame:
  "nlist m off s xs \<Longrightarrow> (\<And>a. a \<in> set (s # map (\<lambda>x. x + off) xs) \<Longrightarrow> m' a = m a) \<Longrightarrow> nlist m' off s xs"
  by (induction xs arbitrary: s) auto

lemma nseg_frame:
  "nseg m off s xs \<Longrightarrow> (\<And>a. a \<in> set (butlast (s # map (\<lambda>x. x + off) xs)) \<Longrightarrow> m' a = m a) \<Longrightarrow> nseg m' off s xs"
proof (induction xs arbitrary: s)
  case (Cons x xs)
  then show ?case by (auto intro!: Cons.IH)
qed simp

lemma pseg_frame:
  "pseg m off s xs \<Longrightarrow> (\<And>x. x \<in> set xs \<Longrightarrow> m' (x + off + 8) = m (x + off + 8)) \<Longrightarrow> pseg m' off s xs"
  by (induction xs arbitrary: s) auto

text \<open>Inserting an element at a cell of the list, and taking one out.\<close>

lemma nlist_insert:
  assumes l: "nlist m off s (xs @ ys)" and d: "distinct (s # map (\<lambda>x. x + off) (xs @ ys))"
    and e: "e \<noteq> NULL" "e + off \<notin> set (s # map (\<lambda>x. x + off) (xs @ ys))" and t: "t = lslot off s xs"
    and m': "m' t = Some e" "m' (e + off) = Some (hd (ys @ [NULL]))"
      "\<And>a. a \<in> set (s # map (\<lambda>x. x + off) (xs @ ys)) \<Longrightarrow> a \<noteq> t \<Longrightarrow> m' a = m a"
  shows "nlist m' off s (xs @ e # ys)"
proof -
  have dx: "distinct (s # map (\<lambda>x. x + off) xs)" using d by auto
  have "nseg m' off s xs"
  proof (rule nseg_frame [of m])
    show "nseg m off s xs" using l by (simp add: nlist_append)
    fix a assume a: "a \<in> set (butlast (s # map (\<lambda>x. x + off) xs))"
    then have "a \<noteq> t" using last_notin_butlast [OF dx a] by (simp only: t lslot_def not_False_eq_True)
    then show "m' a = m a" using in_set_butlastD [OF a] by (intro m'(3)) auto
  qed
  moreover have "nlist m' off (e + off) ys"
  proof (cases ys)
    case Nil
    then show ?thesis using m'(2) by simp
  next
    case (Cons y zs)
    have "nlist m off (y + off) zs" "y \<noteq> NULL" using l by (simp_all add: nlist_append Cons)
    moreover have "m' a = m a" if "a \<in> set ((y + off) # map (\<lambda>x. x + off) zs)" for a
    proof (rule m'(3))
      show "a \<noteq> t" using that d lslot_in [of off s xs] by (auto simp: t Cons)
    qed (use that Cons in auto)
    ultimately show ?thesis using m'(2) Cons nlist_frame [of m off "y + off" zs m'] by simp
  qed
  ultimately show ?thesis using m'(1) e(1) by (simp add: nlist_append t)
qed

lemma nlist_remove:
  assumes l: "nlist m off s (xs @ e # ys)" and d: "distinct (s # map (\<lambda>x. x + off) (xs @ e # ys))"
    and t: "t = lslot off s xs"
    and m': "m' t = Some (hd (ys @ [NULL]))"
      "\<And>a. a \<in> set (s # map (\<lambda>x. x + off) (xs @ ys)) \<Longrightarrow> a \<noteq> t \<Longrightarrow> m' a = m a"
  shows "nlist m' off s (xs @ ys)"
proof -
  have dx: "distinct (s # map (\<lambda>x. x + off) xs)" using d by auto
  have "nseg m' off s xs"
  proof (rule nseg_frame [of m])
    show "nseg m off s xs" using l by (simp add: nlist_append)
    fix a assume a: "a \<in> set (butlast (s # map (\<lambda>x. x + off) xs))"
    then have "a \<noteq> t" using last_notin_butlast [OF dx a] by (simp only: t lslot_def not_False_eq_True)
    then show "m' a = m a" using in_set_butlastD [OF a] by (intro m'(2)) auto
  qed
  moreover have "nlist m' off t ys"
  proof (cases ys)
    case Nil
    then show ?thesis using m'(1) by simp
  next
    case (Cons y zs)
    have "nlist m off (y + off) zs" "y \<noteq> NULL" using l by (simp_all add: nlist_append Cons)
    moreover have "m' a = m a" if "a \<in> set ((y + off) # map (\<lambda>x. x + off) zs)" for a
    proof (rule m'(2))
      show "a \<noteq> t" using that d lslot_in [of off s xs] by (auto simp: t Cons)
    qed (use that Cons in auto)
    ultimately show ?thesis using m'(1) Cons nlist_frame [of m off "y + off" zs m'] by simp
  qed
  ultimately show ?thesis by (simp add: nlist_append t)
qed

text \<open>\<open>cells_kept A m m'\<close>: no cell outside \<open>A\<close> differs, and none is allocated or freed.\<close>

definition cells_kept :: "ptr set \<Rightarrow> mem \<Rightarrow> mem \<Rightarrow> bool" where
  "cells_kept A m m' \<longleftrightarrow> dom m' = dom m \<and> (\<forall>a. a \<notin> A \<longrightarrow> m' a = m a)"

lemma hd_null_iff: "NULL \<notin> set ys \<Longrightarrow> hd (ys @ [NULL]) = NULL \<longleftrightarrow> ys = []"
  by (cases ys) auto

end
