(* ===== verification/SysSQueue.thy ===== *)
theory SysSQueue
  imports CellMem DequeSpec
begin

text \<open>
  sys/queue.h, the singly linked structures: SLIST (head of one pointer) and STAILQ (head of a
  first pointer and the address of the last next pointer). Every macro is a definition here,
  statement by statement, on the cells of \<open>CellMem\<close>; \<open>off\<close> is the offset of the macro's \<open>field\<close> in
  its type. The tracing and trashing macros are empty without \<open>QUEUE_MACRO_DEBUG\<close>.
\<close>

subsection \<open>SLIST\<close>

definition SLIST_FIRST :: "ptr \<Rightarrow> mem \<Rightarrow> ptr option" where
  "SLIST_FIRST head m = ld head m"

definition SLIST_NEXT :: "ptr \<Rightarrow> ptr \<Rightarrow> mem \<Rightarrow> ptr option" where
  "SLIST_NEXT off elm m = ld (elm + off) m"

definition SLIST_EMPTY :: "ptr \<Rightarrow> mem \<Rightarrow> bool option" where
  "SLIST_EMPTY head m = map_option (\<lambda>x. x = NULL) (ld head m)"

definition SLIST_INIT :: "ptr \<Rightarrow> mem \<Rightarrow> mem option" where
  "SLIST_INIT head m = st head NULL m"

definition SLIST_FOREACH :: "'s mbody \<Rightarrow> ptr \<Rightarrow> ptr \<Rightarrow> 's \<times> mem \<Rightarrow> ('s \<times> mem) option" where
  "SLIST_FOREACH body head off s = do {
     var \<leftarrow> SLIST_FIRST head (snd s);
     foreach_loop (SLIST_NEXT off) body var s }"

definition SLIST_FOREACH_SAFE :: "'s mbody \<Rightarrow> ptr \<Rightarrow> ptr \<Rightarrow> 's \<times> mem \<Rightarrow> ('s \<times> mem) option" where
  "SLIST_FOREACH_SAFE body head off s = do {
     var \<leftarrow> SLIST_FIRST head (snd s);
     foreach_safe_loop (SLIST_NEXT off) body var s }"

text \<open>The body also gets the address of the pointer to the current element.\<close>

partial_function (option) SLIST_FOREACH_PREVPTR ::
  "(ptr \<Rightarrow> 's mbody) \<Rightarrow> ptr \<Rightarrow> ptr \<Rightarrow> 's \<times> mem \<Rightarrow> ('s \<times> mem) option" where
  "SLIST_FOREACH_PREVPTR body varp off s = do {
     var \<leftarrow> ld varp (snd s);
     if var \<noteq> NULL then do { s \<leftarrow> body varp var s; SLIST_FOREACH_PREVPTR body (var + off) off s }
     else Some s }"

definition SLIST_INSERT_AFTER :: "ptr \<Rightarrow> ptr \<Rightarrow> ptr \<Rightarrow> mem \<Rightarrow> mem option" where
  "SLIST_INSERT_AFTER slistelm elm off m = do {
     n \<leftarrow> SLIST_NEXT off slistelm m;
     m \<leftarrow> st (elm + off) n m;
     st (slistelm + off) elm m }"

definition SLIST_INSERT_HEAD :: "ptr \<Rightarrow> ptr \<Rightarrow> ptr \<Rightarrow> mem \<Rightarrow> mem option" where
  "SLIST_INSERT_HEAD head elm off m = do {
     f \<leftarrow> SLIST_FIRST head m;
     m \<leftarrow> st (elm + off) f m;
     st head elm m }"

definition SLIST_REMOVE_AFTER :: "ptr \<Rightarrow> ptr \<Rightarrow> mem \<Rightarrow> mem option" where
  "SLIST_REMOVE_AFTER elm off m = do {
     n \<leftarrow> SLIST_NEXT off elm m;
     n \<leftarrow> SLIST_NEXT off n m;
     st (elm + off) n m }"

definition SLIST_REMOVE_HEAD :: "ptr \<Rightarrow> ptr \<Rightarrow> mem \<Rightarrow> mem option" where
  "SLIST_REMOVE_HEAD head off m = do {
     f \<leftarrow> SLIST_FIRST head m;
     n \<leftarrow> SLIST_NEXT off f m;
     st head n m }"

partial_function (option) SLIST_find :: "ptr \<Rightarrow> ptr \<Rightarrow> mem \<Rightarrow> ptr \<Rightarrow> ptr option" where
  "SLIST_find elm off m curelm = do {
     n \<leftarrow> SLIST_NEXT off curelm m;
     if n \<noteq> elm then SLIST_find elm off m n else Some curelm }"

definition SLIST_REMOVE :: "ptr \<Rightarrow> ptr \<Rightarrow> ptr \<Rightarrow> mem \<Rightarrow> mem option" where
  "SLIST_REMOVE head elm off m = do {
     f \<leftarrow> SLIST_FIRST head m;
     if f = elm then SLIST_REMOVE_HEAD head off m
     else do { curelm \<leftarrow> SLIST_find elm off m f; SLIST_REMOVE_AFTER curelm off m } }"

subsection \<open>STAILQ\<close>

definition STAILQ_FIRST :: "ptr \<Rightarrow> mem \<Rightarrow> ptr option" where
  "STAILQ_FIRST head m = ld head m"

definition STAILQ_NEXT :: "ptr \<Rightarrow> ptr \<Rightarrow> mem \<Rightarrow> ptr option" where
  "STAILQ_NEXT off elm m = ld (elm + off) m"

definition STAILQ_EMPTY :: "ptr \<Rightarrow> mem \<Rightarrow> bool option" where
  "STAILQ_EMPTY head m = map_option (\<lambda>x. x = NULL) (ld head m)"

definition STAILQ_INIT :: "ptr \<Rightarrow> mem \<Rightarrow> mem option" where
  "STAILQ_INIT head m = do { m \<leftarrow> st head NULL m; st (head + 8) head m }"

definition STAILQ_CONCAT :: "ptr \<Rightarrow> ptr \<Rightarrow> mem \<Rightarrow> mem option" where
  "STAILQ_CONCAT head1 head2 m = do {
     e \<leftarrow> STAILQ_EMPTY head2 m;
     if \<not> e then do {
       l \<leftarrow> ld (head1 + 8) m;
       f \<leftarrow> ld head2 m;
       m \<leftarrow> st l f m;
       l2 \<leftarrow> ld (head2 + 8) m;
       m \<leftarrow> st (head1 + 8) l2 m;
       STAILQ_INIT head2 m }
     else Some m }"

definition STAILQ_FOREACH :: "'s mbody \<Rightarrow> ptr \<Rightarrow> ptr \<Rightarrow> 's \<times> mem \<Rightarrow> ('s \<times> mem) option" where
  "STAILQ_FOREACH body head off s = do {
     var \<leftarrow> STAILQ_FIRST head (snd s);
     foreach_loop (STAILQ_NEXT off) body var s }"

definition STAILQ_FOREACH_SAFE :: "'s mbody \<Rightarrow> ptr \<Rightarrow> ptr \<Rightarrow> 's \<times> mem \<Rightarrow> ('s \<times> mem) option" where
  "STAILQ_FOREACH_SAFE body head off s = do {
     var \<leftarrow> STAILQ_FIRST head (snd s);
     foreach_safe_loop (STAILQ_NEXT off) body var s }"

definition STAILQ_INSERT_AFTER :: "ptr \<Rightarrow> ptr \<Rightarrow> ptr \<Rightarrow> ptr \<Rightarrow> mem \<Rightarrow> mem option" where
  "STAILQ_INSERT_AFTER head tqelm elm off m = do {
     n \<leftarrow> STAILQ_NEXT off tqelm m;
     m \<leftarrow> st (elm + off) n m;
     m \<leftarrow> (if n = NULL then st (head + 8) (elm + off) m else Some m);
     st (tqelm + off) elm m }"

definition STAILQ_INSERT_HEAD :: "ptr \<Rightarrow> ptr \<Rightarrow> ptr \<Rightarrow> mem \<Rightarrow> mem option" where
  "STAILQ_INSERT_HEAD head elm off m = do {
     f \<leftarrow> STAILQ_FIRST head m;
     m \<leftarrow> st (elm + off) f m;
     m \<leftarrow> (if f = NULL then st (head + 8) (elm + off) m else Some m);
     st head elm m }"

definition STAILQ_INSERT_TAIL :: "ptr \<Rightarrow> ptr \<Rightarrow> ptr \<Rightarrow> mem \<Rightarrow> mem option" where
  "STAILQ_INSERT_TAIL head elm off m = do {
     m \<leftarrow> st (elm + off) NULL m;
     l \<leftarrow> ld (head + 8) m;
     m \<leftarrow> st l elm m;
     st (head + 8) (elm + off) m }"

definition STAILQ_LAST :: "ptr \<Rightarrow> ptr \<Rightarrow> mem \<Rightarrow> ptr option" where
  "STAILQ_LAST head off m = do {
     e \<leftarrow> STAILQ_EMPTY head m;
     if e then Some NULL else do { l \<leftarrow> ld (head + 8) m; Some (l - off) } }"

definition STAILQ_REMOVE_HEAD :: "ptr \<Rightarrow> ptr \<Rightarrow> mem \<Rightarrow> mem option" where
  "STAILQ_REMOVE_HEAD head off m = do {
     f \<leftarrow> STAILQ_FIRST head m;
     n \<leftarrow> STAILQ_NEXT off f m;
     m \<leftarrow> st head n m;
     if n = NULL then st (head + 8) head m else Some m }"

definition STAILQ_REMOVE_HEAD_UNTIL :: "ptr \<Rightarrow> ptr \<Rightarrow> ptr \<Rightarrow> mem \<Rightarrow> mem option" where
  "STAILQ_REMOVE_HEAD_UNTIL head elm off m = do {
     n \<leftarrow> STAILQ_NEXT off elm m;
     m \<leftarrow> st head n m;
     if n = NULL then st (head + 8) head m else Some m }"

definition STAILQ_REMOVE_AFTER :: "ptr \<Rightarrow> ptr \<Rightarrow> ptr \<Rightarrow> mem \<Rightarrow> mem option" where
  "STAILQ_REMOVE_AFTER head elm off m = do {
     n \<leftarrow> STAILQ_NEXT off elm m;
     n \<leftarrow> STAILQ_NEXT off n m;
     m \<leftarrow> st (elm + off) n m;
     if n = NULL then st (head + 8) (elm + off) m else Some m }"

partial_function (option) STAILQ_find :: "ptr \<Rightarrow> ptr \<Rightarrow> mem \<Rightarrow> ptr \<Rightarrow> ptr option" where
  "STAILQ_find elm off m curelm = do {
     n \<leftarrow> STAILQ_NEXT off curelm m;
     if n \<noteq> elm then STAILQ_find elm off m n else Some curelm }"

definition STAILQ_REMOVE :: "ptr \<Rightarrow> ptr \<Rightarrow> ptr \<Rightarrow> mem \<Rightarrow> mem option" where
  "STAILQ_REMOVE head elm off m = do {
     f \<leftarrow> STAILQ_FIRST head m;
     if f = elm then STAILQ_REMOVE_HEAD head off m
     else do { curelm \<leftarrow> STAILQ_find elm off m f; STAILQ_REMOVE_AFTER head curelm off m } }"

definition STAILQ_SWAP :: "ptr \<Rightarrow> ptr \<Rightarrow> mem \<Rightarrow> mem option" where
  "STAILQ_SWAP head1 head2 m = do {
     swap_first \<leftarrow> STAILQ_FIRST head1 m;
     swap_last \<leftarrow> ld (head1 + 8) m;
     f2 \<leftarrow> STAILQ_FIRST head2 m;
     m \<leftarrow> st head1 f2 m;
     l2 \<leftarrow> ld (head2 + 8) m;
     m \<leftarrow> st (head1 + 8) l2 m;
     m \<leftarrow> st head2 swap_first m;
     m \<leftarrow> st (head2 + 8) swap_last m;
     e1 \<leftarrow> STAILQ_EMPTY head1 m;
     m \<leftarrow> (if e1 then st (head1 + 8) head1 m else Some m);
     e2 \<leftarrow> STAILQ_EMPTY head2 m;
     if e2 then st (head2 + 8) head2 m else Some m }"

subsection \<open>Well-formed lists\<close>

definition slist :: "ptr \<Rightarrow> mem \<Rightarrow> ptr \<Rightarrow> ptr list \<Rightarrow> bool" where
  "slist off m h xs \<longleftrightarrow> nlist m off h xs \<and> distinct (h # map (\<lambda>x. x + off) xs)"

definition stailq :: "ptr \<Rightarrow> mem \<Rightarrow> ptr \<Rightarrow> ptr list \<Rightarrow> bool" where
  "stailq off m h xs \<longleftrightarrow> slist off m h xs \<and> m (h + 8) = Some (lslot off h xs)
     \<and> h + 8 \<notin> set (h # map (\<lambda>x. x + off) xs)"

text \<open>The cells of a list.\<close>

definition slist_cells :: "ptr \<Rightarrow> ptr \<Rightarrow> ptr list \<Rightarrow> ptr set" where
  "slist_cells off h xs = set (h # map (\<lambda>x. x + off) xs)"

text \<open>
  Every insertion writes the cell of the element and the cell before it, every removal the cell
  before the element.
\<close>

lemma slist_insert:
  assumes s: "slist off m h (xs @ ys)" and e: "e \<noteq> NULL" "e + off \<notin> slist_cells off h (xs @ ys)"
    and t: "t = lslot off h xs" and m': "m' = m(e + off \<mapsto> hd (ys @ [NULL]), t \<mapsto> e)"
  shows "slist off m' h (xs @ e # ys)"
proof -
  have "t \<in> slist_cells off h (xs @ ys)" using lslot_in [of off h xs] by (auto simp: t slist_cells_def)
  then have te: "t \<noteq> e + off" using e(2) by auto
  have "nlist m' off h (xs @ e # ys)"
    by (rule nlist_insert [where m = m])
      (use s e te in \<open>auto simp: slist_def slist_cells_def t m'\<close>)
  then show ?thesis using s e by (auto simp: slist_def slist_cells_def)
qed

lemma slist_remove:
  assumes s: "slist off m h (xs @ e # ys)" and t: "t = lslot off h xs"
    and m': "m' = m(t \<mapsto> hd (ys @ [NULL]))"
  shows "slist off m' h (xs @ ys)"
proof -
  have "nlist m' off h (xs @ ys)"
    by (rule nlist_remove [where m = m and e = e]) (use s in \<open>auto simp: slist_def t m'\<close>)
  then show ?thesis using s by (auto simp: slist_def)
qed

lemma slist_dom: "slist off m h xs \<Longrightarrow> slist_cells off h xs \<subseteq> dom m"
  unfolding slist_def slist_cells_def using nlist_cells by blast

lemma slist_frame:
  "slist off m h xs \<Longrightarrow> (\<And>a. a \<in> slist_cells off h xs \<Longrightarrow> m' a = m a) \<Longrightarrow> slist off m' h xs"
  unfolding slist_def slist_cells_def using nlist_frame by blast

lemma slist_first: "slist off m h xs \<Longrightarrow> m h = Some (hd (xs @ [NULL]))"
  by (auto simp: slist_def dest: nlist_first)

lemma slist_next: "slist off m h (us @ x # ws) \<Longrightarrow> m (x + off) = Some (hd (ws @ [NULL]))"
  by (auto simp: slist_def dest: nlist_next)

lemma SLIST_find_ok:
  assumes "slist off m h (us @ x # vs @ e # ws)"
  shows "SLIST_find e off m x = Some (last (x # vs))"
  using assms
proof (induction vs arbitrary: us x)
  case Nil
  then show ?case using slist_next [of off m h us x "e # ws"]
    by (subst SLIST_find.simps) (simp add: SLIST_NEXT_def ld_def)
next
  case (Cons v vs)
  have "distinct (us @ x # v # vs @ e # ws)" using Cons.prems by (auto simp: slist_def distinct_map)
  then have "v \<noteq> e" by auto
  then show ?case
    using slist_next [of off m h us x "v # vs @ e # ws"] Cons.prems Cons.IH [of "us @ [x]" v]
    by (subst SLIST_find.simps) (simp add: SLIST_NEXT_def ld_def)
qed

lemma SLIST_REMOVE_HEAD_ok:
  assumes "slist off m h (x # xs)"
  shows "\<exists>m'. SLIST_REMOVE_HEAD h off m = Some m' \<and> slist off m' h xs
    \<and> cells_kept (slist_cells off h (x # xs)) m m'"
proof -
  define m' where "m' = m(h \<mapsto> hd (xs @ [NULL]))"
  have h: "h \<in> dom m" using slist_dom [OF assms] by (auto simp: slist_cells_def)
  have "SLIST_REMOVE_HEAD h off m = Some m'"
    using slist_first [OF assms] slist_next [of off m h "[]" x xs] assms h
    by (simp add: SLIST_REMOVE_HEAD_def SLIST_FIRST_def SLIST_NEXT_def ld_def mem_access m'_def)
  moreover have "slist off m' h xs"
    using slist_remove [of off m h "[]" x xs h m'] assms by (simp add: m'_def)
  moreover have "cells_kept (slist_cells off h (x # xs)) m m'"
    using h by (auto simp: cells_kept_def m'_def slist_cells_def)
  ultimately show ?thesis by blast
qed

lemma SLIST_REMOVE_AFTER_ok:
  assumes s: "slist off m h (xs @ [p] @ e # ys)"
  shows "\<exists>m'. SLIST_REMOVE_AFTER p off m = Some m' \<and> slist off m' h (xs @ [p] @ ys)
    \<and> cells_kept (slist_cells off h (xs @ [p] @ e # ys)) m m'"
proof -
  define m' where "m' = m(p + off \<mapsto> hd (ys @ [NULL]))"
  have d: "p + off \<in> dom m" using slist_dom [OF s] by (auto simp: slist_cells_def)
  have "SLIST_REMOVE_AFTER p off m = Some m'"
    using slist_next [of off m h xs p "e # ys"] slist_next [of off m h "xs @ [p]" e ys] s d
    by (simp add: SLIST_REMOVE_AFTER_def SLIST_NEXT_def ld_def mem_access m'_def)
  moreover have "slist off m' h (xs @ [p] @ ys)"
    using slist_remove [of off m h "xs @ [p]" e ys "p + off" m'] s by (simp add: m'_def)
  moreover have "cells_kept (slist_cells off h (xs @ [p] @ e # ys)) m m'"
    using d by (auto simp: cells_kept_def m'_def slist_cells_def)
  ultimately show ?thesis by blast
qed

lemma SLIST_REMOVE_ok:
  assumes s: "slist off m h (xs @ e # ys)"
  shows "\<exists>m'. SLIST_REMOVE h e off m = Some m' \<and> slist off m' h (xs @ ys)
    \<and> cells_kept (slist_cells off h (xs @ e # ys)) m m'"
proof (cases xs)
  case Nil
  then show ?thesis using slist_first [OF s] SLIST_REMOVE_HEAD_ok [of off m h e ys] s
    by (simp add: SLIST_REMOVE_def SLIST_FIRST_def ld_def)
next
  case (Cons x vs)
  have "distinct (xs @ e # ys)" using s by (auto simp: slist_def distinct_map)
  then have xe: "x \<noteq> e" using Cons by auto
  define zs p where "zs = butlast xs" and "p = last xs"
  have xs: "xs = zs @ [p]" using Cons by (simp add: zs_def p_def)
  have "SLIST_find e off m x = Some p"
    using SLIST_find_ok [of off m h "[]" x vs e ys] s Cons by (simp add: p_def)
  then have "SLIST_REMOVE h e off m = SLIST_REMOVE_AFTER p off m"
    using slist_first [OF s] xe Cons by (simp add: SLIST_REMOVE_def SLIST_FIRST_def ld_def)
  then show ?thesis using SLIST_REMOVE_AFTER_ok [of off m h zs p e ys] s by (simp add: xs)
qed

lemma SLIST_INSERT_HEAD_ok:
  assumes s: "slist off m h xs" and e: "e \<noteq> NULL" "e + off \<notin> slist_cells off h xs" "e + off \<in> dom m"
  shows "\<exists>m'. SLIST_INSERT_HEAD h e off m = Some m' \<and> slist off m' h (e # xs)
    \<and> cells_kept (slist_cells off h (e # xs)) m m'"
proof -
  define m' where "m' = m(e + off \<mapsto> hd (xs @ [NULL]), h \<mapsto> e)"
  have h: "h \<in> dom m" using slist_dom [OF s] by (auto simp: slist_cells_def)
  have "SLIST_INSERT_HEAD h e off m = Some m'"
    using slist_first [OF s] h e
    by (simp add: SLIST_INSERT_HEAD_def SLIST_FIRST_def ld_def mem_access m'_def insert_absorb)
  moreover have "slist off m' h (e # xs)"
    using slist_insert [of off m h "[]" xs e h m'] s e by (simp add: m'_def)
  moreover have "cells_kept (slist_cells off h (e # xs)) m m'"
    using h e by (auto simp: cells_kept_def m'_def slist_cells_def)
  ultimately show ?thesis by blast
qed

lemma SLIST_INSERT_AFTER_ok:
  assumes s: "slist off m h (xs @ [p] @ ys)" and e: "e \<noteq> NULL" "e + off \<notin> slist_cells off h (xs @ [p] @ ys)"
      "e + off \<in> dom m"
  shows "\<exists>m'. SLIST_INSERT_AFTER p e off m = Some m' \<and> slist off m' h (xs @ [p] @ e # ys)
    \<and> cells_kept (slist_cells off h (xs @ [p] @ e # ys)) m m'"
proof -
  define m' where "m' = m(e + off \<mapsto> hd (ys @ [NULL]), p + off \<mapsto> e)"
  have d: "p + off \<in> dom m" using slist_dom [OF s] by (auto simp: slist_cells_def)
  have "SLIST_INSERT_AFTER p e off m = Some m'"
    using slist_next [of off m h xs p ys] s d e
    by (simp add: SLIST_INSERT_AFTER_def SLIST_NEXT_def ld_def mem_access m'_def insert_absorb)
  moreover have "slist off m' h (xs @ [p] @ e # ys)"
    using slist_insert [of off m h "xs @ [p]" ys e "p + off" m'] s e by (simp add: m'_def)
  moreover have "cells_kept (slist_cells off h (xs @ [p] @ e # ys)) m m'"
    using d e by (auto simp: cells_kept_def m'_def slist_cells_def)
  ultimately show ?thesis by blast
qed

subsection \<open>Well-formed tail queues\<close>

definition stailq_cells :: "ptr \<Rightarrow> ptr \<Rightarrow> ptr list \<Rightarrow> ptr set" where
  "stailq_cells off h xs = insert (h + 8) (slist_cells off h xs)"

lemma stailq_slist: "stailq off m h xs \<Longrightarrow> slist off m h xs"
  by (simp add: stailq_def)

lemma stailq_dom: "stailq off m h xs \<Longrightarrow> stailq_cells off h xs \<subseteq> dom m"
  using slist_dom by (auto simp: stailq_def stailq_cells_def)

lemma stailq_last: "stailq off m h xs \<Longrightarrow> m (h + 8) = Some (lslot off h xs)"
  by (simp add: stailq_def)

lemma stailq_nonnull: "stailq off m h xs \<Longrightarrow> NULL \<notin> set xs"
  by (auto simp: stailq_def slist_def dest: nlist_nonnull)

lemma stailq_insert:
  assumes s: "stailq off m h (xs @ ys)" and e: "e \<noteq> NULL" "e + off \<notin> stailq_cells off h (xs @ ys)"
    and t: "t = lslot off h xs"
    and m': "m' t = Some e" "m' (e + off) = Some (hd (ys @ [NULL]))"
      "m' (h + 8) = (if ys = [] then Some (e + off) else m (h + 8))"
      "\<And>a. a \<in> slist_cells off h (xs @ ys) \<Longrightarrow> a \<noteq> t \<Longrightarrow> m' a = m a"
  shows "stailq off m' h (xs @ e # ys)"
proof -
  have "nlist m' off h (xs @ e # ys)"
    by (rule nlist_insert [where m = m, OF _ _ e(1) _ t m'(1,2) m'(4)])
      (use s e in \<open>auto simp: stailq_def slist_def slist_cells_def stailq_cells_def\<close>)
  moreover have "m' (h + 8) = Some (lslot off h (xs @ e # ys))"
    using m'(3) s by (simp add: stailq_def lslot_append lslot_nonempty)
  ultimately show ?thesis
    using s e by (auto simp: stailq_def slist_def slist_cells_def stailq_cells_def)
qed

lemma stailq_remove:
  assumes s: "stailq off m h (xs @ e # ys)" and t: "t = lslot off h xs"
    and m': "m' t = Some (hd (ys @ [NULL]))"
      "m' (h + 8) = (if ys = [] then Some t else m (h + 8))"
      "\<And>a. a \<in> slist_cells off h (xs @ ys) \<Longrightarrow> a \<noteq> t \<Longrightarrow> m' a = m a"
  shows "stailq off m' h (xs @ ys)"
proof -
  have "nlist m' off h (xs @ ys)"
    by (rule nlist_remove [where m = m and e = e, OF _ _ t m'(1) m'(3)])
      (use s in \<open>auto simp: stailq_def slist_def slist_cells_def\<close>)
  moreover have "m' (h + 8) = Some (lslot off h (xs @ ys))"
    using m'(2) s by (simp add: stailq_def lslot_append lslot_nonempty t)
  ultimately show ?thesis
    using s by (auto simp: stailq_def slist_def)
qed

lemma stailq_at:
  assumes "stailq off m h (xs @ ys)" and "t = lslot off h xs"
  shows "t \<in> slist_cells off h (xs @ ys)" "t \<in> dom m" "h + 8 \<in> dom m" "t \<noteq> h + 8"
    "h + 8 \<notin> slist_cells off h (xs @ ys)" "hd (ys @ [NULL]) = NULL \<longleftrightarrow> ys = []" "m t = Some (hd (ys @ [NULL]))"
proof -
  show t: "t \<in> slist_cells off h (xs @ ys)"
    using lslot_in [of off h xs] assms(2) by (auto simp: slist_cells_def)
  then show "t \<in> dom m" "h + 8 \<in> dom m" using stailq_dom [OF assms(1)] by (auto simp: stailq_cells_def)
  show n: "h + 8 \<notin> slist_cells off h (xs @ ys)" using assms(1) by (simp add: stailq_def slist_cells_def)
  then show "t \<noteq> h + 8" using t by auto
  show "hd (ys @ [NULL]) = NULL \<longleftrightarrow> ys = []" using stailq_nonnull [OF assms(1)] hd_null_iff by auto
  show "m t = Some (hd (ys @ [NULL]))"
    using assms by (auto simp: stailq_def slist_def nlist_append dest: nlist_first)
qed

lemma STAILQ_INSERT_HEAD_ok:
  assumes s: "stailq off m h xs" and e: "e \<noteq> NULL" "e + off \<notin> stailq_cells off h xs" "e + off \<in> dom m"
  shows "\<exists>m'. STAILQ_INSERT_HEAD h e off m = Some m' \<and> stailq off m' h (e # xs)
    \<and> cells_kept (stailq_cells off h (e # xs)) m m'"
proof -
  have s': "stailq off m h ([] @ xs)" and t: "h = lslot off h []" using s by simp_all
  note at = stailq_at [OF s' t]
  have ne: "e + off \<noteq> h" "e + off \<noteq> h + 8" using e(2) by (auto simp: stailq_cells_def slist_cells_def)
  define m' where "m' = (if xs = [] then m(e + off \<mapsto> NULL, h + 8 \<mapsto> e + off, h \<mapsto> e)
      else m(e + off \<mapsto> hd (xs @ [NULL]), h \<mapsto> e))"
  have "STAILQ_INSERT_HEAD h e off m = Some m'"
    using at e by (auto simp: STAILQ_INSERT_HEAD_def STAILQ_FIRST_def ld_def mem_access m'_def)
  moreover have "stailq off m' h ([] @ e # xs)"
    by (rule stailq_insert [OF s' e(1) _ t]) (use at e ne in \<open>auto simp: m'_def stailq_cells_def\<close>)
  moreover have "cells_kept (stailq_cells off h (e # xs)) m m'"
    using at e by (auto simp: cells_kept_def m'_def slist_cells_def stailq_cells_def)
  ultimately show ?thesis by auto
qed

lemma STAILQ_INSERT_TAIL_ok:
  assumes s: "stailq off m h xs" and e: "e \<noteq> NULL" "e + off \<notin> stailq_cells off h xs" "e + off \<in> dom m"
  shows "\<exists>m'. STAILQ_INSERT_TAIL h e off m = Some m' \<and> stailq off m' h (xs @ [e])
    \<and> cells_kept (stailq_cells off h (xs @ [e])) m m'"
proof -
  define t where t: "t = lslot off h xs"
  have s': "stailq off m h (xs @ [])" using s by simp
  note at = stailq_at [OF s' t]
  have ne: "e + off \<noteq> t" "e + off \<noteq> h + 8" using e(2) at(1) by (auto simp: stailq_cells_def)
  define m' where "m' = m(e + off \<mapsto> NULL, t \<mapsto> e, h + 8 \<mapsto> e + off)"
  have "STAILQ_INSERT_TAIL h e off m = Some m'"
    using at e ne stailq_last [OF s] by (simp add: STAILQ_INSERT_TAIL_def ld_def mem_access m'_def t)
  moreover have "stailq off m' h (xs @ e # [])"
    by (rule stailq_insert [OF s' e(1) _ t]) (use at e ne in \<open>auto simp: m'_def stailq_cells_def\<close>)
  moreover have "cells_kept (stailq_cells off h (xs @ [e])) m m'"
    using at e by (auto simp: cells_kept_def m'_def slist_cells_def stailq_cells_def)
  ultimately show ?thesis by auto
qed

lemma STAILQ_INSERT_AFTER_ok:
  assumes s: "stailq off m h (xs @ [p] @ ys)" and e: "e \<noteq> NULL" "e + off \<notin> stailq_cells off h (xs @ [p] @ ys)"
    "e + off \<in> dom m"
  shows "\<exists>m'. STAILQ_INSERT_AFTER h p e off m = Some m' \<and> stailq off m' h (xs @ [p] @ e # ys)
    \<and> cells_kept (stailq_cells off h (xs @ [p] @ e # ys)) m m'"
proof -
  have s': "stailq off m h ((xs @ [p]) @ ys)" and t: "p + off = lslot off h (xs @ [p])" using s by simp_all
  note at = stailq_at [OF s' t]
  have ne: "e + off \<noteq> p + off" "e + off \<noteq> h + 8" using e(2) at(1) by (auto simp: stailq_cells_def)
  define m' where "m' = (if ys = [] then m(e + off \<mapsto> NULL, h + 8 \<mapsto> e + off, p + off \<mapsto> e)
      else m(e + off \<mapsto> hd (ys @ [NULL]), p + off \<mapsto> e))"
  have "STAILQ_INSERT_AFTER h p e off m = Some m'"
    using at e ne by (auto simp: STAILQ_INSERT_AFTER_def STAILQ_NEXT_def ld_def mem_access m'_def)
  moreover have "stailq off m' h ((xs @ [p]) @ e # ys)"
    by (rule stailq_insert [OF s' e(1) _ t]) (use at e ne in \<open>auto simp: m'_def stailq_cells_def\<close>)
  moreover have "cells_kept (stailq_cells off h (xs @ [p] @ e # ys)) m m'"
    using at e by (auto simp: cells_kept_def m'_def slist_cells_def stailq_cells_def)
  ultimately show ?thesis by auto
qed

lemma STAILQ_REMOVE_HEAD_ok:
  assumes s: "stailq off m h (x # xs)"
  shows "\<exists>m'. STAILQ_REMOVE_HEAD h off m = Some m' \<and> stailq off m' h xs
    \<and> cells_kept (stailq_cells off h (x # xs)) m m'"
proof -
  have s': "stailq off m h ([] @ x # xs)" and t: "h = lslot off h []" using s by simp_all
  note at = stailq_at [OF s' t] and at1 = stailq_at [of off m h "[x]" xs "x + off"]
  define m' where "m' = (if xs = [] then m(h \<mapsto> NULL, h + 8 \<mapsto> h) else m(h \<mapsto> hd (xs @ [NULL])))"
  have "STAILQ_REMOVE_HEAD h off m = Some m'"
    using at at1 s by (auto simp: STAILQ_REMOVE_HEAD_def STAILQ_FIRST_def STAILQ_NEXT_def ld_def mem_access m'_def)
  moreover have "stailq off m' h ([] @ xs)"
    by (rule stailq_remove [OF s' t]) (use at in \<open>auto simp: m'_def slist_cells_def\<close>)
  moreover have "cells_kept (stailq_cells off h (x # xs)) m m'"
    using at by (auto simp: cells_kept_def m'_def slist_cells_def stailq_cells_def)
  ultimately show ?thesis by auto
qed

lemma STAILQ_REMOVE_AFTER_ok:
  assumes s: "stailq off m h (xs @ [p] @ e # ys)"
  shows "\<exists>m'. STAILQ_REMOVE_AFTER h p off m = Some m' \<and> stailq off m' h (xs @ [p] @ ys)
    \<and> cells_kept (stailq_cells off h (xs @ [p] @ e # ys)) m m'"
proof -
  have s': "stailq off m h ((xs @ [p]) @ e # ys)" and t: "p + off = lslot off h (xs @ [p])" using s by simp_all
  note at = stailq_at [OF s' t] and at1 = stailq_at [of off m h "(xs @ [p]) @ [e]" ys "e + off"]
  define m' where "m' = (if ys = [] then m(p + off \<mapsto> NULL, h + 8 \<mapsto> p + off) else m(p + off \<mapsto> hd (ys @ [NULL])))"
  have "STAILQ_REMOVE_AFTER h p off m = Some m'"
    using at at1 s by (auto simp: STAILQ_REMOVE_AFTER_def STAILQ_NEXT_def ld_def mem_access m'_def lslot_append)
  moreover have "stailq off m' h ((xs @ [p]) @ ys)"
    by (rule stailq_remove [OF s' t]) (use at in \<open>auto simp: m'_def slist_cells_def\<close>)
  moreover have "cells_kept (stailq_cells off h (xs @ [p] @ e # ys)) m m'"
    using at by (auto simp: cells_kept_def m'_def slist_cells_def stailq_cells_def)
  ultimately show ?thesis by auto
qed

lemma STAILQ_find_ok:
  assumes "slist off m h (us @ x # vs @ e # ws)"
  shows "STAILQ_find e off m x = Some (last (x # vs))"
  using assms
proof (induction vs arbitrary: us x)
  case Nil
  then show ?case using slist_next [of off m h us x "e # ws"]
    by (subst STAILQ_find.simps) (simp add: STAILQ_NEXT_def ld_def)
next
  case (Cons v vs)
  have "distinct (us @ x # v # vs @ e # ws)" using Cons.prems by (auto simp: slist_def distinct_map)
  then have "v \<noteq> e" by auto
  then show ?case
    using slist_next [of off m h us x "v # vs @ e # ws"] Cons.prems Cons.IH [of "us @ [x]" v]
    by (subst STAILQ_find.simps) (simp add: STAILQ_NEXT_def ld_def)
qed

lemma STAILQ_REMOVE_ok:
  assumes s: "stailq off m h (xs @ e # ys)"
  shows "\<exists>m'. STAILQ_REMOVE h e off m = Some m' \<and> stailq off m' h (xs @ ys)
    \<and> cells_kept (stailq_cells off h (xs @ e # ys)) m m'"
proof (cases xs)
  case Nil
  then show ?thesis using slist_first [OF stailq_slist [OF s]] STAILQ_REMOVE_HEAD_ok [of off m h e ys] s
    by (simp add: STAILQ_REMOVE_def STAILQ_FIRST_def ld_def)
next
  case (Cons x vs)
  have "distinct (xs @ e # ys)" using s by (auto simp: stailq_def slist_def distinct_map)
  then have xe: "x \<noteq> e" using Cons by auto
  define zs p where "zs = butlast xs" and "p = last xs"
  have xs: "xs = zs @ [p]" using Cons by (simp add: zs_def p_def)
  have "STAILQ_find e off m x = Some p"
    using STAILQ_find_ok [of off m h "[]" x vs e ys] stailq_slist [OF s] Cons by (simp add: p_def)
  then have "STAILQ_REMOVE h e off m = STAILQ_REMOVE_AFTER h p off m"
    using slist_first [OF stailq_slist [OF s]] xe Cons by (simp add: STAILQ_REMOVE_def STAILQ_FIRST_def ld_def)
  then show ?thesis using STAILQ_REMOVE_AFTER_ok [of off m h zs p e ys] s by (simp add: xs)
qed

text \<open>The elements of a queue under another head.\<close>

lemma stailq_rebase:
  assumes s: "stailq off m h xs"
    and m': "m' h' = Some (hd (xs @ [NULL]))" "m' (h' + 8) = Some (lslot off h' xs)"
      "\<And>a. a \<in> (\<lambda>x. x + off) ` set xs \<Longrightarrow> m' a = m a"
    and h': "h' \<notin> (\<lambda>x. x + off) ` set xs" "h' + 8 \<notin> (\<lambda>x. x + off) ` set xs" "h' + 8 \<noteq> h'"
  shows "stailq off m' h' xs"
proof -
  have "nlist m' off h' xs"
  proof (cases xs)
    case (Cons y zs)
    then have "nlist m off (y + off) zs" "y \<noteq> NULL" using s by (auto simp: stailq_def slist_def)
    then show ?thesis using nlist_frame [of m off "y + off" zs m'] m'(1,3) Cons by auto
  qed (use m'(1) in simp)
  then show ?thesis using s m'(2) h' by (auto simp: stailq_def slist_def)
qed

lemma STAILQ_INIT_ok:
  assumes "h \<in> dom m" "h + 8 \<in> dom m"
  shows "\<exists>m'. STAILQ_INIT h m = Some m' \<and> stailq off m' h [] \<and> cells_kept {h, h + 8} m m'"
  using assms
  by (auto simp: STAILQ_INIT_def mem_access stailq_def slist_def cells_kept_def)

lemma STAILQ_CONCAT_ok:
  assumes s1: "stailq off m h1 xs" and s2: "stailq off m h2 ys"
    and disj: "stailq_cells off h1 xs \<inter> stailq_cells off h2 ys = {}"
  shows "\<exists>m'. STAILQ_CONCAT h1 h2 m = Some m' \<and> stailq off m' h1 (xs @ ys) \<and> stailq off m' h2 []"
proof (cases "ys = []")
  case True
  then have "STAILQ_CONCAT h1 h2 m = Some m"
    using slist_first [OF stailq_slist [OF s2]] by (simp add: STAILQ_CONCAT_def STAILQ_EMPTY_def ld_def)
  then show ?thesis using s1 s2 True by simp
next
  case False
  define t where t: "t = lslot off h1 xs"
  have s1': "stailq off m h1 (xs @ [])" using s1 by simp
  note at = stailq_at [OF s1' t]
  have f: "m h2 = Some (hd ys)" "hd ys \<noteq> NULL"
    using slist_first [OF stailq_slist [OF s2]] stailq_nonnull [OF s2] hd_in_set [OF False] False
    by (simp, metis)
  have c: "t \<in> stailq_cells off h1 xs" "h1 + 8 \<in> stailq_cells off h1 xs" "h2 \<in> stailq_cells off h2 ys"
      "h2 + 8 \<in> stailq_cells off h2 ys"
    using at(1) by (simp_all add: stailq_cells_def slist_cells_def)
  then have ne: "t \<noteq> h2" "t \<noteq> h2 + 8" "h1 + 8 \<noteq> h2" "h1 + 8 \<noteq> h2 + 8" using disj by auto
  define m' where "m' = m(t \<mapsto> hd ys, h1 + 8 \<mapsto> lslot off h2 ys, h2 \<mapsto> NULL, h2 + 8 \<mapsto> h2)"
  have d: "h2 \<in> dom m" "h2 + 8 \<in> dom m" using stailq_dom [OF s2] c by auto
  have "STAILQ_CONCAT h1 h2 m = Some m'"
    using at f ne d stailq_last [OF s1] stailq_last [OF s2]
    by (simp add: STAILQ_CONCAT_def STAILQ_EMPTY_def STAILQ_INIT_def ld_def mem_access m'_def t)
  moreover have "stailq off m' h2 []"
    using ne by (simp add: stailq_def slist_def m'_def)
  moreover have "stailq off m' h1 (xs @ ys)"
  proof -
    have fr: "m' a = m a" if "a \<in> slist_cells off h1 xs \<union> (\<lambda>x. x + off) ` set ys" "a \<noteq> t" for a
    proof -
      have "a \<noteq> h1 + 8" "a \<noteq> h2" "a \<noteq> h2 + 8"
        using that disj at(5) s2 by (auto simp: stailq_cells_def slist_cells_def stailq_def slist_def)
      then show ?thesis using that(2) by (simp add: m'_def)
    qed
    have "nseg m' off h1 xs"
    proof (rule nseg_frame [of m])
      show "nseg m off h1 xs" using s1 nlist_append [of m off h1 xs "[]"] by (simp add: stailq_def slist_def)
      fix a assume a: "a \<in> set (butlast (h1 # map (\<lambda>x. x + off) xs))"
      have "distinct (h1 # map (\<lambda>x. x + off) xs)" using s1 by (simp add: stailq_def slist_def)
      from last_notin_butlast [OF this a] have "a \<noteq> t" by (simp only: t lslot_def not_False_eq_True)
      then show "m' a = m a" using in_set_butlastD [OF a] by (intro fr) (auto simp: slist_cells_def)
    qed
    moreover have "nlist m' off t ys"
    proof (cases ys)
      case (Cons y zs)
      then have "nlist m off (y + off) zs" "y \<noteq> NULL" using s2 by (auto simp: stailq_def slist_def)
      moreover have "m' a = m a" if "a \<in> set ((y + off) # map (\<lambda>x. x + off) zs)" for a
        by (rule fr) (use that Cons at(1) disj in \<open>auto simp: stailq_cells_def slist_cells_def\<close>)
      ultimately show ?thesis using ne at Cons nlist_frame [of m off "y + off" zs m'] by (simp add: m'_def)
    qed (use False in simp)
    ultimately have "nlist m' off h1 (xs @ ys)" by (simp add: nlist_append t)
    moreover have "m' (h1 + 8) = Some (lslot off h1 (xs @ ys))"
      using ne False by (simp add: m'_def lslot_append lslot_nonempty)
    moreover have "h1 + 8 \<notin> set (h1 # map (\<lambda>x. x + off) (xs @ ys))" "distinct (h1 # map (\<lambda>x. x + off) (xs @ ys))"
      using s1 s2 disj by (auto simp: stailq_def slist_def stailq_cells_def slist_cells_def)
    ultimately show ?thesis by (simp add: stailq_def slist_def)
  qed
  ultimately show ?thesis by blast
qed

lemma STAILQ_SWAP_ok:
  assumes s1: "stailq off m h1 xs" and s2: "stailq off m h2 ys"
    and disj: "stailq_cells off h1 xs \<inter> stailq_cells off h2 ys = {}"
  shows "\<exists>m'. STAILQ_SWAP h1 h2 m = Some m' \<and> stailq off m' h1 ys \<and> stailq off m' h2 xs"
proof -
  have f: "m h1 = Some (hd (xs @ [NULL]))" "m h2 = Some (hd (ys @ [NULL]))"
      "m (h1 + 8) = Some (lslot off h1 xs)" "m (h2 + 8) = Some (lslot off h2 ys)"
    using slist_first stailq_slist s1 s2 stailq_last by blast+
  have z: "hd (xs @ [NULL]) = NULL \<longleftrightarrow> xs = []" "hd (ys @ [NULL]) = NULL \<longleftrightarrow> ys = []"
    using hd_null_iff stailq_nonnull s1 s2 by blast+
  have ne: "h1 \<noteq> h2" "h1 \<noteq> h2 + 8" "h1 + 8 \<noteq> h2" "h1 + 8 \<noteq> h2 + 8"
    using disj by (auto simp: stailq_cells_def slist_cells_def)
  have d: "h1 \<in> dom m" "h2 \<in> dom m" "h1 + 8 \<in> dom m" "h2 + 8 \<in> dom m" using f by auto
  have sep: "h1 \<notin> (\<lambda>x. x + off) ` set ys" "h1 + 8 \<notin> (\<lambda>x. x + off) ` set ys"
      "h2 \<notin> (\<lambda>x. x + off) ` set xs" "h2 + 8 \<notin> (\<lambda>x. x + off) ` set xs"
      "h1 \<notin> (\<lambda>x. x + off) ` set xs" "h1 + 8 \<notin> (\<lambda>x. x + off) ` set xs"
      "h2 \<notin> (\<lambda>x. x + off) ` set ys" "h2 + 8 \<notin> (\<lambda>x. x + off) ` set ys"
    using disj s1 s2 by (auto simp: stailq_cells_def slist_cells_def stailq_def slist_def)
  define m' where "m' = m(h1 \<mapsto> hd (ys @ [NULL]), h1 + 8 \<mapsto> lslot off h1 ys,
      h2 \<mapsto> hd (xs @ [NULL]), h2 + 8 \<mapsto> lslot off h2 xs)"
  have "STAILQ_SWAP h1 h2 m = Some m'"
    using f z ne d
    by (cases "xs = []"; cases "ys = []")
      (simp_all add: STAILQ_SWAP_def STAILQ_EMPTY_def STAILQ_FIRST_def ld_def mem_access m'_def lslot_nonempty
        fun_upd_twist)
  moreover have fr: "m' a = m a" if "a \<in> (\<lambda>x. x + off) ` set xs \<union> (\<lambda>x. x + off) ` set ys" for a
  proof -
    have "a \<noteq> h1" "a \<noteq> h2" "a \<noteq> h1 + 8" "a \<noteq> h2 + 8" using that sep by blast+
    then show ?thesis by (simp add: m'_def)
  qed
  moreover have "stailq off m' h1 ys"
    by (rule stailq_rebase [OF s2 _ _ fr sep(1,2)]) (use ne in \<open>simp_all add: m'_def\<close>)
  moreover have "stailq off m' h2 xs"
    by (rule stailq_rebase [OF s1 _ _ fr sep(3,4)]) (use ne in \<open>simp_all add: m'_def\<close>)
  ultimately show ?thesis by blast
qed

lemma STAILQ_REMOVE_HEAD_UNTIL_ok:
  assumes s: "stailq off m h (xs @ e # ys)"
  shows "\<exists>m'. STAILQ_REMOVE_HEAD_UNTIL h e off m = Some m' \<and> stailq off m' h ys"
proof -
  have s': "stailq off m h ((xs @ [e]) @ ys)" and t: "e + off = lslot off h (xs @ [e])" using s by simp_all
  note at = stailq_at [OF s' t]
  define m' where "m' = (if ys = [] then m(h \<mapsto> NULL, h + 8 \<mapsto> h) else m(h \<mapsto> hd (ys @ [NULL])))"
  have d: "h \<in> dom m" using stailq_dom [OF s] by (simp add: stailq_cells_def slist_cells_def)
  have "STAILQ_REMOVE_HEAD_UNTIL h e off m = Some m'"
    using at d by (auto simp: STAILQ_REMOVE_HEAD_UNTIL_def STAILQ_NEXT_def ld_def mem_access m'_def)
  moreover have "stailq off m' h ys"
  proof (cases ys)
    case Nil
    then show ?thesis by (simp add: stailq_def slist_def m'_def)
  next
    case (Cons y zs)
    have "nlist m off (y + off) zs" "y \<noteq> NULL" using s Cons by (auto simp: stailq_def slist_def nlist_append)
    moreover have "m' a = m a" if "a \<in> set ((y + off) # map (\<lambda>x. x + off) zs)" for a
      using s that by (auto simp: stailq_def slist_def m'_def Cons)
    moreover have "m' (h + 8) = Some (lslot off h ys)"
      using stailq_last [OF s] Cons by (simp add: m'_def lslot_append)
    ultimately show ?thesis
      using s nlist_frame [of m off "y + off" zs m'] Cons
      by (auto simp: stailq_def slist_def m'_def)
  qed
  ultimately show ?thesis by blast
qed

lemma STAILQ_LAST_ok: "stailq off m h xs \<Longrightarrow> STAILQ_LAST h off m = Some (last (NULL # xs))"
  using slist_first [OF stailq_slist [of off m h xs]] stailq_last [of off m h xs]
    stailq_nonnull [of off m h xs]
  by (cases xs) (auto simp: STAILQ_LAST_def STAILQ_EMPTY_def ld_def lslot_nonempty)

subsection \<open>The contracts\<close>

definition slist_ops :: "ptr \<Rightarrow> ptr \<Rightarrow> (mem, ptr) deque_ops" where
  "slist_ops h off = \<lparr>op_push_head = \<lambda>x. SLIST_INSERT_HEAD h x off, op_push_tail = \<lambda>_ _. None,
     op_pop_head = \<lambda>m. do { x \<leftarrow> SLIST_FIRST h m; m \<leftarrow> SLIST_REMOVE_HEAD h off m; Some (x, m) },
     op_pop_tail = \<lambda>_. None, op_is_empty = SLIST_EMPTY h\<rparr>"

definition stailq_ops :: "ptr \<Rightarrow> ptr \<Rightarrow> (mem, ptr) deque_ops" where
  "stailq_ops h off = \<lparr>op_push_head = \<lambda>x. STAILQ_INSERT_HEAD h x off,
     op_push_tail = \<lambda>x. STAILQ_INSERT_TAIL h x off,
     op_pop_head = \<lambda>m. do { x \<leftarrow> STAILQ_FIRST h m; m \<leftarrow> STAILQ_REMOVE_HEAD h off m; Some (x, m) },
     op_pop_tail = \<lambda>_. None, op_is_empty = STAILQ_EMPTY h\<rparr>"

text \<open>An element whose field is allocated and is not a cell of the head.\<close>

definition slist_node :: "ptr \<Rightarrow> ptr \<Rightarrow> mem \<Rightarrow> ptr \<Rightarrow> bool" where
  "slist_node h off m x \<longleftrightarrow> x \<noteq> NULL \<and> x + off \<in> dom m \<and> x + off \<noteq> h"

definition stailq_node :: "ptr \<Rightarrow> ptr \<Rightarrow> mem \<Rightarrow> ptr \<Rightarrow> bool" where
  "stailq_node h off m x \<longleftrightarrow> slist_node h off m x \<and> x + off \<noteq> h + 8"

lemma slist_node_kept:
  "cells_kept A m m' \<Longrightarrow> \<forall>y. slist_node h off m y \<longrightarrow> slist_node h off m' y"
  "cells_kept A m m' \<Longrightarrow> \<forall>y. stailq_node h off m y \<longrightarrow> stailq_node h off m' y"
  by (auto simp: cells_kept_def slist_node_def stailq_node_def)

lemma slist_fresh:
  assumes "slist_node h off m x" and "x \<notin> set xs"
  shows "x \<noteq> NULL" "x + off \<notin> slist_cells off h xs" "x + off \<in> dom m"
  using assms by (auto simp: slist_node_def slist_cells_def)

lemma stailq_fresh:
  assumes "stailq_node h off m x" and "x \<notin> set xs"
  shows "x \<noteq> NULL" "x + off \<notin> stailq_cells off h xs" "x + off \<in> dom m"
  using assms by (auto simp: stailq_node_def slist_node_def stailq_cells_def slist_cells_def)

interpretation slist: stack "slist_ops h off" "\<lambda>m xs. slist off m h xs" "slist_node h off" for h off
proof
  fix m xs x assume s: "slist off m h xs" and n: "slist_node h off m x" and x: "x \<notin> set xs"
  obtain m' where "SLIST_INSERT_HEAD h x off m = Some m'" "slist off m' h (x # xs)"
      "cells_kept (slist_cells off h (x # xs)) m m'"
    using SLIST_INSERT_HEAD_ok [OF s slist_fresh [OF n x]] by blast
  then show "\<exists>m'. op_push_head (slist_ops h off) x m = Some m' \<and> slist off m' h (x # xs)
      \<and> (\<forall>y. slist_node h off m y \<longrightarrow> slist_node h off m' y)"
    using slist_node_kept(1) by (auto simp: slist_ops_def)
next
  fix m x xs assume s: "slist off m h (x # xs)"
  obtain m' where "SLIST_REMOVE_HEAD h off m = Some m'" "slist off m' h xs"
      "cells_kept (slist_cells off h (x # xs)) m m'"
    using SLIST_REMOVE_HEAD_ok [OF s] by blast
  then show "\<exists>m'. op_pop_head (slist_ops h off) m = Some (x, m') \<and> slist off m' h xs
      \<and> (\<forall>y. slist_node h off m y \<longrightarrow> slist_node h off m' y)"
    using slist_node_kept(1) slist_first [OF s] by (auto simp: slist_ops_def SLIST_FIRST_def ld_def)
next
  fix m xs assume s: "slist off m h xs"
  then have "NULL \<notin> set xs" by (auto simp: slist_def dest: nlist_nonnull)
  then show "op_is_empty (slist_ops h off) m = Some (xs = [])"
    using slist_first [OF s] hd_null_iff by (auto simp: slist_ops_def SLIST_EMPTY_def ld_def)
qed

interpretation stailq: tail_queue "stailq_ops h off" "\<lambda>m xs. stailq off m h xs" "stailq_node h off"
  for h off
proof
  fix m xs x assume s: "stailq off m h xs" and n: "stailq_node h off m x" and x: "x \<notin> set xs"
  obtain m' where "STAILQ_INSERT_HEAD h x off m = Some m'" "stailq off m' h (x # xs)"
      "cells_kept (stailq_cells off h (x # xs)) m m'"
    using STAILQ_INSERT_HEAD_ok [OF s stailq_fresh [OF n x]] by blast
  then show "\<exists>m'. op_push_head (stailq_ops h off) x m = Some m' \<and> stailq off m' h (x # xs)
      \<and> (\<forall>y. stailq_node h off m y \<longrightarrow> stailq_node h off m' y)"
    using slist_node_kept(2) by (auto simp: stailq_ops_def)
  obtain m'' where "STAILQ_INSERT_TAIL h x off m = Some m''" "stailq off m'' h (xs @ [x])"
      "cells_kept (stailq_cells off h (xs @ [x])) m m''"
    using STAILQ_INSERT_TAIL_ok [OF s stailq_fresh [OF n x]] by blast
  then show "\<exists>m'. op_push_tail (stailq_ops h off) x m = Some m' \<and> stailq off m' h (xs @ [x])
      \<and> (\<forall>y. stailq_node h off m y \<longrightarrow> stailq_node h off m' y)"
    using slist_node_kept(2) by (auto simp: stailq_ops_def)
next
  fix m x xs assume s: "stailq off m h (x # xs)"
  obtain m' where "STAILQ_REMOVE_HEAD h off m = Some m'" "stailq off m' h xs"
      "cells_kept (stailq_cells off h (x # xs)) m m'"
    using STAILQ_REMOVE_HEAD_ok [OF s] by blast
  then show "\<exists>m'. op_pop_head (stailq_ops h off) m = Some (x, m') \<and> stailq off m' h xs
      \<and> (\<forall>y. stailq_node h off m y \<longrightarrow> stailq_node h off m' y)"
    using slist_node_kept(2) slist_first [OF stailq_slist [OF s]]
    by (auto simp: stailq_ops_def STAILQ_FIRST_def ld_def)
next
  fix m xs assume s: "stailq off m h xs"
  then show "op_is_empty (stailq_ops h off) m = Some (xs = [])"
    using slist_first [OF stailq_slist [OF s]] hd_null_iff [OF stailq_nonnull [OF s]]
    by (simp add: stailq_ops_def STAILQ_EMPTY_def ld_def)
qed

subsection \<open>Properties\<close>

text \<open>
  A tail queue at 8 (cells 8 and 16) of the elements 32 and 48, whose fields are at offset 4, an
  empty one at 80, and free elements 64 and 96.
\<close>

definition sample_cells :: mem where
  "sample_cells = [8 \<mapsto> 32, 16 \<mapsto> 52, 36 \<mapsto> 48, 52 \<mapsto> 0, 80 \<mapsto> 0, 88 \<mapsto> 80, 68 \<mapsto> 0, 100 \<mapsto> 0]"

lemma sample_stailq: "stailq 4 sample_cells 8 [32, 48]" "stailq 4 sample_cells 80 []"
  "slist 4 sample_cells 8 [32, 48]"
  by (simp_all add: stailq_def slist_def sample_cells_def lslot_def)

lemma sample_cells_dom: "dom sample_cells = {8, 16, 36, 52, 80, 88, 68, 100}"
  by (auto simp: sample_cells_def)

text \<open>
  C34: Any sequence of STAILQ_INSERT_HEAD, STAILQ_INSERT_TAIL, removal of the first element and
  STAILQ_EMPTY that the abstract queue allows runs without a fault on a well-formed tail queue,
  answers as the list of elements would, and keeps the pointer to the last next pointer right.
\<close>

theorem stailq_refines_tail_queue:
  assumes "\<forall>c \<in> set cs. tail_queue_op c" and "stailq off m h xs"
    and "\<forall>c \<in> set cs. \<forall>x \<in> pushed c. stailq_node h off m x" and "spec_run cs xs = Some (rs, ys)"
  shows "\<exists>m'. impl_run (stailq_ops h off) cs m = Some (rs, m') \<and> stailq off m' h ys"
  by (rule stailq.tail_queue_run_refines [OF assms])

theorem stailq_refines_tail_queue_witness:
  "\<exists>m'. impl_run (stailq_ops 8 4) [Pop_head, Pop_head, Push_tail 64, Push_head 96, Test_empty] sample_cells
     = Some ([Popped 32, Popped 48, Done, Done, Is_empty False], m') \<and> stailq 4 m' 8 [96, 64]"
  by (rule stailq_refines_tail_queue [OF _ sample_stailq(1)])
    (simp_all add: stailq_node_def slist_node_def sample_cells_dom)

text \<open>
  STAILQ_CONCAT appends the second queue to the first and empties it, and STAILQ_SWAP exchanges
  the contents of two queues, empty ones included; both leave well-formed heads.
\<close>

theorem stailq_concat_and_swap:
  assumes "stailq off m h1 xs" and "stailq off m h2 ys"
    and "stailq_cells off h1 xs \<inter> stailq_cells off h2 ys = {}"
  shows "(\<exists>m'. STAILQ_CONCAT h1 h2 m = Some m' \<and> stailq off m' h1 (xs @ ys) \<and> stailq off m' h2 [])
    \<and> (\<exists>m'. STAILQ_SWAP h1 h2 m = Some m' \<and> stailq off m' h1 ys \<and> stailq off m' h2 xs)"
  using STAILQ_CONCAT_ok [OF assms] STAILQ_SWAP_ok [OF assms] by blast

theorem stailq_concat_and_swap_witness:
  "(\<exists>m'. STAILQ_CONCAT 80 8 sample_cells = Some m' \<and> stailq 4 m' 80 [32, 48] \<and> stailq 4 m' 8 [])
   \<and> (\<exists>m'. STAILQ_SWAP 80 8 sample_cells = Some m' \<and> stailq 4 m' 80 [32, 48] \<and> stailq 4 m' 8 [])"
  using stailq_concat_and_swap [OF sample_stailq(2,1)] by (simp add: stailq_cells_def slist_cells_def)

text \<open>
  STAILQ_INSERT_AFTER, STAILQ_REMOVE and STAILQ_REMOVE_HEAD_UNTIL edit the queue at any
  element, the last one included, and STAILQ_LAST then finds the right last element.
\<close>

theorem stailq_edits:
  assumes "stailq off m h (xs @ [p] @ ys)" and "stailq_node h off m e" and "e \<notin> set (xs @ [p] @ ys)"
  shows "(\<exists>m'. STAILQ_INSERT_AFTER h p e off m = Some m' \<and> stailq off m' h (xs @ [p] @ e # ys)
      \<and> STAILQ_LAST h off m' = Some (last (e # ys)))
    \<and> (\<exists>m'. STAILQ_REMOVE h p off m = Some m' \<and> stailq off m' h (xs @ ys)
      \<and> STAILQ_LAST h off m' = Some (last (NULL # xs @ ys)))
    \<and> (\<exists>m'. STAILQ_REMOVE_HEAD_UNTIL h p off m = Some m' \<and> stailq off m' h ys)"
proof (intro conjI)
  obtain m' where m': "STAILQ_INSERT_AFTER h p e off m = Some m'" "stailq off m' h (xs @ [p] @ e # ys)"
    using STAILQ_INSERT_AFTER_ok [OF assms(1) stailq_fresh [OF assms(2,3)]] by blast
  then show "\<exists>m'. STAILQ_INSERT_AFTER h p e off m = Some m' \<and> stailq off m' h (xs @ [p] @ e # ys)
      \<and> STAILQ_LAST h off m' = Some (last (e # ys))"
    using STAILQ_LAST_ok [OF m'(2)] by auto
  obtain m2 where m2: "STAILQ_REMOVE h p off m = Some m2" "stailq off m2 h (xs @ ys)"
    using STAILQ_REMOVE_ok [of off m h xs p ys] assms(1) by auto
  then show "\<exists>m'. STAILQ_REMOVE h p off m = Some m' \<and> stailq off m' h (xs @ ys)
      \<and> STAILQ_LAST h off m' = Some (last (NULL # xs @ ys))"
    using STAILQ_LAST_ok [OF m2(2)] by auto
  show "\<exists>m'. STAILQ_REMOVE_HEAD_UNTIL h p off m = Some m' \<and> stailq off m' h ys"
    using STAILQ_REMOVE_HEAD_UNTIL_ok [of off m h xs p ys] assms(1) by simp
qed

theorem stailq_edits_witness:
  "\<exists>m'. STAILQ_REMOVE 8 48 4 sample_cells = Some m' \<and> stailq 4 m' 8 [32]
     \<and> STAILQ_LAST 8 4 m' = Some 32"
  using stailq_edits [of 4 sample_cells 8 "[32]" 48 "[]" 64] sample_stailq(1)
  by (simp add: stailq_node_def slist_node_def sample_cells_dom)

text \<open>
  SLIST_INSERT_HEAD and removal of the first element behave as a stack on every admissible
  sequence of operations; SLIST_INSERT_AFTER and SLIST_REMOVE edit the list at any element, the
  search of SLIST_REMOVE ending at the element before it.
\<close>

theorem slist_stack_and_edits:
  assumes "slist off m h (xs @ [p] @ ys)" and "slist_node h off m e" and "e \<notin> set (xs @ [p] @ ys)"
    and "\<forall>c \<in> set cs. stack_op c" and "\<forall>c \<in> set cs. \<forall>x \<in> pushed c. slist_node h off m x"
    and "spec_run cs (xs @ [p] @ ys) = Some (rs, zs)"
  shows "(\<exists>m'. impl_run (slist_ops h off) cs m = Some (rs, m') \<and> slist off m' h zs)
    \<and> (\<exists>m'. SLIST_INSERT_AFTER p e off m = Some m' \<and> slist off m' h (xs @ [p] @ e # ys))
    \<and> (\<exists>m'. SLIST_REMOVE h p off m = Some m' \<and> slist off m' h (xs @ ys))"
  using slist.stack_run_refines [OF assms(4,1,5,6)]
    SLIST_INSERT_AFTER_ok [OF assms(1) slist_fresh [OF assms(2,3)]]
    SLIST_REMOVE_ok [of off m h xs p ys] assms(1) by auto

theorem slist_stack_and_edits_witness:
  "(\<exists>m'. impl_run (slist_ops 8 4) [Push_head 64, Pop_head, Pop_head] sample_cells
      = Some ([Done, Popped 64, Popped 32], m') \<and> slist 4 m' 8 [48])
    \<and> (\<exists>m'. SLIST_INSERT_AFTER 48 96 4 sample_cells = Some m' \<and> slist 4 m' 8 [32, 48, 96])
    \<and> (\<exists>m'. SLIST_REMOVE 8 48 4 sample_cells = Some m' \<and> slist 4 m' 8 [32])"
  using slist_stack_and_edits [of 4 sample_cells 8 "[32]" 48 "[]" 96 "[Push_head 64, Pop_head, Pop_head]"]
    sample_stailq(3)
  by (simp add: slist_node_def sample_cells_dom)

end
