(* ===== verification/SysTailQ.thy ===== *)
theory SysTailQ
  imports SysSQueue
begin

text \<open>
  sys/queue.h, the doubly linked structures: LIST (head of one pointer) and TAILQ (head of a first
  pointer and the address of the last next pointer). Each element also keeps the address of the
  next pointer that points to it, which makes removal of an arbitrary element possible without a
  search, and lets TAILQ_LAST and TAILQ_PREV walk backwards by reading a next pointer and the
  pointer behind it as if they were a head.
\<close>

subsection \<open>LIST\<close>

definition LIST_FIRST :: "ptr \<Rightarrow> mem \<Rightarrow> ptr option" where
  "LIST_FIRST head m = ld head m"

definition LIST_NEXT :: "ptr \<Rightarrow> ptr \<Rightarrow> mem \<Rightarrow> ptr option" where
  "LIST_NEXT off elm m = ld (elm + off) m"

definition LIST_EMPTY :: "ptr \<Rightarrow> mem \<Rightarrow> bool option" where
  "LIST_EMPTY head m = map_option (\<lambda>x. x = NULL) (ld head m)"

definition LIST_INIT :: "ptr \<Rightarrow> mem \<Rightarrow> mem option" where
  "LIST_INIT head m = st head NULL m"

definition LIST_FOREACH :: "'s mbody \<Rightarrow> ptr \<Rightarrow> ptr \<Rightarrow> 's \<times> mem \<Rightarrow> ('s \<times> mem) option" where
  "LIST_FOREACH body head off s = do {
     var \<leftarrow> LIST_FIRST head (snd s);
     foreach_loop (LIST_NEXT off) body var s }"

definition LIST_FOREACH_SAFE :: "'s mbody \<Rightarrow> ptr \<Rightarrow> ptr \<Rightarrow> 's \<times> mem \<Rightarrow> ('s \<times> mem) option" where
  "LIST_FOREACH_SAFE body head off s = do {
     var \<leftarrow> LIST_FIRST head (snd s);
     foreach_safe_loop (LIST_NEXT off) body var s }"

definition LIST_INSERT_AFTER :: "ptr \<Rightarrow> ptr \<Rightarrow> ptr \<Rightarrow> mem \<Rightarrow> mem option" where
  "LIST_INSERT_AFTER listelm elm off m = do {
     n \<leftarrow> LIST_NEXT off listelm m;
     m \<leftarrow> st (elm + off) n m;
     m \<leftarrow> (if n \<noteq> NULL then do {
             n \<leftarrow> LIST_NEXT off listelm m;
             st (n + off + 8) (elm + off) m }
           else Some m);
     m \<leftarrow> st (listelm + off) elm m;
     st (elm + off + 8) (listelm + off) m }"

definition LIST_INSERT_BEFORE :: "ptr \<Rightarrow> ptr \<Rightarrow> ptr \<Rightarrow> mem \<Rightarrow> mem option" where
  "LIST_INSERT_BEFORE listelm elm off m = do {
     p \<leftarrow> ld (listelm + off + 8) m;
     m \<leftarrow> st (elm + off + 8) p m;
     m \<leftarrow> st (elm + off) listelm m;
     p \<leftarrow> ld (listelm + off + 8) m;
     m \<leftarrow> st p elm m;
     st (listelm + off + 8) (elm + off) m }"

definition LIST_INSERT_HEAD :: "ptr \<Rightarrow> ptr \<Rightarrow> ptr \<Rightarrow> mem \<Rightarrow> mem option" where
  "LIST_INSERT_HEAD head elm off m = do {
     f \<leftarrow> LIST_FIRST head m;
     m \<leftarrow> st (elm + off) f m;
     m \<leftarrow> (if f \<noteq> NULL then do {
             f \<leftarrow> LIST_FIRST head m;
             st (f + off + 8) (elm + off) m }
           else Some m);
     m \<leftarrow> st head elm m;
     st (elm + off + 8) head m }"

definition LIST_REMOVE :: "ptr \<Rightarrow> ptr \<Rightarrow> mem \<Rightarrow> mem option" where
  "LIST_REMOVE elm off m = do {
     n \<leftarrow> LIST_NEXT off elm m;
     m \<leftarrow> (if n \<noteq> NULL then do {
             p \<leftarrow> ld (elm + off + 8) m;
             st (n + off + 8) p m }
           else Some m);
     p \<leftarrow> ld (elm + off + 8) m;
     n \<leftarrow> LIST_NEXT off elm m;
     st p n m }"

definition LIST_SWAP :: "ptr \<Rightarrow> ptr \<Rightarrow> ptr \<Rightarrow> mem \<Rightarrow> mem option" where
  "LIST_SWAP head1 head2 off m = do {
     swap_tmp \<leftarrow> LIST_FIRST head1 m;
     f2 \<leftarrow> LIST_FIRST head2 m;
     m \<leftarrow> st head1 f2 m;
     m \<leftarrow> st head2 swap_tmp m;
     swap_tmp \<leftarrow> LIST_FIRST head1 m;
     m \<leftarrow> (if swap_tmp \<noteq> NULL then st (swap_tmp + off + 8) head1 m else Some m);
     swap_tmp \<leftarrow> LIST_FIRST head2 m;
     if swap_tmp \<noteq> NULL then st (swap_tmp + off + 8) head2 m else Some m }"

subsection \<open>TAILQ\<close>

definition TAILQ_FIRST :: "ptr \<Rightarrow> mem \<Rightarrow> ptr option" where
  "TAILQ_FIRST head m = ld head m"

definition TAILQ_NEXT :: "ptr \<Rightarrow> ptr \<Rightarrow> mem \<Rightarrow> ptr option" where
  "TAILQ_NEXT off elm m = ld (elm + off) m"

definition TAILQ_EMPTY :: "ptr \<Rightarrow> mem \<Rightarrow> bool option" where
  "TAILQ_EMPTY head m = map_option (\<lambda>x. x = NULL) (ld head m)"

text \<open>The cast to the head type makes the pointer behind a next pointer its \<open>tqh_last\<close>.\<close>

definition TAILQ_LAST :: "ptr \<Rightarrow> mem \<Rightarrow> ptr option" where
  "TAILQ_LAST head m = do { l \<leftarrow> ld (head + 8) m; p \<leftarrow> ld (l + 8) m; ld p m }"

definition TAILQ_PREV :: "ptr \<Rightarrow> ptr \<Rightarrow> mem \<Rightarrow> ptr option" where
  "TAILQ_PREV off elm m = do { l \<leftarrow> ld (elm + off + 8) m; p \<leftarrow> ld (l + 8) m; ld p m }"

definition TAILQ_INIT :: "ptr \<Rightarrow> mem \<Rightarrow> mem option" where
  "TAILQ_INIT head m = do { m \<leftarrow> st head NULL m; st (head + 8) head m }"

definition TAILQ_CONCAT :: "ptr \<Rightarrow> ptr \<Rightarrow> ptr \<Rightarrow> mem \<Rightarrow> mem option" where
  "TAILQ_CONCAT head1 head2 off m = do {
     e \<leftarrow> TAILQ_EMPTY head2 m;
     if \<not> e then do {
       l \<leftarrow> ld (head1 + 8) m;
       f \<leftarrow> ld head2 m;
       m \<leftarrow> st l f m;
       f \<leftarrow> ld head2 m;
       l \<leftarrow> ld (head1 + 8) m;
       m \<leftarrow> st (f + off + 8) l m;
       l2 \<leftarrow> ld (head2 + 8) m;
       m \<leftarrow> st (head1 + 8) l2 m;
       TAILQ_INIT head2 m }
     else Some m }"

definition TAILQ_FOREACH :: "'s mbody \<Rightarrow> ptr \<Rightarrow> ptr \<Rightarrow> 's \<times> mem \<Rightarrow> ('s \<times> mem) option" where
  "TAILQ_FOREACH body head off s = do {
     var \<leftarrow> TAILQ_FIRST head (snd s);
     foreach_loop (TAILQ_NEXT off) body var s }"

definition TAILQ_FOREACH_SAFE :: "'s mbody \<Rightarrow> ptr \<Rightarrow> ptr \<Rightarrow> 's \<times> mem \<Rightarrow> ('s \<times> mem) option" where
  "TAILQ_FOREACH_SAFE body head off s = do {
     var \<leftarrow> TAILQ_FIRST head (snd s);
     foreach_safe_loop (TAILQ_NEXT off) body var s }"

definition TAILQ_FOREACH_REVERSE :: "'s mbody \<Rightarrow> ptr \<Rightarrow> ptr \<Rightarrow> 's \<times> mem \<Rightarrow> ('s \<times> mem) option" where
  "TAILQ_FOREACH_REVERSE body head off s = do {
     var \<leftarrow> TAILQ_LAST head (snd s);
     foreach_loop (TAILQ_PREV off) body var s }"

definition TAILQ_FOREACH_REVERSE_SAFE :: "'s mbody \<Rightarrow> ptr \<Rightarrow> ptr \<Rightarrow> 's \<times> mem \<Rightarrow> ('s \<times> mem) option" where
  "TAILQ_FOREACH_REVERSE_SAFE body head off s = do {
     var \<leftarrow> TAILQ_LAST head (snd s);
     foreach_safe_loop (TAILQ_PREV off) body var s }"

definition TAILQ_INSERT_AFTER :: "ptr \<Rightarrow> ptr \<Rightarrow> ptr \<Rightarrow> ptr \<Rightarrow> mem \<Rightarrow> mem option" where
  "TAILQ_INSERT_AFTER head listelm elm off m = do {
     n \<leftarrow> TAILQ_NEXT off listelm m;
     m \<leftarrow> st (elm + off) n m;
     m \<leftarrow> (if n \<noteq> NULL then do {
             n \<leftarrow> TAILQ_NEXT off elm m;
             st (n + off + 8) (elm + off) m }
           else st (head + 8) (elm + off) m);
     m \<leftarrow> st (listelm + off) elm m;
     st (elm + off + 8) (listelm + off) m }"

definition TAILQ_INSERT_BEFORE :: "ptr \<Rightarrow> ptr \<Rightarrow> ptr \<Rightarrow> mem \<Rightarrow> mem option" where
  "TAILQ_INSERT_BEFORE listelm elm off m = do {
     p \<leftarrow> ld (listelm + off + 8) m;
     m \<leftarrow> st (elm + off + 8) p m;
     m \<leftarrow> st (elm + off) listelm m;
     p \<leftarrow> ld (listelm + off + 8) m;
     m \<leftarrow> st p elm m;
     st (listelm + off + 8) (elm + off) m }"

definition TAILQ_INSERT_HEAD :: "ptr \<Rightarrow> ptr \<Rightarrow> ptr \<Rightarrow> mem \<Rightarrow> mem option" where
  "TAILQ_INSERT_HEAD head elm off m = do {
     f \<leftarrow> TAILQ_FIRST head m;
     m \<leftarrow> st (elm + off) f m;
     m \<leftarrow> (if f \<noteq> NULL then do {
             f \<leftarrow> TAILQ_FIRST head m;
             st (f + off + 8) (elm + off) m }
           else st (head + 8) (elm + off) m);
     m \<leftarrow> st head elm m;
     st (elm + off + 8) head m }"

definition TAILQ_INSERT_TAIL :: "ptr \<Rightarrow> ptr \<Rightarrow> ptr \<Rightarrow> mem \<Rightarrow> mem option" where
  "TAILQ_INSERT_TAIL head elm off m = do {
     m \<leftarrow> st (elm + off) NULL m;
     l \<leftarrow> ld (head + 8) m;
     m \<leftarrow> st (elm + off + 8) l m;
     l \<leftarrow> ld (head + 8) m;
     m \<leftarrow> st l elm m;
     st (head + 8) (elm + off) m }"

definition TAILQ_REMOVE :: "ptr \<Rightarrow> ptr \<Rightarrow> ptr \<Rightarrow> mem \<Rightarrow> mem option" where
  "TAILQ_REMOVE head elm off m = do {
     n \<leftarrow> TAILQ_NEXT off elm m;
     p \<leftarrow> ld (elm + off + 8) m;
     m \<leftarrow> (if n \<noteq> NULL then st (n + off + 8) p m else st (head + 8) p m);
     p \<leftarrow> ld (elm + off + 8) m;
     n \<leftarrow> TAILQ_NEXT off elm m;
     st p n m }"

definition TAILQ_SWAP :: "ptr \<Rightarrow> ptr \<Rightarrow> ptr \<Rightarrow> mem \<Rightarrow> mem option" where
  "TAILQ_SWAP head1 head2 off m = do {
     swap_first \<leftarrow> ld head1 m;
     swap_last \<leftarrow> ld (head1 + 8) m;
     f2 \<leftarrow> ld head2 m;
     m \<leftarrow> st head1 f2 m;
     l2 \<leftarrow> ld (head2 + 8) m;
     m \<leftarrow> st (head1 + 8) l2 m;
     m \<leftarrow> st head2 swap_first m;
     m \<leftarrow> st (head2 + 8) swap_last m;
     swap_first \<leftarrow> ld head1 m;
     m \<leftarrow> (if swap_first \<noteq> NULL then st (swap_first + off + 8) head1 m else st (head1 + 8) head1 m);
     swap_first \<leftarrow> ld head2 m;
     if swap_first \<noteq> NULL then st (swap_first + off + 8) head2 m else st (head2 + 8) head2 m }"

subsection \<open>Well-formed doubly linked lists\<close>

definition dcells :: "ptr \<Rightarrow> ptr list \<Rightarrow> ptr set" where
  "dcells off xs = (\<lambda>x. x + off) ` set xs \<union> (\<lambda>x. x + off + 8) ` set xs"

definition dlist :: "ptr \<Rightarrow> mem \<Rightarrow> ptr \<Rightarrow> ptr list \<Rightarrow> bool" where
  "dlist off m s xs \<longleftrightarrow> nlist m off s xs \<and> pseg m off s xs \<and> distinct xs \<and> s \<notin> dcells off xs
     \<and> (\<forall>x \<in> set xs. \<forall>y \<in> set xs. x \<noteq> y + 8)"

definition tailq :: "ptr \<Rightarrow> mem \<Rightarrow> ptr \<Rightarrow> ptr list \<Rightarrow> bool" where
  "tailq off m h xs \<longleftrightarrow> dlist off m h xs \<and> m (h + 8) = Some (lslot off h xs) \<and> h + 8 \<notin> dcells off xs"

lemma dlist_slist: "dlist off m s xs \<Longrightarrow> slist off m s xs"
  by (auto simp: dlist_def slist_def dcells_def distinct_map inj_on_def)

text \<open>What an element that is to be inserted must satisfy.\<close>

definition dfresh :: "ptr \<Rightarrow> mem \<Rightarrow> ptr \<Rightarrow> ptr list \<Rightarrow> ptr \<Rightarrow> bool" where
  "dfresh off m s xs e \<longleftrightarrow> e \<noteq> NULL \<and> e + off \<in> dom m \<and> e + off + 8 \<in> dom m
     \<and> e + off \<notin> insert s (dcells off xs) \<and> e + off + 8 \<notin> insert s (dcells off xs)"

lemma lslot_cases: "lslot off s xs = s \<or> lslot off s xs \<in> (\<lambda>x. x + off) ` set xs"
  using lslot_in [of off s xs] by auto

lemma dlist_slot_neq:
  assumes "dlist off m s (xs @ ys)" and "y \<in> set (xs @ ys)"
  shows "lslot off s xs \<noteq> y + off + 8"
  using assms lslot_cases [of off s xs] by (auto simp: dlist_def dcells_def)

lemma dlist_insert:
  assumes l: "dlist off m s (xs @ ys)" and e: "dfresh off m s (xs @ ys) e" and t: "t = lslot off s xs"
    and m': "m' t = Some e" "m' (e + off) = Some (hd (ys @ [NULL]))" "m' (e + off + 8) = Some t"
      "ys \<noteq> [] \<Longrightarrow> m' (hd ys + off + 8) = Some (e + off)"
      "\<And>a. a \<in> insert s (dcells off (xs @ ys)) \<Longrightarrow> a \<noteq> t \<Longrightarrow> (ys \<noteq> [] \<Longrightarrow> a \<noteq> hd ys + off + 8) \<Longrightarrow> m' a = m a"
  shows "dlist off m' s (xs @ e # ys)"
proof -
  have d: "distinct (xs @ ys)" using l by (simp add: dlist_def)
  have pc: "m' (x + off + 8) = m (x + off + 8)" if "x \<in> set (xs @ ys)" "ys \<noteq> [] \<Longrightarrow> x \<noteq> hd ys" for x
    using that dlist_slot_neq [OF l that(1)] by (intro m'(5)) (auto simp: dcells_def t)
  have "nlist m' off s (xs @ e # ys)"
  proof (rule nlist_insert [where m = m])
    show "nlist m off s (xs @ ys)" "distinct (s # map (\<lambda>x. x + off) (xs @ ys))"
      using dlist_slist [OF l] by (auto simp: slist_def)
    fix a assume a: "a \<in> set (s # map (\<lambda>x. x + off) (xs @ ys))" "a \<noteq> t"
    have "a \<noteq> hd ys + off + 8" if "ys \<noteq> []"
      using a(1) l hd_in_set [OF that] by (auto simp: dlist_def dcells_def)
    then show "m' a = m a" using a by (intro m'(5)) (auto simp: dcells_def)
  qed (use e m' t in \<open>auto simp: dfresh_def dcells_def\<close>)
  moreover have "pseg m' off s (xs @ e # ys)"
  proof -
    have "pseg m' off s xs"
    proof (rule pseg_frame [of m])
      show "pseg m off s xs" using l by (simp add: dlist_def pseg_append)
      fix x assume x: "x \<in> set xs"
      have "x \<noteq> hd ys" if "ys \<noteq> []" using x d hd_in_set [OF that] by auto
      then show "m' (x + off + 8) = m (x + off + 8)" using x by (intro pc) auto
    qed
    moreover have "pseg m' off (e + off) ys"
    proof (cases ys)
      case (Cons y zs)
      have "pseg m' off (y + off) zs"
        by (rule pseg_frame [of m]) (use l d pc Cons in \<open>auto simp: dlist_def pseg_append\<close>)
      then show ?thesis using m'(4) Cons by simp
    qed simp
    ultimately show ?thesis using m'(3) t by (simp add: pseg_append)
  qed
  moreover have "distinct (xs @ e # ys)" "s \<notin> dcells off (xs @ e # ys)"
    "\<forall>x \<in> set (xs @ e # ys). \<forall>y \<in> set (xs @ e # ys). x \<noteq> y + 8"
    using l e by (auto simp: dlist_def dfresh_def dcells_def)
  ultimately show ?thesis by (simp add: dlist_def)
qed

lemma dlist_remove:
  assumes l: "dlist off m s (xs @ e # ys)" and t: "t = lslot off s xs"
    and m': "m' t = Some (hd (ys @ [NULL]))"
      "ys \<noteq> [] \<Longrightarrow> m' (hd ys + off + 8) = Some t"
      "\<And>a. a \<in> insert s (dcells off (xs @ ys)) \<Longrightarrow> a \<noteq> t \<Longrightarrow> (ys \<noteq> [] \<Longrightarrow> a \<noteq> hd ys + off + 8) \<Longrightarrow> m' a = m a"
  shows "dlist off m' s (xs @ ys)"
proof -
  have d: "distinct (xs @ ys)" using l by (simp add: dlist_def)
  have pc: "m' (x + off + 8) = m (x + off + 8)" if "x \<in> set (xs @ ys)" "ys \<noteq> [] \<Longrightarrow> x \<noteq> hd ys" for x
    using that dlist_slot_neq [OF l, of x] by (intro m'(3)) (auto simp: dcells_def t)
  have "nlist m' off s (xs @ ys)"
  proof (rule nlist_remove [where m = m and e = e])
    show "nlist m off s (xs @ e # ys)" "distinct (s # map (\<lambda>x. x + off) (xs @ e # ys))"
      using dlist_slist [OF l] by (auto simp: slist_def)
    fix a assume a: "a \<in> set (s # map (\<lambda>x. x + off) (xs @ ys))" "a \<noteq> t"
    have "a \<noteq> hd ys + off + 8" if "ys \<noteq> []"
      using a(1) l hd_in_set [OF that] by (auto simp: dlist_def dcells_def)
    then show "m' a = m a" using a by (intro m'(3)) (auto simp: dcells_def)
  qed (use m' t in auto)
  moreover have "pseg m' off s (xs @ ys)"
  proof -
    have "pseg m' off s xs"
    proof (rule pseg_frame [of m])
      show "pseg m off s xs" using l by (simp add: dlist_def pseg_append)
      fix x assume x: "x \<in> set xs"
      have "x \<noteq> hd ys" if "ys \<noteq> []" using x d hd_in_set [OF that] by auto
      then show "m' (x + off + 8) = m (x + off + 8)" using x by (intro pc) auto
    qed
    moreover have "pseg m' off t ys"
    proof (cases ys)
      case (Cons y zs)
      have "pseg m' off (y + off) zs"
        by (rule pseg_frame [of m]) (use l d pc Cons in \<open>auto simp: dlist_def pseg_append\<close>)
      then show ?thesis using m'(2) Cons by simp
    qed simp
    ultimately show ?thesis using t by (simp add: pseg_append)
  qed
  moreover have "distinct (xs @ ys)" "s \<notin> dcells off (xs @ ys)"
    "\<forall>x \<in> set (xs @ ys). \<forall>y \<in> set (xs @ ys). x \<noteq> y + 8"
    using l by (auto simp: dlist_def dcells_def)
  ultimately show ?thesis by (simp add: dlist_def)
qed

lemma dlist_at:
  assumes "dlist off m s (xs @ ys)" and "t = lslot off s xs"
  shows "t \<in> dom m" "m t = Some (hd (ys @ [NULL]))" "hd (ys @ [NULL]) = NULL \<longleftrightarrow> ys = []"
    "t \<in> insert s (dcells off (xs @ ys))"
    "ys \<noteq> [] \<Longrightarrow> hd ys + off + 8 \<in> dom m" "ys \<noteq> [] \<Longrightarrow> m (hd ys + off + 8) = Some t"
    "ys \<noteq> [] \<Longrightarrow> t \<noteq> hd ys + off + 8" "ys \<noteq> [] \<Longrightarrow> hd ys + off + 8 \<in> dcells off (xs @ ys)"
proof -
  show m: "m t = Some (hd (ys @ [NULL]))"
    using assms by (auto simp: dlist_def nlist_append dest: nlist_first)
  then show "t \<in> dom m" by auto
  have "NULL \<notin> set ys" using assms by (auto simp: dlist_def dest: nlist_nonnull)
  then show "hd (ys @ [NULL]) = NULL \<longleftrightarrow> ys = []" by (rule hd_null_iff)
  show "t \<in> insert s (dcells off (xs @ ys))" using lslot_cases [of off s xs] assms(2) by (auto simp: dcells_def)
  assume ne: "ys \<noteq> []"
  then obtain y zs where y: "ys = y # zs" by (cases ys) auto
  show p: "m (hd ys + off + 8) = Some t" using assms by (simp add: dlist_def pseg_append y)
  then show "hd ys + off + 8 \<in> dom m" by auto
  show "t \<noteq> hd ys + off + 8" using dlist_slot_neq [OF assms(1), of "hd ys"] assms(2) y by simp
  show "hd ys + off + 8 \<in> dcells off (xs @ ys)" by (auto simp: dcells_def y)
qed

lemma dfresh_neq:
  assumes "dfresh off m s xs e" and "a \<in> insert s (dcells off xs)"
  shows "a \<noteq> e + off" "a \<noteq> e + off + 8" "a \<noteq> e + 8 + off" "e + off \<noteq> a" "e + off + 8 \<noteq> a"
  using assms by (auto simp: dfresh_def ac_simps)

text \<open>The stores of every insertion and removal, in one order.\<close>

definition dlink :: "ptr \<Rightarrow> ptr \<Rightarrow> ptr \<Rightarrow> ptr list \<Rightarrow> mem \<Rightarrow> mem" where
  "dlink off t e ys m = (if ys = [] then m(e + off \<mapsto> NULL, e + off + 8 \<mapsto> t, t \<mapsto> e)
     else m(e + off \<mapsto> hd ys, e + off + 8 \<mapsto> t, t \<mapsto> e, hd ys + off + 8 \<mapsto> e + off))"

definition dunlink :: "ptr \<Rightarrow> ptr \<Rightarrow> ptr list \<Rightarrow> mem \<Rightarrow> mem" where
  "dunlink off t ys m = (if ys = [] then m(t \<mapsto> NULL) else m(t \<mapsto> hd ys, hd ys + off + 8 \<mapsto> t))"

lemma dlink_neq:
  assumes l: "dlist off m s (xs @ ys)" and e: "dfresh off m s (xs @ ys) e" and t: "t = lslot off s xs"
  shows "t \<noteq> e + off" "t \<noteq> e + off + 8" "ys \<noteq> [] \<Longrightarrow> hd ys + off + 8 \<noteq> e + off"
    "ys \<noteq> [] \<Longrightarrow> hd ys \<noteq> e" "ys \<noteq> [] \<Longrightarrow> hd ys + 8 \<noteq> e" "ys \<noteq> [] \<Longrightarrow> t \<noteq> hd ys + off + 8"
proof -
  show "t \<noteq> e + off" "t \<noteq> e + off + 8" using dfresh_neq(1,2) [OF e dlist_at(4) [OF l t]] by auto
  assume ne: "ys \<noteq> []"
  then have "hd ys + off + 8 \<in> insert s (dcells off (xs @ ys))" using dlist_at(8) [OF l t] by simp
  from dfresh_neq(1,2) [OF e this] show "hd ys + off + 8 \<noteq> e + off" "hd ys \<noteq> e" "hd ys + 8 \<noteq> e"
    by (auto simp: ac_simps)
  show "t \<noteq> hd ys + off + 8" by (rule dlist_at(7) [OF l t ne])
qed

lemma dlink_ok:
  assumes l: "dlist off m s (xs @ ys)" and e: "dfresh off m s (xs @ ys) e" and t: "t = lslot off s xs"
  shows "dlist off (dlink off t e ys m) s (xs @ e # ys)"
    and "cells_kept (insert s (dcells off (xs @ e # ys))) m (dlink off t e ys m)"
proof -
  note at = dlist_at [OF l t] and neq = dlink_neq [OF l e t]
  show "dlist off (dlink off t e ys m) s (xs @ e # ys)"
    by (rule dlist_insert [OF l e t]) (use at neq dfresh_neq [OF e] in \<open>auto simp: dlink_def\<close>)
  show "cells_kept (insert s (dcells off (xs @ e # ys))) m (dlink off t e ys m)"
    using at e by (auto simp: cells_kept_def dlink_def dcells_def dfresh_def)
qed

lemma dunlink_ok:
  assumes l: "dlist off m s (xs @ e # ys)" and t: "t = lslot off s xs"
  shows "dlist off (dunlink off t ys m) s (xs @ ys)"
    and "cells_kept (insert s (dcells off (xs @ e # ys))) m (dunlink off t ys m)"
    and "m (e + off) = Some (hd (ys @ [NULL]))" "m (e + off + 8) = Some t" "t \<in> dom m"
    "hd (ys @ [NULL]) = NULL \<longleftrightarrow> ys = []" "ys \<noteq> [] \<Longrightarrow> hd ys + off + 8 \<in> dom m"
    "ys \<noteq> [] \<Longrightarrow> t \<noteq> hd ys + off + 8" "ys \<noteq> [] \<Longrightarrow> e \<noteq> hd ys" "ys \<noteq> [] \<Longrightarrow> e \<noteq> hd ys + 8"
proof -
  note at = dlist_at [OF l t] and at1 = dlist_at [of off m s "xs @ [e]" ys "e + off"]
  have l1: "dlist off m s ((xs @ [e]) @ ys)" using l by simp
  show "m (e + off) = Some (hd (ys @ [NULL]))" "m (e + off + 8) = Some t" "t \<in> dom m"
    "hd (ys @ [NULL]) = NULL \<longleftrightarrow> ys = []" "ys \<noteq> [] \<Longrightarrow> hd ys + off + 8 \<in> dom m"
    using at at1 l1 by simp_all
  show tn: "ys \<noteq> [] \<Longrightarrow> t \<noteq> hd ys + off + 8" using dlist_slot_neq [OF l, of "hd ys"] t by simp
  show "ys \<noteq> [] \<Longrightarrow> e \<noteq> hd ys" "ys \<noteq> [] \<Longrightarrow> e \<noteq> hd ys + 8"
    using l hd_in_set [of ys] by (auto simp: dlist_def)
  show "dlist off (dunlink off t ys m) s (xs @ ys)"
    by (rule dlist_remove [OF l t]) (use tn in \<open>auto simp: dunlink_def\<close>)
  show "cells_kept (insert s (dcells off (xs @ e # ys))) m (dunlink off t ys m)"
    using at at1 l1 by (auto simp: cells_kept_def dunlink_def dcells_def)
qed

lemma LIST_INSERT_HEAD_eq:
  assumes l: "dlist off m h xs" and e: "dfresh off m h xs e"
  shows "LIST_INSERT_HEAD h e off m = Some (dlink off h e xs m)"
proof -
  have l': "dlist off m h ([] @ xs)" and e': "dfresh off m h ([] @ xs) e" and t: "h = lslot off h []"
    using l e by simp_all
  show ?thesis
    using dlist_at [OF l' t] dlink_neq [OF l' e' t] e
    by (auto simp: LIST_INSERT_HEAD_def LIST_FIRST_def ld_def mem_access dlink_def dfresh_def fun_eq_iff)
qed

lemma LIST_INSERT_AFTER_eq:
  assumes l: "dlist off m h (xs @ [p] @ ys)" and e: "dfresh off m h (xs @ [p] @ ys) e"
  shows "LIST_INSERT_AFTER p e off m = Some (dlink off (p + off) e ys m)"
proof -
  have l': "dlist off m h ((xs @ [p]) @ ys)" and e': "dfresh off m h ((xs @ [p]) @ ys) e"
    and t: "p + off = lslot off h (xs @ [p])" using l e by simp_all
  show ?thesis
    using dlist_at [OF l' t] dlink_neq [OF l' e' t] e
    by (auto simp: LIST_INSERT_AFTER_def LIST_NEXT_def ld_def mem_access dlink_def dfresh_def fun_eq_iff)
qed

lemma LIST_INSERT_BEFORE_eq:
  assumes l: "dlist off m h (xs @ n # ys)" and e: "dfresh off m h (xs @ n # ys) e"
  shows "LIST_INSERT_BEFORE n e off m = Some (dlink off (lslot off h xs) e (n # ys) m)"
  using dlist_at [OF l refl] dlink_neq [OF l e refl] e
  by (auto simp: LIST_INSERT_BEFORE_def ld_def mem_access dlink_def dfresh_def fun_eq_iff)

lemma LIST_REMOVE_eq:
  assumes l: "dlist off m h (xs @ e # ys)"
  shows "LIST_REMOVE e off m = Some (dunlink off (lslot off h xs) ys m)"
  using dunlink_ok(3-) [OF l refl]
  by (auto simp: LIST_REMOVE_def LIST_NEXT_def ld_def mem_access dunlink_def fun_eq_iff)

subsection \<open>Well-formed tail queues\<close>

definition tailq_cells :: "ptr \<Rightarrow> ptr \<Rightarrow> ptr list \<Rightarrow> ptr set" where
  "tailq_cells off h xs = insert h (insert (h + 8) (dcells off xs))"

definition tfresh :: "ptr \<Rightarrow> mem \<Rightarrow> ptr \<Rightarrow> ptr list \<Rightarrow> ptr \<Rightarrow> bool" where
  "tfresh off m h xs e \<longleftrightarrow> dfresh off m h xs e \<and> e + off \<noteq> h + 8"

definition tlink :: "ptr \<Rightarrow> ptr \<Rightarrow> ptr \<Rightarrow> ptr \<Rightarrow> ptr list \<Rightarrow> mem \<Rightarrow> mem" where
  "tlink h off t e ys m = (if ys = [] then (dlink off t e ys m)(h + 8 \<mapsto> e + off) else dlink off t e ys m)"

definition tunlink :: "ptr \<Rightarrow> ptr \<Rightarrow> ptr \<Rightarrow> ptr list \<Rightarrow> mem \<Rightarrow> mem" where
  "tunlink h off t ys m = (if ys = [] then (dunlink off t ys m)(h + 8 \<mapsto> t) else dunlink off t ys m)"

lemma dlist_frame:
  assumes "dlist off m s xs" and "\<And>a. a \<in> insert s (dcells off xs) \<Longrightarrow> m' a = m a"
  shows "dlist off m' s xs"
  using assms nlist_frame [of m off s xs m'] pseg_frame [of m off s xs m']
  by (auto simp: dlist_def dcells_def)

lemma tailq_dlist: "tailq off m h xs \<Longrightarrow> dlist off m h xs"
  by (simp add: tailq_def)

lemma tailq_head:
  assumes "tailq off m h (xs @ ys)" and "t = lslot off h xs"
  shows "h + 8 \<in> dom m" "m (h + 8) = Some (lslot off h (xs @ ys))" "t \<noteq> h + 8" "h + 8 \<notin> dcells off (xs @ ys)"
    "ys \<noteq> [] \<Longrightarrow> hd ys + off + 8 \<noteq> h + 8"
proof -
  show n: "h + 8 \<notin> dcells off (xs @ ys)" and m: "m (h + 8) = Some (lslot off h (xs @ ys))"
    using assms(1) by (simp_all add: tailq_def)
  show "h + 8 \<in> dom m" using m by auto
  have "t \<in> insert h (dcells off (xs @ ys))" by (rule dlist_at(4) [OF tailq_dlist [OF assms(1)] assms(2)])
  then consider "t = h" | "t \<in> dcells off (xs @ ys)" by auto
  then show "t \<noteq> h + 8" using n by cases auto
  assume "ys \<noteq> []"
  then have "hd ys + off + 8 \<in> dcells off (xs @ ys)" by (simp add: dcells_def)
  then show "hd ys + off + 8 \<noteq> h + 8" using n by metis
qed

lemma tlink_ok:
  assumes q: "tailq off m h (xs @ ys)" and e: "tfresh off m h (xs @ ys) e" and t: "t = lslot off h xs"
  shows "tailq off (tlink h off t e ys m) h (xs @ e # ys)"
    and "cells_kept (tailq_cells off h (xs @ e # ys)) m (tlink h off t e ys m)"
proof -
  have l: "dlist off m h (xs @ ys)" and ef: "dfresh off m h (xs @ ys) e" and e8: "e + off \<noteq> h + 8" "e + off \<noteq> h"
    using q e by (auto simp: tailq_def tfresh_def dfresh_def)
  note hd = tailq_head [OF q t] and d = dlink_ok [OF l ef t] and neq = dlink_neq [OF l ef t]
  have n8: "h + 8 \<notin> insert h (dcells off (xs @ e # ys))" using hd(4) e8 by (auto simp: dcells_def)
  have "dlist off (tlink h off t e ys m) h (xs @ e # ys)"
    by (rule dlist_frame [OF d(1)]) (use n8 in \<open>auto simp: tlink_def\<close>)
  moreover have "tlink h off t e ys m (h + 8) = Some (lslot off h (xs @ e # ys))"
    using hd e8 by (auto simp: tlink_def dlink_def lslot_append lslot_nonempty)
  ultimately show "tailq off (tlink h off t e ys m) h (xs @ e # ys)"
    using n8 by (simp add: tailq_def)
  show "cells_kept (tailq_cells off h (xs @ e # ys)) m (tlink h off t e ys m)"
    using d(2) hd(1) by (auto simp: cells_kept_def tailq_cells_def tlink_def)
qed

lemma tunlink_ok:
  assumes q: "tailq off m h (xs @ e # ys)" and t: "t = lslot off h xs"
  shows "tailq off (tunlink h off t ys m) h (xs @ ys)"
    and "cells_kept (tailq_cells off h (xs @ e # ys)) m (tunlink h off t ys m)"
proof -
  have l: "dlist off m h (xs @ e # ys)" using q by (rule tailq_dlist)
  note hd = tailq_head [OF q t] and d = dunlink_ok [OF l t]
  have n8: "h + 8 \<notin> insert h (dcells off (xs @ ys))" using hd(4) by (auto simp: dcells_def)
  have y8: "ys \<noteq> [] \<Longrightarrow> hd ys + off \<noteq> h" using n8 hd_in_set [of ys] by (force simp: dcells_def)
  have "dlist off (tunlink h off t ys m) h (xs @ ys)"
    by (rule dlist_frame [OF d(1)]) (use n8 in \<open>auto simp: tunlink_def\<close>)
  moreover have "tunlink h off t ys m (h + 8) = Some (lslot off h (xs @ ys))"
    using hd y8 by (auto simp: tunlink_def dunlink_def lslot_append lslot_nonempty t)
  ultimately show "tailq off (tunlink h off t ys m) h (xs @ ys)"
    using n8 by (simp add: tailq_def)
  show "cells_kept (tailq_cells off h (xs @ e # ys)) m (tunlink h off t ys m)"
    using d(2) hd(1) by (auto simp: cells_kept_def tailq_cells_def tunlink_def)
qed

lemmas tailq_macro_defs = ld_def mem_access tlink_def dlink_def tunlink_def dunlink_def dfresh_def tfresh_def
  TAILQ_FIRST_def TAILQ_NEXT_def TAILQ_EMPTY_def TAILQ_INIT_def

lemma TAILQ_INSERT_HEAD_eq:
  assumes q: "tailq off m h xs" and e: "tfresh off m h xs e"
  shows "TAILQ_INSERT_HEAD h e off m = Some (tlink h off h e xs m)"
proof -
  have q': "tailq off m h ([] @ xs)" and e': "dfresh off m h ([] @ xs) e" and t: "h = lslot off h []"
    using q e by (simp_all add: tfresh_def)
  show ?thesis
    using dlist_at [OF tailq_dlist [OF q'] t] dlink_neq [OF tailq_dlist [OF q'] e' t] tailq_head [OF q' t] e
    by (auto simp: TAILQ_INSERT_HEAD_def tailq_macro_defs fun_eq_iff)
qed

lemma TAILQ_INSERT_TAIL_eq:
  assumes q: "tailq off m h xs" and e: "tfresh off m h xs e"
  shows "TAILQ_INSERT_TAIL h e off m = Some (tlink h off (lslot off h xs) e [] m)"
proof -
  have q': "tailq off m h (xs @ [])" and e': "dfresh off m h (xs @ []) e" using q e by (simp_all add: tfresh_def)
  show ?thesis
    using dlist_at [OF tailq_dlist [OF q'] refl] dlink_neq [OF tailq_dlist [OF q'] e' refl] tailq_head [OF q' refl] e
    by (auto simp: TAILQ_INSERT_TAIL_def tailq_macro_defs fun_eq_iff)
qed

lemma TAILQ_INSERT_AFTER_eq:
  assumes q: "tailq off m h (xs @ [p] @ ys)" and e: "tfresh off m h (xs @ [p] @ ys) e"
  shows "TAILQ_INSERT_AFTER h p e off m = Some (tlink h off (p + off) e ys m)"
proof -
  have q': "tailq off m h ((xs @ [p]) @ ys)" and e': "dfresh off m h ((xs @ [p]) @ ys) e"
    and t: "p + off = lslot off h (xs @ [p])" using q e by (simp_all add: tfresh_def)
  show ?thesis
    using dlist_at [OF tailq_dlist [OF q'] t] dlink_neq [OF tailq_dlist [OF q'] e' t] tailq_head [OF q' t] e
    by (auto simp: TAILQ_INSERT_AFTER_def tailq_macro_defs fun_eq_iff)
qed

lemma TAILQ_INSERT_BEFORE_eq:
  assumes q: "tailq off m h (xs @ n # ys)" and e: "tfresh off m h (xs @ n # ys) e"
  shows "TAILQ_INSERT_BEFORE n e off m = Some (tlink h off (lslot off h xs) e (n # ys) m)"
proof -
  have e': "dfresh off m h (xs @ n # ys) e" using e by (simp add: tfresh_def)
  show ?thesis
    using LIST_INSERT_BEFORE_eq [OF tailq_dlist [OF q] e']
    by (simp add: TAILQ_INSERT_BEFORE_def LIST_INSERT_BEFORE_def tlink_def)
qed

lemma TAILQ_REMOVE_eq:
  assumes q: "tailq off m h (xs @ e # ys)"
  shows "TAILQ_REMOVE h e off m = Some (tunlink h off (lslot off h xs) ys m)"
proof -
  have "e + off + 8 \<noteq> h + 8" "e + off \<noteq> h + 8" using q by (auto simp: tailq_def dcells_def)
  then show ?thesis
    using dunlink_ok(3-) [OF tailq_dlist [OF q] refl] tailq_head [OF q refl]
    by (auto simp: TAILQ_REMOVE_def tailq_macro_defs fun_eq_iff)
qed

text \<open>
  Reading the pointer behind a next pointer as the \<open>tqh_last\<close> of a head finds the element that
  holds the next pointer, or \<open>NULL\<close> for the first pointer of the head itself.
\<close>

lemma tailq_back:
  assumes q: "tailq off m h (us @ ws)"
  shows "do { p \<leftarrow> ld (lslot off h us + 8) m; ld p m } = Some (last (NULL # us))"
proof (cases us rule: rev_cases)
  case Nil
  have q': "tailq off m h (ws @ [])" using q Nil by simp
  show ?thesis
    using tailq_head(2) [OF q] dlist_at(2) [OF tailq_dlist [OF q'] refl] Nil by (simp add: ld_def)
next
  case (snoc vs u)
  have l: "dlist off m h (vs @ u # ws)" using tailq_dlist [OF q] snoc by simp
  show ?thesis
    using dlist_at(2,6) [OF l refl] snoc by (simp add: ld_def)
qed

lemma TAILQ_LAST_ok: "tailq off m h xs \<Longrightarrow> TAILQ_LAST h m = Some (last (NULL # xs))"
  using tailq_back [of off m h xs "[]"] tailq_head(2) [of off m h xs "[]" "lslot off h xs"]
  by (simp add: TAILQ_LAST_def ld_def)

lemma TAILQ_PREV_ok: "tailq off m h (us @ x # ws) \<Longrightarrow> TAILQ_PREV off x m = Some (last (NULL # us))"
  using tailq_back [of off m h us "x # ws"] dlist_at(6) [OF tailq_dlist [of off m h "us @ x # ws"] refl]
  by (simp add: TAILQ_PREV_def ld_def)

lemma TAILQ_FIRST_ok: "tailq off m h xs \<Longrightarrow> TAILQ_FIRST h m = Some (hd (xs @ [NULL]))"
  using dlist_at(2) [of off m h "[]" xs h] by (simp add: TAILQ_FIRST_def ld_def tailq_dlist)

lemma TAILQ_NEXT_ok: "tailq off m h (us @ x # ws) \<Longrightarrow> TAILQ_NEXT off x m = Some (hd (ws @ [NULL]))"
  using dlist_at(2) [of off m h "us @ [x]" ws "x + off"] by (simp add: TAILQ_NEXT_def ld_def tailq_dlist)

lemma tailq_nonnull: "tailq off m h xs \<Longrightarrow> NULL \<notin> set xs"
  by (auto simp: tailq_def dlist_def dest: nlist_nonnull)

subsection \<open>Joining and exchanging\<close>

lemma dlist_rebase:
  assumes l: "dlist off m s xs" and s': "s' \<notin> dcells off xs"
    and m': "m' s' = Some (hd (xs @ [NULL]))" "xs \<noteq> [] \<Longrightarrow> m' (hd xs + off + 8) = Some s'"
      "\<And>a. a \<in> dcells off xs \<Longrightarrow> (xs \<noteq> [] \<Longrightarrow> a \<noteq> hd xs + off + 8) \<Longrightarrow> m' a = m a"
  shows "dlist off m' s' xs"
proof (cases xs)
  case Nil
  then show ?thesis using m'(1) by (simp add: dlist_def dcells_def)
next
  case (Cons y zs)
  have sep: "distinct xs" "\<forall>x \<in> set xs. \<forall>y \<in> set xs. x \<noteq> y + 8" using l by (simp_all add: dlist_def)
  have "nlist m' off (y + off) zs"
  proof (rule nlist_frame [of m])
    show "nlist m off (y + off) zs" using l Cons by (simp add: dlist_def)
    fix a assume "a \<in> set ((y + off) # map (\<lambda>x. x + off) zs)"
    then obtain x where x: "x \<in> set xs" "a = x + off" using Cons by auto
    then have "a \<noteq> hd xs + off + 8" using sep Cons by (auto simp: ac_simps)
    then show "m' a = m a" using x by (intro m'(3)) (auto simp: dcells_def)
  qed
  moreover have "pseg m' off (y + off) zs"
  proof (rule pseg_frame [of m])
    show "pseg m off (y + off) zs" using l Cons by (simp add: dlist_def)
    fix x assume "x \<in> set zs"
    then show "m' (x + off + 8) = m (x + off + 8)" using sep Cons by (intro m'(3)) (auto simp: dcells_def)
  qed
  moreover have "y \<noteq> NULL" using l Cons by (simp add: dlist_def)
  ultimately show ?thesis using m'(1,2) sep s' Cons by (simp add: dlist_def)
qed

lemma dlist_concat:
  assumes l1: "dlist off m s xs" and l2: "dlist off m s2 ys" and ne: "ys \<noteq> []"
    and disj: "insert s (dcells off xs) \<inter> dcells off ys = {}" and t: "t = lslot off s xs"
    and m': "m' t = Some (hd ys)" "m' (hd ys + off + 8) = Some t"
      "\<And>a. a \<in> insert s (dcells off xs) \<union> dcells off ys \<Longrightarrow> a \<noteq> t \<Longrightarrow> a \<noteq> hd ys + off + 8 \<Longrightarrow> m' a = m a"
  shows "dlist off m' s (xs @ ys)"
proof -
  have y: "hd ys + off + 8 \<in> dcells off ys" using ne by (simp add: dcells_def)
  have tin: "t \<in> insert s (dcells off xs)" using dlist_at(4) [of off m s xs "[]" t] l1 t by simp
  have tn: "t \<notin> dcells off ys" using tin disj by auto
  have l2': "dlist off m' t ys"
    by (rule dlist_rebase [OF l2 tn]) (use m' ne tn in auto)
  have a1: "m' a = m a" if "a \<in> insert s (dcells off xs)" "a \<noteq> t" for a
    using that y disj by (intro m'(3)) auto
  have "nseg m' off s xs"
  proof (rule nseg_frame [of m])
    show "nseg m off s xs" using l1 nlist_append [of m off s xs "[]"] by (simp add: dlist_def)
    fix a assume a: "a \<in> set (butlast (s # map (\<lambda>x. x + off) xs))"
    have "distinct (s # map (\<lambda>x. x + off) xs)" using dlist_slist [OF l1] by (simp add: slist_def)
    from last_notin_butlast [OF this a] have "a \<noteq> t" by (simp only: t lslot_def not_False_eq_True)
    then show "m' a = m a" using in_set_butlastD [OF a] by (intro a1) (auto simp: dcells_def)
  qed
  moreover have "pseg m' off s xs"
  proof (rule pseg_frame [of m])
    show "pseg m off s xs" using l1 by (simp add: dlist_def)
    fix x assume x: "x \<in> set xs"
    then show "m' (x + off + 8) = m (x + off + 8)"
      using dlist_slot_neq [of off m s xs "[]" x] l1 t by (intro a1) (auto simp: dcells_def)
  qed
  moreover have "distinct (xs @ ys)" "s \<notin> dcells off (xs @ ys)"
    using l1 l2 disj by (auto simp: dlist_def dcells_def)
  moreover have "\<forall>x \<in> set (xs @ ys). \<forall>y \<in> set (xs @ ys). x \<noteq> y + 8"
  proof (intro ballI)
    fix x y assume "x \<in> set (xs @ ys)" "y \<in> set (xs @ ys)"
    moreover have "False" if "x \<in> set xs" "y \<in> set ys" "x = y + 8" for x y
    proof -
      have "x + off \<in> dcells off xs" "y + off + 8 \<in> dcells off ys" using that by (auto simp: dcells_def)
      then show False using that(3) disj by (auto simp: ac_simps)
    qed
    moreover have "False" if "x \<in> set ys" "y \<in> set xs" "x = y + 8" for x y
    proof -
      have "x + off \<in> dcells off ys" "y + off + 8 \<in> dcells off xs" using that by (auto simp: dcells_def)
      then show False using that(3) disj by (auto simp: ac_simps)
    qed
    ultimately show "x \<noteq> y + 8" using l1 l2 by (auto simp: dlist_def)
  qed
  ultimately show ?thesis using l2' t by (simp add: dlist_def nlist_append pseg_append)
qed

lemma tailq_cells_dom: "tailq off m h xs \<Longrightarrow> tailq_cells off h xs \<subseteq> dom m"
proof -
  assume q: "tailq off m h xs"
  then have "set (h # map (\<lambda>x. x + off) xs) \<subseteq> dom m" "(\<lambda>x. x + off + 8) ` set xs \<subseteq> dom m"
    using nlist_cells [of m off h xs] pseg_cells [of m off h xs] by (simp_all add: tailq_def dlist_def)
  then show ?thesis using q by (auto simp: tailq_def tailq_cells_def dcells_def)
qed

lemma TAILQ_CONCAT_ok:
  assumes q1: "tailq off m h1 xs" and q2: "tailq off m h2 ys"
    and disj: "tailq_cells off h1 xs \<inter> tailq_cells off h2 ys = {}"
  shows "\<exists>m'. TAILQ_CONCAT h1 h2 off m = Some m' \<and> tailq off m' h1 (xs @ ys) \<and> tailq off m' h2 []"
proof (cases "ys = []")
  case True
  then have "TAILQ_CONCAT h1 h2 off m = Some m"
    using TAILQ_FIRST_ok [OF q2] by (simp add: TAILQ_CONCAT_def TAILQ_EMPTY_def TAILQ_FIRST_def)
  then show ?thesis using q1 q2 True by simp
next
  case False
  define t z where t: "t = lslot off h1 xs" and z: "z = hd ys + off + 8"
  have q1': "tailq off m h1 (xs @ [])" and q2': "tailq off m h2 ([] @ ys)" using q1 q2 by simp_all
  note at1 = dlist_at [OF tailq_dlist [OF q1'] t] tailq_head [OF q1' t]
  note at2 = dlist_at [OF tailq_dlist [OF q2'], of h2] tailq_head [OF q2', of h2]
  have f: "m h2 = Some (hd ys)" "hd ys \<noteq> NULL" using at2(2,3) False by auto
  have c: "t \<in> tailq_cells off h1 xs" "h1 + 8 \<in> tailq_cells off h1 xs" "h2 \<in> tailq_cells off h2 ys"
      "h2 + 8 \<in> tailq_cells off h2 ys" "z \<in> tailq_cells off h2 ys"
    using at1(4) False by (auto simp: tailq_cells_def dcells_def z)
  then have ne: "t \<noteq> h2" "t \<noteq> h2 + 8" "h1 + 8 \<noteq> h2" "h1 + 8 \<noteq> h2 + 8" "t \<noteq> z" "h1 + 8 \<noteq> z"
    using disj by auto
  have zn: "z \<noteq> h2" "z \<noteq> h2 + 8" using at2 False q2 by (auto simp: z tailq_def dlist_def dcells_def)
  define m' where "m' = m(t \<mapsto> hd ys, z \<mapsto> t, h1 + 8 \<mapsto> lslot off h2 ys, h2 \<mapsto> NULL, h2 + 8 \<mapsto> h2)"
  have d: "t \<in> dom m" "h1 + 8 \<in> dom m" "h2 \<in> dom m" "h2 + 8 \<in> dom m" "z \<in> dom m"
    using tailq_cells_dom [OF q1] tailq_cells_dom [OF q2] c by auto
  have "TAILQ_CONCAT h1 h2 off m = Some m'"
    using f ne zn d at1(10,11) at2(10) by (simp add: TAILQ_CONCAT_def tailq_macro_defs m'_def t z)
  moreover have "tailq off m' h2 []" using ne zn by (simp add: tailq_def dlist_def dcells_def m'_def)
  moreover have "dlist off m' h1 (xs @ ys)"
  proof (rule dlist_concat [OF tailq_dlist [OF q1] tailq_dlist [OF q2] False _ t])
    show "insert h1 (dcells off xs) \<inter> dcells off ys = {}" using disj by (auto simp: tailq_cells_def)
    show "m' t = Some (hd ys)" "m' (hd ys + off + 8) = Some t" using ne at1(11) zn by (auto simp: m'_def z)
    fix a assume a: "a \<in> insert h1 (dcells off xs) \<union> dcells off ys" "a \<noteq> t" "a \<noteq> hd ys + off + 8"
    have "a \<noteq> h1 + 8" "a \<noteq> h2" "a \<noteq> h2 + 8"
      using a(1) disj q1 q2 by (auto simp: tailq_cells_def tailq_def dlist_def)
    then show "m' a = m a" using a by (simp add: m'_def z)
  qed
  moreover have "m' (h1 + 8) = Some (lslot off h1 (xs @ ys))"
    using ne False by (simp add: m'_def lslot_append lslot_nonempty)
  moreover have "h1 + 8 \<notin> dcells off (xs @ ys)"
    using q1 disj by (auto simp: tailq_def tailq_cells_def dcells_def)
  ultimately show ?thesis by (auto simp: tailq_def)
qed

lemma TAILQ_SWAP_ok:
  assumes q1: "tailq off m h1 xs" and q2: "tailq off m h2 ys"
    and disj: "tailq_cells off h1 xs \<inter> tailq_cells off h2 ys = {}"
  shows "\<exists>m'. TAILQ_SWAP h1 h2 off m = Some m' \<and> tailq off m' h1 ys \<and> tailq off m' h2 xs"
proof -
  define zx zy where zx: "zx = hd xs + off + 8" and zy: "zy = hd ys + off + 8"
  have q1': "tailq off m h1 ([] @ xs)" and q2': "tailq off m h2 ([] @ ys)" using q1 q2 by simp_all
  note at1 = dlist_at [OF tailq_dlist [OF q1'], of h1] tailq_head [OF q1', of h1]
  note at2 = dlist_at [OF tailq_dlist [OF q2'], of h2] tailq_head [OF q2', of h2]
  have f: "m h1 = Some (hd (xs @ [NULL]))" "m h2 = Some (hd (ys @ [NULL]))"
      "m (h1 + 8) = Some (lslot off h1 xs)" "m (h2 + 8) = Some (lslot off h2 ys)"
    using at1(2,10) at2(2,10) by simp_all
  have zn: "xs \<noteq> [] \<Longrightarrow> hd xs \<noteq> NULL" "ys \<noteq> [] \<Longrightarrow> hd ys \<noteq> NULL" using at1(3) at2(3) by auto
  have zin: "xs \<noteq> [] \<Longrightarrow> zx \<in> dcells off xs" "ys \<noteq> [] \<Longrightarrow> zy \<in> dcells off ys"
    by (simp_all add: zx zy dcells_def)
  have sep: "h1 \<notin> dcells off xs" "h1 + 8 \<notin> dcells off xs" "h2 \<notin> dcells off xs" "h2 + 8 \<notin> dcells off xs"
      "h1 \<notin> dcells off ys" "h1 + 8 \<notin> dcells off ys" "h2 \<notin> dcells off ys" "h2 + 8 \<notin> dcells off ys"
      "h1 \<noteq> h2" "h1 \<noteq> h2 + 8" "h1 + 8 \<noteq> h2" "dcells off xs \<inter> dcells off ys = {}"
    using q1 q2 disj by (auto simp: tailq_cells_def tailq_def dlist_def)
  have d: "h1 \<in> dom m" "h1 + 8 \<in> dom m" "h2 \<in> dom m" "h2 + 8 \<in> dom m" "xs \<noteq> [] \<Longrightarrow> zx \<in> dom m"
      "ys \<noteq> [] \<Longrightarrow> zy \<in> dom m"
    using f at1(5) at2(5) by (auto simp: zx zy)
  have zneq: "xs \<noteq> [] \<Longrightarrow> zx \<notin> {h1, h1 + 8, h2, h2 + 8}" "ys \<noteq> [] \<Longrightarrow> zy \<notin> {h1, h1 + 8, h2, h2 + 8}"
      "xs \<noteq> [] \<Longrightarrow> ys \<noteq> [] \<Longrightarrow> zx \<noteq> zy"
    using sep zin by auto
  define m1 where "m1 = m(h1 \<mapsto> hd (ys @ [NULL]), h1 + 8 \<mapsto> lslot off h1 ys,
      h2 \<mapsto> hd (xs @ [NULL]), h2 + 8 \<mapsto> lslot off h2 xs)"
  define m2 where "m2 = (if ys = [] then m1 else m1(zy \<mapsto> h1))"
  define m' where "m' = (if xs = [] then m2 else m2(zx \<mapsto> h2))"
  have run: "TAILQ_SWAP h1 h2 off m = Some m'"
    using f zn sep d zneq
    by (cases "xs = []"; cases "ys = []")
      (auto simp: TAILQ_SWAP_def tailq_macro_defs m'_def m2_def m1_def zx zy lslot_nonempty fun_eq_iff)
  have val: "m' h1 = Some (hd (ys @ [NULL]))" "m' h2 = Some (hd (xs @ [NULL]))"
      "m' (h1 + 8) = Some (lslot off h1 ys)" "m' (h2 + 8) = Some (lslot off h2 xs)"
      "xs \<noteq> [] \<Longrightarrow> m' zx = Some h2" "ys \<noteq> [] \<Longrightarrow> m' zy = Some h1"
    using sep zneq by (auto simp: m'_def m2_def m1_def)
  have fr: "m' a = m a" if "a \<in> dcells off xs \<union> dcells off ys" "xs \<noteq> [] \<Longrightarrow> a \<noteq> zx" "ys \<noteq> [] \<Longrightarrow> a \<noteq> zy" for a
  proof -
    have "a \<noteq> h1" "a \<noteq> h2" "a \<noteq> h1 + 8" "a \<noteq> h2 + 8" using that(1) sep by auto
    then show ?thesis using that(2,3) by (simp add: m'_def m2_def m1_def)
  qed
  have "dlist off m' h1 ys"
    by (rule dlist_rebase [OF tailq_dlist [OF q2] sep(5)])
      (use val zin sep(12) in \<open>auto simp: zy intro!: fr\<close>)
  moreover have "dlist off m' h2 xs"
    by (rule dlist_rebase [OF tailq_dlist [OF q1] sep(3)])
      (use val zin sep(12) in \<open>auto simp: zx intro!: fr\<close>)
  ultimately show ?thesis using run val sep by (simp add: tailq_def)
qed

lemma LIST_SWAP_ok:
  assumes l1: "dlist off m h1 xs" and l2: "dlist off m h2 ys"
    and disj: "insert h1 (dcells off xs) \<inter> insert h2 (dcells off ys) = {}"
  shows "\<exists>m'. LIST_SWAP h1 h2 off m = Some m' \<and> dlist off m' h1 ys \<and> dlist off m' h2 xs"
proof -
  define zx zy where zx: "zx = hd xs + off + 8" and zy: "zy = hd ys + off + 8"
  note at1 = dlist_at [of off m h1 "[]" xs h1] and at2 = dlist_at [of off m h2 "[]" ys h2]
  have f: "m h1 = Some (hd (xs @ [NULL]))" "m h2 = Some (hd (ys @ [NULL]))"
    and zn: "xs \<noteq> [] \<Longrightarrow> hd xs \<noteq> NULL" "ys \<noteq> [] \<Longrightarrow> hd ys \<noteq> NULL"
    using at1(2,3) at2(2,3) l1 l2 by auto
  have zin: "xs \<noteq> [] \<Longrightarrow> zx \<in> dcells off xs" "ys \<noteq> [] \<Longrightarrow> zy \<in> dcells off ys"
    by (simp_all add: zx zy dcells_def)
  have sep: "h1 \<notin> dcells off xs" "h2 \<notin> dcells off xs" "h1 \<notin> dcells off ys" "h2 \<notin> dcells off ys"
      "h1 \<noteq> h2" "dcells off xs \<inter> dcells off ys = {}"
    using l1 l2 disj by (auto simp: dlist_def)
  have d: "h1 \<in> dom m" "h2 \<in> dom m" "xs \<noteq> [] \<Longrightarrow> zx \<in> dom m" "ys \<noteq> [] \<Longrightarrow> zy \<in> dom m"
    using f at1(5) at2(5) l1 l2 by (auto simp: zx zy)
  have zneq: "xs \<noteq> [] \<Longrightarrow> zx \<notin> {h1, h2}" "ys \<noteq> [] \<Longrightarrow> zy \<notin> {h1, h2}"
      "xs \<noteq> [] \<Longrightarrow> ys \<noteq> [] \<Longrightarrow> zx \<noteq> zy"
    using sep zin by auto
  define m1 where "m1 = m(h1 \<mapsto> hd (ys @ [NULL]), h2 \<mapsto> hd (xs @ [NULL]))"
  define m2 where "m2 = (if ys = [] then m1 else m1(zy \<mapsto> h1))"
  define m' where "m' = (if xs = [] then m2 else m2(zx \<mapsto> h2))"
  have run: "LIST_SWAP h1 h2 off m = Some m'"
    using f zn sep d zneq
    by (cases "xs = []"; cases "ys = []")
      (auto simp: LIST_SWAP_def LIST_FIRST_def ld_def mem_access m'_def m2_def m1_def zx zy fun_eq_iff)
  have val: "m' h1 = Some (hd (ys @ [NULL]))" "m' h2 = Some (hd (xs @ [NULL]))"
      "xs \<noteq> [] \<Longrightarrow> m' zx = Some h2" "ys \<noteq> [] \<Longrightarrow> m' zy = Some h1"
    using sep zneq by (auto simp: m'_def m2_def m1_def)
  have fr: "m' a = m a" if "a \<in> dcells off xs \<union> dcells off ys" "xs \<noteq> [] \<Longrightarrow> a \<noteq> zx" "ys \<noteq> [] \<Longrightarrow> a \<noteq> zy" for a
  proof -
    have "a \<noteq> h1" "a \<noteq> h2" using that(1) sep by auto
    then show ?thesis using that(2,3) by (simp add: m'_def m2_def m1_def)
  qed
  have "dlist off m' h1 ys"
    by (rule dlist_rebase [OF l2 sep(3)]) (use val zin sep(6) in \<open>auto simp: zy intro!: fr\<close>)
  moreover have "dlist off m' h2 xs"
    by (rule dlist_rebase [OF l1 sep(2)]) (use val zin sep(6) in \<open>auto simp: zx intro!: fr\<close>)
  ultimately show ?thesis using run by blast
qed

subsection \<open>Loops\<close>

lemma TAILQ_FOREACH_pure:
  assumes q: "tailq off m h xs" and b: "\<And>x s. x \<in> set xs \<Longrightarrow> body x (s, m) = Some (g x s, m)"
  shows "TAILQ_FOREACH body h off (s, m) = Some (fold g xs s, m)"
proof -
  have "foreach_loop (TAILQ_NEXT off) body (hd (xs @ [NULL])) (s, m) = Some (fold g xs s, m)"
    by (rule foreach_loop_pure) (use q b tailq_nonnull TAILQ_NEXT_ok in auto)
  then show ?thesis using TAILQ_FIRST_ok [OF q] by (simp add: TAILQ_FOREACH_def)
qed

lemma last_NULL_rev: "last (NULL # rev ws) = hd (ws @ [NULL])"
  by (cases ws) simp_all

lemma TAILQ_FOREACH_REVERSE_pure:
  assumes q: "tailq off m h xs" and b: "\<And>x s. x \<in> set xs \<Longrightarrow> body x (s, m) = Some (g x s, m)"
  shows "TAILQ_FOREACH_REVERSE body h off (s, m) = Some (fold g (rev xs) s, m)"
proof -
  have "foreach_loop (TAILQ_PREV off) body (hd (rev xs @ [NULL])) (s, m) = Some (fold g (rev xs) s, m)"
  proof (rule foreach_loop_pure)
    show "NULL \<notin> set (rev xs)" using tailq_nonnull [OF q] by simp
    show "body x (s, m) = Some (g x s, m)" if "x \<in> set (rev xs)" for x s using that b by simp
    fix us x ws assume "rev xs = us @ x # ws"
    then have "xs = rev ws @ x # rev us" by (metis append.assoc append_Cons append_Nil rev.simps(2) rev_append rev_rev_ident)
    then show "TAILQ_PREV off x m = Some (hd (ws @ [NULL]))"
      using TAILQ_PREV_ok [of off m h "rev ws" x "rev us"] q last_NULL_rev [of ws] by simp
  qed
  then show ?thesis
    using TAILQ_LAST_ok [OF q] last_NULL_rev [of "rev xs"] by (simp add: TAILQ_FOREACH_REVERSE_def)
qed

text \<open>A loop body that removes the elements satisfying \<open>P\<close> and records them.\<close>

definition tq_purge :: "(ptr \<Rightarrow> bool) \<Rightarrow> ptr \<Rightarrow> ptr \<Rightarrow> ptr list mbody" where
  "tq_purge P h off e s =
     (if P e then do { m \<leftarrow> TAILQ_REMOVE h e off (snd s); Some (fst s @ [e], m) } else Some s)"

lemma foreach_safe_tq_purge:
  assumes "tailq off m h (us @ vs)"
  shows "\<exists>m'. foreach_safe_loop (TAILQ_NEXT off) (tq_purge P h off) (hd (vs @ [NULL])) (s, m)
    = Some (s @ filter P vs, m') \<and> tailq off m' h (us @ filter (Not \<circ> P) vs)"
  using assms
proof (induction vs arbitrary: us s m)
  case Nil
  then show ?case by (simp add: foreach_safe_loop.simps)
next
  case (Cons v vs)
  let ?us = "us @ (if P v then [] else [v])"
  have v: "v \<noteq> NULL" using tailq_nonnull [OF Cons.prems] by auto
  note n = TAILQ_NEXT_ok [OF Cons.prems]
  obtain m1 where b: "tq_purge P h off v (s, m) = Some (s @ (if P v then [v] else []), m1)"
    and q1: "tailq off m1 h (?us @ vs)"
    using TAILQ_REMOVE_eq [OF Cons.prems] tunlink_ok(1) [OF Cons.prems refl] Cons.prems
    by (cases "P v") (auto simp: tq_purge_def)
  obtain m' where l: "foreach_safe_loop (TAILQ_NEXT off) (tq_purge P h off) (hd (vs @ [NULL]))
        (s @ (if P v then [v] else []), m1) = Some ((s @ (if P v then [v] else [])) @ filter P vs, m')"
      and q': "tailq off m' h (?us @ filter (Not \<circ> P) vs)"
    using Cons.IH [OF q1] by blast
  have "tailq off m' h (us @ filter (Not \<circ> P) (v # vs))" using q' by (cases "P v") simp_all
  then show ?case
    using v b n l by (subst foreach_safe_loop.simps) (cases "P v", simp_all)
qed

lemma foreach_reverse_safe_tq_purge:
  assumes "tailq off m h (vs @ us)"
  shows "\<exists>m'. foreach_safe_loop (TAILQ_PREV off) (tq_purge P h off) (last (NULL # vs)) (s, m)
    = Some (s @ filter P (rev vs), m') \<and> tailq off m' h (filter (Not \<circ> P) vs @ us)"
  using assms
proof (induction vs arbitrary: us s m rule: rev_induct)
  case Nil
  then show ?case by (simp add: foreach_safe_loop.simps)
next
  case (snoc v vs)
  let ?us = "(if P v then [] else [v]) @ us"
  have q: "tailq off m h (vs @ v # us)" using snoc.prems by simp
  have v: "v \<noteq> NULL" using tailq_nonnull [OF q] by auto
  note n = TAILQ_PREV_ok [OF q]
  obtain m1 where b: "tq_purge P h off v (s, m) = Some (s @ (if P v then [v] else []), m1)"
    and q1: "tailq off m1 h (vs @ ?us)"
    using TAILQ_REMOVE_eq [OF q] tunlink_ok(1) [OF q refl] q
    by (cases "P v") (auto simp: tq_purge_def)
  obtain m' where l: "foreach_safe_loop (TAILQ_PREV off) (tq_purge P h off) (last (NULL # vs))
        (s @ (if P v then [v] else []), m1) = Some ((s @ (if P v then [v] else [])) @ filter P (rev vs), m')"
      and q': "tailq off m' h (filter (Not \<circ> P) vs @ ?us)"
    using snoc.IH [OF q1] by blast
  have "tailq off m' h (filter (Not \<circ> P) (vs @ [v]) @ us)" using q' by (cases "P v") simp_all
  then show ?case
    using v b n l by (subst foreach_safe_loop.simps) (cases "P v", simp_all)
qed

subsection \<open>The contracts\<close>

definition list_ops :: "ptr \<Rightarrow> ptr \<Rightarrow> (mem, ptr) deque_ops" where
  "list_ops h off = \<lparr>op_push_head = \<lambda>x. LIST_INSERT_HEAD h x off, op_push_tail = \<lambda>_ _. None,
     op_pop_head = \<lambda>m. do { x \<leftarrow> LIST_FIRST h m; m \<leftarrow> LIST_REMOVE x off m; Some (x, m) },
     op_pop_tail = \<lambda>_. None, op_is_empty = LIST_EMPTY h\<rparr>"

definition tailq_ops :: "ptr \<Rightarrow> ptr \<Rightarrow> (mem, ptr) deque_ops" where
  "tailq_ops h off = \<lparr>op_push_head = \<lambda>x. TAILQ_INSERT_HEAD h x off,
     op_push_tail = \<lambda>x. TAILQ_INSERT_TAIL h x off,
     op_pop_head = \<lambda>m. do { x \<leftarrow> TAILQ_FIRST h m; m \<leftarrow> TAILQ_REMOVE h x off m; Some (x, m) },
     op_pop_tail = \<lambda>m. do { x \<leftarrow> TAILQ_LAST h m; m \<leftarrow> TAILQ_REMOVE h x off m; Some (x, m) },
     op_is_empty = TAILQ_EMPTY h\<rparr>"

text \<open>
  An element whose two cells are allocated and overlap neither the head nor, shifted by one
  pointer, any other element of the pool \<open>A\<close> the queue draws from.
\<close>

definition pool :: "ptr set \<Rightarrow> bool" where
  "pool A \<longleftrightarrow> (\<forall>x \<in> A. \<forall>y \<in> A. x \<noteq> y + 8)"

definition list_node :: "ptr set \<Rightarrow> ptr \<Rightarrow> ptr \<Rightarrow> mem \<Rightarrow> ptr \<Rightarrow> bool" where
  "list_node A h off m x \<longleftrightarrow> pool A \<and> x \<in> A \<and> x \<noteq> NULL \<and> x + off \<in> dom m \<and> x + off + 8 \<in> dom m
     \<and> x + off \<noteq> h \<and> x + off + 8 \<noteq> h"

definition tailq_node :: "ptr set \<Rightarrow> ptr \<Rightarrow> ptr \<Rightarrow> mem \<Rightarrow> ptr \<Rightarrow> bool" where
  "tailq_node A h off m x \<longleftrightarrow> list_node A h off m x \<and> x + off \<noteq> h + 8"

lemma list_node_kept:
  "cells_kept C m m' \<Longrightarrow> \<forall>y. list_node A h off m y \<longrightarrow> list_node A h off m' y"
  "cells_kept C m m' \<Longrightarrow> \<forall>y. tailq_node A h off m y \<longrightarrow> tailq_node A h off m' y"
  by (auto simp: cells_kept_def list_node_def tailq_node_def)

lemma list_fresh: "list_node A h off m x \<Longrightarrow> set xs \<subseteq> A \<Longrightarrow> x \<notin> set xs \<Longrightarrow> dfresh off m h xs x"
  by (auto simp: list_node_def dfresh_def dcells_def pool_def ac_simps subset_iff)

lemma tailq_fresh: "tailq_node A h off m x \<Longrightarrow> set xs \<subseteq> A \<Longrightarrow> x \<notin> set xs \<Longrightarrow> tfresh off m h xs x"
  by (auto simp: tailq_node_def tfresh_def intro: list_fresh)

interpretation dlist: stack "list_ops h off" "\<lambda>m xs. dlist off m h xs \<and> set xs \<subseteq> A" "list_node A h off"
  for A h off
proof
  fix m xs x
  assume s: "dlist off m h xs \<and> set xs \<subseteq> A" and n: "list_node A h off m x" and x: "x \<notin> set xs"
  have l: "dlist off m h ([] @ xs)" and e: "dfresh off m h ([] @ xs) x" and t: "h = lslot off h []"
    using s list_fresh [OF n _ x] by simp_all
  have xA: "x \<in> A" using n by (simp add: list_node_def)
  show "\<exists>m'. op_push_head (list_ops h off) x m = Some m' \<and> (dlist off m' h (x # xs) \<and> set (x # xs) \<subseteq> A)
      \<and> (\<forall>y. list_node A h off m y \<longrightarrow> list_node A h off m' y)"
    using LIST_INSERT_HEAD_eq [of off m h xs x] dlink_ok [OF l e t] list_node_kept(1) l e s xA
    by (auto simp: list_ops_def)
next
  fix m x xs assume s: "dlist off m h (x # xs) \<and> set (x # xs) \<subseteq> A"
  have l: "dlist off m h ([] @ x # xs)" and t: "h = lslot off h []" using s by simp_all
  show "\<exists>m'. op_pop_head (list_ops h off) m = Some (x, m') \<and> (dlist off m' h xs \<and> set xs \<subseteq> A)
      \<and> (\<forall>y. list_node A h off m y \<longrightarrow> list_node A h off m' y)"
    using LIST_REMOVE_eq [OF l] dunlink_ok(1,2) [OF l t] dlist_at(2) [OF l t] list_node_kept(1) s
    by (auto simp: list_ops_def LIST_FIRST_def ld_def)
next
  fix m xs assume "dlist off m h xs \<and> set xs \<subseteq> A"
  then show "op_is_empty (list_ops h off) m = Some (xs = [])"
    using dlist_at(2,3) [of off m h "[]" xs h] by (simp add: list_ops_def LIST_EMPTY_def ld_def)
qed

interpretation tailq: deque "tailq_ops h off" "\<lambda>m xs. tailq off m h xs \<and> set xs \<subseteq> A" "tailq_node A h off"
  for A h off
proof
  fix m xs x
  assume s: "tailq off m h xs \<and> set xs \<subseteq> A" and n: "tailq_node A h off m x" and x: "x \<notin> set xs"
  have q: "tailq off m h xs" and e: "tfresh off m h xs x" and xA: "set (x # xs) \<subseteq> A"
    using s tailq_fresh [OF n _ x] n by (auto simp: tailq_node_def list_node_def)
  have q1: "tailq off m h ([] @ xs)" "tfresh off m h ([] @ xs) x" "h = lslot off h []"
    and q2: "tailq off m h (xs @ [])" "tfresh off m h (xs @ []) x" using q e by simp_all
  show "\<exists>m'. op_push_head (tailq_ops h off) x m = Some m' \<and> (tailq off m' h (x # xs) \<and> set (x # xs) \<subseteq> A)
      \<and> (\<forall>y. tailq_node A h off m y \<longrightarrow> tailq_node A h off m' y)"
    using TAILQ_INSERT_HEAD_eq [OF q e] tlink_ok [OF q1] list_node_kept(2) xA
    by (auto simp: tailq_ops_def)
  show "\<exists>m'. op_push_tail (tailq_ops h off) x m = Some m' \<and> (tailq off m' h (xs @ [x]) \<and> set (xs @ [x]) \<subseteq> A)
      \<and> (\<forall>y. tailq_node A h off m y \<longrightarrow> tailq_node A h off m' y)"
    using TAILQ_INSERT_TAIL_eq [OF q e] tlink_ok [OF q2 refl] list_node_kept(2) xA
    by (auto simp: tailq_ops_def)
next
  fix m x xs assume s: "tailq off m h (x # xs) \<and> set (x # xs) \<subseteq> A"
  have q: "tailq off m h ([] @ x # xs)" using s by simp
  show "\<exists>m'. op_pop_head (tailq_ops h off) m = Some (x, m') \<and> (tailq off m' h xs \<and> set xs \<subseteq> A)
      \<and> (\<forall>y. tailq_node A h off m y \<longrightarrow> tailq_node A h off m' y)"
    using TAILQ_REMOVE_eq [OF q] tunlink_ok [OF q refl] TAILQ_FIRST_ok [of off m h "x # xs"] list_node_kept(2) s
    by (auto simp: tailq_ops_def)
next
  fix m xs x assume s: "tailq off m h (xs @ [x]) \<and> set (xs @ [x]) \<subseteq> A"
  have q: "tailq off m h (xs @ x # [])" using s by simp
  show "\<exists>m'. op_pop_tail (tailq_ops h off) m = Some (x, m') \<and> (tailq off m' h xs \<and> set xs \<subseteq> A)
      \<and> (\<forall>y. tailq_node A h off m y \<longrightarrow> tailq_node A h off m' y)"
    using TAILQ_REMOVE_eq [OF q] tunlink_ok [OF q refl] TAILQ_LAST_ok [of off m h "xs @ [x]"] list_node_kept(2) s
    by (auto simp: tailq_ops_def)
next
  fix m xs assume s: "tailq off m h xs \<and> set xs \<subseteq> A"
  then show "op_is_empty (tailq_ops h off) m = Some (xs = [])"
    using TAILQ_FIRST_ok [of off m h xs] hd_null_iff [OF tailq_nonnull [of off m h xs]]
    by (simp add: tailq_ops_def TAILQ_EMPTY_def TAILQ_FIRST_def)
qed

subsection \<open>Properties\<close>

text \<open>
  A tail queue at 8 (cells 8 and 16) of the elements 32 and 64, whose fields are at offset 4, an
  empty one at 200, and the free elements 96 and 128.
\<close>

definition sample_tq :: mem where
  "sample_tq = [8 \<mapsto> 32, 16 \<mapsto> 68, 36 \<mapsto> 64, 44 \<mapsto> 8, 68 \<mapsto> 0, 76 \<mapsto> 36,
     100 \<mapsto> 0, 108 \<mapsto> 0, 132 \<mapsto> 0, 140 \<mapsto> 0, 200 \<mapsto> 0, 208 \<mapsto> 200]"

lemma sample_tailq: "tailq 4 sample_tq 8 [32, 64]" "tailq 4 sample_tq 200 []" "dlist 4 sample_tq 8 [32, 64]"
  by (simp_all add: tailq_def dlist_def sample_tq_def dcells_def)

lemma sample_tq_dom: "dom sample_tq = {8, 16, 36, 44, 68, 76, 100, 108, 132, 140, 200, 208}"
  by (auto simp: sample_tq_def)

lemma sample_pool: "pool {32, 64, 96, 128}"
  by (simp add: pool_def)

text \<open>
  C9: Any sequence of TAILQ_INSERT_HEAD, TAILQ_INSERT_TAIL, removal of the first and of the last
  element and TAILQ_EMPTY that the abstract deque allows runs without a fault on a well-formed
  tail queue and answers as the list of elements would.
\<close>

theorem tailq_refines_deque:
  assumes "tailq off m h xs" and "set xs \<subseteq> A"
    and "\<forall>c \<in> set cs. \<forall>x \<in> pushed c. tailq_node A h off m x" and "spec_run cs xs = Some (rs, ys)"
  shows "\<exists>m'. impl_run (tailq_ops h off) cs m = Some (rs, m') \<and> tailq off m' h ys"
  using tailq.run_refines [OF _ assms(3,4)] assms(1,2) by blast

theorem tailq_refines_deque_witness:
  "\<exists>m'. impl_run (tailq_ops 8 4) [Pop_tail, Push_head 96, Push_tail 128, Pop_head, Pop_tail, Test_empty] sample_tq
     = Some ([Popped 64, Done, Done, Popped 96, Popped 128, Is_empty False], m') \<and> tailq 4 m' 8 [32]"
  by (rule tailq_refines_deque [OF sample_tailq(1), of "{32, 64, 96, 128}"])
    (simp_all add: tailq_node_def list_node_def sample_tq_dom sample_pool)

text \<open>
  TAILQ_INSERT_BEFORE, TAILQ_INSERT_AFTER and TAILQ_REMOVE edit a tail queue at any element,
  at either end too, and touch no cell outside it.
\<close>

theorem tailq_edits:
  assumes "tailq off m h (xs @ p # ys)" and "tfresh off m h (xs @ p # ys) e"
  shows "(\<exists>m'. TAILQ_INSERT_BEFORE p e off m = Some m' \<and> tailq off m' h (xs @ e # p # ys)
      \<and> cells_kept (tailq_cells off h (xs @ e # p # ys)) m m')
    \<and> (\<exists>m'. TAILQ_INSERT_AFTER h p e off m = Some m' \<and> tailq off m' h (xs @ p # e # ys)
      \<and> cells_kept (tailq_cells off h (xs @ p # e # ys)) m m')
    \<and> (\<exists>m'. TAILQ_REMOVE h p off m = Some m' \<and> tailq off m' h (xs @ ys)
      \<and> cells_kept (tailq_cells off h (xs @ p # ys)) m m')"
proof -
  have q: "tailq off m h ((xs @ [p]) @ ys)" and e: "tfresh off m h ((xs @ [p]) @ ys) e" using assms by simp_all
  show ?thesis
    using TAILQ_INSERT_BEFORE_eq [OF assms] tlink_ok [OF assms refl] TAILQ_REMOVE_eq [OF assms(1)]
      tunlink_ok [OF assms(1) refl] TAILQ_INSERT_AFTER_eq [of off m h xs p ys e] tlink_ok [OF q e refl] assms
    by simp
qed

theorem tailq_edits_witness:
  "\<exists>m'. TAILQ_INSERT_AFTER 8 64 96 4 sample_tq = Some m' \<and> tailq 4 m' 8 [32, 64, 96]"
  using tailq_edits [of 4 sample_tq 8 "[32]" 64 "[]" 96] sample_tailq(1)
  by (auto simp: tfresh_def dfresh_def dcells_def sample_tq_dom)

text \<open>
  TAILQ_CONCAT appends the second queue to the first and empties it; TAILQ_SWAP exchanges the
  contents of two queues, empty ones included. Both leave well-formed heads and back pointers.
\<close>

theorem tailq_concat_and_swap:
  assumes "tailq off m h1 xs" and "tailq off m h2 ys"
    and "tailq_cells off h1 xs \<inter> tailq_cells off h2 ys = {}"
  shows "(\<exists>m'. TAILQ_CONCAT h1 h2 off m = Some m' \<and> tailq off m' h1 (xs @ ys) \<and> tailq off m' h2 [])
    \<and> (\<exists>m'. TAILQ_SWAP h1 h2 off m = Some m' \<and> tailq off m' h1 ys \<and> tailq off m' h2 xs)"
  using TAILQ_CONCAT_ok [OF assms] TAILQ_SWAP_ok [OF assms] by blast

theorem tailq_concat_and_swap_witness:
  "(\<exists>m'. TAILQ_CONCAT 200 8 4 sample_tq = Some m' \<and> tailq 4 m' 200 [32, 64] \<and> tailq 4 m' 8 [])
   \<and> (\<exists>m'. TAILQ_SWAP 200 8 4 sample_tq = Some m' \<and> tailq 4 m' 200 [32, 64] \<and> tailq 4 m' 8 [])"
  using tailq_concat_and_swap [OF sample_tailq(2,1)] by (simp add: tailq_cells_def dcells_def)

text \<open>
  TAILQ_FOREACH visits the elements in order and TAILQ_FOREACH_REVERSE in reverse order, each
  exactly once; the safe forms allow the body to remove the current element, and remove exactly
  the elements the body chose. All four loops end.
\<close>

theorem tailq_foreach_loops:
  assumes "tailq off m h xs" and "\<forall>x \<in> set xs. \<forall>s. body x (s, m) = Some (g x s, m)"
  shows "TAILQ_FOREACH body h off (s, m) = Some (fold g xs s, m)
    \<and> TAILQ_FOREACH_REVERSE body h off (s, m) = Some (fold g (rev xs) s, m)
    \<and> (\<exists>m'. TAILQ_FOREACH_SAFE (tq_purge P h off) h off ([], m) = Some (filter P xs, m')
        \<and> tailq off m' h (filter (Not \<circ> P) xs))
    \<and> (\<exists>m'. TAILQ_FOREACH_REVERSE_SAFE (tq_purge P h off) h off ([], m) = Some (filter P (rev xs), m')
        \<and> tailq off m' h (filter (Not \<circ> P) xs))"
proof -
  have f: "TAILQ_FOREACH body h off (s, m) = Some (fold g xs s, m)"
    by (rule TAILQ_FOREACH_pure [OF assms(1)]) (use assms(2) in auto)
  have r: "TAILQ_FOREACH_REVERSE body h off (s, m) = Some (fold g (rev xs) s, m)"
    by (rule TAILQ_FOREACH_REVERSE_pure [OF assms(1)]) (use assms(2) in auto)
  show ?thesis
    using f r foreach_safe_tq_purge [of off m h "[]" xs P "[]"] foreach_reverse_safe_tq_purge [of off m h xs "[]" P "[]"]
      assms(1) TAILQ_FIRST_ok [OF assms(1)] TAILQ_LAST_ok [OF assms(1)]
    by (simp add: TAILQ_FOREACH_SAFE_def TAILQ_FOREACH_REVERSE_SAFE_def)
qed

theorem tailq_foreach_loops_witness:
  "TAILQ_FOREACH_REVERSE (\<lambda>x (s, m). Some (s @ [x], m)) 8 4 ([], sample_tq) = Some ([64, 32], sample_tq)
   \<and> (\<exists>m'. TAILQ_FOREACH_SAFE (tq_purge (\<lambda>x. x = 32) 8 4) 8 4 ([], sample_tq) = Some ([32], m')
        \<and> tailq 4 m' 8 [64])"
  using tailq_foreach_loops [OF sample_tailq(1), of "\<lambda>x (s, m). Some (s @ [x], m)" "\<lambda>x s. s @ [x]" "[]" "\<lambda>x. x = 32"]
  by auto

text \<open>
  On a well-formed list, LIST_INSERT_HEAD and removal of the first element behave as a stack on
  every admissible sequence of operations; LIST_INSERT_BEFORE, LIST_INSERT_AFTER and LIST_REMOVE
  edit it at any element without a head, and LIST_SWAP exchanges two lists.
\<close>

theorem list_stack_edits_swap:
  assumes "dlist off m h (xs @ p # ys)" and "dfresh off m h (xs @ p # ys) e"
    and "\<forall>c \<in> set cs. stack_op c" and "set (xs @ p # ys) \<subseteq> A"
    and "\<forall>c \<in> set cs. \<forall>x \<in> pushed c. list_node A h off m x" and "spec_run cs (xs @ p # ys) = Some (rs, zs)"
    and "dlist off m h2 us" and "insert h (dcells off (xs @ p # ys)) \<inter> insert h2 (dcells off us) = {}"
  shows "(\<exists>m'. impl_run (list_ops h off) cs m = Some (rs, m') \<and> dlist off m' h zs)
    \<and> (\<exists>m'. LIST_INSERT_BEFORE p e off m = Some m' \<and> dlist off m' h (xs @ e # p # ys))
    \<and> (\<exists>m'. LIST_INSERT_AFTER p e off m = Some m' \<and> dlist off m' h (xs @ p # e # ys))
    \<and> (\<exists>m'. LIST_REMOVE p off m = Some m' \<and> dlist off m' h (xs @ ys))
    \<and> (\<exists>m'. LIST_SWAP h h2 off m = Some m' \<and> dlist off m' h us \<and> dlist off m' h2 (xs @ p # ys))"
proof -
  have l: "dlist off m h ((xs @ [p]) @ ys)" and e: "dfresh off m h ((xs @ [p]) @ ys) e" using assms by simp_all
  have "\<exists>m'. impl_run (list_ops h off) cs m = Some (rs, m') \<and> dlist off m' h zs"
    using dlist.stack_run_refines [OF assms(3) _ assms(5,6)] assms(1,4) by blast
  then show ?thesis
    using LIST_INSERT_BEFORE_eq [OF assms(1,2)] dlink_ok(1) [OF assms(1,2) refl] LIST_REMOVE_eq [OF assms(1)]
      dunlink_ok(1) [OF assms(1) refl] LIST_INSERT_AFTER_eq [of off m h xs p ys e] dlink_ok(1) [OF l e refl]
      assms(1,2) LIST_SWAP_ok [OF assms(1,7,8)]
    by simp
qed

theorem list_stack_edits_swap_witness:
  "(\<exists>m'. impl_run (list_ops 8 4) [Pop_head, Push_head 96] sample_tq = Some ([Popped 32, Done], m')
      \<and> dlist 4 m' 8 [96, 64])
    \<and> (\<exists>m'. LIST_REMOVE 64 4 sample_tq = Some m' \<and> dlist 4 m' 8 [32])
    \<and> (\<exists>m'. LIST_SWAP 8 200 4 sample_tq = Some m' \<and> dlist 4 m' 8 [] \<and> dlist 4 m' 200 [32, 64])"
  using list_stack_edits_swap [of 4 sample_tq 8 "[32]" 64 "[]" 96 "[Pop_head, Push_head 96]" "{32, 64, 96}"
      "[Popped 32, Done]" "[96, 64]" 200 "[]"] sample_tailq(2,3) tailq_dlist
  by (simp add: dfresh_def dcells_def list_node_def pool_def sample_tq_dom)

end
