(* ===== verification/SysCircleQ.thy ===== *)
theory SysCircleQ
  imports KQueueElements
begin

text \<open>
  sys/queue.h, the circular queues: CIRCLEQ, whose head and elements both hold a next and a
  previous pointer to elements or to the head, and the old \<open>insque\<close> and \<open>remque\<close> on
  \<open>struct quehead\<close>. A head or an element field is a linkage of \<open>QueueHeap\<close>: \<open>cqh_first\<close>,
  \<open>cqe_next\<close> and \<open>qh_link\<close> are its next pointer, \<open>cqh_last\<close>, \<open>cqe_prev\<close> and \<open>qh_rlink\<close> its previous one.
  A CIRCLEQ is then the element chain of \<open>KQueueElements\<close>, maintained by other code.
\<close>

subsection \<open>CIRCLEQ\<close>

definition CIRCLEQ_FIRST :: "ptr \<Rightarrow> qheap \<Rightarrow> ptr option" where
  "CIRCLEQ_FIRST head h = q_next head h"

definition CIRCLEQ_LAST :: "ptr \<Rightarrow> qheap \<Rightarrow> ptr option" where
  "CIRCLEQ_LAST head h = q_prev head h"

definition CIRCLEQ_NEXT :: "ptr \<Rightarrow> ptr \<Rightarrow> qheap \<Rightarrow> ptr option" where
  "CIRCLEQ_NEXT elm off h = q_next (elm + off) h"

definition CIRCLEQ_PREV :: "ptr \<Rightarrow> ptr \<Rightarrow> qheap \<Rightarrow> ptr option" where
  "CIRCLEQ_PREV elm off h = q_prev (elm + off) h"

definition CIRCLEQ_EMPTY :: "ptr \<Rightarrow> qheap \<Rightarrow> bool option" where
  "CIRCLEQ_EMPTY head h = map_option (\<lambda>f. f = head) (q_next head h)"

definition CIRCLEQ_INIT :: "ptr \<Rightarrow> qheap \<Rightarrow> qheap option" where
  "CIRCLEQ_INIT head h = do { h \<leftarrow> q_set_next head head h; q_set_prev head head h }"

partial_function (option) CIRCLEQ_FOREACH_loop ::
  "'s qbody \<Rightarrow> ptr \<Rightarrow> ptr \<Rightarrow> ptr \<Rightarrow> 's \<times> qheap \<Rightarrow> ('s \<times> qheap) option" where
  "CIRCLEQ_FOREACH_loop body head off var st =
     (if var \<noteq> head then do {
        st \<leftarrow> body var st;
        n \<leftarrow> q_next (var + off) (snd st);
        CIRCLEQ_FOREACH_loop body head off n st }
      else Some st)"

definition CIRCLEQ_FOREACH :: "'s qbody \<Rightarrow> ptr \<Rightarrow> ptr \<Rightarrow> 's \<times> qheap \<Rightarrow> ('s \<times> qheap) option" where
  "CIRCLEQ_FOREACH body head off st = do {
     f \<leftarrow> q_next head (snd st);
     CIRCLEQ_FOREACH_loop body head off f st }"

definition CIRCLEQ_INSERT_AFTER :: "ptr \<Rightarrow> ptr \<Rightarrow> ptr \<Rightarrow> ptr \<Rightarrow> qheap \<Rightarrow> qheap option" where
  "CIRCLEQ_INSERT_AFTER head listelm elm off h = do {
     n \<leftarrow> q_next (listelm + off) h;
     h \<leftarrow> q_set_next (elm + off) n h;
     h \<leftarrow> q_set_prev (elm + off) listelm h;
     n \<leftarrow> q_next (listelm + off) h;
     h \<leftarrow> (if n = head then q_set_prev head elm h else q_set_prev (n + off) elm h);
     q_set_next (listelm + off) elm h }"

definition CIRCLEQ_INSERT_BEFORE :: "ptr \<Rightarrow> ptr \<Rightarrow> ptr \<Rightarrow> ptr \<Rightarrow> qheap \<Rightarrow> qheap option" where
  "CIRCLEQ_INSERT_BEFORE head listelm elm off h = do {
     h \<leftarrow> q_set_next (elm + off) listelm h;
     p \<leftarrow> q_prev (listelm + off) h;
     h \<leftarrow> q_set_prev (elm + off) p h;
     p \<leftarrow> q_prev (listelm + off) h;
     h \<leftarrow> (if p = head then q_set_next head elm h else q_set_next (p + off) elm h);
     q_set_prev (listelm + off) elm h }"

definition CIRCLEQ_INSERT_HEAD :: "ptr \<Rightarrow> ptr \<Rightarrow> ptr \<Rightarrow> qheap \<Rightarrow> qheap option" where
  "CIRCLEQ_INSERT_HEAD head elm off h = do {
     f \<leftarrow> q_next head h;
     h \<leftarrow> q_set_next (elm + off) f h;
     h \<leftarrow> q_set_prev (elm + off) head h;
     l \<leftarrow> q_prev head h;
     f \<leftarrow> q_next head h;
     h \<leftarrow> (if l = head then q_set_prev head elm h else q_set_prev (f + off) elm h);
     q_set_next head elm h }"

definition CIRCLEQ_INSERT_TAIL :: "ptr \<Rightarrow> ptr \<Rightarrow> ptr \<Rightarrow> qheap \<Rightarrow> qheap option" where
  "CIRCLEQ_INSERT_TAIL head elm off h = do {
     h \<leftarrow> q_set_next (elm + off) head h;
     l \<leftarrow> q_prev head h;
     h \<leftarrow> q_set_prev (elm + off) l h;
     f \<leftarrow> q_next head h;
     l \<leftarrow> q_prev head h;
     h \<leftarrow> (if f = head then q_set_next head elm h else q_set_next (l + off) elm h);
     q_set_prev head elm h }"

definition CIRCLEQ_REMOVE :: "ptr \<Rightarrow> ptr \<Rightarrow> ptr \<Rightarrow> qheap \<Rightarrow> qheap option" where
  "CIRCLEQ_REMOVE head elm off h = do {
     n \<leftarrow> q_next (elm + off) h;
     p \<leftarrow> q_prev (elm + off) h;
     h \<leftarrow> (if n = head then q_set_prev head p h else q_set_prev (n + off) p h);
     p \<leftarrow> q_prev (elm + off) h;
     n \<leftarrow> q_next (elm + off) h;
     if p = head then q_set_next head n h else q_set_next (p + off) n h }"

subsection \<open>struct quehead\<close>

definition quehead_insque :: "ptr \<Rightarrow> ptr \<Rightarrow> qheap \<Rightarrow> qheap option" where
  "quehead_insque element head h = do {
     n \<leftarrow> q_next head h;
     h \<leftarrow> q_set_next element n h;
     h \<leftarrow> q_set_prev element head h;
     h \<leftarrow> q_set_next head element h;
     n \<leftarrow> q_next element h;
     q_set_prev n element h }"

definition quehead_remque :: "ptr \<Rightarrow> qheap \<Rightarrow> qheap option" where
  "quehead_remque element h = do {
     n \<leftarrow> q_next element h;
     p \<leftarrow> q_prev element h;
     h \<leftarrow> q_set_prev n p h;
     p \<leftarrow> q_prev element h;
     n \<leftarrow> q_next element h;
     h \<leftarrow> q_set_next p n h;
     q_set_prev element 0 h }"

subsection \<open>Each macro on a well-formed chain\<close>

lemma chain_neq:
  assumes "chain off h q (xs @ ys)" and "elt + off \<notin> queue_field q off ` set (q # xs @ ys)"
    and "p = last (q # xs)" and "s = hd (ys @ [q])"
  shows "elt + off \<noteq> queue_field q off p" "elt + off \<noteq> queue_field q off s" "elt + off \<noteq> q"
    "p = q \<longleftrightarrow> xs = []" "s = q \<longleftrightarrow> ys = []"
proof -
  note ends = ring_ends [OF assms(1,3,4)]
  show "elt + off \<noteq> queue_field q off p" "elt + off \<noteq> queue_field q off s" "elt + off \<noteq> q"
    using assms(2) ends(1,2) by (auto simp: image_iff)
  have d: "distinct (q # xs @ ys)" using ring_distinct(1) [OF assms(1)] .
  show "p = q \<longleftrightarrow> xs = []" using d assms(3) by (auto dest: last_in_set split: if_splits)
  show "s = q \<longleftrightarrow> ys = []" using d assms(4) by (cases ys) auto
qed

text \<open>The stores of an insertion between \<open>p\<close> and \<open>s\<close>, in one order.\<close>

definition cq_link :: "ptr \<Rightarrow> ptr \<Rightarrow> ptr \<Rightarrow> ptr \<Rightarrow> ptr \<Rightarrow> qheap \<Rightarrow> qheap" where
  "cq_link q off p s elt h = upd_prev (queue_field q off s) elt (upd_next (queue_field q off p) elt
     (upd_prev (elt + off) p (upd_next (elt + off) s h)))"

lemma cq_link_ok:
  assumes "chain off h q (xs @ ys)" and "chainable q off h elt" and "elt \<notin> set (xs @ ys)"
    and "p = last (q # xs)" and "s = hd (ys @ [q])"
  shows "chain off (cq_link q off p s elt h) q (xs @ elt # ys)
    \<and> same_outside (queue_field q off ` set (q # xs @ elt # ys)) h (cq_link q off p s elt h)"
  by (rule chain_insert [OF assms(1) chain_fresh [OF assms(1-3)] assms(4,5)]) (simp add: cq_link_def)

lemma CIRCLEQ_INSERT_AFTER_eq:
  assumes r: "chain off h q (xs @ ys)" and c: "chainable q off h elt" and n: "elt \<notin> set (xs @ ys)"
    and p: "p = last (q # xs)" and s: "s = hd (ys @ [q])" and ne: "xs \<noteq> []"
  shows "CIRCLEQ_INSERT_AFTER q p elt off h = Some (cq_link q off p s elt h)"
  using ring_ends [OF r p s] chain_neq [OF r chain_fresh(3) [OF r c n] p s] chain_fresh(1,2) [OF r c n] ne
  by (cases "s = q") (simp_all add: CIRCLEQ_INSERT_AFTER_def cq_link_def q_access insert_absorb upd_next_prev)

lemma CIRCLEQ_INSERT_BEFORE_eq:
  assumes r: "chain off h q (xs @ ys)" and c: "chainable q off h elt" and n: "elt \<notin> set (xs @ ys)"
    and p: "p = last (q # xs)" and s: "s = hd (ys @ [q])" and ne: "ys \<noteq> []"
  shows "CIRCLEQ_INSERT_BEFORE q s elt off h = Some (cq_link q off p s elt h)"
  using ring_ends [OF r p s] chain_neq [OF r chain_fresh(3) [OF r c n] p s] chain_fresh(1,2) [OF r c n] ne
  by (cases "p = q") (simp_all add: CIRCLEQ_INSERT_BEFORE_def cq_link_def q_access insert_absorb upd_next_prev)

lemma CIRCLEQ_INSERT_HEAD_eq:
  assumes r: "chain off h q xs" and c: "chainable q off h elt" and n: "elt \<notin> set xs"
  shows "CIRCLEQ_INSERT_HEAD q elt off h = Some (cq_link q off q (hd (xs @ [q])) elt h)"
proof -
  define s where s: "s = hd (xs @ [q])"
  have r': "chain off h q ([] @ xs)" and n': "elt \<notin> set ([] @ xs)" and p: "q = last [q]" using r n by simp_all
  note ends = ring_ends [OF r' p s] and neq = chain_neq [OF r' chain_fresh(3) [OF r' c n'] p s]
  have l: "q_prev q h = Some (last (q # xs))" using ring_head_prev [OF r] by simp
  have lq: "last (q # xs) = q \<longleftrightarrow> s = q"
    using ring_distinct(1) [OF r] neq(5) last_in_set [of xs] by (cases "xs = []") auto
  show ?thesis
    using ends neq chain_fresh(1,2) [OF r' c n'] l lq s
    by (cases "s = q") (simp_all add: CIRCLEQ_INSERT_HEAD_def cq_link_def q_access insert_absorb upd_next_prev)
qed

lemma CIRCLEQ_INSERT_TAIL_eq:
  assumes r: "chain off h q xs" and c: "chainable q off h elt" and n: "elt \<notin> set xs"
  shows "CIRCLEQ_INSERT_TAIL q elt off h = Some (cq_link q off (last (q # xs)) q elt h)"
proof -
  define p where p: "p = last (q # xs)"
  have r': "chain off h q (xs @ [])" and n': "elt \<notin> set (xs @ [])" and s: "q = hd ([] @ [q])" using r n by simp_all
  note ends = ring_ends [OF r' p s] and neq = chain_neq [OF r' chain_fresh(3) [OF r' c n'] p s]
  have l: "q_next q h = Some (hd (xs @ [q]))" using ring_head_next [OF r] by simp
  have lq: "hd (xs @ [q]) = q \<longleftrightarrow> p = q"
    using ring_distinct(1) [OF r] neq(4) by (cases xs) auto
  show ?thesis
    unfolding p [symmetric] using ends neq chain_fresh(1,2) [OF r' c n'] l lq
    by (cases "p = q") (simp_all add: CIRCLEQ_INSERT_TAIL_def cq_link_def q_access insert_absorb upd_next_prev)
qed

lemma CIRCLEQ_REMOVE_ok:
  assumes r: "chain off h q (xs @ elt # ys)"
  shows "\<exists>h'. CIRCLEQ_REMOVE q elt off h = Some h' \<and> chain off h' q (xs @ ys)
    \<and> same_outside (queue_field q off ` set (q # xs @ elt # ys)) h h'"
proof -
  define p s where ps: "p = last (q # xs)" "s = hd (ys @ [q])"
  note rm = chain_remove [OF r ps refl]
  have "elt \<notin> set (q # xs @ ys)" using ring_distinct(1) [OF r] by auto
  moreover have "p \<in> set (q # xs @ ys)" "s \<in> set (q # xs @ ys)"
    using last_in_set [of "q # xs"] ring_hd_in [of ys q] ps by auto
  ultimately have ne: "queue_field q off elt \<noteq> queue_field q off p" "queue_field q off elt \<noteq> queue_field q off s"
    using inj_onD [OF ring_distinct(2) [OF r], of elt] by auto
  define h' where "h' = upd_next (queue_field q off p) s (upd_prev (queue_field q off s) p h)"
  have "CIRCLEQ_REMOVE q elt off h = Some h'"
    using rm(2-) ne
    by (cases "s = q"; cases "p = q") (simp_all add: CIRCLEQ_REMOVE_def q_access h'_def)
  moreover have "chain off h' q (xs @ ys) \<and> same_outside (queue_field q off ` set (q # xs @ elt # ys)) h h'"
    by (rule ring_remove_heap [OF r ps])
      (use ne rm(2,5-) in \<open>auto simp: h'_def q_access same_outside_def insert_absorb\<close>)
  ultimately show ?thesis by blast
qed

lemma CIRCLEQ_FOREACH_loop_pure:
  assumes "chain off h q (us @ vs)" and "\<And>x s. x \<in> set vs \<Longrightarrow> body x (s, h) = Some (g x s, h)"
  shows "CIRCLEQ_FOREACH_loop body q off (hd (vs @ [q])) (s, h) = Some (fold g vs s, h)"
  using assms
proof (induction vs arbitrary: us s)
  case Nil
  then show ?case by (simp add: CIRCLEQ_FOREACH_loop.simps)
next
  case (Cons v vs)
  have vq: "v \<noteq> q" using ring_distinct(1) [OF Cons.prems(1)] by auto
  then have "q_next (v + off) h = Some (hd (vs @ [q]))" using ring_node_next [OF Cons.prems(1)] by simp
  moreover have "CIRCLEQ_FOREACH_loop body q off (hd (vs @ [q])) (g v s, h) = Some (fold g vs (g v s), h)"
    using Cons.IH [of "us @ [v]" "g v s"] Cons.prems by simp
  ultimately show ?case
    using Cons.prems(2) [of v s] vq by (subst CIRCLEQ_FOREACH_loop.simps) simp
qed

lemma CIRCLEQ_FOREACH_pure:
  assumes "chain off h q xs" and "\<And>x s. x \<in> set xs \<Longrightarrow> body x (s, h) = Some (g x s, h)"
  shows "CIRCLEQ_FOREACH body q off (s, h) = Some (fold g xs s, h)"
  using CIRCLEQ_FOREACH_loop_pure [where us = "[]" and vs = xs and s = s] assms ring_head_next [OF assms(1)]
  by (simp add: CIRCLEQ_FOREACH_def)

lemma CIRCLEQ_EMPTY_chain: "chain off h q xs \<Longrightarrow> CIRCLEQ_EMPTY q h = Some (xs = [])"
  using ring_head_next [of "queue_field q off" h q xs] ring_distinct(1) [of "queue_field q off" h q xs]
  by (cases xs) (auto simp: CIRCLEQ_EMPTY_def)

lemma CIRCLEQ_INIT_ok:
  assumes "q \<in> dom h"
  shows "\<exists>h'. CIRCLEQ_INIT q h = Some h' \<and> chain off h' q [] \<and> same_outside {q} h h'"
proof -
  have "CIRCLEQ_INIT q h = queue_init q h" by (simp add: CIRCLEQ_INIT_def queue_init_def)
  then show ?thesis using queue_init_ring [OF assms] ring_nil_iff [of "queue_field q off" q] by auto
qed

lemma quehead_insque_ring:
  assumes r: "ring id h q (xs @ ys)" and e: "elt \<in> dom h" "elt \<notin> set (q # xs @ ys)"
    and p: "p = last (q # xs)"
  shows "\<exists>h'. quehead_insque elt p h = Some h' \<and> ring id h' q (xs @ elt # ys)
    \<and> same_outside (set (q # xs @ elt # ys)) h h'"
proof -
  define s where "s = hd (ys @ [q])"
  note ends = ring_ends [OF r p s_def]
  have "elt \<noteq> p" "elt \<noteq> s" using ends(1,2) e by auto
  then have "quehead_insque elt p h = insque elt p h"
    using ends e by (simp add: insque_def quehead_insque_def q_access insert_absorb upd_next_prev)
  then show ?thesis using insque_ring [OF assms] by simp
qed

lemma quehead_remque_ring:
  assumes r: "ring id h q (xs @ elt # ys)"
  shows "\<exists>h'. quehead_remque elt h = Some h' \<and> ring id h' q (xs @ ys)
    \<and> same_outside (set (q # xs @ elt # ys)) h h' \<and> q_prev elt h' = Some NULL"
proof -
  define p s where ps: "p = last (q # xs)" "s = hd (ys @ [q])"
  have nx: "q_next elt h = Some s" "q_prev elt h = Some p"
    using ring_node_next [OF r] ring_node_prev [OF r] by (simp_all add: ps)
  have m: "p \<in> set (q # xs @ ys)" "s \<in> set (q # xs @ ys)"
    using last_in_set [of "q # xs"] ring_hd_in [of ys q] by (auto simp: ps)
  have d: "p \<in> dom h" "s \<in> dom h" "elt \<in> dom h" using ring_dom [OF r] m by auto
  have ne: "elt \<noteq> p" "elt \<noteq> s" using ring_distinct(1) [OF r] m by auto
  define h' where "h' = upd_prev elt NULL (upd_next p s (upd_prev s p h))"
  have "quehead_remque elt h = Some h'"
    using nx d ne by (simp add: quehead_remque_def q_access h'_def)
  moreover have "ring id h' q (xs @ ys) \<and> same_outside (id ` set (q # xs @ elt # ys)) h h'"
    using d ne by (intro ring_remove_heap [OF r ps])
      (auto simp: h'_def q_access same_outside_def insert_absorb)
  moreover have "q_prev elt h' = Some NULL" by (simp add: h'_def q_access)
  ultimately show ?thesis by (simp add: image_id)
qed

subsection \<open>CIRCLEQ as a deque\<close>

definition circleq_ops :: "ptr \<Rightarrow> ptr \<Rightarrow> (qheap, ptr) deque_ops" where
  "circleq_ops q off = \<lparr>op_push_head = \<lambda>x. CIRCLEQ_INSERT_HEAD q x off,
     op_push_tail = \<lambda>x. CIRCLEQ_INSERT_TAIL q x off,
     op_pop_head = \<lambda>h. do { x \<leftarrow> CIRCLEQ_FIRST q h; h \<leftarrow> CIRCLEQ_REMOVE q x off h; Some (x, h) },
     op_pop_tail = \<lambda>h. do { x \<leftarrow> CIRCLEQ_LAST q h; h \<leftarrow> CIRCLEQ_REMOVE q x off h; Some (x, h) },
     op_is_empty = CIRCLEQ_EMPTY q\<rparr>"

interpretation circleq: deque "circleq_ops q off" "\<lambda>h xs. chain off h q xs" "chainable q off" for q off
proof
  fix h xs x
  assume r: "chain off h q xs" and n: "chainable q off h x" and x: "x \<notin> set xs"
  show "\<exists>h'. op_push_head (circleq_ops q off) x h = Some h' \<and> chain off h' q (x # xs)
      \<and> (\<forall>y. chainable q off h y \<longrightarrow> chainable q off h' y)"
    using CIRCLEQ_INSERT_HEAD_eq [OF r n x] cq_link_ok [of q off h "[]" xs x, OF _ n _ _ refl] r x
      chainable_same_outside by (fastforce simp: circleq_ops_def)
  show "\<exists>h'. op_push_tail (circleq_ops q off) x h = Some h' \<and> chain off h' q (xs @ [x])
      \<and> (\<forall>y. chainable q off h y \<longrightarrow> chainable q off h' y)"
    using CIRCLEQ_INSERT_TAIL_eq [OF r n x] cq_link_ok [of q off h xs "[]" x, OF _ n _ refl] r x
      chainable_same_outside by (fastforce simp: circleq_ops_def)
next
  fix h x xs assume r: "chain off h q (x # xs)"
  then have "CIRCLEQ_FIRST q h = Some x" using ring_head_next [OF r] by (simp add: CIRCLEQ_FIRST_def)
  then show "\<exists>h'. op_pop_head (circleq_ops q off) h = Some (x, h') \<and> chain off h' q xs
      \<and> (\<forall>y. chainable q off h y \<longrightarrow> chainable q off h' y)"
    using CIRCLEQ_REMOVE_ok [of q off h "[]" x xs] r chainable_same_outside by (fastforce simp: circleq_ops_def)
next
  fix h xs x assume r: "chain off h q (xs @ [x])"
  then have "CIRCLEQ_LAST q h = Some x" using ring_head_prev [OF r] by (simp add: CIRCLEQ_LAST_def)
  then show "\<exists>h'. op_pop_tail (circleq_ops q off) h = Some (x, h') \<and> chain off h' q xs
      \<and> (\<forall>y. chainable q off h y \<longrightarrow> chainable q off h' y)"
    using CIRCLEQ_REMOVE_ok [of q off h xs x "[]"] r chainable_same_outside by (fastforce simp: circleq_ops_def)
next
  fix h xs assume "chain off h q xs"
  then show "op_is_empty (circleq_ops q off) h = Some (xs = [])"
    by (simp add: circleq_ops_def CIRCLEQ_EMPTY_chain)
qed

subsection \<open>Properties\<close>

text \<open>
  Any sequence of CIRCLEQ_INSERT_HEAD, CIRCLEQ_INSERT_TAIL, removal of CIRCLEQ_FIRST or of
  CIRCLEQ_LAST and CIRCLEQ_EMPTY that the abstract deque allows runs without a fault on a
  well-formed circular queue and answers as the list of its elements would.
\<close>

theorem circleq_refines_deque:
  assumes "chain off h q xs" and "\<forall>c \<in> set cs. \<forall>x \<in> pushed c. chainable q off h x"
    and "spec_run cs xs = Some (rs, ys)"
  shows "\<exists>h'. impl_run (circleq_ops q off) cs h = Some (rs, h') \<and> chain off h' q ys"
  by (rule circleq.run_refines [OF assms])

theorem circleq_refines_deque_witness:
  "\<exists>h'. impl_run (circleq_ops 8 4) [Pop_head, Push_tail 48, Pop_head, Test_empty] sample_chain
     = Some ([Popped 16, Done, Popped 32, Is_empty False], h') \<and> chain 4 h' 8 [48]"
  by (rule circleq_refines_deque [OF sample_chain_ring])
    (simp_all add: chainable_def sample_chain_dom)

text \<open>
  CIRCLEQ_INSERT_AFTER and CIRCLEQ_INSERT_BEFORE put a new element next to the named one, with
  the same resulting store for the same gap, CIRCLEQ_REMOVE takes it out again, each touches the
  linkages of that queue only, and CIRCLEQ_FOREACH visits the elements in queue order.
\<close>

theorem circleq_edits:
  assumes "chain off h q (xs @ x # y # ys)" and "chainable q off h elt" and "elt \<notin> set (xs @ x # y # ys)"
  shows "\<exists>h' h''. CIRCLEQ_INSERT_AFTER q x elt off h = Some h'
    \<and> CIRCLEQ_INSERT_BEFORE q y elt off h = Some h'
    \<and> chain off h' q (xs @ x # elt # y # ys)
    \<and> CIRCLEQ_FOREACH (\<lambda>v (s, h). Some (s @ [v], h)) q off ([], h') = Some (xs @ x # elt # y # ys, h')
    \<and> CIRCLEQ_REMOVE q elt off h' = Some h'' \<and> chain off h'' q (xs @ x # y # ys)
    \<and> same_outside (queue_field q off ` set (q # xs @ x # elt # y # ys)) h h''"
proof -
  have r: "chain off h q ((xs @ [x]) @ y # ys)" and n: "elt \<notin> set ((xs @ [x]) @ y # ys)"
    using assms(1,3) by simp_all
  define h' where "h' = cq_link q off x y elt h"
  have ins: "CIRCLEQ_INSERT_AFTER q x elt off h = Some h'" "CIRCLEQ_INSERT_BEFORE q y elt off h = Some h'"
    using CIRCLEQ_INSERT_AFTER_eq [OF r assms(2) n refl refl]
      CIRCLEQ_INSERT_BEFORE_eq [OF r assms(2) n refl refl] by (simp_all add: h'_def)
  have c: "chain off h' q ((xs @ [x]) @ elt # y # ys)"
    "same_outside (queue_field q off ` set (q # xs @ x # elt # y # ys)) h h'"
    using cq_link_ok [OF r assms(2) n refl refl] by (simp_all add: h'_def)
  obtain h'' where rm: "CIRCLEQ_REMOVE q elt off h' = Some h''" "chain off h'' q (xs @ x # y # ys)"
    "same_outside (queue_field q off ` set (q # xs @ x # elt # y # ys)) h' h''"
    using CIRCLEQ_REMOVE_ok [OF c(1)] by auto
  have "fold (\<lambda>v s. s @ [v]) zs s = s @ zs" for zs s :: "ptr list" by (induction zs arbitrary: s) auto
  then have "CIRCLEQ_FOREACH (\<lambda>v (s, h). Some (s @ [v], h)) q off ([], h') = Some (xs @ x # elt # y # ys, h')"
    using CIRCLEQ_FOREACH_pure [OF c(1), of "\<lambda>v (s, h). Some (s @ [v], h)" "\<lambda>v s. s @ [v]" "[]"] by simp
  moreover have "chain off h' q (xs @ x # elt # y # ys)" using c(1) by simp
  ultimately show ?thesis using ins rm same_outside_trans [OF c(2) rm(3)] by blast
qed

theorem circleq_edits_witness:
  "\<exists>h' h''. CIRCLEQ_INSERT_AFTER 8 16 48 4 sample_chain = Some h'
    \<and> CIRCLEQ_INSERT_BEFORE 8 32 48 4 sample_chain = Some h' \<and> chain 4 h' 8 [16, 48, 32]
    \<and> CIRCLEQ_REMOVE 8 48 4 h' = Some h'' \<and> chain 4 h'' 8 [16, 32]"
proof -
  have "chainable 8 4 sample_chain 48" by (simp add: chainable_def sample_chain_dom)
  then show ?thesis
    using circleq_edits [of 8 4 sample_chain "[]" 16 32 "[]" 48] sample_chain_ring by simp blast
qed

text \<open>
  The quehead insque and remque insert after any node of a circle and take any node out, and
  touch that circle only; remque clears the back link of the node it takes out.
\<close>

theorem quehead_anywhere:
  assumes "ring id h q (xs @ ys)" and "elt \<in> dom h" and "elt \<notin> set (q # xs @ ys)"
  shows "\<exists>h' h''. quehead_insque elt (last (q # xs)) h = Some h' \<and> ring id h' q (xs @ elt # ys)
    \<and> quehead_remque elt h' = Some h'' \<and> ring id h'' q (xs @ ys) \<and> q_prev elt h'' = Some NULL
    \<and> same_outside (set (q # xs @ elt # ys)) h h''"
proof -
  obtain h' where h': "quehead_insque elt (last (q # xs)) h = Some h'" "ring id h' q (xs @ elt # ys)"
    "same_outside (set (q # xs @ elt # ys)) h h'"
    using quehead_insque_ring [OF assms refl] by blast
  then show ?thesis using quehead_remque_ring [OF h'(2)] same_outside_trans by blast
qed

theorem quehead_anywhere_witness:
  "\<exists>h' h''. quehead_insque 32 16 sample_heap = Some h' \<and> ring id h' 8 [16, 32, 24]
    \<and> quehead_remque 32 h' = Some h'' \<and> ring id h'' 8 [16, 24] \<and> q_prev 32 h'' = Some NULL"
  using quehead_anywhere [of sample_heap 8 "[16]" "[24]" 32] sample_ring sample_dom by auto

end
