(* ===== verification/PQueue.thy ===== *)
theory PQueue
  imports Prelude "HOL-Library.Tree"
begin

text \<open>
  kern/priority_queue.h: the priority queue on pairing heaps, for the LP64 layout, in which the
  key (8 bits) and the child pointer (56 bits) of an entry share one word and the two flags of the
  queue sit in the low bits of its root pointer. The state is the memory of the entries and the
  word of the queue head; an access to an address without an entry, and an \<open>assert\<close> that fails
  (with assertions compiled in), is the value \<open>None\<close>. \<open>pqueue_pair_meld\<close> is declared in the header
  and defined elsewhere: it is the parameter \<open>meld\<close>, under the contract \<open>pair_meld\<close> that its
  comment documents. Comparators are blocks: they read the memory.
\<close>

subsection \<open>Entries, packing and the queue head\<close>

record priority_queue_entry =
  pqe_next :: ptr
  pqe_prev :: ptr
  pqe_key :: u8
  pqe_child :: "56 word"

type_synonym pqmem = "ptr \<rightharpoonup> priority_queue_entry"

record priority_queue =
  pq_root_packed :: u64
  pq_mem :: pqmem

type_synonym pq_cmp = "pqmem \<Rightarrow> ptr \<Rightarrow> ptr \<Rightarrow> int option"
type_synonym pq_meld = "ptr \<Rightarrow> pqmem \<Rightarrow> (ptr \<times> pqmem) option"

definition PRIORITY_QUEUE_KEY_NONE :: u8 where "PRIORITY_QUEUE_KEY_NONE = 0"
definition PRIORITY_QUEUE_BUILTIN_KEY :: u64 where "PRIORITY_QUEUE_BUILTIN_KEY = 0"
definition PRIORITY_QUEUE_GENERIC_KEY :: u64 where "PRIORITY_QUEUE_GENERIC_KEY = 1"
definition PRIORITY_QUEUE_MAX_HEAP :: u64 where "PRIORITY_QUEUE_MAX_HEAP = 0"
definition PRIORITY_QUEUE_MIN_HEAP :: u64 where "PRIORITY_QUEUE_MIN_HEAP = 2"
definition PRIORITY_QUEUE_ROOT_FLAGS_MASK :: u64 where "PRIORITY_QUEUE_ROOT_FLAGS_MASK = 3"
definition PRIORITY_QUEUE_ROOT_POINTER_MASK :: u64 where
  "PRIORITY_QUEUE_ROOT_POINTER_MASK = NOT PRIORITY_QUEUE_ROOT_FLAGS_MASK"

definition pqe_get :: "(priority_queue_entry \<Rightarrow> 'a) \<Rightarrow> ptr \<Rightarrow> pqmem \<Rightarrow> 'a option" where
  "pqe_get f e h = map_option f (h e)"

definition pqe_put :: "(priority_queue_entry \<Rightarrow> priority_queue_entry) \<Rightarrow> ptr \<Rightarrow> pqmem \<Rightarrow> pqmem option" where
  "pqe_put f e h = map_option (\<lambda>x. h(e \<mapsto> f x)) (h e)"

text \<open>The bit field \<open>child\<close> is a signed long: reading it sign extends, storing to it truncates.\<close>

definition pqueue_entry_pack_child :: "ptr \<Rightarrow> ptr \<Rightarrow> pqmem \<Rightarrow> pqmem option" where
  "pqueue_entry_pack_child qe child_ptr = pqe_put (pqe_child_update (\<lambda>_. ucast child_ptr)) qe"

definition pqueue_entry_unpack_child :: "ptr \<Rightarrow> pqmem \<Rightarrow> ptr option" where
  "pqueue_entry_unpack_child qe = pqe_get (\<lambda>x. scast (pqe_child x)) qe"

definition priority_queue_element_builtin_key_compare :: pq_cmp where
  "priority_queue_element_builtin_key_compare h e1 e2 = do {
     k2 \<leftarrow> pqe_get pqe_key e2 h;
     k1 \<leftarrow> pqe_get pqe_key e1 h;
     Some (sint k2 - sint k1) }"

definition PRIORITY_QUEUE_SCHED_PRI_MAX_HEAP_COMPARE :: pq_cmp where
  "PRIORITY_QUEUE_SCHED_PRI_MAX_HEAP_COMPARE h e1 e2 =
     map_option uminus (priority_queue_element_builtin_key_compare h e1 e2)"

definition PRIORITY_QUEUE_SCHED_PRI_MIN_HEAP_COMPARE :: pq_cmp where
  "PRIORITY_QUEUE_SCHED_PRI_MIN_HEAP_COMPARE h e1 e2 = priority_queue_element_builtin_key_compare h e1 e2"

text \<open>\<open>off\<close> is the offset of the macros' \<open>field\<close> in their \<open>type\<close>.\<close>

definition pqe_element_fast :: "ptr \<Rightarrow> ptr \<Rightarrow> ptr" where
  "pqe_element_fast qe off = qe - off"

definition pqe_element :: "ptr \<Rightarrow> ptr \<Rightarrow> ptr" where
  "pqe_element qe off = (if qe \<noteq> NULL then pqe_element_fast qe off else NULL)"

definition priority_heap_make_comparator :: "ptr \<Rightarrow> (ptr \<Rightarrow> ptr \<Rightarrow> int) \<Rightarrow> pq_cmp" where
  "priority_heap_make_comparator off body h e1 e2 = Some (body (pqe_element_fast e1 off) (pqe_element_fast e2 off))"

definition pqueue_has_generic_keys :: "priority_queue \<Rightarrow> bool" where
  "pqueue_has_generic_keys p \<longleftrightarrow> pq_root_packed p AND PRIORITY_QUEUE_GENERIC_KEY \<noteq> 0"

definition pqueue_has_builtin_keys :: "priority_queue \<Rightarrow> bool" where
  "pqueue_has_builtin_keys p \<longleftrightarrow> pq_root_packed p AND PRIORITY_QUEUE_GENERIC_KEY = 0"

definition pqueue_is_min_heap :: "priority_queue \<Rightarrow> bool" where
  "pqueue_is_min_heap p \<longleftrightarrow> pq_root_packed p AND PRIORITY_QUEUE_MIN_HEAP \<noteq> 0"

definition pqueue_is_max_heap :: "priority_queue \<Rightarrow> bool" where
  "pqueue_is_max_heap p \<longleftrightarrow> pq_root_packed p AND PRIORITY_QUEUE_MIN_HEAP = 0"

definition pqueue_pack_root :: "priority_queue \<Rightarrow> ptr \<Rightarrow> priority_queue" where
  "pqueue_pack_root q root_ptr =
     (let flags = pq_root_packed q AND PRIORITY_QUEUE_ROOT_FLAGS_MASK
      in q\<lparr>pq_root_packed := root_ptr OR flags\<rparr>)"

definition pqueue_unpack_root :: "priority_queue \<Rightarrow> ptr" where
  "pqueue_unpack_root q = pq_root_packed q AND PRIORITY_QUEUE_ROOT_POINTER_MASK"

subsection \<open>Helper routines\<close>

definition pqueue_list_remove :: "ptr \<Rightarrow> pqmem \<Rightarrow> pqmem option" where
  "pqueue_list_remove elt h = do {
     p \<leftarrow> pqe_get pqe_prev elt h;
     kassert (p \<noteq> NULL);
     c \<leftarrow> pqueue_entry_unpack_child p h;
     n \<leftarrow> pqe_get pqe_next elt h;
     h \<leftarrow> (if c = elt then pqueue_entry_pack_child p n h
          else pqe_put (pqe_next_update (\<lambda>_. n)) p h);
     n \<leftarrow> pqe_get pqe_next elt h;
     p \<leftarrow> pqe_get pqe_prev elt h;
     if n \<noteq> NULL then pqe_put (pqe_prev_update (\<lambda>_. p)) n h else Some h }"

definition pqueue_merge :: "pq_cmp \<Rightarrow> ptr \<Rightarrow> ptr \<Rightarrow> pqmem \<Rightarrow> (ptr \<times> pqmem) option" where
  "pqueue_merge cmp_fn subtree_a subtree_b h =
     (if subtree_a = NULL then Some (subtree_b, h)
      else if subtree_b = NULL \<or> subtree_a = subtree_b then Some (subtree_a, h)
      else do {
        v \<leftarrow> cmp_fn h subtree_a subtree_b;
        let (parent, child) = (if v < 0 then (subtree_b, subtree_a) else (subtree_a, subtree_b));
        c \<leftarrow> pqueue_entry_unpack_child parent h;
        h \<leftarrow> pqe_put (pqe_next_update (\<lambda>_. c)) child h;
        h \<leftarrow> pqe_put (pqe_prev_update (\<lambda>_. parent)) child h;
        c \<leftarrow> pqueue_entry_unpack_child parent h;
        h \<leftarrow> (if c \<noteq> NULL then pqe_put (pqe_prev_update (\<lambda>_. child)) c h else Some h);
        h \<leftarrow> pqueue_entry_pack_child parent child h;
        h \<leftarrow> pqe_put (pqe_next_update (\<lambda>_. NULL)) parent h;
        h \<leftarrow> pqe_put (pqe_prev_update (\<lambda>_. NULL)) parent h;
        Some (parent, h) })"

definition pqueue_update_key :: "priority_queue \<Rightarrow> ptr \<Rightarrow> u8 \<Rightarrow> priority_queue option" where
  "pqueue_update_key que elt new_key =
     (if pqueue_has_builtin_keys que then do {
        kassert (unat new_key \<le> 255);
        h \<leftarrow> pqe_put (pqe_key_update (\<lambda>_. new_key)) elt (pq_mem que);
        Some (que\<lparr>pq_mem := h\<rparr>) }
      else do {
        kassert (new_key = PRIORITY_QUEUE_KEY_NONE);
        Some que })"

definition pqueue_remove_root :: "pq_meld \<Rightarrow> priority_queue \<Rightarrow> ptr \<Rightarrow> (ptr \<times> priority_queue) option" where
  "pqueue_remove_root meld que old_root = do {
     new_root \<leftarrow> pqueue_entry_unpack_child old_root (pq_mem que);
     (new_root, h) \<leftarrow> (if new_root \<noteq> NULL then meld new_root (pq_mem que) else Some (new_root, pq_mem que));
     Some (old_root, pqueue_pack_root (que\<lparr>pq_mem := h\<rparr>) new_root) }"

definition pqueue_remove_non_root ::
  "pq_cmp \<Rightarrow> pq_meld \<Rightarrow> priority_queue \<Rightarrow> ptr \<Rightarrow> (ptr \<times> priority_queue) option" where
  "pqueue_remove_non_root cmp_fn meld que elt = do {
     h \<leftarrow> pqueue_list_remove elt (pq_mem que);
     child \<leftarrow> pqueue_entry_unpack_child elt h;
     if child \<noteq> NULL then do {
       (child, h) \<leftarrow> meld child h;
       (new_root, h) \<leftarrow> pqueue_merge cmp_fn (pqueue_unpack_root que) child h;
       Some (elt, pqueue_pack_root (que\<lparr>pq_mem := h\<rparr>) new_root) }
     else Some (elt, que\<lparr>pq_mem := h\<rparr>) }"

subsection \<open>Operations\<close>

definition priority_queue_empty :: "priority_queue \<Rightarrow> bool" where
  "priority_queue_empty q \<longleftrightarrow> pqueue_unpack_root q = NULL"

definition priority_queue_entry_key :: "priority_queue \<Rightarrow> ptr \<Rightarrow> u8 option" where
  "priority_queue_entry_key q elt = do {
     kassert (pqueue_has_builtin_keys q);
     pqe_get pqe_key elt (pq_mem q) }"

definition priority_queue_init :: "priority_queue \<Rightarrow> u64 \<Rightarrow> priority_queue" where
  "priority_queue_init q flags = (pqueue_pack_root q NULL)\<lparr>pq_root_packed := flags\<rparr>"

definition priority_queue_entry_init :: "ptr \<Rightarrow> pqmem \<Rightarrow> pqmem option" where
  "priority_queue_entry_init qe h = do {
     h \<leftarrow> pqe_put (pqe_next_update (\<lambda>_. NULL)) qe h;
     h \<leftarrow> pqe_put (pqe_prev_update (\<lambda>_. NULL)) qe h;
     h \<leftarrow> pqueue_entry_pack_child qe NULL h;
     pqe_put (pqe_key_update (\<lambda>_. PRIORITY_QUEUE_KEY_NONE)) qe h }"

definition priority_queue_insert ::
  "pq_cmp \<Rightarrow> priority_queue \<Rightarrow> ptr \<Rightarrow> u8 \<Rightarrow> (bool \<times> priority_queue) option" where
  "priority_queue_insert cmp_fn que elt new_key = do {
     que \<leftarrow> pqueue_update_key que elt new_key;
     (new_root, h) \<leftarrow> pqueue_merge cmp_fn (pqueue_unpack_root que) elt (pq_mem que);
     Some (new_root = elt, pqueue_pack_root (que\<lparr>pq_mem := h\<rparr>) new_root) }"

definition priority_queue_remove ::
  "pq_cmp \<Rightarrow> pq_meld \<Rightarrow> priority_queue \<Rightarrow> ptr \<Rightarrow> (bool \<times> priority_queue) option" where
  "priority_queue_remove cmp_fn meld que elt =
     (if elt = pqueue_unpack_root que then do {
        (_, que) \<leftarrow> pqueue_remove_root meld que elt;
        h \<leftarrow> priority_queue_entry_init elt (pq_mem que);
        Some (True, que\<lparr>pq_mem := h\<rparr>) }
      else do {
        (_, que) \<leftarrow> pqueue_remove_non_root cmp_fn meld que elt;
        h \<leftarrow> priority_queue_entry_init elt (pq_mem que);
        Some (False, que\<lparr>pq_mem := h\<rparr>) })"

definition priority_queue_entry_decrease ::
  "pq_cmp \<Rightarrow> pq_meld \<Rightarrow> priority_queue \<Rightarrow> ptr \<Rightarrow> u8 \<Rightarrow> (bool \<times> priority_queue) option" where
  "priority_queue_entry_decrease cmp_fn meld que elt new_key = do {
     (was_root, que) \<leftarrow> priority_queue_remove cmp_fn meld que elt;
     (_, que) \<leftarrow> priority_queue_insert cmp_fn que elt new_key;
     Some (was_root, que) }"

definition priority_queue_entry_increase ::
  "pq_cmp \<Rightarrow> priority_queue \<Rightarrow> ptr \<Rightarrow> u8 \<Rightarrow> (bool \<times> priority_queue) option" where
  "priority_queue_entry_increase cmp_fn que elt new_key =
     (if elt = pqueue_unpack_root que then do {
        que \<leftarrow> pqueue_update_key que elt new_key;
        Some (True, que) }
      else do {
        h \<leftarrow> pqueue_list_remove elt (pq_mem que);
        priority_queue_insert cmp_fn (que\<lparr>pq_mem := h\<rparr>) elt new_key })"

definition priority_queue_max :: "priority_queue \<Rightarrow> ptr \<Rightarrow> ptr option" where
  "priority_queue_max q off = do {
     kassert (pqueue_is_max_heap q);
     Some (pqe_element (pqueue_unpack_root q) off) }"

definition priority_queue_min :: "priority_queue \<Rightarrow> ptr \<Rightarrow> ptr option" where
  "priority_queue_min q off = do {
     kassert (pqueue_is_min_heap q);
     Some (pqe_element (pqueue_unpack_root q) off) }"

definition priority_queue_max_key :: "priority_queue \<Rightarrow> u8 option" where
  "priority_queue_max_key q = do {
     kassert (pqueue_is_max_heap q);
     priority_queue_entry_key q (pqueue_unpack_root q) }"

definition priority_queue_remove_max :: "pq_meld \<Rightarrow> priority_queue \<Rightarrow> ptr \<Rightarrow> (ptr \<times> priority_queue) option" where
  "priority_queue_remove_max meld q off = do {
     kassert (pqueue_is_max_heap q);
     (e, q) \<leftarrow> pqueue_remove_root meld q (pqueue_unpack_root q);
     Some (pqe_element e off, q) }"

definition priority_queue_remove_min :: "pq_meld \<Rightarrow> priority_queue \<Rightarrow> ptr \<Rightarrow> (ptr \<times> priority_queue) option" where
  "priority_queue_remove_min meld q off = do {
     kassert (pqueue_is_min_heap q);
     (e, q) \<leftarrow> pqueue_remove_root meld q (pqueue_unpack_root q);
     Some (pqe_element e off, q) }"

subsection \<open>Packing\<close>

text \<open>
  An address the queue can hold: not null, aligned to four, and the sign extension of its low 56
  bits, as the header asks of kernel pointers.
\<close>

definition pq_addr :: "ptr \<Rightarrow> bool" where
  "pq_addr x \<longleftrightarrow> x \<noteq> NULL \<and> x AND 3 = 0 \<and> scast (ucast x :: 56 word) = x"

lemma unpack_packed_child: "pq_addr x \<or> x = NULL \<Longrightarrow> (scast (ucast x :: 56 word) :: 64 word) = x"
  by (auto simp: pq_addr_def)

lemma unpack_pack_root: "pq_addr r \<or> r = NULL \<Longrightarrow> pqueue_unpack_root (pqueue_pack_root q r) = r"
proof -
  assume "pq_addr r \<or> r = NULL"
  then have r: "r AND 3 = 0" by (auto simp: pq_addr_def)
  have "(r OR (w AND 3)) AND NOT 3 = r" for w :: u64
  proof (rule bit_word_eqI)
    fix n
    have "bit (r AND 3) n = False" using r by simp
    then show "bit ((r OR (w AND 3)) AND NOT 3) n = bit r n" if "n < LENGTH(64)"
      using that by (auto simp: bit_simps)
  qed
  then show ?thesis
    by (simp add: pqueue_unpack_root_def pqueue_pack_root_def PRIORITY_QUEUE_ROOT_FLAGS_MASK_def
      PRIORITY_QUEUE_ROOT_POINTER_MASK_def)
qed

definition pq_flags :: "priority_queue \<Rightarrow> u64" where
  "pq_flags q = pq_root_packed q AND PRIORITY_QUEUE_ROOT_FLAGS_MASK"

lemma pq_flags_pack_root: "pq_addr r \<or> r = NULL \<Longrightarrow> pq_flags (pqueue_pack_root q r) = pq_flags q"
proof -
  assume "pq_addr r \<or> r = NULL"
  then have "r AND 3 = 0" by (auto simp: pq_addr_def)
  then have "(r OR (w AND 3)) AND 3 = w AND 3" for w :: u64
    by (simp add: and.assoc [symmetric] bit.conj_disj_distrib2 and.assoc)
  then show ?thesis
    by (simp add: pq_flags_def pqueue_pack_root_def PRIORITY_QUEUE_ROOT_FLAGS_MASK_def)
qed

lemma has_builtin_flags: "pqueue_has_builtin_keys q \<longleftrightarrow> pq_flags q AND 1 = 0"
  and is_max_flags: "pqueue_is_max_heap q \<longleftrightarrow> pq_flags q AND 2 = 0"
  by (simp_all add: pqueue_has_builtin_keys_def pqueue_is_max_heap_def pq_flags_def and.assoc
    PRIORITY_QUEUE_ROOT_FLAGS_MASK_def PRIORITY_QUEUE_GENERIC_KEY_def PRIORITY_QUEUE_MIN_HEAP_def)

subsection \<open>Pairing heaps in memory\<close>

text \<open>
  A list of siblings with all their descendants is a binary tree: the left subtree of a node is
  its list of children, the right one the siblings after it. \<open>pq_bt h p e t\<close>: the list at \<open>e\<close>,
  whose first node points back to \<open>p\<close>, is \<open>t\<close>. \<open>pq_top h x l\<close>: the tree with root \<open>x\<close> and children
  \<open>l\<close>; the sibling pointers of a root are not read.
\<close>

fun pq_bt :: "pqmem \<Rightarrow> ptr \<Rightarrow> ptr \<Rightarrow> ptr tree \<Rightarrow> bool" where
  "pq_bt h p e Leaf = (e = NULL)"
| "pq_bt h p e (Node l x r) = (e = x \<and> pq_addr x \<and> x \<notin> set_tree l \<and> x \<notin> set_tree r
     \<and> set_tree l \<inter> set_tree r = {}
     \<and> (case h x of None \<Rightarrow> False | Some n \<Rightarrow> pqe_prev n = p
         \<and> pq_bt h x (scast (pqe_child n)) l \<and> pq_bt h x (pqe_next n) r))"

definition pq_top :: "pqmem \<Rightarrow> ptr \<Rightarrow> ptr tree \<Rightarrow> bool" where
  "pq_top h x l \<longleftrightarrow> pq_addr x \<and> x \<notin> set_tree l
     \<and> (case h x of None \<Rightarrow> False | Some n \<Rightarrow> pq_bt h x (scast (pqe_child n)) l)"

text \<open>What every operation keeps: all keys, and the entries outside a set.\<close>

definition pq_keeps :: "ptr set \<Rightarrow> pqmem \<Rightarrow> pqmem \<Rightarrow> bool" where
  "pq_keeps A h h' \<longleftrightarrow> (\<forall>y. map_option pqe_key (h' y) = map_option pqe_key (h y))
     \<and> (\<forall>y. y \<notin> A \<longrightarrow> h' y = h y)"

lemma pq_keeps_refl: "pq_keeps A h h"
  by (simp add: pq_keeps_def)

lemma pq_keeps_trans: "pq_keeps A h h' \<Longrightarrow> pq_keeps B h' h'' \<Longrightarrow> pq_keeps (A \<union> B) h h''"
  by (simp add: pq_keeps_def)

lemma pq_keeps_mono: "pq_keeps A h h' \<Longrightarrow> A \<subseteq> B \<Longrightarrow> pq_keeps B h h'"
  by (auto simp: pq_keeps_def)

lemma pq_bt_frame:
  "(\<And>y. y \<in> set_tree t \<Longrightarrow> h' y = h y) \<Longrightarrow> pq_bt h' p e t = pq_bt h p e t"
  by (induction h p e t rule: pq_bt.induct) (auto split: option.splits)

lemma pq_top_frame:
  assumes "\<And>y. y \<in> insert x (set_tree l) \<Longrightarrow> h' y = h y"
  shows "pq_top h' x l = pq_top h x l"
proof -
  have "pq_bt h' x e l = pq_bt h x e l" for e by (rule pq_bt_frame) (use assms in auto)
  then show ?thesis using assms [of x] by (auto simp: pq_top_def split: option.splits)
qed

lemma pq_bt_addr: "pq_bt h p e t \<Longrightarrow> y \<in> set_tree t \<Longrightarrow> pq_addr y \<and> y \<in> dom h"
  by (induction h p e t rule: pq_bt.induct) (auto split: option.splits)

lemma pq_bt_ptr: "pq_bt h p e t \<Longrightarrow> pq_addr e \<or> e = NULL"
  by (cases t) auto

lemma pq_bt_leaf: "pq_bt h p e t \<Longrightarrow> e = NULL \<longleftrightarrow> t = Leaf"
  by (cases t) (auto simp: pq_addr_def)

lemma pq_bt_head: "pq_bt h p e t \<Longrightarrow> e \<noteq> NULL \<Longrightarrow> \<exists>l r. t = Node l e r"
  by (cases t) auto

lemma pq_bt_relink:
  assumes "pq_bt h p e t" and "e \<noteq> NULL" and "h e = Some n" and "h' e = Some (n\<lparr>pqe_prev := q\<rparr>)"
    and "\<And>y. y \<in> set_tree t \<Longrightarrow> y \<noteq> e \<Longrightarrow> h' y = h y"
  shows "pq_bt h' q e t"
proof -
  obtain l r where t: "t = Node l e r" using pq_bt_head [OF assms(1,2)] by blast
  have "pq_bt h' e c l = pq_bt h e c l" "pq_bt h' e c r = pq_bt h e c r" for c
    using assms(1,5) t by (auto intro!: pq_bt_frame)
  then show ?thesis using assms t by simp
qed

text \<open>The store of an entry's back pointer, when there is an entry.\<close>

definition pq_back :: "ptr \<Rightarrow> ptr \<Rightarrow> pqmem \<Rightarrow> pqmem" where
  "pq_back e p h = (if e = NULL then h else h(e \<mapsto> (the (h e))\<lparr>pqe_prev := p\<rparr>))"

lemma pq_bt_back:
  assumes "pq_bt h p e t" and "\<And>y. y \<in> set_tree t \<Longrightarrow> h' y = pq_back e q h y"
  shows "pq_bt h' q e t"
proof (cases "e = NULL")
  case True
  then show ?thesis using assms(1) pq_bt_leaf by (cases t) auto
next
  case False
  then obtain l r where t: "t = Node l e r" using pq_bt_head [OF assms(1)] by blast
  then obtain n where "h e = Some n" using assms(1) by (auto split: option.splits)
  then show ?thesis using assms(2) t False
    by (intro pq_bt_relink [OF assms(1) False]) (auto simp: pq_back_def)
qed

subsection \<open>Merging\<close>

lemma pq_link_top:
  assumes p: "pq_top h p lp" and c: "pq_top h c lc"
    and disj: "insert p (set_tree lp) \<inter> insert c (set_tree lc) = {}"
    and np: "h p = Some np" and nc: "h c = Some nc"
    and h': "h' = (pq_back (scast (pqe_child np)) c (h(c \<mapsto> nc\<lparr>pqe_next := scast (pqe_child np), pqe_prev := p\<rparr>)))
       (p \<mapsto> np\<lparr>pqe_child := ucast c, pqe_next := NULL, pqe_prev := NULL\<rparr>)"
  shows "pq_top h' p (Node lc c lp)"
    and "pq_keeps (insert p (set_tree lp) \<union> insert c (set_tree lc)) h h'"
proof -
  define e where "e = (scast (pqe_child np) :: ptr)"
  have bp: "pq_bt h p e lp" and bc: "pq_bt h c (scast (pqe_child nc)) lc"
    using p c np nc by (simp_all add: pq_top_def e_def)
  have e: "e = NULL \<or> e \<in> set_tree lp" using pq_bt_head [OF bp] by fastforce
  have ne: "p \<noteq> c" "p \<notin> set_tree lp" "c \<notin> set_tree lc" "c \<notin> set_tree lp" "p \<notin> set_tree lc"
    using p c disj by (auto simp: pq_top_def)
  have lc: "h' y = h y" if "y \<in> set_tree lc" for y
    using that e ne disj by (auto simp: h' pq_back_def e_def [symmetric])
  have lp: "h' y = pq_back e c h y" if "y \<in> set_tree lp" for y
    using that e ne disj by (auto simp: h' pq_back_def e_def [symmetric])
  have hc: "h' c = Some (nc\<lparr>pqe_next := e, pqe_prev := p\<rparr>)"
    using e ne nc pq_top_def [of h c lc] c by (auto simp: h' pq_back_def e_def [symmetric] pq_addr_def)
  have hp: "h' p = Some (np\<lparr>pqe_child := ucast c, pqe_next := NULL, pqe_prev := NULL\<rparr>)" by (simp add: h')
  have "pq_bt h' c (scast (pqe_child nc)) lc" using bc pq_bt_frame [of lc h' h, OF lc] by simp
  moreover have "pq_bt h' c e lp" by (rule pq_bt_back [OF bp lp])
  ultimately show "pq_top h' p (Node lc c lp)"
    using p c ne disj hc hp unpack_packed_child [of c] by (auto simp: pq_top_def)
  have "e \<noteq> NULL \<Longrightarrow> e \<in> dom h" using e pq_bt_addr [OF bp] by blast
  then show "pq_keeps (insert p (set_tree lp) \<union> insert c (set_tree lc)) h h'"
    using e ne np nc by (auto simp: pq_keeps_def h' pq_back_def e_def [symmetric])
qed

lemma pqueue_merge_top:
  assumes a: "pq_top h a la" and b: "pq_top h b lb"
    and disj: "insert a (set_tree la) \<inter> insert b (set_tree lb) = {}"
    and v: "cmp h a b = Some v"
  shows "\<exists>h'. pqueue_merge cmp a b h = Some (if v < 0 then b else a, h')
    \<and> pq_top h' (if v < 0 then b else a) (if v < 0 then Node la a lb else Node lb b la)
    \<and> pq_keeps (insert a (set_tree la) \<union> insert b (set_tree lb)) h h'"
proof -
  define p c lp lc where pc: "p = (if v < 0 then b else a)" "c = (if v < 0 then a else b)"
    "lp = (if v < 0 then lb else la)" "lc = (if v < 0 then la else lb)"
  have tp: "pq_top h p lp" and tc: "pq_top h c lc"
    and d: "insert p (set_tree lp) \<inter> insert c (set_tree lc) = {}"
    using a b disj by (auto simp: pc)
  obtain np nc where n: "h p = Some np" "h c = Some nc"
    using tp tc by (auto simp: pq_top_def split: option.splits)
  define e where "e = (scast (pqe_child np) :: ptr)"
  have bp: "pq_bt h p e lp" using tp n by (simp add: pq_top_def e_def)
  have e: "e = NULL \<or> e \<in> set_tree lp" using pq_bt_head [OF bp] by fastforce
  then have ed: "e \<noteq> NULL \<Longrightarrow> \<exists>ne. h e = Some ne" using pq_bt_addr [OF bp] by blast
  have ne: "p \<noteq> c" "p \<noteq> e" "c \<noteq> e" "a \<noteq> NULL" "b \<noteq> NULL" "a \<noteq> b"
    using e d tp tc a b disj by (auto simp: pq_top_def pq_addr_def)
  define h' where "h' = (pq_back e c (h(c \<mapsto> nc\<lparr>pqe_next := e, pqe_prev := p\<rparr>)))
       (p \<mapsto> np\<lparr>pqe_child := ucast c, pqe_next := NULL, pqe_prev := NULL\<rparr>)"
  have "pqueue_merge cmp a b h = Some (p, h')"
    using v ne n ed pc(1,2)
    by (cases "v < 0"; cases "e = NULL")
      (auto simp: pqueue_merge_def pqueue_entry_unpack_child_def pqueue_entry_pack_child_def pqe_get_def pqe_put_def
        h'_def pq_back_def e_def [symmetric] fun_upd_twist)
  moreover note pq_link_top [OF tp tc d n h'_def [unfolded e_def]]
  ultimately show ?thesis by (auto simp: pc Un_commute insert_commute split: if_splits)
qed

subsection \<open>Unlinking\<close>

text \<open>The tree without a node and its children, and the children of the node.\<close>

fun pq_del :: "'a \<Rightarrow> 'a tree \<Rightarrow> 'a tree" where
  "pq_del x Leaf = Leaf"
| "pq_del x (Node l y r) = (if x = y then r else Node (pq_del x l) y (pq_del x r))"

fun pq_sub :: "'a \<Rightarrow> 'a tree \<Rightarrow> 'a tree" where
  "pq_sub x Leaf = Leaf"
| "pq_sub x (Node l y r) = (if x = y then l else if x \<in> set_tree l then pq_sub x l else pq_sub x r)"

lemma pq_del_id: "x \<notin> set_tree t \<Longrightarrow> pq_del x t = t"
  by (induction t) auto

fun pq_uniq :: "'a tree \<Rightarrow> bool" where
  "pq_uniq Leaf = True"
| "pq_uniq (Node l x r) = (x \<notin> set_tree l \<and> x \<notin> set_tree r \<and> set_tree l \<inter> set_tree r = {} \<and> pq_uniq l \<and> pq_uniq r)"

lemma pq_bt_uniq: "pq_bt h p e t \<Longrightarrow> pq_uniq t"
  by (induction h p e t rule: pq_bt.induct) (auto split: option.splits)

lemma pq_del_sub_subset: "set_tree (pq_del x t) \<subseteq> set_tree t" "set_tree (pq_sub x t) \<subseteq> set_tree t"
  by (induction t) auto

lemma pq_del_notin: "pq_uniq t \<Longrightarrow> x \<notin> set_tree (pq_del x t)"
  by (induction t) auto

lemma pq_sub_notin: "pq_uniq t \<Longrightarrow> x \<notin> set_tree (pq_sub x t)"
  by (induction t) auto

lemma pq_del_sub_disj: "pq_uniq t \<Longrightarrow> set_tree (pq_del x t) \<inter> set_tree (pq_sub x t) = {}"
proof (induction t)
  case (Node l y r)
  have s: "set_tree (pq_del x l) \<subseteq> set_tree l" "set_tree (pq_del x r) \<subseteq> set_tree r"
    "set_tree (pq_sub x l) \<subseteq> set_tree l" "set_tree (pq_sub x r) \<subseteq> set_tree r"
    by (rule pq_del_sub_subset)+
  show ?case
  proof (cases "x = y")
    case True
    then show ?thesis using Node.prems by auto
  next
    case False
    have "y \<notin> set_tree l" "y \<notin> set_tree r" "set_tree l \<inter> set_tree r = {}" using Node.prems by simp_all
    moreover have "set_tree (pq_del x l) \<inter> set_tree (pq_sub x l) = {}" "set_tree (pq_del x r) \<inter> set_tree (pq_sub x r) = {}"
      using Node by simp_all
    ultimately show ?thesis using False s by (cases "x \<in> set_tree l") (simp, blast)+
  qed
qed simp

lemma pq_del_sub_union:
  "pq_uniq t \<Longrightarrow> x \<in> set_tree t \<Longrightarrow> set_tree t = insert x (set_tree (pq_del x t) \<union> set_tree (pq_sub x t))"
proof (induction t)
  case (Node l y r)
  consider "x = y" | "x \<noteq> y" "x \<in> set_tree l" | "x \<noteq> y" "x \<notin> set_tree l" "x \<in> set_tree r"
    using Node.prems by auto
  then show ?case
  proof cases
    case 2
    then have "x \<notin> set_tree r" using Node.prems by auto
    then show ?thesis using Node 2 by (auto simp: pq_del_id)
  next
    case 3
    then show ?thesis using Node by (auto simp: pq_del_id)
  qed auto
qed simp

lemmas pq_del_sub_set = pq_del_sub_union pq_del_notin pq_sub_notin pq_del_sub_disj

text \<open>
  pqueue_list_remove, when the node is the first child of its back pointer (\<open>f\<close> stores the child
  pointer) and when it follows it (\<open>f\<close> stores the next pointer).
\<close>

lemma pq_unlink:
  assumes e: "pq_addr e" "h e = Some n" "e \<notin> set_tree (Node l x r)"
    and x: "pq_bt h e x (Node l x r)" "h x = Some m"
    and h': "h' = pq_back (pqe_next m) e (h(e \<mapsto> f n))" and key: "pqe_key (f n) = pqe_key n"
  shows "pq_bt h' e (pqe_next m) r" "pq_top h' x l" "h' e = Some (f n)" "h' x = h x"
    "pq_keeps (insert e (set_tree (Node l x r))) h h'" "\<And>y. y \<in> set_tree l \<Longrightarrow> h' y = h y"
proof -
  have r: "pq_bt h x (pqe_next m) r" and l: "pq_bt h x (scast (pqe_child m)) l" using x by simp_all
  have nx: "pqe_next m = NULL \<or> pqe_next m \<in> set_tree r" using pq_bt_head [OF r] by fastforce
  then have d: "pqe_next m \<noteq> NULL \<Longrightarrow> pqe_next m \<in> dom h" using pq_bt_addr [OF r] by blast
  have ne: "e \<noteq> x" "e \<notin> set_tree l" "e \<notin> set_tree r" "pqe_next m \<noteq> e" "pqe_next m \<noteq> x" "pqe_next m \<notin> set_tree l"
    using e x nx pq_bt_addr [OF l, of NULL] by (auto simp: pq_addr_def)
  show he: "h' e = Some (f n)" "h' x = h x" using ne by (auto simp: h' pq_back_def)
  show hl: "h' y = h y" if "y \<in> set_tree l" for y
    using that ne by (auto simp: h' pq_back_def)
  show "pq_bt h' e (pqe_next m) r"
    by (rule pq_bt_back [OF r]) (use ne in \<open>auto simp: h' pq_back_def\<close>)
  have "pq_bt h' x (scast (pqe_child m)) l" using l hl pq_bt_frame [of l h' h] by simp
  then show "pq_top h' x l" using x he by (simp add: pq_top_def)
  show "pq_keeps (insert e (set_tree (Node l x r))) h h'"
    using nx d e key by (auto simp: pq_keeps_def h' pq_back_def)
qed

lemma pqueue_list_remove_child:
  assumes e: "pq_addr e" "h e = Some n" "e \<notin> set_tree (Node l x r)"
    and x: "pq_bt h e x (Node l x r)" "h x = Some m" and c: "scast (pqe_child n) = x"
  shows "pqueue_list_remove x h
    = Some (pq_back (pqe_next m) e (h(e \<mapsto> n\<lparr>pqe_child := ucast (pqe_next m)\<rparr>)))"
proof -
  have r: "pq_bt h x (pqe_next m) r" and p: "pqe_prev m = e" using x by simp_all
  then have d: "pqe_next m \<noteq> NULL \<Longrightarrow> \<exists>k. h (pqe_next m) = Some k"
    using pq_bt_head [OF r] pq_bt_addr [OF r, of "pqe_next m"] by auto
  have ne: "e \<noteq> x" "e \<noteq> NULL" "pqe_next m \<noteq> NULL \<Longrightarrow> pqe_next m \<noteq> e"
    using e pq_bt_head [OF r] by (auto simp: pq_addr_def)
  show ?thesis
    using e(2) x(2) p c ne d
    by (cases "pqe_next m = NULL") (auto simp: pqueue_list_remove_def pqueue_entry_unpack_child_def
      pqueue_entry_pack_child_def pqe_get_def pqe_put_def pq_back_def kassert_def)
qed

lemma pqueue_list_remove_next:
  assumes e: "pq_addr e" "h e = Some n" "e \<notin> set_tree (Node l x r)"
    and x: "pq_bt h e x (Node l x r)" "h x = Some m" and c: "scast (pqe_child n) \<noteq> x"
  shows "pqueue_list_remove x h
    = Some (pq_back (pqe_next m) e (h(e \<mapsto> n\<lparr>pqe_next := pqe_next m\<rparr>)))"
proof -
  have r: "pq_bt h x (pqe_next m) r" and p: "pqe_prev m = e" using x by simp_all
  then have d: "pqe_next m \<noteq> NULL \<Longrightarrow> \<exists>k. h (pqe_next m) = Some k"
    using pq_bt_head [OF r] pq_bt_addr [OF r, of "pqe_next m"] by auto
  have ne: "e \<noteq> x" "e \<noteq> NULL" "pqe_next m \<noteq> NULL \<Longrightarrow> pqe_next m \<noteq> e"
    using e pq_bt_head [OF r] by (auto simp: pq_addr_def)
  show ?thesis
    using e(2) x(2) p c ne d
    by (cases "pqe_next m = NULL") (auto simp: pqueue_list_remove_def pqueue_entry_unpack_child_def
      pqueue_entry_pack_child_def pqe_get_def pqe_put_def pq_back_def kassert_def)
qed

text \<open>
  Removal below a node, from the removal of a node that is not the first of its list: in the child
  list of \<open>e\<close>, and in the list that follows \<open>e\<close>.
\<close>

lemma pq_remove_below:
  assumes e: "pq_addr e" "h e = Some n" "e \<notin> set_tree l"
    and l: "pq_bt h e (scast (pqe_child n)) l" and x: "x \<in> set_tree l"
    and deep: "x \<noteq> scast (pqe_child n) \<Longrightarrow> \<exists>h'. pqueue_list_remove x h = Some h'
      \<and> pq_bt h' e (scast (pqe_child n)) (pq_del x l) \<and> pq_top h' x (pq_sub x l) \<and> pq_keeps (set_tree l) h h'"
  shows "\<exists>h' n'. pqueue_list_remove x h = Some h' \<and> h' e = Some n' \<and> pqe_prev n' = pqe_prev n
    \<and> pqe_next n' = pqe_next n \<and> pq_bt h' e (scast (pqe_child n')) (pq_del x l)
    \<and> pq_top h' x (pq_sub x l) \<and> pq_keeps (insert e (set_tree l)) h h'"
proof (cases "x = scast (pqe_child n)")
  case False
  then obtain h' where h': "pqueue_list_remove x h = Some h'" "pq_bt h' e (scast (pqe_child n)) (pq_del x l)"
    "pq_top h' x (pq_sub x l)" "pq_keeps (set_tree l) h h'" using deep by blast
  then have "h' e = Some n" using e by (simp add: pq_keeps_def)
  then show ?thesis using h' pq_keeps_mono [OF h'(4)] by blast
next
  case True
  then obtain l1 r1 where t: "l = Node l1 x r1" using pq_bt_head [OF l] x l by (cases l) auto
  then obtain m where m: "h x = Some m" using l by (auto split: option.splits)
  have b: "pq_bt h e x (Node l1 x r1)" "e \<notin> set_tree (Node l1 x r1)" using l t True e by auto
  then have nx: "pq_addr (pqe_next m) \<or> pqe_next m = NULL" using m pq_bt_ptr by auto
  note u = pq_unlink [where f = "pqe_child_update (\<lambda>_. ucast (pqe_next m))", OF e(1,2) b(2,1) m refl]
  define h' where "h' = pq_back (pqe_next m) e (h(e \<mapsto> n\<lparr>pqe_child := ucast (pqe_next m)\<rparr>))"
  have "pqueue_list_remove x h = Some h'"
    unfolding h'_def by (rule pqueue_list_remove_child [OF e(1,2) b(2,1) m]) (use True in simp)
  moreover have "h' e = Some (n\<lparr>pqe_child := ucast (pqe_next m)\<rparr>)" "pq_bt h' e (pqe_next m) r1" "pq_top h' x l1"
    "pq_keeps (insert e (set_tree l)) h h'"
    using u t by (simp_all add: h'_def)
  ultimately show ?thesis using unpack_packed_child [OF nx] t by auto
qed

lemma pq_remove_after:
  assumes e: "pq_addr e" "h e = Some n" "e \<notin> set_tree r"
    and r: "pq_bt h e (pqe_next n) r" and x: "x \<in> set_tree r" "scast (pqe_child n) \<noteq> x"
    and deep: "x \<noteq> pqe_next n \<Longrightarrow> \<exists>h'. pqueue_list_remove x h = Some h'
      \<and> pq_bt h' e (pqe_next n) (pq_del x r) \<and> pq_top h' x (pq_sub x r) \<and> pq_keeps (set_tree r) h h'"
  shows "\<exists>h' n'. pqueue_list_remove x h = Some h' \<and> h' e = Some n' \<and> pqe_prev n' = pqe_prev n
    \<and> pqe_child n' = pqe_child n \<and> pq_bt h' e (pqe_next n') (pq_del x r)
    \<and> pq_top h' x (pq_sub x r) \<and> pq_keeps (insert e (set_tree r)) h h'"
proof (cases "x = pqe_next n")
  case False
  then obtain h' where h': "pqueue_list_remove x h = Some h'" "pq_bt h' e (pqe_next n) (pq_del x r)"
    "pq_top h' x (pq_sub x r)" "pq_keeps (set_tree r) h h'" using deep by blast
  then have "h' e = Some n" using e by (simp add: pq_keeps_def)
  then show ?thesis using h' pq_keeps_mono [OF h'(4)] by blast
next
  case True
  then obtain l1 r1 where t: "r = Node l1 x r1" using pq_bt_head [OF r] x r by (cases r) auto
  then obtain m where m: "h x = Some m" using r by (auto split: option.splits)
  have b: "pq_bt h e x (Node l1 x r1)" "e \<notin> set_tree (Node l1 x r1)" using r t True e by auto
  note u = pq_unlink [where f = "pqe_next_update (\<lambda>_. pqe_next m)", OF e(1,2) b(2,1) m refl]
  define h' where "h' = pq_back (pqe_next m) e (h(e \<mapsto> n\<lparr>pqe_next := pqe_next m\<rparr>))"
  have "pqueue_list_remove x h = Some h'"
    unfolding h'_def by (rule pqueue_list_remove_next [OF e(1,2) b(2,1) m x(2)])
  moreover have "h' e = Some (n\<lparr>pqe_next := pqe_next m\<rparr>)" "pq_bt h' e (pqe_next m) r1" "pq_top h' x l1"
    "pq_keeps (insert e (set_tree r)) h h'"
    using u t by (simp_all add: h'_def)
  ultimately show ?thesis using t by auto
qed

lemma pqueue_list_remove_deep:
  assumes "pq_bt h p e t" and "x \<in> set_tree t" and "x \<noteq> e"
  shows "\<exists>h'. pqueue_list_remove x h = Some h' \<and> pq_bt h' p e (pq_del x t)
    \<and> pq_top h' x (pq_sub x t) \<and> pq_keeps (set_tree t) h h'"
  using assms
proof (induction t arbitrary: p e)
  case (Node l y r)
  have y: "y = e" using Node.prems(1) by simp
  obtain n where "h e = Some n" using Node.prems(1) y by (cases "h e") simp_all
  with y have n: "h e = Some n" "y = e" "pq_addr e" "pqe_prev n = p"
    "pq_bt h e (scast (pqe_child n)) l" "pq_bt h e (pqe_next n) r"
    "e \<notin> set_tree l" "e \<notin> set_tree r" "set_tree l \<inter> set_tree r = {}"
    using Node.prems(1) by simp_all
  have sub: "set_tree (pq_del x l) \<subseteq> set_tree l" "set_tree (pq_del x r) \<subseteq> set_tree r"
    by (rule pq_del_sub_subset)+
  show ?case
  proof (cases "x \<in> set_tree l")
    case True
    then have xr: "x \<notin> set_tree r" "pq_del x r = r" using n(9) pq_del_id [of x r] by auto
    obtain h' n' where h': "pqueue_list_remove x h = Some h'" "h' e = Some n'" "pqe_prev n' = p"
      "pqe_next n' = pqe_next n" "pq_bt h' e (scast (pqe_child n')) (pq_del x l)"
      "pq_top h' x (pq_sub x l)" "pq_keeps (insert e (set_tree l)) h h'"
      using pq_remove_below [OF n(3,1,7,5) True Node.IH(1) [OF n(5) True]] n(4) by auto
    moreover have "h' y = h y" if "y \<in> set_tree r" for y
      using h'(7) that n(8,9) by (auto simp: pq_keeps_def)
    then have "pq_bt h' e (pqe_next n) r" using n(6) pq_bt_frame [of r h' h] by simp
    ultimately show ?thesis
      using n(2,3,7,8,9) Node.prems(3) xr True sub pq_keeps_mono [OF h'(7), of "set_tree (Node l y r)"]
      by (auto simp: subset_iff disjoint_iff)
  next
    case False
    then have x: "x \<in> set_tree r" "pq_del x l = l" using Node.prems(2,3) n(2) pq_del_id [of x l] by auto
    have "scast (pqe_child n) \<noteq> x" using pq_bt_head [OF n(5)] False pq_bt_addr [OF n(6) x(1)]
      by (auto simp: pq_addr_def)
    then obtain h' n' where h': "pqueue_list_remove x h = Some h'" "h' e = Some n'" "pqe_prev n' = p"
      "pqe_child n' = pqe_child n" "pq_bt h' e (pqe_next n') (pq_del x r)"
      "pq_top h' x (pq_sub x r)" "pq_keeps (insert e (set_tree r)) h h'"
      using pq_remove_after [OF n(3,1,8,6) x(1) _ Node.IH(2) [OF n(6) x(1)]] n(4) by auto
    moreover have "h' y = h y" if "y \<in> set_tree l" for y
      using h'(7) that n(7,9) by (auto simp: pq_keeps_def)
    then have "pq_bt h' e (scast (pqe_child n)) l" using n(5) pq_bt_frame [of l h' h] by simp
    ultimately show ?thesis
      using n(2,3,7,8,9) Node.prems(3) x False sub pq_keeps_mono [OF h'(7), of "set_tree (Node l y r)"]
      by (auto simp: subset_iff disjoint_iff)
  qed
qed simp

lemma pqueue_list_remove_top:
  assumes t: "pq_top h q l" and x: "x \<in> set_tree l"
  shows "\<exists>h'. pqueue_list_remove x h = Some h' \<and> pq_top h' q (pq_del x l)
    \<and> pq_top h' x (pq_sub x l) \<and> pq_keeps (insert q (set_tree l)) h h'"
proof -
  obtain n where n: "pq_addr q" "h q = Some n" "q \<notin> set_tree l" "pq_bt h q (scast (pqe_child n)) l"
    using t by (auto simp: pq_top_def split: option.splits)
  obtain h' n' where h': "pqueue_list_remove x h = Some h'" "h' q = Some n'"
    "pq_bt h' q (scast (pqe_child n')) (pq_del x l)" "pq_top h' x (pq_sub x l)" "pq_keeps (insert q (set_tree l)) h h'"
    using pq_remove_below [OF n x pqueue_list_remove_deep [OF n(4) x]] by auto
  moreover have "pq_top h' q (pq_del x l)"
    using h'(2,3) n(1,3) subsetD [OF pq_del_sub_subset(1), of q x l] by (auto simp: pq_top_def)
  ultimately show ?thesis by blast
qed

subsection \<open>Heap order\<close>

text \<open>\<open>R\<close> ranks the nodes; no node of a child list ranks above its parent.\<close>

fun pq_ordered :: "('a \<Rightarrow> int) \<Rightarrow> 'a tree \<Rightarrow> bool" where
  "pq_ordered R Leaf = True"
| "pq_ordered R (Node l x r) = ((\<forall>y \<in> set_tree l. R y \<le> R x) \<and> pq_ordered R l \<and> pq_ordered R r)"

lemma pq_ordered_cong: "(\<And>y. y \<in> set_tree t \<Longrightarrow> R y = R' y) \<Longrightarrow> pq_ordered R t = pq_ordered R' t"
  by (induction t) auto

lemma pq_ordered_upd: "x \<notin> set_tree t \<Longrightarrow> pq_ordered (R(x := v)) t = pq_ordered R t"
  by (rule pq_ordered_cong) auto

lemma pq_ordered_del: "pq_ordered R t \<Longrightarrow> pq_ordered R (pq_del x t)"
  using pq_del_sub_subset(1) by (induction t) fastforce+

lemma pq_ordered_sub: "pq_ordered R t \<Longrightarrow> pq_ordered R (pq_sub x t)"
  by (induction t) auto

lemma pq_ordered_sub_le: "pq_ordered R t \<Longrightarrow> y \<in> set_tree (pq_sub x t) \<Longrightarrow> R y \<le> R x"
  by (induction t) (auto split: if_splits)

definition pq_rank :: "(u8 \<Rightarrow> ptr \<Rightarrow> int) \<Rightarrow> pqmem \<Rightarrow> ptr \<Rightarrow> int" where
  "pq_rank rank h x = rank (pqe_key (the (h x))) x"

lemma pq_rank_keeps: "pq_keeps A h h' \<Longrightarrow> pq_rank rank h' = pq_rank rank h"
proof
  fix x assume "pq_keeps A h h'"
  then have "map_option pqe_key (h' x) = map_option pqe_key (h x)" by (simp add: pq_keeps_def)
  then show "pq_rank rank h' x = pq_rank rank h x"
    by (cases "h x"; cases "h' x") (auto simp: pq_rank_def)
qed

text \<open>The queue head holds the pairing heap \<open>t\<close>: empty, or one root without siblings.\<close>

fun pq_holds :: "priority_queue \<Rightarrow> ptr tree \<Rightarrow> bool" where
  "pq_holds q Leaf = (pqueue_unpack_root q = NULL)"
| "pq_holds q (Node l x r) = (r = Leaf \<and> pqueue_unpack_root q = x \<and> pq_top (pq_mem q) x l)"

definition pq_state :: "(u8 \<Rightarrow> ptr \<Rightarrow> int) \<Rightarrow> priority_queue \<Rightarrow> ptr tree \<Rightarrow> bool" where
  "pq_state rank q t \<longleftrightarrow> pq_holds q t \<and> pq_ordered (pq_rank rank (pq_mem q)) t"

lemma unpack_root_mem [simp]: "pqueue_unpack_root (q\<lparr>pq_mem := h\<rparr>) = pqueue_unpack_root q"
  and pack_root_mem [simp]: "pq_mem (pqueue_pack_root q r) = pq_mem q"
  and pq_flags_mem [simp]: "pq_flags (q\<lparr>pq_mem := h\<rparr>) = pq_flags q"
  by (simp_all add: pqueue_unpack_root_def pqueue_pack_root_def pq_flags_def)

lemma pq_holds_frame:
  assumes "pq_holds q t" and "\<And>y. y \<in> set_tree t \<Longrightarrow> h y = pq_mem q y"
  shows "pq_holds (q\<lparr>pq_mem := h\<rparr>) t"
proof (cases t)
  case (Node l x r)
  then show ?thesis using assms pq_top_frame [of x l h "pq_mem q"] by simp
qed (use assms in simp)

lemma pq_top_addr: "pq_top h x l \<Longrightarrow> y \<in> insert x (set_tree l) \<Longrightarrow> pq_addr y \<and> y \<in> dom h"
  using pq_bt_addr [of h x _ l y] by (auto simp: pq_top_def split: option.splits)

lemma pq_holds_addr: "pq_holds q t \<Longrightarrow> x \<in> set_tree t \<Longrightarrow> pq_addr x \<and> x \<in> dom (pq_mem q)"
  using pq_top_addr [of "pq_mem q" _ _ x] by (cases t) auto

lemma pq_holds_pack:
  "pq_top (pq_mem q) r l \<Longrightarrow> pq_holds (pqueue_pack_root q r) (Node l r Leaf)"
  "pq_holds (pqueue_pack_root q NULL) Leaf"
  by (auto simp: unpack_pack_root pq_top_def)

lemma pq_ordered_root: "pq_ordered R t \<Longrightarrow> pq_holds q t \<Longrightarrow> y \<in> set_tree t \<Longrightarrow> R y \<le> R (pqueue_unpack_root q)"
  by (cases t) auto

subsection \<open>Contracts of the comparator and of the meld\<close>

text \<open>
  A comparator orders entries by a rank, computed from the key of the entry and, for generic keys,
  from the element. Above it, pqueue_pair_meld turns a list of heap-ordered siblings into one tree.
\<close>

locale pq_comparator =
  fixes cmp :: pq_cmp and rank :: "u8 \<Rightarrow> ptr \<Rightarrow> int"
  assumes cmp_rank: "h a = Some m \<Longrightarrow> h b = Some n \<Longrightarrow>
    \<exists>v. cmp h a b = Some v \<and> (v < 0 \<longleftrightarrow> rank (pqe_key m) a < rank (pqe_key n) b)"
begin

lemma cmp_pq_rank:
  assumes "a \<in> dom h" and "b \<in> dom h"
  shows "\<exists>v. cmp h a b = Some v \<and> (v < 0 \<longleftrightarrow> pq_rank rank h a < pq_rank rank h b)"
  using assms cmp_rank by (auto simp: pq_rank_def)

lemma merge_ordered:
  assumes a: "pq_top h a la" "pq_ordered (pq_rank rank h) (Node la a Leaf)"
    and b: "pq_top h b lb" "pq_ordered (pq_rank rank h) (Node lb b Leaf)"
    and disj: "insert a (set_tree la) \<inter> insert b (set_tree lb) = {}"
  shows "\<exists>r l h'. pqueue_merge cmp a b h = Some (r, h') \<and> pq_top h' r l
    \<and> pq_ordered (pq_rank rank h) (Node l r Leaf)
    \<and> insert r (set_tree l) = insert a (set_tree la) \<union> insert b (set_tree lb)
    \<and> r = (if pq_rank rank h a < pq_rank rank h b then b else a)
    \<and> pq_keeps (insert a (set_tree la) \<union> insert b (set_tree lb)) h h'"
proof -
  have "a \<in> dom h" "b \<in> dom h" using a b by (auto simp: pq_top_def split: option.splits)
  then obtain v where v: "cmp h a b = Some v" "v < 0 \<longleftrightarrow> pq_rank rank h a < pq_rank rank h b"
    using cmp_pq_rank by blast
  obtain h' where h': "pqueue_merge cmp a b h = Some (if v < 0 then b else a, h')"
    "pq_top h' (if v < 0 then b else a) (if v < 0 then Node la a lb else Node lb b la)"
    "pq_keeps (insert a (set_tree la) \<union> insert b (set_tree lb)) h h'"
    using pqueue_merge_top [where cmp = cmp, OF a(1) b(1) disj v(1)] by blast
  define r l where rl: "r = (if v < 0 then b else a)" "l = (if v < 0 then Node la a lb else Node lb b la)"
  have "pq_ordered (pq_rank rank h) (Node l r Leaf)"
    using a(2) b(2) v(2) by (cases "v < 0") (auto simp: rl)
  moreover have "insert r (set_tree l) = insert a (set_tree la) \<union> insert b (set_tree lb)"
    by (auto simp: rl)
  moreover have "r = (if pq_rank rank h a < pq_rank rank h b then b else a)" using v(2) by (simp add: rl)
  moreover note h' [folded rl]
  ultimately show ?thesis by blast
qed

lemma merge_state:
  assumes s: "pq_state rank q t" and x: "pq_top (pq_mem q) x lx"
    and o: "pq_ordered (pq_rank rank (pq_mem q)) (Node lx x Leaf)"
    and disj: "set_tree t \<inter> insert x (set_tree lx) = {}"
  shows "\<exists>r h' t'. pqueue_merge cmp (pqueue_unpack_root q) x (pq_mem q) = Some (r, h')
    \<and> pq_state rank (pqueue_pack_root (q\<lparr>pq_mem := h'\<rparr>) r) t'
    \<and> set_tree t' = set_tree t \<union> insert x (set_tree lx)
    \<and> (r = x \<longleftrightarrow> (\<forall>y \<in> set_tree t. pq_rank rank (pq_mem q) y < pq_rank rank (pq_mem q) x))
    \<and> pq_flags (pqueue_pack_root (q\<lparr>pq_mem := h'\<rparr>) r) = pq_flags q
    \<and> pq_keeps (set_tree t \<union> insert x (set_tree lx)) (pq_mem q) h'"
proof (cases t)
  case Leaf
  have "pq_addr x" using x by (simp add: pq_top_def)
  moreover have "pqueue_merge cmp (pqueue_unpack_root q) x (pq_mem q) = Some (x, pq_mem q)"
    using s Leaf by (simp add: pq_state_def pqueue_merge_def)
  moreover have "pq_state rank (pqueue_pack_root (q\<lparr>pq_mem := pq_mem q\<rparr>) x) (Node lx x Leaf)"
    using pq_holds_pack(1) [OF x] o by (simp add: pq_state_def)
  ultimately show ?thesis using Leaf by (auto simp: pq_flags_pack_root pq_keeps_refl)
next
  case (Node l a r0)
  then have t: "t = Node l a Leaf" and a: "pq_top (pq_mem q) a l" "pqueue_unpack_root q = a"
    "pq_ordered (pq_rank rank (pq_mem q)) (Node l a Leaf)" using s by (auto simp: pq_state_def)
  have d: "insert a (set_tree l) \<inter> insert x (set_tree lx) = {}" using disj t by simp
  obtain r l' h' where m: "pqueue_merge cmp a x (pq_mem q) = Some (r, h')" "pq_top h' r l'"
    "pq_ordered (pq_rank rank (pq_mem q)) (Node l' r Leaf)"
    "insert r (set_tree l') = insert a (set_tree l) \<union> insert x (set_tree lx)"
    "r = (if pq_rank rank (pq_mem q) a < pq_rank rank (pq_mem q) x then x else a)"
    "pq_keeps (insert a (set_tree l) \<union> insert x (set_tree lx)) (pq_mem q) h'"
    using merge_ordered [OF a(1,3) x o d] by blast
  have "pq_addr r" using m(2) by (simp add: pq_top_def)
  moreover have "pq_state rank (pqueue_pack_root (q\<lparr>pq_mem := h'\<rparr>) r) (Node l' r Leaf)"
    using pq_holds_pack(1) [of "q\<lparr>pq_mem := h'\<rparr>" r l'] m(2,3) pq_rank_keeps [OF m(6)]
    by (simp add: pq_state_def)
  moreover have "r = x \<longleftrightarrow> (\<forall>y \<in> set_tree t. pq_rank rank (pq_mem q) y < pq_rank rank (pq_mem q) x)"
    using m(5) d a(3) t by fastforce
  moreover have "set_tree (Node l' r Leaf) = set_tree t \<union> insert x (set_tree lx)"
    using m(4) t by simp
  ultimately show ?thesis using m(1,6) a(2) t pq_flags_pack_root [of r "q\<lparr>pq_mem := h'\<rparr>"]
    by (intro exI [of _ r] exI [of _ h'] exI [of _ "Node l' r Leaf"]) simp
qed

end

text \<open>pqueue_update_key changes the rank of one entry and no link.\<close>

definition pq_key_ok :: "(u8 \<Rightarrow> ptr \<Rightarrow> int) \<Rightarrow> priority_queue \<Rightarrow> u8 \<Rightarrow> bool" where
  "pq_key_ok rank q k \<longleftrightarrow> pqueue_has_builtin_keys q
     \<or> k = PRIORITY_QUEUE_KEY_NONE \<and> (\<forall>k k' x. rank k x = rank k' x)"

lemma pq_bt_links:
  "(\<And>y. y \<in> set_tree t \<Longrightarrow> \<exists>n k. h y = Some n \<and> h' y = Some (n\<lparr>pqe_key := k\<rparr>)) \<Longrightarrow> pq_bt h p e t \<Longrightarrow> pq_bt h' p e t"
proof (induction t arbitrary: p e)
  case (Node l x r)
  obtain n k where n: "h x = Some n" "h' x = Some (n\<lparr>pqe_key := k\<rparr>)" using Node.prems(1) [of x] by auto
  have "pq_bt h' q c l" if "pq_bt h q c l" for q c by (rule Node.IH(1)) (use Node.prems(1) that in auto)
  moreover have "pq_bt h' q c r" if "pq_bt h q c r" for q c by (rule Node.IH(2)) (use Node.prems(1) that in auto)
  ultimately show ?case using Node.prems(2) n by simp
qed simp

lemma pq_top_key:
  assumes "pq_top h y l" and "h x = Some n"
  shows "pq_top (h(x \<mapsto> n\<lparr>pqe_key := k\<rparr>)) y l"
proof -
  let ?h = "h(x \<mapsto> n\<lparr>pqe_key := k\<rparr>)"
  obtain m where m: "h y = Some m" using assms(1) by (auto simp: pq_top_def split: option.splits)
  have "\<exists>n k. h z = Some n \<and> ?h z = Some (n\<lparr>pqe_key := k\<rparr>)" if z: "z \<in> insert y (set_tree l)" for z
  proof -
    obtain m where "h z = Some m" using pq_top_addr [OF assms(1) z] by blast
    then show ?thesis using assms(2)
      by (intro exI [of _ m] exI [of _ "if z = x then k else pqe_key m"]) auto
  qed
  then have "pq_bt ?h y c l" if "pq_bt h y c l" for c using that pq_bt_links [of l h ?h] by blast
  then show ?thesis using assms m by (auto simp: pq_top_def)
qed

lemma pqueue_update_key_rank:
  assumes n: "pq_mem q x = Some n" and k: "pq_key_ok rank q k"
  shows "\<exists>h. pqueue_update_key q x k = Some (q\<lparr>pq_mem := h\<rparr>)
    \<and> pq_rank rank h = (pq_rank rank (pq_mem q))(x := rank k x)
    \<and> (\<forall>y l. pq_top (pq_mem q) y l \<longrightarrow> pq_top h y l)
    \<and> (\<forall>y. y \<noteq> x \<longrightarrow> h y = pq_mem q y)"
proof (cases "pqueue_has_builtin_keys q")
  case True
  define h where "h = (pq_mem q)(x \<mapsto> n\<lparr>pqe_key := k\<rparr>)"
  have "unat k \<le> 255" using unat_less_pow [of k] by simp
  then have "pqueue_update_key q x k = Some (q\<lparr>pq_mem := h\<rparr>)"
    using True n by (simp add: pqueue_update_key_def kassert_def pqe_put_def h_def)
  moreover have "pq_rank rank h = (pq_rank rank (pq_mem q))(x := rank k x)"
    by (auto simp: pq_rank_def h_def)
  moreover have "\<forall>y l. pq_top (pq_mem q) y l \<longrightarrow> pq_top h y l"
    using pq_top_key [of "pq_mem q" _ _ x n k] n by (auto simp: h_def)
  ultimately show ?thesis by (auto simp: h_def)
next
  case False
  then have "k = PRIORITY_QUEUE_KEY_NONE" "\<And>k' x. rank k' x = rank k x" using k by (auto simp: pq_key_ok_def)
  then have "pqueue_update_key q x k = Some (q\<lparr>pq_mem := pq_mem q\<rparr>)"
    "pq_rank rank (pq_mem q) = (pq_rank rank (pq_mem q))(x := rank k x)"
    using False by (auto simp: pqueue_update_key_def kassert_def pq_rank_def)
  then show ?thesis by blast
qed

lemma pq_holds_top: "pq_holds q t \<Longrightarrow> (\<forall>y l. pq_top (pq_mem q) y l \<longrightarrow> pq_top h y l) \<Longrightarrow> pq_holds (q\<lparr>pq_mem := h\<rparr>) t"
  by (cases t) auto

lemma pq_key_ok_mem [simp]: "pq_key_ok rank (q\<lparr>pq_mem := h\<rparr>) k = pq_key_ok rank q k"
  by (simp add: pq_key_ok_def pqueue_has_builtin_keys_def)

context pq_comparator
begin

text \<open>Insertion of a tree: a fresh entry, or an entry unlinked with its children.\<close>

lemma insert_tree:
  assumes q: "pq_holds q t" "pq_ordered (pq_rank rank (pq_mem q)) t"
    and x: "pq_top (pq_mem q) x lx" "pq_ordered (pq_rank rank (pq_mem q)) lx"
      "\<forall>y \<in> set_tree lx. pq_rank rank (pq_mem q) y \<le> rank k x"
    and disj: "set_tree t \<inter> insert x (set_tree lx) = {}" and k: "pq_key_ok rank q k"
  shows "\<exists>b q' t'. priority_queue_insert cmp q x k = Some (b, q') \<and> pq_state rank q' t'
    \<and> set_tree t' = set_tree t \<union> insert x (set_tree lx)
    \<and> pq_rank rank (pq_mem q') = (pq_rank rank (pq_mem q))(x := rank k x)
    \<and> (b \<longleftrightarrow> (\<forall>y \<in> set_tree t. pq_rank rank (pq_mem q) y < rank k x))
    \<and> pq_flags q' = pq_flags q
    \<and> (\<forall>y. y \<notin> set_tree t \<union> insert x (set_tree lx) \<longrightarrow> pq_mem q' y = pq_mem q y)"
proof -
  obtain n where n: "pq_mem q x = Some n" using x(1) by (auto simp: pq_top_def split: option.splits)
  obtain h where h: "pqueue_update_key q x k = Some (q\<lparr>pq_mem := h\<rparr>)"
    "pq_rank rank h = (pq_rank rank (pq_mem q))(x := rank k x)"
    "\<forall>y l. pq_top (pq_mem q) y l \<longrightarrow> pq_top h y l" "\<forall>y. y \<noteq> x \<longrightarrow> h y = pq_mem q y"
    using pqueue_update_key_rank [OF n k] by blast
  let ?q = "q\<lparr>pq_mem := h\<rparr>"
  have xl: "x \<notin> set_tree lx" "x \<notin> set_tree t" using x(1) disj by (auto simp: pq_top_def)
  have rt: "pq_ordered (pq_rank rank h) t" "pq_ordered (pq_rank rank h) lx"
    using q(2) x(2) xl by (simp_all add: h(2) pq_ordered_upd)
  have s: "pq_state rank ?q t" using pq_holds_top [OF q(1) h(3)] rt by (simp add: pq_state_def)
  have x': "pq_top (pq_mem ?q) x lx" "pq_ordered (pq_rank rank (pq_mem ?q)) (Node lx x Leaf)"
    using x h(3) rt xl by (auto simp: h(2))
  obtain r h' t' where m: "pqueue_merge cmp (pqueue_unpack_root ?q) x (pq_mem ?q) = Some (r, h')"
    "pq_state rank (pqueue_pack_root (?q\<lparr>pq_mem := h'\<rparr>) r) t'" "set_tree t' = set_tree t \<union> insert x (set_tree lx)"
    "r = x \<longleftrightarrow> (\<forall>y \<in> set_tree t. pq_rank rank h y < pq_rank rank h x)"
    "pq_flags (pqueue_pack_root (?q\<lparr>pq_mem := h'\<rparr>) r) = pq_flags ?q"
    "pq_keeps (set_tree t \<union> insert x (set_tree lx)) h h'"
    using merge_state [OF s x' disj] by auto
  have "priority_queue_insert cmp q x k = Some (r = x, pqueue_pack_root (?q\<lparr>pq_mem := h'\<rparr>) r)"
    using h(1) m(1) by (simp add: priority_queue_insert_def)
  moreover have "pq_rank rank h' = (pq_rank rank (pq_mem q))(x := rank k x)"
    using pq_rank_keeps [OF m(6)] h(2) by simp
  moreover have "r = x \<longleftrightarrow> (\<forall>y \<in> set_tree t. pq_rank rank (pq_mem q) y < rank k x)"
    using m(4) xl by (auto simp: h(2))
  moreover have "\<forall>y. y \<notin> set_tree t \<union> insert x (set_tree lx) \<longrightarrow> h' y = pq_mem q y"
    using m(6) h(4) by (auto simp: pq_keeps_def)
  ultimately show ?thesis using m(2,3,5)
    by (intro exI [of _ "r = x"] exI [of _ "pqueue_pack_root (?q\<lparr>pq_mem := h'\<rparr>) r"] exI [of _ t']) simp
qed

end

locale pair_meld = pq_comparator +
  fixes meld :: pq_meld
  assumes meld_ok: "pq_bt h p e t \<Longrightarrow> e \<noteq> NULL \<Longrightarrow> pq_ordered (pq_rank rank h) t \<Longrightarrow>
    \<exists>r l h'. meld e h = Some (r, h') \<and> pq_top h' r l \<and> pq_ordered (pq_rank rank h) (Node l r Leaf)
      \<and> insert r (set_tree l) = set_tree t \<and> pq_keeps (set_tree t) h h'"
begin

text \<open>
  Removal. The heap order \<open>R\<close> before the removal and the ranks the comparator sees need to agree only
  on the other elements: the caller may have changed the priority of the one it removes.
\<close>

lemma remove_root_state:
  assumes q: "pq_holds q (Node l x Leaf)" and o: "pq_ordered (pq_rank rank (pq_mem q)) l"
  shows "\<exists>q' t'. pqueue_remove_root meld q x = Some (x, q') \<and> pq_state rank q' t' \<and> set_tree t' = set_tree l
    \<and> pq_flags q' = pq_flags q \<and> pq_keeps (set_tree l) (pq_mem q) (pq_mem q')"
proof -
  obtain n where n: "pq_mem q x = Some n" "pq_bt (pq_mem q) x (scast (pqe_child n)) l"
    using q by (auto simp: pq_top_def split: option.splits)
  define c where "c = (scast (pqe_child n) :: ptr)"
  have u: "pqueue_entry_unpack_child x (pq_mem q) = Some c"
    using n by (simp add: pqueue_entry_unpack_child_def pqe_get_def c_def)
  show ?thesis
  proof (cases "c = NULL")
    case True
    then have l: "l = Leaf" using pq_bt_leaf [OF n(2)] by (simp add: c_def)
    have "pqueue_remove_root meld q x = Some (x, pqueue_pack_root q NULL)"
      using u True by (simp add: pqueue_remove_root_def)
    moreover have "pq_state rank (pqueue_pack_root q NULL) Leaf" by (simp add: pq_state_def unpack_pack_root)
    ultimately show ?thesis using l by (fastforce simp: pq_flags_pack_root pq_keeps_refl)
  next
    case False
    obtain r l' h' where m: "meld c (pq_mem q) = Some (r, h')" "pq_top h' r l'"
      "pq_ordered (pq_rank rank (pq_mem q)) (Node l' r Leaf)" "insert r (set_tree l') = set_tree l"
      "pq_keeps (set_tree l) (pq_mem q) h'"
      using meld_ok [OF n(2)] False o unfolding c_def by blast
    let ?q = "pqueue_pack_root (q\<lparr>pq_mem := h'\<rparr>) r"
    have "pqueue_remove_root meld q x = Some (x, ?q)"
      using u False m(1) by (simp add: pqueue_remove_root_def)
    moreover have "pq_state rank ?q (Node l' r Leaf)"
      using pq_holds_pack(1) [of "q\<lparr>pq_mem := h'\<rparr>" r l'] m(2,3) pq_rank_keeps [OF m(5)]
      by (simp add: pq_state_def)
    moreover have "pq_flags ?q = pq_flags q"
      using m(2) by (simp add: pq_flags_pack_root pq_top_def)
    ultimately show ?thesis using m(4,5) by fastforce
  qed
qed

lemma unlink_state:
  assumes q: "pq_holds q (Node l a Leaf)" and x: "x \<in> set_tree l"
    and o: "pq_ordered R (Node l a Leaf)" and R: "\<forall>y \<in> set_tree (Node l a Leaf). y \<noteq> x \<longrightarrow> R y = pq_rank rank (pq_mem q) y"
  shows "\<exists>h. pqueue_list_remove x (pq_mem q) = Some h \<and> pq_state rank (q\<lparr>pq_mem := h\<rparr>) (Node (pq_del x l) a Leaf)
    \<and> pq_top h x (pq_sub x l) \<and> pq_ordered (pq_rank rank h) (pq_sub x l)
    \<and> pq_keeps (insert a (set_tree l)) (pq_mem q) h"
proof -
  have t: "pq_top (pq_mem q) a l" "pqueue_unpack_root q = a" using q by simp_all
  obtain h where h: "pqueue_list_remove x (pq_mem q) = Some h" "pq_top h a (pq_del x l)"
    "pq_top h x (pq_sub x l)" "pq_keeps (insert a (set_tree l)) (pq_mem q) h"
    using pqueue_list_remove_top [OF t(1) x] by blast
  have u: "pq_uniq l" using t(1) pq_bt_uniq by (auto simp: pq_top_def split: option.splits)
  have ax: "a \<noteq> x" using t(1) x by (auto simp: pq_top_def)
  note sub = pq_del_sub_subset [of x l] pq_del_notin [OF u, of x] pq_sub_notin [OF u, of x]
  have "pq_ordered R (Node (pq_del x l) a Leaf)" "pq_ordered R (pq_sub x l)"
    using o sub(1) pq_ordered_del [of R l x] pq_ordered_sub [of R l x] by auto
  moreover have "R y = pq_rank rank h y" if "y \<in> set_tree (Node (pq_del x l) a Leaf) \<or> y \<in> set_tree (pq_sub x l)" for y
    using that R sub ax pq_rank_keeps [OF h(4)] by auto
  ultimately have "pq_ordered (pq_rank rank h) (Node (pq_del x l) a Leaf)" "pq_ordered (pq_rank rank h) (pq_sub x l)"
    using pq_ordered_cong [of "Node (pq_del x l) a Leaf" R "pq_rank rank h"]
      pq_ordered_cong [of "pq_sub x l" R "pq_rank rank h"] by blast+
  then show ?thesis using h t(2) by (simp add: pq_state_def)
qed

lemma remove_non_root_state:
  assumes q: "pq_holds q (Node l a Leaf)" and x: "x \<in> set_tree l"
    and o: "pq_ordered R (Node l a Leaf)" and R: "\<forall>y \<in> set_tree (Node l a Leaf). y \<noteq> x \<longrightarrow> R y = pq_rank rank (pq_mem q) y"
  shows "\<exists>q' t'. pqueue_remove_non_root cmp meld q x = Some (x, q') \<and> pq_state rank q' t'
    \<and> set_tree t' = set_tree (Node l a Leaf) - {x}
    \<and> pq_flags q' = pq_flags q \<and> pq_keeps (insert a (set_tree l)) (pq_mem q) (pq_mem q')"
proof -
  obtain h where h: "pqueue_list_remove x (pq_mem q) = Some h" "pq_state rank (q\<lparr>pq_mem := h\<rparr>) (Node (pq_del x l) a Leaf)"
    "pq_top h x (pq_sub x l)" "pq_ordered (pq_rank rank h) (pq_sub x l)" "pq_keeps (insert a (set_tree l)) (pq_mem q) h"
    using unlink_state [OF assms] by blast
  have t: "pq_top (pq_mem q) a l" using q by simp
  then have u: "pq_uniq l" and al: "a \<notin> set_tree l"
    using pq_bt_uniq by (auto simp: pq_top_def split: option.splits)
  note sub = pq_del_sub_subset [of x l] and set = pq_del_sub_union [OF u x] pq_del_notin [OF u, of x]
    pq_sub_notin [OF u, of x] pq_del_sub_disj [OF u, of x]
  have ax: "a \<noteq> x" using al x by auto
  obtain n where n: "h x = Some n" "pq_bt h x (scast (pqe_child n)) (pq_sub x l)"
    using h(3) by (auto simp: pq_top_def split: option.splits)
  define c where "c = (scast (pqe_child n) :: ptr)"
  have ch: "pqueue_entry_unpack_child x h = Some c"
    using n by (simp add: pqueue_entry_unpack_child_def pqe_get_def c_def)
  show ?thesis
  proof (cases "c = NULL")
    case True
    then have "pq_sub x l = Leaf" using pq_bt_leaf [OF n(2)] by (simp add: c_def)
    then have "set_tree (Node (pq_del x l) a Leaf) = set_tree (Node l a Leaf) - {x}" using set ax by auto
    moreover have "pqueue_remove_non_root cmp meld q x = Some (x, q\<lparr>pq_mem := h\<rparr>)"
      using h(1) ch True by (simp add: pqueue_remove_non_root_def)
    ultimately show ?thesis using h(2,5)
      by (intro exI [of _ "q\<lparr>pq_mem := h\<rparr>"] exI [of _ "Node (pq_del x l) a Leaf"]) simp
  next
    case False
    obtain r l' h' where m: "meld c h = Some (r, h')" "pq_top h' r l'"
      "pq_ordered (pq_rank rank h) (Node l' r Leaf)" "insert r (set_tree l') = set_tree (pq_sub x l)"
      "pq_keeps (set_tree (pq_sub x l)) h h'"
      using meld_ok [OF n(2) _ h(4)] False unfolding c_def by blast
    let ?q = "q\<lparr>pq_mem := h'\<rparr>"
    have d: "set_tree (Node (pq_del x l) a Leaf) \<inter> insert r (set_tree l') = {}"
      using set(4) sub(2) al m(4) by auto
    have "pq_holds (q\<lparr>pq_mem := h\<rparr>\<lparr>pq_mem := h'\<rparr>) (Node (pq_del x l) a Leaf)"
      by (rule pq_holds_frame) (use h(2) m(5) d m(4) in \<open>auto simp: pq_state_def pq_keeps_def\<close>)
    then have s: "pq_state rank ?q (Node (pq_del x l) a Leaf)"
      using h(2) pq_rank_keeps [OF m(5)] by (simp add: pq_state_def)
    obtain s k t' where g: "pqueue_merge cmp (pqueue_unpack_root ?q) r (pq_mem ?q) = Some (s, k)"
      "pq_state rank (pqueue_pack_root (?q\<lparr>pq_mem := k\<rparr>) s) t'"
      "set_tree t' = set_tree (Node (pq_del x l) a Leaf) \<union> insert r (set_tree l')"
      "pq_flags (pqueue_pack_root (?q\<lparr>pq_mem := k\<rparr>) s) = pq_flags ?q"
      "pq_keeps (set_tree (Node (pq_del x l) a Leaf) \<union> insert r (set_tree l')) (pq_mem ?q) k"
      using merge_state [OF s _ _ d] m(2,3) pq_rank_keeps [OF m(5)] by auto
    have gk: "pq_keeps (set_tree (Node (pq_del x l) a Leaf) \<union> insert r (set_tree l')) h' k" using g(5) by simp
    let ?q' = "pqueue_pack_root (q\<lparr>pq_mem := k\<rparr>) s"
    have "pqueue_remove_non_root cmp meld q x = Some (x, ?q')"
      using h(1) ch False m(1) g(1) by (simp add: pqueue_remove_non_root_def)
    moreover have "pq_keeps (insert a (set_tree l)) (pq_mem q) (pq_mem ?q')"
      using pq_keeps_mono [OF pq_keeps_trans [OF h(5) pq_keeps_trans [OF m(5) gk]], of "insert a (set_tree l)"] sub m(4)
      by auto
    moreover have "set_tree t' = set_tree (Node l a Leaf) - {x}"
      using g(3) m(4) set ax by auto
    ultimately show ?thesis using g(2,4) by (intro exI [of _ ?q'] exI [of _ t']) simp
  qed
qed

end

definition pq_entry_zero :: priority_queue_entry where
  "pq_entry_zero = \<lparr>pqe_next = NULL, pqe_prev = NULL, pqe_key = PRIORITY_QUEUE_KEY_NONE, pqe_child = 0\<rparr>"

lemma priority_queue_entry_init_eq: "x \<in> dom h \<Longrightarrow> priority_queue_entry_init x h = Some (h(x \<mapsto> pq_entry_zero))"
proof -
  assume "x \<in> dom h"
  then obtain n where n: "h x = Some n" by blast
  have "n\<lparr>pqe_next := NULL, pqe_prev := NULL, pqe_child := 0, pqe_key := PRIORITY_QUEUE_KEY_NONE\<rparr> = pq_entry_zero"
    by (cases n) (simp add: pq_entry_zero_def)
  then show ?thesis
    using n by (simp add: priority_queue_entry_init_def pqueue_entry_pack_child_def pqe_put_def)
qed

lemma pq_rank_upd_other: "x \<notin> set_tree t \<Longrightarrow> pq_ordered (pq_rank rank (h(x \<mapsto> e))) t = pq_ordered (pq_rank rank h) t"
  by (rule pq_ordered_cong) (auto simp: pq_rank_def)

context pair_meld
begin

lemma remove_state:
  assumes q: "pq_holds q t" and x: "x \<in> set_tree t" and o: "pq_ordered R t"
    and R: "\<forall>y \<in> set_tree t. y \<noteq> x \<longrightarrow> R y = pq_rank rank (pq_mem q) y"
  shows "\<exists>q' t'. priority_queue_remove cmp meld q x = Some (x = pqueue_unpack_root q, q') \<and> pq_state rank q' t'
    \<and> set_tree t' = set_tree t - {x} \<and> pq_flags q' = pq_flags q \<and> pq_mem q' x = Some pq_entry_zero
    \<and> (\<forall>y. y \<noteq> x \<longrightarrow> pq_rank rank (pq_mem q') y = pq_rank rank (pq_mem q) y)
    \<and> (\<forall>y. y \<notin> set_tree t \<longrightarrow> pq_mem q' y = pq_mem q y)"
proof -
  obtain l a where t: "t = Node l a Leaf" and a: "pqueue_unpack_root q = a" "pq_top (pq_mem q) a l"
    using q x by (cases t) auto
  have al: "a \<notin> set_tree l" using a(2) by (simp add: pq_top_def)
  have "\<exists>q1 t1. priority_queue_remove cmp meld q x = map_option (\<lambda>h. (x = a, q1\<lparr>pq_mem := h\<rparr>)) (priority_queue_entry_init x (pq_mem q1))
    \<and> pq_state rank q1 t1 \<and> set_tree t1 = set_tree t - {x} \<and> pq_flags q1 = pq_flags q
    \<and> pq_keeps (set_tree t) (pq_mem q) (pq_mem q1)"
  proof (cases "x = a")
    case True
    have "R y = pq_rank rank (pq_mem q) y" if "y \<in> set_tree l" for y using R t al True that by auto
    then have "pq_ordered (pq_rank rank (pq_mem q)) l" using o t pq_ordered_cong [of l R] by auto
    then obtain q1 t1 where r: "pqueue_remove_root meld q a = Some (a, q1)" "pq_state rank q1 t1" "set_tree t1 = set_tree l"
      "pq_flags q1 = pq_flags q" "pq_keeps (set_tree l) (pq_mem q) (pq_mem q1)"
      using remove_root_state q t by blast
    moreover have "set_tree l = set_tree t - {x}" using t al True by auto
    moreover have "pq_keeps (set_tree t) (pq_mem q) (pq_mem q1)" using pq_keeps_mono [OF r(5)] t by auto
    ultimately show ?thesis using a True
      by (intro exI [of _ q1] exI [of _ t1]) (simp add: priority_queue_remove_def map_conv_bind_option comp_def)
  next
    case False
    then have xl: "x \<in> set_tree l" using x t by simp
    obtain q1 t1 where r: "pqueue_remove_non_root cmp meld q x = Some (x, q1)" "pq_state rank q1 t1"
      "set_tree t1 = set_tree t - {x}" "pq_flags q1 = pq_flags q" "pq_keeps (insert a (set_tree l)) (pq_mem q) (pq_mem q1)"
      using remove_non_root_state [of q l a x R] q t xl o R by blast
    moreover have "pq_keeps (set_tree t) (pq_mem q) (pq_mem q1)" using pq_keeps_mono [OF r(5)] t by auto
    ultimately show ?thesis using a False
      by (intro exI [of _ q1] exI [of _ t1]) (simp add: priority_queue_remove_def map_conv_bind_option comp_def)
  qed
  then obtain q1 t1 where q1: "priority_queue_remove cmp meld q x = map_option (\<lambda>h. (x = a, q1\<lparr>pq_mem := h\<rparr>)) (priority_queue_entry_init x (pq_mem q1))"
    "pq_state rank q1 t1" "set_tree t1 = set_tree t - {x}" "pq_flags q1 = pq_flags q" "pq_keeps (set_tree t) (pq_mem q) (pq_mem q1)"
    by blast
  define q' where "q' = q1\<lparr>pq_mem := (pq_mem q1)(x \<mapsto> pq_entry_zero)\<rparr>"
  have xd: "x \<in> dom (pq_mem q1)"
  proof -
    have "map_option pqe_key (pq_mem q1 x) = map_option pqe_key (pq_mem q x)" using q1(5) by (simp add: pq_keeps_def)
    then show ?thesis using pq_holds_addr [OF q x] by (cases "pq_mem q1 x") auto
  qed
  have xt: "x \<notin> set_tree t1" using q1(3) by simp
  have "priority_queue_remove cmp meld q x = Some (x = a, q')"
    using q1(1) priority_queue_entry_init_eq [OF xd] by (simp add: q'_def)
  moreover have "pq_holds q' t1"
    unfolding q'_def by (rule pq_holds_frame) (use q1(2) xt in \<open>auto simp: pq_state_def\<close>)
  then have "pq_state rank q' t1" using q1(2) xt by (simp add: pq_state_def q'_def pq_rank_upd_other)
  moreover have "pq_rank rank (pq_mem q') y = pq_rank rank (pq_mem q) y" if "y \<noteq> x" for y
    using pq_rank_keeps [OF q1(5), of rank] that by (simp add: q'_def pq_rank_def fun_eq_iff)
  ultimately show ?thesis using q1(3,4,5) a x
    by (intro exI [of _ q'] exI [of _ t1]) (auto simp: q'_def pq_keeps_def)
qed

lemma increase_state:
  assumes q: "pq_holds q t" and x: "x \<in> set_tree t" and o: "pq_ordered R t"
    and R: "\<forall>y \<in> set_tree t. y \<noteq> x \<longrightarrow> R y = pq_rank rank (pq_mem q) y"
    and le: "R x \<le> rank k x" and k: "pq_key_ok rank q k"
  shows "\<exists>b q' t'. priority_queue_entry_increase cmp q x k = Some (b, q') \<and> pq_state rank q' t'
    \<and> set_tree t' = set_tree t \<and> pq_rank rank (pq_mem q') = (pq_rank rank (pq_mem q))(x := rank k x)
    \<and> (b \<longrightarrow> (\<forall>y \<in> set_tree t. pq_rank rank (pq_mem q') y \<le> rank k x))
    \<and> ((\<forall>y \<in> set_tree t. y \<noteq> x \<longrightarrow> pq_rank rank (pq_mem q) y < rank k x) \<longrightarrow> b)
    \<and> pq_flags q' = pq_flags q \<and> (\<forall>y. y \<notin> set_tree t \<longrightarrow> pq_mem q' y = pq_mem q y)"
proof -
  obtain l a where t: "t = Node l a Leaf" and a: "pqueue_unpack_root q = a" "pq_top (pq_mem q) a l"
    using q x by (cases t) auto
  have al: "a \<notin> set_tree l" using a(2) by (simp add: pq_top_def)
  have u: "pq_uniq l" using a(2) pq_bt_uniq by (auto simp: pq_top_def split: option.splits)
  show ?thesis
  proof (cases "x = a")
    case True
    obtain n where n: "pq_mem q x = Some n" using pq_holds_addr [OF q x] by blast
    obtain h where h: "pqueue_update_key q x k = Some (q\<lparr>pq_mem := h\<rparr>)"
      "pq_rank rank h = (pq_rank rank (pq_mem q))(x := rank k x)"
      "\<forall>y l. pq_top (pq_mem q) y l \<longrightarrow> pq_top h y l" "\<forall>y. y \<noteq> x \<longrightarrow> h y = pq_mem q y"
      using pqueue_update_key_rank [OF n k] by blast
    have "\<forall>y \<in> set_tree l. pq_rank rank h y \<le> rank k x" using o R le al True by (fastforce simp: h(2) t)
    moreover have "R y = pq_rank rank h y" if "y \<in> set_tree l" for y using R t al True that by (auto simp: h(2))
    then have "pq_ordered (pq_rank rank h) l" using o t pq_ordered_cong [of l R] by auto
    ultimately have "pq_state rank (q\<lparr>pq_mem := h\<rparr>) t" "\<forall>y \<in> set_tree t. pq_rank rank h y \<le> rank k x"
      using pq_holds_top [OF q h(3)] t True by (auto simp: pq_state_def h(2))
    moreover have "h y = pq_mem q y" if "y \<notin> set_tree t" for y using h(4) x that by metis
    ultimately show ?thesis using h(1,2) a True
      by (intro exI [of _ True] exI [of _ "q\<lparr>pq_mem := h\<rparr>"] exI [of _ t]) (simp add: priority_queue_entry_increase_def)
  next
    case False
    then have xl: "x \<in> set_tree l" using x t by simp
    obtain h where h: "pqueue_list_remove x (pq_mem q) = Some h" "pq_state rank (q\<lparr>pq_mem := h\<rparr>) (Node (pq_del x l) a Leaf)"
      "pq_top h x (pq_sub x l)" "pq_ordered (pq_rank rank h) (pq_sub x l)" "pq_keeps (insert a (set_tree l)) (pq_mem q) h"
      using unlink_state [of q l a x R] q t xl o R by blast
    note sub = pq_del_sub_subset [of x l] and set = pq_del_sub_union [OF u xl] pq_del_notin [OF u, of x]
      pq_sub_notin [OF u, of x] pq_del_sub_disj [OF u, of x]
    have rk: "pq_rank rank h = pq_rank rank (pq_mem q)" by (rule pq_rank_keeps [OF h(5)])
    have "\<forall>y \<in> set_tree (pq_sub x l). pq_rank rank h y \<le> rank k x"
    proof
      fix y assume y: "y \<in> set_tree (pq_sub x l)"
      then have "R y \<le> R x" using o t pq_ordered_sub_le [of R l y x] by simp
      moreover have "R y = pq_rank rank h y" using y R sub(2) set(3) t by (auto simp: rk)
      ultimately show "pq_rank rank h y \<le> rank k x" using le by simp
    qed
    moreover have d: "set_tree (Node (pq_del x l) a Leaf) \<inter> insert x (set_tree (pq_sub x l)) = {}"
      using set sub al False by auto
    ultimately obtain b q' t' where i: "priority_queue_insert cmp (q\<lparr>pq_mem := h\<rparr>) x k = Some (b, q')" "pq_state rank q' t'"
      "set_tree t' = set_tree (Node (pq_del x l) a Leaf) \<union> insert x (set_tree (pq_sub x l))"
      "pq_rank rank (pq_mem q') = (pq_rank rank h)(x := rank k x)"
      "b \<longleftrightarrow> (\<forall>y \<in> set_tree (Node (pq_del x l) a Leaf). pq_rank rank h y < rank k x)"
      "pq_flags q' = pq_flags q"
      "\<forall>y. y \<notin> set_tree (Node (pq_del x l) a Leaf) \<union> insert x (set_tree (pq_sub x l)) \<longrightarrow> pq_mem q' y = h y"
      using insert_tree [of "q\<lparr>pq_mem := h\<rparr>" "Node (pq_del x l) a Leaf" x "pq_sub x l" k] h k by (auto simp: pq_state_def)
    have "set_tree (Node (pq_del x l) a Leaf) \<union> insert x (set_tree (pq_sub x l)) = set_tree t"
      using set t by auto
    moreover have "b \<longrightarrow> (\<forall>y \<in> set_tree t. pq_rank rank (pq_mem q') y \<le> rank k x)"
      using i(5) \<open>\<forall>y \<in> set_tree (pq_sub x l). pq_rank rank h y \<le> rank k x\<close> set(1) t
      by (auto simp: i(4) intro: less_imp_le)
    moreover have "(\<forall>y \<in> set_tree t. y \<noteq> x \<longrightarrow> pq_rank rank (pq_mem q) y < rank k x) \<longrightarrow> b"
      using i(5) set t False by (auto simp: rk)
    moreover have "\<forall>y. y \<notin> set_tree t \<longrightarrow> h y = pq_mem q y" using h(5) t by (auto simp: pq_keeps_def)
    ultimately show ?thesis using i h(1) a False rk
      by (intro exI [of _ b] exI [of _ q'] exI [of _ t']) (simp add: priority_queue_entry_increase_def)
  qed
qed

end
end
