(* ===== verification/PQueueRefine.thy ===== *)
theory PQueueRefine
  imports PQueue
begin

text \<open>
  kern/priority_queue.h as an abstract priority queue: the set of the queued elements, their
  ranks, and the set of the initialised elements that wait outside. The operations refine it for
  every comparator and every meld that keep their contracts; the two comparators of the header
  keep theirs, and merging siblings one by one is a meld that does.
\<close>

subsection \<open>The abstract priority queue\<close>

type_synonym pq_abs = "ptr set \<times> (ptr \<Rightarrow> int) \<times> ptr set"

datatype pq_op = Insert ptr u8 | Remove ptr | Increase ptr u8 | Decrease ptr u8 | Take_root | Peek | Init ptr

datatype pq_res = Flag bool | Elem ptr | Unit

definition pq_top_of :: "ptr set \<Rightarrow> (ptr \<Rightarrow> int) \<Rightarrow> ptr \<Rightarrow> bool" where
  "pq_top_of A R x \<longleftrightarrow> x \<in> A \<and> (\<forall>y \<in> A. R y \<le> R x)"

text \<open>
  What a client may call: \<open>K\<close> are the keys it may use, \<open>U\<close> the entries it owns. Only an initialised
  entry may be inserted, and only a queued one removed or given another priority.
\<close>

fun pq_enabled :: "(u8 \<Rightarrow> ptr \<Rightarrow> int) \<Rightarrow> u8 set \<Rightarrow> ptr set \<Rightarrow> pq_op \<Rightarrow> pq_abs \<Rightarrow> bool" where
  "pq_enabled rank K U (Insert x k) (A, R, F) = (x \<in> F \<and> k \<in> K)"
| "pq_enabled rank K U (Remove x) (A, R, F) = (x \<in> A)"
| "pq_enabled rank K U (Increase x k) (A, R, F) = (x \<in> A \<and> k \<in> K \<and> R x \<le> rank k x)"
| "pq_enabled rank K U (Decrease x k) (A, R, F) = (x \<in> A \<and> k \<in> K)"
| "pq_enabled rank K U Take_root (A, R, F) = (A \<noteq> {})"
| "pq_enabled rank K U Peek (A, R, F) = True"
| "pq_enabled rank K U (Init x) (A, R, F) = (x \<in> U \<and> x \<notin> A)"

fun pq_spec_step :: "(u8 \<Rightarrow> ptr \<Rightarrow> int) \<Rightarrow> pq_op \<Rightarrow> pq_abs \<Rightarrow> pq_res \<Rightarrow> pq_abs \<Rightarrow> bool" where
  "pq_spec_step rank (Insert x k) (A, R, F) r s =
     (r = Flag (\<forall>y \<in> A. R y < rank k x) \<and> s = (insert x A, R(x := rank k x), F - {x}))"
| "pq_spec_step rank (Remove x) (A, R, F) r s =
     (\<exists>b. r = Flag b \<and> (b \<longrightarrow> pq_top_of A R x) \<and> s = (A - {x}, R, insert x F))"
| "pq_spec_step rank (Increase x k) (A, R, F) r s =
     (\<exists>b. r = Flag b \<and> (b \<longrightarrow> pq_top_of A (R(x := rank k x)) x)
        \<and> ((\<forall>y \<in> A - {x}. R y < rank k x) \<longrightarrow> b) \<and> s = (A, R(x := rank k x), F))"
| "pq_spec_step rank (Decrease x k) (A, R, F) r s =
     (\<exists>b. r = Flag b \<and> (b \<longrightarrow> pq_top_of A R x) \<and> s = (A, R(x := rank k x), F))"
| "pq_spec_step rank Take_root (A, R, F) r s = (\<exists>x. pq_top_of A R x \<and> r = Elem x \<and> s = (A - {x}, R, F))"
| "pq_spec_step rank Peek (A, R, F) r s =
     (s = (A, R, F) \<and> (if A = {} then r = Elem NULL else \<exists>x. pq_top_of A R x \<and> r = Elem x))"
| "pq_spec_step rank (Init x) (A, R, F) r s = (r = Unit \<and> s = (A, R, insert x F))"

fun pq_spec_run :: "(u8 \<Rightarrow> ptr \<Rightarrow> int) \<Rightarrow> pq_op list \<Rightarrow> pq_abs \<Rightarrow> pq_res list \<Rightarrow> pq_abs \<Rightarrow> bool" where
  "pq_spec_run rank [] s rs s' = (rs = [] \<and> s' = s)"
| "pq_spec_run rank (c # cs) s rs s' =
     (\<exists>r rs' s1. rs = r # rs' \<and> pq_spec_step rank c s r s1 \<and> pq_spec_run rank cs s1 rs' s')"

text \<open>A sequence of calls that stays within the contract whatever the queue answers.\<close>

fun pq_allowed :: "(u8 \<Rightarrow> ptr \<Rightarrow> int) \<Rightarrow> u8 set \<Rightarrow> ptr set \<Rightarrow> pq_op list \<Rightarrow> pq_abs \<Rightarrow> bool" where
  "pq_allowed rank K U [] s = True"
| "pq_allowed rank K U (c # cs) s = (pq_enabled rank K U c s
     \<and> (\<forall>r s'. pq_spec_step rank c s r s' \<longrightarrow> pq_allowed rank K U cs s'))"

subsection \<open>The operations of the header\<close>

text \<open>The lookup and the removal of the root that the flags of the queue ask for.\<close>

definition pq_peek :: "priority_queue \<Rightarrow> ptr option" where
  "pq_peek q = (if pqueue_is_max_heap q then priority_queue_max q 0 else priority_queue_min q 0)"

definition pq_take :: "pq_meld \<Rightarrow> priority_queue \<Rightarrow> (ptr \<times> priority_queue) option" where
  "pq_take meld q = (if pqueue_is_max_heap q then priority_queue_remove_max meld q 0
     else priority_queue_remove_min meld q 0)"

fun pq_step :: "pq_cmp \<Rightarrow> pq_meld \<Rightarrow> pq_op \<Rightarrow> priority_queue \<Rightarrow> (pq_res \<times> priority_queue) option" where
  "pq_step cmp meld (Insert x k) q = map_option (apfst Flag) (priority_queue_insert cmp q x k)"
| "pq_step cmp meld (Remove x) q = map_option (apfst Flag) (priority_queue_remove cmp meld q x)"
| "pq_step cmp meld (Increase x k) q = map_option (apfst Flag) (priority_queue_entry_increase cmp q x k)"
| "pq_step cmp meld (Decrease x k) q = map_option (apfst Flag) (priority_queue_entry_decrease cmp meld q x k)"
| "pq_step cmp meld Take_root q = map_option (apfst Elem) (pq_take meld q)"
| "pq_step cmp meld Peek q = map_option (\<lambda>e. (Elem e, q)) (pq_peek q)"
| "pq_step cmp meld (Init x) q =
     map_option (\<lambda>h. (Unit, q\<lparr>pq_mem := h\<rparr>)) (priority_queue_entry_init x (pq_mem q))"

fun pq_run :: "pq_cmp \<Rightarrow> pq_meld \<Rightarrow> pq_op list \<Rightarrow> priority_queue \<Rightarrow> (pq_res list \<times> priority_queue) option" where
  "pq_run cmp meld [] q = Some ([], q)"
| "pq_run cmp meld (c # cs) q = do {
     (r, q) \<leftarrow> pq_step cmp meld c q;
     (rs, q) \<leftarrow> pq_run cmp meld cs q;
     Some (r # rs, q) }"

text \<open>
  The representation: a heap-ordered pairing heap of the queued elements with their ranks, the free
  elements initialised, every owned entry allocated.
\<close>

fun pq_repr :: "(u8 \<Rightarrow> ptr \<Rightarrow> int) \<Rightarrow> u8 set \<Rightarrow> ptr set \<Rightarrow> priority_queue \<Rightarrow> pq_abs \<Rightarrow> bool" where
  "pq_repr rank K U q (A, R, F) \<longleftrightarrow> (\<exists>t. pq_state rank q t \<and> set_tree t = A)
     \<and> (\<forall>x \<in> A. R x = pq_rank rank (pq_mem q) x)
     \<and> F \<inter> A = {} \<and> A \<union> F \<subseteq> U
     \<and> (\<forall>x \<in> F. \<exists>n. pq_mem q x = Some n \<and> pqe_child n = 0)
     \<and> (\<forall>x \<in> U. pq_addr x \<and> x \<in> dom (pq_mem q)) \<and> (\<forall>k \<in> K. pq_key_ok rank q k)"

declare pq_repr.simps [simp del]

lemma pq_key_ok_flags: "pq_flags q' = pq_flags q \<Longrightarrow> pq_key_ok rank q' k = pq_key_ok rank q k"
  by (simp add: pq_key_ok_def has_builtin_flags)

lemma pq_reprI:
  assumes r: "pq_repr rank K U q (A, R, F)" and s: "pq_state rank q' t" "set_tree t = A'"
    and m: "\<And>x. x \<in> A' \<Longrightarrow> R' x = pq_rank rank (pq_mem q') x"
    and sub: "F' \<inter> A' = {}" "A' \<union> F' \<subseteq> U"
    and keep: "\<And>x. x \<in> F' \<Longrightarrow> x \<in> F \<and> pq_mem q' x = pq_mem q x \<or> pq_mem q' x = Some pq_entry_zero"
      "\<And>x. x \<notin> A' \<Longrightarrow> x \<in> dom (pq_mem q) \<Longrightarrow> x \<in> dom (pq_mem q')"
    and f: "pq_flags q' = pq_flags q"
  shows "pq_repr rank K U q' (A', R', F')"
proof -
  have "\<exists>n. pq_mem q' x = Some n \<and> pqe_child n = 0" if "x \<in> F'" for x
    using keep(1) [OF that] r by (auto simp: pq_repr.simps pq_entry_zero_def)
  moreover have "x \<in> dom (pq_mem q')" if "x \<in> U" for x
  proof (cases "x \<in> A'")
    case True
    then show ?thesis using s pq_holds_addr [of q' t x] by (simp add: pq_state_def)
  next
    case False
    then show ?thesis using keep(2) r that by (simp add: pq_repr.simps)
  qed
  moreover have "\<forall>x \<in> U. pq_addr x" "\<forall>k \<in> K. pq_key_ok rank q' k"
    using r pq_key_ok_flags [OF f] by (simp_all add: pq_repr.simps)
  moreover have "\<exists>t. pq_state rank q' t \<and> set_tree t = A'" using s by blast
  ultimately show ?thesis using m sub by (simp add: pq_repr.simps)
qed

lemma pq_reprE:
  assumes "pq_repr rank K U q (A, R, F)"
  obtains t where "pq_holds q t" "pq_ordered (pq_rank rank (pq_mem q)) t" "set_tree t = A"
    "\<forall>x \<in> A. R x = pq_rank rank (pq_mem q) x" "F \<inter> A = {}" "A \<subseteq> U" "F \<subseteq> U"
    "\<forall>x \<in> F. \<exists>n. pq_mem q x = Some n \<and> pqe_child n = 0"
    "\<forall>x \<in> U. pq_addr x \<and> x \<in> dom (pq_mem q)" "\<forall>k \<in> K. pq_key_ok rank q k"
  using assms unfolding pq_repr.simps pq_state_def by blast

lemma pq_free_top: "pq_addr x \<Longrightarrow> h x = Some n \<Longrightarrow> pqe_child n = 0 \<Longrightarrow> pq_top h x Leaf"
  by (simp add: pq_top_def)

context pq_comparator
begin

lemma step_insert:
  assumes r: "pq_repr rank K U q (A, R, F)" and x: "x \<in> F" "k \<in> K"
  shows "\<exists>q'. priority_queue_insert cmp q x k = Some (\<forall>y \<in> A. R y < rank k x, q')
    \<and> pq_repr rank K U q' (insert x A, R(x := rank k x), F - {x})"
proof -
  from r obtain t where t: "pq_holds q t" "pq_ordered (pq_rank rank (pq_mem q)) t" "set_tree t = A"
    "\<forall>x \<in> A. R x = pq_rank rank (pq_mem q) x" "F \<inter> A = {}" "A \<subseteq> U" "F \<subseteq> U"
    "\<forall>x \<in> F. \<exists>n. pq_mem q x = Some n \<and> pqe_child n = 0"
    "\<forall>x \<in> U. pq_addr x \<and> x \<in> dom (pq_mem q)" "\<forall>k \<in> K. pq_key_ok rank q k"
    by (rule pq_reprE)
  have top: "pq_top (pq_mem q) x Leaf" using t(7-9) x(1) pq_free_top by blast
  have p: "set_tree t \<inter> insert x (set_tree Leaf) = {}" "pq_key_ok rank q k" "pq_ordered (pq_rank rank (pq_mem q)) Leaf"
    "\<forall>y \<in> set_tree Leaf. pq_rank rank (pq_mem q) y \<le> rank k x"
    using t(3,5,10) x by auto
  obtain b q' t' where i: "priority_queue_insert cmp q x k = Some (b, q')" "pq_state rank q' t'"
    "set_tree t' = set_tree t \<union> insert x (set_tree Leaf)" "pq_rank rank (pq_mem q') = (pq_rank rank (pq_mem q))(x := rank k x)"
    "b \<longleftrightarrow> (\<forall>y \<in> set_tree t. pq_rank rank (pq_mem q) y < rank k x)" "pq_flags q' = pq_flags q"
    "\<forall>y. y \<notin> set_tree t \<union> insert x (set_tree Leaf) \<longrightarrow> pq_mem q' y = pq_mem q y"
    using insert_tree [OF t(1,2) top p(3,4,1,2)] by blast
  have keep: "pq_mem q' y = pq_mem q y" if "y \<notin> A" "y \<noteq> x" for y using i(7) t(3) that by simp
  have "pq_repr rank K U q' (insert x A, R(x := rank k x), F - {x})"
    by (rule pq_reprI [OF r i(2)]) (use i(3,4,6) t(3-7) x keep in auto)
  moreover have "b \<longleftrightarrow> (\<forall>y \<in> A. R y < rank k x)" using i(5) t(3,4) by auto
  ultimately show ?thesis using i(1) by auto
qed

end

context pair_meld
begin

lemma step_remove:
  assumes r: "pq_repr rank K U q (A, R, F)" and x: "x \<in> A"
  shows "\<exists>q' b. priority_queue_remove cmp meld q x = Some (b, q') \<and> (b \<longrightarrow> pq_top_of A R x)
    \<and> pq_repr rank K U q' (A - {x}, R, insert x F)"
proof -
  from r obtain t where t: "pq_holds q t" "pq_ordered (pq_rank rank (pq_mem q)) t" "set_tree t = A"
    "\<forall>x \<in> A. R x = pq_rank rank (pq_mem q) x" "F \<inter> A = {}" "A \<subseteq> U" "F \<subseteq> U"
    by (rule pq_reprE)
  obtain q' t' where i: "priority_queue_remove cmp meld q x = Some (x = pqueue_unpack_root q, q')" "pq_state rank q' t'"
    "set_tree t' = set_tree t - {x}" "pq_flags q' = pq_flags q" "pq_mem q' x = Some pq_entry_zero"
    "\<forall>y. y \<noteq> x \<longrightarrow> pq_rank rank (pq_mem q') y = pq_rank rank (pq_mem q) y"
    "\<forall>y. y \<notin> set_tree t \<longrightarrow> pq_mem q' y = pq_mem q y"
    using remove_state [OF t(1) _ t(2)] t(3) x by blast
  have "x = pqueue_unpack_root q \<longrightarrow> pq_top_of A R x"
    using pq_ordered_root [OF t(2,1)] t(3,4) x by (auto simp: pq_top_of_def)
  moreover have keep: "pq_mem q' y = pq_mem q y" if "y \<notin> A" for y using i(7) t(3) that by simp
  have "pq_repr rank K U q' (A - {x}, R, insert x F)"
    by (rule pq_reprI [OF r i(2)]) (use i(3-6) t(3-7) x keep in \<open>auto split: if_splits\<close>)
  ultimately show ?thesis using i(1) by blast
qed

lemma step_increase:
  assumes r: "pq_repr rank K U q (A, R, F)" and x: "x \<in> A" "k \<in> K" "R x \<le> rank k x"
  shows "\<exists>b q'. priority_queue_entry_increase cmp q x k = Some (b, q') \<and> (b \<longrightarrow> pq_top_of A (R(x := rank k x)) x)
    \<and> ((\<forall>y \<in> A - {x}. R y < rank k x) \<longrightarrow> b) \<and> pq_repr rank K U q' (A, R(x := rank k x), F)"
proof -
  from r obtain t where t: "pq_holds q t" "pq_ordered (pq_rank rank (pq_mem q)) t" "set_tree t = A"
    "\<forall>x \<in> A. R x = pq_rank rank (pq_mem q) x" "F \<inter> A = {}" "A \<subseteq> U" "F \<subseteq> U" "\<forall>k \<in> K. pq_key_ok rank q k"
    by (rule pq_reprE)
  have kk: "pq_key_ok rank q k" and le: "pq_rank rank (pq_mem q) x \<le> rank k x" and xt: "x \<in> set_tree t"
    using t(3,4,8) x by auto
  obtain b q' t' where i: "priority_queue_entry_increase cmp q x k = Some (b, q')" "pq_state rank q' t'"
    "set_tree t' = set_tree t" "pq_rank rank (pq_mem q') = (pq_rank rank (pq_mem q))(x := rank k x)"
    "b \<longrightarrow> (\<forall>y \<in> set_tree t. pq_rank rank (pq_mem q') y \<le> rank k x)"
    "(\<forall>y \<in> set_tree t. y \<noteq> x \<longrightarrow> pq_rank rank (pq_mem q) y < rank k x) \<longrightarrow> b"
    "pq_flags q' = pq_flags q" "\<forall>y. y \<notin> set_tree t \<longrightarrow> pq_mem q' y = pq_mem q y"
    using increase_state [OF t(1) xt t(2) _ le kk] by blast
  have "b \<longrightarrow> pq_top_of A (R(x := rank k x)) x" using i(4,5) t(3,4) xt by (auto simp: pq_top_of_def)
  moreover have "(\<forall>y \<in> A - {x}. R y < rank k x) \<longrightarrow> b" using i(6) t(3,4) by auto
  moreover have keep: "pq_mem q' y = pq_mem q y" if "y \<notin> A" for y using i(8) t(3) that by simp
  have "pq_repr rank K U q' (A, R(x := rank k x), F)"
    by (rule pq_reprI [OF r i(2)]) (use i(3,4,7) t(3-7) x keep in auto)
  ultimately show ?thesis using i(1) by blast
qed

lemma step_decrease:
  assumes r: "pq_repr rank K U q (A, R, F)" and x: "x \<in> A" "k \<in> K"
  shows "\<exists>b q'. priority_queue_entry_decrease cmp meld q x k = Some (b, q') \<and> (b \<longrightarrow> pq_top_of A R x)
    \<and> pq_repr rank K U q' (A, R(x := rank k x), F)"
proof -
  obtain q1 b where q1: "priority_queue_remove cmp meld q x = Some (b, q1)" "b \<longrightarrow> pq_top_of A R x"
    "pq_repr rank K U q1 (A - {x}, R, insert x F)"
    using step_remove [OF r x(1)] by blast
  obtain q' b' where q': "priority_queue_insert cmp q1 x k = Some (b', q')"
    "pq_repr rank K U q' (insert x (A - {x}), R(x := rank k x), insert x F - {x})"
    using step_insert [OF q1(3) _ x(2)] by blast
  have "x \<notin> F" using r x(1) by (auto simp: pq_repr.simps)
  moreover have "insert x (A - {x}) = A" using x(1) by auto
  ultimately show ?thesis using q1 q' by (simp add: priority_queue_entry_decrease_def)
qed

lemma step_take:
  assumes r: "pq_repr rank K U q (A, R, F)" and ne: "A \<noteq> {}"
  shows "\<exists>x q'. pq_take meld q = Some (x, q') \<and> pq_top_of A R x \<and> pq_repr rank K U q' (A - {x}, R, F)"
proof -
  from r obtain t where t: "pq_holds q t" "pq_ordered (pq_rank rank (pq_mem q)) t" "set_tree t = A"
    "\<forall>x \<in> A. R x = pq_rank rank (pq_mem q) x" "F \<inter> A = {}" "A \<subseteq> U" "F \<subseteq> U"
    by (rule pq_reprE)
  obtain l x where lx: "t = Node l x Leaf" and a: "pqueue_unpack_root q = x" "pq_top (pq_mem q) x l"
    using t(1,3) ne by (cases t) auto
  have xl: "x \<notin> set_tree l" "x \<noteq> NULL" "x \<in> A" using a(2) t(3) lx by (auto simp: pq_top_def pq_addr_def)
  obtain q' t' where i: "pqueue_remove_root meld q x = Some (x, q')" "pq_state rank q' t'" "set_tree t' = set_tree l"
    "pq_flags q' = pq_flags q" "pq_keeps (set_tree l) (pq_mem q) (pq_mem q')"
    using remove_root_state [of q l x] t(1,2) lx by auto
  have "pq_take meld q = Some (x, q')"
    using i(1) a(1) xl by (auto simp: pq_take_def priority_queue_remove_max_def priority_queue_remove_min_def kassert_def
      pqe_element_def pqe_element_fast_def pqueue_is_max_heap_def pqueue_is_min_heap_def)
  moreover have "pq_top_of A R x"
    using pq_ordered_root [OF t(2,1)] t(3,4) xl(3) a(1) by (auto simp: pq_top_of_def)
  moreover have keep: "pq_mem q' y = pq_mem q y" if "y \<notin> A \<or> y = x" for y
    using i(5) t(3) lx xl that by (auto simp: pq_keeps_def)
  have "pq_repr rank K U q' (A - {x}, R, F)"
    by (rule pq_reprI [OF r i(2)])
      (use i(3,4) t(3-7) lx xl keep pq_rank_keeps [OF i(5), of rank] in \<open>auto split: if_splits\<close>)
  ultimately show ?thesis by blast
qed

lemma step_peek:
  assumes r: "pq_repr rank K U q (A, R, F)"
  shows "\<exists>x. pq_peek q = Some x \<and> (if A = {} then x = NULL else pq_top_of A R x)"
proof -
  from r obtain t where t: "pq_holds q t" "pq_ordered (pq_rank rank (pq_mem q)) t" "set_tree t = A"
    "\<forall>x \<in> A. R x = pq_rank rank (pq_mem q) x"
    by (rule pq_reprE)
  have p: "pq_peek q = Some (pqueue_unpack_root q)"
    by (auto simp: pq_peek_def priority_queue_max_def priority_queue_min_def kassert_def pqe_element_def
      pqe_element_fast_def pqueue_is_max_heap_def pqueue_is_min_heap_def)
  show ?thesis
  proof (cases t)
    case Leaf
    then show ?thesis using t p by auto
  next
    case (Node l x r0)
    then have "pqueue_unpack_root q \<in> A" "A \<noteq> {}" using t(1,3) by auto
    then show ?thesis using p pq_ordered_root [OF t(2,1)] t(3,4) by (auto simp: pq_top_of_def)
  qed
qed

lemma step_init:
  assumes r: "pq_repr rank K U q (A, R, F)" and x: "x \<in> U" "x \<notin> A"
  shows "\<exists>h. priority_queue_entry_init x (pq_mem q) = Some h \<and> pq_repr rank K U (q\<lparr>pq_mem := h\<rparr>) (A, R, insert x F)"
proof -
  from r obtain t where t: "pq_holds q t" "pq_ordered (pq_rank rank (pq_mem q)) t" "set_tree t = A"
    "\<forall>x \<in> A. R x = pq_rank rank (pq_mem q) x" "F \<inter> A = {}" "A \<subseteq> U" "F \<subseteq> U"
    "\<forall>x \<in> U. pq_addr x \<and> x \<in> dom (pq_mem q)"
    by (rule pq_reprE)
  define h where "h = (pq_mem q)(x \<mapsto> pq_entry_zero)"
  have xt: "x \<notin> set_tree t" using x t(3) by simp
  have "pq_holds (q\<lparr>pq_mem := h\<rparr>) t"
    by (rule pq_holds_frame [OF t(1)]) (use xt in \<open>auto simp: h_def\<close>)
  then have s: "pq_state rank (q\<lparr>pq_mem := h\<rparr>) t" using t(2) xt by (simp add: pq_state_def h_def pq_rank_upd_other)
  have "pq_rank rank h y = pq_rank rank (pq_mem q) y" if "y \<in> A" for y
    using that x(2) by (auto simp: pq_rank_def h_def)
  then have "pq_repr rank K U (q\<lparr>pq_mem := h\<rparr>) (A, R, insert x F)"
    by (intro pq_reprI [OF r s]) (use t(3-8) x in \<open>auto simp: h_def\<close>)
  moreover have "priority_queue_entry_init x (pq_mem q) = Some h"
    using priority_queue_entry_init_eq t(8) x(1) by (simp add: h_def)
  ultimately show ?thesis by blast
qed

lemma step_refines:
  assumes r: "pq_repr rank K U q s" and e: "pq_enabled rank K U c s"
  shows "\<exists>r q' s'. pq_step cmp meld c q = Some (r, q') \<and> pq_spec_step rank c s r s' \<and> pq_repr rank K U q' s'"
proof -
  obtain A R F where s: "s = (A, R, F)" by (cases s)
  note rs = r [unfolded s]
  show ?thesis
  proof (cases c)
    case (Insert x k)
    then show ?thesis using step_insert [OF rs, of x k] e s by auto
  next
    case (Remove x)
    then obtain b q' where "priority_queue_remove cmp meld q x = Some (b, q')" "b \<longrightarrow> pq_top_of A R x"
      "pq_repr rank K U q' (A - {x}, R, insert x F)" using step_remove [OF rs, of x] e s by auto
    then show ?thesis using Remove s by (intro exI [of _ "Flag b"] exI [of _ q']) auto
  next
    case (Increase x k)
    then obtain b q' where "priority_queue_entry_increase cmp q x k = Some (b, q')" "b \<longrightarrow> pq_top_of A (R(x := rank k x)) x"
      "(\<forall>y \<in> A - {x}. R y < rank k x) \<longrightarrow> b" "pq_repr rank K U q' (A, R(x := rank k x), F)"
      using step_increase [OF rs, of x k] e s by auto
    then show ?thesis using Increase s by (intro exI [of _ "Flag b"] exI [of _ q'] exI [of _ "(A, R(x := rank k x), F)"]) auto
  next
    case (Decrease x k)
    then obtain b q' where "priority_queue_entry_decrease cmp meld q x k = Some (b, q')" "b \<longrightarrow> pq_top_of A R x"
      "pq_repr rank K U q' (A, R(x := rank k x), F)" using step_decrease [OF rs, of x k] e s by auto
    then show ?thesis using Decrease s by (intro exI [of _ "Flag b"] exI [of _ q'] exI [of _ "(A, R(x := rank k x), F)"]) auto
  next
    case Take_root
    then show ?thesis using step_take [OF rs] e s by fastforce
  next
    case Peek
    then show ?thesis using step_peek [OF rs] rs s by (cases "A = {}") auto
  next
    case (Init x)
    then show ?thesis using step_init [OF rs, of x] e s by auto
  qed
qed

lemma run_refines:
  assumes "pq_repr rank K U q s" and "pq_allowed rank K U cs s"
  shows "\<exists>rs q' s'. pq_run cmp meld cs q = Some (rs, q') \<and> pq_spec_run rank cs s rs s' \<and> pq_repr rank K U q' s'"
  using assms
proof (induction cs arbitrary: q s)
  case (Cons c cs)
  have "pq_enabled rank K U c s" using Cons.prems(2) by simp
  then obtain r q1 s1 where 1: "pq_step cmp meld c q = Some (r, q1)" "pq_spec_step rank c s r s1" "pq_repr rank K U q1 s1"
    using step_refines [OF Cons.prems(1)] by blast
  moreover have "pq_allowed rank K U cs s1" using Cons.prems(2) 1(2) by (cases s1) simp
  ultimately obtain rs q' s' where 2: "pq_run cmp meld cs q1 = Some (rs, q')" "pq_spec_run rank cs s1 rs s'" "pq_repr rank K U q' s'"
    using Cons.IH by blast
  have "pq_spec_run rank (c # cs) s (r # rs) s'" using 1(2) 2(2) by (cases s1) auto
  then show ?case using 1(1) 2(1,3) by (intro exI [of _ "r # rs"] exI [of _ q'] exI [of _ s']) simp
qed simp

end

subsection \<open>The comparators of the header\<close>

definition rank_max :: "u8 \<Rightarrow> ptr \<Rightarrow> int" where
  "rank_max k x = sint k"

definition rank_min :: "u8 \<Rightarrow> ptr \<Rightarrow> int" where
  "rank_min k x = - sint k"

interpretation max_heap: pq_comparator PRIORITY_QUEUE_SCHED_PRI_MAX_HEAP_COMPARE rank_max
  by unfold_locales (auto simp: PRIORITY_QUEUE_SCHED_PRI_MAX_HEAP_COMPARE_def
    priority_queue_element_builtin_key_compare_def pqe_get_def rank_max_def)

interpretation min_heap: pq_comparator PRIORITY_QUEUE_SCHED_PRI_MIN_HEAP_COMPARE rank_min
  by unfold_locales (auto simp: PRIORITY_QUEUE_SCHED_PRI_MIN_HEAP_COMPARE_def
    priority_queue_element_builtin_key_compare_def pqe_get_def rank_min_def)

text \<open>A comparator block on the elements, which ranks them by a function \<open>prio\<close> of the element.\<close>

interpretation generic: pq_comparator
  "priority_heap_make_comparator off (\<lambda>a b. prio a - prio b)" "\<lambda>k x. prio (pqe_element_fast x off)" for off prio
  by unfold_locales (auto simp: priority_heap_make_comparator_def)

subsection \<open>A meld that keeps the contract\<close>

text \<open>Merging the siblings one after the other, first to last.\<close>

partial_function (option) meld_in_order :: "pq_cmp \<Rightarrow> ptr \<Rightarrow> ptr \<Rightarrow> pqmem \<Rightarrow> (ptr \<times> pqmem) option" where
  "meld_in_order cmp acc e h =
     (if e = NULL then Some (acc, h)
      else do {
        n \<leftarrow> pqe_get pqe_next e h;
        (acc, h) \<leftarrow> pqueue_merge cmp acc e h;
        meld_in_order cmp acc n h })"

context pq_comparator
begin

lemma meld_in_order_ok:
  assumes "pq_bt h p e t" and "pq_ordered (pq_rank rank h) t" and "pq_top h a la"
    and "pq_ordered (pq_rank rank h) (Node la a Leaf)" and "insert a (set_tree la) \<inter> set_tree t = {}"
  shows "\<exists>r l h'. meld_in_order cmp a e h = Some (r, h') \<and> pq_top h' r l
    \<and> pq_ordered (pq_rank rank h) (Node l r Leaf)
    \<and> insert r (set_tree l) = insert a (set_tree la) \<union> set_tree t
    \<and> pq_keeps (insert a (set_tree la) \<union> set_tree t) h h'"
  using assms
proof (induction t arbitrary: p e h a la)
  case Leaf
  then have "meld_in_order cmp a e h = Some (a, h)" by (simp add: meld_in_order.simps)
  then show ?case using Leaf by (auto simp: pq_keeps_refl)
next
  case (Node l x r)
  then obtain n where n: "h x = Some n" "e = x" "x \<noteq> NULL" "pq_addr x" "x \<notin> set_tree l" "x \<notin> set_tree r"
    "set_tree l \<inter> set_tree r = {}" "pq_bt h x (scast (pqe_child n)) l" "pq_bt h x (pqe_next n) r"
    by (cases "h x") (auto simp: pq_addr_def)
  have x: "pq_top h x l" "pq_ordered (pq_rank rank h) (Node l x Leaf)" using n Node.prems(2) by (auto simp: pq_top_def)
  have d: "insert a (set_tree la) \<inter> insert x (set_tree l) = {}" "insert a (set_tree la) \<inter> set_tree r = {}"
    using Node.prems(5) by auto
  obtain a1 l1 h1 where m: "pqueue_merge cmp a x h = Some (a1, h1)" "pq_top h1 a1 l1"
    "pq_ordered (pq_rank rank h) (Node l1 a1 Leaf)"
    "insert a1 (set_tree l1) = insert a (set_tree la) \<union> insert x (set_tree l)"
    "pq_keeps (insert a (set_tree la) \<union> insert x (set_tree l)) h h1"
    using merge_ordered [OF Node.prems(3,4) x d(1)] by blast
  have rk: "pq_rank rank h1 = pq_rank rank h" by (rule pq_rank_keeps [OF m(5)])
  have "h1 y = h y" if "y \<in> set_tree r" for y using m(5) that d(2) n(6,7) by (auto simp: pq_keeps_def)
  then have r1: "pq_bt h1 x (pqe_next n) r" using n(9) pq_bt_frame [of r h1 h] by simp
  have d1: "insert a1 (set_tree l1) \<inter> set_tree r = {}" using m(4) d(2) n(6,7) by auto
  obtain r' l' h' where i: "meld_in_order cmp a1 (pqe_next n) h1 = Some (r', h')" "pq_top h' r' l'"
    "pq_ordered (pq_rank rank h1) (Node l' r' Leaf)"
    "insert r' (set_tree l') = insert a1 (set_tree l1) \<union> set_tree r"
    "pq_keeps (insert a1 (set_tree l1) \<union> set_tree r) h1 h'"
    using Node.IH(2) [OF r1 _ m(2) _ d1] Node.prems(2) m(3) rk by auto
  have "meld_in_order cmp a e h = Some (r', h')"
    using n(1-3) m(1) i(1) by (subst meld_in_order.simps) (simp add: pqe_get_def)
  moreover have "insert r' (set_tree l') = insert a (set_tree la) \<union> set_tree (Node l x r)" using i(4) m(4) by auto
  moreover have "pq_keeps (insert a (set_tree la) \<union> set_tree (Node l x r)) h h'"
    by (rule pq_keeps_mono [OF pq_keeps_trans [OF m(5) i(5)]]) (use m(4) in auto)
  ultimately show ?case using i(2,3) rk by (intro exI [of _ r'] exI [of _ l'] exI [of _ h']) simp
qed

sublocale in_order: pair_meld cmp rank "\<lambda>e h. do { n \<leftarrow> pqe_get pqe_next e h; meld_in_order cmp e n h }"
proof
  fix h p e t
  assume b: "pq_bt h p e t" and e: "e \<noteq> NULL" and o: "pq_ordered (pq_rank rank h) t"
  obtain l r where t: "t = Node l e r" using pq_bt_head [OF b e] by blast
  then obtain n where n: "h e = Some n" "pq_addr e" "e \<notin> set_tree l" "e \<notin> set_tree r"
    "set_tree l \<inter> set_tree r = {}" "pq_bt h e (scast (pqe_child n)) l" "pq_bt h e (pqe_next n) r"
    using b by (cases "h e") auto
  have "pq_top h e l" "pq_ordered (pq_rank rank h) (Node l e Leaf)" "insert e (set_tree l) \<inter> set_tree r = {}"
    using n o t by (auto simp: pq_top_def)
  then show "\<exists>r l h'. do { n \<leftarrow> pqe_get pqe_next e h; meld_in_order cmp e n h } = Some (r, h') \<and> pq_top h' r l
      \<and> pq_ordered (pq_rank rank h) (Node l r Leaf) \<and> insert r (set_tree l) = set_tree t \<and> pq_keeps (set_tree t) h h'"
    using meld_in_order_ok [OF n(7)] n(1) o t by (simp add: pqe_get_def)
qed

end

definition meld_siblings :: "pq_cmp \<Rightarrow> pq_meld" where
  "meld_siblings cmp e h = do { n \<leftarrow> pqe_get pqe_next e h; meld_in_order cmp e n h }"

interpretation max_meld: pair_meld PRIORITY_QUEUE_SCHED_PRI_MAX_HEAP_COMPARE rank_max
  "meld_siblings PRIORITY_QUEUE_SCHED_PRI_MAX_HEAP_COMPARE"
  using max_heap.in_order.pair_meld_axioms unfolding meld_siblings_def [abs_def] .

subsection \<open>Draining\<close>

lemma pq_spec_drain:
  assumes "finite A" and "pq_spec_run rank (replicate (card A) Take_root) (A, R, F) rs s'"
  shows "\<exists>es. rs = map Elem es \<and> distinct es \<and> set es = A \<and> sorted_wrt (\<lambda>x y. R y \<le> R x) es \<and> s' = ({}, R, F)"
  using assms
proof (induction "card A" arbitrary: A rs)
  case 0
  then show ?case by auto
next
  case (Suc n)
  from Suc.prems(2) Suc.hyps(2) obtain x rs' where x: "pq_top_of A R x" "rs = Elem x # rs'"
    "pq_spec_run rank (replicate n Take_root) (A - {x}, R, F) rs' s'"
    by (cases "card A") auto
  have xa: "x \<in> A" and top: "\<forall>y \<in> A. R y \<le> R x" using x(1) by (auto simp: pq_top_of_def)
  have n: "n = card (A - {x})" using Suc.hyps(2) xa Suc.prems(1) by simp
  obtain es where es: "rs' = map Elem es" "distinct es" "set es = A - {x}"
    "sorted_wrt (\<lambda>x y. R y \<le> R x) es" "s' = ({}, R, F)"
    using Suc.hyps(1) [OF n] Suc.prems(1) x(3) n by auto
  then show ?case using x(2) xa top by (intro exI [of _ "x # es"]) auto
qed

lemma pq_allowed_drain: "finite A \<Longrightarrow> pq_allowed rank K U (replicate (card A) Take_root) (A, R, F)"
proof (induction "card A" arbitrary: A)
  case (Suc n)
  have "pq_allowed rank K U (replicate n Take_root) (A - {x}, R, F)" if "x \<in> A" for x
  proof -
    have "n = card (A - {x})" using Suc.hyps(2) Suc.prems that by simp
    then show ?thesis using Suc.hyps(1) [of "A - {x}"] Suc.prems by simp
  qed
  then show ?case using Suc.hyps(2) [symmetric] by (auto simp: pq_top_of_def)
qed simp

subsection \<open>Properties\<close>

lemma len8: "(2::nat) ^ LENGTH(8) = 256"
  by simp

lemma sint_u8: "sint (k :: u8) = (if unat k < 128 then int (unat k) else int (unat k) - 256)"
proof -
  have "sint k = (int (unat k) + 128) mod 256 - 128"
    by (simp add: sint_uint signed_take_bit_eq_take_bit_shift take_bit_eq_mod)
  moreover have "(u + 128) mod 256 - 128 = (if u < 128 then u else u - 256)" if "0 \<le> u" "u < 256" for u :: int
    using that by (cases "u < 128") (simp_all add: mod_pos_geq)
  moreover have "int (unat k) < 256" using unat_less_pow [of k] by (simp only: len8)
  ultimately show ?thesis by (simp only: of_nat_0_le_iff of_nat_less_numeral_iff)
qed

text \<open>Three initialised entries at 16, 32 and 48 and an empty max heap with built-in keys.\<close>

definition sample_pq :: priority_queue where
  "sample_pq = priority_queue_init \<lparr>pq_root_packed = 77,
     pq_mem = [16 \<mapsto> pq_entry_zero, 32 \<mapsto> pq_entry_zero, 48 \<mapsto> pq_entry_zero]\<rparr> PRIORITY_QUEUE_MAX_HEAP"

lemma sample_pq_repr: "pq_repr rank_max UNIV {16, 32, 48} sample_pq ({}, \<lambda>_. 0, {16, 32, 48})"
proof -
  have "pq_state rank_max sample_pq Leaf"
    by (simp add: pq_state_def sample_pq_def priority_queue_init_def pqueue_unpack_root_def PRIORITY_QUEUE_MAX_HEAP_def)
  then show ?thesis
    by (auto simp: pq_repr.simps sample_pq_def priority_queue_init_def pq_entry_zero_def pq_addr_def pq_key_ok_def
      pqueue_has_builtin_keys_def PRIORITY_QUEUE_MAX_HEAP_def intro!: exI [of _ Leaf])
qed

text \<open>A max heap of three elements: 32 with key 9 above its children 16 with key 5 and 48 with key 7.\<close>

definition sample_heap3 :: priority_queue where
  "sample_heap3 = \<lparr>pq_root_packed = 32, pq_mem =
     [32 \<mapsto> \<lparr>pqe_next = 0, pqe_prev = 0, pqe_key = 9, pqe_child = 16\<rparr>,
      16 \<mapsto> \<lparr>pqe_next = 48, pqe_prev = 32, pqe_key = 5, pqe_child = 0\<rparr>,
      48 \<mapsto> \<lparr>pqe_next = 0, pqe_prev = 16, pqe_key = 7, pqe_child = 0\<rparr>]\<rparr>"

definition sample_rank3 :: "ptr \<Rightarrow> int" where
  "sample_rank3 x = (if x = 32 then 9 else if x = 16 then 5 else 7)"

lemma sample_heap3_holds: "pq_holds sample_heap3 (Node (Node Leaf 16 (Node Leaf 48 Leaf)) 32 Leaf)"
  by (simp add: sample_heap3_def pq_top_def pq_addr_def pqueue_unpack_root_def PRIORITY_QUEUE_ROOT_POINTER_MASK_def
    PRIORITY_QUEUE_ROOT_FLAGS_MASK_def)

lemma sample_heap3_ordered:
  "pq_ordered (pq_rank rank_max (pq_mem sample_heap3)) (Node (Node Leaf 16 (Node Leaf 48 Leaf)) 32 Leaf)"
  by (simp add: sample_heap3_def pq_rank_def rank_max_def)

lemma sample_heap3_key: "pq_key_ok rank_max sample_heap3 k"
  by (simp add: pq_key_ok_def pqueue_has_builtin_keys_def sample_heap3_def PRIORITY_QUEUE_GENERIC_KEY_def)

lemma sample_heap3_repr: "pq_repr rank_max UNIV {16, 32, 48} sample_heap3 ({16, 32, 48}, sample_rank3, {})"
proof -
  have "pq_state rank_max sample_heap3 (Node (Node Leaf 16 (Node Leaf 48 Leaf)) 32 Leaf)"
    using sample_heap3_holds sample_heap3_ordered by (simp add: pq_state_def)
  moreover have "set_tree (Node (Node Leaf 16 (Node Leaf 48 Leaf)) 32 Leaf) = {16, 32, 48 :: ptr}" by auto
  ultimately show ?thesis
    unfolding pq_repr.simps using sample_heap3_key
    by (auto simp: sample_heap3_def pq_addr_def pq_rank_def rank_max_def sample_rank3_def)
qed

text \<open>
  C1: For every comparator that ranks the entries and every pqueue_pair_meld that keeps its contract,
  any sequence of insertions, removals, priority increases and decreases, lookups and removals of
  the root and initialisations that the abstract priority queue allows runs without a fault or a
  failed assertion, and its answers are answers of the abstract queue: the root is an element of
  highest rank, and an insertion reports whether the new element outranks all others.
\<close>

theorem priority_queue_refines:
  assumes "pair_meld cmp rank meld" and "pq_repr rank K U q s" and "pq_allowed rank K U cs s"
  shows "\<exists>rs q' s'. pq_run cmp meld cs q = Some (rs, q') \<and> pq_spec_run rank cs s rs s' \<and> pq_repr rank K U q' s'"
  by (rule pair_meld.run_refines [OF assms])

theorem priority_queue_refines_witness:
  "\<exists>q'. pq_run PRIORITY_QUEUE_SCHED_PRI_MAX_HEAP_COMPARE (meld_siblings PRIORITY_QUEUE_SCHED_PRI_MAX_HEAP_COMPARE)
     [Insert 16 5, Insert 32 9, Insert 48 200, Take_root] sample_pq
     = Some ([Flag True, Flag True, Flag False, Elem 32], q')"
proof -
  let ?cs = "[Insert 16 5, Insert 32 9, Insert 48 200, Take_root]"
  have "pq_allowed rank_max UNIV {16, 32, 48} ?cs ({}, \<lambda>_. 0, {16, 32, 48})" by simp
  then obtain rs q' s' where "pq_run PRIORITY_QUEUE_SCHED_PRI_MAX_HEAP_COMPARE
      (meld_siblings PRIORITY_QUEUE_SCHED_PRI_MAX_HEAP_COMPARE) ?cs sample_pq = Some (rs, q')"
    "pq_spec_run rank_max ?cs ({}, \<lambda>_. 0, {16, 32, 48}) rs s'"
    using priority_queue_refines [OF max_meld.pair_meld_axioms sample_pq_repr] by blast
  moreover then have "rs = [Flag True, Flag True, Flag False, Elem 32]"
    by (auto simp: rank_max_def pq_top_of_def)
  ultimately show ?thesis by blast
qed

text \<open>
  C10: Removing the root as often as there are elements returns every queued element exactly once, in
  order of falling rank, and leaves the queue empty.
\<close>

theorem priority_queue_drains_in_order:
  assumes "pair_meld cmp rank meld" and "pq_repr rank K U q (A, R, F)"
  shows "\<exists>es q'. pq_run cmp meld (replicate (card A) Take_root) q = Some (map Elem es, q')
    \<and> distinct es \<and> set es = A \<and> sorted_wrt (\<lambda>x y. R y \<le> R x) es \<and> priority_queue_empty q'"
proof -
  have "finite A" using assms(2) finite_set_tree by (auto simp: pq_repr.simps)
  then obtain rs q' s' where r: "pq_run cmp meld (replicate (card A) Take_root) q = Some (rs, q')"
    "pq_spec_run rank (replicate (card A) Take_root) (A, R, F) rs s'" "pq_repr rank K U q' s'"
    using pair_meld.run_refines [OF assms pq_allowed_drain] by blast
  obtain es where es: "rs = map Elem es" "distinct es" "set es = A" "sorted_wrt (\<lambda>x y. R y \<le> R x) es" "s' = ({}, R, F)"
    using pq_spec_drain [OF \<open>finite A\<close> r(2)] by blast
  have "priority_queue_empty q'" using r(3) es(5) by (auto simp: pq_repr.simps pq_state_def priority_queue_empty_def)
  then show ?thesis using r(1) es by blast
qed

theorem priority_queue_drains_in_order_witness:
  "\<exists>q'. pq_run PRIORITY_QUEUE_SCHED_PRI_MAX_HEAP_COMPARE
     (meld_siblings PRIORITY_QUEUE_SCHED_PRI_MAX_HEAP_COMPARE) (replicate 3 Take_root) sample_heap3
     = Some ([Elem 32, Elem 48, Elem 16], q') \<and> priority_queue_empty q'"
proof -
  have c: "card {16, 32, 48 :: ptr} = 3" by simp
  obtain es q' where r: "pq_run PRIORITY_QUEUE_SCHED_PRI_MAX_HEAP_COMPARE
      (meld_siblings PRIORITY_QUEUE_SCHED_PRI_MAX_HEAP_COMPARE) (replicate 3 Take_root) sample_heap3 = Some (map Elem es, q')"
    "distinct es" "set es = {16, 32, 48}" "sorted_wrt (\<lambda>x y. sample_rank3 y \<le> sample_rank3 x) es" "priority_queue_empty q'"
    using priority_queue_drains_in_order [OF max_meld.pair_meld_axioms sample_heap3_repr, unfolded c] by blast
  have "length es = 3" using distinct_card [OF r(2)] r(3) by simp
  then obtain x y z where es: "es = [x, y, z]" by (auto simp: numeral_3_eq_3 length_Suc_conv)
  have rk: "9 \<le> sample_rank3 v \<longleftrightarrow> v = 32" "7 \<le> sample_rank3 v \<longleftrightarrow> v \<noteq> 16" for v
    by (simp_all add: sample_rank3_def)
  have d: "x \<noteq> y" "x \<noteq> z" "y \<noteq> z" using r(2) es by auto
  have o: "sample_rank3 y \<le> sample_rank3 x" "sample_rank3 z \<le> sample_rank3 x" "sample_rank3 z \<le> sample_rank3 y"
    using r(4) es by auto
  have m: "{x, y, z} = {16, 32, 48}" using r(3) es by simp
  then have "32 \<in> {x, y, z}" "16 \<in> {x, y, z}" by simp_all
  then have "x = 32" "z = 16" using o d rk [of x] rk [of y] rk [of z] by auto
  moreover have "y \<in> {16, 32, 48}" using m by auto
  ultimately have "x = 32" "y = 48" "z = 16" using d by auto
  then show ?thesis using r(1,5) es by auto
qed

text \<open>
  C28: priority_queue_entry_increase and priority_queue_entry_decrease restore the heap order after the
  rank of one element has changed, through the new key or, with generic keys, in the element itself
  before the call: the elements stay the same, the flags of the queue are kept, and no entry outside
  the heap is touched. Increasing needs the rank not to fall; decreasing works for every change.
\<close>

theorem priority_queue_entry_rerank:
  assumes "pair_meld cmp rank meld" and "pq_holds q t" and "x \<in> set_tree t" and "pq_ordered R t"
    and "\<forall>y \<in> set_tree t. y \<noteq> x \<longrightarrow> R y = pq_rank rank (pq_mem q) y" and "pq_key_ok rank q k"
  shows "(\<exists>b q' t'. priority_queue_entry_decrease cmp meld q x k = Some (b, q') \<and> pq_state rank q' t'
      \<and> set_tree t' = set_tree t \<and> pq_flags q' = pq_flags q
      \<and> pq_rank rank (pq_mem q') x = rank k x \<and> (\<forall>y. y \<notin> set_tree t \<longrightarrow> pq_mem q' y = pq_mem q y))
    \<and> (R x \<le> rank k x \<longrightarrow> (\<exists>b q' t'. priority_queue_entry_increase cmp q x k = Some (b, q') \<and> pq_state rank q' t'
      \<and> set_tree t' = set_tree t \<and> pq_flags q' = pq_flags q
      \<and> pq_rank rank (pq_mem q') x = rank k x \<and> (\<forall>y. y \<notin> set_tree t \<longrightarrow> pq_mem q' y = pq_mem q y)))"
proof -
  obtain q1 t1 where 1: "priority_queue_remove cmp meld q x = Some (x = pqueue_unpack_root q, q1)" "pq_state rank q1 t1"
    "set_tree t1 = set_tree t - {x}" "pq_flags q1 = pq_flags q" "pq_mem q1 x = Some pq_entry_zero"
    "\<forall>y. y \<notin> set_tree t \<longrightarrow> pq_mem q1 y = pq_mem q y"
    using pair_meld.remove_state [OF assms(1-5)] by blast
  have top: "pq_top (pq_mem q1) x Leaf"
    using 1(5) pq_holds_addr [OF assms(2,3)] by (simp add: pq_top_def pq_entry_zero_def)
  have p: "pq_holds q1 t1" "pq_ordered (pq_rank rank (pq_mem q1)) t1" "pq_ordered (pq_rank rank (pq_mem q1)) Leaf"
    "\<forall>y \<in> set_tree Leaf. pq_rank rank (pq_mem q1) y \<le> rank k x" "set_tree t1 \<inter> insert x (set_tree Leaf) = {}"
    "pq_key_ok rank q1 k" "pq_comparator cmp rank"
    using 1(2,3) assms(6) pq_key_ok_flags [OF 1(4)] assms(1) by (auto simp: pq_state_def pair_meld_def)
  obtain b q2 t2 where 2: "priority_queue_insert cmp q1 x k = Some (b, q2)" "pq_state rank q2 t2"
    "set_tree t2 = set_tree t1 \<union> insert x (set_tree Leaf)"
    "pq_rank rank (pq_mem q2) = (pq_rank rank (pq_mem q1))(x := rank k x)" "pq_flags q2 = pq_flags q1"
    "\<forall>y. y \<notin> set_tree t1 \<union> insert x (set_tree Leaf) \<longrightarrow> pq_mem q2 y = pq_mem q1 y"
    using pq_comparator.insert_tree [OF p(7,1,2) top p(3-6)] by blast
  have "priority_queue_entry_decrease cmp meld q x k = Some (x = pqueue_unpack_root q, q2)"
    using 1(1) 2(1) by (simp add: priority_queue_entry_decrease_def)
  moreover have "set_tree t2 = set_tree t" using 1(3) 2(3) assms(3) by auto
  moreover have "\<forall>y. y \<notin> set_tree t \<longrightarrow> pq_mem q2 y = pq_mem q y" using 1(3,6) 2(6) assms(3) by auto
  ultimately have "\<exists>b q' t'. priority_queue_entry_decrease cmp meld q x k = Some (b, q') \<and> pq_state rank q' t'
      \<and> set_tree t' = set_tree t \<and> pq_flags q' = pq_flags q
      \<and> pq_rank rank (pq_mem q') x = rank k x \<and> (\<forall>y. y \<notin> set_tree t \<longrightarrow> pq_mem q' y = pq_mem q y)"
    using 1(4) 2(2,4,5) by (metis fun_upd_same)
  then show ?thesis
    using pair_meld.increase_state [OF assms(1-5) _ assms(6)] by (metis fun_upd_same)
qed

theorem priority_queue_entry_rerank_witness:
  "\<exists>b q' t'. priority_queue_entry_increase PRIORITY_QUEUE_SCHED_PRI_MAX_HEAP_COMPARE sample_heap3 16 20 = Some (b, q')
     \<and> pq_state rank_max q' t' \<and> set_tree t' = {16, 32, 48} \<and> pq_rank rank_max (pq_mem q') 16 = 20"
proof -
  let ?t = "Node (Node Leaf 16 (Node Leaf 48 Leaf)) 32 Leaf :: ptr tree"
  let ?R = "pq_rank rank_max (pq_mem sample_heap3)"
  have "16 \<in> set_tree ?t" and s: "set_tree ?t = {16, 32, 48}" by auto
  moreover have "?R 16 \<le> rank_max 20 16" by (simp add: pq_rank_def sample_heap3_def rank_max_def)
  ultimately obtain b q' t' where
    "priority_queue_entry_increase PRIORITY_QUEUE_SCHED_PRI_MAX_HEAP_COMPARE sample_heap3 16 20 = Some (b, q')"
    "pq_state rank_max q' t'" "set_tree t' = set_tree ?t" "pq_rank rank_max (pq_mem q') 16 = rank_max 20 16"
    using priority_queue_entry_rerank [OF max_meld.pair_meld_axioms sample_heap3_holds _ sample_heap3_ordered _ sample_heap3_key, of 16 20]
    by blast
  then show ?thesis using s by (auto simp: rank_max_def)
qed

text \<open>
  A child pointer and a root pointer survive their packing for every address the queue may hold,
  the flags survive a change of the root, and a key of 128 or more, read back as it was stored, is
  ranked by the max heap comparator below every key under 128.
\<close>

theorem priority_queue_packing:
  assumes "pq_addr c" and "h e = Some n" and "h c' = Some m" and "unat (pqe_key m) < 128" and "c' \<noteq> e"
  shows "(\<exists>h'. pqueue_entry_pack_child e c h = Some h' \<and> pqueue_entry_unpack_child e h' = Some c
      \<and> pqe_get pqe_key e h' = Some (pqe_key n))
    \<and> pqueue_unpack_root (pqueue_pack_root q c) = c \<and> pq_flags (pqueue_pack_root q c) = pq_flags q
    \<and> (\<exists>h' v. pqe_put (pqe_key_update (\<lambda>_. k)) e h = Some h' \<and> pqe_get pqe_key e h' = Some k
      \<and> PRIORITY_QUEUE_SCHED_PRI_MAX_HEAP_COMPARE h' e c' = Some v \<and> (128 \<le> unat k \<longrightarrow> v < 0))"
proof -
  have "\<exists>h'. pqueue_entry_pack_child e c h = Some h' \<and> pqueue_entry_unpack_child e h' = Some c
      \<and> pqe_get pqe_key e h' = Some (pqe_key n)"
    using assms unpack_packed_child [of c]
    by (simp add: pqueue_entry_pack_child_def pqueue_entry_unpack_child_def pqe_get_def pqe_put_def)
  moreover have "pqueue_unpack_root (pqueue_pack_root q c) = c" "pq_flags (pqueue_pack_root q c) = pq_flags q"
    using assms(1) by (simp_all add: unpack_pack_root pq_flags_pack_root)
  moreover have "sint k < sint (pqe_key m)" if "128 \<le> unat k"
  proof -
    have "0 \<le> sint (pqe_key m)" using assms(4) by (simp only: sint_u8 if_True)
    moreover have "unat k < 256" using unat_less_pow [of k] by simp
    ultimately have "sint k < 0" using that by (simp only: sint_u8 [of k] not_less [symmetric] if_False)
    then show ?thesis using \<open>0 \<le> sint (pqe_key m)\<close> by linarith
  qed
  ultimately show ?thesis
    using assms(2,3,5)
    by (auto simp: pqe_put_def pqe_get_def PRIORITY_QUEUE_SCHED_PRI_MAX_HEAP_COMPARE_def
      priority_queue_element_builtin_key_compare_def)
qed

theorem priority_queue_packing_witness:
  "\<exists>h' v. pqe_put (pqe_key_update (\<lambda>_. 200)) 16 (pq_mem sample_heap3) = Some h' \<and> pqe_get pqe_key 16 h' = Some 200
     \<and> PRIORITY_QUEUE_SCHED_PRI_MAX_HEAP_COMPARE h' 16 32 = Some v \<and> v < 0"
  using priority_queue_packing [of 64 "pq_mem sample_heap3" 16 _ 32 _ sample_heap3 200]
  by (auto simp: sample_heap3_def pq_addr_def)

text \<open>
  priority_queue_remove_max returns the old root with its child pointer as it was: the entry has to be
  initialised before it may be inserted again, unlike after priority_queue_remove.
\<close>

lemma remove_max_keeps_entry:
  assumes "pair_meld cmp rank meld" and "pq_holds q (Node l x Leaf)" and "pq_ordered (pq_rank rank (pq_mem q)) l"
    and "pqueue_is_max_heap q"
  shows "\<exists>q'. priority_queue_remove_max meld q 0 = Some (x, q') \<and> pq_mem q' x = pq_mem q x"
proof -
  obtain q' where "pqueue_remove_root meld q x = Some (x, q')" "pq_keeps (set_tree l) (pq_mem q) (pq_mem q')"
    using pair_meld.remove_root_state [OF assms(1-3)] by blast
  moreover have "x \<notin> set_tree l" "x \<noteq> NULL" "pqueue_unpack_root q = x"
    using assms(2) by (auto simp: pq_top_def pq_addr_def)
  ultimately show ?thesis
    using assms(4) by (simp add: priority_queue_remove_max_def kassert_def pqe_element_def pqe_element_fast_def pq_keeps_def)
qed

end
