(* ===== verification/KPktQ.thy ===== *)
theory KPktQ
  imports SysSQueue
begin

text \<open>
  skywalk/packet/packet_queue.h: the KPKTQ macros, queues of kernel packets linked through
  \<open>pkt_nextpkt\<close>, with the address of the last link and the number of packets in the head. The links
  are the cells of \<open>CellMem\<close>: \<open>kq_first\<close> at the head, \<open>kq_last\<close> 8 bytes on, \<open>pkt_nextpkt\<close> at offset \<open>off\<close>
  of a packet; the 32-bit counters \<open>kq_len\<close> are kept by head. A failed \<open>ASSERT\<close> is \<open>None\<close>, as it is
  a panic in the builds that check them. The links of a KPKTQ are those of a STAILQ, so the
  lemmas of \<open>SysSQueue\<close> carry over; the counter, the assertions and the \<open>NULL\<close> link of every packet
  outside a queue are new.
\<close>

subsection \<open>Operations\<close>

record kpktq_mem =
  kq_cells :: mem
  kq_lens :: "ptr \<rightharpoonup> u32"

definition KPKTQ_FIRST :: "ptr \<Rightarrow> kpktq_mem \<Rightarrow> ptr option" where
  "KPKTQ_FIRST q s = ld q (kq_cells s)"

definition KPKTQ_NEXT :: "ptr \<Rightarrow> ptr \<Rightarrow> kpktq_mem \<Rightarrow> ptr option" where
  "KPKTQ_NEXT off p s = ld (p + off) (kq_cells s)"

definition KPKTQ_EMPTY :: "ptr \<Rightarrow> kpktq_mem \<Rightarrow> bool option" where
  "KPKTQ_EMPTY q s = map_option (\<lambda>f. f = NULL) (ld q (kq_cells s))"

definition KPKTQ_LEN :: "ptr \<Rightarrow> kpktq_mem \<Rightarrow> u32 option" where
  "KPKTQ_LEN q s = kq_lens s q"

text \<open>A store to a link and to a counter.\<close>

definition kq_set :: "ptr \<Rightarrow> ptr \<Rightarrow> kpktq_mem \<Rightarrow> kpktq_mem option" where
  "kq_set a v s = map_option (\<lambda>m. s\<lparr>kq_cells := m\<rparr>) (st a v (kq_cells s))"

definition kq_set_len :: "ptr \<Rightarrow> (u32 \<Rightarrow> u32) \<Rightarrow> kpktq_mem \<Rightarrow> kpktq_mem option" where
  "kq_set_len q f s = map_option (\<lambda>n. s\<lparr>kq_lens := (kq_lens s)(q \<mapsto> f n)\<rparr>) (kq_lens s q)"

definition KPKTQ_INIT :: "ptr \<Rightarrow> kpktq_mem \<Rightarrow> kpktq_mem option" where
  "KPKTQ_INIT q s = do {
     s \<leftarrow> kq_set q NULL s;
     s \<leftarrow> kq_set (q + 8) q s;
     kq_set_len q (\<lambda>_. 0) s }"

definition KPKTQ_FINI :: "ptr \<Rightarrow> kpktq_mem \<Rightarrow> kpktq_mem option" where
  "KPKTQ_FINI q s = do {
     e \<leftarrow> KPKTQ_EMPTY q s;
     n \<leftarrow> KPKTQ_LEN q s;
     if e \<and> n = 0 then KPKTQ_INIT q s else None }"

definition KPKTQ_DISPOSE :: "ptr \<Rightarrow> kpktq_mem \<Rightarrow> kpktq_mem option" where
  "KPKTQ_DISPOSE q = KPKTQ_INIT q"

definition KPKTQ_CONCAT :: "ptr \<Rightarrow> ptr \<Rightarrow> kpktq_mem \<Rightarrow> kpktq_mem option" where
  "KPKTQ_CONCAT q1 q2 s = do {
     e \<leftarrow> KPKTQ_EMPTY q2 s;
     if \<not> e then do {
       l1 \<leftarrow> ld (q1 + 8) (kq_cells s);
       f2 \<leftarrow> KPKTQ_FIRST q2 s;
       s \<leftarrow> kq_set l1 f2 s;
       l2 \<leftarrow> ld (q2 + 8) (kq_cells s);
       s \<leftarrow> kq_set (q1 + 8) l2 s;
       n2 \<leftarrow> KPKTQ_LEN q2 s;
       s \<leftarrow> kq_set_len q1 (\<lambda>n. n + n2) s;
       KPKTQ_DISPOSE q2 s }
     else Some s }"

definition KPKTQ_ENQUEUE :: "ptr \<Rightarrow> ptr \<Rightarrow> ptr \<Rightarrow> kpktq_mem \<Rightarrow> kpktq_mem option" where
  "KPKTQ_ENQUEUE off q p s = do {
     n \<leftarrow> KPKTQ_NEXT off p s;
     if n \<noteq> NULL then None else do {
       l \<leftarrow> ld (q + 8) (kq_cells s);
       s \<leftarrow> kq_set l p s;
       s \<leftarrow> kq_set (q + 8) (p + off) s;
       kq_set_len q (\<lambda>n. n + 1) s } }"

definition KPKTQ_ENQUEUE_MULTI :: "ptr \<Rightarrow> ptr \<Rightarrow> ptr \<Rightarrow> ptr \<Rightarrow> u32 \<Rightarrow> kpktq_mem \<Rightarrow> kpktq_mem option" where
  "KPKTQ_ENQUEUE_MULTI off q p n c s = do {
     s \<leftarrow> kq_set (n + off) NULL s;
     l \<leftarrow> ld (q + 8) (kq_cells s);
     s \<leftarrow> kq_set l p s;
     s \<leftarrow> kq_set (q + 8) (n + off) s;
     kq_set_len q (\<lambda>k. k + c) s }"

partial_function (option) kpktq_count :: "ptr \<Rightarrow> kpktq_mem \<Rightarrow> ptr \<Rightarrow> u32 \<Rightarrow> (ptr \<times> u32) option" where
  "kpktq_count off s n c = do {
     nx \<leftarrow> KPKTQ_NEXT off n s;
     if nx \<noteq> NULL then kpktq_count off s nx (c + 1) else Some (n, c) }"

definition KPKTQ_ENQUEUE_LIST :: "ptr \<Rightarrow> ptr \<Rightarrow> ptr \<Rightarrow> kpktq_mem \<Rightarrow> kpktq_mem option" where
  "KPKTQ_ENQUEUE_LIST off q p s = do {
     (n, c) \<leftarrow> kpktq_count off s p 1;
     KPKTQ_ENQUEUE_MULTI off q p n c s }"

text \<open>\<open>KPKTQ_DEQUEUE(q, p)\<close> assigns \<open>p\<close>, the value returned here; \<open>NULL\<close> for an empty queue.\<close>

definition KPKTQ_DEQUEUE :: "ptr \<Rightarrow> ptr \<Rightarrow> kpktq_mem \<Rightarrow> (ptr \<times> kpktq_mem) option" where
  "KPKTQ_DEQUEUE off q s = do {
     p \<leftarrow> KPKTQ_FIRST q s;
     if p \<noteq> NULL then do {
       s \<leftarrow> kq_set_len q (\<lambda>n. n - 1) s;
       nx \<leftarrow> KPKTQ_NEXT off p s;
       s \<leftarrow> kq_set q nx s;
       if nx = NULL then do {
         len \<leftarrow> KPKTQ_LEN q s;
         if len \<noteq> 0 then None else do {
           s \<leftarrow> kq_set (q + 8) q s;
           Some (p, s) } }
       else do {
         s \<leftarrow> kq_set (p + off) NULL s;
         Some (p, s) } }
     else Some (p, s) }"

partial_function (option) kpktq_before :: "ptr \<Rightarrow> kpktq_mem \<Rightarrow> ptr \<Rightarrow> ptr \<Rightarrow> ptr option" where
  "kpktq_before off s p p1 = do {
     nx \<leftarrow> KPKTQ_NEXT off p1 s;
     if nx \<noteq> p then kpktq_before off s p nx else Some p1 }"

definition KPKTQ_REMOVE :: "ptr \<Rightarrow> ptr \<Rightarrow> ptr \<Rightarrow> kpktq_mem \<Rightarrow> kpktq_mem option" where
  "KPKTQ_REMOVE off q p s = do {
     f \<leftarrow> KPKTQ_FIRST q s;
     if f = p then map_option snd (KPKTQ_DEQUEUE off q s)
     else do {
       p1 \<leftarrow> kpktq_before off s p f;
       nx \<leftarrow> KPKTQ_NEXT off p1 s;
       nx \<leftarrow> KPKTQ_NEXT off nx s;
       s \<leftarrow> kq_set (p1 + off) nx s;
       s \<leftarrow> (if nx = NULL then kq_set (q + 8) (p1 + off) s else Some s);
       s \<leftarrow> kq_set_len q (\<lambda>n. n - 1) s;
       kq_set (p + off) NULL s } }"

definition KPKTQ_LAST :: "ptr \<Rightarrow> ptr \<Rightarrow> kpktq_mem \<Rightarrow> ptr option" where
  "KPKTQ_LAST off q s = do {
     l \<leftarrow> ld (q + 8) (kq_cells s);
     Some (if l = q then NULL else l - off) }"

type_synonym 's kbody = "ptr \<Rightarrow> 's \<times> kpktq_mem \<Rightarrow> ('s \<times> kpktq_mem) option"

partial_function (option) kpktq_loop :: "ptr \<Rightarrow> 's kbody \<Rightarrow> ptr \<Rightarrow> 's \<times> kpktq_mem \<Rightarrow> ('s \<times> kpktq_mem) option" where
  "kpktq_loop off body p z =
     (if p = NULL then Some z
      else do { z \<leftarrow> body p z; n \<leftarrow> KPKTQ_NEXT off p (snd z); kpktq_loop off body n z })"

partial_function (option) kpktq_safe_loop :: "ptr \<Rightarrow> 's kbody \<Rightarrow> ptr \<Rightarrow> 's \<times> kpktq_mem \<Rightarrow> ('s \<times> kpktq_mem) option" where
  "kpktq_safe_loop off body p z =
     (if p = NULL then Some z
      else do { t \<leftarrow> KPKTQ_NEXT off p (snd z); z \<leftarrow> body p z; kpktq_safe_loop off body t z })"

definition KPKTQ_FOREACH :: "ptr \<Rightarrow> 's kbody \<Rightarrow> ptr \<Rightarrow> 's \<times> kpktq_mem \<Rightarrow> ('s \<times> kpktq_mem) option" where
  "KPKTQ_FOREACH off body q z = do { p \<leftarrow> KPKTQ_FIRST q (snd z); kpktq_loop off body p z }"

definition KPKTQ_FOREACH_SAFE :: "ptr \<Rightarrow> 's kbody \<Rightarrow> ptr \<Rightarrow> 's \<times> kpktq_mem \<Rightarrow> ('s \<times> kpktq_mem) option" where
  "KPKTQ_FOREACH_SAFE off body q z = do { p \<leftarrow> KPKTQ_FIRST q (snd z); kpktq_safe_loop off body p z }"

subsection \<open>Well-formed queues\<close>

definition kpktq :: "ptr \<Rightarrow> kpktq_mem \<Rightarrow> ptr \<Rightarrow> ptr list \<Rightarrow> bool" where
  "kpktq off s q xs \<longleftrightarrow> stailq off (kq_cells s) q xs \<and> kq_lens s q = Some (of_nat (length xs))"

text \<open>A packet outside every queue, ready to be queued: its link is \<open>NULL\<close>.\<close>

definition kpkt_free :: "ptr \<Rightarrow> kpktq_mem \<Rightarrow> ptr \<Rightarrow> bool" where
  "kpkt_free off s p \<longleftrightarrow> p \<noteq> NULL \<and> kq_cells s (p + off) = Some NULL"

lemma kq_set_eq: "kq_set a v s = (case kq_cells s a of None \<Rightarrow> None | Some _ \<Rightarrow> Some (s\<lparr>kq_cells := (kq_cells s)(a \<mapsto> v)\<rparr>))"
  by (simp add: kq_set_def st_def split: option.split)

lemma kq_set_len_eq: "kq_lens s q = Some n \<Longrightarrow> kq_set_len q f s = Some (s\<lparr>kq_lens := (kq_lens s)(q \<mapsto> f n)\<rparr>)"
  by (simp add: kq_set_len_def)

lemma stailq_frame: "stailq off m h xs \<Longrightarrow> (\<And>a. a \<in> stailq_cells off h xs \<Longrightarrow> m' a = m a) \<Longrightarrow> stailq off m' h xs"
  using nlist_frame [of m off h xs m']
  by (auto simp: stailq_def slist_def stailq_cells_def slist_cells_def)

lemma KPKTQ_ENQUEUE_ok:
  assumes k: "kpktq off s q xs" and f: "kpkt_free off s p" and p: "p + off \<notin> stailq_cells off q xs"
  shows "\<exists>s'. KPKTQ_ENQUEUE off q p s = Some s' \<and> kpktq off s' q (xs @ [p])
    \<and> cells_kept (stailq_cells off q (xs @ [p])) (kq_cells s) (kq_cells s')"
proof -
  let ?m = "kq_cells s"
  have fr: "?m (p + off) = Some NULL" "p \<noteq> NULL" using f by (simp_all add: kpkt_free_def)
  have sq: "stailq off ?m q xs" and len: "kq_lens s q = Some (of_nat (length xs))"
    using k by (simp_all add: kpktq_def)
  obtain m' where m': "STAILQ_INSERT_TAIL q p off ?m = Some m'" "stailq off m' q (xs @ [p])"
    "cells_kept (stailq_cells off q (xs @ [p])) ?m m'"
    using STAILQ_INSERT_TAIL_ok [OF sq fr(2) p] fr(1) by auto
  have "st (p + off) NULL ?m = Some ?m"
    using fr(1) by (simp add: st_def fun_upd_idem)
  then have "KPKTQ_ENQUEUE off q p s = Some (s\<lparr>kq_cells := m', kq_lens := (kq_lens s)(q \<mapsto> of_nat (length xs) + 1)\<rparr>)"
    using m'(1) fr len unfolding STAILQ_INSERT_TAIL_def
    by (auto simp: KPKTQ_ENQUEUE_def KPKTQ_NEXT_def ld_def kq_set_def kq_set_len_def bind_eq_Some_conv)
  then show ?thesis using m' by (simp add: kpktq_def add.commute)
qed

lemma kpktq_link:
  assumes "kpktq off s q (xs @ x # ys)"
  shows "kq_cells s (x + off) = Some (hd (ys @ [NULL]))" "x \<noteq> NULL" "x + off \<noteq> q" "x + off \<noteq> q + 8"
    "x + off \<notin> stailq_cells off q (xs @ ys)"
  using assms stailq_nonnull [of off "kq_cells s" q "xs @ x # ys"] nlist_next [of "kq_cells s" off q xs x ys]
  by (auto simp: kpktq_def stailq_def slist_def stailq_cells_def slist_cells_def)

lemma kpktq_first: "kpktq off s q xs \<Longrightarrow> kq_cells s q = Some (hd (xs @ [NULL]))"
  using slist_first [OF stailq_slist] by (auto simp: kpktq_def)

lemma hd_nonnull: "kpktq off s q xs \<Longrightarrow> hd (xs @ [NULL]) = NULL \<longleftrightarrow> xs = []"
  using hd_null_iff stailq_nonnull by (auto simp: kpktq_def)

lemma KPKTQ_DEQUEUE_ok:
  assumes k: "kpktq off s q (x # xs)"
  shows "\<exists>s'. KPKTQ_DEQUEUE off q s = Some (x, s') \<and> kpktq off s' q xs \<and> kpkt_free off s' x
    \<and> cells_kept (stailq_cells off q (x # xs)) (kq_cells s) (kq_cells s')"
proof -
  let ?m = "kq_cells s"
  have k': "kpktq off s q ([] @ x # xs)" using k by simp
  note l = kpktq_link [OF k'] kpktq_first [OF k]
  have sq: "stailq off ?m q ([] @ x # xs)" and len: "kq_lens s q = Some (of_nat (length xs) + 1)"
    using k by (simp_all add: kpktq_def add.commute)
  note at = stailq_at [OF sq, of q]
  have xs0: "hd (xs @ [NULL]) = NULL \<longleftrightarrow> xs = []"
    using stailq_nonnull [OF sq] hd_null_iff [of xs] by simp
  define m' where "m' = (if xs = [] then ?m(q \<mapsto> NULL, q + 8 \<mapsto> q) else ?m(q \<mapsto> hd xs, x + off \<mapsto> NULL))"
  let ?s' = "s\<lparr>kq_cells := m', kq_lens := (kq_lens s)(q \<mapsto> of_nat (length xs))\<rparr>"
  have "KPKTQ_DEQUEUE off q s = Some (x, ?s')"
    using l at len xs0
    by (cases "xs = []") (auto simp: KPKTQ_DEQUEUE_def KPKTQ_FIRST_def KPKTQ_NEXT_def KPKTQ_LEN_def ld_def kq_set_eq kq_set_len_eq m'_def)
  moreover have "stailq off m' q ([] @ xs)"
    by (rule stailq_remove [OF sq, of q]) (use at l in \<open>auto simp: m'_def slist_cells_def stailq_cells_def\<close>)
  moreover have "kpkt_free off ?s' x"
    using l xs0 by (auto simp: kpkt_free_def m'_def)
  moreover have "cells_kept (stailq_cells off q (x # xs)) ?m m'"
    using at l by (auto simp: cells_kept_def m'_def slist_cells_def stailq_cells_def)
  ultimately show ?thesis by (auto simp: kpktq_def)
qed

lemma KPKTQ_DEQUEUE_empty: "kpktq off s q [] \<Longrightarrow> KPKTQ_DEQUEUE off q s = Some (NULL, s)"
  using kpktq_first [of off s q "[]"] by (simp add: KPKTQ_DEQUEUE_def KPKTQ_FIRST_def ld_def)

lemma kpktq_before_eq: "kpktq_before off s p p1 = STAILQ_find p off (kq_cells s) p1" if "stailq off (kq_cells s) q (us @ p1 # vs @ p # ws)"
  using that
proof (induction vs arbitrary: us p1)
  case Nil
  then show ?case
    using nlist_next [of "kq_cells s" off q us p1 "p # ws"]
    by (subst kpktq_before.simps, subst STAILQ_find.simps)
      (simp add: KPKTQ_NEXT_def STAILQ_NEXT_def ld_def stailq_def slist_def)
next
  case (Cons v vs)
  then show ?case
    using nlist_next [of "kq_cells s" off q us p1 "v # vs @ p # ws"] Cons.IH [of "us @ [p1]" v]
    by (subst kpktq_before.simps, subst STAILQ_find.simps)
      (simp add: KPKTQ_NEXT_def STAILQ_NEXT_def ld_def stailq_def slist_def)
qed

lemma KPKTQ_REMOVE_ok:
  assumes k: "kpktq off s q (xs @ x # ys)"
  shows "\<exists>s'. KPKTQ_REMOVE off q x s = Some s' \<and> kpktq off s' q (xs @ ys) \<and> kpkt_free off s' x
    \<and> cells_kept (stailq_cells off q (xs @ x # ys)) (kq_cells s) (kq_cells s')"
proof (cases xs)
  case Nil
  then show ?thesis
    using KPKTQ_DEQUEUE_ok [of off s q x ys] k kpktq_first [OF k] by (auto simp: KPKTQ_REMOVE_def KPKTQ_FIRST_def ld_def)
next
  case (Cons x0 vs)
  let ?m = "kq_cells s"
  define zs p where "zs = butlast xs" and "p = last xs"
  have xs: "xs = zs @ [p]" using Cons by (simp add: zs_def p_def)
  have sq: "stailq off ?m q ((zs @ [p]) @ x # ys)" and len: "kq_lens s q = Some (of_nat (length (xs @ ys)) + 1)"
    using k xs by (simp_all add: kpktq_def add.commute)
  have t: "p + off = lslot off q (zs @ [p])" by simp
  note at = stailq_at [OF sq t]
  note l = kpktq_link [OF k] kpktq_first [OF k]
  have "distinct (xs @ x # ys)" using sq xs by (auto simp: stailq_def slist_def distinct_map)
  then have x0: "x0 \<noteq> x" using Cons by auto
  have b: "kpktq_before off s x x0 = Some p"
    using kpktq_before_eq [of off s q "[]" x0 vs x ys] STAILQ_find_ok [of off ?m q "[]" x0 vs x ys] k Cons
    by (simp add: kpktq_def stailq_slist p_def)
  have ys0: "hd (ys @ [NULL]) = NULL \<longleftrightarrow> ys = []"
    using stailq_nonnull [OF sq] hd_null_iff [of ys] by simp
  define m' where "m' = (if ys = [] then ?m(p + off \<mapsto> NULL, q + 8 \<mapsto> p + off) else ?m(p + off \<mapsto> hd ys, x + off \<mapsto> NULL))"
  let ?s' = "s\<lparr>kq_cells := m', kq_lens := (kq_lens s)(q \<mapsto> of_nat (length (xs @ ys)))\<rparr>"
  have px: "p + off \<noteq> x + off" "?m (p + off) = Some x"
    using l(5) at by (auto simp: stailq_cells_def slist_cells_def xs)
  have idem: "?m (x + off) = Some NULL \<Longrightarrow> m'(x + off \<mapsto> NULL) = m'" if "ys = []"
    using that l px by (auto simp: m'_def fun_upd_idem_iff)
  have "KPKTQ_REMOVE off q x s = Some ?s'"
    using b l at px len ys0 x0 idem Cons
    by (cases "ys = []")
      (auto simp: KPKTQ_REMOVE_def KPKTQ_FIRST_def KPKTQ_NEXT_def ld_def kq_set_eq kq_set_len_eq m'_def)
  moreover have "stailq off m' q ((zs @ [p]) @ ys)"
  proof (rule stailq_remove [OF sq t])
    show "m' a = ?m a" if "a \<in> slist_cells off q ((zs @ [p]) @ ys)" "a \<noteq> p + off" for a
    proof -
      have "a \<noteq> q + 8" "a \<noteq> x + off"
        using that(1) at(5) l(5) by (auto simp: slist_cells_def stailq_cells_def xs)
      then show ?thesis using that(2) by (simp add: m'_def)
    qed
  qed (use at l px in \<open>auto simp: m'_def\<close>)
  moreover have "kpkt_free off ?s' x"
    using l px ys0 by (auto simp: kpkt_free_def m'_def)
  moreover have "cells_kept (stailq_cells off q (xs @ x # ys)) ?m m'"
    using at l by (auto simp: cells_kept_def m'_def slist_cells_def stailq_cells_def xs)
  ultimately show ?thesis by (auto simp: kpktq_def xs)
qed

lemma KPKTQ_CONCAT_ok:
  assumes k1: "kpktq off s q1 xs" and k2: "kpktq off s q2 ys" and ne: "q1 \<noteq> q2"
    and disj: "stailq_cells off q1 xs \<inter> stailq_cells off q2 ys = {}"
  shows "\<exists>s'. KPKTQ_CONCAT q1 q2 s = Some s' \<and> kpktq off s' q1 (xs @ ys) \<and> kpktq off s' q2 []"
proof -
  let ?m = "kq_cells s"
  obtain m' where m': "STAILQ_CONCAT q1 q2 ?m = Some m'" "stailq off m' q1 (xs @ ys)" "stailq off m' q2 []"
    using STAILQ_CONCAT_ok [OF _ _ disj] k1 k2 by (auto simp: kpktq_def)
  let ?len = "(kq_lens s)(q1 \<mapsto> of_nat (length xs) + of_nat (length ys), q2 \<mapsto> 0)"
  show ?thesis
  proof (cases "ys = []")
    case True
    then have "KPKTQ_CONCAT q1 q2 s = Some s"
      using kpktq_first [OF k2] by (simp add: KPKTQ_CONCAT_def KPKTQ_EMPTY_def ld_def)
    then show ?thesis using True k1 k2 by simp
  next
    case False
    then have "KPKTQ_CONCAT q1 q2 s = Some (s\<lparr>kq_cells := m', kq_lens := ?len\<rparr>)"
      using m'(1) k1 k2 ne kpktq_first [OF k2] hd_nonnull [OF k2]
      unfolding STAILQ_CONCAT_def STAILQ_EMPTY_def STAILQ_INIT_def STAILQ_FIRST_def
      by (auto simp: KPKTQ_CONCAT_def KPKTQ_EMPTY_def KPKTQ_DISPOSE_def KPKTQ_INIT_def KPKTQ_FIRST_def KPKTQ_LEN_def
          kpktq_def ld_def kq_set_def kq_set_len_def bind_eq_Some_conv split: if_splits)
    then show ?thesis using m'(2,3) ne by (simp add: kpktq_def)
  qed
qed

subsection \<open>Chains of packets\<close>

text \<open>\<open>kchain off s ps\<close>: the packets \<open>ps\<close>, at least one, are linked in this order up to the link of the last.\<close>

definition kchain :: "ptr \<Rightarrow> kpktq_mem \<Rightarrow> ptr list \<Rightarrow> bool" where
  "kchain off s ps \<longleftrightarrow> ps \<noteq> [] \<and> NULL \<notin> set ps \<and> distinct ps \<and>
     nseg (kq_cells s) off (hd ps + off) (tl ps) \<and> last ps + off \<in> dom (kq_cells s)"

lemma nseg_close:
  assumes "nseg m off s xs" "distinct (s # map (\<lambda>x. x + off) xs)"
  shows "nlist (m(lslot off s xs \<mapsto> NULL)) off s xs"
proof -
  let ?m' = "m(lslot off s xs \<mapsto> NULL)"
  have "nseg ?m' off s xs"
  proof (rule nseg_frame [OF assms(1)])
    fix a assume "a \<in> set (butlast (s # map (\<lambda>x. x + off) xs))"
    from last_notin_butlast [OF assms(2) this] have "a \<noteq> lslot off s xs"
      by (simp only: lslot_def not_False_eq_True)
    then show "?m' a = m a" by simp
  qed
  then show ?thesis
    using nlist_append [of ?m' off s xs "[]"] by simp
qed

lemma stailq_append_chain:
  assumes s: "stailq off m h xs" and t: "t = lslot off h xs"
    and ys: "ys = y # zs" "y \<noteq> NULL" "nlist m off (y + off) zs" "distinct ys"
    and disj: "(\<lambda>x. x + off) ` set ys \<inter> stailq_cells off h xs = {}"
  shows "stailq off (m(t \<mapsto> y, h + 8 \<mapsto> last ys + off)) h (xs @ ys)"
proof -
  let ?m' = "m(t \<mapsto> y, h + 8 \<mapsto> last ys + off)"
  have at: "t \<in> slist_cells off h xs" "h + 8 \<notin> slist_cells off h xs" "t \<noteq> h + 8"
    using stailq_at [of off m h xs "[]" t] s t by simp_all
  have "nseg ?m' off h xs"
  proof (rule nseg_frame [of m])
    show "nseg m off h xs" using s nlist_append [of m off h xs "[]"] by (simp add: stailq_def slist_def)
    fix a assume a: "a \<in> set (butlast (h # map (\<lambda>x. x + off) xs))"
    have "distinct (h # map (\<lambda>x. x + off) xs)" using s by (simp add: stailq_def slist_def)
    from last_notin_butlast [OF this a] have "a \<noteq> t" by (simp only: t lslot_def not_False_eq_True)
    moreover have "a \<in> slist_cells off h xs" using in_set_butlastD [OF a] by (simp add: slist_cells_def)
    ultimately show "?m' a = m a" using at(2) by auto
  qed
  moreover have "nlist ?m' off (y + off) zs"
  proof (rule nlist_frame [OF ys(3)])
    fix a assume "a \<in> set ((y + off) # map (\<lambda>x. x + off) zs)"
    then have "a \<in> (\<lambda>x. x + off) ` set ys" using ys(1) by auto
    then have "a \<notin> stailq_cells off h xs" using disj by blast
    then show "?m' a = m a" using at(1) by (auto simp: stailq_cells_def)
  qed
  ultimately have "nlist ?m' off h (xs @ ys)"
    using at(3) ys(1,2) t by (simp add: nlist_append)
  moreover have "?m' (h + 8) = Some (lslot off h (xs @ ys))"
    using ys(1) by (simp add: lslot_append lslot_nonempty)
  moreover have "distinct (h # map (\<lambda>x. x + off) (xs @ ys))" "h + 8 \<notin> set (h # map (\<lambda>x. x + off) (xs @ ys))"
    using s disj ys(4) by (auto simp: stailq_def slist_def stailq_cells_def slist_cells_def distinct_map inj_on_def)
  ultimately show ?thesis by (simp add: stailq_def slist_def)
qed

lemma KPKTQ_ENQUEUE_MULTI_ok:
  assumes k: "kpktq off s q xs" and c: "kchain off s ps"
    and disj: "(\<lambda>x. x + off) ` set ps \<inter> stailq_cells off q xs = {}"
  shows "\<exists>s'. KPKTQ_ENQUEUE_MULTI off q (hd ps) (last ps) (of_nat (length ps)) s = Some s' \<and> kpktq off s' q (xs @ ps)"
proof -
  obtain y zs where ps: "ps = y # zs" using c by (cases ps) (auto simp: kchain_def)
  define m1 where "m1 = (kq_cells s)(last ps + off \<mapsto> NULL)"
  define t where "t = lslot off q xs"
  have sq: "stailq off (kq_cells s) q xs" and len: "kq_lens s q = Some (of_nat (length xs))"
    using k by (simp_all add: kpktq_def)
  have dps: "distinct ((y + off) # map (\<lambda>x. x + off) zs)"
    using c ps by (auto simp: kchain_def distinct_map inj_on_def)
  have "last ps + off \<notin> stailq_cells off q xs"
    using disj ps last_in_set [of ps] by blast
  then have sq1: "stailq off m1 q xs"
    by (intro stailq_frame [OF sq]) (auto simp: m1_def)
  have "lslot off (y + off) zs = last ps + off"
    by (simp add: ps lslot_def last_map)
  then have n1: "nlist m1 off (y + off) zs"
    using nseg_close [of "kq_cells s" off "y + off" zs] c ps dps by (simp add: kchain_def m1_def)
  let ?m' = "m1(t \<mapsto> y, q + 8 \<mapsto> last ps + off)"
  have "stailq off ?m' q (xs @ ps)"
    using stailq_append_chain [OF sq1 t_def ps _ n1 _ disj] c ps by (simp add: kchain_def)
  moreover have at: "t \<in> dom m1" "q + 8 \<in> dom m1" "m1 (q + 8) = Some t"
    using stailq_at(2,3) [of off m1 q xs "[]" t] sq1 t_def stailq_last [OF sq1] by simp_all
  have "KPKTQ_ENQUEUE_MULTI off q y (last ps) (of_nat (length ps)) s =
      Some (s\<lparr>kq_cells := ?m', kq_lens := (kq_lens s)(q \<mapsto> of_nat (length xs) + of_nat (length ps))\<rparr>)"
    using at c len by (auto simp: KPKTQ_ENQUEUE_MULTI_def kq_set_eq kq_set_len_eq ld_def kchain_def m1_def)
  ultimately show ?thesis by (simp add: kpktq_def ps)
qed

lemma kpktq_count_ok:
  "nlist (kq_cells s) off (p + off) ps \<Longrightarrow> kpktq_count off s p c = Some (last (p # ps), c + of_nat (length ps))"
proof (induction ps arbitrary: p c)
  case Nil
  then show ?case by (subst kpktq_count.simps) (simp add: KPKTQ_NEXT_def ld_def)
next
  case (Cons x ps)
  then show ?case
    using Cons.IH [of x "c + 1"] by (subst kpktq_count.simps) (simp add: KPKTQ_NEXT_def ld_def add.assoc)
qed

lemma KPKTQ_ENQUEUE_LIST_ok:
  assumes k: "kpktq off s q xs" and c: "kchain off s ps" "kq_cells s (last ps + off) = Some NULL"
    and disj: "(\<lambda>x. x + off) ` set ps \<inter> stailq_cells off q xs = {}"
  shows "\<exists>s'. KPKTQ_ENQUEUE_LIST off q (hd ps) s = Some s' \<and> kpktq off s' q (xs @ ps)"
proof -
  obtain y zs where ps: "ps = y # zs" using c by (cases ps) (auto simp: kchain_def)
  have "lslot off (y + off) zs = last ps + off"
    by (simp add: ps lslot_def last_map)
  then have "nlist (kq_cells s) off (y + off) zs"
    using nlist_append [of "kq_cells s" off "y + off" zs "[]"] c ps by (simp add: kchain_def)
  then have "KPKTQ_ENQUEUE_LIST off q (hd ps) s = KPKTQ_ENQUEUE_MULTI off q (hd ps) (last ps) (of_nat (length ps)) s"
    by (simp add: KPKTQ_ENQUEUE_LIST_def kpktq_count_ok ps)
  then show ?thesis using KPKTQ_ENQUEUE_MULTI_ok [OF k c(1) disj] by simp
qed

subsection \<open>The abstract packet queue\<close>

datatype kop = Enqueue ptr | Dequeue | Remove ptr | Count | Check_empty | Get_last

datatype kres = Fine | Packet ptr | Number u32 | Flag bool

text \<open>
  The queue is the list of its packets, out of the packets \<open>U\<close> the client owns; \<open>None\<close> is a call
  outside the contract: queueing a packet twice or removing one that is not queued.
\<close>

fun kspec_step :: "ptr list \<Rightarrow> kop \<Rightarrow> ptr list \<Rightarrow> (kres \<times> ptr list) option" where
  "kspec_step U (Enqueue p) xs = (if p \<in> set U \<and> p \<notin> set xs then Some (Fine, xs @ [p]) else None)"
| "kspec_step U Dequeue xs = Some (Packet (hd (xs @ [NULL])), tl xs)"
| "kspec_step U (Remove p) xs = (if p \<in> set xs then Some (Fine, remove1 p xs) else None)"
| "kspec_step U Count xs = Some (Number (of_nat (length xs)), xs)"
| "kspec_step U Check_empty xs = Some (Flag (xs = []), xs)"
| "kspec_step U Get_last xs = Some (Packet (last (NULL # xs)), xs)"

fun krun :: "(kop \<Rightarrow> 'h \<Rightarrow> (kres \<times> 'h) option) \<Rightarrow> kop list \<Rightarrow> 'h \<Rightarrow> (kres list \<times> 'h) option" where
  "krun step [] h = Some ([], h)"
| "krun step (c # cs) h = do {
     (r, h) \<leftarrow> step c h;
     (rs, h) \<leftarrow> krun step cs h;
     Some (r # rs, h) }"

fun kpktq_step :: "ptr \<Rightarrow> ptr \<Rightarrow> kop \<Rightarrow> kpktq_mem \<Rightarrow> (kres \<times> kpktq_mem) option" where
  "kpktq_step off q (Enqueue p) s = map_option (Pair Fine) (KPKTQ_ENQUEUE off q p s)"
| "kpktq_step off q Dequeue s = map_option (apfst Packet) (KPKTQ_DEQUEUE off q s)"
| "kpktq_step off q (Remove p) s = map_option (Pair Fine) (KPKTQ_REMOVE off q p s)"
| "kpktq_step off q Count s = map_option (\<lambda>n. (Number n, s)) (KPKTQ_LEN q s)"
| "kpktq_step off q Check_empty s = map_option (\<lambda>b. (Flag b, s)) (KPKTQ_EMPTY q s)"
| "kpktq_step off q Get_last s = map_option (\<lambda>p. (Packet p, s)) (KPKTQ_LAST off q s)"

text \<open>The contract of a packet queue: each operation answers as the list does and keeps the representation.\<close>

locale packet_queue =
  fixes U :: "ptr list" and step :: "kop \<Rightarrow> 'h \<Rightarrow> (kres \<times> 'h) option" and repr :: "'h \<Rightarrow> ptr list \<Rightarrow> bool"
  assumes step_ok: "repr h xs \<Longrightarrow> kspec_step U c xs = Some (r, ys) \<Longrightarrow> \<exists>h'. step c h = Some (r, h') \<and> repr h' ys"
begin

lemma run_refines:
  "repr h xs \<Longrightarrow> krun (kspec_step U) cs xs = Some (rs, ys) \<Longrightarrow> \<exists>h'. krun step cs h = Some (rs, h') \<and> repr h' ys"
proof (induction cs arbitrary: h xs rs)
  case (Cons c cs)
  obtain r zs rs' where c: "kspec_step U c xs = Some (r, zs)" "krun (kspec_step U) cs zs = Some (rs', ys)" "rs = r # rs'"
    using Cons.prems(2) by (auto split: bind_split_asm)
  obtain h1 where h1: "step c h = Some (r, h1)" "repr h1 zs"
    using step_ok [OF Cons.prems(1) c(1)] by blast
  obtain h' where "krun step cs h1 = Some (rs', h')" "repr h' ys"
    using Cons.IH [OF h1(2) c(2)] by blast
  then show ?case using h1(1) c(3) by auto
qed simp

end

text \<open>The representation: the queue, and every packet of the client outside it has a \<open>NULL\<close> link.\<close>

definition kq_repr :: "ptr \<Rightarrow> ptr \<Rightarrow> ptr list \<Rightarrow> kpktq_mem \<Rightarrow> ptr list \<Rightarrow> bool" where
  "kq_repr off q U s xs \<longleftrightarrow> kpktq off s q xs \<and> set xs \<subseteq> set U \<and>
     (\<forall>p \<in> set U. p + off \<noteq> q \<and> p + off \<noteq> q + 8 \<and> (p \<notin> set xs \<longrightarrow> kpkt_free off s p))"

lemma kpkt_free_kept:
  "kpkt_free off s p \<Longrightarrow> cells_kept A (kq_cells s) (kq_cells s') \<Longrightarrow> p + off \<notin> A \<Longrightarrow> kpkt_free off s' p"
  by (simp add: kpkt_free_def cells_kept_def)

lemma kq_outside: "kq_repr off q U s xs \<Longrightarrow> p \<in> set U \<Longrightarrow> p \<notin> set ys \<Longrightarrow> p + off \<notin> stailq_cells off q ys"
  by (auto simp: kq_repr_def stailq_cells_def slist_cells_def)

lemma kq_repr_change:
  assumes r: "kq_repr off q U s xs" and k: "kpktq off s' q ys" and c: "cells_kept (stailq_cells off q zs) (kq_cells s) (kq_cells s')"
    and sub: "set ys \<subseteq> set U" "set xs \<subseteq> insert x (set ys)" "set zs \<subseteq> insert x (set ys)" and x: "x \<notin> set ys \<Longrightarrow> kpkt_free off s' x"
  shows "kq_repr off q U s' ys"
proof -
  have "kpkt_free off s' p" if p: "p \<in> set U" "p \<notin> set ys" for p
  proof (cases "p = x")
    case False
    then have "p \<notin> set xs" "p \<notin> set zs" using p(2) sub by auto
    then show ?thesis
      using r p(1) by (intro kpkt_free_kept [OF _ c kq_outside [OF r p(1)]]) (auto simp: kq_repr_def)
  qed (use x p in simp)
  then show ?thesis using r k sub(1) by (simp add: kq_repr_def)
qed

lemma kq_step_ok:
  assumes r: "kq_repr off q U s xs" and c: "kspec_step U c xs = Some (res, ys)"
  shows "\<exists>s'. kpktq_step off q c s = Some (res, s') \<and> kq_repr off q U s' ys"
proof -
  have k: "kpktq off s q xs" and sub: "set xs \<subseteq> set U" using r by (simp_all add: kq_repr_def)
  note last = stailq_last [of off "kq_cells s" q xs]
  show ?thesis
  proof (cases c)
    case (Enqueue p)
    then have p: "p \<in> set U" "p \<notin> set xs" and ys: "ys = xs @ [p]" "res = Fine" using c by (auto split: if_splits)
    obtain s' where s': "KPKTQ_ENQUEUE off q p s = Some s'" "kpktq off s' q ys"
      "cells_kept (stailq_cells off q ys) (kq_cells s) (kq_cells s')"
      using KPKTQ_ENQUEUE_ok [OF k _ kq_outside [OF r p]] r p ys by (auto simp: kq_repr_def)
    then have "kq_repr off q U s' ys"
      using p sub ys by (intro kq_repr_change [OF r s'(2,3), of p]) auto
    then show ?thesis using s'(1) Enqueue ys by simp
  next
    case Dequeue
    show ?thesis
    proof (cases xs)
      case Nil
      then show ?thesis using Dequeue c r KPKTQ_DEQUEUE_empty [of off s q] k by simp
    next
      case (Cons x zs)
      obtain s' where s': "KPKTQ_DEQUEUE off q s = Some (x, s')" "kpktq off s' q zs" "kpkt_free off s' x"
        "cells_kept (stailq_cells off q xs) (kq_cells s) (kq_cells s')"
        using KPKTQ_DEQUEUE_ok [of off s q x zs] k Cons by auto
      have "kq_repr off q U s' zs"
        using sub Cons s'(3) by (intro kq_repr_change [OF r s'(2,4), of x]) auto
      then show ?thesis using s'(1) Dequeue c Cons by simp
    qed
  next
    case (Remove p)
    then have "p \<in> set xs" and res: "res = Fine" "ys = remove1 p xs" using c by (auto split: if_splits)
    then obtain us vs where xs: "xs = us @ p # vs" "p \<notin> set us" by (meson split_list_first)
    then have ys: "ys = us @ vs" using res by (simp add: remove1_append)
    obtain s' where s': "KPKTQ_REMOVE off q p s = Some s'" "kpktq off s' q ys" "kpkt_free off s' p"
      "cells_kept (stailq_cells off q xs) (kq_cells s) (kq_cells s')"
      using KPKTQ_REMOVE_ok [of off s q us p vs] k xs ys by auto
    have "kq_repr off q U s' ys"
      using sub xs ys s'(3) by (intro kq_repr_change [OF r s'(2,4), of p]) auto
    then show ?thesis using s'(1) Remove res by simp
  next
    case Get_last
    have "KPKTQ_LAST off q s = Some (last (NULL # xs))"
    proof (cases xs rule: rev_cases)
      case (snoc zs x)
      then have "x + off \<noteq> q" using kpktq_link(3) [of off s q zs x "[]"] k by simp
      then show ?thesis using last k snoc by (simp add: KPKTQ_LAST_def ld_def kpktq_def)
    qed (use last k in \<open>simp add: KPKTQ_LAST_def ld_def kpktq_def\<close>)
    then show ?thesis using Get_last c r by auto
  qed (use k c r kpktq_first [OF k] hd_nonnull [OF k] in \<open>auto simp: KPKTQ_LEN_def KPKTQ_EMPTY_def ld_def kpktq_def\<close>)
qed

interpretation kpkt: packet_queue U "kpktq_step off q" "kq_repr off q U" for off q U
  using kq_step_ok by unfold_locales blast

subsection \<open>Properties\<close>

text \<open>
  C30: Every admissible sequence of enqueues, dequeues, removals and queries on a KPKTQ runs without
  fault or failed assertion and answers as the list of packets does, the counter included; a
  dequeue from the empty queue returns \<open>NULL\<close>. Afterwards the memory represents the resulting
  list, and every packet outside the queue has a \<open>NULL\<close> link, so that it can be queued again.
\<close>
theorem kpktq_refines_packet_list:
  assumes "kq_repr off q U s xs" and "krun (kspec_step U) cs xs = Some (rs, ys)"
  shows "\<exists>s'. krun (kpktq_step off q) cs s = Some (rs, s') \<and> kq_repr off q U s' ys"
  using assms by (rule kpkt.run_refines)

definition kdemo :: kpktq_mem where
  "kdemo = \<lparr>kq_cells = [0x1000 \<mapsto> 0, 0x1008 \<mapsto> 0x1000, 0x108 \<mapsto> 0, 0x208 \<mapsto> 0], kq_lens = [0x1000 \<mapsto> 0]\<rparr>"

lemma kdemo_repr: "kq_repr 8 0x1000 [0x100, 0x200] kdemo []"
  by (simp add: kq_repr_def kpktq_def kdemo_def stailq_def slist_def kpkt_free_def)

theorem kpktq_refines_packet_list_witness:
  "\<exists>s'. krun (kpktq_step 8 0x1000) [Enqueue 0x100, Enqueue 0x200, Count, Remove 0x100, Get_last, Dequeue, Dequeue] kdemo =
     Some ([Fine, Fine, Number 2, Fine, Packet 0x200, Packet 0x200, Packet 0], s') \<and> kq_repr 8 0x1000 [0x100, 0x200] s' []"
  by (rule kpktq_refines_packet_list [OF kdemo_repr]) simp

text \<open>
  KPKTQ_CONCAT moves all packets of the second queue to the end of the first and leaves the second
  empty, KPKTQ_ENQUEUE_MULTI and KPKTQ_ENQUEUE_LIST append a chain of linked packets, the latter counting
  them itself; the counter of every queue is the number of its packets, modulo 2^32.
\<close>
theorem kpktq_concat_and_chains:
  assumes q: "kpktq off s q xs" "kpktq off s q2 ys" "stailq_cells off q xs \<inter> stailq_cells off q2 ys = {}"
    and c: "kchain off s ps" "kq_cells s (last ps + off) = Some NULL" "(\<lambda>x. x + off) ` set ps \<inter> stailq_cells off q xs = {}"
  shows "(\<exists>s'. KPKTQ_CONCAT q q2 s = Some s' \<and> kpktq off s' q (xs @ ys) \<and> kpktq off s' q2 []) \<and>
    (\<exists>s'. KPKTQ_ENQUEUE_MULTI off q (hd ps) (last ps) (of_nat (length ps)) s = Some s' \<and> kpktq off s' q (xs @ ps)) \<and>
    (\<exists>s'. KPKTQ_ENQUEUE_LIST off q (hd ps) s = Some s' \<and> kpktq off s' q (xs @ ps))"
proof -
  have "q \<in> stailq_cells off q xs" "q2 \<in> stailq_cells off q2 ys"
    by (simp_all add: stailq_cells_def slist_cells_def)
  then have "q \<noteq> q2" using q(3) by auto
  from KPKTQ_CONCAT_ok [OF q(1,2) this q(3)] KPKTQ_ENQUEUE_MULTI_ok [OF q(1) c(1,3)] KPKTQ_ENQUEUE_LIST_ok [OF q(1) c]
  show ?thesis by (intro conjI)
qed

definition kdemo2 :: kpktq_mem where
  "kdemo2 = \<lparr>kq_cells = [0x1000 \<mapsto> 0, 0x1008 \<mapsto> 0x1000, 0x2000 \<mapsto> 0x100, 0x2008 \<mapsto> 0x108, 0x108 \<mapsto> 0, 0x208 \<mapsto> 0x300, 0x308 \<mapsto> 0],
     kq_lens = [0x1000 \<mapsto> 0, 0x2000 \<mapsto> 1]\<rparr>"

theorem kpktq_concat_and_chains_witness:
  "(\<exists>s'. KPKTQ_CONCAT 0x1000 0x2000 kdemo2 = Some s' \<and> kpktq 8 s' 0x1000 [0x100] \<and> kpktq 8 s' 0x2000 []) \<and>
   (\<exists>s'. KPKTQ_ENQUEUE_MULTI 8 0x1000 0x200 0x300 2 kdemo2 = Some s' \<and> kpktq 8 s' 0x1000 [0x200, 0x300]) \<and>
   (\<exists>s'. KPKTQ_ENQUEUE_LIST 8 0x1000 0x200 kdemo2 = Some s' \<and> kpktq 8 s' 0x1000 [0x200, 0x300])"
  using kpktq_concat_and_chains [of 8 kdemo2 "0x1000" "[]" "0x2000" "[0x100]" "[0x200, 0x300]"]
  by (simp add: kpktq_def kdemo2_def stailq_def slist_def kchain_def stailq_cells_def slist_cells_def)

lemma kpktq_loop_pure:
  assumes "nlist (kq_cells s) off a xs" and "\<And>x z. x \<in> set xs \<Longrightarrow> body x (z, s) = Some (g x z, s)"
  shows "kpktq_loop off body (hd (xs @ [NULL])) (z, s) = Some (fold g xs z, s)"
  using assms
proof (induction xs arbitrary: a z)
  case (Cons x xs)
  then have "KPKTQ_NEXT off x s = Some (hd (xs @ [NULL]))"
    using nlist_first [of "kq_cells s" off "x + off" xs] by (simp add: KPKTQ_NEXT_def ld_def)
  then show ?case
    using Cons.prems Cons.IH [of "x + off" "g x z"] by (subst kpktq_loop.simps) simp
qed (simp add: kpktq_loop.simps)

definition kdrain :: "ptr \<Rightarrow> ptr \<Rightarrow> ptr list kbody" where
  "kdrain off q p z = do { (x, s) \<leftarrow> KPKTQ_DEQUEUE off q (snd z); Some (fst z @ [x], s) }"

lemma kpktq_safe_loop_drain:
  assumes "kq_repr off q U s xs"
  shows "\<exists>s'. kpktq_safe_loop off (kdrain off q) (hd (xs @ [NULL])) (z, s) = Some (z @ xs, s') \<and> kq_repr off q U s' []"
  using assms
proof (induction xs arbitrary: s z)
  case Nil
  then show ?case by (simp add: kpktq_safe_loop.simps)
next
  case (Cons x xs)
  have k: "kpktq off s q ([] @ x # xs)" using Cons.prems by (simp add: kq_repr_def)
  obtain s1 where s1: "KPKTQ_DEQUEUE off q s = Some (x, s1)" "kq_repr off q U s1 xs"
    using kq_step_ok [OF Cons.prems, of Dequeue] by auto
  have "KPKTQ_NEXT off x s = Some (hd (xs @ [NULL]))" "x \<noteq> NULL"
    using kpktq_link [OF k] by (simp_all add: KPKTQ_NEXT_def ld_def)
  moreover have "kdrain off q x (z, s) = Some (z @ [x], s1)"
    using s1(1) by (simp add: kdrain_def)
  ultimately show ?case
    using Cons.IH [OF s1(2), of "z @ [x]"] by (subst kpktq_safe_loop.simps) simp
qed

text \<open>
  KPKTQ_FOREACH ends and runs its body on the packets in queue order. KPKTQ_FOREACH_SAFE also ends
  when the body takes each packet off the queue, which clears the packet's link: it visits every
  packet once, in order, and leaves the queue empty.
\<close>
theorem kpktq_foreach_loops:
  assumes "kq_repr off q U s xs" and "\<And>x z. x \<in> set xs \<Longrightarrow> body x (z, s) = Some (g x z, s)"
  shows "KPKTQ_FOREACH off body q (z, s) = Some (fold g xs z, s) \<and>
    (\<exists>s'. KPKTQ_FOREACH_SAFE off (kdrain off q) q ([], s) = Some (xs, s') \<and> kq_repr off q U s' [])"
proof -
  have k: "kpktq off s q xs" using assms(1) by (simp add: kq_repr_def)
  then have "nlist (kq_cells s) off q xs" by (simp add: kpktq_def stailq_def slist_def)
  from kpktq_loop_pure [where body = body and g = g and z = z, OF this assms(2)] kpktq_safe_loop_drain [OF assms(1), of "[]"] show ?thesis
    using kpktq_first [OF k] by (simp add: KPKTQ_FOREACH_def KPKTQ_FOREACH_SAFE_def KPKTQ_FIRST_def ld_def)
qed

theorem kpktq_foreach_loops_witness:
  "KPKTQ_FOREACH 8 (\<lambda>p (z, s). Some (p # z, s)) 0x2000 ([], kdemo2) = Some ([0x100], kdemo2)"
  using kpktq_foreach_loops [of 8 "0x2000" "[0x100]" kdemo2 "[0x100]" "\<lambda>p (z, s). Some (p # z, s)" "(#)" "[]"]
  by (simp add: kq_repr_def kpktq_def kdemo2_def stailq_def slist_def)

end
