(* ===== verification/ByteMem.thy ===== *)
theory ByteMem
  imports Prelude
begin

text \<open>
  Byte-addressed memory, little endian: a map from addresses to bytes in which an access to an
  address that holds nothing is a fault (\<open>None\<close>). Loads and stores of 32-bit and 64-bit values,
  the memory after a block has been copied or cleared, and the fact that a load followed by a
  store copies the bytes.
\<close>

type_synonym bytes = "ptr \<rightharpoonup> u8"

subsection \<open>Loads and stores\<close>

definition le32 :: "u8 \<Rightarrow> u8 \<Rightarrow> u8 \<Rightarrow> u8 \<Rightarrow> u32" where
  "le32 a b c d = ucast a OR push_bit 8 (ucast b) OR push_bit 16 (ucast c) OR push_bit 24 (ucast d)"

definition ld32 :: "bytes \<Rightarrow> ptr \<Rightarrow> u32 option" where
  "ld32 m p = do { a \<leftarrow> m p; b \<leftarrow> m (p + 1); c \<leftarrow> m (p + 2); d \<leftarrow> m (p + 3); Some (le32 a b c d) }"

definition ld64 :: "bytes \<Rightarrow> ptr \<Rightarrow> u64 option" where
  "ld64 m p = do { l \<leftarrow> ld32 m p; h \<leftarrow> ld32 m (p + 4); Some (ucast l OR push_bit 32 (ucast h)) }"

definition le16 :: "u8 \<Rightarrow> u8 \<Rightarrow> u16" where
  "le16 a b = ucast a OR push_bit 8 (ucast b)"

definition ld16 :: "bytes \<Rightarrow> ptr \<Rightarrow> u16 option" where
  "ld16 m p = do { a \<leftarrow> m p; b \<leftarrow> m (p + 1); Some (le16 a b) }"

definition st8 :: "ptr \<Rightarrow> u8 \<Rightarrow> bytes \<Rightarrow> bytes option" where
  "st8 p v m = (if m p = None then None else Some (m(p \<mapsto> v)))"

definition st16 :: "ptr \<Rightarrow> u16 \<Rightarrow> bytes \<Rightarrow> bytes option" where
  "st16 p v m = do { m \<leftarrow> st8 p (ucast v) m; st8 (p + 1) (ucast (drop_bit 8 v)) m }"

definition st32 :: "ptr \<Rightarrow> u32 \<Rightarrow> bytes \<Rightarrow> bytes option" where
  "st32 p v m = do {
     m \<leftarrow> st8 p (ucast v) m;
     m \<leftarrow> st8 (p + 1) (ucast (drop_bit 8 v)) m;
     m \<leftarrow> st8 (p + 2) (ucast (drop_bit 16 v)) m;
     st8 (p + 3) (ucast (drop_bit 24 v)) m }"

definition st64 :: "ptr \<Rightarrow> u64 \<Rightarrow> bytes \<Rightarrow> bytes option" where
  "st64 p v m = do { m \<leftarrow> st32 p (ucast v) m; st32 (p + 4) (ucast (drop_bit 32 v)) m }"

text \<open>The bytes of a value in memory order.\<close>

definition bytes16 :: "u16 \<Rightarrow> u8 list" where
  "bytes16 w = [ucast w, ucast (drop_bit 8 w)]"

definition bytes32 :: "u32 \<Rightarrow> u8 list" where
  "bytes32 w = [ucast w, ucast (drop_bit 8 w), ucast (drop_bit 16 w), ucast (drop_bit 24 w)]"

definition bytes64 :: "u64 \<Rightarrow> u8 list" where
  "bytes64 w = bytes32 (ucast w) @ bytes32 (ucast (drop_bit 32 w))"

subsection \<open>Blocks\<close>

text \<open>
  \<open>owned m p n\<close>: the \<open>n\<close> bytes from \<open>p\<close> on are allocated. \<open>apart n p q\<close>: the blocks of \<open>n\<close> bytes at
  \<open>p\<close> and \<open>q\<close> do not overlap. \<open>cpy\<close> and \<open>fill\<close> are the memory after a block copy and after filling
  a block with one value.
\<close>

definition owned :: "bytes \<Rightarrow> ptr \<Rightarrow> nat \<Rightarrow> bool" where
  "owned m p n = list_all (\<lambda>i. m (p + of_nat i) \<noteq> None) [0..<n]"

definition apart :: "nat \<Rightarrow> ptr \<Rightarrow> ptr \<Rightarrow> bool" where
  "apart n p q \<longleftrightarrow> n \<le> unat (p - q) \<and> n \<le> unat (q - p)"

definition cpy :: "nat \<Rightarrow> ptr \<Rightarrow> ptr \<Rightarrow> bytes \<Rightarrow> bytes" where
  "cpy n src dst m = (\<lambda>a. if unat (a - dst) < n then m (src + (a - dst)) else m a)"

definition fill :: "nat \<Rightarrow> ptr \<Rightarrow> u8 \<Rightarrow> bytes \<Rightarrow> bytes" where
  "fill n p v m = (\<lambda>a. if unat (a - p) < n then Some v else m a)"

lemma owned_iff: "owned m p n \<longleftrightarrow> (\<forall>i < n. m (p + of_nat i) \<noteq> None)"
  by (auto simp: owned_def list_all_iff)

lemma owned_iff_dist: "n \<le> 2 ^ 64 \<Longrightarrow> owned m p n \<longleftrightarrow> (\<forall>a. unat (a - p) < n \<longrightarrow> m a \<noteq> None)"
proof -
  assume n: "n \<le> 2 ^ 64"
  have "unat (of_nat i :: u64) = i" if "i < n" for i
    using that n by (simp add: unat_of_nat)
  then have "(\<forall>a. unat (a - p) < n \<longrightarrow> m a \<noteq> None) \<Longrightarrow> owned m p n"
    unfolding owned_iff by (metis add_diff_cancel_left')
  moreover have "m a \<noteq> None" if "owned m p n" "unat (a - p) < n" for a
    using that(1) [unfolded owned_iff, rule_format, OF that(2)] by simp
  ultimately show ?thesis by blast
qed

lemma owned_0 [simp]: "owned m p 0"
  by (simp add: owned_iff)

lemma owned_append: "owned m p (n + k) \<longleftrightarrow> owned m p n \<and> owned m (p + of_nat n) k"
proof -
  have "(\<forall>i < n + k. P i) \<longleftrightarrow> (\<forall>i < n. P i) \<and> (\<forall>i < k. P (n + i))" for P
    by (metis add_less_cancel_left le_add_diff_inverse not_le trans_less_add1)
  then show ?thesis
    by (simp add: owned_iff add.assoc)
qed

lemma owned_le: "owned m p n \<Longrightarrow> k \<le> n \<Longrightarrow> owned m p k"
  by (auto simp: owned_iff)

lemma dom_cpy: "owned m src n \<Longrightarrow> owned m dst n \<Longrightarrow> n \<le> 2 ^ 64 \<Longrightarrow> dom (cpy n src dst m) = dom m"
  by (auto simp: cpy_def owned_iff_dist dom_def split: if_splits)

lemma owned_dom_cong:
  assumes "dom m = dom m'"
  shows "owned m p n = owned m' p n"
proof -
  have "m a \<noteq> None \<longleftrightarrow> m' a \<noteq> None" for a
    using assms by blast
  then show ?thesis by (simp add: owned_iff)
qed

lemma cpy_0 [simp]: "cpy 0 src dst m = m"
  by (simp add: cpy_def)

lemma cpy_append:
  assumes ap: "apart (n + k) src dst" and n: "n + k \<le> 2 ^ 64"
  shows "cpy k (src + of_nat n) (dst + of_nat n) (cpy n src dst m) = cpy (n + k) src dst m"
proof
  fix a
  let ?d = "a - dst"
  have e: "a - (dst + of_nat n) = ?d - of_nat n" "src + of_nat n + (?d - of_nat n) = src + ?d"
    "src + ?d - dst = (src - dst) + ?d"
    by simp_all
  have un: "k = 0 \<or> unat (of_nat n :: u64) = n"
    using n by (cases "k = 0") (simp_all add: unat_of_nat)
  have far: "\<not> unat ((src - dst) + ?d) < n" if "unat ?d < n + k"
  proof -
    have "unat (src - dst) + unat (dst - src) = 2 ^ 64" if "src \<noteq> dst"
      using that by (simp add: unat_sub_if_size word_size word_unat_eq_iff) (use unat_less_pow [of src] unat_less_pow [of dst] in auto)
    then have "unat (src - dst) + unat ?d < 2 ^ 64"
      using ap that by (cases "src = dst") (auto simp: apart_def)
    then have "unat ((src - dst) + ?d) = unat (src - dst) + unat ?d"
      by (intro unat_add_small) simp
    then show ?thesis
      using ap by (simp add: apart_def)
  qed
  have sub: "unat (?d - of_nat n) < k \<longleftrightarrow> n \<le> unat ?d \<and> unat ?d < n + k"
    using un n unat_less_pow [of ?d] by (auto simp: unat_sub_if_size word_size)
  show "cpy k (src + of_nat n) (dst + of_nat n) (cpy n src dst m) a = cpy (n + k) src dst m a"
    using far sub unfolding cpy_def e by (cases "unat ?d < n") auto
qed

subsection \<open>A load and a store copy the bytes\<close>

lemma le32_of_word:
  "le32 (ucast w) (ucast (drop_bit 8 w)) (ucast (drop_bit 16 w)) (ucast (drop_bit 24 w)) = w"
proof (rule bit_word_eqI)
  fix n assume "n < LENGTH(32)"
  then consider "n < 8" | "8 \<le> n" "n < 16" | "16 \<le> n" "n < 24" | "24 \<le> n" "n < 32" by fastforce
  then show "bit (le32 (ucast w) (ucast (drop_bit 8 w)) (ucast (drop_bit 16 w)) (ucast (drop_bit 24 w))) n = bit w n"
    by cases (auto simp: le32_def bit_simps)
qed

lemma le32_bytes:
  "ucast (le32 a b c d) = a" "ucast (drop_bit 8 (le32 a b c d)) = b"
  "ucast (drop_bit 16 (le32 a b c d)) = c" "ucast (drop_bit 24 (le32 a b c d)) = d"
  by (rule bit_word_eqI; auto simp: le32_def bit_simps dest: bit_imp_le_length)+

lemma le32_eq_iff:
  "le32 a b c d = v \<longleftrightarrow> a = ucast v \<and> b = ucast (drop_bit 8 v) \<and> c = ucast (drop_bit 16 v) \<and>
     d = ucast (drop_bit 24 v)"
  using le32_bytes [of a b c d] le32_of_word [of v] by auto

lemma ld32_eq_Some:
  "ld32 m p = Some v \<longleftrightarrow> m p = Some (ucast v) \<and> m (p + 1) = Some (ucast (drop_bit 8 v)) \<and>
     m (p + 2) = Some (ucast (drop_bit 16 v)) \<and> m (p + 3) = Some (ucast (drop_bit 24 v))"
  by (auto simp: ld32_def bind_eq_Some_conv le32_eq_iff)

definition mov32 :: "ptr \<Rightarrow> ptr \<Rightarrow> bytes \<Rightarrow> bytes option" where
  "mov32 src dst m = do { v \<leftarrow> ld32 m src; st32 dst v m }"

definition mov64 :: "ptr \<Rightarrow> ptr \<Rightarrow> bytes \<Rightarrow> bytes option" where
  "mov64 src dst m = do { v \<leftarrow> ld64 m src; st64 dst v m }"

lemma unat_less_Suc: "unat (d :: u64) < Suc n \<longleftrightarrow> unat d < n \<or> (d = of_nat n \<and> n < 2 ^ 64)"
proof -
  have "unat d = n \<longleftrightarrow> d = of_nat n \<and> n < 2 ^ 64"
    using unat_less_pow [of d] by (auto simp: unat_of_nat)
  then show ?thesis by (simp add: less_Suc_eq)
qed

lemma owned_4: "owned m p 4 \<longleftrightarrow> m p \<noteq> None \<and> m (p + 1) \<noteq> None \<and> m (p + 2) \<noteq> None \<and> m (p + 3) \<noteq> None"
  by (simp add: owned_def upt_rec numeral_eq_Suc)

lemma owned_8: "owned m p 8 \<longleftrightarrow> owned m p 4 \<and> owned m (p + 4) 4"
  using owned_append [of m p 4 4] by simp

lemma word_offset_neq [simp]:
  "(p :: ptr) + 1 \<noteq> p" "p + 2 \<noteq> p" "p + 3 \<noteq> p" "p + 2 \<noteq> p + 1" "p + 3 \<noteq> p + 1" "p + 3 \<noteq> p + 2"
  "p \<noteq> p + 1" "p \<noteq> p + 2" "p \<noteq> p + 3" "p + 1 \<noteq> p + 2" "p + 1 \<noteq> p + 3" "p + 2 \<noteq> p + 3"
  by simp_all

lemma st32_eq:
  assumes "owned m p 4"
  shows "st32 p v m = Some (m(p \<mapsto> ucast v, p + 1 \<mapsto> ucast (drop_bit 8 v), p + 2 \<mapsto> ucast (drop_bit 16 v),
     p + 3 \<mapsto> ucast (drop_bit 24 v)))"
  using assms by (simp add: st32_def st8_def owned_4)

lemma upd_eq_block:
  fixes m m' :: bytes
  assumes "m src = Some a" "m (src + 1) = Some b" "m (src + 2) = Some c" "m (src + 3) = Some d"
  shows "m'(dst \<mapsto> a, dst + 1 \<mapsto> b, dst + 2 \<mapsto> c, dst + 3 \<mapsto> d) =
    (\<lambda>x. if unat (x - dst) < 4 then m (src + (x - dst)) else m' x)" (is "_ = ?r")
proof
  fix x
  have "unat (x - dst) < 4 \<longleftrightarrow> x = dst \<or> x = dst + 1 \<or> x = dst + 2 \<or> x = dst + 3"
    using unat_less_Suc [of "x - dst" 0] unat_less_Suc [of "x - dst" 1]
      unat_less_Suc [of "x - dst" 2] unat_less_Suc [of "x - dst" 3]
    by (auto simp: diff_eq_eq)
  then show "(m'(dst \<mapsto> a, dst + 1 \<mapsto> b, dst + 2 \<mapsto> c, dst + 3 \<mapsto> d)) x = ?r x"
    using assms by auto
qed

lemma st32_block:
  assumes "ld32 m src = Some v" "owned m' dst 4"
  shows "st32 dst v m' = Some (\<lambda>x. if unat (x - dst) < 4 then m (src + (x - dst)) else m' x)"
proof -
  have "m src = Some (ucast v)" "m (src + 1) = Some (ucast (drop_bit 8 v))"
    "m (src + 2) = Some (ucast (drop_bit 16 v))" "m (src + 3) = Some (ucast (drop_bit 24 v))"
    using assms(1) by (simp_all add: ld32_eq_Some)
  then show ?thesis
    using st32_eq [OF assms(2), of v] by (simp only: upd_eq_block)
qed

lemma owned_ld32: "owned m p 4 \<Longrightarrow> \<exists>v. ld32 m p = Some v"
  by (auto simp: ld32_def owned_4)

lemma mov32_eq:
  assumes "owned m src 4" "owned m dst 4"
  shows "mov32 src dst m = Some (cpy 4 src dst m)"
  using owned_ld32 [OF assms(1)] st32_block [of m src _ m dst] assms(2)
  by (auto simp: mov32_def cpy_def)

lemma ld64_eq_Some:
  "ld64 m p = Some v \<longleftrightarrow> ld32 m p = Some (ucast v) \<and> ld32 m (p + 4) = Some (ucast (drop_bit 32 v))"
proof -
  have "ucast l OR push_bit 32 (ucast h) = v \<longleftrightarrow> l = ucast v \<and> h = ucast (drop_bit 32 v)" for l h :: u32
  proof
    have "bit l (32 + n) = False" for n using bit_imp_le_length [of l "32 + n"] by auto
    then show "l = ucast v \<and> h = ucast (drop_bit 32 v)" if "ucast l OR push_bit 32 (ucast h) = v"
      unfolding that [symmetric] by (auto intro!: bit_word_eqI simp: bit_simps)
    show "ucast l OR push_bit 32 (ucast h) = v" if "l = ucast v \<and> h = ucast (drop_bit 32 v)"
      using that by (auto intro!: bit_word_eqI simp: bit_simps)
  qed
  then show ?thesis
    by (auto simp: ld64_def bind_eq_Some_conv)
qed

lemma mov64_eq:
  assumes s: "owned m src 8" and d: "owned m dst 8"
  shows "mov64 src dst m = Some (cpy 8 src dst m)"
proof -
  obtain l h where lh: "ld32 m src = Some l" "ld32 m (src + 4) = Some h"
    using owned_ld32 [of m src] owned_ld32 [of m "src + 4"] s unfolding owned_8 by blast
  let ?v = "ucast l OR push_bit 32 (ucast h) :: u64"
  have v: "ld64 m src = Some ?v"
    using lh by (simp add: ld64_def)
  then have lv: "ld32 m src = Some (ucast ?v)" "ld32 m (src + 4) = Some (ucast (drop_bit 32 ?v))"
    by (simp_all only: ld64_eq_Some)
  have d4: "owned m dst 4" "owned m (dst + 4) 4" using d by (simp_all add: owned_8)
  have dm: "dom (cpy 4 src dst m) = dom m"
    using s d4 by (intro dom_cpy) (simp_all add: owned_8)
  have "st32 dst (ucast ?v) m = Some (cpy 4 src dst m)"
    unfolding cpy_def by (rule st32_block [OF lv(1) d4(1)])
  moreover have "st32 (dst + 4) (ucast (drop_bit 32 ?v)) (cpy 4 src dst m) =
      Some (\<lambda>x. if unat (x - (dst + 4)) < 4 then m (src + 4 + (x - (dst + 4))) else cpy 4 src dst m x)"
    using d4(2) owned_dom_cong [OF dm] by (intro st32_block [OF lv(2)]) simp
  moreover have "(\<lambda>x. if unat (x - (dst + 4)) < 4 then m (src + 4 + (x - (dst + 4))) else cpy 4 src dst m x) = cpy 8 src dst m"
  proof
    fix x
    have "x - (dst + 4) = (x - dst) - 4" "src + 4 + (x - (dst + 4)) = src + (x - dst)" by simp_all
    moreover have "unat ((x - dst) - 4) < 4 \<longleftrightarrow> 4 \<le> unat (x - dst) \<and> unat (x - dst) < 8"
      using unat_less_pow [of "x - dst"] by (auto simp: unat_sub_if_size word_size)
    ultimately show "(if unat (x - (dst + 4)) < 4 then m (src + 4 + (x - (dst + 4))) else cpy 4 src dst m x) = cpy 8 src dst m x"
      by (cases "unat (x - dst) < 4") (simp_all only: cpy_def, simp_all)
  qed
  ultimately show ?thesis
    by (simp add: mov64_def v st64_def)
qed

subsection \<open>Block copies\<close>

text \<open>
  \<open>copies n f\<close>: given \<open>n\<close> allocated bytes at the source and at the destination that do not
  overlap, \<open>f\<close> copies them and changes nothing else. Copies of consecutive blocks compose.
\<close>

definition copies :: "nat \<Rightarrow> (ptr \<Rightarrow> ptr \<Rightarrow> bytes \<Rightarrow> bytes option) \<Rightarrow> bool" where
  "copies n f \<longleftrightarrow> (\<forall>src dst m. owned m src n \<longrightarrow> owned m dst n \<longrightarrow> apart n src dst \<longrightarrow>
     f src dst m = Some (cpy n src dst m))"

lemma copiesD:
  "copies n f \<Longrightarrow> owned m src n \<Longrightarrow> owned m dst n \<Longrightarrow> apart n src dst \<Longrightarrow> f src dst m = Some (cpy n src dst m)"
  by (simp add: copies_def)

lemma apart_bound: "apart n p q \<Longrightarrow> n \<le> 2 ^ 64"
  using unat_less_pow [of "p - q"] by (simp add: apart_def)

lemma apart_le: "apart n p q \<Longrightarrow> k \<le> n \<Longrightarrow> apart k p q"
  by (simp add: apart_def)

lemma copies_mov32: "copies 4 mov32" and copies_mov64: "copies 8 mov64"
  by (simp_all add: copies_def mov32_eq mov64_eq)

lemma copies_0: "copies 0 (\<lambda>s d. Some)"
  by (simp add: copies_def)

lemma copies_seq:
  assumes f: "copies n f" and g: "copies k g"
  shows "copies (n + k) (\<lambda>s d m. f s d m \<bind> g (s + of_nat n) (d + of_nat n))"
  unfolding copies_def
proof (intro allI impI)
  fix src dst m
  assume s: "owned m src (n + k)" and d: "owned m dst (n + k)" and ap: "apart (n + k) src dst"
  note b = apart_bound [OF ap]
  have apn: "apart n src dst" and apk: "apart k (src + of_nat n) (dst + of_nat n)"
    using ap by (auto simp: apart_def)
  have dm: "dom (cpy n src dst m) = dom m"
    using s d b by (intro dom_cpy) (simp_all add: owned_append)
  have "f src dst m = Some (cpy n src dst m)"
    using s d apn by (intro copiesD [OF f]) (simp_all add: owned_append)
  moreover have "g (src + of_nat n) (dst + of_nat n) (cpy n src dst m) =
      Some (cpy k (src + of_nat n) (dst + of_nat n) (cpy n src dst m))"
    using s d apk by (intro copiesD [OF g]) (simp_all add: owned_append owned_dom_cong [OF dm])
  ultimately show "f src dst m \<bind> g (src + of_nat n) (dst + of_nat n) = Some (cpy (n + k) src dst m)"
    by (simp add: cpy_append [OF ap b])
qed

subsection \<open>Bytes written at an address\<close>

definition put :: "ptr \<Rightarrow> u8 list \<Rightarrow> bytes \<Rightarrow> bytes" where
  "put p bs m = (\<lambda>a. if unat (a - p) < length bs then Some (bs ! unat (a - p)) else m a)"

lemma put_Nil [simp]: "put p [] m = m"
  by (simp add: put_def)

lemma put_append:
  assumes "length xs + length ys \<le> 2 ^ 64"
  shows "put p (xs @ ys) m = put (p + of_nat (length xs)) ys (put p xs m)"
proof
  fix a
  let ?d = "a - p"
  have e: "a - (p + of_nat (length xs)) = ?d - of_nat (length xs)" by simp
  show "put p (xs @ ys) m a = put (p + of_nat (length xs)) ys (put p xs m) a"
  proof (cases "ys = []")
    case False
    then have n: "unat (of_nat (length xs) :: u64) = length xs"
      using assms by (cases ys) (simp_all add: unat_of_nat)
    show ?thesis
    proof (cases "unat ?d < length xs")
      case True
      then have "\<not> unat (?d - of_nat (length xs)) < length ys"
        using n assms by (auto simp: unat_sub_if_size word_size)
      then show ?thesis using True by (simp add: put_def e nth_append)
    next
      case nl: False
      then have "unat (?d - of_nat (length xs)) = unat ?d - length xs"
        using n by (simp add: unat_sub_if_size)
      then show ?thesis using nl by (auto simp: put_def e nth_append)
    qed
  qed simp
qed

lemma put_one: "put p [b] m = m(p \<mapsto> b)"
  by (auto simp: put_def fun_eq_iff unat_eq_0)

lemma put_Cons: "length bs < 2 ^ 64 \<Longrightarrow> put p (b # bs) m = put (p + 1) bs (m(p \<mapsto> b))"
  using put_append [of "[b]" bs p m] by (simp add: put_one)

lemma put_at: "i < length bs \<Longrightarrow> length bs \<le> 2 ^ 64 \<Longrightarrow> put p bs m (p + of_nat i) = Some (bs ! i)"
  by (simp add: put_def unat_of_nat)

lemma put_outside: "length bs \<le> unat (a - p) \<Longrightarrow> put p bs m a = m a"
  by (simp add: put_def)

lemma owned_put: "owned m q n \<Longrightarrow> owned (put p bs m) q n"
  by (auto simp: owned_iff put_def)

lemma owned_2: "owned m p 2 \<longleftrightarrow> m p \<noteq> None \<and> m (p + 1) \<noteq> None"
  by (simp add: owned_def upt_rec numeral_eq_Suc)

lemma st16_put: "owned m p 2 \<Longrightarrow> st16 p v m = Some (put p (bytes16 v) m)"
  by (simp add: owned_2 st16_def st8_def bytes16_def put_Cons)

lemma st32_put: "owned m p 4 \<Longrightarrow> st32 p v m = Some (put p (bytes32 v) m)"
  by (simp add: st32_eq bytes32_def put_Cons ac_simps)

lemma length_bytes [simp]: "length (bytes16 h) = 2" "length (bytes32 v) = 4" "length (bytes64 w) = 8"
  by (simp_all add: bytes16_def bytes32_def bytes64_def)

lemma st64_put: "owned m p 8 \<Longrightarrow> st64 p v m = Some (put p (bytes64 v) m)"
  using owned_put [of m "p + 4" 4 p "bytes32 (ucast v)"]
  by (simp add: owned_8 st64_def st32_put bytes64_def put_append)

lemma ld16_put: "ld16 (put p (bytes16 v) m) p = Some v"
proof -
  have "le16 (ucast v) (ucast (drop_bit 8 v)) = v"
    by (rule bit_word_eqI) (auto simp: le16_def bit_simps)
  then show ?thesis
    using put_at [of 0 "bytes16 v" p m] put_at [of 1 "bytes16 v" p m] by (simp add: ld16_def bytes16_def)
qed

lemma ld32_put: "ld32 (put p (bytes32 v) m) p = Some v"
  using put_at [of 0 "bytes32 v" p m] put_at [of 1 "bytes32 v" p m] put_at [of 2 "bytes32 v" p m] put_at [of 3 "bytes32 v" p m]
  by (simp add: ld32_eq_Some) (simp add: bytes32_def)

lemma ld64_put: "ld64 (put p (bytes64 v) m) p = Some v"
proof -
  have "put p (bytes64 v) m (p + of_nat i) = put p (bytes32 (ucast v)) m (p + of_nat i)" if "i < 4" for i
    using that put_at [of i "bytes64 v" p m] put_at [of i "bytes32 (ucast v)" p m] by (simp add: bytes64_def nth_append)
  from this [of 0] this [of 1] this [of 2] this [of 3]
  have "ld32 (put p (bytes64 v) m) p = ld32 (put p (bytes32 (ucast v)) m) p"
    by (simp add: ld32_def)
  then show ?thesis
    using ld32_put [of "p + 4"] by (simp add: ld64_eq_Some ld32_put) (simp add: bytes64_def put_append ld32_put)
qed

end
