(* ===== verification/KCData.thy ===== *)
theory KCData
  imports ByteMem
begin

text \<open>
  kern/kcdata.h: the subtype descriptors and the safe iterators over a kcdata buffer. Memory is bytes
  at addresses, little endian, and a read of an address that holds nothing is a fault (\<open>None\<close>). A
  buffer is a sequence of items, each a header of 16 bytes (type, size, flags) and its data, closed
  by an item of type \<open>KCDATA_TYPE_BUFFER_END\<close>.
\<close>

subsection \<open>Items\<close>

text \<open>The fields of \<open>struct kcdata_item\<close> at an address; \<open>data\<close> starts after the 16 bytes of the header.\<close>

definition kcdata_item_type :: "bytes \<Rightarrow> ptr \<Rightarrow> u32 option" where
  "kcdata_item_type m item = ld32 m item"

definition kcdata_item_size :: "bytes \<Rightarrow> ptr \<Rightarrow> u32 option" where
  "kcdata_item_size m item = ld32 m (item + 4)"

definition kcdata_item_flags :: "bytes \<Rightarrow> ptr \<Rightarrow> u64 option" where
  "kcdata_item_flags m item = ld64 m (item + 8)"

definition sizeof_kcdata_item :: u64 where "sizeof_kcdata_item = 16"

definition KCDATA_DESC_MAXLEN :: u32 where "KCDATA_DESC_MAXLEN = 32"
definition KCDATA_FLAGS_STRUCT_PADDING_MASK :: u64 where "KCDATA_FLAGS_STRUCT_PADDING_MASK = 0xf"
definition KCDATA_FLAGS_STRUCT_HAS_PADDING :: u64 where "KCDATA_FLAGS_STRUCT_HAS_PADDING = 0x80"

definition KCDATA_TYPE_ARRAY :: u32 where "KCDATA_TYPE_ARRAY = 0x11"
definition KCDATA_TYPE_CONTAINER_BEGIN :: u32 where "KCDATA_TYPE_CONTAINER_BEGIN = 0x13"
definition KCDATA_TYPE_ARRAY_PAD0 :: u32 where "KCDATA_TYPE_ARRAY_PAD0 = 0x20"
definition KCDATA_TYPE_LIBRARY_LOADINFO :: u32 where "KCDATA_TYPE_LIBRARY_LOADINFO = 0x30"
definition KCDATA_TYPE_LIBRARY_LOADINFO64 :: u32 where "KCDATA_TYPE_LIBRARY_LOADINFO64 = 0x31"
definition KCDATA_TYPE_BUFFER_END :: u32 where "KCDATA_TYPE_BUFFER_END = 0xF19158ED"
definition STACKSHOT_KCTYPE_THREAD_SNAPSHOT :: u32 where "STACKSHOT_KCTYPE_THREAD_SNAPSHOT = 0x906"
definition STACKSHOT_KCTYPE_DONATING_PIDS :: u32 where "STACKSHOT_KCTYPE_DONATING_PIDS = 0x907"
definition STACKSHOT_KCTYPE_SHAREDCACHE_LOADINFO :: u32 where "STACKSHOT_KCTYPE_SHAREDCACHE_LOADINFO = 0x908"
definition STACKSHOT_KCTYPE_KERN_STACKFRAME :: u32 where "STACKSHOT_KCTYPE_KERN_STACKFRAME = 0x90A"
definition STACKSHOT_KCTYPE_KERN_STACKFRAME64 :: u32 where "STACKSHOT_KCTYPE_KERN_STACKFRAME64 = 0x90B"
definition STACKSHOT_KCTYPE_USER_STACKFRAME :: u32 where "STACKSHOT_KCTYPE_USER_STACKFRAME = 0x90C"
definition STACKSHOT_KCTYPE_USER_STACKFRAME64 :: u32 where "STACKSHOT_KCTYPE_USER_STACKFRAME64 = 0x90D"
definition STACKSHOT_KCTYPE_THREAD_DELTA_SNAPSHOT :: u32 where "STACKSHOT_KCTYPE_THREAD_DELTA_SNAPSHOT = 0x941"
definition TASK_CRASHINFO_CRASHED_THREADID :: u32 where "TASK_CRASHINFO_CRASHED_THREADID = 0x81A"

text \<open>Sizes of the structures the iterators name; all are packed or need no padding.\<close>

definition sizeof_thread_snapshot_v2 :: u32 where "sizeof_thread_snapshot_v2 = 11 * 8 + 2 * 4 + 2 * 2 + 4"
definition sizeof_dyld_uuid_info_32 :: u32 where "sizeof_dyld_uuid_info_32 = 4 + 16"
definition sizeof_dyld_uuid_info_64 :: u32 where "sizeof_dyld_uuid_info_64 = 8 + 16"
definition sizeof_stack_snapshot_frame32 :: u32 where "sizeof_stack_snapshot_frame32 = 4 + 4"
definition sizeof_stack_snapshot_frame64 :: u32 where "sizeof_stack_snapshot_frame64 = 8 + 8"
definition sizeof_thread_delta_snapshot_v2 :: u32 where
  "sizeof_thread_delta_snapshot_v2 = 4 * 8 + 2 * 4 + 2 * 2 + 4"

subsection \<open>Subtype descriptors\<close>

record kcdata_subtype_descriptor =
  kcs_flags :: u8
  kcs_elem_type :: u8
  kcs_elem_offset :: u16
  kcs_elem_size :: u32
  kcs_name :: "u8 list"

definition KCS_SUBTYPE_FLAGS_ARRAY :: u8 where "KCS_SUBTYPE_FLAGS_ARRAY = 1"

definition KCS_SUBTYPE_PACK_SIZE :: "u32 \<Rightarrow> u32 \<Rightarrow> u32" where
  "KCS_SUBTYPE_PACK_SIZE e_count e_size = push_bit 16 (e_count AND 0xffff) OR (e_size AND 0xffff)"

definition kcs_get_elem_size :: "kcdata_subtype_descriptor \<Rightarrow> u32" where
  "kcs_get_elem_size d =
     (if kcs_flags d AND KCS_SUBTYPE_FLAGS_ARRAY \<noteq> 0
      then (kcs_elem_size d AND 0xffff) * drop_bit 16 (kcs_elem_size d AND 0xffff0000)
      else kcs_elem_size d)"

definition kcs_get_elem_count :: "kcdata_subtype_descriptor \<Rightarrow> u32" where
  "kcs_get_elem_count d =
     (if kcs_flags d AND KCS_SUBTYPE_FLAGS_ARRAY \<noteq> 0
      then drop_bit 16 (kcs_elem_size d) AND 0xffff
      else 1)"

definition kcs_set_elem_size ::
  "kcdata_subtype_descriptor \<Rightarrow> u32 \<Rightarrow> u32 \<Rightarrow> int \<times> kcdata_subtype_descriptor" where
  "kcs_set_elem_size d sz count =
     (if count > 1 then
        if sz > 0xffff \<or> count > 0xffff then (- 1, d)
        else (0, d\<lparr>kcs_elem_size := push_bit 16 (count AND 0xffff) OR (sz AND 0xffff)\<rparr>)
      else (0, d\<lparr>kcs_elem_size := sz\<rparr>))"

subsection \<open>Safe iterators\<close>

record kcdata_iter_t =
  kci_item :: ptr
  kci_end :: ptr

definition kcdata_iter :: "ptr \<Rightarrow> u64 \<Rightarrow> kcdata_iter_t" where
  "kcdata_iter buffer sz = \<lparr>kci_item = buffer, kci_end = buffer + sz\<rparr>"

definition kcdata_iter_unsafe :: "ptr \<Rightarrow> kcdata_iter_t" where
  "kcdata_iter_unsafe buffer = \<lparr>kci_item = buffer, kci_end = NOT 0\<rparr>"

definition kcdata_invalid_iter :: kcdata_iter_t where
  "kcdata_invalid_iter = \<lparr>kci_item = NULL, kci_end = NULL\<rparr>"

definition kcdata_iter_valid :: "bytes \<Rightarrow> kcdata_iter_t \<Rightarrow> bool option" where
  "kcdata_iter_valid m iter =
     (if kci_item iter + sizeof_kcdata_item \<le> kci_end iter then do {
        s \<leftarrow> kcdata_item_size m (kci_item iter);
        Some (kci_item iter + sizeof_kcdata_item + ucast s \<le> kci_end iter) }
      else Some False)"

definition kcdata_iter_next :: "bytes \<Rightarrow> kcdata_iter_t \<Rightarrow> kcdata_iter_t option" where
  "kcdata_iter_next m iter = do {
     s \<leftarrow> kcdata_item_size m (kci_item iter);
     Some (iter\<lparr>kci_item := kci_item iter + sizeof_kcdata_item + ucast s\<rparr>) }"

definition kcdata_iter_type :: "bytes \<Rightarrow> kcdata_iter_t \<Rightarrow> u32 option" where
  "kcdata_iter_type m iter = do {
     t \<leftarrow> kcdata_item_type m (kci_item iter);
     Some (if t AND NOT 0xf = KCDATA_TYPE_ARRAY_PAD0 then KCDATA_TYPE_ARRAY else t) }"

definition kcdata_calc_padding :: "u32 \<Rightarrow> u32" where
  "kcdata_calc_padding sz = - sz AND 0xf"

definition kcdata_flags_get_padding :: "u64 \<Rightarrow> u32" where
  "kcdata_flags_get_padding flags = ucast (flags AND KCDATA_FLAGS_STRUCT_PADDING_MASK)"

definition kcdata_iter_is_legacy_item :: "bytes \<Rightarrow> kcdata_iter_t \<Rightarrow> u32 \<Rightarrow> bool option" where
  "kcdata_iter_is_legacy_item m iter legacy_size = (
     let legacy_size_padded = legacy_size + kcdata_calc_padding legacy_size
     in do {
       s \<leftarrow> kcdata_item_size m (kci_item iter);
       if s = legacy_size_padded then do {
         f \<leftarrow> kcdata_item_flags m (kci_item iter);
         Some (f AND (KCDATA_FLAGS_STRUCT_PADDING_MASK OR KCDATA_FLAGS_STRUCT_HAS_PADDING) = 0) }
       else Some False })"

definition kcdata_iter_size_default :: "bytes \<Rightarrow> kcdata_iter_t \<Rightarrow> u32 option" where
  "kcdata_iter_size_default m iter = do {
     s \<leftarrow> kcdata_item_size m (kci_item iter);
     f \<leftarrow> kcdata_item_flags m (kci_item iter);
     Some (if s < kcdata_flags_get_padding f then 0 else s - kcdata_flags_get_padding f) }"

definition kcdata_iter_size :: "bytes \<Rightarrow> kcdata_iter_t \<Rightarrow> u32 option" where
  "kcdata_iter_size m iter = do {
     t \<leftarrow> kcdata_iter_type m iter;
     if t = KCDATA_TYPE_ARRAY \<or> t = KCDATA_TYPE_CONTAINER_BEGIN then kcdata_item_size m (kci_item iter)
     else if t = STACKSHOT_KCTYPE_THREAD_SNAPSHOT then do {
       l \<leftarrow> kcdata_iter_is_legacy_item m iter sizeof_thread_snapshot_v2;
       if l then Some sizeof_thread_snapshot_v2 else kcdata_iter_size_default m iter }
     else if t = STACKSHOT_KCTYPE_SHAREDCACHE_LOADINFO then do {
       l \<leftarrow> kcdata_iter_is_legacy_item m iter sizeof_dyld_uuid_info_64;
       if l then Some sizeof_dyld_uuid_info_64 else kcdata_iter_size_default m iter }
     else kcdata_iter_size_default m iter }"

definition kcdata_iter_flags :: "bytes \<Rightarrow> kcdata_iter_t \<Rightarrow> u64 option" where
  "kcdata_iter_flags m iter = kcdata_item_flags m (kci_item iter)"

definition kcdata_iter_payload :: "kcdata_iter_t \<Rightarrow> ptr" where
  "kcdata_iter_payload iter = kci_item iter + sizeof_kcdata_item"

definition kcdata_iter_array_elem_type :: "bytes \<Rightarrow> kcdata_iter_t \<Rightarrow> u32 option" where
  "kcdata_iter_array_elem_type m iter =
     map_option (\<lambda>f. ucast (drop_bit 32 f AND 0xffffffff)) (kcdata_item_flags m (kci_item iter))"

definition kcdata_iter_array_elem_count :: "bytes \<Rightarrow> kcdata_iter_t \<Rightarrow> u32 option" where
  "kcdata_iter_array_elem_count m iter =
     map_option (\<lambda>f. ucast (f AND 0xffffffff)) (kcdata_item_flags m (kci_item iter))"

definition kcdata_iter_array_size_switch :: "bytes \<Rightarrow> kcdata_iter_t \<Rightarrow> u32 option" where
  "kcdata_iter_array_size_switch m iter = do {
     t \<leftarrow> kcdata_iter_array_elem_type m iter;
     Some (if t = KCDATA_TYPE_LIBRARY_LOADINFO then sizeof_dyld_uuid_info_32
       else if t = KCDATA_TYPE_LIBRARY_LOADINFO64 then sizeof_dyld_uuid_info_64
       else if t = STACKSHOT_KCTYPE_KERN_STACKFRAME \<or> t = STACKSHOT_KCTYPE_USER_STACKFRAME
         then sizeof_stack_snapshot_frame32
       else if t = STACKSHOT_KCTYPE_KERN_STACKFRAME64 \<or> t = STACKSHOT_KCTYPE_USER_STACKFRAME64
         then sizeof_stack_snapshot_frame64
       else if t = STACKSHOT_KCTYPE_DONATING_PIDS then 4
       else if t = STACKSHOT_KCTYPE_THREAD_DELTA_SNAPSHOT then sizeof_thread_delta_snapshot_v2
       else if t = TASK_CRASHINFO_CRASHED_THREADID then 8
       else 0) }"

definition kcdata_iter_array_valid :: "bytes \<Rightarrow> kcdata_iter_t \<Rightarrow> bool option" where
  "kcdata_iter_array_valid m iter = do {
     v \<leftarrow> kcdata_iter_valid m iter;
     if \<not> v then Some False
     else do {
       t \<leftarrow> kcdata_iter_type m iter;
       if t \<noteq> KCDATA_TYPE_ARRAY then Some False
       else do {
         n \<leftarrow> kcdata_iter_array_elem_count m iter;
         s \<leftarrow> kcdata_item_size m (kci_item iter);
         if n = 0 then Some (s = 0)
         else do {
           rt \<leftarrow> kcdata_item_type m (kci_item iter);
           if rt = KCDATA_TYPE_ARRAY then do {
             elem_size \<leftarrow> kcdata_iter_array_size_switch m iter;
             Some (if elem_size = 0 then False else n \<le> s div elem_size \<and> s mod n < 16) }
           else Some (rt AND 0xf \<le> s \<and> n \<le> s - (rt AND 0xf) \<and> (s - (rt AND 0xf)) mod n = 0) } } } }"

definition kcdata_iter_array_elem_size :: "bytes \<Rightarrow> kcdata_iter_t \<Rightarrow> u32 option" where
  "kcdata_iter_array_elem_size m iter = do {
     rt \<leftarrow> kcdata_item_type m (kci_item iter);
     if rt = KCDATA_TYPE_ARRAY then kcdata_iter_array_size_switch m iter
     else do {
       n \<leftarrow> kcdata_iter_array_elem_count m iter;
       if n = 0 then Some 0
       else do {
         s \<leftarrow> kcdata_item_size m (kci_item iter);
         Some ((s - (rt AND 0xf)) div n) } } }"

definition kcdata_iter_container_valid :: "bytes \<Rightarrow> kcdata_iter_t \<Rightarrow> bool option" where
  "kcdata_iter_container_valid m iter = do {
     v \<leftarrow> kcdata_iter_valid m iter;
     if \<not> v then Some False
     else do {
       t \<leftarrow> kcdata_iter_type m iter;
       if t \<noteq> KCDATA_TYPE_CONTAINER_BEGIN then Some False
       else do { s \<leftarrow> kcdata_item_size m (kci_item iter); Some (s \<ge> 4) } } }"

definition kcdata_iter_container_type :: "bytes \<Rightarrow> kcdata_iter_t \<Rightarrow> u32 option" where
  "kcdata_iter_container_type m iter = ld32 m (kcdata_iter_payload iter)"

definition kcdata_iter_container_id :: "bytes \<Rightarrow> kcdata_iter_t \<Rightarrow> u64 option" where
  "kcdata_iter_container_id m iter = kcdata_item_flags m (kci_item iter)"

text \<open>The loop with a body on the iterator and a local state; it leaves the iterator where it stopped.\<close>

partial_function (option) KCDATA_ITER_FOREACH ::
  "bytes \<Rightarrow> (kcdata_iter_t \<Rightarrow> 's \<Rightarrow> 's option) \<Rightarrow> kcdata_iter_t \<Rightarrow> 's \<Rightarrow> (kcdata_iter_t \<times> 's) option" where
  "KCDATA_ITER_FOREACH m body iter s = do {
     v \<leftarrow> kcdata_iter_valid m iter;
     if \<not> v then Some (iter, s)
     else do {
       t \<leftarrow> kcdata_item_type m (kci_item iter);
       if t = KCDATA_TYPE_BUFFER_END then Some (iter, s)
       else do {
         s \<leftarrow> body iter s;
         iter \<leftarrow> kcdata_iter_next m iter;
         KCDATA_ITER_FOREACH m body iter s } } }"

definition KCDATA_ITER_FOREACH_FAILED :: "bytes \<Rightarrow> kcdata_iter_t \<Rightarrow> bool option" where
  "KCDATA_ITER_FOREACH_FAILED m iter = do {
     v \<leftarrow> kcdata_iter_valid m iter;
     if \<not> v then Some True
     else do { t \<leftarrow> kcdata_item_type m (kci_item iter); Some (t \<noteq> KCDATA_TYPE_BUFFER_END) } }"

partial_function (option) kcdata_iter_find_type :: "bytes \<Rightarrow> kcdata_iter_t \<Rightarrow> u32 \<Rightarrow> kcdata_iter_t option" where
  "kcdata_iter_find_type m iter type = do {
     v \<leftarrow> kcdata_iter_valid m iter;
     if \<not> v then Some kcdata_invalid_iter
     else do {
       rt \<leftarrow> kcdata_item_type m (kci_item iter);
       if rt = KCDATA_TYPE_BUFFER_END then Some kcdata_invalid_iter
       else do {
         t \<leftarrow> kcdata_iter_type m iter;
         if t = type then Some iter
         else do {
           iter \<leftarrow> kcdata_iter_next m iter;
           kcdata_iter_find_type m iter type } } } }"

definition kcdata_iter_data_with_desc_valid :: "bytes \<Rightarrow> kcdata_iter_t \<Rightarrow> u32 \<Rightarrow> bool option" where
  "kcdata_iter_data_with_desc_valid m iter minsize = do {
     v \<leftarrow> kcdata_iter_valid m iter;
     if \<not> v then Some False
     else do {
       s \<leftarrow> kcdata_iter_size m iter;
       if s \<ge> KCDATA_DESC_MAXLEN + minsize then do {
         c \<leftarrow> m (kcdata_iter_payload iter + (ucast KCDATA_DESC_MAXLEN - 1));
         Some (c = 0) }
       else Some False } }"

text \<open>\<open>strnlen\<close> of the C library: the bytes before the first NUL, of at most \<open>maxlen\<close> bytes.\<close>

fun strnlen :: "bytes \<Rightarrow> ptr \<Rightarrow> nat \<Rightarrow> nat option" where
  "strnlen m s 0 = Some 0"
| "strnlen m s (Suc maxlen) = do {
     c \<leftarrow> m s;
     if c = 0 then Some 0 else map_option Suc (strnlen m (s + 1) maxlen) }"

definition kcdata_iter_string :: "bytes \<Rightarrow> kcdata_iter_t \<Rightarrow> u32 \<Rightarrow> ptr option" where
  "kcdata_iter_string m iter offset = do {
     sz \<leftarrow> kcdata_iter_size m iter;
     if offset > sz then Some NULL
     else do {
       sz \<leftarrow> kcdata_iter_size m iter;
       let maxlen = sz - offset;
       let s = kcdata_iter_payload iter + ucast offset;
       n \<leftarrow> strnlen m s (unat maxlen);
       Some (if n < unat maxlen then s else NULL) } }"

text \<open>The three results of kcdata_iter_get_data_with_desc, each stored only through a non-null pointer.\<close>

definition kcdata_iter_get_data_with_desc ::
  "bytes \<Rightarrow> kcdata_iter_t \<Rightarrow> bool \<Rightarrow> bool \<Rightarrow> bool \<Rightarrow> (ptr option \<times> ptr option \<times> u32 option) option" where
  "kcdata_iter_get_data_with_desc m iter desc_ptr data_ptr size_ptr = do {
     let desc = (if desc_ptr then Some (kcdata_iter_payload iter) else None);
     let data = (if data_ptr then Some (kcdata_iter_payload iter + ucast KCDATA_DESC_MAXLEN) else None);
     if size_ptr then do {
       s \<leftarrow> kcdata_iter_size m iter;
       Some (desc, data, Some (s - KCDATA_DESC_MAXLEN)) }
     else Some (desc, data, None) }"

subsection \<open>Buffers\<close>

text \<open>
  A buffer of the bytes \<open>bs\<close> at \<open>b\<close>. Its end stays clear of the end of the address space by one
  largest item, so that the sums the iterators compare do not wrap around.
\<close>

definition kc_buffer :: "bytes \<Rightarrow> ptr \<Rightarrow> u8 list \<Rightarrow> bool" where
  "kc_buffer m b bs \<longleftrightarrow> (\<forall>i < length bs. m (b + of_nat i) = Some (bs ! i)) \<and> unat b + length bs + 2 ^ 32 + 16 \<le> 2 ^ 64"

definition le32_at :: "u8 list \<Rightarrow> nat \<Rightarrow> u32" where
  "le32_at bs i = le32 (bs ! i) (bs ! (i + 1)) (bs ! (i + 2)) (bs ! (i + 3))"

definition le64_at :: "u8 list \<Rightarrow> nat \<Rightarrow> u64" where
  "le64_at bs i = ucast (le32_at bs i) OR push_bit 32 (ucast (le32_at bs (i + 4)))"

text \<open>The type, the size and the flags of the item at offset \<open>i\<close>, and the iterator there.\<close>

definition kc_type_at :: "u8 list \<Rightarrow> nat \<Rightarrow> u32" where "kc_type_at bs i = le32_at bs i"
definition kc_size_at :: "u8 list \<Rightarrow> nat \<Rightarrow> u32" where "kc_size_at bs i = le32_at bs (i + 4)"
definition kc_flags_at :: "u8 list \<Rightarrow> nat \<Rightarrow> u64" where "kc_flags_at bs i = le64_at bs (i + 8)"

definition kc_at :: "ptr \<Rightarrow> u8 list \<Rightarrow> nat \<Rightarrow> kcdata_iter_t" where
  "kc_at b bs i = \<lparr>kci_item = b + of_nat i, kci_end = b + of_nat (length bs)\<rparr>"

text \<open>A whole item lies at offset \<open>i\<close>.\<close>

definition kc_fits :: "u8 list \<Rightarrow> nat \<Rightarrow> bool" where
  "kc_fits bs i \<longleftrightarrow> i + 16 \<le> length bs \<and> i + 16 + unat (kc_size_at bs i) \<le> length bs"

named_theorems kc_read

lemma kc_byte [kc_read]: "kc_buffer m b bs \<Longrightarrow> i < length bs \<Longrightarrow> m (b + of_nat i) = Some (bs ! i)"
  by (simp add: kc_buffer_def)

lemma kc_byte_add:
  "kc_buffer m b bs \<Longrightarrow> i + numeral n < length bs \<Longrightarrow> m (b + of_nat i + numeral n) = Some (bs ! (i + numeral n))"
  using kc_byte [of m b bs "i + numeral n"] by (simp add: add.assoc)

lemma kc_byte_Suc: "kc_buffer m b bs \<Longrightarrow> i + 1 < length bs \<Longrightarrow> m (b + of_nat i + 1) = Some (bs ! (i + 1))"
  using kc_byte [of m b bs "i + 1"] by (simp add: ac_simps)

lemma ld32_at: "kc_buffer m b bs \<Longrightarrow> i + 4 \<le> length bs \<Longrightarrow> ld32 m (b + of_nat i) = Some (le32_at bs i)"
  by (simp add: ld32_def le32_at_def kc_byte kc_byte_Suc kc_byte_add)

lemma ld32_at_add:
  "kc_buffer m b bs \<Longrightarrow> i + numeral n + 4 \<le> length bs \<Longrightarrow> ld32 m (b + of_nat i + numeral n) = Some (le32_at bs (i + numeral n))"
  using ld32_at [of m b bs "i + numeral n"] by (simp add: add.assoc)

lemma kc_item_reads [kc_read]:
  assumes "kc_buffer m b bs" and "i + 16 \<le> length bs"
  shows "kcdata_item_type m (kci_item (kc_at b bs i)) = Some (kc_type_at bs i)"
    "kcdata_item_size m (kci_item (kc_at b bs i)) = Some (kc_size_at bs i)"
    "kcdata_item_flags m (kci_item (kc_at b bs i)) = Some (kc_flags_at bs i)"
  using assms ld32_at [of m b bs "i + 4"] ld32_at [of m b bs "i + 8"] ld32_at [of m b bs "i + 12"]
  by (simp_all add: kcdata_item_type_def kcdata_item_size_def kcdata_item_flags_def kc_at_def kc_type_at_def
    kc_size_at_def kc_flags_at_def ld64_def le64_at_def ld32_at ld32_at_add add.assoc)

lemma unat_offset: "kc_buffer m b bs \<Longrightarrow> i \<le> length bs + 2 ^ 32 + 15 \<Longrightarrow> unat (b + of_nat i) = unat b + i"
  by (subst unat_add_small; simp add: kc_buffer_def unat_of_nat)

lemma kc_le_iff:
  assumes "kc_buffer m b bs" and "i \<le> length bs + 2 ^ 32 + 15"
  shows "b + of_nat i \<le> b + of_nat (length bs) \<longleftrightarrow> i \<le> length bs"
  using unat_offset [OF assms] unat_offset [OF assms(1), of "length bs"] by (simp add: word_le_nat_alt)

lemma kc_next_item: "kci_item (kc_at b bs i) + sizeof_kcdata_item + ucast s = b + of_nat (i + 16 + unat (s :: u32))"
  by (simp add: kc_at_def sizeof_kcdata_item_def add.assoc)

lemma kcdata_iter_valid_at [kc_read]:
  assumes b: "kc_buffer m b bs" and i: "i \<le> length bs"
  shows "kcdata_iter_valid m (kc_at b bs i) = Some (kc_fits bs i)"
proof -
  have "kci_item (kc_at b bs i) + sizeof_kcdata_item = b + of_nat (i + 16)"
    by (simp add: kc_at_def sizeof_kcdata_item_def add.assoc)
  moreover have "kci_end (kc_at b bs i) = b + of_nat (length bs)" by (simp add: kc_at_def)
  ultimately have 1: "kci_item (kc_at b bs i) + sizeof_kcdata_item \<le> kci_end (kc_at b bs i) \<longleftrightarrow> i + 16 \<le> length bs"
    using kc_le_iff [OF b, of "i + 16"] i by (simp only:) simp
  have "unat (kc_size_at bs i) < 2 ^ 32" using unat_less_pow [of "kc_size_at bs i"] by simp
  then have 2: "kci_item (kc_at b bs i) + sizeof_kcdata_item + ucast (kc_size_at bs i) \<le> kci_end (kc_at b bs i)
      \<longleftrightarrow> i + 16 + unat (kc_size_at bs i) \<le> length bs"
    unfolding kc_next_item using kc_le_iff [OF b, of "i + 16 + unat (kc_size_at bs i)"] i by (simp add: kc_at_def)
  show ?thesis
    using 1 2 kc_item_reads(2) [OF b, of i] by (auto simp: kcdata_iter_valid_def kc_fits_def)
qed

lemma kcdata_iter_next_at [kc_read]:
  assumes "kc_buffer m b bs" and "i + 16 \<le> length bs"
  shows "kcdata_iter_next m (kc_at b bs i) = Some (kc_at b bs (i + 16 + unat (kc_size_at bs i)))"
  using kc_item_reads(2) [OF assms] kc_next_item [of b bs i "kc_size_at bs i"]
  by (simp add: kcdata_iter_next_def) (simp add: kc_at_def)

lemma kcdata_iter_start: "kcdata_iter b (of_nat (length bs)) = kc_at b bs 0"
  by (simp add: kcdata_iter_def kc_at_def)

subsection \<open>Iteration\<close>

text \<open>
  The walk over a buffer: the offsets of the items before the end marker, the offset where the walk
  stops, and whether an end marker is there.
\<close>

function kc_walk :: "u8 list \<Rightarrow> nat \<Rightarrow> nat list \<times> nat \<times> bool" where
  "kc_walk bs i = (if \<not> kc_fits bs i then ([], i, False)
     else if kc_type_at bs i = KCDATA_TYPE_BUFFER_END then ([], i, True)
     else apfst ((#) i) (kc_walk bs (i + 16 + unat (kc_size_at bs i))))"
  by auto
termination
  by (relation "measure (\<lambda>(bs, i). length bs - i)") (auto simp: kc_fits_def)

declare kc_walk.simps [simp del]

lemma kc_walk_offsets:
  "j \<in> set (fst (kc_walk bs i)) \<Longrightarrow> i \<le> j \<and> kc_fits bs j \<and> kc_type_at bs j \<noteq> KCDATA_TYPE_BUFFER_END"
proof (induction bs i rule: kc_walk.induct)
  case (1 bs i)
  have IH: "kc_fits bs i \<Longrightarrow> kc_type_at bs i \<noteq> KCDATA_TYPE_BUFFER_END
      \<Longrightarrow> j \<in> set (fst (kc_walk bs (i + 16 + unat (kc_size_at bs i)))) \<Longrightarrow>
      i + 16 + unat (kc_size_at bs i) \<le> j \<and> kc_fits bs j \<and> kc_type_at bs j \<noteq> KCDATA_TYPE_BUFFER_END"
    using "1.IH" by simp
  show ?case
    using "1.prems" IH by (subst (asm) kc_walk.simps) (auto split: if_splits)
qed

lemma KCDATA_ITER_FOREACH_walk:
  assumes b: "kc_buffer m b bs" and "i \<le> length bs"
    and "\<And>j s. j \<in> set (fst (kc_walk bs i)) \<Longrightarrow> body (kc_at b bs j) s = Some (g j s)"
  shows "KCDATA_ITER_FOREACH m body (kc_at b bs i) s
      = Some (kc_at b bs (fst (snd (kc_walk bs i))), fold g (fst (kc_walk bs i)) s)
    \<and> KCDATA_ITER_FOREACH_FAILED m (kc_at b bs (fst (snd (kc_walk bs i)))) = Some (\<not> snd (snd (kc_walk bs i)))"
  using assms
proof (induction bs i arbitrary: s rule: kc_walk.induct)
  case (1 bs i)
  note v = kcdata_iter_valid_at [OF "1.prems"(1,2)] and w = kc_walk.simps [of bs i]
  show ?case
  proof (cases "kc_fits bs i")
    case False
    then show ?thesis
      using v w by (subst KCDATA_ITER_FOREACH.simps) (simp add: KCDATA_ITER_FOREACH_FAILED_def)
  next
    case fits: True
    then have l: "i + 16 \<le> length bs" by (simp add: kc_fits_def)
    note r = kc_item_reads [OF "1.prems"(1) l]
    show ?thesis
    proof (cases "kc_type_at bs i = KCDATA_TYPE_BUFFER_END")
      case True
      then show ?thesis
        using v w fits r by (subst KCDATA_ITER_FOREACH.simps) (simp add: KCDATA_ITER_FOREACH_FAILED_def)
    next
      case False
      let ?k = "i + 16 + unat (kc_size_at bs i)"
      have w': "kc_walk bs i = apfst ((#) i) (kc_walk bs ?k)" using w fits False by simp
      have k: "?k \<le> length bs" using fits by (simp add: kc_fits_def)
      have "body (kc_at b bs i) s = Some (g i s)" using "1.prems"(3) [of i] w' by simp
      moreover have "body (kc_at b bs j) s = Some (g j s)" if "j \<in> set (fst (kc_walk bs ?k))" for j s
        using "1.prems"(3) [of j] w' that by simp
      note "1.IH" [of "g i s", simplified fits False, OF _ _ "1.prems"(1) k this]
      ultimately show ?thesis
        using v fits r False w' kcdata_iter_next_at [OF "1.prems"(1) l]
        by (subst KCDATA_ITER_FOREACH.simps) simp
    qed
  qed
qed

lemma kcdata_iter_type_at [kc_read]:
  assumes "kc_buffer m b bs" and "i + 16 \<le> length bs"
  shows "kcdata_iter_type m (kc_at b bs i)
    = Some (if kc_type_at bs i AND NOT 0xf = KCDATA_TYPE_ARRAY_PAD0 then KCDATA_TYPE_ARRAY else kc_type_at bs i)"
  using kc_item_reads [OF assms] by (simp add: kcdata_iter_type_def)

lemma kcdata_iter_find_type_walk:
  assumes b: "kc_buffer m b bs" and "i \<le> length bs"
  shows "kcdata_iter_find_type m (kc_at b bs i) type = Some (
    case find (\<lambda>j. kcdata_iter_type m (kc_at b bs j) = Some type) (fst (kc_walk bs i)) of
      Some j \<Rightarrow> kc_at b bs j | None \<Rightarrow> kcdata_invalid_iter)"
  using assms
proof (induction bs i rule: kc_walk.induct)
  case (1 bs i)
  note v = kcdata_iter_valid_at [OF "1.prems"] and w = kc_walk.simps [of bs i]
  show ?case
  proof (cases "kc_fits bs i \<and> kc_type_at bs i \<noteq> KCDATA_TYPE_BUFFER_END")
    case False
    then have "fst (kc_walk bs i) = []" using w by auto
    moreover have "kcdata_iter_find_type m (kc_at b bs i) type = Some kcdata_invalid_iter"
      using v False kc_item_reads(1) [OF "1.prems"(1), of i]
      by (subst kcdata_iter_find_type.simps) (auto simp: kc_fits_def)
    ultimately show ?thesis by simp
  next
    case True
    then have l: "i + 16 \<le> length bs" by (simp add: kc_fits_def)
    let ?k = "i + 16 + unat (kc_size_at bs i)"
    have w': "kc_walk bs i = apfst ((#) i) (kc_walk bs ?k)" using w True by simp
    have k: "?k \<le> length bs" using True by (simp add: kc_fits_def)
    note r = kc_item_reads [OF "1.prems"(1) l] and IH = "1.IH" [OF _ _ "1.prems"(1) k]
    show ?thesis
      using True v r w' IH kcdata_iter_next_at [OF "1.prems"(1) l] kcdata_iter_type_at [OF "1.prems"(1) l]
      by (subst kcdata_iter_find_type.simps) auto
  qed
qed

subsection \<open>Contents\<close>

text \<open>A client that collects the items of a buffer, through the accessors of the header.\<close>

datatype kc_chunk = Chunk (kc_ctype: u32) (kc_cflags: u64) (kc_cdata: "u8 list")

fun ld_bytes :: "bytes \<Rightarrow> ptr \<Rightarrow> nat \<Rightarrow> u8 list option" where
  "ld_bytes m p 0 = Some []"
| "ld_bytes m p (Suc n) = do { c \<leftarrow> m p; cs \<leftarrow> ld_bytes m (p + 1) n; Some (c # cs) }"

definition kc_collect :: "bytes \<Rightarrow> kcdata_iter_t \<Rightarrow> kc_chunk list \<Rightarrow> kc_chunk list option" where
  "kc_collect m iter s = do {
     t \<leftarrow> kcdata_item_type m (kci_item iter);
     n \<leftarrow> kcdata_item_size m (kci_item iter);
     f \<leftarrow> kcdata_iter_flags m iter;
     d \<leftarrow> ld_bytes m (kcdata_iter_payload iter) (unat n);
     Some (s @ [Chunk t f d]) }"

definition kc_chunk_at :: "u8 list \<Rightarrow> nat \<Rightarrow> kc_chunk" where
  "kc_chunk_at bs i = Chunk (kc_type_at bs i) (kc_flags_at bs i) (take (unat (kc_size_at bs i)) (drop (i + 16) bs))"

lemma ld_bytes_at [kc_read]:
  "kc_buffer m b bs \<Longrightarrow> i + n \<le> length bs \<Longrightarrow> ld_bytes m (b + of_nat i) n = Some (take n (drop i bs))"
proof (induction n arbitrary: i)
  case (Suc n)
  have "take (Suc n) (drop i bs) = bs ! i # take n (drop (Suc i) bs)"
    using Suc.prems(2) by (simp add: Cons_nth_drop_Suc [symmetric])
  moreover have "ld_bytes m (b + of_nat i + 1) n = Some (take n (drop (Suc i) bs))"
    using Suc.IH [of "Suc i"] Suc.prems by (simp add: ac_simps)
  ultimately show ?case using Suc.prems kc_byte [OF Suc.prems(1), of i] by simp
qed simp

lemma kc_payload: "kcdata_iter_payload (kc_at b bs i) = b + of_nat (i + 16)"
  by (simp add: kcdata_iter_payload_def kc_at_def sizeof_kcdata_item_def add.assoc)

lemma kc_collect_at:
  assumes "kc_buffer m b bs" and "kc_fits bs i"
  shows "kc_collect m (kc_at b bs i) s = Some (s @ [kc_chunk_at bs i])"
proof -
  have l: "i + 16 \<le> length bs" "i + 16 + unat (kc_size_at bs i) \<le> length bs" using assms(2) by (auto simp: kc_fits_def)
  show ?thesis
    using kc_item_reads [OF assms(1) l(1)] ld_bytes_at [OF assms(1) l(2)]
    by (simp only: kc_collect_def kcdata_iter_flags_def kc_payload kc_chunk_at_def) simp
qed

lemma fold_snoc: "fold (\<lambda>j s. s @ [f j]) js s = s @ map f js"
  by (induction js arbitrary: s) auto

lemma kc_iteration:
  assumes b: "kc_buffer m b bs"
  shows "KCDATA_ITER_FOREACH m (kc_collect m) (kcdata_iter b (of_nat (length bs))) []
      = Some (kc_at b bs (fst (snd (kc_walk bs 0))), map (kc_chunk_at bs) (fst (kc_walk bs 0)))
    \<and> KCDATA_ITER_FOREACH_FAILED m (kc_at b bs (fst (snd (kc_walk bs 0)))) = Some (\<not> snd (snd (kc_walk bs 0)))"
  using KCDATA_ITER_FOREACH_walk [OF b, of 0 "kc_collect m" "\<lambda>j s. s @ [kc_chunk_at bs j]" "[]"]
    kc_collect_at [OF b] kc_walk_offsets [of _ bs 0]
  by (simp add: kcdata_iter_start fold_snoc)

subsection \<open>Encoding\<close>

fun kc_bytes :: "kc_chunk \<Rightarrow> u8 list" where
  "kc_bytes (Chunk t f d) = bytes32 t @ bytes32 (of_nat (length d)) @ bytes64 f @ d"

definition kc_encode :: "kc_chunk list \<Rightarrow> u8 list" where
  "kc_encode cs = concat (map kc_bytes cs) @ kc_bytes (Chunk KCDATA_TYPE_BUFFER_END 0 [])"

lemma le64_halves: "ucast (ucast w :: u32) OR push_bit 32 (ucast (ucast (drop_bit 32 w) :: u32)) = (w :: u64)"
  by (rule bit_word_eqI) (auto simp: bit_simps)

lemma le32_at_append: "le32_at (pre @ xs) (length pre + k) = le32_at xs k"
  by (simp add: le32_at_def nth_append)

lemma le32_at_bytes32: "le32_at (bytes32 w @ xs) 0 = w"
  by (simp add: le32_at_def bytes32_def le32_of_word numeral_2_eq_2 numeral_3_eq_3)

lemma le32_at_word: "length ys = k \<Longrightarrow> le32_at (ys @ bytes32 w @ xs) k = w"
  using le32_at_append [of ys "bytes32 w @ xs" 0] le32_at_bytes32 by simp

lemma kc_bytes_at:
  fixes t f d pre post
  defines "bs \<equiv> pre @ kc_bytes (Chunk t f d) @ post"
  assumes "length d < 2 ^ 32"
  shows "kc_type_at bs (length pre) = t" "unat (kc_size_at bs (length pre)) = length d" "kc_flags_at bs (length pre) = f"
    "kc_fits bs (length pre)" "kc_chunk_at bs (length pre) = Chunk t f d"
proof -
  let ?f = "bytes32 (ucast f) @ bytes32 (ucast (drop_bit 32 f)) @ d @ post"
  have e: "bs = pre @ bytes32 t @ bytes32 (of_nat (length d)) @ ?f" by (simp add: bs_def bytes64_def)
  show t: "kc_type_at bs (length pre) = t" unfolding e kc_type_at_def by (rule le32_at_word) simp
  have "kc_size_at bs (length pre) = of_nat (length d)"
    unfolding e kc_size_at_def using le32_at_word [of "pre @ bytes32 t" "length pre + 4" "of_nat (length d)" ?f] by simp
  then show s: "unat (kc_size_at bs (length pre)) = length d" using assms(2) by (simp add: unat_of_nat)
  have "le32_at bs (length pre + 8) = ucast f" "le32_at bs (length pre + 12) = ucast (drop_bit 32 f)"
    unfolding e using le32_at_word [of "pre @ bytes32 t @ bytes32 (of_nat (length d))" "length pre + 8"]
      le32_at_word [of "pre @ bytes32 t @ bytes32 (of_nat (length d)) @ bytes32 (ucast f)" "length pre + 12"] by simp_all
  then show f: "kc_flags_at bs (length pre) = f" using le64_halves [of f] by (simp add: kc_flags_at_def le64_at_def add.assoc)
  show "kc_fits bs (length pre)" using s by (simp add: kc_fits_def bs_def)
  have "drop (length pre + 16) bs = d @ post" by (simp add: bs_def)
  then show "kc_chunk_at bs (length pre) = Chunk t f d" using t s f by (simp add: kc_chunk_at_def)
qed

definition kc_chunk_ok :: "kc_chunk \<Rightarrow> bool" where
  "kc_chunk_ok c \<longleftrightarrow> kc_ctype c \<noteq> KCDATA_TYPE_BUFFER_END \<and> length (kc_cdata c) < 2 ^ 32"

lemma kc_walk_encode:
  assumes "\<forall>c \<in> set cs. kc_chunk_ok c"
  shows "map (kc_chunk_at (pre @ kc_encode cs @ post)) (fst (kc_walk (pre @ kc_encode cs @ post) (length pre))) = cs
    \<and> snd (snd (kc_walk (pre @ kc_encode cs @ post) (length pre)))"
  using assms
proof (induction cs arbitrary: pre)
  case Nil
  have e: "pre @ kc_encode [] @ post = pre @ kc_bytes (Chunk KCDATA_TYPE_BUFFER_END 0 []) @ post" by (simp add: kc_encode_def)
  show ?case unfolding e
    using kc_bytes_at [where pre = pre and t = KCDATA_TYPE_BUFFER_END and f = 0 and d = "[]" and post = post]
    by (subst (1 2) kc_walk.simps) simp
next
  case (Cons c cs)
  obtain t f d where c: "c = Chunk t f d" by (cases c)
  let ?bs = "pre @ kc_encode (c # cs) @ post"
  have e: "?bs = pre @ kc_bytes (Chunk t f d) @ kc_encode cs @ post" by (simp add: kc_encode_def c)
  have ok: "t \<noteq> KCDATA_TYPE_BUFFER_END" "length d < 2 ^ 32" using Cons.prems by (auto simp: kc_chunk_ok_def c)
  note at = kc_bytes_at [where pre = pre and post = "kc_encode cs @ post", OF ok(2), where t = t and f = f, folded e]
  have "?bs = (pre @ kc_bytes (Chunk t f d)) @ kc_encode cs @ post" by (simp add: e)
  then have IH: "map (kc_chunk_at ?bs) (fst (kc_walk ?bs (length pre + 16 + length d))) = cs"
    "snd (snd (kc_walk ?bs (length pre + 16 + length d)))"
    using Cons.IH [of "pre @ kc_bytes (Chunk t f d)"] Cons.prems by (simp_all add: add.assoc)
  have "kc_walk ?bs (length pre) = apfst ((#) (length pre)) (kc_walk ?bs (length pre + 16 + length d))"
    using at ok by (subst kc_walk.simps) simp
  then show ?case using IH at(5) c by simp
qed

subsection \<open>Accessors\<close>

lemma kcdata_calc_padding_unat:
  "unat (kcdata_calc_padding s) < 16" "(unat s + unat (kcdata_calc_padding s)) mod 16 = 0"
proof -
  have "kcdata_calc_padding s = - s AND mask 4" by (simp add: kcdata_calc_padding_def mask_eq_exp_minus_1)
  then have p: "unat (kcdata_calc_padding s) = unat (- s) mod 16" by (simp only: unat_and_mask) simp
  then show "unat (kcdata_calc_padding s) < 16" by simp
  have "(unat s + unat (- s)) mod 2 ^ LENGTH(32) = 0"
    using unat_word_ariths(1) [of s "- s"] by simp
  then have "2 ^ LENGTH(32) dvd unat s + unat (- s)" by (simp only: mod_eq_0_iff_dvd)
  moreover have "(16 :: nat) dvd 2 ^ LENGTH(32)" by simp
  ultimately have "16 dvd unat s + unat (- s)" by (rule dvd_trans [rotated])
  then have "(unat s + unat (- s)) mod 16 = 0" by (simp only: mod_eq_0_iff_dvd)
  then show "(unat s + unat (kcdata_calc_padding s)) mod 16 = 0" by (simp only: p mod_add_right_eq)
qed

lemma kcdata_flags_get_padding_le: "unat (kcdata_flags_get_padding f) \<le> 15"
proof -
  have "unat (f AND KCDATA_FLAGS_STRUCT_PADDING_MASK) = unat f mod 16"
    using unat_and_mask [of f 4] by (simp add: KCDATA_FLAGS_STRUCT_PADDING_MASK_def mask_eq_exp_minus_1)
  then have "unat (f AND KCDATA_FLAGS_STRUCT_PADDING_MASK) < 16" by simp
  then show ?thesis by (simp add: kcdata_flags_get_padding_def unsigned_ucast_eq take_bit_nat_eq_self)
qed

text \<open>The size of the data: the stored size less a padding of at most 15 bytes.\<close>

lemma kcdata_iter_size_at:
  assumes b: "kc_buffer m b bs" and f: "kc_fits bs i"
  shows "\<exists>s. kcdata_iter_size m (kc_at b bs i) = Some s \<and> unat s \<le> unat (kc_size_at bs i) \<and> unat (kc_size_at bs i) \<le> unat s + 15"
proof -
  have l: "i + 16 \<le> length bs" using f by (simp add: kc_fits_def)
  note r = kc_item_reads [OF b l] and ty = kcdata_iter_type_at [OF b l]
  let ?near = "\<lambda>s. unat s \<le> unat (kc_size_at bs i) \<and> unat (kc_size_at bs i) \<le> unat s + 15"
  have d: "\<exists>s. kcdata_iter_size_default m (kc_at b bs i) = Some s \<and> ?near s"
    using r kcdata_flags_get_padding_le [of "kc_flags_at bs i"]
      unat_sub_le [of "kcdata_flags_get_padding (kc_flags_at bs i)" "kc_size_at bs i"]
    by (auto simp: kcdata_iter_size_default_def not_less word_less_nat_alt word_le_nat_alt)
  have leg: "\<exists>v. kcdata_iter_is_legacy_item m (kc_at b bs i) k = Some v
      \<and> (v \<longrightarrow> kc_size_at bs i = k + kcdata_calc_padding k)" for k
    using r by (auto simp: kcdata_iter_is_legacy_item_def Let_def)
  have sz: "unat (sizeof_thread_snapshot_v2 + kcdata_calc_padding sizeof_thread_snapshot_v2) = unat sizeof_thread_snapshot_v2 + 8"
    "unat (sizeof_dyld_uuid_info_64 + kcdata_calc_padding sizeof_dyld_uuid_info_64) = unat sizeof_dyld_uuid_info_64 + 8"
    by (simp_all add: sizeof_thread_snapshot_v2_def sizeof_dyld_uuid_info_64_def kcdata_calc_padding_def)
  obtain v1 v2 where v: "kcdata_iter_is_legacy_item m (kc_at b bs i) sizeof_thread_snapshot_v2 = Some v1"
    "v1 \<Longrightarrow> ?near sizeof_thread_snapshot_v2"
    "kcdata_iter_is_legacy_item m (kc_at b bs i) sizeof_dyld_uuid_info_64 = Some v2"
    "v2 \<Longrightarrow> ?near sizeof_dyld_uuid_info_64"
    using leg [of sizeof_thread_snapshot_v2] leg [of sizeof_dyld_uuid_info_64] sz by fastforce
  show ?thesis using ty r(2) d v by (auto simp: kcdata_iter_size_def)
qed

lemma strnlen_at [kc_read]:
  "kc_buffer m b bs \<Longrightarrow> i + n \<le> length bs \<Longrightarrow>
     strnlen m (b + of_nat i) n = Some (length (takeWhile (\<lambda>c. c \<noteq> 0) (take n (drop i bs))))"
proof (induction n arbitrary: i)
  case (Suc n)
  have "take (Suc n) (drop i bs) = bs ! i # take n (drop (Suc i) bs)"
    using Suc.prems(2) by (simp add: Cons_nth_drop_Suc [symmetric])
  moreover have "strnlen m (b + of_nat i + 1) n = Some (length (takeWhile (\<lambda>c. c \<noteq> 0) (take n (drop (Suc i) bs))))"
    using Suc.IH [of "Suc i"] Suc.prems by (simp add: ac_simps)
  ultimately show ?case using Suc.prems kc_byte [OF Suc.prems(1), of i] by simp
qed simp

lemma div_mult_unat_le: "n \<le> s div e \<Longrightarrow> unat n * unat e \<le> unat (s :: u32)"
proof -
  assume "n \<le> s div e"
  then have "unat n \<le> unat s div unat e" by (simp add: word_le_nat_alt unat_div)
  then have "unat n * unat e \<le> unat s div unat e * unat e" by simp
  then show ?thesis using div_times_less_eq_dividend [of "unat s" "unat e"] by linarith
qed

lemma kc_array_elements:
  assumes b: "kc_buffer m b bs" and f: "kc_fits bs i"
    and a: "kcdata_iter_array_valid m (kc_at b bs i) = Some True"
  shows "\<exists>n e. kcdata_iter_array_elem_count m (kc_at b bs i) = Some n
    \<and> kcdata_iter_array_elem_size m (kc_at b bs i) = Some e
    \<and> unat n * unat e \<le> unat (kc_size_at bs i) \<and> (n \<noteq> 0 \<longrightarrow> e \<noteq> 0)"
proof -
  have l: "i \<le> length bs" "i + 16 \<le> length bs" using f by (simp_all add: kc_fits_def)
  note r = kc_item_reads [OF b l(2)] and v = kcdata_iter_valid_at [OF b l(1)] and ty = kcdata_iter_type_at [OF b l(2)]
  define n s p where nsp: "n = (ucast (kc_flags_at bs i AND 0xffffffff) :: u32)" "s = kc_size_at bs i" "p = kc_type_at bs i AND 0xf"
  have n: "kcdata_iter_array_elem_count m (kc_at b bs i) = Some n"
    using r by (simp add: kcdata_iter_array_elem_count_def nsp)
  obtain k where k: "kcdata_iter_array_size_switch m (kc_at b bs i) = Some k"
    using r by (simp add: kcdata_iter_array_size_switch_def kcdata_iter_array_elem_type_def)
  show ?thesis
  proof (cases "kc_type_at bs i = KCDATA_TYPE_ARRAY")
    case True
    then have e: "kcdata_iter_array_elem_size m (kc_at b bs i) = Some k"
      using r k by (simp add: kcdata_iter_array_elem_size_def)
    have "n = 0 \<or> k \<noteq> 0 \<and> n \<le> s div k"
      using a v ty r f n k True by (auto simp: kcdata_iter_array_valid_def nsp(2) split: if_splits)
    then show ?thesis using n e div_mult_unat_le [of n s k] by (auto simp: nsp(2))
  next
    case False
    then have e: "kcdata_iter_array_elem_size m (kc_at b bs i) = Some (if n = 0 then 0 else (s - p) div n)"
      using r n by (auto simp: kcdata_iter_array_elem_size_def nsp(2,3))
    have "n = 0 \<or> p \<le> s \<and> n \<le> s - p"
      using a v ty r f n False by (auto simp: kcdata_iter_array_valid_def nsp(2,3) split: if_splits)
    moreover have "unat n * unat ((s - p) div n) \<le> unat s" if "p \<le> s"
      using order_trans [OF times_div_less_eq_dividend [of "unat n" "unat (s - p)"]] word_sub_le [OF that]
      by (simp add: unat_div word_le_nat_alt)
    moreover have "(s - p) div n \<noteq> 0" if "n \<noteq> 0" "n \<le> s - p"
    proof
      assume "(s - p) div n = 0"
      then have "unat (s - p) div unat n = 0" by (metis unat_div unat_0)
      then show False using that by (simp add: div_eq_0_iff word_le_nat_alt unat_eq_zero)
    qed
    ultimately show ?thesis using n e by (auto simp: nsp(2))
  qed
qed

text \<open>A string is found if there is a NUL at or after the offset and before the end of the data.\<close>

lemma takeWhile_found:
  assumes "j + n \<le> length bs"
  shows "length (takeWhile (\<lambda>c. c \<noteq> 0) (take n (drop j bs))) < n \<longleftrightarrow> (\<exists>k < n. bs ! (j + k) = 0)"
proof -
  let ?xs = "take n (drop j bs)"
  have len: "length ?xs = n" and at: "k < n \<Longrightarrow> ?xs ! k = bs ! (j + k)" for k using assms by simp_all
  have "length (takeWhile (\<lambda>c. c \<noteq> 0) ?xs) < n \<longleftrightarrow> (\<exists>x \<in> set ?xs. x = 0)"
  proof
    assume "length (takeWhile (\<lambda>c. c \<noteq> 0) ?xs) < n"
    then show "\<exists>x \<in> set ?xs. x = 0" using nth_length_takeWhile [of "\<lambda>c. c \<noteq> 0" ?xs] len by (metis nth_mem)
  next
    assume "\<exists>x \<in> set ?xs. x = 0"
    then have "takeWhile (\<lambda>c. c \<noteq> 0) ?xs \<noteq> ?xs" by (auto simp: takeWhile_eq_all_conv)
    then show "length (takeWhile (\<lambda>c. c \<noteq> 0) ?xs) < n"
      using length_takeWhile_le [of "\<lambda>c. c \<noteq> 0" ?xs] takeWhile_eq_take [of "\<lambda>c. c \<noteq> 0" ?xs] len
      by (metis le_neq_implies_less take_all_iff order_refl)
  qed
  then show ?thesis using len at by (auto simp: in_set_conv_nth)
qed

lemma kcdata_iter_string_at:
  assumes b: "kc_buffer m b bs" and s: "kcdata_iter_size m (kc_at b bs i) = Some s"
    and l: "i + 16 + unat s \<le> length bs"
  shows "kcdata_iter_string m (kc_at b bs i) off =
    Some (if \<exists>n. unat off + n < unat s \<and> bs ! (i + 16 + unat off + n) = 0 then b + of_nat (i + 16 + unat off) else NULL)"
proof (cases "unat off \<le> unat s")
  case False
  then show ?thesis using s by (simp add: kcdata_iter_string_def word_less_nat_alt)
next
  case True
  define j where "j = i + 16 + unat off"
  have jl: "j + (unat s - unat off) \<le> length bs" using l True by (simp add: j_def)
  have pq: "kcdata_iter_payload (kc_at b bs i) + ucast off = b + of_nat j"
    unfolding kc_payload j_def by (simp add: add.assoc)
  have "kcdata_iter_string m (kc_at b bs i) off = Some (if \<exists>n < unat s - unat off. bs ! (j + n) = 0 then b + of_nat j else NULL)"
    using True s pq unat_sub_le [of off s] strnlen_at [OF b jl] takeWhile_found [OF jl]
    by (simp add: kcdata_iter_string_def word_less_nat_alt)
  moreover have "n < unat s - unat off \<longleftrightarrow> unat off + n < unat s" for n using True by linarith
  ultimately show ?thesis unfolding j_def by simp
qed

lemma kcdata_iter_desc_at:
  assumes b: "kc_buffer m b bs" and f: "kc_fits bs i" and s: "kcdata_iter_size m (kc_at b bs i) = Some s"
    and l: "i + 16 + unat s \<le> length bs" and ms: "unat minsize < 2 ^ 32 - 32"
  shows "kcdata_iter_data_with_desc_valid m (kc_at b bs i) minsize = Some (32 + unat minsize \<le> unat s \<and> bs ! (i + 47) = 0)"
proof -
  have i: "i \<le> length bs" using l by simp
  have u: "unat (KCDATA_DESC_MAXLEN + minsize) = 32 + unat minsize"
    using ms by (subst unat_add_small) (simp_all add: KCDATA_DESC_MAXLEN_def)
  have "m (kcdata_iter_payload (kc_at b bs i) + 31) = Some (bs ! (i + 47))" if "32 + unat minsize \<le> unat s"
    using kc_byte [OF b, of "i + 47"] that l by (simp add: kc_payload add.assoc)
  then show ?thesis
    using kcdata_iter_valid_at [OF b i] f s u
    by (auto simp: kcdata_iter_data_with_desc_valid_def word_le_nat_alt KCDATA_DESC_MAXLEN_def)
qed

subsection \<open>Packed sizes\<close>

lemma ffff_mask: "(0xffff :: u32) = mask 16" "(0xffff0000 :: u32) = push_bit 16 (mask 16)"
  by (simp_all add: mask_eq_exp_minus_1)

lemma pack_unpack:
  fixes c s :: u32
  assumes "unat c < 2 ^ 16" and "unat s < 2 ^ 16"
  defines "x \<equiv> push_bit 16 (c AND 0xffff) OR (s AND 0xffff)"
  shows "x AND 0xffff = s" "drop_bit 16 x AND 0xffff = c" "drop_bit 16 (x AND 0xffff0000) = c"
proof -
  have c: "c AND mask 16 = c" and s: "s AND mask 16 = s"
    using assms(1,2) by (simp_all add: unat_and_mask word_unat_eq_iff)
  have bc: "n < 16" if "bit c n" for n using arg_cong [OF c, of "\<lambda>w. bit w n"] that by (auto simp: bit_simps)
  have bs: "n < 16" if "bit s n" for n using arg_cong [OF s, of "\<lambda>w. bit w n"] that by (auto simp: bit_simps)
  show "x AND 0xffff = s" unfolding x_def ffff_mask
    by (rule bit_word_eqI) (auto simp: bit_simps dest: bs)
  show "drop_bit 16 x AND 0xffff = c" unfolding x_def ffff_mask
    by (rule bit_word_eqI) (auto simp: bit_simps dest: bc)
  show "drop_bit 16 (x AND 0xffff0000) = c" unfolding x_def ffff_mask
    by (rule bit_word_eqI) (auto simp: bit_simps dest: bc)
qed

lemma unat_mult_small: "unat a < 2 ^ 16 \<Longrightarrow> unat b < 2 ^ 16 \<Longrightarrow> unat (a * b :: u32) = unat a * unat b"
proof -
  assume "unat a < 2 ^ 16" "unat b < 2 ^ 16"
  then have "unat a * unat b < 2 ^ 16 * 2 ^ 16" by (intro mult_strict_mono) auto
  then show ?thesis by (simp add: unat_word_ariths)
qed

subsection \<open>Properties\<close>

text \<open>A buffer at 4096 with two items, the second an array of two elements of type 0x907 and no padding.\<close>

definition sample_items :: "kc_chunk list" where
  "sample_items = [Chunk 0x36 0 [7, 0, 0, 0], Chunk 0x20 0x90700000002 [1, 0, 0, 0, 2, 0, 0, 0]]"

definition mem_of :: "ptr \<Rightarrow> u8 list \<Rightarrow> bytes" where
  "mem_of b bs p = (if unat (p - b) < length bs then Some (bs ! unat (p - b)) else None)"

lemma kc_buffer_mem_of: "unat b + length bs + 2 ^ 32 + 16 \<le> 2 ^ 64 \<Longrightarrow> kc_buffer (mem_of b bs) b bs"
  by (simp add: kc_buffer_def mem_of_def unat_of_nat)

definition sample_bytes :: "u8 list" where
  "sample_bytes = kc_encode sample_items"

lemma sample_length: "length sample_bytes = 60"
  by (simp add: sample_bytes_def sample_items_def kc_encode_def)

lemma sample_buffer: "kc_buffer (mem_of 4096 sample_bytes) 4096 sample_bytes"
  by (rule kc_buffer_mem_of) (simp add: sample_length)

lemma sample_ok: "\<forall>c \<in> set sample_items. kc_chunk_ok c"
  by (simp add: sample_items_def kc_chunk_ok_def KCDATA_TYPE_BUFFER_END_def)

lemma sample_walk: "kc_walk sample_bytes 0 = ([0, 20], 44, True)"
  by code_simp

text \<open>
  C7: Over a buffer with any contents, whose end is at least one largest item (\<open>2 ^ 32 + 16\<close> bytes) before
  the end of the address space, the iterator visits exactly the items that lie wholly inside the buffer
  before the end marker, in order, and then stops; it reads no byte outside the buffer, and
  KCDATA_ITER_FOREACH_FAILED tells whether the end marker was reached.
\<close>

theorem kcdata_iteration:
  assumes "kc_buffer m b bs" and "kc_walk bs 0 = (js, e, ok)"
  shows "KCDATA_ITER_FOREACH (m |` {b + of_nat i | i. i < length bs}) (kc_collect (m |` {b + of_nat i | i. i < length bs}))
      (kcdata_iter b (of_nat (length bs))) [] = Some (kc_at b bs e, map (kc_chunk_at bs) js)
    \<and> KCDATA_ITER_FOREACH_FAILED (m |` {b + of_nat i | i. i < length bs}) (kc_at b bs e) = Some (\<not> ok)
    \<and> (\<forall>j \<in> set js. j + 16 + length (kc_cdata (kc_chunk_at bs j)) \<le> length bs)"
proof -
  have b: "kc_buffer (m |` {b + of_nat i | i. i < length bs}) b bs"
    using assms(1) by (auto simp: kc_buffer_def restrict_map_def)
  have "j + 16 + length (kc_cdata (kc_chunk_at bs j)) \<le> length bs" if "j \<in> set js" for j
    using kc_walk_offsets [of j bs 0] that assms(2) by (auto simp: kc_fits_def kc_chunk_at_def)
  then show ?thesis using kc_iteration [OF b] assms(2) by simp
qed

theorem kcdata_iteration_witness:
  "KCDATA_ITER_FOREACH (mem_of 4096 sample_bytes |` {4096 + of_nat i | i. i < 60})
      (kc_collect (mem_of 4096 sample_bytes |` {4096 + of_nat i | i. i < 60})) (kcdata_iter 4096 60) []
    = Some (kc_at 4096 sample_bytes 44, map (kc_chunk_at sample_bytes) [0, 20])"
  using kcdata_iteration [OF sample_buffer sample_walk] by (simp add: sample_length)

text \<open>
  Nearer to the end of the address space the sum of address and size in kcdata_iter_valid may wrap: here
  the item of a buffer of 32 bytes claims almost 4 GB and is accepted, and the next iterator leaves the
  buffer, where the loop faults.
\<close>

definition high_bytes :: "u8 list" where
  "high_bytes = bytes32 0x36 @ bytes32 0xfffffff0 @ replicate 24 0"

lemma high_bytes_reads:
  "kcdata_item_type (mem_of 0xffffffffffffffd0 high_bytes) 0xffffffffffffffd0 = Some 0x36"
  "kcdata_item_size (mem_of 0xffffffffffffffd0 high_bytes) 0xffffffffffffffd0 = Some 0xfffffff0"
  "kcdata_item_size (mem_of 0xffffffffffffffd0 high_bytes) 0xffffffd0 = None"
  by (simp_all add: kcdata_item_type_def kcdata_item_size_def ld32_def le32_def mem_of_def high_bytes_def bytes32_def)

lemma kcdata_iteration_wraps:
  "kcdata_iter_valid (mem_of 0xffffffffffffffd0 high_bytes) (kcdata_iter 0xffffffffffffffd0 32) = Some True" (is "?valid = _")
  "kcdata_iter_next (mem_of 0xffffffffffffffd0 high_bytes) (kcdata_iter 0xffffffffffffffd0 32) =
     Some \<lparr>kci_item = 0xffffffd0, kci_end = 0xfffffffffffffff0\<rparr>" (is "?next = _")
  "KCDATA_ITER_FOREACH (mem_of 0xffffffffffffffd0 high_bytes) (\<lambda>_ s. Some s) (kcdata_iter 0xffffffffffffffd0 32) () = None"
proof -
  show v: "?valid = Some True"
    by (simp add: kcdata_iter_valid_def kcdata_iter_def sizeof_kcdata_item_def high_bytes_reads)
  show n: "?next = Some \<lparr>kci_item = 0xffffffd0, kci_end = 0xfffffffffffffff0\<rparr>"
    by (simp add: kcdata_iter_next_def kcdata_iter_def sizeof_kcdata_item_def high_bytes_reads)
  let ?m = "mem_of 0xffffffffffffffd0 high_bytes"
  have "kcdata_iter_valid ?m \<lparr>kci_item = 0xffffffd0, kci_end = 0xfffffffffffffff0\<rparr> = None"
    by (simp add: kcdata_iter_valid_def sizeof_kcdata_item_def high_bytes_reads)
  then have "KCDATA_ITER_FOREACH ?m (\<lambda>_ s. Some s) \<lparr>kci_item = 0xffffffd0, kci_end = 0xfffffffffffffff0\<rparr> () = None"
    by (subst KCDATA_ITER_FOREACH.simps) simp
  then show "KCDATA_ITER_FOREACH ?m (\<lambda>_ s. Some s) (kcdata_iter 0xffffffffffffffd0 32) () = None"
    using v n by (subst KCDATA_ITER_FOREACH.simps) (simp add: KCDATA_TYPE_BUFFER_END_def kcdata_iter_def high_bytes_reads)
qed

text \<open>
  C12: A buffer that encodes a list of items (none of the end marker's type, each shorter than 4 GB) is
  iterated back into the same list, whatever follows the end marker, and the iteration succeeds.
\<close>

theorem kcdata_roundtrip:
  assumes "kc_buffer m b (kc_encode cs @ rest)" and "\<forall>c \<in> set cs. kc_chunk_ok c"
  shows "\<exists>iter. KCDATA_ITER_FOREACH m (kc_collect m) (kcdata_iter b (of_nat (length (kc_encode cs @ rest)))) []
      = Some (iter, cs) \<and> KCDATA_ITER_FOREACH_FAILED m iter = Some False"
  using kc_iteration [OF assms(1)] kc_walk_encode [OF assms(2), of "[]" rest] by simp

theorem kcdata_roundtrip_witness:
  "\<exists>iter. KCDATA_ITER_FOREACH (mem_of 4096 sample_bytes) (kc_collect (mem_of 4096 sample_bytes)) (kcdata_iter 4096 60) []
      = Some (iter, sample_items) \<and> KCDATA_ITER_FOREACH_FAILED (mem_of 4096 sample_bytes) iter = Some False"
  using kcdata_roundtrip [of "mem_of 4096 sample_bytes" 4096 sample_items "[]"] sample_buffer sample_ok sample_length
  by (simp add: sample_bytes_def)

text \<open>
  Kcdata_iter_find_type returns the iterator at the first item of the asked type before the end
  marker (all padded array types count as KCDATA_TYPE_ARRAY), or the invalid iterator, and always
  returns.
\<close>

theorem kcdata_find_first:
  assumes "kc_buffer m b bs"
  shows "kcdata_iter_find_type m (kcdata_iter b (of_nat (length bs))) type = Some (
    case find (\<lambda>j. kcdata_iter_type m (kc_at b bs j) = Some type) (fst (kc_walk bs 0)) of
      Some j \<Rightarrow> kc_at b bs j | None \<Rightarrow> kcdata_invalid_iter)"
  using kcdata_iter_find_type_walk [OF assms, of 0] by (simp add: kcdata_iter_start)

theorem kcdata_find_first_witness:
  "kcdata_iter_find_type (mem_of 4096 sample_bytes) (kcdata_iter 4096 60) KCDATA_TYPE_ARRAY = Some (kc_at 4096 sample_bytes 20)"
proof -
  have "kcdata_iter_type (mem_of 4096 sample_bytes) (kc_at 4096 sample_bytes 0) = Some 0x36"
    "kcdata_iter_type (mem_of 4096 sample_bytes) (kc_at 4096 sample_bytes 20) = Some KCDATA_TYPE_ARRAY"
    by code_simp+
  then show ?thesis
    using kcdata_find_first [OF sample_buffer, of KCDATA_TYPE_ARRAY] sample_walk sample_length
    by (simp add: KCDATA_TYPE_ARRAY_def)
qed

text \<open>
  C38: At an item inside a buffer that keeps clear of the last 4 GB of the address space the accessors
  give what is in the item and stay inside it. kcdata_iter_size is the stored size less at most 15 bytes
  of padding. kcdata_iter_string returns the address of the payload at the offset if a NUL follows inside
  this size, and NULL otherwise. For a demanded size below \<open>2 ^ 32 - 32\<close>, where the sum with the length of
  the description does not wrap, data with a description is accepted exactly if the description and the
  demanded bytes fit this size and the last byte of the description is NUL.
\<close>

theorem kcdata_accessors_in_bounds:
  assumes "kc_buffer m b bs" and "kc_fits bs i" and "unat minsize < 2 ^ 32 - 32"
  shows "\<exists>s. kcdata_iter_size m (kc_at b bs i) = Some s \<and> unat s \<le> unat (kc_size_at bs i) \<and> unat (kc_size_at bs i) \<le> unat s + 15
    \<and> i + 16 + unat s \<le> length bs
    \<and> kcdata_iter_string m (kc_at b bs i) off =
        Some (if \<exists>n. unat off + n < unat s \<and> bs ! (i + 16 + unat off + n) = 0 then b + of_nat (i + 16 + unat off) else NULL)
    \<and> kcdata_iter_data_with_desc_valid m (kc_at b bs i) minsize = Some (32 + unat minsize \<le> unat s \<and> bs ! (i + 47) = 0)"
proof -
  obtain s where s: "kcdata_iter_size m (kc_at b bs i) = Some s" "unat s \<le> unat (kc_size_at bs i)" "unat (kc_size_at bs i) \<le> unat s + 15"
    using kcdata_iter_size_at [OF assms(1,2)] by blast
  then have l: "i + 16 + unat s \<le> length bs" using assms(2) by (simp add: kc_fits_def)
  show ?thesis
    using s l kcdata_iter_string_at [OF assms(1) s(1) l] kcdata_iter_desc_at [OF assms(1,2) s(1) l assms(3)] by blast
qed

theorem kcdata_accessors_in_bounds_witness:
  "kcdata_iter_string (mem_of 4096 sample_bytes) (kc_at 4096 sample_bytes 0) 1 = Some (4096 + 17)
    \<and> kcdata_iter_data_with_desc_valid (mem_of 4096 sample_bytes) (kc_at 4096 sample_bytes 0) 4 = Some False"
proof -
  have *: "kc_fits sample_bytes 0" "kcdata_iter_size (mem_of 4096 sample_bytes) (kc_at 4096 sample_bytes 0) = Some 4"
    "sample_bytes ! 17 = 0" by code_simp+
  have "\<exists>n. 1 + n < 4 \<and> sample_bytes ! (17 + n) = 0" using *(3) by (intro exI [of _ 0]) simp
  then show ?thesis using kcdata_accessors_in_bounds [OF sample_buffer *(1), of 4 1] *(2) by auto
qed

text \<open>
  When kcdata_iter_array_valid accepts an item, it lies inside the buffer and its elements fit its
  data: count times element size, without wrap-around, is at most the stored size, and the element
  size is not zero unless the array is empty. When kcdata_iter_container_valid accepts an item, the
  container type it stores can be read.
\<close>

theorem kcdata_arrays_and_containers:
  assumes "kc_buffer m b bs" and "i \<le> length bs"
  shows "(kcdata_iter_array_valid m (kc_at b bs i) = Some True \<longrightarrow> kc_fits bs i
      \<and> (\<exists>n e. kcdata_iter_array_elem_count m (kc_at b bs i) = Some n
        \<and> kcdata_iter_array_elem_size m (kc_at b bs i) = Some e
        \<and> unat n * unat e \<le> unat (kc_size_at bs i) \<and> (n \<noteq> 0 \<longrightarrow> e \<noteq> 0)))
    \<and> (kcdata_iter_container_valid m (kc_at b bs i) = Some True \<longrightarrow> kc_fits bs i
      \<and> kcdata_iter_container_type m (kc_at b bs i) = Some (le32_at bs (i + 16)))"
proof (intro conjI impI)
  assume a: "kcdata_iter_array_valid m (kc_at b bs i) = Some True"
  then show f: "kc_fits bs i"
    using kcdata_iter_valid_at [OF assms] by (cases "kc_fits bs i") (auto simp: kcdata_iter_array_valid_def)
  then show "\<exists>n e. kcdata_iter_array_elem_count m (kc_at b bs i) = Some n
        \<and> kcdata_iter_array_elem_size m (kc_at b bs i) = Some e
        \<and> unat n * unat e \<le> unat (kc_size_at bs i) \<and> (n \<noteq> 0 \<longrightarrow> e \<noteq> 0)"
    using kc_array_elements [OF assms(1) f] a by blast
next
  assume c: "kcdata_iter_container_valid m (kc_at b bs i) = Some True"
  then show f: "kc_fits bs i"
    using kcdata_iter_valid_at [OF assms] by (cases "kc_fits bs i") (auto simp: kcdata_iter_container_valid_def)
  have l: "i + 16 \<le> length bs" using f by (simp add: kc_fits_def)
  have "4 \<le> kc_size_at bs i"
    using c f kcdata_iter_valid_at [OF assms] kcdata_iter_type_at [OF assms(1) l] kc_item_reads(2) [OF assms(1) l]
    by (auto simp: kcdata_iter_container_valid_def split: if_splits)
  then have "i + 16 + 4 \<le> length bs" using f by (simp add: kc_fits_def word_le_nat_alt)
  then show "kcdata_iter_container_type m (kc_at b bs i) = Some (le32_at bs (i + 16))"
    using ld32_at [OF assms(1), of "i + 16"] by (simp only: kcdata_iter_container_type_def kc_payload)
qed

theorem kcdata_arrays_and_containers_witness:
  "\<exists>n e. kcdata_iter_array_elem_count (mem_of 4096 sample_bytes) (kc_at 4096 sample_bytes 20) = Some n
    \<and> kcdata_iter_array_elem_size (mem_of 4096 sample_bytes) (kc_at 4096 sample_bytes 20) = Some e
    \<and> unat n * unat e \<le> 8 \<and> (n \<noteq> 0 \<longrightarrow> e \<noteq> 0)"
proof -
  have "kcdata_iter_array_valid (mem_of 4096 sample_bytes) (kc_at 4096 sample_bytes 20) = Some True"
    "unat (kc_size_at sample_bytes 20) = 8" by code_simp+
  then show ?thesis using kcdata_arrays_and_containers [OF sample_buffer, of 20] sample_length by auto
qed

text \<open>
  For a descriptor whose array flag is set exactly when more than one element is described,
  kcs_set_elem_size refuses sizes and counts over 16 bits for arrays and otherwise stores a size that
  kcs_get_elem_count and kcs_get_elem_size read back as the count and the total size, without
  wrap-around.
\<close>

theorem kcs_elem_size_roundtrip:
  assumes "kcs_flags d AND KCS_SUBTYPE_FLAGS_ARRAY \<noteq> 0 \<longleftrightarrow> 1 < unat count"
  shows "if 1 < unat count \<and> (65535 < unat sz \<or> 65535 < unat count)
    then kcs_set_elem_size d sz count = (- 1, d)
    else \<exists>d'. kcs_set_elem_size d sz count = (0, d')
      \<and> unat (kcs_get_elem_count d') = max 1 (unat count)
      \<and> unat (kcs_get_elem_size d') = unat sz * max 1 (unat count)"
proof (cases "1 < unat count")
  case False
  then show ?thesis
    using assms by (simp add: kcs_set_elem_size_def word_less_nat_alt kcs_get_elem_count_def kcs_get_elem_size_def max_def)
next
  case True
  show ?thesis
  proof (cases "65535 < unat sz \<or> 65535 < unat count")
    case big: True
    then show ?thesis using True by (auto simp: kcs_set_elem_size_def word_less_nat_alt)
  next
    case False
    then have l: "unat count < 2 ^ 16" "unat sz < 2 ^ 16" by simp_all
    define x where "x = push_bit 16 (count AND 0xffff) OR (sz AND 0xffff)"
    have "kcs_set_elem_size d sz count = (0, d\<lparr>kcs_elem_size := x\<rparr>)"
      using False True by (simp add: kcs_set_elem_size_def word_less_nat_alt x_def)
    then show ?thesis
      using False True assms pack_unpack [OF l, folded x_def] unat_mult_small [OF l(2,1)]
      by (simp add: kcs_get_elem_count_def kcs_get_elem_size_def max_def)
  qed
qed

theorem kcs_elem_size_roundtrip_witness:
  "\<exists>d'. kcs_set_elem_size \<lparr>kcs_flags = 1, kcs_elem_type = 9, kcs_elem_offset = 16, kcs_elem_size = 0, kcs_name = replicate 32 0\<rparr> 8 4 = (0, d')
     \<and> unat (kcs_get_elem_count d') = 4 \<and> unat (kcs_get_elem_size d') = 32"
  using kcs_elem_size_roundtrip [of "\<lparr>kcs_flags = 1, kcs_elem_type = 9, kcs_elem_offset = 16, kcs_elem_size = 0, kcs_name = replicate 32 0\<rparr>" 4 8]
  by (simp add: KCS_SUBTYPE_FLAGS_ARRAY_def)

end
