(* ===== verification/SkyCommon.thy ===== *)
theory SkyCommon
  imports ByteMem
begin

text \<open>
  skywalk/core/skywalk_common.h, the routines shared by the Skywalk kernel code, for x86_64: block
  copies of fixed sizes and of multiples of a block, clearing, comparison of buffers under a byte
  mask, and the rounding macros. Memory is the byte memory of \<open>ByteMem\<close>; \<open>uint32_t\<close> and \<open>uint64_t\<close>
  moves read the whole value before they store it. The vector routines \<open>os_memcmp_mask_*\<close> are
  declared in the header and defined elsewhere: they are parameters, under the contract that the
  header documents for the comparison.
\<close>

subsection \<open>Rounding and alignment\<close>

definition SK_ROUNDUP :: "u64 \<Rightarrow> u64 \<Rightarrow> u64" where
  "SK_ROUNDUP x align = (if x mod align = 0 then x else x + (align - x mod align))"

definition IS_P2ALIGNED :: "u64 \<Rightarrow> u64 \<Rightarrow> bool" where
  "IS_P2ALIGNED v a \<longleftrightarrow> v AND (a - 1) = 0"

subsection \<open>Copies of fixed sizes\<close>

definition sk_copy64_8 :: "ptr \<Rightarrow> ptr \<Rightarrow> bytes \<Rightarrow> bytes option" where
  "sk_copy64_8 src dst m = mov64 src dst m"

definition sk_copy32_8 :: "ptr \<Rightarrow> ptr \<Rightarrow> bytes \<Rightarrow> bytes option" where
  "sk_copy32_8 src dst m = sk_copy64_8 src dst m"

definition sk_copy64_16 :: "ptr \<Rightarrow> ptr \<Rightarrow> bytes \<Rightarrow> bytes option" where
  "sk_copy64_16 src dst m = do {
     m \<leftarrow> mov64 src dst m;
     mov64 (src + 8) (dst + 8) m }"

definition sk_vcopy64_16 :: "ptr \<Rightarrow> ptr \<Rightarrow> bytes \<Rightarrow> bytes option" where
  "sk_vcopy64_16 src dst m = sk_copy64_16 src dst m"

definition sk_copy32_16 :: "ptr \<Rightarrow> ptr \<Rightarrow> bytes \<Rightarrow> bytes option" where
  "sk_copy32_16 src dst m = do {
     m \<leftarrow> mov32 src dst m;
     m \<leftarrow> mov32 (src + 4) (dst + 4) m;
     m \<leftarrow> mov32 (src + 8) (dst + 8) m;
     mov32 (src + 12) (dst + 12) m }"

definition sk_vcopy32_16 :: "ptr \<Rightarrow> ptr \<Rightarrow> bytes \<Rightarrow> bytes option" where
  "sk_vcopy32_16 src dst m = sk_copy32_16 src dst m"

definition sk_copy64_20 :: "ptr \<Rightarrow> ptr \<Rightarrow> bytes \<Rightarrow> bytes option" where
  "sk_copy64_20 src dst m = do {
     m \<leftarrow> mov64 src dst m;
     m \<leftarrow> mov64 (src + 8) (dst + 8) m;
     mov32 (src + 16) (dst + 16) m }"

definition sk_vcopy64_20 :: "ptr \<Rightarrow> ptr \<Rightarrow> bytes \<Rightarrow> bytes option" where
  "sk_vcopy64_20 src dst m = sk_copy64_20 src dst m"

definition sk_copy64_24 :: "ptr \<Rightarrow> ptr \<Rightarrow> bytes \<Rightarrow> bytes option" where
  "sk_copy64_24 src dst m = do {
     m \<leftarrow> mov64 src dst m;
     m \<leftarrow> mov64 (src + 8) (dst + 8) m;
     mov64 (src + 16) (dst + 16) m }"

definition sk_vcopy64_24 :: "ptr \<Rightarrow> ptr \<Rightarrow> bytes \<Rightarrow> bytes option" where
  "sk_vcopy64_24 src dst m = sk_copy64_24 src dst m"

definition sk_copy64_32 :: "ptr \<Rightarrow> ptr \<Rightarrow> bytes \<Rightarrow> bytes option" where
  "sk_copy64_32 src dst m = do {
     m \<leftarrow> mov64 src dst m;
     m \<leftarrow> mov64 (src + 8) (dst + 8) m;
     m \<leftarrow> mov64 (src + 16) (dst + 16) m;
     mov64 (src + 24) (dst + 24) m }"

definition sk_vcopy64_32 :: "ptr \<Rightarrow> ptr \<Rightarrow> bytes \<Rightarrow> bytes option" where
  "sk_vcopy64_32 src dst m = sk_copy64_32 src dst m"

definition sk_copy32_32 :: "ptr \<Rightarrow> ptr \<Rightarrow> bytes \<Rightarrow> bytes option" where
  "sk_copy32_32 src dst m = do {
     m \<leftarrow> mov32 src dst m;
     m \<leftarrow> mov32 (src + 4) (dst + 4) m;
     m \<leftarrow> mov32 (src + 8) (dst + 8) m;
     m \<leftarrow> mov32 (src + 12) (dst + 12) m;
     m \<leftarrow> mov32 (src + 16) (dst + 16) m;
     m \<leftarrow> mov32 (src + 20) (dst + 20) m;
     m \<leftarrow> mov32 (src + 24) (dst + 24) m;
     mov32 (src + 28) (dst + 28) m }"

definition sk_vcopy32_32 :: "ptr \<Rightarrow> ptr \<Rightarrow> bytes \<Rightarrow> bytes option" where
  "sk_vcopy32_32 src dst m = sk_copy32_32 src dst m"

definition sk_copy64_40 :: "ptr \<Rightarrow> ptr \<Rightarrow> bytes \<Rightarrow> bytes option" where
  "sk_copy64_40 src dst m = do {
     m \<leftarrow> mov64 src dst m;
     m \<leftarrow> mov64 (src + 8) (dst + 8) m;
     m \<leftarrow> mov64 (src + 16) (dst + 16) m;
     m \<leftarrow> mov64 (src + 24) (dst + 24) m;
     mov64 (src + 32) (dst + 32) m }"

definition sk_vcopy64_40 :: "ptr \<Rightarrow> ptr \<Rightarrow> bytes \<Rightarrow> bytes option" where
  "sk_vcopy64_40 src dst m = sk_copy64_40 src dst m"

subsection \<open>Clearing\<close>

text \<open>\<open>bzero\<close> and \<open>memcpy\<close> as the C library has them; \<open>memcpy\<close> is undefined on overlapping blocks.\<close>

definition bzero :: "ptr \<Rightarrow> nat \<Rightarrow> bytes \<Rightarrow> bytes option" where
  "bzero p n m = (if owned m p n then Some (fill n p 0 m) else None)"

definition memcpy :: "ptr \<Rightarrow> ptr \<Rightarrow> nat \<Rightarrow> bytes \<Rightarrow> bytes option" where
  "memcpy dst src n m =
     (if owned m src n \<and> owned m dst n \<and> apart n src dst then Some (cpy n src dst m) else None)"

definition sk_zero_16 :: "ptr \<Rightarrow> bytes \<Rightarrow> bytes option" where "sk_zero_16 p = bzero p 16"
definition sk_zero_32 :: "ptr \<Rightarrow> bytes \<Rightarrow> bytes option" where "sk_zero_32 p = bzero p 32"
definition sk_zero_48 :: "ptr \<Rightarrow> bytes \<Rightarrow> bytes option" where "sk_zero_48 p = bzero p 48"
definition sk_zero_128 :: "ptr \<Rightarrow> bytes \<Rightarrow> bytes option" where "sk_zero_128 p = bzero p 128"

subsection \<open>Copies of a multiple of a block\<close>

definition SK_COPY_THRES :: u64 where "SK_COPY_THRES = 2048"

text \<open>
  \<open>while ((ssize_t)(l -= k) >= 0)\<close> with the body copying \<open>k\<close> bytes and advancing both pointers.
\<close>

partial_function (option) copy_loop ::
  "(ptr \<Rightarrow> ptr \<Rightarrow> bytes \<Rightarrow> bytes option) \<Rightarrow> u64 \<Rightarrow> ptr \<Rightarrow> ptr \<Rightarrow> u64 \<Rightarrow> bytes \<Rightarrow> bytes option" where
  "copy_loop body k src dst l m =
     (let l = l - k in
      if sint l \<ge> 0 then do {
        m \<leftarrow> body src dst m;
        copy_loop body k (src + k) (dst + k) l m }
      else Some m)"

definition sk_copy64_4x :: "ptr \<Rightarrow> ptr \<Rightarrow> u64 \<Rightarrow> bytes \<Rightarrow> bytes option" where
  "sk_copy64_4x src dst l m =
     (if l \<le> SK_COPY_THRES then copy_loop mov32 4 src dst l m
      else memcpy dst src (unat l) m)"

definition sk_copy64_8x :: "ptr \<Rightarrow> ptr \<Rightarrow> u64 \<Rightarrow> bytes \<Rightarrow> bytes option" where
  "sk_copy64_8x src dst l m =
     (if l \<le> SK_COPY_THRES then copy_loop mov64 8 src dst l m
      else memcpy dst src (unat l) m)"

definition sk_copy64_32x :: "ptr \<Rightarrow> ptr \<Rightarrow> u64 \<Rightarrow> bytes \<Rightarrow> bytes option" where
  "sk_copy64_32x src dst l m =
     (if l \<le> SK_COPY_THRES then
        copy_loop (\<lambda>src dst m. do {
            m \<leftarrow> mov64 src dst m;
            m \<leftarrow> mov64 (src + 8) (dst + 8) m;
            m \<leftarrow> mov64 (src + 16) (dst + 16) m;
            mov64 (src + 24) (dst + 24) m }) 32 src dst l m
      else memcpy dst src (unat l) m)"

definition sk_copy64_64x :: "ptr \<Rightarrow> ptr \<Rightarrow> u64 \<Rightarrow> bytes \<Rightarrow> bytes option" where
  "sk_copy64_64x src dst l m =
     (if l \<le> SK_COPY_THRES then
        copy_loop (\<lambda>src dst m. do {
            m \<leftarrow> mov64 src dst m;
            m \<leftarrow> mov64 (src + 8) (dst + 8) m;
            m \<leftarrow> mov64 (src + 16) (dst + 16) m;
            m \<leftarrow> mov64 (src + 24) (dst + 24) m;
            m \<leftarrow> mov64 (src + 32) (dst + 32) m;
            m \<leftarrow> mov64 (src + 40) (dst + 40) m;
            m \<leftarrow> mov64 (src + 48) (dst + 48) m;
            mov64 (src + 56) (dst + 56) m }) 64 src dst l m
      else memcpy dst src (unat l) m)"

subsection \<open>Comparison under a byte mask\<close>

definition masked_diff :: "bytes \<Rightarrow> ptr \<Rightarrow> ptr \<Rightarrow> ptr \<Rightarrow> u64 \<Rightarrow> u32 option" where
  "masked_diff m src1 src2 byte_mask i = do {
     a \<leftarrow> m (src1 + i); b \<leftarrow> m (src2 + i); k \<leftarrow> m (byte_mask + i);
     Some ((ucast a XOR ucast b) AND ucast k) }"

partial_function (option) mask_loop ::
  "bytes \<Rightarrow> ptr \<Rightarrow> ptr \<Rightarrow> ptr \<Rightarrow> u64 \<Rightarrow> u64 \<Rightarrow> u32 \<Rightarrow> u32 option" where
  "mask_loop m src1 src2 byte_mask n i result =
     (if i < n then do {
        d \<leftarrow> masked_diff m src1 src2 byte_mask i;
        mask_loop m src1 src2 byte_mask n (i + 1) (result OR d) }
      else Some result)"

definition sk_memcmp_mask_scalar :: "ptr \<Rightarrow> ptr \<Rightarrow> ptr \<Rightarrow> u64 \<Rightarrow> bytes \<Rightarrow> u32 option" where
  "sk_memcmp_mask_scalar src1 src2 byte_mask n m = mask_loop m src1 src2 byte_mask n 0 0"

definition sk_memcmp_mask_16B_scalar :: "ptr \<Rightarrow> ptr \<Rightarrow> ptr \<Rightarrow> bytes \<Rightarrow> u32 option" where
  "sk_memcmp_mask_16B_scalar src1 src2 byte_mask m = sk_memcmp_mask_scalar src1 src2 byte_mask 16 m"

definition sk_memcmp_mask_32B_scalar :: "ptr \<Rightarrow> ptr \<Rightarrow> ptr \<Rightarrow> bytes \<Rightarrow> u32 option" where
  "sk_memcmp_mask_32B_scalar src1 src2 byte_mask m = sk_memcmp_mask_scalar src1 src2 byte_mask 32 m"

definition sk_memcmp_mask_48B_scalar :: "ptr \<Rightarrow> ptr \<Rightarrow> ptr \<Rightarrow> bytes \<Rightarrow> u32 option" where
  "sk_memcmp_mask_48B_scalar src1 src2 byte_mask m = sk_memcmp_mask_scalar src1 src2 byte_mask 48 m"

definition sk_memcmp_mask_64B_scalar :: "ptr \<Rightarrow> ptr \<Rightarrow> ptr \<Rightarrow> bytes \<Rightarrow> u32 option" where
  "sk_memcmp_mask_64B_scalar src1 src2 byte_mask m = sk_memcmp_mask_scalar src1 src2 byte_mask 64 m"

definition sk_memcmp_mask_80B_scalar :: "ptr \<Rightarrow> ptr \<Rightarrow> ptr \<Rightarrow> bytes \<Rightarrow> u32 option" where
  "sk_memcmp_mask_80B_scalar src1 src2 byte_mask m = sk_memcmp_mask_scalar src1 src2 byte_mask 80 m"

text \<open>
  \<open>__sk_memcmp_mask\<close>: blocks of 64, 32 and 16 bytes by the vector routines (the parameters \<open>cmp64\<close>,
  \<open>cmp32\<close>, \<open>cmp16\<close>), then the last 16 bytes once more if some are left, or a byte loop for a
  buffer shorter than 16.
\<close>

type_synonym mask_cmp = "ptr \<Rightarrow> ptr \<Rightarrow> ptr \<Rightarrow> bytes \<Rightarrow> u32 option"

partial_function (option) block_loop ::
  "mask_cmp \<Rightarrow> u64 \<Rightarrow> bytes \<Rightarrow> ptr \<Rightarrow> ptr \<Rightarrow> ptr \<Rightarrow> u64 \<Rightarrow> u64 \<Rightarrow> u32 \<Rightarrow> (u64 \<times> u32) option" where
  "block_loop cmp k m src1 src2 byte_mask n i result =
     (if i + k \<le> n then do {
        r \<leftarrow> cmp (src1 + i) (src2 + i) (byte_mask + i) m;
        block_loop cmp k m src1 src2 byte_mask n (i + k) (result OR r) }
      else Some (i, result))"

definition sk_memcmp_mask ::
  "mask_cmp \<Rightarrow> mask_cmp \<Rightarrow> mask_cmp \<Rightarrow> ptr \<Rightarrow> ptr \<Rightarrow> ptr \<Rightarrow> u64 \<Rightarrow> bytes \<Rightarrow> u32 option" where
  "sk_memcmp_mask cmp64 cmp32 cmp16 src1 src2 byte_mask n m = do {
     (i, result) \<leftarrow> block_loop cmp64 64 m src1 src2 byte_mask n 0 0;
     (i, result) \<leftarrow> block_loop cmp32 32 m src1 src2 byte_mask n i result;
     (i, result) \<leftarrow> block_loop cmp16 16 m src1 src2 byte_mask n i result;
     if i < n then
       if n \<ge> 16 then do {
         r \<leftarrow> cmp16 (src1 + n - 16) (src2 + n - 16) (byte_mask + n - 16) m;
         Some (result OR r) }
       else mask_loop m src1 src2 byte_mask n i result
     else Some result }"

subsection \<open>Fixed-size copies copy\<close>

lemma copies_cong: "copies n f \<Longrightarrow> n = k \<Longrightarrow> (\<And>s d m. f s d m = g s d m) \<Longrightarrow> copies k g"
  by (simp add: copies_def)

lemmas copy_chain =
  sk_copy64_16_def [abs_def] sk_copy64_20_def [abs_def] sk_copy64_24_def [abs_def] sk_copy64_32_def [abs_def]
  sk_copy64_40_def [abs_def] sk_copy32_16_def [abs_def] sk_copy32_32_def [abs_def]

lemma copies_sk_copy64_16: "copies 16 sk_copy64_16"
  by (rule copies_cong [OF copies_seq [OF copies_mov64 copies_mov64]]) (simp_all add: copy_chain ac_simps)

lemma copies_sk_copy64_20: "copies 20 sk_copy64_20"
  by (rule copies_cong [OF copies_seq [OF copies_mov64 copies_seq [OF copies_mov64 copies_mov32]]])
    (simp_all add: copy_chain ac_simps)

lemma copies_sk_copy64_24: "copies 24 sk_copy64_24"
  by (rule copies_cong [OF copies_seq [OF copies_mov64 copies_sk_copy64_16]]) (simp_all add: copy_chain ac_simps)

lemma copies_sk_copy64_32: "copies 32 sk_copy64_32"
  by (rule copies_cong [OF copies_seq [OF copies_mov64 copies_sk_copy64_24]]) (simp_all add: copy_chain ac_simps)

lemma copies_sk_copy64_40: "copies 40 sk_copy64_40"
  by (rule copies_cong [OF copies_seq [OF copies_mov64 copies_sk_copy64_32]]) (simp_all add: copy_chain ac_simps)

lemma copies_sk_copy32_16: "copies 16 sk_copy32_16"
  by (rule copies_cong [OF copies_seq [OF copies_mov32 copies_seq [OF copies_mov32
          copies_seq [OF copies_mov32 copies_mov32]]]]) (simp_all add: copy_chain ac_simps)

lemma copies_sk_copy32_32: "copies 32 sk_copy32_32"
  by (rule copies_cong [OF copies_seq [OF copies_mov32 copies_seq [OF copies_mov32
          copies_seq [OF copies_mov32 copies_seq [OF copies_mov32 copies_sk_copy32_16]]]]])
    (simp_all add: copy_chain ac_simps)

text \<open>
  Every fixed-size copy routine, scalar and vector, copies exactly the number of bytes in its name
  from an allocated source to an allocated destination that does not overlap it: it returns (no
  fault), each destination byte is the source byte and no other byte changes.
\<close>
theorem sk_fixed_copies:
  "copies 8 sk_copy64_8 \<and> copies 8 sk_copy32_8 \<and>
   copies 16 sk_copy64_16 \<and> copies 16 sk_vcopy64_16 \<and> copies 16 sk_copy32_16 \<and> copies 16 sk_vcopy32_16 \<and>
   copies 20 sk_copy64_20 \<and> copies 20 sk_vcopy64_20 \<and> copies 24 sk_copy64_24 \<and> copies 24 sk_vcopy64_24 \<and>
   copies 32 sk_copy64_32 \<and> copies 32 sk_vcopy64_32 \<and> copies 32 sk_copy32_32 \<and> copies 32 sk_vcopy32_32 \<and>
   copies 40 sk_copy64_40 \<and> copies 40 sk_vcopy64_40"
  using copies_mov64 copies_sk_copy64_16 copies_sk_copy64_20 copies_sk_copy64_24 copies_sk_copy64_32
    copies_sk_copy64_40 copies_sk_copy32_16 copies_sk_copy32_32
  by (simp add: copies_def sk_copy64_8_def sk_copy32_8_def sk_vcopy64_16_def sk_vcopy32_16_def
      sk_vcopy64_20_def sk_vcopy64_24_def sk_vcopy64_32_def sk_vcopy32_32_def sk_vcopy64_40_def)

subsection \<open>Copies of multiples\<close>

lemma sint_nonneg_iff: "0 \<le> sint (w :: u64) \<longleftrightarrow> unat w < 2 ^ 63"
  using sint_neg_iff_bit [of w] by (simp add: bit_63_iff) linarith

lemma copy_loop_copies:
  assumes body: "copies (unat k) body" and k: "0 < unat k" "unat k < 2 ^ 63" and l: "unat l < 2 ^ 63"
  shows "copies (unat l - unat l mod unat k) (\<lambda>s d. copy_loop body k s d l)"
  using l
proof (induction "unat l" arbitrary: l rule: less_induct)
  case less
  show ?case
  proof (cases "unat l < unat k")
    case True
    then have "\<not> 0 \<le> sint (l - k)"
      unfolding sint_nonneg_iff using k less.prems by (simp add: unat_sub_if_size word_size)
    then show ?thesis
      using True by (simp add: copies_def copy_loop.simps [of body k _ _ l])
  next
    case False
    then have u: "unat (l - k) = unat l - unat k" by (simp add: unat_sub_le)
    then have nn: "0 \<le> sint (l - k)"
      unfolding sint_nonneg_iff using less.prems by simp
    have "copies (unat (l - k) - unat (l - k) mod unat k) (\<lambda>s d. copy_loop body k s d (l - k))"
      using u k less.prems False by (intro less.hyps) simp_all
    note st = copies_seq [OF body this]
    have "unat k + (unat (l - k) - unat (l - k) mod unat k) = unat l - unat l mod unat k"
      unfolding minus_mod_eq_mult_div using False u k by (simp add: le_div_geq)
    from st [unfolded this] show ?thesis
      using nn by (simp add: copies_def copy_loop.simps [of body k _ _ l])
  qed
qed

lemma copies_memcpy: "copies n (\<lambda>s d. memcpy d s n)"
  by (simp add: copies_def memcpy_def)

lemma block_copies:
  assumes f: "\<And>s d m. f s d l m =
      (if l \<le> SK_COPY_THRES then copy_loop body k s d l m else memcpy d s (unat l) m)"
    and body: "copies n body" and k: "unat k = n" "0 < n" "n < 2 ^ 63"
  shows "(n dvd unat l \<longrightarrow> copies (unat l) (\<lambda>s d. f s d l)) \<and>
    (l \<le> SK_COPY_THRES \<longrightarrow> copies (unat l - unat l mod n) (\<lambda>s d. f s d l))"
proof (cases "l \<le> SK_COPY_THRES")
  case True
  then have "unat l < 2 ^ 63"
    by (simp add: SK_COPY_THRES_def word_le_nat_alt)
  with k body have "copies (unat l - unat l mod n) (\<lambda>s d. copy_loop body k s d l)"
    using copy_loop_copies [of k body l] by simp
  then show ?thesis
    using True by (simp add: copies_def f)
qed (use copies_memcpy in \<open>simp add: copies_def f\<close>)

lemma copies_8_words: "copies 64 (\<lambda>src dst m. do {
            m \<leftarrow> mov64 src dst m;
            m \<leftarrow> mov64 (src + 8) (dst + 8) m;
            m \<leftarrow> mov64 (src + 16) (dst + 16) m;
            m \<leftarrow> mov64 (src + 24) (dst + 24) m;
            m \<leftarrow> mov64 (src + 32) (dst + 32) m;
            m \<leftarrow> mov64 (src + 40) (dst + 40) m;
            m \<leftarrow> mov64 (src + 48) (dst + 48) m;
            mov64 (src + 56) (dst + 56) m })"
  by (rule copies_cong [OF copies_seq [OF copies_mov64 copies_seq [OF copies_mov64
          copies_seq [OF copies_mov64 copies_sk_copy64_40]]]]) (simp_all add: copy_chain ac_simps)

text \<open>
  \<open>sk_copy64_4x\<close>, \<open>8x\<close>, \<open>32x\<close> and \<open>64x\<close> copy \<open>l\<close> bytes whenever \<open>l\<close> is a multiple of their block
  size, below the threshold by the unrolled loop and above it by \<open>memcpy\<close>: the loop ends, nothing
  is read or written outside the two blocks, and only the destination changes. For any other
  length up to the threshold they copy the whole blocks and leave the rest of the destination as
  it was.
\<close>
theorem sk_copy_multiples:
  "(4 dvd unat l \<longrightarrow> copies (unat l) (\<lambda>s d. sk_copy64_4x s d l)) \<and>
   (8 dvd unat l \<longrightarrow> copies (unat l) (\<lambda>s d. sk_copy64_8x s d l)) \<and>
   (32 dvd unat l \<longrightarrow> copies (unat l) (\<lambda>s d. sk_copy64_32x s d l)) \<and>
   (64 dvd unat l \<longrightarrow> copies (unat l) (\<lambda>s d. sk_copy64_64x s d l)) \<and>
   (l \<le> SK_COPY_THRES \<longrightarrow>
      copies (unat l - unat l mod 4) (\<lambda>s d. sk_copy64_4x s d l) \<and>
      copies (unat l - unat l mod 8) (\<lambda>s d. sk_copy64_8x s d l) \<and>
      copies (unat l - unat l mod 32) (\<lambda>s d. sk_copy64_32x s d l) \<and>
      copies (unat l - unat l mod 64) (\<lambda>s d. sk_copy64_64x s d l))"
  using block_copies [of sk_copy64_4x l mov32 4 4, OF sk_copy64_4x_def copies_mov32]
    block_copies [of sk_copy64_8x l mov64 8 8, OF sk_copy64_8x_def copies_mov64]
    block_copies [of sk_copy64_32x l _ 32 32, OF sk_copy64_32x_def copies_sk_copy64_32 [unfolded sk_copy64_32_def [abs_def]]]
    block_copies [of sk_copy64_64x l _ 64 64, OF sk_copy64_64x_def copies_8_words]
  by simp

theorem sk_copy_multiples_witness:
  "let m = (\<lambda>a. if a < 64 then Some (ucast a) else None) :: bytes in
   owned m 0 8 \<and> owned m 32 8 \<and> apart 8 0 32 \<and> sk_copy64_4x 0 32 8 m = Some (cpy 8 0 32 m) \<and>
   cpy 8 0 32 m 33 = Some 1 \<and> cpy 8 0 32 m 40 = Some 40"
proof -
  define m where "m = ((\<lambda>a. if a < 64 then Some (ucast a) else None) :: bytes)"
  have o: "owned m 0 8" "owned m 32 8" and ap: "apart 8 0 32"
    by (simp_all add: m_def owned_8 owned_4 apart_def)
  have "copies 8 (\<lambda>s d. sk_copy64_4x s d 8)"
    using sk_copy_multiples [of 8] by simp
  from copiesD [OF this o ap] show ?thesis
    using o ap unfolding Let_def m_def [symmetric] by (simp add: cpy_def) (simp add: m_def)
qed

subsection \<open>Comparison decides masked equality\<close>

text \<open>
  \<open>mask_eq m a b k i n\<close>: the bytes \<open>i..n-1\<close> of the two buffers agree under the mask. \<open>owned3\<close>: all
  three buffers are allocated.
\<close>

definition mask_eq :: "bytes \<Rightarrow> ptr \<Rightarrow> ptr \<Rightarrow> ptr \<Rightarrow> nat \<Rightarrow> nat \<Rightarrow> bool" where
  "mask_eq m src1 src2 byte_mask i n =
     list_all (\<lambda>j. masked_diff m src1 src2 byte_mask (of_nat j) = Some 0) [i..<n]"

definition owned3 :: "bytes \<Rightarrow> ptr \<Rightarrow> ptr \<Rightarrow> ptr \<Rightarrow> nat \<Rightarrow> bool" where
  "owned3 m src1 src2 byte_mask n \<longleftrightarrow> owned m src1 n \<and> owned m src2 n \<and> owned m byte_mask n"

lemma mask_eq_iff:
  "mask_eq m a b k i n \<longleftrightarrow> (\<forall>j. i \<le> j \<and> j < n \<longrightarrow> masked_diff m a b k (of_nat j) = Some 0)"
  by (auto simp: mask_eq_def list_all_iff)

lemma mask_eq_empty [simp]: "n \<le> i \<Longrightarrow> mask_eq m a b k i n"
  by (simp add: mask_eq_def)

lemma mask_eq_split: "i \<le> j \<Longrightarrow> j \<le> n \<Longrightarrow> mask_eq m a b k i n \<longleftrightarrow> mask_eq m a b k i j \<and> mask_eq m a b k j n"
  using upt_add_eq_append [of i j "n - j"] by (simp add: mask_eq_def)

lemma mask_eq_mono: "mask_eq m a b k i n \<Longrightarrow> i \<le> j \<Longrightarrow> mask_eq m a b k j n"
  by (auto simp: mask_eq_iff)

lemma mask_eq_shift: "mask_eq m (a + w) (b + w) (k + w) 0 n \<longleftrightarrow> mask_eq m a b k (unat w) (unat w + n)"
proof -
  have "masked_diff m (a + w) (b + w) (k + w) (of_nat j) = masked_diff m a b k (of_nat (unat w + j))" for j
    by (simp add: masked_diff_def ac_simps)
  moreover have "[unat w..<unat w + n] = map (\<lambda>j. unat w + j) [0..<n]"
    using map_add_upt [of "unat w" n] by (simp add: add.commute)
  ultimately show ?thesis
    by (simp add: mask_eq_def list.pred_map comp_def)
qed

lemma owned3_shift: "owned3 m a b k n \<Longrightarrow> unat w + j \<le> n \<Longrightarrow> owned3 m (a + w) (b + w) (k + w) j"
  unfolding owned3_def
  using owned_append [of m a "unat w" j] owned_append [of m b "unat w" j] owned_append [of m k "unat w" j]
    owned_le [of m _ n "unat w + j"] by simp

lemma masked_diff_defined:
  assumes "owned3 m a b k n" "unat i < n"
  shows "\<exists>d. masked_diff m a b k i = Some d"
proof -
  have "p + i = p + of_nat (unat i)" for p :: ptr by simp
  then have "m (a + i) \<noteq> None" "m (b + i) \<noteq> None" "m (k + i) \<noteq> None"
    using assms unfolding owned3_def owned_iff by metis+
  then show ?thesis by (auto simp: masked_diff_def)
qed

lemma mask_loop_decides:
  assumes "owned3 m a b k (unat n)" "i \<le> n"
  shows "\<exists>r. mask_loop m a b k n i result = Some r \<and> (r = 0 \<longleftrightarrow> result = 0 \<and> mask_eq m a b k (unat i) (unat n))"
  using assms(2)
proof (induction "unat n - unat i" arbitrary: i result rule: less_induct)
  case less
  show ?case
  proof (cases "i < n")
    case True
    then have u: "unat i < unat n" by (simp add: word_less_nat_alt)
    then have s: "unat (i + 1) = unat i + 1"
      using unat_less_pow [of n] unat_add_small [of i 1] by simp
    obtain d where d: "masked_diff m a b k i = Some d"
      using masked_diff_defined [OF assms(1) u] by blast
    have "i + 1 \<le> n" "unat n - unat (i + 1) < unat n - unat i"
      using s u by (simp_all add: word_le_nat_alt)
    from less.hyps [OF this(2,1), of "result OR d"]
    obtain r where r: "mask_loop m a b k n (i + 1) (result OR d) = Some r"
      "r = 0 \<longleftrightarrow> result OR d = 0 \<and> mask_eq m a b k (unat i + 1) (unat n)"
      unfolding s by blast
    have "mask_eq m a b k (unat i) (unat n) \<longleftrightarrow> d = 0 \<and> mask_eq m a b k (unat i + 1) (unat n)"
      using u d by (simp add: mask_eq_def upt_conv_Cons)
    then show ?thesis
      using True d r by (simp add: mask_loop.simps [of m a b k n i] or_eq_0_iff)
  next
    case False
    then have "mask_loop m a b k n i result = Some result"
      by (simp add: mask_loop.simps [of m a b k n i])
    then show ?thesis
      using False less.prems by simp
  qed
qed

text \<open>
  The contract of a block comparison: on allocated buffers it returns, and it returns zero exactly
  if the blocks agree under the mask.
\<close>

locale masked_compare =
  fixes cmp :: mask_cmp and size_of :: nat
  assumes decides: "owned3 m a b k size_of \<Longrightarrow> \<exists>r. cmp a b k m = Some r \<and> (r = 0 \<longleftrightarrow> mask_eq m a b k 0 size_of)"
begin

lemma block_loop_decides:
  assumes own: "owned3 m a b k (unat n)" and s: "unat w = size_of" "0 < size_of"
    and fit: "unat n + size_of < 2 ^ 64" and "i \<le> n"
  shows "\<exists>i' r. block_loop cmp w m a b k n i result = Some (i', r) \<and> i \<le> i' \<and> i' \<le> n \<and> \<not> i' + w \<le> n \<and>
    (r = 0 \<longleftrightarrow> result = 0 \<and> mask_eq m a b k (unat i) (unat i'))"
  using assms(5)
proof (induction "unat n - unat i" arbitrary: i result rule: less_induct)
  case less
  have u: "unat (i + w) = unat i + size_of"
    using unat_add_small [of i w] fit less.prems s by (simp add: word_le_nat_alt)
  show ?case
  proof (cases "i + w \<le> n")
    case True
    then have le: "unat i + size_of \<le> unat n" by (simp add: word_le_nat_alt u)
    obtain r where r: "cmp (a + i) (b + i) (k + i) m = Some r"
      "r = 0 \<longleftrightarrow> mask_eq m a b k (unat i) (unat i + size_of)"
      using decides [OF owned3_shift [OF own le]] unfolding mask_eq_shift by blast
    have "unat n - unat (i + w) < unat n - unat i" using le u s by simp
    from less.hyps [OF this True, of "result OR r"] obtain i' r' where
      i': "block_loop cmp w m a b k n (i + w) (result OR r) = Some (i', r')" "i + w \<le> i'" "i' \<le> n"
      "\<not> i' + w \<le> n" "r' = 0 \<longleftrightarrow> result OR r = 0 \<and> mask_eq m a b k (unat i + size_of) (unat i')"
      unfolding u by blast
    have "unat i + size_of \<le> unat i'" using i'(2) u by (simp add: word_le_nat_alt)
    then have "mask_eq m a b k (unat i) (unat i') \<longleftrightarrow>
        mask_eq m a b k (unat i) (unat i + size_of) \<and> mask_eq m a b k (unat i + size_of) (unat i')"
      by (intro mask_eq_split) simp_all
    moreover have "i \<le> i'" using i'(2) u by (simp add: word_le_nat_alt)
    moreover have "block_loop cmp w m a b k n i result = Some (i', r')"
      using True r(1) i'(1) by (simp add: block_loop.simps [of cmp w m a b k n i])
    ultimately show ?thesis
      using r(2) i'(3-5) by (auto simp: or_eq_0_iff)
  next
    case False
    then have "block_loop cmp w m a b k n i result = Some (i, result)"
      by (simp add: block_loop.simps [of cmp w m a b k n i])
    then show ?thesis
      using False less.prems by auto
  qed
qed

end

locale masked_compare_blocks =
  b64: masked_compare cmp64 64 + b32: masked_compare cmp32 32 + b16: masked_compare cmp16 16
  for cmp64 cmp32 cmp16
begin

lemma sk_memcmp_mask_decides:
  assumes own: "owned3 m a b k (unat n)" and fit: "unat n + 64 < 2 ^ 64"
  shows "\<exists>r. sk_memcmp_mask cmp64 cmp32 cmp16 a b k n m = Some r \<and> (r = 0 \<longleftrightarrow> mask_eq m a b k 0 (unat n))"
proof -
  obtain i1 r1 where 1: "block_loop cmp64 64 m a b k n 0 0 = Some (i1, r1)" "i1 \<le> n"
    "r1 = 0 \<longleftrightarrow> mask_eq m a b k 0 (unat i1)"
    using b64.block_loop_decides [OF own, of 64 0 0] fit by auto
  obtain i2 r2 where 2: "block_loop cmp32 32 m a b k n i1 r1 = Some (i2, r2)" "i1 \<le> i2" "i2 \<le> n"
    "r2 = 0 \<longleftrightarrow> r1 = 0 \<and> mask_eq m a b k (unat i1) (unat i2)"
    using b32.block_loop_decides [OF own, of 32 i1 r1] fit 1(2) by auto
  obtain i3 r3 where 3: "block_loop cmp16 16 m a b k n i2 r2 = Some (i3, r3)" "i2 \<le> i3" "i3 \<le> n"
    "\<not> i3 + 16 \<le> n" "r3 = 0 \<longleftrightarrow> r2 = 0 \<and> mask_eq m a b k (unat i2) (unat i3)"
    using b16.block_loop_decides [OF own, of 16 i2 r2] fit 2(3) by auto
  have le: "unat i1 \<le> unat i2" "unat i2 \<le> unat i3" "unat i3 \<le> unat n"
    using 2(2) 3(2,3) by (simp_all add: word_le_nat_alt)
  have r3: "r3 = 0 \<longleftrightarrow> mask_eq m a b k 0 (unat i3)"
    using 1(3) 2(4) 3(5) mask_eq_split [of 0 "unat i1" "unat i3" m a b k] mask_eq_split [of "unat i1" "unat i2" "unat i3" m a b k] le
    by auto
  have all: "mask_eq m a b k 0 (unat n) \<longleftrightarrow> mask_eq m a b k 0 (unat i3) \<and> mask_eq m a b k (unat i3) (unat n)"
    using le by (intro mask_eq_split) simp_all
  consider (whole) "i3 = n" | (tail) "i3 < n" "16 \<le> n" | (short) "i3 < n" "\<not> 16 \<le> n" using 3(3) by fastforce
  then show ?thesis
  proof cases
    case whole
    then show ?thesis using 1(1) 2(1) 3(1) r3 by (simp add: sk_memcmp_mask_def)
  next
    case tail
    have u: "unat (n - 16) = unat n - 16" using tail(2) by (simp add: unat_sub_le word_le_nat_alt)
    have s: "unat (n - 16) + 16 \<le> unat n" using u tail(2) by (simp add: word_le_nat_alt)
    have i3: "unat n - 16 \<le> unat i3"
    proof -
      have "unat (i3 + 16) = unat i3 + 16" using unat_add_small [of i3 16] le fit by simp
      then show ?thesis using 3(4) by (simp add: word_le_nat_alt)
    qed
    obtain r where r: "cmp16 (a + (n - 16)) (b + (n - 16)) (k + (n - 16)) m = Some r"
      "r = 0 \<longleftrightarrow> mask_eq m a b k (unat n - 16) (unat n)"
      using b16.decides [OF owned3_shift [OF own s]] s unfolding mask_eq_shift u by (auto simp: add.commute)
    have "mask_eq m a b k (unat n - 16) (unat n) \<longleftrightarrow> mask_eq m a b k (unat n - 16) (unat i3) \<and> mask_eq m a b k (unat i3) (unat n)"
      using i3 le by (intro mask_eq_split) simp_all
    moreover have "mask_eq m a b k 0 (unat i3) \<Longrightarrow> mask_eq m a b k (unat n - 16) (unat i3)"
      by (erule mask_eq_mono) simp
    moreover have "sk_memcmp_mask cmp64 cmp32 cmp16 a b k n m = Some (r3 OR r)"
      using 1(1) 2(1) 3(1) tail r(1) [unfolded add_diff_eq] by (simp add: sk_memcmp_mask_def)
    ultimately show ?thesis
      using r3 r(2) all by (auto simp: or_eq_0_iff)
  next
    case short
    then show ?thesis
      using 1(1) 2(1) 3(1) r3 all mask_loop_decides [OF own, of i3 r3] 3(3) by (auto simp: sk_memcmp_mask_def)
  qed
qed

end

lemma sk_memcmp_mask_scalar_decides:
  assumes "owned3 m a b k (unat n)"
  shows "\<exists>r. sk_memcmp_mask_scalar a b k n m = Some r \<and> (r = 0 \<longleftrightarrow> mask_eq m a b k 0 (unat n))"
  using mask_loop_decides [OF assms, of 0 0] by (simp add: sk_memcmp_mask_scalar_def)

text \<open>The scalar block comparisons keep the contract; other platforms use them for the vector ones.\<close>

interpretation scalar: masked_compare_blocks sk_memcmp_mask_64B_scalar sk_memcmp_mask_32B_scalar sk_memcmp_mask_16B_scalar
  using sk_memcmp_mask_scalar_decides [of _ _ _ _ 64] sk_memcmp_mask_scalar_decides [of _ _ _ _ 32]
    sk_memcmp_mask_scalar_decides [of _ _ _ _ 16]
  by unfold_locales (simp_all add: sk_memcmp_mask_64B_scalar_def sk_memcmp_mask_32B_scalar_def sk_memcmp_mask_16B_scalar_def)

interpretation scalar48: masked_compare sk_memcmp_mask_48B_scalar 48
  using sk_memcmp_mask_scalar_decides [of _ _ _ _ 48] by unfold_locales (simp add: sk_memcmp_mask_48B_scalar_def)

interpretation scalar80: masked_compare sk_memcmp_mask_80B_scalar 80
  using sk_memcmp_mask_scalar_decides [of _ _ _ _ 80] by unfold_locales (simp add: sk_memcmp_mask_80B_scalar_def)

text \<open>
  C31: With block comparisons that return zero exactly on blocks that agree under the mask,
  \<open>sk_memcmp_mask\<close> ends without reading outside the three buffers and returns zero exactly if the
  whole buffers agree under the mask, for every length below the top of the address space, the
  lengths that are no multiple of 16 included; the scalar routine decides the same.
\<close>
theorem sk_memcmp_mask_equals_scalar:
  assumes "masked_compare cmp64 64" "masked_compare cmp32 32" "masked_compare cmp16 16"
    and "owned3 m a b k (unat n)" "unat n + 64 < 2 ^ 64"
  shows "\<exists>r s. sk_memcmp_mask cmp64 cmp32 cmp16 a b k n m = Some r \<and> sk_memcmp_mask_scalar a b k n m = Some s \<and>
    (r = 0 \<longleftrightarrow> s = 0) \<and> (s = 0 \<longleftrightarrow> mask_eq m a b k 0 (unat n))"
  using masked_compare_blocks.sk_memcmp_mask_decides [OF masked_compare_blocks.intro [OF assms(1-3)] assms(4,5)]
    sk_memcmp_mask_scalar_decides [OF assms(4)] by auto

theorem sk_memcmp_mask_equals_scalar_witness:
  "let m = (\<lambda>a. if a < 64 then Some (ucast a) else None) :: bytes in
   owned3 m 0 4 8 3 \<and> (\<exists>r. sk_memcmp_mask sk_memcmp_mask_64B_scalar sk_memcmp_mask_32B_scalar sk_memcmp_mask_16B_scalar
     0 4 8 3 m = Some r \<and> (r = 0 \<longleftrightarrow> mask_eq m 0 4 8 0 3))"
proof -
  define m where "m = ((\<lambda>a. if a < 64 then Some (ucast a) else None) :: bytes)"
  have o: "owned3 m 0 4 8 (unat (3 :: u64))"
    using owned_le [of m 0 4 3] owned_le [of m 4 4 3] owned_le [of m 8 4 3]
    by (simp add: owned3_def owned_4) (simp add: m_def)
  have "unat (3 :: u64) + 64 < 2 ^ 64" by simp
  from sk_memcmp_mask_equals_scalar [OF scalar.b64.masked_compare_axioms scalar.b32.masked_compare_axioms
      scalar.b16.masked_compare_axioms o this]
  show ?thesis
    using o unfolding Let_def m_def [symmetric] by auto
qed

subsection \<open>Rounding\<close>

text \<open>
  \<open>SK_ROUNDUP\<close> returns the least multiple of the alignment that is not below its argument, unless
  that multiple does not fit 64 bits; \<open>IS_P2ALIGNED\<close> recognises the multiples of a power of two.
\<close>
theorem sk_roundup_least_multiple:
  assumes "0 < align" "unat x + unat align \<le> 2 ^ 64" "k < 64"
  shows "unat align dvd unat (SK_ROUNDUP x align) \<and> x \<le> SK_ROUNDUP x align \<and>
    (\<forall>y. x \<le> y \<and> unat align dvd unat y \<longrightarrow> SK_ROUNDUP x align \<le> y) \<and>
    (IS_P2ALIGNED x (2 ^ k) \<longleftrightarrow> 2 ^ k dvd unat x)"
proof -
  let ?A = "unat align" and ?X = "unat x"
  have A: "0 < ?A" using assms(1) by (simp add: word_less_nat_alt)
  have z: "x mod align = 0 \<longleftrightarrow> ?A dvd ?X"
    by (simp add: word_unat_eq_iff unat_mod dvd_eq_mod_eq_0)
  have "IS_P2ALIGNED x (2 ^ k) \<longleftrightarrow> 2 ^ k dvd ?X"
    using and_mask_eq_0_iff [of x k] by (simp add: IS_P2ALIGNED_def mask_eq_decr_exp)
  moreover have "?A dvd unat (SK_ROUNDUP x align) \<and> x \<le> SK_ROUNDUP x align \<and>
    (\<forall>y. x \<le> y \<and> ?A dvd unat y \<longrightarrow> SK_ROUNDUP x align \<le> y)"
  proof (cases "x mod align = 0")
    case False
    have lt: "?X mod ?A < ?A" "0 < ?X mod ?A" using A False z by (simp_all add: dvd_eq_mod_eq_0)
    have s: "unat (align - x mod align) = ?A - ?X mod ?A"
      using lt by (simp add: unat_sub_le unat_mod)
    have r: "unat (SK_ROUNDUP x align) = ?X + (?A - ?X mod ?A)"
      using False lt assms(2) unat_add_small [of x "align - x mod align"] by (simp add: SK_ROUNDUP_def s)
    have eq: "?X + (?A - ?X mod ?A) = (?X div ?A + 1) * ?A"
      using lt div_mult_mod_eq [of ?X ?A] unfolding distrib_right by linarith
    have "(?X div ?A + 1) * ?A \<le> unat y" if y: "?X \<le> unat y" "?A dvd unat y" for y :: u64
    proof -
      obtain q where q: "unat y = q * ?A" using y(2) by (metis dvdE mult.commute)
      have "?X div ?A < q"
        using y(1) False z A unfolding q
        by (metis div_le_mono dvd_triv_right le_antisym le_neq_implies_less less_mult_imp_div_less nat_less_le nonzero_mult_div_cancel_right)
      then show ?thesis unfolding q by (intro mult_le_mono1) simp
    qed
    then show ?thesis
      using r eq by (simp add: word_le_nat_alt)
  qed (simp add: SK_ROUNDUP_def z)
  ultimately show ?thesis by simp
qed

theorem sk_roundup_least_multiple_witness:
  "SK_ROUNDUP 13 6 = 18 \<and> (\<forall>y. 13 \<le> y \<and> 6 dvd unat y \<longrightarrow> SK_ROUNDUP 13 6 \<le> y) \<and> IS_P2ALIGNED 24 (2 ^ 3)"
  using sk_roundup_least_multiple [of 6 13 3] sk_roundup_least_multiple [of 6 24 3]
  by (simp add: SK_ROUNDUP_def)

end
