(* ===== verification/ByteOrder.thy ===== *)
theory ByteOrder
  imports ByteMem
begin

text \<open>
  Byte order: libkern/_OSByteOrder.h and libkern/i386/_OSByteOrder.h (byte swaps), libkern/i386/OSByteOrder.h,
  libkern/machine/OSByteOrder.h and libkern/OSByteOrder.h (swapped and native loads and stores, conversions
  between host and big or little endian), and architecture/byte_order.h (the NX functions on C types), for a
  little-endian LP64 host. Macros that test \<open>__builtin_constant_p\<close> take its answer as the argument \<open>k\<close>.
  A \<open>float\<close> and a \<open>double\<close> are their bit patterns.
\<close>

subsection \<open>Byte swaps\<close>

text \<open>The compiler builtins.\<close>

definition builtin_bswap32 :: "u32 \<Rightarrow> u32" where
  "builtin_bswap32 x = le32 (ucast (drop_bit 24 x)) (ucast (drop_bit 16 x)) (ucast (drop_bit 8 x)) (ucast x)"

definition builtin_bswap64 :: "u64 \<Rightarrow> u64" where
  "builtin_bswap64 x = ucast (builtin_bswap32 (ucast (drop_bit 32 x))) OR push_bit 32 (ucast (builtin_bswap32 (ucast x)))"

definition OSSwapConstInt16 :: "u16 \<Rightarrow> u16" where
  "OSSwapConstInt16 x = drop_bit 8 (x AND 0xff00) OR push_bit 8 (x AND 0x00ff)"

definition OSSwapConstInt32 :: "u32 \<Rightarrow> u32" where
  "OSSwapConstInt32 x = drop_bit 24 (x AND 0xff000000) OR drop_bit 8 (x AND 0x00ff0000) OR
     push_bit 8 (x AND 0x0000ff00) OR push_bit 24 (x AND 0x000000ff)"

definition OSSwapConstInt64 :: "u64 \<Rightarrow> u64" where
  "OSSwapConstInt64 x = drop_bit 56 (x AND 0xff00000000000000) OR drop_bit 40 (x AND 0x00ff000000000000) OR
     drop_bit 24 (x AND 0x0000ff0000000000) OR drop_bit 8 (x AND 0x000000ff00000000) OR
     push_bit 8 (x AND 0x00000000ff000000) OR push_bit 24 (x AND 0x0000000000ff0000) OR
     push_bit 40 (x AND 0x000000000000ff00) OR push_bit 56 (x AND 0x00000000000000ff)"

text \<open>The functions of the i386 header; the shifts of a 16-bit value are done on \<open>int\<close> and truncated.\<close>

definition i386_OSSwapInt16 :: "u16 \<Rightarrow> u16" where
  "i386_OSSwapInt16 data = ucast (push_bit 8 (ucast data :: u32) OR drop_bit 8 (ucast data))"

definition i386_OSSwapInt32 :: "u32 \<Rightarrow> u32" where
  "i386_OSSwapInt32 data = builtin_bswap32 data"

definition i386_OSSwapInt64 :: "u64 \<Rightarrow> u64" where
  "i386_OSSwapInt64 data = builtin_bswap64 data"

text \<open>The functions of the machine header, for other architectures.\<close>

definition machine_OSSwapInt16 :: "u16 \<Rightarrow> u16" where
  "machine_OSSwapInt16 data = OSSwapConstInt16 data"

definition machine_OSSwapInt32 :: "u32 \<Rightarrow> u32" where
  "machine_OSSwapInt32 data = OSSwapConstInt32 data"

definition machine_OSSwapInt64 :: "u64 \<Rightarrow> u64" where
  "machine_OSSwapInt64 data = OSSwapConstInt64 data"

definition OSSwapInt16 :: "bool \<Rightarrow> u16 \<Rightarrow> u16" where
  "OSSwapInt16 k x = (if k then OSSwapConstInt16 x else i386_OSSwapInt16 x)"

definition OSSwapInt32 :: "bool \<Rightarrow> u32 \<Rightarrow> u32" where
  "OSSwapInt32 k x = (if k then OSSwapConstInt32 x else i386_OSSwapInt32 x)"

definition OSSwapInt64 :: "bool \<Rightarrow> u64 \<Rightarrow> u64" where
  "OSSwapInt64 k x = (if k then OSSwapConstInt64 x else i386_OSSwapInt64 x)"

subsection \<open>Swapped and native loads and stores\<close>

definition i386_OSReadSwapInt16 :: "ptr \<Rightarrow> u64 \<Rightarrow> bytes \<Rightarrow> u16 option" where
  "i386_OSReadSwapInt16 base byteOffset m = do {
     result \<leftarrow> ld16 m (base + byteOffset);
     Some (i386_OSSwapInt16 result) }"

definition i386_OSReadSwapInt32 :: "ptr \<Rightarrow> u64 \<Rightarrow> bytes \<Rightarrow> u32 option" where
  "i386_OSReadSwapInt32 base byteOffset m = do {
     result \<leftarrow> ld32 m (base + byteOffset);
     Some (i386_OSSwapInt32 result) }"

definition i386_OSReadSwapInt64 :: "ptr \<Rightarrow> u64 \<Rightarrow> bytes \<Rightarrow> u64 option" where
  "i386_OSReadSwapInt64 base byteOffset m = do {
     result \<leftarrow> ld64 m (base + byteOffset);
     Some (i386_OSSwapInt64 result) }"

definition i386_OSWriteSwapInt16 :: "ptr \<Rightarrow> u64 \<Rightarrow> u16 \<Rightarrow> bytes \<Rightarrow> bytes option" where
  "i386_OSWriteSwapInt16 base byteOffset data m = st16 (base + byteOffset) (i386_OSSwapInt16 data) m"

definition i386_OSWriteSwapInt32 :: "ptr \<Rightarrow> u64 \<Rightarrow> u32 \<Rightarrow> bytes \<Rightarrow> bytes option" where
  "i386_OSWriteSwapInt32 base byteOffset data m = st32 (base + byteOffset) (i386_OSSwapInt32 data) m"

definition i386_OSWriteSwapInt64 :: "ptr \<Rightarrow> u64 \<Rightarrow> u64 \<Rightarrow> bytes \<Rightarrow> bytes option" where
  "i386_OSWriteSwapInt64 base byteOffset data m = st64 (base + byteOffset) (i386_OSSwapInt64 data) m"

definition machine_OSReadSwapInt16 :: "ptr \<Rightarrow> u64 \<Rightarrow> bytes \<Rightarrow> u16 option" where
  "machine_OSReadSwapInt16 base byteOffset m = do {
     result \<leftarrow> ld16 m (base + byteOffset);
     Some (machine_OSSwapInt16 result) }"

definition machine_OSReadSwapInt32 :: "ptr \<Rightarrow> u64 \<Rightarrow> bytes \<Rightarrow> u32 option" where
  "machine_OSReadSwapInt32 base byteOffset m = do {
     result \<leftarrow> ld32 m (base + byteOffset);
     Some (machine_OSSwapInt32 result) }"

definition machine_OSReadSwapInt64 :: "ptr \<Rightarrow> u64 \<Rightarrow> bytes \<Rightarrow> u64 option" where
  "machine_OSReadSwapInt64 base byteOffset m = do {
     result \<leftarrow> ld64 m (base + byteOffset);
     Some (machine_OSSwapInt64 result) }"

definition machine_OSWriteSwapInt16 :: "ptr \<Rightarrow> u64 \<Rightarrow> u16 \<Rightarrow> bytes \<Rightarrow> bytes option" where
  "machine_OSWriteSwapInt16 base byteOffset data m = st16 (base + byteOffset) (machine_OSSwapInt16 data) m"

definition machine_OSWriteSwapInt32 :: "ptr \<Rightarrow> u64 \<Rightarrow> u32 \<Rightarrow> bytes \<Rightarrow> bytes option" where
  "machine_OSWriteSwapInt32 base byteOffset data m = st32 (base + byteOffset) (machine_OSSwapInt32 data) m"

definition machine_OSWriteSwapInt64 :: "ptr \<Rightarrow> u64 \<Rightarrow> u64 \<Rightarrow> bytes \<Rightarrow> bytes option" where
  "machine_OSWriteSwapInt64 base byteOffset data m = st64 (base + byteOffset) (machine_OSSwapInt64 data) m"

definition OSReadInt16 :: "ptr \<Rightarrow> u64 \<Rightarrow> bytes \<Rightarrow> u16 option" where
  "OSReadInt16 base byteOffset m = ld16 m (base + byteOffset)"

definition OSWriteInt16 :: "ptr \<Rightarrow> u64 \<Rightarrow> u16 \<Rightarrow> bytes \<Rightarrow> bytes option" where
  "OSWriteInt16 base byteOffset data m = st16 (base + byteOffset) data m"

definition OSReadInt32 :: "ptr \<Rightarrow> u64 \<Rightarrow> bytes \<Rightarrow> u32 option" where
  "OSReadInt32 base byteOffset m = ld32 m (base + byteOffset)"

definition OSWriteInt32 :: "ptr \<Rightarrow> u64 \<Rightarrow> u32 \<Rightarrow> bytes \<Rightarrow> bytes option" where
  "OSWriteInt32 base byteOffset data m = st32 (base + byteOffset) data m"

definition OSReadInt64 :: "ptr \<Rightarrow> u64 \<Rightarrow> bytes \<Rightarrow> u64 option" where
  "OSReadInt64 base byteOffset m = ld64 m (base + byteOffset)"

definition OSWriteInt64 :: "ptr \<Rightarrow> u64 \<Rightarrow> u64 \<Rightarrow> bytes \<Rightarrow> bytes option" where
  "OSWriteInt64 base byteOffset data m = st64 (base + byteOffset) data m"

subsection \<open>Host, big and little endian\<close>

datatype byte_order = OSUnknownByteOrder | OSLittleEndian | OSBigEndian

definition OSHostByteOrder :: byte_order where "OSHostByteOrder = OSLittleEndian"

definition OSReadBigInt16 :: "ptr \<Rightarrow> u64 \<Rightarrow> bytes \<Rightarrow> u16 option" where
  "OSReadBigInt16 base byteOffset m = i386_OSReadSwapInt16 base byteOffset m"

definition OSWriteBigInt16 :: "ptr \<Rightarrow> u64 \<Rightarrow> u16 \<Rightarrow> bytes \<Rightarrow> bytes option" where
  "OSWriteBigInt16 base byteOffset data m = i386_OSWriteSwapInt16 base byteOffset data m"

definition OSReadLittleInt16 :: "ptr \<Rightarrow> u64 \<Rightarrow> bytes \<Rightarrow> u16 option" where
  "OSReadLittleInt16 base byteOffset m = OSReadInt16 base byteOffset m"

definition OSWriteLittleInt16 :: "ptr \<Rightarrow> u64 \<Rightarrow> u16 \<Rightarrow> bytes \<Rightarrow> bytes option" where
  "OSWriteLittleInt16 base byteOffset data m = OSWriteInt16 base byteOffset data m"

definition OSSwapHostToBigConstInt16 :: "u16 \<Rightarrow> u16" where "OSSwapHostToBigConstInt16 x = OSSwapConstInt16 x"
definition OSSwapHostToBigInt16 :: "bool \<Rightarrow> u16 \<Rightarrow> u16" where "OSSwapHostToBigInt16 k x = OSSwapInt16 k x"
definition OSSwapHostToLittleConstInt16 :: "u16 \<Rightarrow> u16" where "OSSwapHostToLittleConstInt16 x = x"
definition OSSwapHostToLittleInt16 :: "u16 \<Rightarrow> u16" where "OSSwapHostToLittleInt16 x = x"
definition OSSwapBigToHostConstInt16 :: "u16 \<Rightarrow> u16" where "OSSwapBigToHostConstInt16 x = OSSwapConstInt16 x"
definition OSSwapBigToHostInt16 :: "bool \<Rightarrow> u16 \<Rightarrow> u16" where "OSSwapBigToHostInt16 k x = OSSwapInt16 k x"
definition OSSwapLittleToHostConstInt16 :: "u16 \<Rightarrow> u16" where "OSSwapLittleToHostConstInt16 x = x"
definition OSSwapLittleToHostInt16 :: "u16 \<Rightarrow> u16" where "OSSwapLittleToHostInt16 x = x"

definition OSReadBigInt32 :: "ptr \<Rightarrow> u64 \<Rightarrow> bytes \<Rightarrow> u32 option" where
  "OSReadBigInt32 base byteOffset m = i386_OSReadSwapInt32 base byteOffset m"

definition OSWriteBigInt32 :: "ptr \<Rightarrow> u64 \<Rightarrow> u32 \<Rightarrow> bytes \<Rightarrow> bytes option" where
  "OSWriteBigInt32 base byteOffset data m = i386_OSWriteSwapInt32 base byteOffset data m"

definition OSReadLittleInt32 :: "ptr \<Rightarrow> u64 \<Rightarrow> bytes \<Rightarrow> u32 option" where
  "OSReadLittleInt32 base byteOffset m = OSReadInt32 base byteOffset m"

definition OSWriteLittleInt32 :: "ptr \<Rightarrow> u64 \<Rightarrow> u32 \<Rightarrow> bytes \<Rightarrow> bytes option" where
  "OSWriteLittleInt32 base byteOffset data m = OSWriteInt32 base byteOffset data m"

definition OSSwapHostToBigConstInt32 :: "u32 \<Rightarrow> u32" where "OSSwapHostToBigConstInt32 x = OSSwapConstInt32 x"
definition OSSwapHostToBigInt32 :: "bool \<Rightarrow> u32 \<Rightarrow> u32" where "OSSwapHostToBigInt32 k x = OSSwapInt32 k x"
definition OSSwapHostToLittleConstInt32 :: "u32 \<Rightarrow> u32" where "OSSwapHostToLittleConstInt32 x = x"
definition OSSwapHostToLittleInt32 :: "u32 \<Rightarrow> u32" where "OSSwapHostToLittleInt32 x = x"
definition OSSwapBigToHostConstInt32 :: "u32 \<Rightarrow> u32" where "OSSwapBigToHostConstInt32 x = OSSwapConstInt32 x"
definition OSSwapBigToHostInt32 :: "bool \<Rightarrow> u32 \<Rightarrow> u32" where "OSSwapBigToHostInt32 k x = OSSwapInt32 k x"
definition OSSwapLittleToHostConstInt32 :: "u32 \<Rightarrow> u32" where "OSSwapLittleToHostConstInt32 x = x"
definition OSSwapLittleToHostInt32 :: "u32 \<Rightarrow> u32" where "OSSwapLittleToHostInt32 x = x"

definition OSReadBigInt64 :: "ptr \<Rightarrow> u64 \<Rightarrow> bytes \<Rightarrow> u64 option" where
  "OSReadBigInt64 base byteOffset m = i386_OSReadSwapInt64 base byteOffset m"

definition OSWriteBigInt64 :: "ptr \<Rightarrow> u64 \<Rightarrow> u64 \<Rightarrow> bytes \<Rightarrow> bytes option" where
  "OSWriteBigInt64 base byteOffset data m = i386_OSWriteSwapInt64 base byteOffset data m"

definition OSReadLittleInt64 :: "ptr \<Rightarrow> u64 \<Rightarrow> bytes \<Rightarrow> u64 option" where
  "OSReadLittleInt64 base byteOffset m = OSReadInt64 base byteOffset m"

definition OSWriteLittleInt64 :: "ptr \<Rightarrow> u64 \<Rightarrow> u64 \<Rightarrow> bytes \<Rightarrow> bytes option" where
  "OSWriteLittleInt64 base byteOffset data m = OSWriteInt64 base byteOffset data m"

definition OSSwapHostToBigConstInt64 :: "u64 \<Rightarrow> u64" where "OSSwapHostToBigConstInt64 x = OSSwapConstInt64 x"
definition OSSwapHostToBigInt64 :: "bool \<Rightarrow> u64 \<Rightarrow> u64" where "OSSwapHostToBigInt64 k x = OSSwapInt64 k x"
definition OSSwapHostToLittleConstInt64 :: "u64 \<Rightarrow> u64" where "OSSwapHostToLittleConstInt64 x = x"
definition OSSwapHostToLittleInt64 :: "u64 \<Rightarrow> u64" where "OSSwapHostToLittleInt64 x = x"
definition OSSwapBigToHostConstInt64 :: "u64 \<Rightarrow> u64" where "OSSwapBigToHostConstInt64 x = OSSwapConstInt64 x"
definition OSSwapBigToHostInt64 :: "bool \<Rightarrow> u64 \<Rightarrow> u64" where "OSSwapBigToHostInt64 k x = OSSwapInt64 k x"
definition OSSwapLittleToHostConstInt64 :: "u64 \<Rightarrow> u64" where "OSSwapLittleToHostConstInt64 x = x"
definition OSSwapLittleToHostInt64 :: "u64 \<Rightarrow> u64" where "OSSwapLittleToHostInt64 x = x"

subsection \<open>The NX functions\<close>

text \<open>
  \<open>unsigned long\<close> has 64 bits; the functions on it convert through 32 bits. The unions that
  reinterpret a \<open>float\<close> as an \<open>NXSwappedFloat\<close>, an \<open>unsigned long\<close>, leave the upper half of it
  unspecified: the argument \<open>u\<close>.
\<close>

definition NXHostByteOrder :: byte_order where "NXHostByteOrder = OSLittleEndian"

definition NXSwapShort :: "bool \<Rightarrow> u16 \<Rightarrow> u16" where "NXSwapShort k x = OSSwapInt16 k x"
definition NXSwapInt :: "bool \<Rightarrow> u32 \<Rightarrow> u32" where "NXSwapInt k x = OSSwapInt32 k x"
definition NXSwapLong :: "bool \<Rightarrow> u64 \<Rightarrow> u64" where "NXSwapLong k x = ucast (OSSwapInt32 k (ucast x))"
definition NXSwapLongLong :: "bool \<Rightarrow> u64 \<Rightarrow> u64" where "NXSwapLongLong k x = OSSwapInt64 k x"

definition NXConvertHostFloatToSwapped :: "u32 \<Rightarrow> u32 \<Rightarrow> u64" where
  "NXConvertHostFloatToSwapped u x = ucast x OR push_bit 32 (ucast u)"

definition NXConvertSwappedFloatToHost :: "u64 \<Rightarrow> u32" where
  "NXConvertSwappedFloatToHost x = ucast x"

definition NXConvertHostDoubleToSwapped :: "u64 \<Rightarrow> u64" where
  "NXConvertHostDoubleToSwapped x = x"

definition NXConvertSwappedDoubleToHost :: "u64 \<Rightarrow> u64" where
  "NXConvertSwappedDoubleToHost x = x"

definition NXSwapFloat :: "bool \<Rightarrow> u64 \<Rightarrow> u64" where "NXSwapFloat k x = ucast (OSSwapInt32 k (ucast x))"
definition NXSwapDouble :: "bool \<Rightarrow> u64 \<Rightarrow> u64" where "NXSwapDouble k x = OSSwapInt64 k x"

definition NXSwapBigShortToHost :: "bool \<Rightarrow> u16 \<Rightarrow> u16" where "NXSwapBigShortToHost k x = OSSwapBigToHostInt16 k x"
definition NXSwapBigIntToHost :: "bool \<Rightarrow> u32 \<Rightarrow> u32" where "NXSwapBigIntToHost k x = OSSwapBigToHostInt32 k x"
definition NXSwapBigLongToHost :: "bool \<Rightarrow> u64 \<Rightarrow> u64" where "NXSwapBigLongToHost k x = ucast (OSSwapBigToHostInt32 k (ucast x))"
definition NXSwapBigLongLongToHost :: "bool \<Rightarrow> u64 \<Rightarrow> u64" where "NXSwapBigLongLongToHost k x = OSSwapBigToHostInt64 k x"

definition NXSwapBigDoubleToHost :: "bool \<Rightarrow> u64 \<Rightarrow> u64" where
  "NXSwapBigDoubleToHost k x = NXConvertSwappedDoubleToHost (OSSwapBigToHostInt64 k x)"

definition NXSwapBigFloatToHost :: "bool \<Rightarrow> u64 \<Rightarrow> u32" where
  "NXSwapBigFloatToHost k x = NXConvertSwappedFloatToHost (ucast (OSSwapBigToHostInt32 k (ucast x)))"

definition NXSwapHostShortToBig :: "bool \<Rightarrow> u16 \<Rightarrow> u16" where "NXSwapHostShortToBig k x = OSSwapHostToBigInt16 k x"
definition NXSwapHostIntToBig :: "bool \<Rightarrow> u32 \<Rightarrow> u32" where "NXSwapHostIntToBig k x = OSSwapHostToBigInt32 k x"
definition NXSwapHostLongToBig :: "bool \<Rightarrow> u64 \<Rightarrow> u64" where "NXSwapHostLongToBig k x = ucast (OSSwapHostToBigInt32 k (ucast x))"
definition NXSwapHostLongLongToBig :: "bool \<Rightarrow> u64 \<Rightarrow> u64" where "NXSwapHostLongLongToBig k x = OSSwapHostToBigInt64 k x"

definition NXSwapHostDoubleToBig :: "bool \<Rightarrow> u64 \<Rightarrow> u64" where
  "NXSwapHostDoubleToBig k x = OSSwapHostToBigInt64 k (NXConvertHostDoubleToSwapped x)"

definition NXSwapHostFloatToBig :: "bool \<Rightarrow> u32 \<Rightarrow> u32 \<Rightarrow> u64" where
  "NXSwapHostFloatToBig k u x = ucast (OSSwapHostToBigInt32 k (ucast (NXConvertHostFloatToSwapped u x)))"

definition NXSwapLittleShortToHost :: "u16 \<Rightarrow> u16" where "NXSwapLittleShortToHost x = OSSwapLittleToHostInt16 x"
definition NXSwapLittleIntToHost :: "u32 \<Rightarrow> u32" where "NXSwapLittleIntToHost x = OSSwapLittleToHostInt32 x"
definition NXSwapLittleLongToHost :: "u64 \<Rightarrow> u64" where "NXSwapLittleLongToHost x = ucast (OSSwapLittleToHostInt32 (ucast x))"
definition NXSwapLittleLongLongToHost :: "u64 \<Rightarrow> u64" where "NXSwapLittleLongLongToHost x = OSSwapLittleToHostInt64 x"

definition NXSwapLittleDoubleToHost :: "u64 \<Rightarrow> u64" where
  "NXSwapLittleDoubleToHost x = NXConvertSwappedDoubleToHost (OSSwapLittleToHostInt64 x)"

definition NXSwapLittleFloatToHost :: "u64 \<Rightarrow> u32" where
  "NXSwapLittleFloatToHost x = NXConvertSwappedFloatToHost (ucast (OSSwapLittleToHostInt32 (ucast x)))"

definition NXSwapHostShortToLittle :: "u16 \<Rightarrow> u16" where "NXSwapHostShortToLittle x = OSSwapHostToLittleInt16 x"
definition NXSwapHostIntToLittle :: "u32 \<Rightarrow> u32" where "NXSwapHostIntToLittle x = OSSwapHostToLittleInt32 x"
definition NXSwapHostLongToLittle :: "u64 \<Rightarrow> u64" where "NXSwapHostLongToLittle x = ucast (OSSwapHostToLittleInt32 (ucast x))"
definition NXSwapHostLongLongToLittle :: "u64 \<Rightarrow> u64" where "NXSwapHostLongLongToLittle x = OSSwapHostToLittleInt64 x"

definition NXSwapHostDoubleToLittle :: "u64 \<Rightarrow> u64" where
  "NXSwapHostDoubleToLittle x = OSSwapHostToLittleInt64 (NXConvertHostDoubleToSwapped x)"

definition NXSwapHostFloatToLittle :: "u32 \<Rightarrow> u32 \<Rightarrow> u64" where
  "NXSwapHostFloatToLittle u x = ucast (OSSwapHostToLittleInt32 (ucast (NXConvertHostFloatToSwapped u x)))"

subsection \<open>Swaps reverse the bytes\<close>

lemma byte_masks:
  "(0xff :: u16) = mask 8" "(0xff00 :: u16) = push_bit 8 (mask 8)"
  "(0xff :: u32) = mask 8" "(0xff00 :: u32) = push_bit 8 (mask 8)" "(0xff0000 :: u32) = push_bit 16 (mask 8)"
  "(0xff000000 :: u32) = push_bit 24 (mask 8)"
  "(0xff :: u64) = mask 8" "(0xff00 :: u64) = push_bit 8 (mask 8)" "(0xff0000 :: u64) = push_bit 16 (mask 8)"
  "(0xff000000 :: u64) = push_bit 24 (mask 8)" "(0xff00000000 :: u64) = push_bit 32 (mask 8)"
  "(0xff0000000000 :: u64) = push_bit 40 (mask 8)" "(0xff000000000000 :: u64) = push_bit 48 (mask 8)"
  "(0xff00000000000000 :: u64) = push_bit 56 (mask 8)"
  by (simp_all add: mask_eq_exp_minus_1)

lemma const_swap16: "OSSwapConstInt16 x = le16 (ucast (drop_bit 8 x)) (ucast x)"
  unfolding OSSwapConstInt16_def byte_masks
  by (rule bit_word_eqI) (auto simp: le16_def bit_simps ac_simps dest: bit_imp_le_length)

lemma i386_swap16: "i386_OSSwapInt16 x = le16 (ucast (drop_bit 8 x)) (ucast x)"
  unfolding i386_OSSwapInt16_def
  by (rule bit_word_eqI) (auto simp: le16_def bit_simps ac_simps dest: bit_imp_le_length)

lemma const_swap32: "OSSwapConstInt32 x = builtin_bswap32 x"
proof (rule bit_word_eqI)
  fix n assume "n < LENGTH(32)"
  then consider "n < 8" | "8 \<le> n" "n < 16" | "16 \<le> n" "n < 24" | "24 \<le> n" "n < 32" by fastforce
  then show "bit (OSSwapConstInt32 x) n = bit (builtin_bswap32 x) n"
    unfolding OSSwapConstInt32_def byte_masks
    by cases (auto simp: builtin_bswap32_def le32_def bit_simps ac_simps)
qed

lemma ucast_le32:
  "ucast (le32 a b c d) = (ucast a OR push_bit 8 (ucast b) OR push_bit 16 (ucast c) OR push_bit 24 (ucast d) :: u64)"
proof -
  have nb: "bit (w :: u8) n \<Longrightarrow> n < 8" for w n using bit_imp_le_length [of w n] by simp
  show ?thesis
    by (rule bit_word_eqI) (auto simp: le32_def bit_simps dest: nb)
qed

lemma swap_term_right:
  "s \<le> p \<Longrightarrow> drop_bit s (x AND push_bit p (mask 8)) = push_bit (p - s) (ucast (ucast (drop_bit p x) :: u8))" for x :: u64
  by (rule bit_word_eqI) (auto simp: bit_simps ac_simps dest: bit_imp_le_length)

lemma swap_term_left:
  "push_bit s (x AND push_bit p (mask 8)) = push_bit (p + s) (ucast (ucast (drop_bit p x) :: u8))" for x :: u64
  by (rule bit_word_eqI) (auto simp: bit_simps ac_simps dest: bit_imp_le_length)

lemma swap_term_lowest: "push_bit s (x AND mask 8) = push_bit s (ucast (ucast x :: u8))" for x :: u64
  by (rule bit_word_eqI) (auto simp: bit_simps ac_simps dest: bit_imp_le_length)

lemma half_bytes:
  "ucast (drop_bit 24 (ucast (drop_bit 32 x) :: u32)) = (ucast (drop_bit 56 x) :: u8)"
  "ucast (drop_bit 16 (ucast (drop_bit 32 x) :: u32)) = (ucast (drop_bit 48 x) :: u8)"
  "ucast (drop_bit 8 (ucast (drop_bit 32 x) :: u32)) = (ucast (drop_bit 40 x) :: u8)"
  "ucast (ucast (drop_bit 32 x) :: u32) = (ucast (drop_bit 32 x) :: u8)"
  "ucast (drop_bit 24 (ucast x :: u32)) = (ucast (drop_bit 24 x) :: u8)"
  "ucast (drop_bit 16 (ucast x :: u32)) = (ucast (drop_bit 16 x) :: u8)"
  "ucast (drop_bit 8 (ucast x :: u32)) = (ucast (drop_bit 8 x) :: u8)"
  "ucast (ucast x :: u32) = (ucast x :: u8)" for x :: u64
  by (rule bit_word_eqI; auto simp: bit_simps)+

lemma swap_terms_right:
  "drop_bit 56 (x AND push_bit 56 (mask 8)) = ucast (ucast (drop_bit 56 x) :: u8)"
  "drop_bit 40 (x AND push_bit 48 (mask 8)) = push_bit 8 (ucast (ucast (drop_bit 48 x) :: u8))"
  "drop_bit 24 (x AND push_bit 40 (mask 8)) = push_bit 16 (ucast (ucast (drop_bit 40 x) :: u8))"
  "drop_bit 8 (x AND push_bit 32 (mask 8)) = push_bit 24 (ucast (ucast (drop_bit 32 x) :: u8))" for x :: u64
  using swap_term_right [of 56 56 x] swap_term_right [of 40 48 x] swap_term_right [of 24 40 x] swap_term_right [of 8 32 x]
  by (simp_all del: drop_bit_and)

lemma const_swap64: "OSSwapConstInt64 x = builtin_bswap64 x"
  unfolding OSSwapConstInt64_def byte_masks builtin_bswap64_def builtin_bswap32_def ucast_le32 half_bytes
    swap_term_left swap_term_lowest swap_terms_right
  by (simp add: push_bit_or ac_simps)

lemma le64_bytes:
  "ucast (ucast l OR push_bit 32 (ucast h) :: u64) = (l :: u32)"
  "ucast (drop_bit 32 (ucast l OR push_bit 32 (ucast h) :: u64)) = (h :: u32)"
proof -
  have nb: "bit (w :: u32) n \<Longrightarrow> n < 32" for w n using bit_imp_le_length [of w n] by simp
  show "ucast (ucast l OR push_bit 32 (ucast h) :: u64) = (l :: u32)"
    "ucast (drop_bit 32 (ucast l OR push_bit 32 (ucast h) :: u64)) = (h :: u32)"
    by (rule bit_word_eqI; auto simp: bit_simps dest: nb)+
qed

lemma le16_bytes: "ucast (le16 a b) = a" "ucast (drop_bit 8 (le16 a b)) = b"
  by (rule bit_word_eqI; auto simp: le16_def bit_simps dest: bit_imp_le_length)+

lemmas all_swaps = OSSwapInt16_def OSSwapInt32_def OSSwapInt64_def machine_OSSwapInt16_def machine_OSSwapInt32_def
  machine_OSSwapInt64_def i386_OSSwapInt32_def i386_OSSwapInt64_def const_swap16 i386_swap16 const_swap32 const_swap64

lemma bytes_swap16: "bytes16 (le16 (ucast (drop_bit 8 x)) (ucast x)) = rev (bytes16 x)"
  by (simp add: bytes16_def le16_bytes)

lemma bytes_swap32: "bytes32 (builtin_bswap32 x) = rev (bytes32 x)"
  by (simp add: bytes32_def builtin_bswap32_def le32_bytes)

lemma bytes_swap64: "bytes64 (builtin_bswap64 x) = rev (bytes64 x)"
  by (simp only: bytes64_def builtin_bswap64_def le64_bytes bytes_swap32 rev_append)

lemma bytes16_inject: "bytes16 x = bytes16 y \<longleftrightarrow> x = y"
proof -
  have "le16 (ucast x) (ucast (drop_bit 8 x)) = x" for x
    by (rule bit_word_eqI) (auto simp: le16_def bit_simps)
  then have "le16 (bytes16 x ! 0) (bytes16 x ! 1) = x" for x by (simp add: bytes16_def)
  then show ?thesis by metis
qed

lemma bytes32_inject: "bytes32 x = bytes32 y \<longleftrightarrow> x = y"
proof -
  have "le32 (bytes32 x ! 0) (bytes32 x ! 1) (bytes32 x ! 2) (bytes32 x ! 3) = x" for x
    by (simp add: bytes32_def le32_of_word)
  then show ?thesis by metis
qed

lemma bytes64_inject: "bytes64 x = bytes64 y \<longleftrightarrow> x = y"
proof -
  have "ucast (ucast x :: u32) OR push_bit 32 (ucast (ucast (drop_bit 32 x) :: u32)) = x" for x :: u64
    by (rule bit_word_eqI) (auto simp: bit_simps)
  then have "(ucast x :: u32) = ucast y \<Longrightarrow> (ucast (drop_bit 32 x) :: u32) = ucast (drop_bit 32 y) \<Longrightarrow> x = y" for x y :: u64
    by metis
  moreover have "length (bytes32 v) = 4" for v by (simp add: bytes32_def)
  ultimately show ?thesis
    unfolding bytes64_def using bytes32_inject by (metis append_eq_append_conv)
qed

lemmas bytes_inject = bytes16_inject bytes32_inject bytes64_inject

text \<open>
  Every byte swap, of a constant or of a variable, on i386 or in the generic version, reverses the
  bytes of its 16, 32 or 64-bit argument in memory; swapping twice gives the argument back.
\<close>
theorem swaps_reverse_bytes:
  "bytes16 (OSSwapInt16 k x) = rev (bytes16 x) \<and> bytes32 (OSSwapInt32 k y) = rev (bytes32 y) \<and>
   bytes64 (OSSwapInt64 k z) = rev (bytes64 z) \<and>
   machine_OSSwapInt16 x = OSSwapInt16 k x \<and> machine_OSSwapInt32 y = OSSwapInt32 k y \<and> machine_OSSwapInt64 z = OSSwapInt64 k z \<and>
   OSSwapInt16 k' (OSSwapInt16 k x) = x \<and> OSSwapInt32 k' (OSSwapInt32 k y) = y \<and> OSSwapInt64 k' (OSSwapInt64 k z) = z"
proof -
  have r: "bytes16 (OSSwapInt16 k x) = rev (bytes16 x)" "bytes32 (OSSwapInt32 k y) = rev (bytes32 y)"
     "bytes64 (OSSwapInt64 k z) = rev (bytes64 z)" for k x y z
    by (simp_all add: all_swaps bytes_swap16 bytes_swap32 bytes_swap64)
  have "OSSwapInt16 k' (OSSwapInt16 k x) = x" "OSSwapInt32 k' (OSSwapInt32 k y) = y" "OSSwapInt64 k' (OSSwapInt64 k z) = z"
    unfolding bytes_inject [symmetric] r by simp_all
  moreover have "machine_OSSwapInt16 x = OSSwapInt16 k x" "machine_OSSwapInt32 y = OSSwapInt32 k y" "machine_OSSwapInt64 z = OSSwapInt64 k z"
    by (simp_all add: all_swaps)
  ultimately show ?thesis using r by simp
qed

subsection \<open>Loads and stores round trip\<close>

lemma i386_swap_bytes:
  "bytes16 (i386_OSSwapInt16 x) = rev (bytes16 x)" "bytes32 (i386_OSSwapInt32 y) = rev (bytes32 y)"
  "bytes64 (i386_OSSwapInt64 z) = rev (bytes64 z)"
  by (simp_all add: all_swaps bytes_swap16 bytes_swap32 bytes_swap64)

lemma i386_swap_swap:
  "i386_OSSwapInt16 (i386_OSSwapInt16 x) = x" "i386_OSSwapInt32 (i386_OSSwapInt32 y) = y"
  "i386_OSSwapInt64 (i386_OSSwapInt64 z) = z"
  unfolding bytes_inject [symmetric] i386_swap_bytes by simp_all

lemma machine_i386: "machine_OSSwapInt16 = i386_OSSwapInt16" "machine_OSSwapInt32 = i386_OSSwapInt32" "machine_OSSwapInt64 = i386_OSSwapInt64"
  by (simp_all add: fun_eq_iff all_swaps)

lemmas big_defs = OSWriteBigInt16_def OSWriteBigInt32_def OSWriteBigInt64_def OSReadBigInt16_def OSReadBigInt32_def OSReadBigInt64_def
  i386_OSWriteSwapInt16_def i386_OSWriteSwapInt32_def i386_OSWriteSwapInt64_def
  i386_OSReadSwapInt16_def i386_OSReadSwapInt32_def i386_OSReadSwapInt64_def

lemmas little_defs = OSWriteLittleInt16_def OSWriteLittleInt32_def OSWriteLittleInt64_def
  OSReadLittleInt16_def OSReadLittleInt32_def OSReadLittleInt64_def
  OSWriteInt16_def OSWriteInt32_def OSWriteInt64_def OSReadInt16_def OSReadInt32_def OSReadInt64_def

text \<open>
  C37: A big-endian store writes the bytes of its value most significant byte first and nothing else, and
  a big-endian load reads the value back; the little-endian ones do so least significant byte
  first. This holds for 16, 32 and 64 bits at every allocated address, aligned or not.
\<close>
theorem endian_stores_and_loads:
  assumes "owned m (base + i) 8"
  shows "(let m' = put (base + i) (rev (bytes16 x)) m in OSWriteBigInt16 base i x m = Some m' \<and> OSReadBigInt16 base i m' = Some x) \<and>
    (let m' = put (base + i) (rev (bytes32 y)) m in OSWriteBigInt32 base i y m = Some m' \<and> OSReadBigInt32 base i m' = Some y) \<and>
    (let m' = put (base + i) (rev (bytes64 z)) m in OSWriteBigInt64 base i z m = Some m' \<and> OSReadBigInt64 base i m' = Some z) \<and>
    (let m' = put (base + i) (bytes16 x) m in OSWriteLittleInt16 base i x m = Some m' \<and> OSReadLittleInt16 base i m' = Some x) \<and>
    (let m' = put (base + i) (bytes32 y) m in OSWriteLittleInt32 base i y m = Some m' \<and> OSReadLittleInt32 base i m' = Some y) \<and>
    (let m' = put (base + i) (bytes64 z) m in OSWriteLittleInt64 base i z m = Some m' \<and> OSReadLittleInt64 base i m' = Some z)"
proof -
  have o: "owned m (base + i) 2" "owned m (base + i) 4"
    using owned_le [OF assms, of 2] owned_le [OF assms, of 4] by simp_all
  note st = st16_put [OF o(1)] st32_put [OF o(2)] st64_put [OF assms]
  have "ld16 (put p (rev (bytes16 x)) m) p = Some (i386_OSSwapInt16 x)" "ld32 (put p (rev (bytes32 y)) m) p = Some (i386_OSSwapInt32 y)"
    "ld64 (put p (rev (bytes64 z)) m) p = Some (i386_OSSwapInt64 z)" for p
    unfolding i386_swap_bytes [symmetric] by (rule ld16_put ld32_put ld64_put)+
  then show ?thesis
    by (simp add: big_defs little_defs st i386_swap_bytes i386_swap_swap ld16_put ld32_put ld64_put)
qed

theorem endian_stores_and_loads_witness:
  "let m = (\<lambda>a. if a < 16 then Some 0 else None); m' = put 1 (rev (bytes32 0x01020304)) m in
   OSWriteBigInt32 0 1 0x01020304 m = Some m' \<and> OSReadBigInt32 0 1 m' = Some 0x01020304 \<and> m' 1 = Some 1"
proof -
  define m where "m = ((\<lambda>a. if a < 16 then Some 0 else None) :: bytes)"
  have "owned m (0 + 1) 8" by (simp add: owned_8 owned_4) (simp add: m_def)
  from endian_stores_and_loads [OF this, of 0 "0x01020304" 0] show ?thesis
    unfolding m_def [symmetric] by (simp add: Let_def put_def bytes32_def)
qed

text \<open>
  The generic byte-reversed loads and stores behave as those of i386.
\<close>
theorem machine_agrees_with_i386:
  "machine_OSReadSwapInt16 b i m = i386_OSReadSwapInt16 b i m \<and> machine_OSReadSwapInt32 b i m = i386_OSReadSwapInt32 b i m \<and>
   machine_OSReadSwapInt64 b i m = i386_OSReadSwapInt64 b i m \<and> machine_OSWriteSwapInt16 b i x m = i386_OSWriteSwapInt16 b i x m \<and>
   machine_OSWriteSwapInt32 b i y m = i386_OSWriteSwapInt32 b i y m \<and> machine_OSWriteSwapInt64 b i z m = i386_OSWriteSwapInt64 b i z m"
  by (simp add: machine_OSReadSwapInt16_def machine_OSReadSwapInt32_def machine_OSReadSwapInt64_def machine_OSWriteSwapInt16_def
      machine_OSWriteSwapInt32_def machine_OSWriteSwapInt64_def i386_OSReadSwapInt16_def i386_OSReadSwapInt32_def
      i386_OSReadSwapInt64_def i386_OSWriteSwapInt16_def i386_OSWriteSwapInt32_def i386_OSWriteSwapInt64_def machine_i386)

subsection \<open>The NX functions round trip\<close>

lemma OSSwap_swap:
  "OSSwapInt16 k' (OSSwapInt16 k x) = x" "OSSwapInt32 k' (OSSwapInt32 k y) = y" "OSSwapInt64 k' (OSSwapInt64 k z) = z"
proof -
  have "OSSwapInt16 k = i386_OSSwapInt16" "OSSwapInt32 k = i386_OSSwapInt32" "OSSwapInt64 k = i386_OSSwapInt64" for k
    by (simp_all add: fun_eq_iff all_swaps)
  then show "OSSwapInt16 k' (OSSwapInt16 k x) = x" "OSSwapInt32 k' (OSSwapInt32 k y) = y" "OSSwapInt64 k' (OSSwapInt64 k z) = z"
    by (simp_all add: i386_swap_swap)
qed

lemmas nx_defs =
  NXSwapBigShortToHost_def NXSwapBigIntToHost_def NXSwapBigLongToHost_def NXSwapBigLongLongToHost_def
  NXSwapBigDoubleToHost_def NXSwapBigFloatToHost_def
  NXSwapHostShortToBig_def NXSwapHostIntToBig_def NXSwapHostLongToBig_def NXSwapHostLongLongToBig_def
  NXSwapHostDoubleToBig_def NXSwapHostFloatToBig_def
  NXSwapLittleShortToHost_def NXSwapLittleIntToHost_def NXSwapLittleLongToHost_def NXSwapLittleLongLongToHost_def
  NXSwapLittleDoubleToHost_def NXSwapLittleFloatToHost_def
  NXSwapHostShortToLittle_def NXSwapHostIntToLittle_def NXSwapHostLongToLittle_def NXSwapHostLongLongToLittle_def
  NXSwapHostDoubleToLittle_def NXSwapHostFloatToLittle_def
  NXConvertHostFloatToSwapped_def NXConvertSwappedFloatToHost_def NXConvertHostDoubleToSwapped_def NXConvertSwappedDoubleToHost_def
  NXSwapShort_def NXSwapInt_def NXSwapLong_def NXSwapLongLong_def NXSwapFloat_def NXSwapDouble_def
  OSSwapHostToBigInt16_def OSSwapHostToBigInt32_def OSSwapHostToBigInt64_def
  OSSwapBigToHostInt16_def OSSwapBigToHostInt32_def OSSwapBigToHostInt64_def
  OSSwapHostToLittleInt16_def OSSwapHostToLittleInt32_def OSSwapHostToLittleInt64_def
  OSSwapLittleToHostInt16_def OSSwapLittleToHostInt32_def OSSwapLittleToHostInt64_def

lemma ucast_up_down: "ucast (ucast (x :: u32) :: u64) = x"
  by (rule bit_word_eqI) (auto simp: bit_simps)

text \<open>
  Conversion to big or little endian and back returns every short, int and long long, every float
  whatever the unspecified half of its union holds, and every double. The functions on
  \<open>unsigned long\<close> keep only its low 32 bits: on an LP64 host the high half is lost.
\<close>
theorem nx_conversions_round_trip:
  "NXSwapBigShortToHost k' (NXSwapHostShortToBig k s) = s \<and> NXSwapBigIntToHost k' (NXSwapHostIntToBig k i) = i \<and>
   NXSwapBigLongLongToHost k' (NXSwapHostLongLongToBig k q) = q \<and>
   NXSwapBigFloatToHost k' (NXSwapHostFloatToBig k u f) = f \<and> NXSwapBigDoubleToHost k' (NXSwapHostDoubleToBig k d) = d \<and>
   NXSwapLittleShortToHost (NXSwapHostShortToLittle s) = s \<and> NXSwapLittleIntToHost (NXSwapHostIntToLittle i) = i \<and>
   NXSwapLittleLongLongToHost (NXSwapHostLongLongToLittle q) = q \<and>
   NXSwapLittleFloatToHost (NXSwapHostFloatToLittle u f) = f \<and> NXSwapLittleDoubleToHost (NXSwapHostDoubleToLittle d) = d \<and>
   NXSwapBigLongToHost k' (NXSwapHostLongToBig k l) = l AND mask 32 \<and>
   NXSwapLittleLongToHost (NXSwapHostLongToLittle l) = l AND mask 32 \<and> NXSwapLong k' (NXSwapLong k l) = l AND mask 32"
proof -
  have "ucast (ucast f OR push_bit 32 (ucast u) :: u64) = f" for f u :: u32
    by (rule le64_bytes)
  moreover have "ucast (ucast l :: u32) = l AND mask 32" for l :: u64
    by (rule bit_word_eqI) (auto simp: bit_simps)
  ultimately show ?thesis
    by (simp only: nx_defs OSSwap_swap ucast_up_down) simp
qed

end
