(* ===== verification/PacketMem.thy ===== *)
theory PacketMem
  imports SkyCommon
begin

text \<open>
  The metadata objects of Skywalk packets: skywalk/packet/os_packet_private.h, packet_var.h and what
  they use of pbufpool_var.h and skmem_cache_var.h, in the kernel, on LP64, as built for development
  (a failed \<open>VERIFY\<close> or \<open>ASSERT\<close> panics). The state \<open>sk_mem\<close> has one map per kind of object, keyed by
  address. A packet starts with its quantum, so both are looked up at the same address, and the
  buflet inside a quantum is the buflet at \<open>qum_buf_off\<close> bytes from it; the options of a user packet
  are likewise those at \<open>upkt_com_opt_off\<close> bytes from it. The flow identifier of a quantum and the
  token of the options are unions that the code accesses as bytes, as 32-bit and as 64-bit values:
  they are bytes of \<open>sk_bytes\<close>, at the start of the quantum and at \<open>po_token_off\<close> bytes from the
  options. Flow classifier data is only cleared and is kept as bytes too. Members that no operation of
  these headers reads or writes are left out of the records. \<open>None\<close> is a panic or an access to an object
  that does not exist.
\<close>

definition ENOENT :: int where "ENOENT = 2"
definition EINVAL :: int where "EINVAL = 22"
definition ERANGE :: int where "ERANGE = 34"

definition VERIFY :: "bool \<Rightarrow> unit option" where
  "VERIFY b = (if b then Some () else None)"

definition ASSERT :: "bool \<Rightarrow> unit option" where
  "ASSERT b = VERIFY b"

lemma VERIFY_simps [simp]: "VERIFY True = Some ()" "VERIFY False = None"
  and ASSERT_simps [simp]: "ASSERT True = Some ()" "ASSERT False = None"
  by (simp_all add: VERIFY_def ASSERT_def)

lemma ASSERT_eq_Some [simp]: "ASSERT b = Some u \<longleftrightarrow> b" "VERIFY b = Some u \<longleftrightarrow> b"
  by (simp_all add: ASSERT_def VERIFY_def)

subsection \<open>Buflets\<close>

definition OBJ_IDX_NONE :: u32 where "OBJ_IDX_NONE = -1"

record buflet =
  buf_nbft_addr :: ptr
  buf_addr :: ptr
  buf_bft_idx_reg :: u32
  buf_idx :: u32
  buf_nbft_idx :: u32
  buf_dlim :: u16
  buf_dlen :: u16
  buf_doff :: u16
  buf_flag :: u16

type_synonym user_buflet = buflet

record kern_buflet = buflet +
  buf_ctl :: ptr

text \<open>What \<open>struct __kern_buflet_ext\<close> has after its \<open>kbe_overlay\<close>.\<close>

record kern_buflet_ext =
  kbe_buf_user :: ptr
  kbe_buf_upp_link :: ptr
  kbe_buf_pid :: u32

definition BUFLET_FLAG_EXTERNAL :: u16 where "BUFLET_FLAG_EXTERNAL = 1"

record skmem_bufctl =
  bc_addr :: ptr
  bc_slab :: ptr
  bc_lim :: u32
  bc_flags :: u32
  bc_idx :: u32
  bc_usecnt :: u32

definition SKMEM_BUFCTL_SHAREOK :: u32 where "SKMEM_BUFCTL_SHAREOK = 1"

subsection \<open>Quanta and packets\<close>

text \<open>\<open>struct __quantum\<close> less its flow identifier, then its two extensions.\<close>

record quantum =
  qum_len :: u32
  qum_svc_class :: u32
  qum_qflags :: u16

record kern_quantum = quantum +
  qum_pp :: ptr
  qum_user :: ptr
  qum_ksd :: ptr
  qum_pid :: u32

record user_quantum = quantum +
  qum_usecnt :: u16

definition QUM_F_FINALIZED :: u16 where "QUM_F_FINALIZED = 0x0001"
definition QUM_F_DROPPED :: u16 where "QUM_F_DROPPED = 0x0002"
definition QUM_F_FLOW_CLASSIFIED :: u16 where "QUM_F_FLOW_CLASSIFIED = 0x0010"
definition QUM_F_INTERNALIZED :: u16 where "QUM_F_INTERNALIZED = 0x1000"
definition QUM_F_KERNEL_ONLY :: u16 where "QUM_F_KERNEL_ONLY = 0x8000"
definition QUM_F_SAVE_MASK :: u16 where "QUM_F_SAVE_MASK = QUM_F_KERNEL_ONLY"
definition QUM_F_KERNEL_FLAGS :: u16 where "QUM_F_KERNEL_FLAGS = QUM_F_INTERNALIZED OR QUM_F_KERNEL_ONLY"

lemmas qum_flags = QUM_F_FINALIZED_def QUM_F_DROPPED_def QUM_F_FLOW_CLASSIFIED_def QUM_F_INTERNALIZED_def
  QUM_F_KERNEL_ONLY_def QUM_F_SAVE_MASK_def QUM_F_KERNEL_FLAGS_def

text \<open>
  \<open>struct __packet_com\<close>. The transmit and the receive checksum are the two views of one union with the
  same layout: a start offset, and an offset or value.
\<close>

record packet_com =
  pkt_link_flags :: u16
  pkt_headroom :: u8
  pkt_l2_len :: u8
  pkt_csum_flags :: u32
  pkt_csum_start_off :: u16
  pkt_csum_value :: u16
  pkt_comp_gencnt :: u32
  pkt_trace_id :: u32
  pkt_aggr_type :: u8
  pkt_seg_cnt :: u8
  pkt_pflags :: u64

record kern_packet = packet_com +
  pkt_com_opt :: ptr
  pkt_timestamp :: u64
  pkt_nextpkt :: ptr
  pkt_mbuf :: ptr
  pkt_flow :: ptr
  pkt_tx_compl :: ptr
  pkt_bufs_max :: u16
  pkt_bufs_cnt :: u16
  pkt_chain_count :: u32
  pkt_chain_bytes :: u32

record user_packet = packet_com +
  upkt_bufs_max :: u16
  upkt_bufs_cnt :: u16

record packet_opt =
  po_token_type :: u32
  po_token_len :: u16
  po_vlan_tag :: u16
  po_expire_ts :: u64

definition PKT_OPT_TOKEN_TYPE_OPAQUE :: u8 where "PKT_OPT_TOKEN_TYPE_OPAQUE = 1"
definition PKT_OPT_TOKEN_TYPE_PACKET_ID :: u8 where "PKT_OPT_TOKEN_TYPE_PACKET_ID = 2"
definition PKT_OPT_MAX_TOKEN_SIZE :: u16 where "PKT_OPT_MAX_TOKEN_SIZE = 16"

record packet_compl =
  compl_cb_arg :: u64
  compl_cb_data :: u64
  compl_tx_status :: u32
  compl_pad :: u32
  compl_callbacks :: u32
  compl_context :: u32

record metadata_preamble =
  mdp_idx :: u32
  mdp_type :: u16
  mdp_subtype :: u16

record kern_pbufpool =
  pp_flags :: u32
  pp_buflet_size :: u16
  pp_md_type :: u32
  pp_md_subtype :: u32

definition PPF_KERNEL :: u32 where "PPF_KERNEL = 0x10"
definition PPF_BUFFER_ON_DEMAND :: u32 where "PPF_BUFFER_ON_DEMAND = 0x20"

definition PP_KERNEL_ONLY :: "kern_pbufpool \<Rightarrow> bool" where
  "PP_KERNEL_ONLY pp \<longleftrightarrow> pp_flags pp AND PPF_KERNEL \<noteq> 0"

definition PP_HAS_BUFFER_ON_DEMAND :: "kern_pbufpool \<Rightarrow> bool" where
  "PP_HAS_BUFFER_ON_DEMAND pp \<longleftrightarrow> pp_flags pp AND PPF_BUFFER_ON_DEMAND \<noteq> 0"

subsection \<open>Packet flags\<close>

definition PKT_LINKF_BCAST :: u16 where "PKT_LINKF_BCAST = 0x0001"
definition PKT_LINKF_MCAST :: u16 where "PKT_LINKF_MCAST = 0x0002"
definition PKT_LINKF_ETHFCS :: u16 where "PKT_LINKF_ETHFCS = 0x0004"

definition PKT_F_FLOW_ID :: u64 where "PKT_F_FLOW_ID = 0x0000000000000001"
definition PKT_F_FLOW_ADV :: u64 where "PKT_F_FLOW_ADV = 0x0000000000000002"
definition PKT_F_WAKE_PKT :: u64 where "PKT_F_WAKE_PKT = 0x0000000000000400"
definition PKT_F_BACKGROUND :: u64 where "PKT_F_BACKGROUND = 0x0000000000008000"
definition PKT_F_KEEPALIVE :: u64 where "PKT_F_KEEPALIVE = 0x0000000000040000"
definition PKT_F_REALTIME :: u64 where "PKT_F_REALTIME = 0x0000000000080000"
definition PKT_F_REXMT :: u64 where "PKT_F_REXMT = 0x0000000000200000"
definition PKT_F_TX_COMPL_TS_REQ :: u64 where "PKT_F_TX_COMPL_TS_REQ = 0x0000000000800000"
definition PKT_F_TS_VALID :: u64 where "PKT_F_TS_VALID = 0x0000000001000000"
definition PKT_F_NEW_FLOW :: u64 where "PKT_F_NEW_FLOW = 0x0000000004000000"
definition PKT_F_START_SEQ :: u64 where "PKT_F_START_SEQ = 0x0000000008000000"
definition PKT_F_LAST_PKT :: u64 where "PKT_F_LAST_PKT = 0x0000000010000000"
definition PKT_F_OPT_GROUP_START :: u64 where "PKT_F_OPT_GROUP_START = 0x0000000100000000"
definition PKT_F_OPT_GROUP_END :: u64 where "PKT_F_OPT_GROUP_END = 0x0000000200000000"
definition PKT_F_OPT_EXPIRE_TS :: u64 where "PKT_F_OPT_EXPIRE_TS = 0x0000000400000000"
definition PKT_F_OPT_TOKEN :: u64 where "PKT_F_OPT_TOKEN = 0x0000000800000000"
definition PKT_F_FLOW_DATA :: u64 where "PKT_F_FLOW_DATA = 0x0000001000000000"
definition PKT_F_TX_COMPL_DATA :: u64 where "PKT_F_TX_COMPL_DATA = 0x0000002000000000"
definition PKT_F_MBUF_DATA :: u64 where "PKT_F_MBUF_DATA = 0x0000004000000000"
definition PKT_F_TRUNCATED :: u64 where "PKT_F_TRUNCATED = 0x0000008000000000"
definition PKT_F_PKT_DATA :: u64 where "PKT_F_PKT_DATA = 0x0000010000000000"
definition PKT_F_PROMISC :: u64 where "PKT_F_PROMISC = 0x0000020000000000"
definition PKT_F_OPT_VLTAG :: u64 where "PKT_F_OPT_VLTAG = 0x0000040000000000"
definition PKT_F_OPT_VLTAG_IN_PKT :: u64 where "PKT_F_OPT_VLTAG_IN_PKT = 0x0000080000000000"
definition PKT_F_OPT_ALLOC :: u64 where "PKT_F_OPT_ALLOC = 0x0100000000000000"
definition PKT_F_FLOW_ALLOC :: u64 where "PKT_F_FLOW_ALLOC = 0x0200000000000000"
definition PKT_F_TX_COMPL_ALLOC :: u64 where "PKT_F_TX_COMPL_ALLOC = 0x0400000000000000"

definition PKT_F_OPT_DATA :: u64 where
  "PKT_F_OPT_DATA = PKT_F_OPT_GROUP_START OR PKT_F_OPT_GROUP_END OR PKT_F_OPT_EXPIRE_TS OR PKT_F_OPT_TOKEN OR
     PKT_F_OPT_VLTAG OR PKT_F_OPT_VLTAG_IN_PKT"

definition PKT_F_USER_MASK :: u64 where
  "PKT_F_USER_MASK = PKT_F_BACKGROUND OR PKT_F_REALTIME OR PKT_F_REXMT OR PKT_F_LAST_PKT OR PKT_F_OPT_DATA OR
     PKT_F_PROMISC OR PKT_F_TRUNCATED OR PKT_F_WAKE_PKT"

definition PKT_F_MBUF_MASK :: u64 where "PKT_F_MBUF_MASK = PKT_F_MBUF_DATA OR PKT_F_TRUNCATED"
definition PKT_F_PKT_MASK :: u64 where "PKT_F_PKT_MASK = PKT_F_PKT_DATA OR PKT_F_TRUNCATED"
definition PKT_F_COPY_MASK :: u64 where "PKT_F_COPY_MASK = NOT (PKT_F_MBUF_MASK OR PKT_F_PKT_MASK)"

definition PKT_F_COMMON_MASK :: u64 where
  "PKT_F_COMMON_MASK = PKT_F_BACKGROUND OR PKT_F_REALTIME OR PKT_F_REXMT OR PKT_F_LAST_PKT OR PKT_F_FLOW_ID OR
     PKT_F_FLOW_ADV OR PKT_F_TX_COMPL_TS_REQ OR PKT_F_TS_VALID OR PKT_F_NEW_FLOW OR PKT_F_START_SEQ OR
     PKT_F_KEEPALIVE OR PKT_F_WAKE_PKT"

definition PKT_F_INIT_MASK :: u64 where
  "PKT_F_INIT_MASK = PKT_F_OPT_ALLOC OR PKT_F_FLOW_ALLOC OR PKT_F_TX_COMPL_ALLOC"

lemmas pkt_flags = PKT_F_FLOW_ID_def PKT_F_FLOW_ADV_def PKT_F_WAKE_PKT_def PKT_F_BACKGROUND_def
  PKT_F_KEEPALIVE_def PKT_F_REALTIME_def PKT_F_REXMT_def PKT_F_TX_COMPL_TS_REQ_def PKT_F_TS_VALID_def
  PKT_F_NEW_FLOW_def PKT_F_START_SEQ_def PKT_F_LAST_PKT_def PKT_F_OPT_GROUP_START_def
  PKT_F_OPT_GROUP_END_def PKT_F_OPT_EXPIRE_TS_def PKT_F_OPT_TOKEN_def PKT_F_FLOW_DATA_def
  PKT_F_TX_COMPL_DATA_def PKT_F_MBUF_DATA_def PKT_F_TRUNCATED_def PKT_F_PKT_DATA_def PKT_F_PROMISC_def
  PKT_F_OPT_VLTAG_def PKT_F_OPT_VLTAG_IN_PKT_def PKT_F_OPT_ALLOC_def PKT_F_FLOW_ALLOC_def
  PKT_F_TX_COMPL_ALLOC_def

lemmas pkt_masks = PKT_F_OPT_DATA_def PKT_F_USER_MASK_def PKT_F_MBUF_MASK_def PKT_F_PKT_MASK_def
  PKT_F_COPY_MASK_def PKT_F_COMMON_MASK_def PKT_F_INIT_MASK_def

subsection \<open>Tagged pointers\<close>

definition SK_PTR_TYPE_MASK :: u64 where "SK_PTR_TYPE_MASK = 0x3"
definition SK_PTR_SUBTYPE_MASK :: u64 where "SK_PTR_SUBTYPE_MASK = 0xc"
definition SK_PTR_TAG_MASK :: u64 where "SK_PTR_TAG_MASK = 0xf"
definition SK_PTR_TAG :: "u64 \<Rightarrow> u64" where "SK_PTR_TAG p = p AND SK_PTR_TAG_MASK"
definition SK_PTR_ADDR_MASK :: u64 where "SK_PTR_ADDR_MASK = NOT SK_PTR_TAG_MASK"
definition SK_PTR_TYPE :: "u64 \<Rightarrow> u64" where "SK_PTR_TYPE p = p AND SK_PTR_TYPE_MASK"
definition SK_PTR_TYPE_ENC :: "u64 \<Rightarrow> u64" where "SK_PTR_TYPE_ENC t = t AND SK_PTR_TYPE_MASK"
definition SK_PTR_SUBTYPE :: "u64 \<Rightarrow> u64" where "SK_PTR_SUBTYPE p = drop_bit 2 (p AND SK_PTR_SUBTYPE_MASK)"
definition SK_PTR_SUBTYPE_ENC :: "u64 \<Rightarrow> u64" where "SK_PTR_SUBTYPE_ENC s = push_bit 2 s AND SK_PTR_SUBTYPE_MASK"
definition SK_PTR_ADDR :: "u64 \<Rightarrow> u64" where "SK_PTR_ADDR p = p AND SK_PTR_ADDR_MASK"
definition SK_PTR_ADDR_ENC :: "u64 \<Rightarrow> u64" where "SK_PTR_ADDR_ENC p = p AND SK_PTR_ADDR_MASK"

definition SK_PTR_ENCODE :: "u64 \<Rightarrow> u64 \<Rightarrow> u64 \<Rightarrow> u64" where
  "SK_PTR_ENCODE p t s = SK_PTR_ADDR_ENC p OR SK_PTR_TYPE_ENC t OR SK_PTR_SUBTYPE_ENC s"

definition SK_PTR_ADDR_KQUM :: "u64 \<Rightarrow> ptr" where "SK_PTR_ADDR_KQUM ph = SK_PTR_ADDR ph"
definition SK_PTR_ADDR_KPKT :: "u64 \<Rightarrow> ptr" where "SK_PTR_ADDR_KPKT ph = SK_PTR_ADDR ph"

definition NEXUS_META_TYPE_QUANTUM :: u64 where "NEXUS_META_TYPE_QUANTUM = 1"
definition NEXUS_META_TYPE_PACKET :: u64 where "NEXUS_META_TYPE_PACKET = 2"
definition NEXUS_META_SUBTYPE_PAYLOAD :: u64 where "NEXUS_META_SUBTYPE_PAYLOAD = 1"
definition NEXUS_META_SUBTYPE_RAW :: u64 where "NEXUS_META_SUBTYPE_RAW = 2"

lemmas sk_ptr_defs = SK_PTR_TYPE_MASK_def SK_PTR_SUBTYPE_MASK_def SK_PTR_TAG_MASK_def SK_PTR_TAG_def
  SK_PTR_ADDR_MASK_def SK_PTR_TYPE_def SK_PTR_TYPE_ENC_def SK_PTR_SUBTYPE_def SK_PTR_SUBTYPE_ENC_def
  SK_PTR_ADDR_def SK_PTR_ADDR_ENC_def SK_PTR_ENCODE_def SK_PTR_ADDR_KQUM_def SK_PTR_ADDR_KPKT_def

subsection \<open>The objects\<close>

record sk_mem =
  sk_qums :: "ptr \<rightharpoonup> kern_quantum"
  sk_pkts :: "ptr \<rightharpoonup> kern_packet"
  sk_bufs :: "ptr \<rightharpoonup> kern_buflet"
  sk_exts :: "ptr \<rightharpoonup> kern_buflet_ext"
  sk_ctls :: "ptr \<rightharpoonup> skmem_bufctl"
  sk_opts :: "ptr \<rightharpoonup> packet_opt"
  sk_compls :: "ptr \<rightharpoonup> packet_compl"
  sk_mds :: "ptr \<rightharpoonup> metadata_preamble"
  sk_pools :: "ptr \<rightharpoonup> kern_pbufpool"
  sk_uqums :: "ptr \<rightharpoonup> user_quantum"
  sk_upkts :: "ptr \<rightharpoonup> user_packet"
  sk_ubufs :: "ptr \<rightharpoonup> user_buflet"
  sk_bytes :: bytes

definition METADATA_PREAMBLE_SZ :: ptr where "METADATA_PREAMBLE_SZ = 16"

definition METADATA_PREAMBLE :: "ptr \<Rightarrow> ptr" where
  "METADATA_PREAMBLE md = md - METADATA_PREAMBLE_SZ"

text \<open>Offsets in the structures on LP64: the buflet of a kernel quantum, the token of the options,
  the options of a user packet.\<close>

definition qum_buf_off :: ptr where "qum_buf_off = 64"
definition po_token_off :: ptr where "po_token_off = 8"
definition upkt_com_opt_off :: ptr where "upkt_com_opt_off = 104"

text \<open>Assignments through a pointer to an object.\<close>

definition upd_qum :: "ptr \<Rightarrow> (kern_quantum \<Rightarrow> kern_quantum) \<Rightarrow> sk_mem \<Rightarrow> sk_mem option" where
  "upd_qum a f s = do { q \<leftarrow> sk_qums s a; Some (s\<lparr>sk_qums := (sk_qums s)(a \<mapsto> f q)\<rparr>) }"

definition upd_pkt :: "ptr \<Rightarrow> (kern_packet \<Rightarrow> kern_packet) \<Rightarrow> sk_mem \<Rightarrow> sk_mem option" where
  "upd_pkt a f s = do { p \<leftarrow> sk_pkts s a; Some (s\<lparr>sk_pkts := (sk_pkts s)(a \<mapsto> f p)\<rparr>) }"

definition upd_buf :: "ptr \<Rightarrow> (kern_buflet \<Rightarrow> kern_buflet) \<Rightarrow> sk_mem \<Rightarrow> sk_mem option" where
  "upd_buf a f s = do { b \<leftarrow> sk_bufs s a; Some (s\<lparr>sk_bufs := (sk_bufs s)(a \<mapsto> f b)\<rparr>) }"

definition upd_ext :: "ptr \<Rightarrow> (kern_buflet_ext \<Rightarrow> kern_buflet_ext) \<Rightarrow> sk_mem \<Rightarrow> sk_mem option" where
  "upd_ext a f s = do { e \<leftarrow> sk_exts s a; Some (s\<lparr>sk_exts := (sk_exts s)(a \<mapsto> f e)\<rparr>) }"

definition upd_ctl :: "ptr \<Rightarrow> (skmem_bufctl \<Rightarrow> skmem_bufctl) \<Rightarrow> sk_mem \<Rightarrow> sk_mem option" where
  "upd_ctl a f s = do { c \<leftarrow> sk_ctls s a; Some (s\<lparr>sk_ctls := (sk_ctls s)(a \<mapsto> f c)\<rparr>) }"

definition upd_opt :: "ptr \<Rightarrow> (packet_opt \<Rightarrow> packet_opt) \<Rightarrow> sk_mem \<Rightarrow> sk_mem option" where
  "upd_opt a f s = do { p \<leftarrow> sk_opts s a; Some (s\<lparr>sk_opts := (sk_opts s)(a \<mapsto> f p)\<rparr>) }"

definition upd_compl :: "ptr \<Rightarrow> (packet_compl \<Rightarrow> packet_compl) \<Rightarrow> sk_mem \<Rightarrow> sk_mem option" where
  "upd_compl a f s = do { p \<leftarrow> sk_compls s a; Some (s\<lparr>sk_compls := (sk_compls s)(a \<mapsto> f p)\<rparr>) }"

definition upd_md :: "ptr \<Rightarrow> (metadata_preamble \<Rightarrow> metadata_preamble) \<Rightarrow> sk_mem \<Rightarrow> sk_mem option" where
  "upd_md md f s = (let a = METADATA_PREAMBLE md in
     do { p \<leftarrow> sk_mds s a; Some (s\<lparr>sk_mds := (sk_mds s)(a \<mapsto> f p)\<rparr>) })"

definition upd_uqum :: "ptr \<Rightarrow> (user_quantum \<Rightarrow> user_quantum) \<Rightarrow> sk_mem \<Rightarrow> sk_mem option" where
  "upd_uqum a f s = do { q \<leftarrow> sk_uqums s a; Some (s\<lparr>sk_uqums := (sk_uqums s)(a \<mapsto> f q)\<rparr>) }"

definition upd_upkt :: "ptr \<Rightarrow> (user_packet \<Rightarrow> user_packet) \<Rightarrow> sk_mem \<Rightarrow> sk_mem option" where
  "upd_upkt a f s = do { p \<leftarrow> sk_upkts s a; Some (s\<lparr>sk_upkts := (sk_upkts s)(a \<mapsto> f p)\<rparr>) }"

definition upd_ubuf :: "ptr \<Rightarrow> (user_buflet \<Rightarrow> user_buflet) \<Rightarrow> sk_mem \<Rightarrow> sk_mem option" where
  "upd_ubuf a f s = do { b \<leftarrow> sk_ubufs s a; Some (s\<lparr>sk_ubufs := (sk_ubufs s)(a \<mapsto> f b)\<rparr>) }"

definition upd_bytes :: "(bytes \<Rightarrow> bytes option) \<Rightarrow> sk_mem \<Rightarrow> sk_mem option" where
  "upd_bytes f s = do { m \<leftarrow> f (sk_bytes s); Some (s\<lparr>sk_bytes := m\<rparr>) }"

lemmas upd_defs = upd_qum_def upd_pkt_def upd_buf_def upd_ext_def upd_ctl_def upd_opt_def upd_compl_def
  upd_md_def upd_uqum_def upd_upkt_def upd_ubuf_def upd_bytes_def

definition METADATA_IDX :: "ptr \<Rightarrow> sk_mem \<Rightarrow> u32 option" where
  "METADATA_IDX md s = map_option mdp_idx (sk_mds s (METADATA_PREAMBLE md))"

definition METADATA_TYPE :: "ptr \<Rightarrow> sk_mem \<Rightarrow> u16 option" where
  "METADATA_TYPE md s = map_option mdp_type (sk_mds s (METADATA_PREAMBLE md))"

definition METADATA_SUBTYPE :: "ptr \<Rightarrow> sk_mem \<Rightarrow> u16 option" where
  "METADATA_SUBTYPE md s = map_option mdp_subtype (sk_mds s (METADATA_PREAMBLE md))"

definition SK_PKT2PH :: "ptr \<Rightarrow> sk_mem \<Rightarrow> u64 option" where
  "SK_PKT2PH pkt s = do {
     t \<leftarrow> METADATA_TYPE pkt s;
     u \<leftarrow> METADATA_SUBTYPE pkt s;
     Some (SK_PTR_ENCODE pkt (ucast t) (ucast u)) }"

end
