(* ===== verification/PacketObj.thy ===== *)
theory PacketObj
  imports PacketMem
begin

text \<open>
  Construction, copying and the user/kernel boundary of packet metadata: the macros of
  skywalk/packet/os_packet_private.h and packet_var.h and the use counts of buffer controls
  (skmem_cache_var.h). The lemmas show that tagged pointers decode to what was encoded, that a
  constructed packet is empty and of its pool's type, that no kernel flag crosses the boundary in
  either direction, and that the use count of every buffer is the number of buflets on it.
\<close>

subsection \<open>Use counts\<close>

definition skmem_bufctl_use :: "ptr \<Rightarrow> sk_mem \<Rightarrow> sk_mem option" where
  "skmem_bufctl_use bc s = do {
     c \<leftarrow> sk_ctls s bc;
     let new = bc_usecnt c + 1;
     VERIFY (new \<noteq> 0);
     ASSERT (new = 1 \<or> bc_flags c AND SKMEM_BUFCTL_SHAREOK \<noteq> 0);
     upd_ctl bc (bc_usecnt_update (\<lambda>_. new)) s }"

definition skmem_bufctl_unuse :: "ptr \<Rightarrow> sk_mem \<Rightarrow> (u32 \<times> sk_mem) option" where
  "skmem_bufctl_unuse bc s = do {
     c \<leftarrow> sk_ctls s bc;
     let old = bc_usecnt c;
     let new = old - 1;
     VERIFY (old \<noteq> 0);
     ASSERT (old = 1 \<or> bc_flags c AND SKMEM_BUFCTL_SHAREOK \<noteq> 0);
     s \<leftarrow> upd_ctl bc (bc_usecnt_update (\<lambda>_. new)) s;
     Some (new, s) }"

subsection \<open>Buflets\<close>

definition BUF_CTOR :: "ptr \<Rightarrow> u32 \<Rightarrow> u16 \<Rightarrow> u16 \<Rightarrow> u16 \<Rightarrow> ptr \<Rightarrow> u32 \<Rightarrow> u16 \<Rightarrow> 'a buflet_scheme \<Rightarrow> 'a buflet_scheme" where
  "BUF_CTOR baddr bidx dlim dlen doff nbaddr nbidx bflag b =
     b\<lparr>buf_addr := baddr, buf_nbft_addr := nbaddr, buf_idx := bidx, buf_nbft_idx := nbidx, buf_dlim := dlim,
       buf_dlen := dlen, buf_doff := doff, buf_flag := bflag\<rparr>"

definition BUF_INIT :: "u16 \<Rightarrow> u16 \<Rightarrow> 'a buflet_scheme \<Rightarrow> 'a buflet_scheme" where
  "BUF_INIT dlen doff b = b\<lparr>buf_dlen := dlen, buf_doff := doff\<rparr>"

definition KBUF_CTOR :: "ptr \<Rightarrow> ptr \<Rightarrow> u32 \<Rightarrow> ptr \<Rightarrow> ptr \<Rightarrow> sk_mem \<Rightarrow> sk_mem option" where
  "KBUF_CTOR kbuf baddr bidxreg bc pp s = do {
     pool \<leftarrow> sk_pools s pp;
     s \<leftarrow> upd_buf kbuf (\<lambda>b. BUF_CTOR baddr bidxreg (pp_buflet_size pool) 0 0
            (buf_nbft_addr b) (buf_nbft_idx b) (buf_flag b) b) s;
     s \<leftarrow> upd_buf kbuf (buf_ctl_update (\<lambda>_. bc)) s;
     if bc \<noteq> NULL then skmem_bufctl_use bc s else Some s }"

definition KBUF_EXT_CTOR :: "ptr \<Rightarrow> ptr \<Rightarrow> ptr \<Rightarrow> u32 \<Rightarrow> ptr \<Rightarrow> u32 \<Rightarrow> ptr \<Rightarrow> sk_mem \<Rightarrow> sk_mem option" where
  "KBUF_EXT_CTOR kbuf ubuf baddr bidxreg bc bft_idx_reg pp s = do {
     ASSERT (bft_idx_reg \<noteq> OBJ_IDX_NONE);
     s \<leftarrow> upd_buf kbuf (buf_flag_update (\<lambda>_. BUFLET_FLAG_EXTERNAL)) s;
     s \<leftarrow> upd_buf kbuf (buf_nbft_idx_update (\<lambda>_. OBJ_IDX_NONE)) s;
     s \<leftarrow> upd_buf kbuf (buf_bft_idx_reg_update (\<lambda>_. bft_idx_reg)) s;
     s \<leftarrow> upd_ext kbuf (kbe_buf_user_update (\<lambda>_. ubuf)) s;
     KBUF_CTOR kbuf baddr bidxreg bc pp s }"

definition KBUF_INIT :: "ptr \<Rightarrow> sk_mem \<Rightarrow> sk_mem option" where
  "KBUF_INIT kbuf s = do {
     b \<leftarrow> sk_bufs s kbuf;
     ASSERT (buf_ctl b \<noteq> NULL);
     ASSERT (buf_addr b \<noteq> 0);
     ASSERT (buf_dlim b \<noteq> 0);
     upd_buf kbuf (BUF_INIT 0 0) s }"

definition KBUF_EXT_INIT :: "ptr \<Rightarrow> ptr \<Rightarrow> sk_mem \<Rightarrow> sk_mem option" where
  "KBUF_EXT_INIT kbuf pp s = do {
     b \<leftarrow> sk_bufs s kbuf;
     ASSERT (buf_ctl b \<noteq> NULL);
     ASSERT (buf_flag b AND BUFLET_FLAG_EXTERNAL \<noteq> 0);
     ASSERT (buf_bft_idx_reg b \<noteq> OBJ_IDX_NONE);
     c \<leftarrow> sk_ctls s (buf_ctl b);
     pool \<leftarrow> sk_pools s pp;
     s \<leftarrow> upd_buf kbuf (\<lambda>b. b\<lparr>buf_addr := bc_addr c, buf_nbft_addr := 0, buf_nbft_idx := OBJ_IDX_NONE,
            buf_dlim := pp_buflet_size pool, buf_dlen := 0, buf_doff := 0\<rparr>) s;
     upd_ext kbuf (\<lambda>e. e\<lparr>kbe_buf_pid := -1, kbe_buf_upp_link := NULL\<rparr>) s }"

definition UBUF_INIT :: "ptr \<Rightarrow> ptr \<Rightarrow> sk_mem \<Rightarrow> sk_mem option" where
  "UBUF_INIT kbuf ubuf s = do {
     k \<leftarrow> sk_bufs s kbuf;
     s \<leftarrow> upd_ubuf ubuf (BUF_CTOR 0 (buf_idx k) (buf_dlim k) (buf_dlen k) (buf_doff k)
            (buf_nbft_addr k) (buf_nbft_idx k) (buf_flag k)) s;
     upd_ubuf ubuf (buf_bft_idx_reg_update (\<lambda>_. buf_bft_idx_reg k)) s }"

definition KBUF_EXTERNALIZE :: "ptr \<Rightarrow> ptr \<Rightarrow> ptr \<Rightarrow> sk_mem \<Rightarrow> sk_mem option" where
  "KBUF_EXTERNALIZE kbuf ubuf pp s = do {
     k \<leftarrow> sk_bufs s kbuf;
     pool \<leftarrow> sk_pools s pp;
     ASSERT (buf_dlim k = pp_buflet_size pool);
     ASSERT (buf_addr k \<noteq> 0);
     c \<leftarrow> sk_ctls s (buf_ctl k);
     ASSERT (buf_addr k = bc_addr c);
     UBUF_INIT kbuf ubuf s }"

definition KBUF_LINK :: "ptr \<Rightarrow> ptr \<Rightarrow> sk_mem \<Rightarrow> sk_mem option" where
  "KBUF_LINK pkbuf kbuf s = do {
     p \<leftarrow> sk_bufs s pkbuf;
     ASSERT (buf_nbft_addr p = NULL);
     ASSERT (buf_nbft_idx p = OBJ_IDX_NONE);
     ASSERT (kbuf \<noteq> NULL);
     k \<leftarrow> sk_bufs s kbuf;
     ASSERT (buf_bft_idx_reg k \<noteq> OBJ_IDX_NONE);
     s \<leftarrow> upd_buf pkbuf (buf_nbft_addr_update (\<lambda>_. kbuf)) s;
     upd_buf pkbuf (buf_nbft_idx_update (\<lambda>_. buf_bft_idx_reg k)) s }"

definition UBUF_LINK :: "ptr \<Rightarrow> ptr \<Rightarrow> sk_mem \<Rightarrow> sk_mem option" where
  "UBUF_LINK pubft ubft s = do {
     ASSERT (ubft \<noteq> NULL);
     s \<leftarrow> upd_ubuf pubft (buf_nbft_addr_update (\<lambda>_. ubft)) s;
     u \<leftarrow> sk_ubufs s ubft;
     upd_ubuf pubft (buf_nbft_idx_update (\<lambda>_. buf_bft_idx_reg u)) s }"

text \<open>\<open>KBUF_DTOR(kbuf, usecnt)\<close> assigns \<open>usecnt\<close> only when there is a buffer; it is passed and returned.\<close>

definition KBUF_DTOR :: "ptr \<Rightarrow> u32 \<Rightarrow> sk_mem \<Rightarrow> (u32 \<times> sk_mem) option" where
  "KBUF_DTOR kbuf usecnt s = do {
     b \<leftarrow> sk_bufs s kbuf;
     (usecnt, s) \<leftarrow> (if buf_ctl b \<noteq> NULL then do {
         (n, s) \<leftarrow> skmem_bufctl_unuse (buf_ctl b) s;
         s \<leftarrow> upd_buf kbuf (buf_ctl_update (\<lambda>_. NULL)) s;
         Some (n, s) }
       else Some (usecnt, s));
     s \<leftarrow> upd_buf kbuf (buf_addr_update (\<lambda>_. 0)) s;
     s \<leftarrow> upd_buf kbuf (buf_idx_update (\<lambda>_. OBJ_IDX_NONE)) s;
     Some (usecnt, s) }"

text \<open>The 44 bytes that \<open>_KBUF_COPY\<close> copies are the whole of a \<open>struct __kern_buflet\<close>.\<close>

definition KBUF_COPY :: "ptr \<Rightarrow> ptr \<Rightarrow> sk_mem \<Rightarrow> sk_mem option" where
  "KBUF_COPY skb dkb s = do {
     b \<leftarrow> sk_bufs s skb;
     d \<leftarrow> sk_bufs s dkb;
     ASSERT (buf_nbft_addr b = 0);
     ASSERT (buf_nbft_idx b = OBJ_IDX_NONE);
     ASSERT (buf_flag d AND BUFLET_FLAG_EXTERNAL = 0);
     s \<leftarrow> upd_buf dkb (\<lambda>_. b) s;
     s \<leftarrow> upd_buf dkb (buf_flag_update (\<lambda>f. f AND NOT BUFLET_FLAG_EXTERNAL)) s;
     if buf_ctl b \<noteq> NULL then skmem_bufctl_use (buf_ctl b) s else Some s }"

subsection \<open>Quanta\<close>

definition clear_flow_id :: "ptr \<Rightarrow> sk_mem \<Rightarrow> sk_mem option" where
  "clear_flow_id q s = do {
     s \<leftarrow> upd_bytes (st64 q 0) s;
     upd_bytes (st64 (q + 8) 0) s }"

text \<open>\<open>_KQUM_CTOR\<close> and \<open>_KQUM_INIT\<close>.\<close>

definition uu_KQUM_CTOR :: "ptr \<Rightarrow> u16 \<Rightarrow> u32 \<Rightarrow> ptr \<Rightarrow> u32 \<Rightarrow> u16 \<Rightarrow> u32 \<Rightarrow> sk_mem \<Rightarrow> sk_mem option" where
  "uu_KQUM_CTOR kqum flags len baddr bidx dlim qidx s = do {
     s \<leftarrow> clear_flow_id kqum s;
     s \<leftarrow> upd_qum kqum (\<lambda>q. q\<lparr>qum_qflags := flags, qum_len := len\<rparr>) s;
     s \<leftarrow> upd_md kqum (mdp_idx_update (\<lambda>_. qidx)) s;
     upd_buf (kqum + qum_buf_off) (BUF_CTOR baddr bidx dlim 0 0 0 OBJ_IDX_NONE 0) s }"

definition uu_KQUM_INIT :: "ptr \<Rightarrow> u16 \<Rightarrow> u32 \<Rightarrow> u32 \<Rightarrow> sk_mem \<Rightarrow> sk_mem option" where
  "uu_KQUM_INIT kqum flags len qidx s = do {
     s \<leftarrow> clear_flow_id kqum s;
     s \<leftarrow> upd_qum kqum (\<lambda>q. q\<lparr>qum_qflags := flags, qum_len := len\<rparr>) s;
     upd_buf (kqum + qum_buf_off) (BUF_INIT 0 0) s }"

definition KQUM_CTOR :: "ptr \<Rightarrow> u32 \<Rightarrow> ptr \<Rightarrow> ptr \<Rightarrow> u16 \<Rightarrow> sk_mem \<Rightarrow> sk_mem option" where
  "KQUM_CTOR kqum midx uqum pp qflags s = do {
     ASSERT (kqum \<noteq> uqum);
     pool \<leftarrow> sk_pools s pp;
     s \<leftarrow> uu_KQUM_CTOR kqum ((if PP_KERNEL_ONLY pool then QUM_F_KERNEL_ONLY else 0) OR qflags) 0 0
            OBJ_IDX_NONE (pp_buflet_size pool) midx s;
     s \<leftarrow> upd_md kqum (\<lambda>m. m\<lparr>mdp_type := ucast (pp_md_type pool), mdp_subtype := ucast (pp_md_subtype pool)\<rparr>) s;
     s \<leftarrow> upd_qum kqum (\<lambda>q. q\<lparr>qum_pp := pp, qum_user := uqum\<rparr>) s;
     s \<leftarrow> upd_md kqum (mdp_idx_update (\<lambda>_. midx)) s;
     upd_qum kqum (\<lambda>q. q\<lparr>qum_pid := -1, qum_ksd := NULL\<rparr>) s }"

definition KQUM_INIT :: "ptr \<Rightarrow> u16 \<Rightarrow> sk_mem \<Rightarrow> sk_mem option" where
  "KQUM_INIT kqum flags s = do {
     q \<leftarrow> sk_qums s kqum;
     ASSERT (qum_ksd q = NULL);
     ASSERT (qum_pid q = -1);
     pool \<leftarrow> sk_pools s (qum_pp q);
     i \<leftarrow> METADATA_IDX kqum s;
     uu_KQUM_INIT kqum ((if PP_KERNEL_ONLY pool then QUM_F_KERNEL_ONLY else 0) OR flags) 0 i s }"

definition UUID_MATCH :: "ptr \<Rightarrow> ptr \<Rightarrow> sk_mem \<Rightarrow> bool option" where
  "UUID_MATCH u1 u2 s = do {
     a0 \<leftarrow> ld64 (sk_bytes s) u1;
     b0 \<leftarrow> ld64 (sk_bytes s) u2;
     a1 \<leftarrow> ld64 (sk_bytes s) (u1 + 8);
     b1 \<leftarrow> ld64 (sk_bytes s) (u2 + 8);
     Some (a0 = b0 \<and> a1 = b1) }"

definition UUID_COPY :: "ptr \<Rightarrow> ptr \<Rightarrow> sk_mem \<Rightarrow> sk_mem option" where
  "UUID_COPY dst src s = upd_bytes (sk_copy64_16 src dst) s"

definition UUID_CLEAR :: "ptr \<Rightarrow> sk_mem \<Rightarrow> sk_mem option" where
  "UUID_CLEAR u s = do {
     s \<leftarrow> upd_bytes (st64 u 0) s;
     upd_bytes (st64 (u + 8) 0) s }"

text \<open>
  The 24 bytes before \<open>__q_flags\<close> are the flow identifier, the length and the service class. The
  source of \<open>_QUM_COPY\<close> is a kernel quantum or, in \<open>_QUM_INTERNALIZE\<close>, a user quantum.
\<close>

definition qum_copy24 :: "'a quantum_scheme \<Rightarrow> 'b quantum_scheme \<Rightarrow> 'b quantum_scheme" where
  "qum_copy24 skq dkq = dkq\<lparr>qum_len := qum_len skq, qum_svc_class := qum_svc_class skq\<rparr>"

definition qum_copy_flags :: "u16 \<Rightarrow> u16 \<Rightarrow> u16" where
  "qum_copy_flags sf df = (sf AND NOT QUM_F_SAVE_MASK) OR (df AND QUM_F_SAVE_MASK)"

definition QUM_COPY :: "ptr \<Rightarrow> ptr \<Rightarrow> sk_mem \<Rightarrow> sk_mem option" where
  "QUM_COPY skq dkq s = do {
     k \<leftarrow> sk_qums s skq;
     s \<leftarrow> upd_bytes (sk_copy64_16 skq dkq) s;
     upd_qum dkq (\<lambda>d. (qum_copy24 k d)\<lparr>qum_qflags := qum_copy_flags (qum_qflags k) (qum_qflags d)\<rparr>) s }"

definition QUM_INTERNALIZE :: "ptr \<Rightarrow> ptr \<Rightarrow> sk_mem \<Rightarrow> sk_mem option" where
  "QUM_INTERNALIZE uq kq s = do {
     u \<leftarrow> sk_uqums s uq;
     s \<leftarrow> upd_bytes (sk_copy64_16 uq kq) s;
     s \<leftarrow> upd_qum kq (\<lambda>d. (qum_copy24 u d)\<lparr>qum_qflags := qum_copy_flags (qum_qflags u) (qum_qflags d)\<rparr>) s;
     upd_qum kq (qum_qflags_update (\<lambda>f. f AND QUM_F_SAVE_MASK)) s }"

definition QUM_EXTERNALIZE :: "ptr \<Rightarrow> ptr \<Rightarrow> sk_mem \<Rightarrow> sk_mem option" where
  "QUM_EXTERNALIZE kq uq s = do {
     k \<leftarrow> sk_qums s kq;
     s \<leftarrow> upd_bytes (sk_copy64_16 kq uq) s;
     s \<leftarrow> upd_uqum uq (\<lambda>u. (qum_copy24 k u)\<lparr>qum_qflags := qum_qflags k AND NOT QUM_F_KERNEL_FLAGS\<rparr>) s;
     i \<leftarrow> METADATA_IDX kq s;
     s \<leftarrow> upd_md uq (mdp_idx_update (\<lambda>_. i)) s;
     t \<leftarrow> METADATA_TYPE kq s;
     s \<leftarrow> upd_md uq (mdp_type_update (\<lambda>_. t)) s;
     u \<leftarrow> METADATA_SUBTYPE kq s;
     s \<leftarrow> upd_md uq (mdp_subtype_update (\<lambda>_. u)) s;
     upd_uqum uq (qum_usecnt_update (\<lambda>_. 0)) s }"

subsection \<open>Packets\<close>

text \<open>\<open>KPKT_SC_UNSPEC\<close> is not defined in the headers; it is the argument \<open>unspec\<close>.\<close>

definition PKT_COM_INIT :: "u32 \<Rightarrow> ptr \<Rightarrow> u64 \<Rightarrow> sk_mem \<Rightarrow> sk_mem option" where
  "PKT_COM_INIT unspec p pflags s = do {
     s \<leftarrow> upd_pkt p (\<lambda>k. k\<lparr>pkt_link_flags := 0, pkt_headroom := 0, pkt_l2_len := 0, pkt_csum_flags := 0,
            pkt_csum_start_off := 0, pkt_csum_value := 0, pkt_comp_gencnt := 0, pkt_trace_id := 0,
            pkt_aggr_type := 0, pkt_seg_cnt := 0, pkt_pflags := 0\<rparr>) s;
     s \<leftarrow> upd_pkt p (pkt_pflags_update (\<lambda>_. pflags)) s;
     upd_qum p (qum_svc_class_update (\<lambda>_. unspec)) s }"

definition PKT_CTOR :: "u32 \<Rightarrow> ptr \<Rightarrow> u64 \<Rightarrow> u16 \<Rightarrow> u16 \<Rightarrow> sk_mem \<Rightarrow> sk_mem option" where
  "PKT_CTOR unspec p pflags bufcnt maxfrags s = do {
     s \<leftarrow> PKT_COM_INIT unspec p pflags s;
     upd_pkt p (\<lambda>k. k\<lparr>pkt_bufs_max := maxfrags, pkt_bufs_cnt := bufcnt\<rparr>) s }"

definition KPKT_CLEAR_MBUF_PKT_DATA :: "ptr \<Rightarrow> sk_mem \<Rightarrow> sk_mem option" where
  "KPKT_CLEAR_MBUF_PKT_DATA p s =
     upd_pkt p (\<lambda>k. k\<lparr>pkt_pflags := pkt_pflags k AND NOT (PKT_F_MBUF_MASK OR PKT_F_PKT_MASK), pkt_mbuf := NULL\<rparr>) s"

definition KPKT_CLEAR_MBUF_DATA :: "ptr \<Rightarrow> sk_mem \<Rightarrow> sk_mem option" where
  "KPKT_CLEAR_MBUF_DATA p s =
     upd_pkt p (\<lambda>k. k\<lparr>pkt_pflags := pkt_pflags k AND NOT PKT_F_MBUF_MASK, pkt_mbuf := NULL\<rparr>) s"

text \<open>\<open>pkt_pkt\<close> is the union's other name for \<open>pkt_mbuf\<close>.\<close>

definition KPKT_CLEAR_PKT_DATA :: "ptr \<Rightarrow> sk_mem \<Rightarrow> sk_mem option" where
  "KPKT_CLEAR_PKT_DATA p s =
     upd_pkt p (\<lambda>k. k\<lparr>pkt_pflags := pkt_pflags k AND NOT PKT_F_PKT_MASK, pkt_mbuf := NULL\<rparr>) s"

definition KPKT_CLEAR_FLOW_INIT :: "ptr \<Rightarrow> sk_mem \<Rightarrow> sk_mem option" where
  "KPKT_CLEAR_FLOW_INIT fl s = upd_bytes (sk_zero_128 fl) s"

text \<open>\<open>sizeof(struct __flow)\<close> is 128 for \<open>flow_init\<close> and 32 for \<open>flow_l4\<close>.\<close>

definition KPKT_CLEAR_FLOW_ALL :: "ptr \<Rightarrow> sk_mem \<Rightarrow> sk_mem option" where
  "KPKT_CLEAR_FLOW_ALL fl s = upd_bytes (bzero fl 160) s"

definition KPKT_CTOR_PRIV_VARS :: "ptr \<Rightarrow> ptr \<Rightarrow> ptr \<Rightarrow> ptr \<Rightarrow> sk_mem \<Rightarrow> sk_mem option" where
  "KPKT_CTOR_PRIV_VARS p opt flow txcomp s =
     upd_pkt p (\<lambda>k. k\<lparr>pkt_com_opt := opt, pkt_flow := flow, pkt_tx_compl := txcomp\<rparr>) s"

definition KPKT_INIT_PRIV_VARS :: "ptr \<Rightarrow> sk_mem \<Rightarrow> sk_mem option" where
  "KPKT_INIT_PRIV_VARS p s = do {
     k \<leftarrow> sk_pkts s p;
     let fl = pkt_flow k;
     s \<leftarrow> upd_pkt p (\<lambda>k. k\<lparr>pkt_timestamp := 0, pkt_nextpkt := NULL\<rparr>) s;
     s \<leftarrow> KPKT_CLEAR_MBUF_PKT_DATA p s;
     s \<leftarrow> (if fl \<noteq> NULL then KPKT_CLEAR_FLOW_INIT fl s else Some s);
     upd_pkt p (\<lambda>k. k\<lparr>pkt_chain_count := 0, pkt_chain_bytes := 0\<rparr>) s }"

definition KPKT_CTOR ::
  "u32 \<Rightarrow> ptr \<Rightarrow> u64 \<Rightarrow> ptr \<Rightarrow> ptr \<Rightarrow> ptr \<Rightarrow> u32 \<Rightarrow> ptr \<Rightarrow> ptr \<Rightarrow> u16 \<Rightarrow> u16 \<Rightarrow> u16 \<Rightarrow> sk_mem \<Rightarrow> sk_mem option" where
  "KPKT_CTOR unspec pk pflags opt flow txcomp midx pu pp bufcnt maxfrags qflags s = do {
     ASSERT (pk \<noteq> pu);
     s \<leftarrow> KQUM_CTOR pk midx (if pu = NULL then NULL else pu) pp qflags s;
     s \<leftarrow> PKT_CTOR unspec pk pflags bufcnt maxfrags s;
     KPKT_CTOR_PRIV_VARS pk opt flow txcomp s }"

definition KPKT_INIT :: "u32 \<Rightarrow> ptr \<Rightarrow> u16 \<Rightarrow> sk_mem \<Rightarrow> sk_mem option" where
  "KPKT_INIT unspec pk flags s = do {
     s \<leftarrow> KQUM_INIT pk flags s;
     k \<leftarrow> sk_pkts s pk;
     s \<leftarrow> PKT_COM_INIT unspec pk (pkt_pflags k) s;
     KPKT_INIT_PRIV_VARS pk s }"

definition KPKT_INIT_TX_COMPL_DATA :: "ptr \<Rightarrow> sk_mem \<Rightarrow> sk_mem option" where
  "KPKT_INIT_TX_COMPL_DATA p s = do {
     k \<leftarrow> sk_pkts s p;
     if pkt_pflags k AND PKT_F_TX_COMPL_DATA = 0 then do {
       ASSERT (pkt_pflags k AND PKT_F_TX_COMPL_ALLOC \<noteq> 0);
       s \<leftarrow> upd_pkt p (pkt_pflags_update (\<lambda>f. f OR PKT_F_TX_COMPL_DATA)) s;
       upd_compl (pkt_tx_compl k) (\<lambda>c. c\<lparr>compl_cb_arg := 0, compl_cb_data := 0, compl_tx_status := 0, compl_pad := 0\<rparr>) s }
     else Some s }"

text \<open>\<open>sk_copy64_32\<close> between two option structures, and the 24 bytes before \<open>__p_flags\<close>.\<close>

definition opt_copy32 :: "ptr \<Rightarrow> ptr \<Rightarrow> sk_mem \<Rightarrow> sk_mem option" where
  "opt_copy32 src dst s = do {
     po \<leftarrow> sk_opts s src;
     s \<leftarrow> upd_bytes (sk_copy64_16 (src + po_token_off) (dst + po_token_off)) s;
     upd_opt dst (\<lambda>_. po) s }"

definition pkt_copy24 :: "'a packet_com_scheme \<Rightarrow> 'b packet_com_scheme \<Rightarrow> 'b packet_com_scheme" where
  "pkt_copy24 k d = d\<lparr>pkt_link_flags := pkt_link_flags k, pkt_headroom := pkt_headroom k, pkt_l2_len := pkt_l2_len k,
     pkt_csum_flags := pkt_csum_flags k, pkt_csum_start_off := pkt_csum_start_off k,
     pkt_csum_value := pkt_csum_value k, pkt_comp_gencnt := pkt_comp_gencnt k, pkt_trace_id := pkt_trace_id k,
     pkt_aggr_type := pkt_aggr_type k, pkt_seg_cnt := pkt_seg_cnt k\<rparr>"

definition PKT_COPY_OPT_DATA :: "ptr \<Rightarrow> ptr \<Rightarrow> sk_mem \<Rightarrow> sk_mem option" where
  "PKT_COPY_OPT_DATA skp dkp s = do {
     k \<leftarrow> sk_pkts s skp;
     if pkt_pflags k AND PKT_F_OPT_DATA \<noteq> 0 then do {
       ASSERT (pkt_pflags k AND PKT_F_OPT_ALLOC \<noteq> 0);
       d \<leftarrow> sk_pkts s dkp;
       opt_copy32 (pkt_com_opt k) (pkt_com_opt d) s }
     else Some s }"

definition PKT_COPY :: "ptr \<Rightarrow> ptr \<Rightarrow> sk_mem \<Rightarrow> sk_mem option" where
  "PKT_COPY skp dkp s = do {
     k \<leftarrow> sk_pkts s skp;
     s \<leftarrow> upd_pkt dkp (pkt_copy24 k) s;
     k \<leftarrow> sk_pkts s skp;
     s \<leftarrow> upd_pkt dkp (pkt_pflags_update (\<lambda>_. pkt_pflags k AND PKT_F_COPY_MASK)) s;
     PKT_COPY_OPT_DATA skp dkp s }"

definition PKT_INTERNALIZE :: "ptr \<Rightarrow> ptr \<Rightarrow> sk_mem \<Rightarrow> sk_mem option" where
  "PKT_INTERNALIZE up kp s = do {
     k \<leftarrow> sk_pkts s kp;
     let kf = pkt_pflags k AND NOT PKT_F_USER_MASK;
     u \<leftarrow> sk_upkts s up;
     s \<leftarrow> upd_pkt kp (pkt_copy24 u) s;
     let f = (pkt_pflags u AND PKT_F_USER_MASK) OR kf;
     s \<leftarrow> upd_pkt kp (pkt_pflags_update (\<lambda>_. f)) s;
     if f AND PKT_F_OPT_DATA \<noteq> 0 then do {
       ASSERT (f AND PKT_F_OPT_ALLOC \<noteq> 0);
       opt_copy32 (up + upkt_com_opt_off) (pkt_com_opt k) s }
     else Some s }"

definition PKT_EXTERNALIZE :: "ptr \<Rightarrow> ptr \<Rightarrow> sk_mem \<Rightarrow> sk_mem option" where
  "PKT_EXTERNALIZE kp up s = do {
     k \<leftarrow> sk_pkts s kp;
     s \<leftarrow> upd_upkt up (pkt_copy24 k) s;
     s \<leftarrow> upd_upkt up (pkt_pflags_update (\<lambda>_. pkt_pflags k AND PKT_F_USER_MASK)) s;
     if pkt_pflags k AND PKT_F_OPT_DATA \<noteq> 0 then do {
       ASSERT (pkt_pflags k AND PKT_F_OPT_ALLOC \<noteq> 0);
       opt_copy32 (pkt_com_opt k) (up + upkt_com_opt_off) s }
     else Some s }"

subsection \<open>Tagged pointers\<close>

lemma mask_consts: "(0x3 :: u64) = mask 2" "(0xf :: u64) = mask 4" "(0xc :: u64) = push_bit 2 (mask 2)"
  by (simp_all add: mask_eq_exp_minus_1)

lemma no_bit_below: "x AND mask k = 0 \<Longrightarrow> n < k \<Longrightarrow> \<not> bit (x :: u64) n"
  using bit_and_iff [of x "mask k" n] by (auto simp: bit_mask_iff dest: bit_imp_possible_bit)

lemma bit_below_2: "w < 4 \<Longrightarrow> bit (w :: u64) n \<Longrightarrow> n < 2"
proof -
  assume "w < 4" "bit w n"
  then have "w AND NOT (mask 2) = 0"
    unfolding and_not_mask_eq_0_iff by (simp add: word_less_nat_alt)
  then show ?thesis
    using bit_and_iff [of w "NOT (mask 2)" n] \<open>bit w n\<close>
    by (auto simp: bit_not_iff bit_mask_iff dest: bit_imp_possible_bit)
qed

lemma sk_ptr_decode_encode:
  assumes p: "SK_PTR_TAG p = 0" and t: "t < 4" and u: "u < 4"
  shows "SK_PTR_ADDR (SK_PTR_ENCODE p t u) = p" "SK_PTR_TYPE (SK_PTR_ENCODE p t u) = t"
    "SK_PTR_SUBTYPE (SK_PTR_ENCODE p t u) = u"
proof -
  have b4: "n < 4 \<Longrightarrow> \<not> bit p n" for n
    using p by (intro no_bit_below [of _ 4]) (simp_all only: sk_ptr_defs mask_consts)
  note b2 = bit_below_2 [OF t] bit_below_2 [OF u]
  have b62: "bit u n \<Longrightarrow> n < 62" for n
    using b2(2) [of n] by simp
  show "SK_PTR_ADDR (SK_PTR_ENCODE p t u) = p"
    by (rule bit_word_eqI) (use b4 in \<open>auto simp: sk_ptr_defs mask_consts bit_simps\<close>)
  show "SK_PTR_TYPE (SK_PTR_ENCODE p t u) = t"
    by (rule bit_word_eqI) (use b4 b2 in \<open>auto simp: sk_ptr_defs mask_consts bit_simps\<close>)
  show "SK_PTR_SUBTYPE (SK_PTR_ENCODE p t u) = u"
    by (rule bit_word_eqI) (use b4 b2 b62 in \<open>auto simp: sk_ptr_defs mask_consts bit_simps\<close>)
qed

lemma sk_ptr_encode_decode: "SK_PTR_ENCODE (SK_PTR_ADDR ph) (SK_PTR_TYPE ph) (SK_PTR_SUBTYPE ph) = ph"
proof (rule bit_word_eqI)
  fix n assume n: "n < LENGTH(64)"
  then consider "n < 2" | k where "n = k + 2" "n < 4" | "4 \<le> n"
    by (metis add.commute le_Suc_ex not_less)
  then show "bit (SK_PTR_ENCODE (SK_PTR_ADDR ph) (SK_PTR_TYPE ph) (SK_PTR_SUBTYPE ph)) n = bit ph n"
    using n by cases (auto simp: sk_ptr_defs mask_consts bit_simps)
qed

subsection \<open>Constructors\<close>

definition kpkt_alloc :: "sk_mem \<Rightarrow> ptr \<Rightarrow> bool" where
  "kpkt_alloc s pk \<longleftrightarrow> sk_qums s pk \<noteq> None \<and> sk_pkts s pk \<noteq> None \<and> sk_bufs s (pk + qum_buf_off) \<noteq> None \<and>
     sk_mds s (METADATA_PREAMBLE pk) \<noteq> None \<and> owned (sk_bytes s) pk 16"

lemma put_replicate: "put p (replicate n v) m = fill n p v m"
  by (auto simp: put_def fill_def)

lemma bytes64_0: "bytes64 0 = replicate 8 0"
  by (simp add: bytes64_def bytes32_def numeral_eq_Suc)

lemma clear_flow_id_eq:
  assumes "owned (sk_bytes s) q 16"
  shows "clear_flow_id q s = Some (s\<lparr>sk_bytes := fill 16 q 0 (sk_bytes s)\<rparr>)"
proof -
  have o: "owned (sk_bytes s) q 8" "owned (sk_bytes s) (q + 8) 8"
    using assms owned_append [of "sk_bytes s" q 8 8] by simp_all
  have "put (q + 8) (bytes64 0) (put q (bytes64 0) (sk_bytes s)) = put q (bytes64 0 @ bytes64 0) (sk_bytes s)"
    by (simp add: put_append)
  also have "\<dots> = fill 16 q 0 (sk_bytes s)"
    by (simp add: bytes64_0 put_replicate flip: replicate_add)
  finally show ?thesis
    using o by (simp add: clear_flow_id_def upd_bytes_def st64_put owned_put)
qed

lemma KQUM_CTOR_eq:
  assumes "sk_qums s q = Some kq" "sk_bufs s (q + qum_buf_off) = Some b" "sk_mds s (METADATA_PREAMBLE q) = Some m"
    "owned (sk_bytes s) q 16" "sk_pools s pp = Some pool" "q \<noteq> u"
  shows "KQUM_CTOR q midx u pp qf s = Some (s\<lparr>
     sk_qums := (sk_qums s)(q \<mapsto> kq\<lparr>qum_qflags := (if PP_KERNEL_ONLY pool then QUM_F_KERNEL_ONLY else 0) OR qf,
       qum_len := 0, qum_pp := pp, qum_user := u, qum_pid := -1, qum_ksd := NULL\<rparr>),
     sk_bufs := (sk_bufs s)(q + qum_buf_off \<mapsto> BUF_CTOR 0 OBJ_IDX_NONE (pp_buflet_size pool) 0 0 0 OBJ_IDX_NONE 0 b),
     sk_mds := (sk_mds s)(METADATA_PREAMBLE q \<mapsto>
       \<lparr>mdp_idx = midx, mdp_type = ucast (pp_md_type pool), mdp_subtype = ucast (pp_md_subtype pool)\<rparr>),
     sk_bytes := fill 16 q 0 (sk_bytes s)\<rparr>)"
  using assms
  by (auto simp: KQUM_CTOR_def uu_KQUM_CTOR_def clear_flow_id_eq upd_defs
      intro!: sk_mem.equality metadata_preamble.equality kern_quantum.equality)

lemma KPKT_CTOR_eq:
  assumes "sk_qums s p = Some kq" "sk_pkts s p = Some k" "sk_bufs s (p + qum_buf_off) = Some b"
    "sk_mds s (METADATA_PREAMBLE p) = Some m" "owned (sk_bytes s) p 16" "sk_pools s pp = Some pool" "p \<noteq> u"
  shows "KPKT_CTOR unspec p pf opt flow compl midx u pp cnt maxf qf s = Some (s\<lparr>
     sk_qums := (sk_qums s)(p \<mapsto> kq\<lparr>qum_qflags := (if PP_KERNEL_ONLY pool then QUM_F_KERNEL_ONLY else 0) OR qf,
       qum_len := 0, qum_pp := pp, qum_user := u, qum_pid := -1, qum_ksd := NULL, qum_svc_class := unspec\<rparr>),
     sk_pkts := (sk_pkts s)(p \<mapsto> k\<lparr>pkt_link_flags := 0, pkt_headroom := 0, pkt_l2_len := 0, pkt_csum_flags := 0,
       pkt_csum_start_off := 0, pkt_csum_value := 0, pkt_comp_gencnt := 0, pkt_trace_id := 0, pkt_aggr_type := 0,
       pkt_seg_cnt := 0, pkt_pflags := pf, pkt_bufs_max := maxf, pkt_bufs_cnt := cnt, pkt_com_opt := opt,
       pkt_flow := flow, pkt_tx_compl := compl\<rparr>),
     sk_bufs := (sk_bufs s)(p + qum_buf_off \<mapsto> BUF_CTOR 0 OBJ_IDX_NONE (pp_buflet_size pool) 0 0 0 OBJ_IDX_NONE 0 b),
     sk_mds := (sk_mds s)(METADATA_PREAMBLE p \<mapsto>
       \<lparr>mdp_idx = midx, mdp_type = ucast (pp_md_type pool), mdp_subtype = ucast (pp_md_subtype pool)\<rparr>),
     sk_bytes := fill 16 p 0 (sk_bytes s)\<rparr>)"
proof -
  have u: "(if u = NULL then NULL else u) = u" by simp
  show ?thesis
    using assms KQUM_CTOR_eq [OF assms(1,3,4,5,6,7), of midx qf]
    by (auto simp: KPKT_CTOR_def u PKT_CTOR_def PKT_COM_INIT_def KPKT_CTOR_PRIV_VARS_def upd_defs
        intro!: sk_mem.equality)
qed

lemma sk_zero_128_eq: "owned m p 128 \<Longrightarrow> sk_zero_128 p m = Some (fill 128 p 0 m)"
  by (simp add: sk_zero_128_def bzero_def)

lemma owned_fill: "owned m q n \<Longrightarrow> owned (fill k p v m) q n"
  by (auto simp: owned_iff fill_def)

lemma fill_zero: "m a = Some v \<Longrightarrow> fill n p v m a = Some v"
  by (simp add: fill_def)

lemma fill_inside: "i < n \<Longrightarrow> n \<le> 2 ^ 64 \<Longrightarrow> fill n p v m (p + of_nat i) = Some v"
  by (simp add: fill_def unat_of_nat)

lemma KPKT_INIT_eq:
  assumes "sk_qums s p = Some kq" "sk_pkts s p = Some k" "sk_bufs s (p + qum_buf_off) = Some b"
    "METADATA_IDX p s = Some i" "owned (sk_bytes s) p 16" "sk_pools s (qum_pp kq) = Some pool"
    "qum_ksd kq = NULL" "qum_pid kq = -1" "pkt_flow k \<noteq> NULL \<Longrightarrow> owned (sk_bytes s) (pkt_flow k) 128"
  shows "KPKT_INIT unspec p fl s = Some (s\<lparr>
     sk_qums := (sk_qums s)(p \<mapsto> kq\<lparr>qum_qflags := (if PP_KERNEL_ONLY pool then QUM_F_KERNEL_ONLY else 0) OR fl,
       qum_len := 0, qum_svc_class := unspec\<rparr>),
     sk_pkts := (sk_pkts s)(p \<mapsto> k\<lparr>pkt_link_flags := 0, pkt_headroom := 0, pkt_l2_len := 0, pkt_csum_flags := 0,
       pkt_csum_start_off := 0, pkt_csum_value := 0, pkt_comp_gencnt := 0, pkt_trace_id := 0, pkt_aggr_type := 0,
       pkt_seg_cnt := 0, pkt_pflags := pkt_pflags k AND NOT (PKT_F_MBUF_MASK OR PKT_F_PKT_MASK),
       pkt_timestamp := 0, pkt_nextpkt := NULL, pkt_mbuf := NULL, pkt_chain_count := 0, pkt_chain_bytes := 0\<rparr>),
     sk_bufs := (sk_bufs s)(p + qum_buf_off \<mapsto> b\<lparr>buf_dlen := 0, buf_doff := 0\<rparr>),
     sk_bytes := (let m = fill 16 p 0 (sk_bytes s) in if pkt_flow k = NULL then m else fill 128 (pkt_flow k) 0 m)\<rparr>)"
proof (cases "pkt_flow k = NULL")
  case True
  with assms show ?thesis
    by (auto simp: KPKT_INIT_def KQUM_INIT_def uu_KQUM_INIT_def clear_flow_id_eq PKT_COM_INIT_def BUF_INIT_def
        KPKT_INIT_PRIV_VARS_def KPKT_CLEAR_MBUF_PKT_DATA_def upd_defs intro!: sk_mem.equality)
next
  case False
  with assms have "owned (fill 16 p 0 (sk_bytes s)) (pkt_flow k) 128"
    by (simp add: owned_fill)
  with False assms show ?thesis
    by (auto simp: KPKT_INIT_def KQUM_INIT_def uu_KQUM_INIT_def clear_flow_id_eq PKT_COM_INIT_def BUF_INIT_def
        KPKT_INIT_PRIV_VARS_def KPKT_CLEAR_MBUF_PKT_DATA_def KPKT_CLEAR_FLOW_INIT_def sk_zero_128_eq upd_defs
        intro!: sk_mem.equality)
qed

text \<open>
  C20: A tagged pointer decodes to the 16-byte aligned address, the type and the subtype that were
  encoded, and every 64-bit handle is the encoding of its parts. The handle of a packet constructed
  in a pool (\<open>KPKT_CTOR\<close>, \<open>SK_PKT2PH\<close>) is tagged with the pool's type and subtype and leads back to the
  packet. Initialisation (\<open>KPKT_INIT\<close>) does not panic and leaves an empty packet: no flags but those
  given and \<open>QUM_F_KERNEL_ONLY\<close> of a kernel-only pool, no length, a cleared flow identifier, no slot,
  no attached mbuf or packet, packet flags less those of attached data, an empty first buflet; the
  buflet count and limit are those of the constructor.
\<close>
theorem constructed_packet:
  assumes a: "kpkt_alloc s p" and pp: "sk_pools s pp = Some pool" and u: "p \<noteq> u" and p: "SK_PTR_TAG p = 0"
    and t: "pp_md_type pool < 4" "pp_md_subtype pool < 4"
    and fl: "flow \<noteq> NULL \<Longrightarrow> owned (sk_bytes s) flow 128"
  shows "(\<forall>ph. SK_PTR_ENCODE (SK_PTR_ADDR ph) (SK_PTR_TYPE ph) (SK_PTR_SUBTYPE ph) = ph) \<and>
    (\<exists>s1 s2 ph q k b. KPKT_CTOR unspec p pf opt flow compl midx u pp cnt maxf qf s = Some s1 \<and>
      SK_PKT2PH p s1 = Some ph \<and> SK_PTR_ADDR_KPKT ph = p \<and> SK_PTR_TYPE ph = ucast (pp_md_type pool) \<and>
      SK_PTR_SUBTYPE ph = ucast (pp_md_subtype pool) \<and>
      KPKT_INIT unspec p f s1 = Some s2 \<and> SK_PKT2PH p s2 = Some ph \<and> METADATA_IDX p s2 = Some midx \<and>
      sk_qums s2 p = Some q \<and> sk_pkts s2 p = Some k \<and> sk_bufs s2 (p + qum_buf_off) = Some b \<and>
      qum_qflags q = (if PP_KERNEL_ONLY pool then QUM_F_KERNEL_ONLY else 0) OR f \<and> qum_len q = 0 \<and>
      qum_pp q = pp \<and> qum_user q = u \<and> qum_ksd q = NULL \<and> qum_svc_class q = unspec \<and>
      (\<forall>i < 16. sk_bytes s2 (p + of_nat i) = Some 0) \<and>
      pkt_pflags k = pf AND NOT (PKT_F_MBUF_MASK OR PKT_F_PKT_MASK) \<and> pkt_mbuf k = NULL \<and> pkt_nextpkt k = NULL \<and>
      pkt_headroom k = 0 \<and> pkt_l2_len k = 0 \<and> pkt_com_opt k = opt \<and> pkt_flow k = flow \<and> pkt_tx_compl k = compl \<and>
      pkt_bufs_cnt k = cnt \<and> pkt_bufs_max k = maxf \<and>
      buf_addr b = 0 \<and> buf_nbft_addr b = NULL \<and> buf_dlen b = 0 \<and> buf_doff b = 0 \<and> buf_dlim b = pp_buflet_size pool)"
proof -
  obtain kq k b m where o: "sk_qums s p = Some kq" "sk_pkts s p = Some k" "sk_bufs s (p + qum_buf_off) = Some b"
    "sk_mds s (METADATA_PREAMBLE p) = Some m" "owned (sk_bytes s) p 16"
    using a by (auto simp: kpkt_alloc_def)
  obtain s1 q1 k1 b1 where c: "KPKT_CTOR unspec p pf opt flow compl midx u pp cnt maxf qf s = Some s1"
    and s1: "sk_qums s1 p = Some q1" "sk_pkts s1 p = Some k1" "sk_bufs s1 (p + qum_buf_off) = Some b1"
    and md: "sk_mds s1 (METADATA_PREAMBLE p) =
      Some \<lparr>mdp_idx = midx, mdp_type = ucast (pp_md_type pool), mdp_subtype = ucast (pp_md_subtype pool)\<rparr>"
    and by1: "sk_bytes s1 = fill 16 p 0 (sk_bytes s)" and pool1: "sk_pools s1 = sk_pools s"
    and q1: "qum_pp q1 = pp" "qum_user q1 = u" "qum_ksd q1 = NULL" "qum_pid q1 = -1"
    and k1: "pkt_pflags k1 = pf" "pkt_com_opt k1 = opt" "pkt_flow k1 = flow" "pkt_tx_compl k1 = compl"
      "pkt_bufs_cnt k1 = cnt" "pkt_bufs_max k1 = maxf"
    and b1: "buf_addr b1 = 0" "buf_nbft_addr b1 = NULL" "buf_dlim b1 = pp_buflet_size pool"
    using KPKT_CTOR_eq [OF o pp u, of unspec pf opt flow compl midx cnt maxf qf] by (simp add: BUF_CTOR_def)
  have small: "ucast (ucast w :: u16) = (ucast w :: u64)" "ucast w < (4 :: u64)" if "w < 4" for w :: u32
  proof -
    have w: "unat w < 4" using that by (simp add: word_less_nat_alt)
    then show "ucast (ucast w :: u16) = (ucast w :: u64)" "ucast w < (4 :: u64)"
      by (simp_all only: word_unat_eq_iff word_less_nat_alt unsigned_ucast_eq) (simp_all add: take_bit_nat_eq_self unsigned_take_bit_eq unsigned_ucast_eq)
  qed
  have zero: "(let m = fill 16 p 0 M in if c then m else fill 128 g 0 m) (p + of_nat i) = Some 0" if "i < 16" for M c g i
    using that by (simp add: Let_def fill_inside fill_zero)
  have idx: "METADATA_IDX p s1 = Some midx" by (simp add: METADATA_IDX_def md)
  have ob: "owned (sk_bytes s1) p 16" "flow \<noteq> NULL \<Longrightarrow> owned (sk_bytes s1) flow 128"
    using o(5) fl by (simp_all add: by1 owned_fill)
  note init = KPKT_INIT_eq [of s1 p q1 k1 b1 midx pool unspec f, OF s1 idx ob(1)]
  have ph: "SK_PKT2PH p s1 = Some (SK_PTR_ENCODE p (ucast (pp_md_type pool)) (ucast (pp_md_subtype pool)))"
    by (simp add: SK_PKT2PH_def METADATA_TYPE_def METADATA_SUBTYPE_def md small t)
  have dec: "SK_PTR_ADDR_KPKT (SK_PTR_ENCODE p (ucast (pp_md_type pool)) (ucast (pp_md_subtype pool))) = p"
    unfolding SK_PTR_ADDR_KPKT_def by (simp add: sk_ptr_decode_encode p small t)
  show ?thesis
    using c ph init ob(2) idx unfolding q1 k1
    by (simp add: sk_ptr_encode_decode dec sk_ptr_decode_encode p small t pool1 pp q1 k1 b1 zero
        METADATA_IDX_def SK_PKT2PH_def METADATA_TYPE_def METADATA_SUBTYPE_def)
qed

text \<open>A small state for the witnesses: one object of every kind at every address, all of it zero.\<close>

definition zero_sk :: sk_mem where
  "zero_sk = \<lparr>
     sk_qums = (\<lambda>_. Some \<lparr>qum_len = 0, qum_svc_class = 0, qum_qflags = 0, qum_pp = 0, qum_user = 0, qum_ksd = 0, qum_pid = 0\<rparr>),
     sk_pkts = (\<lambda>_. Some \<lparr>pkt_link_flags = 0, pkt_headroom = 0, pkt_l2_len = 0, pkt_csum_flags = 0,
       pkt_csum_start_off = 0, pkt_csum_value = 0, pkt_comp_gencnt = 0, pkt_trace_id = 0, pkt_aggr_type = 0,
       pkt_seg_cnt = 0, pkt_pflags = 0, pkt_com_opt = 0, pkt_timestamp = 0, pkt_nextpkt = 0, pkt_mbuf = 0,
       pkt_flow = 0, pkt_tx_compl = 0, pkt_bufs_max = 0, pkt_bufs_cnt = 0, pkt_chain_count = 0, pkt_chain_bytes = 0\<rparr>),
     sk_bufs = (\<lambda>_. Some \<lparr>buf_nbft_addr = 0, buf_addr = 0, buf_bft_idx_reg = 0, buf_idx = 0, buf_nbft_idx = 0,
       buf_dlim = 0, buf_dlen = 0, buf_doff = 0, buf_flag = 0, buf_ctl = 0\<rparr>),
     sk_exts = (\<lambda>_. Some \<lparr>kbe_buf_user = 0, kbe_buf_upp_link = 0, kbe_buf_pid = 0\<rparr>),
     sk_ctls = (\<lambda>_. Some \<lparr>bc_addr = 0, bc_slab = 0, bc_lim = 0, bc_flags = 0, bc_idx = 0, bc_usecnt = 0\<rparr>),
     sk_opts = (\<lambda>_. Some \<lparr>po_token_type = 0, po_token_len = 0, po_vlan_tag = 0, po_expire_ts = 0\<rparr>),
     sk_compls = (\<lambda>_. Some \<lparr>compl_cb_arg = 0, compl_cb_data = 0, compl_tx_status = 0, compl_pad = 0,
       compl_callbacks = 0, compl_context = 0\<rparr>),
     sk_mds = (\<lambda>_. Some \<lparr>mdp_idx = 0, mdp_type = 0, mdp_subtype = 0\<rparr>),
     sk_pools = (\<lambda>_. Some \<lparr>pp_flags = 0, pp_buflet_size = 0, pp_md_type = 2, pp_md_subtype = 2\<rparr>),
     sk_uqums = (\<lambda>_. Some \<lparr>qum_len = 0, qum_svc_class = 0, qum_qflags = 0, qum_usecnt = 0\<rparr>),
     sk_upkts = (\<lambda>_. Some \<lparr>pkt_link_flags = 0, pkt_headroom = 0, pkt_l2_len = 0, pkt_csum_flags = 0,
       pkt_csum_start_off = 0, pkt_csum_value = 0, pkt_comp_gencnt = 0, pkt_trace_id = 0, pkt_aggr_type = 0,
       pkt_seg_cnt = 0, pkt_pflags = 0, upkt_bufs_max = 0, upkt_bufs_cnt = 0\<rparr>),
     sk_ubufs = (\<lambda>_. Some \<lparr>buf_nbft_addr = 0, buf_addr = 0, buf_bft_idx_reg = 0, buf_idx = 0, buf_nbft_idx = 0,
       buf_dlim = 0, buf_dlen = 0, buf_doff = 0, buf_flag = 0\<rparr>),
     sk_bytes = (\<lambda>_. Some 0)\<rparr>"

lemma owned_zero_sk [simp]: "owned (sk_bytes zero_sk) p n"
  by (simp add: owned_iff zero_sk_def)

theorem constructed_packet_witness:
  "\<exists>s1 s2 k. KPKT_CTOR 7 0x1000 0 0x2000 0 0 5 0 0x3000 0 4 0 zero_sk = Some s1 \<and>
     SK_PKT2PH 0x1000 s1 = Some 0x100a \<and> KPKT_INIT 7 0x1000 QUM_F_INTERNALIZED s1 = Some s2 \<and>
     sk_pkts s2 0x1000 = Some k \<and> pkt_bufs_max k = 4"
proof -
  have "kpkt_alloc zero_sk 0x1000"
    by (simp add: kpkt_alloc_def) (simp add: zero_sk_def)
  moreover have "sk_pools zero_sk 0x3000 = Some \<lparr>pp_flags = 0, pp_buflet_size = 0, pp_md_type = 2, pp_md_subtype = 2\<rparr>"
    by (simp add: zero_sk_def)
  moreover have "SK_PTR_TAG 0x1000 = 0" by (simp add: sk_ptr_defs)
  ultimately obtain s1 s2 ph k where "KPKT_CTOR 7 0x1000 0 0x2000 0 0 5 0 0x3000 0 4 0 zero_sk = Some s1"
    and ph: "SK_PKT2PH 0x1000 s1 = Some ph" "SK_PTR_ADDR_KPKT ph = 0x1000" "SK_PTR_TYPE ph = 2" "SK_PTR_SUBTYPE ph = 2"
    and "KPKT_INIT 7 0x1000 QUM_F_INTERNALIZED s1 = Some s2" "sk_pkts s2 0x1000 = Some k" "pkt_bufs_max k = 4"
    using constructed_packet [where s = zero_sk and p = "0x1000" and pp = "0x3000" and u = 0 and flow = 0 and unspec = 7
        and pf = 0 and opt = "0x2000" and compl = 0 and midx = 5 and cnt = 0 and maxf = 4 and qf = 0 and f = QUM_F_INTERNALIZED]
    by auto
  moreover have "ph = 0x100a"
    using sk_ptr_encode_decode [of ph] ph(2) unfolding ph(3,4) SK_PTR_ADDR_KPKT_def by (simp add: sk_ptr_defs)
  ultimately show ?thesis using ph(1) by blast
qed

subsection \<open>The boundary between user and kernel\<close>

lemma map_upd_eq_iff: "m(a \<mapsto> v) = m(a \<mapsto> w) \<longleftrightarrow> v = w"
  by (metis fun_upd_same option.inject)

lemma flags_merge:
  "((f AND m) OR (g AND NOT m)) AND NOT m = g AND NOT (m :: 'a::len word)"
  "((f AND m) OR (g AND NOT m)) AND m = f AND m"
  "(f AND m) AND NOT m = 0" "(f AND NOT m) AND m = 0"
  by (auto simp: bit_eq_iff bit_simps)

definition opt_at :: "sk_mem \<Rightarrow> ptr \<Rightarrow> bool" where
  "opt_at s a \<longleftrightarrow> sk_opts s a \<noteq> None \<and> owned (sk_bytes s) (a + po_token_off) 16"

lemma opt_copy32_eq:
  assumes "opt_at s a" "opt_at s b" "apart 16 a b"
  shows "opt_copy32 a b s = Some (s\<lparr>sk_opts := (sk_opts s)(b := sk_opts s a),
    sk_bytes := cpy 16 (a + po_token_off) (b + po_token_off) (sk_bytes s)\<rparr>)"
proof -
  have "apart 16 (a + po_token_off) (b + po_token_off)"
    using assms(3) by (simp add: apart_def)
  then have "sk_copy64_16 (a + po_token_off) (b + po_token_off) (sk_bytes s) =
      Some (cpy 16 (a + po_token_off) (b + po_token_off) (sk_bytes s))"
    using assms by (intro copiesD [OF copies_sk_copy64_16]) (simp_all add: opt_at_def)
  then show ?thesis
    using assms by (auto simp: opt_copy32_def upd_defs opt_at_def intro!: sk_mem.equality)
qed

lemma PKT_INTERNALIZE_eq:
  assumes u: "sk_upkts s up = Some u" and k: "sk_pkts s kp = Some k"
    and opt: "f AND PKT_F_OPT_DATA \<noteq> 0 \<Longrightarrow> pkt_pflags k AND PKT_F_OPT_ALLOC \<noteq> 0 \<and>
      opt_at s (up + upkt_com_opt_off) \<and> opt_at s (pkt_com_opt k) \<and> apart 16 (up + upkt_com_opt_off) (pkt_com_opt k)"
    and f: "f = (pkt_pflags u AND PKT_F_USER_MASK) OR (pkt_pflags k AND NOT PKT_F_USER_MASK)"
  shows "PKT_INTERNALIZE up kp s = Some (s\<lparr>
    sk_pkts := (sk_pkts s)(kp \<mapsto> (pkt_copy24 u k)\<lparr>pkt_pflags := f\<rparr>),
    sk_opts := (if f AND PKT_F_OPT_DATA = 0 then sk_opts s
       else (sk_opts s)(pkt_com_opt k := sk_opts s (up + upkt_com_opt_off))),
    sk_bytes := (if f AND PKT_F_OPT_DATA = 0 then sk_bytes s
       else cpy 16 (up + upkt_com_opt_off + po_token_off) (pkt_com_opt k + po_token_off) (sk_bytes s))\<rparr>)"
proof -
  have alloc: "f AND PKT_F_OPT_ALLOC = pkt_pflags k AND PKT_F_OPT_ALLOC"
  proof -
    have "PKT_F_OPT_ALLOC AND PKT_F_USER_MASK = 0" by (simp add: pkt_masks pkt_flags)
    then have "bit PKT_F_OPT_ALLOC n \<Longrightarrow> \<not> bit PKT_F_USER_MASK n" for n
      using bit_and_iff [of PKT_F_OPT_ALLOC PKT_F_USER_MASK n] by simp
    then show ?thesis by (auto simp: f bit_eq_iff bit_simps)
  qed
  let ?s = "s\<lparr>sk_pkts := (sk_pkts s)(kp \<mapsto> (pkt_copy24 u k)\<lparr>pkt_pflags := f\<rparr>)\<rparr>"
  have copy: "opt_copy32 a b ?s = Some (?s\<lparr>sk_opts := (sk_opts s)(b := sk_opts s a),
      sk_bytes := cpy 16 (a + po_token_off) (b + po_token_off) (sk_bytes s)\<rparr>)"
    if "opt_at s a" "opt_at s b" "apart 16 a b" for a b
    using opt_copy32_eq [of ?s a b] that by (simp add: opt_at_def)
  show ?thesis
  proof (cases "f AND PKT_F_OPT_DATA = 0")
    case True
    then show ?thesis
      using u k by (simp add: PKT_INTERNALIZE_def f [symmetric] upd_defs Let_def)
  next
    case False
    note opt [OF False]
    then show ?thesis
      using False u k copy [of "up + upkt_com_opt_off" "pkt_com_opt k"]
      by (simp add: PKT_INTERNALIZE_def f [symmetric] upd_defs Let_def alloc)
  qed
qed

lemma PKT_EXTERNALIZE_eq:
  assumes u: "sk_upkts s up = Some u" and k: "sk_pkts s kp = Some k"
    and opt: "pkt_pflags k AND PKT_F_OPT_DATA \<noteq> 0 \<Longrightarrow> pkt_pflags k AND PKT_F_OPT_ALLOC \<noteq> 0 \<and>
      opt_at s (up + upkt_com_opt_off) \<and> opt_at s (pkt_com_opt k) \<and> apart 16 (pkt_com_opt k) (up + upkt_com_opt_off)"
  shows "PKT_EXTERNALIZE kp up s = Some (s\<lparr>
    sk_upkts := (sk_upkts s)(up \<mapsto> (pkt_copy24 k u)\<lparr>pkt_pflags := pkt_pflags k AND PKT_F_USER_MASK\<rparr>),
    sk_opts := (if pkt_pflags k AND PKT_F_OPT_DATA = 0 then sk_opts s
       else (sk_opts s)(up + upkt_com_opt_off := sk_opts s (pkt_com_opt k))),
    sk_bytes := (if pkt_pflags k AND PKT_F_OPT_DATA = 0 then sk_bytes s
       else cpy 16 (pkt_com_opt k + po_token_off) (up + upkt_com_opt_off + po_token_off) (sk_bytes s))\<rparr>)"
proof -
  let ?s = "s\<lparr>sk_upkts := (sk_upkts s)(up \<mapsto> (pkt_copy24 k u)\<lparr>pkt_pflags := pkt_pflags k AND PKT_F_USER_MASK\<rparr>)\<rparr>"
  have copy: "opt_copy32 a b ?s = Some (?s\<lparr>sk_opts := (sk_opts s)(b := sk_opts s a),
      sk_bytes := cpy 16 (a + po_token_off) (b + po_token_off) (sk_bytes s)\<rparr>)"
    if "opt_at s a" "opt_at s b" "apart 16 a b" for a b
    using opt_copy32_eq [of ?s a b] that by (simp add: opt_at_def)
  show ?thesis
  proof (cases "pkt_pflags k AND PKT_F_OPT_DATA = 0")
    case True
    then show ?thesis
      using u k by (simp add: PKT_EXTERNALIZE_def upd_defs)
  next
    case False
    note opt [OF False]
    then show ?thesis
      using False u k copy [of "pkt_com_opt k" "up + upkt_com_opt_off"]
      by (simp add: PKT_EXTERNALIZE_def upd_defs)
  qed
qed

lemma QUM_INTERNALIZE_eq:
  assumes "sk_uqums s uq = Some u" "sk_qums s kq = Some k" "owned (sk_bytes s) uq 16" "owned (sk_bytes s) kq 16"
    "apart 16 uq kq"
  shows "QUM_INTERNALIZE uq kq s = Some (s\<lparr>
    sk_qums := (sk_qums s)(kq \<mapsto> (qum_copy24 u k)\<lparr>qum_qflags := qum_qflags k AND QUM_F_SAVE_MASK\<rparr>),
    sk_bytes := cpy 16 uq kq (sk_bytes s)\<rparr>)"
proof -
  have c: "sk_copy64_16 uq kq (sk_bytes s) = Some (cpy 16 uq kq (sk_bytes s))"
    using assms by (intro copiesD [OF copies_sk_copy64_16])
  have f: "qum_copy_flags f g AND QUM_F_SAVE_MASK = g AND QUM_F_SAVE_MASK" for f g
    by (auto simp: qum_copy_flags_def bit_eq_iff bit_simps)
  show ?thesis
    using assms c by (auto simp: QUM_INTERNALIZE_def upd_defs f intro!: sk_mem.equality)
qed

lemma QUM_EXTERNALIZE_eq:
  assumes "sk_uqums s uq = Some u" "sk_qums s kq = Some k" "owned (sk_bytes s) uq 16" "owned (sk_bytes s) kq 16"
    "apart 16 kq uq" "sk_mds s (METADATA_PREAMBLE kq) = Some km" "sk_mds s (METADATA_PREAMBLE uq) = Some um"
  shows "QUM_EXTERNALIZE kq uq s = Some (s\<lparr>
    sk_uqums := (sk_uqums s)(uq \<mapsto> (qum_copy24 k u)\<lparr>qum_qflags := qum_qflags k AND NOT QUM_F_KERNEL_FLAGS, qum_usecnt := 0\<rparr>),
    sk_mds := (sk_mds s)(METADATA_PREAMBLE uq \<mapsto> km),
    sk_bytes := cpy 16 kq uq (sk_bytes s)\<rparr>)"
proof -
  have c: "sk_copy64_16 kq uq (sk_bytes s) = Some (cpy 16 kq uq (sk_bytes s))"
    using assms by (intro copiesD [OF copies_sk_copy64_16])
  have "kq \<noteq> uq"
    using assms(5) by (auto simp: apart_def)
  then have "METADATA_PREAMBLE kq \<noteq> METADATA_PREAMBLE uq"
    by (simp add: METADATA_PREAMBLE_def)
  then show ?thesis
    using assms c
    by (auto simp: QUM_EXTERNALIZE_def upd_defs METADATA_IDX_def METADATA_TYPE_def METADATA_SUBTYPE_def
        intro!: sk_mem.equality metadata_preamble.equality)
qed

text \<open>
  C8: The user and kernel copies of a packet are isolated from each other. Internalising takes from
  the user packet the common fields and the flags of \<open>PKT_F_USER_MASK\<close> and of the user quantum the
  length and the service class; every other packet flag and every kernel field of the packet keeps
  its value, and of the quantum's flags only \<open>QUM_F_KERNEL_ONLY\<close> is kept, whatever the user wrote.
  Externalising leaves the kernel objects as they are and shows the user no packet flag outside
  \<open>PKT_F_USER_MASK\<close> and neither \<open>QUM_F_INTERNALIZED\<close> nor \<open>QUM_F_KERNEL_ONLY\<close>.
\<close>
theorem user_kernel_boundary:
  assumes u: "sk_upkts s a = Some u" and k: "sk_pkts s p = Some k"
    and uq: "sk_uqums s a = Some uq" and kq: "sk_qums s p = Some kq"
    and bytes: "owned (sk_bytes s) a 16" "owned (sk_bytes s) p 16" "apart 16 a p"
    and opts: "pkt_pflags k AND PKT_F_OPT_ALLOC \<noteq> 0" "opt_at s (a + upkt_com_opt_off)" "opt_at s (pkt_com_opt k)"
      "apart 16 (a + upkt_com_opt_off) (pkt_com_opt k)"
    and mds: "sk_mds s (METADATA_PREAMBLE p) \<noteq> None" "sk_mds s (METADATA_PREAMBLE a) \<noteq> None"
  shows "(\<exists>s' k'. PKT_INTERNALIZE a p s = Some s' \<and> sk_pkts s' = (sk_pkts s)(p \<mapsto> k') \<and>
      pkt_pflags k' AND NOT PKT_F_USER_MASK = pkt_pflags k AND NOT PKT_F_USER_MASK \<and>
      pkt_pflags k' AND PKT_F_USER_MASK = pkt_pflags u AND PKT_F_USER_MASK \<and>
      packet_com.more k' = packet_com.more k \<and> pkt_headroom k' = pkt_headroom u \<and> pkt_l2_len k' = pkt_l2_len u \<and>
      sk_qums s' = sk_qums s \<and> sk_bufs s' = sk_bufs s \<and> sk_upkts s' = sk_upkts s) \<and>
    (\<exists>s' q'. QUM_INTERNALIZE a p s = Some s' \<and> sk_qums s' = (sk_qums s)(p \<mapsto> q') \<and>
      qum_qflags q' = qum_qflags kq AND QUM_F_KERNEL_ONLY \<and> quantum.more q' = quantum.more kq \<and>
      qum_len q' = qum_len uq \<and> qum_svc_class q' = qum_svc_class uq \<and> sk_pkts s' = sk_pkts s) \<and>
    (\<exists>s' u'. PKT_EXTERNALIZE p a s = Some s' \<and> sk_upkts s' = (sk_upkts s)(a \<mapsto> u') \<and>
      pkt_pflags u' AND NOT PKT_F_USER_MASK = 0 \<and> pkt_pflags u' = pkt_pflags k AND PKT_F_USER_MASK \<and>
      packet_com.more u' = packet_com.more u \<and> pkt_headroom u' = pkt_headroom k \<and>
      sk_pkts s' = sk_pkts s \<and> sk_qums s' = sk_qums s) \<and>
    (\<exists>s' q'. QUM_EXTERNALIZE p a s = Some s' \<and> sk_uqums s' = (sk_uqums s)(a \<mapsto> q') \<and>
      qum_qflags q' AND (QUM_F_INTERNALIZED OR QUM_F_KERNEL_ONLY) = 0 \<and>
      qum_qflags q' AND (QUM_F_FINALIZED OR QUM_F_DROPPED) = qum_qflags kq AND (QUM_F_FINALIZED OR QUM_F_DROPPED) \<and>
      qum_len q' = qum_len kq \<and> sk_qums s' = sk_qums s \<and> sk_pkts s' = sk_pkts s \<and>
      sk_mds s' (METADATA_PREAMBLE a) = sk_mds s (METADATA_PREAMBLE p))"
proof -
  obtain km um where m: "sk_mds s (METADATA_PREAMBLE p) = Some km" "sk_mds s (METADATA_PREAMBLE a) = Some um"
    using mds by blast
  have ap: "apart 16 p a" "apart 16 (pkt_com_opt k) (a + upkt_com_opt_off)"
    using bytes(3) opts(4) by (simp_all add: apart_def)
  have q: "(f AND NOT QUM_F_KERNEL_FLAGS) AND (QUM_F_INTERNALIZED OR QUM_F_KERNEL_ONLY) = 0"
    "(f AND NOT QUM_F_KERNEL_FLAGS) AND (QUM_F_FINALIZED OR QUM_F_DROPPED) = f AND (QUM_F_FINALIZED OR QUM_F_DROPPED)" for f
    by (simp_all add: qum_flags and.assoc)
  show ?thesis
    using PKT_INTERNALIZE_eq [OF u k _ refl] PKT_EXTERNALIZE_eq [OF u k] QUM_INTERNALIZE_eq [OF uq kq bytes]
      QUM_EXTERNALIZE_eq [OF uq kq bytes(1,2) ap(1) m] opts ap m
    by (simp add: map_upd_eq_iff flags_merge pkt_copy24_def qum_copy24_def QUM_F_SAVE_MASK_def q)
qed

text \<open>A user packet that claims a kernel flag, and a kernel packet with options, for the witnesses.\<close>

definition boundary_kpkt :: kern_packet where
  "boundary_kpkt = (the (sk_pkts zero_sk 0x1000))\<lparr>pkt_pflags := PKT_F_OPT_ALLOC OR PKT_F_OPT_TOKEN, pkt_com_opt := 0x5000\<rparr>"

definition boundary_upkt :: user_packet where
  "boundary_upkt = (the (sk_upkts zero_sk 0x8000))\<lparr>pkt_pflags := PKT_F_MBUF_DATA OR PKT_F_REALTIME\<rparr>"

definition boundary_sk :: sk_mem where
  "boundary_sk = zero_sk\<lparr>sk_pkts := [0x1000 \<mapsto> boundary_kpkt], sk_upkts := [0x8000 \<mapsto> boundary_upkt]\<rparr>"

lemma boundary_sk_facts:
  "sk_upkts boundary_sk 0x8000 = Some boundary_upkt" "sk_pkts boundary_sk 0x1000 = Some boundary_kpkt"
  "sk_uqums boundary_sk 0x8000 = Some (the (sk_uqums zero_sk 0x8000))"
  "sk_qums boundary_sk 0x1000 = Some (the (sk_qums zero_sk 0x1000))"
  "owned (sk_bytes boundary_sk) 0x8000 16" "owned (sk_bytes boundary_sk) 0x1000 16" "apart 16 0x8000 0x1000"
  "pkt_pflags boundary_kpkt AND PKT_F_OPT_ALLOC \<noteq> 0" "opt_at boundary_sk (0x8000 + upkt_com_opt_off)"
  "opt_at boundary_sk (pkt_com_opt boundary_kpkt)" "apart 16 (0x8000 + upkt_com_opt_off) (pkt_com_opt boundary_kpkt)"
  "sk_mds boundary_sk (METADATA_PREAMBLE 0x1000) \<noteq> None" "sk_mds boundary_sk (METADATA_PREAMBLE 0x8000) \<noteq> None"
  by (simp_all add: boundary_sk_def opt_at_def)
    (simp_all add: zero_sk_def boundary_kpkt_def apart_def upkt_com_opt_off_def pkt_flags)

theorem user_kernel_boundary_witness:
  "\<exists>s' k'. PKT_INTERNALIZE 0x8000 0x1000 boundary_sk = Some s' \<and> sk_pkts s' 0x1000 = Some k' \<and>
     pkt_pflags boundary_upkt = PKT_F_MBUF_DATA OR PKT_F_REALTIME \<and>
     pkt_pflags k' AND NOT PKT_F_USER_MASK = PKT_F_OPT_ALLOC \<and> pkt_pflags k' AND PKT_F_USER_MASK = PKT_F_REALTIME"
proof -
  obtain s' k' where "PKT_INTERNALIZE 0x8000 0x1000 boundary_sk = Some s'" "sk_pkts s' = (sk_pkts boundary_sk)(0x1000 \<mapsto> k')"
    "pkt_pflags k' AND NOT PKT_F_USER_MASK = pkt_pflags boundary_kpkt AND NOT PKT_F_USER_MASK"
    "pkt_pflags k' AND PKT_F_USER_MASK = pkt_pflags boundary_upkt AND PKT_F_USER_MASK"
    using user_kernel_boundary [OF boundary_sk_facts] by blast
  then show ?thesis
    by (simp add: boundary_kpkt_def boundary_upkt_def) (simp add: pkt_masks pkt_flags)
qed

lemma cpy_back:
  assumes "apart n a b"
  shows "cpy n b a (cpy n a b m) = cpy n a b m"
proof
  fix x
  have 1: "b + (x - a) - b = x - a" by simp
  show "cpy n b a (cpy n a b m) x = cpy n a b m x"
  proof (cases "unat (x - a) < n")
    case True
    have "\<not> unat (x - b) < n"
    proof
      assume l: "unat (x - b) < n"
      have "a - b = (x - b) - (x - a)" "b - a = (x - a) - (x - b)" by simp_all
      then show False
        using assms True l unat_sub_le [of "x - a" "x - b"] unat_sub_le [of "x - b" "x - a"]
        by (cases "unat (x - a) \<le> unat (x - b)") (auto simp: apart_def)
    qed
    then show ?thesis using True by (simp add: cpy_def)
  qed (simp add: cpy_def)
qed

text \<open>
  C21: What the kernel externalises and takes back unchanged is what it had: after \<open>_PKT_EXTERNALIZE\<close>
  and \<open>_PKT_INTERNALIZE\<close> of the same pair the kernel packet, its options and the token in them are as
  before, and after \<open>_QUM_EXTERNALIZE\<close> and \<open>_QUM_INTERNALIZE\<close> so are the quantum and its flow identifier,
  except that of its flags only \<open>QUM_F_KERNEL_ONLY\<close> is left: the packet has to be finalised again.
\<close>
theorem externalize_internalize_round_trip:
  assumes u: "sk_upkts s a = Some u" and k: "sk_pkts s p = Some k"
    and uq: "sk_uqums s a = Some uq" and kq: "sk_qums s p = Some kq"
    and bytes: "owned (sk_bytes s) a 16" "owned (sk_bytes s) p 16" "apart 16 a p"
    and opts: "pkt_pflags k AND PKT_F_OPT_ALLOC \<noteq> 0" "opt_at s (a + upkt_com_opt_off)" "opt_at s (pkt_com_opt k)"
      "apart 16 (a + upkt_com_opt_off) (pkt_com_opt k)"
    and mds: "sk_mds s (METADATA_PREAMBLE p) \<noteq> None" "sk_mds s (METADATA_PREAMBLE a) \<noteq> None"
  shows "(\<exists>s1 s2. PKT_EXTERNALIZE p a s = Some s1 \<and> PKT_INTERNALIZE a p s1 = Some s2 \<and> sk_pkts s2 = sk_pkts s \<and>
      sk_opts s2 (pkt_com_opt k) = sk_opts s (pkt_com_opt k) \<and>
      (\<forall>i < 16. sk_bytes s2 (pkt_com_opt k + po_token_off + of_nat i) = sk_bytes s (pkt_com_opt k + po_token_off + of_nat i))) \<and>
    (\<exists>s1 s2. QUM_EXTERNALIZE p a s = Some s1 \<and> QUM_INTERNALIZE a p s1 = Some s2 \<and>
      sk_qums s2 = (sk_qums s)(p \<mapsto> kq\<lparr>qum_qflags := qum_qflags kq AND QUM_F_KERNEL_ONLY\<rparr>) \<and>
      (\<forall>i < 16. sk_bytes s2 (p + of_nat i) = sk_bytes s (p + of_nat i)))"
proof -
  obtain km um where m: "sk_mds s (METADATA_PREAMBLE p) = Some km" "sk_mds s (METADATA_PREAMBLE a) = Some um"
    using mds by blast
  let ?ao = "a + upkt_com_opt_off" and ?ko = "pkt_com_opt k"
  have ap: "apart 16 p a" "apart 16 ?ko ?ao" "apart 16 (?ko + po_token_off) (?ao + po_token_off)"
    using bytes(3) opts(4) by (simp_all add: apart_def)
  have ne: "?ao \<noteq> ?ko" using opts(4) by (auto simp: apart_def)
  have keep: "cpy 16 x y M (x + of_nat i) = M (x + of_nat i)" if "apart 16 x y" "i < 16" for x y M i
  proof -
    have "cpy 16 y x (cpy 16 x y M) (x + of_nat i) = cpy 16 x y M (y + of_nat i)"
      using that(2) by (simp add: cpy_def unat_of_nat)
    also have "\<dots> = M (x + of_nat i)" using that(2) by (simp add: cpy_def unat_of_nat)
    finally show ?thesis by (simp only: cpy_back [OF that(1)])
  qed
  have merge: "(pkt_pflags k AND PKT_F_USER_MASK) OR (pkt_pflags k AND NOT PKT_F_USER_MASK) = pkt_pflags k"
    by (auto simp: bit_eq_iff bit_simps)
  obtain s1 where s1: "PKT_EXTERNALIZE p a s = Some s1"
    and f1: "sk_upkts s1 a = Some ((pkt_copy24 k u)\<lparr>pkt_pflags := pkt_pflags k AND PKT_F_USER_MASK\<rparr>)" "sk_pkts s1 = sk_pkts s"
      "sk_opts s1 = (if pkt_pflags k AND PKT_F_OPT_DATA = 0 then sk_opts s else (sk_opts s)(?ao := sk_opts s ?ko))"
      "sk_bytes s1 = (if pkt_pflags k AND PKT_F_OPT_DATA = 0 then sk_bytes s
         else cpy 16 (?ko + po_token_off) (?ao + po_token_off) (sk_bytes s))"
    using PKT_EXTERNALIZE_eq [OF u k] opts ap by simp
  have own: "owned (cpy 16 x y M) z 16 = owned M z 16" if "owned M x 16" "owned M y 16" for x y z M
    using owned_dom_cong [OF dom_cpy [OF that]] by simp
  have o1: "opt_at s1 ?ao" "opt_at s1 ?ko"
    using opts own by (auto simp: opt_at_def f1)
  obtain t1 where t1: "QUM_EXTERNALIZE p a s = Some t1"
    and g1: "sk_uqums t1 a = Some ((qum_copy24 kq uq)\<lparr>qum_qflags := qum_qflags kq AND NOT QUM_F_KERNEL_FLAGS, qum_usecnt := 0\<rparr>)"
      "sk_qums t1 = sk_qums s" "sk_bytes t1 = cpy 16 p a (sk_bytes s)"
    using QUM_EXTERNALIZE_eq [OF uq kq bytes(1,2) ap(1) m] by simp
  have "PKT_INTERNALIZE a p s1 = Some (s1\<lparr>
      sk_pkts := (sk_pkts s1)(p \<mapsto> (pkt_copy24 ((pkt_copy24 k u)\<lparr>pkt_pflags := pkt_pflags k AND PKT_F_USER_MASK\<rparr>) k)\<lparr>pkt_pflags := pkt_pflags k\<rparr>),
      sk_opts := (if pkt_pflags k AND PKT_F_OPT_DATA = 0 then sk_opts s1 else (sk_opts s1)(?ko := sk_opts s1 ?ao)),
      sk_bytes := (if pkt_pflags k AND PKT_F_OPT_DATA = 0 then sk_bytes s1
         else cpy 16 (?ao + po_token_off) (?ko + po_token_off) (sk_bytes s1))\<rparr>)"
    using k opts(1,4) o1 by (intro PKT_INTERNALIZE_eq) (simp_all add: f1 merge)
  moreover have "(pkt_copy24 ((pkt_copy24 k u)\<lparr>pkt_pflags := pkt_pflags k AND PKT_F_USER_MASK\<rparr>) k)\<lparr>pkt_pflags := pkt_pflags k\<rparr> = k"
    by (simp add: pkt_copy24_def)
  moreover have "QUM_INTERNALIZE a p t1 = Some (t1\<lparr>
      sk_qums := (sk_qums t1)(p \<mapsto> kq\<lparr>qum_qflags := qum_qflags kq AND QUM_F_SAVE_MASK\<rparr>),
      sk_bytes := cpy 16 a p (sk_bytes t1)\<rparr>)"
    using QUM_INTERNALIZE_eq [OF g1(1), of p kq] kq bytes own by (simp add: g1 qum_copy24_def)
  ultimately show ?thesis
    using s1 t1 k ne
    by (simp add: f1 g1 cpy_back ap keep QUM_F_SAVE_MASK_def fun_upd_idem)
qed

theorem externalize_internalize_round_trip_witness:
  "\<exists>s1 s2. PKT_EXTERNALIZE 0x1000 0x8000 boundary_sk = Some s1 \<and> PKT_INTERNALIZE 0x8000 0x1000 s1 = Some s2 \<and>
     sk_pkts s2 0x1000 = Some boundary_kpkt"
  using externalize_internalize_round_trip [OF boundary_sk_facts] boundary_sk_facts(2) by auto

subsection \<open>Use counts of buffers\<close>

text \<open>
  The buflets on a buffer control, and the invariant: the use count of every buffer control is the
  number of buflets on it, a buffer that may not be shared has at most one, and no buflet is on a
  buffer control that does not exist.
\<close>

definition buf_refs :: "(ptr \<rightharpoonup> kern_buflet) \<Rightarrow> ptr \<Rightarrow> ptr set" where
  "buf_refs B c = {a. \<exists>b. B a = Some b \<and> buf_ctl b = c}"

definition use_counts_ok :: "sk_mem \<Rightarrow> bool" where
  "use_counts_ok s \<longleftrightarrow> finite (dom (sk_bufs s)) \<and>
     (\<forall>a b. sk_bufs s a = Some b \<longrightarrow> buf_ctl b \<noteq> NULL \<longrightarrow> sk_ctls s (buf_ctl b) \<noteq> None) \<and>
     (\<forall>c d. c \<noteq> NULL \<longrightarrow> sk_ctls s c = Some d \<longrightarrow> unat (bc_usecnt d) = card (buf_refs (sk_bufs s) c) \<and>
        (bc_flags d AND SKMEM_BUFCTL_SHAREOK = 0 \<longrightarrow> bc_usecnt d \<le> 1))"

lemma buf_refs_upd:
  "buf_refs (B(a \<mapsto> b)) c = (if buf_ctl b = c then insert a (buf_refs B c) else buf_refs B c - {a})"
  by (auto simp: buf_refs_def split: if_splits)

lemma finite_buf_refs: "finite (dom B) \<Longrightarrow> finite (buf_refs B c)"
  by (rule finite_subset [of _ "dom B"]) (auto simp: buf_refs_def)

lemma skmem_bufctl_use_Some:
  "skmem_bufctl_use c s = Some s' \<longleftrightarrow> (\<exists>d. sk_ctls s c = Some d \<and> bc_usecnt d + 1 \<noteq> 0 \<and>
     (bc_usecnt d + 1 = 1 \<or> bc_flags d AND SKMEM_BUFCTL_SHAREOK \<noteq> 0) \<and>
     s' = s\<lparr>sk_ctls := (sk_ctls s)(c \<mapsto> d\<lparr>bc_usecnt := bc_usecnt d + 1\<rparr>)\<rparr>)"
  by (auto simp: skmem_bufctl_use_def upd_defs Let_def bind_eq_Some_conv)

text \<open>A buflet without a buffer is put on the buffer control \<open>c\<close>, whose count is raised.\<close>

lemma use_counts_attach:
  assumes ok: "use_counts_ok s" and b0: "sk_bufs s a = Some b0" "buf_ctl b0 = NULL"
    and use: "if buf_ctl b = NULL then s' = s\<lparr>sk_bufs := (sk_bufs s)(a \<mapsto> b)\<rparr>
      else skmem_bufctl_use (buf_ctl b) (s\<lparr>sk_bufs := (sk_bufs s)(a \<mapsto> b)\<rparr>) = Some s'"
  shows "use_counts_ok s'"
proof -
  have a: "a \<notin> buf_refs (sk_bufs s) c" if "c \<noteq> NULL" for c
    using b0 that by (simp add: buf_refs_def)
  have fin: "finite (buf_refs (sk_bufs s) c)" for c
    using ok by (intro finite_buf_refs) (simp add: use_counts_ok_def)
  show ?thesis
  proof (cases "buf_ctl b = NULL")
    case True
    then show ?thesis
      using ok use a by (auto simp: use_counts_ok_def buf_refs_upd)
  next
    case False
    then obtain d where d: "sk_ctls s (buf_ctl b) = Some d" "bc_usecnt d + 1 \<noteq> 0"
      "bc_usecnt d + 1 = 1 \<or> bc_flags d AND SKMEM_BUFCTL_SHAREOK \<noteq> 0"
      and s': "s' = s\<lparr>sk_bufs := (sk_bufs s)(a \<mapsto> b), sk_ctls := (sk_ctls s)(buf_ctl b \<mapsto> d\<lparr>bc_usecnt := bc_usecnt d + 1\<rparr>)\<rparr>"
      using use by (auto simp: skmem_bufctl_use_Some)
    have inc: "unat (bc_usecnt d + 1) = unat (bc_usecnt d) + 1"
      using d(2) unatSuc [of "bc_usecnt d"] by (simp add: add.commute)
    show ?thesis
      using ok False d a fin unfolding s' use_counts_ok_def by (auto simp: buf_refs_upd inc)
  qed
qed

text \<open>A buflet on the buffer control \<open>c\<close> is taken off it, and the count is lowered.\<close>

lemma use_counts_detach:
  assumes ok: "use_counts_ok s" and b: "sk_bufs s a = Some b" "buf_ctl b \<noteq> NULL" and b': "buf_ctl b' = NULL"
  shows "\<exists>d. sk_ctls s (buf_ctl b) = Some d \<and> bc_usecnt d \<noteq> 0 \<and>
    (bc_usecnt d = 1 \<or> bc_flags d AND SKMEM_BUFCTL_SHAREOK \<noteq> 0) \<and>
    unat (bc_usecnt d - 1) = card (buf_refs (sk_bufs s) (buf_ctl b) - {a}) \<and>
    use_counts_ok (s\<lparr>sk_ctls := (sk_ctls s)(buf_ctl b \<mapsto> d\<lparr>bc_usecnt := bc_usecnt d - 1\<rparr>),
      sk_bufs := (sk_bufs s)(a \<mapsto> b')\<rparr>)"
proof -
  have fin: "finite (buf_refs (sk_bufs s) c)" for c
    using ok by (intro finite_buf_refs) (simp add: use_counts_ok_def)
  obtain d where d: "sk_ctls s (buf_ctl b) = Some d" "unat (bc_usecnt d) = card (buf_refs (sk_bufs s) (buf_ctl b))"
    "bc_flags d AND SKMEM_BUFCTL_SHAREOK = 0 \<Longrightarrow> bc_usecnt d \<le> 1"
    using ok b by (fastforce simp: use_counts_ok_def)
  have a: "a \<in> buf_refs (sk_bufs s) (buf_ctl b)" "c \<noteq> buf_ctl b \<Longrightarrow> a \<notin> buf_refs (sk_bufs s) c" for c
    using b by (auto simp: buf_refs_def)
  have pos: "bc_usecnt d \<noteq> 0"
    using d(2) a(1) fin [of "buf_ctl b"] by (auto simp: card_eq_0_iff)
  then have dec: "unat (bc_usecnt d - 1) = unat (bc_usecnt d) - 1"
    by (simp add: unat_minus_one)
  have card: "card (buf_refs (sk_bufs s) (buf_ctl b) - {a}) = unat (bc_usecnt d) - 1"
    using a(1) fin by (simp add: d(2))
  have one: "bc_usecnt d = 1 \<or> bc_flags d AND SKMEM_BUFCTL_SHAREOK \<noteq> 0"
    using d(3) pos by (auto simp: word_le_nat_alt word_unat_eq_iff le_Suc_eq)
  have "use_counts_ok (s\<lparr>sk_ctls := (sk_ctls s)(buf_ctl b \<mapsto> d\<lparr>bc_usecnt := bc_usecnt d - 1\<rparr>),
      sk_bufs := (sk_bufs s)(a \<mapsto> b')\<rparr>)"
    using ok b' a d(3) one pos unfolding use_counts_ok_def
    by (auto simp: buf_refs_upd dec card b(2))
  then show ?thesis
    using d pos one dec card by auto
qed

lemma use_counts_cong:
  "use_counts_ok s \<Longrightarrow> sk_bufs s' = sk_bufs s \<Longrightarrow> sk_ctls s' = sk_ctls s \<Longrightarrow> use_counts_ok s'"
  by (simp add: use_counts_ok_def)

lemma attach_or_use:
  assumes "use_counts_ok s" "sk_bufs s a = Some b" "buf_ctl b = NULL"
    "(if buf_ctl b' \<noteq> NULL then skmem_bufctl_use (buf_ctl b') (s\<lparr>sk_bufs := (sk_bufs s)(a \<mapsto> b')\<rparr>)
      else Some (s\<lparr>sk_bufs := (sk_bufs s)(a \<mapsto> b')\<rparr>)) = Some s'"
  shows "use_counts_ok s' \<and> sk_bufs s' a = Some b'"
  using use_counts_attach [OF assms(1-3), of b' s'] assms(4)
  by (auto simp: skmem_bufctl_use_Some split: if_splits)

lemma KBUF_CTOR_counts:
  assumes "use_counts_ok s" "sk_bufs s a = Some b" "buf_ctl b = NULL" "KBUF_CTOR a baddr i c pp s = Some s'"
  shows "use_counts_ok s' \<and> (\<exists>b'. sk_bufs s' a = Some b' \<and> buf_ctl b' = c \<and> buf_addr b' = baddr)"
proof -
  obtain pool where "sk_pools s pp = Some pool"
    using assms(4) by (auto simp: KBUF_CTOR_def bind_eq_Some_conv)
  then show ?thesis
    using attach_or_use [OF assms(1-3), of "(BUF_CTOR baddr i (pp_buflet_size pool) 0 0 (buf_nbft_addr b) (buf_nbft_idx b) (buf_flag b) b)\<lparr>buf_ctl := c\<rparr>" s']
      assms(2,4) by (simp add: KBUF_CTOR_def upd_defs BUF_CTOR_def cong: if_cong)
qed

lemma KBUF_EXT_CTOR_counts:
  assumes ok: "use_counts_ok s" and b: "sk_bufs s a = Some b" "buf_ctl b = NULL"
    and c: "KBUF_EXT_CTOR a ub baddr i c j pp s = Some s'"
  shows "use_counts_ok s'"
proof -
  let ?b = "b\<lparr>buf_flag := BUFLET_FLAG_EXTERNAL, buf_nbft_idx := OBJ_IDX_NONE, buf_bft_idx_reg := j\<rparr>"
  let ?s = "s\<lparr>sk_bufs := (sk_bufs s)(a \<mapsto> ?b)\<rparr>"
  obtain e where e: "KBUF_CTOR a baddr i c pp (?s\<lparr>sk_exts := e\<rparr>) = Some s'"
    using c b(1) by (auto simp: KBUF_EXT_CTOR_def upd_defs bind_eq_Some_conv)
  have "use_counts_ok ?s"
    using attach_or_use [OF ok b, of ?b ?s] b(2) by simp
  then have "use_counts_ok (?s\<lparr>sk_exts := e\<rparr>)"
    by (rule use_counts_cong) simp_all
  from KBUF_CTOR_counts [OF this _ _ e] show ?thesis
    using b(2) by simp
qed

lemma KBUF_COPY_counts:
  assumes "use_counts_ok s" "sk_bufs s a = Some b" "buf_ctl b = NULL" "sk_bufs s q = Some qb" "KBUF_COPY q a s = Some s'"
  shows "use_counts_ok s' \<and> (\<exists>b'. sk_bufs s' a = Some b' \<and> buf_ctl b' = buf_ctl qb \<and> buf_addr b' = buf_addr qb)"
  using attach_or_use [OF assms(1-3), of "buf_flag_update (\<lambda>f. f AND NOT BUFLET_FLAG_EXTERNAL) qb" s'] assms(2,4,5)
  by (auto simp: KBUF_COPY_def upd_defs bind_eq_Some_conv cong: if_cong)

lemma KBUF_DTOR_counts:
  assumes ok: "use_counts_ok s" and b: "sk_bufs s a = Some b"
  shows "\<exists>n' s' b'. KBUF_DTOR a n s = Some (n', s') \<and> use_counts_ok s' \<and> sk_bufs s' a = Some b' \<and> buf_ctl b' = NULL \<and>
    (buf_ctl b \<noteq> NULL \<longrightarrow> unat n' = card (buf_refs (sk_bufs s) (buf_ctl b) - {a})) \<and> (buf_ctl b = NULL \<longrightarrow> n' = n)"
proof (cases "buf_ctl b = NULL")
  case True
  then show ?thesis
    using b attach_or_use [OF ok b True, of "b\<lparr>buf_addr := 0, buf_idx := OBJ_IDX_NONE\<rparr>"]
    by (simp add: KBUF_DTOR_def upd_defs)
next
  case False
  let ?b = "b\<lparr>buf_ctl := NULL, buf_addr := 0, buf_idx := OBJ_IDX_NONE\<rparr>"
  obtain d where "sk_ctls s (buf_ctl b) = Some d" "bc_usecnt d \<noteq> 0"
    "bc_usecnt d = 1 \<or> bc_flags d AND SKMEM_BUFCTL_SHAREOK \<noteq> 0"
    "unat (bc_usecnt d - 1) = card (buf_refs (sk_bufs s) (buf_ctl b) - {a})"
    "use_counts_ok (s\<lparr>sk_ctls := (sk_ctls s)(buf_ctl b \<mapsto> d\<lparr>bc_usecnt := bc_usecnt d - 1\<rparr>), sk_bufs := (sk_bufs s)(a \<mapsto> ?b)\<rparr>)"
    using use_counts_detach [OF ok b False, of ?b] by auto
  then show ?thesis
    using b False by (auto simp: KBUF_DTOR_def skmem_bufctl_unuse_def upd_defs Let_def)
qed

text \<open>
  Calls of the macros on buflets, and what a caller must see to: the buflet exists, and one that is
  constructed or copied to has no buffer yet, since neither macro gives up an old one.
\<close>

datatype buflet_op =
    BufCtor ptr ptr u32 ptr ptr
  | BufExtCtor ptr ptr ptr u32 ptr u32 ptr
  | BufCopy ptr ptr
  | BufDtor ptr

fun buflet_run :: "buflet_op \<Rightarrow> sk_mem \<Rightarrow> sk_mem option" where
  "buflet_run (BufCtor a baddr i c pp) s = KBUF_CTOR a baddr i c pp s"
| "buflet_run (BufExtCtor a ub baddr i c j pp) s = KBUF_EXT_CTOR a ub baddr i c j pp s"
| "buflet_run (BufCopy q a) s = KBUF_COPY q a s"
| "buflet_run (BufDtor a) s = map_option snd (KBUF_DTOR a 0 s)"

definition no_buffer :: "sk_mem \<Rightarrow> ptr \<Rightarrow> bool" where
  "no_buffer s a \<longleftrightarrow> (case sk_bufs s a of None \<Rightarrow> False | Some b \<Rightarrow> buf_ctl b = NULL)"

fun buflet_may :: "buflet_op \<Rightarrow> sk_mem \<Rightarrow> bool" where
  "buflet_may (BufCtor a baddr i c pp) s = no_buffer s a"
| "buflet_may (BufExtCtor a ub baddr i c j pp) s = no_buffer s a"
| "buflet_may (BufCopy q a) s = no_buffer s a"
| "buflet_may (BufDtor a) s = (sk_bufs s a \<noteq> None)"

text \<open>\<open>buflet_runs ops s s'\<close>: the calls \<open>ops\<close>, each allowed where it is made and none of which panics, lead from \<open>s\<close> to \<open>s'\<close>.\<close>

inductive buflet_runs :: "buflet_op list \<Rightarrow> sk_mem \<Rightarrow> sk_mem \<Rightarrow> bool" where
  Nil: "buflet_runs [] s s"
| Cons: "buflet_may op s \<Longrightarrow> buflet_run op s = Some s1 \<Longrightarrow> buflet_runs ops s1 s2 \<Longrightarrow> buflet_runs (op # ops) s s2"

lemma buflet_run_counts:
  assumes "use_counts_ok s" "buflet_may op s" "buflet_run op s = Some s'"
  shows "use_counts_ok s'"
proof (cases op)
  case (BufCtor a baddr i c pp)
  then show ?thesis using assms KBUF_CTOR_counts by (auto simp: no_buffer_def split: option.splits)
next
  case (BufExtCtor a ub baddr i c j pp)
  then show ?thesis using assms KBUF_EXT_CTOR_counts by (auto simp: no_buffer_def split: option.splits)
next
  case (BufCopy q a)
  moreover from this obtain qb where "sk_bufs s q = Some qb" using assms(3) by (auto simp: KBUF_COPY_def bind_eq_Some_conv)
  ultimately show ?thesis using assms KBUF_COPY_counts by (auto simp: no_buffer_def split: option.splits)
next
  case (BufDtor a)
  then show ?thesis using assms KBUF_DTOR_counts [OF assms(1), of a _ 0] by auto
qed

lemma buflet_runs_counts: "buflet_runs ops s s' \<Longrightarrow> use_counts_ok s \<Longrightarrow> use_counts_ok s'"
  by (induction rule: buflet_runs.induct) (auto intro: buflet_run_counts)

text \<open>
  C13: Start where the use count of every buffer is the number of buflets on it. After any sequence of
  constructing, copying and destroying buflets that returns, where the buflet constructed or copied to
  has no buffer, this is so again: the count of every buffer is the number of buflets on it. Then
  destroying any buflet does not panic, takes it off its buffer, reports the number of buflets that are
  left on the buffer, zero for the last one, and keeps the counts right.
\<close>
theorem buffer_use_counts:
  assumes ok: "use_counts_ok s" and run: "buflet_runs ops s s'"
  shows "(\<forall>c d. c \<noteq> NULL \<longrightarrow> sk_ctls s' c = Some d \<longrightarrow> unat (bc_usecnt d) = card (buf_refs (sk_bufs s') c)) \<and>
    (\<forall>a b n. sk_bufs s' a = Some b \<longrightarrow> (\<exists>n' s2 b'. KBUF_DTOR a n s' = Some (n', s2) \<and> use_counts_ok s2 \<and>
      sk_bufs s2 a = Some b' \<and> buf_ctl b' = NULL \<and>
      (buf_ctl b \<noteq> NULL \<longrightarrow> unat n' = card (buf_refs (sk_bufs s') (buf_ctl b) - {a})) \<and> (buf_ctl b = NULL \<longrightarrow> n' = n)))"
proof -
  have ok': "use_counts_ok s'" by (rule buflet_runs_counts [OF run ok])
  then show ?thesis using KBUF_DTOR_counts [OF ok'] by (simp add: use_counts_ok_def)
qed

theorem buffer_use_counts_witness:
  "\<exists>s s1 s2. use_counts_ok s \<and> buflet_runs [BufCtor 8 0x9000 3 0x40 0x3000, BufDtor 8, BufCtor 8 0x9000 3 0x40 0x3000] s s1 \<and>
     KBUF_DTOR 8 7 s1 = Some (0, s2) \<and> use_counts_ok s2"
proof -
  let ?op = "BufCtor 8 0x9000 3 0x40 0x3000"
  let ?st = "\<lambda>b n. zero_sk\<lparr>sk_bufs := [8 \<mapsto> b],
    sk_ctls := [0x40 \<mapsto> \<lparr>bc_addr = 0, bc_slab = 0, bc_lim = 0, bc_flags = 0, bc_idx = 0, bc_usecnt = n\<rparr>]\<rparr>"
  let ?on = "\<lambda>b. b\<lparr>buf_addr := 0x9000, buf_idx := 3, buf_dlim := 0, buf_dlen := 0, buf_doff := 0, buf_ctl := 0x40\<rparr>"
  let ?off = "\<lambda>b. b\<lparr>buf_ctl := NULL, buf_addr := 0, buf_idx := OBJ_IDX_NONE\<rparr>"
  define b0 where "b0 = the (sk_bufs zero_sk 8)"
  have n: "buf_ctl b0 = NULL" by (simp add: b0_def zero_sk_def)
  have pool: "sk_pools (?st b n) 0x3000 = Some \<lparr>pp_flags = 0, pp_buflet_size = 0, pp_md_type = 2, pp_md_subtype = 2\<rparr>" for b n
    by (simp add: zero_sk_def)
  have ctor: "buflet_run ?op (?st b 0) = Some (?st (?on b) 1)" for b
    by (simp only: buflet_run.simps KBUF_CTOR_def pool) (simp add: upd_defs skmem_bufctl_use_def Let_def BUF_CTOR_def)
  have dtor: "buflet_run (BufDtor 8) (?st (?on b) 1) = Some (?st (?off (?on b)) 0)" for b
    by (simp add: KBUF_DTOR_def upd_defs skmem_bufctl_unuse_def Let_def)
  have refs: "buf_refs [8 \<mapsto> b0] c = {}" if "c \<noteq> NULL" for c
    using that n by (auto simp: buf_refs_def split: if_splits)
  have ok: "use_counts_ok (?st b0 0)"
    using n refs unfolding use_counts_ok_def by (auto split: if_splits)
  let ?s3 = "?st (?on (?off (?on b0))) 1"
  have runs: "buflet_runs [?op, BufDtor 8, ?op] (?st b0 0) ?s3"
    using n by (auto intro!: buflet_runs.intros ctor dtor simp: no_buffer_def simp del: buflet_run.simps)
  have "buf_refs (sk_bufs ?s3) 0x40 = {8}" by (auto simp: buf_refs_def split: if_splits)
  then obtain n' s4 where "KBUF_DTOR 8 7 ?s3 = Some (n', s4)" "use_counts_ok s4" "unat n' = 0"
    using buffer_use_counts [OF ok runs, THEN conjunct2, rule_format, of 8 "?on (?off (?on b0))" 7] by auto
  then show ?thesis using ok runs by (auto simp: unat_eq_0)
qed

end
