(* ===== verification/PacketMeta.thy ===== *)
theory PacketMeta
  imports PacketObj
begin

text \<open>
  skywalk/packet/packet_common.h, the accessors of packet metadata in the kernel: header lengths,
  flags, expiry time, token and packet identifier, VLAN tag, service and traffic class, checksum
  offload, flow identifier, timestamps, transmit completion data and the one's complement sums.
  Arguments that are pointers to the caller's variables are addresses in the byte memory; a
  routine that passes the address of a local takes the address of that local as its last arguments.
  \<open>boolean_t\<close> is 32 bits wide.
\<close>

definition PKT_ADDR :: "u64 \<Rightarrow> ptr" where "PKT_ADDR ph = SK_PTR_ADDR_KPKT ph"
definition QUM_ADDR :: "u64 \<Rightarrow> ptr" where "QUM_ADDR ph = SK_PTR_ADDR_KQUM ph"

definition PKT_SUBTYPE_ASSERT :: "u64 \<Rightarrow> u64 \<Rightarrow> u64 \<Rightarrow> unit option" where
  "PKT_SUBTYPE_ASSERT ph t u = (if SK_PTR_TYPE ph \<noteq> t \<or> SK_PTR_SUBTYPE ph \<noteq> u then None else Some ())"

definition PKT_TYPE_ASSERT :: "u64 \<Rightarrow> u64 \<Rightarrow> unit option" where
  "PKT_TYPE_ASSERT ph t = (if SK_PTR_TYPE ph \<noteq> t then None else Some ())"

abbreviation PKT_RAW_ASSERT :: "u64 \<Rightarrow> unit option" where
  "PKT_RAW_ASSERT ph \<equiv> PKT_SUBTYPE_ASSERT ph NEXUS_META_TYPE_PACKET NEXUS_META_SUBTYPE_RAW"

abbreviation PKT_ASSERT :: "u64 \<Rightarrow> unit option" where
  "PKT_ASSERT ph \<equiv> PKT_TYPE_ASSERT ph NEXUS_META_TYPE_PACKET"

text \<open>An assignment that is followed by \<open>return 0\<close>.\<close>

definition ret0 :: "sk_mem option \<Rightarrow> (int \<times> sk_mem) option" where
  "ret0 r = map_option (Pair 0) r"

definition c_bool :: "bool \<Rightarrow> u32" where "c_bool b = (if b then 1 else 0)"

subsection \<open>Header lengths\<close>

definition packet_set_headroom :: "u64 \<Rightarrow> u8 \<Rightarrow> sk_mem \<Rightarrow> (int \<times> sk_mem) option" where
  "packet_set_headroom ph headroom s = do {
     PKT_RAW_ASSERT ph;
     b \<leftarrow> sk_bufs s (PKT_ADDR ph + qum_buf_off);
     if ucast headroom < buf_dlim b then ret0 (upd_pkt (PKT_ADDR ph) (pkt_headroom_update (\<lambda>_. headroom)) s)
     else Some (ERANGE, s) }"

definition packet_get_headroom :: "u64 \<Rightarrow> sk_mem \<Rightarrow> u8 option" where
  "packet_get_headroom ph s = do {
     PKT_RAW_ASSERT ph;
     k \<leftarrow> sk_pkts s (PKT_ADDR ph);
     Some (pkt_headroom k) }"

definition packet_set_link_header_length :: "u64 \<Rightarrow> u8 \<Rightarrow> sk_mem \<Rightarrow> (int \<times> sk_mem) option" where
  "packet_set_link_header_length ph len s = do {
     PKT_ASSERT ph;
     b \<leftarrow> sk_bufs s (PKT_ADDR ph + qum_buf_off);
     if ucast len \<le> buf_dlim b then ret0 (upd_pkt (PKT_ADDR ph) (pkt_l2_len_update (\<lambda>_. len)) s)
     else Some (ERANGE, s) }"

definition packet_get_link_header_length :: "u64 \<Rightarrow> sk_mem \<Rightarrow> u8 option" where
  "packet_get_link_header_length ph s = do {
     PKT_ASSERT ph;
     k \<leftarrow> sk_pkts s (PKT_ADDR ph);
     Some (pkt_l2_len k) }"

subsection \<open>Flags\<close>

definition packet_set_link_broadcast :: "u64 \<Rightarrow> sk_mem \<Rightarrow> (int \<times> sk_mem) option" where
  "packet_set_link_broadcast ph s = do {
     PKT_RAW_ASSERT ph;
     ret0 (upd_pkt (PKT_ADDR ph) (pkt_link_flags_update (\<lambda>f. f OR PKT_LINKF_BCAST)) s) }"

definition packet_get_link_broadcast :: "u64 \<Rightarrow> sk_mem \<Rightarrow> bool option" where
  "packet_get_link_broadcast ph s = do {
     PKT_RAW_ASSERT ph;
     k \<leftarrow> sk_pkts s (PKT_ADDR ph);
     Some (pkt_link_flags k AND PKT_LINKF_BCAST \<noteq> 0) }"

definition packet_set_link_multicast :: "u64 \<Rightarrow> sk_mem \<Rightarrow> (int \<times> sk_mem) option" where
  "packet_set_link_multicast ph s = do {
     PKT_RAW_ASSERT ph;
     ret0 (upd_pkt (PKT_ADDR ph) (pkt_link_flags_update (\<lambda>f. f OR PKT_LINKF_MCAST)) s) }"

definition packet_get_link_multicast :: "u64 \<Rightarrow> sk_mem \<Rightarrow> bool option" where
  "packet_get_link_multicast ph s = do {
     PKT_RAW_ASSERT ph;
     k \<leftarrow> sk_pkts s (PKT_ADDR ph);
     Some (pkt_link_flags k AND PKT_LINKF_MCAST \<noteq> 0) }"

definition packet_set_link_ethfcs :: "u64 \<Rightarrow> sk_mem \<Rightarrow> (int \<times> sk_mem) option" where
  "packet_set_link_ethfcs ph s = do {
     PKT_RAW_ASSERT ph;
     ret0 (upd_pkt (PKT_ADDR ph) (pkt_link_flags_update (\<lambda>f. f OR PKT_LINKF_ETHFCS)) s) }"

definition packet_get_link_ethfcs :: "u64 \<Rightarrow> sk_mem \<Rightarrow> bool option" where
  "packet_get_link_ethfcs ph s = do {
     PKT_RAW_ASSERT ph;
     k \<leftarrow> sk_pkts s (PKT_ADDR ph);
     Some (pkt_link_flags k AND PKT_LINKF_ETHFCS \<noteq> 0) }"

definition packet_set_transport_traffic_background :: "u64 \<Rightarrow> sk_mem \<Rightarrow> (int \<times> sk_mem) option" where
  "packet_set_transport_traffic_background ph s = do {
     PKT_ASSERT ph;
     ret0 (upd_pkt (PKT_ADDR ph) (pkt_pflags_update (\<lambda>f. f OR PKT_F_BACKGROUND)) s) }"

definition packet_get_transport_traffic_background :: "u64 \<Rightarrow> sk_mem \<Rightarrow> bool option" where
  "packet_get_transport_traffic_background ph s = do {
     PKT_ASSERT ph;
     k \<leftarrow> sk_pkts s (PKT_ADDR ph);
     Some (pkt_pflags k AND PKT_F_BACKGROUND \<noteq> 0) }"

definition packet_set_transport_traffic_realtime :: "u64 \<Rightarrow> sk_mem \<Rightarrow> (int \<times> sk_mem) option" where
  "packet_set_transport_traffic_realtime ph s = do {
     PKT_ASSERT ph;
     ret0 (upd_pkt (PKT_ADDR ph) (pkt_pflags_update (\<lambda>f. f OR PKT_F_REALTIME)) s) }"

definition packet_get_transport_traffic_realtime :: "u64 \<Rightarrow> sk_mem \<Rightarrow> bool option" where
  "packet_get_transport_traffic_realtime ph s = do {
     PKT_ASSERT ph;
     k \<leftarrow> sk_pkts s (PKT_ADDR ph);
     Some (pkt_pflags k AND PKT_F_REALTIME \<noteq> 0) }"

definition packet_set_transport_retransmit :: "u64 \<Rightarrow> sk_mem \<Rightarrow> (int \<times> sk_mem) option" where
  "packet_set_transport_retransmit ph s = do {
     PKT_ASSERT ph;
     ret0 (upd_pkt (PKT_ADDR ph) (pkt_pflags_update (\<lambda>f. f OR PKT_F_REXMT)) s) }"

definition packet_get_transport_retransmit :: "u64 \<Rightarrow> sk_mem \<Rightarrow> bool option" where
  "packet_get_transport_retransmit ph s = do {
     PKT_ASSERT ph;
     k \<leftarrow> sk_pkts s (PKT_ADDR ph);
     Some (pkt_pflags k AND PKT_F_REXMT \<noteq> 0) }"

definition packet_set_transport_last_packet :: "u64 \<Rightarrow> sk_mem \<Rightarrow> (int \<times> sk_mem) option" where
  "packet_set_transport_last_packet ph s = do {
     PKT_ASSERT ph;
     ret0 (upd_pkt (PKT_ADDR ph) (pkt_pflags_update (\<lambda>f. f OR PKT_F_LAST_PKT)) s) }"

definition packet_get_transport_last_packet :: "u64 \<Rightarrow> sk_mem \<Rightarrow> bool option" where
  "packet_get_transport_last_packet ph s = do {
     PKT_ASSERT ph;
     k \<leftarrow> sk_pkts s (PKT_ADDR ph);
     Some (pkt_pflags k AND PKT_F_LAST_PKT \<noteq> 0) }"

definition packet_set_group_start :: "u64 \<Rightarrow> sk_mem \<Rightarrow> (int \<times> sk_mem) option" where
  "packet_set_group_start ph s = do {
     PKT_ASSERT ph;
     ret0 (upd_pkt (PKT_ADDR ph) (pkt_pflags_update (\<lambda>f. f OR PKT_F_OPT_GROUP_START)) s) }"

definition packet_get_group_start :: "u64 \<Rightarrow> sk_mem \<Rightarrow> bool option" where
  "packet_get_group_start ph s = do {
     PKT_ASSERT ph;
     k \<leftarrow> sk_pkts s (PKT_ADDR ph);
     Some (pkt_pflags k AND PKT_F_OPT_GROUP_START \<noteq> 0) }"

definition packet_set_group_end :: "u64 \<Rightarrow> sk_mem \<Rightarrow> (int \<times> sk_mem) option" where
  "packet_set_group_end ph s = do {
     PKT_ASSERT ph;
     ret0 (upd_pkt (PKT_ADDR ph) (pkt_pflags_update (\<lambda>f. f OR PKT_F_OPT_GROUP_END)) s) }"

definition packet_get_group_end :: "u64 \<Rightarrow> sk_mem \<Rightarrow> bool option" where
  "packet_get_group_end ph s = do {
     PKT_ASSERT ph;
     k \<leftarrow> sk_pkts s (PKT_ADDR ph);
     Some (pkt_pflags k AND PKT_F_OPT_GROUP_END \<noteq> 0) }"

definition packet_set_wake_flag :: "u64 \<Rightarrow> sk_mem \<Rightarrow> sk_mem option" where
  "packet_set_wake_flag ph s = do {
     PKT_ASSERT ph;
     upd_pkt (PKT_ADDR ph) (pkt_pflags_update (\<lambda>f. f OR PKT_F_WAKE_PKT)) s }"

definition packet_get_wake_flag :: "u64 \<Rightarrow> sk_mem \<Rightarrow> bool option" where
  "packet_get_wake_flag ph s = do {
     k \<leftarrow> sk_pkts s (PKT_ADDR ph);
     Some (pkt_pflags k AND PKT_F_WAKE_PKT \<noteq> 0) }"

definition packet_set_keep_alive :: "u64 \<Rightarrow> bool \<Rightarrow> sk_mem \<Rightarrow> sk_mem option" where
  "packet_set_keep_alive ph is_keep_alive s = do {
     PKT_ASSERT ph;
     if is_keep_alive then upd_pkt (PKT_ADDR ph) (pkt_pflags_update (\<lambda>f. f OR PKT_F_KEEPALIVE)) s
     else upd_pkt (PKT_ADDR ph) (pkt_pflags_update (\<lambda>f. f AND NOT PKT_F_KEEPALIVE)) s }"

definition packet_get_keep_alive :: "u64 \<Rightarrow> sk_mem \<Rightarrow> bool option" where
  "packet_get_keep_alive ph s = do {
     k \<leftarrow> sk_pkts s (PKT_ADDR ph);
     Some (pkt_pflags k AND PKT_F_KEEPALIVE \<noteq> 0) }"

definition packet_get_truncated :: "u64 \<Rightarrow> sk_mem \<Rightarrow> bool option" where
  "packet_get_truncated ph s = do {
     PKT_RAW_ASSERT ph;
     k \<leftarrow> sk_pkts s (PKT_ADDR ph);
     Some (pkt_pflags k AND PKT_F_TRUNCATED \<noteq> 0) }"

definition packet_get_transport_new_flow :: "u64 \<Rightarrow> sk_mem \<Rightarrow> bool option" where
  "packet_get_transport_new_flow ph s = do {
     PKT_ASSERT ph;
     k \<leftarrow> sk_pkts s (PKT_ADDR ph);
     Some (pkt_pflags k AND PKT_F_NEW_FLOW \<noteq> 0) }"

subsection \<open>Options: expiry time, token, VLAN tag\<close>

definition packet_get_expire_time :: "u64 \<Rightarrow> ptr \<Rightarrow> sk_mem \<Rightarrow> (int \<times> sk_mem) option" where
  "packet_get_expire_time ph ts s = do {
     PKT_ASSERT ph;
     k \<leftarrow> sk_pkts s (PKT_ADDR ph);
     if pkt_pflags k AND PKT_F_OPT_EXPIRE_TS = 0 then Some (ENOENT, s)
     else if ts = NULL then Some (EINVAL, s)
     else do {
       po \<leftarrow> sk_opts s (pkt_com_opt k);
       ret0 (upd_bytes (st64 ts (po_expire_ts po)) s) } }"

definition packet_set_expire_time :: "u64 \<Rightarrow> u64 \<Rightarrow> sk_mem \<Rightarrow> (int \<times> sk_mem) option" where
  "packet_set_expire_time ph ts s = do {
     PKT_ASSERT ph;
     k \<leftarrow> sk_pkts s (PKT_ADDR ph);
     if ts \<noteq> 0 then do {
       s \<leftarrow> upd_opt (pkt_com_opt k) (po_expire_ts_update (\<lambda>_. ts)) s;
       ret0 (upd_pkt (PKT_ADDR ph) (pkt_pflags_update (\<lambda>f. f OR PKT_F_OPT_EXPIRE_TS)) s) }
     else do {
       s \<leftarrow> upd_opt (pkt_com_opt k) (po_expire_ts_update (\<lambda>_. 0)) s;
       ret0 (upd_pkt (PKT_ADDR ph) (pkt_pflags_update (\<lambda>f. f AND NOT PKT_F_OPT_EXPIRE_TS)) s) } }"

text \<open>\<open>bcopy\<close> allows the blocks to overlap.\<close>

definition bcopy :: "ptr \<Rightarrow> ptr \<Rightarrow> nat \<Rightarrow> bytes \<Rightarrow> bytes option" where
  "bcopy src dst n m = (if owned m src n \<and> owned m dst n then Some (cpy n src dst m) else None)"

definition packet_opt_get_token :: "ptr \<Rightarrow> ptr \<Rightarrow> ptr \<Rightarrow> ptr \<Rightarrow> sk_mem \<Rightarrow> (int \<times> sk_mem) option" where
  "packet_opt_get_token po token len type s = do {
     o' \<leftarrow> sk_opts s po;
     let tlen = po_token_len o';
     if token = NULL \<or> len = NULL \<or> type = NULL then Some (EINVAL, s)
     else do {
       l \<leftarrow> ld16 (sk_bytes s) len;
       if tlen > l \<or> po_token_type o' > 255 then Some (EINVAL, s)
       else do {
         let ttype = (ucast (po_token_type o') :: u8);
         ASSERT (tlen \<le> PKT_OPT_MAX_TOKEN_SIZE);
         s \<leftarrow> upd_bytes (bcopy (po + po_token_off) token (unat tlen)) s;
         s \<leftarrow> upd_bytes (st16 len tlen) s;
         ret0 (upd_bytes (st8 type ttype) s) } } }"

definition packet_get_token :: "u64 \<Rightarrow> ptr \<Rightarrow> ptr \<Rightarrow> ptr \<Rightarrow> sk_mem \<Rightarrow> (int \<times> sk_mem) option" where
  "packet_get_token ph token len type s = do {
     k \<leftarrow> sk_pkts s (PKT_ADDR ph);
     PKT_ASSERT ph;
     if pkt_pflags k AND PKT_F_OPT_TOKEN = 0 then Some (ENOENT, s)
     else do {
       (err, s) \<leftarrow> packet_opt_get_token (pkt_com_opt k) token len type s;
       if err = 0 then do {
         t \<leftarrow> sk_bytes s type;
         Some (if t \<noteq> PKT_OPT_TOKEN_TYPE_OPAQUE then ENOENT else err, s) }
       else Some (err, s) } }"

text \<open>\<open>pflags\<close> points to the flags of the packet at \<open>pkt\<close>.\<close>

definition packet_opt_set_token :: "ptr \<Rightarrow> ptr \<Rightarrow> u16 \<Rightarrow> u8 \<Rightarrow> ptr \<Rightarrow> sk_mem \<Rightarrow> (int \<times> sk_mem) option" where
  "packet_opt_set_token po token len type pkt s =
     (if len \<noteq> 0 then
        if token = NULL \<or> len > PKT_OPT_MAX_TOKEN_SIZE \<or> type = 0 then Some (EINVAL, s)
        else do {
          s \<leftarrow> (if IS_P2ALIGNED token 8 then do {
              s \<leftarrow> upd_bytes (mov64 token (po + po_token_off)) s;
              upd_bytes (mov64 (token + 8) (po + po_token_off + 8)) s }
            else upd_bytes (bcopy token (po + po_token_off) (unat len)) s);
          s \<leftarrow> upd_opt po (\<lambda>p. p\<lparr>po_token_len := len, po_token_type := ucast type\<rparr>) s;
          ret0 (upd_pkt pkt (pkt_pflags_update (\<lambda>f. f OR PKT_F_OPT_TOKEN)) s) }
      else do {
        s \<leftarrow> upd_bytes (st64 (po + po_token_off) 0) s;
        s \<leftarrow> upd_bytes (st64 (po + po_token_off + 8) 0) s;
        s \<leftarrow> upd_opt po (\<lambda>p. p\<lparr>po_token_len := 0, po_token_type := 0\<rparr>) s;
        ret0 (upd_pkt pkt (pkt_pflags_update (\<lambda>f. f AND NOT PKT_F_OPT_TOKEN)) s) })"

definition packet_set_token :: "u64 \<Rightarrow> ptr \<Rightarrow> u16 \<Rightarrow> sk_mem \<Rightarrow> (int \<times> sk_mem) option" where
  "packet_set_token ph token len s = do {
     PKT_ASSERT ph;
     k \<leftarrow> sk_pkts s (PKT_ADDR ph);
     packet_opt_set_token (pkt_com_opt k) token len PKT_OPT_TOKEN_TYPE_OPAQUE (PKT_ADDR ph) s }"

text \<open>\<open>packet_id_t\<close> is 16 bytes.\<close>

definition packet_get_packetid :: "u64 \<Rightarrow> ptr \<Rightarrow> ptr \<Rightarrow> ptr \<Rightarrow> sk_mem \<Rightarrow> (int \<times> sk_mem) option" where
  "packet_get_packetid ph pktid len type s = do {
     k \<leftarrow> sk_pkts s (PKT_ADDR ph);
     s \<leftarrow> upd_bytes (st16 len 16) s;
     PKT_ASSERT ph;
     if pkt_pflags k AND PKT_F_OPT_TOKEN = 0 then Some (ENOENT, s)
     else do {
       (err, s) \<leftarrow> packet_opt_get_token (pkt_com_opt k) pktid len type s;
       if err = 0 then do {
         t \<leftarrow> sk_bytes s type;
         l \<leftarrow> ld16 (sk_bytes s) len;
         Some (if t \<noteq> PKT_OPT_TOKEN_TYPE_PACKET_ID \<or> l \<noteq> 16 then ENOENT else err, s) }
       else Some (err, s) } }"

definition packet_set_packetid :: "u64 \<Rightarrow> ptr \<Rightarrow> sk_mem \<Rightarrow> (int \<times> sk_mem) option" where
  "packet_set_packetid ph pktid s = do {
     PKT_ASSERT ph;
     k \<leftarrow> sk_pkts s (PKT_ADDR ph);
     packet_opt_set_token (pkt_com_opt k) pktid 16 PKT_OPT_TOKEN_TYPE_PACKET_ID (PKT_ADDR ph) s }"

definition packet_get_vlan_tag :: "u64 \<Rightarrow> ptr \<Rightarrow> ptr \<Rightarrow> sk_mem \<Rightarrow> (int \<times> sk_mem) option" where
  "packet_get_vlan_tag ph vlan_tag tag_in_pkt s = do {
     PKT_RAW_ASSERT ph;
     k \<leftarrow> sk_pkts s (PKT_ADDR ph);
     let pflags = pkt_pflags k;
     if pflags AND PKT_F_OPT_VLTAG = 0 then Some (ENOENT, s)
     else do {
       s \<leftarrow> (if vlan_tag \<noteq> NULL then do {
           po \<leftarrow> sk_opts s (pkt_com_opt k);
           upd_bytes (st16 vlan_tag (po_vlan_tag po)) s }
         else Some s);
       ret0 (if tag_in_pkt \<noteq> NULL then upd_bytes (st32 tag_in_pkt (c_bool (pflags AND PKT_F_OPT_VLTAG_IN_PKT \<noteq> 0))) s
         else Some s) } }"

definition packet_set_vlan_tag :: "u64 \<Rightarrow> u16 \<Rightarrow> bool \<Rightarrow> sk_mem \<Rightarrow> (int \<times> sk_mem) option" where
  "packet_set_vlan_tag ph vlan_tag tag_in_pkt s = do {
     PKT_RAW_ASSERT ph;
     s \<leftarrow> upd_pkt (PKT_ADDR ph) (pkt_pflags_update (\<lambda>f. f OR PKT_F_OPT_VLTAG)) s;
     k \<leftarrow> sk_pkts s (PKT_ADDR ph);
     s \<leftarrow> upd_opt (pkt_com_opt k) (po_vlan_tag_update (\<lambda>_. vlan_tag)) s;
     ret0 (if tag_in_pkt then upd_pkt (PKT_ADDR ph) (pkt_pflags_update (\<lambda>f. f OR PKT_F_OPT_VLTAG_IN_PKT)) s else Some s) }"

subsection \<open>Service and traffic class\<close>

definition PKT_SC_BK_SYS :: u32 where "PKT_SC_BK_SYS = 0x00080090"
definition PKT_SC_BK :: u32 where "PKT_SC_BK = 0x00100080"
definition PKT_SC_BE :: u32 where "PKT_SC_BE = 0x00000000"
definition PKT_SC_RD :: u32 where "PKT_SC_RD = 0x00180010"
definition PKT_SC_OAM :: u32 where "PKT_SC_OAM = 0x00200020"
definition PKT_SC_AV :: u32 where "PKT_SC_AV = 0x00280120"
definition PKT_SC_RV :: u32 where "PKT_SC_RV = 0x00300110"
definition PKT_SC_VI :: u32 where "PKT_SC_VI = 0x00380100"
definition PKT_SC_SIG :: u32 where "PKT_SC_SIG = 0x00380130"
definition PKT_SC_VO :: u32 where "PKT_SC_VO = 0x00400180"
definition PKT_SC_CTL :: u32 where "PKT_SC_CTL = 0x00480190"

definition PKT_SCVAL :: "u32 \<Rightarrow> u32" where "PKT_SCVAL x = x AND 0xffff"
definition PKT_SC2TC :: "u32 \<Rightarrow> u32" where "PKT_SC2TC sc = drop_bit 7 (PKT_SCVAL sc)"
definition PKT_TC2SCVAL :: "u32 \<Rightarrow> u32" where "PKT_TC2SCVAL tc = push_bit 7 tc"

definition packet_set_service_class :: "u64 \<Rightarrow> u32 \<Rightarrow> sk_mem \<Rightarrow> (int \<times> sk_mem) option" where
  "packet_set_service_class ph sc s =
     (if sc \<in> set [PKT_SC_BE, PKT_SC_BK_SYS, PKT_SC_BK, PKT_SC_RD, PKT_SC_OAM, PKT_SC_AV, PKT_SC_RV, PKT_SC_VI,
         PKT_SC_SIG, PKT_SC_VO, PKT_SC_CTL]
      then ret0 (upd_qum (QUM_ADDR ph) (qum_svc_class_update (\<lambda>_. sc)) s)
      else Some (EINVAL, s))"

definition packet_get_service_class :: "u64 \<Rightarrow> sk_mem \<Rightarrow> u32 option" where
  "packet_get_service_class ph s = do {
     q \<leftarrow> sk_qums s (QUM_ADDR ph);
     Some (if qum_svc_class q \<in> set [PKT_SC_BE, PKT_SC_BK_SYS, PKT_SC_BK, PKT_SC_RD, PKT_SC_OAM, PKT_SC_AV, PKT_SC_RV,
         PKT_SC_VI, PKT_SC_SIG, PKT_SC_VO, PKT_SC_CTL]
       then qum_svc_class q else PKT_SC_BE) }"

definition packet_set_traffic_class :: "u64 \<Rightarrow> u32 \<Rightarrow> sk_mem \<Rightarrow> (int \<times> sk_mem) option" where
  "packet_set_traffic_class ph tc s =
     (let val = PKT_TC2SCVAL tc;
          sc = (if val = PKT_SCVAL PKT_SC_BK_SYS then PKT_SC_BK_SYS
            else if val = PKT_SCVAL PKT_SC_BK then PKT_SC_BK
            else if val = PKT_SCVAL PKT_SC_BE then PKT_SC_BE
            else if val = PKT_SCVAL PKT_SC_RD then PKT_SC_RD
            else if val = PKT_SCVAL PKT_SC_OAM then PKT_SC_OAM
            else if val = PKT_SCVAL PKT_SC_AV then PKT_SC_AV
            else if val = PKT_SCVAL PKT_SC_RV then PKT_SC_RV
            else if val = PKT_SCVAL PKT_SC_VI then PKT_SC_VI
            else if val = PKT_SCVAL PKT_SC_SIG then PKT_SC_SIG
            else if val = PKT_SCVAL PKT_SC_VO then PKT_SC_VO
            else if val = PKT_SCVAL PKT_SC_CTL then PKT_SC_CTL
            else PKT_SC_BE)
      in packet_set_service_class ph sc s)"

definition packet_get_traffic_class :: "u64 \<Rightarrow> sk_mem \<Rightarrow> u32 option" where
  "packet_get_traffic_class ph s = map_option PKT_SC2TC (packet_get_service_class ph s)"

definition packet_set_comp_gencnt :: "u64 \<Rightarrow> u32 \<Rightarrow> sk_mem \<Rightarrow> sk_mem option" where
  "packet_set_comp_gencnt ph gencnt s = do {
     PKT_ASSERT ph;
     upd_pkt (PKT_ADDR ph) (pkt_comp_gencnt_update (\<lambda>_. gencnt)) s }"

definition packet_get_comp_gencnt :: "u64 \<Rightarrow> sk_mem \<Rightarrow> u32 option" where
  "packet_get_comp_gencnt ph s = do {
     PKT_ASSERT ph;
     k \<leftarrow> sk_pkts s (PKT_ADDR ph);
     Some (pkt_comp_gencnt k) }"

subsection \<open>Checksum offload\<close>

definition packet_set_inet_checksum :: "u64 \<Rightarrow> u32 \<Rightarrow> u16 \<Rightarrow> u16 \<Rightarrow> bool \<Rightarrow> sk_mem \<Rightarrow> (int \<times> sk_mem) option" where
  "packet_set_inet_checksum ph flags start stuff_val tx s = do {
     PKT_ASSERT ph;
     s \<leftarrow> upd_pkt (PKT_ADDR ph) (pkt_csum_flags_update (\<lambda>_. flags)) s;
     if tx then ret0 (upd_pkt (PKT_ADDR ph) (\<lambda>k. k\<lparr>pkt_csum_start_off := start, pkt_csum_value := stuff_val\<rparr>) s)
     else ret0 (upd_pkt (PKT_ADDR ph) (\<lambda>k. k\<lparr>pkt_csum_start_off := start, pkt_csum_value := stuff_val\<rparr>) s) }"

definition packet_get_inet_checksum :: "u64 \<Rightarrow> ptr \<Rightarrow> ptr \<Rightarrow> bool \<Rightarrow> sk_mem \<Rightarrow> (u32 \<times> sk_mem) option" where
  "packet_get_inet_checksum ph start stuff_val tx s = do {
     PKT_ASSERT ph;
     k \<leftarrow> sk_pkts s (PKT_ADDR ph);
     s \<leftarrow> (if start \<noteq> NULL then upd_bytes (st16 start (pkt_csum_start_off k)) s else Some s);
     s \<leftarrow> (if stuff_val \<noteq> NULL then upd_bytes (st16 stuff_val (pkt_csum_value k)) s else Some s);
     Some (pkt_csum_flags k, s) }"

subsection \<open>Flow identifier\<close>

definition packet_set_flow_uuid :: "u64 \<Rightarrow> ptr \<Rightarrow> sk_mem \<Rightarrow> sk_mem option" where
  "packet_set_flow_uuid ph flow_uuid s = (let q = QUM_ADDR ph in
     if IS_P2ALIGNED flow_uuid 8 then do {
       s \<leftarrow> upd_bytes (mov64 flow_uuid q) s;
       upd_bytes (mov64 (flow_uuid + 8) (q + 8)) s }
     else if IS_P2ALIGNED flow_uuid 4 then do {
       s \<leftarrow> upd_bytes (mov32 flow_uuid q) s;
       s \<leftarrow> upd_bytes (mov32 (flow_uuid + 4) (q + 4)) s;
       s \<leftarrow> upd_bytes (mov32 (flow_uuid + 8) (q + 8)) s;
       upd_bytes (mov32 (flow_uuid + 12) (q + 12)) s }
     else upd_bytes (bcopy flow_uuid q 16) s)"

definition packet_get_flow_uuid :: "u64 \<Rightarrow> ptr \<Rightarrow> sk_mem \<Rightarrow> sk_mem option" where
  "packet_get_flow_uuid ph flow_uuid s = (let q = QUM_ADDR ph in
     if IS_P2ALIGNED flow_uuid 8 then do {
       s \<leftarrow> upd_bytes (mov64 q flow_uuid) s;
       upd_bytes (mov64 (q + 8) (flow_uuid + 8)) s }
     else if IS_P2ALIGNED flow_uuid 4 then do {
       s \<leftarrow> upd_bytes (mov32 q flow_uuid) s;
       s \<leftarrow> upd_bytes (mov32 (q + 4) (flow_uuid + 4)) s;
       s \<leftarrow> upd_bytes (mov32 (q + 8) (flow_uuid + 8)) s;
       upd_bytes (mov32 (q + 12) (flow_uuid + 12)) s }
     else upd_bytes (bcopy q flow_uuid 16) s)"

definition packet_clear_flow_uuid :: "u64 \<Rightarrow> sk_mem \<Rightarrow> sk_mem option" where
  "packet_clear_flow_uuid ph s = clear_flow_id (QUM_ADDR ph) s"

subsection \<open>Other fields\<close>

definition packet_get_aggregation_type :: "u64 \<Rightarrow> sk_mem \<Rightarrow> u8 option" where
  "packet_get_aggregation_type ph s = do {
     PKT_ASSERT ph;
     k \<leftarrow> sk_pkts s (PKT_ADDR ph);
     Some (pkt_aggr_type k) }"

definition packet_get_segment_count :: "u64 \<Rightarrow> sk_mem \<Rightarrow> u8 option" where
  "packet_get_segment_count ph s = do {
     PKT_ASSERT ph;
     k \<leftarrow> sk_pkts s (PKT_ADDR ph);
     Some (pkt_seg_cnt k) }"

definition packet_get_data_length :: "u64 \<Rightarrow> sk_mem \<Rightarrow> u32 option" where
  "packet_get_data_length ph s = map_option qum_len (sk_qums s (QUM_ADDR ph))"

definition packet_get_object_index :: "u64 \<Rightarrow> sk_mem \<Rightarrow> u32 option" where
  "packet_get_object_index ph s = METADATA_IDX (QUM_ADDR ph) s"

definition packet_get_timestamp :: "u64 \<Rightarrow> ptr \<Rightarrow> ptr \<Rightarrow> sk_mem \<Rightarrow> (int \<times> sk_mem) option" where
  "packet_get_timestamp ph ts valid s = do {
     PKT_ASSERT ph;
     k \<leftarrow> sk_pkts s (PKT_ADDR ph);
     if pkt_pflags k AND PKT_F_TS_VALID \<noteq> 0 then do {
       s \<leftarrow> (if valid \<noteq> NULL then upd_bytes (st32 valid (c_bool True)) s else Some s);
       ret0 (upd_bytes (st64 ts (pkt_timestamp k)) s) }
     else do {
       s \<leftarrow> (if valid \<noteq> NULL then upd_bytes (st32 valid (c_bool False)) s else Some s);
       ret0 (upd_bytes (st64 ts 0) s) } }"

definition packet_set_timestamp :: "u64 \<Rightarrow> u64 \<Rightarrow> bool \<Rightarrow> sk_mem \<Rightarrow> (int \<times> sk_mem) option" where
  "packet_set_timestamp ph ts valid s = do {
     PKT_ASSERT ph;
     if valid then do {
       s \<leftarrow> upd_pkt (PKT_ADDR ph) (pkt_timestamp_update (\<lambda>_. ts)) s;
       ret0 (upd_pkt (PKT_ADDR ph) (pkt_pflags_update (\<lambda>f. f OR PKT_F_TS_VALID)) s) }
     else do {
       s \<leftarrow> upd_pkt (PKT_ADDR ph) (pkt_pflags_update (\<lambda>f. f AND NOT PKT_F_TS_VALID)) s;
       ret0 (upd_pkt (PKT_ADDR ph) (pkt_timestamp_update (\<lambda>_. 0)) s) } }"

definition packet_get_tx_completion_data :: "u64 \<Rightarrow> ptr \<Rightarrow> ptr \<Rightarrow> sk_mem \<Rightarrow> (int \<times> sk_mem) option" where
  "packet_get_tx_completion_data ph cb_arg cb_data s = do {
     PKT_ASSERT ph;
     k \<leftarrow> sk_pkts s (PKT_ADDR ph);
     if pkt_pflags k AND PKT_F_TX_COMPL_DATA \<noteq> 0 then do {
       ASSERT (pkt_pflags k AND PKT_F_TX_COMPL_ALLOC \<noteq> 0);
       c \<leftarrow> sk_compls s (pkt_tx_compl k);
       s \<leftarrow> upd_bytes (st64 cb_arg (compl_cb_arg c)) s;
       ret0 (upd_bytes (st64 cb_data (compl_cb_data c)) s) }
     else do {
       s \<leftarrow> upd_bytes (st64 cb_arg 0) s;
       ret0 (upd_bytes (st64 cb_data 0) s) } }"

definition packet_set_tx_completion_data :: "u64 \<Rightarrow> u64 \<Rightarrow> u64 \<Rightarrow> sk_mem \<Rightarrow> (int \<times> sk_mem) option" where
  "packet_set_tx_completion_data ph cb_arg cb_data s = do {
     PKT_ASSERT ph;
     s \<leftarrow> KPKT_INIT_TX_COMPL_DATA (PKT_ADDR ph) s;
     k \<leftarrow> sk_pkts s (PKT_ADDR ph);
     s \<leftarrow> upd_compl (pkt_tx_compl k) (compl_cb_arg_update (\<lambda>_. cb_arg)) s;
     ret0 (upd_compl (pkt_tx_compl k) (compl_cb_data_update (\<lambda>_. cb_data)) s) }"

definition packet_get_timestamp_requested :: "u64 \<Rightarrow> ptr \<Rightarrow> sk_mem \<Rightarrow> (int \<times> sk_mem) option" where
  "packet_get_timestamp_requested ph requested s = do {
     PKT_ASSERT ph;
     k \<leftarrow> sk_pkts s (PKT_ADDR ph);
     if pkt_pflags k AND PKT_F_TX_COMPL_TS_REQ \<noteq> 0 then ret0 (upd_bytes (st32 requested (c_bool True)) s)
     else ret0 (upd_bytes (st32 requested (c_bool False)) s) }"

definition packet_get_tx_completion_status :: "u64 \<Rightarrow> ptr \<Rightarrow> sk_mem \<Rightarrow> (int \<times> sk_mem) option" where
  "packet_get_tx_completion_status ph status s = do {
     PKT_ASSERT ph;
     k \<leftarrow> sk_pkts s (PKT_ADDR ph);
     if pkt_pflags k AND PKT_F_TX_COMPL_DATA \<noteq> 0 then do {
       ASSERT (pkt_pflags k AND PKT_F_TX_COMPL_ALLOC \<noteq> 0);
       c \<leftarrow> sk_compls s (pkt_tx_compl k);
       ret0 (upd_bytes (st32 status (compl_tx_status c)) s) }
     else ret0 (upd_bytes (st32 status 0) s) }"

definition packet_set_tx_completion_status :: "u64 \<Rightarrow> u32 \<Rightarrow> sk_mem \<Rightarrow> (int \<times> sk_mem) option" where
  "packet_set_tx_completion_status ph status s = do {
     PKT_ASSERT ph;
     s \<leftarrow> KPKT_INIT_TX_COMPL_DATA (PKT_ADDR ph) s;
     k \<leftarrow> sk_pkts s (PKT_ADDR ph);
     ret0 (upd_compl (pkt_tx_compl k) (compl_tx_status_update (\<lambda>_. status)) s) }"

definition packet_get_trace_id :: "u64 \<Rightarrow> sk_mem \<Rightarrow> u32 option" where
  "packet_get_trace_id ph s =
     (if SK_PTR_TYPE ph = NEXUS_META_TYPE_PACKET then map_option pkt_trace_id (sk_pkts s (PKT_ADDR ph)) else Some 0)"

definition packet_set_trace_id :: "u64 \<Rightarrow> u32 \<Rightarrow> sk_mem \<Rightarrow> sk_mem option" where
  "packet_set_trace_id ph i s = do {
     PKT_ASSERT ph;
     upd_pkt (PKT_ADDR ph) (pkt_trace_id_update (\<lambda>_. i)) s }"

subsection \<open>One's complement sums\<close>

definition packet_fold_sum :: "u32 \<Rightarrow> u16" where
  "packet_fold_sum x =
     (let x = drop_bit 16 x + (x AND 0xffff);
          x = drop_bit 16 x + (x AND 0xffff);
          x = drop_bit 16 x + (x AND 0xffff)
      in ucast (x AND 0xffff))"

definition packet_fold_sum_final :: "u32 \<Rightarrow> u16" where
  "packet_fold_sum_final x =
     (let x = drop_bit 16 x + (x AND 0xffff);
          x = drop_bit 16 x + (x AND 0xffff);
          x = drop_bit 16 x + (x AND 0xffff)
      in ucast (NOT x AND 0xffff))"

definition packet_fix_sum :: "u16 \<Rightarrow> u16 \<Rightarrow> u16 \<Rightarrow> u16" where
  "packet_fix_sum csum old new =
     (let c = (ucast csum :: u32) + ucast old - ucast new;
          c = drop_bit 16 c + (c AND 0xffff)
      in ucast (c AND 0xffff))"

definition packet_fix_hdr_sum :: "ptr \<Rightarrow> ptr \<Rightarrow> u32 \<Rightarrow> sk_mem \<Rightarrow> sk_mem option" where
  "packet_fix_hdr_sum field csum new s = do {
     old \<leftarrow> ld32 (sk_bytes s) field;
     s \<leftarrow> upd_bytes (st32 field new) s;
     c \<leftarrow> ld16 (sk_bytes s) csum;
     upd_bytes (st16 csum (packet_fix_sum (packet_fix_sum c (ucast (drop_bit 16 old)) (ucast (drop_bit 16 new)))
       (ucast (old AND 0xffff)) (ucast (new AND 0xffff)))) s }"

end
