(* ===== verification/PacketMetaLaws.thy ===== *)
theory PacketMetaLaws
  imports PacketMeta
begin

text \<open>
  What the accessors of packet metadata promise: the flags are independent of each other, tokens and
  packet identifiers, service classes, flow identifiers, timestamps and VLAN tags are read back as they
  were set, with the errors of every accessor, and the sums are one's complement sums.
\<close>

subsection \<open>Flags\<close>

text \<open>
  The contract of a flag accessor pair: the setter sets the bits of a mask in one field of the
  packet and returns 0, the getter tests them, and both panic on a handle of the wrong kind.
\<close>

locale packet_flag =
  fixes setf :: "u64 \<Rightarrow> sk_mem \<Rightarrow> (int \<times> sk_mem) option"
    and getf :: "u64 \<Rightarrow> sk_mem \<Rightarrow> bool option"
    and kind :: "u64 \<Rightarrow> unit option"
    and fld :: "kern_packet \<Rightarrow> 'w::len word"
    and upd :: "('w word \<Rightarrow> 'w word) \<Rightarrow> kern_packet \<Rightarrow> kern_packet"
    and bits :: "'w word"
  assumes setf: "setf ph s = do { kind ph; ret0 (upd_pkt (PKT_ADDR ph) (upd (\<lambda>f. f OR bits)) s) }"
    and getf: "getf ph s = do { kind ph; k \<leftarrow> sk_pkts s (PKT_ADDR ph); Some (fld k AND bits \<noteq> 0) }"
    and fld_upd: "fld (upd h k) = h (fld k)"
    and bits: "bits \<noteq> 0"
begin

lemma set_ok:
  assumes "kind ph = Some ()" "sk_pkts s (PKT_ADDR ph) = Some k"
  shows "setf ph s = Some (0, s\<lparr>sk_pkts := (sk_pkts s)(PKT_ADDR ph \<mapsto> upd (\<lambda>f. f OR bits) k)\<rparr>)"
  using assms by (simp add: setf upd_pkt_def ret0_def)

lemma get_after_set:
  assumes "kind ph = Some ()" "sk_pkts s (PKT_ADDR ph) = Some k"
  shows "\<exists>s'. setf ph s = Some (0, s') \<and> getf ph s' = Some True"
proof -
  have "(fld k OR bits) AND bits = bits"
    by (auto simp: bit_eq_iff bit_simps)
  then show ?thesis
    using assms bits by (simp add: set_ok getf fld_upd)
qed

lemma panics: "kind ph = None \<Longrightarrow> setf ph s = None \<and> getf ph s = None"
  by (simp add: setf getf)

end

lemma PKT_ASSERT_iff: "PKT_TYPE_ASSERT ph t = Some u \<longleftrightarrow> SK_PTR_TYPE ph = t"
  "PKT_SUBTYPE_ASSERT ph t v = Some u \<longleftrightarrow> SK_PTR_TYPE ph = t \<and> SK_PTR_SUBTYPE ph = v"
  by (auto simp: PKT_TYPE_ASSERT_def PKT_SUBTYPE_ASSERT_def)

interpretation bcast: packet_flag packet_set_link_broadcast packet_get_link_broadcast PKT_RAW_ASSERT pkt_link_flags
  pkt_link_flags_update PKT_LINKF_BCAST
  by unfold_locales (simp_all add: packet_set_link_broadcast_def packet_get_link_broadcast_def PKT_LINKF_BCAST_def)

interpretation mcast: packet_flag packet_set_link_multicast packet_get_link_multicast PKT_RAW_ASSERT pkt_link_flags
  pkt_link_flags_update PKT_LINKF_MCAST
  by unfold_locales (simp_all add: packet_set_link_multicast_def packet_get_link_multicast_def PKT_LINKF_MCAST_def)

interpretation ethfcs: packet_flag packet_set_link_ethfcs packet_get_link_ethfcs PKT_RAW_ASSERT pkt_link_flags
  pkt_link_flags_update PKT_LINKF_ETHFCS
  by unfold_locales (simp_all add: packet_set_link_ethfcs_def packet_get_link_ethfcs_def PKT_LINKF_ETHFCS_def)

interpretation background: packet_flag packet_set_transport_traffic_background packet_get_transport_traffic_background
  PKT_ASSERT pkt_pflags pkt_pflags_update PKT_F_BACKGROUND
  by unfold_locales
    (simp_all add: packet_set_transport_traffic_background_def packet_get_transport_traffic_background_def pkt_flags)

interpretation realtime: packet_flag packet_set_transport_traffic_realtime packet_get_transport_traffic_realtime
  PKT_ASSERT pkt_pflags pkt_pflags_update PKT_F_REALTIME
  by unfold_locales
    (simp_all add: packet_set_transport_traffic_realtime_def packet_get_transport_traffic_realtime_def pkt_flags)

interpretation rexmt: packet_flag packet_set_transport_retransmit packet_get_transport_retransmit
  PKT_ASSERT pkt_pflags pkt_pflags_update PKT_F_REXMT
  by unfold_locales (simp_all add: packet_set_transport_retransmit_def packet_get_transport_retransmit_def pkt_flags)

interpretation last_pkt: packet_flag packet_set_transport_last_packet packet_get_transport_last_packet
  PKT_ASSERT pkt_pflags pkt_pflags_update PKT_F_LAST_PKT
  by unfold_locales (simp_all add: packet_set_transport_last_packet_def packet_get_transport_last_packet_def pkt_flags)

interpretation group_start: packet_flag packet_set_group_start packet_get_group_start
  PKT_ASSERT pkt_pflags pkt_pflags_update PKT_F_OPT_GROUP_START
  by unfold_locales (simp_all add: packet_set_group_start_def packet_get_group_start_def pkt_flags)

interpretation group_end: packet_flag packet_set_group_end packet_get_group_end
  PKT_ASSERT pkt_pflags pkt_pflags_update PKT_F_OPT_GROUP_END
  by unfold_locales (simp_all add: packet_set_group_end_def packet_get_group_end_def pkt_flags)

text \<open>The accessor pairs of the flags in \<open>pkt_link_flags\<close> and in \<open>pkt_pflags\<close>.\<close>

definition flag_ops :: "((u64 \<Rightarrow> sk_mem \<Rightarrow> (int \<times> sk_mem) option) \<times> (u64 \<Rightarrow> sk_mem \<Rightarrow> bool option)) list" where
  "flag_ops = [
     (packet_set_link_broadcast, packet_get_link_broadcast),
     (packet_set_link_multicast, packet_get_link_multicast),
     (packet_set_link_ethfcs, packet_get_link_ethfcs),
     (packet_set_transport_traffic_background, packet_get_transport_traffic_background),
     (packet_set_transport_traffic_realtime, packet_get_transport_traffic_realtime),
     (packet_set_transport_retransmit, packet_get_transport_retransmit),
     (packet_set_transport_last_packet, packet_get_transport_last_packet),
     (packet_set_group_start, packet_get_group_start),
     (packet_set_group_end, packet_get_group_end)]"

text \<open>The link flags and the packet flags after each of the setters, as one pair of words.\<close>

definition flag_bits :: "(u16 \<times> u64) list" where
  "flag_bits = [(PKT_LINKF_BCAST, 0), (PKT_LINKF_MCAST, 0), (PKT_LINKF_ETHFCS, 0), (0, PKT_F_BACKGROUND),
     (0, PKT_F_REALTIME), (0, PKT_F_REXMT), (0, PKT_F_LAST_PKT), (0, PKT_F_OPT_GROUP_START), (0, PKT_F_OPT_GROUP_END)]"

lemma less_9: "i < 9 \<longleftrightarrow> i = 0 \<or> i = 1 \<or> i = 2 \<or> i = 3 \<or> i = 4 \<or> i = 5 \<or> i = 6 \<or> i = 7 \<or> (i :: nat) = 8"
  by presburger

lemma pkt_upd_same: "pkt_pflags_update (\<lambda>f. f) k = (k :: kern_packet)" "pkt_link_flags_update (\<lambda>f. f) k = (k :: kern_packet)"
  by (cases k; simp)+

lemma flag_op_set:
  assumes "i < 9" "SK_PTR_TYPE ph = NEXUS_META_TYPE_PACKET" "SK_PTR_SUBTYPE ph = NEXUS_META_SUBTYPE_RAW"
    "sk_pkts s (PKT_ADDR ph) = Some k"
  shows "fst (flag_ops ! i) ph s = Some (0, s\<lparr>sk_pkts := (sk_pkts s)(PKT_ADDR ph \<mapsto>
    pkt_link_flags_update (\<lambda>f. f OR fst (flag_bits ! i)) (pkt_pflags_update (\<lambda>f. f OR snd (flag_bits ! i)) k))\<rparr>)"
proof -
  have "PKT_ASSERT ph = Some ()" "PKT_RAW_ASSERT ph = Some ()"
    using assms by (simp_all add: PKT_ASSERT_iff)
  then show ?thesis
    using assms(1) bcast.set_ok [OF _ assms(4)] mcast.set_ok [OF _ assms(4)] ethfcs.set_ok [OF _ assms(4)]
      background.set_ok [OF _ assms(4)] realtime.set_ok [OF _ assms(4)] rexmt.set_ok [OF _ assms(4)]
      last_pkt.set_ok [OF _ assms(4)] group_start.set_ok [OF _ assms(4)] group_end.set_ok [OF _ assms(4)]
    unfolding less_9 by (auto simp: flag_ops_def flag_bits_def pkt_upd_same)
qed

lemma flag_op_get:
  assumes "i < 9" "SK_PTR_TYPE ph = NEXUS_META_TYPE_PACKET" "SK_PTR_SUBTYPE ph = NEXUS_META_SUBTYPE_RAW"
    "sk_pkts s (PKT_ADDR ph) = Some k"
  shows "snd (flag_ops ! i) ph s =
    Some (pkt_link_flags k AND fst (flag_bits ! i) \<noteq> 0 \<or> pkt_pflags k AND snd (flag_bits ! i) \<noteq> 0)"
proof -
  have "PKT_ASSERT ph = Some ()" "PKT_RAW_ASSERT ph = Some ()"
    using assms by (simp_all add: PKT_ASSERT_iff)
  then show ?thesis
    using assms(1,4) unfolding less_9
    by (auto simp: flag_ops_def flag_bits_def bcast.getf mcast.getf ethfcs.getf background.getf realtime.getf
        rexmt.getf last_pkt.getf group_start.getf group_end.getf)
qed

lemma flag_bits_disjoint:
  assumes "i < 9" "j < 9"
  shows "fst (flag_bits ! i) AND fst (flag_bits ! j) = (if i = j then fst (flag_bits ! i) else 0)"
    "snd (flag_bits ! i) AND snd (flag_bits ! j) = (if i = j then snd (flag_bits ! i) else 0)"
    "fst (flag_bits ! i) \<noteq> 0 \<or> snd (flag_bits ! i) \<noteq> 0"
  using assms unfolding less_9
  by (auto simp: flag_bits_def pkt_flags PKT_LINKF_BCAST_def PKT_LINKF_MCAST_def PKT_LINKF_ETHFCS_def)

lemma or_test:
  "b AND c = (if e then c else 0) \<Longrightarrow> ((f OR b) AND c \<noteq> 0) = (if e then c \<noteq> 0 else f AND c \<noteq> (0 :: 'a::len word))"
  by (auto simp: bit_eq_iff bit_simps) 

text \<open>
  Setting one of the nine flags of \<open>flag_ops\<close> on a raw packet succeeds with 0, the getter of that
  flag is then true, and the getter of every other flag gives what it gave before; no other packet and
  no other kind of object changes. On a handle that is not of a packet the setters and getters of the
  packet flags panic.
\<close>
theorem packet_flags_independent:
  assumes "SK_PTR_TYPE ph = NEXUS_META_TYPE_PACKET" "SK_PTR_SUBTYPE ph = NEXUS_META_SUBTYPE_RAW"
    and k: "sk_pkts s (PKT_ADDR ph) = Some k"
  shows "(\<forall>i < length flag_ops. \<exists>s'. fst (flag_ops ! i) ph s = Some (0, s') \<and>
      (\<forall>j < length flag_ops. snd (flag_ops ! j) ph s' = (if i = j then Some True else snd (flag_ops ! j) ph s)) \<and>
      (\<forall>a. a \<noteq> PKT_ADDR ph \<longrightarrow> sk_pkts s' a = sk_pkts s a) \<and> s'\<lparr>sk_pkts := sk_pkts s\<rparr> = s) \<and>
    (\<forall>h i. SK_PTR_TYPE h \<noteq> NEXUS_META_TYPE_PACKET \<longrightarrow> i < length flag_ops \<longrightarrow>
      fst (flag_ops ! i) h s = None \<and> snd (flag_ops ! i) h s = None)"
proof -
  have len: "length flag_ops = 9" by (simp add: flag_ops_def)
  have one: "\<exists>s'. fst (flag_ops ! i) ph s = Some (0, s') \<and>
      (\<forall>j < 9. snd (flag_ops ! j) ph s' = (if i = j then Some True else snd (flag_ops ! j) ph s)) \<and>
      (\<forall>a. a \<noteq> PKT_ADDR ph \<longrightarrow> sk_pkts s' a = sk_pkts s a) \<and> s'\<lparr>sk_pkts := sk_pkts s\<rparr> = s" if i: "i < 9" for i
  proof -
    let ?k = "pkt_link_flags_update (\<lambda>f. f OR fst (flag_bits ! i)) (pkt_pflags_update (\<lambda>f. f OR snd (flag_bits ! i)) k)"
    have "(pkt_link_flags ?k AND fst (flag_bits ! j) \<noteq> 0 \<or> pkt_pflags ?k AND snd (flag_bits ! j) \<noteq> 0) =
        (if i = j then True else pkt_link_flags k AND fst (flag_bits ! j) \<noteq> 0 \<or> pkt_pflags k AND snd (flag_bits ! j) \<noteq> 0)"
      if "j < 9" for j
      using flag_bits_disjoint [OF i that] or_test [of "fst (flag_bits ! i)" "fst (flag_bits ! j)" "i = j"]
        or_test [of "snd (flag_bits ! i)" "snd (flag_bits ! j)" "i = j"]
      by (auto split: if_splits)
    then show ?thesis
      using flag_op_set [OF i assms] flag_op_get [OF _ assms(1,2)] k by (auto simp: flag_op_get [OF _ assms])
  qed
  have "fst (flag_ops ! i) h s = None \<and> snd (flag_ops ! i) h s = None"
    if "SK_PTR_TYPE h \<noteq> NEXUS_META_TYPE_PACKET" "i < 9" for h i
  proof -
    have "PKT_ASSERT h = None" "PKT_RAW_ASSERT h = None"
      using that(1) by (simp_all add: PKT_TYPE_ASSERT_def PKT_SUBTYPE_ASSERT_def)
    then show ?thesis
      using that(2) bcast.panics mcast.panics ethfcs.panics background.panics realtime.panics rexmt.panics
        last_pkt.panics group_start.panics group_end.panics
      unfolding less_9 by (auto simp: flag_ops_def)
  qed
  with one show ?thesis unfolding len by blast
qed

theorem packet_flags_independent_witness:
  "\<exists>s'. packet_set_transport_retransmit 0x100a zero_sk = Some (0, s') \<and>
     packet_get_transport_retransmit 0x100a s' = Some True \<and> packet_get_group_end 0x100a s' = Some False"
proof -
  have h: "SK_PTR_TYPE 0x100a = NEXUS_META_TYPE_PACKET" "SK_PTR_SUBTYPE 0x100a = NEXUS_META_SUBTYPE_RAW"
    by (simp_all add: sk_ptr_defs NEXUS_META_TYPE_PACKET_def NEXUS_META_SUBTYPE_RAW_def)
  have k: "sk_pkts zero_sk (PKT_ADDR 0x100a) = Some (the (sk_pkts zero_sk 0))" by (simp add: zero_sk_def)
  have "5 < length flag_ops" "8 < length flag_ops" by (simp_all add: flag_ops_def)
  then obtain s' where "fst (flag_ops ! 5) 0x100a zero_sk = Some (0, s')" "snd (flag_ops ! 5) 0x100a s' = Some True"
    "snd (flag_ops ! 8) 0x100a s' = snd (flag_ops ! 8) 0x100a zero_sk"
    using packet_flags_independent [OF h k, THEN conjunct1, rule_format, of 5] by force
  moreover have "packet_get_group_end 0x100a zero_sk = Some False"
    using h by (simp add: packet_get_group_end_def PKT_TYPE_ASSERT_def zero_sk_def)
  ultimately show ?thesis
    by (simp add: flag_ops_def)
qed

subsection \<open>Tokens\<close>

lemma upd_bytes_comp: "do { s \<leftarrow> upd_bytes f s; upd_bytes g s } = upd_bytes (\<lambda>m. do { m \<leftarrow> f m; g m }) s"
  by (cases "f (sk_bytes s)") (simp_all add: upd_bytes_def)

lemma owned_cpy: "owned m x n \<Longrightarrow> owned m y n \<Longrightarrow> n \<le> 2 ^ 64 \<Longrightarrow> owned (cpy n x y m) z k = owned m z k"
  using owned_dom_cong [OF dom_cpy] by blast

lemma cpy_at: "i < n \<Longrightarrow> n \<le> 2 ^ 64 \<Longrightarrow> cpy n x y m (y + of_nat i) = m (x + of_nat i)"
  by (simp add: cpy_def unat_of_nat)

lemma cpy_outside: "n \<le> unat (a - y) \<Longrightarrow> cpy n x y m a = m a"
  by (simp add: cpy_def)

text \<open>An address in one of two blocks that are apart is outside the other.\<close>

lemma apart_outside: "apart n x y \<Longrightarrow> i < n \<Longrightarrow> n \<le> unat (x + of_nat i - y) "
proof -
  assume ap: "apart n x y" and i: "i < n"
  have n: "n \<le> unat (x - y)" "n \<le> unat (y - x)" using ap by (simp_all add: apart_def)
  then have "n < 2 ^ 64" using unat_less_pow [of "x - y"] by simp
  then have ui: "unat (of_nat i :: u64) = i" using i by (simp add: unat_of_nat)
  have "x \<noteq> y" using n i by auto
  then have "unat (x - y) + unat (y - x) = 2 ^ 64"
    by (simp add: unat_sub_if_size word_size word_unat_eq_iff) (use unat_less_pow [of x] unat_less_pow [of y] in auto)
  then have "unat ((x - y) + of_nat i) = unat (x - y) + i"
    using n i ui by (subst unat_add_small) simp_all
  then show ?thesis using n by (simp add: algebra_simps)
qed

lemma apart_sym: "apart n x y \<longleftrightarrow> apart n y x"
  by (auto simp: apart_def)

text \<open>How many bytes \<open>__packet_opt_set_token\<close> reads: all sixteen when the token is aligned.\<close>

definition token_span :: "ptr \<Rightarrow> u16 \<Rightarrow> nat" where
  "token_span token len = (if IS_P2ALIGNED token 8 then 16 else unat len)"

lemma packet_opt_set_token_eq:
  assumes len: "len \<noteq> 0" "len \<le> 16" and t: "token \<noteq> NULL" "type \<noteq> 0"
    and own: "owned (sk_bytes s) token (token_span token len)" "owned (sk_bytes s) (po + po_token_off) 16"
    and ap: "apart 16 token (po + po_token_off)"
    and o: "sk_opts s po = Some p" "sk_pkts s pkt = Some k"
  shows "packet_opt_set_token po token len type pkt s = Some (0, s\<lparr>
    sk_bytes := cpy (token_span token len) token (po + po_token_off) (sk_bytes s),
    sk_opts := (sk_opts s)(po \<mapsto> p\<lparr>po_token_len := len, po_token_type := ucast type\<rparr>),
    sk_pkts := (sk_pkts s)(pkt \<mapsto> pkt_pflags_update (\<lambda>f. f OR PKT_F_OPT_TOKEN) k)\<rparr>)"
proof -
  have l: "unat len \<le> 16" using len(2) by (simp add: word_le_nat_alt)
  have copy: "(if IS_P2ALIGNED token 8 then do {
      s \<leftarrow> upd_bytes (mov64 token (po + po_token_off)) s;
      upd_bytes (mov64 (token + 8) (po + po_token_off + 8)) s }
    else upd_bytes (bcopy token (po + po_token_off) (unat len)) s) =
    Some (s\<lparr>sk_bytes := cpy (token_span token len) token (po + po_token_off) (sk_bytes s)\<rparr>)"
  proof (cases "IS_P2ALIGNED token 8")
    case True
    then have "sk_copy64_16 token (po + po_token_off) (sk_bytes s) = Some (cpy 16 token (po + po_token_off) (sk_bytes s))"
      using own ap by (intro copiesD [OF copies_sk_copy64_16]) (simp_all add: token_span_def)
    with True show ?thesis
      unfolding upd_bytes_comp by (simp add: upd_bytes_def token_span_def sk_copy64_16_def)
  next
    case False
    then show ?thesis
      using own owned_le [OF own(2) l] by (simp add: upd_bytes_def bcopy_def token_span_def)
  qed
  show ?thesis
    using len(1) t o leD [OF len(2)]
    by (simp add: packet_opt_set_token_def copy PKT_OPT_MAX_TOKEN_SIZE_def upd_defs ret0_def)
qed

lemma packet_opt_get_token_eq:
  assumes o: "sk_opts s po = Some p" and nn: "token \<noteq> NULL" "len \<noteq> NULL" "type \<noteq> NULL"
    and l: "ld16 (sk_bytes s) len = Some l" "po_token_len p \<le> l" "po_token_len p \<le> 16" "po_token_type p \<le> 255"
    and own: "owned (sk_bytes s) (po + po_token_off) 16" "owned (sk_bytes s) token (unat (po_token_len p))"
      "owned (sk_bytes s) len 2" "sk_bytes s type \<noteq> None"
  shows "packet_opt_get_token po token len type s = Some (0, s\<lparr>sk_bytes :=
    (put len (bytes16 (po_token_len p)) (cpy (unat (po_token_len p)) (po + po_token_off) token (sk_bytes s)))
      (type \<mapsto> ucast (po_token_type p))\<rparr>)"
proof -
  let ?n = "unat (po_token_len p)" and ?m = "cpy (unat (po_token_len p)) (po + po_token_off) token (sk_bytes s)"
  have n: "?n \<le> 16" using l(3) by (simp add: word_le_nat_alt)
  have own_n: "owned (sk_bytes s) (po + po_token_off) ?n" using own(1) n by (rule owned_le)
  have m: "owned ?m z k = owned (sk_bytes s) z k" for z k
    using owned_cpy [OF own_n own(2)] n by simp
  have "?m type \<noteq> None" using m [of type 1] own(4) by (simp add: owned_def)
  then have "put len (bytes16 (po_token_len p)) ?m type \<noteq> None" by (simp add: put_def)
  then show ?thesis
    using o nn l(1,3) leD [OF l(2)] leD [OF l(4)] own own_n m
    by (simp add: packet_opt_get_token_def Let_def PKT_OPT_MAX_TOKEN_SIZE_def upd_bytes_def bcopy_def st16_put st8_def ret0_def)
qed


text \<open>
  The set-up of the token theorems. \<open>token_vars\<close>: the caller's buffer, length and type variables exist and
  overlap neither each other nor the token in the options at \<open>po\<close>. \<open>token_setup\<close>: a packet with options
  and, beside these variables, a token to store.
\<close>

definition token_vars :: "bytes \<Rightarrow> ptr \<Rightarrow> ptr \<Rightarrow> ptr \<Rightarrow> ptr \<Rightarrow> bool" where
  "token_vars m po buf lp tp \<longleftrightarrow> owned m (po + po_token_off) 16 \<and> owned m buf 16 \<and> owned m lp 2 \<and> m tp \<noteq> None \<and>
     buf \<noteq> NULL \<and> lp \<noteq> NULL \<and> tp \<noteq> NULL \<and> apart 16 buf lp \<and> apart 16 buf tp \<and> apart 2 lp tp \<and>
     apart 16 lp (po + po_token_off)"

definition token_setup :: "sk_mem \<Rightarrow> u64 \<Rightarrow> kern_packet \<Rightarrow> ptr \<Rightarrow> u16 \<Rightarrow> bool" where
  "token_setup s ph k tok len \<longleftrightarrow> SK_PTR_TYPE ph = NEXUS_META_TYPE_PACKET \<and>
     sk_pkts s (PKT_ADDR ph) = Some k \<and> sk_opts s (pkt_com_opt k) \<noteq> None \<and>
     owned (sk_bytes s) (pkt_com_opt k + po_token_off) 16 \<and> owned (sk_bytes s) tok (token_span tok len) \<and>
     tok \<noteq> NULL \<and> apart 16 tok (pkt_com_opt k + po_token_off)"

lemma ld16_cong: "m p = m' p \<Longrightarrow> m (p + 1) = m' (p + 1) \<Longrightarrow> ld16 m p = ld16 m' p"
  by (simp add: ld16_def)

lemma token_vars_owned_cong: "token_vars m po buf lp tp \<Longrightarrow> (\<And>z n. owned m' z n = owned m z n) \<Longrightarrow> token_vars m' po buf lp tp"
proof -
  assume v: "token_vars m po buf lp tp" and o: "\<And>z n. owned m' z n = owned m z n"
  have "m' tp \<noteq> None" using o [of tp 1] v by (simp add: owned_def token_vars_def)
  then show ?thesis using v by (simp add: token_vars_def o)
qed

text \<open>The token is stored with the given type.\<close>

lemma token_stored:
  assumes st: "token_setup s ph k tok len" and len: "len \<noteq> 0" "len \<le> 16" and ty: "ty \<noteq> 0"
  shows "\<exists>s1 k1 p1. packet_opt_set_token (pkt_com_opt k) tok len ty (PKT_ADDR ph) s = Some (0, s1) \<and>
    sk_pkts s1 (PKT_ADDR ph) = Some k1 \<and> pkt_com_opt k1 = pkt_com_opt k \<and> pkt_pflags k1 AND PKT_F_OPT_TOKEN \<noteq> 0 \<and>
    sk_opts s1 (pkt_com_opt k) = Some p1 \<and> po_token_len p1 = len \<and> po_token_type p1 = ucast ty \<and>
    (\<forall>z n. owned (sk_bytes s1) z n = owned (sk_bytes s) z n) \<and>
    (\<forall>i < unat len. sk_bytes s1 (pkt_com_opt k + po_token_off + of_nat i) = sk_bytes s (tok + of_nat i)) \<and>
    (\<forall>a. 16 \<le> unat (a - (pkt_com_opt k + po_token_off)) \<longrightarrow> sk_bytes s1 a = sk_bytes s a)"
proof -
  let ?po = "pkt_com_opt k" and ?m = "sk_bytes s"
  let ?m1 = "cpy (token_span tok len) tok (?po + po_token_off) ?m"
  obtain p where o: "sk_opts s ?po = Some p" using st by (auto simp: token_setup_def)
  have k: "sk_pkts s (PKT_ADDR ph) = Some k" and own: "owned ?m tok (token_span tok len)" "owned ?m (?po + po_token_off) 16"
    and nn: "tok \<noteq> NULL" and ap: "apart 16 tok (?po + po_token_off)"
    using st by (simp_all add: token_setup_def)
  have n: "unat len \<le> 16" "unat len \<le> token_span tok len" "token_span tok len \<le> 16"
    using len(2) by (simp_all add: word_le_nat_alt token_span_def)
  have own1: "owned ?m1 z j = owned ?m z j" for z j
    using own(1) owned_le [OF own(2) n(3)] n(3) by (simp add: owned_cpy)
  have tok: "?m1 (?po + po_token_off + of_nat i) = ?m (tok + of_nat i)" if "i < unat len" for i
    using that n by (intro cpy_at) simp_all
  have out: "?m1 a = ?m a" if "16 \<le> unat (a - (?po + po_token_off))" for a
    using that n(3) by (intro cpy_outside) simp
  have fl: "PKT_F_OPT_TOKEN \<noteq> 0" by (simp add: pkt_flags)
  let ?p1 = "p\<lparr>po_token_len := len, po_token_type := ucast ty\<rparr>" and ?k1 = "pkt_pflags_update (\<lambda>f. f OR PKT_F_OPT_TOKEN) k"
  let ?s1 = "s\<lparr>sk_bytes := ?m1, sk_opts := (sk_opts s)(?po \<mapsto> ?p1), sk_pkts := (sk_pkts s)(PKT_ADDR ph \<mapsto> ?k1)\<rparr>"
  have "packet_opt_set_token ?po tok len ty (PKT_ADDR ph) s = Some (0, ?s1)"
    by (rule packet_opt_set_token_eq [OF len nn ty own ap o k])
  then show ?thesis
    by (intro exI [of _ ?s1] exI [of _ ?k1] exI [of _ ?p1]) (simp add: own1 tok out fl)
qed

text \<open>A token of the options at \<open>po\<close> is read into the caller's buffer.\<close>

lemma token_read:
  assumes v: "token_vars (sk_bytes s) po buf lp tp" and p: "sk_opts s po = Some p"
    and t: "po_token_len p \<le> 16" "po_token_type p = ucast ty"
    and l: "ld16 (sk_bytes s) lp = Some l" "po_token_len p \<le> l"
  shows "\<exists>m. packet_opt_get_token po buf lp tp s = Some (0, s\<lparr>sk_bytes := m\<rparr>) \<and>
    (\<forall>i < unat (po_token_len p). m (buf + of_nat i) = sk_bytes s (po + po_token_off + of_nat i)) \<and>
    ld16 m lp = Some (po_token_len p) \<and> m tp = Some (ty :: u8)"
proof -
  let ?len = "po_token_len p" and ?m = "sk_bytes s"
  let ?c = "cpy (unat ?len) (po + po_token_off) buf ?m"
  let ?m2 = "(put lp (bytes16 ?len) ?c)(tp \<mapsto> ty)"
  have own: "owned ?m (po + po_token_off) 16" "owned ?m buf 16" "owned ?m lp 2" "?m tp \<noteq> None"
    and nn: "buf \<noteq> NULL" "lp \<noteq> NULL" "tp \<noteq> NULL"
    and ap: "apart 16 buf lp" "apart 16 buf tp" "apart 2 lp tp"
    using v by (simp_all add: token_vars_def)
  have n: "unat ?len \<le> 16" using t(1) by (simp add: word_le_nat_alt)
  have ty8: "ucast (ucast ty :: u32) = ty"
    by (rule bit_word_eqI) (simp add: bit_simps)
  have ty255: "(ucast ty :: u32) \<le> 255"
    using unat_less_pow [of ty] by (simp add: word_le_nat_alt unsigned_ucast_eq take_bit_nat_eq_self)
  have get: "packet_opt_get_token po buf lp tp s = Some (0, s\<lparr>sk_bytes := ?m2\<rparr>)"
    using packet_opt_get_token_eq [OF p nn l t(1)] ty8 ty255 own owned_le [OF own(2) n] by (simp add: t(2))
  have bytes: "?m2 (buf + of_nat i) = ?m (po + po_token_off + of_nat i)" if i: "i < unat ?len" for i
  proof -
    have i16: "i < 16" using i n by simp
    have "buf + of_nat i \<noteq> tp" "2 \<le> unat (buf + of_nat i - lp)"
      using apart_outside [OF ap(1) i16] apart_outside [OF ap(2) i16] by auto
    then have "?m2 (buf + of_nat i) = ?c (buf + of_nat i)"
      by (simp add: put_outside)
    also have "\<dots> = ?m (po + po_token_off + of_nat i)"
      using i n by (intro cpy_at) simp_all
    finally show ?thesis .
  qed
  have "tp \<noteq> lp" "tp \<noteq> lp + 1"
    using apart_outside [OF ap(3), of 0] apart_outside [OF ap(3), of 1] by auto
  then have "ld16 ?m2 lp = Some ?len"
    using ld16_put [of lp ?len ?c] by (subst ld16_cong [of _ _ "put lp (bytes16 ?len) ?c"]) simp_all
  then show ?thesis
    using get bytes by (intro exI [of _ ?m2]) simp
qed

lemma token_types: "PKT_OPT_TOKEN_TYPE_OPAQUE \<noteq> 0" "PKT_OPT_TOKEN_TYPE_PACKET_ID \<noteq> 0"
  "PKT_OPT_TOKEN_TYPE_OPAQUE \<noteq> PKT_OPT_TOKEN_TYPE_PACKET_ID" "ENOENT \<noteq> 0" "EINVAL \<noteq> 0" "ERANGE \<noteq> 0"
  by (simp_all add: PKT_OPT_TOKEN_TYPE_OPAQUE_def PKT_OPT_TOKEN_TYPE_PACKET_ID_def ENOENT_def EINVAL_def ERANGE_def)

text \<open>The length variable of \<open>__packet_get_packetid\<close> is set to 16 before the token is read.\<close>

lemma token_read_16:
  assumes v: "token_vars (sk_bytes s) po buf lp tp"
  shows "\<exists>m. upd_bytes (st16 lp 16) s = Some (s\<lparr>sk_bytes := m\<rparr>) \<and> token_vars m po buf lp tp \<and> ld16 m lp = Some 16 \<and>
    (\<forall>i < 16. m (po + po_token_off + of_nat i) = sk_bytes s (po + po_token_off + of_nat i))"
proof -
  let ?m = "put lp (bytes16 16) (sk_bytes s)"
  have o: "owned (sk_bytes s) lp 2" and ap: "apart 16 (po + po_token_off) lp"
    using v by (simp_all add: token_vars_def apart_sym)
  have "?m tp \<noteq> None"
    using v by (simp add: token_vars_def put_def)
  then have "token_vars ?m po buf lp tp"
    using v by (simp add: token_vars_def owned_put)
  moreover have "?m (po + po_token_off + of_nat i) = sk_bytes s (po + po_token_off + of_nat i)" if "i < 16" for i
    using apart_outside [OF ap that] by (intro put_outside) simp
  ultimately show ?thesis
    using o by (intro exI [of _ ?m]) (simp add: upd_bytes_def st16_put ld16_put)
qed

text \<open>
  C29: A token of 1 to 16 bytes that is stored on a packet, from an aligned or an unaligned buffer, is
  read back byte for byte, with its length, into a buffer that is large enough; asking for a packet
  identifier then gives \<open>ENOENT\<close>. A packet identifier is stored and read back in the same way and is
  not taken for an opaque token (\<open>ENOENT\<close>). The token must be readable for \<open>token_span\<close> bytes, which is
  sixteen, whatever the length, if it is aligned.
\<close>
theorem packet_token_round_trip:
  assumes st: "token_setup s ph k tok len" and v: "token_vars (sk_bytes s) (pkt_com_opt k) buf lp tp"
    and len: "len \<noteq> 0" "len \<le> 16" and l: "ld16 (sk_bytes s) lp = Some l" "len \<le> l"
  shows "(\<exists>s1 s2 s3. packet_set_token ph tok len s = Some (0, s1) \<and> packet_get_token ph buf lp tp s1 = Some (0, s2) \<and>
      (\<forall>i < unat len. sk_bytes s2 (buf + of_nat i) = sk_bytes s (tok + of_nat i)) \<and> ld16 (sk_bytes s2) lp = Some len \<and>
      packet_get_packetid ph buf lp tp s1 = Some (ENOENT, s3)) \<and>
    (len = 16 \<longrightarrow> (\<exists>s1 s2 s3. packet_set_packetid ph tok s = Some (0, s1) \<and>
      packet_get_packetid ph buf lp tp s1 = Some (0, s2) \<and>
      (\<forall>i < 16. sk_bytes s2 (buf + of_nat i) = sk_bytes s (tok + of_nat i)) \<and>
      packet_get_token ph buf lp tp s1 = Some (ENOENT, s3)))"
proof -
  let ?po = "pkt_com_opt k"
  have ph: "PKT_ASSERT ph = Some ()" "sk_pkts s (PKT_ADDR ph) = Some k"
    using st by (simp_all add: token_setup_def PKT_ASSERT_iff)
  have main: "\<exists>s1 m1 m2. packet_opt_set_token ?po tok len ty (PKT_ADDR ph) s = Some (0, s1) \<and>
      packet_get_token ph buf lp tp s1 = Some (if ty = PKT_OPT_TOKEN_TYPE_OPAQUE then 0 else ENOENT, s1\<lparr>sk_bytes := m1\<rparr>) \<and>
      (\<forall>i < unat len. m1 (buf + of_nat i) = sk_bytes s (tok + of_nat i)) \<and> ld16 m1 lp = Some len \<and>
      packet_get_packetid ph buf lp tp s1 =
        Some (if ty = PKT_OPT_TOKEN_TYPE_PACKET_ID \<and> len = 16 then 0 else ENOENT, s1\<lparr>sk_bytes := m2\<rparr>) \<and>
      (\<forall>i < unat len. m2 (buf + of_nat i) = sk_bytes s (tok + of_nat i))" if ty: "ty \<noteq> 0" for ty
  proof -
    obtain s1 k1 p1 where s1: "packet_opt_set_token ?po tok len ty (PKT_ADDR ph) s = Some (0, s1)"
      "sk_pkts s1 (PKT_ADDR ph) = Some k1" "pkt_com_opt k1 = ?po" "pkt_pflags k1 AND PKT_F_OPT_TOKEN \<noteq> 0"
      "sk_opts s1 ?po = Some p1" "po_token_len p1 = len" "po_token_type p1 = ucast ty"
      and own: "\<And>z n. owned (sk_bytes s1) z n = owned (sk_bytes s) z n"
      and tok: "\<And>i. i < unat len \<Longrightarrow> sk_bytes s1 (?po + po_token_off + of_nat i) = sk_bytes s (tok + of_nat i)"
      and out: "\<And>a. 16 \<le> unat (a - (?po + po_token_off)) \<Longrightarrow> sk_bytes s1 a = sk_bytes s a"
      using token_stored [OF st len ty] by blast
    have v1: "token_vars (sk_bytes s1) ?po buf lp tp" using token_vars_owned_cong [OF v own] .
    have ap: "apart 16 lp (?po + po_token_off)" using v by (simp add: token_vars_def)
    have l1: "ld16 (sk_bytes s1) lp = Some l"
      using apart_outside [OF ap, of 0] apart_outside [OF ap, of 1] out l(1)
      by (subst ld16_cong [of _ _ "sk_bytes s"]) simp_all
    obtain m1 where m1: "packet_opt_get_token ?po buf lp tp s1 = Some (0, s1\<lparr>sk_bytes := m1\<rparr>)"
      "\<forall>i < unat len. m1 (buf + of_nat i) = sk_bytes s1 (?po + po_token_off + of_nat i)" "ld16 m1 lp = Some len" "m1 tp = Some ty"
      using token_read [OF v1 s1(5) _ s1(7) l1] len(2) l(2) unfolding s1(6) by blast
    obtain m where m: "upd_bytes (st16 lp 16) s1 = Some (s1\<lparr>sk_bytes := m\<rparr>)" "token_vars m ?po buf lp tp" "ld16 m lp = Some 16"
      "\<forall>i < 16. m (?po + po_token_off + of_nat i) = sk_bytes s1 (?po + po_token_off + of_nat i)"
      using token_read_16 [OF v1] by blast
    obtain m2 where m2: "packet_opt_get_token ?po buf lp tp (s1\<lparr>sk_bytes := m\<rparr>) = Some (0, s1\<lparr>sk_bytes := m2\<rparr>)"
      "\<forall>i < unat len. m2 (buf + of_nat i) = m (?po + po_token_off + of_nat i)" "ld16 m2 lp = Some len" "m2 tp = Some ty"
      using token_read [of "s1\<lparr>sk_bytes := m\<rparr>" ?po buf lp tp p1 ty 16] m(2,3) s1(5,6,7) len(2) by auto
    have n: "i < unat len \<Longrightarrow> i < 16" for i using len(2) by (simp add: word_le_nat_alt)
    have "packet_get_token ph buf lp tp s1 = Some (if ty = PKT_OPT_TOKEN_TYPE_OPAQUE then 0 else ENOENT, s1\<lparr>sk_bytes := m1\<rparr>)"
      using ph s1 m1 by (simp add: packet_get_token_def)
    moreover have "packet_get_packetid ph buf lp tp s1 =
        Some (if ty = PKT_OPT_TOKEN_TYPE_PACKET_ID \<and> len = 16 then 0 else ENOENT, s1\<lparr>sk_bytes := m2\<rparr>)"
      using ph s1 m m2 by (simp add: packet_get_packetid_def)
    ultimately show ?thesis
      using s1(1) m1(2,3) m2(2) m(4) tok n by (intro exI [of _ s1] exI [of _ m1] exI [of _ m2]) simp
  qed
  have eq: "packet_set_token ph tok len s = packet_opt_set_token ?po tok len PKT_OPT_TOKEN_TYPE_OPAQUE (PKT_ADDR ph) s"
    "packet_set_packetid ph tok s = packet_opt_set_token ?po tok 16 PKT_OPT_TOKEN_TYPE_PACKET_ID (PKT_ADDR ph) s"
    using ph by (simp_all add: packet_set_token_def packet_set_packetid_def)
  have no: "PKT_OPT_TOKEN_TYPE_OPAQUE = PKT_OPT_TOKEN_TYPE_PACKET_ID \<longleftrightarrow> False"
    "PKT_OPT_TOKEN_TYPE_PACKET_ID = PKT_OPT_TOKEN_TYPE_OPAQUE \<longleftrightarrow> False"
    using token_types(3) by auto
  obtain s1 m1 m2 where
    "packet_set_token ph tok len s = Some (0, s1)" "packet_get_token ph buf lp tp s1 = Some (0, s1\<lparr>sk_bytes := m1\<rparr>)"
    "\<forall>i < unat len. m1 (buf + of_nat i) = sk_bytes s (tok + of_nat i)" "ld16 m1 lp = Some len"
    "packet_get_packetid ph buf lp tp s1 = Some (ENOENT, s1\<lparr>sk_bytes := m2\<rparr>)"
    using main [OF token_types(1), folded eq(1), unfolded no if_False simp_thms] by (simp only: if_True) blast
  then have "\<exists>s1 s2 s3. packet_set_token ph tok len s = Some (0, s1) \<and> packet_get_token ph buf lp tp s1 = Some (0, s2) \<and>
      (\<forall>i < unat len. sk_bytes s2 (buf + of_nat i) = sk_bytes s (tok + of_nat i)) \<and> ld16 (sk_bytes s2) lp = Some len \<and>
      packet_get_packetid ph buf lp tp s1 = Some (ENOENT, s3)"
    by (intro exI [of _ s1] exI [of _ "s1\<lparr>sk_bytes := m1\<rparr>"] exI [of _ "s1\<lparr>sk_bytes := m2\<rparr>"]) simp
  moreover have "\<exists>s1 s2 s3. packet_set_packetid ph tok s = Some (0, s1) \<and>
      packet_get_packetid ph buf lp tp s1 = Some (0, s2) \<and>
      (\<forall>i < 16. sk_bytes s2 (buf + of_nat i) = sk_bytes s (tok + of_nat i)) \<and>
      packet_get_token ph buf lp tp s1 = Some (ENOENT, s3)" if len16: "len = 16"
  proof -
    obtain s1 m1 m2 where "packet_set_packetid ph tok s = Some (0, s1)"
      "packet_get_packetid ph buf lp tp s1 = Some (0, s1\<lparr>sk_bytes := m2\<rparr>)"
      "\<forall>i < unat (16 :: u16). m2 (buf + of_nat i) = sk_bytes s (tok + of_nat i)"
      "packet_get_token ph buf lp tp s1 = Some (ENOENT, s1\<lparr>sk_bytes := m1\<rparr>)"
      using main [OF token_types(2), unfolded no if_False simp_thms] by (simp only: len16 if_True eq simp_thms) blast
    then show ?thesis
      by (intro exI [of _ s1] exI [of _ "s1\<lparr>sk_bytes := m2\<rparr>"] exI [of _ "s1\<lparr>sk_bytes := m1\<rparr>"]) simp
  qed
  ultimately show ?thesis by blast
qed


text \<open>
  C40: The error behaviour of tokens. Storing no bytes clears the token and its flag, after which asking
  for a token gives \<open>ENOENT\<close>. Storing some bytes with a missing pointer, more than sixteen of them, or
  with token type 0 gives \<open>EINVAL\<close> and changes nothing; the same holds of a missing packet identifier.
  Reading a token that is not set gives \<open>ENOENT\<close>; reading one into a buffer that is too small, through a
  missing pointer, or with a stored type above 255 gives \<open>EINVAL\<close>; neither changes anything.
\<close>
theorem packet_token_errors:
  assumes ty: "SK_PTR_TYPE ph = NEXUS_META_TYPE_PACKET" and k: "sk_pkts s (PKT_ADDR ph) = Some k"
    and o: "sk_opts s (pkt_com_opt k) = Some p" and own: "owned (sk_bytes s) (pkt_com_opt k + po_token_off) 16"
  shows "(\<exists>s1. packet_set_token ph tok 0 s = Some (0, s1) \<and> packet_get_token ph buf lp tp s1 = Some (ENOENT, s1) \<and>
      (\<forall>i < 16. sk_bytes s1 (pkt_com_opt k + po_token_off + of_nat i) = Some 0)) \<and>
    (\<forall>len. len \<noteq> 0 \<and> (tok = NULL \<or> len > 16) \<longrightarrow> packet_set_token ph tok len s = Some (EINVAL, s)) \<and>
    (\<forall>len type. len \<noteq> 0 \<and> (tok = NULL \<or> len > 16 \<or> type = 0) \<longrightarrow>
      packet_opt_set_token (pkt_com_opt k) tok len type (PKT_ADDR ph) s = Some (EINVAL, s)) \<and>
    packet_set_packetid ph NULL s = Some (EINVAL, s) \<and>
    (pkt_pflags k AND PKT_F_OPT_TOKEN = 0 \<longrightarrow> packet_get_token ph buf lp tp s = Some (ENOENT, s)) \<and>
    (pkt_pflags k AND PKT_F_OPT_TOKEN \<noteq> 0 \<and>
      (buf = NULL \<or> lp = NULL \<or> tp = NULL \<or>
       (\<exists>l. ld16 (sk_bytes s) lp = Some l \<and> (l < po_token_len p \<or> po_token_type p > 255))) \<longrightarrow>
      packet_get_token ph buf lp tp s = Some (EINVAL, s))"
proof (intro conjI allI impI)
  have a: "PKT_ASSERT ph = Some ()" using ty by (simp add: PKT_ASSERT_iff)
  let ?t = "pkt_com_opt k + po_token_off"
  have clear: "clear_flow_id ?t s = Some (s\<lparr>sk_bytes := fill 16 ?t 0 (sk_bytes s)\<rparr>)"
    using own by (rule clear_flow_id_eq)
  have off: "(f AND NOT PKT_F_OPT_TOKEN) AND PKT_F_OPT_TOKEN = 0" for f by (rule flags_merge)
  have zero: "fill 16 ?t 0 (sk_bytes s) (?t + of_nat i) = Some 0" if "i < 16" for i
    using that by (intro fill_inside) simp_all
  let ?s1 = "s\<lparr>sk_bytes := fill 16 ?t 0 (sk_bytes s), sk_opts := (sk_opts s)(pkt_com_opt k \<mapsto> p\<lparr>po_token_len := 0, po_token_type := 0\<rparr>),
    sk_pkts := (sk_pkts s)(PKT_ADDR ph \<mapsto> pkt_pflags_update (\<lambda>f. f AND NOT PKT_F_OPT_TOKEN) k)\<rparr>"
  have bind: "do { s \<leftarrow> upd_bytes (st64 ?t 0) s; s \<leftarrow> upd_bytes (st64 (?t + 8) 0) s; r s } = do { s \<leftarrow> clear_flow_id ?t s; r s }" for r :: "sk_mem \<Rightarrow> (int \<times> sk_mem) option"
    by (simp add: clear_flow_id_def)
  have "packet_set_token ph tok 0 s = Some (0, ?s1)"
    using a k o by (simp add: packet_set_token_def packet_opt_set_token_def bind clear upd_opt_def upd_pkt_def ret0_def)
  moreover have "packet_get_token ph buf lp tp ?s1 = Some (ENOENT, ?s1)"
    using a by (simp add: packet_get_token_def off)
  ultimately show "\<exists>s1. packet_set_token ph tok 0 s = Some (0, s1) \<and> packet_get_token ph buf lp tp s1 = Some (ENOENT, s1) \<and>
      (\<forall>i < 16. sk_bytes s1 (?t + of_nat i) = Some 0)"
    using zero by (intro exI [of _ ?s1]) simp
  show "packet_set_token ph tok len s = Some (EINVAL, s)" if "len \<noteq> 0 \<and> (tok = NULL \<or> len > 16)" for len
    using a k that by (auto simp: packet_set_token_def packet_opt_set_token_def PKT_OPT_MAX_TOKEN_SIZE_def)
  show "packet_opt_set_token (pkt_com_opt k) tok len type (PKT_ADDR ph) s = Some (EINVAL, s)"
    if "len \<noteq> 0 \<and> (tok = NULL \<or> len > 16 \<or> type = 0)" for len type
    using that by (auto simp: packet_opt_set_token_def PKT_OPT_MAX_TOKEN_SIZE_def)
  show "packet_set_packetid ph NULL s = Some (EINVAL, s)"
    using a k by (simp add: packet_set_packetid_def packet_opt_set_token_def)
  show "packet_get_token ph buf lp tp s = Some (ENOENT, s)" if "pkt_pflags k AND PKT_F_OPT_TOKEN = 0"
    using a k that by (simp add: packet_get_token_def)
  show "packet_get_token ph buf lp tp s = Some (EINVAL, s)" if "pkt_pflags k AND PKT_F_OPT_TOKEN \<noteq> 0 \<and>
      (buf = NULL \<or> lp = NULL \<or> tp = NULL \<or>
       (\<exists>l. ld16 (sk_bytes s) lp = Some l \<and> (l < po_token_len p \<or> po_token_type p > 255)))"
    using a k o that by (auto simp: packet_get_token_def packet_opt_get_token_def Let_def token_types)
qed


text \<open>The zero state with the options of every packet at 0x5000, for the witnesses.\<close>

definition opt_kpkt :: kern_packet where
  "opt_kpkt = (the (sk_pkts zero_sk 0))\<lparr>pkt_com_opt := 0x5000, pkt_tx_compl := 0x6000, pkt_pflags := PKT_F_TX_COMPL_ALLOC\<rparr>"

definition opt_sk :: sk_mem where
  "opt_sk = zero_sk\<lparr>sk_pkts := (\<lambda>_. Some opt_kpkt), sk_bytes := put 0x9000 (bytes16 16) (\<lambda>_. Some 7)\<rparr>"

lemma opt_sk_facts:
  "SK_PTR_TYPE 0x100a = NEXUS_META_TYPE_PACKET" "SK_PTR_SUBTYPE 0x100a = NEXUS_META_SUBTYPE_RAW"
  "sk_pkts opt_sk a = Some opt_kpkt"
  "sk_opts opt_sk a = Some \<lparr>po_token_type = 0, po_token_len = 0, po_vlan_tag = 0, po_expire_ts = 0\<rparr>"
  "owned (sk_bytes opt_sk) x n" "pkt_com_opt opt_kpkt = 0x5000" "ld16 (sk_bytes opt_sk) 0x9000 = Some 16"
  by (simp_all add: opt_sk_def opt_kpkt_def ld16_put owned_put owned_iff)
    (simp_all add: put_def sk_ptr_defs NEXUS_META_TYPE_PACKET_def NEXUS_META_SUBTYPE_RAW_def zero_sk_def)

theorem packet_token_round_trip_witness:
  "\<exists>s1 s2. packet_set_token 0x100a 0x2001 5 opt_sk = Some (0, s1) \<and>
     packet_get_token 0x100a 0x7000 0x9000 0xa000 s1 = Some (0, s2) \<and> ld16 (sk_bytes s2) 0x9000 = Some 5 \<and>
     sk_bytes s2 0x7004 = Some 7"
proof -
  have "token_setup opt_sk 0x100a opt_kpkt 0x2001 5"
    using opt_sk_facts by (simp add: token_setup_def apart_def po_token_off_def)
  moreover have "sk_bytes opt_sk 0xa000 \<noteq> None" using opt_sk_facts(5) [of "0xa000" 1] by (simp add: owned_def)
  then have "token_vars (sk_bytes opt_sk) (pkt_com_opt opt_kpkt) 0x7000 0x9000 0xa000"
    using opt_sk_facts by (simp add: token_vars_def apart_def po_token_off_def)
  ultimately obtain s1 s2 where *: "packet_set_token 0x100a 0x2001 5 opt_sk = Some (0, s1)"
    "packet_get_token 0x100a 0x7000 0x9000 0xa000 s1 = Some (0, s2)" "ld16 (sk_bytes s2) 0x9000 = Some 5"
    "\<forall>i < unat (5 :: u16). sk_bytes s2 (0x7000 + of_nat i) = sk_bytes opt_sk (0x2001 + of_nat i)"
    using packet_token_round_trip [of opt_sk "0x100a" opt_kpkt "0x2001" 5 "0x7000" "0x9000" "0xa000" 16] opt_sk_facts(7)
    by auto
  have "sk_bytes opt_sk 0x2005 = Some 7" by (simp add: opt_sk_def put_def)
  moreover have "sk_bytes s2 (0x7000 + of_nat 4) = sk_bytes opt_sk (0x2001 + of_nat 4)"
    using *(4) [rule_format, of 4] by simp
  ultimately show ?thesis using * by auto
qed

theorem packet_token_errors_witness:
  "packet_set_token 0x100a 0x2000 17 opt_sk = Some (EINVAL, opt_sk) \<and>
     packet_opt_set_token 0x5000 0x2000 4 0 0x1000 opt_sk = Some (EINVAL, opt_sk) \<and>
     packet_get_token 0x100a 1 2 3 opt_sk = Some (ENOENT, opt_sk)"
proof -
  have "pkt_pflags opt_kpkt AND PKT_F_OPT_TOKEN = 0" by (simp add: opt_kpkt_def pkt_flags)
  then show ?thesis
    using packet_token_errors [OF opt_sk_facts(1) opt_sk_facts(3) opt_sk_facts(4) opt_sk_facts(5), of "0x2000" 1 2 3]
      opt_sk_facts(6) by (simp add: PKT_ADDR_def sk_ptr_defs)
qed

subsection \<open>Service and traffic class\<close>

lemmas svc_classes = PKT_SC_BK_SYS_def PKT_SC_BK_def PKT_SC_BE_def PKT_SC_RD_def PKT_SC_OAM_def PKT_SC_AV_def
  PKT_SC_RV_def PKT_SC_VI_def PKT_SC_SIG_def PKT_SC_VO_def PKT_SC_CTL_def

text \<open>
  The eleven service classes are stored and read back; any other value is refused with \<open>EINVAL\<close> and
  changes nothing. Whatever is stored, the value read is one of the eleven. The traffic class read is
  the one the header's table gives for the service class, and a traffic class that is set (1 to 3; the
  others are best effort, 0) is the one that is read.
\<close>
theorem packet_classes:
  assumes q: "sk_qums s (QUM_ADDR ph) = Some q"
  shows "(\<forall>sc \<in> set [PKT_SC_BE, PKT_SC_BK_SYS, PKT_SC_BK, PKT_SC_RD, PKT_SC_OAM, PKT_SC_AV, PKT_SC_RV, PKT_SC_VI,
        PKT_SC_SIG, PKT_SC_VO, PKT_SC_CTL].
      \<exists>s'. packet_set_service_class ph sc s = Some (0, s') \<and> packet_get_service_class ph s' = Some sc \<and>
        packet_get_traffic_class ph s' = Some (if sc \<in> {PKT_SC_BK_SYS, PKT_SC_BK} then 1
          else if sc \<in> {PKT_SC_BE, PKT_SC_RD, PKT_SC_OAM} then 0 else if sc \<in> {PKT_SC_VO, PKT_SC_CTL} then 3 else 2)) \<and>
    (\<forall>sc. sc \<notin> set [PKT_SC_BE, PKT_SC_BK_SYS, PKT_SC_BK, PKT_SC_RD, PKT_SC_OAM, PKT_SC_AV, PKT_SC_RV, PKT_SC_VI,
        PKT_SC_SIG, PKT_SC_VO, PKT_SC_CTL] \<longrightarrow> packet_set_service_class ph sc s = Some (EINVAL, s)) \<and>
    (\<exists>sc \<in> set [PKT_SC_BE, PKT_SC_BK_SYS, PKT_SC_BK, PKT_SC_RD, PKT_SC_OAM, PKT_SC_AV, PKT_SC_RV, PKT_SC_VI,
        PKT_SC_SIG, PKT_SC_VO, PKT_SC_CTL]. packet_get_service_class ph s = Some sc) \<and>
    (\<forall>tc. unat tc < 2 ^ 25 \<longrightarrow> (\<exists>s'. packet_set_traffic_class ph tc s = Some (0, s') \<and>
      packet_get_traffic_class ph s' = Some (if tc < 4 then tc else 0)))"
proof (intro conjI ballI allI impI)
  fix sc assume sc: "sc \<in> set [PKT_SC_BE, PKT_SC_BK_SYS, PKT_SC_BK, PKT_SC_RD, PKT_SC_OAM, PKT_SC_AV, PKT_SC_RV, PKT_SC_VI,
        PKT_SC_SIG, PKT_SC_VO, PKT_SC_CTL]"
  have "PKT_SC2TC sc = (if sc \<in> {PKT_SC_BK_SYS, PKT_SC_BK} then 1
          else if sc \<in> {PKT_SC_BE, PKT_SC_RD, PKT_SC_OAM} then 0 else if sc \<in> {PKT_SC_VO, PKT_SC_CTL} then 3 else 2)"
    using sc by (auto simp: PKT_SC2TC_def PKT_SCVAL_def svc_classes)
  with sc q show "\<exists>s'. packet_set_service_class ph sc s = Some (0, s') \<and> packet_get_service_class ph s' = Some sc \<and>
        packet_get_traffic_class ph s' = Some (if sc \<in> {PKT_SC_BK_SYS, PKT_SC_BK} then 1
          else if sc \<in> {PKT_SC_BE, PKT_SC_RD, PKT_SC_OAM} then 0 else if sc \<in> {PKT_SC_VO, PKT_SC_CTL} then 3 else 2)"
    by (simp add: packet_set_service_class_def packet_get_service_class_def packet_get_traffic_class_def upd_qum_def ret0_def)
next
  fix sc assume "sc \<notin> set [PKT_SC_BE, PKT_SC_BK_SYS, PKT_SC_BK, PKT_SC_RD, PKT_SC_OAM, PKT_SC_AV, PKT_SC_RV, PKT_SC_VI,
        PKT_SC_SIG, PKT_SC_VO, PKT_SC_CTL]"
  then show "packet_set_service_class ph sc s = Some (EINVAL, s)"
    unfolding packet_set_service_class_def by (rule if_not_P)
next
  show "\<exists>sc \<in> set [PKT_SC_BE, PKT_SC_BK_SYS, PKT_SC_BK, PKT_SC_RD, PKT_SC_OAM, PKT_SC_AV, PKT_SC_RV, PKT_SC_VI,
        PKT_SC_SIG, PKT_SC_VO, PKT_SC_CTL]. packet_get_service_class ph s = Some sc"
    unfolding packet_get_service_class_def q by auto
next
  fix tc :: u32 assume tc: "unat tc < 2 ^ 25"
  let ?sc = "if tc = 1 then PKT_SC_BK else if tc = 2 then PKT_SC_VI else if tc = 3 then PKT_SC_VO else PKT_SC_BE"
  have val: "unat (PKT_TC2SCVAL tc) = unat tc * 128"
    using tc by (simp add: PKT_TC2SCVAL_def unat_push_bit_eq)
  have eq: "PKT_TC2SCVAL tc = c \<longleftrightarrow> unat tc * 128 = unat c" for c
    by (simp only: word_unat_eq_iff val)
  have small: "tc = 0 \<longleftrightarrow> unat tc = 0" "tc = 1 \<longleftrightarrow> unat tc = 1" "tc = 2 \<longleftrightarrow> unat tc = 2" "tc = 3 \<longleftrightarrow> unat tc = 3" "tc < 4 \<longleftrightarrow> unat tc < 4"
    by (simp_all add: word_unat_eq_iff word_less_nat_alt)
  have "packet_set_traffic_class ph tc s = packet_set_service_class ph ?sc s"
    unfolding packet_set_traffic_class_def Let_def eq small
    by (simp add: PKT_SCVAL_def svc_classes)
  moreover have "PKT_SC2TC ?sc = (if tc < 4 then tc else 0)"
    unfolding small by (auto simp: PKT_SC2TC_def PKT_SCVAL_def svc_classes word_unat_eq_iff)
  ultimately show "\<exists>s'. packet_set_traffic_class ph tc s = Some (0, s') \<and>
      packet_get_traffic_class ph s' = Some (if tc < 4 then tc else 0)"
    using q by (simp add: packet_set_service_class_def packet_get_service_class_def packet_get_traffic_class_def upd_qum_def ret0_def)
qed

theorem packet_classes_witness:
  "\<exists>s'. packet_set_traffic_class 0x100a 3 opt_sk = Some (0, s') \<and> packet_get_traffic_class 0x100a s' = Some 3"
proof -
  have "sk_qums opt_sk (QUM_ADDR 0x100a) = Some (the (sk_qums opt_sk (QUM_ADDR 0x100a)))"
    by (simp add: opt_sk_def) (simp add: zero_sk_def)
  from packet_classes [OF this, THEN conjunct2, THEN conjunct2, THEN conjunct2, rule_format, of 3]
  show ?thesis by simp
qed

subsection \<open>Flow identifier\<close>

lemma upd_bytes_comp4:
  "do { s \<leftarrow> upd_bytes f s; s \<leftarrow> upd_bytes g s; s \<leftarrow> upd_bytes h s; upd_bytes i s } =
   upd_bytes (\<lambda>m. do { m \<leftarrow> f m; m \<leftarrow> g m; m \<leftarrow> h m; i m }) s"
  unfolding upd_bytes_comp by simp

lemma uuid_copy_paths:
  assumes "owned (sk_bytes s) src 16" "owned (sk_bytes s) dst 16" "apart 16 src dst"
  shows "do { s \<leftarrow> upd_bytes (mov64 src dst) s; upd_bytes (mov64 (src + 8) (dst + 8)) s } =
      Some (s\<lparr>sk_bytes := cpy 16 src dst (sk_bytes s)\<rparr>)"
    "do { s \<leftarrow> upd_bytes (mov32 src dst) s; s \<leftarrow> upd_bytes (mov32 (src + 4) (dst + 4)) s;
       s \<leftarrow> upd_bytes (mov32 (src + 8) (dst + 8)) s; upd_bytes (mov32 (src + 12) (dst + 12)) s } =
      Some (s\<lparr>sk_bytes := cpy 16 src dst (sk_bytes s)\<rparr>)"
    "upd_bytes (bcopy src dst 16) s = Some (s\<lparr>sk_bytes := cpy 16 src dst (sk_bytes s)\<rparr>)"
  using copiesD [OF copies_sk_copy64_16 assms] copiesD [OF copies_sk_copy32_16 assms] assms(1,2)
  by (simp_all only: upd_bytes_comp4, simp_all only: upd_bytes_comp)
    (simp_all add: upd_bytes_def sk_copy64_16_def sk_copy32_16_def bcopy_def)

text \<open>
  A flow identifier set from a buffer of any alignment and read into a buffer of any alignment is
  the same sixteen bytes, and clearing it leaves sixteen zero bytes; setting it changes no other byte.
\<close>
theorem packet_flow_uuid_round_trip:
  assumes own: "owned (sk_bytes s) u 16" "owned (sk_bytes s) v 16" "owned (sk_bytes s) (QUM_ADDR ph) 16"
    and ap: "apart 16 u (QUM_ADDR ph)" "apart 16 (QUM_ADDR ph) v"
  shows "(\<exists>s1 s2. packet_set_flow_uuid ph u s = Some s1 \<and> packet_get_flow_uuid ph v s1 = Some s2 \<and>
      (\<forall>i < 16. sk_bytes s2 (v + of_nat i) = sk_bytes s (u + of_nat i)) \<and>
      (\<forall>a. 16 \<le> unat (a - QUM_ADDR ph) \<longrightarrow> sk_bytes s1 a = sk_bytes s a) \<and> s1\<lparr>sk_bytes := sk_bytes s\<rparr> = s) \<and>
    (\<exists>s1. packet_clear_flow_uuid ph s = Some s1 \<and> (\<forall>i < 16. sk_bytes s1 (QUM_ADDR ph + of_nat i) = Some 0))"
proof -
  let ?q = "QUM_ADDR ph" and ?s1 = "s\<lparr>sk_bytes := cpy 16 u (QUM_ADDR ph) (sk_bytes s)\<rparr>"
  have set: "packet_set_flow_uuid ph u s = Some ?s1"
    using uuid_copy_paths [OF own(1,3) ap(1)] by (simp only: packet_set_flow_uuid_def Let_def if_cancel)
  have own1: "owned (sk_bytes ?s1) ?q 16" "owned (sk_bytes ?s1) v 16"
    using own by (simp_all add: owned_cpy)
  have get: "packet_get_flow_uuid ph v ?s1 = Some (?s1\<lparr>sk_bytes := cpy 16 ?q v (sk_bytes ?s1)\<rparr>)"
    using uuid_copy_paths [OF own1 ap(2)] by (simp only: packet_get_flow_uuid_def Let_def if_cancel)
  have "cpy 16 ?q v (cpy 16 u ?q (sk_bytes s)) (v + of_nat i) = sk_bytes s (u + of_nat i)" if "i < 16" for i
    using that by (simp add: cpy_at)
  moreover have "cpy 16 u ?q (sk_bytes s) a = sk_bytes s a" if "16 \<le> unat (a - ?q)" for a
    using that by (rule cpy_outside)
  ultimately show ?thesis
    using set get clear_flow_id_eq [OF own(3)] by (simp add: packet_clear_flow_uuid_def fill_inside)
qed

theorem packet_flow_uuid_round_trip_witness:
  "\<exists>s1 s2. packet_set_flow_uuid 0x100a 0x9000 opt_sk = Some s1 \<and> packet_get_flow_uuid 0x100a 0x7001 s1 = Some s2 \<and>
     sk_bytes s2 0x7001 = Some 16 \<and> sk_bytes s2 0x7003 = Some 7"
proof -
  have q: "QUM_ADDR 0x100a = 0x1000" by (simp add: QUM_ADDR_def sk_ptr_defs)
  obtain s1 s2 where *: "packet_set_flow_uuid 0x100a 0x9000 opt_sk = Some s1" "packet_get_flow_uuid 0x100a 0x7001 s1 = Some s2"
    "\<forall>i < 16. sk_bytes s2 (0x7001 + of_nat i) = sk_bytes opt_sk (0x9000 + of_nat i)"
    using packet_flow_uuid_round_trip [OF opt_sk_facts(5) opt_sk_facts(5) opt_sk_facts(5), of "0x9000" "0x100a" "0x7001"]
    by (auto simp: q apart_def)
  have "sk_bytes opt_sk 0x9000 = Some 16" "sk_bytes opt_sk 0x9002 = Some 7"
    by (simp_all add: opt_sk_def put_def bytes16_def)
  then show ?thesis
    using * *(3) [rule_format, of 0] *(3) [rule_format, of 2] by auto
qed

subsection \<open>One's complement sums\<close>

text \<open>The sum of 16-bit words in one's complement: a positive sum is reduced to 1 .. 65535.\<close>

definition oc_sum :: "nat \<Rightarrow> nat" where
  "oc_sum n = (if n = 0 then 0 else (n - 1) mod 65535 + 1)"

lemma fold_step:
  "unat (drop_bit 16 x + (x AND 0xffff) :: u32) = unat x div 65536 + unat x mod 65536"
proof -
  have m: "(0xffff :: u32) = mask 16" by (simp add: mask_eq_exp_minus_1)
  have "unat (drop_bit 16 x) = unat x div 65536" "unat (x AND 0xffff) = unat x mod 65536"
    unfolding m unat_and_mask unat_drop_bit by simp_all
  moreover have "unat x div 65536 + unat x mod 65536 < 2 ^ 32"
    using unat_less_pow [of x] by simp
  ultimately show ?thesis by (subst unat_add_small) simp_all
qed

lemma unat_ucast_u16: "unat (ucast (y :: u32) :: u16) = unat y mod 65536"
  by (simp only: unsigned_ucast_eq) (simp add: take_bit_eq_mod)

lemma unat_low16: "unat (ucast (x AND 0xffff :: u32) :: u16) = unat x mod 65536"
proof -
  have m: "(0xffff :: u32) = mask 16" by (simp add: mask_eq_exp_minus_1)
  show ?thesis unfolding unat_ucast_u16 unfolding m unat_and_mask by simp
qed

lemma fold_mod: "(n div 65536 + n mod 65536) mod 65535 = n mod (65535 :: nat)"
proof -
  have "(n div 65536 + n mod 65536) + 65535 * (n div 65536) = n"
    using div_mult_mod_eq [of n 65536] by linarith
  then show ?thesis by (metis mod_mult_self2)
qed

text \<open>A value that two folds bring to 16 bits.\<close>

lemma fold_twice:
  fixes n :: nat
  assumes "n < 2 ^ 32"
  defines "a \<equiv> n div 65536 + n mod 65536"
  shows "a div 65536 + a mod 65536 < 65536" "a div 65536 + a mod 65536 = 0 \<longleftrightarrow> n = 0"
    "(a div 65536 + a mod 65536) mod 65535 = n mod 65535"
proof -
  have h: "n div 65536 < 65536" using assms(1) by simp
  have a: "a \<le> 131070" using h unfolding a_def by linarith
  show "a div 65536 + a mod 65536 < 65536"
  proof (cases "a < 65536")
    case False
    then have "a div 65536 = 1" "a mod 65536 = a - 65536" using a by (simp_all add: div_nat_eqI mod_eq_self_iff_div_eq_0 le_mod_geq)
    then show ?thesis using a by simp
  qed simp
  show "a div 65536 + a mod 65536 = 0 \<longleftrightarrow> n = 0"
  proof -
    have z: "x div 65536 + x mod 65536 = 0 \<longleftrightarrow> x = 0" for x :: nat
      using div_mult_mod_eq [of x 65536] by linarith
    show ?thesis unfolding z by (simp only: a_def z)
  qed
  show "(a div 65536 + a mod 65536) mod 65535 = n mod 65535"
    unfolding fold_mod by (simp only: a_def fold_mod)
qed

lemma oc_sum_unique:
  assumes "r < 65536" "r = 0 \<longleftrightarrow> n = 0" "r mod 65535 = n mod 65535"
  shows "r = oc_sum n"
proof (cases "n = 0")
  case False
  then obtain r' n' where e: "r = Suc r'" "n = Suc n'"
    using assms(2) by (metis not0_implies_Suc)
  have "r' mod 65535 = n' mod 65535"
    using assms(3) unfolding e by (auto simp: mod_Suc split: if_splits)
  moreover have "r' < 65535" using assms(1) e by simp
  ultimately show ?thesis by (simp add: oc_sum_def e)
qed (use assms in \<open>simp add: oc_sum_def\<close>)

lemma packet_fold_sum_eq: "unat (packet_fold_sum x) = oc_sum (unat x)"
proof (rule oc_sum_unique)
  have n: "unat x < 2 ^ 32" using unat_less_pow [of x] by simp
  let ?a = "unat x div 65536 + unat x mod 65536"
  let ?b = "?a div 65536 + ?a mod 65536"
  have b: "?b div 65536 + ?b mod 65536 = ?b" using fold_twice(1) [OF n] by simp
  have "unat (packet_fold_sum x) = ?b mod 65536"
    unfolding packet_fold_sum_def Let_def unat_low16 fold_step b ..
  then have r: "unat (packet_fold_sum x) = ?b" using fold_twice(1) [OF n] by simp
  show "unat (packet_fold_sum x) < 65536" "unat (packet_fold_sum x) = 0 \<longleftrightarrow> unat x = 0"
    "unat (packet_fold_sum x) mod 65535 = unat x mod 65535"
    unfolding r using fold_twice [OF n] by simp_all
qed

lemma packet_fold_sum_final_eq: "packet_fold_sum_final x = NOT (packet_fold_sum x)"
proof -
  have m: "(0xffff :: u32) = mask 16" by (simp add: mask_eq_exp_minus_1)
  have "ucast (NOT y AND 0xffff :: u32) = (NOT (ucast (y AND 0xffff)) :: u16)" for y
    unfolding m by (rule bit_word_eqI) (auto simp: bit_simps)
  then show ?thesis by (simp add: packet_fold_sum_final_def packet_fold_sum_def Let_def)
qed


lemma borrow_int:
  fixes a b c n :: nat
  assumes "c = (if n \<le> a + b then a + b - n else a + b + 2 ^ 32 - n)" "n < 65536"
  shows "int c = (if int a + int b - int n < 0 then int a + int b - int n + 2 ^ 32 else int a + int b - int n)"
  using assms by auto

lemma mod_of_summand: "((x :: int) mod m + y - z) mod m = (x + y - z) mod m"
  by (metis add_diff_eq mod_add_left_eq)

lemma mod_shift:
  assumes "(a :: int) mod m = (b - n) mod m"
  shows "(a + n + r) mod m = (b + r) mod m"
proof -
  have "(a + n + r) mod m = (a mod m + (n + r)) mod m" by (simp only: mod_add_left_eq add.assoc)
  also have "\<dots> = (b - n + (n + r)) mod m" by (simp only: assms mod_add_left_eq)
  finally show ?thesis by simp
qed

text \<open>One fold is enough to bring the difference into range: at most one carry or one borrow is left.\<close>

lemma packet_fix_sum_eq:
  "int (unat (packet_fix_sum csum old new)) = (let s = int (unat csum) + int (unat old) - int (unat new) in
     if s < 0 then s + 65535 else if s < 65536 then s else s - 65535)"
proof -
  define c where "c = (ucast csum :: u32) + ucast old - ucast new"
  let ?s = "int (unat csum) + int (unat old) - int (unat new)"
  have b: "unat csum < 65536" "unat old < 65536" "unat new < 65536"
    using unat_less_pow [of csum] unat_less_pow [of old] unat_less_pow [of new] by simp_all
  have uc: "unat (ucast w :: u32) = unat w" for w :: u16
    using unat_less_pow [of w] by (simp add: unsigned_ucast_eq take_bit_nat_eq_self)
  have sum: "unat ((ucast csum :: u32) + ucast old) = unat csum + unat old"
    using b by (subst unat_add_small) (simp_all add: uc)
  have c: "int (unat c) = (if ?s < 0 then ?s + 2 ^ 32 else ?s)"
  proof -
    have "unat c = (if unat new \<le> unat csum + unat old then unat csum + unat old - unat new
        else unat csum + unat old + 2 ^ 32 - unat new)"
      unfolding c_def by (simp add: unat_sub_if_size sum uc word_size)
    then show ?thesis using b(3) by (rule borrow_int)
  qed
  have r: "unat (packet_fix_sum csum old new) = (unat c div 65536 + unat c mod 65536) mod 65536"
    unfolding packet_fix_sum_def Let_def c_def [symmetric] unat_low16 fold_step ..
  show ?thesis
  proof (cases "?s < 0")
    case False
    then have n: "int (unat c) = ?s" using c by (simp only: if_False)
    then have "unat c \<le> 131070" using b by linarith
    then have "(unat c div 65536 + unat c mod 65536) mod 65536 = (if unat c < 65536 then unat c else unat c - 65535)"
      by (cases "unat c < 65536") (simp_all add: div_nat_eqI le_mod_geq)
    then have e: "unat (packet_fix_sum csum old new) = (if unat c < 65536 then unat c else unat c - 65535)" unfolding r .
    have "int (unat (packet_fix_sum csum old new)) = ?s" if "?s < 65536"
      using that n unfolding e by (subst if_P) linarith+
    moreover have "int (unat (packet_fix_sum csum old new)) = ?s - 65535" if "\<not> ?s < 65536"
      using that n unfolding e by (subst if_not_P) linarith+
    ultimately show ?thesis using False unfolding Let_def by presburger
  next
    case True
    have n: "int (unat c) = ?s + 4294967296" using c True by simp
    have low: "-65536 < ?s" using b by linarith
    have range: "4294901760 \<le> unat c" "unat c < 4294967296" using n low True by linarith+
    have d65: "unat c div 65536 = 65535" using range by (intro div_nat_eqI) simp_all
    then have m65: "int (unat c mod 65536) = ?s + 65536"
      using n div_mult_mod_eq [of "unat c" 65536] by linarith
    define x where "x = unat c mod 65536"
    have x: "int x = ?s + 65536" "x < 65536" "1 \<le> x"
      using m65 low unfolding x_def by auto
    have "(65535 + x) mod 65536 = x - 1"
      using x(2,3) by (simp add: le_mod_geq)
    then have "int (unat (packet_fix_sum csum old new)) = ?s + 65535"
      unfolding r d65 x_def [symmetric] using x by (simp add: of_nat_diff)
    then show ?thesis using True by (simp add: Let_def)
  qed
qed

lemma packet_fix_sum_mod:
  "int (unat (packet_fix_sum csum old new)) mod 65535 = (int (unat csum) + int (unat old) - int (unat new)) mod 65535"
  unfolding packet_fix_sum_eq Let_def by simp

lemma packet_fix_sum_0: "unat new = 0 \<Longrightarrow> packet_fix_sum csum old new = 0 \<Longrightarrow> csum = 0 \<and> old = 0"
proof -
  assume z: "unat new = 0" "packet_fix_sum csum old new = 0"
  have "a = 0 \<and> b = 0" if "int (unat (0 :: u16)) = (let s = int a + int b - int 0 in
      if s < 0 then s + 65535 else if s < 65536 then s else s - 65535)" for a b
    using that by (auto simp: Let_def split: if_splits)
  from this [of "unat csum" "unat old"] show ?thesis
    using packet_fix_sum_eq [of csum old new] unfolding z by (simp add: unat_eq_0)
qed

text \<open>The 16-bit halves of a 32-bit field, as the sum adds them.\<close>

definition halves :: "u32 \<Rightarrow> nat" where
  "halves v = unat v div 65536 + unat v mod 65536"

text \<open>The checksum of words with the sum \<open>n\<close>: the complement of the one's complement sum.\<close>

definition checksum_of :: "nat \<Rightarrow> nat" where
  "checksum_of n = 65535 - oc_sum n"

lemma oc_sum_mod: "oc_sum n \<le> 65535" "oc_sum n mod 65535 = n mod 65535" "oc_sum n = 0 \<longleftrightarrow> n = 0"
proof -
  define r where "r = (n - 1) mod 65535"
  have "r < 65535" by (simp add: r_def)
  then show "oc_sum n \<le> 65535" unfolding oc_sum_def r_def [symmetric] by (simp split: if_split)
  show "oc_sum n mod 65535 = n mod 65535" by (cases n) (simp_all add: oc_sum_def mod_Suc_eq)
qed (simp add: oc_sum_def)

lemma checksum_of_mod: "(checksum_of n + n) mod 65535 = 0"
proof -
  have "(checksum_of n + n) mod 65535 = (checksum_of n + oc_sum n) mod 65535"
    using oc_sum_mod(2) [of n] by (metis mod_add_right_eq)
  also have "checksum_of n + oc_sum n = 65535" using oc_sum_mod(1) [of n] by (simp add: checksum_of_def)
  finally show ?thesis by simp
qed

text \<open>Two checksums that both complete a sum differ at most in the representation of zero.\<close>

lemma complement_cases:
  fixes a b n :: nat
  assumes "(a + n) mod 65535 = 0" "(b + n) mod 65535 = 0" "a \<le> 65535" "b \<le> 65535"
  shows "a = b \<or> a = 65535 \<and> b = 0 \<or> a = 0 \<and> b = 65535"
proof -
  have "65535 dvd a + n" "65535 dvd b + n" using assms(1,2) by (simp_all add: dvd_eq_mod_eq_0)
  then have "65535 dvd int (a + n)" "65535 dvd int (b + n)" by (metis int_dvd_int_iff of_nat_numeral)+
  then have "65535 dvd int (a + n) - int (b + n)" by (rule dvd_diff)
  then obtain q where q: "int a - int b = 65535 * q" by (auto elim: dvdE)
  then have "q = -1 \<or> q = 0 \<or> q = 1" using assms(3,4) by linarith
  then show ?thesis using q assms(3,4) by (elim disjE) linarith+
qed

text \<open>The checksum that \<open>__packet_fix_hdr_sum\<close> stores: the update for the upper, then for the lower half of the field.\<close>

definition fixed_sum :: "u16 \<Rightarrow> u32 \<Rightarrow> u32 \<Rightarrow> u16" where
  "fixed_sum hc old new = packet_fix_sum (packet_fix_sum hc (ucast (drop_bit 16 old)) (ucast (drop_bit 16 new)))
     (ucast (old AND 0xffff)) (ucast (new AND 0xffff))"

lemma unat_halves:
  fixes v :: u32
  shows "unat (ucast (drop_bit 16 v) :: u16) = unat v div 65536" "unat (ucast (v AND 0xffff) :: u16) = unat v mod 65536"
proof -
  show "unat (ucast (drop_bit 16 v) :: u16) = unat v div 65536"
    using unat_less_pow [of v] by (simp only: unat_ucast_u16 unat_drop_bit) simp
qed (rule unat_low16)

lemma fixed_sum_mod: "(unat (fixed_sum hc old new) + halves new + rest) mod 65535 = (unat hc + halves old + rest) mod 65535"
proof -
  let ?h1 = "packet_fix_sum hc (ucast (drop_bit 16 old)) (ucast (drop_bit 16 new))"
  have "int (unat (fixed_sum hc old new)) mod 65535 = (int (unat ?h1) + int (unat old mod 65536) - int (unat new mod 65536)) mod 65535"
    by (simp only: fixed_sum_def packet_fix_sum_mod unat_halves)
  also have "\<dots> = (int (unat ?h1) mod 65535 + int (unat old mod 65536) - int (unat new mod 65536)) mod 65535"
    by (simp only: mod_of_summand)
  also have "\<dots> = ((int (unat hc) + int (unat old div 65536) - int (unat new div 65536)) mod 65535
      + int (unat old mod 65536) - int (unat new mod 65536)) mod 65535"
    by (simp only: packet_fix_sum_mod unat_halves)
  also have "\<dots> = (int (unat hc) + int (unat old div 65536) - int (unat new div 65536)
      + int (unat old mod 65536) - int (unat new mod 65536)) mod 65535"
    using mod_of_summand [of _ 65535] by (simp only:)
  finally have "int (unat (fixed_sum hc old new)) mod 65535 = (int (unat hc) + int (halves old) - int (halves new)) mod 65535"
    by (simp only: halves_def of_nat_add algebra_simps)
  then have "(int (unat (fixed_sum hc old new)) + int (halves new) + int rest) mod 65535 = (int (unat hc) + int (halves old) + int rest) mod 65535"
    by (intro mod_shift) (simp only: add_diff_eq)
  then have "int ((unat (fixed_sum hc old new) + halves new + rest) mod 65535) = int ((unat hc + halves old + rest) mod 65535)"
    by (simp only: zmod_int of_nat_add of_nat_numeral)
  then show ?thesis by (simp only: of_nat_eq_iff)
qed

lemma fixed_sum_0:
  assumes "fixed_sum hc old new = 0" "halves new = 0"
  shows "hc = 0 \<and> halves old = 0"
proof -
  have n: "unat (ucast (drop_bit 16 new) :: u16) = 0" "unat (ucast (new AND 0xffff) :: u16) = 0"
    using assms(2) unfolding unat_halves halves_def by simp_all
  have "packet_fix_sum hc (ucast (drop_bit 16 old)) (ucast (drop_bit 16 new)) = 0 \<and> (ucast (old AND 0xffff) :: u16) = 0"
    using packet_fix_sum_0 [OF n(2) assms(1) [unfolded fixed_sum_def]] .
  moreover from this have "hc = 0 \<and> (ucast (drop_bit 16 old) :: u16) = 0" using packet_fix_sum_0 [OF n(1)] by blast
  ultimately show ?thesis unfolding halves_def unat_halves [symmetric] by simp
qed

lemma fixed_sum_recomputed:
  assumes hc: "unat hc = checksum_of (halves old + rest)"
  shows "unat (fixed_sum hc old new) = checksum_of (halves new + rest) \<or>
    unat (fixed_sum hc old new) = 65535 \<and> checksum_of (halves new + rest) = 0"
proof -
  let ?hc' = "fixed_sum hc old new"
  have c: "(unat ?hc' + (halves new + rest)) mod 65535 = 0"
    using fixed_sum_mod [of hc old new rest] checksum_of_mod [of "halves old + rest"] by (simp only: hc [symmetric] add.assoc)
  have r: "unat ?hc' \<le> 65535" "checksum_of (halves new + rest) \<le> 65535"
    using unat_less_pow [of ?hc'] by (simp_all add: checksum_of_def)
  have "False" if "unat ?hc' = 0" "checksum_of (halves new + rest) = 65535"
  proof -
    have "oc_sum (halves new + rest) = 0" using that(2) oc_sum_mod(1) [of "halves new + rest"] unfolding checksum_of_def by linarith
    then have "halves new = 0" "rest = 0" using oc_sum_mod(3) [of "halves new + rest"] by simp_all
    then show False using fixed_sum_0 [of hc old new] that(1) hc by (simp add: unat_eq_0 checksum_of_def oc_sum_def)
  qed
  then show ?thesis using complement_cases [OF c checksum_of_mod r] by argo
qed

lemma packet_fold_sum_final_checksum: "unat (packet_fold_sum_final x) = checksum_of (unat x)"
proof -
  have "NOT w = - 1 - w" "unat (- 1 - w) = 65535 - unat w" for w :: u16
    by (simp add: not_eq_complement) (subst unat_sub, simp_all add: unsigned_minus_1_eq_mask mask_eq_exp_minus_1)
  then show ?thesis by (simp add: packet_fold_sum_final_eq checksum_of_def packet_fold_sum_eq)
qed

text \<open>
  C22: The folded sum of a 32-bit accumulator is its one's complement value: zero for zero and otherwise
  the representative between 1 and 65535, as the three folds claim, and the final fold is its complement,
  the checksum. \<open>__packet_fix_hdr_sum\<close> stores the new field and moves the checksum by the difference of
  the old and the new words modulo 65535, although it folds only once: a checksum that completed the
  words of the header to zero before completes them after the change. If it was the checksum computed
  from the words before, then it is the one computed from the words after, or it is 65535 where that is
  0, the two representations of zero.
\<close>
theorem packet_sums:
  assumes f: "ld32 (sk_bytes s) field = Some old" and c: "ld16 (sk_bytes s) csum = Some hc"
    and ap: "apart 4 field csum"
  shows "(\<forall>x. unat (packet_fold_sum x) = oc_sum (unat x) \<and> unat (packet_fold_sum_final x) = checksum_of (unat x)) \<and>
    (\<exists>s' hc'. packet_fix_hdr_sum field csum new s = Some s' \<and> ld32 (sk_bytes s') field = Some new \<and>
      ld16 (sk_bytes s') csum = Some hc' \<and>
      (\<forall>rest. (unat hc + halves old + rest) mod 65535 = 0 \<longrightarrow> (unat hc' + halves new + rest) mod 65535 = 0) \<and>
      (\<forall>rest. unat hc = checksum_of (halves old + rest) \<longrightarrow> unat hc' = checksum_of (halves new + rest) \<or>
         unat hc' = 65535 \<and> checksum_of (halves new + rest) = 0))"
proof -
  let ?m1 = "put field (bytes32 new) (sk_bytes s)"
  let ?m2 = "put csum (bytes16 (fixed_sum hc old new)) ?m1"
  have own: "owned (sk_bytes s) field 4" "owned (sk_bytes s) csum 2"
    using f c by (auto simp: ld32_def ld16_def owned_4 owned_2 bind_eq_Some_conv)
  have c1: "ld16 ?m1 csum = Some hc"
    using apart_outside [OF ap [unfolded apart_sym [of 4 field]], of 0] apart_outside [OF ap [unfolded apart_sym [of 4 field]], of 1] c
    by (subst ld16_cong [of _ _ "sk_bytes s"]) (simp_all add: put_outside)
  have out: "?m2 (field + of_nat i) = ?m1 (field + of_nat i)" if "i < 4" for i
    using apart_outside [OF ap that] by (intro put_outside) simp
  have f2: "ld32 ?m2 field = ld32 ?m1 field"
    using out [of 0] out [of 1] out [of 2] out [of 3] by (simp add: ld32_def)
  have run: "packet_fix_hdr_sum field csum new s = Some (s\<lparr>sk_bytes := ?m2\<rparr>)"
    using own f c1 by (simp add: packet_fix_hdr_sum_def upd_bytes_def st32_put st16_put owned_put fixed_sum_def)
  show ?thesis
    using packet_fold_sum_eq packet_fold_sum_final_checksum run f2 fixed_sum_mod fixed_sum_recomputed
    by (intro conjI allI exI [of _ "s\<lparr>sk_bytes := ?m2\<rparr>"] exI [of _ "fixed_sum hc old new"]) (simp_all add: ld32_put ld16_put)
qed


text \<open>Where the sum of the new words is 65535, the update gives 65535 and not the checksum 0.\<close>

lemma packet_fix_sum_negative_zero:
  "unat (0xedcb :: u16) = checksum_of (unat (0x1234 :: u16) + 65535)" "checksum_of (unat (0 :: u16) + 65535) = 0"
  "packet_fix_sum 0xedcb 0x1234 0 = 0xffff"
  by (simp_all add: checksum_of_def oc_sum_def packet_fix_sum_def)

theorem packet_sums_witness:
  "\<exists>s' hc'. packet_fix_hdr_sum 0x9000 0x9010 5 opt_sk = Some s' \<and> ld32 (sk_bytes s') 0x9000 = Some 5 \<and>
     ld16 (sk_bytes s') 0x9010 = Some hc' \<and> unat hc' = checksum_of (5 + 0xf1e1)"
proof -
  have "ld32 (sk_bytes opt_sk) 0x9000 = Some 0x07070010" "ld16 (sk_bytes opt_sk) 0x9010 = Some 0x0707"
    by (simp_all add: opt_sk_def ld32_def ld16_def put_def bytes16_def le32_def le16_def)
  moreover have "apart 4 0x9000 0x9010" by (simp add: apart_def)
  ultimately obtain s' hc' where *: "packet_fix_hdr_sum 0x9000 0x9010 5 opt_sk = Some s'" "ld32 (sk_bytes s') 0x9000 = Some 5"
      "ld16 (sk_bytes s') 0x9010 = Some hc'" "\<forall>rest. unat (0x0707 :: u16) = checksum_of (halves 0x07070010 + rest) \<longrightarrow>
         unat hc' = checksum_of (halves 5 + rest) \<or> unat hc' = 65535 \<and> checksum_of (halves 5 + rest) = 0"
    using packet_sums [of opt_sk "0x9000" "0x07070010" "0x9010" "0x0707" 5] by blast
  have "unat (0x0707 :: u16) = checksum_of (halves 0x07070010 + 0xf1e1)" "halves 5 = 5" "checksum_of (5 + 0xf1e1) \<noteq> 0"
    by (simp_all add: checksum_of_def oc_sum_def halves_def)
  with * show ?thesis by metis
qed

subsection \<open>Expiry time, timestamp and VLAN tag\<close>

lemma ld32_cong: "(\<And>i. i < 4 \<Longrightarrow> m (p + of_nat i) = m' (p + of_nat i)) \<Longrightarrow> ld32 m p = ld32 m' p"
proof -
  assume a: "\<And>i. i < 4 \<Longrightarrow> m (p + of_nat i) = m' (p + of_nat i)"
  show ?thesis using a [of 0] a [of 1] a [of 2] a [of 3] by (simp add: ld32_def)
qed

text \<open>
  The optional fields. An expiry time that is set is read back; setting zero removes it, after which
  reading it gives \<open>ENOENT\<close>, and reading it through a missing pointer gives \<open>EINVAL\<close>. A timestamp that is
  set as valid is read back as valid; one set as invalid is read as zero and invalid. A VLAN tag is read
  back, with the indication that it is in the packet exactly if the setter said so now or earlier: the
  setter never takes that indication back.
\<close>
theorem packet_optional_fields:
  assumes ph: "SK_PTR_TYPE ph = NEXUS_META_TYPE_PACKET" "SK_PTR_SUBTYPE ph = NEXUS_META_SUBTYPE_RAW"
    and k: "sk_pkts s (PKT_ADDR ph) = Some k" and o: "sk_opts s (pkt_com_opt k) = Some p"
    and own: "owned (sk_bytes s) a 8" "owned (sk_bytes s) b 4" and nn: "a \<noteq> NULL" "b \<noteq> NULL" and ap: "apart 8 a b"
  shows "(\<forall>ts. ts \<noteq> 0 \<longrightarrow> (\<exists>s1 s2. packet_set_expire_time ph ts s = Some (0, s1) \<and>
      packet_get_expire_time ph NULL s1 = Some (EINVAL, s1) \<and>
      packet_get_expire_time ph a s1 = Some (0, s2) \<and> ld64 (sk_bytes s2) a = Some ts)) \<and>
    (\<exists>s1. packet_set_expire_time ph 0 s = Some (0, s1) \<and> packet_get_expire_time ph a s1 = Some (ENOENT, s1)) \<and>
    (\<forall>ts v. \<exists>s1 s2. packet_set_timestamp ph ts v s = Some (0, s1) \<and> packet_get_timestamp ph a b s1 = Some (0, s2) \<and>
      ld64 (sk_bytes s2) a = Some (if v then ts else 0) \<and> ld32 (sk_bytes s2) b = Some (c_bool v)) \<and>
    (\<forall>tag v. \<exists>s1 s2. packet_set_vlan_tag ph tag v s = Some (0, s1) \<and> packet_get_vlan_tag ph a b s1 = Some (0, s2) \<and>
      ld16 (sk_bytes s2) a = Some tag \<and>
      ld32 (sk_bytes s2) b = Some (c_bool (v \<or> pkt_pflags k AND PKT_F_OPT_VLTAG_IN_PKT \<noteq> 0)))"
proof -
  have t: "PKT_ASSERT ph = Some ()" "PKT_RAW_ASSERT ph = Some ()"
    using ph by (simp_all add: PKT_ASSERT_iff)
  have nz: "PKT_F_OPT_EXPIRE_TS \<noteq> 0" "PKT_F_TS_VALID \<noteq> 0" "PKT_F_OPT_VLTAG \<noteq> 0" "PKT_F_OPT_VLTAG_IN_PKT \<noteq> 0"
    by (simp_all add: pkt_flags)
  have on: "(f OR m) AND m = m" "(f AND NOT m) AND m = 0" for f m :: u64
    by (auto simp: bit_eq_iff bit_simps)
  have vl: "(f OR PKT_F_OPT_VLTAG) AND PKT_F_OPT_VLTAG_IN_PKT = f AND PKT_F_OPT_VLTAG_IN_PKT"
    "((f OR PKT_F_OPT_VLTAG) OR PKT_F_OPT_VLTAG_IN_PKT) AND PKT_F_OPT_VLTAG = PKT_F_OPT_VLTAG" for f
  proof -
    have "PKT_F_OPT_VLTAG AND PKT_F_OPT_VLTAG_IN_PKT = 0" by (simp add: pkt_flags)
    then have "\<not> (bit PKT_F_OPT_VLTAG n \<and> bit PKT_F_OPT_VLTAG_IN_PKT n)" for n
      using bit_and_iff [of PKT_F_OPT_VLTAG PKT_F_OPT_VLTAG_IN_PKT n] by simp
    then show "(f OR PKT_F_OPT_VLTAG) AND PKT_F_OPT_VLTAG_IN_PKT = f AND PKT_F_OPT_VLTAG_IN_PKT"
      "((f OR PKT_F_OPT_VLTAG) OR PKT_F_OPT_VLTAG_IN_PKT) AND PKT_F_OPT_VLTAG = PKT_F_OPT_VLTAG"
      by (auto simp: bit_eq_iff bit_simps)
  qed
  have own2: "owned (sk_bytes s) a 2" using owned_le [OF own(1)] by simp
  have bs: "ld32 (put a (bytes64 x) (put b (bytes32 y) m)) b = Some y" "ld64 (put a (bytes64 x) m) a = Some x" for x y m
    using apart_outside [OF ap [unfolded apart_sym [of 8 a]]]
    by (subst ld32_cong [of _ b "put b (bytes32 y) m"]) (simp_all add: put_outside ld32_put ld64_put)
  have vs: "ld16 (put b (bytes32 y) (put a (bytes16 x) m)) a = Some x" "ld32 (put b (bytes32 y) m) b = Some y" for x y m
    using apart_outside [OF ap, of 0] apart_outside [OF ap, of 1]
    by (subst ld16_cong [of _ a "put a (bytes16 x) m"]) (simp_all add: put_outside ld32_put ld16_put)
  note acc = packet_set_expire_time_def packet_get_expire_time_def packet_set_timestamp_def packet_get_timestamp_def
    packet_set_vlan_tag_def packet_get_vlan_tag_def upd_pkt_def upd_opt_def upd_bytes_def ret0_def Let_def
  show ?thesis
  proof (intro conjI allI impI)
    fix ts :: u64 assume "ts \<noteq> 0"
    then show "\<exists>s1 s2. packet_set_expire_time ph ts s = Some (0, s1) \<and> packet_get_expire_time ph NULL s1 = Some (EINVAL, s1) \<and>
      packet_get_expire_time ph a s1 = Some (0, s2) \<and> ld64 (sk_bytes s2) a = Some ts"
      using t k o nn own by (simp add: acc on nz st64_put ld64_put)
  next
    show "\<exists>s1. packet_set_expire_time ph 0 s = Some (0, s1) \<and> packet_get_expire_time ph a s1 = Some (ENOENT, s1)"
      using t k o by (simp add: acc on)
  next
    fix ts v
    show "\<exists>s1 s2. packet_set_timestamp ph ts v s = Some (0, s1) \<and> packet_get_timestamp ph a b s1 = Some (0, s2) \<and>
      ld64 (sk_bytes s2) a = Some (if v then ts else 0) \<and> ld32 (sk_bytes s2) b = Some (c_bool v)"
      using t k nn own by (cases v) (simp_all add: acc on nz st64_put st32_put owned_put bs)
  next
    fix tag v
    show "\<exists>s1 s2. packet_set_vlan_tag ph tag v s = Some (0, s1) \<and> packet_get_vlan_tag ph a b s1 = Some (0, s2) \<and>
      ld16 (sk_bytes s2) a = Some tag \<and>
      ld32 (sk_bytes s2) b = Some (c_bool (v \<or> pkt_pflags k AND PKT_F_OPT_VLTAG_IN_PKT \<noteq> 0))"
      using t k o nn own own2 by (cases v) (simp_all add: acc on vl nz st16_put st32_put owned_put vs)
  qed
qed

theorem packet_optional_fields_witness:
  "\<exists>s1 s2. packet_set_expire_time 0x100a 77 opt_sk = Some (0, s1) \<and> packet_get_expire_time 0x100a 0x7000 s1 = Some (0, s2) \<and>
     ld64 (sk_bytes s2) 0x7000 = Some 77"
  using packet_optional_fields [OF opt_sk_facts(1) opt_sk_facts(2) opt_sk_facts(3) opt_sk_facts(4) opt_sk_facts(5) opt_sk_facts(5),
      of "0x7000" "0x7010", THEN conjunct1, rule_format, of 77]
  by (auto simp: apart_def)

end
