(* ===== verification/PacketFinalize.thy ===== *)
theory PacketFinalize
  imports PacketMetaLaws
begin

text \<open>
  skywalk/packet/packet_common.h, the buflets of a packet and its finalisation: the buflet chain, the
  bounds of a buflet, \<open>__packet_finalize\<close>, packets with an attached mbuf and the transmit completion
  callbacks. The mbuf functions (\<open>m_pktlen\<close>, \<open>m_nextpkt\<close>) and the callbacks are not in the headers and
  are parameters. A variable that is read before it is assigned is a fault.
\<close>

subsection \<open>Buflets\<close>

definition QUM_GET_NEXT_BUFLET :: "ptr \<Rightarrow> ptr \<Rightarrow> sk_mem \<Rightarrow> ptr option" where
  "QUM_GET_NEXT_BUFLET qum pbuf s = do {
     ASSERT (pbuf = NULL \<or> pbuf = qum + qum_buf_off);
     Some (if pbuf = NULL then qum + qum_buf_off else NULL) }"

definition PKT_GET_FIRST_BUFLET :: "ptr \<Rightarrow> u16 \<Rightarrow> sk_mem \<Rightarrow> ptr option" where
  "PKT_GET_FIRST_BUFLET pkt bcnt s =
     (if bcnt = 0 then Some NULL
      else do {
        b \<leftarrow> sk_bufs s (pkt + qum_buf_off);
        Some (if buf_addr b \<noteq> 0 then pkt + qum_buf_off else buf_nbft_addr b) })"

definition uu_PKT_GET_NEXT_BUFLET :: "ptr \<Rightarrow> u16 \<Rightarrow> ptr \<Rightarrow> sk_mem \<Rightarrow> ptr option" where
  "uu_PKT_GET_NEXT_BUFLET pkt bcnt pbuf s =
     (if pbuf = NULL then PKT_GET_FIRST_BUFLET pkt bcnt s else map_option buf_nbft_addr (sk_bufs s pbuf))"

definition PKT_GET_NEXT_BUFLET :: "ptr \<Rightarrow> u16 \<Rightarrow> ptr \<Rightarrow> sk_mem \<Rightarrow> ptr option" where
  "PKT_GET_NEXT_BUFLET pkt bcnt pbuf s = do {
     ASSERT (bcnt \<ge> 1 \<or> pbuf = NULL);
     uu_PKT_GET_NEXT_BUFLET pkt bcnt pbuf s }"

text \<open>\<open>bcnt != 0 || PP_HAS_BUFFER_ON_DEMAND(pool)\<close>: the pool is only looked at when there is no buflet.\<close>

definition has_buflets :: "ptr \<Rightarrow> u16 \<Rightarrow> sk_mem \<Rightarrow> bool option" where
  "has_buflets pkt bcnt s =
     (if bcnt \<noteq> 0 then Some True
      else do {
        q \<leftarrow> sk_qums s pkt;
        pool \<leftarrow> sk_pools s (qum_pp q);
        Some (PP_HAS_BUFFER_ON_DEMAND pool) })"

definition packet_get_buflet_count :: "u64 \<Rightarrow> sk_mem \<Rightarrow> u16 option" where
  "packet_get_buflet_count ph s =
     (if SK_PTR_TYPE ph = NEXUS_META_TYPE_PACKET then do {
        k \<leftarrow> sk_pkts s (PKT_ADDR ph);
        ok \<leftarrow> has_buflets (PKT_ADDR ph) (pkt_bufs_cnt k) s;
        VERIFY ok;
        Some (pkt_bufs_cnt k) }
      else if SK_PTR_TYPE ph = NEXUS_META_TYPE_QUANTUM then Some 1
      else None)"

text \<open>
  The check of the chain in \<open>__packet_add_buflet\<close>: \<open>while ((kbft != NULL) && n--)\<close>, with the last buflet
  seen and the final value of \<open>n\<close> as its result.
\<close>

fun add_buflet_walk :: "sk_mem \<Rightarrow> ptr \<Rightarrow> ptr \<Rightarrow> nat \<Rightarrow> (ptr \<times> int) option" where
  "add_buflet_walk s pbft kbft 0 = Some (pbft, if kbft = NULL then 0 else -1)"
| "add_buflet_walk s pbft kbft (Suc n) =
     (if kbft = NULL then Some (pbft, int (Suc n))
      else do {
        b \<leftarrow> sk_bufs s kbft;
        add_buflet_walk s kbft (buf_nbft_addr b) n })"

definition packet_add_buflet :: "u64 \<Rightarrow> ptr \<Rightarrow> ptr \<Rightarrow> sk_mem \<Rightarrow> (int \<times> sk_mem) option" where
  "packet_add_buflet ph bprev bnew s = do {
     VERIFY (PKT_ADDR ph \<noteq> NULL \<and> bnew \<noteq> NULL \<and> bnew \<noteq> bprev);
     q \<leftarrow> sk_qums s (PKT_ADDR ph);
     pool \<leftarrow> sk_pools s (qum_pp q);
     VERIFY (PP_HAS_BUFFER_ON_DEMAND pool);
     PKT_ASSERT ph;
     k \<leftarrow> sk_pkts s (PKT_ADDR ph);
     let bcnt = pkt_bufs_cnt k;
     VERIFY ((bprev \<noteq> NULL \<or> bcnt = 0) \<and> bcnt < pkt_bufs_max k);
     first \<leftarrow> PKT_GET_FIRST_BUFLET (PKT_ADDR ph) bcnt s;
     (pbft, n) \<leftarrow> add_buflet_walk s first first (unat bcnt);
     ASSERT (n = 0);
     ASSERT (bprev = pbft);
     s \<leftarrow> KBUF_LINK (if bprev = NULL then PKT_ADDR ph + qum_buf_off else bprev) bnew s;
     ret0 (upd_pkt (PKT_ADDR ph) (pkt_bufs_cnt_update (\<lambda>_. bcnt + 1)) s) }"

definition packet_get_next_buflet :: "u64 \<Rightarrow> ptr \<Rightarrow> sk_mem \<Rightarrow> ptr option" where
  "packet_get_next_buflet ph bprev s =
     (if SK_PTR_TYPE ph = NEXUS_META_TYPE_PACKET then do {
        k \<leftarrow> sk_pkts s (PKT_ADDR ph);
        ok \<leftarrow> has_buflets (PKT_ADDR ph) (pkt_bufs_cnt k) s;
        ASSERT ok;
        PKT_GET_NEXT_BUFLET (PKT_ADDR ph) (pkt_bufs_cnt k) bprev s }
      else if SK_PTR_TYPE ph = NEXUS_META_TYPE_QUANTUM then QUM_GET_NEXT_BUFLET (QUM_ADDR ph) bprev s
      else None)"

definition buflet_get_data_limit :: "ptr \<Rightarrow> sk_mem \<Rightarrow> u16 option" where
  "buflet_get_data_limit buf s = map_option buf_dlim (sk_bufs s buf)"

definition buflet_set_data_limit :: "ptr \<Rightarrow> u16 \<Rightarrow> sk_mem \<Rightarrow> (int \<times> sk_mem) option" where
  "buflet_set_data_limit buf dlim s = do {
     b \<leftarrow> sk_bufs s buf;
     c \<leftarrow> sk_ctls s (buf_ctl b);
     ASSERT (bc_flags c AND SKMEM_BUFCTL_SHAREOK \<noteq> 0);
     if ucast dlim \<le> bc_lim c then ret0 (upd_buf buf (buf_dlim_update (\<lambda>_. dlim)) s)
     else Some (ERANGE, s) }"

definition buflet_get_data_offset :: "ptr \<Rightarrow> sk_mem \<Rightarrow> u16 option" where
  "buflet_get_data_offset buf s = map_option buf_doff (sk_bufs s buf)"

definition buflet_get_data_address :: "ptr \<Rightarrow> sk_mem \<Rightarrow> ptr option" where
  "buflet_get_data_address buf s = map_option buf_addr (sk_bufs s buf)"

definition buflet_set_data_address :: "ptr \<Rightarrow> ptr \<Rightarrow> sk_mem \<Rightarrow> (int \<times> sk_mem) option" where
  "buflet_set_data_address buf addr s = do {
     b \<leftarrow> sk_bufs s buf;
     c \<leftarrow> sk_ctls s (buf_ctl b);
     ASSERT (bc_flags c AND SKMEM_BUFCTL_SHAREOK \<noteq> 0);
     if addr \<ge> bc_addr c then ret0 (upd_buf buf (buf_addr_update (\<lambda>_. addr)) s)
     else Some (ERANGE, s) }"

definition buflet_set_data_offset :: "ptr \<Rightarrow> u16 \<Rightarrow> sk_mem \<Rightarrow> (int \<times> sk_mem) option" where
  "buflet_set_data_offset buf doff s = do {
     b \<leftarrow> sk_bufs s buf;
     ASSERT (buf_dlim b \<noteq> 0);
     c \<leftarrow> sk_ctls s (buf_ctl b);
     if ucast doff \<le> bc_lim c then ret0 (upd_buf buf (buf_doff_update (\<lambda>_. doff)) s)
     else Some (ERANGE, s) }"

definition buflet_set_data_length :: "ptr \<Rightarrow> u16 \<Rightarrow> sk_mem \<Rightarrow> (int \<times> sk_mem) option" where
  "buflet_set_data_length buf dlen s = do {
     b \<leftarrow> sk_bufs s buf;
     ASSERT (buf_dlim b \<noteq> 0);
     c \<leftarrow> sk_ctls s (buf_ctl b);
     if ucast dlen \<le> bc_lim c then ret0 (upd_buf buf (buf_dlen_update (\<lambda>_. dlen)) s)
     else Some (ERANGE, s) }"

definition buflet_get_data_length :: "ptr \<Rightarrow> sk_mem \<Rightarrow> u16 option" where
  "buflet_get_data_length buf s = map_option buf_dlen (sk_bufs s buf)"

definition buflet_get_object_address :: "ptr \<Rightarrow> sk_mem \<Rightarrow> ptr option" where
  "buflet_get_object_address buf s = do {
     b \<leftarrow> sk_bufs s buf;
     c \<leftarrow> sk_ctls s (buf_ctl b);
     Some (bc_addr c) }"

definition buflet_get_object_limit :: "ptr \<Rightarrow> sk_mem \<Rightarrow> u32 option" where
  "buflet_get_object_limit buf s = do {
     b \<leftarrow> sk_bufs s buf;
     c \<leftarrow> sk_ctls s (buf_ctl b);
     Some (bc_lim c) }"

text \<open>\<open>METADATA_SET_LEN\<close> and \<open>METADATA_ADJUST_LEN\<close> of packet_var.h.\<close>

definition METADATA_SET_LEN :: "ptr \<Rightarrow> u32 \<Rightarrow> u16 \<Rightarrow> sk_mem \<Rightarrow> sk_mem option" where
  "METADATA_SET_LEN md len doff s = do {
     s \<leftarrow> upd_qum md (qum_len_update (\<lambda>_. len)) s;
     t \<leftarrow> METADATA_TYPE md s;
     if ucast t = NEXUS_META_TYPE_PACKET then do {
       k \<leftarrow> sk_pkts s md;
       kbft \<leftarrow> PKT_GET_FIRST_BUFLET md (pkt_bufs_cnt k) s;
       upd_buf kbft (\<lambda>b. b\<lparr>buf_dlen := ucast len, buf_doff := doff\<rparr>) s }
     else do {
       ASSERT (ucast t = NEXUS_META_TYPE_QUANTUM);
       upd_buf (md + qum_buf_off) (\<lambda>b. b\<lparr>buf_dlen := ucast len, buf_doff := doff\<rparr>) s } }"

definition METADATA_ADJUST_LEN :: "ptr \<Rightarrow> u16 \<Rightarrow> u16 \<Rightarrow> sk_mem \<Rightarrow> sk_mem option" where
  "METADATA_ADJUST_LEN md len doff s = do {
     t \<leftarrow> METADATA_TYPE md s;
     if ucast t = NEXUS_META_TYPE_PACKET then do {
       k \<leftarrow> sk_pkts s md;
       kbft \<leftarrow> PKT_GET_FIRST_BUFLET md (pkt_bufs_cnt k) s;
       upd_buf kbft (\<lambda>b. b\<lparr>buf_dlen := buf_dlen b + len, buf_doff := doff\<rparr>) s }
     else do {
       ASSERT (ucast t = NEXUS_META_TYPE_QUANTUM);
       upd_buf (md + qum_buf_off) (\<lambda>b. b\<lparr>buf_dlen := buf_dlen b + len, buf_doff := doff\<rparr>) s } }"

subsection \<open>Finalisation\<close>

text \<open>The addresses are compared as 64-bit sums, the offsets in \<open>int\<close>.\<close>

definition BUF_IN_RANGE :: "kern_buflet \<Rightarrow> skmem_bufctl \<Rightarrow> bool" where
  "BUF_IN_RANGE b c \<longleftrightarrow> buf_addr b \<ge> bc_addr c \<and>
     buf_addr b + ucast (buf_dlim b) \<le> bc_addr c + ucast (bc_lim c) \<and>
     uint (buf_doff b) + uint (buf_dlen b) \<le> uint (buf_dlim b)"

definition PKT_HAS_ATTACHED_MBUF :: "u64 \<Rightarrow> sk_mem \<Rightarrow> bool option" where
  "PKT_HAS_ATTACHED_MBUF ph s = do {
     k \<leftarrow> sk_pkts s (PKT_ADDR ph);
     Some (pkt_pflags k AND PKT_F_MBUF_DATA \<noteq> 0) }"

text \<open>
  The loop of \<open>__packet_finalize\<close>: the error, the length, and the data offset and limit of the first
  buflet, unassigned (\<open>None\<close>) if there is no buflet.
\<close>

fun finalize_loop ::
  "u64 \<Rightarrow> sk_mem \<Rightarrow> nat \<Rightarrow> ptr \<Rightarrow> u32 \<Rightarrow> (u32 \<times> u32) option \<Rightarrow> (int \<times> u32 \<times> (u32 \<times> u32) option) option" where
  "finalize_loop ph s 0 bprev len b0 = Some (0, len, b0)"
| "finalize_loop ph s (Suc bcnt) bprev len b0 = do {
     bcur \<leftarrow> packet_get_next_buflet ph bprev s;
     ASSERT (bcur \<noteq> NULL);
     b \<leftarrow> sk_bufs s bcur;
     ASSERT (buf_addr b \<noteq> 0);
     let b0 = (if bprev = NULL then Some (ucast (buf_doff b), ucast (buf_dlim b)) else b0);
     c \<leftarrow> sk_ctls s (buf_ctl b);
     bad \<leftarrow> (if BUF_IN_RANGE b c then Some False else map_option Not (PKT_HAS_ATTACHED_MBUF ph s));
     if bad then Some (ERANGE, len, b0)
     else finalize_loop ph s bcnt bcur (len + ucast (buf_dlen b)) b0 }"

text \<open>The checks of the options, shared by the two routines that finalise a packet.\<close>

definition finalize_options :: "kern_packet \<Rightarrow> sk_mem \<Rightarrow> int option" where
  "finalize_options k s =
     (if pkt_pflags k AND PKT_F_OPT_DATA \<noteq> 0 then do {
        po \<leftarrow> sk_opts s (pkt_com_opt k);
        Some (if pkt_pflags k AND PKT_F_OPT_EXPIRE_TS \<noteq> 0 \<and> po_expire_ts po = 0 then EINVAL
          else if pkt_pflags k AND PKT_F_OPT_TOKEN \<noteq> 0 \<and> po_token_len po = 0 then EINVAL
          else 0) }
      else Some 0)"

text \<open>
  The checks of the header offsets: an error, 0 or, for an unknown subtype, a panic. The data offset and
  limit of the first buflet are read where the conditions come to them: a payload packet with a
  headroom is refused before they are, assigned or not.
\<close>

definition finalize_headers :: "u64 \<Rightarrow> kern_packet \<Rightarrow> (u32 \<times> u32) option \<Rightarrow> int option" where
  "finalize_headers subtype k b0 =
     (if subtype = NEXUS_META_SUBTYPE_RAW then do {
        (bdoff0, bdlim0) \<leftarrow> b0;
        if ucast (pkt_headroom k) \<noteq> bdoff0 \<or> ucast (pkt_headroom k) \<ge> bdlim0 then Some ERANGE
        else if ucast (pkt_headroom k) + ucast (pkt_l2_len k) \<ge> bdlim0 then Some ERANGE
        else Some 0 }
      else if subtype = NEXUS_META_SUBTYPE_PAYLOAD then
        if pkt_headroom k \<noteq> 0 then Some ERANGE
        else do {
          (bdoff0, bdlim0) \<leftarrow> b0;
          if bdoff0 \<noteq> 0 \<or> pkt_l2_len k \<noteq> 0 then Some ERANGE else Some 0 }
      else None)"

definition packet_finalize :: "u64 \<Rightarrow> sk_mem \<Rightarrow> (int \<times> sk_mem) option" where
  "packet_finalize ph s = do {
     q \<leftarrow> sk_qums s (QUM_ADDR ph);
     ASSERT (qum_qflags q AND QUM_F_INTERNALIZED \<noteq> 0);
     s \<leftarrow> upd_qum (QUM_ADDR ph) (qum_qflags_update (\<lambda>f. f AND NOT (QUM_F_DROPPED OR QUM_F_FINALIZED))) s;
     bcnt \<leftarrow> packet_get_buflet_count ph s;
     s \<leftarrow> upd_qum (QUM_ADDR ph) (qum_len_update (\<lambda>_. 0)) s;
     (err, len, b0) \<leftarrow> finalize_loop ph s (unat bcnt) NULL 0 None;
     err \<leftarrow> (if err \<noteq> 0 then Some err
       else if SK_PTR_TYPE ph = NEXUS_META_TYPE_PACKET then do {
         k \<leftarrow> sk_pkts s (PKT_ADDR ph);
         err \<leftarrow> finalize_headers (SK_PTR_SUBTYPE ph) k b0;
         if err \<noteq> 0 then Some err else finalize_options k s }
       else Some 0);
     s \<leftarrow> (if err = 0
       then upd_qum (QUM_ADDR ph) (\<lambda>q. q\<lparr>qum_len := len, qum_qflags := qum_qflags q OR QUM_F_FINALIZED\<rparr>) s
       else upd_qum (QUM_ADDR ph) (\<lambda>q. q\<lparr>qum_len := 0, qum_qflags := qum_qflags q OR QUM_F_DROPPED\<rparr>) s);
     Some (err, s) }"

definition packet_is_finalized :: "u64 \<Rightarrow> sk_mem \<Rightarrow> u32 option" where
  "packet_is_finalized ph s = map_option (\<lambda>q. ucast (qum_qflags q AND QUM_F_FINALIZED)) (sk_qums s (QUM_ADDR ph))"

subsection \<open>Packets with an attached mbuf\<close>

definition packet_initialize_with_mbufchain ::
  "(ptr \<Rightarrow> u32) \<Rightarrow> ptr \<Rightarrow> ptr \<Rightarrow> u8 \<Rightarrow> u8 \<Rightarrow> sk_mem \<Rightarrow> (int \<times> sk_mem) option" where
  "packet_initialize_with_mbufchain m_pktlen pkt mbuf headroom l2len s = do {
     t \<leftarrow> METADATA_TYPE pkt s;
     VERIFY (ucast t = NEXUS_META_TYPE_PACKET);
     q \<leftarrow> sk_qums s pkt;
     VERIFY (qum_qflags q AND QUM_F_INTERNALIZED \<noteq> 0);
     k \<leftarrow> sk_pkts s pkt;
     VERIFY (pkt_pflags k AND PKT_F_MBUF_MASK = 0);
     VERIFY (pkt_pflags k AND PKT_F_PKT_DATA = 0);
     VERIFY (pkt_mbuf k = NULL);
     s \<leftarrow> upd_qum pkt (qum_qflags_update (\<lambda>f. f AND NOT (QUM_F_DROPPED OR QUM_F_FINALIZED))) s;
     s \<leftarrow> upd_pkt pkt (\<lambda>k. k\<lparr>pkt_mbuf := mbuf, pkt_pflags := pkt_pflags k OR (PKT_F_MBUF_DATA OR PKT_F_TRUNCATED),
            pkt_headroom := headroom, pkt_l2_len := l2len\<rparr>) s;
     s \<leftarrow> upd_qum pkt (qum_len_update (\<lambda>_. m_pktlen mbuf)) s;
     s \<leftarrow> upd_buf (pkt + qum_buf_off) (\<lambda>b. b\<lparr>buf_dlen := 0, buf_doff := 0\<rparr>) s;
     ret0 (upd_qum pkt (qum_qflags_update (\<lambda>f. f OR QUM_F_FINALIZED)) s) }"

definition packet_initialize_with_mbuf ::
  "(ptr \<Rightarrow> u32) \<Rightarrow> (ptr \<Rightarrow> ptr) \<Rightarrow> ptr \<Rightarrow> ptr \<Rightarrow> u8 \<Rightarrow> u8 \<Rightarrow> sk_mem \<Rightarrow> (int \<times> sk_mem) option" where
  "packet_initialize_with_mbuf m_pktlen m_nextpkt pkt mbuf headroom l2len s = do {
     (_, s) \<leftarrow> packet_initialize_with_mbufchain m_pktlen pkt mbuf headroom l2len s;
     VERIFY (m_nextpkt mbuf = NULL);
     Some (0, s) }"

definition packet_finalize_with_mbuf :: "(ptr \<Rightarrow> u32) \<Rightarrow> ptr \<Rightarrow> sk_mem \<Rightarrow> (int \<times> sk_mem) option" where
  "packet_finalize_with_mbuf m_pktlen pkt s = do {
     t \<leftarrow> METADATA_TYPE pkt s;
     VERIFY (ucast t = NEXUS_META_TYPE_PACKET);
     k \<leftarrow> sk_pkts s pkt;
     VERIFY (pkt_pflags k AND (PKT_F_MBUF_DATA OR PKT_F_PKT_DATA) = PKT_F_MBUF_DATA);
     VERIFY (pkt_mbuf k \<noteq> NULL);
     q \<leftarrow> sk_qums s pkt;
     ASSERT (qum_qflags q AND QUM_F_INTERNALIZED \<noteq> 0);
     VERIFY (pkt_bufs_cnt k = 1);
     buf \<leftarrow> PKT_GET_FIRST_BUFLET pkt (pkt_bufs_cnt k) s;
     b \<leftarrow> sk_bufs s buf;
     ASSERT (buf_addr b \<noteq> 0);
     s \<leftarrow> upd_qum pkt (qum_qflags_update (\<lambda>f. f AND NOT (QUM_F_DROPPED OR QUM_F_FINALIZED))) s;
     s \<leftarrow> upd_pkt pkt (pkt_pflags_update (\<lambda>f. f AND NOT PKT_F_TRUNCATED)) s;
     k \<leftarrow> sk_pkts s pkt;
     c \<leftarrow> sk_ctls s (buf_ctl b);
     err \<leftarrow> (if \<not> BUF_IN_RANGE b c then Some ERANGE
       else do {
         u \<leftarrow> METADATA_SUBTYPE pkt s;
         err \<leftarrow> finalize_headers (ucast u) k (Some (ucast (buf_doff b), ucast (buf_dlim b)));
         if err \<noteq> 0 then Some err else finalize_options k s });
     s \<leftarrow> (if err = 0 then do {
         s \<leftarrow> upd_qum pkt (qum_len_update (\<lambda>_. m_pktlen (pkt_mbuf k))) s;
         s \<leftarrow> (if ucast (buf_dlen b) < m_pktlen (pkt_mbuf k)
           then upd_pkt pkt (pkt_pflags_update (\<lambda>f. f OR PKT_F_TRUNCATED)) s else Some s);
         upd_qum pkt (qum_qflags_update (\<lambda>f. f OR QUM_F_FINALIZED)) s }
       else do {
         s \<leftarrow> upd_qum pkt (qum_len_update (\<lambda>_. 0)) s;
         upd_qum pkt (qum_qflags_update (\<lambda>f. f OR QUM_F_DROPPED)) s });
     Some (err, s) }"

subsection \<open>Transmit completion callbacks\<close>

definition ffs :: "u32 \<Rightarrow> u32" where
  "ffs x = (case find (bit x) [0..<32] of None \<Rightarrow> 0 | Some i \<Rightarrow> of_nat i + 1)"

text \<open>
  \<open>m_get_tx_compl_callback\<close> looks up the callback registered for an index, \<open>NULL\<close> for none, and \<open>call\<close> is
  the effect of calling one with the context, interface, timestamp, argument, data and status. Both are
  code of the kernel proper: they see the state, may change all of it, and may not return (\<open>None\<close>).
  \<open>1 << i\<close> is a shift in \<open>int\<close>; for \<open>i = 31\<close> it is the sign bit, whose complement clears bit 31 of the mask
  as the 32-bit word does here.
\<close>

type_synonym tx_compl_lookup = "u32 \<Rightarrow> sk_mem \<Rightarrow> (ptr \<times> sk_mem) option"
type_synonym tx_compl_call = "ptr \<Rightarrow> u32 \<Rightarrow> ptr \<Rightarrow> u64 \<Rightarrow> u64 \<Rightarrow> u64 \<Rightarrow> u32 \<Rightarrow> sk_mem \<Rightarrow> sk_mem option"

partial_function (option) tx_compl_loop ::
  "tx_compl_lookup \<Rightarrow> tx_compl_call \<Rightarrow> ptr \<Rightarrow> ptr \<Rightarrow> u64 \<Rightarrow> u64 \<Rightarrow> u64 \<Rightarrow> u32 \<Rightarrow> sk_mem \<Rightarrow> sk_mem option" where
  "tx_compl_loop cb_of call kpkt ifp ts cb_arg cb_data tx_status s = do {
     k \<leftarrow> sk_pkts s kpkt;
     c \<leftarrow> sk_compls s (pkt_tx_compl k);
     if compl_callbacks c \<noteq> 0 then do {
       let i = ffs (compl_callbacks c) - 1;
       s \<leftarrow> upd_compl (pkt_tx_compl k) (compl_callbacks_update (\<lambda>m. m AND NOT (push_bit (unat i) 1))) s;
       (cb, s) \<leftarrow> cb_of i s;
       s \<leftarrow> (if cb \<noteq> NULL then do {
           k \<leftarrow> sk_pkts s kpkt;
           c \<leftarrow> sk_compls s (pkt_tx_compl k);
           call cb (compl_context c) ifp ts cb_arg cb_data tx_status s }
         else Some s);
       tx_compl_loop cb_of call kpkt ifp ts cb_arg cb_data tx_status s }
     else Some s }"

definition packet_perform_tx_completion_callbacks ::
  "tx_compl_lookup \<Rightarrow> tx_compl_call \<Rightarrow> u64 \<Rightarrow> ptr \<Rightarrow> ptr \<Rightarrow> ptr \<Rightarrow> ptr \<Rightarrow> ptr \<Rightarrow> sk_mem \<Rightarrow> sk_mem option" where
  "packet_perform_tx_completion_callbacks cb_of call ph ifp ts tx_status cb_arg cb_data s = do {
     let kpkt = SK_PTR_ADDR_KPKT ph;
     k \<leftarrow> sk_pkts s kpkt;
     ASSERT (pkt_pflags k AND PKT_F_TX_COMPL_TS_REQ \<noteq> 0);
     (_, s) \<leftarrow> packet_get_tx_completion_status ph tx_status s;
     (_, s) \<leftarrow> packet_get_tx_completion_data ph cb_arg cb_data s;
     (_, s) \<leftarrow> packet_get_timestamp ph ts NULL s;
     t \<leftarrow> ld64 (sk_bytes s) ts;
     st \<leftarrow> ld32 (sk_bytes s) tx_status;
     a \<leftarrow> ld64 (sk_bytes s) cb_arg;
     d \<leftarrow> ld64 (sk_bytes s) cb_data;
     s \<leftarrow> tx_compl_loop cb_of call kpkt ifp t a d st s;
     upd_pkt kpkt (pkt_pflags_update (\<lambda>f. f AND NOT PKT_F_TX_COMPL_TS_REQ)) s }"

end
