(* ===== verification/PacketFinalizeLaws.thy ===== *)
theory PacketFinalizeLaws
  imports PacketFinalize
begin

text \<open>
  What finalisation guarantees: the buflets of a packet are a chain that \<open>__packet_add_buflet\<close> extends at
  its end, the verdict of \<open>__packet_finalize\<close> and of its variant for packets with an mbuf, the bounds
  of finalised data, and the transmit completion callbacks. The predicates that describe chains,
  accepted buflets, headers and options are specifications: they have no counterpart in the code.
\<close>

subsection \<open>The chain of buflets\<close>

text \<open>
  \<open>buf_links B a L z\<close>: from address \<open>a\<close> the links lead through the buflets \<open>L\<close> to \<open>z\<close>. \<open>pkt_chain s p L\<close>:
  the buflets of the packet at \<open>p\<close> are \<open>L\<close>, as many as its count says, and the last has no successor; the
  buflet inside the packet is the first if it has a buffer and is only the anchor of the chain if not.
\<close>

fun buf_links :: "(ptr \<rightharpoonup> kern_buflet) \<Rightarrow> ptr \<Rightarrow> ptr list \<Rightarrow> ptr \<Rightarrow> bool" where
  "buf_links B a [] z \<longleftrightarrow> a = z"
| "buf_links B a (x # xs) z \<longleftrightarrow> a = x \<and> x \<noteq> NULL \<and> (case B x of None \<Rightarrow> False | Some b \<Rightarrow> buf_links B (buf_nbft_addr b) xs z)"

definition first_buflet :: "ptr \<Rightarrow> kern_buflet \<Rightarrow> ptr" where
  "first_buflet p b = (if buf_addr b \<noteq> 0 then p + qum_buf_off else buf_nbft_addr b)"

definition chain_tail :: "ptr \<Rightarrow> ptr list \<Rightarrow> ptr" where
  "chain_tail p L = (if L = [] then p + qum_buf_off else last L)"

definition pkt_chain :: "sk_mem \<Rightarrow> ptr \<Rightarrow> ptr list \<Rightarrow> bool" where
  "pkt_chain s p L \<longleftrightarrow> (case (sk_pkts s p, sk_bufs s (p + qum_buf_off)) of
     (Some k, Some b) \<Rightarrow> length L = unat (pkt_bufs_cnt k) \<and> p + qum_buf_off \<noteq> NULL \<and>
       buf_links (sk_bufs s) (first_buflet p b) L NULL \<and>
       map_option buf_nbft_idx (sk_bufs s (chain_tail p L)) = Some OBJ_IDX_NONE
   | _ \<Rightarrow> False)"

lemma pkt_chainE:
  assumes "pkt_chain s p L"
  obtains k b where "sk_pkts s p = Some k" "sk_bufs s (p + qum_buf_off) = Some b" "length L = unat (pkt_bufs_cnt k)"
    "p + qum_buf_off \<noteq> NULL" "buf_links (sk_bufs s) (first_buflet p b) L NULL"
    "map_option buf_nbft_idx (sk_bufs s (chain_tail p L)) = Some OBJ_IDX_NONE"
  using assms by (auto simp: pkt_chain_def split: option.splits)

lemma buf_links_nth:
  "buf_links B a L z \<Longrightarrow> i < length L \<Longrightarrow>
     L ! i \<noteq> NULL \<and> (\<exists>b. B (L ! i) = Some b \<and> buf_nbft_addr b = (if Suc i < length L then L ! Suc i else z))"
proof (induction L arbitrary: a i)
  case (Cons x xs)
  then obtain b where b: "B x = Some b" "x \<noteq> NULL" "buf_links B (buf_nbft_addr b) xs z"
    by (auto split: option.splits)
  show ?case
  proof (cases i)
    case 0
    then show ?thesis using b by (cases xs) auto
  next
    case (Suc j)
    then show ?thesis using Cons.IH [OF b(3), of j] Cons.prems(2) by auto
  qed
qed simp

lemma buf_links_tail: "buf_links B a (xs @ ys) z \<Longrightarrow> \<exists>b. buf_links B b ys z"
  by (induction xs arbitrary: a) (auto split: option.splits)

lemma buf_links_unique: "buf_links B a L NULL \<Longrightarrow> buf_links B a M NULL \<Longrightarrow> L = M"
proof (induction L arbitrary: a M)
  case Nil
  then show ?case by (cases M) auto
next
  case (Cons x xs)
  then show ?case by (cases M) (auto split: option.splits)
qed

lemma buf_links_distinct: "buf_links B a L NULL \<Longrightarrow> distinct L"
proof (induction L arbitrary: a)
  case (Cons x xs)
  then obtain b where b: "B x = Some b" "buf_links B (buf_nbft_addr b) xs NULL" by (auto split: option.splits)
  moreover have "x \<notin> set xs"
  proof
    assume "x \<in> set xs"
    then obtain us vs where xs: "xs = us @ x # vs" by (meson split_list)
    then obtain d where "buf_links B d (x # vs) NULL" using buf_links_tail b(2) by blast
    then have "buf_links B x (x # vs) NULL" by auto
    moreover have "buf_links B x (x # xs) NULL" using Cons.prems by auto
    ultimately have "x # vs = x # xs" by (rule buf_links_unique)
    then have "length vs = length xs" by simp
    then show False using xs by simp
  qed
  ultimately show ?case using Cons.IH by simp
qed simp

lemma buf_links_outside: "a \<notin> set L \<Longrightarrow> buf_links (B(a \<mapsto> v)) x L z = buf_links B x L z"
  by (induction L arbitrary: x) (auto split: option.splits)

text \<open>Linking a new buflet behind the last one.\<close>

lemma buf_links_append:
  assumes "buf_links B a L NULL" "L \<noteq> []" "distinct L" "n \<notin> set L" "n \<noteq> NULL" "B n = Some bn" "buf_nbft_addr bn = NULL"
    "buf_nbft_addr v = n"
  shows "buf_links (B(last L \<mapsto> v)) a (L @ [n]) NULL"
  using assms
proof (induction L arbitrary: a)
  case (Cons x xs)
  then obtain b where b: "B x = Some b" "buf_links B (buf_nbft_addr b) xs NULL" by (auto split: option.splits)
  show ?case
  proof (cases "xs = []")
    case True
    then show ?thesis using Cons.prems by auto
  next
    case False
    then have "x \<noteq> last xs" using Cons.prems(3) by auto
    then show ?thesis using Cons.IH [OF b(2) False] Cons.prems b(1) False by auto
  qed
qed simp

lemma add_buflet_walk_links:
  "buf_links (sk_bufs s) a L NULL \<Longrightarrow> add_buflet_walk s pb a (length L) = Some (if L = [] then pb else last L, 0)"
  by (induction L arbitrary: a pb) (auto split: option.splits)

lemma get_first_links:
  assumes "pkt_chain s p L" "sk_pkts s p = Some k" "sk_bufs s (p + qum_buf_off) = Some b"
  shows "PKT_GET_FIRST_BUFLET p (pkt_bufs_cnt k) s = Some (if L = [] then NULL else hd L)"
    "L \<noteq> [] \<Longrightarrow> hd L = first_buflet p b" "L = [] \<Longrightarrow> first_buflet p b = NULL"
proof -
  have l: "length L = unat (pkt_bufs_cnt k)" "buf_links (sk_bufs s) (first_buflet p b) L NULL"
    using assms by (auto elim!: pkt_chainE)
  then show h: "L \<noteq> [] \<Longrightarrow> hd L = first_buflet p b" "L = [] \<Longrightarrow> first_buflet p b = NULL"
    by (cases L; auto)+
  have "pkt_bufs_cnt k = 0 \<longleftrightarrow> L = []"
    using l(1) by (auto simp: unat_eq_0)
  then show "PKT_GET_FIRST_BUFLET p (pkt_bufs_cnt k) s = Some (if L = [] then NULL else hd L)"
    using assms(3) h by (auto simp: PKT_GET_FIRST_BUFLET_def first_buflet_def)
qed

lemma packet_get_next_buflet_chain:
  assumes c: "pkt_chain s (PKT_ADDR ph) L" and t: "SK_PTR_TYPE ph = NEXUS_META_TYPE_PACKET" and L: "L \<noteq> []"
  shows "packet_get_next_buflet ph NULL s = Some (hd L)"
    "x \<noteq> NULL \<Longrightarrow> sk_bufs s x = Some b \<Longrightarrow> packet_get_next_buflet ph x s = Some (buf_nbft_addr b)"
proof -
  obtain k b0 where k: "sk_pkts s (PKT_ADDR ph) = Some k" "sk_bufs s (PKT_ADDR ph + qum_buf_off) = Some b0"
    "length L = unat (pkt_bufs_cnt k)"
    using c by (auto elim!: pkt_chainE)
  have n: "pkt_bufs_cnt k \<noteq> 0" using k(3) L by (auto simp: unat_eq_0)
  then have "1 \<le> pkt_bufs_cnt k" by (simp add: word_le_nat_alt unat_gt_0 Suc_le_eq)
  with n show "packet_get_next_buflet ph NULL s = Some (hd L)"
    "x \<noteq> NULL \<Longrightarrow> sk_bufs s x = Some b \<Longrightarrow> packet_get_next_buflet ph x s = Some (buf_nbft_addr b)"
    using get_first_links [OF c k(1,2)] L k t
    by (simp_all add: packet_get_next_buflet_def has_buflets_def PKT_GET_NEXT_BUFLET_def uu_PKT_GET_NEXT_BUFLET_def)
qed

lemma packet_get_next_buflet_nth:
  assumes c: "pkt_chain s (PKT_ADDR ph) L" and t: "SK_PTR_TYPE ph = NEXUS_META_TYPE_PACKET" and i: "i < length L"
  shows "packet_get_next_buflet ph (L ! i) s = Some (if Suc i < length L then L ! Suc i else NULL)"
proof -
  obtain b0 where "buf_links (sk_bufs s) (first_buflet (PKT_ADDR ph) b0) L NULL" using c by (auto elim!: pkt_chainE)
  then obtain b where "L ! i \<noteq> NULL" "sk_bufs s (L ! i) = Some b"
    "buf_nbft_addr b = (if Suc i < length L then L ! Suc i else NULL)"
    using buf_links_nth i by blast
  then show ?thesis using packet_get_next_buflet_chain(2) [OF c t] i by fastforce
qed

text \<open>The record of the tail of the chain, and linking a new buflet behind it.\<close>

lemma chain_tail_record:
  assumes "pkt_chain s p L"
  obtains t where "sk_bufs s (chain_tail p L) = Some t" "buf_nbft_addr t = NULL" "buf_nbft_idx t = OBJ_IDX_NONE"
proof -
  obtain b where b: "sk_bufs s (p + qum_buf_off) = Some b" "p + qum_buf_off \<noteq> NULL"
    "buf_links (sk_bufs s) (first_buflet p b) L NULL"
    "map_option buf_nbft_idx (sk_bufs s (chain_tail p L)) = Some OBJ_IDX_NONE"
    using assms by (auto elim!: pkt_chainE)
  obtain t where t: "sk_bufs s (chain_tail p L) = Some t" "buf_nbft_idx t = OBJ_IDX_NONE" using b(4) by auto
  have "buf_nbft_addr t = NULL"
  proof (cases "L = []")
    case True
    then show ?thesis using t b by (auto simp: chain_tail_def first_buflet_def split: if_splits)
  next
    case False
    then show ?thesis
      using t buf_links_nth [OF b(3), of "length L - 1"] by (auto simp: chain_tail_def last_conv_nth)
  qed
  then show ?thesis using that t by blast
qed

lemma pkt_chain_append:
  assumes c: "pkt_chain s p L" and t: "sk_bufs s (chain_tail p L) = Some t" and v: "buf_nbft_addr v = n" "buf_addr v = buf_addr t"
    and n: "n \<noteq> NULL" "n \<notin> set L" "n \<noteq> p + qum_buf_off" "sk_bufs s n = Some bn" "buf_nbft_addr bn = NULL" "buf_nbft_idx bn = OBJ_IDX_NONE"
    and k: "sk_pkts s p = Some k" "pkt_bufs_cnt k < m"
  shows "pkt_chain (s\<lparr>sk_bufs := (sk_bufs s)(chain_tail p L \<mapsto> v),
     sk_pkts := (sk_pkts s)(p \<mapsto> k\<lparr>pkt_bufs_cnt := pkt_bufs_cnt k + 1\<rparr>)\<rparr>) p (L @ [n])" (is "pkt_chain ?s p _")
proof -
  obtain b where b: "sk_bufs s (p + qum_buf_off) = Some b" "length L = unat (pkt_bufs_cnt k)" "p + qum_buf_off \<noteq> NULL"
    "buf_links (sk_bufs s) (first_buflet p b) L NULL"
    using c k by (auto elim!: pkt_chainE)
  have nt: "n \<noteq> chain_tail p L" using n by (auto simp: chain_tail_def)
  have len: "unat (pkt_bufs_cnt k + 1) = Suc (length L)"
    using k(2) b(2) unat_less_pow [of m] by (simp add: unat_word_ariths word_less_nat_alt)
  obtain b' where b': "sk_bufs ?s (p + qum_buf_off) = Some b'"
    "buf_links (sk_bufs ?s) (first_buflet p b') (L @ [n]) NULL"
  proof (cases "L = []")
    case True
    then have "buf_addr b = 0" "t = b" using b t by (auto simp: first_buflet_def chain_tail_def split: if_splits)
    then show ?thesis using that [of v] True v n nt by (auto simp: first_buflet_def chain_tail_def)
  next
    case False
    have tl: "chain_tail p L = last L" using False by (simp add: chain_tail_def)
    have links: "buf_links (sk_bufs ?s) (first_buflet p b) (L @ [n]) NULL"
      using buf_links_append [OF b(4) False buf_links_distinct [OF b(4)] n(2,1,4,5) v(1)] tl by simp
    show ?thesis
    proof (cases "last L = p + qum_buf_off")
      case True
      have "buf_nbft_addr t = NULL" using chain_tail_record [OF c] t by auto
      then have "first_buflet p b = first_buflet p v"
        using True b t tl v(2) False by (cases L) (auto simp: first_buflet_def)
      then show ?thesis using that [of v] links True tl by simp
    next
      case ne: False
      then show ?thesis using that [of b] links b(1) tl by auto
    qed
  qed
  show ?thesis using b b' len n nt by (simp add: pkt_chain_def chain_tail_def [of p "L @ [n]"])
qed

definition fresh_buflet :: "sk_mem \<Rightarrow> ptr \<Rightarrow> ptr list \<Rightarrow> ptr \<Rightarrow> bool" where
  "fresh_buflet s p L n \<longleftrightarrow> n \<noteq> NULL \<and> n \<notin> set L \<and> n \<noteq> p + qum_buf_off \<and>
     (case sk_bufs s n of None \<Rightarrow> False
      | Some b \<Rightarrow> buf_nbft_addr b = NULL \<and> buf_nbft_idx b = OBJ_IDX_NONE \<and> buf_bft_idx_reg b \<noteq> OBJ_IDX_NONE)"

lemma buf_links_not_null: "buf_links B a L z \<Longrightarrow> x \<in> set L \<Longrightarrow> x \<noteq> NULL"
  by (induction L arbitrary: a) (auto split: option.splits)

lemma packet_add_buflet_walk:
  assumes c: "pkt_chain s p L" and k: "sk_pkts s p = Some k"
  shows "PKT_GET_FIRST_BUFLET p (pkt_bufs_cnt k) s \<bind> (\<lambda>first. add_buflet_walk s first first (unat (pkt_bufs_cnt k)) \<bind> f) =
    f (if L = [] then NULL else last L, 0)"
proof -
  obtain b where b: "sk_bufs s (p + qum_buf_off) = Some b" "length L = unat (pkt_bufs_cnt k)"
    "buf_links (sk_bufs s) (first_buflet p b) L NULL"
    using c k by (auto elim!: pkt_chainE)
  note first = get_first_links [OF c k b(1)]
  then have "add_buflet_walk s (if L = [] then NULL else hd L) (if L = [] then NULL else hd L) (length L) =
      Some (if L = [] then NULL else last L, 0)"
    using add_buflet_walk_links [OF b(3)] by (cases "L = []") auto
  then show ?thesis using first(1) b(2) by simp
qed

text \<open>
  C11: The buflets of a packet from a buffer-on-demand pool are a chain. Adding a buflet that is not in a
  chain behind the last one (behind none, if the packet has none) succeeds while there is room and
  appends it: the count is one more, walking the packet from \<open>NULL\<close> gives the old buflets in order,
  then the new one, then \<open>NULL\<close>. Adding it behind any other buflet panics.
\<close>
theorem packet_buflet_chain:
  assumes c: "pkt_chain s (PKT_ADDR ph) L" and ty: "SK_PTR_TYPE ph = NEXUS_META_TYPE_PACKET" and ph: "PKT_ADDR ph \<noteq> NULL"
    and q: "sk_qums s (PKT_ADDR ph) = Some q" and pool: "sk_pools s (qum_pp q) = Some pool" "PP_HAS_BUFFER_ON_DEMAND pool"
    and k: "sk_pkts s (PKT_ADDR ph) = Some k" "pkt_bufs_cnt k < pkt_bufs_max k"
    and n: "fresh_buflet s (PKT_ADDR ph) L n"
  shows "\<exists>s'. packet_add_buflet ph (if L = [] then NULL else last L) n s = Some (0, s') \<and>
      pkt_chain s' (PKT_ADDR ph) (L @ [n]) \<and>
      packet_get_buflet_count ph s' = Some (pkt_bufs_cnt k + 1) \<and>
      packet_get_next_buflet ph NULL s' = Some (hd (L @ [n])) \<and>
      (\<forall>i \<le> length L. packet_get_next_buflet ph ((L @ [n]) ! i) s' = Some ((L @ [n, NULL]) ! Suc i)) \<and>
      (\<forall>b. b \<noteq> (if L = [] then NULL else last L) \<longrightarrow> packet_add_buflet ph b n s = None)"
proof -
  obtain bn where bn: "sk_bufs s n = Some bn" "buf_nbft_addr bn = NULL" "buf_nbft_idx bn = OBJ_IDX_NONE"
      "buf_bft_idx_reg bn \<noteq> OBJ_IDX_NONE" and nn: "n \<noteq> NULL" "n \<notin> set L" "n \<noteq> PKT_ADDR ph + qum_buf_off"
    using n by (auto simp: fresh_buflet_def split: option.splits)
  obtain t where t: "sk_bufs s (chain_tail (PKT_ADDR ph) L) = Some t" "buf_nbft_addr t = NULL" "buf_nbft_idx t = OBJ_IDX_NONE"
    using chain_tail_record [OF c] .
  have cnt: "pkt_bufs_cnt k = 0 \<longleftrightarrow> L = []" using c k by (auto elim!: pkt_chainE simp: unat_eq_0)
  have notnull: "L \<noteq> [] \<Longrightarrow> last L \<noteq> NULL"
    using c by (metis last_in_set pkt_chainE buf_links_not_null)
  define v where "v = t\<lparr>buf_nbft_addr := n, buf_nbft_idx := buf_bft_idx_reg bn\<rparr>"
  define s' where "s' = s\<lparr>sk_bufs := (sk_bufs s)(chain_tail (PKT_ADDR ph) L \<mapsto> v),
     sk_pkts := (sk_pkts s)(PKT_ADDR ph \<mapsto> k\<lparr>pkt_bufs_cnt := pkt_bufs_cnt k + 1\<rparr>)\<rparr>"
  have tl: "(if (if L = [] then NULL else last L) = NULL then PKT_ADDR ph + qum_buf_off else (if L = [] then NULL else last L)) =
      chain_tail (PKT_ADDR ph) L" using notnull by (auto simp: chain_tail_def)
  have lk: "KBUF_LINK (chain_tail (PKT_ADDR ph) L) n s = Some (s\<lparr>sk_bufs := (sk_bufs s)(chain_tail (PKT_ADDR ph) L \<mapsto> v)\<rparr>)"
    using t bn nn by (simp add: KBUF_LINK_def upd_defs v_def)
  have ne: "n \<noteq> (if L = [] then NULL else last L)" using nn by auto
  have "(if L = [] then NULL else last L) \<noteq> NULL \<or> pkt_bufs_cnt k = 0" using cnt notnull by auto
  then have add: "packet_add_buflet ph (if L = [] then NULL else last L) n s = Some (0, s')"
    using ph nn(1) ne q pool k ty
    by (simp add: packet_add_buflet_def packet_add_buflet_walk [OF c k(1)] PKT_TYPE_ASSERT_def ret0_def tl lk
        del: if_split_eq1 if_split_eq2) (simp add: upd_defs s'_def)
  have c': "pkt_chain s' (PKT_ADDR ph) (L @ [n])"
    unfolding s'_def using pkt_chain_append [OF c t(1) _ _ nn bn(1,2,3) k] by (simp add: v_def)
  have k1: "pkt_bufs_cnt k + 1 \<noteq> 0"
    using k(2) unat_less_pow [of "pkt_bufs_max k"] by (simp add: unat_eq_0 [symmetric] unat_word_ariths word_less_nat_alt)
  have "packet_get_next_buflet ph ((L @ [n]) ! i) s' = Some ((L @ [n, NULL]) ! Suc i)" if "i \<le> length L" for i
    using packet_get_next_buflet_nth [OF c' ty, of i] that by (auto simp: nth_append)
  moreover have "packet_add_buflet ph b n s = None" if "b \<noteq> (if L = [] then NULL else last L)" for b
    using that k(1)
    by (cases "PKT_ADDR ph \<noteq> NULL \<and> n \<noteq> NULL \<and> n \<noteq> b"; cases "SK_PTR_TYPE ph = NEXUS_META_TYPE_PACKET";
        cases "(b \<noteq> NULL \<or> pkt_bufs_cnt k = 0) \<and> pkt_bufs_cnt k < pkt_bufs_max k")
      (simp_all add: packet_add_buflet_def packet_add_buflet_walk [OF c k(1)] PKT_TYPE_ASSERT_def q pool)
  moreover have "packet_get_buflet_count ph s' = Some (pkt_bufs_cnt k + 1)"
    using k1 ty by (simp add: packet_get_buflet_count_def has_buflets_def s'_def)
  ultimately show ?thesis using add c' packet_get_next_buflet_chain(1) [OF c' ty] by blast
qed

subsection \<open>The verdict of finalisation\<close>

text \<open>
  What is accepted: every buflet has its data inside its limit and its limit inside its buffer (or the
  packet has an mbuf), the headers fit the first buflet, and the options that are flagged have values.
  The ends of the limit and of the buffer are the sums the code computes, taken modulo \<open>2 ^ 64\<close>.
\<close>

definition data_in_buffer :: "kern_buflet \<Rightarrow> skmem_bufctl \<Rightarrow> bool" where
  "data_in_buffer b c \<longleftrightarrow> unat (buf_doff b) + unat (buf_dlen b) \<le> unat (buf_dlim b) \<and> unat (bc_addr c) \<le> unat (buf_addr b) \<and>
     (unat (buf_addr b) + unat (buf_dlim b)) mod 2 ^ 64 \<le> (unat (bc_addr c) + unat (bc_lim c)) mod 2 ^ 64"

lemma BUF_IN_RANGE_iff: "BUF_IN_RANGE b c \<longleftrightarrow> data_in_buffer b c"
proof -
  have u: "unat (ucast (y :: u16) :: u64) = unat y" "unat (ucast (z :: u32) :: u64) = unat z" for y z
    using unat_less_pow [of y] unat_less_pow [of z] by (simp_all add: unsigned_ucast_eq take_bit_nat_eq_self)
  have i: "uint (buf_doff b) + uint (buf_dlen b) \<le> uint (buf_dlim b) \<longleftrightarrow> unat (buf_doff b) + unat (buf_dlen b) \<le> unat (buf_dlim b)"
    by (simp only: uint_nat of_nat_add [symmetric] of_nat_le_iff)
  show ?thesis unfolding BUF_IN_RANGE_def data_in_buffer_def i word_le_nat_alt unat_word_ariths u by auto
qed

definition chain_ready :: "sk_mem \<Rightarrow> ptr list \<Rightarrow> bool" where
  "chain_ready s L \<longleftrightarrow> (\<forall>x \<in> set L. case sk_bufs s x of None \<Rightarrow> False
     | Some b \<Rightarrow> buf_addr b \<noteq> 0 \<and> sk_ctls s (buf_ctl b) \<noteq> None)"

definition buflet_accepted :: "sk_mem \<Rightarrow> kern_packet \<Rightarrow> ptr \<Rightarrow> bool" where
  "buflet_accepted s k x \<longleftrightarrow> pkt_pflags k AND PKT_F_MBUF_DATA \<noteq> 0 \<or>
     (case sk_bufs s x of None \<Rightarrow> False | Some b \<Rightarrow>
       (case sk_ctls s (buf_ctl b) of None \<Rightarrow> False | Some c \<Rightarrow> data_in_buffer b c))"

definition headers_valid :: "u64 \<Rightarrow> kern_packet \<Rightarrow> kern_buflet \<Rightarrow> bool" where
  "headers_valid subtype k b \<longleftrightarrow>
     (if subtype = NEXUS_META_SUBTYPE_RAW
      then unat (pkt_headroom k) = unat (buf_doff b) \<and> unat (pkt_headroom k) + unat (pkt_l2_len k) < unat (buf_dlim b)
      else pkt_headroom k = 0 \<and> pkt_l2_len k = 0 \<and> buf_doff b = 0)"

definition options_valid :: "kern_packet \<Rightarrow> packet_opt \<Rightarrow> bool" where
  "options_valid k po \<longleftrightarrow> (pkt_pflags k AND PKT_F_OPT_EXPIRE_TS \<noteq> 0 \<longrightarrow> po_expire_ts po \<noteq> 0) \<and>
     (pkt_pflags k AND PKT_F_OPT_TOKEN \<noteq> 0 \<longrightarrow> po_token_len po \<noteq> 0)"

definition chain_dlen :: "sk_mem \<Rightarrow> ptr list \<Rightarrow> nat" where
  "chain_dlen s L = (\<Sum>x \<leftarrow> L. case sk_bufs s x of None \<Rightarrow> 0 | Some b \<Rightarrow> unat (buf_dlen b))"

lemma chain_dlen_simps [simp]:
  "chain_dlen s [] = 0"
  "chain_dlen s (x # L) = (case sk_bufs s x of None \<Rightarrow> 0 | Some b \<Rightarrow> unat (buf_dlen b)) + chain_dlen s L"
  by (simp_all add: chain_dlen_def)

lemma chain_dlen_bound: "chain_dlen s L \<le> 65535 * length L"
proof (induction L)
  case (Cons x L)
  have "unat (d :: u16) \<le> 65535" for d using unat_less_pow [of d] by simp
  with Cons show ?case by (auto split: option.splits intro: add_mono)
qed simp

text \<open>No packet is long enough for the 32-bit length to wrap.\<close>

lemma pkt_chain_dlen:
  assumes "pkt_chain s p L"
  shows "unat (of_nat (chain_dlen s L) :: u32) = chain_dlen s L"
proof -
  obtain c :: u16 where "length L = unat c" using assms by (auto elim!: pkt_chainE)
  then have "length L \<le> 65535" using unat_less_pow [of c] by simp
  then show ?thesis using chain_dlen_bound [of s L] by (simp add: unat_of_nat)
qed

lemma finalize_loop_chain:
  assumes c: "pkt_chain s (PKT_ADDR ph) (xs @ ys)" and ty: "SK_PTR_TYPE ph = NEXUS_META_TYPE_PACKET"
    and k: "sk_pkts s (PKT_ADDR ph) = Some k" and r: "chain_ready s (xs @ ys)"
  shows "\<exists>len'. finalize_loop ph s (length ys) (if xs = [] then NULL else last xs) len b0 =
     Some (if \<forall>y \<in> set ys. buflet_accepted s k y then 0 else ERANGE, len',
       if xs = [] \<and> ys \<noteq> [] then map_option (\<lambda>b. (ucast (buf_doff b), ucast (buf_dlim b))) (sk_bufs s (hd ys)) else b0) \<and>
     ((\<forall>y \<in> set ys. buflet_accepted s k y) \<longrightarrow> len' = len + of_nat (chain_dlen s ys))"
  using c r
proof (induction ys arbitrary: xs len b0)
  case Nil
  show ?case by simp
next
  case (Cons y ys)
  have nxt: "packet_get_next_buflet ph (if xs = [] then NULL else last xs) s = Some y"
  proof (cases "xs = []")
    case True
    then show ?thesis using packet_get_next_buflet_chain(1) [OF Cons.prems(1) ty] by simp
  next
    case False
    then have "xs ! (length xs - 1) = last xs" "(xs @ y # ys) ! length xs = y" by (simp_all add: last_conv_nth)
    then show ?thesis using packet_get_next_buflet_nth [OF Cons.prems(1) ty, of "length xs - 1"] False
      by (simp add: nth_append)
  qed
  obtain d where links: "buf_links (sk_bufs s) d (xs @ y # ys) NULL" using Cons.prems(1) by (auto elim!: pkt_chainE)
  have y: "y \<noteq> NULL" using buf_links_not_null [OF links, of y] by simp
  have xs: "(if xs = [] then NULL else last xs) = NULL \<longleftrightarrow> xs = []" using buf_links_not_null [OF links, of "last xs"] by simp
  obtain b ct where b: "sk_bufs s y = Some b" "buf_addr b \<noteq> 0" "sk_ctls s (buf_ctl b) = Some ct"
    using Cons.prems(2) by (auto simp: chain_ready_def split: option.splits)
  have acc: "buflet_accepted s k y \<longleftrightarrow> pkt_pflags k AND PKT_F_MBUF_DATA \<noteq> 0 \<or> data_in_buffer b ct"
    using b by (simp add: buflet_accepted_def)
  let ?b0 = "if xs = [] then Some (ucast (buf_doff b), ucast (buf_dlim b)) else b0"
  have step: "finalize_loop ph s (length (y # ys)) (if xs = [] then NULL else last xs) len b0 =
      (if buflet_accepted s k y then finalize_loop ph s (length ys) y (len + ucast (buf_dlen b)) ?b0
       else Some (ERANGE, len, ?b0))"
    using nxt y b k acc
    by (auto simp: PKT_HAS_ATTACHED_MBUF_def BUF_IN_RANGE_iff xs simp del: if_split_eq1 if_split_eq2)
  show ?case
  proof (cases "buflet_accepted s k y")
    case False
    then show ?thesis using step b by auto
  next
    case True
    have "of_nat (unat (buf_dlen b)) = (ucast (buf_dlen b) :: u32)" by simp
    then show ?thesis
      using step True b Cons.IH [of "xs @ [y]" "len + ucast (buf_dlen b)" ?b0] Cons.prems by (auto simp: add.assoc)
  qed
qed

lemma finalize_headers_valid:
  assumes "subtype = NEXUS_META_SUBTYPE_RAW \<or> subtype = NEXUS_META_SUBTYPE_PAYLOAD"
  shows "finalize_headers subtype k (Some (ucast (buf_doff b), ucast (buf_dlim b))) = Some (if headers_valid subtype k b then 0 else ERANGE)"
proof -
  have u: "unat (ucast (x :: u8) :: u32) = unat x" "unat (ucast (y :: u16) :: u32) = unat y" for x y
    using unat_less_pow [of x] unat_less_pow [of y] by (simp_all add: unsigned_ucast_eq take_bit_nat_eq_self)
  have z: "(ucast (y :: u16) :: u32) = 0 \<longleftrightarrow> y = 0" for y by (metis u(2) unat_eq_0)
  have s: "unat (ucast (pkt_headroom k) + ucast (pkt_l2_len k) :: u32) = unat (pkt_headroom k) + unat (pkt_l2_len k)"
    using unat_less_pow [of "pkt_headroom k"] unat_less_pow [of "pkt_l2_len k"] by (simp add: unat_word_ariths u)
  have e: "(ucast (pkt_headroom k) :: u32) = ucast (buf_doff b) \<longleftrightarrow> unat (pkt_headroom k) = unat (buf_doff b)"
    unfolding word_unat_eq_iff [where ?'a = 32] u ..
  have "NEXUS_META_SUBTYPE_RAW \<noteq> NEXUS_META_SUBTYPE_PAYLOAD" by (simp add: NEXUS_META_SUBTYPE_RAW_def NEXUS_META_SUBTYPE_PAYLOAD_def)
  then show ?thesis using assms
    by (auto simp: finalize_headers_def headers_valid_def e z word_le_nat_alt s u not_le)
qed

lemma finalize_options_valid:
  assumes "sk_opts s (pkt_com_opt k) = Some po"
  shows "finalize_options k s = Some (if options_valid k po then 0 else EINVAL)"
proof -
  have m: "pkt_pflags k AND PKT_F_OPT_EXPIRE_TS = 0" "pkt_pflags k AND PKT_F_OPT_TOKEN = 0"
    if "pkt_pflags k AND PKT_F_OPT_DATA = 0"
  proof -
    have e: "PKT_F_OPT_EXPIRE_TS = PKT_F_OPT_DATA AND PKT_F_OPT_EXPIRE_TS" "PKT_F_OPT_TOKEN = PKT_F_OPT_DATA AND PKT_F_OPT_TOKEN"
      by (simp_all add: pkt_masks pkt_flags)
    show "pkt_pflags k AND PKT_F_OPT_EXPIRE_TS = 0"
      by (subst e(1)) (simp add: and.assoc [symmetric] that)
    show "pkt_pflags k AND PKT_F_OPT_TOKEN = 0"
      by (subst e(2)) (simp add: and.assoc [symmetric] that)
  qed
  show ?thesis using assms m by (auto simp: finalize_options_def options_valid_def)
qed

definition finalize_verdict :: "sk_mem \<Rightarrow> u64 \<Rightarrow> kern_packet \<Rightarrow> ptr list \<Rightarrow> packet_opt \<Rightarrow> int" where
  "finalize_verdict s ph k L po =
     (if L = [] \<or> \<not> (\<forall>x \<in> set L. buflet_accepted s k x) then ERANGE
      else case sk_bufs s (hd L) of None \<Rightarrow> ERANGE | Some b \<Rightarrow>
        if \<not> headers_valid (SK_PTR_SUBTYPE ph) k b then ERANGE
        else if \<not> options_valid k po then EINVAL else 0)"

text \<open>
  There is a verdict if the packet has buflets. If it has none, which only packets of a buffer-on-demand
  pool may, the data offset and limit are never assigned, and only a payload packet with a headroom
  gets a verdict before they are read.
\<close>

definition has_verdict :: "sk_mem \<Rightarrow> u64 \<Rightarrow> kern_quantum \<Rightarrow> kern_packet \<Rightarrow> ptr list \<Rightarrow> bool" where
  "has_verdict s ph q k L \<longleftrightarrow> L \<noteq> [] \<or>
     (case sk_pools s (qum_pp q) of None \<Rightarrow> False | Some pool \<Rightarrow> PP_HAS_BUFFER_ON_DEMAND pool) \<and>
     SK_PTR_SUBTYPE ph = NEXUS_META_SUBTYPE_PAYLOAD \<and> pkt_headroom k \<noteq> 0"

definition finalized_qum :: "kern_quantum \<Rightarrow> int \<Rightarrow> u32 \<Rightarrow> kern_quantum" where
  "finalized_qum q err len = q\<lparr>qum_len := (if err = 0 then len else 0),
     qum_qflags := (qum_qflags q AND NOT (QUM_F_DROPPED OR QUM_F_FINALIZED)) OR (if err = 0 then QUM_F_FINALIZED else QUM_F_DROPPED)\<rparr>"

lemma finalize_run:
  assumes c: "pkt_chain s (PKT_ADDR ph) L" and ty: "SK_PTR_TYPE ph = NEXUS_META_TYPE_PACKET"
    and st: "SK_PTR_SUBTYPE ph = NEXUS_META_SUBTYPE_RAW \<or> SK_PTR_SUBTYPE ph = NEXUS_META_SUBTYPE_PAYLOAD"
    and q: "sk_qums s (PKT_ADDR ph) = Some q" "qum_qflags q AND QUM_F_INTERNALIZED \<noteq> 0"
    and k: "sk_pkts s (PKT_ADDR ph) = Some k" and po: "sk_opts s (pkt_com_opt k) = Some po" and r: "chain_ready s L"
  shows "packet_finalize ph s = (if \<not> has_verdict s ph q k L then None
       else let err = finalize_verdict s ph k L po in
         Some (err, s\<lparr>sk_qums := (sk_qums s)(PKT_ADDR ph \<mapsto> finalized_qum q err (of_nat (chain_dlen s L)))\<rparr>))"
proof -
  obtain b0 where b0: "sk_bufs s (PKT_ADDR ph + qum_buf_off) = Some b0" "length L = unat (pkt_bufs_cnt k)"
    using c k by (auto elim!: pkt_chainE)
  have qa: "QUM_ADDR ph = PKT_ADDR ph" by (simp add: QUM_ADDR_def PKT_ADDR_def SK_PTR_ADDR_KQUM_def SK_PTR_ADDR_KPKT_def)
  define q1 where "q1 = q\<lparr>qum_qflags := qum_qflags q AND NOT (QUM_F_DROPPED OR QUM_F_FINALIZED), qum_len := 0\<rparr>"
  define s1 where "s1 = s\<lparr>sk_qums := (sk_qums s)(PKT_ADDR ph \<mapsto> q1)\<rparr>"
  have s1: "sk_pkts s1 = sk_pkts s" "sk_bufs s1 = sk_bufs s" "sk_ctls s1 = sk_ctls s" "sk_opts s1 = sk_opts s"
    by (simp_all add: s1_def)
  have c1: "pkt_chain s1 (PKT_ADDR ph) L" "chain_ready s1 L"
    using c r unfolding pkt_chain_def chain_ready_def s1 by simp_all
  have same: "buflet_accepted s1 k = buflet_accepted s k" "chain_dlen s1 L = chain_dlen s L"
    unfolding fun_eq_iff buflet_accepted_def chain_dlen_def s1 by simp_all
  have run: "packet_finalize ph s = packet_get_buflet_count ph (s\<lparr>sk_qums := (sk_qums s)(PKT_ADDR ph \<mapsto>
       q\<lparr>qum_qflags := qum_qflags q AND NOT (QUM_F_DROPPED OR QUM_F_FINALIZED)\<rparr>)\<rparr>) \<bind> (\<lambda>bcnt.
     finalize_loop ph s1 (unat bcnt) NULL 0 None \<bind> (\<lambda>(err, len, b0).
     (if err \<noteq> 0 then Some err
       else do {
         err \<leftarrow> finalize_headers (SK_PTR_SUBTYPE ph) k b0;
         if err \<noteq> 0 then Some err else finalize_options k s1 }) \<bind> (\<lambda>err.
     Some (err, s\<lparr>sk_qums := (sk_qums s)(PKT_ADDR ph \<mapsto> finalized_qum q err len)\<rparr>))))"
  proof -
    have u: "qum_qflags_update (\<lambda>f. f AND NOT QUM_F_DROPPED AND NOT QUM_F_FINALIZED) q =
        q\<lparr>qum_qflags := qum_qflags q AND NOT QUM_F_DROPPED AND NOT QUM_F_FINALIZED\<rparr>" by simp
    show ?thesis using q k ty
      by (simp add: packet_finalize_def qa upd_defs s1_def q1_def u cong: if_cong)
        (auto intro!: Option.bind_cong simp: finalized_qum_def)
  qed
  show ?thesis
  proof (cases "L = []")
    case True
    then have "pkt_bufs_cnt k = 0" using b0(2) by (simp add: unat_eq_0)
    then show ?thesis using True ty k st
      by (auto simp: run packet_get_buflet_count_def has_buflets_def VERIFY_def has_verdict_def finalize_headers_def
          finalize_verdict_def ERANGE_def NEXUS_META_SUBTYPE_RAW_def NEXUS_META_SUBTYPE_PAYLOAD_def split: option.splits)
  next
    case False
    then have "pkt_bufs_cnt k \<noteq> 0" using b0(2) by (auto simp: unat_eq_0)
    then have cnt: "packet_get_buflet_count ph (s\<lparr>sk_qums := m\<rparr>) = Some (pkt_bufs_cnt k)" for m
      using ty k by (simp add: packet_get_buflet_count_def has_buflets_def)
    obtain b where b: "sk_bufs s (hd L) = Some b"
      using r False by (cases L) (auto simp: chain_ready_def split: option.splits)
    obtain len where "finalize_loop ph s1 (length L) NULL 0 None = Some (if \<forall>y \<in> set L. buflet_accepted s k y then 0 else ERANGE, len,
        Some (ucast (buf_doff b), ucast (buf_dlim b)))" "(\<forall>y \<in> set L. buflet_accepted s k y) \<longrightarrow> len = of_nat (chain_dlen s L)"
      using finalize_loop_chain [where xs = "[]" and ys = L and s = s1 and len = 0 and ?b0.0 = None, of ph k] c1 ty k b False
      by (auto simp: s1 same)
    then show ?thesis
      using False b0(2) b po
      by (auto simp: run cnt finalize_headers_valid [OF st] finalize_options_valid s1 finalize_verdict_def finalized_qum_def
          has_verdict_def ERANGE_def EINVAL_def Let_def)
  qed
qed

text \<open>
  C6: Finalising a packet that has buflets never panics. It returns \<open>ERANGE\<close> if a buflet has data outside
  its limit or its limit outside its buffer and no mbuf is attached, or if the headers do not fit the
  first buflet, \<open>EINVAL\<close> if an expiry time or token is flagged but not set, and 0 otherwise. The packet
  is marked finalised with the exact sum of the data lengths as its length, which never wraps, or
  dropped with length 0, never both; nothing else changes. A packet without buflets is refused with
  \<open>ERANGE\<close> if it is a payload packet with a headroom from a buffer-on-demand pool; any other has no
  verdict: the code panics or reads a data offset it never assigned.
\<close>
theorem packet_finalize_verdict:
  assumes c: "pkt_chain s (PKT_ADDR ph) L" and ty: "SK_PTR_TYPE ph = NEXUS_META_TYPE_PACKET"
    and st: "SK_PTR_SUBTYPE ph = NEXUS_META_SUBTYPE_RAW \<or> SK_PTR_SUBTYPE ph = NEXUS_META_SUBTYPE_PAYLOAD"
    and q: "sk_qums s (PKT_ADDR ph) = Some q" "qum_qflags q AND QUM_F_INTERNALIZED \<noteq> 0"
    and k: "sk_pkts s (PKT_ADDR ph) = Some k" and po: "sk_opts s (pkt_com_opt k) = Some po" and r: "chain_ready s L"
  shows "packet_finalize ph s = (if \<not> has_verdict s ph q k L then None
       else let err = finalize_verdict s ph k L po in
         Some (err, s\<lparr>sk_qums := (sk_qums s)(PKT_ADDR ph \<mapsto> finalized_qum q err (of_nat (chain_dlen s L)))\<rparr>)) \<and>
     unat (of_nat (chain_dlen s L) :: u32) = chain_dlen s L \<and>
     (\<forall>err len. (qum_qflags (finalized_qum q err len) AND QUM_F_FINALIZED \<noteq> 0) = (err = 0) \<and>
        (qum_qflags (finalized_qum q err len) AND QUM_F_DROPPED \<noteq> 0) = (err \<noteq> 0))"
proof (intro conjI allI)
  show "packet_finalize ph s = (if \<not> has_verdict s ph q k L then None
       else let err = finalize_verdict s ph k L po in
         Some (err, s\<lparr>sk_qums := (sk_qums s)(PKT_ADDR ph \<mapsto> finalized_qum q err (of_nat (chain_dlen s L)))\<rparr>))"
    by (rule finalize_run [OF assms])
  show "unat (of_nat (chain_dlen s L) :: u32) = chain_dlen s L" by (rule pkt_chain_dlen [OF c])
  show "(qum_qflags (finalized_qum q err len) AND QUM_F_FINALIZED \<noteq> 0) = (err = 0)" for err len
    by (simp add: finalized_qum_def bit_simps qum_flags bit.conj_disj_distrib2 and.assoc)
  show "(qum_qflags (finalized_qum q err len) AND QUM_F_DROPPED \<noteq> 0) = (err \<noteq> 0)" for err len
    by (simp add: finalized_qum_def bit_simps qum_flags bit.conj_disj_distrib2 and.assoc)
qed

subsection \<open>Data inside the buffers\<close>

text \<open>The end of the data limit or of the buffer of a buflet, as 64-bit sum, wraps.\<close>

definition end_wraps :: "kern_buflet \<Rightarrow> skmem_bufctl \<Rightarrow> bool" where
  "end_wraps b c \<longleftrightarrow> 2 ^ 64 \<le> unat (buf_addr b) + unat (buf_dlim b) \<or> 2 ^ 64 \<le> unat (bc_addr c) + unat (bc_lim c)"

definition data_bounds :: "kern_buflet \<Rightarrow> skmem_bufctl \<Rightarrow> bool" where
  "data_bounds b c \<longleftrightarrow> unat (bc_addr c) \<le> unat (buf_addr b) + unat (buf_doff b) \<and>
     unat (buf_addr b) + unat (buf_doff b) + unat (buf_dlen b) \<le> unat (bc_addr c) + unat (bc_lim c)"

lemma data_in_buffer_bounds: "data_in_buffer b c \<Longrightarrow> \<not> end_wraps b c \<Longrightarrow> data_bounds b c"
  by (simp add: data_in_buffer_def end_wraps_def data_bounds_def)

text \<open>What a verdict of zero says of the buflets.\<close>

lemma finalize_verdict_0:
  assumes "finalize_verdict s ph k L po = 0"
  shows "\<forall>x \<in> set L. buflet_accepted s k x" "options_valid k po"
    "sk_bufs s (hd L) = Some b \<Longrightarrow> headers_valid (SK_PTR_SUBTYPE ph) k b"
  using assms by (auto simp: finalize_verdict_def ERANGE_def EINVAL_def split: if_splits option.splits)

subsection \<open>The callbacks of a transmit completion\<close>

text \<open>
  \<open>requests s p\<close> is the mask of callbacks that are requested for the packet at \<open>p\<close>, \<open>requested m\<close> the
  indices in a mask, and \<open>serve\<close> one callback: its request is withdrawn, it is looked up, and called with
  the context of the packet if there is one. \<open>compl_rounds\<close> is a finite run of such calls, each for the
  least index that is requested at that moment, until none is; it lists the index, the requests before and the
  requests after every call.
\<close>

definition requests :: "sk_mem \<Rightarrow> ptr \<Rightarrow> u32 option" where
  "requests s p = do { k \<leftarrow> sk_pkts s p; c \<leftarrow> sk_compls s (pkt_tx_compl k); Some (compl_callbacks c) }"

definition requested :: "u32 \<Rightarrow> nat list" where
  "requested m = filter (bit m) [0..<32]"

definition serve :: "tx_compl_lookup \<Rightarrow> (ptr \<Rightarrow> u32 \<Rightarrow> sk_mem \<Rightarrow> sk_mem option) \<Rightarrow> ptr \<Rightarrow> nat \<Rightarrow> sk_mem \<Rightarrow> sk_mem option" where
  "serve cb_of call p i s = do {
     k \<leftarrow> sk_pkts s p;
     s \<leftarrow> upd_compl (pkt_tx_compl k) (compl_callbacks_update (unset_bit i)) s;
     (cb, s) \<leftarrow> cb_of (of_nat i) s;
     if cb = NULL then Some s
     else do {
       k \<leftarrow> sk_pkts s p;
       c \<leftarrow> sk_compls s (pkt_tx_compl k);
       call cb (compl_context c) s } }"

inductive compl_rounds ::
  "tx_compl_lookup \<Rightarrow> (ptr \<Rightarrow> u32 \<Rightarrow> sk_mem \<Rightarrow> sk_mem option) \<Rightarrow> ptr \<Rightarrow> (nat \<times> u32 \<times> u32) list \<Rightarrow> sk_mem \<Rightarrow> sk_mem \<Rightarrow> bool"
  for cb_of call p where
  none: "requests s p = Some 0 \<Longrightarrow> compl_rounds cb_of call p [] s s"
| round: "requests s p = Some m \<Longrightarrow> requested m = i # is \<Longrightarrow> serve cb_of call p i s = Some s1 \<Longrightarrow> requests s1 p = Some m1 \<Longrightarrow>
     compl_rounds cb_of call p rs s1 s2 \<Longrightarrow> compl_rounds cb_of call p ((i, m, m1) # rs) s s2"

text \<open>The calls of a run changed the requests only by withdrawing the one that was served.\<close>

definition undisturbed :: "(nat \<times> u32 \<times> u32) list \<Rightarrow> bool" where
  "undisturbed rs \<longleftrightarrow> (\<forall>(i, m, m1) \<in> set rs. m1 = unset_bit i m)"

lemma find_hd: "filter P xs = y # ys \<Longrightarrow> find P xs = Some y"
  by (induction xs) (auto split: if_splits)

lemma ffs_requested: "requested m = i # is \<Longrightarrow> ffs m - 1 = of_nat i"
  by (simp add: ffs_def requested_def find_hd)

lemma requested_unset: "requested m = i # is \<Longrightarrow> requested (unset_bit i m) = is"
proof -
  assume r: "requested m = i # is"
  then have "i \<notin> set is" using distinct_filter [of "[0..<32]" "bit m"] by (simp add: requested_def)
  have "requested (unset_bit i m) = filter (\<lambda>j. j \<noteq> i) (requested m)"
    by (auto simp: requested_def bit_unset_bit_iff intro!: filter_cong)
  also have "\<dots> = is" using r \<open>i \<notin> set is\<close> by (auto simp: filter_id_conv)
  finally show ?thesis .
qed

lemma requested_Nil: "requested m = [] \<longleftrightarrow> m = 0"
  by (auto simp: requested_def filter_empty_conv bit_eq_iff dest: bit_imp_le_length)

lemma requested_less: "requested m = i # is \<Longrightarrow> i < 32"
  by (metis atLeastLessThan_iff filter_is_subset list.set_intros(1) requested_def set_upt subsetD)

text \<open>One turn of the loop serves the least index that is requested, or ends the loop; \<open>f\<close> is the rest of it.\<close>

lemma tx_compl_turn:
  assumes "requests s p = Some m"
  shows "do {
     k \<leftarrow> sk_pkts s p;
     c \<leftarrow> sk_compls s (pkt_tx_compl k);
     if compl_callbacks c \<noteq> 0 then do {
       let i = ffs (compl_callbacks c) - 1;
       s \<leftarrow> upd_compl (pkt_tx_compl k) (compl_callbacks_update (\<lambda>m. m AND NOT (push_bit (unat i) 1))) s;
       (cb, s) \<leftarrow> cb_of i s;
       s \<leftarrow> (if cb \<noteq> NULL then do {
           k \<leftarrow> sk_pkts s p;
           c \<leftarrow> sk_compls s (pkt_tx_compl k);
           call cb (compl_context c) ifp ts arg data st s }
         else Some s);
       f s }
     else Some s } =
    (case requested m of [] \<Rightarrow> Some s | i # is \<Rightarrow> serve cb_of (\<lambda>cb ctx. call cb ctx ifp ts arg data st) p i s \<bind> f)"
proof -
  obtain k c where k: "sk_pkts s p = Some k" "sk_compls s (pkt_tx_compl k) = Some c" "m = compl_callbacks c"
    using assms(1) by (auto simp: requests_def bind_eq_Some_conv)
  show ?thesis
  proof (cases "requested m")
    case Nil
    then show ?thesis using k requested_Nil [of m] by simp
  next
    case (Cons i "is")
    then have i: "ffs m - 1 = of_nat i" "m \<noteq> 0" "i < 32"
      using ffs_requested requested_Nil [of m] requested_less by auto
    have un: "unat (of_nat i :: u32) = i" using i(3) by (simp add: unat_of_nat)
    have ub: "(\<lambda>m :: u32. m AND NOT (2 ^ i)) = unset_bit i" by (simp add: fun_eq_iff unset_bit_eq_and_not)
    show ?thesis using k i Cons by (auto simp: serve_def un ub Let_def Option.bind_assoc intro!: Option.bind_cong)
  qed
qed

lemma tx_compl_loop_turn:
  "requests s p = Some m \<Longrightarrow> tx_compl_loop cb_of call p ifp ts arg data st s =
    (case requested m of [] \<Rightarrow> Some s
     | i # is \<Rightarrow> serve cb_of (\<lambda>cb ctx. call cb ctx ifp ts arg data st) p i s \<bind> tx_compl_loop cb_of call p ifp ts arg data st)"
  by (subst tx_compl_loop.simps) (rule tx_compl_turn)

lemma compl_rounds_requests: "compl_rounds cb_of call p rs s s' \<Longrightarrow> \<exists>m. requests s p = Some m"
  by (cases rule: compl_rounds.cases) auto

lemma compl_rounds_end: "compl_rounds cb_of call p rs s s' \<Longrightarrow> requests s' p = Some 0"
  by (induction rule: compl_rounds.induct)

lemma compl_rounds_undisturbed:
  "compl_rounds cb_of call p rs s s' \<Longrightarrow> undisturbed rs \<Longrightarrow> requests s p = Some m \<Longrightarrow> map fst rs = requested m"
proof (induction arbitrary: m rule: compl_rounds.induct)
  case (none s)
  then show ?case by (simp add: requested_Nil [THEN iffD2])
next
  case (round s n i "is" s1 m1 rs s2)
  then show ?case using requested_unset [OF round.hyps(2)] by (auto simp: undisturbed_def)
qed

lemma compl_rounds_loop:
  "compl_rounds cb_of (\<lambda>cb ctx. call cb ctx ifp ts arg data st) p rs s s' \<Longrightarrow>
     tx_compl_loop cb_of call p ifp ts arg data st s = Some s'"
proof (induction rule: compl_rounds.induct)
  case (none s)
  then show ?case by (simp add: tx_compl_loop_turn requested_Nil [THEN iffD2])
next
  case (round s m i "is" s1 m1 rs s2)
  then show ?case by (simp add: tx_compl_loop_turn)
qed

text \<open>A run that returns is a finite number of rounds: by induction on the approximations of the loop.\<close>

lemma loop_compl_rounds:
  "tx_compl_loop cb_of call p ifp ts arg data st s = Some s' \<Longrightarrow>
     \<exists>rs. compl_rounds cb_of (\<lambda>cb ctx. call cb ctx ifp ts arg data st) p rs s s'"
proof (induction rule: tx_compl_loop.raw_induct [rotated, consumes 1, case_names loop])
  case (loop f cb_of call p ifp ts arg data st s s')
  obtain m where m: "requests s p = Some m" using loop(2) by (auto simp: requests_def bind_eq_Some_conv)
  show ?case
  proof (cases "requested m")
    case Nil
    then show ?thesis using loop(2) m requested_Nil [of m] by (auto simp: tx_compl_turn [OF m] intro!: exI compl_rounds.none)
  next
    case (Cons i "is")
    then obtain s1 where s1: "serve cb_of (\<lambda>cb ctx. call cb ctx ifp ts arg data st) p i s = Some s1"
        "f cb_of call p ifp ts arg data st s1 = Some s'"
      using loop(2) by (auto simp: tx_compl_turn [OF m] bind_eq_Some_conv)
    obtain rs where "compl_rounds cb_of (\<lambda>cb ctx. call cb ctx ifp ts arg data st) p rs s1 s'" using loop(1) [OF s1(2)] by blast
    then show ?thesis using compl_rounds.round [OF m Cons s1(1)] compl_rounds_requests by blast
  qed
qed

text \<open>
  C19: When finalising a packet returns 0, the data of every buflet, from its offset for its length, lies
  inside the buffer it was allocated, with two exceptions: the packet has an mbuf attached, so that the
  buflets are not checked, or the address and limit of the buflet, or those of its buffer, add up to
  \<open>2 ^ 64\<close> or more, so that the check compares wrapped sums. The headers of the first buflet start at its
  data offset, and those of a raw packet end inside its data limit.
\<close>
theorem finalized_data_in_bounds:
  assumes f: "packet_finalize ph s = Some (0, s')" and c: "pkt_chain s (PKT_ADDR ph) L" and ty: "SK_PTR_TYPE ph = NEXUS_META_TYPE_PACKET"
    and st: "SK_PTR_SUBTYPE ph = NEXUS_META_SUBTYPE_RAW \<or> SK_PTR_SUBTYPE ph = NEXUS_META_SUBTYPE_PAYLOAD"
    and q: "sk_qums s (PKT_ADDR ph) = Some q" "qum_qflags q AND QUM_F_INTERNALIZED \<noteq> 0"
    and k: "sk_pkts s (PKT_ADDR ph) = Some k" and po: "sk_opts s (pkt_com_opt k) = Some po" and r: "chain_ready s L"
  shows "L \<noteq> [] \<and>
    (\<forall>x \<in> set L. \<exists>b c. sk_bufs s' x = Some b \<and> sk_ctls s' (buf_ctl b) = Some c \<and>
      (data_bounds b c \<or> pkt_pflags k AND PKT_F_MBUF_DATA \<noteq> 0 \<or> end_wraps b c)) \<and>
    (\<exists>b. sk_bufs s' (hd L) = Some b \<and> unat (pkt_headroom k) = unat (buf_doff b) \<and>
      (SK_PTR_SUBTYPE ph = NEXUS_META_SUBTYPE_RAW \<longrightarrow> unat (pkt_headroom k) + unat (pkt_l2_len k) < unat (buf_dlim b)))"
proof -
  note run = finalize_run [OF c ty st q k(1) po r]
  then have v: "finalize_verdict s ph k L po = 0" and s': "sk_bufs s' = sk_bufs s" "sk_ctls s' = sk_ctls s"
    using f by (auto simp: Let_def split: if_splits)
  then have ne: "L \<noteq> []" by (auto simp: finalize_verdict_def ERANGE_def)
  have in_range: "\<exists>b c. sk_bufs s x = Some b \<and> sk_ctls s (buf_ctl b) = Some c \<and>
      (data_bounds b c \<or> pkt_pflags k AND PKT_F_MBUF_DATA \<noteq> 0 \<or> end_wraps b c)" if x: "x \<in> set L" for x
    using finalize_verdict_0(1) [OF v, THEN bspec, OF x] r x data_in_buffer_bounds
    by (fastforce simp: buflet_accepted_def chain_ready_def split: option.splits)
  obtain b where "sk_bufs s (hd L) = Some b" using in_range [of "hd L"] ne by auto
  moreover have "headers_valid (SK_PTR_SUBTYPE ph) k b" using finalize_verdict_0(3) [OF v] calculation .
  ultimately show ?thesis using in_range ne st by (auto simp: s' headers_valid_def split: if_splits)
qed

lemma ld_put_apart:
  assumes ap: "apart 8 p q" and l: "length bs \<le> 8"
  shows "ld64 (put q bs m) p = ld64 m p" "ld32 (put q bs m) p = ld32 m p"
proof -
  have at: "put q bs m (p + of_nat i) = m (p + of_nat i)" if "i < 8" for i
    using apart_outside [OF ap that] l by (simp add: put_outside)
  show *: "ld32 (put q bs m) p = ld32 m p" by (rule ld32_cong) (simp add: at)
  have "put q bs m (p + 4 + of_nat i) = m (p + 4 + of_nat i)" if "i < 4" for i
    using at [of "4 + i"] that by (simp add: add.assoc)
  then have "ld32 (put q bs m) (p + 4) = ld32 m (p + 4)" by (rule ld32_cong)
  with * show "ld64 (put q bs m) p = ld64 m p" by (simp add: ld64_def)
qed

text \<open>The variables the routine reads its arguments into.\<close>

definition tx_vars :: "bytes \<Rightarrow> ptr \<Rightarrow> ptr \<Rightarrow> ptr \<Rightarrow> ptr \<Rightarrow> bool" where
  "tx_vars m ts st a d \<longleftrightarrow> owned m ts 8 \<and> owned m st 4 \<and> owned m a 8 \<and> owned m d 8 \<and>
     apart 8 ts st \<and> apart 8 ts a \<and> apart 8 ts d \<and> apart 8 st a \<and> apart 8 st d \<and> apart 8 a d"

text \<open>
  C18: Performing the transmit completion callbacks, whatever the callbacks do, returns exactly if a finite
  number of calls leaves no callback requested, and its result is that of these calls. Each call is for
  the least index that is requested at that time, after its request is withdrawn, with the timestamp,
  data and status the packet had at the start (zero where they are not valid). On return no callback and
  no completion is requested; and if the calls did not change the requests themselves, every callback
  that was requested at the start was called once, in ascending order, and no other.
\<close>
theorem tx_completion_callbacks:
  assumes ty: "SK_PTR_TYPE ph = NEXUS_META_TYPE_PACKET" and k: "sk_pkts s (PKT_ADDR ph) = Some k" and c: "sk_compls s (pkt_tx_compl k) = Some c"
    and fl: "pkt_pflags k AND PKT_F_TX_COMPL_TS_REQ \<noteq> 0" "pkt_pflags k AND PKT_F_TX_COMPL_ALLOC \<noteq> 0"
    and vars: "tx_vars (sk_bytes s) ts st a d"
    and T: "T = (if pkt_pflags k AND PKT_F_TS_VALID \<noteq> 0 then pkt_timestamp k else 0)"
    and D: "(A, B, S) = (if pkt_pflags k AND PKT_F_TX_COMPL_DATA \<noteq> 0 then (compl_cb_arg c, compl_cb_data c, compl_tx_status c) else (0, 0, 0))"
  shows "\<exists>m. (\<forall>s'. packet_perform_tx_completion_callbacks cb_of call ph ifp ts st a d s = Some s' \<longleftrightarrow>
       (\<exists>rs s1 k1. compl_rounds cb_of (\<lambda>cb ctx. call cb ctx ifp T A B S) (PKT_ADDR ph) rs (s\<lparr>sk_bytes := m\<rparr>) s1 \<and>
          sk_pkts s1 (PKT_ADDR ph) = Some k1 \<and>
          s' = s1\<lparr>sk_pkts := (sk_pkts s1)(PKT_ADDR ph \<mapsto> k1\<lparr>pkt_pflags := pkt_pflags k1 AND NOT PKT_F_TX_COMPL_TS_REQ\<rparr>)\<rparr> \<and>
          requests s' (PKT_ADDR ph) = Some 0 \<and>
          (undisturbed rs \<longrightarrow> map fst rs = requested (compl_callbacks c))))"
proof -
  let ?m = "put ts (bytes64 T) (put d (bytes64 B) (put a (bytes64 A) (put st (bytes32 S) (sk_bytes s))))"
  let ?p = "PKT_ADDR ph" and ?s = "s\<lparr>sk_bytes := ?m\<rparr>" and ?call = "\<lambda>cb ctx. call cb ctx ifp T A B S"
  have own: "owned (sk_bytes s) ts 8" "owned (sk_bytes s) st 4" "owned (sk_bytes s) a 8" "owned (sk_bytes s) d 8"
    and ap: "apart 8 ts st" "apart 8 ts a" "apart 8 ts d" "apart 8 st a" "apart 8 st d" "apart 8 a d"
    using vars by (simp_all add: tx_vars_def)
  have ldm: "ld64 ?m ts = Some T" "ld64 ?m d = Some B" "ld64 ?m a = Some A" "ld32 ?m st = Some S"
    using ap ap [THEN apart_sym [THEN iffD1]]
    by (simp_all add: ld_put_apart ld64_put ld32_put)
  have run: "packet_perform_tx_completion_callbacks cb_of call ph ifp ts st a d s =
     tx_compl_loop cb_of call ?p ifp T A B S ?s \<bind> upd_pkt ?p (pkt_pflags_update (\<lambda>f. f AND NOT PKT_F_TX_COMPL_TS_REQ))"
    using ty k c fl own ldm D
    by (cases "pkt_pflags k AND PKT_F_TX_COMPL_DATA = 0"; cases "pkt_pflags k AND PKT_F_TS_VALID = 0")
      (simp_all add: packet_perform_tx_completion_callbacks_def PKT_ADDR_def packet_get_tx_completion_status_def
        packet_get_tx_completion_data_def packet_get_timestamp_def PKT_TYPE_ASSERT_def ret0_def upd_compl_def upd_bytes_def upd_pkt_def [abs_def] st64_put st32_put owned_put T Let_def)
  have req: "requests ?s ?p = Some (compl_callbacks c)" using k c by (simp add: requests_def)
  have u: "pkt_pflags_update (\<lambda>f. f AND NOT PKT_F_TX_COMPL_TS_REQ) k1 = k1\<lparr>pkt_pflags := pkt_pflags k1 AND NOT PKT_F_TX_COMPL_TS_REQ\<rparr>" for k1 :: kern_packet
    by simp
  have loop: "tx_compl_loop cb_of call ?p ifp T A B S ?s = Some s1 \<longleftrightarrow> (\<exists>rs. compl_rounds cb_of ?call ?p rs ?s s1)" for s1
    using compl_rounds_loop [of cb_of call ifp T A B S ?p _ ?s s1] loop_compl_rounds [of cb_of call ?p ifp T A B S ?s s1] by blast
  have last: "requests (s1\<lparr>sk_pkts := (sk_pkts s1)(?p \<mapsto> k1\<lparr>pkt_pflags := F\<rparr>)\<rparr>) ?p = requests s1 ?p"
    if "sk_pkts s1 ?p = Some k1" for s1 k1 F
    using that by (simp add: requests_def)
  have perform: "packet_perform_tx_completion_callbacks cb_of call ph ifp ts st a d s = Some s' \<longleftrightarrow>
       (\<exists>rs s1 k1. compl_rounds cb_of ?call ?p rs ?s s1 \<and> sk_pkts s1 ?p = Some k1 \<and>
          s' = s1\<lparr>sk_pkts := (sk_pkts s1)(?p \<mapsto> k1\<lparr>pkt_pflags := pkt_pflags k1 AND NOT PKT_F_TX_COMPL_TS_REQ\<rparr>)\<rparr>)" for s'
    unfolding run bind_eq_Some_conv loop upd_pkt_def u by auto
  have "requests (s1\<lparr>sk_pkts := (sk_pkts s1)(?p \<mapsto> k1\<lparr>pkt_pflags := F\<rparr>)\<rparr>) ?p = Some 0 \<and>
      (undisturbed rs \<longrightarrow> map fst rs = requested (compl_callbacks c))"
    if "compl_rounds cb_of ?call ?p rs ?s s1" "sk_pkts s1 ?p = Some k1" for rs s1 k1 F
    using compl_rounds_end [OF that(1)] compl_rounds_undisturbed [OF that(1) _ req] last [OF that(2)] by simp
  then show ?thesis unfolding perform by (intro exI [of _ ?m] allI) blast
qed

subsection \<open>Packets with an mbuf\<close>

definition mbuf_verdict :: "u64 \<Rightarrow> kern_packet \<Rightarrow> kern_buflet \<Rightarrow> skmem_bufctl \<Rightarrow> packet_opt \<Rightarrow> int" where
  "mbuf_verdict subtype k b c po =
     (if \<not> data_in_buffer b c \<or> \<not> headers_valid subtype k b then ERANGE else if \<not> options_valid k po then EINVAL else 0)"

text \<open>
  A packet that is initialised with an mbuf has the length of the mbuf and is marked finalised and
  truncated. Finalising it again after its one buflet was filled checks the buflet, the headers and the
  options: on success the length is that of the mbuf and the packet is marked truncated exactly if the
  buflet holds less, on an error it is dropped with length 0 and not truncated.
\<close>
theorem packet_mbuf_truncation:
  assumes md: "sk_mds s (METADATA_PREAMBLE p) = Some md" "mdp_type md = 2" "mdp_subtype md = 1 \<or> mdp_subtype md = 2"
    and q: "sk_qums s p = Some q" "qum_qflags q AND QUM_F_INTERNALIZED \<noteq> 0" and k: "sk_pkts s p = Some k"
    and bufs: "sk_bufs s (p + qum_buf_off) = Some b" "buf_addr b \<noteq> 0" "sk_ctls s (buf_ctl b) = Some c"
    and po: "sk_opts s (pkt_com_opt k) = Some po"
  shows "(pkt_pflags k AND PKT_F_MBUF_MASK = 0 \<and> pkt_pflags k AND PKT_F_PKT_DATA = 0 \<and> pkt_mbuf k = NULL \<longrightarrow>
      (\<exists>s'. packet_initialize_with_mbufchain m_pktlen p mbuf h l s = Some (0, s') \<and>
         sk_qums s' p = Some (finalized_qum q 0 (m_pktlen mbuf)) \<and>
         sk_pkts s' p = Some (k\<lparr>pkt_mbuf := mbuf, pkt_pflags := pkt_pflags k OR PKT_F_MBUF_MASK, pkt_headroom := h, pkt_l2_len := l\<rparr>))) \<and>
    (pkt_pflags k AND (PKT_F_MBUF_DATA OR PKT_F_PKT_DATA) = PKT_F_MBUF_DATA \<and> pkt_mbuf k \<noteq> NULL \<and> pkt_bufs_cnt k = 1 \<longrightarrow>
      (\<exists>s'. packet_finalize_with_mbuf m_pktlen p s = Some (mbuf_verdict (ucast (mdp_subtype md)) k b c po, s') \<and>
         sk_qums s' p = Some (finalized_qum q (mbuf_verdict (ucast (mdp_subtype md)) k b c po) (m_pktlen (pkt_mbuf k))) \<and>
         sk_pkts s' p = Some (k\<lparr>pkt_pflags := (pkt_pflags k AND NOT PKT_F_TRUNCATED) OR
           (if mbuf_verdict (ucast (mdp_subtype md)) k b c po = 0 \<and> unat (buf_dlen b) < unat (m_pktlen (pkt_mbuf k))
            then PKT_F_TRUNCATED else 0)\<rparr>)))"
proof (intro conjI impI)
  have ty: "METADATA_TYPE p s = Some 2" "METADATA_SUBTYPE p s = Some (mdp_subtype md)"
    using md by (simp_all add: METADATA_TYPE_def METADATA_SUBTYPE_def)
  show "\<exists>s'. packet_initialize_with_mbufchain m_pktlen p mbuf h l s = Some (0, s') \<and>
         sk_qums s' p = Some (finalized_qum q 0 (m_pktlen mbuf)) \<and>
         sk_pkts s' p = Some (k\<lparr>pkt_mbuf := mbuf, pkt_pflags := pkt_pflags k OR PKT_F_MBUF_MASK, pkt_headroom := h, pkt_l2_len := l\<rparr>)"
    if "pkt_pflags k AND PKT_F_MBUF_MASK = 0 \<and> pkt_pflags k AND PKT_F_PKT_DATA = 0 \<and> pkt_mbuf k = NULL"
    using ty q k bufs that by (simp add: packet_initialize_with_mbufchain_def upd_defs ret0_def NEXUS_META_TYPE_PACKET_def
          finalized_qum_def) (simp add: PKT_F_MBUF_MASK_def)
  let ?v = "mbuf_verdict (ucast (mdp_subtype md)) k b c po" and ?k = "k\<lparr>pkt_pflags := pkt_pflags k AND NOT PKT_F_TRUNCATED\<rparr>"
  have "finalize_headers (ucast (mdp_subtype md)) ?k (Some (ucast (buf_doff b), ucast (buf_dlim b))) =
      Some (if headers_valid (ucast (mdp_subtype md)) ?k b then 0 else ERANGE)"
    by (rule finalize_headers_valid) (use md(3) in \<open>auto simp: NEXUS_META_SUBTYPE_RAW_def NEXUS_META_SUBTYPE_PAYLOAD_def\<close>)
  moreover have "headers_valid u ?k b = headers_valid u k b" for u by (simp add: headers_valid_def)
  ultimately have hd: "finalize_headers (ucast (mdp_subtype md)) ?k (Some (ucast (buf_doff b), ucast (buf_dlim b))) =
      Some (if headers_valid (ucast (mdp_subtype md)) k b then 0 else ERANGE)" by simp
  have "finalize_options ?k s' = Some (if options_valid ?k po then 0 else EINVAL)" if "sk_opts s' = sk_opts s" for s'
    by (rule finalize_options_valid) (simp add: po that)
  moreover have "options_valid ?k po = options_valid k po"
    by (simp add: options_valid_def and.assoc) (simp add: pkt_flags)
  ultimately have op: "finalize_options ?k s' = Some (if options_valid k po then 0 else EINVAL)" if "sk_opts s' = sk_opts s" for s'
    using that by simp
  have u: "pkt_pflags_update (\<lambda>f. f AND NOT PKT_F_TRUNCATED) k = ?k" by simp
  have dl: "(ucast (buf_dlen b) :: u32) < n \<longleftrightarrow> unat (buf_dlen b) < unat n" for n
    using unat_less_pow [of "buf_dlen b"] by (simp add: word_less_nat_alt unsigned_ucast_eq take_bit_nat_eq_self)
  show "\<exists>s'. packet_finalize_with_mbuf m_pktlen p s = Some (?v, s') \<and> sk_qums s' p = Some (finalized_qum q ?v (m_pktlen (pkt_mbuf k))) \<and>
     sk_pkts s' p = Some (k\<lparr>pkt_pflags := (pkt_pflags k AND NOT PKT_F_TRUNCATED) OR
       (if ?v = 0 \<and> unat (buf_dlen b) < unat (m_pktlen (pkt_mbuf k)) then PKT_F_TRUNCATED else 0)\<rparr>)"
    if "pkt_pflags k AND (PKT_F_MBUF_DATA OR PKT_F_PKT_DATA) = PKT_F_MBUF_DATA \<and> pkt_mbuf k \<noteq> NULL \<and> pkt_bufs_cnt k = 1"
    using ty q k bufs that
    by (auto simp: packet_finalize_with_mbuf_def upd_defs NEXUS_META_TYPE_PACKET_def PKT_GET_FIRST_BUFLET_def u hd op dl
        METADATA_SUBTYPE_def finalized_qum_def mbuf_verdict_def BUF_IN_RANGE_iff ERANGE_def EINVAL_def)
qed

subsection \<open>Instances\<close>

text \<open>A raw packet at \<open>0x1000\<close> with one buflet, at \<open>0x2000\<close>, and a second one that is not linked yet.\<close>

definition chain_kpkt :: kern_packet where
  "chain_kpkt = (the (sk_pkts zero_sk 0))\<lparr>pkt_bufs_max := 4, pkt_bufs_cnt := 1, pkt_headroom := 4, pkt_l2_len := 2,
     pkt_tx_compl := 0x6000, pkt_pflags := PKT_F_TX_COMPL_ALLOC OR PKT_F_TX_COMPL_TS_REQ\<rparr>"

definition chain_buf :: "ptr \<Rightarrow> ptr \<Rightarrow> kern_buflet" where
  "chain_buf n a = \<lparr>buf_nbft_addr = n, buf_addr = a, buf_bft_idx_reg = 5, buf_idx = 0, buf_nbft_idx = OBJ_IDX_NONE,
     buf_dlim = 64, buf_dlen = 10, buf_doff = 4, buf_flag = 0, buf_ctl = 0x7000\<rparr>"

definition chain_sk :: sk_mem where
  "chain_sk = zero_sk\<lparr>sk_pkts := [0x1000 \<mapsto> chain_kpkt],
     sk_bufs := [0x1040 \<mapsto> chain_buf 0x2000 0, 0x2000 \<mapsto> chain_buf 0 0x10000, 0x3000 \<mapsto> chain_buf 0 0x20000],
     sk_qums := (\<lambda>_. Some ((the (sk_qums zero_sk 0))\<lparr>qum_qflags := QUM_F_INTERNALIZED\<rparr>)),
     sk_pools := (\<lambda>_. Some \<lparr>pp_flags = PPF_BUFFER_ON_DEMAND, pp_buflet_size = 0, pp_md_type = 2, pp_md_subtype = 2\<rparr>),
     sk_ctls := (\<lambda>_. Some \<lparr>bc_addr = 0x10000, bc_slab = 0, bc_lim = 64, bc_flags = 0, bc_idx = 0, bc_usecnt = 1\<rparr>),
     sk_compls := (\<lambda>_. Some \<lparr>compl_cb_arg = 0, compl_cb_data = 0, compl_tx_status = 0, compl_pad = 0,
       compl_callbacks = 5, compl_context = 7\<rparr>)\<rparr>"

lemma chain_sk_facts:
  "PKT_ADDR 0x100a = 0x1000" "SK_PTR_TYPE 0x100a = NEXUS_META_TYPE_PACKET" "SK_PTR_SUBTYPE 0x100a = NEXUS_META_SUBTYPE_RAW"
  "sk_pkts chain_sk 0x1000 = Some chain_kpkt"
  "sk_qums chain_sk 0x1000 = Some ((the (sk_qums zero_sk 0))\<lparr>qum_qflags := QUM_F_INTERNALIZED\<rparr>)"
  "sk_opts chain_sk x = Some \<lparr>po_token_type = 0, po_token_len = 0, po_vlan_tag = 0, po_expire_ts = 0\<rparr>"
  "pkt_chain chain_sk 0x1000 [0x2000]" "chain_ready chain_sk [0x2000]"
  by (simp_all add: PKT_ADDR_def sk_ptr_defs NEXUS_META_TYPE_PACKET_def NEXUS_META_SUBTYPE_RAW_def chain_sk_def)
    (simp_all add: zero_sk_def pkt_chain_def chain_ready_def chain_kpkt_def chain_buf_def qum_buf_off_def
      first_buflet_def chain_tail_def)

theorem packet_buflet_chain_witness:
  "\<exists>s'. packet_add_buflet 0x100a 0x2000 0x3000 chain_sk = Some (0, s') \<and> pkt_chain s' 0x1000 [0x2000, 0x3000] \<and>
     packet_get_next_buflet 0x100a 0x2000 s' = Some 0x3000 \<and> packet_add_buflet 0x100a NULL 0x3000 chain_sk = None"
proof -
  let ?q = "(the (sk_qums zero_sk 0))\<lparr>qum_qflags := QUM_F_INTERNALIZED\<rparr>"
  have "fresh_buflet chain_sk 0x1000 [0x2000] 0x3000" "pkt_bufs_cnt chain_kpkt < pkt_bufs_max chain_kpkt"
    by (simp_all add: fresh_buflet_def chain_sk_def chain_kpkt_def chain_buf_def qum_buf_off_def OBJ_IDX_NONE_def)
  moreover have "sk_pools chain_sk (qum_pp ?q) = Some \<lparr>pp_flags = PPF_BUFFER_ON_DEMAND, pp_buflet_size = 0, pp_md_type = 2, pp_md_subtype = 2\<rparr>"
    by (simp add: chain_sk_def)
  ultimately obtain s' where "packet_add_buflet 0x100a 0x2000 0x3000 chain_sk = Some (0, s')" "pkt_chain s' 0x1000 [0x2000, 0x3000]"
    "\<forall>i \<le> 1. packet_get_next_buflet 0x100a ([0x2000, 0x3000] ! i) s' = Some ([0x2000, 0x3000, NULL] ! Suc i)"
    "\<forall>b. b \<noteq> 0x2000 \<longrightarrow> packet_add_buflet 0x100a b 0x3000 chain_sk = None"
    using packet_buflet_chain [of chain_sk "0x100a" "[0x2000]" ?q _ chain_kpkt "0x3000"] chain_sk_facts
    by (auto simp: PP_HAS_BUFFER_ON_DEMAND_def PPF_BUFFER_ON_DEMAND_def)
  then show ?thesis by (auto dest!: spec [of _ 0])
qed

lemma chain_sk_verdict:
  "finalize_verdict chain_sk 0x100a chain_kpkt [0x2000] \<lparr>po_token_type = 0, po_token_len = 0, po_vlan_tag = 0, po_expire_ts = 0\<rparr> = 0"
  "chain_dlen chain_sk [0x2000] = 10"
  by (simp_all add: finalize_verdict_def buflet_accepted_def headers_valid_def options_valid_def chain_sk_facts(3)
      chain_sk_def chain_buf_def chain_kpkt_def data_in_buffer_def pkt_flags)

lemma chain_sk_internalized:
  "qum_qflags ((the (sk_qums zero_sk 0))\<lparr>qum_qflags := QUM_F_INTERNALIZED\<rparr>) AND QUM_F_INTERNALIZED \<noteq> 0"
  by (simp add: qum_flags)

theorem packet_finalize_verdict_witness:
  "\<exists>s'. packet_finalize 0x100a chain_sk = Some (0, s') \<and> map_option qum_len (sk_qums s' 0x1000) = Some 10"
  using packet_finalize_verdict [of chain_sk "0x100a" "[0x2000]", unfolded chain_sk_facts(1), OF chain_sk_facts(7) chain_sk_facts(2)
      disjI1 [OF chain_sk_facts(3)] chain_sk_facts(5) chain_sk_internalized chain_sk_facts(4) chain_sk_facts(6) chain_sk_facts(8)]
  by (simp add: chain_sk_verdict finalized_qum_def has_verdict_def del: chain_dlen_simps)

theorem finalized_data_in_bounds_witness:
  "\<exists>s' b c. packet_finalize 0x100a chain_sk = Some (0, s') \<and> sk_bufs s' 0x2000 = Some b \<and> sk_ctls s' (buf_ctl b) = Some c \<and>
     data_bounds b c"
proof -
  obtain s' where f: "packet_finalize 0x100a chain_sk = Some (0, s')" "sk_bufs s' = sk_bufs chain_sk" "sk_ctls s' = sk_ctls chain_sk"
    using finalize_run [of chain_sk "0x100a" "[0x2000]", unfolded chain_sk_facts(1), OF chain_sk_facts(7) chain_sk_facts(2)
      disjI1 [OF chain_sk_facts(3)] chain_sk_facts(5) chain_sk_internalized chain_sk_facts(4) chain_sk_facts(6) chain_sk_facts(8)]
    by (simp add: chain_sk_verdict has_verdict_def)
  have "pkt_pflags chain_kpkt AND PKT_F_MBUF_DATA = 0" by (simp add: chain_kpkt_def pkt_flags)
  moreover have "\<not> end_wraps b c" if "sk_bufs s' 0x2000 = Some b" "sk_ctls s' (buf_ctl b) = Some c" for b c
    using that by (auto simp: f(2,3) chain_sk_def chain_buf_def end_wraps_def)
  ultimately show ?thesis
    using finalized_data_in_bounds [OF f(1), unfolded chain_sk_facts(1), OF chain_sk_facts(7) chain_sk_facts(2) disjI1 [OF chain_sk_facts(3)]
       chain_sk_facts(5) chain_sk_internalized chain_sk_facts(4) chain_sk_facts(6) chain_sk_facts(8)] f(1) by auto
qed

text \<open>
  The check compares wrapped sums: a buflet that ends beyond the last address passes it, and the packet is
  finalised although the data lies outside the buffer.
\<close>

definition wrap_sk :: sk_mem where
  "wrap_sk = chain_sk\<lparr>sk_bufs := [0x1040 \<mapsto> chain_buf 0x2000 0, 0x2000 \<mapsto> chain_buf 0 0xfffffffffffffff0]\<rparr>"

lemma finalize_accepts_wrapped_buflet:
  "\<exists>s' b c. packet_finalize 0x100a wrap_sk = Some (0, s') \<and> sk_bufs s' 0x2000 = Some b \<and> sk_ctls s' (buf_ctl b) = Some c \<and>
     \<not> data_bounds b c"
proof -
  have c: "pkt_chain wrap_sk 0x1000 [0x2000]" "chain_ready wrap_sk [0x2000]"
    by (simp_all add: wrap_sk_def chain_sk_def pkt_chain_def chain_ready_def chain_kpkt_def chain_buf_def qum_buf_off_def
        first_buflet_def chain_tail_def)
  have e: "sk_qums wrap_sk = sk_qums chain_sk" "sk_pkts wrap_sk = sk_pkts chain_sk" "sk_opts wrap_sk = sk_opts chain_sk"
    "sk_ctls wrap_sk = sk_ctls chain_sk"
    by (simp_all add: wrap_sk_def)
  have v: "finalize_verdict wrap_sk 0x100a chain_kpkt [0x2000] \<lparr>po_token_type = 0, po_token_len = 0, po_vlan_tag = 0, po_expire_ts = 0\<rparr> = 0"
    by (simp add: finalize_verdict_def buflet_accepted_def headers_valid_def options_valid_def chain_sk_facts(3)
      wrap_sk_def chain_sk_def chain_buf_def chain_kpkt_def data_in_buffer_def pkt_flags)
  obtain s' where "packet_finalize 0x100a wrap_sk = Some (0, s')" "sk_bufs s' = sk_bufs wrap_sk" "sk_ctls s' = sk_ctls wrap_sk"
    using finalize_run [of wrap_sk "0x100a" "[0x2000]", unfolded chain_sk_facts(1) e, OF c(1) chain_sk_facts(2)
      disjI1 [OF chain_sk_facts(3)] chain_sk_facts(5) chain_sk_internalized chain_sk_facts(4) chain_sk_facts(6) c(2)]
    by (simp add: v has_verdict_def)
  then show ?thesis by (auto simp: e chain_sk_def) (simp add: wrap_sk_def chain_buf_def data_bounds_def)
qed

theorem tx_completion_callbacks_witness:
  "\<exists>m s1 s'. packet_perform_tx_completion_callbacks (\<lambda>i s. Some (0x9000 + ucast i, s))
       (\<lambda>cb ctx ifp t a d st s. Some (s\<lparr>sk_bytes := (sk_bytes s)(cb \<mapsto> ucast ctx)\<rparr>)) 0x100a 0 0x100 0x200 0x300 0x400 chain_sk = Some s' \<and>
     s1\<lparr>sk_pkts := (sk_pkts s1)(0x1000 \<mapsto> chain_kpkt\<lparr>pkt_pflags := pkt_pflags chain_kpkt AND NOT PKT_F_TX_COMPL_TS_REQ\<rparr>)\<rparr> = s' \<and>
     requests s' 0x1000 = Some 0 \<and> sk_bytes s' = m(0x9000 \<mapsto> 7, 0x9002 \<mapsto> 7)"
proof -
  let ?cb = "\<lambda>i s. Some (0x9000 + ucast (i :: u32), s) :: (ptr \<times> sk_mem) option"
  let ?call = "\<lambda>cb (ctx :: u32) (ifp :: ptr) (t :: u64) (a :: u64) (d :: u64) (st :: u32) s. Some (s\<lparr>sk_bytes := (sk_bytes s)(cb \<mapsto> ucast ctx)\<rparr>)"
  let ?c = "\<lambda>m. \<lparr>compl_cb_arg = 0, compl_cb_data = 0, compl_tx_status = 0, compl_pad = 0, compl_callbacks = m, compl_context = 7\<rparr>"
  let ?s = "\<lambda>M n. chain_sk\<lparr>sk_bytes := M, sk_compls := (sk_compls chain_sk)(0x6000 \<mapsto> ?c n)\<rparr>"
  have fl: "pkt_pflags chain_kpkt AND PKT_F_TX_COMPL_TS_REQ \<noteq> 0" "pkt_pflags chain_kpkt AND PKT_F_TX_COMPL_ALLOC \<noteq> 0"
      "pkt_pflags chain_kpkt AND PKT_F_TX_COMPL_DATA = 0" "pkt_pflags chain_kpkt AND PKT_F_TS_VALID = 0"
    by (simp_all add: chain_kpkt_def pkt_flags)
  have x: "pkt_tx_compl chain_kpkt = 0x6000" by (simp add: chain_kpkt_def)
  have c: "sk_compls chain_sk 0x6000 = Some (?c 5)" by (simp add: chain_sk_def)
  have v: "tx_vars (sk_bytes chain_sk) 0x100 0x200 0x300 0x400" by (simp add: tx_vars_def apart_def chain_sk_def)
  have r: "requested 5 = [0, 2]" "requested 4 = [2]" by code_simp+
  have q: "requests (?s M n) 0x1000 = Some n" for M n by (simp add: requests_def chain_sk_facts(4) x)
  have s0: "chain_sk\<lparr>sk_bytes := M\<rparr> = ?s M 5" for M using c by (simp add: fun_upd_idem)
  have sv: "serve ?cb (\<lambda>cb ctx. ?call cb ctx 0 0 0 0 0) 0x1000 i (?s M n) = Some (?s (M(0x9000 + ucast (of_nat i :: u32) \<mapsto> 7)) (unset_bit i n))"
    if "0x9000 + ucast (of_nat i :: u32) \<noteq> (0 :: ptr)" for M n i
    using that by (simp add: serve_def chain_sk_facts(4) x upd_compl_def)
  have rounds: "compl_rounds ?cb (\<lambda>cb ctx. ?call cb ctx 0 0 0 0 0) 0x1000 [(0, 5, 4), (2, 4, 0)] (?s M 5) (?s (M(0x9000 \<mapsto> 7, 0x9002 \<mapsto> 7)) 0)" for M
    by (rule compl_rounds.round [OF q r(1) sv], simp, simp add: unset_bit_eq_and_not q,
        simp add: unset_bit_eq_and_not, rule compl_rounds.round [OF q r(2) sv], simp, simp add: unset_bit_eq_and_not q,
        simp add: unset_bit_eq_and_not, rule compl_rounds.none [OF q])
  obtain m where m: "\<And>s'. packet_perform_tx_completion_callbacks ?cb ?call 0x100a 0 0x100 0x200 0x300 0x400 chain_sk = Some s' \<longleftrightarrow>
       (\<exists>rs s1 k1. compl_rounds ?cb (\<lambda>cb ctx. ?call cb ctx 0 0 0 0 0) 0x1000 rs (chain_sk\<lparr>sk_bytes := m\<rparr>) s1 \<and>
          sk_pkts s1 0x1000 = Some k1 \<and>
          s' = s1\<lparr>sk_pkts := (sk_pkts s1)(0x1000 \<mapsto> k1\<lparr>pkt_pflags := pkt_pflags k1 AND NOT PKT_F_TX_COMPL_TS_REQ\<rparr>)\<rparr> \<and>
          requests s' 0x1000 = Some 0 \<and> (undisturbed rs \<longrightarrow> map fst rs = requested 5))"
    using tx_completion_callbacks [where ph = "0x100a" and s = chain_sk and k = chain_kpkt and c = "?c 5" and T = 0 and A = 0 and B = 0 and S = 0
        and call = ?call and ifp = 0 and cb_of = ?cb, OF chain_sk_facts(2) _ _ fl(1,2) v] chain_sk_facts fl x c by auto
  let ?s1 = "?s (m(0x9000 \<mapsto> 7, 0x9002 \<mapsto> 7)) 0"
  let ?s2 = "?s1\<lparr>sk_pkts := (sk_pkts ?s1)(0x1000 \<mapsto> chain_kpkt\<lparr>pkt_pflags := pkt_pflags chain_kpkt AND NOT PKT_F_TX_COMPL_TS_REQ\<rparr>)\<rparr>"
  have q2: "requests ?s2 0x1000 = Some 0" by (simp add: requests_def x)
  have "packet_perform_tx_completion_callbacks ?cb ?call 0x100a 0 0x100 0x200 0x300 0x400 chain_sk = Some ?s2"
    unfolding m using rounds [of m, folded s0] r q2
    by (intro exI [of _ "[(0, 5, 4), (2, 4, 0)]"] exI [of _ ?s1] exI [of _ chain_kpkt])
      (simp add: chain_sk_facts(4))
  then show ?thesis using q2 by (intro exI [of _ m] exI [of _ ?s1] exI [of _ ?s2]) simp
qed

definition mbuf_sk :: sk_mem where
  "mbuf_sk = chain_sk\<lparr>sk_pkts := [0x1000 \<mapsto> chain_kpkt\<lparr>pkt_mbuf := 0x50, pkt_pflags := PKT_F_MBUF_DATA\<rparr>],
     sk_bufs := [0x1040 \<mapsto> chain_buf 0 0x10000], sk_mds := (\<lambda>_. Some \<lparr>mdp_idx = 0, mdp_type = 2, mdp_subtype = 2\<rparr>)\<rparr>"

theorem packet_mbuf_truncation_witness:
  "\<exists>s'. packet_finalize_with_mbuf (\<lambda>_. 100) 0x1000 mbuf_sk = Some (0, s') \<and> map_option qum_len (sk_qums s' 0x1000) = Some 100 \<and>
     map_option pkt_pflags (sk_pkts s' 0x1000) = Some (PKT_F_MBUF_DATA OR PKT_F_TRUNCATED)"
proof -
  let ?k = "chain_kpkt\<lparr>pkt_mbuf := 0x50, pkt_pflags := PKT_F_MBUF_DATA\<rparr>" and ?b = "chain_buf 0 0x10000"
    and ?c = "\<lparr>bc_addr = 0x10000, bc_slab = 0, bc_lim = 64, bc_flags = 0, bc_idx = 0, bc_usecnt = 1\<rparr>"
    and ?po = "\<lparr>po_token_type = 0, po_token_len = 0, po_vlan_tag = 0, po_expire_ts = 0\<rparr>"
  have v: "mbuf_verdict 2 ?k ?b ?c ?po = 0"
    by (simp add: mbuf_verdict_def data_in_buffer_def headers_valid_def options_valid_def chain_kpkt_def chain_buf_def
        NEXUS_META_SUBTYPE_RAW_def pkt_flags)
  have "sk_mds mbuf_sk (METADATA_PREAMBLE 0x1000) = Some \<lparr>mdp_idx = 0, mdp_type = 2, mdp_subtype = 2\<rparr>"
    "sk_qums mbuf_sk 0x1000 = Some ((the (sk_qums zero_sk 0))\<lparr>qum_qflags := QUM_F_INTERNALIZED\<rparr>)" "sk_pkts mbuf_sk 0x1000 = Some ?k"
    "sk_bufs mbuf_sk (0x1000 + qum_buf_off) = Some ?b" "buf_addr ?b \<noteq> 0" "sk_ctls mbuf_sk (buf_ctl ?b) = Some ?c"
    "sk_opts mbuf_sk (pkt_com_opt ?k) = Some ?po"
    by (simp_all add: mbuf_sk_def chain_sk_facts(5,6) qum_buf_off_def) (simp_all add: chain_sk_def chain_buf_def)
  note f = packet_mbuf_truncation [OF this(1) _ _ this(2) chain_sk_internalized this(3-7), of "\<lambda>_. 100", THEN conjunct2, rule_format]
  have "pkt_pflags ?k AND (PKT_F_MBUF_DATA OR PKT_F_PKT_DATA) = PKT_F_MBUF_DATA" "pkt_mbuf ?k \<noteq> NULL" "pkt_bufs_cnt ?k = 1"
    and dl: "unat (buf_dlen ?b) = 10"
    by (simp_all add: pkt_flags chain_kpkt_def chain_buf_def)
  then show ?thesis using f by (auto simp: v finalized_qum_def) (simp add: pkt_flags)
qed

end
