(* ===== verification/FlowKey.thy ===== *)
theory FlowKey
  imports PacketMem
begin

text \<open>
  skywalk/nexus/flowswitch/flow/flow_var.h and the flow keys of skywalk/nexus/os_nexus_private.h: the keys under which the
  flow switch looks up the flow of a packet, their comparison, hashing and construction from a request and
  from a packet, the order on addresses, and the places of the hash buckets. An IP address is its two 64-bit
  halves in memory order, of which an IPv4 address is the first four bytes. The hash \<open>net_flowhash\<close>, the
  tests \<open>sk_sa_has_addr\<close>, \<open>sk_sa_has_port\<close> and the vector comparison are not in the headers and are parameters. Of
  \<open>memcmp\<close> the sign of the result is kept.
\<close>

subsection \<open>Keys\<close>

record flow_ip_addr =
  addr64_0 :: u64
  addr64_1 :: u64

definition v4_of :: "flow_ip_addr \<Rightarrow> u32" where
  "v4_of a = ucast (addr64_0 a)"

definition set_v4 :: "u32 \<Rightarrow> flow_ip_addr \<Rightarrow> flow_ip_addr" where
  "set_v4 v a = a\<lparr>addr64_0 := push_bit 32 (drop_bit 32 (addr64_0 a)) OR ucast v\<rparr>"

record flow_key =
  fk_mask :: u16
  fk_ipver :: u8
  fk_proto :: u8
  fk_sport :: u16
  fk_dport :: u16
  fk_src :: flow_ip_addr
  fk_dst :: flow_ip_addr
  fk_pad :: u64

definition FK_HASH_SEED :: u32 where "FK_HASH_SEED = 0xabcd"

definition FKMASK_IPVER :: u16 where "FKMASK_IPVER = push_bit 0 1"
definition FKMASK_PROTO :: u16 where "FKMASK_PROTO = push_bit 1 1"
definition FKMASK_SRC :: u16 where "FKMASK_SRC = push_bit 2 1"
definition FKMASK_SPORT :: u16 where "FKMASK_SPORT = push_bit 3 1"
definition FKMASK_DST :: u16 where "FKMASK_DST = push_bit 4 1"
definition FKMASK_DPORT :: u16 where "FKMASK_DPORT = push_bit 5 1"

definition FKMASK_2TUPLE :: u16 where "FKMASK_2TUPLE = FKMASK_PROTO OR FKMASK_SPORT"
definition FKMASK_3TUPLE :: u16 where "FKMASK_3TUPLE = FKMASK_2TUPLE OR FKMASK_IPVER OR FKMASK_SRC"
definition FKMASK_4TUPLE :: u16 where "FKMASK_4TUPLE = FKMASK_3TUPLE OR FKMASK_DPORT"
definition FKMASK_5TUPLE :: u16 where "FKMASK_5TUPLE = FKMASK_4TUPLE OR FKMASK_DST"
definition FKMASK_IPFLOW1 :: u16 where "FKMASK_IPFLOW1 = FKMASK_PROTO"
definition FKMASK_IPFLOW2 :: u16 where "FKMASK_IPFLOW2 = FKMASK_IPFLOW1 OR FKMASK_IPVER OR FKMASK_SRC"
definition FKMASK_IPFLOW3 :: u16 where "FKMASK_IPFLOW3 = FKMASK_IPFLOW2 OR FKMASK_DST"

definition zero_addr :: flow_ip_addr where
  "zero_addr = \<lparr>addr64_0 = 0, addr64_1 = 0\<rparr>"

definition FLOW_KEY_CLEAR :: "flow_key \<Rightarrow> flow_key" where
  "FLOW_KEY_CLEAR _ = \<lparr>fk_mask = 0, fk_ipver = 0, fk_proto = 0, fk_sport = 0, fk_dport = 0, fk_src = zero_addr, fk_dst = zero_addr, fk_pad = 0\<rparr>"

text \<open>The bytes of an address and of a key in memory.\<close>

definition addr_bytes :: "flow_ip_addr \<Rightarrow> u8 list" where
  "addr_bytes a = bytes64 (addr64_0 a) @ bytes64 (addr64_1 a)"

definition key_bytes :: "flow_key \<Rightarrow> u8 list" where
  "key_bytes k = bytes16 (fk_mask k) @ [fk_ipver k, fk_proto k] @ bytes16 (fk_sport k) @ bytes16 (fk_dport k) @
     addr_bytes (fk_src k) @ addr_bytes (fk_dst k) @ bytes64 (fk_pad k)"

fun memcmp :: "u8 list \<Rightarrow> u8 list \<Rightarrow> int" where
  "memcmp (x # xs) (y # ys) = (if x = y then memcmp xs ys else if x < y then -1 else 1)"
| "memcmp _ _ = 0"

text \<open>\<open>FK_CMP\<close> returns from the function or falls through to what follows, \<open>cont\<close>.\<close>

definition FK_CMP :: "(flow_key \<Rightarrow> u8 list) \<Rightarrow> u16 \<Rightarrow> flow_key \<Rightarrow> flow_key \<Rightarrow> int \<Rightarrow> int" where
  "FK_CMP field bt match key cont =
     (if fk_mask match AND bt \<noteq> 0 then
        if fk_mask key AND bt = 0 then 1
        else let d = memcmp (field match) (field key) in if d \<noteq> 0 then d else cont
      else cont)"

definition flow_key_cmp :: "flow_key \<Rightarrow> flow_key \<Rightarrow> int" where
  "flow_key_cmp match key =
     FK_CMP (\<lambda>k. [fk_ipver k]) FKMASK_IPVER match key (
     FK_CMP (\<lambda>k. [fk_proto k]) FKMASK_PROTO match key (
     FK_CMP (\<lambda>k. addr_bytes (fk_src k)) FKMASK_SRC match key (
     FK_CMP (\<lambda>k. addr_bytes (fk_dst k)) FKMASK_DST match key (
     FK_CMP (\<lambda>k. bytes16 (fk_sport k)) FKMASK_SPORT match key (
     FK_CMP (\<lambda>k. bytes16 (fk_dport k)) FKMASK_DPORT match key 0)))))"

text \<open>\<open>cmp48\<close> is the routine that the platform has for \<open>sk_memcmp_mask_48B\<close>.\<close>

definition flow_key_cmp_mask :: "mask_cmp \<Rightarrow> ptr \<Rightarrow> ptr \<Rightarrow> ptr \<Rightarrow> bytes \<Rightarrow> u32 option" where
  "flow_key_cmp_mask cmp48 match key byte_mask m = cmp48 match key byte_mask m"

definition FK_HASH :: "(u8 list \<Rightarrow> u32 \<Rightarrow> u32) \<Rightarrow> (flow_key \<Rightarrow> u8 list) \<Rightarrow> u16 \<Rightarrow> flow_key \<Rightarrow> u32 \<Rightarrow> u32" where
  "FK_HASH net_flowhash field bt key hash = (if fk_mask key AND bt \<noteq> 0 then net_flowhash (field key) hash else hash)"

definition flow_key_hash :: "(u8 list \<Rightarrow> u32 \<Rightarrow> u32) \<Rightarrow> flow_key \<Rightarrow> u32" where
  "flow_key_hash net_flowhash key =
     (let hash = FK_HASH_SEED;
          hash = FK_HASH net_flowhash (\<lambda>k. [fk_ipver k]) FKMASK_IPVER key hash;
          hash = FK_HASH net_flowhash (\<lambda>k. [fk_proto k]) FKMASK_PROTO key hash;
          hash = FK_HASH net_flowhash (\<lambda>k. addr_bytes (fk_src k)) FKMASK_SRC key hash;
          hash = FK_HASH net_flowhash (\<lambda>k. addr_bytes (fk_dst k)) FKMASK_DST key hash;
          hash = FK_HASH net_flowhash (\<lambda>k. bytes16 (fk_sport k)) FKMASK_SPORT key hash
      in FK_HASH net_flowhash (\<lambda>k. bytes16 (fk_dport k)) FKMASK_DPORT key hash)"

subsection \<open>Keys of requests and packets\<close>

text \<open>The members of the socket addresses of a request that are read.\<close>

record sockaddr_in_4_6 =
  sa_family :: u8
  sin_port :: u16
  sin_addr :: u32
  sin6_port :: u16
  sin6_addr :: flow_ip_addr

text \<open>
  A request: what a client asks for, as far as it is read here, and the members for the kernel only, which
  overlay \<open>_nfr_opaque\<close>.
\<close>

record nx_flow_req =
  nfr_saddr :: sockaddr_in_4_6
  nfr_daddr :: sockaddr_in_4_6
  nfr_ip_protocol :: u8
  nfr_flags :: u16
  nfr_context :: ptr
  nfr_proc :: ptr
  nfr_ifp :: ptr
  nfr_route :: ptr
  nfr_port_reservation :: ptr
  nfr_proto_reservation :: ptr
  nfr_flow_stats :: ptr
  nfr_pid :: u32
  nfr_saddr_gencnt :: u32
  nfr_ipsec_reservation :: ptr
  nfr_inp_flowhash :: u32

definition NXFLOWREQF_TRACK :: u16 where "NXFLOWREQF_TRACK = 0x0001"
definition NXFLOWREQF_QOS_MARKING :: u16 where "NXFLOWREQF_QOS_MARKING = 0x0002"
definition NXFLOWREQF_FILTER :: u16 where "NXFLOWREQF_FILTER = 0x0004"
definition NXFLOWREQF_CUSTOM_ETHER :: u16 where "NXFLOWREQF_CUSTOM_ETHER = 0x0008"
definition NXFLOWREQF_IPV6_ULA :: u16 where "NXFLOWREQF_IPV6_ULA = 0x0010"
definition NXFLOWREQF_LISTENER :: u16 where "NXFLOWREQF_LISTENER = 0x0020"
definition NXFLOWREQF_OVERRIDE_ADDRESS_SELECTION :: u16 where "NXFLOWREQF_OVERRIDE_ADDRESS_SELECTION = 0x0040"
definition NXFLOWREQF_USE_STABLE_ADDRESS :: u16 where "NXFLOWREQF_USE_STABLE_ADDRESS = 0x0080"
definition NXFLOWREQF_FLOWADV :: u16 where "NXFLOWREQF_FLOWADV = 0x0100"
definition NXFLOWREQF_ASIS :: u16 where "NXFLOWREQF_ASIS = 0x0200"
definition NXFLOWREQF_LOW_LATENCY :: u16 where "NXFLOWREQF_LOW_LATENCY = 0x0400"
definition NXFLOWREQF_EXT_PORT_RSV :: u16 where "NXFLOWREQF_EXT_PORT_RSV = 0x1000"
definition NXFLOWREQF_EXT_PROTO_RSV :: u16 where "NXFLOWREQF_EXT_PROTO_RSV = 0x2000"

definition NXFLOWREQF_MASK :: u16 where
  "NXFLOWREQF_MASK = NXFLOWREQF_TRACK OR NXFLOWREQF_QOS_MARKING OR NXFLOWREQF_FILTER OR NXFLOWREQF_CUSTOM_ETHER OR
     NXFLOWREQF_IPV6_ULA OR NXFLOWREQF_LISTENER OR NXFLOWREQF_OVERRIDE_ADDRESS_SELECTION OR NXFLOWREQF_USE_STABLE_ADDRESS OR
     NXFLOWREQF_FLOWADV OR NXFLOWREQF_LOW_LATENCY"

definition zero_opaque :: "nx_flow_req \<Rightarrow> nx_flow_req" where
  "zero_opaque req = req\<lparr>nfr_context := NULL, nfr_proc := NULL, nfr_ifp := NULL, nfr_route := NULL, nfr_port_reservation := NULL,
     nfr_proto_reservation := NULL, nfr_flow_stats := NULL, nfr_pid := 0, nfr_saddr_gencnt := 0, nfr_ipsec_reservation := NULL, nfr_inp_flowhash := 0\<rparr>"

definition nx_flow_req_internalize :: "nx_flow_req \<Rightarrow> nx_flow_req" where
  "nx_flow_req_internalize req =
     (let req = zero_opaque req;
          req = req\<lparr>nfr_flags := nfr_flags req AND NXFLOWREQF_MASK\<rparr>;
          req = req\<lparr>nfr_context := NULL\<rparr>;
          req = req\<lparr>nfr_flow_stats := NULL\<rparr>
      in req\<lparr>nfr_port_reservation := NULL\<rparr>)"

definition nx_flow_req_externalize :: "nx_flow_req \<Rightarrow> nx_flow_req" where
  "nx_flow_req_externalize req =
     (let req = zero_opaque req in req\<lparr>nfr_flags := nfr_flags req AND NXFLOWREQF_MASK\<rparr>)"

definition AF_INET :: u8 where "AF_INET = 2"
definition AF_INET6 :: u8 where "AF_INET6 = 30"
definition IPVERSION :: u8 where "IPVERSION = 4"
definition IPV6_VERSION :: u8 where "IPV6_VERSION = 0x60"
definition ENOTSUP :: int where "ENOTSUP = 45"

text \<open>The parameters \<open>has_addr\<close> and \<open>has_port\<close> are \<open>sk_sa_has_addr\<close> and \<open>sk_sa_has_port\<close>. The result is the error and the key.\<close>

definition flow_req2key ::
  "(sockaddr_in_4_6 \<Rightarrow> bool) \<Rightarrow> (sockaddr_in_4_6 \<Rightarrow> bool) \<Rightarrow> nx_flow_req \<Rightarrow> flow_key \<Rightarrow> int \<times> flow_key" where
  "flow_req2key has_addr has_port req key =
     (let key = FLOW_KEY_CLEAR key;
          s = nfr_saddr req; d = nfr_daddr req in
      if sa_family s \<noteq> AF_INET \<and> sa_family s \<noteq> AF_INET6 then (ENOTSUP, key)
      else
        let key =
          (if sa_family s = AF_INET then
             let key = key\<lparr>fk_ipver := IPVERSION\<rparr>;
                 key = key\<lparr>fk_proto := nfr_ip_protocol req\<rparr>;
                 key = key\<lparr>fk_mask := fk_mask key OR FKMASK_PROTO\<rparr>;
                 key = (if has_addr s then key\<lparr>fk_src := set_v4 (sin_addr s) (fk_src key), fk_mask := fk_mask key OR (FKMASK_IPVER OR FKMASK_SRC)\<rparr> else key);
                 key = (if has_addr d then key\<lparr>fk_dst := set_v4 (sin_addr d) (fk_dst key), fk_mask := fk_mask key OR (FKMASK_IPVER OR FKMASK_DST)\<rparr> else key);
                 key = (if has_port s then key\<lparr>fk_sport := sin_port s, fk_mask := fk_mask key OR FKMASK_SPORT\<rparr> else key)
             in (if has_port d then key\<lparr>fk_dport := sin_port d, fk_mask := fk_mask key OR FKMASK_DPORT\<rparr> else key)
           else
             let key = key\<lparr>fk_ipver := IPV6_VERSION\<rparr>;
                 key = key\<lparr>fk_proto := nfr_ip_protocol req\<rparr>;
                 key = key\<lparr>fk_mask := fk_mask key OR FKMASK_PROTO\<rparr>;
                 key = (if has_addr s then key\<lparr>fk_src := sin6_addr s, fk_mask := fk_mask key OR (FKMASK_IPVER OR FKMASK_SRC)\<rparr> else key);
                 key = (if has_addr d then key\<lparr>fk_dst := sin6_addr d, fk_mask := fk_mask key OR (FKMASK_IPVER OR FKMASK_DST)\<rparr> else key);
                 key = (if has_port s then key\<lparr>fk_sport := sin6_port s, fk_mask := fk_mask key OR FKMASK_SPORT\<rparr> else key)
             in (if has_port d then key\<lparr>fk_dport := sin6_port d, fk_mask := fk_mask key OR FKMASK_DPORT\<rparr> else key))
        in if fk_mask key \<in> {FKMASK_5TUPLE, FKMASK_4TUPLE, FKMASK_3TUPLE, FKMASK_2TUPLE, FKMASK_IPFLOW3, FKMASK_IPFLOW2, FKMASK_IPFLOW1}
           then (0, key) else (ENOTSUP, key))"

text \<open>
  What \<open>struct __flow\<close> says of a packet: the version and protocol, the two IPv6 addresses, over the first
  of which the two IPv4 addresses lie, and the ports.
\<close>

record flow_info =
  flow_ip_ver :: u8
  flow_ip_proto :: u8
  flow_ipv6_src :: flow_ip_addr
  flow_ipv6_dst :: flow_ip_addr
  flow_tcp_src :: u16
  flow_tcp_dst :: u16

definition flow_ipv4_src :: "flow_info \<Rightarrow> u32" where
  "flow_ipv4_src f = ucast (addr64_0 (flow_ipv6_src f))"

definition flow_ipv4_dst :: "flow_info \<Rightarrow> u32" where
  "flow_ipv4_dst f = ucast (drop_bit 32 (addr64_0 (flow_ipv6_src f)))"

definition flow_pkt2key :: "u16 \<Rightarrow> flow_info \<Rightarrow> bool \<Rightarrow> flow_key \<Rightarrow> flow_key option" where
  "flow_pkt2key qflags flow input key =
     (let key = FLOW_KEY_CLEAR key in
      if qflags AND QUM_F_FLOW_CLASSIFIED = 0 then Some key
      else do {
        ASSERT (flow_ip_ver flow \<noteq> 0);
        let key = key\<lparr>fk_ipver := flow_ip_ver flow, fk_proto := flow_ip_proto flow\<rparr>;
        Some (
          if input then
            if flow_ip_ver flow = IPVERSION then
              key\<lparr>fk_src := set_v4 (flow_ipv4_dst flow) (fk_src key), fk_sport := flow_tcp_dst flow,
                 fk_dst := set_v4 (flow_ipv4_src flow) (fk_dst key), fk_dport := flow_tcp_src flow\<rparr>
            else
              key\<lparr>fk_src := flow_ipv6_dst flow, fk_sport := flow_tcp_dst flow, fk_dst := flow_ipv6_src flow, fk_dport := flow_tcp_src flow\<rparr>
          else
            if flow_ip_ver flow = IPVERSION then
              key\<lparr>fk_src := set_v4 (flow_ipv4_src flow) (fk_src key), fk_sport := flow_tcp_src flow,
                 fk_dst := set_v4 (flow_ipv4_dst flow) (fk_dst key), fk_dport := flow_tcp_dst flow\<rparr>
            else
              key\<lparr>fk_src := flow_ipv6_src flow, fk_sport := flow_tcp_src flow, fk_dst := flow_ipv6_dst flow, fk_dport := flow_tcp_dst flow\<rparr>) })"

subsection \<open>The order on addresses, and buckets\<close>

definition flow_ip_cmp :: "flow_ip_addr \<Rightarrow> flow_ip_addr \<Rightarrow> u64 \<Rightarrow> int option" where
  "flow_ip_cmp a b alen =
     (if alen = 4 then
        if v4_of a > v4_of b then Some 1
        else if v4_of a < v4_of b then Some (-1)
        else Some 0
      else if alen = 16 then
        if addr64_1 a > addr64_1 b then Some 1
        else if addr64_1 a < addr64_1 b then Some (-1)
        else if addr64_0 a > addr64_0 b then Some 1
        else if addr64_0 a < addr64_0 b then Some (-1)
        else Some 0
      else None)"

record flow_mgr =
  fm_owner_buckets :: ptr
  fm_owner_bucket_sz :: u64
  fm_route_buckets :: ptr
  fm_route_bucket_sz :: u64
  fm_route_id_buckets :: ptr
  fm_route_id_bucket_sz :: u64

definition flow_mgr_get_fob_at_idx :: "flow_mgr \<Rightarrow> u32 \<Rightarrow> ptr" where
  "flow_mgr_get_fob_at_idx fm idx = fm_owner_buckets fm + ucast idx * fm_owner_bucket_sz fm"

definition flow_mgr_get_frb_at_idx :: "flow_mgr \<Rightarrow> u32 \<Rightarrow> ptr" where
  "flow_mgr_get_frb_at_idx fm idx = fm_route_buckets fm + ucast idx * fm_route_bucket_sz fm"

definition flow_mgr_get_frib_at_idx :: "flow_mgr \<Rightarrow> u32 \<Rightarrow> ptr" where
  "flow_mgr_get_frib_at_idx fm idx = fm_route_id_buckets fm + ucast idx * fm_route_id_bucket_sz fm"

text \<open>Division by zero has no value.\<close>

definition flow_mgr_get_fob_idx :: "flow_mgr \<Rightarrow> ptr \<Rightarrow> u32 option" where
  "flow_mgr_get_fob_idx fm bkt =
     (if fm_owner_bucket_sz fm = 0 then None
      else do {
        ASSERT ((bkt - fm_owner_buckets fm) mod fm_owner_bucket_sz fm = 0);
        Some (ucast ((bkt - fm_owner_buckets fm) div fm_owner_bucket_sz fm)) })"

subsection \<open>Comparison and hash\<close>

lemma memcmp_0: "length xs = length ys \<Longrightarrow> memcmp xs ys = 0 \<longleftrightarrow> xs = ys"
  by (induction xs ys rule: memcmp.induct) auto

lemma length_addr_bytes [simp]: "length (addr_bytes a) = 16"
  by (simp add: addr_bytes_def)

text \<open>What a key that is matched (\<open>m\<close>) asks of an exact key (\<open>k\<close>).\<close>

definition asks :: "u16 \<Rightarrow> (flow_key \<Rightarrow> u8 list) \<Rightarrow> flow_key \<Rightarrow> flow_key \<Rightarrow> bool" where
  "asks bt field m k \<longleftrightarrow> (fk_mask m AND bt \<noteq> 0 \<longrightarrow> fk_mask k AND bt \<noteq> 0 \<and> field m = field k)"

lemma FK_CMP_0:
  "length (field m) = length (field k) \<Longrightarrow> FK_CMP field bt m k cont = 0 \<longleftrightarrow> asks bt field m k \<and> cont = 0"
  by (auto simp: FK_CMP_def asks_def memcmp_0 Let_def)

lemma flow_key_cmp_0:
  "flow_key_cmp m k = 0 \<longleftrightarrow>
     asks FKMASK_IPVER (\<lambda>k. [fk_ipver k]) m k \<and> asks FKMASK_PROTO (\<lambda>k. [fk_proto k]) m k \<and>
     asks FKMASK_SRC (\<lambda>k. addr_bytes (fk_src k)) m k \<and> asks FKMASK_DST (\<lambda>k. addr_bytes (fk_dst k)) m k \<and>
     asks FKMASK_SPORT (\<lambda>k. bytes16 (fk_sport k)) m k \<and> asks FKMASK_DPORT (\<lambda>k. bytes16 (fk_dport k)) m k"
  unfolding flow_key_cmp_def by (simp add: FK_CMP_0)

lemma bytes_inject [simp]: "bytes16 v = bytes16 w \<longleftrightarrow> v = w" "bytes64 x = bytes64 y \<longleftrightarrow> x = y"
  by (metis ld16_put option.inject, metis ld64_put option.inject)

lemma addr_bytes_inject [simp]: "addr_bytes a = addr_bytes b \<longleftrightarrow> a = b"
  by (cases a; cases b) (auto simp: addr_bytes_def)

text \<open>
  \<open>flow_key_cmp\<close> returns zero exactly if the second key has every field that the mask of the first selects,
  with the same value; keys with the same mask that match have the same hash.
\<close>
theorem flow_key_match:
  "(flow_key_cmp m k = 0 \<longleftrightarrow>
      (fk_mask m AND FKMASK_IPVER \<noteq> 0 \<longrightarrow> fk_mask k AND FKMASK_IPVER \<noteq> 0 \<and> fk_ipver m = fk_ipver k) \<and>
      (fk_mask m AND FKMASK_PROTO \<noteq> 0 \<longrightarrow> fk_mask k AND FKMASK_PROTO \<noteq> 0 \<and> fk_proto m = fk_proto k) \<and>
      (fk_mask m AND FKMASK_SRC \<noteq> 0 \<longrightarrow> fk_mask k AND FKMASK_SRC \<noteq> 0 \<and> fk_src m = fk_src k) \<and>
      (fk_mask m AND FKMASK_DST \<noteq> 0 \<longrightarrow> fk_mask k AND FKMASK_DST \<noteq> 0 \<and> fk_dst m = fk_dst k) \<and>
      (fk_mask m AND FKMASK_SPORT \<noteq> 0 \<longrightarrow> fk_mask k AND FKMASK_SPORT \<noteq> 0 \<and> fk_sport m = fk_sport k) \<and>
      (fk_mask m AND FKMASK_DPORT \<noteq> 0 \<longrightarrow> fk_mask k AND FKMASK_DPORT \<noteq> 0 \<and> fk_dport m = fk_dport k)) \<and>
    (flow_key_cmp m k = 0 \<longrightarrow> fk_mask m = fk_mask k \<longrightarrow> flow_key_hash net_flowhash m = flow_key_hash net_flowhash k)"
proof -
  have "flow_key_cmp m k = 0 \<Longrightarrow> fk_mask m = fk_mask k \<Longrightarrow> flow_key_hash net_flowhash m = flow_key_hash net_flowhash k"
    unfolding flow_key_cmp_0 asks_def flow_key_hash_def FK_HASH_def Let_def by simp
  then show ?thesis unfolding flow_key_cmp_0 asks_def by simp
qed

subsection \<open>Comparison under a byte mask\<close>

definition agree :: "u8 list \<Rightarrow> u8 list \<Rightarrow> u8 list \<Rightarrow> bool" where
  "agree xs ys ks \<longleftrightarrow> list_all (\<lambda>(x, y, k). (x XOR y) AND k = 0) (zip xs (zip ys ks))"

lemma agree_append:
  "length xs = length ks \<Longrightarrow> length ys = length ks \<Longrightarrow> agree (xs @ xs') (ys @ ys') (ks @ ks') \<longleftrightarrow> agree xs ys ks \<and> agree xs' ys' ks'"
  by (simp add: agree_def)

lemma agree_none: "agree xs ys (replicate n 0)"
  by (auto simp: agree_def list_all_iff dest!: set_zip_rightD)

lemma agree_all: "length xs = n \<Longrightarrow> length ys = n \<Longrightarrow> agree xs ys (replicate n 0xFF) \<longleftrightarrow> xs = ys"
proof (induction n arbitrary: xs ys)
  case (Suc n)
  have "(0xFF :: u8) = -1" by simp
  then have "x AND 0xFF = x" for x :: u8 by (metis and.right_neutral)
  moreover have "x XOR y = 0 \<longleftrightarrow> x = y" for x y :: u8 by (auto simp: bit_eq_iff bit_simps)
  ultimately show ?case using Suc by (cases xs; cases ys) (auto simp: agree_def)
qed (simp add: agree_def)

text \<open>Bytes in memory, and the byte mask of the fields that a mask selects.\<close>

definition in_mem :: "bytes \<Rightarrow> ptr \<Rightarrow> u8 list \<Rightarrow> bool" where
  "in_mem m p bs \<longleftrightarrow> (\<forall>i < length bs. m (p + of_nat i) = Some (bs ! i))"

definition sel :: "u16 \<Rightarrow> u16 \<Rightarrow> nat \<Rightarrow> u8 list" where
  "sel fm bt n = replicate n (if fm AND bt \<noteq> 0 then 0xFF else 0)"

definition byte_mask_of :: "u16 \<Rightarrow> u8 list" where
  "byte_mask_of fm = replicate 2 0 @ (sel fm FKMASK_IPVER 1 @ sel fm FKMASK_PROTO 1) @ sel fm FKMASK_SPORT 2 @ sel fm FKMASK_DPORT 2 @
     sel fm FKMASK_SRC 16 @ sel fm FKMASK_DST 16 @ replicate 8 0"

lemma agree_sel: "length xs = n \<Longrightarrow> length ys = n \<Longrightarrow> agree xs ys (sel fm bt n) \<longleftrightarrow> (fm AND bt \<noteq> 0 \<longrightarrow> xs = ys)"
  using agree_all agree_none by (auto simp: sel_def)

lemma length_sel [simp]: "length (sel fm bt n) = n"
  by (simp add: sel_def)

lemma key_lengths: "length (key_bytes k) = 48" "length (byte_mask_of fm) = 48"
  by (simp_all add: key_bytes_def byte_mask_of_def)

lemma agree_keys:
  "agree (key_bytes m) (key_bytes k) (byte_mask_of fm) \<longleftrightarrow>
     (fm AND FKMASK_IPVER \<noteq> 0 \<longrightarrow> [fk_ipver m] = [fk_ipver k]) \<and> (fm AND FKMASK_PROTO \<noteq> 0 \<longrightarrow> [fk_proto m] = [fk_proto k]) \<and>
     (fm AND FKMASK_SPORT \<noteq> 0 \<longrightarrow> bytes16 (fk_sport m) = bytes16 (fk_sport k)) \<and> (fm AND FKMASK_DPORT \<noteq> 0 \<longrightarrow> bytes16 (fk_dport m) = bytes16 (fk_dport k)) \<and>
     (fm AND FKMASK_SRC \<noteq> 0 \<longrightarrow> addr_bytes (fk_src m) = addr_bytes (fk_src k)) \<and> (fm AND FKMASK_DST \<noteq> 0 \<longrightarrow> addr_bytes (fk_dst m) = addr_bytes (fk_dst k))"
proof -
  have two: "[x, y] = [x] @ [y]" for x y :: u8 by simp
  show ?thesis unfolding key_bytes_def byte_mask_of_def two by (simp only: agree_append agree_sel agree_none length_append length_replicate length_sel
        length_bytes length_addr_bytes list.size simp_thms conj_assoc)
qed

lemma mask_eq_agree:
  assumes "in_mem mm a xs" "in_mem mm b ys" "in_mem mm c ks" "length xs = n" "length ys = n" "length ks = n"
  shows "mask_eq mm a b c 0 n \<longleftrightarrow> agree xs ys ks" "owned3 mm a b c n"
proof -
  have u: "(ucast x XOR ucast y) AND ucast k = (0 :: u32) \<longleftrightarrow> (x XOR y) AND k = 0" for x y k :: u8
  proof -
    have "(ucast x XOR ucast y) AND ucast k = (ucast ((x XOR y) AND k) :: u32)" by (rule bit_word_eqI) (auto simp: bit_simps)
    moreover have "(ucast z :: u32) = 0 \<longleftrightarrow> z = 0" for z :: u8
      using bit_imp_le_length [of z] by (fastforce simp: bit_eq_iff bit_simps)
    ultimately show ?thesis by simp
  qed
  show "mask_eq mm a b c 0 n \<longleftrightarrow> agree xs ys ks"
    using assms by (simp add: mask_eq_iff masked_diff_def in_mem_def agree_def list_all_length u)
  show "owned3 mm a b c n" using assms by (simp add: owned3_def owned_iff in_mem_def)
qed

text \<open>The second key has every field that the mask of the first selects.\<close>

lemma has_fields:
  "fk_mask m AND FKMASK_5TUPLE AND NOT (fk_mask k) = 0 \<longleftrightarrow>
     (\<forall>bt \<in> {FKMASK_IPVER, FKMASK_PROTO, FKMASK_SRC, FKMASK_DST, FKMASK_SPORT, FKMASK_DPORT}. fk_mask m AND bt \<noteq> 0 \<longrightarrow> fk_mask k AND bt \<noteq> 0)"
proof -
  have p: "w AND push_bit n 1 = 0 \<longleftrightarrow> \<not> bit w n" for w :: u16 and n
    by (simp add: push_bit_of_1 and_exp_eq_0_iff_not_bit)
  have six: "i < 6 \<longleftrightarrow> i \<in> {0, 1, 2, 3, 4, 5}" for i :: nat by auto
  have "FKMASK_5TUPLE = mask 6"
    by (simp add: FKMASK_5TUPLE_def FKMASK_4TUPLE_def FKMASK_3TUPLE_def FKMASK_2TUPLE_def FKMASK_IPVER_def FKMASK_PROTO_def
        FKMASK_SRC_def FKMASK_SPORT_def FKMASK_DST_def FKMASK_DPORT_def mask_eq_exp_minus_1)
  then have "fk_mask m AND FKMASK_5TUPLE AND NOT (fk_mask k) = 0 \<longleftrightarrow> (\<forall>i. i < 6 \<longrightarrow> bit (fk_mask m) i \<longrightarrow> bit (fk_mask k) i)"
    by (simp only: bit_eq_iff) (auto simp: bit_simps)
  also have "\<dots> \<longleftrightarrow> (\<forall>i \<in> {0, 1, 2, 3, 4, 5}. bit (fk_mask m) i \<longrightarrow> bit (fk_mask k) i)" unfolding six by blast
  finally show ?thesis
    unfolding FKMASK_IPVER_def FKMASK_PROTO_def FKMASK_SRC_def FKMASK_SPORT_def FKMASK_DST_def FKMASK_DPORT_def
    by (simp only: p ball_simps insert_iff empty_iff simp_thms) blast
qed

text \<open>
  C23: \<open>flow_key_cmp_mask\<close> returns zero exactly if the bytes of the two keys agree wherever the byte mask has
  bits. With the byte mask of the fields that the first key's mask selects, it is weaker than
  \<open>flow_key_cmp\<close> by one condition, which does not depend on the values of the fields: \<open>flow_key_cmp\<close> returns
  zero exactly if it does and the second key's own mask has the selected fields.
\<close>
theorem flow_key_cmp_mask_agrees:
  assumes "masked_compare cmp48 48" "in_mem mm a (key_bytes m)" "in_mem mm b (key_bytes k)" "in_mem mm c ks" "length ks = 48"
  shows "\<exists>r. flow_key_cmp_mask cmp48 a b c mm = Some r \<and> (r = 0 \<longleftrightarrow> agree (key_bytes m) (key_bytes k) ks) \<and>
    (ks = byte_mask_of (fk_mask m) \<longrightarrow> (flow_key_cmp m k = 0 \<longleftrightarrow> r = 0 \<and> fk_mask m AND FKMASK_5TUPLE AND NOT (fk_mask k) = 0))"
proof -
  have "flow_key_cmp m k = 0 \<longleftrightarrow> agree (key_bytes m) (key_bytes k) (byte_mask_of (fk_mask m)) \<and>
      fk_mask m AND FKMASK_5TUPLE AND NOT (fk_mask k) = 0"
    unfolding flow_key_cmp_0 agree_keys asks_def has_fields by auto
  then show ?thesis
    using masked_compare.decides [OF assms(1) mask_eq_agree(2) [OF assms(2-4)]] mask_eq_agree(1) [OF assms(2-4)] key_lengths assms(5)
    by (auto simp: flow_key_cmp_mask_def)
qed

subsection \<open>Keys of requests\<close>

lemmas fkmasks = FKMASK_5TUPLE_def FKMASK_4TUPLE_def FKMASK_3TUPLE_def FKMASK_2TUPLE_def FKMASK_IPFLOW3_def FKMASK_IPFLOW2_def FKMASK_IPFLOW1_def
  FKMASK_IPVER_def FKMASK_PROTO_def FKMASK_SRC_def FKMASK_SPORT_def FKMASK_DST_def FKMASK_DPORT_def

lemma v4_of_set_v4: "v4_of (set_v4 v a) = v"
  by (rule bit_word_eqI) (auto simp: v4_of_def set_v4_def bit_simps)

text \<open>
  C24: \<open>flow_req2key\<close> refuses a request (\<open>ENOTSUP\<close>) of another address family, and one whose addresses and ports
  are not one of the seven combinations that the flow switch looks up: source address and both ports,
  with the destination address or without; no destination and the source as given; or both addresses
  without ports. Otherwise the key has the protocol and the given addresses and ports, and its mask selects
  exactly them.
\<close>
theorem flow_request_key:
  assumes "flow_req2key has_addr has_port req key0 = (err, key)"
  shows "(err = 0 \<or> err = ENOTSUP) \<and>
     (err = 0 \<longleftrightarrow> (sa_family (nfr_saddr req) = AF_INET \<or> sa_family (nfr_saddr req) = AF_INET6) \<and>
        (has_addr (nfr_saddr req) \<and> has_port (nfr_saddr req) \<and> has_port (nfr_daddr req) \<or>
         \<not> has_addr (nfr_daddr req) \<and> \<not> has_port (nfr_daddr req) \<or>
         has_addr (nfr_saddr req) \<and> \<not> has_port (nfr_saddr req) \<and> \<not> has_port (nfr_daddr req))) \<and>
     (err = 0 \<longrightarrow> fk_proto key = nfr_ip_protocol req \<and> fk_mask key AND FKMASK_PROTO \<noteq> 0 \<and>
        (fk_mask key AND FKMASK_SRC \<noteq> 0 \<longleftrightarrow> has_addr (nfr_saddr req)) \<and> (fk_mask key AND FKMASK_DST \<noteq> 0 \<longleftrightarrow> has_addr (nfr_daddr req)) \<and>
        (fk_mask key AND FKMASK_SPORT \<noteq> 0 \<longleftrightarrow> has_port (nfr_saddr req)) \<and> (fk_mask key AND FKMASK_DPORT \<noteq> 0 \<longleftrightarrow> has_port (nfr_daddr req)) \<and>
        (has_addr (nfr_saddr req) \<longrightarrow> (if sa_family (nfr_saddr req) = AF_INET then v4_of (fk_src key) = sin_addr (nfr_saddr req) else fk_src key = sin6_addr (nfr_saddr req))) \<and>
        (has_addr (nfr_daddr req) \<longrightarrow> (if sa_family (nfr_saddr req) = AF_INET then v4_of (fk_dst key) = sin_addr (nfr_daddr req) else fk_dst key = sin6_addr (nfr_daddr req))) \<and>
        (has_port (nfr_saddr req) \<longrightarrow> fk_sport key = (if sa_family (nfr_saddr req) = AF_INET then sin_port (nfr_saddr req) else sin6_port (nfr_saddr req))) \<and>
        (has_port (nfr_daddr req) \<longrightarrow> fk_dport key = (if sa_family (nfr_saddr req) = AF_INET then sin_port (nfr_daddr req) else sin6_port (nfr_daddr req))))"
proof -
  have fam: "AF_INET \<noteq> AF_INET6" "ENOTSUP \<noteq> 0" by (simp_all add: AF_INET_def AF_INET6_def ENOTSUP_def)
  consider "sa_family (nfr_saddr req) = AF_INET" | "sa_family (nfr_saddr req) = AF_INET6" | "sa_family (nfr_saddr req) \<noteq> AF_INET" "sa_family (nfr_saddr req) \<noteq> AF_INET6"
    by blast
  then show ?thesis
  proof cases
    case 1
    then show ?thesis using assms unfolding flow_req2key_def Let_def
      by (cases "has_addr (nfr_saddr req)"; cases "has_addr (nfr_daddr req)"; cases "has_port (nfr_saddr req)"; cases "has_port (nfr_daddr req)")
        (auto simp: FLOW_KEY_CLEAR_def fkmasks fam v4_of_set_v4)
  next
    case 2
    then show ?thesis using assms unfolding flow_req2key_def Let_def
      by (cases "has_addr (nfr_saddr req)"; cases "has_addr (nfr_daddr req)"; cases "has_port (nfr_saddr req)"; cases "has_port (nfr_daddr req)")
        (auto simp: FLOW_KEY_CLEAR_def fkmasks fam fam(1) [symmetric])
  next
    case 3
    then show ?thesis using assms fam by (auto simp: flow_req2key_def)
  qed
qed

text \<open>
  A request that crosses the boundary to user space, in either direction, loses all that is for the kernel
  only: a client neither sees nor supplies kernel pointers, the flags are those it may set, not the two
  of the kernel and not \<open>NXFLOWREQF_ASIS\<close>, and what it asked for is unchanged.
\<close>
theorem flow_request_boundary:
  "nx_flow_req_internalize req = nx_flow_req_externalize req \<and>
   zero_opaque (nx_flow_req_externalize req) = nx_flow_req_externalize req \<and>
   nfr_flags (nx_flow_req_externalize req) AND (NXFLOWREQF_EXT_PORT_RSV OR NXFLOWREQF_EXT_PROTO_RSV OR NXFLOWREQF_ASIS) = 0 \<and>
   nfr_flags (nx_flow_req_externalize req) AND NXFLOWREQF_MASK = nfr_flags req AND NXFLOWREQF_MASK \<and>
   flow_req2key has_addr has_port (nx_flow_req_internalize req) key = flow_req2key has_addr has_port req key"
proof -
  have "NXFLOWREQF_MASK AND (NXFLOWREQF_EXT_PORT_RSV OR NXFLOWREQF_EXT_PROTO_RSV OR NXFLOWREQF_ASIS) = 0"
    by (simp add: NXFLOWREQF_MASK_def NXFLOWREQF_TRACK_def NXFLOWREQF_QOS_MARKING_def NXFLOWREQF_FILTER_def NXFLOWREQF_CUSTOM_ETHER_def NXFLOWREQF_IPV6_ULA_def
      NXFLOWREQF_LISTENER_def NXFLOWREQF_OVERRIDE_ADDRESS_SELECTION_def NXFLOWREQF_USE_STABLE_ADDRESS_def NXFLOWREQF_FLOWADV_def NXFLOWREQF_ASIS_def
      NXFLOWREQF_LOW_LATENCY_def NXFLOWREQF_EXT_PORT_RSV_def NXFLOWREQF_EXT_PROTO_RSV_def)
  then have "w AND NXFLOWREQF_MASK AND (NXFLOWREQF_EXT_PORT_RSV OR NXFLOWREQF_EXT_PROTO_RSV OR NXFLOWREQF_ASIS) = 0" for w :: u16
    by (simp add: and.assoc)
  moreover have same: "nfr_saddr (nx_flow_req_internalize req) = nfr_saddr req" "nfr_daddr (nx_flow_req_internalize req) = nfr_daddr req"
    "nfr_ip_protocol (nx_flow_req_internalize req) = nfr_ip_protocol req"
    by (simp_all add: nx_flow_req_internalize_def zero_opaque_def Let_def)
  have "flow_req2key has_addr has_port (nx_flow_req_internalize req) key = flow_req2key has_addr has_port req key"
    unfolding flow_req2key_def same by (rule refl)
  ultimately show ?thesis
    by (simp add: nx_flow_req_internalize_def nx_flow_req_externalize_def zero_opaque_def Let_def and.assoc)
qed

subsection \<open>Keys of packets, addresses and buckets\<close>

text \<open>
  The key of a packet that comes in is the key of the same packet going out with the ends exchanged, so that
  both directions of a flow have one key. The mask of a key from a packet is empty: who looks it up sets it.
\<close>
theorem flow_packet_key_directions:
  assumes "flow_pkt2key qflags f True k0 = Some k"
  shows "\<exists>k'. flow_pkt2key qflags f False k0 = Some k' \<and> fk_src k = fk_dst k' \<and> fk_dst k = fk_src k' \<and> fk_sport k = fk_dport k' \<and>
     fk_dport k = fk_sport k' \<and> fk_proto k = fk_proto k' \<and> fk_ipver k = fk_ipver k' \<and> fk_mask k = 0"
proof -
  consider "qflags AND QUM_F_FLOW_CLASSIFIED = 0" | "qflags AND QUM_F_FLOW_CLASSIFIED \<noteq> 0" "flow_ip_ver f = IPVERSION"
    | "qflags AND QUM_F_FLOW_CLASSIFIED \<noteq> 0" "flow_ip_ver f \<noteq> IPVERSION" by blast
  then show ?thesis using assms by cases (auto simp: flow_pkt2key_def FLOW_KEY_CLEAR_def Let_def bind_eq_Some_conv)
qed

text \<open>
  \<open>flow_ip_cmp\<close> is a strict total order on the addresses of either length, the order of the halves from the
  second on for IPv6, and stops the kernel for any other length.
\<close>
theorem flow_ip_cmp_order:
  "(flow_ip_cmp a b alen = None \<longleftrightarrow> alen \<noteq> 4 \<and> alen \<noteq> 16) \<and>
   flow_ip_cmp b a alen = map_option uminus (flow_ip_cmp a b alen) \<and>
   (flow_ip_cmp a b 4 = Some 0 \<longleftrightarrow> v4_of a = v4_of b) \<and> (flow_ip_cmp a b 16 = Some 0 \<longleftrightarrow> a = b) \<and>
   (flow_ip_cmp a b alen = Some (-1) \<longrightarrow> flow_ip_cmp b c alen = Some (-1) \<longrightarrow> flow_ip_cmp a c alen = Some (-1))"
proof (intro conjI)
  show "flow_ip_cmp a b alen = None \<longleftrightarrow> alen \<noteq> 4 \<and> alen \<noteq> 16" by (simp add: flow_ip_cmp_def)
  show "flow_ip_cmp b a alen = map_option uminus (flow_ip_cmp a b alen)" by (auto simp: flow_ip_cmp_def)
  show "flow_ip_cmp a b 4 = Some 0 \<longleftrightarrow> v4_of a = v4_of b" by (auto simp: flow_ip_cmp_def)
  show "flow_ip_cmp a b 16 = Some 0 \<longleftrightarrow> a = b" by (cases a; cases b) (auto simp: flow_ip_cmp_def)
  have v4: "flow_ip_cmp a b 4 = Some (-1) \<longleftrightarrow> v4_of a < v4_of b" for a b by (auto simp: flow_ip_cmp_def)
  have v6: "flow_ip_cmp a b 16 = Some (-1) \<longleftrightarrow> addr64_1 a < addr64_1 b \<or> addr64_1 a = addr64_1 b \<and> addr64_0 a < addr64_0 b" for a b
    by (auto simp: flow_ip_cmp_def)
  consider "alen = 4" | "alen = 16" | "alen \<noteq> 4 \<and> alen \<noteq> 16" by blast
  then show "flow_ip_cmp a b alen = Some (-1) \<longrightarrow> flow_ip_cmp b c alen = Some (-1) \<longrightarrow> flow_ip_cmp a c alen = Some (-1)"
  proof cases
    case 3
    then show ?thesis by (simp add: flow_ip_cmp_def)
  qed (auto simp: v4 v6)
qed

text \<open>The index of a bucket is the index it was found by, as long as the buckets fit the address space.\<close>

theorem flow_bucket_index_round_trip:
  assumes "0 < fm_owner_bucket_sz fm" "unat idx * unat (fm_owner_bucket_sz fm) < 2 ^ 64"
  shows "flow_mgr_get_fob_idx fm (flow_mgr_get_fob_at_idx fm idx) = Some idx"
proof -
  have ui: "unat (ucast idx :: u64) = unat idx" using unat_less_pow [of idx] by (simp add: unsigned_ucast_eq take_bit_nat_eq_self)
  have u: "unat (ucast idx * fm_owner_bucket_sz fm :: u64) = unat idx * unat (fm_owner_bucket_sz fm)"
    using assms(2) by (simp add: unat_word_ariths ui)
  have z: "0 < unat (fm_owner_bucket_sz fm)" using assms(1) by (simp add: word_less_nat_alt)
  have "unat ((ucast idx * fm_owner_bucket_sz fm) div fm_owner_bucket_sz fm) = unat (ucast idx :: u64)"
    using u z by (simp add: unat_div ui)
  then have "(ucast idx * fm_owner_bucket_sz fm) div fm_owner_bucket_sz fm = ucast idx" by (simp add: word_unat_eq_iff)
  moreover have "ucast (ucast idx :: u64) = idx" by (rule bit_word_eqI) (auto simp: bit_simps)
  moreover have "(ucast idx * fm_owner_bucket_sz fm) mod fm_owner_bucket_sz fm = 0"
    using u by (simp add: word_arith_nat_mod)
  ultimately show ?thesis using assms(1)
    by (auto simp: flow_mgr_get_fob_idx_def flow_mgr_get_fob_at_idx_def)
qed

subsection \<open>Instances\<close>

definition mem_of :: "u8 list \<Rightarrow> bytes" where
  "mem_of bs = (\<lambda>a. if unat a < length bs then Some (bs ! unat a) else None)"

lemma in_mem_mem_of:
  assumes "length xs + length ys + length zs < 2 ^ 64"
  shows "in_mem (mem_of (xs @ ys @ zs)) (of_nat (length xs)) ys"
proof -
  have "unat (of_nat (length xs) + of_nat i :: ptr) = length xs + i" if "i < length ys" for i
    using that assms by (simp add: unat_of_nat flip: of_nat_add)
  then show ?thesis by (simp add: in_mem_def mem_of_def nth_append)
qed

definition tcp_key :: flow_key where
  "tcp_key = (FLOW_KEY_CLEAR undefined)\<lparr>fk_mask := 2, fk_proto := 6\<rparr>"

definition udp_key :: flow_key where
  "udp_key = (FLOW_KEY_CLEAR undefined)\<lparr>fk_mask := 2, fk_proto := 17\<rparr>"

lemma tcp_key_mask: "fk_mask tcp_key = 2"
  by (simp add: tcp_key_def)

theorem flow_key_cmp_mask_agrees_witness:
  "\<exists>r. flow_key_cmp_mask sk_memcmp_mask_48B_scalar 0 48 96 (mem_of (key_bytes tcp_key @ key_bytes udp_key @ byte_mask_of 2)) = Some r \<and> r \<noteq> 0"
proof -
  define mm where "mm = mem_of (key_bytes tcp_key @ key_bytes udp_key @ byte_mask_of 2)"
  have m: "in_mem mm 0 (key_bytes tcp_key)" "in_mem mm 48 (key_bytes udp_key)" "in_mem mm 96 (byte_mask_of 2)"
    using in_mem_mem_of [of "[]" "key_bytes tcp_key" "key_bytes udp_key @ byte_mask_of 2"] in_mem_mem_of [of "key_bytes tcp_key" "key_bytes udp_key" "byte_mask_of 2"]
      in_mem_mem_of [of "key_bytes tcp_key @ key_bytes udp_key" "byte_mask_of 2" "[]"]
    by (simp_all add: mm_def key_lengths)
  have "fk_mask tcp_key AND FKMASK_5TUPLE AND NOT (fk_mask udp_key) = 0" by (simp add: tcp_key_def udp_key_def fkmasks)
  moreover have "flow_key_cmp tcp_key udp_key \<noteq> 0" by (simp add: tcp_key_def udp_key_def flow_key_cmp_def FK_CMP_def fkmasks Let_def)
  ultimately show ?thesis
    using flow_key_cmp_mask_agrees [OF scalar48.masked_compare_axioms m key_lengths(2)] tcp_key_mask unfolding mm_def by auto
qed

theorem flow_request_key_witness:
  "let a = \<lparr>sa_family = 2, sin_port = 80, sin_addr = 1, sin6_port = 80, sin6_addr = zero_addr\<rparr>;
       b = \<lparr>sa_family = 2, sin_port = 0, sin_addr = 0, sin6_port = 0, sin6_addr = zero_addr\<rparr>;
       r = flow_req2key (\<lambda>a. sin_addr a \<noteq> 0) (\<lambda>a. sin_port a \<noteq> 0) \<lparr>nfr_saddr = a, nfr_daddr = b, nfr_ip_protocol = 6, nfr_flags = 0, nfr_context = 0, nfr_proc = 0, nfr_ifp = 0, nfr_route = 0, nfr_port_reservation = 0, nfr_proto_reservation = 0,
         nfr_flow_stats = 0, nfr_pid = 0, nfr_saddr_gencnt = 0, nfr_ipsec_reservation = 0, nfr_inp_flowhash = 0\<rparr> tcp_key
   in fst r = 0 \<and> fk_sport (snd r) = 80 \<and> fk_proto (snd r) = 6"
  unfolding Let_def
  using flow_request_key [OF prod.collapse [symmetric], of "\<lambda>a. sin_addr a \<noteq> 0" "\<lambda>a. sin_port a \<noteq> 0"
      "\<lparr>nfr_saddr = \<lparr>sa_family = 2, sin_port = 80, sin_addr = 1, sin6_port = 80, sin6_addr = zero_addr\<rparr>,
        nfr_daddr = \<lparr>sa_family = 2, sin_port = 0, sin_addr = 0, sin6_port = 0, sin6_addr = zero_addr\<rparr>, nfr_ip_protocol = 6, nfr_flags = 0, nfr_context = 0, nfr_proc = 0, nfr_ifp = 0, nfr_route = 0,
        nfr_port_reservation = 0, nfr_proto_reservation = 0, nfr_flow_stats = 0, nfr_pid = 0, nfr_saddr_gencnt = 0, nfr_ipsec_reservation = 0, nfr_inp_flowhash = 0\<rparr>" tcp_key]
  by (simp add: AF_INET_def)

end
