(* ===== verification/OrderedSpec.thy ===== *)
theory OrderedSpec
  imports Prelude
begin

text \<open>
  The contract of the ordered trees of libkern/tree.h. A client sees six operations; the abstract tree
  is the list of its elements, strictly ascending by the comparison function. An implementation
  promises that each operation, on memory that represents such a list, returns what the list says and
  represents the list it should. From that, every sequence of calls that respects the contract, and
  every loop from the least element by successors, gives the client what the list does.
\<close>

subsection \<open>The order\<close>

text \<open>A comparison function is a total preorder; the results are only compared with zero.\<close>

definition cmp_ok :: "(ptr \<Rightarrow> ptr \<Rightarrow> int) \<Rightarrow> bool" where
  "cmp_ok cmp \<longleftrightarrow> (\<forall>x. cmp x x = 0) \<and> (\<forall>x y. cmp x y < 0 \<longleftrightarrow> cmp y x > 0) \<and>
     (\<forall>x y z. cmp x y \<le> 0 \<longrightarrow> cmp y z \<le> 0 \<longrightarrow> cmp x z \<le> 0)"

definition ascending :: "(ptr \<Rightarrow> ptr \<Rightarrow> int) \<Rightarrow> ptr list \<Rightarrow> bool" where
  "ascending cmp xs \<longleftrightarrow> sorted_wrt (\<lambda>x y. cmp x y < 0) xs"

lemma cmp_flip: "cmp_ok cmp \<Longrightarrow> cmp x y < 0 \<longleftrightarrow> 0 < cmp y x" "cmp_ok cmp \<Longrightarrow> cmp x y \<le> 0 \<longleftrightarrow> 0 \<le> cmp y x"
    "cmp_ok cmp \<Longrightarrow> cmp x y = 0 \<longleftrightarrow> cmp y x = 0"
  unfolding cmp_ok_def by (metis linorder_not_less, metis linorder_not_less, metis less_irrefl linorder_cases)

lemma cmp_refl: "cmp_ok cmp \<Longrightarrow> cmp x x = 0"
  by (simp add: cmp_ok_def)

lemma cmp_trans: "cmp_ok cmp \<Longrightarrow> cmp x y \<le> 0 \<Longrightarrow> cmp y z \<le> 0 \<Longrightarrow> cmp x z \<le> 0"
  unfolding cmp_ok_def by blast

lemma cmp_less_trans:
  assumes "cmp_ok cmp"
  shows "cmp x y < 0 \<Longrightarrow> cmp y z \<le> 0 \<Longrightarrow> cmp x z < 0" "cmp x y \<le> 0 \<Longrightarrow> cmp y z < 0 \<Longrightarrow> cmp x z < 0"
proof -
  show "cmp x z < 0" if "cmp x y < 0" "cmp y z \<le> 0"
  proof (rule ccontr)
    assume "\<not> cmp x z < 0"
    then have "cmp z x \<le> 0" using cmp_flip(2) [OF assms, of z x] by simp
    then have "cmp y x \<le> 0" using cmp_trans [OF assms that(2)] by blast
    then show False using that(1) cmp_flip(1) [OF assms, of x y] by simp
  qed
  show "cmp x z < 0" if "cmp x y \<le> 0" "cmp y z < 0"
  proof (rule ccontr)
    assume "\<not> cmp x z < 0"
    then have "cmp z x \<le> 0" using cmp_flip(2) [OF assms, of z x] by simp
    then have "cmp z y \<le> 0" using cmp_trans [OF assms _ that(1)] by blast
    then show False using that(2) cmp_flip(1) [OF assms, of y z] by simp
  qed
qed

text \<open>A comparison by address, the order of the instances of the claims.\<close>

definition addr_cmp :: "ptr \<Rightarrow> ptr \<Rightarrow> int" where
  "addr_cmp x y = (if x < y then -1 else if y < x then 1 else 0)"

lemma addr_cmp_ok: "cmp_ok addr_cmp"
  by (auto simp: cmp_ok_def addr_cmp_def)

lemma ascending_distinct: "cmp_ok cmp \<Longrightarrow> ascending cmp xs \<Longrightarrow> distinct xs"
  by (induction xs) (auto simp: ascending_def cmp_refl dest!: bspec)

text \<open>Elements that compare equal to the same key are the same element of the tree.\<close>

lemma ascending_unique:
  assumes "cmp_ok cmp" "ascending cmp xs" "x \<in> set xs" "y \<in> set xs" "cmp e x = 0" "cmp e y = 0"
  shows "x = y"
proof (rule ccontr)
  assume "x \<noteq> y"
  then have "cmp x y < 0 \<or> cmp y x < 0" using assms(2-4) by (induction xs) (auto simp: ascending_def)
  moreover have "cmp x y \<le> 0" "cmp y x \<le> 0"
    using cmp_trans [OF assms(1), of x e y] cmp_trans [OF assms(1), of y e x] assms(5,6) cmp_flip(3) [OF assms(1), of e x] cmp_flip(3) [OF assms(1), of e y]
    by auto
  ultimately show False using cmp_flip(1) [OF assms(1), of x y] cmp_flip(1) [OF assms(1), of y x] by auto
qed

subsection \<open>The abstract tree\<close>

definition ord_find :: "(ptr \<Rightarrow> ptr \<Rightarrow> int) \<Rightarrow> ptr \<Rightarrow> ptr list \<Rightarrow> ptr" where
  "ord_find cmp e xs = (case find (\<lambda>x. cmp e x = 0) xs of None \<Rightarrow> NULL | Some x \<Rightarrow> x)"

definition ord_insert :: "(ptr \<Rightarrow> ptr \<Rightarrow> int) \<Rightarrow> ptr \<Rightarrow> ptr list \<Rightarrow> ptr list" where
  "ord_insert cmp e xs = (if \<exists>x \<in> set xs. cmp e x = 0 then xs
     else filter (\<lambda>x. 0 < cmp e x) xs @ e # filter (\<lambda>x. cmp e x < 0) xs)"

definition ord_first :: "ptr list \<Rightarrow> ptr" where
  "ord_first xs = (case xs of [] \<Rightarrow> NULL | x # _ \<Rightarrow> x)"

definition ord_last :: "ptr list \<Rightarrow> ptr" where
  "ord_last xs = (if xs = [] then NULL else last xs)"

definition ord_next :: "ptr \<Rightarrow> ptr list \<Rightarrow> ptr" where
  "ord_next e xs = ord_first (tl (dropWhile (\<lambda>x. x \<noteq> e) xs))"

lemma ord_first_simps [simp]: "ord_first [] = NULL" "ord_first (x # xs) = x"
  by (simp_all add: ord_first_def)

lemma ord_next_append: "e \<notin> set xs \<Longrightarrow> ord_next e (xs @ e # ys) = ord_first ys"
  by (induction xs) (auto simp: ord_next_def)

text \<open>The operations on a list that is split around a key.\<close>

lemma ord_find_split:
  "\<forall>x \<in> set ls. 0 < cmp e x \<Longrightarrow> \<forall>x \<in> set rs. cmp e x < 0 \<Longrightarrow>
     ord_find cmp e (ls @ a # rs) = (if cmp e a = 0 then a else NULL)"
proof (induction ls)
  case Nil
  then have "find (\<lambda>x. cmp e x = 0) rs = None" by (auto simp: find_None_iff)
  then show ?case by (simp add: ord_find_def)
qed (auto simp: ord_find_def)

lemma ord_insert_split:
  assumes "\<forall>x \<in> set ls. 0 < cmp e x" "\<forall>x \<in> set rs. cmp e x < 0"
  shows "ord_insert cmp e (ls @ a # rs) = (if cmp e a < 0 then ls @ e # a # rs else if cmp e a > 0 then ls @ a # e # rs else ls @ a # rs)"
proof -
  have "filter (\<lambda>x. 0 < cmp e x) ls = ls" "filter (\<lambda>x. cmp e x < 0) rs = rs" using assms by (simp_all add: filter_id_conv)
  moreover have "filter (\<lambda>x. 0 < cmp e x) rs = []" "filter (\<lambda>x. cmp e x < 0) ls = []" using assms by (auto simp: filter_empty_conv not_less)
  ultimately show ?thesis using assms by (auto simp: ord_insert_def)
qed

lemma ascending_ord_insert:
  assumes "cmp_ok cmp" "ascending cmp xs"
  shows "ascending cmp (ord_insert cmp e xs)"
proof (cases "\<exists>x \<in> set xs. cmp e x = 0")
  case False
  have "cmp x y < 0" if "0 < cmp e x" "cmp e y < 0" for x y
    using that cmp_less_trans(1) [OF assms(1), of x e y] cmp_flip(1) [OF assms(1), of x e] by simp
  then show ?thesis
    using assms False cmp_flip(1) [OF assms(1), of _ e]
    by (auto simp: ord_insert_def ascending_def sorted_wrt_append intro: sorted_wrt_filter)
qed (use assms in \<open>simp add: ord_insert_def\<close>)

datatype tree_op = Find_op ptr | Insert_op ptr | Remove_op ptr | Min_op | Max_op | Next_op ptr

text \<open>\<open>None\<close> is a call outside the contract: an element is not inserted twice, and only elements are removed.\<close>

fun ord_step :: "(ptr \<Rightarrow> ptr \<Rightarrow> int) \<Rightarrow> tree_op \<Rightarrow> ptr list \<Rightarrow> (ptr \<times> ptr list) option" where
  "ord_step cmp (Find_op e) xs = Some (ord_find cmp e xs, xs)"
| "ord_step cmp (Insert_op e) xs = (if e = NULL \<or> e \<in> set xs then None else Some (ord_find cmp e xs, ord_insert cmp e xs))"
| "ord_step cmp (Remove_op e) xs = (if e \<in> set xs then Some (e, remove1 e xs) else None)"
| "ord_step cmp Min_op xs = Some (ord_first xs, xs)"
| "ord_step cmp Max_op xs = Some (ord_last xs, xs)"
| "ord_step cmp (Next_op e) xs = (if e \<in> set xs then Some (ord_next e xs, xs) else None)"

fun ord_run :: "(ptr \<Rightarrow> ptr \<Rightarrow> int) \<Rightarrow> tree_op list \<Rightarrow> ptr list \<Rightarrow> (ptr list \<times> ptr list) option" where
  "ord_run cmp [] xs = Some ([], xs)"
| "ord_run cmp (c # cs) xs = do {
     (r, xs) \<leftarrow> ord_step cmp c xs;
     (rs, xs) \<leftarrow> ord_run cmp cs xs;
     Some (r # rs, xs) }"

fun op_elm :: "tree_op \<Rightarrow> ptr set" where
  "op_elm (Find_op e) = {e}"
| "op_elm (Insert_op e) = {e}"
| "op_elm _ = {}"

subsection \<open>Implementations\<close>

record 's tree_ops =
  t_find :: "ptr \<Rightarrow> 's \<Rightarrow> (ptr \<times> 's) option"
  t_insert :: "ptr \<Rightarrow> 's \<Rightarrow> (ptr \<times> 's) option"
  t_remove :: "ptr \<Rightarrow> 's \<Rightarrow> (ptr \<times> 's) option"
  t_min :: "'s \<Rightarrow> (ptr \<times> 's) option"
  t_max :: "'s \<Rightarrow> (ptr \<times> 's) option"
  t_next :: "ptr \<Rightarrow> 's \<Rightarrow> (ptr \<times> 's) option"

fun tree_step :: "'s tree_ops \<Rightarrow> tree_op \<Rightarrow> 's \<Rightarrow> (ptr \<times> 's) option" where
  "tree_step T (Find_op e) s = t_find T e s"
| "tree_step T (Insert_op e) s = t_insert T e s"
| "tree_step T (Remove_op e) s = t_remove T e s"
| "tree_step T Min_op s = t_min T s"
| "tree_step T Max_op s = t_max T s"
| "tree_step T (Next_op e) s = t_next T e s"

fun tree_run :: "'s tree_ops \<Rightarrow> tree_op list \<Rightarrow> 's \<Rightarrow> (ptr list \<times> 's) option" where
  "tree_run T [] s = Some ([], s)"
| "tree_run T (c # cs) s = do {
     (r, s) \<leftarrow> tree_step T c s;
     (rs, s) \<leftarrow> tree_run T cs s;
     Some (r # rs, s) }"

text \<open>\<open>inv s xs\<close>: the state represents the elements \<open>xs\<close>; \<open>mem s\<close>: the elements there is memory for.\<close>

locale search_tree =
  fixes cmp :: "ptr \<Rightarrow> ptr \<Rightarrow> int" and T :: "'s tree_ops" and inv :: "'s \<Rightarrow> ptr list \<Rightarrow> bool" and mem :: "'s \<Rightarrow> ptr set"
  assumes order: "inv s xs \<Longrightarrow> cmp_ok cmp \<and> ascending cmp xs \<and> NULL \<notin> set xs \<and> set xs \<subseteq> mem s"
    and find_law: "inv s xs \<Longrightarrow> e \<in> mem s \<Longrightarrow> \<exists>s'. t_find T e s = Some (ord_find cmp e xs, s') \<and> inv s' xs \<and> mem s' = mem s"
    and insert_law: "inv s xs \<Longrightarrow> e \<in> mem s \<Longrightarrow> e \<noteq> NULL \<Longrightarrow> e \<notin> set xs \<Longrightarrow>
      \<exists>s'. t_insert T e s = Some (ord_find cmp e xs, s') \<and> inv s' (ord_insert cmp e xs) \<and> mem s' = mem s"
    and remove_law: "inv s xs \<Longrightarrow> e \<in> set xs \<Longrightarrow> \<exists>s'. t_remove T e s = Some (e, s') \<and> inv s' (remove1 e xs) \<and> mem s' = mem s"
    and min_law: "inv s xs \<Longrightarrow> \<exists>s'. t_min T s = Some (ord_first xs, s') \<and> inv s' xs \<and> mem s' = mem s"
    and max_law: "inv s xs \<Longrightarrow> \<exists>s'. t_max T s = Some (ord_last xs, s') \<and> inv s' xs \<and> mem s' = mem s"
    and next_law: "inv s xs \<Longrightarrow> e \<in> set xs \<Longrightarrow> \<exists>s'. t_next T e s = Some (ord_next e xs, s') \<and> inv s' xs \<and> mem s' = mem s"
begin

lemma step_refines:
  assumes "inv s xs" "ord_step cmp c xs = Some (r, xs')" "op_elm c \<subseteq> mem s"
  shows "\<exists>s'. tree_step T c s = Some (r, s') \<and> inv s' xs' \<and> mem s' = mem s"
  using assms find_law insert_law remove_law min_law max_law next_law
  by (cases c) (auto split: if_splits)

lemma run_refines:
  "inv s xs \<Longrightarrow> ord_run cmp cs xs = Some (rs, xs') \<Longrightarrow> (\<Union>c \<in> set cs. op_elm c) \<subseteq> mem s \<Longrightarrow>
     \<exists>s'. tree_run T cs s = Some (rs, s') \<and> inv s' xs' \<and> mem s' = mem s"
proof (induction cs arbitrary: s xs rs)
  case (Cons c cs)
  obtain r xs1 rs1 where st: "ord_step cmp c xs = Some (r, xs1)" "ord_run cmp cs xs1 = Some (rs1, xs')" "rs = r # rs1"
    using Cons.prems(2) by (auto simp: bind_eq_Some_conv)
  obtain s1 where s1: "tree_step T c s = Some (r, s1)" "inv s1 xs1" "mem s1 = mem s"
    using step_refines [OF Cons.prems(1) st(1)] Cons.prems(3) by auto
  then show ?case using Cons.IH [OF s1(2) st(2)] Cons.prems(3) st(3) by auto
qed auto

text \<open>A loop that goes from an element to the next until there is none visits the elements in order.\<close>

lemma loop_visits:
  assumes loop: "\<And>x u s. loop x u s = (if x \<noteq> NULL then t_next T x s \<bind> (\<lambda>(y, s). loop y (body x u) s) else Some (u, s))"
    and "inv s (ws @ ys)"
  shows "\<exists>s'. loop (ord_first ys) u s = Some (fold body ys u, s') \<and> inv s' (ws @ ys) \<and> mem s' = mem s"
  using assms(2)
proof (induction ys arbitrary: ws u s)
  case Nil
  then show ?case by (auto simp: loop [of NULL])
next
  case (Cons y ys)
  have y: "y \<noteq> NULL" "y \<notin> set ws" using order [OF Cons.prems] ascending_distinct [of cmp "ws @ y # ys"] by auto
  obtain s1 where s1: "t_next T y s = Some (ord_first ys, s1)" "inv s1 (ws @ y # ys)" "mem s1 = mem s"
    using next_law [OF Cons.prems, of y] ord_next_append [OF y(2)] by auto
  then show ?case using Cons.IH [of s1 "ws @ [y]" "body y u"] y(1) by (auto simp: loop [of y])
qed

lemma foreach_visits:
  assumes "\<And>x u s. loop x u s = (if x \<noteq> NULL then t_next T x s \<bind> (\<lambda>(y, s). loop y (body x u) s) else Some (u, s))"
    and "inv s xs"
  shows "\<exists>s'. (t_min T s \<bind> (\<lambda>(x, s). loop x u s)) = Some (fold body xs u, s') \<and> inv s' xs \<and> mem s' = mem s"
proof -
  obtain s1 where s1: "t_min T s = Some (ord_first xs, s1)" "inv s1 xs" "mem s1 = mem s" using min_law [OF assms(2)] by blast
  then show ?thesis using loop_visits [OF assms(1), of s1 "[]" xs u] by auto
qed

end

end
