(* ===== verification/SplayTree.thy ===== *)
theory SplayTree
  imports OrderedSpec "HOL-Library.Tree"
begin

text \<open>
  libkern/tree.h, the splay tree macros. A generated tree is a head (\<open>sph_root\<close>) and the linkages of the
  elements, keyed by the address of the element; an access to an element that is not there is a
  fault (\<open>None\<close>). The comparison function is the parameter \<open>cmp\<close>; it reads both its elements. The
  local element \<open>__node\<close> of a splay exists at the address \<open>nd\<close> while the splay runs.
\<close>

record splay_entry =
  spe_left :: ptr
  spe_right :: ptr

type_synonym splay_heap = "ptr \<rightharpoonup> splay_entry"

record splay_head =
  sph_root :: ptr
  sp_nodes :: splay_heap

subsection \<open>The macros\<close>

definition SPLAY_INIT :: "splay_head \<Rightarrow> splay_head" where
  "SPLAY_INIT s = s\<lparr>sph_root := NULL\<rparr>"

definition SPLAY_LEFT :: "ptr \<Rightarrow> splay_head \<Rightarrow> ptr option" where
  "SPLAY_LEFT elm s = map_option spe_left (sp_nodes s elm)"

definition SPLAY_RIGHT :: "ptr \<Rightarrow> splay_head \<Rightarrow> ptr option" where
  "SPLAY_RIGHT elm s = map_option spe_right (sp_nodes s elm)"

definition SPLAY_ROOT :: "splay_head \<Rightarrow> ptr" where
  "SPLAY_ROOT s = sph_root s"

definition SPLAY_EMPTY :: "splay_head \<Rightarrow> bool" where
  "SPLAY_EMPTY s \<longleftrightarrow> SPLAY_ROOT s = NULL"

text \<open>Assignments to \<open>SPLAY_LEFT(elm)\<close> and \<open>SPLAY_RIGHT(elm)\<close>, and a call of the comparison function.\<close>

definition set_left :: "ptr \<Rightarrow> ptr \<Rightarrow> splay_head \<Rightarrow> splay_head option" where
  "set_left elm v s = map_option (\<lambda>e. s\<lparr>sp_nodes := (sp_nodes s)(elm \<mapsto> e\<lparr>spe_left := v\<rparr>)\<rparr>) (sp_nodes s elm)"

definition set_right :: "ptr \<Rightarrow> ptr \<Rightarrow> splay_head \<Rightarrow> splay_head option" where
  "set_right elm v s = map_option (\<lambda>e. s\<lparr>sp_nodes := (sp_nodes s)(elm \<mapsto> e\<lparr>spe_right := v\<rparr>)\<rparr>) (sp_nodes s elm)"

definition call_cmp :: "(ptr \<Rightarrow> ptr \<Rightarrow> int) \<Rightarrow> ptr \<Rightarrow> ptr \<Rightarrow> splay_head \<Rightarrow> int option" where
  "call_cmp cmp a b s = (if sp_nodes s a \<noteq> None \<and> sp_nodes s b \<noteq> None then Some (cmp a b) else None)"

definition SPLAY_ROTATE_RIGHT :: "ptr \<Rightarrow> splay_head \<Rightarrow> splay_head option" where
  "SPLAY_ROTATE_RIGHT tmp s = do {
     r \<leftarrow> SPLAY_RIGHT tmp s;
     s \<leftarrow> set_left (sph_root s) r s;
     s \<leftarrow> set_right tmp (sph_root s) s;
     Some (s\<lparr>sph_root := tmp\<rparr>) }"

definition SPLAY_ROTATE_LEFT :: "ptr \<Rightarrow> splay_head \<Rightarrow> splay_head option" where
  "SPLAY_ROTATE_LEFT tmp s = do {
     l \<leftarrow> SPLAY_LEFT tmp s;
     s \<leftarrow> set_right (sph_root s) l s;
     s \<leftarrow> set_left tmp (sph_root s) s;
     Some (s\<lparr>sph_root := tmp\<rparr>) }"

text \<open>The link macros also change the variable \<open>tmp\<close>: its new value comes first.\<close>

definition SPLAY_LINKLEFT :: "ptr \<Rightarrow> splay_head \<Rightarrow> (ptr \<times> splay_head) option" where
  "SPLAY_LINKLEFT tmp s = do {
     s \<leftarrow> set_left tmp (sph_root s) s;
     let tmp = sph_root s;
     l \<leftarrow> SPLAY_LEFT (sph_root s) s;
     Some (tmp, s\<lparr>sph_root := l\<rparr>) }"

definition SPLAY_LINKRIGHT :: "ptr \<Rightarrow> splay_head \<Rightarrow> (ptr \<times> splay_head) option" where
  "SPLAY_LINKRIGHT tmp s = do {
     s \<leftarrow> set_right tmp (sph_root s) s;
     let tmp = sph_root s;
     r \<leftarrow> SPLAY_RIGHT (sph_root s) s;
     Some (tmp, s\<lparr>sph_root := r\<rparr>) }"

definition SPLAY_ASSEMBLE :: "ptr \<Rightarrow> ptr \<Rightarrow> ptr \<Rightarrow> splay_head \<Rightarrow> splay_head option" where
  "SPLAY_ASSEMBLE node lft rgt s = do {
     l \<leftarrow> SPLAY_LEFT (sph_root s) s;
     s \<leftarrow> set_right lft l s;
     r \<leftarrow> SPLAY_RIGHT (sph_root s) s;
     s \<leftarrow> set_left rgt r s;
     r \<leftarrow> SPLAY_RIGHT node s;
     s \<leftarrow> set_left (sph_root s) r s;
     l \<leftarrow> SPLAY_LEFT node s;
     set_right (sph_root s) l s }"

text \<open>
  The loop of \<open>name_SPLAY\<close>; its result is the values of \<open>__left\<close> and \<open>__right\<close> and the tree. Where both
  branches of an \<open>if\<close> go on to link, the model goes on after the rotation.
\<close>

partial_function (option) splay_loop ::
  "(ptr \<Rightarrow> ptr \<Rightarrow> int) \<Rightarrow> ptr \<Rightarrow> ptr \<Rightarrow> ptr \<Rightarrow> splay_head \<Rightarrow> (ptr \<times> ptr \<times> splay_head) option" where
  "splay_loop cmp elm lft rgt s = do {
     cv \<leftarrow> call_cmp cmp elm (sph_root s) s;
     if cv < 0 then do {
       tmp \<leftarrow> SPLAY_LEFT (sph_root s) s;
       if tmp = NULL then Some (lft, rgt, s)
       else do {
         c \<leftarrow> call_cmp cmp elm tmp s;
         s \<leftarrow> (if c < 0 then SPLAY_ROTATE_RIGHT tmp s else Some s);
         l \<leftarrow> SPLAY_LEFT (sph_root s) s;
         if c < 0 \<and> l = NULL then Some (lft, rgt, s)
         else do {
           (rgt, s) \<leftarrow> SPLAY_LINKLEFT rgt s;
           splay_loop cmp elm lft rgt s } } }
     else if cv > 0 then do {
       tmp \<leftarrow> SPLAY_RIGHT (sph_root s) s;
       if tmp = NULL then Some (lft, rgt, s)
       else do {
         c \<leftarrow> call_cmp cmp elm tmp s;
         s \<leftarrow> (if c > 0 then SPLAY_ROTATE_LEFT tmp s else Some s);
         r \<leftarrow> SPLAY_RIGHT (sph_root s) s;
         if c > 0 \<and> r = NULL then Some (lft, rgt, s)
         else do {
           (lft, s) \<leftarrow> SPLAY_LINKRIGHT lft s;
           splay_loop cmp elm lft rgt s } } }
     else Some (lft, rgt, s) }"

text \<open>The local element comes into being with both links \<open>NULL\<close> and ends with the call.\<close>

definition new_node :: "ptr \<Rightarrow> splay_head \<Rightarrow> splay_head" where
  "new_node nd s = s\<lparr>sp_nodes := (sp_nodes s)(nd \<mapsto> \<lparr>spe_left = NULL, spe_right = NULL\<rparr>)\<rparr>"

definition end_node :: "ptr \<Rightarrow> splay_head \<Rightarrow> splay_head" where
  "end_node nd s = s\<lparr>sp_nodes := (sp_nodes s)(nd := None)\<rparr>"

definition name_SPLAY :: "(ptr \<Rightarrow> ptr \<Rightarrow> int) \<Rightarrow> ptr \<Rightarrow> ptr \<Rightarrow> splay_head \<Rightarrow> splay_head option" where
  "name_SPLAY cmp nd elm s = do {
     (lft, rgt, s) \<leftarrow> splay_loop cmp elm nd nd (new_node nd s);
     s \<leftarrow> SPLAY_ASSEMBLE nd lft rgt s;
     Some (end_node nd s) }"

partial_function (option) splay_minmax_loop ::
  "int \<Rightarrow> ptr \<Rightarrow> ptr \<Rightarrow> splay_head \<Rightarrow> (ptr \<times> ptr \<times> splay_head) option" where
  "splay_minmax_loop cv lft rgt s =
     (if cv < 0 then do {
        tmp \<leftarrow> SPLAY_LEFT (sph_root s) s;
        if tmp = NULL then Some (lft, rgt, s)
        else do {
          s \<leftarrow> SPLAY_ROTATE_RIGHT tmp s;
          l \<leftarrow> SPLAY_LEFT (sph_root s) s;
          if l = NULL then Some (lft, rgt, s)
          else do {
            (rgt, s) \<leftarrow> SPLAY_LINKLEFT rgt s;
            splay_minmax_loop cv lft rgt s } } }
      else if cv > 0 then do {
        tmp \<leftarrow> SPLAY_RIGHT (sph_root s) s;
        if tmp = NULL then Some (lft, rgt, s)
        else do {
          s \<leftarrow> SPLAY_ROTATE_LEFT tmp s;
          r \<leftarrow> SPLAY_RIGHT (sph_root s) s;
          if r = NULL then Some (lft, rgt, s)
          else do {
            (lft, s) \<leftarrow> SPLAY_LINKRIGHT lft s;
            splay_minmax_loop cv lft rgt s } } }
      else splay_minmax_loop cv lft rgt s)"

definition name_SPLAY_MINMAX :: "ptr \<Rightarrow> int \<Rightarrow> splay_head \<Rightarrow> splay_head option" where
  "name_SPLAY_MINMAX nd cv s = do {
     (lft, rgt, s) \<leftarrow> splay_minmax_loop cv nd nd (new_node nd s);
     s \<leftarrow> SPLAY_ASSEMBLE nd lft rgt s;
     Some (end_node nd s) }"

definition name_SPLAY_FIND :: "(ptr \<Rightarrow> ptr \<Rightarrow> int) \<Rightarrow> ptr \<Rightarrow> ptr \<Rightarrow> splay_head \<Rightarrow> (ptr \<times> splay_head) option" where
  "name_SPLAY_FIND cmp nd elm s =
     (if SPLAY_EMPTY s then Some (NULL, s)
      else do {
        s \<leftarrow> name_SPLAY cmp nd elm s;
        c \<leftarrow> call_cmp cmp elm (sph_root s) s;
        Some (if c = 0 then sph_root s else NULL, s) })"

partial_function (option) splay_leftmost :: "ptr \<Rightarrow> splay_head \<Rightarrow> ptr option" where
  "splay_leftmost elm s = do {
     l \<leftarrow> SPLAY_LEFT elm s;
     if l \<noteq> NULL then splay_leftmost l s else Some elm }"

definition name_SPLAY_NEXT :: "(ptr \<Rightarrow> ptr \<Rightarrow> int) \<Rightarrow> ptr \<Rightarrow> ptr \<Rightarrow> splay_head \<Rightarrow> (ptr \<times> splay_head) option" where
  "name_SPLAY_NEXT cmp nd elm s = do {
     s \<leftarrow> name_SPLAY cmp nd elm s;
     r \<leftarrow> SPLAY_RIGHT elm s;
     x \<leftarrow> (if r \<noteq> NULL then splay_leftmost r s else Some NULL);
     Some (x, s) }"

definition name_SPLAY_MIN_MAX :: "ptr \<Rightarrow> int \<Rightarrow> splay_head \<Rightarrow> (ptr \<times> splay_head) option" where
  "name_SPLAY_MIN_MAX nd val s = do {
     s \<leftarrow> name_SPLAY_MINMAX nd val s;
     Some (SPLAY_ROOT s, s) }"

definition name_SPLAY_INSERT :: "(ptr \<Rightarrow> ptr \<Rightarrow> int) \<Rightarrow> ptr \<Rightarrow> ptr \<Rightarrow> splay_head \<Rightarrow> (ptr \<times> splay_head) option" where
  "name_SPLAY_INSERT cmp nd elm s =
     (if SPLAY_EMPTY s then do {
        s \<leftarrow> set_right elm NULL s;
        s \<leftarrow> set_left elm NULL s;
        Some (NULL, s\<lparr>sph_root := elm\<rparr>) }
      else do {
        s \<leftarrow> name_SPLAY cmp nd elm s;
        cv \<leftarrow> call_cmp cmp elm (sph_root s) s;
        if cv < 0 then do {
          l \<leftarrow> SPLAY_LEFT (sph_root s) s;
          s \<leftarrow> set_left elm l s;
          s \<leftarrow> set_right elm (sph_root s) s;
          s \<leftarrow> set_left (sph_root s) NULL s;
          Some (NULL, s\<lparr>sph_root := elm\<rparr>) }
        else if cv > 0 then do {
          r \<leftarrow> SPLAY_RIGHT (sph_root s) s;
          s \<leftarrow> set_right elm r s;
          s \<leftarrow> set_left elm (sph_root s) s;
          s \<leftarrow> set_right (sph_root s) NULL s;
          Some (NULL, s\<lparr>sph_root := elm\<rparr>) }
        else Some (sph_root s, s) })"

definition name_SPLAY_REMOVE :: "(ptr \<Rightarrow> ptr \<Rightarrow> int) \<Rightarrow> ptr \<Rightarrow> ptr \<Rightarrow> splay_head \<Rightarrow> (ptr \<times> splay_head) option" where
  "name_SPLAY_REMOVE cmp nd elm s =
     (if SPLAY_EMPTY s then Some (NULL, s)
      else do {
        s \<leftarrow> name_SPLAY cmp nd elm s;
        c \<leftarrow> call_cmp cmp elm (sph_root s) s;
        if c = 0 then do {
          l \<leftarrow> SPLAY_LEFT (sph_root s) s;
          s \<leftarrow> (if l = NULL then do {
              r \<leftarrow> SPLAY_RIGHT (sph_root s) s;
              Some (s\<lparr>sph_root := r\<rparr>) }
            else do {
              tmp \<leftarrow> SPLAY_RIGHT (sph_root s) s;
              l \<leftarrow> SPLAY_LEFT (sph_root s) s;
              s \<leftarrow> name_SPLAY cmp nd elm (s\<lparr>sph_root := l\<rparr>);
              set_right (sph_root s) tmp s });
          Some (elm, s) }
        else Some (NULL, s) })"

definition SPLAY_NEGINF :: int where "SPLAY_NEGINF = -1"
definition SPLAY_INF :: int where "SPLAY_INF = 1"

definition SPLAY_MIN :: "ptr \<Rightarrow> splay_head \<Rightarrow> (ptr \<times> splay_head) option" where
  "SPLAY_MIN nd s = (if SPLAY_EMPTY s then Some (NULL, s) else name_SPLAY_MIN_MAX nd SPLAY_NEGINF s)"

definition SPLAY_MAX :: "ptr \<Rightarrow> splay_head \<Rightarrow> (ptr \<times> splay_head) option" where
  "SPLAY_MAX nd s = (if SPLAY_EMPTY s then Some (NULL, s) else name_SPLAY_MIN_MAX nd SPLAY_INF s)"

text \<open>The body of a loop changes a state of its own and leaves the tree alone.\<close>

partial_function (option) splay_foreach_loop ::
  "(ptr \<Rightarrow> 's \<Rightarrow> 's) \<Rightarrow> (ptr \<Rightarrow> ptr \<Rightarrow> int) \<Rightarrow> ptr \<Rightarrow> ptr \<Rightarrow> 's \<Rightarrow> splay_head \<Rightarrow> ('s \<times> splay_head) option" where
  "splay_foreach_loop body cmp nd x u s =
     (if x \<noteq> NULL then do {
        let u = body x u;
        (x, s) \<leftarrow> name_SPLAY_NEXT cmp nd x s;
        splay_foreach_loop body cmp nd x u s }
      else Some (u, s))"

definition SPLAY_FOREACH ::
  "(ptr \<Rightarrow> 's \<Rightarrow> 's) \<Rightarrow> (ptr \<Rightarrow> ptr \<Rightarrow> int) \<Rightarrow> ptr \<Rightarrow> 's \<Rightarrow> splay_head \<Rightarrow> ('s \<times> splay_head) option" where
  "SPLAY_FOREACH body cmp nd u s = do {
     (x, s) \<leftarrow> SPLAY_MIN nd s;
     splay_foreach_loop body cmp nd x u s }"

lemmas splay_acc = SPLAY_LEFT_def SPLAY_RIGHT_def set_left_def set_right_def

end
