(* ===== verification/SplayLaws.thy ===== *)
theory SplayLaws
  imports SplayTree
begin

section \<open>Laws of the splay trees\<close>

text \<open>
  Correctness of the top-down splay trees of \<^verbatim>\<open>libkern/tree.h\<close>. A tree in memory is described by a tree
  of addresses (\<open>is_tree\<close>), the two chains that a splay builds below its local element by spines. The
  loop of the splay is shown to follow a splay on those trees (\<open>asplay\<close>), turn by turn, with a memory
  frame; from it come the operations, the interpretation of the ordered interface, and the claims.
\<close>


subsection \<open>Trees in memory\<close>

fun is_tree :: "splay_heap \<Rightarrow> ptr \<Rightarrow> ptr tree \<Rightarrow> bool" where
  "is_tree H p Leaf \<longleftrightarrow> p = NULL"
| "is_tree H p (Node l a r) \<longleftrightarrow> p = a \<and> a \<noteq> NULL \<and>
     (case H a of None \<Rightarrow> False | Some e \<Rightarrow> is_tree H (spe_left e) l \<and> is_tree H (spe_right e) r)"

lemma is_tree_cong: "(\<And>x. x \<in> set_tree t \<Longrightarrow> H x = H' x) \<Longrightarrow> is_tree H p t = is_tree H' p t"
  by (induction t arbitrary: p) (auto split: option.splits)

lemma is_tree_upd [simp]: "a \<notin> set_tree t \<Longrightarrow> is_tree (H(a := v)) p t = is_tree H p t"
  by (rule is_tree_cong) auto

lemma is_tree_dom: "is_tree H p t \<Longrightarrow> set_tree t \<subseteq> dom H"
  by (induction t arbitrary: p) (fastforce split: option.splits)+

lemma is_tree_NULL: "is_tree H p t \<Longrightarrow> NULL \<notin> set_tree t"
  by (induction t arbitrary: p) (auto split: option.splits)

lemma is_tree_Leaf_iff: "is_tree H p t \<Longrightarrow> p = NULL \<longleftrightarrow> t = Leaf"
  by (cases t) auto

lemma is_tree_NodeD:
  assumes "is_tree H p (Node l a r)"
  obtains e where "p = a" "a \<noteq> NULL" "H a = Some e" "is_tree H (spe_left e) l" "is_tree H (spe_right e) r"
  using assms by (auto split: option.splits)

text \<open>
  While a splay runs, the elements smaller than the key hang on a path of right links from the local
  element, the greater ones on a path of left links. \<open>spine nx sb H x zs y\<close>: from \<open>x\<close> the links \<open>nx\<close> lead through
  the elements of \<open>zs\<close> to the last one \<open>y\<close>, each with its subtree on the side \<open>sb\<close>. The link of \<open>y\<close> is open.
\<close>

type_synonym spine_list = "(ptr \<times> ptr tree) list"

fun spine :: "(splay_entry \<Rightarrow> ptr) \<Rightarrow> (splay_entry \<Rightarrow> ptr) \<Rightarrow> splay_heap \<Rightarrow> ptr \<Rightarrow> spine_list \<Rightarrow> ptr \<Rightarrow> bool" where
  "spine nx sb H x [] y \<longleftrightarrow> x = y"
| "spine nx sb H x ((a, t) # zs) y \<longleftrightarrow> map_option nx (H x) = Some a \<and> a \<noteq> NULL \<and>
     (case H a of None \<Rightarrow> False | Some e \<Rightarrow> is_tree H (sb e) t) \<and> spine nx sb H a zs y"

lemma spine_ConsE:
  assumes "spine nx sb H x ((a, t) # zs) y"
  obtains e f where "H x = Some e" "nx e = a" "a \<noteq> NULL" "H a = Some f" "is_tree H (sb f) t" "spine nx sb H a zs y"
  using assms by (auto split: option.splits)

lemma spine_ConsI:
  "H x = Some e \<Longrightarrow> nx e = a \<Longrightarrow> a \<noteq> NULL \<Longrightarrow> H a = Some f \<Longrightarrow> is_tree H (sb f) t \<Longrightarrow> spine nx sb H a zs y \<Longrightarrow>
     spine nx sb H x ((a, t) # zs) y"
  by auto

definition spine_nodes :: "spine_list \<Rightarrow> ptr set" where
  "spine_nodes zs = (\<Union>(a, t) \<in> set zs. insert a (set_tree t))"

lemma spine_nodes_simps [simp]:
  "spine_nodes [] = {}" "spine_nodes ((a, t) # zs) = insert a (set_tree t) \<union> spine_nodes zs"
  "spine_nodes (zs @ ws) = spine_nodes zs \<union> spine_nodes ws"
  by (auto simp: spine_nodes_def)

definition spine_seq :: "spine_list \<Rightarrow> ptr list" where
  "spine_seq zs = concat (map (\<lambda>(a, t). a # inorder t) zs)"

lemma spine_seq_simps [simp]:
  "spine_seq [] = []" "spine_seq ((a, t) # zs) = a # inorder t @ spine_seq zs" "spine_seq (zs @ ws) = spine_seq zs @ spine_seq ws"
  by (auto simp: spine_seq_def)

lemma set_spine_seq [simp]: "set (spine_seq zs) = spine_nodes zs"
  by (induction zs) auto

lemma spine_end: "spine nx sb H x zs y \<Longrightarrow> y = x \<or> y \<in> spine_nodes zs"
  by (induction zs arbitrary: x) (auto split: option.splits)

text \<open>A change of an element off the spine, or of the link of \<open>x\<close> that the spine does not use.\<close>

lemma spine_off:
  assumes "spine nx sb H x zs y" "z \<notin> spine_nodes zs" "z = x \<Longrightarrow> map_option nx v = map_option nx (H x)"
  shows "spine nx sb (H(z := v)) x zs y"
  using assms
proof (induction zs arbitrary: x)
  case (Cons at zs)
  obtain a t where at: "at = (a, t)" by (cases at)
  from Cons.prems(1) obtain e f where e: "H x = Some e" "nx e = a" "a \<noteq> NULL" "H a = Some f" "is_tree H (sb f) t" "spine nx sb H a zs y"
    unfolding at by (rule spine_ConsE)
  have z: "z \<noteq> a" "z \<notin> set_tree t" "z \<notin> spine_nodes zs" using Cons.prems(2) at by auto
  define G where "G = H(z := v)"
  obtain e' where "G x = Some e'" "nx e' = a" using e Cons.prems(3) by (cases "z = x") (auto simp: G_def)
  moreover have "G a = Some f" "is_tree G (sb f) t" using e z by (simp_all add: G_def)
  moreover have "spine nx sb G a zs y" unfolding G_def by (rule Cons.IH) (use e z in auto)
  ultimately show ?case unfolding at G_def [symmetric] using e(3) by (intro spine_ConsI)
qed simp

lemma spine_cong: "(\<And>z. z \<in> insert x (spine_nodes zs) \<Longrightarrow> H z = H' z) \<Longrightarrow> spine nx sb H x zs y = spine nx sb H' x zs y"
proof (induction zs arbitrary: x)
  case (Cons bu zs)
  obtain b u where bu: "bu = (b, u)" by (cases bu)
  have "is_tree H p u = is_tree H' p u" for p by (rule is_tree_cong) (use Cons.prems bu in auto)
  moreover have "spine nx sb H b zs y = spine nx sb H' b zs y" by (rule Cons.IH) (use Cons.prems bu in auto)
  ultimately show ?case using Cons.prems bu by (simp cong: option.case_cong)
qed simp

text \<open>A change of the open link.\<close>

lemma spine_open:
  assumes "spine nx sb H x zs y" "H y = Some e" "sb e' = sb e" "distinct (x # spine_seq zs)"
  shows "spine nx sb (H(y \<mapsto> e')) x zs y"
  using assms
proof (induction zs arbitrary: x)
  case (Cons at zs)
  obtain a t where at: "at = (a, t)" by (cases at)
  from Cons.prems(1) obtain d f where d: "H x = Some d" "nx d = a" "a \<noteq> NULL" "H a = Some f" "is_tree H (sb f) t" "spine nx sb H a zs y"
    unfolding at by (rule spine_ConsE)
  have "y = a \<or> y \<in> spine_nodes zs" using spine_end [OF d(6)] .
  then have y: "y \<noteq> x" "y \<notin> set_tree t" using Cons.prems(4) at by auto
  define G where "G = H(y \<mapsto> e')"
  obtain f' where f': "G a = Some f'" "sb f' = sb f" using d(4) Cons.prems by (cases "y = a") (auto simp: G_def)
  moreover have "G x = Some d" "is_tree G (sb f') t" using d y f' by (simp_all add: G_def)
  moreover have "spine nx sb G a zs y" unfolding G_def by (rule Cons.IH [OF d(6)]) (use Cons.prems at in auto)
  ultimately show ?case unfolding at G_def [symmetric] using d(2,3) by (intro spine_ConsI)
qed simp

lemma spine_snoc:
  "spine nx sb H x zs y \<Longrightarrow> H y = Some e \<Longrightarrow> nx e = a \<Longrightarrow> a \<noteq> NULL \<Longrightarrow> H a = Some f \<Longrightarrow> is_tree H (sb f) t \<Longrightarrow>
     spine nx sb H x (zs @ [(a, t)]) a"
proof (induction zs arbitrary: x)
  case (Cons bu zs)
  obtain b u where bu: "bu = (b, u)" by (cases bu)
  from Cons.prems(1) obtain d g where "H x = Some d" "nx d = b" "b \<noteq> NULL" "H b = Some g" "is_tree H (sb g) u" "spine nx sb H b zs y"
    unfolding bu by (rule spine_ConsE)
  then show ?case unfolding bu append_Cons using Cons.IH Cons.prems by (intro spine_ConsI) simp_all
qed simp

text \<open>Appending an element to a spine with the one store that the link macros make.\<close>

lemma spine_link:
  assumes sp: "spine nx sb H x zs y" and e: "H y = Some e" "sb e' = sb e" "nx e' = a" and d: "distinct (x # spine_seq zs)"
    and a: "H a = Some ea" "a \<noteq> NULL" "is_tree H (sb ea) t" "a \<noteq> y" "y \<notin> set_tree t"
  shows "spine nx sb (H(y \<mapsto> e')) x (zs @ [(a, t)]) a"
  using spine_snoc [OF spine_open [OF sp e(1,2) d]] e a by simp

text \<open>Closing the open link with a tree.\<close>

fun plugL :: "spine_list \<Rightarrow> ptr tree \<Rightarrow> ptr tree" where
  "plugL [] t = t"
| "plugL ((a, l) # zs) t = Node l a (plugL zs t)"

fun plugR :: "spine_list \<Rightarrow> ptr tree \<Rightarrow> ptr tree" where
  "plugR [] t = t"
| "plugR ((a, r) # zs) t = Node (plugR zs t) a r"

fun seqL :: "spine_list \<Rightarrow> ptr list" where
  "seqL [] = []"
| "seqL ((a, l) # zs) = inorder l @ a # seqL zs"

fun seqR :: "spine_list \<Rightarrow> ptr list" where
  "seqR [] = []"
| "seqR ((a, r) # zs) = seqR zs @ a # inorder r"

lemma seq_append [simp]: "seqL (zs @ ws) = seqL zs @ seqL ws" "seqR (zs @ ws) = seqR ws @ seqR zs"
  by (induction zs) auto

lemma inorder_plug [simp]: "inorder (plugL zs t) = seqL zs @ inorder t" "inorder (plugR zs t) = inorder t @ seqR zs"
  by (induction zs) auto

lemma set_seq [simp]: "set (seqL zs) = spine_nodes zs" "set (seqR zs) = spine_nodes zs"
  by (induction zs) auto

lemma distinct_seq: "distinct (seqL zs) = distinct (spine_seq zs)" "distinct (seqR zs) = distinct (spine_seq zs)"
  by (induction zs) auto

lemma set_plug [simp]: "set_tree (plugL zs t) = spine_nodes zs \<union> set_tree t" "set_tree (plugR zs t) = spine_nodes zs \<union> set_tree t"
  by (induction zs) auto

lemma spine_closeL:
  "spine spe_right spe_left H x zs y \<Longrightarrow> H y = Some e \<Longrightarrow> is_tree H (spe_right e) t \<Longrightarrow>
     \<exists>f. H x = Some f \<and> is_tree H (spe_right f) (plugL zs t)"
proof (induction zs arbitrary: x)
  case (Cons bu zs)
  obtain b u where bu: "bu = (b, u)" by (cases bu)
  from Cons.prems(1) obtain d g where "H x = Some d" "spe_right d = b" "b \<noteq> NULL" "H b = Some g" "is_tree H (spe_left g) u"
      "spine spe_right spe_left H b zs y"
    unfolding bu by (rule spine_ConsE)
  then show ?case unfolding bu using Cons.IH Cons.prems by fastforce
qed simp

lemma spine_closeR:
  "spine spe_left spe_right H x zs y \<Longrightarrow> H y = Some e \<Longrightarrow> is_tree H (spe_left e) t \<Longrightarrow>
     \<exists>f. H x = Some f \<and> is_tree H (spe_left f) (plugR zs t)"
proof (induction zs arbitrary: x)
  case (Cons bu zs)
  obtain b u where bu: "bu = (b, u)" by (cases bu)
  from Cons.prems(1) obtain d g where "H x = Some d" "spe_left d = b" "b \<noteq> NULL" "H b = Some g" "is_tree H (spe_right g) u"
      "spine spe_left spe_right H b zs y"
    unfolding bu by (rule spine_ConsE)
  then show ?case unfolding bu using Cons.IH Cons.prems by fastforce
qed simp


subsection \<open>Splaying on trees\<close>

text \<open>
  One turn of the loop on trees, for a comparison \<open>f\<close> of the key with an element: the spine of smaller
  elements, the tree that is left and the spine of greater elements, \<open>Inl\<close> at the end of the loop.
\<close>

type_synonym splay_parts = "spine_list \<times> ptr tree \<times> spine_list"

fun astep :: "(ptr \<Rightarrow> int) \<Rightarrow> spine_list \<Rightarrow> ptr tree \<Rightarrow> spine_list \<Rightarrow> splay_parts + splay_parts" where
  "astep f Ls Leaf Rs = Inl (Ls, Leaf, Rs)"
| "astep f Ls (Node l a r) Rs =
     (if f a < 0 then
        (case l of Leaf \<Rightarrow> Inl (Ls, Node l a r, Rs)
         | Node ll b lr \<Rightarrow>
             if f b < 0 then
               if ll = Leaf then Inl (Ls, Node Leaf b (Node lr a r), Rs)
               else Inr (Ls, ll, Rs @ [(b, Node lr a r)])
             else Inr (Ls, l, Rs @ [(a, r)]))
      else if f a > 0 then
        (case r of Leaf \<Rightarrow> Inl (Ls, Node l a r, Rs)
         | Node rl b rr \<Rightarrow>
             if f b > 0 then
               if rr = Leaf then Inl (Ls, Node (Node l a rl) b Leaf, Rs)
               else Inr (Ls @ [(b, Node l a rl)], rr, Rs)
             else Inr (Ls @ [(a, l)], r, Rs))
      else Inl (Ls, Node l a r, Rs))"

lemma astep_size: "astep f Ls t Rs = Inr (Ls', t', Rs') \<Longrightarrow> size t' < size t"
  by (cases t) (auto split: if_splits tree.splits)

function asplay :: "(ptr \<Rightarrow> int) \<Rightarrow> spine_list \<Rightarrow> ptr tree \<Rightarrow> spine_list \<Rightarrow> splay_parts" where
  "asplay f Ls t Rs = (case astep f Ls t Rs of Inl x \<Rightarrow> x | Inr (Ls', t', Rs') \<Rightarrow> asplay f Ls' t' Rs')"
  by pat_completeness auto
termination
  by (relation "measure (\<lambda>(f, Ls, t, Rs). size t)") (auto dest: astep_size)

declare asplay.simps [simp del]

lemma asplay_Inl: "astep f Ls t Rs = Inl x \<Longrightarrow> asplay f Ls t Rs = x"
  by (simp add: asplay.simps)

lemma asplay_Inr: "astep f Ls t Rs = Inr (Ls', t', Rs') \<Longrightarrow> asplay f Ls t Rs = asplay f Ls' t' Rs'"
  by (simp add: asplay.simps [of f Ls])

lemma asplay_induct [case_names stop go]:
  assumes "\<And>Ls t Rs x. astep f Ls t Rs = Inl x \<Longrightarrow> P Ls t Rs"
    and "\<And>Ls t Rs Ls' t' Rs'. astep f Ls t Rs = Inr (Ls', t', Rs') \<Longrightarrow> P Ls' t' Rs' \<Longrightarrow> P Ls t Rs"
  shows "P Ls t Rs"
proof (induction t arbitrary: Ls Rs rule: measure_induct_rule [where f = size])
  case (less t Ls Rs)
  show ?case
  proof (cases "astep f Ls t Rs")
    case (Inl x)
    then show ?thesis by (rule assms(1))
  next
    case (Inr x)
    then obtain Ls' t' Rs' where "astep f Ls t Rs = Inr (Ls', t', Rs')" by (cases x) auto
    then show ?thesis using less.IH astep_size assms(2) by blast
  qed
qed

definition atop :: "(ptr \<Rightarrow> int) \<Rightarrow> ptr tree \<Rightarrow> ptr tree" where
  "atop f t = (case asplay f [] t [] of (Ls, Node l a r, Rs) \<Rightarrow> Node (plugL Ls l) a (plugR Rs r) | _ \<Rightarrow> Leaf)"

text \<open>The order of the elements is kept.\<close>

lemma astep_seq:
  "astep f Ls t Rs = Inl (Ls', t', Rs') \<Longrightarrow> seqL Ls' @ inorder t' @ seqR Rs' = seqL Ls @ inorder t @ seqR Rs"
  "astep f Ls t Rs = Inr (Ls', t', Rs') \<Longrightarrow> seqL Ls' @ inorder t' @ seqR Rs' = seqL Ls @ inorder t @ seqR Rs"
  by (cases t; auto split: if_splits tree.splits)+

lemma asplay_seq:
  "asplay f Ls t Rs = (Ls', t', Rs') \<Longrightarrow> seqL Ls' @ inorder t' @ seqR Rs' = seqL Ls @ inorder t @ seqR Rs"
  by (induction Ls t Rs rule: asplay_induct [where f = f]) (auto simp: asplay_Inl asplay_Inr dest: astep_seq)

text \<open>The tree that is left has the key at its root or ends there in the direction of the key.\<close>

definition ends_at_root :: "(ptr \<Rightarrow> int) \<Rightarrow> ptr tree \<Rightarrow> bool" where
  "ends_at_root f t = (case t of Leaf \<Rightarrow> False | Node l a r \<Rightarrow> f a = 0 \<or> f a < 0 \<and> l = Leaf \<or> f a > 0 \<and> r = Leaf)"

lemma astep_root:
  "astep f Ls t Rs = Inl (Ls', t', Rs') \<Longrightarrow> t \<noteq> Leaf \<Longrightarrow> ends_at_root f t'"
  "astep f Ls t Rs = Inr (Ls', t', Rs') \<Longrightarrow> t' \<noteq> Leaf"
  by (cases t; auto simp: ends_at_root_def split: if_splits tree.splits)+

lemma asplay_root: "asplay f Ls t Rs = (Ls', t', Rs') \<Longrightarrow> t \<noteq> Leaf \<Longrightarrow> ends_at_root f t'"
  by (induction Ls t Rs rule: asplay_induct [where f = f]) (auto simp: asplay_Inl asplay_Inr dest: astep_root)

text \<open>\<open>f\<close> descends along the elements: first those before the key, then at most one equal to it, then the rest.\<close>

definition descends :: "(ptr \<Rightarrow> int) \<Rightarrow> ptr list \<Rightarrow> bool" where
  "descends f xs \<longleftrightarrow> sorted_wrt (\<lambda>x y. f x \<le> 0 \<longrightarrow> f y < 0) xs"

lemma descends_append:
  "descends f (xs @ a # ys) \<Longrightarrow> 0 \<le> f a \<Longrightarrow> x \<in> set xs \<Longrightarrow> 0 < f x"
  "descends f (xs @ a # ys) \<Longrightarrow> f a \<le> 0 \<Longrightarrow> y \<in> set ys \<Longrightarrow> f y < 0"
  by (auto simp: descends_def sorted_wrt_append not_less dest!: bspec)

lemma descends_sub: "descends f (xs @ ys @ zs) \<Longrightarrow> descends f ys"
  by (simp add: descends_def sorted_wrt_append)

definition spines_ok :: "(ptr \<Rightarrow> int) \<Rightarrow> spine_list \<Rightarrow> ptr tree \<Rightarrow> spine_list \<Rightarrow> bool" where
  "spines_ok f Ls t Rs \<longleftrightarrow> descends f (inorder t) \<and> (\<forall>x \<in> spine_nodes Ls. f x > 0) \<and> (\<forall>x \<in> spine_nodes Rs. f x < 0)"

lemma descends_Node:
  "descends f (inorder (Node l a r)) \<longleftrightarrow> descends f (inorder l) \<and> descends f (inorder r) \<and>
     (\<forall>x \<in> set_tree l. f x \<le> 0 \<longrightarrow> f a < 0) \<and> (\<forall>x \<in> set_tree r. f a \<le> 0 \<longrightarrow> f x < 0) \<and>
     (\<forall>x \<in> set_tree l. \<forall>y \<in> set_tree r. f x \<le> 0 \<longrightarrow> f y < 0)"
  by (auto simp: descends_def sorted_wrt_append)

lemma astep_spines:
  assumes "spines_ok f Ls t Rs"
  shows "case astep f Ls t Rs of Inl (Ls', t', Rs') \<Rightarrow> spines_ok f Ls' t' Rs' | Inr (Ls', t', Rs') \<Rightarrow> spines_ok f Ls' t' Rs'"
proof (cases t)
  case Leaf
  then show ?thesis using assms by simp
next
  case t: (Node l a r)
  consider "f a < 0" | "f a > 0" | "f a = 0" by linarith
  then show ?thesis
  proof cases
    case neg: 1
    then show ?thesis
    proof (cases l)
      case Leaf
      then show ?thesis using t assms neg by simp
    next
      case (Node ll b lr)
      have "spines_ok f Ls (Node Leaf b (Node lr a r)) Rs" if "f b < 0" "ll = Leaf"
        using assms that neg unfolding t Node spines_ok_def descends_Node by fastforce
      moreover have "spines_ok f Ls ll (Rs @ [(b, Node lr a r)])" if "f b < 0"
        using assms that neg unfolding t Node spines_ok_def descends_Node by fastforce
      moreover have "spines_ok f Ls l (Rs @ [(a, r)])"
        using assms neg unfolding t spines_ok_def descends_Node by fastforce
      ultimately show ?thesis using t Node neg by simp
    qed
  next
    case pos: 2
    then show ?thesis
    proof (cases r)
      case Leaf
      then show ?thesis using t assms pos by simp
    next
      case (Node rl b rr)
      have "spines_ok f Ls (Node (Node l a rl) b Leaf) Rs" if "f b > 0" "rr = Leaf"
        using assms that pos unfolding t Node spines_ok_def descends_Node by fastforce
      moreover have "spines_ok f (Ls @ [(b, Node l a rl)]) rr Rs" if "f b > 0"
        using assms that pos unfolding t Node spines_ok_def descends_Node by fastforce
      moreover have "spines_ok f (Ls @ [(a, l)]) r Rs"
        using assms pos unfolding t spines_ok_def descends_Node by fastforce
      ultimately show ?thesis using t Node pos by simp
    qed
  next
    case 3
    then show ?thesis using t assms by simp
  qed
qed

lemma asplay_spines: "asplay f Ls t Rs = (Ls', t', Rs') \<Longrightarrow> spines_ok f Ls t Rs \<Longrightarrow> spines_ok f Ls' t' Rs'"
  by (induction Ls t Rs rule: asplay_induct [where f = f]) (auto simp: asplay_Inl asplay_Inr dest!: astep_spines)

text \<open>What a splay does: the elements stay in order and the root separates those before the key from those behind it.\<close>

lemma atop_split:
  assumes "t \<noteq> Leaf" "descends f (inorder t)"
  obtains l a r where "atop f t = Node l a r" "inorder t = inorder l @ a # inorder r"
    "\<forall>x \<in> set_tree l. f x > 0" "\<forall>x \<in> set_tree r. f x < 0"
proof -
  obtain Ls t' Rs where as: "asplay f [] t [] = (Ls, t', Rs)" by (cases "asplay f [] t []")
  obtain l a r where t': "t' = Node l a r" and root: "f a = 0 \<or> f a < 0 \<and> l = Leaf \<or> f a > 0 \<and> r = Leaf"
    using asplay_root [OF as assms(1)] by (auto simp: ends_at_root_def split: tree.splits)
  have seq: "inorder t = (seqL Ls @ inorder l) @ a # (inorder r @ seqR Rs)" using asplay_seq [OF as] t' by simp
  have sp: "\<forall>x \<in> spine_nodes Ls. f x > 0" "\<forall>x \<in> spine_nodes Rs. f x < 0" using asplay_spines [OF as] assms(2) by (auto simp: spines_ok_def)
  have d: "descends f ((seqL Ls @ inorder l) @ a # (inorder r @ seqR Rs))" using assms(2) seq by simp
  have "\<forall>x \<in> set_tree (plugL Ls l). f x > 0"
    using root sp descends_append(1) [OF d] by auto
  moreover have "\<forall>x \<in> set_tree (plugR Rs r). f x < 0"
    using root sp descends_append(2) [OF d] by auto
  ultimately show ?thesis using that [of "plugL Ls l" a "plugR Rs r"] as t' seq by (simp add: atop_def)
qed


subsection \<open>The macros on trees in memory\<close>

definition frame :: "ptr set \<Rightarrow> splay_head \<Rightarrow> splay_head \<Rightarrow> bool" where
  "frame A s s' \<longleftrightarrow> dom (sp_nodes s') = dom (sp_nodes s) \<and> (\<forall>x. x \<notin> A \<longrightarrow> sp_nodes s' x = sp_nodes s x)"

lemma frame_refl [simp]: "frame A s s"
  by (simp add: frame_def)

lemma frame_trans: "frame A s s1 \<Longrightarrow> frame A s1 s2 \<Longrightarrow> frame A s s2"
  by (simp add: frame_def)

lemma frame_mono: "frame A s s' \<Longrightarrow> A \<subseteq> B \<Longrightarrow> frame B s s'"
  by (auto simp: frame_def)

lemma frame_dom: "frame A s s' \<Longrightarrow> sp_nodes s x \<noteq> None \<Longrightarrow> sp_nodes s' x \<noteq> None"
  by (auto simp: frame_def)

definition splay_rep :: "ptr \<Rightarrow> spine_list \<Rightarrow> ptr tree \<Rightarrow> spine_list \<Rightarrow> ptr \<Rightarrow> ptr \<Rightarrow> splay_head \<Rightarrow> bool" where
  "splay_rep nd Ls t Rs lf rg s \<longleftrightarrow> is_tree (sp_nodes s) (sph_root s) t \<and>
     spine spe_right spe_left (sp_nodes s) nd Ls lf \<and> spine spe_left spe_right (sp_nodes s) nd Rs rg \<and>
     distinct (nd # seqL Ls @ inorder t @ seqR Rs) \<and> sp_nodes s nd \<noteq> None"

definition rep_nodes :: "ptr \<Rightarrow> spine_list \<Rightarrow> ptr tree \<Rightarrow> spine_list \<Rightarrow> ptr set" where
  "rep_nodes nd Ls t Rs = insert nd (spine_nodes Ls \<union> set_tree t \<union> spine_nodes Rs)"

lemma spine_dom: "spine nx sb H x zs y \<Longrightarrow> spine_nodes zs \<subseteq> dom H"
proof (induction zs arbitrary: x)
  case (Cons bu zs)
  obtain b u where bu: "bu = (b, u)" by (cases bu)
  from Cons.prems(1) obtain d g where "H b = Some g" "is_tree H (sb g) u" "spine nx sb H b zs y"
    unfolding bu by (rule spine_ConsE)
  then show ?case unfolding bu using Cons.IH is_tree_dom by fastforce
qed simp

text \<open>The ends of the spines: allocated, apart from the tree, and on the other spine only as the local element.\<close>

lemma splay_rep_ends:
  assumes "splay_rep nd Ls t Rs lf rg s"
  shows "sp_nodes s lf \<noteq> None" "lf \<notin> set_tree t" "lf \<notin> spine_nodes Rs" "sp_nodes s rg \<noteq> None" "rg \<notin> set_tree t" "rg \<notin> spine_nodes Ls"
    "lf \<in> insert nd (spine_nodes Ls)" "rg \<in> insert nd (spine_nodes Rs)" "lf = rg \<Longrightarrow> lf = nd"
proof -
  have l: "lf \<in> insert nd (spine_nodes Ls)" and r: "rg \<in> insert nd (spine_nodes Rs)"
    using assms spine_end unfolding splay_rep_def by blast+
  have d: "spine_nodes Ls \<subseteq> dom (sp_nodes s)" "spine_nodes Rs \<subseteq> dom (sp_nodes s)" "sp_nodes s nd \<noteq> None"
    using assms spine_dom unfolding splay_rep_def by blast+
  show "lf \<in> insert nd (spine_nodes Ls)" "rg \<in> insert nd (spine_nodes Rs)" by (fact l r)+
  show "sp_nodes s lf \<noteq> None" "sp_nodes s rg \<noteq> None" using l r d by auto
  have "distinct (nd # seqL Ls @ inorder t @ seqR Rs)" using assms by (simp add: splay_rep_def)
  then show "lf \<notin> set_tree t" "lf \<notin> spine_nodes Rs" "rg \<notin> set_tree t" "rg \<notin> spine_nodes Ls" "lf = rg \<Longrightarrow> lf = nd"
    using l r by auto
qed

lemma LINKLEFT_rep:
  assumes rep: "splay_rep nd Ls (Node l a r) Rs lf rg s"
  shows "\<exists>s'. SPLAY_LINKLEFT rg s = Some (a, s') \<and> splay_rep nd Ls l (Rs @ [(a, r)]) lf a s' \<and> frame (rep_nodes nd Ls (Node l a r) Rs) s s'"
proof -
  let ?H = "sp_nodes s"
  have t: "is_tree ?H (sph_root s) (Node l a r)" and sl: "spine spe_right spe_left ?H nd Ls lf" and sr: "spine spe_left spe_right ?H nd Rs rg"
    and d: "distinct (nd # seqL Ls @ inorder (Node l a r) @ seqR Rs)" and nd: "?H nd \<noteq> None"
    using rep by (simp_all add: splay_rep_def)
  obtain ea where a: "sph_root s = a" "a \<noteq> NULL" "?H a = Some ea" "is_tree ?H (spe_left ea) l" "is_tree ?H (spe_right ea) r"
    using t by (rule is_tree_NodeD)
  note ends = splay_rep_ends [OF rep]
  obtain e where e: "?H rg = Some e" using ends by auto
  define G where "G = ?H(rg \<mapsto> e\<lparr>spe_left := a\<rparr>)"
  define s' where "s' = s\<lparr>sp_nodes := G, sph_root := spe_left ea\<rparr>"
  have ne: "rg \<noteq> a" "rg \<notin> set_tree l" "rg \<notin> set_tree r" using ends by auto
  have run: "SPLAY_LINKLEFT rg s = Some (a, s')"
    using a e ne by (simp add: SPLAY_LINKLEFT_def splay_acc s'_def G_def)
  have "is_tree G (spe_left ea) l" using a ne by (simp add: G_def)
  moreover have "spine spe_right spe_left G nd Ls lf"
    unfolding G_def using sl ends e by (intro spine_off) auto
  moreover have "spine spe_left spe_right G nd (Rs @ [(a, r)]) a"
    unfolding G_def by (rule spine_link [OF sr e _ _ _ a(3,2,5)]) (use ne d in \<open>auto simp: distinct_seq\<close>)
  moreover have "G nd \<noteq> None" using nd by (simp add: G_def)
  moreover have "distinct (nd # seqL Ls @ inorder l @ seqR (Rs @ [(a, r)]))" using d by auto
  ultimately have "splay_rep nd Ls l (Rs @ [(a, r)]) lf a s'" by (simp add: splay_rep_def s'_def)
  moreover have "frame (rep_nodes nd Ls (Node l a r) Rs) s s'"
    using e ends by (auto simp: frame_def s'_def G_def rep_nodes_def)
  ultimately show ?thesis using run by blast
qed

lemma LINKRIGHT_rep:
  assumes rep: "splay_rep nd Ls (Node l a r) Rs lf rg s"
  shows "\<exists>s'. SPLAY_LINKRIGHT lf s = Some (a, s') \<and> splay_rep nd (Ls @ [(a, l)]) r Rs a rg s' \<and> frame (rep_nodes nd Ls (Node l a r) Rs) s s'"
proof -
  let ?H = "sp_nodes s"
  have t: "is_tree ?H (sph_root s) (Node l a r)" and sl: "spine spe_right spe_left ?H nd Ls lf" and sr: "spine spe_left spe_right ?H nd Rs rg"
    and d: "distinct (nd # seqL Ls @ inorder (Node l a r) @ seqR Rs)" and nd: "?H nd \<noteq> None"
    using rep by (simp_all add: splay_rep_def)
  obtain ea where a: "sph_root s = a" "a \<noteq> NULL" "?H a = Some ea" "is_tree ?H (spe_left ea) l" "is_tree ?H (spe_right ea) r"
    using t by (rule is_tree_NodeD)
  note ends = splay_rep_ends [OF rep]
  obtain e where e: "?H lf = Some e" using ends by auto
  define G where "G = ?H(lf \<mapsto> e\<lparr>spe_right := a\<rparr>)"
  define s' where "s' = s\<lparr>sp_nodes := G, sph_root := spe_right ea\<rparr>"
  have ne: "lf \<noteq> a" "lf \<notin> set_tree l" "lf \<notin> set_tree r" using ends by auto
  have run: "SPLAY_LINKRIGHT lf s = Some (a, s')"
    using a e ne by (simp add: SPLAY_LINKRIGHT_def splay_acc s'_def G_def)
  have "is_tree G (spe_right ea) r" using a ne by (simp add: G_def)
  moreover have "spine spe_left spe_right G nd Rs rg"
    unfolding G_def using sr ends e by (intro spine_off) auto
  moreover have "spine spe_right spe_left G nd (Ls @ [(a, l)]) a"
    unfolding G_def by (rule spine_link [OF sl e _ _ _ a(3,2,4)]) (use ne d in \<open>auto simp: distinct_seq\<close>)
  moreover have "G nd \<noteq> None" using nd by (simp add: G_def)
  moreover have "distinct (nd # seqL (Ls @ [(a, l)]) @ inorder r @ seqR Rs)" using d by auto
  ultimately have "splay_rep nd (Ls @ [(a, l)]) r Rs a rg s'" by (simp add: splay_rep_def s'_def)
  moreover have "frame (rep_nodes nd Ls (Node l a r) Rs) s s'"
    using e ends by (auto simp: frame_def s'_def G_def rep_nodes_def)
  ultimately show ?thesis using run by blast
qed

text \<open>A rotation changes two elements of the tree.\<close>

lemma splay_rep_tree:
  assumes rep: "splay_rep nd Ls t Rs lf rg s" and t': "is_tree (sp_nodes s') (sph_root s') t'" "inorder t' = inorder t"
    and fr: "frame (set_tree t) s s'"
  shows "splay_rep nd Ls t' Rs lf rg s'"
proof -
  have d: "distinct (nd # seqL Ls @ inorder t @ seqR Rs)" using rep by (simp add: splay_rep_def)
  have same: "sp_nodes s' x = sp_nodes s x" if "x \<in> insert nd (spine_nodes Ls \<union> spine_nodes Rs)" for x
    using fr that d by (auto simp: frame_def)
  have "spine spe_right spe_left (sp_nodes s') nd Ls lf = spine spe_right spe_left (sp_nodes s) nd Ls lf"
    by (rule spine_cong) (use same in auto)
  moreover have "spine spe_left spe_right (sp_nodes s') nd Rs rg = spine spe_left spe_right (sp_nodes s) nd Rs rg"
    by (rule spine_cong) (use same in auto)
  ultimately show ?thesis using rep t' same by (simp add: splay_rep_def)
qed


lemma ROTATE_RIGHT_rep:
  assumes rep: "splay_rep nd Ls (Node (Node ll b lr) a r) Rs lf rg s"
  shows "\<exists>s'. SPLAY_ROTATE_RIGHT b s = Some s' \<and> splay_rep nd Ls (Node ll b (Node lr a r)) Rs lf rg s' \<and>
     frame (rep_nodes nd Ls (Node (Node ll b lr) a r) Rs) s s'"
proof -
  let ?t = "Node (Node ll b lr) a r"
  have t: "is_tree (sp_nodes s) (sph_root s) ?t" and "distinct (nd # seqL Ls @ inorder ?t @ seqR Rs)"
    using rep unfolding splay_rep_def by blast+
  then have d: "distinct (inorder ?t)" by (simp only: distinct.simps distinct_append)
  obtain ea where a: "sph_root s = a" "a \<noteq> NULL" "sp_nodes s a = Some ea" "is_tree (sp_nodes s) (spe_left ea) (Node ll b lr)"
      "is_tree (sp_nodes s) (spe_right ea) r"
    using t by (rule is_tree_NodeD)
  obtain eb where b: "b \<noteq> NULL" "sp_nodes s b = Some eb" "is_tree (sp_nodes s) (spe_left eb) ll" "is_tree (sp_nodes s) (spe_right eb) lr"
    using a(4) by (rule is_tree_NodeD)
  define s' where "s' = s\<lparr>sph_root := b, sp_nodes := (sp_nodes s)(a \<mapsto> ea\<lparr>spe_left := spe_right eb\<rparr>, b \<mapsto> eb\<lparr>spe_right := a\<rparr>)\<rparr>"
  have ne: "a \<noteq> b" using d by auto
  then have run: "SPLAY_ROTATE_RIGHT b s = Some s'"
    using a b by (simp add: SPLAY_ROTATE_RIGHT_def splay_acc s'_def)
  have tt: "is_tree (sp_nodes s') (sph_root s') (Node ll b (Node lr a r))" using a b d ne by (simp add: s'_def)
  have io: "inorder (Node ll b (Node lr a r)) = inorder ?t" by simp
  have fr: "frame (set_tree ?t) s s'" using a b by (auto simp: frame_def s'_def)
  have "frame (rep_nodes nd Ls ?t Rs) s s'" by (rule frame_mono [OF fr]) (auto simp: rep_nodes_def)
  then show ?thesis using run splay_rep_tree [OF rep tt io fr] by blast
qed

lemma ROTATE_LEFT_rep:
  assumes rep: "splay_rep nd Ls (Node l a (Node rl b rr)) Rs lf rg s"
  shows "\<exists>s'. SPLAY_ROTATE_LEFT b s = Some s' \<and> splay_rep nd Ls (Node (Node l a rl) b rr) Rs lf rg s' \<and>
     frame (rep_nodes nd Ls (Node l a (Node rl b rr)) Rs) s s'"
proof -
  let ?t = "Node l a (Node rl b rr)"
  have t: "is_tree (sp_nodes s) (sph_root s) ?t" and "distinct (nd # seqL Ls @ inorder ?t @ seqR Rs)"
    using rep unfolding splay_rep_def by blast+
  then have d: "distinct (inorder ?t)" by (simp only: distinct.simps distinct_append)
  obtain ea where a: "sph_root s = a" "a \<noteq> NULL" "sp_nodes s a = Some ea" "is_tree (sp_nodes s) (spe_left ea) l"
      "is_tree (sp_nodes s) (spe_right ea) (Node rl b rr)"
    using t by (rule is_tree_NodeD)
  obtain eb where b: "b \<noteq> NULL" "sp_nodes s b = Some eb" "is_tree (sp_nodes s) (spe_left eb) rl" "is_tree (sp_nodes s) (spe_right eb) rr"
    using a(5) by (rule is_tree_NodeD)
  define s' where "s' = s\<lparr>sph_root := b, sp_nodes := (sp_nodes s)(a \<mapsto> ea\<lparr>spe_right := spe_left eb\<rparr>, b \<mapsto> eb\<lparr>spe_left := a\<rparr>)\<rparr>"
  have ne: "a \<noteq> b" using d by auto
  then have run: "SPLAY_ROTATE_LEFT b s = Some s'"
    using a b by (simp add: SPLAY_ROTATE_LEFT_def splay_acc s'_def)
  have tt: "is_tree (sp_nodes s') (sph_root s') (Node (Node l a rl) b rr)" using a b d ne by (simp add: s'_def)
  have io: "inorder (Node (Node l a rl) b rr) = inorder ?t" by simp
  have fr: "frame (set_tree ?t) s s'" using a b by (auto simp: frame_def s'_def)
  have "frame (rep_nodes nd Ls ?t Rs) s s'" by (rule frame_mono [OF fr]) (auto simp: rep_nodes_def)
  then show ?thesis using run splay_rep_tree [OF rep tt io fr] by blast
qed

text \<open>Assembling the spines and the tree that is left.\<close>

lemma ASSEMBLE_rep:
  assumes rep: "splay_rep nd Ls (Node l a r) Rs lf rg s"
  shows "\<exists>s'. SPLAY_ASSEMBLE nd lf rg s = Some s' \<and> sph_root s' = a \<and>
     is_tree (sp_nodes s') a (Node (plugL Ls l) a (plugR Rs r)) \<and> frame (rep_nodes nd Ls (Node l a r) Rs) s s'"
proof -
  let ?H = "sp_nodes s"
  have t: "is_tree ?H (sph_root s) (Node l a r)" and sl: "spine spe_right spe_left ?H nd Ls lf" and sr: "spine spe_left spe_right ?H nd Rs rg"
    and d: "distinct (nd # seqL Ls @ inorder (Node l a r) @ seqR Rs)" and nd: "?H nd \<noteq> None"
    using rep by (simp_all add: splay_rep_def)
  obtain ea where a: "sph_root s = a" "a \<noteq> NULL" "?H a = Some ea" "is_tree ?H (spe_left ea) l" "is_tree ?H (spe_right ea) r"
    using t by (rule is_tree_NodeD)
  note ends = splay_rep_ends [OF rep]
  have ne: "lf \<noteq> a" "rg \<noteq> a" "lf \<notin> set_tree l" "lf \<notin> set_tree r" "rg \<notin> set_tree l" "rg \<notin> set_tree r" "a \<noteq> nd" using ends d by auto
  obtain el where el: "?H lf = Some el" using ends by auto
  define G where "G = ?H(lf \<mapsto> el\<lparr>spe_right := spe_left ea\<rparr>)"
  have slG: "spine spe_right spe_left G nd Ls lf"
    unfolding G_def by (rule spine_open [OF sl el]) (use d in \<open>auto simp: distinct_seq\<close>)
  have srG: "spine spe_left spe_right G nd Rs rg"
    unfolding G_def using sr ends el by (intro spine_off) auto
  obtain er where er: "G rg = Some er" using ends(4) by (cases "rg = lf") (auto simp: G_def)
  define K where "K = G(rg \<mapsto> er\<lparr>spe_left := spe_right ea\<rparr>)"
  have slK: "spine spe_right spe_left K nd Ls lf"
    unfolding K_def using slG ends er by (intro spine_off) auto
  have srK: "spine spe_left spe_right K nd Rs rg"
    unfolding K_def by (rule spine_open [OF srG er]) (use d in \<open>auto simp: distinct_seq\<close>)
  have "is_tree K (spe_left ea) l" "is_tree K (spe_right ea) r" using a ne by (simp_all add: K_def G_def)
  moreover obtain kl where "K lf = Some kl" "spe_right kl = spe_left ea"
    using er by (cases "lf = rg") (auto simp: K_def G_def)
  moreover have "K rg = Some (er\<lparr>spe_left := spe_right ea\<rparr>)" by (simp add: K_def)
  ultimately obtain f where f: "K nd = Some f" "is_tree K (spe_right f) (plugL Ls l)" "is_tree K (spe_left f) (plugR Rs r)"
    using spine_closeL [OF slK] spine_closeR [OF srK] by fastforce
  define s' where "s' = s\<lparr>sp_nodes := K(a \<mapsto> ea\<lparr>spe_left := spe_right f, spe_right := spe_left f\<rparr>)\<rparr>"
  have run: "SPLAY_ASSEMBLE nd lf rg s = Some s'"
    using a ne el er f by (simp add: SPLAY_ASSEMBLE_def splay_acc s'_def K_def G_def)
  have "a \<notin> set_tree (plugL Ls l)" "a \<notin> set_tree (plugR Rs r)" using d by auto
  then have "is_tree (sp_nodes s') a (Node (plugL Ls l) a (plugR Rs r))" using f a by (simp add: s'_def)
  moreover have "frame (rep_nodes nd Ls (Node l a r) Rs) s s'"
    using el er a ends by (auto simp: frame_def s'_def K_def G_def rep_nodes_def)
  ultimately show ?thesis using run a by (auto simp: s'_def)
qed


subsection \<open>The loops\<close>

text \<open>The address of a tree, and what the code reads at the root of the tree that is left.\<close>

definition addr :: "ptr tree \<Rightarrow> ptr" where
  "addr t = (case t of Leaf \<Rightarrow> NULL | Node l a r \<Rightarrow> a)"

lemma addr_simps [simp]: "addr Leaf = NULL" "addr (Node l a r) = a"
  by (simp_all add: addr_def)

lemma is_tree_addr: "is_tree H p t \<Longrightarrow> p = addr t"
  by (cases t) auto

lemma rep_nodes_astep: "astep f Ls t Rs = Inr (Ls', t', Rs') \<Longrightarrow> rep_nodes nd Ls' t' Rs' = rep_nodes nd Ls t Rs"
  using astep_seq(2) [of f Ls t Rs Ls' t' Rs', THEN arg_cong [of _ _ set]] by (auto simp: rep_nodes_def)

lemma splay_rep_root:
  assumes "splay_rep nd Ls (Node l a r) Rs lf rg s"
  shows "sph_root s = a" "SPLAY_LEFT a s = Some (addr l)" "SPLAY_RIGHT a s = Some (addr r)" "sp_nodes s a \<noteq> None"
proof -
  have "is_tree (sp_nodes s) (sph_root s) (Node l a r)" using assms unfolding splay_rep_def by blast
  then obtain e where "sph_root s = a" "sp_nodes s a = Some e" "is_tree (sp_nodes s) (spe_left e) l" "is_tree (sp_nodes s) (spe_right e) r"
    by (rule is_tree_NodeD)
  then show "sph_root s = a" "SPLAY_LEFT a s = Some (addr l)" "SPLAY_RIGHT a s = Some (addr r)" "sp_nodes s a \<noteq> None"
    using is_tree_addr by (auto simp: splay_acc)
qed

lemma splay_rep_child:
  assumes "splay_rep nd Ls t Rs lf rg s" "x \<in> set_tree t"
  shows "x \<noteq> NULL" "sp_nodes s x \<noteq> None"
proof -
  have t: "is_tree (sp_nodes s) (sph_root s) t" using assms unfolding splay_rep_def by blast
  show "x \<noteq> NULL" "sp_nodes s x \<noteq> None" using is_tree_dom [OF t] is_tree_NULL [OF t] assms(2) by auto
qed

text \<open>One turn: the loop ends or goes on with what the step on trees says.\<close>

definition turn_ok where
  "turn_ok f nd Ls t Rs lf rg s loop \<longleftrightarrow> (case astep f Ls t Rs of
     Inl (Ls', t', Rs') \<Rightarrow> \<exists>s'. loop lf rg s = Some (lf, rg, s') \<and> splay_rep nd Ls' t' Rs' lf rg s' \<and> frame (rep_nodes nd Ls t Rs) s s'
   | Inr (Ls', t', Rs') \<Rightarrow> \<exists>lf' rg' s'. loop lf rg s = loop lf' rg' s' \<and> splay_rep nd Ls' t' Rs' lf' rg' s' \<and> frame (rep_nodes nd Ls t Rs) s s')"

lemma loop_refines:
  assumes turn: "\<And>Ls t Rs lf rg s. splay_rep nd Ls t Rs lf rg s \<Longrightarrow> t \<noteq> Leaf \<Longrightarrow> frame A s0 s \<Longrightarrow> turn_ok f nd Ls t Rs lf rg s loop"
    and "splay_rep nd Ls t Rs lf rg s" "t \<noteq> Leaf" "frame A s0 s" "rep_nodes nd Ls t Rs \<subseteq> A"
  shows "\<exists>Ls' t' Rs' lf' rg' s'. asplay f Ls t Rs = (Ls', t', Rs') \<and> loop lf rg s = Some (lf', rg', s') \<and>
     splay_rep nd Ls' t' Rs' lf' rg' s' \<and> frame A s0 s'"
  using assms(2-)
proof (induction Ls t Rs arbitrary: lf rg s rule: asplay_induct [where f = f])
  case (stop Ls t Rs x)
  obtain Ls' t' Rs' where x: "x = (Ls', t', Rs')" by (cases x)
  then obtain s' where "loop lf rg s = Some (lf, rg, s')" "splay_rep nd Ls' t' Rs' lf rg s'" "frame (rep_nodes nd Ls t Rs) s s'"
    using turn [OF stop(2,3,4)] stop(1) by (auto simp: turn_ok_def)
  then show ?case using asplay_Inl [OF stop(1)] x frame_trans [OF stop(4) frame_mono] stop(5) by blast
next
  case (go Ls t Rs Ls' t' Rs')
  obtain lf' rg' s' where s': "loop lf rg s = loop lf' rg' s'" "splay_rep nd Ls' t' Rs' lf' rg' s'" "frame (rep_nodes nd Ls t Rs) s s'"
    using turn [OF go(3,4,5)] go(1) by (auto simp: turn_ok_def)
  have "frame A s0 s'" using frame_trans [OF go(5) frame_mono [OF s'(3) go(6)]] .
  then show ?case
    using go(2) [OF s'(2) astep_root(2) [OF go(1)]] go(6) rep_nodes_astep [OF go(1)] asplay_Inr [OF go(1)] s'(1) by auto
qed


lemma rotate_link_left:
  assumes rep: "splay_rep nd Ls (Node (Node ll b lr) a r) Rs lf rg s"
  obtains s1 s2 where "SPLAY_ROTATE_RIGHT b s = Some s1" "splay_rep nd Ls (Node ll b (Node lr a r)) Rs lf rg s1"
    "frame (rep_nodes nd Ls (Node (Node ll b lr) a r) Rs) s s1"
    "SPLAY_LINKLEFT rg s1 = Some (b, s2)" "splay_rep nd Ls ll (Rs @ [(b, Node lr a r)]) lf b s2"
    "frame (rep_nodes nd Ls (Node (Node ll b lr) a r) Rs) s s2"
proof -
  obtain s1 where s1: "SPLAY_ROTATE_RIGHT b s = Some s1" "splay_rep nd Ls (Node ll b (Node lr a r)) Rs lf rg s1"
    "frame (rep_nodes nd Ls (Node (Node ll b lr) a r) Rs) s s1"
    using ROTATE_RIGHT_rep [OF rep] by blast
  obtain s2 where s2: "SPLAY_LINKLEFT rg s1 = Some (b, s2)" "splay_rep nd Ls ll (Rs @ [(b, Node lr a r)]) lf b s2"
    "frame (rep_nodes nd Ls (Node ll b (Node lr a r)) Rs) s1 s2"
    using LINKLEFT_rep [OF s1(2)] by blast
  have "rep_nodes nd Ls (Node ll b (Node lr a r)) Rs = rep_nodes nd Ls (Node (Node ll b lr) a r) Rs" by (auto simp: rep_nodes_def)
  then have "frame (rep_nodes nd Ls (Node (Node ll b lr) a r) Rs) s s2" using frame_trans [OF s1(3)] s2(3) by simp
  then show ?thesis by (rule that [OF s1 s2(1,2)])
qed

lemma rotate_link_right:
  assumes rep: "splay_rep nd Ls (Node l a (Node rl b rr)) Rs lf rg s"
  obtains s1 s2 where "SPLAY_ROTATE_LEFT b s = Some s1" "splay_rep nd Ls (Node (Node l a rl) b rr) Rs lf rg s1"
    "frame (rep_nodes nd Ls (Node l a (Node rl b rr)) Rs) s s1"
    "SPLAY_LINKRIGHT lf s1 = Some (b, s2)" "splay_rep nd (Ls @ [(b, Node l a rl)]) rr Rs b rg s2"
    "frame (rep_nodes nd Ls (Node l a (Node rl b rr)) Rs) s s2"
proof -
  obtain s1 where s1: "SPLAY_ROTATE_LEFT b s = Some s1" "splay_rep nd Ls (Node (Node l a rl) b rr) Rs lf rg s1"
    "frame (rep_nodes nd Ls (Node l a (Node rl b rr)) Rs) s s1"
    using ROTATE_LEFT_rep [OF rep] by blast
  obtain s2 where s2: "SPLAY_LINKRIGHT lf s1 = Some (b, s2)" "splay_rep nd (Ls @ [(b, Node l a rl)]) rr Rs b rg s2"
    "frame (rep_nodes nd Ls (Node (Node l a rl) b rr) Rs) s1 s2"
    using LINKRIGHT_rep [OF s1(2)] by blast
  have "rep_nodes nd Ls (Node (Node l a rl) b rr) Rs = rep_nodes nd Ls (Node l a (Node rl b rr)) Rs" by (auto simp: rep_nodes_def)
  then have "frame (rep_nodes nd Ls (Node l a (Node rl b rr)) Rs) s s2" using frame_trans [OF s1(3)] s2(3) by simp
  then show ?thesis by (rule that [OF s1 s2(1,2)])
qed

lemma splay_turn:
  assumes rep: "splay_rep nd Ls t Rs lf rg s" and t: "t \<noteq> Leaf" and elm: "sp_nodes s elm \<noteq> None"
  shows "turn_ok (cmp elm) nd Ls t Rs lf rg s (splay_loop cmp elm)"
proof -
  obtain l a r where t: "t = Node l a r" using t by (cases t) auto
  note rep = rep [unfolded t]
  note root = splay_rep_root [OF rep]
  have ca: "call_cmp cmp elm a s = Some (cmp elm a)" using root(4) elm by (simp add: call_cmp_def)
  consider "cmp elm a < 0" | "cmp elm a > 0" | "cmp elm a = 0" by linarith
  then show ?thesis
  proof cases
    case neg: 1
    show ?thesis
    proof (cases l)
      case Leaf
      then show ?thesis using rep neg ca root unfolding turn_ok_def t by (subst splay_loop.simps) simp
    next
      case l: (Node ll b lr)
      have b: "b \<noteq> NULL" "sp_nodes s b \<noteq> None" using splay_rep_child [OF rep, of b] l by auto
      then have cb: "call_cmp cmp elm b s = Some (cmp elm b)" using elm by (simp add: call_cmp_def)
      show ?thesis
      proof (cases "cmp elm b < 0")
        case True
        obtain s1 s2 where s1: "SPLAY_ROTATE_RIGHT b s = Some s1" "splay_rep nd Ls (Node ll b (Node lr a r)) Rs lf rg s1"
            "frame (rep_nodes nd Ls t Rs) s s1" and s2: "SPLAY_LINKLEFT rg s1 = Some (b, s2)"
            "splay_rep nd Ls ll (Rs @ [(b, Node lr a r)]) lf b s2" "frame (rep_nodes nd Ls t Rs) s s2"
          using rotate_link_left [of nd Ls ll b lr a r Rs lf rg s] rep unfolding l t by metis
        have "addr ll = NULL \<longleftrightarrow> ll = Leaf" using splay_rep_child(1) [OF s1(2)] by (cases ll) auto
        then have "splay_loop cmp elm lf rg s = (if ll = Leaf then Some (lf, rg, s1) else splay_loop cmp elm lf b s2)"
          using neg True ca cb b root l s1(1) s2(1) splay_rep_root [OF s1(2)] by (subst splay_loop.simps) simp
        then show ?thesis using neg True s1 s2 unfolding turn_ok_def t l by (cases "ll = Leaf") auto
      next
        case False
        obtain s1 where "SPLAY_LINKLEFT rg s = Some (a, s1)" "splay_rep nd Ls l (Rs @ [(a, r)]) lf a s1" "frame (rep_nodes nd Ls t Rs) s s1"
          using LINKLEFT_rep [OF rep] t by blast
        moreover from this have "splay_loop cmp elm lf rg s = splay_loop cmp elm lf a s1"
          using neg False ca cb b root l by (subst splay_loop.simps) simp
        ultimately show ?thesis using neg False unfolding turn_ok_def t l by auto
      qed
    qed
  next
    case pos: 2
    show ?thesis
    proof (cases r)
      case Leaf
      then show ?thesis using rep pos ca root unfolding turn_ok_def t by (subst splay_loop.simps) simp
    next
      case r: (Node rl b rr)
      have b: "b \<noteq> NULL" "sp_nodes s b \<noteq> None" using splay_rep_child [OF rep, of b] r by auto
      then have cb: "call_cmp cmp elm b s = Some (cmp elm b)" using elm by (simp add: call_cmp_def)
      show ?thesis
      proof (cases "cmp elm b > 0")
        case True
        obtain s1 s2 where s1: "SPLAY_ROTATE_LEFT b s = Some s1" "splay_rep nd Ls (Node (Node l a rl) b rr) Rs lf rg s1"
            "frame (rep_nodes nd Ls t Rs) s s1" and s2: "SPLAY_LINKRIGHT lf s1 = Some (b, s2)"
            "splay_rep nd (Ls @ [(b, Node l a rl)]) rr Rs b rg s2" "frame (rep_nodes nd Ls t Rs) s s2"
          using rotate_link_right [of nd Ls l a rl b rr Rs lf rg s] rep unfolding r t by metis
        have "addr rr = NULL \<longleftrightarrow> rr = Leaf" using splay_rep_child(1) [OF s1(2)] by (cases rr) auto
        then have "splay_loop cmp elm lf rg s = (if rr = Leaf then Some (lf, rg, s1) else splay_loop cmp elm b rg s2)"
          using pos True ca cb b root r s1(1) s2(1) splay_rep_root [OF s1(2)] by (subst splay_loop.simps) simp
        then show ?thesis using pos True s1 s2 unfolding turn_ok_def t r by (cases "rr = Leaf") auto
      next
        case False
        obtain s1 where "SPLAY_LINKRIGHT lf s = Some (a, s1)" "splay_rep nd (Ls @ [(a, l)]) r Rs a rg s1" "frame (rep_nodes nd Ls t Rs) s s1"
          using LINKRIGHT_rep [OF rep] t by blast
        moreover from this have "splay_loop cmp elm lf rg s = splay_loop cmp elm a rg s1"
          using pos False ca cb b root r by (subst splay_loop.simps) simp
        ultimately show ?thesis using pos False unfolding turn_ok_def t r by auto
      qed
    qed
  next
    case 3
    then show ?thesis using rep ca root unfolding turn_ok_def t by (subst splay_loop.simps) simp
  qed
qed

lemma minmax_turn:
  assumes rep: "splay_rep nd Ls t Rs lf rg s" and t: "t \<noteq> Leaf" and c: "c \<noteq> 0"
  shows "turn_ok (\<lambda>_. c) nd Ls t Rs lf rg s (splay_minmax_loop c)"
proof -
  obtain l a r where t: "t = Node l a r" using t by (cases t) auto
  note rep = rep [unfolded t]
  note root = splay_rep_root [OF rep]
  show ?thesis
  proof (cases "c < 0")
    case neg: True
    show ?thesis
    proof (cases l)
      case Leaf
      then show ?thesis using rep neg root unfolding turn_ok_def t by (subst splay_minmax_loop.simps) simp
    next
      case l: (Node ll b lr)
      have b: "b \<noteq> NULL" using splay_rep_child(1) [OF rep, of b] l by auto
      obtain s1 s2 where s1: "SPLAY_ROTATE_RIGHT b s = Some s1" "splay_rep nd Ls (Node ll b (Node lr a r)) Rs lf rg s1"
          "frame (rep_nodes nd Ls t Rs) s s1" and s2: "SPLAY_LINKLEFT rg s1 = Some (b, s2)"
          "splay_rep nd Ls ll (Rs @ [(b, Node lr a r)]) lf b s2" "frame (rep_nodes nd Ls t Rs) s s2"
        using rotate_link_left [of nd Ls ll b lr a r Rs lf rg s] rep unfolding l t by metis
      have "addr ll = NULL \<longleftrightarrow> ll = Leaf" using splay_rep_child(1) [OF s1(2)] by (cases ll) auto
      then have "splay_minmax_loop c lf rg s = (if ll = Leaf then Some (lf, rg, s1) else splay_minmax_loop c lf b s2)"
        using neg b root l s1(1) s2(1) splay_rep_root [OF s1(2)] by (subst splay_minmax_loop.simps) simp
      then show ?thesis using neg s1 s2 unfolding turn_ok_def t l by (cases "ll = Leaf") auto
    qed
  next
    case False
    then have pos: "c > 0" using c by simp
    show ?thesis
    proof (cases r)
      case Leaf
      then show ?thesis using rep pos root unfolding turn_ok_def t by (subst splay_minmax_loop.simps) simp
    next
      case r: (Node rl b rr)
      have b: "b \<noteq> NULL" using splay_rep_child(1) [OF rep, of b] r by auto
      obtain s1 s2 where s1: "SPLAY_ROTATE_LEFT b s = Some s1" "splay_rep nd Ls (Node (Node l a rl) b rr) Rs lf rg s1"
          "frame (rep_nodes nd Ls t Rs) s s1" and s2: "SPLAY_LINKRIGHT lf s1 = Some (b, s2)"
          "splay_rep nd (Ls @ [(b, Node l a rl)]) rr Rs b rg s2" "frame (rep_nodes nd Ls t Rs) s s2"
        using rotate_link_right [of nd Ls l a rl b rr Rs lf rg s] rep unfolding r t by metis
      have "addr rr = NULL \<longleftrightarrow> rr = Leaf" using splay_rep_child(1) [OF s1(2)] by (cases rr) auto
      then have "splay_minmax_loop c lf rg s = (if rr = Leaf then Some (lf, rg, s1) else splay_minmax_loop c b rg s2)"
        using pos b root r s1(1) s2(1) splay_rep_root [OF s1(2)] by (subst splay_minmax_loop.simps) simp
      then show ?thesis using pos s1 s2 unfolding turn_ok_def t r by (cases "rr = Leaf") auto
    qed
  qed
qed


subsection \<open>The operations\<close>

text \<open>A splay tree at rest: the address of the local element is free.\<close>

definition splay_tree :: "ptr \<Rightarrow> ptr tree \<Rightarrow> splay_head \<Rightarrow> bool" where
  "splay_tree nd t s \<longleftrightarrow> is_tree (sp_nodes s) (sph_root s) t \<and> distinct (inorder t) \<and> sp_nodes s nd = None"

lemma run_loop:
  assumes turn: "\<And>Ls t Rs lf rg s'. splay_rep nd Ls t Rs lf rg s' \<Longrightarrow> t \<noteq> Leaf \<Longrightarrow> frame (insert nd (set_tree t0)) (new_node nd s) s' \<Longrightarrow>
      turn_ok f nd Ls t Rs lf rg s' loop"
    and t: "splay_tree nd t0 s" "t0 \<noteq> Leaf"
  shows "\<exists>s'. (loop nd nd (new_node nd s) \<bind> (\<lambda>(lft, rgt, s). SPLAY_ASSEMBLE nd lft rgt s \<bind> (\<lambda>s. Some (end_node nd s)))) = Some s' \<and>
     splay_tree nd (atop f t0) s' \<and> frame (set_tree t0) s s'"
proof -
  have tr: "is_tree (sp_nodes s) (sph_root s) t0" "distinct (inorder t0)" "sp_nodes s nd = None" using t(1) by (simp_all add: splay_tree_def)
  have nd: "nd \<notin> set_tree t0" using is_tree_dom [OF tr(1)] tr(3) by auto
  have "splay_rep nd [] t0 [] nd nd (new_node nd s)" using tr nd by (simp add: splay_rep_def new_node_def)
  then obtain Ls t' Rs lf rg s1 where as: "asplay f [] t0 [] = (Ls, t', Rs)" and lp: "loop nd nd (new_node nd s) = Some (lf, rg, s1)"
    and rep: "splay_rep nd Ls t' Rs lf rg s1" and fr: "frame (insert nd (set_tree t0)) (new_node nd s) s1"
    using loop_refines [where loop = loop and f = f and nd = nd and A = "insert nd (set_tree t0)" and ?s0.0 = "new_node nd s" and s = "new_node nd s"
        and Ls = "[]" and Rs = "[]" and t = t0 and lf = nd and rg = nd] turn t(2)
    by (auto simp: rep_nodes_def)
  obtain l a r where t': "t' = Node l a r" using asplay_root [OF as t(2)] by (cases t') (auto simp: ends_at_root_def)
  have seq: "inorder t0 = seqL Ls @ inorder t' @ seqR Rs" using asplay_seq [OF as] by simp
  then have set: "rep_nodes nd Ls t' Rs = insert nd (set_tree t0)" by (auto simp: rep_nodes_def simp flip: set_inorder)
  obtain s2 where s2: "SPLAY_ASSEMBLE nd lf rg s1 = Some s2" "sph_root s2 = a" "is_tree (sp_nodes s2) a (Node (plugL Ls l) a (plugR Rs r))"
    "frame (insert nd (set_tree t0)) s1 s2"
    using ASSEMBLE_rep [OF rep [unfolded t']] set t' by auto
  have top: "atop f t0 = Node (plugL Ls l) a (plugR Rs r)" using as t' by (simp add: atop_def)
  have io: "inorder (atop f t0) = inorder t0" using top seq t' by simp
  then have ndt: "nd \<notin> set_tree (atop f t0)" using nd by (simp flip: set_inorder)
  have "frame (insert nd (set_tree t0)) (new_node nd s) s2" by (rule frame_trans [OF fr s2(4)])
  then have "frame (set_tree t0) s (end_node nd s2)"
    using tr(3) by (auto simp: frame_def new_node_def end_node_def)
  moreover have "splay_tree nd (atop f t0) (end_node nd s2)"
    unfolding splay_tree_def using s2(2,3) top io tr(2) ndt by (simp add: end_node_def del: is_tree.simps)
  ultimately show ?thesis using lp s2(1) by simp
qed

lemma SPLAY_ok:
  assumes "splay_tree nd t s" "t \<noteq> Leaf" "sp_nodes s elm \<noteq> None"
  shows "\<exists>s'. name_SPLAY cmp nd elm s = Some s' \<and> splay_tree nd (atop (cmp elm) t) s' \<and> frame (set_tree t) s s'"
proof -
  have "sp_nodes s' elm \<noteq> None" if "frame (insert nd (set_tree t)) (new_node nd s) s'" for s'
    using frame_dom [OF that, of elm] assms(3) by (auto simp: new_node_def)
  then show ?thesis unfolding name_SPLAY_def by (intro run_loop [OF splay_turn assms(1,2)])
qed

lemma SPLAY_MINMAX_ok:
  assumes "splay_tree nd t s" "t \<noteq> Leaf" "c \<noteq> 0"
  shows "\<exists>s'. name_SPLAY_MINMAX nd c s = Some s' \<and> splay_tree nd (atop (\<lambda>_. c) t) s' \<and> frame (set_tree t) s s'"
  unfolding name_SPLAY_MINMAX_def by (intro run_loop [OF minmax_turn assms(1,2)] assms(3))

lemma splay_tree_root: "splay_tree nd (Node l a r) s \<Longrightarrow> sph_root s = a \<and> sp_nodes s a \<noteq> None \<and> a \<noteq> NULL"
  by (auto simp: splay_tree_def split: option.splits)

lemma SPLAY_EMPTY_iff: "splay_tree nd t s \<Longrightarrow> SPLAY_EMPTY s \<longleftrightarrow> t = Leaf"
  using is_tree_Leaf_iff [of "sp_nodes s" "sph_root s" t] by (simp add: splay_tree_def SPLAY_EMPTY_def SPLAY_ROOT_def)

subsection \<open>The elements in order\<close>

text \<open>
  The state represents the elements \<open>xs\<close>. A comparison with a key descends along ascending elements.
\<close>

definition splay_list :: "(ptr \<Rightarrow> ptr \<Rightarrow> int) \<Rightarrow> ptr \<Rightarrow> splay_head \<Rightarrow> ptr list \<Rightarrow> bool" where
  "splay_list cmp nd s xs \<longleftrightarrow> cmp_ok cmp \<and> ascending cmp xs \<and> (\<exists>t. splay_tree nd t s \<and> inorder t = xs)"

lemma ascending_descends: "cmp_ok cmp \<Longrightarrow> ascending cmp xs \<Longrightarrow> descends (cmp e) xs"
  unfolding ascending_def descends_def by (rule sorted_wrt_mono_rel) (auto intro: cmp_less_trans)

text \<open>The splay step of every operation.\<close>

lemma splay_list_split:
  assumes "splay_list cmp nd s xs" "xs \<noteq> []" "sp_nodes s elm \<noteq> None"
  obtains s' l a r where "name_SPLAY cmp nd elm s = Some s'" "splay_tree nd (Node l a r) s'" "xs = inorder l @ a # inorder r"
    "\<forall>x \<in> set_tree l. cmp elm x > 0" "\<forall>x \<in> set_tree r. cmp elm x < 0" "frame (set xs) s s'" "sph_root s' = a"
    "call_cmp cmp elm a s' = Some (cmp elm a)"
proof -
  obtain t where t: "splay_tree nd t s" "inorder t = xs" "cmp_ok cmp" "ascending cmp xs" using assms(1) by (auto simp: splay_list_def)
  then have "t \<noteq> Leaf" using assms(2) by auto
  moreover obtain s' where s': "name_SPLAY cmp nd elm s = Some s'" "splay_tree nd (atop (cmp elm) t) s'" "frame (set_tree t) s s'"
    using SPLAY_ok [OF t(1) calculation assms(3)] by blast
  moreover obtain l a r where "atop (cmp elm) t = Node l a r" "inorder t = inorder l @ a # inorder r"
    "\<forall>x \<in> set_tree l. cmp elm x > 0" "\<forall>x \<in> set_tree r. cmp elm x < 0"
    using atop_split [of t "cmp elm"] calculation(1) ascending_descends [OF t(3,4), of elm] t(2) by blast
  moreover have "set_tree t = set xs" using t(2) by auto
  ultimately show ?thesis
    using that t(2) splay_tree_root frame_dom [OF s'(3) assms(3)] by (simp add: call_cmp_def)
qed


lemma splay_list_frame: "frame A s s' \<Longrightarrow> dom (sp_nodes s') = dom (sp_nodes s)"
  by (simp add: frame_def)

lemma splay_listI:
  "splay_list cmp nd s xs \<Longrightarrow> splay_tree nd t s' \<Longrightarrow> inorder t = xs \<Longrightarrow> splay_list cmp nd s' xs"
  by (auto simp: splay_list_def)

lemma splay_list_Nil: "splay_list cmp nd s [] \<Longrightarrow> SPLAY_EMPTY s"
  using SPLAY_EMPTY_iff by (auto simp: splay_list_def)

lemma splay_list_not_Nil: "splay_list cmp nd s xs \<Longrightarrow> xs \<noteq> [] \<Longrightarrow> \<not> SPLAY_EMPTY s"
  using SPLAY_EMPTY_iff by (fastforce simp: splay_list_def)

lemma splay_find_ok:
  assumes "splay_list cmp nd s xs" "sp_nodes s e \<noteq> None"
  shows "\<exists>s'. name_SPLAY_FIND cmp nd e s = Some (ord_find cmp e xs, s') \<and> splay_list cmp nd s' xs \<and> frame (set xs) s s'"
proof (cases "xs = []")
  case True
  then show ?thesis using assms splay_list_Nil by (auto simp: name_SPLAY_FIND_def ord_find_def)
next
  case False
  obtain s' l a r where s': "name_SPLAY cmp nd e s = Some s'" "splay_tree nd (Node l a r) s'" "xs = inorder l @ a # inorder r"
    "\<forall>x \<in> set_tree l. cmp e x > 0" "\<forall>x \<in> set_tree r. cmp e x < 0" "frame (set xs) s s'" "sph_root s' = a"
    "call_cmp cmp e a s' = Some (cmp e a)"
    using splay_list_split [OF assms(1) False assms(2)] .
  then have "ord_find cmp e xs = (if cmp e a = 0 then a else NULL)" by (simp add: ord_find_split)
  then show ?thesis
    using s' splay_list_not_Nil [OF assms(1) False] splay_listI [OF assms(1) s'(2)] by (simp add: name_SPLAY_FIND_def)
qed

lemma splay_insert_ok:
  assumes "splay_list cmp nd s xs" "sp_nodes s e \<noteq> None" "e \<noteq> NULL" "e \<notin> set xs"
  shows "\<exists>s'. name_SPLAY_INSERT cmp nd e s = Some (ord_find cmp e xs, s') \<and> splay_list cmp nd s' (ord_insert cmp e xs) \<and>
     frame (insert e (set xs)) s s'"
proof -
  have ok: "cmp_ok cmp" "ascending cmp xs" and asc: "ascending cmp (ord_insert cmp e xs)"
    using assms(1) ascending_ord_insert by (auto simp: splay_list_def)
  show ?thesis
  proof (cases "xs = []")
    case True
    then have "sp_nodes s nd = None" "e \<noteq> nd" using assms(1,2) by (auto simp: splay_list_def splay_tree_def)
    then have "splay_tree nd (Node Leaf e Leaf) (s\<lparr>sp_nodes := (sp_nodes s)(e \<mapsto> (the (sp_nodes s e))\<lparr>spe_right := NULL, spe_left := NULL\<rparr>), sph_root := e\<rparr>)"
      using assms(3) by (simp add: splay_tree_def)
    then show ?thesis
      using True assms splay_list_Nil [of cmp nd s] ok asc
      by (auto simp: name_SPLAY_INSERT_def splay_acc ord_find_def ord_insert_def splay_list_def frame_def intro!: exI [of _ "Node Leaf e Leaf"])
  next
    case False
    obtain s1 l a r where s1: "name_SPLAY cmp nd e s = Some s1" "splay_tree nd (Node l a r) s1" "xs = inorder l @ a # inorder r"
      "\<forall>x \<in> set_tree l. cmp e x > 0" "\<forall>x \<in> set_tree r. cmp e x < 0" "frame (set xs) s s1" "sph_root s1 = a"
      "call_cmp cmp e a s1 = Some (cmp e a)"
      using splay_list_split [OF assms(1) False assms(2)] .
    obtain ea where ea: "sp_nodes s1 a = Some ea" "is_tree (sp_nodes s1) (spe_left ea) l" "is_tree (sp_nodes s1) (spe_right ea) r" "a \<noteq> NULL"
      using s1(2) unfolding splay_tree_def by (auto elim!: is_tree_NodeD simp del: is_tree.simps)
    obtain ee where ee: "sp_nodes s1 e = Some ee" using frame_dom [OF s1(6) assms(2)] by auto
    have d: "e \<noteq> a" "e \<notin> set_tree l" "e \<notin> set_tree r" "a \<notin> set_tree l" "a \<notin> set_tree r" "sp_nodes s1 nd = None" "e \<noteq> nd" "a \<noteq> nd"
      using s1(2,3) assms(4) ea ee by (auto simp: splay_tree_def)
    have io: "distinct (inorder l @ a # inorder r)" using s1(2) by (simp add: splay_tree_def)
    note em = splay_list_not_Nil [OF assms(1) False]
    consider "cmp e a < 0" | "cmp e a > 0" | "cmp e a = 0" by linarith
    then show ?thesis
    proof cases
      case 1
      define s' where "s' = s1\<lparr>sp_nodes := (sp_nodes s1)(e \<mapsto> ee\<lparr>spe_left := spe_left ea, spe_right := a\<rparr>, a \<mapsto> ea\<lparr>spe_left := NULL\<rparr>), sph_root := e\<rparr>"
      have run: "name_SPLAY_INSERT cmp nd e s = Some (NULL, s')"
        using em s1 1 ea ee d by (simp add: name_SPLAY_INSERT_def splay_acc s'_def)
      have "splay_tree nd (Node l e (Node Leaf a r)) s'" using ea ee d io assms(3) by (auto simp: splay_tree_def s'_def)
      then have "splay_list cmp nd s' (ord_insert cmp e xs)"
        using ok(1) asc 1 s1(3-5) by (auto simp: splay_list_def ord_insert_split intro!: exI [of _ "Node l e (Node Leaf a r)"])
      moreover have "frame (insert e (set xs)) s s'"
        by (rule frame_trans [OF frame_mono [OF s1(6)]]) (use s1(3) ea ee in \<open>auto simp: frame_def s'_def\<close>)
      ultimately show ?thesis using run 1 s1(3-5) by (simp add: ord_find_split)
    next
      case 2
      define s' where "s' = s1\<lparr>sp_nodes := (sp_nodes s1)(e \<mapsto> ee\<lparr>spe_right := spe_right ea, spe_left := a\<rparr>, a \<mapsto> ea\<lparr>spe_right := NULL\<rparr>), sph_root := e\<rparr>"
      have run: "name_SPLAY_INSERT cmp nd e s = Some (NULL, s')"
        using em s1 2 ea ee d by (simp add: name_SPLAY_INSERT_def splay_acc s'_def)
      have "splay_tree nd (Node (Node l a Leaf) e r) s'" using ea ee d io assms(3) by (auto simp: splay_tree_def s'_def)
      then have "splay_list cmp nd s' (ord_insert cmp e xs)"
        using ok(1) asc 2 s1(3-5) by (auto simp: splay_list_def ord_insert_split intro!: exI [of _ "Node (Node l a Leaf) e r"])
      moreover have "frame (insert e (set xs)) s s'"
        by (rule frame_trans [OF frame_mono [OF s1(6)]]) (use s1(3) ea ee in \<open>auto simp: frame_def s'_def\<close>)
      ultimately show ?thesis using run 2 s1(3-5) by (simp add: ord_find_split)
    next
      case 3
      then have "ord_insert cmp e xs = xs" using s1(3) by (simp add: ord_insert_def)
      moreover have "frame (insert e (set xs)) s s1" using frame_mono [OF s1(6)] by auto
      ultimately show ?thesis
        using em s1 3 splay_listI [OF assms(1) s1(2)] by (simp add: name_SPLAY_INSERT_def ord_find_split)
    qed
  qed
qed


text \<open>Removal by a key, which need not be an element itself.\<close>

lemma splay_remove_ok:
  assumes sl: "splay_list cmp nd s xs" and e: "sp_nodes s e \<noteq> None"
  shows "\<exists>s'. name_SPLAY_REMOVE cmp nd e s = Some (if \<exists>x \<in> set xs. cmp e x = 0 then e else NULL, s') \<and>
     splay_list cmp nd s' (filter (\<lambda>x. cmp e x \<noteq> 0) xs) \<and> frame (set xs) s s'"
proof (cases "xs = []")
  case True
  then show ?thesis using sl splay_list_Nil by (auto simp: name_SPLAY_REMOVE_def)
next
  case False
  obtain s1 l a r where s1: "name_SPLAY cmp nd e s = Some s1" "splay_tree nd (Node l a r) s1" "xs = inorder l @ a # inorder r"
    "\<forall>x \<in> set_tree l. cmp e x > 0" "\<forall>x \<in> set_tree r. cmp e x < 0" "frame (set xs) s s1" "sph_root s1 = a"
    "call_cmp cmp e a s1 = Some (cmp e a)"
    using splay_list_split [OF sl False e] .
  have ok: "cmp_ok cmp" "ascending cmp xs" using sl by (auto simp: splay_list_def)
  note em = splay_list_not_Nil [OF sl False]
  have asc: "ascending cmp (filter P xs)" for P using ok(2) by (auto simp: ascending_def intro: sorted_wrt_filter)
  have ids: "filter (\<lambda>x. cmp e x \<noteq> 0) (inorder l) = inorder l" "filter (\<lambda>x. cmp e x \<noteq> 0) (inorder r) = inorder r"
    using s1(4,5) by (auto simp: filter_id_conv)
  show ?thesis
  proof (cases "cmp e a = 0")
    case False
    then have "filter (\<lambda>x. cmp e x \<noteq> 0) xs = xs" "\<not> (\<exists>x \<in> set xs. cmp e x = 0)" using s1(3-5) ids by auto
    then show ?thesis
      using em s1 False splay_listI [OF sl s1(2)] by (simp add: name_SPLAY_REMOVE_def)
  next
    case True
    then have fl: "filter (\<lambda>x. cmp e x \<noteq> 0) xs = inorder l @ inorder r" and ex: "\<exists>x \<in> set xs. cmp e x = 0" using s1(3) ids by auto
    obtain ea where ea: "sp_nodes s1 a = Some ea" "is_tree (sp_nodes s1) (spe_left ea) l" "is_tree (sp_nodes s1) (spe_right ea) r"
      using s1(2) unfolding splay_tree_def by (auto elim!: is_tree_NodeD simp del: is_tree.simps)
    have io: "distinct (inorder l @ a # inorder r)" and nd: "sp_nodes s1 nd = None" using s1(2) by (simp_all add: splay_tree_def)
    show ?thesis
    proof (cases "l = Leaf")
      case l: True
      then have "spe_left ea = NULL" using ea(2) by simp
      then have "name_SPLAY_REMOVE cmp nd e s = Some (e, s1\<lparr>sph_root := spe_right ea\<rparr>)"
        using em s1 True ea by (simp add: name_SPLAY_REMOVE_def splay_acc)
      moreover have "splay_tree nd r (s1\<lparr>sph_root := spe_right ea\<rparr>)" using ea io nd by (simp add: splay_tree_def)
      then have "splay_list cmp nd (s1\<lparr>sph_root := spe_right ea\<rparr>) (inorder r)" using ok(1) asc [of "\<lambda>x. cmp e x \<noteq> 0"] fl l by (auto simp: splay_list_def)
      ultimately show ?thesis using ex fl l s1(6) by (simp add: frame_def)
    next
      case l: False
      then have lp: "spe_left ea \<noteq> NULL" using ea(2) is_tree_Leaf_iff by blast
      let ?s = "s1\<lparr>sph_root := spe_left ea\<rparr>"
      have tl: "splay_tree nd l ?s" using ea io nd by (simp add: splay_tree_def)
      have e1: "sp_nodes s1 e \<noteq> None" using frame_dom [OF s1(6) e] .
      have "ascending cmp (inorder l)" using ok(2) s1(3) by (simp add: ascending_def sorted_wrt_append)
      then have sll: "splay_list cmp nd ?s (inorder l)" using tl ok(1) by (auto simp: splay_list_def)
      have "inorder l \<noteq> []" "sp_nodes ?s e \<noteq> None" using l e1 by (cases l; auto)+
      from splay_list_split [OF sll this] obtain s2 l2 b r2 where s2: "name_SPLAY cmp nd e ?s = Some s2" "splay_tree nd (Node l2 b r2) s2" "inorder l = inorder l2 @ b # inorder r2"
        "\<forall>x \<in> set_tree r2. cmp e x < 0" "frame (set (inorder l)) ?s s2" "sph_root s2 = b"
        by metis
      have "set_tree r2 \<subseteq> set_tree l" using s2(3) by (metis Un_upper2 set_append set_inorder set_subset_Cons subset_trans)
      then have "\<forall>x \<in> set_tree r2. 0 < cmp e x \<and> cmp e x < 0" using s1(4) s2(4) by blast
      then have r2: "r2 = Leaf" by (cases r2) auto
      obtain eb where eb: "sp_nodes s2 b = Some eb" "is_tree (sp_nodes s2) (spe_left eb) l2" "b \<noteq> NULL"
        using s2(2) unfolding splay_tree_def by (auto elim!: is_tree_NodeD simp del: is_tree.simps)
      define s' where "s' = s2\<lparr>sp_nodes := (sp_nodes s2)(b \<mapsto> eb\<lparr>spe_right := spe_right ea\<rparr>)\<rparr>"
      have run: "name_SPLAY_REMOVE cmp nd e s = Some (e, s')"
        using em s1 True ea lp s2(1,6) eb by (simp add: name_SPLAY_REMOVE_def splay_acc s'_def)
      have dis: "distinct (inorder l2 @ b # inorder r)" "set_tree r \<inter> set (inorder l) = {}" using io s2(3) r2 by auto
      have "is_tree (sp_nodes s2) (spe_right ea) r = is_tree (sp_nodes s1) (spe_right ea) r"
        by (rule is_tree_cong) (use s2(5) dis(2) in \<open>auto simp: frame_def\<close>)
      then have "splay_tree nd (Node l2 b r) s'"
        using eb ea(3) dis s2(2,6) by (auto simp: splay_tree_def s'_def)
      moreover have "inorder (Node l2 b r) = inorder l @ inorder r" using s2(3) r2 by simp
      ultimately have "splay_list cmp nd s' (inorder l @ inorder r)" using ok(1) asc fl unfolding splay_list_def by metis
      moreover have bxs: "b \<in> set xs" "set (inorder l) \<subseteq> set xs" using s1(3) s2(3) by auto
      have "frame (set xs) s1 s'"
        using frame_mono [OF s2(5) bxs(2)] eb(1) bxs(1) by (auto simp: frame_def s'_def)
      ultimately show ?thesis using run ex fl frame_trans [OF s1(6)] by auto
    qed
  qed
qed

lemma splay_leftmost_ok: "is_tree (sp_nodes s) p t \<Longrightarrow> t \<noteq> Leaf \<Longrightarrow> splay_leftmost p s = Some (ord_first (inorder t))"
proof (induction t arbitrary: p)
  case (Node l a r)
  obtain e where e: "p = a" "sp_nodes s a = Some e" "is_tree (sp_nodes s) (spe_left e) l" using Node.prems(1) by (rule is_tree_NodeD)
  show ?case
  proof (cases "l = Leaf")
    case True
    then show ?thesis using e by (subst splay_leftmost.simps) (simp add: SPLAY_LEFT_def)
  next
    case False
    then have "inorder l \<noteq> []" by (cases l) auto
    then have "ord_first (inorder (Node l a r)) = ord_first (inorder l)" by (cases "inorder l") auto
    moreover have "spe_left e \<noteq> NULL" using is_tree_Leaf_iff [OF e(3)] False by simp
    ultimately show ?thesis using e Node.IH(1) [OF e(3) False] by (subst splay_leftmost.simps) (simp add: SPLAY_LEFT_def)
  qed
qed simp

lemma splay_next_ok:
  assumes sl: "splay_list cmp nd s xs" and e: "e \<in> set xs"
  shows "\<exists>s'. name_SPLAY_NEXT cmp nd e s = Some (ord_next e xs, s') \<and> splay_list cmp nd s' xs \<and> frame (set xs) s s'"
proof -
  have ne: "xs \<noteq> []" using e by auto
  have "sp_nodes s e \<noteq> None" using sl e is_tree_dom by (fastforce simp: splay_list_def splay_tree_def simp flip: set_inorder)
  then obtain s1 l a r where s1: "name_SPLAY cmp nd e s = Some s1" "splay_tree nd (Node l a r) s1" "xs = inorder l @ a # inorder r"
    "\<forall>x \<in> set_tree l. cmp e x > 0" "\<forall>x \<in> set_tree r. cmp e x < 0" "frame (set xs) s s1"
    using splay_list_split [OF sl ne] by metis
  have "cmp e e = 0" using sl by (simp add: splay_list_def cmp_refl)
  then have a: "a = e" using e s1(3-5) by fastforce
  obtain ea where ea: "sp_nodes s1 a = Some ea" "is_tree (sp_nodes s1) (spe_right ea) r"
    using s1(2) unfolding splay_tree_def by (auto elim!: is_tree_NodeD simp del: is_tree.simps)
  have "(if spe_right ea \<noteq> NULL then splay_leftmost (spe_right ea) s1 else Some NULL) = Some (ord_first (inorder r))"
    using splay_leftmost_ok [OF ea(2)] is_tree_Leaf_iff [OF ea(2)] by (cases "r = Leaf") auto
  moreover have "ord_next e xs = ord_first (inorder r)"
    using ord_next_append [of e "inorder l" "inorder r"] s1(2,3) a by (auto simp: splay_tree_def)
  ultimately show ?thesis
    using s1 a ea splay_listI [OF sl s1(2)] by (simp add: name_SPLAY_NEXT_def splay_acc)
qed

lemma splay_minmax_ok:
  assumes sl: "splay_list cmp nd s xs" and ne: "xs \<noteq> []" and c: "c \<noteq> 0"
  shows "\<exists>s'. name_SPLAY_MIN_MAX nd c s = Some (if c < 0 then ord_first xs else ord_last xs, s') \<and> splay_list cmp nd s' xs \<and> frame (set xs) s s'"
proof -
  obtain t where t: "splay_tree nd t s" "inorder t = xs" using sl by (auto simp: splay_list_def)
  then have nl: "t \<noteq> Leaf" using ne by auto
  obtain s1 where s1: "name_SPLAY_MINMAX nd c s = Some s1" "splay_tree nd (atop (\<lambda>_. c) t) s1" "frame (set_tree t) s s1"
    using SPLAY_MINMAX_ok [OF t(1) nl c] by blast
  have "descends (\<lambda>_. c) (inorder t)" using c by (cases "c < 0") (simp_all add: descends_def sorted_wrt_true)
  then obtain l a r where at: "atop (\<lambda>_. c) t = Node l a r" "inorder t = inorder l @ a # inorder r"
    "\<forall>x \<in> set_tree l. c > 0" "\<forall>x \<in> set_tree r. c < 0"
    using atop_split [OF nl] by metis
  have "c < 0 \<longrightarrow> l = Leaf" using at(3) by (cases l) auto
  moreover have "\<not> c < 0 \<longrightarrow> r = Leaf" using at(4) by (cases r) auto
  ultimately have "a = (if c < 0 then ord_first xs else ord_last xs)" using at(2) t(2) by (auto simp: ord_last_def)
  moreover have "sph_root s1 = a" using splay_tree_root s1(2) at(1) by metis
  moreover have "set_tree t = set xs" using t(2) by auto
  ultimately show ?thesis
    using s1 splay_listI [OF sl s1(2)] at t(2) by (simp add: name_SPLAY_MIN_MAX_def SPLAY_ROOT_def)
qed

lemma splay_min_ok:
  assumes "splay_list cmp nd s xs"
  shows "\<exists>s'. SPLAY_MIN nd s = Some (ord_first xs, s') \<and> splay_list cmp nd s' xs \<and> frame (set xs) s s'"
    "\<exists>s'. SPLAY_MAX nd s = Some (ord_last xs, s') \<and> splay_list cmp nd s' xs \<and> frame (set xs) s s'"
  using splay_minmax_ok [OF assms, of "-1"] splay_minmax_ok [OF assms, of 1] splay_list_Nil [of cmp nd s] splay_list_not_Nil [OF assms] assms
  by (cases "xs = []"; auto simp: SPLAY_MIN_def SPLAY_MAX_def SPLAY_NEGINF_def SPLAY_INF_def ord_last_def)+

subsection \<open>The contract of an ordered tree\<close>

definition splay_ops :: "(ptr \<Rightarrow> ptr \<Rightarrow> int) \<Rightarrow> ptr \<Rightarrow> splay_head tree_ops" where
  "splay_ops cmp nd = \<lparr>t_find = name_SPLAY_FIND cmp nd, t_insert = name_SPLAY_INSERT cmp nd, t_remove = name_SPLAY_REMOVE cmp nd,
     t_min = SPLAY_MIN nd, t_max = SPLAY_MAX nd, t_next = name_SPLAY_NEXT cmp nd\<rparr>"

lemma remove1_filter:
  assumes "cmp_ok cmp" "ascending cmp xs" "e \<in> set xs"
  shows "filter (\<lambda>x. cmp e x \<noteq> 0) xs = remove1 e xs"
proof -
  have "cmp e x \<noteq> 0 \<longleftrightarrow> x \<noteq> e" if "x \<in> set xs" for x
    using ascending_unique [OF assms(1,2) that assms(3)] cmp_refl [OF assms(1)] by auto
  then have "filter (\<lambda>x. cmp e x \<noteq> 0) xs = filter ((\<noteq>) e) xs" by (auto intro: filter_cong)
  then show ?thesis using ascending_distinct [OF assms(1,2)] by (simp add: distinct_remove1_removeAll removeAll_filter_not_eq)
qed

interpretation splay: search_tree cmp "splay_ops cmp nd" "splay_list cmp nd" "\<lambda>s. dom (sp_nodes s)" for cmp nd
proof unfold_locales
  fix s xs e
  assume sl: "splay_list cmp nd s xs"
  obtain t where t: "is_tree (sp_nodes s) (sph_root s) t" "inorder t = xs" using sl by (auto simp: splay_list_def splay_tree_def)
  then show "cmp_ok cmp \<and> ascending cmp xs \<and> NULL \<notin> set xs \<and> set xs \<subseteq> dom (sp_nodes s)"
    using sl is_tree_dom [OF t(1)] is_tree_NULL [OF t(1)] by (auto simp: splay_list_def)
  show "\<exists>s'. t_find (splay_ops cmp nd) e s = Some (ord_find cmp e xs, s') \<and> splay_list cmp nd s' xs \<and> dom (sp_nodes s') = dom (sp_nodes s)"
    if "e \<in> dom (sp_nodes s)"
    using splay_find_ok [OF sl, of e] that splay_list_frame by (force simp: splay_ops_def)
  show "\<exists>s'. t_insert (splay_ops cmp nd) e s = Some (ord_find cmp e xs, s') \<and> splay_list cmp nd s' (ord_insert cmp e xs) \<and> dom (sp_nodes s') = dom (sp_nodes s)"
    if "e \<in> dom (sp_nodes s)" "e \<noteq> NULL" "e \<notin> set xs"
    using splay_insert_ok [OF sl, of e] that splay_list_frame by (force simp: splay_ops_def)
  show "\<exists>s'. t_remove (splay_ops cmp nd) e s = Some (e, s') \<and> splay_list cmp nd s' (remove1 e xs) \<and> dom (sp_nodes s') = dom (sp_nodes s)"
    if "e \<in> set xs"
  proof -
    have "sp_nodes s e \<noteq> None" "\<exists>x \<in> set xs. cmp e x = 0" using that t is_tree_dom [OF t(1)] sl by (auto simp: splay_list_def intro: cmp_refl)
    then show ?thesis using splay_remove_ok [OF sl, of e] remove1_filter [of cmp xs e] that sl splay_list_frame by (force simp: splay_ops_def splay_list_def)
  qed
  show "\<exists>s'. t_min (splay_ops cmp nd) s = Some (ord_first xs, s') \<and> splay_list cmp nd s' xs \<and> dom (sp_nodes s') = dom (sp_nodes s)"
    using splay_min_ok(1) [OF sl] splay_list_frame by (force simp: splay_ops_def)
  show "\<exists>s'. t_max (splay_ops cmp nd) s = Some (ord_last xs, s') \<and> splay_list cmp nd s' xs \<and> dom (sp_nodes s') = dom (sp_nodes s)"
    using splay_min_ok(2) [OF sl] splay_list_frame by (force simp: splay_ops_def)
  show "\<exists>s'. t_next (splay_ops cmp nd) e s = Some (ord_next e xs, s') \<and> splay_list cmp nd s' xs \<and> dom (sp_nodes s') = dom (sp_nodes s)"
    if "e \<in> set xs"
    using splay_next_ok [OF sl that] splay_list_frame by (force simp: splay_ops_def)
qed


text \<open>
  C14: A splay tree refines the ordered list of its elements. Started by \<open>SPLAY_INIT\<close>, every sequence of
  find, insert, remove, minimum, maximum and successor calls within the contract returns, touches
  allocated elements only, answers every call as the list does and leaves a tree with the elements
  of the list, in order.
\<close>
theorem splay_tree_refines_ordered_list:
  assumes "cmp_ok cmp" "sp_nodes s nd = None" "ord_run cmp cs [] = Some (rs, xs)" "(\<Union>c \<in> set cs. op_elm c) \<subseteq> dom (sp_nodes s)"
  shows "\<exists>s'. tree_run (splay_ops cmp nd) cs (SPLAY_INIT s) = Some (rs, s') \<and> splay_list cmp nd s' xs \<and> dom (sp_nodes s') = dom (sp_nodes s)"
proof -
  have "splay_list cmp nd (SPLAY_INIT s) []"
    using assms(1,2) by (auto simp: splay_list_def splay_tree_def ascending_def SPLAY_INIT_def intro!: exI [of _ Leaf])
  then show ?thesis using splay.run_refines [of cmp nd "SPLAY_INIT s" "[]" cs rs xs] assms(3,4) by (simp add: SPLAY_INIT_def)
qed

text \<open>
  C26: A splay keeps the elements and their order, changes no memory but the links of the elements, and
  brings the element that is equal to the key to the root if there is one; otherwise a neighbour of
  the place of the key. Removal by a key takes the equal element out and returns the key that was
  passed, not the element, or \<open>NULL\<close> if there was none.
\<close>
theorem splay_moves_key_to_root:
  assumes "splay_list cmp nd s xs" "xs \<noteq> []" "sp_nodes s e \<noteq> None"
  shows "\<exists>s' ls rs s''. name_SPLAY cmp nd e s = Some s' \<and> splay_list cmp nd s' xs \<and> frame (set xs) s s' \<and>
     xs = ls @ sph_root s' # rs \<and> (\<forall>x \<in> set ls. cmp e x > 0) \<and> (\<forall>x \<in> set rs. cmp e x < 0) \<and>
     ((\<exists>x \<in> set xs. cmp e x = 0) = (cmp e (sph_root s') = 0)) \<and>
     name_SPLAY_REMOVE cmp nd e s = Some (if cmp e (sph_root s') = 0 then e else NULL, s'') \<and>
     splay_list cmp nd s'' (if cmp e (sph_root s') = 0 then ls @ rs else xs) \<and> frame (set xs) s s''"
proof -
  obtain s' l a r where s': "name_SPLAY cmp nd e s = Some s'" "splay_tree nd (Node l a r) s'" "xs = inorder l @ a # inorder r"
    "\<forall>x \<in> set_tree l. cmp e x > 0" "\<forall>x \<in> set_tree r. cmp e x < 0" "frame (set xs) s s'" "sph_root s' = a"
    using splay_list_split [OF assms] by metis
  have "filter (\<lambda>x. cmp e x \<noteq> 0) (inorder l) = inorder l" "filter (\<lambda>x. cmp e x \<noteq> 0) (inorder r) = inorder r"
    using s'(4,5) by (auto simp: filter_id_conv)
  then have fl: "filter (\<lambda>x. cmp e x \<noteq> 0) xs = (if cmp e a = 0 then inorder l @ inorder r else xs)" and
    ex: "(\<exists>x \<in> set xs. cmp e x = 0) = (cmp e a = 0)" using s'(3-5) by auto
  obtain s'' where "name_SPLAY_REMOVE cmp nd e s = Some (if cmp e a = 0 then e else NULL, s'')"
    "splay_list cmp nd s'' (if cmp e a = 0 then inorder l @ inorder r else xs)" "frame (set xs) s s''"
    using splay_remove_ok [OF assms(1,3)] unfolding ex fl by blast
  moreover have "splay_list cmp nd s' xs" using splay_listI [OF assms(1) s'(2)] s'(3) by simp
  ultimately show ?thesis using s' ex by (intro exI [of _ s'] exI [of _ "inorder l"] exI [of _ "inorder r"] exI [of _ s'']) simp
qed

text \<open>
  \<open>SPLAY_FOREACH\<close> ends and runs its body once for every element, in ascending order.
\<close>
theorem splay_foreach_visits_in_order:
  assumes "splay_list cmp nd s xs"
  shows "\<exists>s'. SPLAY_FOREACH body cmp nd u s = Some (fold body xs u, s') \<and> splay_list cmp nd s' xs"
proof -
  have "splay_foreach_loop body cmp nd x u s = (if x \<noteq> NULL then t_next (splay_ops cmp nd) x s \<bind> (\<lambda>(y, s). splay_foreach_loop body cmp nd y (body x u) s) else Some (u, s))" for x u s
    by (subst splay_foreach_loop.simps) (simp add: splay_ops_def)
  from splay.foreach_visits [where loop = "splay_foreach_loop body cmp nd" and u = u, OF this assms]
  show ?thesis by (auto simp: SPLAY_FOREACH_def splay_ops_def)
qed

subsection \<open>Instances\<close>

definition splay_pair :: splay_head where
  "splay_pair = \<lparr>sph_root = 0x20, sp_nodes = [0x10 \<mapsto> \<lparr>spe_left = NULL, spe_right = NULL\<rparr>, 0x20 \<mapsto> \<lparr>spe_left = 0x10, spe_right = NULL\<rparr>,
     0x30 \<mapsto> \<lparr>spe_left = NULL, spe_right = NULL\<rparr>]\<rparr>"

lemma splay_pair_list: "splay_list addr_cmp 0x99 splay_pair [0x10, 0x20]"
proof -
  have "splay_tree 0x99 (Node (Node Leaf 0x10 Leaf) 0x20 Leaf) splay_pair" by (simp add: splay_tree_def splay_pair_def)
  moreover have "ascending addr_cmp [0x10, 0x20]" by (simp add: ascending_def addr_cmp_def)
  ultimately show ?thesis using addr_cmp_ok unfolding splay_list_def by fastforce
qed

theorem splay_tree_refines_ordered_list_witness:
  "\<exists>s'. tree_run (splay_ops addr_cmp 0x99) [Insert_op 0x20, Insert_op 0x10, Min_op, Next_op 0x10, Remove_op 0x20, Max_op] (SPLAY_INIT splay_pair) =
     Some ([NULL, NULL, 0x10, 0x20, 0x20, 0x10], s') \<and> splay_list addr_cmp 0x99 s' [0x10]"
proof -
  have "ord_run addr_cmp [Insert_op 0x20, Insert_op 0x10, Min_op, Next_op 0x10, Remove_op 0x20, Max_op] [] =
      Some ([NULL, NULL, 0x10, 0x20, 0x20, 0x10], [0x10])"
    by (simp add: ord_find_def ord_insert_def ord_next_def ord_last_def addr_cmp_def)
  then show ?thesis
    using splay_tree_refines_ordered_list [OF addr_cmp_ok, of splay_pair "0x99"] by (fastforce simp: splay_pair_def)
qed

theorem splay_moves_key_to_root_witness:
  "\<exists>s' s''. name_SPLAY addr_cmp 0x99 0x10 splay_pair = Some s' \<and> sph_root s' = 0x10 \<and>
     name_SPLAY_REMOVE addr_cmp 0x99 0x30 splay_pair = Some (NULL, s'')"
proof -
  have m: "[0x10, 0x20 :: ptr] \<noteq> []" "sp_nodes splay_pair 0x10 \<noteq> None" "sp_nodes splay_pair 0x30 \<noteq> None"
    by (simp_all add: splay_pair_def)
  have ex: "\<exists>x \<in> set [0x10, 0x20]. addr_cmp 0x10 x = 0" "\<not> (\<exists>x \<in> set [0x10, 0x20]. addr_cmp 0x30 x = 0)"
    by (simp_all add: addr_cmp_def)
  from splay_moves_key_to_root [OF splay_pair_list m(1,2)] ex(1)
  obtain s' where s': "name_SPLAY addr_cmp 0x99 0x10 splay_pair = Some s'" "addr_cmp 0x10 (sph_root s') = 0" by blast
  from splay_moves_key_to_root [OF splay_pair_list m(1,3)]
  obtain s1 :: splay_head and s'' where "(\<exists>x \<in> set [0x10, 0x20]. addr_cmp 0x30 x = 0) = (addr_cmp 0x30 (sph_root s1) = 0)"
    "name_SPLAY_REMOVE addr_cmp 0x99 0x30 splay_pair = Some (if addr_cmp 0x30 (sph_root s1) = 0 then 0x30 else NULL, s'')"
    by blast
  moreover have "sph_root s' = 0x10" using s'(2) by (auto simp: addr_cmp_def split: if_splits)
  ultimately show ?thesis using s'(1) ex(2) by simp
qed

theorem splay_foreach_visits_in_order_witness:
  "\<exists>s'. SPLAY_FOREACH (\<lambda>x u. u @ [x]) addr_cmp 0x99 [] splay_pair = Some ([0x10, 0x20], s')"
  using splay_foreach_visits_in_order [OF splay_pair_list, of "\<lambda>x u. u @ [x]" "[]"] by auto

end
