(* ===== verification/RBTree.thy ===== *)
theory RBTree
  imports OrderedSpec "HOL-Library.Word"
begin

unbundle bit_operations_syntax

text \<open>
  libkern/tree.h, the red-black tree macros. A generated tree is a head (\<open>rbh_root\<close>) and the linkages of
  the elements, keyed by the address of the element; an access to an element that is not there is a
  fault (\<open>None\<close>). The colour of an element is the lowest bit of its parent link. The comparison
  function is the parameter \<open>cmp\<close>; it reads both its elements. \<open>RB_AUGMENT\<close> is the default of the header,
  which does nothing; the walk to the root that calls it is kept.
\<close>

record rb_entry =
  rbe_left :: ptr
  rbe_right :: ptr
  rbe_parent :: ptr

type_synonym rb_heap = "ptr \<rightharpoonup> rb_entry"

record rb_head =
  rbh_root :: ptr
  rb_nodes :: rb_heap

subsection \<open>The macros\<close>

definition RB_INIT :: "rb_head \<Rightarrow> rb_head" where
  "RB_INIT s = s\<lparr>rbh_root := NULL\<rparr>"

definition RB_BLACK :: int where "RB_BLACK = 0"
definition RB_RED :: int where "RB_RED = 1"
definition RB_PLACEHOLDER :: ptr where "RB_PLACEHOLDER = NULL"
definition RB_COLOR_MASK :: ptr where "RB_COLOR_MASK = 0x1"

definition RB_LEFT :: "ptr \<Rightarrow> rb_head \<Rightarrow> ptr option" where
  "RB_LEFT elm s = map_option rbe_left (rb_nodes s elm)"

definition RB_RIGHT :: "ptr \<Rightarrow> rb_head \<Rightarrow> ptr option" where
  "RB_RIGHT elm s = map_option rbe_right (rb_nodes s elm)"

definition RB_PARENT :: "ptr \<Rightarrow> rb_head \<Rightarrow> ptr option" where
  "RB_PARENT elm s = map_option rbe_parent (rb_nodes s elm)"

definition RB_ROOT :: "rb_head \<Rightarrow> ptr" where
  "RB_ROOT s = rbh_root s"

definition RB_EMPTY :: "rb_head \<Rightarrow> bool" where
  "RB_EMPTY s \<longleftrightarrow> RB_ROOT s = NULL"

text \<open>Assignments to the links of an element, and a call of the comparison function.\<close>

definition rb_set_left :: "ptr \<Rightarrow> ptr \<Rightarrow> rb_head \<Rightarrow> rb_head option" where
  "rb_set_left elm v s = map_option (\<lambda>e. s\<lparr>rb_nodes := (rb_nodes s)(elm \<mapsto> e\<lparr>rbe_left := v\<rparr>)\<rparr>) (rb_nodes s elm)"

definition rb_set_right :: "ptr \<Rightarrow> ptr \<Rightarrow> rb_head \<Rightarrow> rb_head option" where
  "rb_set_right elm v s = map_option (\<lambda>e. s\<lparr>rb_nodes := (rb_nodes s)(elm \<mapsto> e\<lparr>rbe_right := v\<rparr>)\<rparr>) (rb_nodes s elm)"

definition rb_set_parent :: "ptr \<Rightarrow> ptr \<Rightarrow> rb_head \<Rightarrow> rb_head option" where
  "rb_set_parent elm v s = map_option (\<lambda>e. s\<lparr>rb_nodes := (rb_nodes s)(elm \<mapsto> e\<lparr>rbe_parent := v\<rparr>)\<rparr>) (rb_nodes s elm)"

definition rb_call_cmp :: "(ptr \<Rightarrow> ptr \<Rightarrow> int) \<Rightarrow> ptr \<Rightarrow> ptr \<Rightarrow> rb_head \<Rightarrow> int option" where
  "rb_call_cmp cmp a b s = (if rb_nodes s a \<noteq> None \<and> rb_nodes s b \<noteq> None then Some (cmp a b) else None)"

subsection \<open>Parent and colour\<close>

definition name_RB_GETPARENT :: "ptr \<Rightarrow> rb_head \<Rightarrow> ptr option" where
  "name_RB_GETPARENT elm s = do {
     parent \<leftarrow> RB_PARENT elm s;
     if parent \<noteq> NULL then do {
       let parent = parent AND NOT RB_COLOR_MASK;
       Some (if parent = RB_PLACEHOLDER then NULL else parent) }
     else Some NULL }"

definition name_RB_GETCOLOR :: "ptr \<Rightarrow> rb_head \<Rightarrow> int option" where
  "name_RB_GETCOLOR elm s = do {
     parent \<leftarrow> RB_PARENT elm s;
     Some (sint (ucast (parent AND RB_COLOR_MASK) :: 32 word)) }"

definition name_RB_SETCOLOR :: "ptr \<Rightarrow> int \<Rightarrow> rb_head \<Rightarrow> rb_head option" where
  "name_RB_SETCOLOR elm color s = do {
     parent \<leftarrow> name_RB_GETPARENT elm s;
     let parent = (if parent = NULL then RB_PLACEHOLDER else parent);
     rb_set_parent elm (parent OR ucast (word_of_int color :: 32 word)) s }"

definition name_RB_SETPARENT :: "ptr \<Rightarrow> ptr \<Rightarrow> rb_head \<Rightarrow> (ptr \<times> rb_head) option" where
  "name_RB_SETPARENT elm parent s = do {
     color \<leftarrow> name_RB_GETCOLOR elm s;
     s \<leftarrow> rb_set_parent elm parent s;
     s \<leftarrow> (if color \<noteq> 0 then name_RB_SETCOLOR elm color s else Some s);
     p \<leftarrow> name_RB_GETPARENT elm s;
     Some (p, s) }"

definition RB_SET :: "ptr \<Rightarrow> ptr \<Rightarrow> rb_head \<Rightarrow> rb_head option" where
  "RB_SET elm parent s = do {
     (_, s) \<leftarrow> name_RB_SETPARENT elm parent s;
     s \<leftarrow> rb_set_right elm NULL s;
     s \<leftarrow> rb_set_left elm NULL s;
     name_RB_SETCOLOR elm RB_RED s }"

definition RB_SET_BLACKRED :: "ptr \<Rightarrow> ptr \<Rightarrow> rb_head \<Rightarrow> rb_head option" where
  "RB_SET_BLACKRED black red s = do {
     s \<leftarrow> name_RB_SETCOLOR black RB_BLACK s;
     name_RB_SETCOLOR red RB_RED s }"

text \<open>The conditions \<open>x && color(x) == RB_RED\<close> and \<open>x == NULL || color(x) == RB_BLACK\<close>.\<close>

definition rb_is_red :: "ptr \<Rightarrow> rb_head \<Rightarrow> bool option" where
  "rb_is_red x s = (if x \<noteq> NULL then do { c \<leftarrow> name_RB_GETCOLOR x s; Some (c = RB_RED) } else Some False)"

definition rb_is_black :: "ptr \<Rightarrow> rb_head \<Rightarrow> bool option" where
  "rb_is_black x s = (if x = NULL then Some True else do { c \<leftarrow> name_RB_GETCOLOR x s; Some (c = RB_BLACK) })"

text \<open>The rotations also set the variable \<open>tmp\<close>: its new value comes first.\<close>

definition RB_ROTATE_LEFT :: "ptr \<Rightarrow> rb_head \<Rightarrow> (ptr \<times> rb_head) option" where
  "RB_ROTATE_LEFT elm s = do {
     tmp \<leftarrow> RB_RIGHT elm s;
     l \<leftarrow> RB_LEFT tmp s;
     s \<leftarrow> rb_set_right elm l s;
     s \<leftarrow> (if l \<noteq> NULL then do {
         l \<leftarrow> RB_LEFT tmp s;
         (_, s) \<leftarrow> name_RB_SETPARENT l elm s;
         Some s }
       else Some s);
     p \<leftarrow> name_RB_GETPARENT elm s;
     (p, s) \<leftarrow> name_RB_SETPARENT tmp p s;
     s \<leftarrow> (if p \<noteq> NULL then do {
         p \<leftarrow> name_RB_GETPARENT elm s;
         l \<leftarrow> RB_LEFT p s;
         if elm = l then rb_set_left p tmp s else rb_set_right p tmp s }
       else Some (s\<lparr>rbh_root := tmp\<rparr>));
     s \<leftarrow> rb_set_left tmp elm s;
     (_, s) \<leftarrow> name_RB_SETPARENT elm tmp s;
     _ \<leftarrow> name_RB_GETPARENT tmp s;
     Some (tmp, s) }"

definition RB_ROTATE_RIGHT :: "ptr \<Rightarrow> rb_head \<Rightarrow> (ptr \<times> rb_head) option" where
  "RB_ROTATE_RIGHT elm s = do {
     tmp \<leftarrow> RB_LEFT elm s;
     r \<leftarrow> RB_RIGHT tmp s;
     s \<leftarrow> rb_set_left elm r s;
     s \<leftarrow> (if r \<noteq> NULL then do {
         r \<leftarrow> RB_RIGHT tmp s;
         (_, s) \<leftarrow> name_RB_SETPARENT r elm s;
         Some s }
       else Some s);
     p \<leftarrow> name_RB_GETPARENT elm s;
     (p, s) \<leftarrow> name_RB_SETPARENT tmp p s;
     s \<leftarrow> (if p \<noteq> NULL then do {
         p \<leftarrow> name_RB_GETPARENT elm s;
         l \<leftarrow> RB_LEFT p s;
         if elm = l then rb_set_left p tmp s else rb_set_right p tmp s }
       else Some (s\<lparr>rbh_root := tmp\<rparr>));
     s \<leftarrow> rb_set_right tmp elm s;
     (_, s) \<leftarrow> name_RB_SETPARENT elm tmp s;
     _ \<leftarrow> name_RB_GETPARENT tmp s;
     Some (tmp, s) }"

subsection \<open>Insertion\<close>

partial_function (option) rb_insert_color_loop :: "ptr \<Rightarrow> rb_head \<Rightarrow> rb_head option" where
  "rb_insert_color_loop elm s = do {
     parent \<leftarrow> name_RB_GETPARENT elm s;
     red \<leftarrow> rb_is_red parent s;
     if red then do {
       gparent \<leftarrow> name_RB_GETPARENT parent s;
       gl \<leftarrow> RB_LEFT gparent s;
       if parent = gl then do {
         tmp \<leftarrow> RB_RIGHT gparent s;
         tred \<leftarrow> rb_is_red tmp s;
         if tred then do {
           s \<leftarrow> name_RB_SETCOLOR tmp RB_BLACK s;
           s \<leftarrow> RB_SET_BLACKRED parent gparent s;
           rb_insert_color_loop gparent s }
         else do {
           pr \<leftarrow> RB_RIGHT parent s;
           (parent, elm, s) \<leftarrow> (if pr = elm then do {
               (_, s) \<leftarrow> RB_ROTATE_LEFT parent s;
               Some (elm, parent, s) }
             else Some (parent, elm, s));
           s \<leftarrow> RB_SET_BLACKRED parent gparent s;
           (_, s) \<leftarrow> RB_ROTATE_RIGHT gparent s;
           rb_insert_color_loop elm s } }
       else do {
         tmp \<leftarrow> RB_LEFT gparent s;
         tred \<leftarrow> rb_is_red tmp s;
         if tred then do {
           s \<leftarrow> name_RB_SETCOLOR tmp RB_BLACK s;
           s \<leftarrow> RB_SET_BLACKRED parent gparent s;
           rb_insert_color_loop gparent s }
         else do {
           pl \<leftarrow> RB_LEFT parent s;
           (parent, elm, s) \<leftarrow> (if pl = elm then do {
               (_, s) \<leftarrow> RB_ROTATE_RIGHT parent s;
               Some (elm, parent, s) }
             else Some (parent, elm, s));
           s \<leftarrow> RB_SET_BLACKRED parent gparent s;
           (_, s) \<leftarrow> RB_ROTATE_LEFT gparent s;
           rb_insert_color_loop elm s } } }
     else Some s }"

definition name_RB_INSERT_COLOR :: "ptr \<Rightarrow> rb_head \<Rightarrow> rb_head option" where
  "name_RB_INSERT_COLOR elm s = do {
     s \<leftarrow> rb_insert_color_loop elm s;
     name_RB_SETCOLOR (rbh_root s) RB_BLACK s }"

text \<open>The descent: \<open>Inl\<close> the equal element that is there, \<open>Inr\<close> the last parent and comparison.\<close>

partial_function (option) rb_insert_loop ::
  "(ptr \<Rightarrow> ptr \<Rightarrow> int) \<Rightarrow> ptr \<Rightarrow> ptr \<Rightarrow> ptr \<Rightarrow> int \<Rightarrow> rb_head \<Rightarrow> (ptr + ptr \<times> int) option" where
  "rb_insert_loop cmp elm tmp parent cv s =
     (if tmp \<noteq> NULL then do {
        let parent = tmp;
        cv \<leftarrow> rb_call_cmp cmp elm parent s;
        if cv < 0 then do {
          l \<leftarrow> RB_LEFT tmp s;
          rb_insert_loop cmp elm l parent cv s }
        else if cv > 0 then do {
          r \<leftarrow> RB_RIGHT tmp s;
          rb_insert_loop cmp elm r parent cv s }
        else Some (Inl tmp) }
      else Some (Inr (parent, cv)))"

definition name_RB_INSERT :: "(ptr \<Rightarrow> ptr \<Rightarrow> int) \<Rightarrow> ptr \<Rightarrow> rb_head \<Rightarrow> (ptr \<times> rb_head) option" where
  "name_RB_INSERT cmp elm s = do {
     res \<leftarrow> rb_insert_loop cmp elm (RB_ROOT s) NULL 0 s;
     case res of
       Inl tmp \<Rightarrow> Some (tmp, s)
     | Inr (parent, cv) \<Rightarrow> do {
         s \<leftarrow> RB_SET elm parent s;
         s \<leftarrow> (if parent \<noteq> NULL then
             if cv < 0 then rb_set_left parent elm s else rb_set_right parent elm s
           else Some (s\<lparr>rbh_root := elm\<rparr>));
         s \<leftarrow> name_RB_INSERT_COLOR elm s;
         Some (NULL, s) } }"

subsection \<open>Removal\<close>

text \<open>The loop ends with the value of \<open>elm\<close>; \<open>break\<close> leaves it at the root.\<close>

partial_function (option) rb_remove_color_loop :: "ptr \<Rightarrow> ptr \<Rightarrow> rb_head \<Rightarrow> (ptr \<times> rb_head) option" where
  "rb_remove_color_loop parent elm s = do {
     black \<leftarrow> rb_is_black elm s;
     if black \<and> elm \<noteq> RB_ROOT s then do {
       pl \<leftarrow> RB_LEFT parent s;
       if pl = elm then do {
         tmp \<leftarrow> RB_RIGHT parent s;
         c \<leftarrow> name_RB_GETCOLOR tmp s;
         (tmp, s) \<leftarrow> (if c = RB_RED then do {
             s \<leftarrow> RB_SET_BLACKRED tmp parent s;
             (_, s) \<leftarrow> RB_ROTATE_LEFT parent s;
             tmp \<leftarrow> RB_RIGHT parent s;
             Some (tmp, s) }
           else Some (tmp, s));
         tl \<leftarrow> RB_LEFT tmp s;
         lblack \<leftarrow> rb_is_black tl s;
         tr \<leftarrow> RB_RIGHT tmp s;
         both \<leftarrow> (if lblack then rb_is_black tr s else Some False);
         if both then do {
           s \<leftarrow> name_RB_SETCOLOR tmp RB_RED s;
           let elm = parent;
           parent \<leftarrow> name_RB_GETPARENT elm s;
           rb_remove_color_loop parent elm s }
         else do {
           tr \<leftarrow> RB_RIGHT tmp s;
           rblack \<leftarrow> rb_is_black tr s;
           (tmp, s) \<leftarrow> (if rblack then do {
               oleft \<leftarrow> RB_LEFT tmp s;
               s \<leftarrow> (if oleft \<noteq> NULL then name_RB_SETCOLOR oleft RB_BLACK s else Some s);
               s \<leftarrow> name_RB_SETCOLOR tmp RB_RED s;
               (_, s) \<leftarrow> RB_ROTATE_RIGHT tmp s;
               tmp \<leftarrow> RB_RIGHT parent s;
               Some (tmp, s) }
             else Some (tmp, s));
           c \<leftarrow> name_RB_GETCOLOR parent s;
           s \<leftarrow> name_RB_SETCOLOR tmp c s;
           s \<leftarrow> name_RB_SETCOLOR parent RB_BLACK s;
           tr \<leftarrow> RB_RIGHT tmp s;
           s \<leftarrow> (if tr \<noteq> NULL then name_RB_SETCOLOR tr RB_BLACK s else Some s);
           (_, s) \<leftarrow> RB_ROTATE_LEFT parent s;
           Some (RB_ROOT s, s) } }
       else do {
         tmp \<leftarrow> RB_LEFT parent s;
         c \<leftarrow> name_RB_GETCOLOR tmp s;
         (tmp, s) \<leftarrow> (if c = RB_RED then do {
             s \<leftarrow> RB_SET_BLACKRED tmp parent s;
             (_, s) \<leftarrow> RB_ROTATE_RIGHT parent s;
             tmp \<leftarrow> RB_LEFT parent s;
             Some (tmp, s) }
           else Some (tmp, s));
         tl \<leftarrow> RB_LEFT tmp s;
         lblack \<leftarrow> rb_is_black tl s;
         tr \<leftarrow> RB_RIGHT tmp s;
         both \<leftarrow> (if lblack then rb_is_black tr s else Some False);
         if both then do {
           s \<leftarrow> name_RB_SETCOLOR tmp RB_RED s;
           let elm = parent;
           parent \<leftarrow> name_RB_GETPARENT elm s;
           rb_remove_color_loop parent elm s }
         else do {
           tl \<leftarrow> RB_LEFT tmp s;
           lblack \<leftarrow> rb_is_black tl s;
           (tmp, s) \<leftarrow> (if lblack then do {
               oright \<leftarrow> RB_RIGHT tmp s;
               s \<leftarrow> (if oright \<noteq> NULL then name_RB_SETCOLOR oright RB_BLACK s else Some s);
               s \<leftarrow> name_RB_SETCOLOR tmp RB_RED s;
               (_, s) \<leftarrow> RB_ROTATE_LEFT tmp s;
               tmp \<leftarrow> RB_LEFT parent s;
               Some (tmp, s) }
             else Some (tmp, s));
           c \<leftarrow> name_RB_GETCOLOR parent s;
           s \<leftarrow> name_RB_SETCOLOR tmp c s;
           s \<leftarrow> name_RB_SETCOLOR parent RB_BLACK s;
           tl \<leftarrow> RB_LEFT tmp s;
           s \<leftarrow> (if tl \<noteq> NULL then name_RB_SETCOLOR tl RB_BLACK s else Some s);
           (_, s) \<leftarrow> RB_ROTATE_RIGHT parent s;
           Some (RB_ROOT s, s) } } }
     else Some (elm, s) }"

definition name_RB_REMOVE_COLOR :: "ptr \<Rightarrow> ptr \<Rightarrow> rb_head \<Rightarrow> rb_head option" where
  "name_RB_REMOVE_COLOR parent elm s = do {
     (elm, s) \<leftarrow> rb_remove_color_loop parent elm s;
     if elm \<noteq> NULL then name_RB_SETCOLOR elm RB_BLACK s else Some s }"

partial_function (option) rb_leftmost :: "ptr \<Rightarrow> rb_head \<Rightarrow> ptr option" where
  "rb_leftmost elm s = do {
     l \<leftarrow> RB_LEFT elm s;
     if l \<noteq> NULL then rb_leftmost l s else Some elm }"

partial_function (option) rb_rightmost :: "ptr \<Rightarrow> rb_head \<Rightarrow> ptr option" where
  "rb_rightmost elm s = do {
     r \<leftarrow> RB_RIGHT elm s;
     if r \<noteq> NULL then rb_rightmost r s else Some elm }"

text \<open>The walk that calls \<open>RB_AUGMENT\<close> from an element to the root.\<close>

partial_function (option) rb_augment_loop :: "ptr \<Rightarrow> rb_head \<Rightarrow> unit option" where
  "rb_augment_loop x s = do {
     p \<leftarrow> name_RB_GETPARENT x s;
     if p \<noteq> NULL then rb_augment_loop p s else Some () }"

text \<open>The link to \<open>elm\<close> in \<open>parent\<close>, or the root, is set to \<open>child\<close>.\<close>

definition rb_replace_child :: "ptr \<Rightarrow> ptr \<Rightarrow> ptr \<Rightarrow> rb_head \<Rightarrow> rb_head option" where
  "rb_replace_child parent elm child s =
     (if parent \<noteq> NULL then do {
        l \<leftarrow> RB_LEFT parent s;
        if l = elm then rb_set_left parent child s else rb_set_right parent child s }
      else Some (s\<lparr>rbh_root := child\<rparr>))"

text \<open>An element with at most one child: \<open>child\<close> takes its place.\<close>

definition rb_splice :: "ptr \<Rightarrow> ptr \<Rightarrow> rb_head \<Rightarrow> (ptr \<times> int \<times> rb_head) option" where
  "rb_splice elm child s = do {
     parent \<leftarrow> name_RB_GETPARENT elm s;
     color \<leftarrow> name_RB_GETCOLOR elm s;
     s \<leftarrow> (if child \<noteq> NULL then do { (_, s) \<leftarrow> name_RB_SETPARENT child parent s; Some s } else Some s);
     s \<leftarrow> rb_replace_child parent elm child s;
     Some (parent, color, s) }"

text \<open>\<open>elm\<close>, which has been taken out, gets the links of \<open>old\<close> and its place.\<close>

definition rb_substitute :: "ptr \<Rightarrow> ptr \<Rightarrow> rb_head \<Rightarrow> rb_head option" where
  "rb_substitute old elm s = do {
     f \<leftarrow> rb_nodes s old;
     s \<leftarrow> map_option (\<lambda>_. s\<lparr>rb_nodes := (rb_nodes s)(elm \<mapsto> f)\<rparr>) (rb_nodes s elm);
     p \<leftarrow> name_RB_GETPARENT old s;
     s \<leftarrow> rb_replace_child p old elm s;
     l \<leftarrow> RB_LEFT old s;
     (_, s) \<leftarrow> name_RB_SETPARENT l elm s;
     r \<leftarrow> RB_RIGHT old s;
     if r \<noteq> NULL then do { (_, s) \<leftarrow> name_RB_SETPARENT r elm s; Some s } else Some s }"

text \<open>An element with two children: its successor is taken out and then takes its place.\<close>

definition rb_remove_inner :: "ptr \<Rightarrow> rb_head \<Rightarrow> (ptr \<times> ptr \<times> int \<times> rb_head) option" where
  "rb_remove_inner old s = do {
     elm \<leftarrow> RB_RIGHT old s;
     elm \<leftarrow> rb_leftmost elm s;
     child \<leftarrow> RB_RIGHT elm s;
     (parent, color, s) \<leftarrow> rb_splice elm child s;
     p \<leftarrow> name_RB_GETPARENT elm s;
     let parent = (if p = old then elm else parent);
     s \<leftarrow> rb_substitute old elm s;
     _ \<leftarrow> (if parent \<noteq> NULL then rb_augment_loop parent s else Some ());
     Some (parent, child, color, s) }"

definition name_RB_REMOVE :: "ptr \<Rightarrow> rb_head \<Rightarrow> (ptr \<times> rb_head) option" where
  "name_RB_REMOVE elm s = do {
     let old = elm;
     l \<leftarrow> RB_LEFT elm s;
     r \<leftarrow> RB_RIGHT elm s;
     (parent, child, color, s) \<leftarrow>
       (if l = NULL then do { (parent, color, s) \<leftarrow> rb_splice elm r s; Some (parent, r, color, s) }
        else if r = NULL then do { (parent, color, s) \<leftarrow> rb_splice elm l s; Some (parent, l, color, s) }
        else rb_remove_inner elm s);
     s \<leftarrow> (if color = RB_BLACK then name_RB_REMOVE_COLOR parent child s else Some s);
     Some (old, s) }"

subsection \<open>Search\<close>

partial_function (option) rb_find_loop :: "(ptr \<Rightarrow> ptr \<Rightarrow> int) \<Rightarrow> ptr \<Rightarrow> ptr \<Rightarrow> rb_head \<Rightarrow> ptr option" where
  "rb_find_loop cmp elm tmp s =
     (if tmp \<noteq> NULL then do {
        cv \<leftarrow> rb_call_cmp cmp elm tmp s;
        if cv < 0 then do { l \<leftarrow> RB_LEFT tmp s; rb_find_loop cmp elm l s }
        else if cv > 0 then do { r \<leftarrow> RB_RIGHT tmp s; rb_find_loop cmp elm r s }
        else Some tmp }
      else Some NULL)"

definition name_RB_FIND :: "(ptr \<Rightarrow> ptr \<Rightarrow> int) \<Rightarrow> ptr \<Rightarrow> rb_head \<Rightarrow> ptr option" where
  "name_RB_FIND cmp elm s = rb_find_loop cmp elm (RB_ROOT s) s"

partial_function (option) rb_nfind_loop :: "(ptr \<Rightarrow> ptr \<Rightarrow> int) \<Rightarrow> ptr \<Rightarrow> ptr \<Rightarrow> ptr \<Rightarrow> rb_head \<Rightarrow> ptr option" where
  "rb_nfind_loop cmp elm tmp res s =
     (if tmp \<noteq> NULL then do {
        cv \<leftarrow> rb_call_cmp cmp elm tmp s;
        if cv < 0 then do { l \<leftarrow> RB_LEFT tmp s; rb_nfind_loop cmp elm l tmp s }
        else if cv > 0 then do { r \<leftarrow> RB_RIGHT tmp s; rb_nfind_loop cmp elm r res s }
        else Some tmp }
      else Some res)"

definition name_RB_NFIND :: "(ptr \<Rightarrow> ptr \<Rightarrow> int) \<Rightarrow> ptr \<Rightarrow> rb_head \<Rightarrow> ptr option" where
  "name_RB_NFIND cmp elm s = rb_nfind_loop cmp elm (RB_ROOT s) NULL s"

text \<open>The climbs: as long as the element is the right (left) child of its parent.\<close>

partial_function (option) rb_climb_right :: "ptr \<Rightarrow> rb_head \<Rightarrow> ptr option" where
  "rb_climb_right elm s = do {
     p \<leftarrow> name_RB_GETPARENT elm s;
     up \<leftarrow> (if p \<noteq> NULL then do { r \<leftarrow> RB_RIGHT p s; Some (elm = r) } else Some False);
     if up then rb_climb_right p s else Some elm }"

partial_function (option) rb_climb_left :: "ptr \<Rightarrow> rb_head \<Rightarrow> ptr option" where
  "rb_climb_left elm s = do {
     p \<leftarrow> name_RB_GETPARENT elm s;
     up \<leftarrow> (if p \<noteq> NULL then do { l \<leftarrow> RB_LEFT p s; Some (elm = l) } else Some False);
     if up then rb_climb_left p s else Some elm }"

definition name_RB_NEXT :: "ptr \<Rightarrow> rb_head \<Rightarrow> ptr option" where
  "name_RB_NEXT elm s = do {
     r \<leftarrow> RB_RIGHT elm s;
     if r \<noteq> NULL then rb_leftmost r s
     else do {
       p \<leftarrow> name_RB_GETPARENT elm s;
       up \<leftarrow> (if p \<noteq> NULL then do { l \<leftarrow> RB_LEFT p s; Some (elm = l) } else Some False);
       if up then Some p
       else do { elm \<leftarrow> rb_climb_right elm s; name_RB_GETPARENT elm s } } }"

definition name_RB_PREV :: "ptr \<Rightarrow> rb_head \<Rightarrow> ptr option" where
  "name_RB_PREV elm s = do {
     l \<leftarrow> RB_LEFT elm s;
     if l \<noteq> NULL then rb_rightmost l s
     else do {
       p \<leftarrow> name_RB_GETPARENT elm s;
       up \<leftarrow> (if p \<noteq> NULL then do { r \<leftarrow> RB_RIGHT p s; Some (elm = r) } else Some False);
       if up then Some p
       else do { elm \<leftarrow> rb_climb_left elm s; name_RB_GETPARENT elm s } } }"

partial_function (option) rb_minmax_loop :: "int \<Rightarrow> ptr \<Rightarrow> ptr \<Rightarrow> rb_head \<Rightarrow> ptr option" where
  "rb_minmax_loop val tmp parent s =
     (if tmp \<noteq> NULL then do {
        let parent = tmp;
        tmp \<leftarrow> (if val < 0 then RB_LEFT tmp s else RB_RIGHT tmp s);
        rb_minmax_loop val tmp parent s }
      else Some parent)"

definition name_RB_MINMAX :: "int \<Rightarrow> rb_head \<Rightarrow> ptr option" where
  "name_RB_MINMAX val s = rb_minmax_loop val (RB_ROOT s) NULL s"

definition RB_NEGINF :: int where "RB_NEGINF = -1"
definition RB_INF :: int where "RB_INF = 1"

definition RB_MIN :: "rb_head \<Rightarrow> ptr option" where
  "RB_MIN s = name_RB_MINMAX RB_NEGINF s"

definition RB_MAX :: "rb_head \<Rightarrow> ptr option" where
  "RB_MAX s = name_RB_MINMAX RB_INF s"

subsection \<open>Loops\<close>

text \<open>The body of a loop may change a state of its own and the tree.\<close>

type_synonym 's rb_body = "ptr \<Rightarrow> 's \<times> rb_head \<Rightarrow> ('s \<times> rb_head) option"

partial_function (option) rb_foreach_loop :: "'s rb_body \<Rightarrow> ptr \<Rightarrow> 's \<times> rb_head \<Rightarrow> ('s \<times> rb_head) option" where
  "rb_foreach_loop body x us =
     (if x \<noteq> NULL then do {
        us \<leftarrow> body x us;
        x \<leftarrow> name_RB_NEXT x (snd us);
        rb_foreach_loop body x us }
      else Some us)"

definition RB_FOREACH :: "'s rb_body \<Rightarrow> 's \<times> rb_head \<Rightarrow> ('s \<times> rb_head) option" where
  "RB_FOREACH body us = do { x \<leftarrow> RB_MIN (snd us); rb_foreach_loop body x us }"

text \<open>The loops that read the next element before they run the body.\<close>

partial_function (option) rb_foreach_from_loop :: "'s rb_body \<Rightarrow> ptr \<Rightarrow> 's \<times> rb_head \<Rightarrow> ('s \<times> rb_head) option" where
  "rb_foreach_from_loop body x us =
     (if x \<noteq> NULL then do {
        y \<leftarrow> name_RB_NEXT x (snd us);
        us \<leftarrow> body x us;
        rb_foreach_from_loop body y us }
      else Some us)"

definition RB_FOREACH_FROM :: "'s rb_body \<Rightarrow> ptr \<Rightarrow> 's \<times> rb_head \<Rightarrow> ('s \<times> rb_head) option" where
  "RB_FOREACH_FROM body y us = rb_foreach_from_loop body y us"

definition RB_FOREACH_SAFE :: "'s rb_body \<Rightarrow> 's \<times> rb_head \<Rightarrow> ('s \<times> rb_head) option" where
  "RB_FOREACH_SAFE body us = do { x \<leftarrow> RB_MIN (snd us); rb_foreach_from_loop body x us }"

partial_function (option) RB_FOREACH_REVERSE_FROM :: "'s rb_body \<Rightarrow> ptr \<Rightarrow> 's \<times> rb_head \<Rightarrow> ('s \<times> rb_head) option" where
  "RB_FOREACH_REVERSE_FROM body x us =
     (if x \<noteq> NULL then do {
        y \<leftarrow> name_RB_PREV x (snd us);
        us \<leftarrow> body x us;
        RB_FOREACH_REVERSE_FROM body y us }
      else Some us)"

end
