(* ===== verification/RBTreeMem.thy ===== *)
theory RBTreeMem
  imports RBTree "HOL-Library.Tree"
begin

section \<open>Red-black trees in memory\<close>

text \<open>
  What a red-black tree of \<^verbatim>\<open>libkern/tree.h\<close> is in memory, for a tree of addresses and colours: the
  parent links carry the colour in their lowest bit. A place in a tree is a subtree below a path to the
  root (\<open>rb_rep\<close>); the two directions of the code are one direction and its mirror image. Setting a
  colour, moving a link and rotating are shown to do on memory what they do on the tree, and to change
  no other memory.
\<close>

subsection \<open>Parent links with a colour\<close>

text \<open>Elements are at even addresses; \<open>tag p c\<close> is the parent link of an element below \<open>p\<close>, red if \<open>c\<close>.\<close>

definition even_ptr :: "ptr \<Rightarrow> bool" where
  "even_ptr a \<longleftrightarrow> a AND 1 = 0"

definition tag :: "ptr \<Rightarrow> bool \<Rightarrow> ptr" where
  "tag p c = p OR (if c then 1 else 0)"

lemma even_NULL [simp]: "even_ptr NULL"
  by (simp add: even_ptr_def)

lemma even_ptr_bit: "even_ptr a \<longleftrightarrow> \<not> bit a 0"
  by (simp add: even_ptr_def and_one_eq even_iff_mod_2_eq_zero bit_0)

definition parent_of :: "ptr \<Rightarrow> ptr" where
  "parent_of q = q AND NOT RB_COLOR_MASK"

definition red_of :: "ptr \<Rightarrow> bool" where
  "red_of q = bit q 0"

lemma parent_of_tag [simp]: "even_ptr p \<Longrightarrow> parent_of (tag p c) = p"
  by (rule bit_word_eqI) (auto simp: tag_def parent_of_def RB_COLOR_MASK_def even_ptr_bit bit_simps intro!: gr0I)

lemma red_of_tag [simp]: "even_ptr p \<Longrightarrow> red_of (tag p c) = c"
  by (auto simp: tag_def red_of_def even_ptr_bit bit_simps)

lemma parent_of_even: "even_ptr p \<Longrightarrow> parent_of p = p"
  using parent_of_tag [of p False] by (simp add: tag_def)

lemma even_parent_of [simp]: "even_ptr (parent_of q)"
  by (simp add: even_ptr_bit parent_of_def RB_COLOR_MASK_def bit_simps)

lemma mask_red: "q AND RB_COLOR_MASK = (if red_of q then 1 else 0)"
  by (rule bit_word_eqI) (auto simp: red_of_def RB_COLOR_MASK_def bit_simps intro!: gr0I)

definition rb_color :: "bool \<Rightarrow> int" where
  "rb_color c = (if c then RB_RED else RB_BLACK)"

lemma rb_color_consts: "RB_RED = rb_color True" "RB_BLACK = rb_color False"
  by (simp_all add: rb_color_def)

lemma rb_color_inject [simp]: "rb_color c = rb_color d \<longleftrightarrow> c = d" "rb_color c = 0 \<longleftrightarrow> \<not> c"
  by (simp_all add: rb_color_def RB_RED_def RB_BLACK_def)

text \<open>The four functions on parent and colour, as one access to the element each.\<close>

lemma GETPARENT_eq: "name_RB_GETPARENT a s = map_option (\<lambda>e. parent_of (rbe_parent e)) (rb_nodes s a)"
  by (cases "rb_nodes s a") (auto simp: name_RB_GETPARENT_def RB_PARENT_def parent_of_def RB_PLACEHOLDER_def)

lemma GETCOLOR_eq: "name_RB_GETCOLOR a s = map_option (\<lambda>e. rb_color (red_of (rbe_parent e))) (rb_nodes s a)"
  by (cases "rb_nodes s a") (auto simp: name_RB_GETCOLOR_def RB_PARENT_def mask_red rb_color_def RB_RED_def RB_BLACK_def)

lemma color_word: "ucast (word_of_int (rb_color c) :: 32 word) = (if c then 1 else 0 :: ptr)"
  by (simp add: rb_color_def RB_RED_def RB_BLACK_def)

lemma SETCOLOR_eq:
  "name_RB_SETCOLOR a (rb_color c) s =
     map_option (\<lambda>e. s\<lparr>rb_nodes := (rb_nodes s)(a \<mapsto> e\<lparr>rbe_parent := tag (parent_of (rbe_parent e)) c\<rparr>)\<rparr>) (rb_nodes s a)"
  by (cases "rb_nodes s a") (simp_all add: name_RB_SETCOLOR_def GETPARENT_eq color_word rb_set_parent_def RB_PLACEHOLDER_def tag_def Let_def cong: if_cong)

lemma SETPARENT_eq:
  assumes "even_ptr q"
  shows "name_RB_SETPARENT a q s =
     map_option (\<lambda>e. (q, s\<lparr>rb_nodes := (rb_nodes s)(a \<mapsto> e\<lparr>rbe_parent := tag q (red_of (rbe_parent e))\<rparr>)\<rparr>)) (rb_nodes s a)"
proof (cases "rb_nodes s a")
  case (Some e)
  have "tag q False = q" by (simp add: tag_def)
  then show ?thesis using Some assms
    by (cases "red_of (rbe_parent e)") (simp_all add: name_RB_SETPARENT_def GETCOLOR_eq GETPARENT_eq SETCOLOR_eq rb_set_parent_def parent_of_even)
qed (simp add: name_RB_SETPARENT_def GETCOLOR_eq)

subsection \<open>Trees in memory\<close>

type_synonym rbt = "(ptr \<times> bool) tree"

fun rb_addr :: "rbt \<Rightarrow> ptr" where
  "rb_addr Leaf = NULL"
| "rb_addr (Node l x r) = fst x"

fun rb_tree_at :: "rb_heap \<Rightarrow> ptr \<Rightarrow> rbt \<Rightarrow> bool" where
  "rb_tree_at H par Leaf \<longleftrightarrow> True"
| "rb_tree_at H par (Node l (a, c) r) \<longleftrightarrow> a \<noteq> NULL \<and> even_ptr a \<and>
     H a = Some \<lparr>rbe_left = rb_addr l, rbe_right = rb_addr r, rbe_parent = tag par c\<rparr> \<and> rb_tree_at H a l \<and> rb_tree_at H a r"

text \<open>
  A side, a node with a near and a far child, and the path from a place in a tree up to its root: each
  step has the side of the lower tree, the element and the other child.
\<close>

datatype side = Lft | Rgt

fun opp :: "side \<Rightarrow> side" where
  "opp Lft = Rgt"
| "opp Rgt = Lft"

fun node :: "side \<Rightarrow> 'a tree \<Rightarrow> 'a \<Rightarrow> 'a tree \<Rightarrow> 'a tree" where
  "node Lft n x f = Node n x f"
| "node Rgt n x f = Node f x n"

type_synonym rb_path = "(side \<times> (ptr \<times> bool) \<times> rbt) list"

fun plug :: "rb_path \<Rightarrow> rbt \<Rightarrow> rbt" where
  "plug [] t = t"
| "plug ((d, x, f) # ps) t = plug ps (node d t x f)"

fun ptop :: "rb_path \<Rightarrow> ptr" where
  "ptop [] = NULL"
| "ptop ((d, x, f) # ps) = fst x"

fun elems :: "rbt \<Rightarrow> ptr list" where
  "elems Leaf = []"
| "elems (Node l x r) = elems l @ fst x # elems r"

fun before :: "rb_path \<Rightarrow> ptr list" where
  "before [] = []"
| "before ((Lft, x, f) # ps) = before ps"
| "before ((Rgt, x, f) # ps) = before ps @ elems f @ [fst x]"

fun after :: "rb_path \<Rightarrow> ptr list" where
  "after [] = []"
| "after ((Lft, x, f) # ps) = fst x # elems f @ after ps"
| "after ((Rgt, x, f) # ps) = after ps"

lemma opp_opp [simp]: "opp (opp d) = d" "opp d \<noteq> d" "d \<noteq> opp d"
  by (cases d; simp)+

lemma node_simps [simp]: "node d n x f \<noteq> Leaf" "Leaf \<noteq> node d n x f" "rb_addr (node d n y f) = fst y" "node (opp d) n x f = node d f x n"
  by (cases d; simp)+

lemma node_cases: "t \<noteq> Leaf \<Longrightarrow> (\<And>n a c f. t = node d n (a, c) f \<Longrightarrow> P) \<Longrightarrow> P"
  by (cases t; cases d) auto

lemma elems_plug: "elems (plug ps t) = before ps @ elems t @ after ps"
proof (induction ps t rule: plug.induct)
  case (2 d x f ps t)
  then show ?case by (cases d) simp_all
qed simp

definition entry :: "side \<Rightarrow> ptr \<Rightarrow> ptr \<Rightarrow> ptr \<Rightarrow> rb_entry" where
  "entry d n f p = (case d of Lft \<Rightarrow> \<lparr>rbe_left = n, rbe_right = f, rbe_parent = p\<rparr> | Rgt \<Rightarrow> \<lparr>rbe_left = f, rbe_right = n, rbe_parent = p\<rparr>)"

fun rb_path_at :: "rb_heap \<Rightarrow> ptr \<Rightarrow> ptr \<Rightarrow> rb_path \<Rightarrow> bool" where
  "rb_path_at H root h [] \<longleftrightarrow> root = h"
| "rb_path_at H root h ((d, (a, c), f) # ps) \<longleftrightarrow> a \<noteq> NULL \<and> even_ptr a \<and> H a = Some (entry d h (rb_addr f) (tag (ptop ps) c)) \<and>
     rb_tree_at H a f \<and> rb_path_at H root a ps"

abbreviation path_set :: "rb_path \<Rightarrow> ptr set" where
  "path_set ps \<equiv> set (before ps) \<union> set (after ps)"

abbreviation tree_set :: "rbt \<Rightarrow> ptr set" where
  "tree_set t \<equiv> set (elems t)"

lemma rb_tree_at_node:
  "rb_tree_at H par (node d n (a, c) f) \<longleftrightarrow> a \<noteq> NULL \<and> even_ptr a \<and> H a = Some (entry d (rb_addr n) (rb_addr f) (tag par c)) \<and>
     rb_tree_at H a n \<and> rb_tree_at H a f"
  by (cases d) (auto simp: entry_def)

lemma rb_tree_at_upd [simp]: "x \<notin> tree_set t \<Longrightarrow> rb_tree_at (H(x := v)) par t = rb_tree_at H par t"
  by (induction t arbitrary: par) force+

lemma tree_set_node: "tree_set (node d n x f) = insert (fst x) (tree_set n \<union> tree_set f)"
  by (cases d) auto

lemma path_set_Cons: "path_set ((d, x, f) # ps) = insert (fst x) (tree_set f \<union> path_set ps)"
  by (cases d) auto

lemma rb_path_at_upd [simp]: "x \<notin> path_set ps \<Longrightarrow> rb_path_at (H(x := v)) root h ps = rb_path_at H root h ps"
proof (induction ps arbitrary: h)
  case (Cons y ps)
  obtain d a c f where y: "y = (d, (a, c), f)" by (metis prod.exhaust)
  have "x \<noteq> a" "x \<notin> tree_set f" "x \<notin> path_set ps" using Cons.prems unfolding y path_set_Cons by simp_all
  moreover from this(3) have "rb_path_at (H(x := v)) root a ps = rb_path_at H root a ps" by (rule Cons.IH)
  ultimately show ?case unfolding y rb_path_at.simps by simp
qed simp

lemma even_ptop: "rb_path_at H root h ps \<Longrightarrow> even_ptr (ptop ps)"
  by (cases ps) auto

lemma even_addr: "rb_tree_at H par t \<Longrightarrow> even_ptr (rb_addr t)"
  by (cases t) auto

lemma addr_NULL: "rb_tree_at H par t \<Longrightarrow> rb_addr t = NULL \<longleftrightarrow> t = Leaf"
  by (cases t) auto

lemma addr_mem: "t \<noteq> Leaf \<Longrightarrow> rb_addr t \<in> tree_set t"
  by (cases t) auto

lemma ptop_mem: "ps \<noteq> [] \<Longrightarrow> ptop ps \<in> path_set ps"
  by (cases ps; cases "hd ps") (auto simp: path_set_Cons)

subsection \<open>A place in a tree\<close>

text \<open>Only elements of \<open>A\<close> change.\<close>

definition only :: "ptr set \<Rightarrow> rb_heap \<Rightarrow> rb_heap \<Rightarrow> bool" where
  "only A H H' \<longleftrightarrow> dom H' = dom H \<and> (\<forall>x. x \<notin> A \<longrightarrow> H' x = H x)"

text \<open>
  The tree is at rest around a place: the subtree \<open>t\<close> below the path \<open>ps\<close>. Its elements are among \<open>A\<close>, and
  the memory of other elements is what it was in \<open>B\<close>.
\<close>

definition rb_rep :: "ptr set \<Rightarrow> rb_heap \<Rightarrow> rb_head \<Rightarrow> rb_path \<Rightarrow> rbt \<Rightarrow> bool" where
  "rb_rep A B s ps t \<longleftrightarrow> rb_tree_at (rb_nodes s) (ptop ps) t \<and> rb_path_at (rb_nodes s) (rbh_root s) (rb_addr t) ps \<and>
     distinct (before ps @ elems t @ after ps) \<and> tree_set t \<union> path_set ps \<subseteq> A \<and>
     only A B (rb_nodes s)"

lemma rb_rep_zip: "rb_rep A B s ((d, x, f) # ps) t \<longleftrightarrow> rb_rep A B s ps (node d t x f)"
proof -
  obtain a c where x: "x = (a, c)" by (cases x)
  show ?thesis unfolding rb_rep_def x rb_tree_at_node path_set_Cons tree_set_node
    by (cases d) auto
qed

lemma rb_rep_plug: "rb_rep A B s ps t \<longleftrightarrow> rb_rep A B s [] (plug ps t)"
  by (induction ps t rule: plug.induct) (simp_all add: rb_rep_zip)

subsection \<open>Reading and colouring an element\<close>

definition rb_get :: "side \<Rightarrow> ptr \<Rightarrow> rb_head \<Rightarrow> ptr option" where
  "rb_get d = (case d of Lft \<Rightarrow> RB_LEFT | Rgt \<Rightarrow> RB_RIGHT)"

definition rb_put :: "side \<Rightarrow> ptr \<Rightarrow> ptr \<Rightarrow> rb_head \<Rightarrow> rb_head option" where
  "rb_put d = (case d of Lft \<Rightarrow> rb_set_left | Rgt \<Rightarrow> rb_set_right)"

lemma rb_get_simps [simp]: "rb_get Lft = RB_LEFT" "rb_get Rgt = RB_RIGHT" "rb_put Lft = rb_set_left" "rb_put Rgt = rb_set_right"
  by (simp_all add: rb_get_def rb_put_def)

lemma rb_get_entry:
  "rb_nodes s a = Some (entry d n f p) \<Longrightarrow> rb_get d a s = Some n"
  "rb_nodes s a = Some (entry d n f p) \<Longrightarrow> rb_get (opp d) a s = Some f"
  by (cases d; simp add: entry_def RB_LEFT_def RB_RIGHT_def)+

lemma rb_put_entry:
  "rb_nodes s a = Some (entry d n f p) \<Longrightarrow> rb_put d a x s = Some (s\<lparr>rb_nodes := (rb_nodes s)(a \<mapsto> entry d x f p)\<rparr>)"
  "rb_nodes s a = Some (entry d n f p) \<Longrightarrow> rb_put (opp d) a x s = Some (s\<lparr>rb_nodes := (rb_nodes s)(a \<mapsto> entry d n x p)\<rparr>)"
  by (cases d; simp add: entry_def rb_set_left_def rb_set_right_def)+

lemma entry_parent [simp]: "rbe_parent (entry d n f p) = p" "(entry d n f p)\<lparr>rbe_parent := q\<rparr> = entry d n f q"
  by (cases d; simp add: entry_def)+

text \<open>Memory that is the same at all addresses of a tree or a path.\<close>

lemma rb_tree_at_cong: "\<forall>x \<in> tree_set t. H' x = H x \<Longrightarrow> rb_tree_at H' p t = rb_tree_at H p t"
  by (induction t arbitrary: p) force+

lemma rb_path_at_cong: "\<forall>x \<in> path_set ps. H' x = H x \<Longrightarrow> rb_path_at H' root h ps = rb_path_at H root h ps"
proof (induction ps arbitrary: h)
  case (Cons y ps)
  obtain d a c f where y: "y = (d, (a, c), f)" by (metis prod.exhaust)
  have "H' a = H a" "\<forall>x \<in> tree_set f. H' x = H x" "\<forall>x \<in> path_set ps. H' x = H x"
    using Cons.prems unfolding y path_set_Cons by simp_all
  moreover note Cons.IH [OF this(3)] rb_tree_at_cong [OF this(2)]
  ultimately show ?case unfolding y rb_path_at.simps by simp
qed simp

lemma only_refl [simp]: "only A H H"
  by (simp add: only_def)

lemma only_upd: "H a = Some e \<Longrightarrow> a \<in> A \<Longrightarrow> only A H (H(a \<mapsto> e'))"
  by (auto simp: only_def)

lemma only_write: "rb_nodes s a = Some e \<Longrightarrow> only {a} (rb_nodes s) (rb_nodes (s\<lparr>rb_nodes := (rb_nodes s)(a \<mapsto> e')\<rparr>))"
  by (auto intro: only_upd)

lemma only_Un: "only A H G \<Longrightarrow> only C G F \<Longrightarrow> only (A \<union> C) H F"
  by (auto simp: only_def)

lemma only_mono: "only A H G \<Longrightarrow> A \<subseteq> C \<Longrightarrow> only C H G"
  by (auto simp: only_def)

lemma only_tree: "only A H H' \<Longrightarrow> A \<inter> tree_set t = {} \<Longrightarrow> rb_tree_at H' p t = rb_tree_at H p t"
  by (rule rb_tree_at_cong) (auto simp: only_def)

lemma only_path: "only A H H' \<Longrightarrow> A \<inter> path_set ps = {} \<Longrightarrow> rb_path_at H' root h ps = rb_path_at H root h ps"
  by (rule rb_path_at_cong) (auto simp: only_def)

lemma only_at: "only A H H' \<Longrightarrow> x \<notin> A \<Longrightarrow> H' x = H x"
  by (simp add: only_def)

lemma distinct_node:
  "distinct (before ps @ elems (node d n x f) @ after ps) \<longleftrightarrow>
     fst x \<notin> tree_set n \<and> fst x \<notin> tree_set f \<and> fst x \<notin> path_set ps \<and> tree_set n \<inter> tree_set f = {} \<and>
     tree_set n \<inter> path_set ps = {} \<and> tree_set f \<inter> path_set ps = {} \<and>
     distinct (elems n) \<and> distinct (elems f) \<and> distinct (before ps @ after ps)"
  by (cases d) auto

lemma rb_rep_nodeD:
  assumes "rb_rep A B s ps (node d n (a, c) f)"
  shows "a \<noteq> NULL" "even_ptr a" "rb_nodes s a = Some (entry d (rb_addr n) (rb_addr f) (tag (ptop ps) c))"
    "rb_tree_at (rb_nodes s) a n" "rb_tree_at (rb_nodes s) a f" "rb_path_at (rb_nodes s) (rbh_root s) a ps"
    "a \<notin> tree_set n" "a \<notin> tree_set f" "a \<notin> path_set ps" "tree_set n \<inter> tree_set f = {}" "tree_set n \<inter> path_set ps = {}"
    "tree_set f \<inter> path_set ps = {}" "distinct (elems n)" "distinct (elems f)" "distinct (before ps @ after ps)" "even_ptr (ptop ps)"
  using assms even_ptop unfolding rb_rep_def rb_tree_at_node distinct_node by simp_all blast+

lemma rb_rep_nodeI:
  assumes old: "rb_rep A B s ps t" and set: "set (elems (node d n (a, c) f)) = tree_set t" "distinct (before ps @ elems (node d n (a, c) f) @ after ps)"
    and new: "rb_nodes s' a = Some (entry d (rb_addr n) (rb_addr f) (tag (ptop ps) c))" "a \<noteq> NULL" "even_ptr a"
    "rb_tree_at (rb_nodes s') a n" "rb_tree_at (rb_nodes s') a f" "rb_path_at (rb_nodes s') (rbh_root s') a ps"
    and same: "only (tree_set t \<union> path_set ps) (rb_nodes s) (rb_nodes s')"
  shows "rb_rep A B s' ps (node d n (a, c) f)"
proof -
  have "tree_set t \<union> path_set ps \<subseteq> A" "only A B (rb_nodes s)" using old unfolding rb_rep_def by simp_all
  then have "only A B (rb_nodes s')" using only_mono [OF only_Un [OF _ same], of A B A] by blast
  then show ?thesis using assms unfolding rb_rep_def rb_tree_at_node by simp
qed

lemma node_reads:
  assumes "rb_rep A B s ps (node d n (a, c) f)"
  shows "rb_get d a s = Some (rb_addr n)" "rb_get (opp d) a s = Some (rb_addr f)" "name_RB_GETPARENT a s = Some (ptop ps)"
    "name_RB_GETCOLOR a s = Some (rb_color c)" "a \<noteq> NULL" "even_ptr a"
proof -
  note rep = rb_rep_nodeD [OF assms]
  show "rb_get d a s = Some (rb_addr n)" "rb_get (opp d) a s = Some (rb_addr f)" using rb_get_entry [OF rep(3)] by simp_all
  show "name_RB_GETPARENT a s = Some (ptop ps)" "name_RB_GETCOLOR a s = Some (rb_color c)"
    using rep(3,16) by (simp_all add: GETPARENT_eq GETCOLOR_eq)
qed (use rb_rep_nodeD [OF assms] in simp_all)

lemma setcolor_ok:
  assumes "rb_rep A B s ps (node d n (a, c) f)"
  obtains s' where "name_RB_SETCOLOR a (rb_color c') s = Some s'" "rb_rep A B s' ps (node d n (a, c') f)"
proof
  note rep = rb_rep_nodeD [OF assms]
  define G where "G = (rb_nodes s)(a \<mapsto> entry d (rb_addr n) (rb_addr f) (tag (ptop ps) c'))"
  show "name_RB_SETCOLOR a (rb_color c') s = Some (s\<lparr>rb_nodes := G\<rparr>)"
    using rep(3,16) by (simp add: SETCOLOR_eq G_def)
  show "rb_rep A B (s\<lparr>rb_nodes := G\<rparr>) ps (node d n (a, c') f)"
  proof (rule rb_rep_nodeI [OF assms])
    show "distinct (before ps @ elems (node d n (a, c') f) @ after ps)" using rep(7-15) unfolding distinct_node by simp
    show "rb_tree_at (rb_nodes (s\<lparr>rb_nodes := G\<rparr>)) a n" "rb_tree_at (rb_nodes (s\<lparr>rb_nodes := G\<rparr>)) a f"
      using rep(4,5,7,8) by (simp_all add: G_def)
    show "rb_path_at (rb_nodes (s\<lparr>rb_nodes := G\<rparr>)) (rbh_root (s\<lparr>rb_nodes := G\<rparr>)) a ps" using rep(6,9) by (simp add: G_def)
    show "only (tree_set (node d n (a, c) f) \<union> path_set ps) (rb_nodes s) (rb_nodes (s\<lparr>rb_nodes := G\<rparr>))"
      using only_upd [of "rb_nodes s" a] rep(3) by (simp add: G_def tree_set_node)
  qed (use rep(1-3) in \<open>simp_all add: G_def tree_set_node\<close>)
qed

subsection \<open>Moving a link\<close>

lemma reparent_ok:
  assumes "rb_tree_at (rb_nodes s) q t" "distinct (elems t)" "t \<noteq> Leaf" "even_ptr q" "even_ptr p"
  obtains H where "name_RB_SETPARENT (rb_addr t) p s = Some (p, s\<lparr>rb_nodes := H\<rparr>)" "rb_tree_at H p t" "only (tree_set t) (rb_nodes s) H"
proof -
  obtain l a c r where t: "t = node Lft l (a, c) r" using assms(3) node_cases by metis
  define G where "G = (rb_nodes s)(a \<mapsto> entry Lft (rb_addr l) (rb_addr r) (tag p c))"
  note at = assms(1) [unfolded t rb_tree_at_node]
  have "a \<notin> tree_set l" "a \<notin> tree_set r" using assms(2) by (auto simp: t)
  then have "rb_tree_at G p t" using at by (simp add: t entry_def G_def)
  moreover have "only (tree_set t) (rb_nodes s) G" using at by (auto simp: G_def t intro: only_upd)
  moreover have "name_RB_SETPARENT a p s = Some (p, s\<lparr>rb_nodes := G\<rparr>)" using at assms(4,5) by (simp add: SETPARENT_eq G_def)
  ultimately show ?thesis using that by (simp add: t)
qed

lemma replace_child_ok:
  assumes "rb_path_at (rb_nodes s) (rbh_root s) h ps" "h \<noteq> NULL" "h \<notin> path_set ps" "distinct (before ps @ after ps)"
  obtains s' where "rb_replace_child (ptop ps) h h' s = Some s'" "rb_path_at (rb_nodes s') (rbh_root s') h' ps" "only (path_set ps) (rb_nodes s) (rb_nodes s')"
proof (cases ps)
  case Nil
  then show ?thesis using that [of "s\<lparr>rbh_root := h'\<rparr>"] by (simp add: rb_replace_child_def)
next
  case (Cons y qs)
  obtain d a c f where y: "y = (d, (a, c), f)" by (metis prod.exhaust)
  define G where "G = (rb_nodes s)(a \<mapsto> entry d h' (rb_addr f) (tag (ptop qs) c))"
  note at = assms(1) [unfolded Cons y rb_path_at.simps]
  have new: "a \<notin> tree_set f" "a \<notin> path_set qs" using assms(4) unfolding Cons y by (cases d; simp)+
  have "h \<noteq> rb_addr f"
    using assms(2,3) addr_mem [of f] unfolding Cons y path_set_Cons by (cases f) auto
  then have "rb_replace_child (ptop ps) h h' s = Some (s\<lparr>rb_nodes := G\<rparr>)"
    using at unfolding Cons y by (cases d) (auto simp: rb_replace_child_def RB_LEFT_def rb_set_left_def rb_set_right_def entry_def G_def)
  moreover have "rb_path_at G (rbh_root s) h' ps"
  proof -
    have "rb_tree_at G a f" "rb_path_at G (rbh_root s) a qs" using at new by (simp_all add: G_def)
    moreover have "G a = Some (entry d h' (rb_addr f) (tag (ptop qs) c))" by (simp add: G_def)
    ultimately show ?thesis using at unfolding Cons y by simp
  qed
  moreover have "only (path_set ps) (rb_nodes s) G" using at unfolding Cons y path_set_Cons by (auto simp: G_def intro: only_upd)
  ultimately show ?thesis using that [of "s\<lparr>rb_nodes := G\<rparr>"] by simp
qed

subsection \<open>Rotations\<close>

definition rb_rotate :: "side \<Rightarrow> ptr \<Rightarrow> rb_head \<Rightarrow> (ptr \<times> rb_head) option" where
  "rb_rotate d elm s = do {
     tmp \<leftarrow> rb_get (opp d) elm s;
     l \<leftarrow> rb_get d tmp s;
     s \<leftarrow> rb_put (opp d) elm l s;
     s \<leftarrow> (if l \<noteq> NULL then do {
         l \<leftarrow> rb_get d tmp s;
         (_, s) \<leftarrow> name_RB_SETPARENT l elm s;
         Some s }
       else Some s);
     p \<leftarrow> name_RB_GETPARENT elm s;
     (p, s) \<leftarrow> name_RB_SETPARENT tmp p s;
     s \<leftarrow> (if p \<noteq> NULL then do {
         p \<leftarrow> name_RB_GETPARENT elm s;
         l \<leftarrow> RB_LEFT p s;
         if elm = l then rb_set_left p tmp s else rb_set_right p tmp s }
       else Some (s\<lparr>rbh_root := tmp\<rparr>));
     s \<leftarrow> rb_put d tmp elm s;
     (_, s) \<leftarrow> name_RB_SETPARENT elm tmp s;
     _ \<leftarrow> name_RB_GETPARENT tmp s;
     Some (tmp, s) }"

lemma rb_rotate_simps: "RB_ROTATE_LEFT = rb_rotate Lft" "RB_ROTATE_RIGHT = rb_rotate Rgt"
  unfolding fun_eq_iff rb_rotate_def RB_ROTATE_LEFT_def RB_ROTATE_RIGHT_def rb_get_simps opp.simps by (rule allI, rule allI, rule refl)+

lemma relink_eq:
  "name_RB_GETPARENT elm s = Some p \<Longrightarrow>
     (if p \<noteq> NULL then name_RB_GETPARENT elm s \<bind> (\<lambda>p. RB_LEFT p s \<bind> (\<lambda>l. if elm = l then rb_set_left p tmp s else rb_set_right p tmp s))
      else Some (s\<lparr>rbh_root := tmp\<rparr>)) = rb_replace_child p elm tmp s"
  by (simp add: rb_replace_child_def eq_commute [of elm] cong: if_cong)

text \<open>The memory before a rotation: \<open>a\<close> with the children \<open>n\<close> and \<open>b\<close>, and \<open>b\<close> with \<open>m\<close> and \<open>f\<close>.\<close>

lemma rotate_facts:
  assumes "rb_rep A B s ps (node d n (a, ca) (node d m (b, cb) f))"
  shows "rb_nodes s a = Some (entry d (rb_addr n) b (tag (ptop ps) ca))" "rb_nodes s b = Some (entry d (rb_addr m) (rb_addr f) (tag a cb))"
    "b \<noteq> NULL" "even_ptr b" "rb_tree_at (rb_nodes s) b m" "rb_tree_at (rb_nodes s) b f"
    "a \<noteq> b" "a \<notin> tree_set m" "a \<notin> tree_set f" "b \<notin> tree_set n" "b \<notin> path_set ps" "b \<notin> tree_set m" "b \<notin> tree_set f"
    "tree_set m \<inter> tree_set f = {}" "distinct (elems m)" "tree_set n \<inter> tree_set m = {}" "tree_set m \<inter> path_set ps = {}"
    "tree_set f \<inter> path_set ps = {}" "tree_set n \<inter> tree_set f = {}"
proof -
  note x = rb_rep_nodeD [OF assms]
  show "rb_nodes s a = Some (entry d (rb_addr n) b (tag (ptop ps) ca))" using x(3) by simp
  show "b \<noteq> NULL" "even_ptr b" "rb_nodes s b = Some (entry d (rb_addr m) (rb_addr f) (tag a cb))"
    "rb_tree_at (rb_nodes s) b m" "rb_tree_at (rb_nodes s) b f"
    using x(5) unfolding rb_tree_at_node by simp_all
  show "a \<noteq> b" "a \<notin> tree_set m" "a \<notin> tree_set f" "b \<notin> tree_set n" "b \<notin> path_set ps" "b \<notin> tree_set m" "b \<notin> tree_set f"
    "tree_set m \<inter> tree_set f = {}" "distinct (elems m)" "tree_set n \<inter> tree_set m = {}" "tree_set m \<inter> path_set ps = {}"
    "tree_set f \<inter> path_set ps = {}" "tree_set n \<inter> tree_set f = {}"
    using x(8,10,12,14) unfolding tree_set_node by (cases d; auto)+
qed

text \<open>First the inner subtree changes sides, then \<open>b\<close> gets the parent of \<open>a\<close>.\<close>

lemma rotate_inner:
  assumes "rb_tree_at (rb_nodes s) b m" "distinct (elems m)" "even_ptr b" "even_ptr a" "rb_nodes s b = Some (entry d (rb_addr m) v w)"
  obtains s' where "(if rb_addr m \<noteq> NULL then do { l \<leftarrow> rb_get d b s; (_, s) \<leftarrow> name_RB_SETPARENT l a s; Some s } else Some s) = Some s'"
    "rb_tree_at (rb_nodes s') a m" "only (tree_set m) (rb_nodes s) (rb_nodes s')" "rbh_root s' = rbh_root s"
proof (cases "m = Leaf")
  case True
  show ?thesis by (rule that [of s]) (use True in simp_all)
next
  case False
  obtain H where H: "name_RB_SETPARENT (rb_addr m) a s = Some (a, s\<lparr>rb_nodes := H\<rparr>)" "rb_tree_at H a m" "only (tree_set m) (rb_nodes s) H"
    using reparent_ok [OF assms(1,2) False assms(3,4)] by blast
  show ?thesis by (rule that [of "s\<lparr>rb_nodes := H\<rparr>"])
    (use H addr_NULL [OF assms(1)] False rb_get_entry(1) [OF assms(5)] in simp_all)
qed

lemma rotate_first:
  assumes rep: "rb_rep A B s ps (node d n (a, ca) (node d m (b, cb) f))"
  obtains s1 s2 s3 where "rb_put (opp d) a (rb_addr m) s = Some s1"
    "(if rb_addr m \<noteq> NULL then do { l \<leftarrow> rb_get d b s1; (_, s) \<leftarrow> name_RB_SETPARENT l a s1; Some s } else Some s1) = Some s2"
    "name_RB_GETPARENT a s2 = Some (ptop ps)" "name_RB_SETPARENT b (ptop ps) s2 = Some (ptop ps, s3)"
    "rb_nodes s3 a = Some (entry d (rb_addr n) (rb_addr m) (tag (ptop ps) ca))" "rb_nodes s3 b = Some (entry d (rb_addr m) (rb_addr f) (tag (ptop ps) cb))"
    "rb_tree_at (rb_nodes s3) a m" "only (insert a (insert b (tree_set m))) (rb_nodes s) (rb_nodes s3)" "rbh_root s3 = rbh_root s"
proof -
  note x = rb_rep_nodeD [OF rep] and y = rotate_facts [OF rep]
  define s1 where "s1 = s\<lparr>rb_nodes := (rb_nodes s)(a \<mapsto> entry d (rb_addr n) (rb_addr m) (tag (ptop ps) ca))\<rparr>"
  have p1: "rb_put (opp d) a (rb_addr m) s = Some s1" using rb_put_entry(2) [OF y(1)] by (simp add: s1_def)
  have b1: "rb_tree_at (rb_nodes s1) b m" "rb_nodes s1 b = Some (entry d (rb_addr m) (rb_addr f) (tag a cb))" using y by (simp_all add: s1_def)
  obtain s2 where s2: "(if rb_addr m \<noteq> NULL then do { l \<leftarrow> rb_get d b s1; (_, s) \<leftarrow> name_RB_SETPARENT l a s1; Some s } else Some s1) = Some s2"
    "rb_tree_at (rb_nodes s2) a m" "only (tree_set m) (rb_nodes s1) (rb_nodes s2)" "rbh_root s2 = rbh_root s1"
    using b1(1) y(15,4) x(2) b1(2) by (rule rotate_inner)
  have a2: "rb_nodes s2 a = Some (entry d (rb_addr n) (rb_addr m) (tag (ptop ps) ca))" using only_at [OF s2(3) y(8)] by (simp add: s1_def)
  have b2: "rb_nodes s2 b = Some (entry d (rb_addr m) (rb_addr f) (tag a cb))" using only_at [OF s2(3) y(12)] b1(2) by simp
  define s3 where "s3 = s2\<lparr>rb_nodes := (rb_nodes s2)(b \<mapsto> entry d (rb_addr m) (rb_addr f) (tag (ptop ps) cb))\<rparr>"
  have p3: "name_RB_GETPARENT a s2 = Some (ptop ps)" "name_RB_SETPARENT b (ptop ps) s2 = Some (ptop ps, s3)"
    using a2 b2 x(2,16) by (simp_all add: GETPARENT_eq SETPARENT_eq s3_def)
  have o: "only {a} (rb_nodes s) (rb_nodes s1)" "only {b} (rb_nodes s2) (rb_nodes s3)"
    using only_write [OF y(1)] only_write [OF b2] by (simp_all add: s1_def s3_def)
  show ?thesis
  proof (rule that [OF p1 s2(1) p3])
    show "only (insert a (insert b (tree_set m))) (rb_nodes s) (rb_nodes s3)"
      by (rule only_mono [OF only_Un [OF only_Un [OF o(1) s2(3)] o(2)]]) auto
    show "rb_tree_at (rb_nodes s3) a m" using only_tree [OF o(2), of m a] s2(2) y(12) by simp
  qed (use a2 y(7) s2(4) in \<open>simp_all add: s3_def s1_def\<close>)
qed

lemma rotate_ok:
  assumes rep: "rb_rep A B s ps (node d n (a, ca) (node d m (b, cb) f))"
  obtains s' where "rb_rotate d a s = Some (b, s')" "rb_rep A B s' ps (node d (node d n (a, ca) m) (b, cb) f)"
proof -
  note x = rb_rep_nodeD [OF rep] and y = rotate_facts [OF rep]
  obtain s1 s2 s3 where p: "rb_put (opp d) a (rb_addr m) s = Some s1"
    "(if rb_addr m \<noteq> NULL then do { l \<leftarrow> rb_get d b s1; (_, s) \<leftarrow> name_RB_SETPARENT l a s1; Some s } else Some s1) = Some s2"
    "name_RB_GETPARENT a s2 = Some (ptop ps)" "name_RB_SETPARENT b (ptop ps) s2 = Some (ptop ps, s3)"
    and c3: "rb_nodes s3 a = Some (entry d (rb_addr n) (rb_addr m) (tag (ptop ps) ca))" "rb_nodes s3 b = Some (entry d (rb_addr m) (rb_addr f) (tag (ptop ps) cb))"
    and t3: "rb_tree_at (rb_nodes s3) a m" and o3: "only (insert a (insert b (tree_set m))) (rb_nodes s) (rb_nodes s3)" and r3: "rbh_root s3 = rbh_root s"
    using rep by (rule rotate_first)
  have "rb_path_at (rb_nodes s3) (rbh_root s3) a ps" using only_path [OF o3, of ps] x(6,9) y(11,17) r3 by auto
  then obtain s4 where p4: "rb_replace_child (ptop ps) a b s3 = Some s4" and path4: "rb_path_at (rb_nodes s4) (rbh_root s4) b ps"
    and o4: "only (path_set ps) (rb_nodes s3) (rb_nodes s4)"
    using replace_child_ok [OF _ x(1,9,15)] by blast
  have c4: "rb_nodes s4 a = Some (entry d (rb_addr n) (rb_addr m) (tag (ptop ps) ca))" "rb_nodes s4 b = Some (entry d (rb_addr m) (rb_addr f) (tag (ptop ps) cb))"
    using only_at [OF o4 x(9)] only_at [OF o4 y(11)] c3 by simp_all
  define G where "G = (rb_nodes s4)(b \<mapsto> entry d a (rb_addr f) (tag (ptop ps) cb), a \<mapsto> entry d (rb_addr n) (rb_addr m) (tag b ca))"
  have c6: "G a = Some (entry d (rb_addr n) (rb_addr m) (tag b ca))" "G b = Some (entry d a (rb_addr f) (tag (ptop ps) cb))"
    using y(7) by (simp_all add: G_def)
  have p6: "name_RB_SETPARENT a b (s4\<lparr>rb_nodes := (rb_nodes s4)(b \<mapsto> entry d a (rb_addr f) (tag (ptop ps) cb))\<rparr>) = Some (b, s4\<lparr>rb_nodes := G\<rparr>)"
    "name_RB_GETPARENT b (s4\<lparr>rb_nodes := G\<rparr>) = Some (ptop ps)" "name_RB_GETPARENT a s3 = Some (ptop ps)"
    using c4(1) c6(2) c3(1) y(4,7) x(16) by (simp_all add: SETPARENT_eq GETPARENT_eq G_def)
  have run: "rb_rotate d a s = Some (b, s4\<lparr>rb_nodes := G\<rparr>)" unfolding rb_rotate_def
    by (simp only: rb_get_entry(2) [OF y(1)] rb_get_entry(1) [OF y(2)] p relink_eq [OF p6(3)] p4 rb_put_entry(1) [OF c4(2)] p6(1,2) bind.simps prod.case)
  have o6: "only {a, b} (rb_nodes s4) G" using c4 by (auto simp: only_def G_def)
  have o: "only (insert a (insert b (tree_set m)) \<union> path_set ps) (rb_nodes s) G" by (rule only_mono [OF only_Un [OF only_Un [OF o3 o4] o6]]) auto
  have e: "(insert a (insert b (tree_set m)) \<union> path_set ps) \<inter> tree_set n = {}" "(insert a (insert b (tree_set m)) \<union> path_set ps) \<inter> tree_set f = {}"
    using x(7,11) y(7-19) by blast+
  have t: "rb_tree_at G a n" "rb_tree_at G b f" "rb_tree_at G a m"
    using only_tree [OF o e(1)] only_tree [OF o e(2)] x(4) y(6) only_tree [OF only_Un [OF o4 o6], of m a] t3 y(8,12,17) by auto
  show ?thesis
  proof (rule that [OF run], rule rb_rep_nodeI [OF rep])
    show "only (tree_set (node d n (a, ca) (node d m (b, cb) f)) \<union> path_set ps) (rb_nodes s) (rb_nodes (s4\<lparr>rb_nodes := G\<rparr>))"
      using only_mono [OF o, of "tree_set (node d n (a, ca) (node d m (b, cb) f)) \<union> path_set ps"] by (auto simp: tree_set_node)
    show "distinct (before ps @ elems (node d (node d n (a, ca) m) (b, cb) f) @ after ps)"
      using rep unfolding rb_rep_def by (cases d) auto
    show "rb_path_at (rb_nodes (s4\<lparr>rb_nodes := G\<rparr>)) (rbh_root (s4\<lparr>rb_nodes := G\<rparr>)) b ps" using only_path [OF o6, of ps] path4 x(9) y(11) by auto
    show "tree_set (node d (node d n (a, ca) m) (b, cb) f) = tree_set (node d n (a, ca) (node d m (b, cb) f))"
      by (auto simp: tree_set_node)
  qed (use t c6 x(1,2) y(3,4) in \<open>simp_all add: rb_tree_at_node\<close>)
qed

end
