(* ===== verification/RBTreeRecolor.thy ===== *)
theory RBTreeRecolor
  imports RBTreeMem
begin

section \<open>Recolouring red-black trees\<close>

text \<open>
  The balance of a red-black tree, stated of a subtree and of the path around it, and the loops that
  restore it: after an insertion, where a red element may have a red parent, and after a removal, where a
  subtree may lack a black element.
\<close>

subsection \<open>Balance\<close>

text \<open>
  \<open>rb_ok pr n t\<close>: below a parent that is red if \<open>pr\<close>, no red element of \<open>t\<close> has a red child, and all ways down
  pass \<open>n\<close> black elements. \<open>path_ok r n ps\<close> is the same of the rest of the tree around a place where a subtree
  of black height \<open>n\<close> goes, whose root is red if \<open>r\<close>. The root of the whole tree is black.
\<close>

fun rb_ok :: "bool \<Rightarrow> nat \<Rightarrow> rbt \<Rightarrow> bool" where
  "rb_ok pr n Leaf \<longleftrightarrow> n = 0"
| "rb_ok pr n (Node l (a, c) r) \<longleftrightarrow> (if c then \<not> pr \<and> rb_ok True n l \<and> rb_ok True n r
     else 0 < n \<and> rb_ok False (n - 1) l \<and> rb_ok False (n - 1) r)"

fun path_ok :: "bool \<Rightarrow> nat \<Rightarrow> rb_path \<Rightarrow> bool" where
  "path_ok r n [] \<longleftrightarrow> \<not> r"
| "path_ok r n ((d, (a, c), f) # ps) \<longleftrightarrow> (if c then \<not> r \<and> rb_ok True n f \<and> path_ok True n ps
     else rb_ok False n f \<and> path_ok False (Suc n) ps)"

fun red_root :: "rbt \<Rightarrow> bool" where
  "red_root Leaf = False"
| "red_root (Node l x r) = snd x"

lemma red_root_node [simp]: "red_root (node d l x r) = snd x"
  by (cases d) simp_all

lemma rb_ok_node [simp]:
  "rb_ok pr n (node d l (a, True) r) \<longleftrightarrow> \<not> pr \<and> rb_ok True n l \<and> rb_ok True n r"
  "rb_ok pr (Suc n) (node d l (a, False) r) \<longleftrightarrow> rb_ok False n l \<and> rb_ok False n r"
  by (cases d; auto)+

lemma rb_ok_black: "rb_ok pr n (node d l (a, False) r) \<Longrightarrow> \<exists>m. n = Suc m"
  by (cases d; cases n) auto

lemma rb_ok_weaken: "rb_ok pr n t \<Longrightarrow> rb_ok False n t"
  by (cases t) (auto split: if_splits)

lemma rb_ok_iff: "rb_ok True n t \<longleftrightarrow> rb_ok False n t \<and> \<not> red_root t"
  by (cases t) (auto split: if_splits)

lemma path_ok_weaken: "path_ok r n ps \<Longrightarrow> path_ok False n ps"
  by (cases ps) (auto split: if_splits)

lemma rb_ok_plug:
  "rb_ok False n t \<Longrightarrow> path_ok (red_root t) n ps \<Longrightarrow> \<exists>N. rb_ok True N (plug ps t)"
proof (induction ps arbitrary: n t)
  case Nil
  then show ?case by (auto simp: rb_ok_iff)
next
  case (Cons y ps)
  obtain d a c f where y: "y = (d, (a, c), f)" by (metis prod.exhaust)
  show ?case
  proof (cases c)
    case True
    then show ?thesis using Cons.prems Cons.IH [of n "node d t (a, True) f"] by (simp add: y rb_ok_iff [of n t])
  next
    case False
    then show ?thesis using Cons.prems Cons.IH [of "Suc n" "node d t (a, False) f"] by (simp add: y)
  qed
qed

lemma rb_ok_unplug:
  "rb_ok True N (plug ps t) \<Longrightarrow> \<exists>n. rb_ok False n t \<and> path_ok (red_root t) n ps"
proof (induction ps arbitrary: t)
  case Nil
  then show ?case by (auto simp: rb_ok_iff)
next
  case (Cons y ps)
  obtain d a c f where y: "y = (d, (a, c), f)" by (metis prod.exhaust)
  obtain n where n: "rb_ok False n (node d t (a, c) f)" "path_ok c n ps"
    using Cons.IH [of "node d t (a, c) f"] Cons.prems by (auto simp: y)
  show ?case
  proof (cases c)
    case True
    then show ?thesis using n by (auto simp: y rb_ok_iff [of n t])
  next
    case False
    then obtain m where "n = Suc m" using n(1) rb_ok_black [of False n d t a f] by auto
    then show ?thesis using n False by (auto simp: y)
  qed
qed

text \<open>What the code reads of the colours below an element, and of the element above.\<close>

lemma is_red_tree: "rb_tree_at (rb_nodes s) p t \<Longrightarrow> even_ptr p \<Longrightarrow> rb_is_red (rb_addr t) s = Some (red_root t)"
  by (cases t) (auto simp: rb_is_red_def GETCOLOR_eq rb_color_consts)

lemma is_black_tree: "rb_tree_at (rb_nodes s) p t \<Longrightarrow> even_ptr p \<Longrightarrow> rb_is_black (rb_addr t) s = Some (\<not> red_root t)"
  by (cases t) (auto simp: rb_is_black_def GETCOLOR_eq rb_color_consts)

lemma node_colors:
  assumes "rb_rep A B s ps (node d n (a, c) f)"
  shows "rb_is_red (rb_addr n) s = Some (red_root n)" "rb_is_red (rb_addr f) s = Some (red_root f)"
    "rb_is_black (rb_addr n) s = Some (\<not> red_root n)" "rb_is_black (rb_addr f) s = Some (\<not> red_root f)"
    "rb_is_red a s = Some c" "rb_is_black a s = Some (\<not> c)"
  using rb_rep_nodeD(2,4,5) [OF assms] node_reads(4,5) [OF assms] is_red_tree is_black_tree
  by (auto simp: rb_is_red_def [of a] rb_is_black_def [of a] rb_color_consts)

lemma set_blackred_ok:
  assumes "rb_rep A B s ps (node d (node e l (b, cb) r) (a, ca) f)"
  obtains s' where "RB_SET_BLACKRED b a s = Some s'" "rb_rep A B s' ps (node d (node e l (b, False) r) (a, True) f)"
proof -
  obtain s1 where s1: "name_RB_SETCOLOR b (rb_color False) s = Some s1" "rb_rep A B s1 ((d, (a, ca), f) # ps) (node e l (b, False) r)"
    using setcolor_ok assms unfolding rb_rep_zip [symmetric] by metis
  then obtain s2 where "name_RB_SETCOLOR a (rb_color True) s1 = Some s2" "rb_rep A B s2 ps (node d (node e l (b, False) r) (a, True) f)"
    unfolding rb_rep_zip by (metis setcolor_ok)
  then show ?thesis using that s1(1) by (simp add: RB_SET_BLACKRED_def rb_color_consts)
qed

text \<open>The side of a subtree, as the code finds it out.\<close>

lemma left_is:
  assumes "rb_rep A B s ps (node d n (a, c) f)"
  shows "RB_LEFT a s = Some (rb_addr (if d = Lft then n else f))" "RB_RIGHT a s = Some (rb_addr (if d = Lft then f else n))"
  using node_reads(1,2) [OF assms] by (cases d; simp)+

lemma siblings_differ:
  assumes "rb_rep A B s ps (node d n (a, c) f)" "n \<noteq> Leaf \<or> f \<noteq> Leaf"
  shows "rb_addr n \<noteq> rb_addr f"
  using rb_rep_nodeD(4,5,10) [OF assms(1)] assms(2) addr_NULL [of "rb_nodes s" a] addr_mem [of n] addr_mem [of f]
  by (cases "n = Leaf"; cases "f = Leaf") auto

subsection \<open>Recolouring after an insertion\<close>

text \<open>Both branches of the loop are one branch, mirrored.\<close>

definition insert_color_turn :: "(ptr \<Rightarrow> rb_head \<Rightarrow> rb_head option) \<Rightarrow> side \<Rightarrow> ptr \<Rightarrow> ptr \<Rightarrow> ptr \<Rightarrow> rb_head \<Rightarrow> rb_head option" where
  "insert_color_turn loop d parent gparent elm s = do {
     tmp \<leftarrow> rb_get (opp d) gparent s;
     tred \<leftarrow> rb_is_red tmp s;
     if tred then do {
       s \<leftarrow> name_RB_SETCOLOR tmp RB_BLACK s;
       s \<leftarrow> RB_SET_BLACKRED parent gparent s;
       loop gparent s }
     else do {
       pr \<leftarrow> rb_get (opp d) parent s;
       (parent, elm, s) \<leftarrow> (if pr = elm then do {
           (_, s) \<leftarrow> rb_rotate d parent s;
           Some (elm, parent, s) }
         else Some (parent, elm, s));
       s \<leftarrow> RB_SET_BLACKRED parent gparent s;
       (_, s) \<leftarrow> rb_rotate (opp d) gparent s;
       loop elm s } }"

lemma insert_color_loop_eq:
  "rb_insert_color_loop elm s = do {
     parent \<leftarrow> name_RB_GETPARENT elm s;
     red \<leftarrow> rb_is_red parent s;
     if red then do {
       gparent \<leftarrow> name_RB_GETPARENT parent s;
       gl \<leftarrow> RB_LEFT gparent s;
       insert_color_turn rb_insert_color_loop (if parent = gl then Lft else Rgt) parent gparent elm s }
     else Some s }"
  apply (subst rb_insert_color_loop.simps)
  apply (simp add: insert_color_turn_def rb_rotate_simps cong: if_cong)
  apply (intro Option.bind_cong refl if_cong)
  apply (simp add: insert_color_turn_def rb_rotate_simps cong: if_cong)
  done

text \<open>The loop stops below a black element or at the root.\<close>

lemma insert_color_stops:
  "name_RB_GETPARENT a s = Some p \<Longrightarrow> rb_is_red p s = Some False \<Longrightarrow> rb_insert_color_loop a s = Some s"
  by (subst insert_color_loop_eq) simp

text \<open>A red uncle: the colours change and the loop goes on at the grandparent.\<close>

lemma insert_color_recolour:
  assumes rep: "rb_rep A B s ps (node d (node e t (p, True) f) (g, False) u)" and u: "red_root u"
  obtains s' v where "insert_color_turn loop d p g a s = loop g s'" "rb_rep A B s' ps (node d (node e t (p, False) f) (g, True) v)"
    "elems v = elems u" "\<And>n. rb_ok False n u \<Longrightarrow> rb_ok True (Suc n) v"
proof -
  obtain l b r where ub: "u = Node l (b, True) r" using u by (cases u) auto
  have un: "u = node Lft l (b, True) r" by (simp add: ub)
  have "rb_rep A B s ((opp d, (g, False), node e t (p, True) f) # ps) (node Lft l (b, True) r)"
    using rep unfolding rb_rep_zip un by simp
  then obtain s1 where s1: "name_RB_SETCOLOR b (rb_color False) s = Some s1"
    "rb_rep A B s1 ((opp d, (g, False), node e t (p, True) f) # ps) (node Lft l (b, False) r)"
    by (rule setcolor_ok)
  then have "rb_rep A B s1 ps (node d (node e t (p, True) f) (g, False) (node Lft l (b, False) r))" unfolding rb_rep_zip by simp
  then obtain s2 where s2: "RB_SET_BLACKRED p g s1 = Some s2" "rb_rep A B s2 ps (node d (node e t (p, False) f) (g, True) (node Lft l (b, False) r))"
    by (rule set_blackred_ok)
  have "insert_color_turn loop d p g a s = loop g s2"
    using node_reads(2) [OF rep] node_colors(2) [OF rep] u s1(1) s2(1) by (simp add: insert_color_turn_def ub rb_color_consts)
  then show ?thesis by (rule that [OF _ s2(2)]) (auto simp: ub dest: rb_ok_weaken)
qed

text \<open>A black uncle: one or two rotations, and the loop stops.\<close>

lemma insert_color_rotate_outer:
  assumes rep: "rb_rep A B s ps (node d (node d (node d x (a, True) y) (p, True) z) (g, False) u)"
  obtains s' where "(RB_SET_BLACKRED p g s \<bind> (\<lambda>s. rb_rotate (opp d) g s \<bind> (\<lambda>(_, s). rb_insert_color_loop a s))) = Some s'"
    "rb_rep A B s' ps (node d (node d x (a, True) y) (p, False) (node d z (g, True) u))"
proof -
  obtain s1 where s1: "RB_SET_BLACKRED p g s = Some s1" "rb_rep A B s1 ps (node d (node d (node d x (a, True) y) (p, False) z) (g, True) u)"
    using rep by (rule set_blackred_ok)
  then have "rb_rep A B s1 ps (node (opp d) u (g, True) (node (opp d) z (p, False) (node d x (a, True) y)))" by simp
  then obtain s2 where s2: "rb_rotate (opp d) g s1 = Some (p, s2)" "rb_rep A B s2 ps (node (opp d) (node (opp d) u (g, True) z) (p, False) (node d x (a, True) y))"
    by (rule rotate_ok)
  then have fin: "rb_rep A B s2 ps (node d (node d x (a, True) y) (p, False) (node d z (g, True) u))" by simp
  then have "name_RB_GETPARENT a s2 = Some p" using node_reads(3) unfolding rb_rep_zip [symmetric] by fastforce
  then have "rb_insert_color_loop a s2 = Some s2" using node_colors(5) [OF fin] by (rule insert_color_stops)
  then show ?thesis using that s1(1) s2(1) fin by simp
qed

lemma insert_color_rotate:
  assumes rep: "rb_rep A B s ps (node d (node e t (p, True) f) (g, False) u)" and u: "\<not> red_root u" and t: "t = node d x (a, True) y"
  obtains s' x' q y' where "insert_color_turn rb_insert_color_loop d p g a s = Some s'" "rb_rep A B s' ps (node d x' (q, False) y')"
    "elems (node d x' (q, False) y') = elems (node d (node e t (p, True) f) (g, False) u)"
    "\<And>n. rb_ok True n x \<Longrightarrow> rb_ok True n y \<Longrightarrow> rb_ok True n f \<Longrightarrow> rb_ok False n u \<Longrightarrow> rb_ok True (Suc n) (node d x' (q, False) y')"
proof (cases "e = d")
  case True
  have inner: "rb_rep A B s ((d, (g, False), u) # ps) (node d t (p, True) f)" using rep True unfolding rb_rep_zip by simp
  obtain s' where s': "(RB_SET_BLACKRED p g s \<bind> (\<lambda>s. rb_rotate (opp d) g s \<bind> (\<lambda>(_, s). rb_insert_color_loop a s))) = Some s'"
    "rb_rep A B s' ps (node d (node d x (a, True) y) (p, False) (node d f (g, True) u))"
    using rep True t insert_color_rotate_outer by metis
  have "rb_addr f \<noteq> a" using siblings_differ [OF inner] t by simp
  then have "insert_color_turn rb_insert_color_loop d p g a s = Some s'"
    using node_reads(2) [OF rep] node_colors(2) [OF rep] u node_reads(2) [OF inner] s'(1) by (simp add: insert_color_turn_def)
  then show ?thesis by (rule that [OF _ s'(2)]) (use True u t in \<open>cases d, auto simp: rb_ok_iff [of _ u]\<close>)
next
  case False
  then have e: "e = opp d" by (cases d; cases e) simp_all
  then have inner: "rb_rep A B s ((d, (g, False), u) # ps) (node d f (p, True) (node d x (a, True) y))" using rep t unfolding rb_rep_zip by simp
  then obtain s1 where s1: "rb_rotate d p s = Some (a, s1)" "rb_rep A B s1 ((d, (g, False), u) # ps) (node d (node d f (p, True) x) (a, True) y)"
    by (rule rotate_ok)
  obtain s' where s': "(RB_SET_BLACKRED a g s1 \<bind> (\<lambda>s. rb_rotate (opp d) g s \<bind> (\<lambda>(_, s). rb_insert_color_loop p s))) = Some s'"
    "rb_rep A B s' ps (node d (node d f (p, True) x) (a, False) (node d y (g, True) u))"
    using s1(2) unfolding rb_rep_zip by (rule insert_color_rotate_outer)
  have "insert_color_turn rb_insert_color_loop d p g a s = Some s'"
    using node_reads(2) [OF rep] node_colors(2) [OF rep] u node_reads(2) [OF inner] s1(1) s'(1) by (simp add: insert_color_turn_def)
  then show ?thesis by (rule that [OF _ s'(2)]) (use e u t in \<open>cases d, auto simp: rb_ok_iff [of _ u]\<close>)
qed

lemma elems_node: "elems (node d l x r) = (if d = Lft then elems l @ fst x # elems r else elems r @ fst x # elems l)"
  by (cases d) simp_all

lemma elems_plug_cong: "elems t = elems t' \<Longrightarrow> elems (plug ps t) = elems (plug ps t')"
  by (simp add: elems_plug)

lemma rb_nonleaf: "rb_rep A B s ps (node d (node e t (p, c) f) (g, c') u) \<Longrightarrow> RB_LEFT g s = Some gl \<Longrightarrow> (if p = gl then Lft else Rgt) = d"
  using left_is(1) [of A B s ps d "node e t (p, c) f" g c' u] siblings_differ [of A B s ps d "node e t (p, c) f" g c' u]
  by (cases d) auto

lemma insert_color_loop_ok:
  "rb_rep A B s ps (node d l (a, True) r) \<Longrightarrow> rb_ok True n l \<Longrightarrow> rb_ok True n r \<Longrightarrow> path_ok False n ps \<Longrightarrow>
     \<exists>s' t. rb_insert_color_loop a s = Some s' \<and> rb_rep A B s' [] t \<and> elems t = elems (plug ps (node d l (a, True) r)) \<and> (\<exists>N. rb_ok False N t)"
proof (induction "length ps" arbitrary: ps s d l a r n rule: less_induct)
  case less
  note rep = less.prems(1)
  show ?case
  proof (cases ps)
    case Nil
    then have "rb_insert_color_loop a s = Some s" using insert_color_stops [OF node_reads(3) [OF rep]] by (simp add: rb_is_red_def)
    moreover have "rb_ok False n (node d l (a, True) r)" using less.prems(2,3) by simp
    ultimately show ?thesis using rep unfolding Nil plug.simps by blast
  next
    case (Cons y qs)
    obtain e p c f where y: "y = (e, (p, c), f)" by (metis prod.exhaust)
    have rep1: "rb_rep A B s qs (node e (node d l (a, True) r) (p, c) f)" using rep unfolding Cons y rb_rep_zip .
    have p: "name_RB_GETPARENT a s = Some p" "rb_is_red p s = Some c"
      using node_reads(3) [OF rep] node_colors(5) [OF rep1] by (simp_all add: Cons y)
    show ?thesis
    proof (cases c)
      case False
      have "\<exists>N. rb_ok True N (plug ps (node d l (a, True) r))"
        by (rule rb_ok_plug [of n]) (use less.prems False in \<open>simp_all add: Cons y\<close>)
      moreover have "rb_insert_color_loop a s = Some s" using insert_color_stops [OF p(1)] p(2) False by simp
      moreover have "rb_rep A B s [] (plug ps (node d l (a, True) r))" using rep rb_rep_plug by blast
      ultimately show ?thesis using rb_ok_weaken by blast
    next
      case True
      then obtain e' g u rs where qs: "qs = (e', (g, False), u) # rs" and ok: "rb_ok True n f" "rb_ok False n u" "path_ok False (Suc n) rs"
        using less.prems(4) unfolding Cons y by (cases qs) (auto split: if_splits)
      have rep2: "rb_rep A B s rs (node e' (node e (node d l (a, True) r) (p, True) f) (g, False) u)"
        using rep1 True unfolding qs rb_rep_zip by simp
      have g: "name_RB_GETPARENT p s = Some g" using node_reads(3) [OF rep1] by (simp add: qs)
      obtain gl where gl: "RB_LEFT g s = Some gl" using left_is(1) [OF rep2] by blast
      have eq: "rb_insert_color_loop a s = insert_color_turn rb_insert_color_loop e' p g a s"
        using p True g gl rb_nonleaf [OF rep2 gl] by (subst insert_color_loop_eq) simp
      have elems2: "elems (plug ps (node d l (a, True) r)) = elems (plug rs (node e' (node e (node d l (a, True) r) (p, True) f) (g, False) u))"
        using True by (simp add: Cons y qs)
      show ?thesis
      proof (cases "red_root u")
        case red: True
        obtain s1 v where s1: "rb_insert_color_loop a s = rb_insert_color_loop g s1"
          "rb_rep A B s1 rs (node e' (node e (node d l (a, True) r) (p, False) f) (g, True) v)"
          "elems v = elems u" "rb_ok True (Suc n) v"
          using insert_color_recolour [OF rep2 red] ok(2) eq by metis
        have "rb_ok True (Suc n) (node e (node d l (a, True) r) (p, False) f)" using less.prems(2,3) ok(1) rb_ok_weaken by simp
        moreover have "elems (plug rs (node e' (node e (node d l (a, True) r) (p, False) f) (g, True) v)) = elems (plug ps (node d l (a, True) r))"
          unfolding elems2 by (simp add: elems_plug elems_node s1(3))
        moreover have "length rs < length ps" by (simp add: Cons qs)
        ultimately show ?thesis using less.hyps [OF _ s1(2) _ s1(4) ok(3)] s1(1) by metis
      next
        case False
        obtain x y where xy: "node d l (a, True) r = node e' x (a, True) y" "rb_ok True n x" "rb_ok True n y"
          using less.prems(2,3) by (cases "d = e'"; cases d; cases e') auto
        obtain s' x' q y' where s': "rb_insert_color_loop a s = Some s'" "rb_rep A B s' rs (node e' x' (q, False) y')"
          "elems (node e' x' (q, False) y') = elems (node e' (node e (node d l (a, True) r) (p, True) f) (g, False) u)"
          "rb_ok True (Suc n) (node e' x' (q, False) y')"
          using insert_color_rotate [OF rep2 False xy(1)] xy(2,3) ok(1,2) eq by metis
        have "\<exists>N. rb_ok True N (plug rs (node e' x' (q, False) y'))"
          by (rule rb_ok_plug [of "Suc n"]) (use s'(4) ok(3) in simp_all)
        then show ?thesis using s'(1,2) elems_plug_cong [OF s'(3)] elems2 rb_rep_plug rb_ok_weaken by metis
      qed
    qed
  qed
qed

lemma insert_color_ok:
  assumes "rb_rep A B s ps (node d Leaf (a, True) Leaf)" "path_ok False 0 ps"
  obtains s' t where "name_RB_INSERT_COLOR a s = Some s'" "rb_rep A B s' [] t" "elems t = before ps @ a # after ps" "\<exists>N. rb_ok True N t"
proof -
  obtain s1 t where s1: "rb_insert_color_loop a s = Some s1" "rb_rep A B s1 [] t" "elems t = elems (plug ps (node d Leaf (a, True) Leaf))"
    "\<exists>N. rb_ok False N t"
    using insert_color_loop_ok [OF assms(1) _ _ assms(2)] by auto
  have el: "elems t = before ps @ a # after ps" using s1(3) by (cases d) (simp_all add: elems_plug)
  then obtain l b c r where t: "t = node Lft l (b, c) r" using node_cases [of t Lft] by (cases t) auto
  obtain s2 where s2: "name_RB_SETCOLOR b (rb_color False) s1 = Some s2" "rb_rep A B s2 [] (node Lft l (b, False) r)"
    using s1(2) unfolding t by (rule setcolor_ok)
  have "rbh_root s1 = b" using s1(2) by (simp add: t rb_rep_def)
  then have "name_RB_INSERT_COLOR a s = Some s2" using s1(1) s2(1) by (simp add: name_RB_INSERT_COLOR_def rb_color_consts)
  moreover obtain N where N: "rb_ok False N (node Lft l (b, c) r)" using s1(4) t by blast
  have "\<exists>N. rb_ok True N (node Lft l (b, False) r)"
  proof (cases c)
    case True
    then show ?thesis using N rb_ok_weaken by (intro exI [of _ "Suc N"]) auto
  next
    case False
    then show ?thesis using N by (intro exI [of _ N]) simp
  qed
  ultimately show ?thesis using that s2(2) el t by simp
qed

subsection \<open>Recolouring after a removal\<close>

text \<open>Both branches of the loop are one branch, mirrored; its parts.\<close>

definition red_sibling :: "side \<Rightarrow> ptr \<Rightarrow> ptr \<Rightarrow> rb_head \<Rightarrow> (ptr \<times> rb_head) option" where
  "red_sibling d parent tmp s = do {
     s \<leftarrow> RB_SET_BLACKRED tmp parent s;
     (_, s) \<leftarrow> rb_rotate d parent s;
     tmp \<leftarrow> rb_get (opp d) parent s;
     Some (tmp, s) }"

definition near_nephew :: "side \<Rightarrow> ptr \<Rightarrow> ptr \<Rightarrow> rb_head \<Rightarrow> (ptr \<times> rb_head) option" where
  "near_nephew d parent tmp s = do {
     near \<leftarrow> rb_get d tmp s;
     s \<leftarrow> (if near \<noteq> NULL then name_RB_SETCOLOR near RB_BLACK s else Some s);
     s \<leftarrow> name_RB_SETCOLOR tmp RB_RED s;
     (_, s) \<leftarrow> rb_rotate (opp d) tmp s;
     tmp \<leftarrow> rb_get (opp d) parent s;
     Some (tmp, s) }"

definition far_nephew :: "side \<Rightarrow> ptr \<Rightarrow> ptr \<Rightarrow> rb_head \<Rightarrow> (ptr \<times> rb_head) option" where
  "far_nephew d parent tmp s = do {
     c \<leftarrow> name_RB_GETCOLOR parent s;
     s \<leftarrow> name_RB_SETCOLOR tmp c s;
     s \<leftarrow> name_RB_SETCOLOR parent RB_BLACK s;
     far \<leftarrow> rb_get (opp d) tmp s;
     s \<leftarrow> (if far \<noteq> NULL then name_RB_SETCOLOR far RB_BLACK s else Some s);
     (_, s) \<leftarrow> rb_rotate d parent s;
     Some (RB_ROOT s, s) }"

definition remove_color_turn :: "(ptr \<Rightarrow> ptr \<Rightarrow> rb_head \<Rightarrow> (ptr \<times> rb_head) option) \<Rightarrow> side \<Rightarrow> ptr \<Rightarrow> ptr \<Rightarrow> rb_head \<Rightarrow> (ptr \<times> rb_head) option" where
  "remove_color_turn loop d parent tmp s = do {
     tl \<leftarrow> RB_LEFT tmp s;
     lblack \<leftarrow> rb_is_black tl s;
     tr \<leftarrow> RB_RIGHT tmp s;
     both \<leftarrow> (if lblack then rb_is_black tr s else Some False);
     if both then do {
       s \<leftarrow> name_RB_SETCOLOR tmp RB_RED s;
       let elm = parent;
       parent \<leftarrow> name_RB_GETPARENT elm s;
       loop parent elm s }
     else do {
       far \<leftarrow> rb_get (opp d) tmp s;
       fblack \<leftarrow> rb_is_black far s;
       (tmp, s) \<leftarrow> (if fblack then near_nephew d parent tmp s else Some (tmp, s));
       far_nephew d parent tmp s } }"

lemma remove_color_loop_eq:
  "rb_remove_color_loop parent elm s = do {
     black \<leftarrow> rb_is_black elm s;
     if black \<and> elm \<noteq> RB_ROOT s then do {
       pl \<leftarrow> RB_LEFT parent s;
       let d = (if pl = elm then Lft else Rgt);
       tmp \<leftarrow> rb_get (opp d) parent s;
       c \<leftarrow> name_RB_GETCOLOR tmp s;
       (tmp, s) \<leftarrow> (if c = RB_RED then red_sibling d parent tmp s else Some (tmp, s));
       remove_color_turn rb_remove_color_loop d parent tmp s }
     else Some (elm, s) }"
proof -
  note L = opp.simps rb_get_simps remove_color_turn_def red_sibling_def near_nephew_def far_nephew_def rb_rotate_simps Let_def
  show ?thesis
    unfolding Let_def
  proof (subst rb_remove_color_loop.simps, intro Option.bind_cong if_cong refl, goal_cases)
    case (1 b l)
    show ?case
    proof (cases "l = elm")
      case True
      show ?thesis unfolding if_P [OF True] L by (rule refl)
    next
      case False
      show ?thesis unfolding if_not_P [OF False] L by (rule refl)
    qed
  qed
qed

lemma red_sibling_ok:
  assumes rep: "rb_rep A B s ps (node d t (p, cp) (node d x (b, cb) y))"
  obtains s' where "red_sibling d p b s = Some (rb_addr x, s')" "rb_rep A B s' ((d, (b, False), y) # ps) (node d t (p, True) x)"
proof -
  have "rb_rep A B s ps (node (opp d) (node d x (b, cb) y) (p, cp) t)" using rep by simp
  then obtain s1 where s1: "RB_SET_BLACKRED b p s = Some s1" "rb_rep A B s1 ps (node (opp d) (node d x (b, False) y) (p, True) t)"
    by (rule set_blackred_ok)
  then have "rb_rep A B s1 ps (node d t (p, True) (node d x (b, False) y))" by simp
  then obtain s2 where s2: "rb_rotate d p s1 = Some (b, s2)" "rb_rep A B s2 ps (node d (node d t (p, True) x) (b, False) y)"
    by (rule rotate_ok)
  then have rep2: "rb_rep A B s2 ((d, (b, False), y) # ps) (node d t (p, True) x)" unfolding rb_rep_zip by simp
  show ?thesis using that [OF _ rep2] s1(1) s2(1) node_reads(2) [OF rep2] by (simp add: red_sibling_def)
qed

lemma near_nephew_ok:
  assumes rep: "rb_rep A B s ps (node d t (p, cp) (node d (node d x (c, cc) z) (b, cb) y))"
  obtains s' where "near_nephew d p b s = Some (c, s')" "rb_rep A B s' ps (node d t (p, cp) (node d x (c, False) (node d z (b, True) y)))"
proof -
  have r0: "rb_rep A B s ((opp d, (p, cp), t) # ps) (node d (node d x (c, cc) z) (b, cb) y)" using rep unfolding rb_rep_zip by simp
  then have "rb_rep A B s ((d, (b, cb), y) # (opp d, (p, cp), t) # ps) (node d x (c, cc) z)" unfolding rb_rep_zip .
  then obtain s1 where s1: "name_RB_SETCOLOR c (rb_color False) s = Some s1" "rb_rep A B s1 ((d, (b, cb), y) # (opp d, (p, cp), t) # ps) (node d x (c, False) z)"
    by (rule setcolor_ok)
  from s1(2) have "rb_rep A B s1 ((opp d, (p, cp), t) # ps) (node d (node d x (c, False) z) (b, cb) y)" unfolding rb_rep_zip .
  then obtain s2 where s2: "name_RB_SETCOLOR b (rb_color True) s1 = Some s2" "rb_rep A B s2 ((opp d, (p, cp), t) # ps) (node d (node d x (c, False) z) (b, True) y)"
    by (rule setcolor_ok)
  from s2(2) have "rb_rep A B s2 ((opp d, (p, cp), t) # ps) (node (opp d) y (b, True) (node (opp d) z (c, False) x))" by simp
  then obtain s3 where s3: "rb_rotate (opp d) b s2 = Some (c, s3)" "rb_rep A B s3 ((opp d, (p, cp), t) # ps) (node (opp d) (node (opp d) y (b, True) z) (c, False) x)"
    by (rule rotate_ok)
  then have rep3: "rb_rep A B s3 ps (node d t (p, cp) (node d x (c, False) (node d z (b, True) y)))" unfolding rb_rep_zip by simp
  have "c \<noteq> NULL" using node_reads(5) [OF s1(2)] .
  then show ?thesis using that [OF _ rep3] s1(1) s2(1) s3(1) node_reads(1) [OF r0] node_reads(2) [OF rep3] by (simp add: near_nephew_def rb_color_consts)
qed

fun blacken :: "rbt \<Rightarrow> rbt" where
  "blacken Leaf = Leaf"
| "blacken (Node l x r) = Node l (fst x, False) r"

lemma blacken_simps [simp]: "elems (blacken t) = elems t" "rb_addr (blacken t) = rb_addr t" "blacken (node d l x r) = node d l (fst x, False) r"
    "\<not> red_root (blacken t)" "\<not> red_root t \<Longrightarrow> blacken t = t"
  by (cases t; cases d; auto)+

lemma blacken_ok:
  assumes "rb_rep A B s ps t"
  obtains s' where "(if rb_addr t \<noteq> NULL then name_RB_SETCOLOR (rb_addr t) RB_BLACK s else Some s) = Some s'" "rb_rep A B s' ps (blacken t)"
proof (cases t)
  case Leaf
  then show ?thesis using that [of s] assms by simp
next
  case (Node l x r)
  then obtain a c where t: "t = node Lft l (a, c) r" by (cases x) simp
  then show ?thesis using setcolor_ok [of A B s ps Lft l a c r] assms that node_reads(5) [of A B s ps Lft l a c r]
    by (metis (mono_tags, lifting) blacken_simps(3) fst_conv node_simps(3) rb_color_consts(2))
qed

lemma far_nephew_ok:
  assumes rep: "rb_rep A B s ps (node d t (p, cp) (node d x (b, cb) y))"
  obtains s' where "far_nephew d p b s = Some (RB_ROOT s', s')" "rb_rep A B s' ps (node d (node d t (p, False) x) (b, cp) (blacken y))"
proof -
  have "rb_rep A B s ((opp d, (p, cp), t) # ps) (node d x (b, cb) y)" using rep unfolding rb_rep_zip by simp
  then obtain s1 where s1: "name_RB_SETCOLOR b (rb_color cp) s = Some s1" "rb_rep A B s1 ((opp d, (p, cp), t) # ps) (node d x (b, cp) y)"
    by (rule setcolor_ok)
  from s1(2) have "rb_rep A B s1 ps (node d t (p, cp) (node d x (b, cp) y))" unfolding rb_rep_zip by simp
  then obtain s2 where s2: "name_RB_SETCOLOR p (rb_color False) s1 = Some s2" "rb_rep A B s2 ps (node d t (p, False) (node d x (b, cp) y))"
    by (rule setcolor_ok)
  from s2(2) have r2: "rb_rep A B s2 ((opp d, (p, False), t) # ps) (node d x (b, cp) y)" unfolding rb_rep_zip by simp
  then have "rb_rep A B s2 ((opp d, (b, cp), x) # (opp d, (p, False), t) # ps) y" unfolding rb_rep_zip by simp
  then obtain s3 where s3: "(if rb_addr y \<noteq> NULL then name_RB_SETCOLOR (rb_addr y) RB_BLACK s2 else Some s2) = Some s3"
    "rb_rep A B s3 ((opp d, (b, cp), x) # (opp d, (p, False), t) # ps) (blacken y)"
    by (rule blacken_ok)
  from s3(2) have "rb_rep A B s3 ps (node d t (p, False) (node d x (b, cp) (blacken y)))" unfolding rb_rep_zip by simp
  then obtain s4 where s4: "rb_rotate d p s3 = Some (b, s4)" "rb_rep A B s4 ps (node d (node d t (p, False) x) (b, cp) (blacken y))"
    by (rule rotate_ok)
  have "far_nephew d p b s = Some (RB_ROOT s4, s4)" unfolding far_nephew_def
    by (simp only: node_reads(4) [OF rep] s1(1) s2(1) [folded rb_color_consts] node_reads(2) [OF r2] s3(1) s4(1) bind.simps prod.case)
  then show ?thesis using that s4(2) by blast
qed

text \<open>The rest of a turn, when the sibling is black.\<close>

lemma remove_turn_both:
  assumes rep: "rb_rep A B s ps (node d t (p, cp) (node d x (b, cb) y))" and black: "\<not> red_root x" "\<not> red_root y"
  obtains s' where "remove_color_turn loop d p b s = loop (ptop ps) p s'" "rb_rep A B s' ps (node d t (p, cp) (node d x (b, True) y))"
proof -
  have r0: "rb_rep A B s ((opp d, (p, cp), t) # ps) (node d x (b, cb) y)" using rep unfolding rb_rep_zip by simp
  then obtain s1 where s1: "name_RB_SETCOLOR b (rb_color True) s = Some s1" "rb_rep A B s1 ((opp d, (p, cp), t) # ps) (node d x (b, True) y)"
    by (rule setcolor_ok)
  then have rep1: "rb_rep A B s1 ps (node d t (p, cp) (node d x (b, True) y))" unfolding rb_rep_zip by simp
  have "remove_color_turn loop d p b s = loop (ptop ps) p s1"
    using left_is [OF r0] node_colors(3,4) [OF r0] black s1(1) node_reads(3) [OF rep1]
    by (simp add: remove_color_turn_def rb_color_consts split: if_splits)
  then show ?thesis using that rep1 by blast
qed

lemma remove_turn_rotate:
  assumes rep: "rb_rep A B s ps (node d t (p, cp) (node d x (b, False) y))" and red: "red_root x \<or> red_root y"
  obtains s' x' b' y' where "remove_color_turn loop d p b s = Some (RB_ROOT s', s')" "rb_rep A B s' ps (node d (node d t (p, False) x') (b', cp) y')"
    "elems (node d (node d t (p, False) x') (b', cp) y') = elems (node d t (p, cp) (node d x (b, False) y))"
    "\<And>n. rb_ok False n x \<Longrightarrow> rb_ok False n y \<Longrightarrow> rb_ok False n x' \<and> rb_ok True (Suc n) y'"
proof -
  have r0: "rb_rep A B s ((opp d, (p, cp), t) # ps) (node d x (b, False) y)" using rep unfolding rb_rep_zip by simp
  have turn: "remove_color_turn loop d p b s = (if \<not> red_root y then near_nephew d p b s else Some (b, s)) \<bind> (\<lambda>(tmp, s). far_nephew d p tmp s)"
    using left_is [OF r0] node_colors(3,4) [OF r0] red node_reads(2) [OF r0]
    by (cases "red_root x"; cases "red_root y"; cases d) (simp_all add: remove_color_turn_def)
  show ?thesis
  proof (cases "red_root y")
    case True
    then obtain l z r where y: "y = Node l (z, True) r" by (cases y) auto
    obtain s' where s': "far_nephew d p b s = Some (RB_ROOT s', s')" "rb_rep A B s' ps (node d (node d t (p, False) x) (b, cp) (blacken y))"
      using rep by (rule far_nephew_ok)
    have "remove_color_turn loop d p b s = Some (RB_ROOT s', s')" using turn True s'(1) by simp
    then show ?thesis by (rule that [OF _ s'(2)]) (use y in \<open>cases d, auto dest: rb_ok_weaken\<close>)
  next
    case False
    then obtain u c z where x: "x = node d u (c, True) z" using red node_cases [of x d] by (metis red_root.simps(1) red_root_node snd_conv)
    obtain s1 where s1: "near_nephew d p b s = Some (c, s1)" "rb_rep A B s1 ps (node d t (p, cp) (node d u (c, False) (node d z (b, True) y)))"
      using rep unfolding x by (rule near_nephew_ok)
    obtain s' where s': "far_nephew d p c s1 = Some (RB_ROOT s', s')" "rb_rep A B s' ps (node d (node d t (p, False) u) (c, cp) (blacken (node d z (b, True) y)))"
      using s1(2) by (rule far_nephew_ok)
    have "remove_color_turn loop d p b s = Some (RB_ROOT s', s')" using turn False s1(1) s'(1) by simp
    then show ?thesis by (rule that [OF _ s'(2)]) (use x False in \<open>cases d, auto dest: rb_ok_weaken simp: rb_ok_iff [of _ y]\<close>)
  qed
qed

text \<open>A subtree that lacks one black element on every way down, unless its red root turns black.\<close>

definition deficient :: "nat \<Rightarrow> rbt \<Rightarrow> bool" where
  "deficient n t \<longleftrightarrow> (if red_root t then rb_ok False (Suc n) (blacken t) else rb_ok False n t)"

text \<open>The loop has returned an element that only has to turn black.\<close>

definition recoloured :: "ptr set \<Rightarrow> rb_heap \<Rightarrow> ptr list \<Rightarrow> (ptr \<times> rb_head) option \<Rightarrow> bool" where
  "recoloured A B xs r \<longleftrightarrow> (\<exists>s qs u N. r = Some (rb_addr u, s) \<and> rb_rep A B s qs u \<and> elems (plug qs u) = xs \<and> rb_ok True N (plug qs (blacken u)))"

lemma rb_path_root: "rb_path_at H root h ps \<Longrightarrow> ps \<noteq> [] \<Longrightarrow> root \<in> path_set ps \<and> root \<noteq> NULL"
proof (induction ps arbitrary: h)
  case (Cons y ps)
  obtain d a c f where y: "y = (d, (a, c), f)" by (metis prod.exhaust)
  show ?case using Cons.prems(1) Cons.IH [of a] unfolding y path_set_Cons by (cases "ps = []") auto
qed simp

lemma rb_rep_parts:
  assumes "rb_rep A B s ps t"
  shows "rb_tree_at (rb_nodes s) (ptop ps) t" "rb_path_at (rb_nodes s) (rbh_root s) (rb_addr t) ps" "tree_set t \<inter> path_set ps = {}"
    "even_ptr (ptop ps)" "distinct (elems t)" "distinct (before ps @ after ps)"
  using assms even_ptop unfolding rb_rep_def by auto

lemma root_above:
  assumes "rb_rep A B s ps t" "ps \<noteq> []"
  shows "rb_addr t \<noteq> RB_ROOT s"
proof -
  have "RB_ROOT s \<in> path_set ps" "RB_ROOT s \<noteq> NULL"
    using rb_path_root [OF rb_rep_parts(2) [OF assms(1)] assms(2)] by (simp_all add: RB_ROOT_def)
  moreover have "rb_addr t = NULL \<or> rb_addr t \<in> tree_set t" by (cases t) auto
  ultimately show ?thesis using rb_rep_parts(3) [OF assms(1)] by (metis IntI empty_iff)
qed

lemma remove_color_stops:
  assumes rep: "rb_rep A B s ps t" and stop: "red_root t \<or> ps = []" and ok: "deficient n t" "path_ok False (Suc n) ps"
  shows "recoloured A B (elems (plug ps t)) (rb_remove_color_loop q (rb_addr t) s)"
proof -
  note P = rb_rep_parts [OF rep]
  have "rb_remove_color_loop q (rb_addr t) s = Some (rb_addr t, s)"
    using stop is_black_tree [OF P(1,4)] P(2) by (subst remove_color_loop_eq) (auto simp: RB_ROOT_def)
  moreover have "\<exists>N. rb_ok True N (plug ps (blacken t))"
  proof (cases "red_root t")
    case True
    show ?thesis by (rule rb_ok_plug [of "Suc n"]) (use ok True in \<open>simp_all add: deficient_def\<close>)
  next
    case False
    then show ?thesis using stop ok by (auto simp: deficient_def rb_ok_iff)
  qed
  ultimately show ?thesis using rep unfolding recoloured_def by blast
qed

lemma remove_turn_ok:
  assumes rep: "rb_rep A B s ((d, (p, cp), w) # ps) t" and ok: "\<not> red_root t" "rb_ok False n t" "\<not> red_root w" "path_ok False (Suc n) ((d, (p, cp), w) # ps)"
    and cont: "\<And>s' u m. rb_rep A B s' ps u \<Longrightarrow> deficient m u \<Longrightarrow> path_ok False (Suc m) ps \<Longrightarrow> red_root u = cp \<Longrightarrow>
      recoloured A B (elems (plug ps u)) (loop (ptop ps) (rb_addr u) s')"
  shows "recoloured A B (elems (plug ((d, (p, cp), w) # ps) t)) (remove_color_turn loop d p (rb_addr w) s)"
proof -
  have w: "rb_ok False (Suc n) w" and ps: "path_ok cp (if cp then Suc n else Suc (Suc n)) ps"
    using ok(4) by (auto split: if_splits dest: rb_ok_weaken)
  then have "w \<noteq> Leaf" by auto
  then obtain x b y where wb: "w = node d x (b, False) y" using ok(3) node_cases [of w d] by (metis red_root_node snd_conv)
  have xy: "rb_ok False n x" "rb_ok False n y" using w unfolding wb by simp_all
  have rep1: "rb_rep A B s ps (node d t (p, cp) (node d x (b, False) y))" using rep unfolding rb_rep_zip wb .
  show ?thesis
  proof (cases "red_root x \<or> red_root y")
    case False
    obtain s' where s': "remove_color_turn loop d p b s = loop (ptop ps) p s'" "rb_rep A B s' ps (node d t (p, cp) (node d x (b, True) y))"
      using remove_turn_both [OF rep1] False by metis
    have "rb_ok False n (node d x (b, True) y)" using xy False by (simp add: rb_ok_iff)
    then have "deficient (if cp then n else Suc n) (node d t (p, cp) (node d x (b, True) y))"
      using ok(2) by (cases cp) (simp_all add: deficient_def)
    moreover have "path_ok False (Suc (if cp then n else Suc n)) ps" using ps path_ok_weaken by (cases cp) auto
    ultimately have "recoloured A B (elems (plug ps (node d t (p, cp) (node d x (b, True) y)))) (loop (ptop ps) p s')"
      using cont [OF s'(2)] by simp
    moreover have "elems (plug ps (node d t (p, cp) (node d x (b, True) y))) = elems (plug ((d, (p, cp), w) # ps) t)"
      by (simp add: wb elems_plug elems_node)
    ultimately show ?thesis using s'(1) by (simp add: wb)
  next
    case True
    obtain s' x' b' y' where s': "remove_color_turn loop d p b s = Some (RB_ROOT s', s')" "rb_rep A B s' ps (node d (node d t (p, False) x') (b', cp) y')"
      "elems (node d (node d t (p, False) x') (b', cp) y') = elems (node d t (p, cp) (node d x (b, False) y))"
      "rb_ok False n x'" "rb_ok True (Suc n) y'"
      using remove_turn_rotate [OF rep1 True] xy by metis
    define T where "T = plug ps (node d (node d t (p, False) x') (b', cp) y')"
    have "\<exists>N. rb_ok True N T" unfolding T_def
      by (rule rb_ok_plug [of "if cp then Suc n else Suc (Suc n)"]) (use s'(4,5) ok(2) ps rb_ok_weaken in auto)
    moreover from this have "blacken T = T" by (auto simp: rb_ok_iff)
    moreover have "rb_rep A B s' [] T" using s'(2) rb_rep_plug unfolding T_def by blast
    moreover from this have "RB_ROOT s' = rb_addr T" by (simp add: rb_rep_def RB_ROOT_def)
    moreover have "elems T = elems (plug ((d, (p, cp), w) # ps) t)" using s'(3) by (simp add: T_def wb elems_plug)
    ultimately show ?thesis using s'(1) unfolding recoloured_def by (auto simp: wb intro!: exI [of _ T] exI [of _ "[] :: rb_path"])
  qed
qed

lemma remove_color_loop_ok:
  "rb_rep A B s ps t \<Longrightarrow> deficient n t \<Longrightarrow> path_ok False (Suc n) ps \<Longrightarrow>
     recoloured A B (elems (plug ps t)) (rb_remove_color_loop (ptop ps) (rb_addr t) s)"
proof (induction ps arbitrary: s t n)
  case Nil
  then show ?case using remove_color_stops by blast
next
  case (Cons y ps)
  obtain d p cp w where y: "y = (d, (p, cp), w)" by (metis prod.exhaust)
  note rep = Cons.prems(1)
  show ?case
  proof (cases "red_root t")
    case True
    then show ?thesis using remove_color_stops Cons.prems by blast
  next
    case black: False
    have t: "rb_ok False n t" using Cons.prems(2) black by (simp add: deficient_def)
    have "w \<noteq> Leaf" using Cons.prems(3) by (auto simp: y split: if_splits)
    then obtain x b cb z where w: "w = node d x (b, cb) z" using node_cases by metis
    have rep1: "rb_rep A B s ps (node d t (p, cp) w)" using rep unfolding y rb_rep_zip .
    have side: "(if pl = rb_addr t then Lft else Rgt) = d" if "RB_LEFT p s = Some pl" for pl
      using left_is(1) [OF rep1] that siblings_differ [OF rep1] \<open>w \<noteq> Leaf\<close> by (cases d) auto
    obtain pl where pl: "RB_LEFT p s = Some pl" using left_is(1) [OF rep1] by blast
    have cw: "name_RB_GETCOLOR (rb_addr w) s = Some (rb_color cb)"
      using node_reads(4) [of A B s "(opp d, (p, cp), t) # ps" d x b cb z] rep1 unfolding rb_rep_zip w by simp
    have eq: "rb_remove_color_loop p (rb_addr t) s =
        (if cb then red_sibling d p (rb_addr w) s else Some (rb_addr w, s)) \<bind> (\<lambda>(tmp, s). remove_color_turn rb_remove_color_loop d p tmp s)"
      using is_black_tree [OF rb_rep_parts(1,4) [OF rep]] black root_above [OF rep] pl side [OF pl] node_reads(2) [OF rep1] cw
      by (subst remove_color_loop_eq) (simp add: Let_def rb_color_consts)
    show ?thesis
    proof (cases cb)
      case False
      have "recoloured A B (elems (plug ((d, (p, cp), w) # ps) t)) (remove_color_turn rb_remove_color_loop d p (rb_addr w) s)"
        by (rule remove_turn_ok [OF _ black t]) (use rep Cons.prems(3) Cons.IH False in \<open>simp_all add: y w\<close>)
      then show ?thesis using eq False by (simp add: y)
    next
      case True
      have cp: "\<not> cp" and ok: "rb_ok True (Suc n) x" "rb_ok True (Suc n) z" "path_ok False (Suc (Suc n)) ps"
        using Cons.prems(3) True unfolding y w by (auto split: if_splits)
      obtain s1 where s1: "red_sibling d p b s = Some (rb_addr x, s1)" "rb_rep A B s1 ((d, (b, False), z) # ps) (node d t (p, True) x)"
        using rep1 unfolding w by (rule red_sibling_ok)
      have "recoloured A B (elems (plug ((d, (p, True), x) # (d, (b, False), z) # ps) t)) (remove_color_turn rb_remove_color_loop d p (rb_addr x) s1)"
      proof (rule remove_turn_ok [OF _ black t])
        show "rb_rep A B s1 ((d, (p, True), x) # (d, (b, False), z) # ps) t" using s1(2) unfolding rb_rep_zip .
        show "recoloured A B (elems (plug ((d, (b, False), z) # ps) u)) (rb_remove_color_loop (ptop ((d, (b, False), z) # ps)) (rb_addr u) s')"
          if "rb_rep A B s' ((d, (b, False), z) # ps) u" "deficient m u" "path_ok False (Suc m) ((d, (b, False), z) # ps)" "red_root u = True" for s' u m
          using remove_color_stops that by blast
      qed (use ok in \<open>auto simp: rb_ok_iff\<close>)
      then show ?thesis using eq True s1(1) by (simp add: y w elems_plug elems_node split: if_splits)
    qed
  qed
qed

lemma remove_color_ok:
  assumes "rb_rep A B s ps t" "rb_ok False n t" "path_ok False (Suc n) ps"
  obtains s' t' N where "name_RB_REMOVE_COLOR (ptop ps) (rb_addr t) s = Some s'" "rb_rep A B s' [] t'" "elems t' = elems (plug ps t)" "rb_ok True N t'"
proof -
  have "deficient n t" using assms(2) by (cases t) (auto simp: deficient_def dest: rb_ok_weaken split: if_splits)
  then obtain s1 qs u N where s1: "rb_remove_color_loop (ptop ps) (rb_addr t) s = Some (rb_addr u, s1)" "rb_rep A B s1 qs u"
    "elems (plug qs u) = elems (plug ps t)" "rb_ok True N (plug qs (blacken u))"
    using remove_color_loop_ok [OF assms(1) _ assms(3)] unfolding recoloured_def by blast
  obtain s' where s': "(if rb_addr u \<noteq> NULL then name_RB_SETCOLOR (rb_addr u) RB_BLACK s1 else Some s1) = Some s'" "rb_rep A B s' qs (blacken u)"
    using s1(2) by (rule blacken_ok)
  have "name_RB_REMOVE_COLOR (ptop ps) (rb_addr t) s = Some s'" unfolding name_RB_REMOVE_COLOR_def
    by (simp only: s1(1) s'(1) bind.simps prod.case)
  moreover have "rb_rep A B s' [] (plug qs (blacken u))" using s'(2) rb_rep_plug by blast
  moreover have "elems (plug qs (blacken u)) = elems (plug ps t)" using s1(3) by (simp add: elems_plug)
  ultimately show ?thesis using that s1(4) by blast
qed

end
