(* ===== verification/RBTreeLaws.thy ===== *)
theory RBTreeLaws
  imports RBTreeRecolor
begin

section \<open>Laws of the red-black trees\<close>

text \<open>
  Search, insertion, removal and neighbours of the red-black trees of \<^verbatim>\<open>libkern/tree.h\<close>, the
  interpretation of the ordered interface, the loops, and the claims.
\<close>

subsection \<open>Search\<close>

lemma ord_find_append:
  "\<forall>y \<in> set ys. cmp e y \<noteq> 0 \<Longrightarrow> ord_find cmp e (xs @ ys) = ord_find cmp e xs"
  "\<forall>x \<in> set xs. cmp e x \<noteq> 0 \<Longrightarrow> ord_find cmp e (xs @ ys) = ord_find cmp e ys"
proof -
  assume "\<forall>y \<in> set ys. cmp e y \<noteq> 0"
  then have "find (\<lambda>x. cmp e x = 0) ys = None" by (simp add: find_None_iff)
  then show "ord_find cmp e (xs @ ys) = ord_find cmp e xs" by (induction xs) (auto simp: ord_find_def)
qed (induction xs, auto simp: ord_find_def)

text \<open>The elements of a tree on either side of an element that is compared with a key.\<close>

lemma ascending_sides:
  assumes "cmp_ok cmp" "ascending cmp (ls @ a # rs)"
  shows "cmp e a \<le> 0 \<Longrightarrow> \<forall>x \<in> set rs. cmp e x < 0" "0 \<le> cmp e a \<Longrightarrow> \<forall>x \<in> set ls. 0 < cmp e x"
    "ascending cmp ls" "ascending cmp rs"
proof -
  have lr: "\<forall>x \<in> set ls. cmp x a < 0" "\<forall>x \<in> set rs. cmp a x < 0" and asc: "ascending cmp ls" "ascending cmp rs"
    using assms(2) by (auto simp: ascending_def sorted_wrt_append)
  show "\<forall>x \<in> set rs. cmp e x < 0" if "cmp e a \<le> 0" using cmp_less_trans(2) [OF assms(1) that] lr(2) by blast
  show "\<forall>x \<in> set ls. 0 < cmp e x" if "0 \<le> cmp e a"
    using cmp_less_trans(1) [OF assms(1), of _ a e] lr(1) that cmp_flip(1,2) [OF assms(1)] by metis
qed (use assms(2) in \<open>auto simp: ascending_def sorted_wrt_append\<close>)

lemma rb_find_loop_ok:
  assumes "cmp_ok cmp" "rb_nodes s e \<noteq> None"
  shows "rb_tree_at (rb_nodes s) p t \<Longrightarrow> ascending cmp (elems t) \<Longrightarrow> rb_find_loop cmp e (rb_addr t) s = Some (ord_find cmp e (elems t))"
proof (induction t arbitrary: p)
  case Leaf
  then show ?case by (simp add: rb_find_loop.simps ord_find_def)
next
  case (Node l x r)
  obtain a c where x: "x = (a, c)" by (cases x)
  note asc = ascending_sides [OF assms(1) Node.prems(2) [unfolded elems.simps x fst_conv]]
  show ?case
  proof (cases "cmp e a" "0 :: int" rule: linorder_cases)
    case less
    have "\<forall>y \<in> set (a # elems r). cmp e y \<noteq> 0" using asc(1) [of e] less by auto
    then show ?thesis using less Node assms(2) asc(3) ord_find_append(1) [of "a # elems r"]
      by (subst rb_find_loop.simps) (auto simp: x rb_call_cmp_def RB_LEFT_def)
  next
    case equal
    then show ?thesis using Node.prems assms(2) asc(1,2) [of e] ord_find_split [of "elems l" cmp e "elems r" a]
      by (subst rb_find_loop.simps) (auto simp: x rb_call_cmp_def)
  next
    case greater
    have "\<forall>y \<in> set (elems l @ [a]). cmp e y \<noteq> 0" using asc(2) [of e] greater by auto
    then show ?thesis using greater Node assms(2) asc(4) ord_find_append(2) [of "elems l @ [a]"]
      by (subst rb_find_loop.simps) (auto simp: x rb_call_cmp_def RB_RIGHT_def)
  qed
qed

text \<open>The first element that is not less than the key.\<close>

definition ord_nfind :: "(ptr \<Rightarrow> ptr \<Rightarrow> int) \<Rightarrow> ptr \<Rightarrow> ptr list \<Rightarrow> ptr \<Rightarrow> ptr" where
  "ord_nfind cmp e xs d = (case find (\<lambda>x. cmp e x \<le> 0) xs of None \<Rightarrow> d | Some x \<Rightarrow> x)"

lemma ord_nfind_append:
  "ord_nfind cmp e (xs @ ys) d = ord_nfind cmp e xs (ord_nfind cmp e ys d)"
  by (induction xs) (auto simp: ord_nfind_def)

lemma ord_nfind_none: "\<forall>x \<in> set xs. 0 < cmp e x \<Longrightarrow> ord_nfind cmp e xs d = d"
  by (induction xs) (auto simp: ord_nfind_def)

lemma ord_nfind_Cons: "ord_nfind cmp e (x # xs) d = (if cmp e x \<le> 0 then x else ord_nfind cmp e xs d)"
  by (simp add: ord_nfind_def)

lemma rb_nfind_loop_ok:
  assumes "cmp_ok cmp" "rb_nodes s e \<noteq> None"
  shows "rb_tree_at (rb_nodes s) p t \<Longrightarrow> ascending cmp (elems t) \<Longrightarrow> rb_nfind_loop cmp e (rb_addr t) res s = Some (ord_nfind cmp e (elems t) res)"
proof (induction t arbitrary: p res)
  case Leaf
  then show ?case by (simp add: rb_nfind_loop.simps ord_nfind_def)
next
  case (Node l x r)
  obtain a c where x: "x = (a, c)" by (cases x)
  note asc = ascending_sides [OF assms(1) Node.prems(2) [unfolded elems.simps x fst_conv]]
  have nf: "ord_nfind cmp e (elems l) res' = res'" if "0 \<le> cmp e a" for res'
    by (rule ord_nfind_none) (use asc(2) [of e] that in simp)
  show ?case using Node assms(2) asc(3,4) nf
    by (subst rb_nfind_loop.simps) (auto simp: x rb_call_cmp_def RB_LEFT_def RB_RIGHT_def ord_nfind_append ord_nfind_Cons)
qed

text \<open>The least and the greatest element.\<close>

lemma rb_minmax_loop_ok:
  "rb_tree_at (rb_nodes s) p t \<Longrightarrow> rb_minmax_loop v (rb_addr t) q s =
     Some (if t = Leaf then q else if v < 0 then hd (elems t) else last (elems t))"
proof (induction t arbitrary: p q)
  case Leaf
  then show ?case by (simp add: rb_minmax_loop.simps)
next
  case (Node l x r)
  obtain a c where x: "x = (a, c)" by (cases x)
  have "elems t = [] \<longleftrightarrow> t = Leaf" for t by (cases t) auto
  then show ?case using Node by (subst rb_minmax_loop.simps) (auto simp: x RB_LEFT_def RB_RIGHT_def)
qed

lemma rb_leftmost_ok: "rb_tree_at (rb_nodes s) p t \<Longrightarrow> t \<noteq> Leaf \<Longrightarrow> rb_leftmost (rb_addr t) s = Some (hd (elems t))"
proof (induction t arbitrary: p)
  case (Node l x r)
  obtain a c where x: "x = (a, c)" by (cases x)
  have "elems t = [] \<longleftrightarrow> t = Leaf" for t by (cases t) auto
  then show ?case using Node addr_NULL [of "rb_nodes s" a l] by (subst rb_leftmost.simps) (auto simp: x RB_LEFT_def)
qed simp

lemma rb_rightmost_ok: "rb_tree_at (rb_nodes s) p t \<Longrightarrow> t \<noteq> Leaf \<Longrightarrow> rb_rightmost (rb_addr t) s = Some (last (elems t))"
proof (induction t arbitrary: p)
  case (Node l x r)
  obtain a c where x: "x = (a, c)" by (cases x)
  have "elems t = [] \<longleftrightarrow> t = Leaf" for t by (cases t) auto
  then show ?case using Node addr_NULL [of "rb_nodes s" a r] by (subst rb_rightmost.simps) (auto simp: x RB_RIGHT_def)
qed simp

subsection \<open>Insertion\<close>

text \<open>A path on which a key belongs, and the side that the last comparison gives.\<close>

definition keyed :: "(ptr \<Rightarrow> ptr \<Rightarrow> int) \<Rightarrow> ptr \<Rightarrow> rb_path \<Rightarrow> bool" where
  "keyed cmp e ps \<longleftrightarrow> (\<forall>x \<in> set (before ps). 0 < cmp e x) \<and> (\<forall>x \<in> set (after ps). cmp e x < 0)"

fun side_ok :: "int \<Rightarrow> rb_path \<Rightarrow> bool" where
  "side_ok cv [] \<longleftrightarrow> True"
| "side_ok cv ((d, x, f) # ps) \<longleftrightarrow> (cv < 0 \<longleftrightarrow> d = Lft)"

lemma rb_insert_loop_ok:
  assumes "cmp_ok cmp" "rb_nodes s e \<noteq> None"
  shows "rb_tree_at (rb_nodes s) p t \<Longrightarrow> ascending cmp (elems t) \<Longrightarrow> keyed cmp e ps \<Longrightarrow> side_ok cv ps \<Longrightarrow>
     (\<exists>x \<in> tree_set t. cmp e x = 0 \<and> rb_insert_loop cmp e (rb_addr t) (ptop ps) cv s = Some (Inl x)) \<or>
     (\<exists>qs cv'. rb_insert_loop cmp e (rb_addr t) (ptop ps) cv s = Some (Inr (ptop qs, cv')) \<and> plug qs Leaf = plug ps t \<and>
        keyed cmp e qs \<and> side_ok cv' qs)"
proof (induction t arbitrary: p ps cv)
  case Leaf
  then show ?case by (auto simp: rb_insert_loop.simps)
next
  case (Node l x r)
  obtain a c where x: "x = (a, c)" by (cases x)
  note asc = ascending_sides [OF assms(1) Node.prems(2) [unfolded elems.simps x fst_conv]]
  have H: "a \<noteq> NULL" "rb_nodes s a = Some \<lparr>rbe_left = rb_addr l, rbe_right = rb_addr r, rbe_parent = tag p c\<rparr>"
    "rb_tree_at (rb_nodes s) a l" "rb_tree_at (rb_nodes s) a r" using Node.prems(1) by (simp_all add: x)
  show ?case
  proof (cases "cmp e a" "0 :: int" rule: linorder_cases)
    case less
    define qs where "qs = (Lft, x, r) # ps"
    have qs: "keyed cmp e qs" "side_ok (cmp e a) qs" "ptop qs = a" "plug ps (Node l x r) = plug qs l"
      using Node.prems(3) asc(1) [of e] less by (auto simp: qs_def keyed_def x)
    have "rb_insert_loop cmp e (rb_addr (Node l x r)) (ptop ps) cv s = rb_insert_loop cmp e (rb_addr l) (ptop qs) (cmp e a) s"
      using H less assms(2) qs(3) by (subst rb_insert_loop.simps) (auto simp: x rb_call_cmp_def RB_LEFT_def)
    then show ?thesis using Node.IH(1) [OF H(3) asc(3) qs(1,2)] unfolding qs(4) by auto
  next
    case equal
    then have "rb_insert_loop cmp e (rb_addr (Node l x r)) (ptop ps) cv s = Some (Inl a)"
      using H assms(2) by (subst rb_insert_loop.simps) (auto simp: x rb_call_cmp_def)
    then show ?thesis using equal by (simp add: x)
  next
    case greater
    define qs where "qs = (Rgt, x, l) # ps"
    have qs: "keyed cmp e qs" "side_ok (cmp e a) qs" "ptop qs = a" "plug ps (Node l x r) = plug qs r"
      using Node.prems(3) asc(2) [of e] greater by (auto simp: qs_def keyed_def x)
    have "rb_insert_loop cmp e (rb_addr (Node l x r)) (ptop ps) cv s = rb_insert_loop cmp e (rb_addr r) (ptop qs) (cmp e a) s"
      using H greater assms(2) qs(3) by (subst rb_insert_loop.simps) (auto simp: x rb_call_cmp_def RB_RIGHT_def)
    then show ?thesis using Node.IH(2) [OF H(4) asc(4) qs(1,2)] unfolding qs(4) by auto
  qed
qed

lemma RB_SET_ok:
  assumes "rb_nodes s e \<noteq> None" "even_ptr p"
  shows "RB_SET e p s = Some (s\<lparr>rb_nodes := (rb_nodes s)(e \<mapsto> entry Lft NULL NULL (tag p True))\<rparr>)"
proof -
  obtain l r q where "rb_nodes s e = Some \<lparr>rbe_left = l, rbe_right = r, rbe_parent = q\<rparr>" using assms(1) by (metis not_None_eq rb_entry.cases)
  then show ?thesis using assms(2)
    by (simp add: RB_SET_def SETPARENT_eq SETCOLOR_eq rb_set_left_def rb_set_right_def rb_color_consts entry_def)
qed

lemma link_ok:
  assumes "rb_path_at (rb_nodes s) (rbh_root s) h ps" "distinct (before ps @ after ps)" "side_ok cv ps"
  obtains s' where "(if ptop ps \<noteq> NULL then if cv < 0 then rb_set_left (ptop ps) e s else rb_set_right (ptop ps) e s else Some (s\<lparr>rbh_root := e\<rparr>)) = Some s'"
    "rb_path_at (rb_nodes s') (rbh_root s') e ps" "only (path_set ps) (rb_nodes s) (rb_nodes s')"
proof (cases ps)
  case Nil
  then show ?thesis using that [of "s\<lparr>rbh_root := e\<rparr>"] by simp
next
  case (Cons y qs)
  obtain d a c f where y: "y = (d, (a, c), f)" by (metis prod.exhaust)
  define G where "G = (rb_nodes s)(a \<mapsto> entry d e (rb_addr f) (tag (ptop qs) c))"
  note at = assms(1) [unfolded Cons y rb_path_at.simps]
  have new: "a \<notin> tree_set f" "a \<notin> path_set qs" using assms(2) unfolding Cons y by (cases d; simp)+
  have "rb_tree_at G a f" "rb_path_at G (rbh_root s) a qs" using at new by (simp_all add: G_def)
  moreover have "G a = Some (entry d e (rb_addr f) (tag (ptop qs) c))" by (simp add: G_def)
  ultimately have "rb_path_at G (rbh_root s) e ps" using at unfolding Cons y by simp
  moreover have "only (path_set ps) (rb_nodes s) G" using at unfolding Cons y path_set_Cons by (auto simp: G_def intro: only_upd)
  moreover have "(if ptop ps \<noteq> NULL then if cv < 0 then rb_set_left (ptop ps) e s else rb_set_right (ptop ps) e s else Some (s\<lparr>rbh_root := e\<rparr>)) =
      Some (s\<lparr>rb_nodes := G\<rparr>)"
    using at assms(3) by (cases d) (auto simp: Cons y rb_set_left_def rb_set_right_def entry_def G_def)
  ultimately show ?thesis using that [of "s\<lparr>rb_nodes := G\<rparr>"] by simp
qed

lemma rb_insert_new:
  assumes rep: "rb_rep A B s ps Leaf" and e: "e \<notin> path_set ps" "e \<noteq> NULL" "even_ptr e" "rb_nodes s e \<noteq> None" "e \<in> A" and side: "side_ok cv ps"
  obtains s1 s2 where "RB_SET e (ptop ps) s = Some s1"
    "(if ptop ps \<noteq> NULL then if cv < 0 then rb_set_left (ptop ps) e s1 else rb_set_right (ptop ps) e s1 else Some (s1\<lparr>rbh_root := e\<rparr>)) = Some s2"
    "rb_rep A B s2 ps (node Lft Leaf (e, True) Leaf)"
proof -
  define s1 where "s1 = s\<lparr>rb_nodes := (rb_nodes s)(e \<mapsto> entry Lft NULL NULL (tag (ptop ps) True))\<rparr>"
  have old: "rb_path_at (rb_nodes s) (rbh_root s) NULL ps" "distinct (before ps @ after ps)" "path_set ps \<subseteq> A" "only A B (rb_nodes s)"
    using rep unfolding rb_rep_def by simp_all
  have s1: "RB_SET e (ptop ps) s = Some s1" using RB_SET_ok [OF e(4)] even_ptop [OF old(1)] by (simp add: s1_def)
  have "rb_path_at (rb_nodes s1) (rbh_root s1) NULL ps" using old(1) e(1) by (simp add: s1_def)
  then obtain s2 where s2: "(if ptop ps \<noteq> NULL then if cv < 0 then rb_set_left (ptop ps) e s1 else rb_set_right (ptop ps) e s1 else Some (s1\<lparr>rbh_root := e\<rparr>)) = Some s2"
    "rb_path_at (rb_nodes s2) (rbh_root s2) e ps" "only (path_set ps) (rb_nodes s1) (rb_nodes s2)"
    using link_ok [OF _ old(2) side] by blast
  have e2: "rb_nodes s2 e = Some (entry Lft NULL NULL (tag (ptop ps) True))" using only_at [OF s2(3) e(1)] by (simp add: s1_def)
  obtain v where v: "rb_nodes s e = Some v" using e(4) by blast
  have "only {e} (rb_nodes s) (rb_nodes s1)" using only_write [OF v] by (simp add: s1_def)
  from only_Un [OF only_Un [OF old(4) this] s2(3)] have "only A B (rb_nodes s2)"
    by (rule only_mono) (use e(5) old(3) in auto)
  then have "rb_rep A B s2 ps (node Lft Leaf (e, True) Leaf)"
    using s2(2) e2 e old(2,3) unfolding rb_rep_def rb_tree_at_node by (auto simp: entry_def)
  with s1 s2(1) show ?thesis by (rule that)
qed

subsection \<open>A tree at rest\<close>

definition rb_list :: "(ptr \<Rightarrow> ptr \<Rightarrow> int) \<Rightarrow> rb_head \<Rightarrow> ptr list \<Rightarrow> bool" where
  "rb_list cmp s xs \<longleftrightarrow> cmp_ok cmp \<and> ascending cmp xs \<and>
     (\<exists>t N. rb_tree_at (rb_nodes s) NULL t \<and> rbh_root s = rb_addr t \<and> elems t = xs \<and> rb_ok True N t)"

lemma rb_listE:
  assumes "rb_list cmp s xs" "set xs \<subseteq> A"
  obtains t N where "rb_rep A (rb_nodes s) s [] t" "elems t = xs" "rb_ok True N t" "cmp_ok cmp" "ascending cmp xs" "distinct xs"
    "rb_tree_at (rb_nodes s) NULL t" "rbh_root s = rb_addr t"
proof -
  obtain t N where t: "rb_tree_at (rb_nodes s) NULL t" "rbh_root s = rb_addr t" "elems t = xs" "rb_ok True N t" and c: "cmp_ok cmp" "ascending cmp xs"
    using assms(1) unfolding rb_list_def by blast
  then have "distinct xs" using ascending_distinct by blast
  moreover from this have "rb_rep A (rb_nodes s) s [] t" using t assms(2) by (simp add: rb_rep_def)
  ultimately show ?thesis using that t c by blast
qed

lemma rb_listI:
  "cmp_ok cmp \<Longrightarrow> ascending cmp (elems t) \<Longrightarrow> rb_rep A B s [] t \<Longrightarrow> rb_ok True N t \<Longrightarrow> rb_list cmp s (elems t) \<and> only A B (rb_nodes s)"
  unfolding rb_list_def rb_rep_def by auto

lemma keyed_insert:
  assumes "keyed cmp e ps"
  shows "ord_insert cmp e (before ps @ after ps) = before ps @ e # after ps" "ord_find cmp e (before ps @ after ps) = NULL"
proof -
  have "filter (\<lambda>x. 0 < cmp e x) (before ps) = before ps" "filter (\<lambda>x. cmp e x < 0) (after ps) = after ps"
    "filter (\<lambda>x. 0 < cmp e x) (after ps) = []" "filter (\<lambda>x. cmp e x < 0) (before ps) = []" "\<not> (\<exists>x \<in> set (before ps @ after ps). cmp e x = 0)"
    using assms unfolding keyed_def by (auto simp: filter_id_conv filter_empty_conv not_less)
  moreover from this(5) have "find (\<lambda>x. cmp e x = 0) (before ps @ after ps) = None" by (auto simp: find_None_iff)
  ultimately show "ord_insert cmp e (before ps @ after ps) = before ps @ e # after ps" "ord_find cmp e (before ps @ after ps) = NULL"
    by (simp_all add: ord_insert_def ord_find_def)
qed

lemma rb_insert_ok:
  assumes rl: "rb_list cmp s xs" and e: "rb_nodes s e \<noteq> None" "even_ptr e" "e \<noteq> NULL" "e \<notin> set xs"
  shows "\<exists>s'. name_RB_INSERT cmp e s = Some (ord_find cmp e xs, s') \<and> rb_list cmp s' (ord_insert cmp e xs) \<and>
     only (insert e (set xs)) (rb_nodes s) (rb_nodes s')"
proof -
  obtain t N where t: "rb_rep (insert e (set xs)) (rb_nodes s) s [] t" "elems t = xs" "rb_ok True N t" and c: "cmp_ok cmp" "ascending cmp xs"
    and at: "rb_tree_at (rb_nodes s) NULL t" "rbh_root s = rb_addr t"
    using rb_listE [OF rl subset_insertI] by metis
  have "(\<exists>x \<in> set xs. cmp e x = 0 \<and> rb_insert_loop cmp e (RB_ROOT s) NULL 0 s = Some (Inl x)) \<or>
     (\<exists>qs cv. rb_insert_loop cmp e (RB_ROOT s) NULL 0 s = Some (Inr (ptop qs, cv)) \<and> plug qs Leaf = t \<and> keyed cmp e qs \<and> side_ok cv qs)"
    using rb_insert_loop_ok [OF c(1) e(1) at(1), of "[]" 0] t(2) c(2) at(2) by (simp add: keyed_def RB_ROOT_def)
  then show ?thesis
  proof (elim disjE bexE exE conjE)
    fix x assume x: "x \<in> set xs" "cmp e x = 0" "rb_insert_loop cmp e (RB_ROOT s) NULL 0 s = Some (Inl x)"
    obtain ls rs where "xs = ls @ x # rs" using x(1) split_list by fast
    then have "ord_find cmp e xs = x" using ascending_sides(1,2) [OF c(1), of ls x rs e] c(2) x(2) ord_find_split [of ls cmp e rs x] by simp
    moreover have "ord_insert cmp e xs = xs" using x(1,2) by (auto simp: ord_insert_def)
    ultimately show ?thesis using x(3) rl by (simp add: name_RB_INSERT_def)
  next
    fix qs cv assume q: "rb_insert_loop cmp e (RB_ROOT s) NULL 0 s = Some (Inr (ptop qs, cv))" "plug qs Leaf = t" "keyed cmp e qs" "side_ok cv qs"
    have rep: "rb_rep (insert e (set xs)) (rb_nodes s) s qs Leaf" and xs: "xs = before qs @ after qs"
      using t(1,2) q(2) rb_rep_plug elems_plug [of qs Leaf] by auto
    obtain s1 s2 where s2: "RB_SET e (ptop qs) s = Some s1"
      "(if ptop qs \<noteq> NULL then if cv < 0 then rb_set_left (ptop qs) e s1 else rb_set_right (ptop qs) e s1 else Some (s1\<lparr>rbh_root := e\<rparr>)) = Some s2"
      "rb_rep (insert e (set xs)) (rb_nodes s) s2 qs (node Lft Leaf (e, True) Leaf)"
      using rb_insert_new [OF rep _ e(3,2,1) _ q(4)] e(4) xs by auto
    have "path_ok False 0 qs" using rb_ok_unplug [of N qs Leaf] t(3) q(2) by auto
    then obtain s3 t' where s3: "name_RB_INSERT_COLOR e s2 = Some s3" "rb_rep (insert e (set xs)) (rb_nodes s) s3 [] t'"
      "elems t' = before qs @ e # after qs" "\<exists>N. rb_ok True N t'"
      using insert_color_ok [OF s2(3)] by metis
    have el: "elems t' = ord_insert cmp e xs" using keyed_insert(1) [OF q(3)] s3(3) xs by simp
    have "name_RB_INSERT cmp e s = Some (NULL, s3)" unfolding name_RB_INSERT_def
      by (simp only: q(1) bind.simps sum.case prod.case s2(1,2) s3(1))
    then show ?thesis using rb_listI [OF c(1) _ s3(2)] ascending_ord_insert [OF c, of e] el s3(4) keyed_insert(2) [OF q(3)] xs by auto
  qed
qed

subsection \<open>Removal\<close>

lemma reparent_if_ok:
  assumes "rb_tree_at (rb_nodes s) q t" "distinct (elems t)" "even_ptr q" "even_ptr p"
  obtains s' where "(if rb_addr t \<noteq> NULL then do { (_, s) \<leftarrow> name_RB_SETPARENT (rb_addr t) p s; Some s } else Some s) = Some s'"
    "rb_tree_at (rb_nodes s') p t" "only (tree_set t) (rb_nodes s) (rb_nodes s')" "rbh_root s' = rbh_root s"
proof (cases "t = Leaf")
  case True
  then show ?thesis using that [of s] by simp
next
  case False
  obtain H where H: "name_RB_SETPARENT (rb_addr t) p s = Some (p, s\<lparr>rb_nodes := H\<rparr>)" "rb_tree_at H p t" "only (tree_set t) (rb_nodes s) H"
    using reparent_ok [OF assms(1,2) False assms(3,4)] by blast
  show ?thesis by (rule that [of "s\<lparr>rb_nodes := H\<rparr>"]) (use H addr_NULL [OF assms(1)] False in simp_all)
qed

lemma splice_ok:
  assumes rep: "rb_rep A B s ps (node d c (a, ca) Leaf)"
  obtains s' where "rb_splice a (rb_addr c) s = Some (ptop ps, rb_color ca, s')" "rb_rep A B s' ps c" "rb_nodes s' a = rb_nodes s a"
proof -
  note x = rb_rep_nodeD [OF rep]
  obtain s1 where s1: "(if rb_addr c \<noteq> NULL then do { (_, s) \<leftarrow> name_RB_SETPARENT (rb_addr c) (ptop ps) s; Some s } else Some s) = Some s1"
    "rb_tree_at (rb_nodes s1) (ptop ps) c" "only (tree_set c) (rb_nodes s) (rb_nodes s1)" "rbh_root s1 = rbh_root s"
    using x(4,13,2,16) by (rule reparent_if_ok)
  have "rb_path_at (rb_nodes s1) (rbh_root s1) a ps" using only_path [OF s1(3) x(11)] x(6) s1(4) by simp
  then obtain s2 where s2: "rb_replace_child (ptop ps) a (rb_addr c) s1 = Some s2" "rb_path_at (rb_nodes s2) (rbh_root s2) (rb_addr c) ps"
    "only (path_set ps) (rb_nodes s1) (rb_nodes s2)"
    using replace_child_ok [OF _ x(1,9,15)] by blast
  have run: "rb_splice a (rb_addr c) s = Some (ptop ps, rb_color ca, s2)" unfolding rb_splice_def
    by (simp only: node_reads(3,4) [OF rep] s1(1) s2(1) bind.simps)
  have old: "tree_set c \<union> path_set ps \<subseteq> A" "only A B (rb_nodes s)" using rep unfolding rb_rep_def tree_set_node by simp_all
  have "rb_tree_at (rb_nodes s2) (ptop ps) c" using only_tree [OF s2(3), of c] x(11) s1(2) by (simp add: Int_commute)
  moreover have "only A B (rb_nodes s2)"
    by (rule only_mono [OF only_Un [OF only_Un [OF old(2) s1(3)] s2(3)]]) (use old(1) in auto)
  moreover have "distinct (before ps @ elems c @ after ps)" using x(11,13,15) by auto
  ultimately have "rb_rep A B s2 ps c" using s2(2) old(1) unfolding rb_rep_def by blast
  moreover have "rb_nodes s2 a = rb_nodes s a" using only_at [OF only_Un [OF s1(3) s2(3)], of a] x(7,9) by simp
  ultimately show ?thesis using that run by blast
qed

text \<open>An element that is not in the tree takes the place of another.\<close>

lemma substitute_ok:
  assumes rep: "rb_rep A B s ps (node Lft l (a, c) r)" and l: "l \<noteq> Leaf"
    and e: "rb_nodes s e \<noteq> None" "e \<noteq> NULL" "even_ptr e" "e \<in> A" "e \<notin> tree_set (node Lft l (a, c) r) \<union> path_set ps"
  obtains s' where "rb_substitute a e s = Some s'" "rb_rep A B s' ps (node Lft l (e, c) r)"
proof -
  note x = rb_rep_nodeD [OF rep]
  have ne: "e \<noteq> a" "e \<notin> tree_set l" "e \<notin> tree_set r" "e \<notin> path_set ps" using e(5) by simp_all
  define s1 where "s1 = s\<lparr>rb_nodes := (rb_nodes s)(e \<mapsto> entry Lft (rb_addr l) (rb_addr r) (tag (ptop ps) c))\<rparr>"
  obtain v where v: "rb_nodes s e = Some v" using e(1) by blast
  have o1: "only {e} (rb_nodes s) (rb_nodes s1)" using only_write [OF v] by (simp add: s1_def)
  have c1: "rb_nodes s1 a = Some (entry Lft (rb_addr l) (rb_addr r) (tag (ptop ps) c))" "rb_nodes s1 e = rb_nodes s1 a" using x(3) ne(1) by (simp_all add: s1_def)
  have "rb_path_at (rb_nodes s1) (rbh_root s1) a ps" using only_path [OF o1, of ps] x(6) ne(4) by (simp add: s1_def)
  then obtain s2 where s2: "rb_replace_child (ptop ps) a e s1 = Some s2" "rb_path_at (rb_nodes s2) (rbh_root s2) e ps" "only (path_set ps) (rb_nodes s1) (rb_nodes s2)"
    using replace_child_ok [OF _ x(1,9,15)] by blast
  have c2: "rb_nodes s2 a = Some (entry Lft (rb_addr l) (rb_addr r) (tag (ptop ps) c))" "rb_nodes s2 e = Some (entry Lft (rb_addr l) (rb_addr r) (tag (ptop ps) c))"
    using only_at [OF s2(3)] x(9) ne(4) c1 by simp_all
  note o2 = only_Un [OF o1 s2(3)]
  have "rb_tree_at (rb_nodes s2) a l" using only_tree [OF o2, of l a] x(4,11) ne(2) by auto
  then obtain H where H: "name_RB_SETPARENT (rb_addr l) e s2 = Some (e, s2\<lparr>rb_nodes := H\<rparr>)" "rb_tree_at H e l" "only (tree_set l) (rb_nodes s2) H"
    using reparent_ok [OF _ x(13) l x(2) e(3)] by blast
  note o3 = only_Un [OF o2 H(3)]
  have c3: "H a = Some (entry Lft (rb_addr l) (rb_addr r) (tag (ptop ps) c))" "H e = Some (entry Lft (rb_addr l) (rb_addr r) (tag (ptop ps) c))"
    using only_at [OF H(3)] x(7) ne(2) c2 by simp_all
  have "rb_tree_at (rb_nodes (s2\<lparr>rb_nodes := H\<rparr>)) a r" using only_tree [OF o3, of r a] x(5,10,12) ne(3) by auto
  then obtain s4 where s4: "(if rb_addr r \<noteq> NULL then do { (_, s) \<leftarrow> name_RB_SETPARENT (rb_addr r) e (s2\<lparr>rb_nodes := H\<rparr>); Some s } else Some (s2\<lparr>rb_nodes := H\<rparr>)) = Some s4"
    "rb_tree_at (rb_nodes s4) e r" "only (tree_set r) H (rb_nodes s4)" "rbh_root s4 = rbh_root s2"
    using reparent_if_ok [OF _ x(14,2) e(3), of "s2\<lparr>rb_nodes := H\<rparr>"] by auto
  have run: "rb_substitute a e s = Some s4"
  proof -
    have g: "name_RB_GETPARENT a s1 = Some (ptop ps)" "RB_LEFT a s2 = Some (rb_addr l)" "RB_RIGHT a (s2\<lparr>rb_nodes := H\<rparr>) = Some (rb_addr r)"
      using c1(1) c2(1) c3(1) x(16) by (simp_all add: GETPARENT_eq RB_LEFT_def RB_RIGHT_def entry_def)
    show ?thesis unfolding rb_substitute_def
      by (simp only: x(3) v option.map bind.simps prod.case g s2(1) H(1) s4(1) s1_def [symmetric])
  qed
  have sub: "tree_set (node Lft l (a, c) r) \<union> path_set ps \<subseteq> A" "only A B (rb_nodes s)" using rep unfolding rb_rep_def by simp_all
  have t4: "rb_tree_at (rb_nodes s4) e l" using only_tree [OF s4(3), of l e] H(2) x(10) by (simp add: Int_commute)
  have "rb_path_at (rb_nodes s4) (rbh_root s4) e ps"
    using only_path [OF only_Un [OF H(3) s4(3)], of ps] s2(2) s4(4) x(11,12) by (simp add: Int_Un_distrib2)
  moreover have "rb_nodes s4 e = Some (entry Lft (rb_addr l) (rb_addr r) (tag (ptop ps) c))" using only_at [OF s4(3) ne(3)] c3(2) by simp
  moreover have "only A B (rb_nodes s4)"
    by (rule only_mono [OF only_Un [OF only_Un [OF sub(2) o3] s4(3)]]) (use sub(1) e(4) in \<open>auto simp: tree_set_node\<close>)
  moreover have "distinct (before ps @ elems (node Lft l (e, c) r) @ after ps)" using x(7-15) ne unfolding distinct_node by simp
  moreover have "tree_set (node Lft l (e, c) r) \<union> path_set ps \<subseteq> A" using sub(1) e(4) by (auto simp: tree_set_node)
  ultimately have "rb_rep A B s4 ps (node Lft l (e, c) r)"
    using e(2,3) t4 s4(2) unfolding rb_rep_def rb_tree_at_node by simp
  with run show ?thesis by (rule that)
qed

text \<open>The way to the least element of a tree.\<close>

lemma plug_append: "plug (qs @ ps) t = plug ps (plug qs t)"
  by (induction qs t rule: plug.induct) simp_all

lemma path_append: "before (qs @ ps) = before ps @ before qs" "after (qs @ ps) = after qs @ after ps"
    "ptop (qs @ ps) = (if qs = [] then ptop ps else ptop qs)"
proof -
  show "before (qs @ ps) = before ps @ before qs" by (induction qs rule: before.induct) simp_all
  show "after (qs @ ps) = after qs @ after ps" by (induction qs rule: after.induct) simp_all
  show "ptop (qs @ ps) = (if qs = [] then ptop ps else ptop qs)" by (cases qs rule: ptop.cases) simp_all
qed

lemma leftmost_split:
  "t \<noteq> Leaf \<Longrightarrow> \<exists>qs e ce child. t = plug qs (Node Leaf (e, ce) child) \<and> before qs = [] \<and> hd (elems t) = e"
proof (induction t)
  case (Node l x r)
  show ?case
  proof (cases "l = Leaf")
    case True
    then show ?thesis by (intro exI [of _ "[]"] exI [of _ "fst x"] exI [of _ "snd x"] exI [of _ r]) simp
  next
    case False
    then obtain qs e ce child where q: "l = plug qs (Node Leaf (e, ce) child)" "before qs = []" "hd (elems l) = e" using Node.IH(1) by blast
    have "elems l \<noteq> []" using False by (cases l) auto
    then show ?thesis using q
      by (intro exI [of _ "qs @ [(Lft, x, r)]"] exI [of _ e] exI [of _ ce] exI [of _ child]) (simp add: plug_append path_append)
  qed
qed simp

lemma augment_ok: "rb_path_at (rb_nodes s) root h ps \<Longrightarrow> ps \<noteq> [] \<Longrightarrow> rb_augment_loop (ptop ps) s = Some ()"
proof (induction ps arbitrary: h)
  case (Cons y ps)
  obtain d a c f where y: "y = (d, (a, c), f)" by (metis prod.exhaust)
  have "even_ptr (ptop ps)" "rb_path_at (rb_nodes s) root a ps" using Cons.prems(1) even_ptop unfolding y by auto
  then have "name_RB_GETPARENT a s = Some (ptop ps)" using Cons.prems(1) by (simp add: y GETPARENT_eq)
  moreover have "rb_augment_loop (ptop ps) s = Some ()" if "ptop ps \<noteq> NULL"
    using Cons.IH \<open>rb_path_at (rb_nodes s) root a ps\<close> that by (cases "ps = []") auto
  ultimately show ?case by (subst rb_augment_loop.simps) (simp add: y)
qed simp

lemma path_ok_append_addr:
  "path_ok r n (qs @ (d, (a, c), f) # ps) \<longleftrightarrow> path_ok r n (qs @ (d, (b, c), f) # ps)"
proof (induction qs arbitrary: r n)
  case (Cons y qs)
  obtain d' a' c' f' where "y = (d', (a', c'), f')" by (metis prod.exhaust)
  then show ?case using Cons.IH by simp
qed simp

text \<open>
  Removal of an element with two children: the place is where the successor was, below the path on which
  the successor has replaced the element.
\<close>

lemma remove_inner_ok:
  assumes rep: "rb_rep A B s ps (node Lft l (a, c) r)" and l: "l \<noteq> Leaf" and r: "r = plug qs (Node Leaf (e, ce) child)" and qs: "before qs = []"
  obtains s' where "rb_remove_inner a s = Some (ptop (qs @ (Rgt, (e, c), l) # ps), rb_addr child, rb_color ce, s')"
    "rb_rep A B s' (qs @ (Rgt, (e, c), l) # ps) child"
proof -
  have el: "elems r = e # elems child @ after qs" using qs by (simp add: r elems_plug)
  have rl: "r \<noteq> Leaf" using el by auto
  note x = rb_rep_nodeD [OF rep]
  define ps1 where "ps1 = qs @ (Rgt, (a, c), l) # ps"
  have rep1: "rb_rep A B s ps1 (node Rgt child (e, ce) Leaf)"
    using rep unfolding rb_rep_plug [of A B s ps] rb_rep_plug [of A B s ps1] by (simp add: ps1_def plug_append r)
  obtain s1 where s1: "rb_splice e (rb_addr child) s = Some (ptop ps1, rb_color ce, s1)" "rb_rep A B s1 ps1 child" "rb_nodes s1 e = rb_nodes s e"
    using rep1 by (rule splice_ok)
  define r' where "r' = plug qs child"
  have rep2: "rb_rep A B s1 ps (node Lft l (a, c) r')"
    using s1(2) unfolding rb_rep_plug [of A B s1 ps] rb_rep_plug [of A B s1 ps1] by (simp add: ps1_def plug_append r'_def)
  have er: "e \<in> tree_set r" by (simp add: el)
  have e: "rb_nodes s1 e \<noteq> None" "e \<noteq> NULL" "even_ptr e" using s1(3) rb_rep_nodeD(1-3) [OF rep1] by simp_all
  have eA: "e \<in> A" using rep er unfolding rb_rep_def tree_set_node by auto
  have "e \<notin> tree_set r'" using x(14) qs by (auto simp: el r'_def elems_plug)
  then have enew: "e \<notin> tree_set (node Lft l (a, c) r') \<union> path_set ps" using x(8,10,12) er by (auto simp: tree_set_node)
  obtain s2 where s2: "rb_substitute a e s1 = Some s2" "rb_rep A B s2 ps (node Lft l (e, c) r')"
    using rep2 l e eA enew by (rule substitute_ok)
  define ps2 where "ps2 = qs @ (Rgt, (e, c), l) # ps"
  have rep3: "rb_rep A B s2 ps2 child"
    using s2(2) unfolding rb_rep_plug [of A B s2 ps] rb_rep_plug [of A B s2 ps2] by (simp add: ps2_def plug_append r'_def)
  have par: "name_RB_GETPARENT e s1 = Some (ptop ps1)" using node_reads(3) [OF rep1] s1(3) by (simp add: GETPARENT_eq)
  have "ptop qs \<noteq> a" if "qs \<noteq> []" using ptop_mem [OF that] qs x(8) by (auto simp: el)
  then have top2: "(if ptop ps1 = a then e else ptop ps1) = ptop ps2" by (simp add: ps1_def ps2_def path_append)
  have aug: "(if ptop ps2 \<noteq> NULL then rb_augment_loop (ptop ps2) s2 else Some ()) = Some ()"
    using augment_ok [OF rb_rep_parts(2) [OF rep3]] by (simp add: ps2_def)
  have rd: "RB_RIGHT a s = Some (rb_addr r)" "rb_leftmost (rb_addr r) s = Some e" "RB_RIGHT e s = Some (rb_addr child)"
    using left_is(2) [OF rep] rb_leftmost_ok [OF x(5) rl] left_is(2) [OF rep1] by (simp_all add: el)
  have "rb_remove_inner a s = Some (ptop ps2, rb_addr child, rb_color ce, s2)" unfolding rb_remove_inner_def Let_def
    by (simp only: rd s1(1) par s2(1) top2 aug bind.simps prod.case)
  then show ?thesis using that rep3 unfolding ps2_def by blast
qed

lemma remove_fixup:
  assumes rep: "rb_rep A B s ps c" and ok: "rb_ok False n (node d c (a, ca) Leaf)" "path_ok ca n ps"
  obtains s' t N where "(if rb_color ca = RB_BLACK then name_RB_REMOVE_COLOR (ptop ps) (rb_addr c) s else Some s) = Some s'"
    "rb_rep A B s' [] t" "elems t = elems (plug ps c)" "rb_ok True N t"
proof (cases ca)
  case True
  then have "rb_ok False n c" "\<not> red_root c" "path_ok False n ps" using ok path_ok_weaken by (auto simp: rb_ok_iff)
  then obtain N where "rb_ok True N (plug ps c)" using rb_ok_plug [of n c ps] by auto
  then show ?thesis using that [of s "plug ps c"] rep rb_rep_plug True by (simp add: rb_color_consts)
next
  case False
  then obtain m where m: "n = Suc m" "rb_ok False m c" using ok(1) rb_ok_black [of False n d c a Leaf] by auto
  have "path_ok False (Suc m) ps" using ok(2) False m(1) by simp
  with rep m(2) obtain s' t N where "name_RB_REMOVE_COLOR (ptop ps) (rb_addr c) s = Some s'" "rb_rep A B s' [] t"
    "elems t = elems (plug ps c)" "rb_ok True N t" by (rule remove_color_ok)
  then show ?thesis using that False by (simp add: rb_color_consts)
qed

lemma tree_split: "a \<in> tree_set t \<Longrightarrow> \<exists>ps l c r. t = plug ps (node Lft l (a, c) r)"
proof (induction t)
  case (Node l x r)
  consider "a = fst x" | "a \<in> tree_set l" | "a \<in> tree_set r" using Node.prems by auto
  then show ?case
  proof cases
    case 1
    then show ?thesis by (intro exI [of _ "[]"] exI [of _ l] exI [of _ "snd x"] exI [of _ r]) simp
  next
    case 2
    then obtain ps l' c r' where "l = plug ps (node Lft l' (a, c) r')" using Node.IH(1) by blast
    then show ?thesis by (intro exI [of _ "ps @ [(Lft, x, r)]"] exI [of _ l'] exI [of _ c] exI [of _ r']) (simp add: plug_append)
  next
    case 3
    then obtain ps l' c r' where "r = plug ps (node Lft l' (a, c) r')" using Node.IH(2) by blast
    then show ?thesis by (intro exI [of _ "ps @ [(Rgt, x, l)]"] exI [of _ l'] exI [of _ c] exI [of _ r']) (simp add: plug_append)
  qed
qed simp

text \<open>The first part of a removal: the element is out of the tree, and the place that may lack a black element.\<close>

lemma remove_out:
  assumes rep: "rb_rep A B s ps (node Lft l (a, c) r)" and ok: "rb_ok True N (plug ps (node Lft l (a, c) r))"
  obtains s' qs ce e t d n where
    "(if rb_addr l = NULL then do { (parent, color, s) \<leftarrow> rb_splice a (rb_addr r) s; Some (parent, rb_addr r, color, s) }
      else if rb_addr r = NULL then do { (parent, color, s) \<leftarrow> rb_splice a (rb_addr l) s; Some (parent, rb_addr l, color, s) }
      else rb_remove_inner a s) = Some (ptop qs, rb_addr t, rb_color ce, s')"
    "rb_rep A B s' qs t" "elems (plug qs t) = before ps @ elems l @ elems r @ after ps" "rb_ok False n (node d t (e, ce) Leaf)" "path_ok ce n qs"
proof -
  note x = rb_rep_nodeD [OF rep]
  note nl = addr_NULL [OF x(4)] addr_NULL [OF x(5)]
  obtain n where n: "rb_ok False n (node Lft l (a, c) r)" "path_ok c n ps" using rb_ok_unplug [OF ok] by auto
  consider "l = Leaf" | "l \<noteq> Leaf" "r = Leaf" | "l \<noteq> Leaf" "r \<noteq> Leaf" by blast
  then show ?thesis
  proof cases
    case 1
    have "rb_rep A B s ps (node Rgt r (a, c) Leaf)" using rep 1 by simp
    then obtain s' where s': "rb_splice a (rb_addr r) s = Some (ptop ps, rb_color c, s')" "rb_rep A B s' ps r" by (rule splice_ok)
    show ?thesis by (rule that [OF _ s'(2), of c n Rgt a]) (use 1 s'(1) n in \<open>simp_all add: elems_plug\<close>)
  next
    case 2
    have "rb_rep A B s ps (node Lft l (a, c) Leaf)" using rep 2 by simp
    then obtain s' where s': "rb_splice a (rb_addr l) s = Some (ptop ps, rb_color c, s')" "rb_rep A B s' ps l" by (rule splice_ok)
    show ?thesis by (rule that [OF _ s'(2), of c n Lft a]) (use 2 nl s'(1) n in \<open>simp_all add: elems_plug\<close>)
  next
    case 3
    obtain qs e ce t where q: "r = plug qs (Node Leaf (e, ce) t)" "before qs = []" using leftmost_split [OF 3(2)] by blast
    obtain s' where s': "rb_remove_inner a s = Some (ptop (qs @ (Rgt, (e, c), l) # ps), rb_addr t, rb_color ce, s')"
      "rb_rep A B s' (qs @ (Rgt, (e, c), l) # ps) t"
      using rep 3(1) q by (rule remove_inner_ok)
    have "rb_ok True N (plug (qs @ (Rgt, (a, c), l) # ps) (node Rgt t (e, ce) Leaf))" using ok q(1) by (simp add: plug_append)
    from rb_ok_unplug [OF this] obtain m where m: "rb_ok False m (node Rgt t (e, ce) Leaf)" "path_ok ce m (qs @ (Rgt, (a, c), l) # ps)" by auto
    show ?thesis
      by (rule that [OF _ s'(2) _ m(1)]) (use 3 nl s'(1) m(2) q in \<open>simp_all add: path_ok_append_addr [of _ _ _ _ e _ _ _ a] elems_plug path_append\<close>)
  qed
qed

lemma rb_remove_ok:
  assumes rl: "rb_list cmp s xs" and a: "a \<in> set xs"
  shows "\<exists>s'. name_RB_REMOVE a s = Some (a, s') \<and> rb_list cmp s' (remove1 a xs) \<and> only (set xs) (rb_nodes s) (rb_nodes s')"
proof -
  obtain t N where t: "rb_rep (set xs) (rb_nodes s) s [] t" "elems t = xs" "rb_ok True N t" and c: "cmp_ok cmp" "ascending cmp xs" "distinct xs"
    using rb_listE [OF rl subset_refl] by metis
  obtain ps l ca r where ps: "t = plug ps (node Lft l (a, ca) r)" using tree_split a t(2) by blast
  have rep: "rb_rep (set xs) (rb_nodes s) s ps (node Lft l (a, ca) r)" using t(1) ps rb_rep_plug by simp
  have xs: "xs = before ps @ elems l @ a # elems r @ after ps" using t(2) ps by (simp add: elems_plug)
  obtain s1 qs ce e u d n where s1: "(if rb_addr l = NULL then do { (parent, color, s) \<leftarrow> rb_splice a (rb_addr r) s; Some (parent, rb_addr r, color, s) }
      else if rb_addr r = NULL then do { (parent, color, s) \<leftarrow> rb_splice a (rb_addr l) s; Some (parent, rb_addr l, color, s) }
      else rb_remove_inner a s) = Some (ptop qs, rb_addr u, rb_color ce, s1)"
    and rep1: "rb_rep (set xs) (rb_nodes s) s1 qs u" and el: "elems (plug qs u) = before ps @ elems l @ elems r @ after ps"
    and ok: "rb_ok False n (node d u (e, ce) Leaf)" "path_ok ce n qs"
    using rep t(3) [unfolded ps] by (rule remove_out)
  obtain s2 t2 N2 where s2: "(if rb_color ce = RB_BLACK then name_RB_REMOVE_COLOR (ptop qs) (rb_addr u) s1 else Some s1) = Some s2"
    "rb_rep (set xs) (rb_nodes s) s2 [] t2" "elems t2 = elems (plug qs u)" "rb_ok True N2 t2"
    using rep1 ok by (rule remove_fixup)
  have "name_RB_REMOVE a s = Some (a, s2)" unfolding name_RB_REMOVE_def Let_def
    using left_is [OF rep] by (simp only: if_True refl bind.simps s1 s2(1) prod.case)
  moreover have r1: "remove1 a xs = elems t2" using c(3) unfolding xs s2(3) el by (simp add: remove1_append)
  moreover have "ascending cmp (remove1 a xs)" using c(2) unfolding xs r1 [unfolded xs] s2(3) el by (auto simp: ascending_def sorted_wrt_append)
  ultimately show ?thesis using rb_listI [OF c(1) _ s2(2,4)] by metis
qed

subsection \<open>Neighbours\<close>

definition rb_climb :: "side \<Rightarrow> ptr \<Rightarrow> rb_head \<Rightarrow> ptr option" where
  "rb_climb d = (case d of Lft \<Rightarrow> rb_climb_left | Rgt \<Rightarrow> rb_climb_right)"

definition rb_most :: "side \<Rightarrow> ptr \<Rightarrow> rb_head \<Rightarrow> ptr option" where
  "rb_most d = (case d of Lft \<Rightarrow> rb_leftmost | Rgt \<Rightarrow> rb_rightmost)"

definition rb_neighbour :: "side \<Rightarrow> ptr \<Rightarrow> rb_head \<Rightarrow> ptr option" where
  "rb_neighbour d elm s = do {
     r \<leftarrow> rb_get d elm s;
     if r \<noteq> NULL then rb_most (opp d) r s
     else do {
       p \<leftarrow> name_RB_GETPARENT elm s;
       up \<leftarrow> (if p \<noteq> NULL then do { l \<leftarrow> rb_get (opp d) p s; Some (elm = l) } else Some False);
       if up then Some p
       else do { elm \<leftarrow> rb_climb d elm s; name_RB_GETPARENT elm s } } }"

lemma rb_neighbour_simps: "name_RB_NEXT = rb_neighbour Rgt" "name_RB_PREV = rb_neighbour Lft"
  by (intro ext, simp only: rb_neighbour_def name_RB_NEXT_def name_RB_PREV_def rb_climb_def rb_most_def opp.simps side.case rb_get_simps)+

lemma rb_climb_eq:
  "rb_climb d elm s = do {
     p \<leftarrow> name_RB_GETPARENT elm s;
     up \<leftarrow> (if p \<noteq> NULL then do { r \<leftarrow> rb_get d p s; Some (elm = r) } else Some False);
     if up then rb_climb d p s else Some elm }"
  by (cases d; simp only: rb_climb_def side.case rb_get_simps) (subst rb_climb_left.simps rb_climb_right.simps, rule refl)+

text \<open>The next element above a place on one side, \<open>NULL\<close> if there is none.\<close>

definition beyond :: "side \<Rightarrow> rb_path \<Rightarrow> ptr" where
  "beyond d ps = (case d of Lft \<Rightarrow> ord_last (before ps) | Rgt \<Rightarrow> ord_first (after ps))"

lemma beyond_simps: "beyond d [] = NULL" "beyond d ((opp d, x, f) # ps) = fst x" "beyond d ((d, x, f) # ps) = beyond d ps"
  by (cases d; simp add: beyond_def ord_last_def)+

lemma climb_ok:
  "rb_rep A B s ps (node d l (a, c) r) \<Longrightarrow> \<exists>y. rb_climb e a s = Some y \<and> name_RB_GETPARENT y s = Some (beyond e ps)"
proof (induction ps arbitrary: d l a c r)
  case Nil
  then show ?case using node_reads(3) [OF Nil] by (subst rb_climb_eq) (simp add: beyond_simps)
next
  case (Cons y ps)
  obtain d' p cp f where y: "y = (d', (p, cp), f)" by (metis prod.exhaust)
  have rep1: "rb_rep A B s ps (node d' (node d l (a, c) r) (p, cp) f)" using Cons.prems unfolding y rb_rep_zip .
  have par: "name_RB_GETPARENT a s = Some p" "p \<noteq> NULL" using node_reads(3) [OF Cons.prems] node_reads(5) [OF rep1] by (simp_all add: y)
  show ?case
  proof (cases "d' = e")
    case True
    then have "rb_climb e a s = rb_climb e p s" using par node_reads(1) [OF rep1] by (subst rb_climb_eq) simp
    then show ?thesis using Cons.IH [OF rep1] True by (simp add: y beyond_simps)
  next
    case False
    then have d': "d' = opp e" by (cases d'; cases e) simp_all
    then have "rb_climb e a s = Some a"
      using par node_reads(2) [OF rep1] siblings_differ [OF rep1] by (subst rb_climb_eq) simp
    then show ?thesis using par(1) d' by (simp add: y beyond_simps)
  qed
qed

lemma most_ok: "rb_tree_at (rb_nodes s) p t \<Longrightarrow> t \<noteq> Leaf \<Longrightarrow> rb_most d (rb_addr t) s = Some (case d of Lft \<Rightarrow> hd (elems t) | Rgt \<Rightarrow> last (elems t))"
  by (cases d) (simp_all add: rb_most_def rb_leftmost_ok rb_rightmost_ok)

lemma neighbour_ok:
  assumes rep: "rb_rep A B s ps (node d l (a, c) r)"
  shows "rb_neighbour (opp d) a s = Some (if r \<noteq> Leaf then case d of Lft \<Rightarrow> hd (elems r) | Rgt \<Rightarrow> last (elems r) else beyond (opp d) ps)"
proof (cases "r = Leaf")
  case False
  note x = rb_rep_nodeD [OF rep]
  show ?thesis using node_reads(2) [OF rep] False addr_NULL [OF x(5)] most_ok [OF x(5) False] by (simp add: rb_neighbour_def)
next
  case True
  obtain y where y: "rb_climb (opp d) a s = Some y" "name_RB_GETPARENT y s = Some (beyond (opp d) ps)" using climb_ok [OF rep] by blast
  have gr: "rb_get (opp d) a s = Some NULL" "name_RB_GETPARENT a s = Some (ptop ps)" using node_reads(2,3) [OF rep] True by simp_all
  show ?thesis
  proof (cases ps)
    case Nil
    then show ?thesis using gr y True by (simp add: rb_neighbour_def)
  next
    case (Cons z qs)
    obtain d' p cp f where z: "z = (d', (p, cp), f)" by (metis prod.exhaust)
    have rep1: "rb_rep A B s qs (node d' (node d l (a, c) r) (p, cp) f)" using rep unfolding Cons z rb_rep_zip .
    have b: "beyond (opp d) ps = p" if "d' = d" using that beyond_simps(2) [of "opp d" "(p, cp)" f qs] by (simp add: Cons z)
    have "rb_get d p s = Some (if d' = d then a else rb_addr f)" using node_reads(1,2) [OF rep1] by (cases d'; cases d) simp_all
    then show ?thesis using gr y True b node_reads(5) [OF rep1] siblings_differ [OF rep1]
      by (cases "d' = d") (auto simp: rb_neighbour_def Cons z)
  qed
qed

text \<open>The element before another, in the list.\<close>

definition ord_prev :: "ptr \<Rightarrow> ptr list \<Rightarrow> ptr" where
  "ord_prev e xs = ord_last (takeWhile (\<lambda>x. x \<noteq> e) xs)"

lemma ord_prev_append: "e \<notin> set xs \<Longrightarrow> ord_prev e (xs @ e # ys) = ord_last xs"
  unfolding ord_prev_def by (subst takeWhile_append2) auto

lemma rb_neighbours_ok:
  assumes "rb_list cmp s xs" "a \<in> set xs"
  shows "name_RB_NEXT a s = Some (ord_next a xs)" "name_RB_PREV a s = Some (ord_prev a xs)"
proof -
  obtain t N where t: "rb_rep (set xs) (rb_nodes s) s [] t" "elems t = xs" "distinct xs"
    using rb_listE [OF assms(1) subset_refl] by metis
  obtain ps l c r where ps: "t = plug ps (node Lft l (a, c) r)" using tree_split assms(2) t(2) by blast
  have rep: "rb_rep (set xs) (rb_nodes s) s ps (node Lft l (a, c) r)" using t(1) ps rb_rep_plug by simp
  have xs: "xs = (before ps @ elems l) @ a # elems r @ after ps" using t(2) ps by (simp add: elems_plug)
  have e: "elems t = [] \<longleftrightarrow> t = Leaf" for t by (cases t) auto
  have "ord_next a xs = ord_first (elems r @ after ps)" "ord_prev a xs = ord_last (before ps @ elems l)"
    unfolding xs by (rule ord_next_append ord_prev_append, use t(3) xs in simp)+
  moreover have "name_RB_NEXT a s = Some (ord_first (elems r @ after ps))"
    using neighbour_ok [OF rep] e [of r] by (cases "elems r") (auto simp: rb_neighbour_simps beyond_def)
  moreover have "name_RB_PREV a s = Some (ord_last (before ps @ elems l))"
    using neighbour_ok [of _ _ s ps Rgt r a c l] rep e [of l] by (cases "elems l") (auto simp: rb_neighbour_simps beyond_def ord_last_def)
  ultimately show "name_RB_NEXT a s = Some (ord_next a xs)" "name_RB_PREV a s = Some (ord_prev a xs)" by simp_all
qed

lemma rb_minmax_ok:
  assumes "rb_list cmp s xs"
  shows "RB_MIN s = Some (ord_first xs)" "RB_MAX s = Some (ord_last xs)"
proof -
  obtain t where t: "elems t = xs" "rb_tree_at (rb_nodes s) NULL t" "rbh_root s = rb_addr t"
    using rb_listE [OF assms subset_refl] by metis
  have "xs = [] \<longleftrightarrow> t = Leaf" using t(1) by (cases t) auto
  then show "RB_MIN s = Some (ord_first xs)" "RB_MAX s = Some (ord_last xs)"
    using rb_minmax_loop_ok [OF t(2)] t(1,3)
    by (auto simp: RB_MIN_def RB_MAX_def name_RB_MINMAX_def RB_NEGINF_def RB_INF_def RB_ROOT_def ord_first_def ord_last_def hd_conv_nth split: list.splits)
qed

lemma rb_find_ok:
  assumes "rb_list cmp s xs" "rb_nodes s e \<noteq> None"
  shows "name_RB_FIND cmp e s = Some (ord_find cmp e xs)" "name_RB_NFIND cmp e s = Some (ord_nfind cmp e xs NULL)"
proof -
  obtain t where t: "elems t = xs" "rb_tree_at (rb_nodes s) NULL t" "rbh_root s = rb_addr t" "cmp_ok cmp" "ascending cmp xs"
    using rb_listE [OF assms(1) subset_refl] by metis
  then show "name_RB_FIND cmp e s = Some (ord_find cmp e xs)" "name_RB_NFIND cmp e s = Some (ord_nfind cmp e xs NULL)"
    using rb_find_loop_ok [OF t(4) assms(2) t(2)] rb_nfind_loop_ok [OF t(4) assms(2) t(2)]
    by (simp_all add: name_RB_FIND_def name_RB_NFIND_def RB_ROOT_def)
qed

subsection \<open>The ordered interface\<close>

definition rb_ops :: "(ptr \<Rightarrow> ptr \<Rightarrow> int) \<Rightarrow> rb_head tree_ops" where
  "rb_ops cmp = \<lparr>t_find = \<lambda>e s. map_option (\<lambda>x. (x, s)) (name_RB_FIND cmp e s), t_insert = name_RB_INSERT cmp, t_remove = name_RB_REMOVE,
     t_min = \<lambda>s. map_option (\<lambda>x. (x, s)) (RB_MIN s), t_max = \<lambda>s. map_option (\<lambda>x. (x, s)) (RB_MAX s),
     t_next = \<lambda>e s. map_option (\<lambda>x. (x, s)) (name_RB_NEXT e s)\<rparr>"

text \<open>Memory for elements is at even addresses.\<close>

definition rb_mem :: "rb_head \<Rightarrow> ptr set" where
  "rb_mem s = {x \<in> dom (rb_nodes s). even_ptr x}"

lemma rb_mem_only: "only A (rb_nodes s) (rb_nodes s') \<Longrightarrow> rb_mem s' = rb_mem s"
  by (simp add: rb_mem_def only_def)

lemma rb_tree_at_mem: "rb_tree_at H p t \<Longrightarrow> NULL \<notin> tree_set t \<and> tree_set t \<subseteq> {x \<in> dom H. even_ptr x}"
proof (induction t arbitrary: p)
  case (Node l x r)
  obtain a c where x: "x = (a, c)" by (cases x)
  show ?case using Node.prems Node.IH(1) [of a] Node.IH(2) [of a] by (auto simp: x)
qed simp

interpretation rb: search_tree cmp "rb_ops cmp" "rb_list cmp" rb_mem for cmp
proof (unfold_locales, goal_cases)
  case (1 s xs)
  then obtain t where "elems t = xs" "rb_tree_at (rb_nodes s) NULL t" "cmp_ok cmp" "ascending cmp xs" using rb_listE [OF 1 subset_refl] by metis
  then show ?case using rb_tree_at_mem [of "rb_nodes s" NULL t] by (simp add: rb_mem_def)
next
  case (2 s xs e)
  then show ?case using rb_find_ok(1) [OF 2(1)] by (auto simp: rb_ops_def rb_mem_def)
next
  case (3 s xs e)
  then show ?case using rb_insert_ok [OF 3(1), of e] rb_mem_only by (fastforce simp: rb_ops_def rb_mem_def)
next
  case (4 s xs e)
  then show ?case using rb_remove_ok [OF 4] rb_mem_only by (fastforce simp: rb_ops_def)
next
  case (5 s xs)
  then show ?case using rb_minmax_ok [OF 5] by (simp add: rb_ops_def)
next
  case (6 s xs)
  then show ?case using rb_minmax_ok [OF 6] by (simp add: rb_ops_def)
next
  case (7 s xs e)
  then show ?case using rb_neighbours_ok [OF 7] by (simp add: rb_ops_def)
qed

lemma rb_list_init: "cmp_ok cmp \<Longrightarrow> rb_list cmp (RB_INIT s) []"
  by (auto simp: rb_list_def RB_INIT_def ascending_def intro!: exI [of _ Leaf])

text \<open>The height of a balanced tree.\<close>

lemma rb_ok_height: "rb_ok pr n t \<Longrightarrow> height t \<le> 2 * n + (if pr then 0 else 1)"
proof (induction t arbitrary: pr n)
  case (Node l x r)
  obtain a c where x: "x = (a, c)" by (cases x)
  show ?case
  proof (cases c)
    case True
    then show ?thesis using Node.prems Node.IH(1) [of True n] Node.IH(2) [of True n] by (simp add: x)
  next
    case False
    then obtain m where "n = Suc m" "rb_ok False m l" "rb_ok False m r" using Node.prems by (cases n) (auto simp: x)
    then show ?thesis using Node.IH(1) [of False m] Node.IH(2) [of False m] by simp
  qed
qed simp

lemma rb_ok_size: "rb_ok pr n t \<Longrightarrow> 2 ^ n \<le> length (elems t) + 1"
proof (induction t arbitrary: pr n)
  case (Node l x r)
  obtain a c where x: "x = (a, c)" by (cases x)
  show ?case
  proof (cases c)
    case True
    then show ?thesis using Node.prems Node.IH(1) [of True n] by (simp add: x)
  next
    case False
    then obtain m where "n = Suc m" "rb_ok False m l" "rb_ok False m r" using Node.prems by (cases n) (auto simp: x)
    then show ?thesis using Node.IH(1) [of False m] Node.IH(2) [of False m] by simp
  qed
qed simp

lemma rb_height:
  assumes "rb_ok True n t"
  shows "2 ^ height t \<le> (length (elems t) + 1)\<^sup>2"
proof -
  have "(2 :: nat) ^ height t \<le> 2 ^ (2 * n)" using rb_ok_height [OF assms] by (intro power_increasing) simp_all
  also have "\<dots> = (2 ^ n)\<^sup>2" by (simp add: power_mult mult.commute)
  also have "\<dots> \<le> (length (elems t) + 1)\<^sup>2" using rb_ok_size [OF assms] by (intro power_mono) simp_all
  finally show ?thesis .
qed

subsection \<open>Loops\<close>

text \<open>A body that may take the element it is run on out of the tree, and nothing else.\<close>

definition removing :: "(ptr \<Rightarrow> bool) \<Rightarrow> (ptr \<Rightarrow> 's \<Rightarrow> 's) \<Rightarrow> 's rb_body" where
  "removing P f x us = (if P x then do { (_, s) \<leftarrow> name_RB_REMOVE x (snd us); Some (f x (fst us), s) } else Some (f x (fst us), snd us))"

lemma removing_simps:
  "P x \<Longrightarrow> name_RB_REMOVE x s = Some (y, s') \<Longrightarrow> removing P f x (u, s) = Some (f x u, s')"
  "\<not> P x \<Longrightarrow> removing P f x (u, s) = Some (f x u, s)"
  by (simp_all add: removing_def)

lemma foreach_from_loop_ok:
  "rb_list cmp s (ws @ ys) \<Longrightarrow> \<exists>s'. rb_foreach_from_loop (removing P f) (ord_first ys) (u, s) = Some (fold f ys u, s') \<and>
     rb_list cmp s' (ws @ filter (\<lambda>x. \<not> P x) ys)"
proof (induction ys arbitrary: ws u s)
  case Nil
  then show ?case by (subst rb_foreach_from_loop.simps) auto
next
  case (Cons y ys)
  have y: "y \<noteq> NULL" "y \<notin> set ws" "y \<notin> set ys" using rb.order [OF Cons.prems] ascending_distinct [of cmp "ws @ y # ys"] by auto
  have n: "name_RB_NEXT y s = Some (ord_first ys)" using rb_neighbours_ok(1) [OF Cons.prems, of y] ord_next_append [OF y(2)] by simp
  show ?case
  proof (cases "P y")
    case True
    obtain s1 where s1: "name_RB_REMOVE y s = Some (y, s1)" "rb_list cmp s1 (ws @ ys)"
      using rb_remove_ok [OF Cons.prems, of y] y(2) by (auto simp: remove1_append)
    then show ?thesis using Cons.IH [OF s1(2), of "f y u"] True y(1) n by (subst rb_foreach_from_loop.simps) (simp add: removing_simps(1) [of P y s y s1])
  next
    case False
    then show ?thesis using Cons.IH [of s "ws @ [y]" "f y u"] Cons.prems y(1) n by (subst rb_foreach_from_loop.simps) (simp add: removing_simps(2))
  qed
qed

lemma foreach_reverse_ok:
  "rb_list cmp s (ys @ ws) \<Longrightarrow> \<exists>s'. RB_FOREACH_REVERSE_FROM (removing P f) (ord_last ys) (u, s) = Some (fold f (rev ys) u, s') \<and>
     rb_list cmp s' (filter (\<lambda>x. \<not> P x) ys @ ws)"
proof (induction ys arbitrary: ws u s rule: rev_induct)
  case Nil
  then show ?case by (subst RB_FOREACH_REVERSE_FROM.simps) (auto simp: ord_last_def)
next
  case (snoc y ys)
  have rl: "rb_list cmp s (ys @ y # ws)" using snoc.prems by simp
  have y: "y \<noteq> NULL" "y \<notin> set ws" "y \<notin> set ys" using rb.order [OF rl] ascending_distinct [of cmp "ys @ y # ws"] by auto
  have n: "name_RB_PREV y s = Some (ord_last ys)" "ord_last (ys @ [y]) = y"
    using rb_neighbours_ok(2) [OF rl, of y] ord_prev_append [OF y(3)] by (simp_all add: ord_last_def)
  show ?case
  proof (cases "P y")
    case True
    obtain s1 where s1: "name_RB_REMOVE y s = Some (y, s1)" "rb_list cmp s1 (ys @ ws)"
      using rb_remove_ok [OF rl, of y] y(3) by (auto simp: remove1_append)
    then show ?thesis using snoc.IH [OF s1(2), of "f y u"] True y(1) n by (subst RB_FOREACH_REVERSE_FROM.simps) (simp add: removing_simps(1) [of P y s y s1])
  next
    case False
    then show ?thesis using snoc.IH [of s "y # ws" "f y u"] rl y(1) n by (subst RB_FOREACH_REVERSE_FROM.simps) (simp add: removing_simps(2))
  qed
qed

lemma foreach_loop_ok:
  "rb_list cmp s (ws @ ys) \<Longrightarrow> rb_foreach_loop (removing (\<lambda>_. False) f) (ord_first ys) (u, s) = Some (fold f ys u, s)"
proof (induction ys arbitrary: ws u)
  case Nil
  then show ?case by (subst rb_foreach_loop.simps) auto
next
  case (Cons y ys)
  have y: "y \<noteq> NULL" "y \<notin> set ws" using rb.order [OF Cons.prems] ascending_distinct [of cmp "ws @ y # ys"] by auto
  have n: "name_RB_NEXT y s = Some (ord_first ys)" using rb_neighbours_ok(1) [OF Cons.prems, of y] ord_next_append [OF y(2)] by simp
  then show ?case using Cons.IH [of "ws @ [y]" "f y u"] Cons.prems y(1) by (subst rb_foreach_loop.simps) (simp add: removing_simps(2))
qed

subsection \<open>Properties\<close>

text \<open>
  C3: A red-black tree refines the ordered list of its elements. Started by \<open>RB_INIT\<close>, every sequence of
  find, insert, remove, minimum, maximum and successor calls within the contract, on elements at even
  addresses, returns, touches allocated elements only, answers every call as the list does and leaves a
  tree with the elements of the list, in order.
\<close>
theorem rb_tree_refines_ordered_list:
  assumes "cmp_ok cmp" "ord_run cmp cs [] = Some (rs, xs)" "(\<Union>c \<in> set cs. op_elm c) \<subseteq> rb_mem s"
  shows "\<exists>s'. tree_run (rb_ops cmp) cs (RB_INIT s) = Some (rs, s') \<and> rb_list cmp s' xs \<and> rb_mem s' = rb_mem s"
  using rb.run_refines [OF rb_list_init [OF assms(1)] assms(2)] assms(3) by (simp add: rb_mem_def RB_INIT_def)

text \<open>
  C2: Insertion and removal keep a red-black tree balanced: the root is black, no red element has a red
  child, every way from the root down passes the same number of black elements, each parent link leads
  to the parent, and the height of a tree of \<open>n\<close> elements is at most \<open>2 * log 2 (n + 1)\<close>. Insertion changes
  the links of the elements and the new element only, removal those of the elements only.
\<close>
theorem rb_insert_remove_balanced:
  assumes "rb_list cmp s xs" "e \<in> rb_mem s" "e \<noteq> NULL"
  shows "\<exists>s' t n. (if e \<in> set xs then name_RB_REMOVE e s = Some (e, s') else name_RB_INSERT cmp e s = Some (ord_find cmp e xs, s')) \<and>
     rb_tree_at (rb_nodes s') NULL t \<and> rbh_root s' = rb_addr t \<and> elems t = (if e \<in> set xs then remove1 e xs else ord_insert cmp e xs) \<and>
     rb_ok True n t \<and> 2 ^ height t \<le> (length (elems t) + 1)\<^sup>2 \<and> only (insert e (set xs)) (rb_nodes s) (rb_nodes s')"
proof -
  obtain s' where s': "if e \<in> set xs then name_RB_REMOVE e s = Some (e, s') else name_RB_INSERT cmp e s = Some (ord_find cmp e xs, s')"
    "rb_list cmp s' (if e \<in> set xs then remove1 e xs else ord_insert cmp e xs)" "only (insert e (set xs)) (rb_nodes s) (rb_nodes s')"
  proof (cases "e \<in> set xs")
    case True
    then show ?thesis using that rb_remove_ok [OF assms(1) True] by (auto simp: insert_absorb)
  next
    case False
    then show ?thesis using that rb_insert_ok [OF assms(1), of e] assms(2,3) by (auto simp: rb_mem_def)
  qed
  then show ?thesis unfolding rb_list_def using rb_height by blast
qed

text \<open>
  C25: The look-ups of a red-black tree: \<open>RB_FIND\<close> returns the equal element, \<open>RB_NFIND\<close> the first element that
  is not less than the key, \<open>RB_MIN\<close> and \<open>RB_MAX\<close> the ends, \<open>NULL\<close> where there is none; \<open>RB_NEXT\<close> and \<open>RB_PREV\<close>, which
  follow parent links, the neighbours in the order. None of them changes the tree.
\<close>
theorem rb_lookups:
  assumes "rb_list cmp s xs" "rb_nodes s e \<noteq> None"
  shows "name_RB_FIND cmp e s = Some (ord_find cmp e xs) \<and> name_RB_NFIND cmp e s = Some (ord_first (filter (\<lambda>x. cmp e x \<le> 0) xs)) \<and>
     RB_MIN s = Some (ord_first xs) \<and> RB_MAX s = Some (ord_last xs) \<and>
     (e \<in> set xs \<longrightarrow> name_RB_NEXT e s = Some (ord_next e xs) \<and> name_RB_PREV e s = Some (ord_prev e xs))"
proof -
  have "ord_nfind cmp e xs NULL = ord_first (filter (\<lambda>x. cmp e x \<le> 0) xs)" by (induction xs) (simp_all add: ord_nfind_def)
  then show ?thesis using rb_find_ok [OF assms] rb_minmax_ok [OF assms(1)] rb_neighbours_ok [OF assms(1)] by simp
qed

text \<open>
  C15: The loops over a red-black tree end. \<open>RB_FOREACH\<close> runs its body once for every element, in ascending
  order. \<open>RB_FOREACH_SAFE\<close> does so even when the body removes the elements it is run on: those it removes,
  and no others, are gone at the end. \<open>RB_FOREACH_REVERSE_FROM\<close> goes down from its element in the same way.
\<close>
theorem rb_foreach_ends:
  assumes "rb_list cmp s (xs @ ys)"
  shows "(xs = [] \<longrightarrow> RB_FOREACH (removing (\<lambda>_. False) f) (u, s) = Some (fold f ys u, s)) \<and>
     (xs = [] \<longrightarrow> (\<exists>s'. RB_FOREACH_SAFE (removing P f) (u, s) = Some (fold f ys u, s') \<and> rb_list cmp s' (filter (\<lambda>x. \<not> P x) ys))) \<and>
     (\<exists>s'. RB_FOREACH_FROM (removing P f) (ord_first ys) (u, s) = Some (fold f ys u, s') \<and> rb_list cmp s' (xs @ filter (\<lambda>x. \<not> P x) ys)) \<and>
     (\<exists>s'. RB_FOREACH_REVERSE_FROM (removing P f) (ord_last xs) (u, s) = Some (fold f (rev xs) u, s') \<and> rb_list cmp s' (filter (\<lambda>x. \<not> P x) xs @ ys))"
  using foreach_from_loop_ok [OF assms, of P f u] foreach_reverse_ok [OF assms, of P f u] foreach_loop_ok [OF assms, of f u] rb_minmax_ok(1) [OF assms]
  by (auto simp: RB_FOREACH_def RB_FOREACH_SAFE_def RB_FOREACH_FROM_def)

subsection \<open>Instances\<close>

definition rb_pair :: rb_head where
  "rb_pair = \<lparr>rbh_root = 0x20, rb_nodes = [0x10 \<mapsto> \<lparr>rbe_left = NULL, rbe_right = NULL, rbe_parent = 0x21\<rparr>,
     0x20 \<mapsto> \<lparr>rbe_left = 0x10, rbe_right = NULL, rbe_parent = NULL\<rparr>, 0x30 \<mapsto> \<lparr>rbe_left = 7, rbe_right = 7, rbe_parent = 7\<rparr>]\<rparr>"

lemma rb_pair_list: "rb_list addr_cmp rb_pair [0x10, 0x20]"
proof -
  have "rb_tree_at (rb_nodes rb_pair) NULL (Node (Node Leaf (0x10, True) Leaf) (0x20, False) Leaf)"
    by (simp add: rb_pair_def even_ptr_def tag_def)
  moreover have "rb_ok True 1 (Node (Node Leaf (0x10, True) Leaf) (0x20, False) Leaf)" by simp
  moreover have "ascending addr_cmp [0x10, 0x20]" by (simp add: ascending_def addr_cmp_def)
  ultimately show ?thesis using addr_cmp_ok unfolding rb_list_def by (fastforce simp: rb_pair_def)
qed

theorem rb_tree_refines_ordered_list_witness:
  "\<exists>s'. tree_run (rb_ops addr_cmp) [Insert_op 0x20, Insert_op 0x10, Insert_op 0x30, Min_op, Next_op 0x10, Remove_op 0x20, Max_op] (RB_INIT rb_pair) =
     Some ([NULL, NULL, NULL, 0x10, 0x20, 0x20, 0x30], s') \<and> rb_list addr_cmp s' [0x10, 0x30]"
proof -
  have "ord_run addr_cmp [Insert_op 0x20, Insert_op 0x10, Insert_op 0x30, Min_op, Next_op 0x10, Remove_op 0x20, Max_op] [] =
      Some ([NULL, NULL, NULL, 0x10, 0x20, 0x20, 0x30], [0x10, 0x30])"
    by (simp add: ord_find_def ord_insert_def ord_next_def ord_last_def addr_cmp_def)
  then show ?thesis
    using rb_tree_refines_ordered_list [OF addr_cmp_ok, of _ _ _ rb_pair] by (fastforce simp: rb_pair_def rb_mem_def even_ptr_def)
qed

theorem rb_insert_remove_balanced_witness:
  "\<exists>s' t n. name_RB_INSERT addr_cmp 0x30 rb_pair = Some (NULL, s') \<and> elems t = [0x10, 0x20, 0x30] \<and> rb_ok True n t \<and> rbh_root s' = rb_addr t"
proof -
  have "(0x30 :: ptr) \<in> rb_mem rb_pair" "ord_find addr_cmp 0x30 [0x10, 0x20] = NULL" "ord_insert addr_cmp 0x30 [0x10, 0x20] = [0x10, 0x20, 0x30]"
    by (simp_all add: rb_pair_def rb_mem_def even_ptr_def ord_find_def ord_insert_def addr_cmp_def)
  then show ?thesis using rb_insert_remove_balanced [OF rb_pair_list, of "0x30"] by auto
qed

theorem rb_lookups_witness:
  "name_RB_FIND addr_cmp 0x10 rb_pair = Some 0x10 \<and> name_RB_NFIND addr_cmp 0x10 rb_pair = Some 0x10 \<and> name_RB_NEXT 0x10 rb_pair = Some 0x20 \<and>
     name_RB_PREV 0x10 rb_pair = Some NULL \<and> RB_MAX rb_pair = Some 0x20"
  using rb_lookups [OF rb_pair_list, of "0x10"]
  by (simp add: rb_pair_def ord_find_def ord_next_def ord_prev_def ord_last_def addr_cmp_def)

theorem rb_foreach_ends_witness:
  "\<exists>s'. RB_FOREACH_SAFE (removing (\<lambda>_. True) (\<lambda>x u. u @ [x])) ([], rb_pair) = Some ([0x10, 0x20], s') \<and> rb_list addr_cmp s' []"
  using rb_foreach_ends [where xs = "[]" and ys = "[0x10, 0x20]" and P = "\<lambda>_. True" and f = "\<lambda>x u. u @ [x]" and u = "[]", simplified, OF rb_pair_list]
  by auto

end
