(* ===== verification/Spec2Isabelle.thy ===== *)
theory Spec2Isabelle
  imports Arith64 Arith128 Kmod KQueueElements CircleQueue Bits SysTailQ SysCircleQ PQueueRefine KPktQ KCData SkyCommon ByteOrder PacketFinalizeLaws FlowKey SplayLaws RBTreeLaws
begin

text \<open>
  A verification library for MacKernelSDK, the headers and the static library (libkmod) against which
  third-party kernel extensions for macOS are built.

  \<^bold>\<open>The program.\<close> Most of the repository declares interfaces of the kernel. The code it ships, which is
  compiled into every extension that uses it, is in the sources of libkmod under Library/kmod and in
  the inline functions and macros of the headers under Headers. These are the parts modelled here:

  \<^item> Library/kmod/i386_builtins.c, the 64-bit integer routines of a 32-bit extension (theory \<open>Arith64\<close>), and
    the entry points c_start.c, c_stop.c, cplus_start.c, cplus_stop.c (theory \<open>Kmod\<close>).
  \<^item> kern/queue.h, both methods, and kern/circle_queue.h: intrusive doubly linked queues
    (theories \<open>KQueue\<close>, \<open>KQueueElements\<close>, \<open>CircleQueue\<close> on the heap of \<open>QueueHeap\<close>).
  \<^item> sys/queue.h: the SLIST, STAILQ, LIST, TAILQ and CIRCLEQ macros (theories \<open>SysSQueue\<close>, \<open>SysTailQ\<close> on the pointer
    cells of \<open>CellMem\<close>, and \<open>SysCircleQ\<close>).
  \<^item> kern/priority_queue.h: priority queues on pairing heaps (theories \<open>PQueue\<close>, \<open>PQueueRefine\<close>).
  \<^item> libkern/tree.h: splay trees (theories \<open>SplayTree\<close>, \<open>SplayLaws\<close>) and red-black trees (\<open>RBTree\<close>, and their laws in
    \<open>RBTreeMem\<close>, \<open>RBTreeRecolor\<close>, \<open>RBTreeLaws\<close>).
  \<^item> kern/bits.h: bit operations and bitmaps (theory \<open>Bits\<close>).
  \<^item> kern/kcdata.h: the iterators over tagged data buffers (theory \<open>KCData\<close> on the bytes of \<open>ByteMem\<close>).
  \<^item> skywalk/packet/packet_queue.h: queues of network packets (theory \<open>KPktQ\<close>, on the STAILQ lemmas).
  \<^item> skywalk/core/skywalk_common.h: block copies and masked comparison (theory \<open>SkyCommon\<close>).
  \<^item> skywalk/packet/os_packet_private.h, packet_var.h and packet_common.h: network packets, in the kernel. The
    objects (buflets, quanta, packets, options, buffer controls) and the memory that holds them are in
    \<open>PacketMem\<close>, their construction, copying and exchange with user space in \<open>PacketObj\<close>, the accessors
    in \<open>PacketMeta\<close> and \<open>PacketMetaLaws\<close>, buflet chains, finalisation and completion in \<open>PacketFinalize\<close> and
    \<open>PacketFinalizeLaws\<close>.
  \<^item> skywalk/nexus/flowswitch/flow/flow_var.h and the flow keys and requests of skywalk/nexus/os_nexus_private.h (theory \<open>FlowKey\<close>).
  \<^item> kern/arithmetic_128.h, IOKit/audio/BigNum128.h and os/overflow.h: wide and checked arithmetic
    (theory \<open>Arith128\<close>).
  \<^item> libkern/OSByteOrder.h with its parts and architecture/byte_order.h (theory \<open>ByteOrder\<close>).

  \<^bold>\<open>How the code is modelled.\<close> The target is the little-endian LP64 kernel (the i386 builtins excepted). C
  integers are words of their width, so that they wrap around; where C leaves an operation
  undefined (a shift by the width, a signed overflow) the model has no value. A pointer is a
  64-bit word. Memory is a map, from addresses to linkages (\<open>QueueHeap\<close>), to pointer cells (\<open>CellMem\<close>), to
  heap entries (\<open>PQueue\<close>), to the links of tree elements (\<open>SplayTree\<close>, \<open>RBTree\<close>) or to bytes (\<open>ByteMem\<close>);
  a load or a store at an address the map does not hold is a fault, the value \<open>None\<close> of the option monad, and so is a failed assertion. A theorem
  that an operation returns therefore also says that it touches allocated memory only and fails
  no assertion. A function keeps the name it has in C, without leading underscores; a macro that
  takes a statement or a field takes a function or an offset here. A structure is a record, and
  every function and macro is one definition that follows its statements in order.

  A loop over linked memory need not end on arbitrary memory, so it is a \<open>partial_function\<close> in the
  option monad, in which not returning is \<open>None\<close>; the theorems prove that it returns, on every
  well-formed structure, and what it returns. No fuel is used. Loops over counters end by the
  counter, and the theorems state the bounds they need.

  \<^bold>\<open>Abstract specifications and interfaces.\<close> \<open>DequeSpec\<close> states what a linked queue promises as three locales, each
  extending the one before: \<open>stack\<close>, \<open>tail_queue\<close> and \<open>deque\<close>; in each, every sequence of operations is
  proved to answer as the abstract list does. They are interpreted by kern/queue.h (both methods),
  circle_queue.h, SLIST and LIST (stack), STAILQ (tail_queue), TAILQ and CIRCLEQ (deque). \<open>OrderedSpec\<close> states in the same way what an ordered
  tree promises, the locale \<open>search_tree\<close>: the abstract tree is the ascending list of its elements; splay trees and
  red-black trees interpret it. \<open>PQueueRefine\<close> has the abstract priority
  queue (a set with ranks); its locales state the contracts of a comparator and of
  \<open>pqueue_pair_meld\<close>, which the headers only declare. \<open>KPktQ\<close> has the contract of a packet queue with its counter, \<open>SkyCommon\<close> that of a
  masked block comparison, under which the vector routines of the kernel are parameters. \<open>PacketMetaLaws\<close> has
  the contract of a flag of a packet with its setter and getter, which nine pairs of accessors satisfy. Every
  locale is interpreted on the definitions of the model.

  \<^bold>\<open>What the theorems show.\<close> For each queue: a representation predicate that every operation preserves, the
  refinement of the abstract queue, editing at any place, concatenation and exchange, and
  iteration in order, with removal in the body for the safe forms. For the priority queue: the
  refinement of the abstract one, sorted draining, restoration of the order after a change of
  priority, and the packing of pointers, keys and flags. For the trees: the refinement of the ordered
  list by every sequence of calls, what each look-up returns, that a splay brings the key to the root,
  that insertion and removal keep a red-black tree balanced with the height the header promises, and
  that the loops end, with removal in the body for the safe forms. For the integer routines: each equals the
  mathematical operation, division, remainder, shifts, counting of zeros and ones, the 128-bit
  product. For kcdata: iteration visits exactly the whole items and reads nothing outside the
  buffer, whatever its bytes are, for buffers that keep the largest size of an item away from the end of
  the address space (nearer to it the sums in the code wrap, and an instance shows iteration leaving the
  buffer); what the accessors return; encoding and iteration round trip. For the byte-level code:
  copies copy and change nothing else, the blockwise comparison decides the same as the scalar
  one, swaps reverse bytes, and stores and loads of either byte order round trip. For packets: a
  constructed packet is well typed, user space and kernel see only what they may of each other's
  copy, buffer use counts are the numbers of references after every sequence of operations on buflets,
  accessors round trip and are independent, a checksum that is updated is the recomputed one up to the two
  representations of zero, buflets form a chain, the verdict of finalisation, the bounds of finalised
  data with the two cases in which the code does not check them (an attached mbuf, a sum that wraps), and
  which completion callbacks are called, in which order, whatever they do. For flow keys: what matches, how
  the comparison under a byte mask differs from that of the fields, which requests have a key, that a key does not depend on the
  direction of a packet, and that requests leave kernel members behind at the boundary. For the entry points: the
  order of calls, and that over any sequence of them initialisations and finalisations of the C++ runtime
  balance with the starts that succeeded and the stops that were not refused. Where the
  code does not do what it means to, a theorem states what it does (the comparison operators of
  \<open>U128\<close>, the result of a splay tree's removal, the 8-bit keys of the priority queue, the
  NX functions on \<open>unsigned long\<close>).

  \<^bold>\<open>Parameters.\<close> Code that the repository only declares is a parameter with its documented contract: the
  entry points of the extension and the C++ runtime hooks (\<open>Kmod\<close>), the kernel allocator (\<open>Bits\<close>),
  \<open>pqueue_pair_meld\<close> (\<open>PQueue\<close>), the comparison function of a tree (\<open>SplayTree\<close>, \<open>RBTree\<close>),
  \<open>os_memcmp_mask\<close> (\<open>SkyCommon\<close>), \<open>m_pktlen\<close>, \<open>m_nextpkt\<close>, the look-up of completion callbacks
  and the callbacks themselves, of which nothing is assumed (\<open>PacketFinalize\<close>), \<open>net_flowhash\<close> and the tests on socket addresses (\<open>FlowKey\<close>).

  \<^bold>\<open>Not modelled.\<close> Headers that only declare functions, classes, constants and structures (IOKit, mach, bsd,
  security, USB, Bluetooth, HID) have no behaviour to model. Macros that only generate
  declarations or emit assembly or trace records are left out, as are the atomic operations, whose
  meaning lies in concurrency. Of the packet accessors the VLAN identifier and priority are left out
  (their macros are not in the repository), and so are the checksums over data, which are only declared. Of
  the flow keys \<open>flow_key_unpack\<close> is left out, whose socket addresses the headers do not define. In the
  red-black trees \<open>RB_AUGMENT\<close> is the default of the header, which does nothing: what a client
  computes in its place is not followed. The amortised cost of splaying is not stated.
\<close>

end
